(* ===== verification/Prelude.thy ===== *)
theory Prelude
  imports Main "HOL-Library.Word"
begin

text \<open>
  What every component of the development shares: the faults a C++ operation can end in, the
  error-propagating bind, raw memory blocks of bytes with bounds-checked reads and writes, and the
  little-endian representation of machine integers that \<open>memcpy\<close> from and to a variable gives
  on x86-64.
\<close>

unbundle bit_operations_syntax

named_theorems mem_simps "facts about bounds-checked block reads and writes"
named_theorems wf_intros "well-formedness is preserved"

subsection \<open>Faults and error propagation\<close>

text \<open>
  Undefined behaviour and deliberate crashes of the source are values: an access outside an
  allocated block, a signed 32-bit overflow, locking a mutex the thread already holds, a null pointer,
  a division by zero, and \<open>Logger::Crash\<close> (or the end of the program the runtime forces).
\<close>

datatype fault = OutOfBounds | SignedOverflow | SelfDeadlock | NullDeref | DivideByZero | Crashed

definition ebind :: "'e + 'a \<Rightarrow> ('a \<Rightarrow> 'e + 'b) \<Rightarrow> 'e + 'b" where
  "ebind m f = (case m of Inl e \<Rightarrow> Inl e | Inr a \<Rightarrow> f a)"

lemma ebind_Inl [simp]: "ebind (Inl e) f = Inl e"
  by (simp add: ebind_def)

lemma ebind_Inr [simp]: "ebind (Inr a) f = f a"
  by (simp add: ebind_def)

lemma ebind_eq_Inr: "ebind m f = Inr b \<longleftrightarrow> (\<exists>a. m = Inr a \<and> f a = Inr b)"
  by (cases m) auto

lemma ebind_eq_Inl: "ebind m f = Inl e \<longleftrightarrow> m = Inl e \<or> (\<exists>a. m = Inr a \<and> f a = Inl e)"
  by (cases m) auto

lemma ebind_assoc: "ebind (ebind m f) g = ebind m (\<lambda>a. ebind (f a) g)"
  by (cases m) auto

subsection \<open>Machine integers\<close>

type_synonym byte = "8 word"
type_synonym u16 = "16 word"
type_synonym u32 = "32 word"
type_synonym u64 = "64 word"

text \<open>The value of a signed 32-bit expression, or the fault of its overflow.\<close>

definition chk32 :: "int \<Rightarrow> fault + int" where
  "chk32 x = (if - (2 ^ 31) \<le> x \<and> x < 2 ^ 31 then Inr x else Inl SignedOverflow)"

lemma chk32_in_range [simp]: "- (2 ^ 31) \<le> x \<Longrightarrow> x < 2 ^ 31 \<Longrightarrow> chk32 x = Inr x"
  by (simp add: chk32_def)

lemma chk32_eq_Inr: "chk32 x = Inr y \<longleftrightarrow> y = x \<and> - (2 ^ 31) \<le> x \<and> x < 2 ^ 31"
  by (auto simp: chk32_def)

subsection \<open>Memory blocks\<close>

text \<open>
  An allocated block is the list of its bytes. \<open>rd_mem b off n\<close> is what a \<open>memcpy\<close> of
  \<open>n\<close> bytes from offset \<open>off\<close> reads, \<open>wr_mem b off bs\<close> the block after a
  \<open>memcpy\<close> of \<open>bs\<close> to offset \<open>off\<close>. Offsets and sizes are the signed ints of the
  source: a negative size becomes a huge \<open>size_t\<close> and is out of bounds.
\<close>

definition rd_mem :: "byte list \<Rightarrow> int \<Rightarrow> int \<Rightarrow> fault + byte list" where
  "rd_mem b off n =
     (if 0 \<le> off \<and> 0 \<le> n \<and> off + n \<le> int (length b)
      then Inr (take (nat n) (drop (nat off) b)) else Inl OutOfBounds)"

definition wr_mem :: "byte list \<Rightarrow> int \<Rightarrow> byte list \<Rightarrow> fault + byte list" where
  "wr_mem b off bs =
     (if 0 \<le> off \<and> off + int (length bs) \<le> int (length b)
      then Inr (take (nat off) b @ bs @ drop (nat off + length bs) b) else Inl OutOfBounds)"

lemma rd_mem_ok:
  "0 \<le> off \<Longrightarrow> 0 \<le> n \<Longrightarrow> off + n \<le> int (length b) \<Longrightarrow>
   rd_mem b off n = Inr (take (nat n) (drop (nat off) b))"
  by (simp add: rd_mem_def)

lemma wr_mem_ok:
  "0 \<le> off \<Longrightarrow> off + int (length bs) \<le> int (length b) \<Longrightarrow>
   wr_mem b off bs = Inr (take (nat off) b @ bs @ drop (nat off + length bs) b)"
  by (simp add: wr_mem_def)

lemma rd_mem_eq_Inr:
  "rd_mem b off n = Inr bs \<longleftrightarrow>
   0 \<le> off \<and> 0 \<le> n \<and> off + n \<le> int (length b) \<and> bs = take (nat n) (drop (nat off) b)"
  by (auto simp: rd_mem_def)

lemma wr_mem_eq_Inr:
  "wr_mem b off bs = Inr b' \<longleftrightarrow>
   0 \<le> off \<and> off + int (length bs) \<le> int (length b) \<and>
   b' = take (nat off) b @ bs @ drop (nat off + length bs) b"
  by (auto simp: wr_mem_def)

lemma length_wr_mem [mem_simps]: "wr_mem b off bs = Inr b' \<Longrightarrow> length b' = length b"
  by (auto simp: wr_mem_eq_Inr)

lemma length_rd_mem [mem_simps]: "rd_mem b off n = Inr bs \<Longrightarrow> int (length bs) = n"
  by (auto simp: rd_mem_eq_Inr)

text \<open>Reading back what was written, and reading beside it.\<close>

lemma rd_wr_mem_same:
  "wr_mem b off bs = Inr b' \<Longrightarrow> rd_mem b' off (int (length bs)) = Inr bs"
  by (auto simp: wr_mem_eq_Inr rd_mem_def)

lemma take_wr_mem:
  "wr_mem b off bs = Inr b' \<Longrightarrow> k \<le> nat off \<Longrightarrow> take k b' = take k b"
  by (auto simp: wr_mem_eq_Inr min_absorb1)

lemma drop_wr_mem:
  "wr_mem b off bs = Inr b' \<Longrightarrow> nat off + length bs \<le> k \<Longrightarrow> drop k b' = drop k b"
  by (auto simp: wr_mem_eq_Inr min_absorb2)

text \<open>The same on a block whose parts are known.\<close>

lemma rd_mem_append:
  "off = int (length A) \<Longrightarrow> n = int (length X) \<Longrightarrow> rd_mem (A @ X @ C) off n = Inr X"
  by (simp add: rd_mem_def)

lemma wr_mem_append:
  "off = int (length A) \<Longrightarrow> length X = length Y \<Longrightarrow> wr_mem (A @ X @ C) off Y = Inr (A @ Y @ C)"
  by (simp add: wr_mem_def)

text \<open>The bytes of a block between two offsets.\<close>

definition window :: "byte list \<Rightarrow> int \<Rightarrow> int \<Rightarrow> byte list" where
  "window b i j = take (nat (j - i)) (drop (nat i) b)"

lemma length_window:
  "0 \<le> i \<Longrightarrow> i \<le> j \<Longrightarrow> j \<le> int (length b) \<Longrightarrow>
   length (window b i j) = nat (j - i)"
  by (simp add: window_def)

lemma window_empty [simp]: "window b i i = []"
  by (simp add: window_def)

lemma window_append:
  assumes "0 \<le> i" "i \<le> j" "j \<le> k"
  shows "window b i k = window b i j @ window b j k"
proof -
  have "nat (k - i) = nat (j - i) + nat (k - j)" and "nat j = nat (j - i) + nat i"
    using assms by simp_all
  then show ?thesis
    by (simp add: window_def take_add drop_drop add.commute)
qed

lemma window_wr_mem_same:
  "wr_mem b off bs = Inr b' \<Longrightarrow> window b' off (off + int (length bs)) = bs"
  by (auto simp: window_def wr_mem_eq_Inr)

lemma window_wr_mem_below:
  assumes w: "wr_mem b off bs = Inr b'" and "0 \<le> i" "j \<le> off"
  shows "window b' i j = window b i j"
proof (cases "i < j")
  case True
  then have "take (nat (j - i) + nat i) b' = take (nat (j - i) + nat i) b"
    using assms by (intro take_wr_mem [OF w]) auto
  then show ?thesis by (simp add: window_def take_drop)
next
  case False
  then show ?thesis by (simp add: window_def)
qed

lemma window_wr_mem_above:
  assumes w: "wr_mem b off bs = Inr b'" and "off + int (length bs) \<le> i"
  shows "window b' i j = window b i j"
proof -
  have "nat off + length bs \<le> nat i"
    using assms by (auto simp: wr_mem_eq_Inr)
  then show ?thesis by (simp add: window_def drop_wr_mem [OF w])
qed

subsection \<open>Little-endian integers\<close>

definition le_bytes :: "nat \<Rightarrow> 'a::len word \<Rightarrow> byte list" where
  "le_bytes n w = map (\<lambda>i. ucast (drop_bit (8 * i) w)) [0..<n]"

fun le_word :: "byte list \<Rightarrow> 'a::len word" where
  "le_word [] = 0"
| "le_word (b # bs) = ucast b OR push_bit 8 (le_word bs)"

lemma length_le_bytes [simp]: "length (le_bytes n w) = n"
  by (simp add: le_bytes_def)

lemma bit_le_word:
  "bit (le_word bs :: 'a::len word) k \<longleftrightarrow>
   k < LENGTH('a) \<and> k div 8 < length bs \<and> bit (bs ! (k div 8)) (k mod 8)"
proof (induction bs arbitrary: k)
  case Nil
  then show ?case by simp
next
  case (Cons b bs)
  show ?case
  proof (cases "k < 8")
    case True
    then show ?thesis by (auto simp: bit_simps)
  next
    case False
    then obtain m where k: "k = 8 + m" using le_Suc_ex by (metis not_less)
    have "\<not> bit b k" using False by (simp add: bit_imp_le_length linorder_not_less bit_word.rep_eq) 
    moreover have "k div 8 = Suc (m div 8)" and "k mod 8 = m mod 8" using k by simp_all
    ultimately show ?thesis using Cons.IH [of m] k
      by (auto simp: bit_simps dest: bit_imp_le_length)
  qed
qed

lemma le_word_le_bytes:
  fixes w :: "'a::len word"
  assumes "LENGTH('a) = 8 * n"
  shows "le_word (le_bytes n w) = w"
proof (rule bit_word_eqI)
  fix k assume k: "k < LENGTH('a)"
  with assms have "k div 8 < n" by simp
  moreover have "8 * (k div 8) + k mod 8 = k" by simp
  ultimately show "bit (le_word (le_bytes n w) :: 'a word) k = bit w k"
    using k by (simp add: bit_le_word le_bytes_def bit_simps)
qed

lemma le_bytes_le_word:
  assumes "LENGTH('a::len) = 8 * n" "length bs = n"
  shows "le_bytes n (le_word bs :: 'a word) = bs"
proof (rule nth_equalityI)
  show "length (le_bytes n (le_word bs :: 'a word)) = length bs" using assms by simp
  fix i assume "i < length (le_bytes n (le_word bs :: 'a word))"
  then have i: "i < n" by simp
  show "le_bytes n (le_word bs :: 'a word) ! i = bs ! i"
  proof (rule bit_word_eqI)
    fix k assume k: "k < LENGTH(8)"
    then have "(8 * i + k) div 8 = i" "(8 * i + k) mod 8 = k" by auto
    with i k assms show "bit (le_bytes n (le_word bs :: 'a word) ! i) k = bit (bs ! i) k"
      by (simp add: le_bytes_def bit_simps bit_le_word)
  qed
qed

lemma sint_of_nat_less: "n < 2 ^ 31 \<Longrightarrow> sint (of_nat n :: u32) = int n"
  by (simp add: signed_of_nat signed_take_bit_int_eq_self)

end
