(* ===== verification/IniConfig.thy ===== *)
theory IniConfig
  imports Prelude "HOL-Library.Char_ord" "HOL-Library.List_Lexorder"
begin

text \<open>
  The INI loader \<open>Config\<close> (BaseLibrary/include/Config.h, BaseLibrary/src/Config.cpp). A
  \<open>std::string\<close> is a list of bytes (\<open>char\<close>), a \<open>std::map\<close> keyed by strings a list of
  pairs kept sorted by the lexicographic order of unsigned bytes, which is the order
  \<open>GetUnusedKeys\<close> iterates in. \<open>long\<close> has 32 bits, as on the Windows target.
\<close>

subsection \<open>Sorted maps\<close>

fun smap_put :: "'k::linorder \<Rightarrow> 'v \<Rightarrow> ('k \<times> 'v) list \<Rightarrow> ('k \<times> 'v) list" where
  "smap_put k v [] = [(k, v)]"
| "smap_put k v ((k', v') # m) =
     (if k < k' then (k, v) # (k', v') # m
      else if k = k' then (k, v) # m
      else (k', v') # smap_put k v m)"

lemma map_of_smap_put: "map_of (smap_put k v m) = (map_of m)(k \<mapsto> v)"
  by (induction m) (auto simp: fun_eq_iff)

lemma keys_smap_put: "fst ` set (smap_put k v m) = insert k (fst ` set m)"
proof (induction m)
  case Nil
  then show ?case by simp
next
  case (Cons kv m)
  then show ?case by (cases kv) (simp add: insert_commute)
qed

lemma sorted_smap_put:
  "sorted_wrt (<) (map fst m) \<Longrightarrow> sorted_wrt (<) (map fst (smap_put k v m))"
proof (induction m)
  case Nil
  then show ?case by simp
next
  case (Cons kv m)
  obtain k' v' where kv: "kv = (k', v')" by (cases kv)
  have set: "set (map fst (smap_put k v m)) = insert k (set (map fst m))"
    using keys_smap_put [of k v m] by simp
  from Cons kv set show ?case by (auto simp: not_less)
qed

locale string_map =
  fixes look :: "'m \<Rightarrow> 'k \<Rightarrow> 'v option"
    and store :: "'k \<Rightarrow> 'v \<Rightarrow> 'm \<Rightarrow> 'm"
    and minv :: "'m \<Rightarrow> bool"
  assumes look_store: "minv m \<Longrightarrow> look (store k v m) = (look m)(k \<mapsto> v)"
    and minv_store: "minv m \<Longrightarrow> minv (store k v m)"
begin

lemma look_store_same: "minv m \<Longrightarrow> look (store k v m) k = Some v"
  by (simp add: look_store)

lemma look_store_other: "minv m \<Longrightarrow> k' \<noteq> k \<Longrightarrow> look (store k v m) k' = look m k'"
  by (simp add: look_store)

end

interpretation smap: string_map map_of smap_put "\<lambda>m. sorted_wrt (<) (map fst m)"
  by unfold_locales (simp_all only: map_of_smap_put sorted_smap_put)

subsection \<open>Text helpers\<close>

definition is_blank :: "char \<Rightarrow> bool" where
  "is_blank c \<longleftrightarrow> c = CHR '' '' \<or> c = CHR 0x09"

definition Trim :: "string \<Rightarrow> string" where
  "Trim text = rev (dropWhile is_blank (rev (dropWhile is_blank text)))"

definition StripInlineComment :: "string \<Rightarrow> string" where
  "StripInlineComment text = takeWhile (\<lambda>c. c \<noteq> CHR '';'' \<and> c \<noteq> CHR ''#'') text"

definition is_digit :: "char \<Rightarrow> bool" where
  "is_digit c \<longleftrightarrow> CHR ''0'' \<le> c \<and> c \<le> CHR ''9''"

definition digit_val :: "char \<Rightarrow> int" where
  "digit_val c = int (of_char c) - 48"

definition digits_val :: "string \<Rightarrow> int" where
  "digits_val ds = foldl (\<lambda>v c. 10 * v + digit_val c) 0 ds"

text \<open>
  \<open>strtol(s, &end, 10)\<close>: the converted value, saturated at the ends of the 32-bit range, and the
  rest of the text after the number; \<open>None\<close> when no digit was found, so that \<open>end\<close> is the start.
\<close>

definition c_isspace :: "char \<Rightarrow> bool" where
  "c_isspace c \<longleftrightarrow> c = CHR '' '' \<or> (CHR 0x09 \<le> c \<and> c \<le> CHR 0x0D)"

definition saturate32 :: "int \<Rightarrow> int" where
  "saturate32 x = max (- (2 ^ 31)) (min (2 ^ 31 - 1) x)"

definition strtol10 :: "string \<Rightarrow> (int \<times> string) option" where
  "strtol10 s =
     (let t = dropWhile c_isspace s;
          neg = (t \<noteq> [] \<and> hd t = CHR ''-'');
          u = (if t \<noteq> [] \<and> (hd t = CHR ''-'' \<or> hd t = CHR ''+'') then tl t else t);
          ds = takeWhile is_digit u
      in if ds = [] then None
         else Some (saturate32 (if neg then - digits_val ds else digits_val ds),
                    dropWhile is_digit u))"

text \<open>The parsers return \<open>None\<close> for false, otherwise the value of the out parameter.\<close>

definition ParseInt :: "string \<Rightarrow> int option" where
  "ParseInt text =
     (if text = [] then None
      else case strtol10 text of
        None \<Rightarrow> None
      | Some (parsed, rest) \<Rightarrow> if rest \<noteq> [] then None else Some parsed)"

definition to_lower :: "char \<Rightarrow> char" where
  "to_lower c = (if CHR ''A'' \<le> c \<and> c \<le> CHR ''Z'' then char_of (of_char c - 65 + 97 :: nat) else c)"

definition ParseBool :: "string \<Rightarrow> bool option" where
  "ParseBool text =
     (let lower = map to_lower text
      in if lower = ''true'' \<or> lower = ''1'' then Some True
         else if lower = ''false'' \<or> lower = ''0'' then Some False
         else None)"

fun to_string :: "nat \<Rightarrow> string" where
  "to_string n = (if n < 10 then [char_of (48 + n)] else to_string (n div 10) @ [char_of (48 + n mod 10)])"

declare to_string.simps [simp del]

subsection \<open>State\<close>

record cfg_entry =
  Value :: string
  LineNo :: nat
  Used :: bool

type_synonym section_table = "(string \<times> cfg_entry) list"

record config =
  Sections :: "(string \<times> section_table) list"
  LastError :: string
  DefaultedKeys :: string

definition ResetConfig :: "config \<Rightarrow> config" where
  "ResetConfig c = c\<lparr>Sections := [], LastError := [], DefaultedKeys := []\<rparr>"

text \<open>\<open>Fail\<close> always returns false.\<close>

definition Fail :: "nat \<Rightarrow> string \<Rightarrow> string \<Rightarrow> config \<Rightarrow> config" where
  "Fail lineNo message detail c =
     (let e0 = LastError c;
          e1 = (if e0 \<noteq> [] then e0 @ '' | '' else e0);
          e2 = (if lineNo > 0 then e1 @ ''line '' @ to_string lineNo @ '': '' else e1);
          e3 = e2 @ message;
          e4 = (if detail \<noteq> [] then e3 @ '' ('' @ detail @ '')'' else e3)
      in c\<lparr>LastError := e4\<rparr>)"

definition RecordMissing :: "string \<Rightarrow> string \<Rightarrow> config \<Rightarrow> config" where
  "RecordMissing sec key c =
     c\<lparr>LastError := (if LastError c \<noteq> [] then LastError c @ '' | '' else LastError c) @
       ''missing required key: ['' @ sec @ ''] '' @ key\<rparr>"

definition RecordDefaulted :: "string \<Rightarrow> string \<Rightarrow> config \<Rightarrow> config" where
  "RecordDefaulted sec key c =
     c\<lparr>DefaultedKeys := (if DefaultedKeys c \<noteq> [] then DefaultedKeys c @ '', '' else DefaultedKeys c) @
       ''['' @ sec @ ''] '' @ key\<rparr>"

definition HasError :: "config \<Rightarrow> bool" where
  "HasError c \<longleftrightarrow> LastError c \<noteq> []"

subsection \<open>Loading\<close>

text \<open>The lines \<open>std::getline\<close> delivers: a last empty piece is not a line.\<close>

function getlines :: "string \<Rightarrow> string list" where
  "getlines s =
     (if s = [] then []
      else takeWhile (\<lambda>c. c \<noteq> CHR 0x0A) s # getlines (drop 1 (dropWhile (\<lambda>c. c \<noteq> CHR 0x0A) s)))"
  by pat_completeness auto
termination
proof (relation "measure length")
  fix s :: string
  assume "s \<noteq> []"
  then have "length (drop 1 (dropWhile (\<lambda>c. c \<noteq> CHR 0x0A) s)) < length s"
    using length_dropWhile_le [of "\<lambda>c. c \<noteq> CHR 0x0A" s] by (cases s) auto
  then show "(drop 1 (dropWhile (\<lambda>c. c \<noteq> CHR 0x0A) s), s) \<in> measure length" by simp
qed simp

declare getlines.simps [simp del]

definition strip_cr :: "string \<Rightarrow> string" where
  "strip_cr line = (if line \<noteq> [] \<and> last line = CHR 0x0D then butlast line else line)"

text \<open>
  One pass of the loop over the lines. The loop state is the object, the current section name and
  whether there is one; the result is false as soon as a line fails.
\<close>

datatype line_result = Failed config | Continue config string bool

definition load_line :: "nat \<Rightarrow> string \<Rightarrow> config \<Rightarrow> string \<Rightarrow> bool \<Rightarrow> line_result" where
  "load_line lineNo raw c current hasSection =
     (let line = Trim (strip_cr raw)
      in if line = [] \<or> hd line = CHR ''#'' \<or> hd line = CHR '';'' then Continue c current hasSection
         else if hd line = CHR ''['' then
           (if CHR '']'' \<notin> set line then Failed (Fail lineNo ''section not closed'' line c)
            else let name = Trim (takeWhile (\<lambda>x. x \<noteq> CHR '']'') (tl line))
                 in if name = [] then Failed (Fail lineNo ''empty section name'' line c)
                    else Continue c name True)
         else if CHR ''='' \<notin> set line then Failed (Fail lineNo (''missing '' @ [CHR 0x27] @ ''='' @ [CHR 0x27]) line c)
         else if \<not> hasSection then Failed (Fail lineNo ''key outside section'' line c)
         else
           let key = Trim (takeWhile (\<lambda>x. x \<noteq> CHR ''='') line);
               val = Trim (StripInlineComment (tl (dropWhile (\<lambda>x. x \<noteq> CHR ''='') line)))
           in if key = [] then Failed (Fail lineNo ''empty key'' line c)
              else if val = [] then Failed (Fail lineNo ''empty value'' line c)
              else
                let table = (case map_of (Sections c) current of None \<Rightarrow> [] | Some t \<Rightarrow> t);
                    c1 = c\<lparr>Sections := smap_put current table (Sections c)\<rparr>
                in case map_of table key of
                     Some _ \<Rightarrow> Failed (Fail lineNo ''duplicate key'' key c1)
                   | None \<Rightarrow> Continue (c1\<lparr>Sections := smap_put current
                        (smap_put key \<lparr>Value = val, LineNo = lineNo, Used = False\<rparr> table)
                        (Sections c1)\<rparr>) current hasSection)"

fun load_lines :: "nat \<Rightarrow> string list \<Rightarrow> config \<Rightarrow> string \<Rightarrow> bool \<Rightarrow> config \<times> bool" where
  "load_lines lineNo [] c current hasSection = (c, True)"
| "load_lines lineNo (raw # lines) c current hasSection =
     (case load_line (Suc lineNo) raw c current hasSection of
        Failed c' \<Rightarrow> (c', False)
      | Continue c' current' has' \<Rightarrow> load_lines (Suc lineNo) lines c' current' has')"

text \<open>A C string ends at its first NUL byte; a null pointer is \<open>None\<close>.\<close>

definition c_str :: "string \<Rightarrow> string" where
  "c_str s = takeWhile (\<lambda>c. c \<noteq> CHR 0x00) s"

definition LoadFromString :: "string option \<Rightarrow> config \<Rightarrow> config \<times> bool" where
  "LoadFromString textptr c0 =
     (let c = ResetConfig c0
      in case textptr of
           None \<Rightarrow> (Fail 0 ''null config text'' [] c, False)
         | Some mem \<Rightarrow>
             let text = c_str mem;
                 cursor = (if take 3 text = [CHR 0xEF, CHR 0xBB, CHR 0xBF] then drop 3 text else text)
             in load_lines 0 (getlines cursor) c [] False)"

text \<open>\<open>open_file\<close> is the file system: the contents of a readable file.\<close>

definition Load :: "(string \<Rightarrow> string option) \<Rightarrow> string option \<Rightarrow> config \<Rightarrow> config \<times> bool" where
  "Load open_file pathptr c0 =
     (let c = ResetConfig c0
      in case pathptr of
           None \<Rightarrow> (Fail 0 ''null config path'' [] c, False)
         | Some path \<Rightarrow>
             (case open_file path of
                None \<Rightarrow> (Fail 0 ''cannot open config file'' path c, False)
              | Some text \<Rightarrow> LoadFromString (Some text) c))"

subsection \<open>Lookup\<close>

definition Find :: "string \<Rightarrow> string \<Rightarrow> config \<Rightarrow> config \<times> cfg_entry option" where
  "Find sec key c =
     (case map_of (Sections c) sec of
        None \<Rightarrow> (c, None)
      | Some table \<Rightarrow>
          (case map_of table key of
             None \<Rightarrow> (c, None)
           | Some e \<Rightarrow>
               let e' = e\<lparr>Used := True\<rparr>
               in (c\<lparr>Sections := smap_put sec (smap_put key e' table) (Sections c)\<rparr>, Some e')))"

definition GetIntRequired :: "string \<Rightarrow> string \<Rightarrow> config \<Rightarrow> config \<times> int" where
  "GetIntRequired sec key c =
     (case Find sec key c of
        (c1, None) \<Rightarrow> (RecordMissing sec key c1, 0)
      | (c1, Some e) \<Rightarrow>
          (case ParseInt (Value e) of
             None \<Rightarrow> (Fail (LineNo e) ''not an integer'' (Value e) c1, 0)
           | Some v \<Rightarrow> (c1, v)))"

definition GetBoolRequired :: "string \<Rightarrow> string \<Rightarrow> config \<Rightarrow> config \<times> bool" where
  "GetBoolRequired sec key c =
     (case Find sec key c of
        (c1, None) \<Rightarrow> (RecordMissing sec key c1, False)
      | (c1, Some e) \<Rightarrow>
          (case ParseBool (Value e) of
             None \<Rightarrow> (Fail (LineNo e) ''not a boolean (true/false/1/0)'' (Value e) c1, False)
           | Some v \<Rightarrow> (c1, v)))"

definition GetStringRequired :: "string \<Rightarrow> string \<Rightarrow> config \<Rightarrow> config \<times> string" where
  "GetStringRequired sec key c =
     (case Find sec key c of
        (c1, None) \<Rightarrow> (RecordMissing sec key c1, [])
      | (c1, Some e) \<Rightarrow> (c1, Value e))"

definition GetInt :: "string \<Rightarrow> string \<Rightarrow> int \<Rightarrow> config \<Rightarrow> config \<times> int" where
  "GetInt sec key defaultValue c =
     (case Find sec key c of
        (c1, None) \<Rightarrow> (RecordDefaulted sec key c1, defaultValue)
      | (c1, Some e) \<Rightarrow>
          (case ParseInt (Value e) of
             None \<Rightarrow> (Fail (LineNo e) ''not an integer'' (Value e) c1, defaultValue)
           | Some v \<Rightarrow> (c1, v)))"

definition GetBool :: "string \<Rightarrow> string \<Rightarrow> bool \<Rightarrow> config \<Rightarrow> config \<times> bool" where
  "GetBool sec key defaultValue c =
     (case Find sec key c of
        (c1, None) \<Rightarrow> (RecordDefaulted sec key c1, defaultValue)
      | (c1, Some e) \<Rightarrow>
          (case ParseBool (Value e) of
             None \<Rightarrow> (Fail (LineNo e) ''not a boolean (true/false/1/0)'' (Value e) c1, defaultValue)
           | Some v \<Rightarrow> (c1, v)))"

definition GetString :: "string \<Rightarrow> string \<Rightarrow> string \<Rightarrow> config \<Rightarrow> config \<times> string" where
  "GetString sec key defaultValue c =
     (case Find sec key c of
        (c1, None) \<Rightarrow> (RecordDefaulted sec key c1, defaultValue)
      | (c1, Some e) \<Rightarrow> (c1, Value e))"

definition unused_in :: "string \<Rightarrow> section_table \<Rightarrow> string \<Rightarrow> string" where
  "unused_in sec table result =
     foldl (\<lambda>res (key, e).
       if Used e then res
       else (if res \<noteq> [] then res @ '', '' else res) @
            ''['' @ sec @ ''] '' @ key @ '' (line '' @ to_string (LineNo e) @ '')'') result table"

definition GetUnusedKeys :: "config \<Rightarrow> string" where
  "GetUnusedKeys c = foldl (\<lambda>res (sec, table). unused_in sec table res) [] (Sections c)"


subsection \<open>The error flag\<close>

lemma Fail_LastError: "message \<noteq> [] \<Longrightarrow> LastError (Fail n message d c) \<noteq> []"
  by (simp add: Fail_def Let_def)

lemma Fail_Sections [simp]: "Sections (Fail n message d c) = Sections c"
  by (simp add: Fail_def Let_def)

lemma RecordMissing_LastError: "LastError (RecordMissing s k c) \<noteq> []"
  by (simp add: RecordMissing_def)

lemma RecordMissing_Sections [simp]: "Sections (RecordMissing s k c) = Sections c"
  by (simp add: RecordMissing_def)

lemma RecordDefaulted_fields [simp]:
  "Sections (RecordDefaulted s k c) = Sections c"
  "LastError (RecordDefaulted s k c) = LastError c"
  by (simp_all add: RecordDefaulted_def)

lemma load_line_Failed:
  "load_line n raw c s h = Failed c' \<Longrightarrow> LastError c' \<noteq> []"
  by (auto simp: load_line_def Let_def Fail_LastError split: if_splits option.splits)

lemma load_line_Continue:
  "load_line n raw c s h = Continue c' s' h' \<Longrightarrow> LastError c' = LastError c"
  by (auto simp: load_line_def Let_def split: if_splits option.splits)

lemma load_lines_error:
  "load_lines n ls c s h = (c', ok) \<Longrightarrow> LastError c = [] \<Longrightarrow> ok \<longleftrightarrow> \<not> HasError c'"
proof (induction ls arbitrary: n c s h)
  case Nil
  then show ?case by (auto simp: HasError_def)
next
  case (Cons l ls)
  show ?case
  proof (cases "load_line (Suc n) l c s h")
    case (Failed c1)
    with Cons.prems show ?thesis by (auto simp: HasError_def load_line_Failed)
  next
    case (Continue c1 s1 h1)
    with Cons.prems have "load_lines (Suc n) ls c1 s1 h1 = (c', ok)" and "LastError c1 = []"
      by (auto dest: load_line_Continue)
    then show ?thesis by (rule Cons.IH)
  qed
qed

lemma LoadFromString_error: "LoadFromString t c0 = (c, ok) \<Longrightarrow> ok \<longleftrightarrow> \<not> HasError c"
  by (auto simp: LoadFromString_def Let_def ResetConfig_def HasError_def Fail_LastError
      split: option.splits dest!: load_lines_error)

subsection \<open>Well-formed tables and what they hold\<close>

definition cfg_wf :: "config \<Rightarrow> bool" where
  "cfg_wf c \<longleftrightarrow> sorted_wrt (<) (map fst (Sections c)) \<and>
     (\<forall>(s, t) \<in> set (Sections c). sorted_wrt (<) (map fst t))"

definition entry_at :: "config \<Rightarrow> string \<Rightarrow> string \<Rightarrow> cfg_entry option" where
  "entry_at c sec key =
     (case map_of (Sections c) sec of None \<Rightarrow> None | Some table \<Rightarrow> map_of table key)"

lemma set_smap_put: "sorted_wrt (<) (map fst m) \<Longrightarrow> set (smap_put k v m) = insert (k, v) {x \<in> set m. fst x \<noteq> k}"
proof (induction m)
  case Nil
  then show ?case by auto
next
  case (Cons kv m)
  obtain k' v' where kv: "kv = (k', v')" by (cases kv)
  from Cons.prems kv have gt: "x \<in> set m \<Longrightarrow> k' < fst x" for x by auto
  from Cons kv show ?case by (auto dest: gt)
qed

lemma cfg_wf_table: "cfg_wf c \<Longrightarrow> map_of (Sections c) s = Some t \<Longrightarrow> sorted_wrt (<) (map fst t)"
  by (auto simp: cfg_wf_def dest: map_of_SomeD)

lemma cfg_wf_put:
  "cfg_wf c \<Longrightarrow> sorted_wrt (<) (map fst t) \<Longrightarrow> cfg_wf (c\<lparr>Sections := smap_put s t (Sections c)\<rparr>)"
  by (auto simp: cfg_wf_def sorted_smap_put set_smap_put)

lemma strict_sorted_distinct: "sorted_wrt (<) (xs :: 'a::linorder list) \<Longrightarrow> distinct xs"
  by (induction xs) auto

lemma entry_at_member:
  assumes "cfg_wf c"
  shows "entry_at c s k = Some e \<longleftrightarrow> (\<exists>t. (s, t) \<in> set (Sections c) \<and> (k, e) \<in> set t)"
proof -
  have "distinct (map fst (Sections c))" using assms by (auto simp: cfg_wf_def intro: strict_sorted_distinct)
  then have a: "map_of (Sections c) s = Some t \<longleftrightarrow> (s, t) \<in> set (Sections c)" for t by (rule map_of_eq_Some_iff)
  have "map_of t k = Some e \<longleftrightarrow> (k, e) \<in> set t" if "(s, t) \<in> set (Sections c)" for t
  proof -
    have "distinct (map fst t)" using that assms by (auto simp: cfg_wf_def intro: strict_sorted_distinct)
    then show ?thesis by (rule map_of_eq_Some_iff)
  qed
  with a show ?thesis unfolding entry_at_def by (cases "map_of (Sections c) s") (auto, metis option.inject)
qed

lemma entry_at_cong: "Sections c' = Sections c \<Longrightarrow> entry_at c' = entry_at c"
  by (simp add: entry_at_def fun_eq_iff)

lemma cfg_wf_cong: "Sections c' = Sections c \<Longrightarrow> cfg_wf c' = cfg_wf c"
  by (simp add: cfg_wf_def)

lemma Find_None: "entry_at c s k = None \<Longrightarrow> Find s k c = (c, None)"
  by (auto simp: entry_at_def Find_def split: option.splits)

definition mark_used :: "string \<Rightarrow> string \<Rightarrow> config \<Rightarrow> config" where
  "mark_used s k c = fst (Find s k c)"

lemma Find_Some: "entry_at c s k = Some e \<Longrightarrow> Find s k c = (mark_used s k c, Some (e\<lparr>Used := True\<rparr>))"
  by (auto simp: entry_at_def Find_def mark_used_def Let_def split: option.splits)

lemma mark_used_fields [simp]: "LastError (mark_used s k c) = LastError c"
  by (simp add: mark_used_def Find_def Let_def split: option.splits)

lemma mark_used_wf [wf_intros]: "cfg_wf c \<Longrightarrow> cfg_wf (mark_used s k c)"
  by (auto simp: mark_used_def Find_def Let_def split: option.splits intro!: cfg_wf_put sorted_smap_put
      dest: cfg_wf_table)

lemma entry_at_mark_used:
  "entry_at (mark_used s k c) s' k' =
     (if s' = s \<and> k' = k then map_option (\<lambda>e. e\<lparr>Used := True\<rparr>) (entry_at c s k) else entry_at c s' k')"
  by (auto simp: entry_at_def mark_used_def Find_def Let_def map_of_smap_put split: option.splits)


subsection \<open>The documented use: queries, then one check\<close>

datatype cfg_query =
    QIntRequired string string
  | QBoolRequired string string
  | QStringRequired string string
  | QInt string string int
  | QBool string string bool
  | QString string string string

fun run_query :: "cfg_query \<Rightarrow> config \<Rightarrow> config" where
  "run_query (QIntRequired s k) c = fst (GetIntRequired s k c)"
| "run_query (QBoolRequired s k) c = fst (GetBoolRequired s k c)"
| "run_query (QStringRequired s k) c = fst (GetStringRequired s k c)"
| "run_query (QInt s k d) c = fst (GetInt s k d c)"
| "run_query (QBool s k d) c = fst (GetBool s k d c)"
| "run_query (QString s k d) c = fst (GetString s k d c)"

fun query_key :: "cfg_query \<Rightarrow> string \<times> string" where
  "query_key (QIntRequired s k) = (s, k)"
| "query_key (QBoolRequired s k) = (s, k)"
| "query_key (QStringRequired s k) = (s, k)"
| "query_key (QInt s k d) = (s, k)"
| "query_key (QBool s k d) = (s, k)"
| "query_key (QString s k d) = (s, k)"

text \<open>Whether the stored text satisfies a query: a required key is there, a number parses.\<close>

fun query_ok :: "cfg_query \<Rightarrow> string option \<Rightarrow> bool" where
  "query_ok (QIntRequired s k) v = (case v of None \<Rightarrow> False | Some t \<Rightarrow> ParseInt t \<noteq> None)"
| "query_ok (QBoolRequired s k) v = (case v of None \<Rightarrow> False | Some t \<Rightarrow> ParseBool t \<noteq> None)"
| "query_ok (QStringRequired s k) v = (v \<noteq> None)"
| "query_ok (QInt s k d) v = (case v of None \<Rightarrow> True | Some t \<Rightarrow> ParseInt t \<noteq> None)"
| "query_ok (QBool s k d) v = (case v of None \<Rightarrow> True | Some t \<Rightarrow> ParseBool t \<noteq> None)"
| "query_ok (QString s k d) v = True"

definition value_at :: "config \<Rightarrow> string \<times> string \<Rightarrow> string option" where
  "value_at c sk = map_option Value (entry_at c (fst sk) (snd sk))"

definition used_at :: "config \<Rightarrow> string \<times> string \<Rightarrow> bool" where
  "used_at c sk = (case entry_at c (fst sk) (snd sk) of None \<Rightarrow> True | Some e \<Rightarrow> Used e)"

lemmas getter_defs = GetIntRequired_def GetBoolRequired_def GetStringRequired_def
  GetInt_def GetBool_def GetString_def

lemma mark_used_absent: "entry_at c s k = None \<Longrightarrow> mark_used s k c = c"
  by (simp add: mark_used_def Find_None)

lemma run_query_Sections:
  "Sections (run_query q c) = Sections (mark_used (fst (query_key q)) (snd (query_key q)) c)"
  by (cases q; cases "entry_at c (fst (query_key q)) (snd (query_key q))")
     (simp_all add: getter_defs Find_None Find_Some mark_used_absent split: option.splits)

lemma run_query_HasError:
  "HasError (run_query q c) \<longleftrightarrow> HasError c \<or> \<not> query_ok q (value_at c (query_key q))"
  by (cases q; cases "entry_at c (fst (query_key q)) (snd (query_key q))")
     (auto simp: getter_defs Find_None Find_Some HasError_def value_at_def Fail_LastError
        RecordMissing_LastError split: option.splits)

lemma run_query_wf [wf_intros]: "cfg_wf c \<Longrightarrow> cfg_wf (run_query q c)"
  by (simp add: cfg_wf_cong [OF run_query_Sections] mark_used_wf)

lemma run_query_value: "value_at (run_query q c) = value_at c"
  by (auto simp: fun_eq_iff value_at_def entry_at_cong [OF run_query_Sections] entry_at_mark_used
      option.map_comp o_def)

lemma run_query_used: "used_at (run_query q c) sk \<longleftrightarrow> used_at c sk \<or> sk = query_key q"
  by (cases sk; cases "query_key q") (auto simp: used_at_def entry_at_cong [OF run_query_Sections] entry_at_mark_used
      split: option.splits prod.splits)

lemma run_queries_HasError:
  "HasError (fold run_query qs c) \<longleftrightarrow> HasError c \<or> (\<exists>q \<in> set qs. \<not> query_ok q (value_at c (query_key q)))"
  by (induction qs arbitrary: c) (auto simp: run_query_HasError run_query_value)

lemma run_queries_used:
  "used_at (fold run_query qs c) sk \<longleftrightarrow> used_at c sk \<or> sk \<in> query_key ` set qs"
  by (induction qs arbitrary: c) (auto simp: run_query_used)

lemma run_queries_wf: "cfg_wf c \<Longrightarrow> cfg_wf (fold run_query qs c)"
  by (induction qs arbitrary: c) (auto intro: wf_intros)

text \<open>\<open>GetUnusedKeys\<close> is empty exactly when every stored entry has been looked up.\<close>

lemma unused_in_empty: "unused_in s t res = [] \<longleftrightarrow> res = [] \<and> (\<forall>(k, e) \<in> set t. Used e)"
proof (induction t arbitrary: res)
  case Nil
  then show ?case by (simp add: unused_in_def)
next
  case (Cons kv t)
  have step: "unused_in s (kv # t) res = unused_in s t (if Used (snd kv) then res
     else (if res \<noteq> [] then res @ '', '' else res) @
       ''['' @ s @ ''] '' @ fst kv @ '' (line '' @ to_string (LineNo (snd kv)) @ '')'')"
    by (simp add: unused_in_def split: prod.splits)
  show ?case unfolding step Cons.IH by (cases kv) auto
qed

lemma GetUnusedKeys_empty_list:
  "foldl (\<lambda>res (sec, table). unused_in sec table res) r ss = [] \<longleftrightarrow>
   r = [] \<and> (\<forall>(s, t) \<in> set ss. \<forall>(k, e) \<in> set t. Used e)"
  by (induction ss arbitrary: r) (auto simp: unused_in_empty)

lemma GetUnusedKeys_empty:
  assumes "cfg_wf c"
  shows "GetUnusedKeys c = [] \<longleftrightarrow> (\<forall>sk. used_at c sk)"
proof -
  have "GetUnusedKeys c = [] \<longleftrightarrow> (\<forall>s t k e. (s, t) \<in> set (Sections c) \<and> (k, e) \<in> set t \<longrightarrow> Used e)"
    unfolding GetUnusedKeys_def GetUnusedKeys_empty_list by auto
  also have "\<dots> \<longleftrightarrow> (\<forall>s k e. entry_at c s k = Some e \<longrightarrow> Used e)"
    by (auto simp: entry_at_member [OF assms])
  also have "\<dots> \<longleftrightarrow> (\<forall>sk. used_at c sk)"
    by (auto simp: used_at_def split: option.splits)
  finally show ?thesis .
qed


subsection \<open>Loaded configurations\<close>

definition fresh :: "config \<Rightarrow> bool" where
  "fresh c \<longleftrightarrow> cfg_wf c \<and> (\<forall>s k. case entry_at c s k of None \<Rightarrow> True | Some e \<Rightarrow> \<not> Used e)"

definition add_entry :: "string \<Rightarrow> string \<Rightarrow> string \<Rightarrow> nat \<Rightarrow> config \<Rightarrow> config" where
  "add_entry s k v n c =
     (let table = (case map_of (Sections c) s of None \<Rightarrow> [] | Some t \<Rightarrow> t);
          c1 = c\<lparr>Sections := smap_put s table (Sections c)\<rparr>
      in c1\<lparr>Sections := smap_put s (smap_put k \<lparr>Value = v, LineNo = n, Used = False\<rparr> table) (Sections c1)\<rparr>)"

lemma entry_at_add_entry:
  "entry_at (add_entry s k v n c) s' k' =
     (if s' = s \<and> k' = k then Some \<lparr>Value = v, LineNo = n, Used = False\<rparr> else entry_at c s' k')"
  by (auto simp: entry_at_def add_entry_def Let_def map_of_smap_put split: option.splits)

lemma cfg_wf_section_or_new:
  "cfg_wf c \<Longrightarrow> sorted_wrt (<) (map fst (case map_of (Sections c) s of None \<Rightarrow> [] | Some t \<Rightarrow> t))"
  by (auto split: option.splits dest: cfg_wf_table)

lemma cfg_wf_add_entry [wf_intros]: "cfg_wf c \<Longrightarrow> cfg_wf (add_entry s k v n c)"
  unfolding add_entry_def Let_def
  by (intro cfg_wf_put sorted_smap_put cfg_wf_section_or_new)

lemma add_entry_fields [simp]: "LastError (add_entry s k v n c) = LastError c"
  by (simp add: add_entry_def Let_def)

lemma fresh_add_entry [wf_intros]: "fresh c \<Longrightarrow> fresh (add_entry s k v n c)"
  by (auto simp: fresh_def cfg_wf_add_entry entry_at_add_entry)

text \<open>A line that does not fail leaves the tables alone or adds one entry.\<close>

lemma load_line_adds:
  "load_line n raw c s h = Continue c' s' h' \<Longrightarrow> c' = c \<or> (\<exists>k v. entry_at c s k = None \<and> c' = add_entry s k v n c)"
  by (auto simp: load_line_def Let_def add_entry_def entry_at_def split: if_splits option.splits)

lemma load_lines_fresh:
  "fresh c \<Longrightarrow> load_lines n ls c s h = (c', True) \<Longrightarrow> fresh c'"
proof (induction ls arbitrary: n c s h)
  case Nil
  then show ?case by simp
next
  case (Cons l ls)
  then obtain c1 s1 h1 where l: "load_line (Suc n) l c s h = Continue c1 s1 h1"
    and ls: "load_lines (Suc n) ls c1 s1 h1 = (c', True)"
    by (auto split: line_result.splits)
  have "fresh c1" using load_line_adds [OF l] Cons.prems(1) by (auto intro: wf_intros)
  then show ?case using ls by (rule Cons.IH)
qed

lemma fresh_Reset: "fresh (ResetConfig c)"
  by (simp add: fresh_def cfg_wf_def ResetConfig_def entry_at_def)

lemma LoadFromString_fresh: "LoadFromString t c0 = (c, True) \<Longrightarrow> fresh c"
  by (auto simp: LoadFromString_def Let_def fresh_Reset split: option.splits dest: load_lines_fresh [rotated])

lemma fresh_used_at: "fresh c \<Longrightarrow> used_at c sk \<longleftrightarrow> value_at c sk = None"
  by (auto simp: fresh_def used_at_def value_at_def split: option.splits)

text \<open>Queries and then one check, on a configuration that was loaded.\<close>

lemma config_check:
  assumes "LoadFromString t c0 = (c, True)"
  shows "\<not> HasError (fold run_query qs c) \<and> GetUnusedKeys (fold run_query qs c) = [] \<longleftrightarrow>
         (\<forall>q \<in> set qs. query_ok q (value_at c (query_key q))) \<and>
         (\<forall>sk. value_at c sk \<noteq> None \<longrightarrow> sk \<in> query_key ` set qs)"
proof -
  have f: "fresh c" and e: "\<not> HasError c"
    using LoadFromString_fresh [OF assms] LoadFromString_error [OF assms] by auto
  then have w: "cfg_wf (fold run_query qs c)" by (simp add: fresh_def run_queries_wf)
  have "GetUnusedKeys (fold run_query qs c) = [] \<longleftrightarrow>
      (\<forall>sk. value_at c sk = None \<or> sk \<in> query_key ` set qs)"
    by (simp only: GetUnusedKeys_empty [OF w] run_queries_used fresh_used_at [OF f])
  then show ?thesis using e by (simp only: run_queries_HasError de_Morgan_disj bex_simps ball_simps imp_conv_disj not_not simp_thms)
qed

text \<open>C22. The documented flow of \<open>Config\<close> is sound and complete: after a load that returned true and
  any sequence of getters, \<open>HasError\<close> is false and \<open>GetUnusedKeys\<close> is empty exactly when every
  query was satisfied by the file (required keys exist, present numbers and booleans parse) and
  every key of the file was asked for.
\<close>

theorem config_check_complete:
  assumes "LoadFromString t c0 = (c, True)"
  shows "\<not> HasError (fold run_query qs c) \<and> GetUnusedKeys (fold run_query qs c) = [] \<longleftrightarrow>
         (\<forall>q \<in> set qs. query_ok q (value_at c (query_key q))) \<and>
         (\<forall>sk. value_at c sk \<noteq> None \<longrightarrow> sk \<in> query_key ` set qs)"
  using config_check [OF assms] .


subsection \<open>Rendered files load back\<close>

definition clean :: "char set \<Rightarrow> string \<Rightarrow> bool" where
  "clean bad t \<longleftrightarrow> t \<noteq> [] \<and> \<not> is_blank (hd t) \<and> \<not> is_blank (last t) \<and>
     set t \<inter> ({CHR 0x00, CHR 0x0A} \<union> bad) = {}"

definition clean_section :: "string \<Rightarrow> bool" where
  "clean_section s \<longleftrightarrow> clean {CHR '']''} s"

definition clean_key :: "string \<Rightarrow> bool" where
  "clean_key k \<longleftrightarrow> clean {CHR ''=''} k \<and> hd k \<noteq> CHR ''['' \<and> hd k \<noteq> CHR ''#'' \<and> hd k \<noteq> CHR '';''"

definition clean_value :: "string \<Rightarrow> bool" where
  "clean_value v \<longleftrightarrow> clean {CHR '';'', CHR ''#''} v \<and> last v \<noteq> CHR 0x0D"

lemma Trim_ends:
  assumes "t \<noteq> []" "\<not> is_blank (hd t)" "\<not> is_blank (last t)"
  shows "Trim t = t"
proof -
  have "dropWhile is_blank t = t" using assms by (cases t) auto
  moreover have "dropWhile is_blank (rev t) = rev t" using assms by (cases t rule: rev_cases) auto
  ultimately show ?thesis by (simp add: Trim_def)
qed

lemma Trim_clean: "clean bad t \<Longrightarrow> Trim t = t"
  by (auto simp: clean_def intro: Trim_ends)

definition section_line :: "string \<Rightarrow> string" where
  "section_line s = ''['' @ s @ '']''"

definition entry_line :: "string \<Rightarrow> string \<Rightarrow> string" where
  "entry_line k v = k @ ''='' @ v"

lemma takeWhile_sep: "c \<notin> set a \<Longrightarrow> takeWhile (\<lambda>x. x \<noteq> c) (a @ c # b) = a"
  by (induction a) auto

lemma dropWhile_sep: "c \<notin> set a \<Longrightarrow> dropWhile (\<lambda>x. x \<noteq> c) (a @ c # b) = c # b"
  by (induction a) auto

lemma load_section_line:
  "clean_section s \<Longrightarrow> load_line n (section_line s) c cur h = Continue c s True"
proof -
  assume s: "clean_section s"
  then have "strip_cr (section_line s) = section_line s" by (simp add: strip_cr_def section_line_def)
  moreover have "Trim (section_line s) = section_line s"
    by (rule Trim_ends) (auto simp: section_line_def is_blank_def)
  moreover have "takeWhile (\<lambda>x. x \<noteq> CHR '']'') (s @ '']'') = s"
    using s takeWhile_sep [of "CHR '']''" s "[]"] by (auto simp: clean_section_def clean_def)
  moreover have "Trim s = s" and "s \<noteq> []"
    using s Trim_clean [of "{CHR '']''}" s] by (auto simp: clean_section_def clean_def)
  ultimately show ?thesis by (simp add: load_line_def Let_def section_line_def)
qed

lemma strip_entry_line:
  assumes "clean_key k" "clean_value v"
  shows "strip_cr (entry_line k v) = entry_line k v" and "Trim (entry_line k v) = entry_line k v"
proof -
  show "strip_cr (entry_line k v) = entry_line k v"
    using assms by (auto simp: strip_cr_def entry_line_def clean_value_def clean_def)
  show "Trim (entry_line k v) = entry_line k v"
    using assms by (intro Trim_ends) (auto simp: entry_line_def clean_key_def clean_value_def clean_def)
qed

lemma StripInlineComment_clean: "clean_value v \<Longrightarrow> StripInlineComment v = v"
  unfolding StripInlineComment_def clean_value_def clean_def
  by (subst takeWhile_eq_all_conv) auto

lemma load_entry_line:
  assumes k: "clean_key k" and v: "clean_value v"
  shows "load_line n (entry_line k v) c s True =
    (if entry_at c s k = None then Continue (add_entry s k v n c) s True
     else Failed (Fail n ''duplicate key'' k
       (c\<lparr>Sections := smap_put s (case map_of (Sections c) s of None \<Rightarrow> [] | Some t \<Rightarrow> t) (Sections c)\<rparr>)))"
proof -
  have parts: "takeWhile (\<lambda>x. x \<noteq> CHR ''='') (entry_line k v) = k"
    "tl (dropWhile (\<lambda>x. x \<noteq> CHR ''='') (entry_line k v)) = v"
    using k takeWhile_sep [of "CHR ''=''" k v] dropWhile_sep [of "CHR ''=''" k v]
    by (auto simp: entry_line_def clean_key_def clean_def)
  have hd: "entry_line k v \<noteq> []" "hd (entry_line k v) = hd k" "CHR ''='' \<in> set (entry_line k v)"
    using k by (auto simp: entry_line_def clean_key_def clean_def)
  have trims: "Trim k = k" "Trim v = v" "k \<noteq> []" "v \<noteq> []"
    using k v by (auto simp: clean_key_def clean_value_def intro: Trim_clean simp: clean_def)
  have hk: "hd k \<noteq> CHR ''[''" "hd k \<noteq> CHR ''#''" "hd k \<noteq> CHR '';''"
    using k by (auto simp: clean_key_def)
  show ?thesis
    by (simp add: load_line_def Let_def strip_entry_line [OF k v] parts hd hk trims
        StripInlineComment_clean [OF v] add_entry_def entry_at_def split: option.splits)
qed


lemma getlines_cons:
  "CHR 0x0A \<notin> set l \<Longrightarrow> getlines (l @ CHR 0x0A # rest) = l # getlines rest"
  by (subst getlines.simps) (simp add: takeWhile_sep dropWhile_sep)

lemma getlines_join:
  "\<forall>l \<in> set ls. CHR 0x0A \<notin> set l \<Longrightarrow> getlines (concat (map (\<lambda>l. l @ [CHR 0x0A]) ls)) = ls"
  by (induction ls) (simp_all add: getlines_cons getlines.simps [of "[]"])

type_synonym ini_file = "(string \<times> (string \<times> string) list) list"

definition ini_lines :: "ini_file \<Rightarrow> string list" where
  "ini_lines f = concat (map (\<lambda>(s, kvs). section_line s # map (\<lambda>(k, v). entry_line k v) kvs) f)"

definition render_ini :: "ini_file \<Rightarrow> string" where
  "render_ini f = concat (map (\<lambda>l. l @ [CHR 0x0A]) (ini_lines f))"

definition ini_entries :: "ini_file \<Rightarrow> ((string \<times> string) \<times> string) list" where
  "ini_entries f = concat (map (\<lambda>(s, kvs). map (\<lambda>(k, v). ((s, k), v)) kvs) f)"

definition clean_ini :: "ini_file \<Rightarrow> bool" where
  "clean_ini f \<longleftrightarrow> (\<forall>(s, kvs) \<in> set f. clean_section s \<and> (\<forall>(k, v) \<in> set kvs. clean_key k \<and> clean_value v))"

text \<open>What is still to be loaded must be new and distinct; then it is added to what is there.\<close>

definition loads_to :: "config \<Rightarrow> ((string \<times> string) \<times> string) list \<Rightarrow> config \<times> bool \<Rightarrow> bool" where
  "loads_to c es r \<longleftrightarrow>
     (snd r \<longleftrightarrow> distinct (map fst es) \<and> (\<forall>sk \<in> set (map fst es). value_at c sk = None)) \<and>
     (snd r \<longrightarrow> value_at (fst r) = value_at c ++ map_of es)"

lemma value_at_add_entry: "value_at (add_entry s k v n c) = (value_at c)((s, k) \<mapsto> v)"
  by (auto simp: value_at_def entry_at_add_entry fun_eq_iff)

lemma loads_to_Nil: "loads_to c [] (c, True)"
  by (simp add: loads_to_def)

lemma loads_to_add:
  "value_at c (s, k) = None \<Longrightarrow> loads_to (add_entry s k v n c) es r \<Longrightarrow> loads_to c (((s, k), v) # es) r"
proof -
  assume new: "value_at c (s, k) = None" and l: "loads_to (add_entry s k v n c) es r"
  let ?m = "(value_at c)((s, k) \<mapsto> v)"
  have a: "(\<forall>sk \<in> S. ?m sk = None) \<longleftrightarrow> (s, k) \<notin> S \<and> (\<forall>sk \<in> S. value_at c sk = None)" for S
    by auto
  have b: "(s, k) \<notin> set (map fst es) \<Longrightarrow> ?m ++ map_of es = value_at c ++ map_of (((s, k), v) # es)"
    by (simp add: map_add_upd_left dom_map_of_conv_image_fst)
  from l new show ?thesis
    unfolding loads_to_def value_at_add_entry a list.map fst_conv distinct.simps list.set ball_simps using b by metis
qed

lemma loads_to_dup: "value_at c (s, k) \<noteq> None \<Longrightarrow> loads_to c (((s, k), v) # es) (c', False)"
  by (simp add: loads_to_def)

lemma load_entries:
  assumes "\<forall>(k, v) \<in> set kvs. clean_key k \<and> clean_value v"
    and "\<And>n c. loads_to c es (load_lines n ls c s True)"
  shows "loads_to c (map (\<lambda>(k, v). ((s, k), v)) kvs @ es)
           (load_lines n (map (\<lambda>(k, v). entry_line k v) kvs @ ls) c s True)"
  using assms
proof (induction kvs arbitrary: n c)
  case Nil
  then show ?case by simp
next
  case (Cons kv kvs)
  obtain k v where kv: "kv = (k, v)" by (cases kv)
  with Cons.prems have cl: "clean_key k" "clean_value v" by auto
  have IH: "\<And>n c. loads_to c (map (\<lambda>(k, v). ((s, k), v)) kvs @ es)
           (load_lines n (map (\<lambda>(k, v). entry_line k v) kvs @ ls) c s True)"
    using Cons by auto
  show ?case
  proof (cases "entry_at c s k")
    case None
    then have "value_at c (s, k) = None" by (simp add: value_at_def)
    with None show ?thesis
      by (simp add: kv load_entry_line [OF cl]) (rule loads_to_add [OF _ IH])
  next
    case (Some e)
    then have "value_at c (s, k) \<noteq> None" by (simp add: value_at_def)
    with Some show ?thesis by (simp add: kv load_entry_line [OF cl] loads_to_dup)
  qed
qed

lemma load_ini_lines:
  "clean_ini f \<Longrightarrow> loads_to c (ini_entries f) (load_lines n (ini_lines f) c cur h)"
proof (induction f arbitrary: n c cur h)
  case Nil
  then show ?case by (simp add: ini_entries_def ini_lines_def loads_to_Nil)
next
  case (Cons p f)
  obtain s kvs where p: "p = (s, kvs)" by (cases p)
  from Cons.prems p have s: "clean_section s" and kvs: "\<forall>(k, v) \<in> set kvs. clean_key k \<and> clean_value v"
    and f: "clean_ini f" by (auto simp: clean_ini_def)
  have "loads_to c (map (\<lambda>(k, v). ((s, k), v)) kvs @ ini_entries f)
     (load_lines (Suc n) (map (\<lambda>(k, v). entry_line k v) kvs @ ini_lines f) c s True)"
    by (rule load_entries [OF kvs Cons.IH [OF f]])
  then show ?case by (simp add: p ini_entries_def ini_lines_def load_section_line [OF s])
qed

lemma clean_ini_chars:
  assumes "clean_ini f" "l \<in> set (ini_lines f)"
  shows "CHR 0x0A \<notin> set l \<and> CHR 0x00 \<notin> set l"
  using assms by (force simp: clean_ini_def ini_lines_def section_line_def entry_line_def clean_section_def
      clean_key_def clean_value_def clean_def)


lemma c_str_clean: "CHR 0x00 \<notin> set s \<Longrightarrow> c_str s = s"
  unfolding c_str_def by (subst takeWhile_eq_all_conv) auto

lemma render_hd: "f \<noteq> [] \<Longrightarrow> \<exists>rest. render_ini f = CHR ''['' # rest"
  by (cases f) (auto simp: render_ini_def ini_lines_def section_line_def)

lemma load_rendered:
  assumes "clean_ini f"
  shows "loads_to (ResetConfig c0) (ini_entries f) (LoadFromString (Some (render_ini f)) c0)"
proof -
  have "CHR 0x00 \<notin> set (render_ini f)"
    using clean_ini_chars [OF assms] by (auto simp: render_ini_def)
  then have nul: "c_str (render_ini f) = render_ini f" by (rule c_str_clean)
  have bom: "take 3 (render_ini f) \<noteq> [CHR 0xEF, CHR 0xBB, CHR 0xBF]"
    using render_hd [of f] by (cases "f = []") (auto simp: render_ini_def ini_lines_def)
  have "getlines (render_ini f) = ini_lines f"
    unfolding render_ini_def using clean_ini_chars [OF assms] by (intro getlines_join) auto
  then have "LoadFromString (Some (render_ini f)) c0 = load_lines 0 (ini_lines f) (ResetConfig c0) [] False"
    using bom by (simp add: LoadFromString_def Let_def nul)
  then show ?thesis
    using load_ini_lines [OF assms, of "ResetConfig c0" 0 "[]" False] by simp
qed

lemma value_at_Reset: "value_at (ResetConfig c0) = Map.empty"
  by (simp add: value_at_def entry_at_def ResetConfig_def fun_eq_iff)

text \<open>Loading what was written: a file of sections, keys and values without reserved characters
  loads (true) exactly when no key is given twice within a section, sections that occur again being
  merged, and then every lookup finds exactly the value that the file gives to the key.
\<close>

theorem render_load:
  assumes "clean_ini f"
  shows "snd (LoadFromString (Some (render_ini f)) c0) = distinct (map fst (ini_entries f)) \<and>
         (distinct (map fst (ini_entries f)) \<longrightarrow>
          value_at (fst (LoadFromString (Some (render_ini f)) c0)) = map_of (ini_entries f))"
  using load_rendered [OF assms, of c0] by (auto simp: loads_to_def value_at_Reset)

text \<open>A configuration to evaluate on.\<close>

definition no_config :: config where
  "no_config = \<lparr>Sections = [], LastError = [], DefaultedKeys = []\<rparr>"

lemma render_load_witness:
  "snd (LoadFromString (Some (render_ini [(''Net'', [(''Port'', ''6000'')]), (''Net'', [(''Ip'', ''any'')])])) no_config)"
proof -
  have "clean_ini [(''Net'', [(''Port'', ''6000'')]), (''Net'', [(''Ip'', ''any'')])]"
    by (simp add: clean_ini_def clean_section_def clean_key_def clean_value_def clean_def is_blank_def)
  from render_load [OF this, of no_config] show ?thesis by (simp add: ini_entries_def)
qed


text \<open>The witness of the flow: one integer and one text key, both asked for.\<close>

lemma config_check_complete_witness:
  "\<exists>c. \<not> HasError (fold run_query [QInt ''Net'' ''Port'' 0] c) \<and>
       GetUnusedKeys (fold run_query [QInt ''Net'' ''Port'' 0] c) = []"
proof -
  let ?f = "[(''Net'', [(''Port'', ''6000'')])]"
  have cl: "clean_ini ?f"
    by (simp add: clean_ini_def clean_section_def clean_key_def clean_value_def clean_def is_blank_def)
  obtain c where c: "LoadFromString (Some (render_ini ?f)) no_config = (c, True)"
    and v: "value_at c = map_of (ini_entries ?f)"
    using load_rendered [OF cl, of no_config] by (cases "LoadFromString (Some (render_ini ?f)) no_config")
      (auto simp: ini_entries_def loads_to_def value_at_Reset)
  have "ParseInt ''6000'' = Some 6000"
    by code_simp
  then show ?thesis
    using config_check_complete [OF c, of "[QInt ''Net'' ''Port'' 0]"] v
    by (auto simp: ini_entries_def)
qed

subsection \<open>Numbers\<close>

lemma digit_char:
  "d < 10 \<Longrightarrow> is_digit (char_of (48 + d :: nat)) \<and> digit_val (char_of (48 + d)) = int d"
  by (simp add: is_digit_def digit_val_def less_eq_char_def of_char_of)

lemma digits_val_snoc: "digits_val (ds @ [c]) = 10 * digits_val ds + digit_val c"
  by (simp add: digits_val_def)

lemma to_string_digits: "(\<forall>c \<in> set (to_string n). is_digit c) \<and> to_string n \<noteq> [] \<and> digits_val (to_string n) = int n"
proof (induction n rule: to_string.induct)
  case (1 n)
  show ?case
  proof (cases "n < 10")
    case True
    then show ?thesis
      by (subst (1 2 3) to_string.simps) (simp add: digit_char digits_val_def)
  next
    case False
    have "int n = 10 * int (n div 10) + int (n mod 10)"
      using div_mult_mod_eq [of n 10] by linarith
    with False 1 digit_char [of "n mod 10"] show ?thesis
      by (subst (1 2 3) to_string.simps) (auto simp: digits_val_snoc)
  qed
qed

lemma digit_not_special: "is_digit c \<Longrightarrow> \<not> c_isspace c \<and> c \<noteq> CHR ''-'' \<and> c \<noteq> CHR ''+''"
  by (auto simp: is_digit_def c_isspace_def less_eq_char_def)

text \<open>An integer value is read exactly when it fits 32 bits; a larger or smaller decimal text is
  accepted and silently replaced by the nearest end of the range.
\<close>

theorem ParseInt_saturates:
  "ParseInt ((if neg then ''-'' else []) @ to_string n) =
   Some (saturate32 (if neg then - int n else int n))"
proof -
  have d: "\<forall>c \<in> set (to_string n). is_digit c" "to_string n \<noteq> []" "digits_val (to_string n) = int n"
    using to_string_digits [of n] by auto
  have a: "takeWhile is_digit (to_string n) = to_string n" "dropWhile is_digit (to_string n) = []"
    using d by (auto simp: takeWhile_eq_all_conv dropWhile_eq_Nil_conv)
  have h: "\<not> c_isspace (hd (to_string n))" "hd (to_string n) \<noteq> CHR ''-''" "hd (to_string n) \<noteq> CHR ''+''"
    using d digit_not_special by (metis list.set_sel(1))+
  then have s: "dropWhile c_isspace (to_string n) = to_string n"
    using d(2) by (cases "to_string n") auto
  have m: "\<not> c_isspace CHR ''-''" by (simp add: c_isspace_def less_eq_char_def)
  show ?thesis
    by (simp add: ParseInt_def strtol10_def Let_def a h s d m)
qed

end
