(* ===== verification/PacketBuffer.thy ===== *)
theory PacketBuffer
  imports Prelude
begin

text \<open>
  The class \<open>Packet\<close> (NetworkLibrary/include/Packet.h, NetworkLibrary/src/Packet.cpp): a byte
  buffer with a read position \<open>Front\<close> and a write position \<open>Rear\<close>, used for sending, for
  receiving and as a session's receive buffer. Every operation is translated with the checks the
  source has and no others: the stream operators do not look at \<open>BufferSize\<close> or \<open>Rear\<close>, so an
  access outside the block is a fault of the model. Signed values are their two's complement bit
  patterns, \<open>float\<close> and \<open>double\<close> their 32 and 64 bits, since the source only copies them.
\<close>

subsection \<open>State and construction\<close>

definition kBufferDefault :: int where
  "kBufferDefault = 1024"

definition kHeaderDefault :: int where
  "kHeaderDefault = 20"

record packet =
  RefCnt :: u32
  BufferSize :: int
  Front :: int
  Rear :: int
  Buffer :: "byte list"
  SRWEncode :: bool
  EncodeFlag :: bool

text \<open>
  \<open>new char[n]\<close> gives a block of \<open>n\<close> bytes of unknown contents, here those of \<open>fill\<close>.
\<close>

definition new_block :: "int \<Rightarrow> (nat \<Rightarrow> byte) \<Rightarrow> byte list" where
  "new_block n fill = map fill [0..<nat n]"

definition Packet_ctor :: "int \<Rightarrow> (nat \<Rightarrow> byte) \<Rightarrow> packet" where
  "Packet_ctor bufferSize fill =
     \<lparr>RefCnt = 0, BufferSize = bufferSize, Front = 0, Rear = 0,
      Buffer = new_block bufferSize fill, SRWEncode = False, EncodeFlag = False\<rparr>"

definition GetBufferSize :: "packet \<Rightarrow> int" where
  "GetBufferSize p = BufferSize p"

definition GetDataSize :: "packet \<Rightarrow> int" where
  "GetDataSize p = Rear p - Front p"

definition GetFreeSize :: "packet \<Rightarrow> int" where
  "GetFreeSize p = GetBufferSize p - GetDataSize p"

definition IsEncoded :: "packet \<Rightarrow> bool" where
  "IsEncoded p = EncodeFlag p"

text \<open>Locking the mutex again on the thread that holds it never returns.\<close>

definition LockPacket :: "packet \<Rightarrow> fault + packet" where
  "LockPacket p = (if SRWEncode p then Inl SelfDeadlock else Inr (p\<lparr>SRWEncode := True\<rparr>))"

definition UnlockPacket :: "packet \<Rightarrow> packet" where
  "UnlockPacket p = p\<lparr>EncodeFlag := True, SRWEncode := False\<rparr>"

definition ClearPacket :: "packet \<Rightarrow> packet" where
  "ClearPacket p = p\<lparr>Front := kHeaderDefault, Rear := kHeaderDefault, EncodeFlag := False\<rparr>"

definition IncrementRef :: "packet \<Rightarrow> packet \<times> u32" where
  "IncrementRef p = (p\<lparr>RefCnt := RefCnt p + 1\<rparr>, RefCnt p + 1)"

definition DecrementRef :: "packet \<Rightarrow> packet \<times> u32" where
  "DecrementRef p = (p\<lparr>RefCnt := RefCnt p - 1\<rparr>, RefCnt p - 1)"

subsection \<open>Positions and block transfers\<close>

definition MoveWritePos :: "packet \<Rightarrow> int \<Rightarrow> fault + packet \<times> int" where
  "MoveWritePos p sz =
     ebind (chk32 (Rear p + sz)) (\<lambda>s.
       let n = (if s > BufferSize p then BufferSize p - Rear p else sz)
       in Inr (p\<lparr>Rear := Rear p + n\<rparr>, n))"

definition MoveReadPos :: "packet \<Rightarrow> int \<Rightarrow> fault + packet \<times> int" where
  "MoveReadPos p sz =
     ebind (chk32 (Front p + sz)) (\<lambda>s.
       let n = (if s > Rear p then Rear p - Front p else sz)
       in Inr (p\<lparr>Front := Front p + n\<rparr>, n))"

text \<open>\<open>GetData\<close> returns the bytes copied to \<open>dest\<close>; their number is its return value.\<close>

definition GetData :: "packet \<Rightarrow> int \<Rightarrow> fault + packet \<times> byte list" where
  "GetData p sz =
     ebind (chk32 (Front p + sz)) (\<lambda>s.
       let n = (if s > Rear p then Rear p - Front p else sz)
       in ebind (rd_mem (Buffer p) (Front p) n) (\<lambda>bs.
            Inr (p\<lparr>Front := Front p + n\<rparr>, bs)))"

definition GetData_wchar :: "packet \<Rightarrow> int \<Rightarrow> fault + packet \<times> byte list" where
  "GetData_wchar p sz = ebind (chk32 (sz * 2)) (\<lambda>s. GetData p s)"

text \<open>
  \<open>PutData\<close> copies the first \<open>srcSize\<close> bytes at \<open>src\<close>; reading past the block \<open>src\<close> is a
  fault too.
\<close>

definition PutData :: "packet \<Rightarrow> byte list \<Rightarrow> int \<Rightarrow> fault + packet \<times> int" where
  "PutData p src srcSize =
     ebind (chk32 (Rear p + srcSize)) (\<lambda>s.
       let n = (if s > BufferSize p then BufferSize p - Rear p else srcSize)
       in ebind (rd_mem src 0 n) (\<lambda>bs.
          ebind (wr_mem (Buffer p) (Rear p) bs) (\<lambda>b.
            Inr (p\<lparr>Buffer := b, Rear := Rear p + n\<rparr>, n))))"

definition PutData_wchar :: "packet \<Rightarrow> byte list \<Rightarrow> int \<Rightarrow> fault + packet \<times> int" where
  "PutData_wchar p src srcSize = ebind (chk32 (srcSize * 2)) (\<lambda>s. PutData p src s)"

text \<open>
  The copy to the front of the buffer. The source calls \<open>memcpy\<close>; source and destination
  overlap as soon as \<open>0 < Front < DataSize\<close>, where the model copies as \<open>memmove\<close> does, which
  is how the Windows runtime implements \<open>memcpy\<close> on x64.
\<close>

definition ShiftDataToFront :: "packet \<Rightarrow> fault + packet" where
  "ShiftDataToFront p =
     ebind (rd_mem (Buffer p) (Front p) (GetDataSize p)) (\<lambda>bs.
     ebind (wr_mem (Buffer p) 0 bs) (\<lambda>b.
       Inr (p\<lparr>Buffer := b, Front := 0, Rear := GetDataSize p\<rparr>)))"

definition shift_overlaps :: "packet \<Rightarrow> bool" where
  "shift_overlaps p \<longleftrightarrow> 0 < Front p \<and> Front p < GetDataSize p"

subsection \<open>Stream output\<close>

text \<open>All scalar operators copy \<open>sizeof(value)\<close> bytes to \<open>Buffer[Rear]\<close> and advance \<open>Rear\<close>.\<close>

definition put_raw :: "packet \<Rightarrow> byte list \<Rightarrow> fault + packet" where
  "put_raw p bs =
     ebind (wr_mem (Buffer p) (Rear p) bs) (\<lambda>b.
       Inr (p\<lparr>Buffer := b, Rear := Rear p + int (length bs)\<rparr>))"

definition put_uchar :: "packet \<Rightarrow> byte \<Rightarrow> fault + packet" where
  "put_uchar p v = put_raw p (le_bytes 1 v)"

definition put_char :: "packet \<Rightarrow> byte \<Rightarrow> fault + packet" where
  "put_char p v = put_raw p (le_bytes 1 v)"

definition put_short :: "packet \<Rightarrow> u16 \<Rightarrow> fault + packet" where
  "put_short p v = put_raw p (le_bytes 2 v)"

definition put_ushort :: "packet \<Rightarrow> u16 \<Rightarrow> fault + packet" where
  "put_ushort p v = put_raw p (le_bytes 2 v)"

definition put_int :: "packet \<Rightarrow> u32 \<Rightarrow> fault + packet" where
  "put_int p v = put_raw p (le_bytes 4 v)"

definition put_long :: "packet \<Rightarrow> u32 \<Rightarrow> fault + packet" where
  "put_long p v = put_raw p (le_bytes 4 v)"

definition put_ulong :: "packet \<Rightarrow> u32 \<Rightarrow> fault + packet" where
  "put_ulong p v = put_raw p (le_bytes 4 v)"

definition put_float :: "packet \<Rightarrow> u32 \<Rightarrow> fault + packet" where
  "put_float p v = put_raw p (le_bytes 4 v)"

definition put_int64 :: "packet \<Rightarrow> u64 \<Rightarrow> fault + packet" where
  "put_int64 p v = put_raw p (le_bytes 8 v)"

definition put_double :: "packet \<Rightarrow> u64 \<Rightarrow> fault + packet" where
  "put_double p v = put_raw p (le_bytes 8 v)"

text \<open>
  The string operators write a \<open>short\<close> length, then that many bytes; \<open>str\<close> is the
  NUL-terminated string without its terminator. The length is truncated to 16 bits and read as
  signed; a negative one is out of bounds for \<open>memcpy\<close>.
\<close>

definition put_len_bytes :: "packet \<Rightarrow> int \<Rightarrow> byte list \<Rightarrow> fault + packet" where
  "put_len_bytes p len str =
     ebind (wr_mem (Buffer p) (Rear p) (le_bytes 2 (word_of_int len :: u16))) (\<lambda>b1.
     ebind (rd_mem str 0 len) (\<lambda>bs.
     ebind (wr_mem b1 (Rear p + 2) bs) (\<lambda>b2.
       Inr (p\<lparr>Buffer := b2, Rear := Rear p + (2 + len)\<rparr>))))"

definition put_str :: "packet \<Rightarrow> byte list \<Rightarrow> fault + packet" where
  "put_str p str = put_len_bytes p (sint (word_of_nat (length str) :: u16)) str"

definition wstr_bytes :: "u16 list \<Rightarrow> byte list" where
  "wstr_bytes ws = concat (map (le_bytes 2) ws)"

definition put_wstr :: "packet \<Rightarrow> u16 list \<Rightarrow> fault + packet" where
  "put_wstr p str =
     put_len_bytes p (sint (word_of_int (sint (word_of_nat (length str) :: u16) * 2) :: u16))
       (wstr_bytes str)"

subsection \<open>Stream input\<close>

definition get_raw :: "packet \<Rightarrow> int \<Rightarrow> fault + packet \<times> byte list" where
  "get_raw p n =
     ebind (rd_mem (Buffer p) (Front p) n) (\<lambda>bs. Inr (p\<lparr>Front := Front p + n\<rparr>, bs))"

definition get_word :: "packet \<Rightarrow> int \<Rightarrow> fault + packet \<times> 'a::len word" where
  "get_word p n = ebind (get_raw p n) (\<lambda>(p', bs). Inr (p', le_word bs))"

definition get_uchar :: "packet \<Rightarrow> fault + packet \<times> byte" where
  "get_uchar p = get_word p 1"

definition get_char :: "packet \<Rightarrow> fault + packet \<times> byte" where
  "get_char p = get_word p 1"

definition get_short :: "packet \<Rightarrow> fault + packet \<times> u16" where
  "get_short p = get_word p 2"

definition get_ushort :: "packet \<Rightarrow> fault + packet \<times> u16" where
  "get_ushort p = get_word p 2"

definition get_int :: "packet \<Rightarrow> fault + packet \<times> u32" where
  "get_int p = get_word p 4"

definition get_ulong :: "packet \<Rightarrow> fault + packet \<times> u32" where
  "get_ulong p = get_word p 4"

definition get_float :: "packet \<Rightarrow> fault + packet \<times> u32" where
  "get_float p = get_word p 4"

definition get_int64 :: "packet \<Rightarrow> fault + packet \<times> u64" where
  "get_int64 p = get_word p 8"

definition get_double :: "packet \<Rightarrow> fault + packet \<times> u64" where
  "get_double p = get_word p 8"

text \<open>
  The string operators read the length in place, copy that many bytes to the caller's array
  \<open>dest\<close> (a block of the model) and store the terminator at index \<open>*len\<close>. For \<open>WCHAR\<close> the
  index counts 16-bit units although \<open>*len\<close> is a number of bytes, so the terminator goes to byte
  \<open>2 * len\<close>.
\<close>

definition get_str :: "packet \<Rightarrow> byte list \<Rightarrow> fault + packet \<times> byte list" where
  "get_str p dest =
     ebind (rd_mem (Buffer p) (Front p) 2) (\<lambda>lb.
       let len = sint (le_word lb :: u16)
       in ebind (rd_mem (Buffer p) (Front p + 2) len) (\<lambda>bs.
          ebind (wr_mem dest 0 bs) (\<lambda>d1.
          ebind (wr_mem d1 len [0]) (\<lambda>d2.
            Inr (p\<lparr>Front := Front p + (2 + len)\<rparr>, d2)))))"

definition get_wstr :: "packet \<Rightarrow> byte list \<Rightarrow> fault + packet \<times> byte list" where
  "get_wstr p dest =
     ebind (rd_mem (Buffer p) (Front p) 2) (\<lambda>lb.
       let len = sint (le_word lb :: u16)
       in ebind (rd_mem (Buffer p) (Front p + 2) len) (\<lambda>bs.
          ebind (wr_mem dest 0 bs) (\<lambda>d1.
          ebind (wr_mem d1 (2 * len) [0, 0]) (\<lambda>d2.
            Inr (p\<lparr>Front := Front p + (2 + len)\<rparr>, d2)))))"

subsection \<open>Well-formed packets and the byte queue they hold\<close>

text \<open>
  \<open>packet_data\<close> is what a packet holds: the bytes between \<open>Front\<close> and \<open>Rear\<close>. A packet is
  well formed when its positions are ordered inside its block.
\<close>

definition packet_wf :: "packet \<Rightarrow> bool" where
  "packet_wf p \<longleftrightarrow> 0 \<le> Front p \<and> Front p \<le> Rear p \<and> Rear p \<le> BufferSize p \<and>
     int (length (Buffer p)) = BufferSize p \<and> BufferSize p < 2 ^ 31"

definition packet_data :: "packet \<Rightarrow> byte list" where
  "packet_data p = window (Buffer p) (Front p) (Rear p)"

definition packet_room :: "packet \<Rightarrow> int" where
  "packet_room p = BufferSize p - Rear p"

lemmas packet_defs = packet_wf_def packet_data_def packet_room_def

lemma packet_wf_ctor [wf_intros]:
  "0 \<le> n \<Longrightarrow> n < 2 ^ 31 \<Longrightarrow> packet_wf (Packet_ctor n fill)"
  by (simp add: packet_wf_def Packet_ctor_def new_block_def)

lemma packet_wf_Clear [wf_intros]:
  "packet_wf p \<Longrightarrow> kHeaderDefault \<le> BufferSize p \<Longrightarrow> packet_wf (ClearPacket p)"
  by (simp add: packet_wf_def ClearPacket_def kHeaderDefault_def)

lemma packet_data_Clear [simp]: "packet_data (ClearPacket p) = []"
  by (simp add: packet_data_def ClearPacket_def)

lemma length_packet_data: "packet_wf p \<Longrightarrow> int (length (packet_data p)) = GetDataSize p"
  by (simp add: packet_defs length_window GetDataSize_def)

lemma packet_room_nonneg [simp]: "packet_wf p \<Longrightarrow> 0 \<le> packet_room p"
  by (simp add: packet_defs)

lemma packet_wf_more [wf_intros]:
  "packet_wf p \<Longrightarrow> packet_wf (fst (IncrementRef p))"
  "packet_wf p \<Longrightarrow> packet_wf (fst (DecrementRef p))"
  "packet_wf p \<Longrightarrow> packet_wf (UnlockPacket p)"
  "packet_wf p \<Longrightarrow> packet_wf (p\<lparr>SRWEncode := b\<rparr>)"
  by (simp_all add: packet_wf_def IncrementRef_def DecrementRef_def UnlockPacket_def)

text \<open>The block of a well-formed packet around its data, and a packet's data from its block.\<close>

lemma packet_split:
  assumes wf: "packet_wf p" and k: "int k \<le> Front p"
  obtains A H B where "Buffer p = A @ H @ packet_data p @ B" "int (length A) = Front p - int k"
    "length H = k"
proof
  let ?f = "nat (Front p)"
  have "take (?f - k) (Buffer p) @ take k (drop (?f - k) (Buffer p)) = take ?f (Buffer p)"
    using k by (simp add: take_add [symmetric])
  moreover have "drop ?f (Buffer p) = packet_data p @ drop (nat (Rear p - Front p)) (drop ?f (Buffer p))"
    by (simp add: packet_data_def window_def del: drop_drop)
  ultimately show "Buffer p = take (?f - k) (Buffer p) @ take k (drop (?f - k) (Buffer p)) @
      packet_data p @ drop (nat (Rear p - Front p)) (drop ?f (Buffer p))"
    by (metis append_assoc append_take_drop_id)
  show "int (length (take (?f - k) (Buffer p))) = Front p - int k"
    "length (take k (drop (?f - k) (Buffer p))) = k"
    using wf k by (auto simp: packet_wf_def)
qed

lemma packet_split_data:
  assumes "packet_wf p"
  obtains A B where "Buffer p = A @ packet_data p @ B" "int (length A) = Front p"
proof -
  have "int 0 \<le> Front p" using assms by (simp add: packet_wf_def)
  from packet_split [OF assms this]
  obtain A H B where "Buffer p = A @ H @ packet_data p @ B" "int (length A) = Front p - int 0"
    "length H = 0" .
  then show thesis using that [of A B] by simp
qed

lemma packet_data_append:
  "Buffer p = A @ d @ B \<Longrightarrow> Front p = int (length A) \<Longrightarrow> Rear p = int (length A + length d) \<Longrightarrow>
   packet_data p = d"
  by (simp add: packet_data_def window_def)

text \<open>Writing \<open>bs\<close> at \<open>Rear\<close> appends to the data; the fault is exactly the lack of room.\<close>

lemma put_raw_ok:
  assumes wf: "packet_wf p" and fits: "int (length bs) \<le> packet_room p"
  shows "\<exists>p'. put_raw p bs = Inr p' \<and> packet_wf p' \<and>
           packet_data p' = packet_data p @ bs \<and> packet_room p' = packet_room p - int (length bs) \<and>
           Front p' = Front p \<and> BufferSize p' = BufferSize p \<and> RefCnt p' = RefCnt p \<and>
           EncodeFlag p' = EncodeFlag p \<and> SRWEncode p' = SRWEncode p"
proof -
  obtain b where b: "wr_mem (Buffer p) (Rear p) bs = Inr b"
    using assms by (auto simp: packet_defs wr_mem_def)
  let ?p' = "p\<lparr>Buffer := b, Rear := Rear p + int (length bs)\<rparr>"
  have "window b (Front p) (Rear p + int (length bs)) =
        window b (Front p) (Rear p) @ window b (Rear p) (Rear p + int (length bs))"
    using wf by (intro window_append) (auto simp: packet_defs)
  also have "\<dots> = packet_data p @ bs"
    using wf by (simp add: packet_defs window_wr_mem_below [OF b] window_wr_mem_same [OF b])
  finally have "packet_data ?p' = packet_data p @ bs" by (simp add: packet_data_def)
  moreover have "put_raw p bs = Inr ?p'" by (simp add: put_raw_def b)
  moreover have "packet_wf ?p'" and "packet_room ?p' = packet_room p - int (length bs)"
    using assms length_wr_mem [OF b] by (auto simp: packet_defs)
  ultimately show ?thesis by simp
qed

lemma put_raw_overrun:
  "packet_wf p \<Longrightarrow> packet_room p < int (length bs) \<Longrightarrow> put_raw p bs = Inl OutOfBounds"
  by (auto simp: put_raw_def wr_mem_def packet_defs)

lemma get_raw_ok:
  assumes wf: "packet_wf p" and n: "0 \<le> n" "n \<le> GetDataSize p"
  shows "\<exists>p'. get_raw p n = Inr (p', take (nat n) (packet_data p)) \<and> packet_wf p' \<and>
           packet_data p' = drop (nat n) (packet_data p) \<and> packet_room p' = packet_room p \<and>
           Front p' = Front p + n \<and> Rear p' = Rear p \<and> Buffer p' = Buffer p \<and>
           BufferSize p' = BufferSize p \<and> RefCnt p' = RefCnt p \<and>
           EncodeFlag p' = EncodeFlag p \<and> SRWEncode p' = SRWEncode p"
proof -
  let ?p' = "p\<lparr>Front := Front p + n\<rparr>"
  have "window (Buffer p) (Front p) (Rear p) =
        window (Buffer p) (Front p) (Front p + n) @ window (Buffer p) (Front p + n) (Rear p)"
    using assms by (intro window_append) (auto simp: packet_wf_def GetDataSize_def)
  moreover have len: "length (window (Buffer p) (Front p) (Front p + n)) = nat n"
    using assms by (subst length_window) (auto simp: packet_wf_def GetDataSize_def)
  ultimately have "take (nat n) (packet_data p) = window (Buffer p) (Front p) (Front p + n)"
    and "drop (nat n) (packet_data p) = packet_data ?p'"
    by (simp_all add: packet_data_def)
  moreover have "rd_mem (Buffer p) (Front p) n = Inr (window (Buffer p) (Front p) (Front p + n))"
    using assms by (auto simp: rd_mem_def window_def packet_wf_def GetDataSize_def)
  ultimately show ?thesis
    using assms by (auto simp: get_raw_def packet_wf_def packet_room_def GetDataSize_def)
qed

lemma get_word_ok:
  assumes "packet_wf p" "packet_data p = le_bytes n (w :: 'a::len word) @ rest" "LENGTH('a) = 8 * n"
  shows "\<exists>p'. get_word p (int n) = Inr (p', w) \<and> packet_wf p' \<and> packet_data p' = rest \<and> BufferSize p' = BufferSize p \<and>
     RefCnt p' = RefCnt p \<and> SRWEncode p' = SRWEncode p"
proof -
  have "int n \<le> GetDataSize p" using length_packet_data [OF assms(1)] assms(2) by simp
  from get_raw_ok [OF assms(1) _ this] show ?thesis
    using assms(2) le_word_le_bytes [OF assms(3), of w] by (auto simp: get_word_def)
qed

subsection \<open>Clamped transfers\<close>

lemma MoveWritePos_ok:
  assumes "packet_wf p" "0 \<le> n" "Rear p + n < 2 ^ 31"
  shows "MoveWritePos p n =
           Inr (p\<lparr>Rear := Rear p + min n (packet_room p)\<rparr>, min n (packet_room p))"
  using assms by (auto simp: MoveWritePos_def chk32_def packet_defs Let_def min_def)

lemma packet_wf_advance_Rear [wf_intros]:
  "packet_wf p \<Longrightarrow> 0 \<le> n \<Longrightarrow> n \<le> packet_room p \<Longrightarrow> packet_wf (p\<lparr>Rear := Rear p + n\<rparr>)"
  by (simp add: packet_defs)

lemma MoveReadPos_ok:
  assumes "packet_wf p" "0 \<le> n" "Front p + n < 2 ^ 31"
  shows "MoveReadPos p n =
           Inr (p\<lparr>Front := Front p + min n (GetDataSize p)\<rparr>, min n (GetDataSize p))"
  using assms by (auto simp: MoveReadPos_def chk32_def packet_wf_def GetDataSize_def Let_def min_def)

lemma packet_wf_advance_Front [wf_intros]:
  "packet_wf p \<Longrightarrow> 0 \<le> n \<Longrightarrow> n \<le> GetDataSize p \<Longrightarrow> packet_wf (p\<lparr>Front := Front p + n\<rparr>)"
  by (simp add: packet_wf_def GetDataSize_def)

lemma packet_data_advance_Front:
  "packet_wf p \<Longrightarrow> 0 \<le> n \<Longrightarrow> n \<le> GetDataSize p \<Longrightarrow>
   packet_data (p\<lparr>Front := Front p + n\<rparr>) = drop (nat n) (packet_data p)"
  using get_raw_ok [of p n] by (auto simp: get_raw_def ebind_eq_Inr)

text \<open>\<open>PutData\<close> stores as much of the source as there is room for and never faults.\<close>

lemma PutData_eq_put_raw:
  assumes "packet_wf p" "0 \<le> n" "Rear p + n < 2 ^ 31" "n \<le> int (length src)"
  shows "PutData p src n =
           ebind (put_raw p (take (nat (min n (packet_room p))) src))
             (\<lambda>p'. Inr (p', min n (packet_room p)))"
proof -
  let ?k = "min n (packet_room p)"
  have k: "(if Rear p + n > BufferSize p then BufferSize p - Rear p else n) = ?k" "0 \<le> ?k"
    using assms by (auto simp: packet_defs)
  have "rd_mem src 0 ?k = Inr (take (nat ?k) src)" and "int (length (take (nat ?k) src)) = ?k"
    using assms k by (auto simp: rd_mem_def)
  then show ?thesis
    using assms k by (simp add: PutData_def put_raw_def Let_def ebind_assoc packet_wf_def)
qed

lemma PutData_ok:
  assumes "packet_wf p" "0 \<le> n" "Rear p + n < 2 ^ 31" "n \<le> int (length src)"
  shows "\<exists>p'. PutData p src n = Inr (p', min n (packet_room p)) \<and> packet_wf p' \<and>
           packet_data p' = packet_data p @ take (nat (min n (packet_room p))) src \<and>
           Front p' = Front p \<and> BufferSize p' = BufferSize p \<and> RefCnt p' = RefCnt p \<and>
           EncodeFlag p' = EncodeFlag p \<and> SRWEncode p' = SRWEncode p"
proof -
  have "int (length (take (nat (min n (packet_room p))) src)) \<le> packet_room p"
    using assms by auto
  from put_raw_ok [OF assms(1) this] show ?thesis
    by (auto simp: PutData_eq_put_raw [OF assms])
qed

text \<open>\<open>GetData\<close> takes as many bytes as there are, up to the number asked for.\<close>

lemma GetData_eq_get_raw:
  assumes "packet_wf p" "0 \<le> n" "Front p + n < 2 ^ 31"
  shows "GetData p n = get_raw p (min n (GetDataSize p))"
proof -
  have "(if Front p + n > Rear p then Rear p - Front p else n) = min n (GetDataSize p)"
    by (auto simp: GetDataSize_def)
  then show ?thesis using assms by (simp add: GetData_def get_raw_def packet_wf_def Let_def)
qed

lemma GetData_ok:
  assumes "packet_wf p" "0 \<le> n" "Front p + n < 2 ^ 31"
  shows "\<exists>p'. GetData p n = Inr (p', take (nat n) (packet_data p)) \<and> packet_wf p' \<and>
           packet_data p' = drop (nat n) (packet_data p) \<and> Rear p' = Rear p \<and>
           Front p' = Front p + min n (GetDataSize p) \<and> BufferSize p' = BufferSize p"
proof -
  have pos: "0 \<le> GetDataSize p" using assms by (simp add: packet_wf_def GetDataSize_def)
  have eq: "take (nat (min n (GetDataSize p))) (packet_data p) = take (nat n) (packet_data p)"
    "drop (nat (min n (GetDataSize p))) (packet_data p) = drop (nat n) (packet_data p)"
    using length_packet_data [OF assms(1)] pos by (auto simp: min_def)
  from get_raw_ok [OF assms(1), of "min n (GetDataSize p)"] assms(2) pos eq show ?thesis
    by (auto simp: GetData_eq_get_raw [OF assms])
qed

lemma ShiftDataToFront_ok:
  assumes wf: "packet_wf p"
  shows "\<exists>p'. ShiftDataToFront p = Inr p' \<and> packet_wf p' \<and> packet_data p' = packet_data p \<and>
           Front p' = 0 \<and> BufferSize p' = BufferSize p"
proof -
  have rd: "rd_mem (Buffer p) (Front p) (GetDataSize p) = Inr (packet_data p)"
    using wf by (auto simp: rd_mem_def packet_defs window_def GetDataSize_def)
  have len: "int (length (packet_data p)) = GetDataSize p" by (rule length_packet_data [OF wf])
  then obtain b where b: "wr_mem (Buffer p) 0 (packet_data p) = Inr b"
    using wf by (auto simp: wr_mem_def packet_wf_def GetDataSize_def)
  have "window b 0 (GetDataSize p) = packet_data p"
    using window_wr_mem_same [OF b] len by simp
  then show ?thesis
    using wf rd b length_wr_mem [OF b] by (auto simp: ShiftDataToFront_def packet_defs GetDataSize_def)
qed

subsection \<open>The byte queue a packet implements\<close>

text \<open>
  The contract the serialisers of the repository rely on: a byte queue with bounded room. Values
  written one after another are read back in the same order, whatever their sizes.
\<close>

fun put_all :: "('s \<Rightarrow> byte list \<Rightarrow> fault + 's) \<Rightarrow> 's \<Rightarrow> byte list list \<Rightarrow> fault + 's" where
  "put_all put s [] = Inr s"
| "put_all put s (bs # bss) = ebind (put s bs) (\<lambda>s'. put_all put s' bss)"

fun get_all :: "('s \<Rightarrow> int \<Rightarrow> fault + 's \<times> byte list) \<Rightarrow> 's \<Rightarrow> nat list \<Rightarrow>
    fault + 's \<times> byte list list" where
  "get_all get s [] = Inr (s, [])"
| "get_all get s (n # ns) =
     ebind (get s (int n)) (\<lambda>(s', bs). ebind (get_all get s' ns) (\<lambda>(s'', bss). Inr (s'', bs # bss)))"

locale byte_fifo =
  fixes inv :: "'s \<Rightarrow> bool"
    and view :: "'s \<Rightarrow> byte list"
    and room :: "'s \<Rightarrow> int"
    and put :: "'s \<Rightarrow> byte list \<Rightarrow> fault + 's"
    and get :: "'s \<Rightarrow> int \<Rightarrow> fault + 's \<times> byte list"
  assumes put_fits: "inv s \<Longrightarrow> int (length bs) \<le> room s \<Longrightarrow>
      \<exists>s'. put s bs = Inr s' \<and> inv s' \<and> view s' = view s @ bs \<and> room s' = room s - int (length bs)"
    and put_overruns: "inv s \<Longrightarrow> room s < int (length bs) \<Longrightarrow> put s bs = Inl OutOfBounds"
    and get_avail: "inv s \<Longrightarrow> n \<le> length (view s) \<Longrightarrow>
      \<exists>s'. get s (int n) = Inr (s', take n (view s)) \<and> inv s' \<and> view s' = drop n (view s)"
begin

lemma put_all_fits:
  "inv s \<Longrightarrow> int (length (concat bss)) \<le> room s \<Longrightarrow>
   \<exists>s'. put_all put s bss = Inr s' \<and> inv s' \<and> view s' = view s @ concat bss \<and>
        room s' = room s - int (length (concat bss))"
proof (induction bss arbitrary: s)
  case Nil
  then show ?case by simp
next
  case (Cons bs bss)
  then obtain s1 where "put s bs = Inr s1" "inv s1" "view s1 = view s @ bs"
    "room s1 = room s - int (length bs)"
    using put_fits [of s bs] by auto
  with Cons.IH [of s1] Cons.prems show ?case by auto
qed

lemma put_all_overruns:
  "inv s \<Longrightarrow> room s < int (length (concat bss)) \<Longrightarrow> 0 \<le> room s \<Longrightarrow>
   put_all put s bss = Inl OutOfBounds"
proof (induction bss arbitrary: s)
  case Nil
  then show ?case by simp
next
  case (Cons bs bss)
  show ?case
  proof (cases "int (length bs) \<le> room s")
    case True
    then obtain s1 where "put s bs = Inr s1" "inv s1" "room s1 = room s - int (length bs)"
      using put_fits [of s bs] Cons.prems by auto
    with Cons.IH [of s1] Cons.prems True show ?thesis by auto
  next
    case False
    then show ?thesis using put_overruns Cons.prems by simp
  qed
qed

lemma get_all_avail:
  "inv s \<Longrightarrow> view s = concat bss @ rest \<Longrightarrow>
   \<exists>s'. get_all get s (map length bss) = Inr (s', bss) \<and> inv s' \<and> view s' = rest"
proof (induction bss arbitrary: s)
  case Nil
  then show ?case by simp
next
  case (Cons bs bss)
  then obtain s1 where "get s (int (length bs)) = Inr (s1, bs)" "inv s1"
    "view s1 = concat bss @ rest"
    using get_avail [of s "length bs"] by auto
  with Cons.IH [of s1] show ?case by auto
qed

lemma put_all_get_all:
  assumes "inv s" "view s = []" "put_all put s bss = Inr s'" "0 \<le> room s"
  shows "\<exists>s''. get_all get s' (map length bss) = Inr (s'', bss) \<and> inv s'' \<and> view s'' = []"
proof -
  have "int (length (concat bss)) \<le> room s"
    using put_all_overruns [of s bss] assms by force
  with put_all_fits [of s bss] assms have "inv s'" "view s' = concat bss @ []" by auto
  then show ?thesis by (rule get_all_avail)
qed

end

interpretation pkt_fifo: byte_fifo packet_wf packet_data packet_room put_raw get_raw
proof (unfold_locales, goal_cases)
  case (1 s bs)
  then show ?case using put_raw_ok by blast
next
  case (2 s bs)
  then show ?case by (rule put_raw_overrun)
next
  case (3 s n)
  then have "int n \<le> GetDataSize s" using length_packet_data [of s] by simp
  then show ?case using get_raw_ok [of s "int n"] 3 by auto
qed

subsection \<open>Strings on the wire\<close>

lemma rd_mem_packet_data:
  assumes wf: "packet_wf p" and data: "packet_data p = as @ bs @ cs"
  shows "rd_mem (Buffer p) (Front p + int (length as)) (int (length bs)) = Inr bs"
proof -
  have len: "int (length as + length bs + length cs) = Rear p - Front p"
    using length_packet_data [OF wf] data by (simp add: GetDataSize_def)
  have "take (nat (Rear p - Front p)) (drop (nat (Front p)) (Buffer p)) = as @ bs @ cs"
    using data by (simp add: packet_data_def window_def)
  then have "take (length bs) (drop (length as) (take (nat (Rear p - Front p))
               (drop (nat (Front p)) (Buffer p)))) = bs" by simp
  moreover have "nat (Rear p - Front p) - length as = length bs + length cs" using len by simp
  moreover have "nat (Front p + int (length as)) = length as + nat (Front p)"
    using wf by (simp add: packet_wf_def nat_add_distrib)
  ultimately have "take (length bs) (drop (nat (Front p + int (length as))) (Buffer p)) = bs"
    by (simp add: drop_take drop_drop)
  then show ?thesis using wf len by (auto simp: rd_mem_def packet_wf_def)
qed

lemma put_len_bytes_ok:
  assumes wf: "packet_wf p" and len: "len = int (length str)"
    and fits: "2 + len \<le> packet_room p"
  shows "\<exists>p'. put_len_bytes p len str = Inr p' \<and> packet_wf p' \<and>
           packet_data p' = packet_data p @ le_bytes 2 (word_of_int len :: u16) @ str"
proof -
  let ?l = "le_bytes 2 (word_of_int len :: u16)"
  obtain p1 where p1: "put_raw p ?l = Inr p1" "packet_wf p1"
    "packet_data p1 = packet_data p @ ?l" "packet_room p1 = packet_room p - 2"
    using put_raw_ok [OF wf, of ?l] fits len by auto
  obtain p2 where p2: "put_raw p1 str = Inr p2" "packet_wf p2"
    "packet_data p2 = packet_data p1 @ str"
    using put_raw_ok [OF p1(2), of str] p1 fits len by auto
  have "rd_mem str 0 len = Inr str" using len by (simp add: rd_mem_def)
  then have "put_len_bytes p len str = Inr p2"
    using p1(1) p2(1) len by (auto simp: put_len_bytes_def put_raw_def ebind_eq_Inr algebra_simps)
  then show ?thesis using p1 p2 by simp
qed

lemma sint_len16: "n < 2 ^ 15 \<Longrightarrow> sint (word_of_nat n :: u16) = int n"
  by (subst sint_uint)
     (simp add: uint_nat unat_of_nat signed_take_bit_int_eq_self_iff signed_take_bit_int_eq_self)

lemma get_len_field:
  assumes wf: "packet_wf p" and data: "packet_data p = le_bytes 2 (word_of_nat n :: u16) @ bs @ rest"
    and n: "length bs = n" "n < 2 ^ 15"
  shows "\<exists>lb. rd_mem (Buffer p) (Front p) 2 = Inr lb \<and> sint (le_word lb :: u16) = int n \<and>
           rd_mem (Buffer p) (Front p + 2) (int n) = Inr bs"
  using rd_mem_packet_data [OF wf, of "[]" "le_bytes 2 (word_of_nat n :: u16)" "bs @ rest"]
    rd_mem_packet_data [OF wf, of "le_bytes 2 (word_of_nat n :: u16)" bs rest] assms
  by (simp add: le_word_le_bytes sint_len16)

lemma length_wstr_bytes [simp]: "length (wstr_bytes ws) = 2 * length ws"
  by (induction ws) (simp_all add: wstr_bytes_def)

subsection \<open>Typed values\<close>

text \<open>A value handed to \<open>operator<<\<close>, with the operand type the overload is chosen by.\<close>

datatype wire_val = VUchar byte | VChar byte | VShort u16 | VUshort u16 | VInt u32 | VUlong u32
  | VFloat u32 | VInt64 u64 | VDouble u64

fun put_val :: "packet \<Rightarrow> wire_val \<Rightarrow> fault + packet" where
  "put_val p (VUchar v) = put_uchar p v"
| "put_val p (VChar v) = put_char p v"
| "put_val p (VShort v) = put_short p v"
| "put_val p (VUshort v) = put_ushort p v"
| "put_val p (VInt v) = put_int p v"
| "put_val p (VUlong v) = put_ulong p v"
| "put_val p (VFloat v) = put_float p v"
| "put_val p (VInt64 v) = put_int64 p v"
| "put_val p (VDouble v) = put_double p v"

text \<open>\<open>operator>>\<close> into a variable of the type of \<open>v\<close>.\<close>

fun get_val :: "packet \<Rightarrow> wire_val \<Rightarrow> fault + packet \<times> wire_val" where
  "get_val p (VUchar v) = ebind (get_uchar p) (\<lambda>(q, x). Inr (q, VUchar x))"
| "get_val p (VChar v) = ebind (get_char p) (\<lambda>(q, x). Inr (q, VChar x))"
| "get_val p (VShort v) = ebind (get_short p) (\<lambda>(q, x). Inr (q, VShort x))"
| "get_val p (VUshort v) = ebind (get_ushort p) (\<lambda>(q, x). Inr (q, VUshort x))"
| "get_val p (VInt v) = ebind (get_int p) (\<lambda>(q, x). Inr (q, VInt x))"
| "get_val p (VUlong v) = ebind (get_ulong p) (\<lambda>(q, x). Inr (q, VUlong x))"
| "get_val p (VFloat v) = ebind (get_float p) (\<lambda>(q, x). Inr (q, VFloat x))"
| "get_val p (VInt64 v) = ebind (get_int64 p) (\<lambda>(q, x). Inr (q, VInt64 x))"
| "get_val p (VDouble v) = ebind (get_double p) (\<lambda>(q, x). Inr (q, VDouble x))"

fun put_vals :: "packet \<Rightarrow> wire_val list \<Rightarrow> fault + packet" where
  "put_vals p [] = Inr p"
| "put_vals p (v # vs) = ebind (put_val p v) (\<lambda>q. put_vals q vs)"

fun get_vals :: "packet \<Rightarrow> wire_val list \<Rightarrow> fault + packet \<times> wire_val list" where
  "get_vals p [] = Inr (p, [])"
| "get_vals p (v # vs) =
     ebind (get_val p v) (\<lambda>(q, x). ebind (get_vals q vs) (\<lambda>(r, xs). Inr (r, x # xs)))"

fun val_bytes :: "wire_val \<Rightarrow> byte list" where
  "val_bytes (VUchar v) = le_bytes 1 v"
| "val_bytes (VChar v) = le_bytes 1 v"
| "val_bytes (VShort v) = le_bytes 2 v"
| "val_bytes (VUshort v) = le_bytes 2 v"
| "val_bytes (VInt v) = le_bytes 4 v"
| "val_bytes (VUlong v) = le_bytes 4 v"
| "val_bytes (VFloat v) = le_bytes 4 v"
| "val_bytes (VInt64 v) = le_bytes 8 v"
| "val_bytes (VDouble v) = le_bytes 8 v"

lemmas put_scalar_defs = put_uchar_def put_char_def put_short_def put_ushort_def put_int_def
  put_long_def put_ulong_def put_float_def put_int64_def put_double_def

lemmas get_scalar_defs = get_uchar_def get_char_def get_short_def get_ushort_def get_int_def
  get_ulong_def get_float_def get_int64_def get_double_def

lemma put_val_raw: "put_val p v = put_raw p (val_bytes v)"
  by (cases v) (simp_all add: put_scalar_defs)

lemma put_vals_raw: "put_vals p vs = put_all put_raw p (map val_bytes vs)"
  by (induction vs arbitrary: p) (simp_all add: put_val_raw)

lemma get_val_raw:
  "get_raw p (int (length (val_bytes v))) = Inr (q, val_bytes v) \<Longrightarrow> get_val p v = Inr (q, v)"
  by (cases v) (simp_all add: get_scalar_defs get_word_def le_word_le_bytes)

lemma get_vals_raw:
  "get_all get_raw p (map (length \<circ> val_bytes) vs) = Inr (q, map val_bytes vs) \<Longrightarrow>
   get_vals p vs = Inr (q, vs)"
  by (induction vs arbitrary: p q) (auto simp: ebind_eq_Inr intro!: get_val_raw)

subsection \<open>Properties\<close>

text \<open>C24. Serialisation round trip. Whatever sequence of scalar values is streamed into an
  empty packet without overrunning it, streaming out variables of the same types gives the same
  values in the same order and leaves the packet empty.\<close>

theorem serialize_roundtrip:
  assumes "packet_wf p" and "packet_data p = []" and "put_vals p vs = Inr p'"
  shows "\<exists>q. get_vals p' vs = Inr (q, vs) \<and> packet_wf q \<and> packet_data q = []"
proof -
  obtain q where "get_all get_raw p' (map length (map val_bytes vs)) = Inr (q, map val_bytes vs)"
    "packet_wf q" "packet_data q = []"
    using pkt_fifo.put_all_get_all [of p "map val_bytes vs" p'] assms by (auto simp: put_vals_raw)
  then show ?thesis using get_vals_raw [of p' vs q] by auto
qed

theorem serialize_roundtrip_witness:
  "\<exists>p' q. put_vals (ClearPacket (Packet_ctor 64 (\<lambda>_. 7))) [VInt 42, VUchar 255, VInt64 5] = Inr p' \<and>
     get_vals p' [VInt 42, VUchar 255, VInt64 5] = Inr (q, [VInt 42, VUchar 255, VInt64 5])"
proof -
  let ?p = "ClearPacket (Packet_ctor 64 (\<lambda>_. 7))" and ?vs = "[VInt 42, VUchar 255, VInt64 5]"
  have wf: "packet_wf ?p"
    by (simp add: packet_wf_def ClearPacket_def Packet_ctor_def kHeaderDefault_def new_block_def)
  obtain p' where p': "put_vals ?p ?vs = Inr p'"
    using pkt_fifo.put_all_fits [OF wf, of "map val_bytes ?vs"]
    by (auto simp: put_vals_raw packet_room_def ClearPacket_def Packet_ctor_def kHeaderDefault_def)
  show ?thesis using serialize_roundtrip [OF wf packet_data_Clear p'] p' by blast
qed

text \<open>No stream operator is bounded by the buffer: writing values succeeds exactly when
  their total size fits between \<open>Rear\<close> and the end of the block, and otherwise writes outside
  the block. \<open>PutData\<close> on the same packet stops at the end instead.\<close>

theorem stream_out_bounds:
  assumes "packet_wf p"
  shows "(put_vals p vs = Inl OutOfBounds \<longleftrightarrow>
            packet_room p < (\<Sum>v\<leftarrow>vs. int (length (val_bytes v)))) \<and>
         (\<forall>n src. 0 \<le> n \<and> n \<le> int (length src) \<and> Rear p + n < 2 ^ 31 \<longrightarrow>
            (\<exists>p'. PutData p src n = Inr (p', min n (packet_room p)) \<and> packet_wf p' \<and>
               packet_data p' = packet_data p @ take (nat (min n (packet_room p))) src))"
proof -
  have total: "int (length (concat (map val_bytes vs))) = (\<Sum>v\<leftarrow>vs. int (length (val_bytes v)))"
    by (induction vs) auto
  have nonneg: "0 \<le> packet_room p" using assms by simp
  have "put_vals p vs = Inl OutOfBounds \<longleftrightarrow>
      packet_room p < (\<Sum>v\<leftarrow>vs. int (length (val_bytes v)))"
    using pkt_fifo.put_all_fits [OF assms, of "map val_bytes vs"]
      pkt_fifo.put_all_overruns [OF assms, of "map val_bytes vs"] nonneg total
    unfolding put_vals_raw by (metis linorder_not_less sum.distinct(1))
  then show ?thesis using PutData_ok [OF assms] by fastforce
qed

theorem stream_out_bounds_witness:
  "put_vals (Packet_ctor 5 (\<lambda>_. 0)) [VInt 1, VShort 2] = Inl OutOfBounds \<and>
   (\<exists>p'. PutData (Packet_ctor 5 (\<lambda>_. 0)) [1, 2, 3, 4, 5, 6] 6 = Inr (p', 5))"
proof -
  have wf: "packet_wf (Packet_ctor 5 (\<lambda>_. 0))" by (rule packet_wf_ctor) simp_all
  have room: "packet_room (Packet_ctor 5 (\<lambda>_. 0)) = 5" and rear: "Rear (Packet_ctor 5 (\<lambda>_. 0)) = 0"
    by (simp_all add: packet_room_def Packet_ctor_def)
  have "0 \<le> (6::int) \<and> 6 \<le> int (length [1::byte, 2, 3, 4, 5, 6]) \<and>
      Rear (Packet_ctor 5 (\<lambda>_. 0)) + 6 < 2 ^ 31" using rear by simp
  with stream_out_bounds [OF wf, of "[VInt 1, VShort 2]"] show ?thesis
    unfolding room by fastforce
qed

text \<open>Moving the remaining bytes to the front of the receive buffer keeps them, puts
  \<open>Front\<close> at 0, so that \<open>GetFreeSize\<close> is then exactly the room behind \<open>Rear\<close>, which it
  overstates by \<open>Front\<close> bytes in any other state.\<close>

theorem shift_to_front:
  assumes "packet_wf p"
  shows "\<exists>p'. ShiftDataToFront p = Inr p' \<and> packet_wf p' \<and> packet_data p' = packet_data p \<and>
           Front p' = 0 \<and> GetFreeSize p' = packet_room p' \<and>
           GetFreeSize p = packet_room p + Front p"
  using ShiftDataToFront_ok [OF assms]
  by (auto simp: GetFreeSize_def GetBufferSize_def GetDataSize_def packet_room_def)

theorem shift_to_front_witness:
  "\<exists>p'. ShiftDataToFront (ClearPacket (Packet_ctor 64 (\<lambda>_. 7))) = Inr p' \<and> Front p' = 0"
proof -
  have "packet_wf (ClearPacket (Packet_ctor 64 (\<lambda>_. 7)))"
    by (simp add: packet_wf_def ClearPacket_def Packet_ctor_def kHeaderDefault_def new_block_def)
  from shift_to_front [OF this] show ?thesis by blast
qed

text \<open>Narrow strings round trip: a string shorter than 32768 bytes that fits is read back
  into a large enough array, followed by its terminator and nothing else changed.\<close>

theorem narrow_string_roundtrip:
  assumes "packet_wf p" and "packet_data p = []" and "length str < 2 ^ 15"
    and "2 + int (length str) \<le> packet_room p" and "length str < length dest"
  shows "\<exists>p' q. put_str p str = Inr p' \<and>
           get_str p' dest = Inr (q, str @ [0] @ drop (Suc (length str)) dest)"
proof -
  have len: "sint (word_of_nat (length str) :: u16) = int (length str)"
    by (rule sint_len16 [OF assms(3)])
  obtain p' where p': "put_str p str = Inr p'" "packet_wf p'"
    "packet_data p' = le_bytes 2 (word_of_nat (length str) :: u16) @ str @ []"
    using put_len_bytes_ok [OF assms(1) refl assms(4)] assms(2) by (auto simp: put_str_def len)
  from get_len_field [OF p'(2,3) refl assms(3)]
  obtain lb where lb: "rd_mem (Buffer p') (Front p') 2 = Inr lb"
    "sint (le_word lb :: u16) = int (length str)"
    "rd_mem (Buffer p') (Front p' + 2) (int (length str)) = Inr str" by blast
  have "wr_mem dest 0 str = Inr (str @ drop (length str) dest)"
    using assms(5) by (simp add: wr_mem_def)
  moreover have "wr_mem (str @ drop (length str) dest) (int (length str)) [0] =
      Inr (str @ [0] @ drop (Suc (length str)) dest)"
    using assms(5) by (simp add: wr_mem_def)
  ultimately show ?thesis using p'(1) lb by (auto simp: get_str_def)
qed

theorem narrow_string_roundtrip_witness:
  "\<exists>p' q. put_str (ClearPacket (Packet_ctor 64 (\<lambda>_. 7))) [104, 105] = Inr p' \<and>
     get_str p' [9, 9, 9, 9] = Inr (q, [104, 105, 0, 9])"
proof -
  have "packet_wf (ClearPacket (Packet_ctor 64 (\<lambda>_. 7)))"
    by (simp add: packet_wf_def ClearPacket_def Packet_ctor_def kHeaderDefault_def new_block_def)
  from narrow_string_roundtrip [OF this packet_data_Clear, of "[104, 105]" "[9, 9, 9, 9]"]
  show ?thesis by (simp add: packet_room_def ClearPacket_def Packet_ctor_def kHeaderDefault_def)
qed

text \<open>Wide strings do not round trip: \<open>operator>>(WCHAR*)\<close> stores the terminator \<open>len\<close>
  16-bit units into the destination although \<open>len\<close> counts bytes. A destination with room for
  exactly the string and its terminator is overrun, and in a larger one the unit after the
  string keeps its old contents.\<close>

theorem wide_string_terminator_misplaced:
  assumes "packet_wf p" and "packet_data p = []" and "ws \<noteq> []" and "2 * length ws < 2 ^ 15"
    and "2 + 2 * int (length ws) \<le> packet_room p"
  shows "\<exists>p'. put_wstr p ws = Inr p' \<and>
           (\<forall>dest. length dest = 2 * (length ws + 1) \<longrightarrow> get_wstr p' dest = Inl OutOfBounds) \<and>
           (\<forall>dest. 4 * length ws + 2 \<le> length dest \<longrightarrow>
              (\<exists>q d. get_wstr p' dest = Inr (q, d) \<and> take (2 * length ws) d = wstr_bytes ws \<and>
                 d ! (2 * length ws) = dest ! (2 * length ws) \<and>
                 d ! (2 * length ws + 1) = dest ! (2 * length ws + 1)))"
proof -
  let ?n = "2 * length ws" and ?s = "wstr_bytes ws"
  have small: "length ws < 2 ^ 15" using assms(4) by simp
  have len: "sint (word_of_int (sint (word_of_nat (length ws) :: u16) * 2) :: u16) = int ?n"
    using sint_len16 [OF small] sint_len16 [OF assms(4)]
    by (metis mult.commute of_int_of_nat_eq of_nat_mult of_nat_numeral)
  have pw: "put_wstr p ws = put_len_bytes p (int ?n) ?s" unfolding put_wstr_def len ..
  obtain p' where p': "put_wstr p ws = Inr p'" "packet_wf p'"
    "packet_data p' = le_bytes 2 (word_of_nat ?n :: u16) @ ?s @ []"
    using put_len_bytes_ok [OF assms(1), of "int ?n" ?s] assms(2,5) by (auto simp: pw)
  from get_len_field [OF p'(2,3) _ assms(4)]
  obtain lb where lb: "rd_mem (Buffer p') (Front p') 2 = Inr lb"
    "sint (le_word lb :: u16) = int ?n"
    "rd_mem (Buffer p') (Front p' + 2) (int ?n) = Inr ?s" by auto
  have copy: "wr_mem dest 0 ?s = Inr (?s @ drop ?n dest)" if "?n \<le> length dest" for dest
    using that by (simp add: wr_mem_def)
  have over: "get_wstr p' dest = Inl OutOfBounds" if "length dest = 2 * (length ws + 1)" for dest
  proof -
    have "wr_mem (?s @ drop ?n dest) (2 * int ?n) [0, 0] = Inl OutOfBounds"
      using that assms(3) by (auto simp: wr_mem_def)
    then show ?thesis using lb copy [of dest] that by (simp add: get_wstr_def)
  qed
  have kept: "\<exists>q d. get_wstr p' dest = Inr (q, d) \<and> take ?n d = ?s \<and> d ! ?n = dest ! ?n \<and>
       d ! (?n + 1) = dest ! (?n + 1)" if big: "4 * length ws + 2 \<le> length dest" for dest
  proof -
    let ?d1 = "?s @ drop ?n dest"
    obtain d where d: "wr_mem ?d1 (2 * int ?n) [0, 0] = Inr d"
      using big by (simp add: wr_mem_def)
    have same: "take (2 * ?n) d = take (2 * ?n) ?d1" using take_wr_mem [OF d, of "2 * ?n"] by simp
    have "2 \<le> ?n" using assms(3) by (cases ws) auto
    then have lt: "?n < 2 * ?n" "?n + 1 < 2 * ?n" by linarith+
    have at: "d ! k = ?d1 ! k" if "k < 2 * ?n" for k
      using same that by (metis nth_take)
    have "take ?n (take (2 * ?n) d) = take ?n (take (2 * ?n) ?d1)" using same by simp
    then have "take ?n d = take ?n ?d1" by simp
    with at [OF lt(1)] at [OF lt(2)]
    have "take ?n d = take ?n ?d1" "d ! ?n = ?d1 ! ?n" "d ! (?n + 1) = ?d1 ! (?n + 1)" by simp_all
    then show ?thesis using lb copy [of dest] big d by (simp add: get_wstr_def nth_append)
  qed
  show ?thesis using p'(1) over kept by blast
qed

theorem wide_string_terminator_misplaced_witness:
  "\<exists>p'. put_wstr (ClearPacket (Packet_ctor 64 (\<lambda>_. 7))) [65, 66] = Inr p' \<and>
     get_wstr p' [9, 9, 9, 9, 9, 9] = Inl OutOfBounds"
proof -
  have "packet_wf (ClearPacket (Packet_ctor 64 (\<lambda>_. 7)))"
    by (simp add: packet_wf_def ClearPacket_def Packet_ctor_def kHeaderDefault_def new_block_def)
  from wide_string_terminator_misplaced [OF this packet_data_Clear, of "[65, 66]"]
  obtain p' where "put_wstr (ClearPacket (Packet_ctor 64 (\<lambda>_. 7))) [65, 66] = Inr p'"
    "\<forall>dest. length dest = 2 * (length [65::u16, 66] + 1) \<longrightarrow> get_wstr p' dest = Inl OutOfBounds"
    by (auto simp: packet_room_def ClearPacket_def Packet_ctor_def kHeaderDefault_def)
  then show ?thesis by (intro exI [of _ p'] conjI) auto
qed

end
