(* ===== verification/XorEncoder.thy ===== *)
theory XorEncoder
  imports PacketBuffer
begin

text \<open>
  The packet encoder interface \<open>IPacketEncoder\<close> and its default implementation
  \<open>XorPacketEncoder\<close> (NetworkLibrary/include/IPacketEncoder.h, XorPacketEncoder.h,
  NetworkLibrary/src/XorPacketEncoder.cpp). The five virtual functions are the fields of a record;
  \<open>rand()\<close> is an argument. The two in-place loops of the source are translated as loops over the
  packet's block and then shown to compute two chained exclusive-or layers.
\<close>

subsection \<open>The interface\<close>

text \<open>
  A header pointer is the rest of the block from the header on. \<open>PeekPayloadLength\<close> returns
  \<open>None\<close> for false, otherwise the length it stores in its out parameter.
\<close>

record iencoder =
  Encode :: "int \<Rightarrow> packet \<Rightarrow> fault + packet"
  Decode :: "packet \<Rightarrow> fault + packet \<times> bool"
  GetHeaderSize :: nat
  VerifyHeaderMagic :: "byte list \<Rightarrow> fault + bool"
  PeekPayloadLength :: "byte list \<Rightarrow> fault + nat option"

definition GetReadBufferPtr :: "packet \<Rightarrow> byte list" where
  "GetReadBufferPtr p = drop (nat (Front p)) (Buffer p)"

subsection \<open>The exclusive-or encoder\<close>

record xor_encoder =
  HeaderCode :: byte
  EncryptKey :: byte
  MaxPayloadLen :: u16

definition sizeof_NetHeader :: nat where
  "sizeof_NetHeader = 5"

text \<open>\<open>struct NetHeader\<close>, packed: Code, Len (two bytes), RKey, Checksum.\<close>

definition hdr_Code :: "byte list \<Rightarrow> byte" where
  "hdr_Code h = h ! 0"

definition hdr_Len :: "byte list \<Rightarrow> u16" where
  "hdr_Len h = le_word (take 2 (drop 1 h))"

definition hdr_RKey :: "byte list \<Rightarrow> byte" where
  "hdr_RKey h = h ! 3"

definition hdr_Checksum :: "byte list \<Rightarrow> byte" where
  "hdr_Checksum h = h ! 4"

definition xor_checksum :: "byte list \<Rightarrow> byte" where
  "xor_checksum bs = foldl (+) 0 bs"

text \<open>
  The payload loop of \<open>Encode\<close>: \<open>n\<close> bytes are left, \<open>P\<close> is the previous intermediate byte,
  \<open>p\<close> the position in the block.
\<close>

fun xor_enc_loop :: "byte \<Rightarrow> byte \<Rightarrow> nat \<Rightarrow> nat \<Rightarrow> byte \<Rightarrow> nat \<Rightarrow> byte list \<Rightarrow> byte list" where
  "xor_enc_loop RK K i 0 P p b = b"
| "xor_enc_loop RK K i (Suc n) P p b =
     (let P' = b ! p XOR (P + RK + of_nat i);
          b' = b[p := P' XOR (b ! (p - 1) + K + of_nat i)]
      in xor_enc_loop RK K (Suc i) n P' (Suc p) b')"

definition xor_Encode_body :: "xor_encoder \<Rightarrow> int \<Rightarrow> packet \<Rightarrow> fault + packet" where
  "xor_Encode_body e rnd pk =
     (let payload = Front pk;
          payloadSize = word_of_int (GetDataSize pk) :: u16;
          n = unat payloadSize;
          RK = word_of_int (rnd mod 256) :: byte
      in ebind (MoveReadPos pk (- int sizeof_NetHeader)) (\<lambda>(p, _).
         let header = Front p
         in ebind (wr_mem (Buffer p) header ([HeaderCode e] @ le_bytes 2 payloadSize @ [RK])) (\<lambda>b1.
            ebind (rd_mem b1 payload (int n)) (\<lambda>bs.
            ebind (wr_mem b1 (header + 4) [xor_checksum bs]) (\<lambda>b2.
            ebind (rd_mem b2 (header + 4) (int n + 1)) (\<lambda>_.
              let q = nat (header + 4);
                  P = b2 ! q XOR (RK + 1);
                  b3 = b2[q := P XOR (EncryptKey e + 1)]
              in Inr (p\<lparr>Buffer := xor_enc_loop RK (EncryptKey e) 2 n P (Suc q) b3\<rparr>)))))))"

definition xor_Encode :: "xor_encoder \<Rightarrow> int \<Rightarrow> packet \<Rightarrow> fault + packet" where
  "xor_Encode e rnd pk =
     (if IsEncoded pk then Inr pk
      else ebind (LockPacket pk) (\<lambda>p.
           ebind (if IsEncoded p = False then xor_Encode_body e rnd p else Inr p) (\<lambda>q.
             Inr (UnlockPacket q))))"

text \<open>
  The loops of \<open>Decode\<close> run from the last payload byte down to the checksum; with \<open>c + 1\<close>
  bytes left the loop variable of the source is \<open>c + 2\<close>.
\<close>

fun xor_dec_loop1 :: "byte \<Rightarrow> nat \<Rightarrow> nat \<Rightarrow> byte list \<Rightarrow> byte list" where
  "xor_dec_loop1 K 0 tmp b = b"
| "xor_dec_loop1 K (Suc c) tmp b =
     xor_dec_loop1 K c (tmp - 1) (b[tmp := b ! tmp XOR (b ! (tmp - 1) + K + of_nat (c + 2))])"

fun xor_dec_loop2 :: "byte \<Rightarrow> nat \<Rightarrow> nat \<Rightarrow> byte \<Rightarrow> byte list \<Rightarrow> byte \<times> byte list" where
  "xor_dec_loop2 RK 0 tmp checksum b = (checksum, b)"
| "xor_dec_loop2 RK (Suc c) tmp checksum b =
     (let v = b ! tmp XOR (b ! (tmp - 1) + RK + of_nat (c + 2))
      in xor_dec_loop2 RK c (tmp - 1) (checksum + v) (b[tmp := v]))"

definition xor_Decode :: "xor_encoder \<Rightarrow> packet \<Rightarrow> fault + packet \<times> bool" where
  "xor_Decode e p =
     ebind (rd_mem (Buffer p) (Front p) (int sizeof_NetHeader)) (\<lambda>h.
       let RK = hdr_RKey h;
           len = unat (hdr_Len h);
           cs = nat (Front p) + 4;
           rear = cs + len
       in ebind (rd_mem (Buffer p) (Front p + 4) (int len + 1)) (\<lambda>_.
            let b1 = xor_dec_loop1 (EncryptKey e) len rear (Buffer p);
                b2 = b1[cs := b1 ! cs XOR (EncryptKey e + 1)];
                (checksum, b3) = xor_dec_loop2 RK len rear 0 b2;
                b4 = b3[cs := b3 ! cs XOR (RK + 1)];
                p' = p\<lparr>Buffer := b4\<rparr>
            in if b4 ! cs \<noteq> checksum then Inr (p', False)
               else ebind (MoveReadPos p' (int sizeof_NetHeader)) (\<lambda>(q, _). Inr (q, True))))"

definition xor_VerifyHeaderMagic :: "xor_encoder \<Rightarrow> byte list \<Rightarrow> fault + bool" where
  "xor_VerifyHeaderMagic e headerBytes =
     ebind (rd_mem headerBytes 0 1) (\<lambda>h. Inr (hdr_Code h = HeaderCode e))"

definition xor_PeekPayloadLength :: "xor_encoder \<Rightarrow> byte list \<Rightarrow> fault + nat option" where
  "xor_PeekPayloadLength e headerBytes =
     ebind (rd_mem headerBytes 0 3) (\<lambda>h.
       if MaxPayloadLen e \<noteq> 0 \<and> hdr_Len h > MaxPayloadLen e then Inr None
       else Inr (Some (unat (hdr_Len h))))"

definition XorPacketEncoder :: "byte \<Rightarrow> byte \<Rightarrow> u16 \<Rightarrow> xor_encoder" where
  "XorPacketEncoder headerCode encryptKey maxPayloadLen =
     \<lparr>HeaderCode = headerCode, EncryptKey = encryptKey, MaxPayloadLen = maxPayloadLen\<rparr>"

definition xor_vtable :: "xor_encoder \<Rightarrow> iencoder" where
  "xor_vtable e =
     \<lparr>Encode = xor_Encode e, Decode = xor_Decode e, GetHeaderSize = sizeof_NetHeader,
      VerifyHeaderMagic = xor_VerifyHeaderMagic e, PeekPayloadLength = xor_PeekPayloadLength e\<rparr>"

subsection \<open>The cipher: two chained exclusive-or layers\<close>

fun chain_enc :: "byte \<Rightarrow> byte \<Rightarrow> nat \<Rightarrow> byte list \<Rightarrow> byte list" where
  "chain_enc k prev i [] = []"
| "chain_enc k prev i (x # xs) =
     (let y = x XOR (prev + k + of_nat i) in y # chain_enc k y (Suc i) xs)"

fun chain_dec :: "byte \<Rightarrow> byte \<Rightarrow> nat \<Rightarrow> byte list \<Rightarrow> byte list" where
  "chain_dec k prev i [] = []"
| "chain_dec k prev i (y # ys) = (y XOR (prev + k + of_nat i)) # chain_dec k y (Suc i) ys"

definition cipher :: "byte \<Rightarrow> byte \<Rightarrow> byte list \<Rightarrow> byte list" where
  "cipher K RK xs = chain_enc K 0 1 (chain_enc RK 0 1 xs)"

definition decipher :: "byte \<Rightarrow> byte \<Rightarrow> byte list \<Rightarrow> byte list" where
  "decipher K RK ys = chain_dec RK 0 1 (chain_dec K 0 1 ys)"

lemma xor_cancel [simp]: "(x XOR k) XOR k = (x :: 'a::len word)"
  by (simp add: xor.assoc)

lemma chain_dec_enc [simp]: "chain_dec k prev i (chain_enc k prev i xs) = xs"
  by (induction xs arbitrary: prev i) (simp_all add: Let_def)

lemma chain_enc_dec [simp]: "chain_enc k prev i (chain_dec k prev i ys) = ys"
  by (induction ys arbitrary: prev i) (simp_all add: Let_def)

lemma length_chain [simp]:
  "length (chain_enc k prev i xs) = length xs"
  "length (chain_dec k prev i ys) = length ys"
  by (induction xs arbitrary: prev i, simp_all add: Let_def)
     (induction ys arbitrary: prev i, simp_all)

lemma decipher_cipher [simp]: "decipher K RK (cipher K RK xs) = xs"
  by (simp add: cipher_def decipher_def)

lemma length_cipher [simp]:
  "length (cipher K RK xs) = length xs" "length (decipher K RK ys) = length ys"
  by (simp_all add: cipher_def decipher_def)

lemma chain_dec_snoc:
  "chain_dec k prev i (ys @ [y]) =
     chain_dec k prev i ys @ [y XOR (last (prev # ys) + k + of_nat (i + length ys))]"
  by (induction ys arbitrary: prev i) (auto simp: ac_simps)

text \<open>The in-place loops act on the bytes they walk over as the layers do.\<close>

lemma xor_enc_loop_segment:
  "xor_enc_loop RK K i (length xs) P (Suc (length as)) (as @ c # xs @ bs) =
     as @ c # chain_enc K c i (chain_enc RK P i xs) @ bs"
proof (induction xs arbitrary: i P as c)
  case Nil
  then show ?case by simp
next
  case (Cons x xs)
  let ?P = "x XOR (P + RK + of_nat i)"
  let ?c = "?P XOR (c + K + of_nat i)"
  have "(as @ c # x # xs @ bs) ! Suc (length as) = x" by (simp add: nth_append)
  moreover have "(as @ c # x # xs @ bs)[Suc (length as) := ?c] = (as @ [c]) @ ?c # xs @ bs"
    by (simp add: list_update_append)
  ultimately show ?case
    using Cons.IH [of "Suc i" ?P "as @ [c]" ?c] by (simp add: Let_def nth_append)
qed

lemma xor_dec_loop1_segment:
  "xor_dec_loop1 K (length ys) (length as + length ys) (as @ c # ys @ bs) =
     as @ c # chain_dec K c 2 ys @ bs"
proof (induction ys arbitrary: bs rule: rev_induct)
  case Nil
  then show ?case by simp
next
  case (snoc y ys)
  let ?v = "y XOR (last (c # ys) + K + of_nat (length ys + 2))"
  have at: "(as @ c # ys @ y # bs) ! (length as + Suc (length ys)) = y"
    by (simp add: nth_append)
  have before: "(as @ c # ys @ y # bs) ! (length as + length ys) = last (c # ys)"
    by (cases ys rule: rev_cases) (simp_all add: nth_append)
  have "(as @ c # ys @ y # bs)[length as + Suc (length ys) := ?v] = as @ c # ys @ ?v # bs"
    by (simp add: list_update_append)
  with at before snoc.IH [of "?v # bs"] show ?case
    by (simp add: chain_dec_snoc add.commute del: last.simps)
qed

lemma xor_dec_loop2_segment:
  "xor_dec_loop2 RK (length ys) (length as + length ys) s (as @ c # ys @ bs) =
     (s + sum_list (chain_dec RK c 2 ys), as @ c # chain_dec RK c 2 ys @ bs)"
proof (induction ys arbitrary: bs s rule: rev_induct)
  case Nil
  then show ?case by simp
next
  case (snoc y ys)
  let ?v = "y XOR (last (c # ys) + RK + of_nat (length ys + 2))"
  have at: "(as @ c # ys @ y # bs) ! (length as + Suc (length ys)) = y"
    by (simp add: nth_append)
  have before: "(as @ c # ys @ y # bs) ! (length as + length ys) = last (c # ys)"
    by (cases ys rule: rev_cases) (simp_all add: nth_append)
  have "(as @ c # ys @ y # bs)[length as + Suc (length ys) := ?v] = as @ c # ys @ ?v # bs"
    by (simp add: list_update_append)
  with at before snoc.IH [of "s + ?v" "?v # bs"] show ?case
    by (simp add: chain_dec_snoc Let_def ac_simps del: last.simps)
qed

lemma xor_checksum_sum: "xor_checksum bs = sum_list bs"
proof -
  have "foldl (+) s bs = s + sum_list bs" for s :: byte
    by (induction bs arbitrary: s) (simp_all add: add.assoc)
  then show ?thesis by (simp add: xor_checksum_def)
qed

subsection \<open>Frames\<close>

text \<open>What \<open>Encode\<close> puts on the wire for a payload, with the random key byte it drew.\<close>

definition xor_frame :: "xor_encoder \<Rightarrow> byte \<Rightarrow> byte list \<Rightarrow> byte list" where
  "xor_frame e RK pl =
     [HeaderCode e] @ le_bytes 2 (word_of_nat (length pl) :: u16) @ [RK] @
     cipher (EncryptKey e) RK (sum_list pl # pl)"

lemma length_xor_frame [simp]: "length (xor_frame e RK pl) = sizeof_NetHeader + length pl"
  by (simp add: xor_frame_def sizeof_NetHeader_def)

lemma unat_len16: "n < 65536 \<Longrightarrow> unat (word_of_nat n :: u16) = n"
  by (simp add: unat_of_nat)

lemma cipher_Cons:
  "cipher K RK (x # xs) =
     (let P = x XOR (RK + 1); c = P XOR (K + 1) in c # chain_enc K c 2 (chain_enc RK P 2 xs))"
  by (simp add: cipher_def Let_def numeral_2_eq_2)

lemma decipher_Cons:
  "decipher K RK (y # ys) =
     (let c = y XOR (K + 1); ps = chain_dec K y 2 ys
      in (c XOR (RK + 1)) # chain_dec RK c 2 ps)"
  by (simp add: decipher_def Let_def numeral_2_eq_2)

lemma xor_Encode_ok:
  assumes wf: "packet_wf p" and fresh: "\<not> EncodeFlag p" "\<not> SRWEncode p"
    and front: "int sizeof_NetHeader \<le> Front p" and small: "length (packet_data p) < 65536"
  shows "\<exists>p'. xor_Encode e rnd p = Inr p' \<and> packet_wf p' \<and>
           packet_data p' = xor_frame e (word_of_int (rnd mod 256)) (packet_data p) \<and>
           EncodeFlag p' \<and> \<not> SRWEncode p' \<and> RefCnt p' = RefCnt p \<and> BufferSize p' = BufferSize p"
proof -
  let ?pl = "packet_data p" and ?RK = "word_of_int (rnd mod 256) :: byte" and ?K = "EncryptKey e"
  let ?len = "word_of_nat (length ?pl) :: u16"
  obtain A H B where buf: "Buffer p = A @ H @ ?pl @ B" and A: "int (length A) = Front p - 5"
    and H: "length H = 5"
    using packet_split [OF wf, of 5] front by (auto simp: sizeof_NetHeader_def)
  obtain H4 h4 where H4: "H = H4 @ [h4]" "length H4 = 4"
    using H by (cases H rule: rev_cases) auto
  define hdr where "hdr = [HeaderCode e] @ le_bytes 2 ?len @ [?RK]"
  define A2 where "A2 = A @ hdr"
  define cs where "cs = sum_list ?pl"
  have hdr: "length hdr = 4" by (simp add: hdr_def)
  then have A2: "int (length A2) = Front p - 1" using A by (simp add: A2_def)
  have size: "GetDataSize p = int (length ?pl)" by (rule length_packet_data [OF wf, symmetric])
  have n: "unat ?len = length ?pl" using small by (rule unat_len16)
  then have n': "uint ?len = int (length ?pl)" by (metis uint_nat)
  have len: "word_of_int (Rear p - Front p) = ?len" using size by (simp add: GetDataSize_def)
  have w1: "wr_mem (Buffer p) (Front p - 5) hdr = Inr (A2 @ h4 # ?pl @ B)"
    using wr_mem_append [of "Front p - 5" A H4 hdr "h4 # ?pl @ B"] A H4 buf hdr by (simp add: A2_def)
  have r1: "rd_mem (A2 @ h4 # ?pl @ B) (Front p) (int (length ?pl)) = Inr ?pl"
    using rd_mem_append [of "Front p" "A2 @ [h4]" "int (length ?pl)" ?pl B] A2 by simp
  have w2: "wr_mem (A2 @ h4 # ?pl @ B) (Front p - 1) [cs] = Inr (A2 @ cs # ?pl @ B)"
    using wr_mem_append [of "Front p - 1" A2 "[h4]" "[cs]" "?pl @ B"] A2 by simp
  have r2: "rd_mem (A2 @ cs # ?pl @ B) (Front p - 1) (int (length ?pl) + 1) = Inr (cs # ?pl)"
    using rd_mem_append [of "Front p - 1" A2 "int (length ?pl) + 1" "cs # ?pl" B] A2 by simp
  have q: "nat (Front p - 1) = length A2" using A2 by simp
  let ?b = "A2 @ cipher ?K ?RK (cs # ?pl) @ B"
  let ?p' = "UnlockPacket (p\<lparr>SRWEncode := True, Front := Front p - 5, Buffer := ?b\<rparr>)"
  have move: "MoveReadPos (p\<lparr>SRWEncode := True\<rparr>) (- int sizeof_NetHeader) =
      Inr (p\<lparr>SRWEncode := True, Front := Front p - 5\<rparr>, - 5)"
    using wf front by (simp add: MoveReadPos_def packet_wf_def sizeof_NetHeader_def)
  have loop: "xor_enc_loop ?RK ?K 2 (length ?pl) (cs XOR (?RK + 1)) (Suc (length A2))
      (A2 @ ((cs XOR (?RK + 1)) XOR (?K + 1)) # ?pl @ B) = ?b"
    by (simp add: xor_enc_loop_segment cipher_Cons Let_def)
  have "xor_Encode_body e rnd (p\<lparr>SRWEncode := True\<rparr>) =
      Inr (p\<lparr>SRWEncode := True, Front := Front p - 5, Buffer := ?b\<rparr>)"
    using w1 r1 w2 r2 q loop n n' move len
    by (simp add: xor_Encode_body_def Let_def xor_checksum_sum hdr_def cs_def list_update_append
        GetDataSize_def)
  then have "xor_Encode e rnd p = Inr ?p'"
    using fresh by (simp add: xor_Encode_def IsEncoded_def LockPacket_def)
  moreover have "length ?b = length (Buffer p)" using buf H hdr by (simp add: A2_def)
  then have "packet_wf ?p'"
    using wf front by (simp add: packet_wf_def UnlockPacket_def sizeof_NetHeader_def)
  moreover have "packet_data ?p' = xor_frame e ?RK ?pl"
    using A size by (intro packet_data_append [where A = A and B = B])
      (auto simp: UnlockPacket_def xor_frame_def GetDataSize_def A2_def hdr_def cs_def)
  ultimately show ?thesis by (auto simp: UnlockPacket_def)
qed

text \<open>
  \<open>Decode\<close> on any well-framed data: it deciphers checksum and payload, compares the
  checksum, and on success moves to the payload; the bytes after the frame are untouched.
\<close>

lemma xor_Decode_gen:
  assumes wf: "packet_wf p" and small: "length body < 65536"
    and data: "packet_data p =
      [code] @ le_bytes 2 (word_of_nat (length body) :: u16) @ [RK] @ (cs # body) @ rest"
    and xs: "decipher (EncryptKey e) RK (cs # body) = c # pl"
  shows "\<exists>p' q. xor_Decode e p = Inr (if c = sum_list pl then (q, True) else (p', False)) \<and>
           packet_wf q \<and> packet_data q = pl @ rest \<and> BufferSize q = BufferSize p \<and>
           Front q = Front p + 5 \<and> Rear q = Rear p \<and> packet_wf p' \<and>
           BufferSize p' = BufferSize p \<and> Front p' = Front p \<and> Rear p' = Rear p"
proof -
  let ?K = "EncryptKey e" and ?len = "word_of_nat (length body) :: u16"
  obtain A B where buf: "Buffer p = A @ packet_data p @ B" and A: "int (length A) = Front p"
    using packet_split_data [OF wf] by blast
  define hdr where "hdr = [code] @ le_bytes 2 ?len @ [RK]"
  define A2 where "A2 = A @ hdr"
  define C where "C = rest @ B"
  have hdr: "length hdr = 4" by (simp add: hdr_def)
  then have A2: "int (length A2) = Front p + 4" using A by (simp add: A2_def)
  have buf2: "Buffer p = A2 @ (cs # body) @ C" using buf data by (simp add: A2_def hdr_def C_def)
  have n: "unat ?len = length body" using small by (rule unat_len16)
  then have n': "uint ?len = int (length body)" by (metis uint_nat)
  have r1: "rd_mem (Buffer p) (Front p) (int sizeof_NetHeader) = Inr (hdr @ [cs])"
    using rd_mem_append [of "Front p" A "int sizeof_NetHeader" "hdr @ [cs]" "body @ C"] A hdr buf2
    by (simp add: A2_def sizeof_NetHeader_def)
  have r2: "rd_mem (Buffer p) (Front p + 4) (int (length body) + 1) = Inr (cs # body)"
    using rd_mem_append [of "Front p + 4" A2 "int (length body) + 1" "cs # body" C] A2 buf2 by simp
  have len: "hdr_Len (hdr @ [cs]) = ?len" and RK: "hdr_RKey (hdr @ [cs]) = RK"
    by (simp_all add: hdr_Len_def hdr_RKey_def hdr_def le_word_le_bytes nth_append)
  have q: "nat (Front p) + 4 = length A2" using A2 A by simp
  define ps where "ps = chain_dec ?K cs 2 body"
  have ps: "length ps = length body" by (simp add: ps_def)
  have c: "c = (cs XOR (?K + 1)) XOR (RK + 1)" and pl: "pl = chain_dec RK (cs XOR (?K + 1)) 2 ps"
    using xs by (simp_all add: decipher_Cons Let_def ps_def)
  have loop1: "xor_dec_loop1 ?K (length body) (length A2 + length body) (Buffer p) = A2 @ cs # ps @ C"
    using xor_dec_loop1_segment [of ?K body A2 cs C] buf2 by (simp add: ps_def)
  have loop2: "xor_dec_loop2 RK (length body) (length A2 + length body) 0
      (A2 @ (cs XOR (?K + 1)) # ps @ C) = (sum_list pl, A2 @ (cs XOR (?K + 1)) # pl @ C)"
    using xor_dec_loop2_segment [of RK ps A2 0 "cs XOR (?K + 1)" C] ps by (simp add: pl)
  let ?p' = "p\<lparr>Buffer := A2 @ c # pl @ C\<rparr>"
  let ?q = "p\<lparr>Buffer := A2 @ c # pl @ C, Front := Front p + 5\<rparr>"
  have total: "int (length A2 + 1 + length pl + length rest) = Rear p" "length pl = length body"
    using length_packet_data [OF wf] data A2 ps by (simp_all add: pl GetDataSize_def)
  have move: "MoveReadPos ?p' (int sizeof_NetHeader) = Inr (?q, 5)"
    using wf total A2 by (simp add: MoveReadPos_def packet_wf_def sizeof_NetHeader_def)
  have dec: "xor_Decode e p = Inr (if c = sum_list pl then (?q, True) else (?p', False))"
    using r1 r2 len RK n n' q loop1 loop2 move
    by (auto simp: xor_Decode_def Let_def list_update_append c [symmetric] nth_append)
  have "length (A2 @ c # pl @ C) = length (Buffer p)" using buf2 total by simp
  then have "packet_wf ?p'" "packet_wf ?q" using wf total A2 by (auto simp: packet_wf_def)
  moreover have "packet_data ?q = pl @ rest"
    using total A2 by (intro packet_data_append [where A = "A2 @ [c]" and B = B]) (auto simp: C_def)
  ultimately show ?thesis using dec by (intro exI [of _ ?p'] exI [of _ ?q]) simp
qed

lemma xor_Decode_frame:
  assumes "packet_wf p" "length pl < 65536" "packet_data p = xor_frame e RK pl @ rest"
  shows "\<exists>q. xor_Decode e p = Inr (q, True) \<and> packet_wf q \<and> packet_data q = pl @ rest \<and>
           BufferSize q = BufferSize p \<and> Front q = Front p + 5 \<and> Rear q = Rear p"
proof -
  obtain cs body where cb: "cipher (EncryptKey e) RK (sum_list pl # pl) = cs # body"
    by (metis cipher_Cons)
  then have "length body = length pl" by (metis length_Cons length_cipher(1) nat.inject)
  moreover have "decipher (EncryptKey e) RK (cs # body) = sum_list pl # pl"
    by (simp only: cb [symmetric] decipher_cipher)
  moreover have "packet_data p =
      [HeaderCode e] @ le_bytes 2 (word_of_nat (length pl) :: u16) @ [RK] @ (cs # body) @ rest"
    using assms(3) by (simp add: xor_frame_def cb)
  ultimately show ?thesis
    using xor_Decode_gen [of p body "HeaderCode e" RK cs rest e "sum_list pl" pl] assms by auto
qed

text \<open>The header tests depend on the header bytes only.\<close>

lemma take_drop_frame:
  "take 5 bs = take 5 (xor_frame e RK pl) \<Longrightarrow> 5 \<le> length bs \<Longrightarrow>
   take 1 bs = [HeaderCode e] \<and> take 2 (drop 1 (take 3 bs)) = le_bytes 2 (word_of_nat (length pl) :: u16)"
proof -
  assume eq: "take 5 bs = take 5 (xor_frame e RK pl)" and "5 \<le> length bs"
  have "take 1 bs = take 1 (take 5 bs)" "take 3 bs = take 3 (take 5 bs)" by simp_all
  then show ?thesis unfolding eq by (simp add: xor_frame_def numeral_3_eq_3)
qed

lemma xor_VerifyHeaderMagic_frame:
  "take 5 bs = take 5 (xor_frame e RK pl) \<Longrightarrow> 5 \<le> length bs \<Longrightarrow>
   xor_VerifyHeaderMagic e bs = Inr True"
  using take_drop_frame [of bs e RK pl] by (simp add: xor_VerifyHeaderMagic_def rd_mem_def hdr_Code_def)

lemma xor_PeekPayloadLength_frame:
  assumes "take 5 bs = take 5 (xor_frame e RK pl)" "5 \<le> length bs" "length pl < 65536"
    and "MaxPayloadLen e = 0 \<or> length pl \<le> unat (MaxPayloadLen e)"
  shows "xor_PeekPayloadLength e bs = Inr (Some (length pl))"
proof -
  have "hdr_Len (take 3 bs) = word_of_nat (length pl)"
    using take_drop_frame [OF assms(1,2)] by (simp add: hdr_Len_def le_word_le_bytes)
  then show ?thesis
    using assms unat_len16 [OF assms(3)]
    by (auto simp: xor_PeekPayloadLength_def rd_mem_def word_less_nat_alt)
qed

subsection \<open>The contract of an encoder\<close>

text \<open>
  What the network core relies on, for any encoder: \<open>frame r pl\<close> is the wire image of the
  payload \<open>pl\<close> under the random draw \<open>r\<close>; encoding a cleared packet that was filled puts
  the frame of its data there; the header alone identifies the frame and its payload length; and
  decoding data that starts with a frame leaves the payload and whatever followed it.
\<close>

locale frame_encoder =
  fixes E :: iencoder
    and frame :: "int \<Rightarrow> byte list \<Rightarrow> byte list"
    and max_len :: nat
  assumes hdr_reserved: "int (GetHeaderSize E) \<le> kHeaderDefault"
    and frame_length: "length (frame r pl) = GetHeaderSize E + length pl"
    and encode_frame: "packet_wf p \<Longrightarrow> \<not> EncodeFlag p \<Longrightarrow> \<not> SRWEncode p \<Longrightarrow>
      kHeaderDefault \<le> Front p \<Longrightarrow> length (packet_data p) \<le> max_len \<Longrightarrow>
      \<exists>q. Encode E r p = Inr q \<and> packet_wf q \<and> packet_data q = frame r (packet_data p) \<and>
          EncodeFlag q \<and> \<not> SRWEncode q \<and> RefCnt q = RefCnt p \<and> BufferSize q = BufferSize p"
    and encode_again: "EncodeFlag p \<Longrightarrow> Encode E r p = Inr p"
    and header_magic: "take (GetHeaderSize E) bs = take (GetHeaderSize E) (frame r pl) \<Longrightarrow>
      GetHeaderSize E \<le> length bs \<Longrightarrow> length pl \<le> max_len \<Longrightarrow> VerifyHeaderMagic E bs = Inr True"
    and header_peek: "take (GetHeaderSize E) bs = take (GetHeaderSize E) (frame r pl) \<Longrightarrow>
      GetHeaderSize E \<le> length bs \<Longrightarrow> length pl \<le> max_len \<Longrightarrow>
      PeekPayloadLength E bs = Inr (Some (length pl))"
    and decode_frame: "packet_wf p \<Longrightarrow> packet_data p = frame r pl @ rest \<Longrightarrow> length pl \<le> max_len \<Longrightarrow>
      \<exists>q. Decode E p = Inr (q, True) \<and> packet_wf q \<and> packet_data q = pl @ rest \<and>
          BufferSize q = BufferSize p \<and> Rear q = Rear p"
begin

lemma encode_decode:
  assumes "packet_wf p" "\<not> EncodeFlag p" "\<not> SRWEncode p" "kHeaderDefault \<le> Front p"
    and "length (packet_data p) \<le> max_len"
  shows "\<exists>q q'. Encode E r p = Inr q \<and> Decode E q = Inr (q', True) \<and> packet_wf q' \<and>
           packet_data q' = packet_data p"
proof -
  obtain q where q: "Encode E r p = Inr q" "packet_wf q" "packet_data q = frame r (packet_data p)"
    using encode_frame [OF assms] by blast
  from decode_frame [OF q(2), of r "packet_data p" "[]"] q(3) assms(5)
  obtain q' where "Decode E q = Inr (q', True)" "packet_wf q'" "packet_data q' = packet_data p"
    by auto
  with q(1) show ?thesis by blast
qed

end

definition xor_max_len :: "xor_encoder \<Rightarrow> nat" where
  "xor_max_len e = (if MaxPayloadLen e = 0 then 65535 else unat (MaxPayloadLen e))"

definition xor_frame_rnd :: "xor_encoder \<Rightarrow> int \<Rightarrow> byte list \<Rightarrow> byte list" where
  "xor_frame_rnd e r pl = xor_frame e (word_of_int (r mod 256)) pl"

lemma xor_max_len_bound: "n \<le> xor_max_len e \<Longrightarrow> n < 65536"
proof -
  have "unat (MaxPayloadLen e) < 2 ^ LENGTH(16)" by (rule unsigned_less)
  then show "n \<le> xor_max_len e \<Longrightarrow> n < 65536" by (auto simp: xor_max_len_def split: if_splits)
qed

lemma xor_max_len_Max: "n \<le> xor_max_len e \<Longrightarrow> MaxPayloadLen e = 0 \<or> n \<le> unat (MaxPayloadLen e)"
  by (auto simp: xor_max_len_def split: if_splits)

interpretation xor: frame_encoder "xor_vtable e" "xor_frame_rnd e" "xor_max_len e" for e
proof (unfold_locales, goal_cases)
  case 1
  then show ?case by (simp add: xor_vtable_def sizeof_NetHeader_def kHeaderDefault_def)
next
  case (2 r pl)
  then show ?case by (simp add: xor_vtable_def xor_frame_rnd_def)
next
  case (3 p r)
  then have "int sizeof_NetHeader \<le> Front p" by (simp add: sizeof_NetHeader_def kHeaderDefault_def)
  with 3 xor_Encode_ok [of p e r] xor_max_len_bound show ?case
    by (auto simp: xor_vtable_def xor_frame_rnd_def)
next
  case (4 p r)
  then show ?case by (simp add: xor_vtable_def xor_Encode_def IsEncoded_def)
next
  case (5 bs r pl)
  then show ?case
    by (auto simp: xor_vtable_def xor_frame_rnd_def sizeof_NetHeader_def intro!: xor_VerifyHeaderMagic_frame)
next
  case (6 bs r pl)
  then show ?case
    using xor_PeekPayloadLength_frame [of bs e _ pl] xor_max_len_bound xor_max_len_Max [of "length pl" e]
    by (auto simp: xor_vtable_def xor_frame_rnd_def sizeof_NetHeader_def)
next
  case (7 p r pl rest)
  then show ?case
    using xor_Decode_frame [of p pl e _ rest] xor_max_len_bound
    by (fastforce simp: xor_vtable_def xor_frame_rnd_def)
qed

subsection \<open>Properties\<close>

text \<open>C34. Encode and decode are inverse: a packet filled with any payload up to the encoder's
  limit, encoded with any value of \<open>rand()\<close>, decodes successfully to that payload.\<close>

theorem xor_roundtrip:
  assumes "packet_wf p" and "\<not> EncodeFlag p" and "\<not> SRWEncode p" and "kHeaderDefault \<le> Front p"
    and "length (packet_data p) \<le> xor_max_len e"
  shows "\<exists>q q'. xor_Encode e r p = Inr q \<and> xor_Decode e q = Inr (q', True) \<and> packet_wf q' \<and>
           packet_data q' = packet_data p"
  using xor.encode_decode [OF assms] by (simp add: xor_vtable_def)

definition sample_packet :: "byte list \<Rightarrow> packet" where
  "sample_packet pl =
     \<lparr>RefCnt = 1, BufferSize = int (20 + length pl), Front = 20, Rear = int (20 + length pl),
      Buffer = replicate 20 0 @ pl, SRWEncode = False, EncodeFlag = False\<rparr>"

lemma sample_packet_facts:
  "length pl < 1000 \<Longrightarrow> packet_wf (sample_packet pl)" "\<not> EncodeFlag (sample_packet pl)"
  "\<not> SRWEncode (sample_packet pl)" "kHeaderDefault \<le> Front (sample_packet pl)"
  "packet_data (sample_packet pl) = pl"
  by (simp_all add: sample_packet_def packet_wf_def packet_data_def window_def kHeaderDefault_def)

theorem xor_roundtrip_witness:
  "\<exists>q q'. xor_Encode (XorPacketEncoder 119 50 4096) 1234 (sample_packet [1, 2, 3]) = Inr q \<and>
     xor_Decode (XorPacketEncoder 119 50 4096) q = Inr (q', True) \<and> packet_data q' = [1, 2, 3]"
proof -
  have "length (packet_data (sample_packet [1, 2, 3])) \<le> xor_max_len (XorPacketEncoder 119 50 4096)"
    by (simp add: sample_packet_facts xor_max_len_def XorPacketEncoder_def)
  from xor_roundtrip [OF _ _ _ _ this, of 1234] show ?thesis
    by (auto simp: sample_packet_facts)
qed

text \<open>What is on the wire: the frame of the payload, whose header carries the magic byte,
  the payload length and the key byte, whose tests accept it whatever follows, and which a second
  \<open>Encode\<close> leaves alone, so that one packet can be sent to many sessions.\<close>

theorem xor_encode_wire:
  assumes "packet_wf p" and "\<not> EncodeFlag p" and "\<not> SRWEncode p" and "kHeaderDefault \<le> Front p"
    and "length (packet_data p) \<le> xor_max_len e"
  shows "\<exists>q. xor_Encode e r p = Inr q \<and>
           packet_data q = [HeaderCode e] @ le_bytes 2 (word_of_nat (length (packet_data p)) :: u16) @
             [word_of_int (r mod 256)] @
             cipher (EncryptKey e) (word_of_int (r mod 256)) (sum_list (packet_data p) # packet_data p) \<and>
           xor_VerifyHeaderMagic e (packet_data q @ rest) = Inr True \<and>
           xor_PeekPayloadLength e (packet_data q @ rest) = Inr (Some (length (packet_data p))) \<and>
           xor_Encode e r' q = Inr q"
proof -
  obtain q where q: "Encode (xor_vtable e) r p = Inr q" "packet_data q = xor_frame_rnd e r (packet_data p)"
    "EncodeFlag q" using xor.encode_frame [OF assms] by blast
  have hs: "GetHeaderSize (xor_vtable e) \<le> length (packet_data q)"
    by (simp add: q xor.frame_length)
  then have pre: "take (GetHeaderSize (xor_vtable e)) (packet_data q @ rest) =
      take (GetHeaderSize (xor_vtable e)) (xor_frame_rnd e r (packet_data p))" by (simp add: q)
  have "VerifyHeaderMagic (xor_vtable e) (packet_data q @ rest) = Inr True"
    "PeekPayloadLength (xor_vtable e) (packet_data q @ rest) = Inr (Some (length (packet_data p)))"
    using xor.header_magic [OF pre _ assms(5)] xor.header_peek [OF pre _ assms(5)] hs by auto
  then show ?thesis
    using q by (auto simp: xor_vtable_def xor_frame_rnd_def xor_frame_def xor_Encode_def IsEncoded_def)
qed

theorem xor_encode_wire_witness:
  "\<exists>q. xor_Encode (XorPacketEncoder 119 50 4096) 7 (sample_packet [1, 2]) = Inr q \<and>
     xor_PeekPayloadLength (XorPacketEncoder 119 50 4096) (packet_data q @ [9]) = Inr (Some 2) \<and>
     xor_Encode (XorPacketEncoder 119 50 4096) 8 q = Inr q"
proof -
  have "length (packet_data (sample_packet [1, 2])) \<le> xor_max_len (XorPacketEncoder 119 50 4096)"
    by (simp add: sample_packet_facts xor_max_len_def XorPacketEncoder_def)
  from xor_encode_wire [OF _ _ _ _ this, of 7 "[9]" 8] show ?thesis
    by (auto simp: sample_packet_facts)
qed

text \<open>C23. Changing the last byte of a frame with a payload is always detected: the checksum
  test of \<open>Decode\<close> fails.\<close>

theorem xor_detects_last_byte:
  assumes "packet_wf p" and "length pl < 65536" and "pl \<noteq> []"
    and "xor_frame e RK pl = front @ [y]" and "packet_data p = front @ [z] @ rest" and "z \<noteq> y"
  shows "\<exists>q. xor_Decode e p = Inr (q, False)"
proof -
  let ?K = "EncryptKey e"
  obtain cs body where cb: "cipher ?K RK (sum_list pl # pl) = cs # body" by (metis cipher_Cons)
  then have lb: "length body = length pl" by (metis length_Cons length_cipher(1) nat.inject)
  then obtain ys where ys: "body = ys @ [y]" "front = [HeaderCode e] @
      le_bytes 2 (word_of_nat (length pl) :: u16) @ [RK] @ cs # ys"
    using assms(3,4) cb by (cases body rule: rev_cases) (auto simp: xor_frame_def)
  have plain: "decipher ?K RK (cs # ys @ [y]) = sum_list pl # pl"
    using cb ys by (metis append_Cons decipher_cipher)
  obtain c xs where xs: "decipher ?K RK (cs # ys) = c # xs" by (metis decipher_Cons)
  obtain k k' where dec: "decipher ?K RK (cs # ys @ [v]) = (c # xs) @ [(v XOR k) XOR k']" for v
  proof -
    have "decipher ?K RK ((cs # ys) @ [v]) = decipher ?K RK (cs # ys) @
        [(v XOR (last (0 # cs # ys) + ?K + of_nat (1 + length (cs # ys)))) XOR
         (last (0 # chain_dec ?K 0 1 (cs # ys)) + RK + of_nat (1 + length (cs # ys)))]" for v
      by (simp only: decipher_def chain_dec_snoc length_chain)
    then show thesis using that xs by simp
  qed
  have "sum_list pl # pl = (c # xs) @ [(y XOR k) XOR k']" using dec [of y] plain by metis
  then have pl: "c = sum_list pl" "pl = xs @ [(y XOR k) XOR k']"
    by (metis append_Cons list.inject)+
  let ?v = "(z XOR k) XOR k'"
  have "?v \<noteq> (y XOR k) XOR k'" using assms(6) by (metis xor_cancel)
  moreover have "sum_list pl = sum_list xs + ((y XOR k) XOR k')" by (subst pl(2)) simp
  ultimately have bad: "c \<noteq> sum_list (xs @ [?v])" using pl(1) by simp
  have "packet_data p = [HeaderCode e] @ le_bytes 2 (word_of_nat (length (ys @ [z])) :: u16) @ [RK] @
      (cs # ys @ [z]) @ rest"
    using assms(5) ys lb by simp
  from xor_Decode_gen [OF assms(1) _ this, of e c "xs @ [?v]"] bad dec [of z] lb ys assms(2)
  show ?thesis by auto
qed

text \<open>A received frame of one payload byte whose last byte was changed on the way.\<close>

theorem xor_detects_last_byte_witness:
  "\<exists>q. xor_Decode (XorPacketEncoder 119 50 4096)
     (sample_packet (butlast (xor_frame (XorPacketEncoder 119 50 4096) 3 [65]) @ [0])) = Inr (q, False)"
proof -
  let ?e = "XorPacketEncoder 119 50 4096"
  have last: "last (xor_frame ?e 3 [65]) \<noteq> 0"
    by (simp add: xor_frame_def XorPacketEncoder_def cipher_def Let_def)
  have split: "xor_frame ?e 3 [65] = butlast (xor_frame ?e 3 [65]) @ [last (xor_frame ?e 3 [65])]"
    by (rule append_butlast_last_id [symmetric]) (simp add: xor_frame_def)
  have "length (butlast (xor_frame ?e 3 [65]) @ [0]) < 1000"
    by (simp add: sizeof_NetHeader_def)
  from xor_detects_last_byte [OF sample_packet_facts(1) [OF this] _ _ split, of 0 "[]"] last
  show ?thesis by (simp add: sample_packet_facts)
qed

text \<open>The in-place loops of the source compute the two chained layers: the encryption loop
  on the bytes it walks, and the two backward loops of \<open>Decode\<close> their inverse with the sum of
  the recovered bytes, whatever surrounds the bytes in the block.\<close>

theorem xor_loops_are_layers:
  "xor_enc_loop RK K i (length xs) P (Suc (length as)) (as @ c # xs @ bs) =
     as @ c # chain_enc K c i (chain_enc RK P i xs) @ bs \<and>
   xor_dec_loop1 K (length ys) (length as + length ys) (as @ c # ys @ bs) =
     as @ c # chain_dec K c 2 ys @ bs \<and>
   xor_dec_loop2 RK (length ys) (length as + length ys) s (as @ c # ys @ bs) =
     (s + sum_list (chain_dec RK c 2 ys), as @ c # chain_dec RK c 2 ys @ bs)"
  by (simp only: xor_enc_loop_segment xor_dec_loop1_segment xor_dec_loop2_segment)

end
