(* ===== verification/TlsPool.thy ===== *)
theory TlsPool
  imports Prelude
begin

text \<open>
  The two-level object pool of BaseLibrary/include/TLSMemoryPool.h: per thread a list of free nodes
  linked through the nodes themselves (\<open>TLSNodeMemoryPool\<close>), and a process-wide stack of full
  chunks of 100 nodes (\<open>TLSChunkMemoryPool\<close>), which threads exchange. Memory is a map from
  addresses to nodes; \<open>new\<close> takes the next free address. The shared \<open>ChunckStack\<close> is the
  list of its entries (its lock-free implementation is the subject of another theory). One call of
  \<open>Alloc\<close> or \<open>Free\<close> by one thread is one step: what a call shares with other threads is the
  chunk stack and the three counters, and each of these is accessed by atomic operations.
\<close>

subsection \<open>Memory\<close>

type_synonym addr = nat
type_synonym ptr = "addr option"

record 'a tls_node =
  PadUnderflow :: u64
  NData :: 'a
  NNext :: ptr
  PadOverflow :: u64

type_synonym 'a tls_mem = "addr \<Rightarrow> 'a tls_node option"

definition kPadUnderflow :: u64 where "kPadUnderflow = 0xdfdfdfdfdfdfdfdf"
definition kPadOverflow :: u64 where "kPadOverflow = 0xefefefefefefefef"
definition kChunkDefault :: nat where "kChunkDefault = 100"
definition sizeof_PadType :: nat where "sizeof_PadType = 8"

record tls_local =
  Head :: ptr
  FreeNodeCnt :: int

record 'a pool =
  Mem :: "'a tls_mem"
  Brk :: addr
  NodeSize :: nat
  ChunckStack :: "ptr list"
  TotalSize :: u32
  UseSize :: u32
  FreeSize :: u32
  Local :: "nat \<Rightarrow> tls_local"

definition init_node :: "'a \<Rightarrow> 'a tls_node" where
  "init_node d = \<lparr>PadUnderflow = kPadUnderflow, NData = d, NNext = None, PadOverflow = kPadOverflow\<rparr>"

text \<open>The constructors: an empty chunk pool, and thread pools without nodes.\<close>

definition init_local :: tls_local where
  "init_local = \<lparr>Head = None, FreeNodeCnt = 0\<rparr>"

definition init_pool :: "addr \<Rightarrow> nat \<Rightarrow> 'a pool" where
  "init_pool base sz = \<lparr>Mem = Map.empty, Brk = base, NodeSize = sz, ChunckStack = [],
     TotalSize = 0, UseSize = 0, FreeSize = 0, Local = (\<lambda>t. init_local)\<rparr>"

definition load_next :: "'a tls_mem \<Rightarrow> ptr \<Rightarrow> fault + ptr" where
  "load_next m p = (case p of None \<Rightarrow> Inl NullDeref
     | Some a \<Rightarrow> (case m a of None \<Rightarrow> Inl OutOfBounds | Some n \<Rightarrow> Inr (NNext n)))"

definition set_local :: "nat \<Rightarrow> ptr \<Rightarrow> int \<Rightarrow> 'a pool \<Rightarrow> 'a pool" where
  "set_local t h n s = s\<lparr>Local := (Local s)(t := \<lparr>Head = h, FreeNodeCnt = n\<rparr>)\<rparr>"

subsection \<open>Chunks\<close>

definition AllocChunck :: "'a pool \<Rightarrow> 'a pool \<times> ptr" where
  "AllocChunck s =
     (case ChunckStack s of
        [] \<Rightarrow> (s\<lparr>TotalSize := TotalSize s + of_nat kChunkDefault,
                  UseSize := UseSize s + of_nat kChunkDefault\<rparr>, None)
      | c # cs \<Rightarrow> (s\<lparr>ChunckStack := cs, FreeSize := FreeSize s - of_nat kChunkDefault,
                  UseSize := UseSize s + of_nat kChunkDefault\<rparr>, c))"

definition FreeChunck :: "ptr \<Rightarrow> 'a pool \<Rightarrow> 'a pool" where
  "FreeChunck c s = s\<lparr>UseSize := UseSize s - of_nat kChunkDefault,
     FreeSize := FreeSize s + of_nat kChunkDefault, ChunckStack := c # ChunckStack s\<rparr>"

subsection \<open>Nodes\<close>

fun new_nodes :: "nat \<Rightarrow> 'a \<Rightarrow> ptr \<Rightarrow> 'a pool \<Rightarrow> 'a pool \<times> ptr" where
  "new_nodes 0 d head s = (s, head)"
| "new_nodes (Suc k) d head s =
     new_nodes k d (Some (Brk s))
       (s\<lparr>Mem := (Mem s)(Brk s \<mapsto> (init_node d)\<lparr>NNext := head\<rparr>), Brk := Brk s + NodeSize s\<rparr>)"

definition NewNodeList :: "nat \<Rightarrow> 'a \<Rightarrow> 'a pool \<Rightarrow> 'a pool \<times> ptr" where
  "NewNodeList t d s = new_nodes kChunkDefault d (Head (Local s t)) s"

definition refill :: "nat \<Rightarrow> 'a \<Rightarrow> 'a pool \<Rightarrow> 'a pool" where
  "refill t d s =
     (if FreeNodeCnt (Local s t) = 0 then
        let cnt = FreeNodeCnt (Local s t);
            (s1, c) = AllocChunck s;
            s2 = set_local t c cnt s1;
            (s3, h) = (if c = None then NewNodeList t d s2 else (s2, c))
        in set_local t h (cnt + int kChunkDefault) s3
      else s)"

definition tls_Alloc :: "nat \<Rightarrow> 'a \<Rightarrow> 'a pool \<Rightarrow> fault + 'a pool \<times> addr" where
  "tls_Alloc t d s0 =
     (let s = refill t d s0; l = Local s t
      in ebind (load_next (Mem s) (Head l)) (\<lambda>nxt.
         Inr (set_local t nxt (FreeNodeCnt l - 1) s, the (Head l) + sizeof_PadType)))"

fun advance :: "nat \<Rightarrow> 'a tls_mem \<Rightarrow> ptr \<Rightarrow> fault + ptr" where
  "advance 0 m p = Inr p"
| "advance (Suc k) m p = ebind (load_next m p) (advance k m)"

text \<open>A wrong pad makes the source write through a null pointer.\<close>

definition tls_Free :: "nat \<Rightarrow> addr \<Rightarrow> 'a pool \<Rightarrow> fault + 'a pool" where
  "tls_Free t target s =
     (if target < sizeof_PadType then Inl OutOfBounds else
      let a = target - sizeof_PadType
      in case Mem s a of
           None \<Rightarrow> Inl OutOfBounds
         | Some n \<Rightarrow>
             if PadUnderflow n \<noteq> kPadUnderflow \<or> PadOverflow n \<noteq> kPadOverflow then Inl NullDeref
             else
               let l = Local s t;
                   s1 = s\<lparr>Mem := (Mem s)(a \<mapsto> n\<lparr>NNext := Head l\<rparr>)\<rparr>;
                   cnt = FreeNodeCnt l + 1
               in if cnt \<ge> int kChunkDefault then
                    ebind (advance kChunkDefault (Mem s1) (Some a)) (\<lambda>h.
                      Inr (FreeChunck (Some a) (set_local t h (cnt - int kChunkDefault) s1)))
                  else Inr (set_local t (Some a) cnt s1))"

subsection \<open>Chains of nodes\<close>

fun chain :: "'a tls_mem \<Rightarrow> ptr \<Rightarrow> addr list \<Rightarrow> bool" where
  "chain m p [] \<longleftrightarrow> p = None"
| "chain m p (a # as) \<longleftrightarrow> p = Some a \<and> (case m a of None \<Rightarrow> False | Some n \<Rightarrow> chain m (NNext n) as)"

lemma chain_cong: "chain m p as \<Longrightarrow> \<forall>a \<in> set as. m' a = m a \<Longrightarrow> chain m' p as"
  by (induction as arbitrary: p) (auto split: option.splits)

lemma chain_upd: "chain m p as \<Longrightarrow> a \<notin> set as \<Longrightarrow> chain (m(a := x)) p as"
  by (rule chain_cong) auto

lemma chain_dom: "chain m p as \<Longrightarrow> set as \<subseteq> dom m"
  by (induction as arbitrary: p) (auto split: option.splits)

lemma chain_cons: "chain m p as \<Longrightarrow> a \<notin> set as \<Longrightarrow> chain (m(a \<mapsto> n\<lparr>NNext := p\<rparr>)) (Some a) (a # as)"
  by (simp add: chain_upd)

lemma load_next_chain: "chain m p (a # as) \<Longrightarrow> \<exists>q. load_next m p = Inr q \<and> chain m q as"
  by (auto simp: load_next_def split: option.splits)

lemma advance_chain: "chain m p as \<Longrightarrow> advance (length as) m p = Inr None"
proof (induction as arbitrary: p)
  case (Cons a as)
  from load_next_chain [OF Cons.prems] Cons.IH show ?case by auto
qed simp

text \<open>What the allocation loop builds: a chain of fresh nodes in front of the given one.\<close>

definition fresh_chain :: "'a \<Rightarrow> 'a pool \<Rightarrow> addr list \<Rightarrow> 'a pool \<times> ptr \<Rightarrow> addr list \<Rightarrow> bool" where
  "fresh_chain d s as r bs \<longleftrightarrow>
     (\<exists>m b. fst r = s\<lparr>Mem := m, Brk := b\<rparr> \<and> distinct bs \<and>
       chain m (snd r) (bs @ as) \<and> dom m = dom (Mem s) \<union> set bs \<and> set bs \<inter> dom (Mem s) = {} \<and>
       (\<forall>a \<in> dom m. a < b) \<and> (\<forall>a \<in> dom (Mem s). m a = Mem s a) \<and>
       (\<forall>a \<in> set bs. \<exists>q. m a = Some ((init_node d)\<lparr>NNext := q\<rparr>)))"

lemma fresh_chain_Nil:
  "chain (Mem s) head as \<Longrightarrow> \<forall>a \<in> dom (Mem s). a < Brk s \<Longrightarrow> fresh_chain d s as (s, head) []"
  unfolding fresh_chain_def by (intro exI [of _ "Mem s"] exI [of _ "Brk s"]) simp

lemma fresh_chain_snoc:
  assumes "fresh_chain d (s\<lparr>Mem := (Mem s)(Brk s \<mapsto> (init_node d)\<lparr>NNext := head\<rparr>), Brk := b'\<rparr>) (Brk s # as) r bs"
    and "Brk s \<notin> dom (Mem s)"
  shows "fresh_chain d s as r (bs @ [Brk s])"
proof -
  let ?a = "Brk s"
  let ?m = "(Mem s)(?a \<mapsto> (init_node d)\<lparr>NNext := head\<rparr>)"
  from assms(1) obtain m b where m: "fst r = s\<lparr>Mem := m, Brk := b\<rparr>" "distinct bs"
    "chain m (snd r) (bs @ ?a # as)" "dom m = dom ?m \<union> set bs" "set bs \<inter> dom ?m = {}"
    "\<forall>a \<in> dom m. a < b" "\<forall>a \<in> dom ?m. m a = ?m a"
    "\<forall>a \<in> set bs. \<exists>q. m a = Some ((init_node d)\<lparr>NNext := q\<rparr>)"
    by (auto simp: fresh_chain_def)
  have "m ?a = ?m ?a" using m(7) by simp
  moreover have "\<forall>x \<in> dom (Mem s). m x = Mem s x" using m(7) assms(2) by (metis domI domIff fun_upd_apply)
  ultimately show ?thesis
    unfolding fresh_chain_def using m(1-6,8) assms(2) by (intro exI [of _ m] exI [of _ b]) auto
qed

lemma new_nodes_spec:
  assumes "chain (Mem s) head as" "\<forall>a \<in> dom (Mem s). a < Brk s" "0 < NodeSize s"
  shows "\<exists>bs. length bs = k \<and> fresh_chain d s as (new_nodes k d head s) bs"
  using assms
proof (induction k arbitrary: head s as)
  case 0
  then show ?case by (auto intro: fresh_chain_Nil)
next
  case (Suc k)
  let ?a = "Brk s"
  let ?s = "s\<lparr>Mem := (Mem s)(?a \<mapsto> (init_node d)\<lparr>NNext := head\<rparr>), Brk := Brk s + NodeSize s\<rparr>"
  have a: "?a \<notin> dom (Mem s)" using Suc.prems(2) by blast
  then have "?a \<notin> set as" using chain_dom [OF Suc.prems(1)] by blast
  then have "chain (Mem ?s) (Some ?a) (?a # as)" using Suc.prems(1) by (simp add: chain_upd)
  moreover have "\<forall>x \<in> dom (Mem ?s). x < Brk ?s"
    using Suc.prems(2,3) by (auto intro: trans_less_add1)
  moreover have "0 < NodeSize ?s" using Suc.prems(3) by simp
  ultimately obtain bs where "length bs = k" "fresh_chain d ?s (?a # as) (new_nodes k d (Some ?a) ?s) bs"
    using Suc.IH by blast
  then show ?case
    using fresh_chain_snoc [OF _ a] by (intro exI [of _ "bs @ [?a]"]) simp
qed

subsection \<open>Ownership\<close>

text \<open>
  Every node of the memory is in exactly one place: in the free list of a thread, in the chunk at
  some position of the stack, or handed out. \<open>own\<close> records the place; the invariant says that
  the lists and the counters agree with it. \<open>b t\<close> bounds the free list of thread \<open>t\<close>.
\<close>

datatype place = InThread nat | InChunk nat | Taken

definition held :: "'a tls_mem \<Rightarrow> (addr \<Rightarrow> place option) \<Rightarrow> place \<Rightarrow> ptr \<Rightarrow> nat \<Rightarrow> bool" where
  "held m own pl p n \<longleftrightarrow>
     (\<exists>as. distinct as \<and> set as = {a. own a = Some pl} \<and> chain m p as \<and> length as = n)"

definition pads_ok :: "'a tls_node \<Rightarrow> bool" where
  "pads_ok n \<longleftrightarrow> PadUnderflow n = kPadUnderflow \<and> PadOverflow n = kPadOverflow"

definition heap_ok :: "(addr \<Rightarrow> place option) \<Rightarrow> 'a pool \<Rightarrow> bool" where
  "heap_ok own s \<longleftrightarrow> dom own = dom (Mem s) \<and> finite (dom (Mem s)) \<and>
     (\<forall>a \<in> dom (Mem s). a < Brk s) \<and> 0 < NodeSize s \<and> (\<forall>a n. Mem s a = Some n \<longrightarrow> pads_ok n)"

definition locals_ok :: "(nat \<Rightarrow> nat) \<Rightarrow> (addr \<Rightarrow> place option) \<Rightarrow> 'a pool \<Rightarrow> bool" where
  "locals_ok b own s \<longleftrightarrow>
     (\<forall>t. \<exists>n. held (Mem s) own (InThread t) (Head (Local s t)) n \<and>
        FreeNodeCnt (Local s t) = int n \<and> n \<le> b t)"

definition chunks_ok :: "(addr \<Rightarrow> place option) \<Rightarrow> 'a pool \<Rightarrow> bool" where
  "chunks_ok own s \<longleftrightarrow>
     (\<forall>i < length (ChunckStack s). held (Mem s) own (InChunk i) (rev (ChunckStack s) ! i) kChunkDefault) \<and>
     (\<forall>a i. own a = Some (InChunk i) \<longrightarrow> i < length (ChunckStack s))"

definition counters_ok :: "'a pool \<Rightarrow> bool" where
  "counters_ok s \<longleftrightarrow> TotalSize s = of_nat (card (dom (Mem s))) \<and>
     FreeSize s = of_nat (kChunkDefault * length (ChunckStack s)) \<and>
     TotalSize s = UseSize s + FreeSize s"

lemma counters_ok_cong:
  "TotalSize s' = TotalSize s \<Longrightarrow> UseSize s' = UseSize s \<Longrightarrow> FreeSize s' = FreeSize s \<Longrightarrow>
   dom (Mem s') = dom (Mem s) \<Longrightarrow> ChunckStack s' = ChunckStack s \<Longrightarrow> counters_ok s' = counters_ok s"
  by (simp only: counters_ok_def)

definition pool_inv :: "(nat \<Rightarrow> nat) \<Rightarrow> (addr \<Rightarrow> place option) \<Rightarrow> 'a pool \<Rightarrow> bool" where
  "pool_inv b own s \<longleftrightarrow> heap_ok own s \<and> locals_ok b own s \<and> chunks_ok own s \<and> counters_ok s"

abbreviation full_bound :: "nat \<Rightarrow> nat" where
  "full_bound \<equiv> (\<lambda>t. kChunkDefault - 1)"

lemma held_mono:
  assumes "held m own pl p n" "\<And>a. own' a = Some pl \<longleftrightarrow> own a = Some pl"
    "\<And>a. own a = Some pl \<Longrightarrow> m' a = m a"
  shows "held m' own' pl p n"
proof -
  obtain as where as: "distinct as" "set as = {a. own a = Some pl}" "chain m p as" "length as = n"
    using assms(1) by (auto simp: held_def)
  then have "chain m' p as" using assms(3) by (intro chain_cong [OF as(3)]) auto
  with as assms(2) show ?thesis by (auto simp: held_def)
qed

text \<open>A chunk becomes the free list of a thread whose own list is empty.\<close>

lemma held_rename:
  assumes "held m own pl p n" "\<And>a. own' a = Some pl' \<longleftrightarrow> own a = Some pl"
  shows "held m own' pl' p n"
  using assms by (simp add: held_def)

lemma held_empty: "held m own pl p 0 \<longleftrightarrow> p = None \<and> (\<forall>a. own a \<noteq> Some pl)"
  by (auto simp: held_def)

lemma held_not_null: "held m own pl p n \<Longrightarrow> 0 < n \<Longrightarrow> p \<noteq> None"
proof -
  assume h: "held m own pl p n" and n: "0 < n"
  then obtain as where "chain m p as" "length as = n" by (auto simp: held_def)
  with n show "p \<noteq> None" by (cases as) auto
qed

lemma pool_inv_init: "0 < sz \<Longrightarrow> pool_inv full_bound Map.empty (init_pool base sz)"
  by (auto simp: pool_inv_def heap_ok_def locals_ok_def chunks_ok_def counters_ok_def init_pool_def
      init_local_def held_empty intro!: exI [of _ 0])

lemma set_local_fields [simp]:
  "Mem (set_local t h n s) = Mem s" "Brk (set_local t h n s) = Brk s"
  "NodeSize (set_local t h n s) = NodeSize s" "ChunckStack (set_local t h n s) = ChunckStack s"
  "TotalSize (set_local t h n s) = TotalSize s" "FreeSize (set_local t h n s) = FreeSize s"
  "UseSize (set_local t h n s) = UseSize s"
  "Local (set_local t h n s) t' = (if t' = t then \<lparr>Head = h, FreeNodeCnt = n\<rparr> else Local s t')"
  by (simp_all add: set_local_def)

text \<open>One thread's list changes, the others keep theirs.\<close>

lemma locals_ok_change:
  assumes "locals_ok b own s"
    and "held (Mem s') own' (InThread t) (Head (Local s' t)) n" "FreeNodeCnt (Local s' t) = int n" "n \<le> b' t"
    and "\<And>t' p k. t' \<noteq> t \<Longrightarrow> held (Mem s) own (InThread t') p k \<Longrightarrow> held (Mem s') own' (InThread t') p k"
    and "\<And>t'. t' \<noteq> t \<Longrightarrow> Local s' t' = Local s t' \<and> b' t' = b t'"
  shows "locals_ok b' own' s'"
  unfolding locals_ok_def
proof
  fix t'
  show "\<exists>n. held (Mem s') own' (InThread t') (Head (Local s' t')) n \<and> FreeNodeCnt (Local s' t') = int n \<and> n \<le> b' t'"
  proof (cases "t' = t")
    case True
    then show ?thesis using assms(2-4) by blast
  next
    case False
    from assms(1) obtain k where "held (Mem s) own (InThread t') (Head (Local s t')) k"
      "FreeNodeCnt (Local s t') = int k" "k \<le> b t'" unfolding locals_ok_def by blast
    then show ?thesis using assms(5,6) [OF False] by auto
  qed
qed

definition taken :: "(addr \<Rightarrow> place option) \<Rightarrow> addr set" where
  "taken own = {a. own a = Some Taken}"

text \<open>Refilling an empty thread from the chunk stack.\<close>

lemma refill_chunk:
  assumes inv: "pool_inv full_bound own s" and e: "FreeNodeCnt (Local s t) = 0"
    and cs: "ChunckStack s = c # cs"
  shows "\<exists>own'. pool_inv (full_bound(t := kChunkDefault)) own' (refill t d s) \<and> taken own' = taken own \<and>
     Mem (refill t d s) = Mem s \<and> FreeNodeCnt (Local (refill t d s) t) = int kChunkDefault"
proof -
  let ?i = "length cs"
  define own' where "own' a = (if own a = Some (InChunk ?i) then Some (InThread t) else own a)" for a
  have hc: "held (Mem s) own (InChunk ?i) c kChunkDefault"
    using inv cs by (auto simp: pool_inv_def chunks_ok_def nth_append dest!: spec [of _ ?i])
  then have c: "c \<noteq> None" by (rule held_not_null) (simp add: kChunkDefault_def)
  have r: "refill t d s = set_local t c (int kChunkDefault)
      (set_local t c 0 (s\<lparr>ChunckStack := cs, FreeSize := FreeSize s - of_nat kChunkDefault,
                  UseSize := UseSize s + of_nat kChunkDefault\<rparr>))"
    using e cs c by (auto simp: refill_def AllocChunck_def Let_def)
  have t0: "own a \<noteq> Some (InThread t)" for a
    using inv e by (auto simp: pool_inv_def locals_ok_def held_empty dest!: spec [of _ t])
  have "heap_ok own' (refill t d s)"
    using inv by (auto simp: r pool_inv_def heap_ok_def own'_def split: if_splits) blast+
  moreover have "locals_ok (full_bound(t := kChunkDefault)) own' (refill t d s)"
  proof (rule locals_ok_change [where s = s and t = t and n = kChunkDefault])
    show "held (Mem (refill t d s)) own' (InThread t) (Head (Local (refill t d s) t)) kChunkDefault"
      using held_rename [OF hc, of own' "InThread t"] t0 by (auto simp: r own'_def)
    show "held (Mem (refill t d s)) own' (InThread t') p k"
      if "t' \<noteq> t" "held (Mem s) own (InThread t') p k" for t' p k
      using that(2) by (rule held_mono) (use that(1) in \<open>auto simp: r own'_def\<close>)
  qed (use inv in \<open>auto simp: r pool_inv_def\<close>)
  moreover have "chunks_ok own' (refill t d s)"
    using inv cs unfolding pool_inv_def chunks_ok_def r
    by (auto simp: own'_def nth_append less_Suc_eq split: if_splits
        intro: held_mono [of "Mem s" own _ _ _ own' "Mem s"])
  moreover have "counters_ok (refill t d s)"
    using inv cs by (auto simp: r pool_inv_def counters_ok_def algebra_simps)
  moreover have "taken own' = taken own" by (auto simp: taken_def own'_def)
  ultimately show ?thesis by (auto simp: pool_inv_def r)
qed


lemma refill_new:
  assumes inv: "pool_inv full_bound own s" and e: "FreeNodeCnt (Local s t) = 0"
    and cs: "ChunckStack s = []"
  shows "\<exists>own'. pool_inv (full_bound(t := kChunkDefault)) own' (refill t d s) \<and> taken own' = taken own \<and>
     (\<forall>a \<in> dom (Mem s). Mem (refill t d s) a = Mem s a) \<and>
     (\<forall>a n. Mem (refill t d s) a = Some n \<longrightarrow> a \<in> dom (Mem s) \<or> NData n = d) \<and>
     FreeNodeCnt (Local (refill t d s) t) = int kChunkDefault"
proof -
  let ?s = "set_local t None 0 (s\<lparr>TotalSize := TotalSize s + of_nat kChunkDefault,
       UseSize := UseSize s + of_nat kChunkDefault\<rparr>)"
  have "\<exists>bs. length bs = kChunkDefault \<and> fresh_chain d ?s [] (new_nodes kChunkDefault d None ?s) bs"
    using inv by (intro new_nodes_spec) (auto simp: pool_inv_def heap_ok_def)
  then obtain bs s1 h m b where len: "length bs = kChunkDefault"
    and n: "new_nodes kChunkDefault d None ?s = (s1, h)" and s1: "s1 = ?s\<lparr>Mem := m, Brk := b\<rparr>"
    and bs: "distinct bs" "chain m h bs" "dom m = dom (Mem s) \<union> set bs" "set bs \<inter> dom (Mem s) = {}"
      "\<forall>a \<in> dom m. a < b" "\<forall>a \<in> dom (Mem s). m a = Mem s a"
      "\<forall>a \<in> set bs. \<exists>q. m a = Some ((init_node d)\<lparr>NNext := q\<rparr>)"
    by (cases "new_nodes kChunkDefault d None ?s") (auto simp: fresh_chain_def)
  have r: "refill t d s = set_local t h (int kChunkDefault) s1"
    using e cs n by (simp add: refill_def AllocChunck_def NewNodeList_def Let_def)
  define own' where "own' a = (if a \<in> set bs then Some (InThread t) else own a)" for a
  have dom: "dom own = dom (Mem s)" using inv by (simp add: pool_inv_def heap_ok_def)
  then have fresh: "a \<in> set bs \<Longrightarrow> own a = None" for a using bs(4) by blast
  have t0: "own a \<noteq> Some (InThread t)" for a
    using inv e by (auto simp: pool_inv_def locals_ok_def held_empty dest!: spec [of _ t])
  have keep: "held m own' pl p n" if "held (Mem s) own pl p n" "pl \<noteq> InThread t" for pl p n
    using that(1)
  proof (rule held_mono)
    show "own' a = Some pl \<longleftrightarrow> own a = Some pl" for a using that(2) fresh by (auto simp: own'_def)
    show "own a = Some pl \<Longrightarrow> m a = Mem s a" for a using bs(6) dom by blast
  qed
  have pads: "pads_ok n" if "m a = Some n" for a n
  proof (cases "a \<in> set bs")
    case True
    then show ?thesis using bs(7) that by (force simp: pads_ok_def init_node_def)
  next
    case False
    then have "Mem s a = Some n" using bs(3,6) that by (metis Un_iff domI)
    then show ?thesis using inv by (auto simp: pool_inv_def heap_ok_def)
  qed
  have domo: "dom own' = dom own \<union> set bs" by (auto simp: own'_def dom_def)
  have fin: "finite (dom m)" and sz: "0 < NodeSize s"
    using bs(3) inv by (simp_all add: pool_inv_def heap_ok_def)
  then have "heap_ok own' (refill t d s)"
    unfolding heap_ok_def using domo dom bs(3,5) pads by (simp add: r s1)
  moreover have "locals_ok (full_bound(t := kChunkDefault)) own' (refill t d s)"
  proof (rule locals_ok_change [where s = s and t = t and n = kChunkDefault])
    show "held (Mem (refill t d s)) own' (InThread t) (Head (Local (refill t d s) t)) kChunkDefault"
      using bs len t0 by (auto simp: r s1 held_def own'_def)
    show "held (Mem (refill t d s)) own' (InThread t') p k"
      if "t' \<noteq> t" "held (Mem s) own (InThread t') p k" for t' p k
      using keep [OF that(2)] that(1) by (simp add: r s1)
  qed (use inv in \<open>auto simp: r s1 pool_inv_def\<close>)
  moreover have "chunks_ok own' (refill t d s)"
    using inv cs by (auto simp: r s1 pool_inv_def chunks_ok_def own'_def split: if_splits)
  moreover have "counters_ok (refill t d s)"
  proof -
    have "card (dom m) = card (dom (Mem s)) + kChunkDefault"
      using bs(1,3,4) len inv distinct_card [OF bs(1)]
      by (simp add: pool_inv_def heap_ok_def card_Un_disjoint Int_commute)
    with inv cs show ?thesis by (auto simp: r s1 pool_inv_def counters_ok_def algebra_simps)
  qed
  moreover have "taken own' = taken own" using fresh by (auto simp: taken_def own'_def)
  moreover have "a \<in> dom (Mem s) \<or> NData n = d" if "m a = Some n" for a n
    using bs(3,7) that by (force simp: init_node_def)
  ultimately show ?thesis using bs(6) by (auto simp: pool_inv_def r s1)
qed

lemma refill_spec:
  assumes inv: "pool_inv full_bound own s"
  shows "\<exists>own'. pool_inv (full_bound(t := kChunkDefault)) own' (refill t d s) \<and> taken own' = taken own \<and>
     (\<forall>a \<in> dom (Mem s). Mem (refill t d s) a = Mem s a) \<and>
     (\<forall>a n. Mem (refill t d s) a = Some n \<longrightarrow> a \<in> dom (Mem s) \<or> NData n = d) \<and>
     0 < FreeNodeCnt (Local (refill t d s) t)"
proof (cases "FreeNodeCnt (Local s t) = 0")
  case True
  then show ?thesis
    using refill_new [OF inv True, of d] refill_chunk [OF inv True, of _ _ d]
    by (cases "ChunckStack s") (auto simp: kChunkDefault_def)
next
  case False
  then have r: "refill t d s = s" by (simp add: refill_def)
  have "pool_inv (full_bound(t := kChunkDefault)) own s"
    using inv by (fastforce simp: pool_inv_def locals_ok_def kChunkDefault_def)
  moreover have "0 < FreeNodeCnt (Local s t)"
    using inv False by (auto simp: pool_inv_def locals_ok_def dest!: spec [of _ t])
  ultimately show ?thesis by (auto simp: r)
qed


subsection \<open>Alloc and Free\<close>

lemma held_consD:
  "held m own pl p (Suc n) \<Longrightarrow>
   (\<exists>a nd as. p = Some a \<and> m a = Some nd \<and> distinct (a # as) \<and> set (a # as) = {x. own x = Some pl} \<and>
      chain m (NNext nd) as \<and> length as = n)"
  unfolding held_def by (auto simp: length_Suc_conv split: option.splits)

lemma take_node:
  assumes inv: "pool_inv (full_bound(t := kChunkDefault)) own s" and pos: "0 < FreeNodeCnt (Local s t)"
  shows "\<exists>a nxt own'. Head (Local s t) = Some a \<and> load_next (Mem s) (Some a) = Inr nxt \<and>
     own a = Some (InThread t) \<and> taken own' = insert a (taken own) \<and>
     pool_inv full_bound own' (set_local t nxt (FreeNodeCnt (Local s t) - 1) s)"
proof -
  obtain n where n: "held (Mem s) own (InThread t) (Head (Local s t)) (Suc n)"
    "FreeNodeCnt (Local s t) = int (Suc n)" "Suc n \<le> kChunkDefault"
    using inv pos unfolding pool_inv_def locals_ok_def by (metis fun_upd_same gr0_conv_Suc of_nat_0_less_iff)
  then obtain a nd as where a: "Head (Local s t) = Some a" "Mem s a = Some nd" "distinct (a # as)"
    "set (a # as) = {x. own x = Some (InThread t)}" "chain (Mem s) (NNext nd) as" "length as = n"
    using held_consD by blast
  let ?own = "own(a \<mapsto> Taken)" and ?s = "set_local t (NNext nd) (FreeNodeCnt (Local s t) - 1) s"
  have oa: "own a = Some (InThread t)" using a(4) by auto
  have keep: "held (Mem s) ?own pl p k" if "held (Mem s) own pl p k" "pl \<noteq> InThread t" "pl \<noteq> Taken" for pl p k
    using that(1) by (rule held_mono) (use that oa in auto)
  have "heap_ok ?own ?s" using inv oa by (auto simp: pool_inv_def heap_ok_def)
  moreover have "locals_ok full_bound ?own ?s"
  proof (rule locals_ok_change [where b = "full_bound(t := kChunkDefault)" and s = s and t = t and n = n])
    have "set as = {x. ?own x = Some (InThread t)}" using a(3,4) by auto
    then show "held (Mem ?s) ?own (InThread t) (Head (Local ?s t)) n"
      using a by (auto simp: held_def)
    show "held (Mem ?s) ?own (InThread t') p k"
      if "t' \<noteq> t" "held (Mem s) own (InThread t') p k" for t' p k
      using that(2) by (rule held_mono) (use that(1) oa in auto)
  qed (use inv n in \<open>auto simp: pool_inv_def\<close>)
  moreover have "chunks_ok ?own ?s"
    using inv oa unfolding pool_inv_def chunks_ok_def by (auto split: if_splits intro!: keep)
  moreover have "counters_ok ?s" using inv counters_ok_cong [of ?s s] by (simp add: pool_inv_def)
  ultimately show ?thesis
    using a oa by (intro exI [of _ a] exI [of _ "NNext nd"] exI [of _ ?own])
      (auto simp: load_next_def pool_inv_def taken_def)
qed

lemma alloc_spec:
  assumes inv: "pool_inv full_bound own s"
  shows "\<exists>s' a own'. tls_Alloc t d s = Inr (s', a + sizeof_PadType) \<and> a \<notin> taken own \<and>
     taken own' = insert a (taken own) \<and> pool_inv full_bound own' s' \<and>
     (\<forall>x \<in> dom (Mem s). Mem s' x = Mem s x) \<and> taken own \<subseteq> dom (Mem s) \<and>
     (\<forall>a n. Mem s' a = Some n \<longrightarrow> a \<in> dom (Mem s) \<or> NData n = d)"
proof -
  obtain own1 where r: "pool_inv (full_bound(t := kChunkDefault)) own1 (refill t d s)"
    "taken own1 = taken own" "\<forall>a \<in> dom (Mem s). Mem (refill t d s) a = Mem s a"
    "\<forall>a n. Mem (refill t d s) a = Some n \<longrightarrow> a \<in> dom (Mem s) \<or> NData n = d"
    "0 < FreeNodeCnt (Local (refill t d s) t)"
    using refill_spec [OF inv] by blast
  from take_node [OF r(1) r(5)] obtain a nxt own' where a: "Head (Local (refill t d s) t) = Some a"
    "load_next (Mem (refill t d s)) (Some a) = Inr nxt" "own1 a = Some (InThread t)"
    "taken own' = insert a (taken own1)"
    "pool_inv full_bound own' (set_local t nxt (FreeNodeCnt (Local (refill t d s) t) - 1) (refill t d s))"
    by blast
  have "taken own \<subseteq> dom (Mem s)" using inv by (auto simp: pool_inv_def heap_ok_def taken_def)
  moreover have "a \<notin> taken own1" using a(3) by (simp add: taken_def)
  ultimately show ?thesis
    using a r(2-4) by (intro exI [of _ "set_local t nxt (FreeNodeCnt (Local (refill t d s) t) - 1) (refill t d s)"]
       exI [of _ a] exI [of _ own']) (auto simp: tls_Alloc_def Let_def)
qed

text \<open>A freed node goes in front of the list of the freeing thread.\<close>

lemma give_node:
  fixes s :: "'a pool" and t :: nat
  assumes inv: "pool_inv full_bound own s" and a: "a \<in> taken own" "Mem s a = Some nd"
  defines "s1 \<equiv> set_local t (Some a) (FreeNodeCnt (Local s t) + 1)
      (s\<lparr>Mem := (Mem s)(a \<mapsto> nd\<lparr>NNext := Head (Local s t)\<rparr>)\<rparr>)"
  shows "pool_inv (full_bound(t := kChunkDefault)) (own(a \<mapsto> InThread t)) s1"
proof -
  let ?own = "own(a \<mapsto> InThread t)"
  have oa: "own a = Some Taken" using a by (simp add: taken_def)
  obtain n where n: "held (Mem s) own (InThread t) (Head (Local s t)) n"
    "FreeNodeCnt (Local s t) = int n" "n \<le> kChunkDefault - 1"
    using inv unfolding pool_inv_def locals_ok_def by blast
  then obtain as where as: "distinct as" "set as = {x. own x = Some (InThread t)}"
    "chain (Mem s) (Head (Local s t)) as" "length as = n" unfolding held_def by blast
  have na: "a \<notin> set as" using as(2) oa by auto
  have keep: "held (Mem s1) ?own pl p k" if "held (Mem s) own pl p k" "pl \<noteq> InThread t" "pl \<noteq> Taken" for pl p k
    using that(1) by (rule held_mono) (use that oa in \<open>auto simp: s1_def\<close>)
  have "heap_ok ?own s1" using inv a(2) by (auto simp: s1_def pool_inv_def heap_ok_def pads_ok_def)
  moreover have "locals_ok (full_bound(t := kChunkDefault)) ?own s1"
  proof (rule locals_ok_change [where s = s and t = t and n = "Suc n"])
    have "chain (Mem s1) (Some a) (a # as)" using as(3) na by (simp add: s1_def chain_upd)
    moreover have "set (a # as) = {x. ?own x = Some (InThread t)}" using as(2) by auto
    ultimately show "held (Mem s1) ?own (InThread t) (Head (Local s1 t)) (Suc n)"
      unfolding held_def using as(1,4) na by (intro exI [of _ "a # as"]) (auto simp: s1_def)
    show "held (Mem s1) ?own (InThread t') p k"
      if "t' \<noteq> t" "held (Mem s) own (InThread t') p k" for t' p k
      using keep [OF that(2)] that(1) by simp
  qed (use inv n in \<open>auto simp: pool_inv_def s1_def kChunkDefault_def\<close>)
  moreover have "chunks_ok ?own s1"
    using inv oa unfolding pool_inv_def chunks_ok_def by (auto simp: s1_def split: if_splits intro!: keep [unfolded s1_def, simplified])
  moreover have "counters_ok s1"
    using inv a(2) by (auto simp: s1_def pool_inv_def counters_ok_def insert_absorb domI)
  ultimately show ?thesis by (simp add: pool_inv_def)
qed

text \<open>A list of 100 nodes goes to the chunk stack as a whole.\<close>

lemma give_chunk:
  assumes inv: "pool_inv (full_bound(t := kChunkDefault)) own s" and c: "FreeNodeCnt (Local s t) = int kChunkDefault"
  shows "advance kChunkDefault (Mem s) (Head (Local s t)) = Inr None \<and>
     (\<exists>own'. taken own' = taken own \<and>
       pool_inv full_bound own' (FreeChunck (Head (Local s t)) (set_local t None 0 s)))"
proof -
  let ?i = "length (ChunckStack s)"
  let ?s = "FreeChunck (Head (Local s t)) (set_local t None 0 s)"
  define own' where "own' a = (if own a = Some (InThread t) then Some (InChunk ?i) else own a)" for a
  have h: "held (Mem s) own (InThread t) (Head (Local s t)) kChunkDefault"
    using inv c unfolding pool_inv_def locals_ok_def by (metis of_nat_eq_iff)
  have noi: "own a \<noteq> Some (InChunk ?i)" for a
    using inv unfolding pool_inv_def chunks_ok_def by (metis less_irrefl)
  have keep: "held (Mem s) own' pl p k" if "held (Mem s) own pl p k" "pl \<noteq> InThread t" "pl \<noteq> InChunk ?i" for pl p k
    using that(1) by (rule held_mono) (use that in \<open>auto simp: own'_def\<close>)
  have "heap_ok own' ?s" using inv by (auto simp: FreeChunck_def pool_inv_def heap_ok_def own'_def split: if_splits) blast+
  moreover have "locals_ok full_bound own' ?s"
  proof (rule locals_ok_change [where b = "full_bound(t := kChunkDefault)" and s = s and t = t and n = 0])
    show "held (Mem ?s) own' (InThread t) (Head (Local ?s t)) 0"
      by (auto simp: held_empty FreeChunck_def own'_def)
    show "held (Mem ?s) own' (InThread t') p k"
      if "t' \<noteq> t" "held (Mem s) own (InThread t') p k" for t' p k
      using keep [OF that(2)] that(1) by (simp add: FreeChunck_def)
  qed (use inv in \<open>auto simp: pool_inv_def FreeChunck_def\<close>)
  moreover have "chunks_ok own' ?s"
    using inv held_rename [OF h, of own' "InChunk ?i"] noi unfolding pool_inv_def chunks_ok_def
    by (auto simp: FreeChunck_def own'_def nth_append less_Suc_eq split: if_splits intro!: keep)
  moreover have "counters_ok ?s"
    using inv by (auto simp: pool_inv_def counters_ok_def FreeChunck_def algebra_simps)
  moreover have "taken own' = taken own" by (auto simp: taken_def own'_def)
  moreover have "advance kChunkDefault (Mem s) (Head (Local s t)) = Inr None"
    using h advance_chain unfolding held_def by metis
  ultimately show ?thesis by (auto simp: pool_inv_def)
qed


lemma free_spec:
  assumes inv: "pool_inv full_bound own s" and a: "a \<in> taken own"
  shows "\<exists>s' own'. tls_Free t (a + sizeof_PadType) s = Inr s' \<and> taken own' = taken own - {a} \<and>
     pool_inv full_bound own' s' \<and> (\<forall>x \<in> taken own - {a}. Mem s' x = Mem s x) \<and>
     (if FreeNodeCnt (Local s t) + 1 = int kChunkDefault
      then ChunckStack s' = Some a # ChunckStack s \<and> Local s' t = init_local
      else ChunckStack s' = ChunckStack s \<and>
           Local s' t = \<lparr>Head = Some a, FreeNodeCnt = FreeNodeCnt (Local s t) + 1\<rparr>)"
proof -
  obtain nd where nd: "Mem s a = Some nd" and p: "pads_ok nd"
    using inv a by (force simp: pool_inv_def heap_ok_def taken_def dom_def)
  let ?s1 = "set_local t (Some a) (FreeNodeCnt (Local s t) + 1)
      (s\<lparr>Mem := (Mem s)(a \<mapsto> nd\<lparr>NNext := Head (Local s t)\<rparr>)\<rparr>)"
  let ?own = "own(a \<mapsto> InThread t)"
  have g: "pool_inv (full_bound(t := kChunkDefault)) ?own ?s1" using give_node [OF inv a nd] .
  have tk: "taken ?own = taken own - {a}" by (auto simp: taken_def)
  have le: "FreeNodeCnt (Local s t) + 1 \<le> int kChunkDefault"
    using inv by (auto simp: pool_inv_def locals_ok_def kChunkDefault_def dest!: spec [of _ t])
  show ?thesis
  proof (cases "FreeNodeCnt (Local s t) + 1 = int kChunkDefault")
    case True
    then obtain own' where c: "advance kChunkDefault (Mem ?s1) (Some a) = Inr None"
      "taken own' = taken ?own" "pool_inv full_bound own' (FreeChunck (Some a) (set_local t None 0 ?s1))"
      using give_chunk [OF g] by auto
    have "tls_Free t (a + sizeof_PadType) s = Inr (FreeChunck (Some a) (set_local t None 0 ?s1))"
      using nd p c(1) True by (simp add: tls_Free_def Let_def pads_ok_def set_local_def)
    then show ?thesis using c(2,3) tk True
      by (intro exI [of _ "FreeChunck (Some a) (set_local t None 0 ?s1)"] exI [of _ own'])
         (auto simp: FreeChunck_def init_local_def)
  next
    case False
    have "pool_inv full_bound ?own ?s1"
    proof -
      have "locals_ok full_bound ?own ?s1"
        unfolding locals_ok_def
      proof
        fix t'
        obtain n where "held (Mem ?s1) ?own (InThread t') (Head (Local ?s1 t')) n"
          "FreeNodeCnt (Local ?s1 t') = int n" "n \<le> (full_bound(t := kChunkDefault)) t'"
          using g unfolding pool_inv_def locals_ok_def by blast
        then show "\<exists>n. held (Mem ?s1) ?own (InThread t') (Head (Local ?s1 t')) n \<and>
            FreeNodeCnt (Local ?s1 t') = int n \<and> n \<le> kChunkDefault - 1"
          using False by (intro exI [of _ n]) (auto split: if_splits)
      qed
      with g show ?thesis by (simp add: pool_inv_def)
    qed
    moreover have "tls_Free t (a + sizeof_PadType) s = Inr ?s1"
      using nd p False le by (simp add: tls_Free_def Let_def pads_ok_def set_local_def)
    ultimately show ?thesis using tk False by (intro exI [of _ ?s1] exI [of _ ?own]) auto
  qed
qed

subsection \<open>Runs\<close>

text \<open>
  What threads do with the pool: allocate, free a pointer they hold, write to a pointer they hold.
  The last component is the set of pointers handed out and not freed.
\<close>

definition write_data :: "addr \<Rightarrow> 'a \<Rightarrow> 'a pool \<Rightarrow> 'a pool" where
  "write_data p v s =
     s\<lparr>Mem := (Mem s)(p - sizeof_PadType := map_option (\<lambda>n. n\<lparr>NData := v\<rparr>) (Mem s (p - sizeof_PadType)))\<rparr>"

definition read_data :: "'a pool \<Rightarrow> addr \<Rightarrow> 'a option" where
  "read_data s p =
     (if p < sizeof_PadType then None else map_option NData (Mem s (p - sizeof_PadType)))"

inductive pool_run :: "'a \<Rightarrow> 'a pool \<Rightarrow> addr set \<Rightarrow> bool" for d where
  start: "0 < sz \<Longrightarrow> pool_run d (init_pool base sz) {}"
| alloc: "pool_run d s P \<Longrightarrow> tls_Alloc t d s = Inr (s', p) \<Longrightarrow> pool_run d s' (insert p P)"
| free: "pool_run d s P \<Longrightarrow> p \<in> P \<Longrightarrow> tls_Free t p s = Inr s' \<Longrightarrow> pool_run d s' (P - {p})"
| store: "pool_run d s P \<Longrightarrow> p \<in> P \<Longrightarrow> pool_run d (write_data p v s) P"

definition run_inv :: "'a pool \<Rightarrow> addr set \<Rightarrow> bool" where
  "run_inv s P \<longleftrightarrow> (\<exists>own. pool_inv full_bound own s \<and> P = (\<lambda>a. a + sizeof_PadType) ` taken own)"

lemma alloc_run:
  assumes "run_inv s P"
  shows "\<exists>s' p. tls_Alloc t d s = Inr (s', p) \<and> p \<notin> P \<and> run_inv s' (insert p P) \<and>
     (\<forall>q. read_data s q \<noteq> None \<longrightarrow> read_data s' q = read_data s q) \<and>
     (\<forall>q. read_data s q = None \<longrightarrow> read_data s' q \<in> {None, Some d})"
proof -
  from assms obtain own where inv: "pool_inv full_bound own s" and P: "P = (\<lambda>a. a + sizeof_PadType) ` taken own"
    by (auto simp: run_inv_def)
  from alloc_spec [OF inv, of t d] obtain s' a own' where "tls_Alloc t d s = Inr (s', a + sizeof_PadType)"
    "a \<notin> taken own" "taken own' = insert a (taken own)" "pool_inv full_bound own' s'"
    "\<forall>x \<in> dom (Mem s). Mem s' x = Mem s x" and new: "\<forall>a n. Mem s' a = Some n \<longrightarrow> a \<in> dom (Mem s) \<or> NData n = d"
    by blast
  moreover have "read_data s' q \<in> {None, Some d}" if "read_data s q = None" for q
    using that new by (cases "Mem s' (q - sizeof_PadType)") (auto simp: read_data_def split: if_splits)
  ultimately show ?thesis
    by (intro exI [of _ s'] exI [of _ "a + sizeof_PadType"])
       (auto simp: P run_inv_def read_data_def dom_def intro!: exI [of _ own'])
qed

text \<open>A held pointer has data, and freeing changes links only.\<close>

lemma run_inv_read: "run_inv s P \<Longrightarrow> p \<in> P \<Longrightarrow> read_data s p \<noteq> None"
  by (auto simp: run_inv_def read_data_def pool_inv_def heap_ok_def taken_def dom_def)

lemma tls_Free_data: "tls_Free t p s = Inr s' \<Longrightarrow> read_data s' q = read_data s q"
  by (auto simp: tls_Free_def Let_def read_data_def FreeChunck_def ebind_eq_Inr
      split: if_splits option.splits)

lemma free_run:
  assumes "run_inv s P" "p \<in> P"
  shows "\<exists>s'. tls_Free t p s = Inr s' \<and> run_inv s' (P - {p}) \<and>
     (\<forall>q \<in> P - {p}. read_data s' q = read_data s q) \<and>
     (if FreeNodeCnt (Local s t) + 1 = int kChunkDefault
      then ChunckStack s' = Some (p - sizeof_PadType) # ChunckStack s \<and> Local s' t = init_local
      else ChunckStack s' = ChunckStack s \<and>
           Local s' t = \<lparr>Head = Some (p - sizeof_PadType), FreeNodeCnt = FreeNodeCnt (Local s t) + 1\<rparr>)"
proof -
  from assms obtain own a where inv: "pool_inv full_bound own s" and P: "P = (\<lambda>a. a + sizeof_PadType) ` taken own"
    and a: "a \<in> taken own" "p = a + sizeof_PadType"
    by (auto simp: run_inv_def)
  from free_spec [OF inv a(1), of t] obtain s' own' where "tls_Free t p s = Inr s'"
    "taken own' = taken own - {a}" "pool_inv full_bound own' s'"
    "\<forall>x \<in> taken own - {a}. Mem s' x = Mem s x"
    "if FreeNodeCnt (Local s t) + 1 = int kChunkDefault
      then ChunckStack s' = Some a # ChunckStack s \<and> Local s' t = init_local
      else ChunckStack s' = ChunckStack s \<and>
           Local s' t = \<lparr>Head = Some a, FreeNodeCnt = FreeNodeCnt (Local s t) + 1\<rparr>" unfolding a(2) by blast
  then show ?thesis
    by (intro exI [of _ s'])
       (auto simp: P a(2) run_inv_def read_data_def intro!: exI [of _ own'])
qed


text \<open>Writing through a held pointer leaves every link alone.\<close>

lemma chain_same_links:
  "chain m p as \<Longrightarrow> \<forall>a. map_option NNext (m' a) = map_option NNext (m a) \<Longrightarrow> chain m' p as"
proof (induction as arbitrary: p)
  case (Cons a as)
  then obtain n where n: "p = Some a" "m a = Some n" "chain m (NNext n) as" by (auto split: option.splits)
  with Cons.prems(2) obtain n' where "m' a = Some n'" "NNext n' = NNext n"
    by (metis map_option_eq_Some option.simps(9))
  with n Cons.IH Cons.prems(2) show ?case by simp
qed simp

lemma held_same_links:
  "held m own pl p n \<Longrightarrow> \<forall>a. map_option NNext (m' a) = map_option NNext (m a) \<Longrightarrow> held m' own pl p n"
  unfolding held_def using chain_same_links by metis

lemma write_run:
  assumes "run_inv s P"
  shows "run_inv (write_data p v s) P"
proof -
  from assms obtain own where inv: "pool_inv full_bound own s" and P: "P = (\<lambda>a. a + sizeof_PadType) ` taken own"
    by (auto simp: run_inv_def)
  let ?s = "write_data p v s"
  have links: "\<forall>a. map_option NNext (Mem ?s a) = map_option NNext (Mem s a)"
    by (simp add: write_data_def option.map_comp o_def)
  have dom: "dom (Mem ?s) = dom (Mem s)" by (auto simp: write_data_def)
  have w: "Local ?s = Local s" "ChunckStack ?s = ChunckStack s" "TotalSize ?s = TotalSize s"
    "UseSize ?s = UseSize s" "FreeSize ?s = FreeSize s" by (simp_all add: write_data_def)
  have "heap_ok own ?s" using inv dom
    by (auto simp: pool_inv_def heap_ok_def write_data_def pads_ok_def split: if_splits)
  moreover have "locals_ok full_bound own ?s"
    using inv w unfolding pool_inv_def locals_ok_def by (metis held_same_links links)
  moreover have "chunks_ok own ?s"
    using inv w unfolding pool_inv_def chunks_ok_def by (metis held_same_links links)
  moreover have "counters_ok ?s" using inv w counters_ok_cong [OF _ _ _ dom w(2)] by (simp add: pool_inv_def)
  ultimately show ?thesis using P by (auto simp: run_inv_def pool_inv_def)
qed

lemma run_inv_reach: "pool_run d s P \<Longrightarrow> run_inv s P"
proof (induction rule: pool_run.induct)
  case (start sz base)
  then show ?case using pool_inv_init by (auto simp: run_inv_def taken_def intro!: exI [of _ Map.empty])
next
  case (alloc s P t s' p)
  then show ?case using alloc_run [OF alloc.IH, of t d] by auto
next
  case (free s P p t s')
  then show ?case using free_run [OF free.IH, of p t] by auto
next
  case (store s P p v)
  then show ?case by (simp add: write_run)
qed

text \<open>No node is lost: the memory is what is held, what threads cache and what the stack holds.\<close>

lemma held_card:
  "held m own pl p n \<Longrightarrow> card {a. own a = Some pl} = n"
  unfolding held_def by (metis distinct_card)

lemma run_inv_card:
  assumes "run_inv s P" "finite T" "\<forall>t. FreeNodeCnt (Local s t) \<noteq> 0 \<longrightarrow> t \<in> T"
  shows "int (card (dom (Mem s))) =
     int (card P) + (\<Sum>t \<in> T. FreeNodeCnt (Local s t)) + int (kChunkDefault * length (ChunckStack s))"
proof -
  from assms(1) obtain own where inv: "pool_inv full_bound own s" and P: "P = (\<lambda>a. a + sizeof_PadType) ` taken own"
    by (auto simp: run_inv_def)
  let ?A = "\<lambda>pl. {a. own a = Some pl}" and ?n = "length (ChunckStack s)"
  have fin: "finite (dom own)" using inv by (simp add: pool_inv_def heap_ok_def)
  have finA: "finite (?A pl)" for pl using fin by (rule rev_finite_subset) auto
  have cT: "int (card (?A (InThread t))) = FreeNodeCnt (Local s t)" for t
    using inv held_card unfolding pool_inv_def locals_ok_def by metis
  have cC: "card (?A (InChunk i)) = kChunkDefault" if "i < ?n" for i
    using inv that held_card unfolding pool_inv_def chunks_ok_def by metis
  have onlyT: "own a = Some (InThread t) \<Longrightarrow> t \<in> T" for a t
    using cT [of t] finA [of "InThread t"] assms(3) by (metis card_0_eq empty_iff mem_Collect_eq of_nat_eq_0_iff)
  let ?T = "\<Union>t \<in> T. ?A (InThread t)" and ?C = "\<Union>i \<in> {..<?n}. ?A (InChunk i)"
  have "a \<in> taken own \<union> ?T \<union> ?C" if "own a = Some pl" for a pl
    using inv onlyT that by (cases pl) (auto simp: taken_def pool_inv_def chunks_ok_def)
  then have D: "dom own = taken own \<union> ?T \<union> ?C" by (auto simp: taken_def)
  have "card ?T = (\<Sum>t \<in> T. card (?A (InThread t)))"
    using assms(2) finA by (intro card_UN_disjoint) auto
  moreover have "card ?C = kChunkDefault * ?n"
    using finA cC by (subst card_UN_disjoint) auto
  moreover have "finite (taken own)" "finite ?T" "finite ?C" using finA assms(2) by (simp_all add: taken_def)
  moreover have "taken own \<inter> ?T = {}" "(taken own \<union> ?T) \<inter> ?C = {}" by (auto simp: taken_def)
  ultimately have "card (dom own) = card (taken own) + (\<Sum>t \<in> T. card (?A (InThread t))) + kChunkDefault * ?n"
    unfolding D by (simp only: card_Un_disjoint finite_Un)
  moreover have "card P = card (taken own)" unfolding P by (rule card_image) (auto simp: inj_on_def)
  moreover have "dom own = dom (Mem s)" using inv by (simp add: pool_inv_def heap_ok_def)
  ultimately show ?thesis by (simp add: cT)
qed


subsection \<open>The properties\<close>

text \<open>The pool is safe under every sequence of allocations, frees and writes by any number of
  threads: an allocation always succeeds and returns a pointer nobody holds, a held pointer can
  always be freed by any thread, and neither touches the data behind the other held pointers.\<close>

theorem tls_pool_safe:
  assumes "pool_run d s P"
  shows "(\<forall>t. \<exists>s' p. tls_Alloc t d s = Inr (s', p) \<and> p \<notin> P \<and> (\<forall>q \<in> P. read_data s' q = read_data s q)) \<and>
         (\<forall>t. \<forall>p \<in> P. \<exists>s'. tls_Free t p s = Inr s' \<and> (\<forall>q \<in> P - {p}. read_data s' q = read_data s q))"
proof -
  note r = run_inv_reach [OF assms]
  show ?thesis using alloc_run [OF r] free_run [OF r] run_inv_read [OF r] by metis
qed

lemma tls_pool_safe_witness:
  "\<exists>s p. pool_run (7::nat) s {p} \<and> (\<exists>s'. tls_Free 1 p s = Inr s')"
proof -
  have r0: "pool_run (7::nat) (init_pool 4096 32) {}" by (rule pool_run.start) simp
  from tls_pool_safe [OF r0] obtain s p where "tls_Alloc 0 (7::nat) (init_pool 4096 32) = Inr (s, p)" by blast
  with r0 have r1: "pool_run 7 s {p}" by (rule pool_run.alloc)
  with tls_pool_safe [OF r1] show ?thesis by blast
qed

text \<open>The counters of the chunk pool are exact and no node is ever lost: \<open>FreeSize\<close> counts the
  nodes in the chunk stack, \<open>TotalSize\<close> all nodes created, their difference is \<open>UseSize\<close>, and every
  node is held by a caller, cached by a thread, which keeps fewer than 100, or in the chunk stack.\<close>

theorem tls_pool_accounting:
  assumes "pool_run d s P" "finite T" "\<forall>t. FreeNodeCnt (Local s t) \<noteq> 0 \<longrightarrow> t \<in> T"
  shows "TotalSize s = of_nat (card (dom (Mem s))) \<and>
         FreeSize s = of_nat (kChunkDefault * length (ChunckStack s)) \<and>
         TotalSize s = UseSize s + FreeSize s \<and>
         (\<forall>t. 0 \<le> FreeNodeCnt (Local s t) \<and> FreeNodeCnt (Local s t) < 100) \<and>
         int (card (dom (Mem s))) =
           int (card P) + (\<Sum>t \<in> T. FreeNodeCnt (Local s t)) + int (kChunkDefault * length (ChunckStack s))"
proof -
  have r: "run_inv s P" using assms(1) by (rule run_inv_reach)
  then obtain own where inv: "pool_inv full_bound own s" by (auto simp: run_inv_def)
  have "0 \<le> FreeNodeCnt (Local s t) \<and> FreeNodeCnt (Local s t) < 100" for t
    using inv by (auto simp: pool_inv_def locals_ok_def kChunkDefault_def dest!: spec [of _ t])
  then show ?thesis using inv run_inv_card [OF r assms(2,3)] unfolding pool_inv_def counters_ok_def by blast
qed

lemma tls_pool_accounting_witness:
  "TotalSize (init_pool 4096 32 :: nat pool) = UseSize (init_pool 4096 32 :: nat pool) + FreeSize (init_pool 4096 32 :: nat pool)"
  using tls_pool_accounting [OF pool_run.start [of 32 7 4096], of "{}"]
  by (simp add: init_pool_def init_local_def)

text \<open>When a free makes the list of its thread reach 100 nodes, the whole list, which then ends
  in a null link, becomes one chunk of the shared stack and the thread keeps none; below that the
  node stays in front of the thread's list.\<close>

theorem tls_free_threshold:
  assumes "pool_run d s P" "p \<in> P"
  shows "\<exists>s'. tls_Free t p s = Inr s' \<and>
     (if FreeNodeCnt (Local s t) = 99
      then ChunckStack s' = Some (p - sizeof_PadType) # ChunckStack s \<and> Local s' t = init_local
      else ChunckStack s' = ChunckStack s \<and>
           Local s' t = \<lparr>Head = Some (p - sizeof_PadType), FreeNodeCnt = FreeNodeCnt (Local s t) + 1\<rparr>)"
  using free_run [OF run_inv_reach [OF assms(1)] assms(2), of t] by (auto simp: kChunkDefault_def)

lemma tls_free_threshold_witness:
  "\<exists>s p s'. pool_run (7::nat) s {p} \<and> tls_Free 1 p s = Inr s'"
proof -
  have r0: "pool_run (7::nat) (init_pool 4096 32) {}" by (rule pool_run.start) simp
  from alloc_run [OF run_inv_reach [OF r0]] obtain s p where "tls_Alloc 0 (7::nat) (init_pool 4096 32) = Inr (s, p)" by blast
  with r0 have r1: "pool_run 7 s {p}" by (rule pool_run.alloc)
  with tls_free_threshold [OF r1, of p 1] show ?thesis by blast
qed

end
