(* ===== verification/Winsock.thy ===== *)
theory Winsock
  imports Prelude
begin

text \<open>
  The side of Windows that the server and the client share: the overlapped pointer of a completion,
  the calls that leave the process, the packets of the completion port posted by the program, and
  the error codes of \<open>WSASend\<close> and \<open>WSARecv\<close> the code distinguishes.
\<close>

text \<open>The overlapped pointer of a completion: the session's own two, the marker of \<open>SendPacket\<close>
  (\<open>0xfffffffffffffffe\<close>), null, or anything else.\<close>

datatype overlapped = OvRecv | OvSend | OvSendRequest | OvNull | OvOther

datatype io =
    IoRecv nat int int
  | IoSend nat "byte list list"
  | IoCancel nat
  | IoClose nat
  | IoAssociate nat nat

datatype posted = PostSend nat | PostQuit

text \<open>The fields of a \<open>SOCKADDR_IN\<close> the code writes: address and port, the latter in network order.\<close>

type_synonym sockaddr = "u32 \<times> u16"

definition htons :: "u16 \<Rightarrow> u16" where
  "htons p = push_bit 8 p OR drop_bit 8 p"

definition INVALID_SOCKET :: nat where
  "INVALID_SOCKET = 2 ^ 64 - 1"

definition WSA_IO_PENDING :: int where
  "WSA_IO_PENDING = 997"

definition peer_error :: "int \<Rightarrow> bool" where
  "peer_error e \<longleftrightarrow> e = 10004 \<or> e = 10022 \<or> e = 10053 \<or> e = 10054"

end
