(* ===== verification/ServerPackets.thy ===== *)
theory ServerPackets
  imports NetServer
begin

text \<open>
  The packet life cycle of \<open>NetServer\<close> over the thread-local pool: which packets are alive, their
  reference counts, and what \<open>AllocPacket\<close> and \<open>FreePacket\<close> do to them.
\<close>

subsection \<open>Live packets\<close>

text \<open>
  Packets of the pool have the default size, are well formed and unlocked; a packet is handed out
  exactly when its reference count is not zero.
\<close>

definition good_packet :: "packet \<Rightarrow> bool" where
  "good_packet pk \<longleftrightarrow> packet_wf pk \<and> BufferSize pk = kBufferDefault \<and> \<not> SRWEncode pk"

definition pool_pkts :: "packet pool \<Rightarrow> addr set \<Rightarrow> bool" where
  "pool_pkts pl P \<longleftrightarrow> run_inv pl P \<and>
     (\<forall>q pk. read_data pl q = Some pk \<longrightarrow> good_packet pk \<and> (RefCnt pk = 0 \<longleftrightarrow> q \<notin> P))"

definition fresh_packet :: "packet \<Rightarrow> bool" where
  "fresh_packet pk \<longleftrightarrow> good_packet pk \<and> RefCnt pk = 0"

lemma fresh_packet_ctor: "fresh_packet (Packet_ctor kBufferDefault fill)"
  using packet_wf_ctor [of kBufferDefault fill]
  by (simp add: fresh_packet_def good_packet_def Packet_ctor_def kBufferDefault_def)

lemma read_write_data:
  "sizeof_PadType \<le> p \<Longrightarrow> read_data (write_data p v pl) q =
     (if q = p then map_option (\<lambda>_. v) (read_data pl p) else read_data pl q)"
  by (auto simp: read_data_def write_data_def option.map_comp o_def)

lemma run_inv_addr: "run_inv pl P \<Longrightarrow> p \<in> P \<Longrightarrow> sizeof_PadType \<le> p"
  by (auto simp: run_inv_def)

lemma pool_pkts_read:
  assumes "pool_pkts pl P" "p \<in> P"
  obtains pk where "read_data pl p = Some pk" "good_packet pk" "RefCnt pk \<noteq> 0"
proof -
  from assms obtain pk where pk: "read_data pl p = Some pk"
    using run_inv_read unfolding pool_pkts_def by blast
  with assms have "good_packet pk" "RefCnt pk \<noteq> 0" unfolding pool_pkts_def by blast+
  with pk show thesis by (rule that)
qed

lemma pool_pkts_write:
  assumes "pool_pkts pl P" "p \<in> P" "good_packet pk" "RefCnt pk \<noteq> 0"
  shows "pool_pkts (write_data p pk pl) P"
proof -
  have r: "run_inv pl P" using assms(1) by (simp add: pool_pkts_def)
  note w = read_write_data [OF run_inv_addr [OF r assms(2)], of pk pl]
  have "good_packet k \<and> (RefCnt k = 0 \<longleftrightarrow> q \<notin> P)" if "read_data (write_data p pk pl) q = Some k" for q k
  proof (cases "q = p")
    case True
    with that have "k = pk" by (auto simp: w)
    with True assms(2-4) show ?thesis by simp
  next
    case False
    with that have "read_data pl q = Some k" by (simp add: w)
    then show ?thesis using assms(1) by (simp add: pool_pkts_def)
  qed
  then show ?thesis using write_run [OF r] by (simp add: pool_pkts_def)
qed

lemma good_packet_Ref [simp]: "good_packet (pk\<lparr>RefCnt := r\<rparr>) = good_packet pk"
  by (simp add: good_packet_def packet_wf_def)

lemma good_packet_Clear: "good_packet pk \<Longrightarrow> good_packet (ClearPacket pk)"
  using packet_wf_Clear [of pk] by (simp add: good_packet_def kBufferDefault_def kHeaderDefault_def ClearPacket_def)

subsection \<open>Allocation and release\<close>

definition cleared :: "packet \<Rightarrow> bool" where
  "cleared pk \<longleftrightarrow> good_packet pk \<and> RefCnt pk = 1 \<and> Front pk = kHeaderDefault \<and> Rear pk = kHeaderDefault \<and>
     EncodeFlag pk = False"

lemma AllocPacket_spec:
  assumes inv: "pool_pkts (PacketPool s) P" and new: "fresh_packet (NewPacket env)"
  shows "\<exists>pl p pk. AllocPacket env tid s = Inr (s\<lparr>PacketPool := pl\<rparr>, p) \<and> p \<notin> P \<and>
     pool_pkts pl (insert p P) \<and> read_data pl p = Some pk \<and> cleared pk \<and>
     (\<forall>q \<in> P. read_data pl q = read_data (PacketPool s) q)"
proof -
  have r: "run_inv (PacketPool s) P" using inv by (simp add: pool_pkts_def)
  from alloc_run [OF r, of tid "NewPacket env"] obtain pl p where
    a: "tls_Alloc tid (NewPacket env) (PacketPool s) = Inr (pl, p)" "p \<notin> P" "run_inv pl (insert p P)"
    and old: "\<forall>q. read_data (PacketPool s) q \<noteq> None \<longrightarrow> read_data pl q = read_data (PacketPool s) q"
    and fr: "\<forall>q. read_data (PacketPool s) q = None \<longrightarrow> read_data pl q \<in> {None, Some (NewPacket env)}"
    by blast
  obtain pk where pk: "read_data pl p = Some pk" using run_inv_read [OF a(3), of p] by blast
  have zero: "good_packet k \<and> (RefCnt k = 0 \<longleftrightarrow> q \<notin> P)" if "read_data pl q = Some k" for q k
  proof (cases "read_data (PacketPool s) q")
    case None
    then have "q \<notin> P" using run_inv_read [OF r] by blast
    moreover have "k = NewPacket env" using None fr that by (metis insertE option.inject option.simps(3) singletonD)
    ultimately show ?thesis using new by (simp add: fresh_packet_def)
  next
    case (Some k')
    then have "read_data (PacketPool s) q = Some k" using old that by simp
    then show ?thesis using inv by (simp add: pool_pkts_def)
  qed
  have pz: "good_packet pk" "RefCnt pk = 0" using zero [OF pk] a(2) by auto
  let ?k = "fst (IncrementRef (ClearPacket pk))"
  have k: "cleared ?k" using pz good_packet_Clear [of pk]
    by (simp add: cleared_def IncrementRef_def) (simp add: ClearPacket_def)
  have sz: "sizeof_PadType \<le> p" using run_inv_addr [OF a(3)] by simp
  note w = read_write_data [OF sz, of ?k pl]
  have "pool_pkts (write_data p ?k pl) (insert p P)"
  proof -
    have "good_packet k' \<and> (RefCnt k' = 0 \<longleftrightarrow> q \<notin> insert p P)"
      if "read_data (write_data p ?k pl) q = Some k'" for q k'
      using that k zero [of q k'] pk by (auto simp: w cleared_def split: if_splits)
    then show ?thesis using write_run [OF a(3)] by (simp add: pool_pkts_def)
  qed
  moreover have "AllocPacket env tid s = Inr (s\<lparr>PacketPool := write_data p ?k pl\<rparr>, p)"
    using a(1) pk by (simp add: AllocPacket_def get_packet_def set_packet_def Let_def)
  moreover have "\<forall>q \<in> P. read_data (write_data p ?k pl) q = read_data (PacketPool s) q"
    using old run_inv_read [OF r] a(2) by (auto simp: w)
  ultimately show ?thesis using a(2) k pk w by (intro exI [of _ "write_data p ?k pl"] exI [of _ p] exI [of _ ?k]) simp
qed

lemma FreePacket_spec:
  assumes inv: "pool_pkts (PacketPool s) P" and p: "p \<in> P" and pk: "read_data (PacketPool s) p = Some pk"
  shows "\<exists>pl. FreePacket tid p s = Inr (s\<lparr>PacketPool := pl\<rparr>) \<and>
     pool_pkts pl (if RefCnt pk = 1 then P - {p} else P) \<and>
     (\<forall>q. read_data pl q =
        (if q = p then Some (pk\<lparr>RefCnt := RefCnt pk - 1\<rparr>) else read_data (PacketPool s) q))"
proof -
  have r: "run_inv (PacketPool s) P" using inv by (simp add: pool_pkts_def)
  have g: "good_packet pk" "RefCnt pk \<noteq> 0" using inv p pk by (auto simp: pool_pkts_def)
  define k where "k = pk\<lparr>RefCnt := RefCnt pk - 1\<rparr>"
  have k: "good_packet k" "RefCnt k = RefCnt pk - 1" using g by (simp_all add: k_def)
  let ?pl = "write_data p k (PacketPool s)"
  have w: "read_data ?pl q = (if q = p then Some k else read_data (PacketPool s) q)" for q
    using read_write_data [OF run_inv_addr [OF r p], of k "PacketPool s" q] pk by simp
  have step: "FreePacket tid p s = (if RefCnt k \<noteq> 0 then Inr (s\<lparr>PacketPool := ?pl\<rparr>)
      else ebind (tls_Free tid p ?pl) (\<lambda>pool. Inr (s\<lparr>PacketPool := pool\<rparr>)))"
    using pk by (simp add: FreePacket_def get_packet_def set_packet_def DecrementRef_def Let_def k_def)
  show ?thesis
  proof (cases "RefCnt pk = 1")
    case True
    have r1: "run_inv ?pl P" using r by (rule write_run)
    from free_run [OF r1 p, of tid] obtain pl where f: "tls_Free tid p ?pl = Inr pl" "run_inv pl (P - {p})" by blast
    have rd: "read_data pl q = (if q = p then Some k else read_data (PacketPool s) q)" for q
      using tls_Free_data [OF f(1)] w by simp
    have "pool_pkts pl (P - {p})"
      using f(2) inv k True unfolding pool_pkts_def by (auto simp: rd split: if_splits)
    moreover have "FreePacket tid p s = Inr (s\<lparr>PacketPool := pl\<rparr>)"
      using f(1) True k(2) by (simp add: step)
    ultimately show ?thesis using True by (intro exI [of _ pl]) (simp add: rd k_def)
  next
    case False
    then have nz: "RefCnt k \<noteq> 0" using k by simp
    have "pool_pkts ?pl P" using pool_pkts_write [OF inv p k(1) nz] .
    moreover have "FreePacket tid p s = Inr (s\<lparr>PacketPool := ?pl\<rparr>)" using nz by (simp add: step)
    ultimately show ?thesis using False by (intro exI [of _ ?pl]) (simp add: w, simp add: k_def)
  qed
qed

end
