(* ===== verification/Framing.thy ===== *)
theory Framing
  imports XorEncoder
begin

text \<open>
  Cutting messages out of a receive buffer, as \<open>CheckPacketMessageComplete\<close> and
  \<open>GetPacketMessage\<close> of \<open>NetServer\<close> and \<open>NetClient\<close> do it: the part of both that only looks
  at the receive packet, and what it gives for any encoder with the contract \<open>frame_encoder\<close>.
\<close>

text \<open>
  \<open>None\<close>: the header is refused (the session is killed); otherwise whether a whole message is
  there. A buffer that holds no tail than a header counts as incomplete.
\<close>

definition check_frame :: "iencoder \<Rightarrow> packet \<Rightarrow> fault + bool option" where
  "check_frame E rq =
     (let headerSize = GetHeaderSize E;
          packetUseSize = unat (word_of_int (GetDataSize rq) :: u32)
      in if packetUseSize \<le> headerSize then Inr (Some False)
         else
           let headerBytes = GetReadBufferPtr rq
           in ebind (VerifyHeaderMagic E headerBytes) (\<lambda>magic.
              if \<not> magic then Inr None
              else ebind (PeekPayloadLength E headerBytes) (\<lambda>peek.
                case peek of
                  None \<Rightarrow> Inr None
                | Some payloadLen \<Rightarrow> Inr (Some (\<not> packetUseSize < headerSize + payloadLen)))))"

text \<open>The receive packet and the message packet after the message was moved over.\<close>

definition take_frame :: "iencoder \<Rightarrow> packet \<Rightarrow> packet \<Rightarrow> fault + packet \<times> packet \<times> bool" where
  "take_frame E rq pk =
     ebind (PeekPayloadLength E (GetReadBufferPtr rq)) (\<lambda>peek.
       case peek of
         None \<Rightarrow> Inr (rq, pk, False)
       | Some payloadLen \<Rightarrow>
           ebind (Decode E rq) (\<lambda>(rq1, ok).
             if \<not> ok then Inr (rq1, pk, False)
             else
               ebind (GetData rq1 (int payloadLen)) (\<lambda>(rq2, bs).
               ebind (wr_mem (Buffer pk) (Rear pk) bs) (\<lambda>b.
                 if int (length bs) \<noteq> int payloadLen then Inl Crashed
                 else ebind (MoveWritePos (pk\<lparr>Buffer := b\<rparr>) (int payloadLen)) (\<lambda>(pk', n).
                        Inr (rq2, pk', True))))))"

lemma GetReadBufferPtr_data:
  assumes "packet_wf p"
  shows "\<exists>B. GetReadBufferPtr p = packet_data p @ B"
proof -
  obtain A B where ab: "Buffer p = A @ packet_data p @ B" "int (length A) = Front p"
    using packet_split_data [OF assms] .
  then have "nat (Front p) = length A" by simp
  then show ?thesis using ab(1) by (simp add: GetReadBufferPtr_def)
qed

lemma use_size:
  assumes "packet_wf p"
  shows "unat (word_of_int (GetDataSize p) :: u32) = length (packet_data p)"
proof -
  have "GetDataSize p = int (length (packet_data p))" using length_packet_data [OF assms] by simp
  moreover have "GetDataSize p < 2 ^ 31" using assms by (auto simp: packet_wf_def GetDataSize_def)
  ultimately show ?thesis by (simp add: unat_of_nat take_bit_nat_eq_self)
qed

text \<open>A receive buffer that holds no whole message.\<close>

definition incomplete :: "(int \<Rightarrow> byte list \<Rightarrow> byte list) \<Rightarrow> nat \<Rightarrow> nat \<Rightarrow> byte list \<Rightarrow> bool" where
  "incomplete frame hs max_len rest \<longleftrightarrow> length rest \<le> hs \<or>
     (\<exists>r pl k. length pl \<le> max_len \<and> k < hs + length pl \<and> rest = take k (frame r pl))"

context frame_encoder
begin

lemma header_of_frame:
  assumes "packet_wf rq" "packet_data rq = take k (frame r pl) @ tail" "GetHeaderSize E \<le> k"
    "GetHeaderSize E \<le> length (packet_data rq)"
  shows "take (GetHeaderSize E) (GetReadBufferPtr rq) = take (GetHeaderSize E) (frame r pl) \<and>
     GetHeaderSize E \<le> length (GetReadBufferPtr rq)"
proof -
  obtain B where B: "GetReadBufferPtr rq = packet_data rq @ B" using GetReadBufferPtr_data [OF assms(1)] by blast
  have "take (GetHeaderSize E) (packet_data rq) = take (GetHeaderSize E) (frame r pl)"
    using assms(3) by (simp add: assms(2) frame_length min_def)
  with B assms(4) show ?thesis by simp
qed

lemma check_frame_complete:
  assumes "packet_wf rq" "packet_data rq = frame r pl @ tail" "length pl \<le> max_len"
    "pl \<noteq> [] \<or> tail \<noteq> []"
  shows "check_frame E rq = Inr (Some True)"
proof -
  have len: "length (packet_data rq) = GetHeaderSize E + length pl + length tail"
    by (simp add: assms(2) frame_length)
  have "packet_data rq = take (length (frame r pl)) (frame r pl) @ tail" by (simp add: assms(2))
  from header_of_frame [OF assms(1) this] have
    h: "take (GetHeaderSize E) (GetReadBufferPtr rq) = take (GetHeaderSize E) (frame r pl)"
      "GetHeaderSize E \<le> length (GetReadBufferPtr rq)"
    using len by (simp_all add: frame_length)
  have "0 < length pl + length tail" using assms(4) by auto
  then show ?thesis
    using header_magic [OF h assms(3)] header_peek [OF h assms(3)] len
    by (simp add: check_frame_def Let_def use_size [OF assms(1)])
qed

lemma check_frame_incomplete:
  assumes "packet_wf rq" "incomplete frame (GetHeaderSize E) max_len (packet_data rq)"
  shows "check_frame E rq = Inr (Some False)"
proof (cases "length (packet_data rq) \<le> GetHeaderSize E")
  case True
  then show ?thesis by (simp add: check_frame_def Let_def use_size [OF assms(1)])
next
  case False
  then obtain r pl k where k: "length pl \<le> max_len" "k < GetHeaderSize E + length pl"
    "packet_data rq = take k (frame r pl)" using assms(2) by (auto simp: incomplete_def)
  with False have "GetHeaderSize E \<le> k" by (simp add: frame_length)
  moreover have "GetHeaderSize E \<le> length (packet_data rq)" using False by simp
  moreover have "packet_data rq = take k (frame r pl) @ []" using k(3) by simp
  ultimately have
    h: "take (GetHeaderSize E) (GetReadBufferPtr rq) = take (GetHeaderSize E) (frame r pl)"
      "GetHeaderSize E \<le> length (GetReadBufferPtr rq)"
    using header_of_frame [OF assms(1)] by blast+
  have "length (packet_data rq) = k" using k by (simp add: frame_length)
  then show ?thesis
    using header_magic [OF h k(1)] header_peek [OF h k(1)] k(2) False
    by (simp add: check_frame_def Let_def use_size [OF assms(1)])
qed

lemma take_frame_ok:
  assumes "packet_wf rq" "packet_data rq = frame r pl @ tail" "length pl \<le> max_len"
    "packet_wf pk" "int (length pl) \<le> packet_room pk"
  shows "\<exists>rq' pk'. take_frame E rq pk = Inr (rq', pk', True) \<and> packet_wf rq' \<and> packet_data rq' = tail \<and>
     BufferSize rq' = BufferSize rq \<and> Rear rq' = Rear rq \<and> packet_wf pk' \<and> packet_data pk' = packet_data pk @ pl \<and>
     BufferSize pk' = BufferSize pk \<and> RefCnt pk' = RefCnt pk \<and> EncodeFlag pk' = EncodeFlag pk \<and>
     SRWEncode pk' = SRWEncode pk \<and> Front pk' = Front pk"
proof -
  have "packet_data rq = take (length (frame r pl)) (frame r pl) @ tail" by (simp add: assms(2))
  from header_of_frame [OF assms(1) this] have
    h: "take (GetHeaderSize E) (GetReadBufferPtr rq) = take (GetHeaderSize E) (frame r pl)"
      "GetHeaderSize E \<le> length (GetReadBufferPtr rq)"
    by (simp_all add: assms(2) frame_length)
  have peek: "PeekPayloadLength E (GetReadBufferPtr rq) = Inr (Some (length pl))"
    by (rule header_peek [OF h assms(3)])
  from decode_frame [OF assms(1-3)] obtain rq1 where
    d: "Decode E rq = Inr (rq1, True)" "packet_wf rq1" "packet_data rq1 = pl @ tail"
      "BufferSize rq1 = BufferSize rq" "Rear rq1 = Rear rq" by blast
  have size: "int (length (packet_data rq1)) = GetDataSize rq1" by (rule length_packet_data [OF d(2)])
  then have "Front rq1 + int (length pl) < 2 ^ 31"
    using d(2,3) by (simp add: packet_wf_def GetDataSize_def)
  from GetData_ok [OF d(2) _ this] obtain rq2 where
    g: "GetData rq1 (int (length pl)) = Inr (rq2, pl)" "packet_wf rq2" "packet_data rq2 = tail"
      "Rear rq2 = Rear rq1" "BufferSize rq2 = BufferSize rq1" by (auto simp: d(3))
  from put_raw_ok [OF assms(4,5)] obtain pk' where
    w: "put_raw pk pl = Inr pk'" "packet_wf pk'" "packet_data pk' = packet_data pk @ pl" by blast
  then obtain b where b: "wr_mem (Buffer pk) (Rear pk) pl = Inr b"
    and pk': "pk' = pk\<lparr>Buffer := b, Rear := Rear pk + int (length pl)\<rparr>"
    by (auto simp: put_raw_def ebind_eq_Inr)
  have wf: "packet_wf (pk\<lparr>Buffer := b\<rparr>)"
    using assms(4) length_wr_mem [OF b] by (simp add: packet_wf_def)
  have "MoveWritePos (pk\<lparr>Buffer := b\<rparr>) (int (length pl)) = Inr (pk', int (length pl))"
    using assms(4,5) by (subst MoveWritePos_ok [OF wf]) (auto simp: pk' packet_wf_def packet_room_def)
  then have "take_frame E rq pk = Inr (rq2, pk', True)"
    using peek d(1) g(1) b by (simp add: take_frame_def)
  then show ?thesis using d g w pk' by (intro exI [of _ rq2] exI [of _ pk']) simp
qed

text \<open>A message with no room in the destination packet is copied past its end.\<close>

lemma take_frame_overflow:
  assumes "packet_wf rq" "packet_data rq = frame r pl @ tail" "length pl \<le> max_len"
    "packet_wf pk" "packet_room pk < int (length pl)"
  shows "\<exists>rq1 rq2. PeekPayloadLength E (GetReadBufferPtr rq) = Inr (Some (length pl)) \<and>
     Decode E rq = Inr (rq1, True) \<and> GetData rq1 (int (length pl)) = Inr (rq2, pl) \<and>
     wr_mem (Buffer pk) (Rear pk) pl = Inl OutOfBounds"
proof -
  have "packet_data rq = take (length (frame r pl)) (frame r pl) @ tail" by (simp add: assms(2))
  from header_of_frame [OF assms(1) this] have
    h: "take (GetHeaderSize E) (GetReadBufferPtr rq) = take (GetHeaderSize E) (frame r pl)"
      "GetHeaderSize E \<le> length (GetReadBufferPtr rq)"
    by (simp_all add: assms(2) frame_length)
  have peek: "PeekPayloadLength E (GetReadBufferPtr rq) = Inr (Some (length pl))"
    by (rule header_peek [OF h assms(3)])
  from decode_frame [OF assms(1-3)] obtain rq1 where
    d: "Decode E rq = Inr (rq1, True)" "packet_wf rq1" "packet_data rq1 = pl @ tail" by blast
  have size: "int (length (packet_data rq1)) = GetDataSize rq1" by (rule length_packet_data [OF d(2)])
  then have "Front rq1 + int (length pl) < 2 ^ 31"
    using d(2,3) by (simp add: packet_wf_def GetDataSize_def)
  from GetData_ok [OF d(2) _ this] obtain rq2 where "GetData rq1 (int (length pl)) = Inr (rq2, pl)"
    by (auto simp: d(3))
  moreover have "wr_mem (Buffer pk) (Rear pk) pl = Inl OutOfBounds"
    using assms(4,5) by (auto simp: wr_mem_def packet_wf_def packet_room_def)
  ultimately show ?thesis using peek d(1) by blast
qed

end

end
