(* ===== verification/ServerFraming.thy ===== *)
theory ServerFraming
  imports ServerPackets Framing
begin

text \<open>
  What the receive path of \<open>NetServer\<close> delivers: for any encoder with the contract
  \<open>frame_encoder\<close> and any application whose \<open>OnRecv\<close> keeps the contract \<open>message_app\<close>, the messages
  of the byte stream, each once, in order, whatever the sizes of the pieces it arrives in.
\<close>

subsection \<open>The handlers over the shared framing functions\<close>

lemma CheckPacketMessageComplete_frame:
  "CheckPacketMessageComplete env tid sid i s = with_session i s (\<lambda>x.
     ebind (check_frame (Encoder s) (RecvQ x)) (\<lambda>r.
       case r of None \<Rightarrow> ebind (KillSession env tid sid s) (\<lambda>s1. Inr (s1, False)) | Some b \<Rightarrow> Inr (s, b)))"
  unfolding CheckPacketMessageComplete_def check_frame_def with_session_def Let_def
  by (cases "VerifyHeaderMagic (Encoder s) (GetReadBufferPtr (RecvQ (SessionArr s ! i)))";
      cases "PeekPayloadLength (Encoder s) (GetReadBufferPtr (RecvQ (SessionArr s ! i)))")
     (auto split: option.splits)

lemma write_data_twice [simp]: "write_data p v (write_data p u pl) = write_data p v pl"
  by (simp add: write_data_def option.map_comp o_def)

lemma set_session_twice [simp]: "set_session i x (set_session i y s) = set_session i x s"
  by (simp add: set_session_def)

lemma set_session_fields [simp]:
  "PacketPool (set_session i x s) = PacketPool s" "Encoder (set_session i x s) = Encoder s"
  "App (set_session i x s) = App s" "length (SessionArr (set_session i x s)) = length (SessionArr s)"
  by (simp_all add: set_session_def)

lemma set_packet_fields [simp]:
  "SessionArr (set_packet p pk s) = SessionArr s" "Encoder (set_packet p pk s) = Encoder s"
  "App (set_packet p pk s) = App s" "PacketPool (set_packet p pk s) = write_data p pk (PacketPool s)"
  by (simp_all add: set_packet_def)

lemma GetPacketMessage_ok:
  assumes "i < length (SessionArr s)" "read_data (PacketPool s) p = Some pk"
    "take_frame (Encoder s) (RecvQ (SessionArr s ! i)) pk = Inr (rq, pk', True)"
  shows "GetPacketMessage p i s =
     Inr (set_packet p pk' (set_session i ((SessionArr s ! i)\<lparr>RecvQ := rq\<rparr>) s), True)"
proof -
  from assms(3) obtain n rq1 bs b k where
    "PeekPayloadLength (Encoder s) (GetReadBufferPtr (RecvQ (SessionArr s ! i))) = Inr (Some n)"
    "Decode (Encoder s) (RecvQ (SessionArr s ! i)) = Inr (rq1, True)"
    "GetData rq1 (int n) = Inr (rq, bs)" "wr_mem (Buffer pk) (Rear pk) bs = Inr b" "length bs = n"
    "MoveWritePos (pk\<lparr>Buffer := b\<rparr>) (int n) = Inr (pk', k)"
    by (auto simp: take_frame_def ebind_eq_Inr split: option.splits if_splits)
  then show ?thesis
    using assms(1,2) by (simp add: GetPacketMessage_def with_session_def get_packet_def Let_def set_packet_def)
qed

subsection \<open>Applications\<close>

text \<open>What a callback may not touch: the encoder, the receive buffers and the session identifiers.\<close>

definition keeps_recv :: "'u server \<Rightarrow> 'u server \<Rightarrow> bool" where
  "keeps_recv s s' \<longleftrightarrow> Encoder s' = Encoder s \<and> length (SessionArr s') = length (SessionArr s) \<and>
     (\<forall>i < length (SessionArr s). RecvQ (SessionArr s' ! i) = RecvQ (SessionArr s ! i) \<and>
        SessionID (SessionArr s' ! i) = SessionID (SessionArr s ! i))"

locale message_app =
  fixes env :: "'u env" and h :: "u64 \<Rightarrow> byte list \<Rightarrow> 'u \<Rightarrow> 'u" and accepts :: "byte list \<Rightarrow> bool"
  assumes new_packet: "fresh_packet (NewPacket env)"
    and on_recv: "pool_pkts (PacketPool s) P \<Longrightarrow> p \<in> P \<Longrightarrow> read_data (PacketPool s) p = Some pk \<Longrightarrow>
      accepts (packet_data pk) \<Longrightarrow> \<exists>s' P'. OnRecv env sid p s = Inr s' \<and> keeps_recv s s' \<and> App s' = h sid (packet_data pk) (App s) \<and>
        pool_pkts (PacketPool s') P' \<and> p \<in> P'"

text \<open>The callback may rely on \<open>accepts\<close>. A server application behind an encoder:\<close>

locale message_server = message_app env h accepts + frame_encoder E frame max_len
  for env :: "'u env" and h accepts E frame max_len

text \<open>Messages fit a packet of the pool: 1024 bytes less the 20 reserved ones.\<close>

definition max_message :: nat where
  "max_message = 1004"

definition fits :: "nat \<Rightarrow> byte list \<Rightarrow> bool" where
  "fits max_len pl \<longleftrightarrow> length pl \<le> max_len \<and> length pl \<le> max_message"

lemma AddRecvPacket_fields [simp]:
  "PacketPool (AddRecvPacket tid s) = PacketPool s" "SessionArr (AddRecvPacket tid s) = SessionArr s"
  "Encoder (AddRecvPacket tid s) = Encoder s" "App (AddRecvPacket tid s) = App s"
  by (simp_all add: AddRecvPacket_def GetThreadTransmitArr_def set_arr_def split: option.splits)

context message_server
begin

text \<open>One round of the loop: one message is handed to the application.\<close>

lemma recv_round:
  assumes E: "Encoder s = E" and P: "pool_pkts (PacketPool s) P" and i: "i < length (SessionArr s)"
    and rq: "packet_wf (RecvQ (SessionArr s ! i))"
    and dat: "packet_data (RecvQ (SessionArr s ! i)) = frame r pl @ tail"
    and pl: "fits max_len pl" "pl \<noteq> [] \<or> tail \<noteq> []" "accepts pl"
  shows "\<exists>s' P'. recv_loop env tid i s = recv_loop env tid i s' \<and> Encoder s' = E \<and> pool_pkts (PacketPool s') P' \<and>
     length (SessionArr s') = length (SessionArr s) \<and> packet_wf (RecvQ (SessionArr s' ! i)) \<and>
     packet_data (RecvQ (SessionArr s' ! i)) = tail \<and>
     BufferSize (RecvQ (SessionArr s' ! i)) = BufferSize (RecvQ (SessionArr s ! i)) \<and>
     SessionID (SessionArr s' ! i) = SessionID (SessionArr s ! i) \<and>
     App s' = h (SessionID (SessionArr s ! i)) pl (App s)"
proof -
  let ?x = "SessionArr s ! i"
  have len: "length pl \<le> max_len" using pl by (simp add: fits_def)
  have complete: "CheckPacketMessageComplete env tid (SessionID ?x) i s = Inr (s, True)"
    using check_frame_complete [OF rq dat len pl(2)] i
    by (simp add: CheckPacketMessageComplete_frame with_session_def E)
  from AllocPacket_spec [OF P new_packet, of tid] obtain pool p pk where
    a: "AllocPacket env tid s = Inr (s\<lparr>PacketPool := pool\<rparr>, p)" "pool_pkts pool (insert p P)"
    and pk: "read_data pool p = Some pk" "cleared pk" by blast
  let ?s2 = "s\<lparr>PacketPool := pool\<rparr>"
  have pw: "packet_wf pk" "packet_data pk = []" "int (length pl) \<le> packet_room pk"
    using pk(2) pl by (auto simp: cleared_def good_packet_def packet_data_def window_def packet_room_def
        kBufferDefault_def kHeaderDefault_def fits_def max_message_def)
  from take_frame_ok [OF rq dat len pw(1,3)] obtain rq' pk' where
    t: "take_frame E (RecvQ ?x) pk = Inr (rq', pk', True)" "packet_wf rq'" "packet_data rq' = tail"
      "BufferSize rq' = BufferSize (RecvQ ?x)" "packet_wf pk'" "packet_data pk' = pl"
      "BufferSize pk' = BufferSize pk" "RefCnt pk' = RefCnt pk" "SRWEncode pk' = SRWEncode pk"
    using pw(2) by auto
  let ?s3 = "set_packet p pk' (set_session i (?x\<lparr>RecvQ := rq'\<rparr>) ?s2)"
  have g: "GetPacketMessage p i ?s2 = Inr (?s3, True)"
    using GetPacketMessage_ok [of i ?s2 p pk rq' pk'] i pk(1) t(1) E by simp
  have good: "good_packet pk'" "RefCnt pk' \<noteq> 0"
    using pk(2) t by (auto simp: cleared_def good_packet_def)
  have P3: "pool_pkts (PacketPool (AddRecvPacket tid ?s3)) (insert p P)"
    using pool_pkts_write [OF a(2) _ good] by simp
  have r3: "read_data (PacketPool (AddRecvPacket tid ?s3)) p = Some pk'"
    using a(2) read_write_data [of p pk' pool p] pk(1) run_inv_addr [of pool "insert p P" p]
    by (simp add: pool_pkts_def)
  from on_recv [OF P3 _ r3, of "SessionID ?x"] obtain s4 P4 where
    o: "OnRecv env (SessionID ?x) p (AddRecvPacket tid ?s3) = Inr s4" "keeps_recv ?s3 s4"
      "App s4 = h (SessionID ?x) pl (App s)" "pool_pkts (PacketPool s4) P4" "p \<in> P4"
    using t(6) pl(3) by (auto simp: keeps_recv_def)
  from pool_pkts_read [OF o(4,5)] obtain k where k: "read_data (PacketPool s4) p = Some k" .
  from FreePacket_spec [OF o(4,5) k, of tid] obtain pl5 where
    f: "FreePacket tid p s4 = Inr (s4\<lparr>PacketPool := pl5\<rparr>)"
      "pool_pkts pl5 (if RefCnt k = 1 then P4 - {p} else P4)" by blast
  let ?s5 = "s4\<lparr>PacketPool := pl5\<rparr>"
  have ss: "SessionArr s4 ! i = (SessionArr s4 ! i)\<lparr>RecvQ := rq', SessionID := SessionID ?x\<rparr>"
    "length (SessionArr s4) = length (SessionArr s)" "Encoder s4 = E"
    using o(2) i by (auto simp: keeps_recv_def set_session_def E)
  have sid: "SessionID (SessionArr ?s3 ! i) = SessionID ?x" using i by (simp add: set_session_def)
  have rqi: "RecvQ (SessionArr s4 ! i) = rq'" "SessionID (SessionArr s4 ! i) = SessionID ?x"
    using ss(1) by (metis session.select_convs(4,11) session.surjective session.update_convs(4,11))+
  have "recv_loop env tid i s = recv_loop env tid i ?s5"
    using i sid by (subst recv_loop.simps) (simp add: with_session_def complete a(1) g o(1) f(1))
  then show ?thesis using ss rqi f(2) t o(3) by (intro exI [of _ ?s5]) auto
qed

text \<open>The whole loop, by induction on the messages in the buffer.\<close>

lemma recv_loop_all:
  assumes hdr_pos: "0 < GetHeaderSize E"
    and "Encoder s = E" "pool_pkts (PacketPool s) P" "i < length (SessionArr s)"
    "packet_wf (RecvQ (SessionArr s ! i))"
    "packet_data (RecvQ (SessionArr s ! i)) = concat (map2 frame rs pls) @ rest"
    "length rs = length pls" "\<forall>pl \<in> set pls. fits max_len pl \<and> accepts pl"
    "pls \<noteq> [] \<longrightarrow> last pls \<noteq> [] \<or> rest \<noteq> []" "incomplete frame (GetHeaderSize E) max_len rest"
  shows "\<exists>s' P'. recv_loop env tid i s = Some (Inr s') \<and> Encoder s' = E \<and> pool_pkts (PacketPool s') P' \<and>
     length (SessionArr s') = length (SessionArr s) \<and> packet_wf (RecvQ (SessionArr s' ! i)) \<and>
     packet_data (RecvQ (SessionArr s' ! i)) = rest \<and>
     BufferSize (RecvQ (SessionArr s' ! i)) = BufferSize (RecvQ (SessionArr s ! i)) \<and>
     SessionID (SessionArr s' ! i) = SessionID (SessionArr s ! i) \<and>
     App s' = fold (h (SessionID (SessionArr s ! i))) pls (App s)"
  using assms(2-)
proof (induction pls arbitrary: s P rs)
  case Nil
  then have "CheckPacketMessageComplete env tid (SessionID (SessionArr s ! i)) i s = Inr (s, False)"
    using check_frame_incomplete [of "RecvQ (SessionArr s ! i)"]
    by (simp add: CheckPacketMessageComplete_frame with_session_def)
  then have "recv_loop env tid i s = Some (Inr s)"
    using Nil.prems(3) by (subst recv_loop.simps) (simp add: with_session_def)
  then show ?case using Nil.prems by auto
next
  case (Cons pl pls)
  obtain r rs' where rs: "rs = r # rs'" using Cons.prems(6) by (cases rs) auto
  let ?tail = "concat (map2 frame rs' pls) @ rest"
  have dat: "packet_data (RecvQ (SessionArr s ! i)) = frame r pl @ ?tail" using Cons.prems(5) rs by simp
  have ne: "pl \<noteq> [] \<or> ?tail \<noteq> []"
  proof (cases pls)
    case Nil
    then show ?thesis using Cons.prems(8) by auto
  next
    case more: (Cons pl2 pls2)
    with Cons.prems(6) rs obtain r2 rs2 where "rs' = r2 # rs2" by (cases rs') auto
    moreover have "frame r2 pl2 \<noteq> []" using frame_length [of r2 pl2] hdr_pos by auto
    ultimately show ?thesis using more by simp
  qed
  have "fits max_len pl" "accepts pl" using Cons.prems(7) by simp_all
  from recv_round [OF Cons.prems(1-4) dat this(1) ne this(2), of tid] obtain s1 P1 where
    s1: "recv_loop env tid i s = recv_loop env tid i s1" "Encoder s1 = E" "pool_pkts (PacketPool s1) P1"
      "length (SessionArr s1) = length (SessionArr s)" "packet_wf (RecvQ (SessionArr s1 ! i))"
      "packet_data (RecvQ (SessionArr s1 ! i)) = ?tail"
      "BufferSize (RecvQ (SessionArr s1 ! i)) = BufferSize (RecvQ (SessionArr s ! i))"
      "SessionID (SessionArr s1 ! i) = SessionID (SessionArr s ! i)"
      "App s1 = h (SessionID (SessionArr s ! i)) pl (App s)" by blast
  from Cons.IH [OF s1(2,3) _ s1(5,6)] Cons.prems(3,6-9) rs s1 show ?case by auto
qed

text \<open>A prefix of a stream of frames is some whole frames and an incomplete one.\<close>

lemma prefix_split:
  assumes "D @ T = concat (map2 frame rs pls)" "length rs = length pls" "\<forall>pl \<in> set pls. fits max_len pl"
  shows "\<exists>m rest. D = concat (map2 frame (take m rs) (take m pls)) @ rest \<and>
     rest @ T = concat (map2 frame (drop m rs) (drop m pls)) \<and>
     incomplete frame (GetHeaderSize E) max_len rest \<and>
     (drop m pls \<noteq> [] \<longrightarrow> length rest < GetHeaderSize E + length (hd (drop m pls)))"
  using assms
proof (induction pls arbitrary: D rs)
  case Nil
  then show ?case by (intro exI [of _ 0]) (simp add: incomplete_def)
next
  case (Cons pl pls)
  obtain r rs' where rs: "rs = r # rs'" using Cons.prems(2) by (cases rs) auto
  have S: "D @ T = frame r pl @ concat (map2 frame rs' pls)" using Cons.prems(1) rs by simp
  have fl: "length (frame r pl) = GetHeaderSize E + length pl" by (rule frame_length)
  have ft: "fits max_len pl" using Cons.prems(3) by simp
  show ?case
  proof (cases "length (frame r pl) \<le> length D")
    case True
    have tk: "take (length (frame r pl)) (D @ T) = frame r pl" by (simp add: S)
    then have D: "D = frame r pl @ drop (length (frame r pl)) D"
      using True by (metis append_eq_conv_conj append_take_drop_id le_iff_sup take_all_iff take_append diff_is_0_eq take_0 append_Nil2)
    then have "drop (length (frame r pl)) D @ T = concat (map2 frame rs' pls)"
      using S by (metis append.assoc same_append_eq)
    from Cons.IH [OF this] Cons.prems(2,3) rs obtain m rest where
      "drop (length (frame r pl)) D = concat (map2 frame (take m rs') (take m pls)) @ rest"
      "rest @ T = concat (map2 frame (drop m rs') (drop m pls))"
      "incomplete frame (GetHeaderSize E) max_len rest"
      "drop m pls \<noteq> [] \<longrightarrow> length rest < GetHeaderSize E + length (hd (drop m pls))" by auto
    with D rs show ?thesis by (intro exI [of _ "Suc m"] exI [of _ rest]) simp
  next
    case False
    then have "D = take (length D) (frame r pl)"
      using S by (metis append_eq_append_conv_if append_take_drop_id nat_le_linear take_all_iff)
    moreover have "length D < GetHeaderSize E + length pl" using False fl by simp
    ultimately have "incomplete frame (GetHeaderSize E) max_len D"
      using ft unfolding incomplete_def fits_def by blast
    then show ?thesis using Cons.prems(1) \<open>length D < GetHeaderSize E + length pl\<close>
      by (intro exI [of _ 0] exI [of _ D]) simp
  qed
qed

text \<open>A complete frame with a payload in front is not incomplete.\<close>

lemma incomplete_no_frame:
  assumes "packet_wf rq" "packet_data rq = frame r pl @ tail" "length pl \<le> max_len" "pl \<noteq> []"
  shows "\<not> incomplete frame (GetHeaderSize E) max_len (packet_data rq)"
  using check_frame_complete [OF assms(1-3)] check_frame_incomplete [OF assms(1)] assms(4) by auto

end

subsection \<open>The windows of the receives\<close>

text \<open>
  The room behind the bytes that wait in the receive packet: all of the 4096-byte buffer behind \<open>n > 0\<close> bytes, which
  \<open>ShiftDataToFront\<close> moved to the front; 20 bytes less in an empty packet, which \<open>Clear\<close> leaves at its reserved
  bytes. Frames of the sizes \<open>ls\<close> arrive; \<open>settle\<close> takes the complete ones out of \<open>n\<close> bytes, and \<open>in_windows\<close> says
  that every piece fits the room that is there when it arrives.
\<close>

definition recv_room :: "nat \<Rightarrow> nat" where
  "recv_room n = (if n = 0 then 4096 - 20 else 4096 - n)"

fun settle :: "nat list \<Rightarrow> nat \<Rightarrow> nat list \<times> nat" where
  "settle [] n = ([], n)"
| "settle (l # ls) n = (if l \<le> n then settle ls (n - l) else (l # ls, n))"

fun in_windows :: "nat list \<Rightarrow> nat \<Rightarrow> byte list list \<Rightarrow> bool" where
  "in_windows ls n [] = True"
| "in_windows ls n (c # cs) \<longleftrightarrow> length c \<le> recv_room n \<and>
     (let (ls', n') = settle ls (n + length c) in in_windows ls' n' cs)"

definition frame_sizes :: "iencoder \<Rightarrow> byte list list \<Rightarrow> nat list" where
  "frame_sizes E pls = map (\<lambda>pl. GetHeaderSize E + length pl) pls"

lemma settle_take: "settle ls (sum_list (take m ls) + n) = settle (drop m ls) n"
  by (induction ls arbitrary: m) (auto simp: take_Cons' drop_Cons')

lemma settle_stays: "ls \<noteq> [] \<longrightarrow> n < hd ls \<Longrightarrow> settle ls n = (ls, n)"
  by (cases ls) simp_all

lemma settle_small:
  assumes "settle ls n = (ls', n')" "sum_list ls = n + k" "\<forall>l \<in> set ls. l \<le> b"
  shows "(\<forall>l \<in> set ls'. l \<le> b) \<and> sum_list ls' = n' + k \<and> n' \<le> b"
  using assms by (induction ls n rule: settle.induct) (auto split: if_splits)

text \<open>Pieces of at most 3072 bytes always fit, when no frame is longer than 1024 bytes.\<close>

lemma small_pieces_fit:
  assumes "\<forall>c \<in> set cs. length c \<le> 3072" "\<forall>l \<in> set ls. l \<le> 1024" "n \<le> 1024" "sum_list ls = n + length (concat cs)"
  shows "in_windows ls n cs"
  using assms
proof (induction cs arbitrary: ls n)
  case (Cons c cs)
  obtain ls' n' where st: "settle ls (n + length c) = (ls', n')" by force
  from settle_small [OF st, of "length (concat cs)" 1024] Cons.prems Cons.IH [of ls' n'] show ?case
    using st by (auto simp: recv_room_def)
qed simp

subsection \<open>Pieces of a byte stream\<close>

text \<open>
  What the kernel does between two completions: it stores the received bytes where \<open>RecvPost\<close>
  pointed \<open>WSARecv\<close> to, the write position of the receive packet. A byte stream arrives as any
  sequence of pieces; each one is stored and its completion handled.
\<close>

definition kernel_write :: "nat \<Rightarrow> byte list \<Rightarrow> 'u server \<Rightarrow> fault + 'u server" where
  "kernel_write i bs s =
     with_session i s (\<lambda>x.
       ebind (wr_mem (Buffer (RecvQ x)) (Rear (RecvQ x)) bs) (\<lambda>b.
         Inr (set_session i (x\<lparr>RecvQ := (RecvQ x)\<lparr>Buffer := b\<rparr>\<rparr>) s)))"

definition recv_chunk :: "'u env \<Rightarrow> nat \<Rightarrow> nat \<Rightarrow> byte list \<Rightarrow> 'u server \<Rightarrow> (fault + 'u server) option" where
  "recv_chunk env tid i bs s =
     (case kernel_write i bs s of
        Inl e \<Rightarrow> Some (Inl e)
      | Inr s1 \<Rightarrow> on_recv_complete env tid (of_nat (length bs)) i None s1)"

fun recv_chunks :: "'u env \<Rightarrow> nat \<Rightarrow> nat \<Rightarrow> byte list list \<Rightarrow> 'u server \<Rightarrow> (fault + 'u server) option" where
  "recv_chunks env tid i [] s = Some (Inr s)"
| "recv_chunks env tid i (c # cs) s =
     (case recv_chunk env tid i c s of
        None \<Rightarrow> None
      | Some (Inl e) \<Rightarrow> Some (Inl e)
      | Some (Inr s1) \<Rightarrow> recv_chunks env tid i cs s1)"

lemma AddRecvBytes_fields [simp]:
  "PacketPool (AddRecvBytes tid n s) = PacketPool s" "SessionArr (AddRecvBytes tid n s) = SessionArr s"
  "Encoder (AddRecvBytes tid n s) = Encoder s" "App (AddRecvBytes tid n s) = App s"
  by (simp_all add: AddRecvBytes_def GetThreadTransmitArr_def set_arr_def split: option.splits)

text \<open>Between two pieces: the session's receive packet holds \<open>d\<close> and has room.\<close>

definition rx_inv :: "iencoder \<Rightarrow> nat \<Rightarrow> byte list \<Rightarrow> 'u server \<Rightarrow> bool" where
  "rx_inv E i d s \<longleftrightarrow> Encoder s = E \<and> (\<exists>P. pool_pkts (PacketPool s) P) \<and> i < length (SessionArr s) \<and>
     packet_wf (RecvQ (SessionArr s ! i)) \<and> BufferSize (RecvQ (SessionArr s ! i)) = 4096 \<and>
     packet_data (RecvQ (SessionArr s ! i)) = d \<and>
     Front (RecvQ (SessionArr s ! i)) \<le> (if d = [] then kHeaderDefault else 0)"

lemma recv_begin_ok:
  assumes "rx_inv E i d s" "length c \<le> recv_room (length d)"
  shows "\<exists>s1 s2. kernel_write i c s = Inr s1 \<and> recv_begin tid (of_nat (length c)) i s1 = Inr s2 \<and>
     Encoder s2 = E \<and> PacketPool s2 = PacketPool s \<and> App s2 = App s \<and>
     length (SessionArr s2) = length (SessionArr s) \<and> packet_wf (RecvQ (SessionArr s2 ! i)) \<and>
     packet_data (RecvQ (SessionArr s2 ! i)) = d @ c \<and> BufferSize (RecvQ (SessionArr s2 ! i)) = 4096 \<and>
     SessionID (SessionArr s2 ! i) = SessionID (SessionArr s ! i)"
proof -
  let ?x = "SessionArr s ! i" and ?rq = "RecvQ (SessionArr s ! i)"
  have i: "i < length (SessionArr s)" and wf: "packet_wf ?rq" and B: "BufferSize ?rq = 4096"
    and d: "packet_data ?rq = d" and E: "Encoder s = E"
    using assms(1) by (auto simp: rx_inv_def)
  have "int (length d) = Rear ?rq - Front ?rq"
    using length_packet_data [OF wf] by (simp add: d GetDataSize_def)
  then have room: "int (length c) \<le> packet_room ?rq"
    using assms B by (auto simp: rx_inv_def packet_room_def kHeaderDefault_def recv_room_def packet_wf_def split: if_splits)
  from put_raw_ok [OF wf room] obtain rq' where rq': "put_raw ?rq c = Inr rq'" "packet_wf rq'"
    "packet_data rq' = d @ c" "BufferSize rq' = 4096" using B d by auto
  then obtain b where b: "wr_mem (Buffer ?rq) (Rear ?rq) c = Inr b"
    and eq: "rq' = ?rq\<lparr>Buffer := b, Rear := Rear ?rq + int (length c)\<rparr>"
    by (auto simp: put_raw_def ebind_eq_Inr)
  have wf1: "packet_wf (?rq\<lparr>Buffer := b\<rparr>)" using wf length_wr_mem [OF b] by (simp add: packet_wf_def)
  have c: "length c \<le> 4096" using assms(2) by (auto simp: recv_room_def split: if_splits)
  then have sl: "sint (word_of_nat (length c) :: u32) = int (length c)"
    by (subst signed_of_nat, subst signed_take_bit_int_eq_self) auto
  have mv: "MoveWritePos (?rq\<lparr>Buffer := b\<rparr>) (sint (word_of_nat (length c) :: u32)) = Inr (rq', int (length c))"
    unfolding sl using wf room B c
    by (subst MoveWritePos_ok [OF wf1]) (auto simp: eq packet_wf_def packet_room_def)
  let ?s1 = "set_session i (?x\<lparr>RecvQ := ?rq\<lparr>Buffer := b\<rparr>\<rparr>) s"
  have "kernel_write i c s = Inr ?s1" using i b by (simp add: kernel_write_def with_session_def)
  moreover have "SessionArr ?s1 ! i = ?x\<lparr>RecvQ := ?rq\<lparr>Buffer := b\<rparr>\<rparr>" using i by (simp add: set_session_def)
  ultimately show ?thesis
    using i mv E rq'(2-4)
    by (simp add: recv_begin_def with_session_def) (simp add: set_session_def)
qed

lemma recv_end_ok:
  assumes "Encoder s = E" "pool_pkts (PacketPool s) P" "i < length (SessionArr s)"
    "packet_wf (RecvQ (SessionArr s ! i))" "BufferSize (RecvQ (SessionArr s ! i)) = 4096"
  shows "\<exists>s'. recv_end i None s = Inr s' \<and> rx_inv E i (packet_data (RecvQ (SessionArr s ! i))) s' \<and>
     App s' = App s \<and> length (SessionArr s') = length (SessionArr s) \<and>
     SessionID (SessionArr s' ! i) = SessionID (SessionArr s ! i)"
proof -
  let ?x = "SessionArr s ! i" and ?rq = "RecvQ (SessionArr s ! i)"
  have len: "int (length (packet_data ?rq)) = GetDataSize ?rq" by (rule length_packet_data [OF assms(4)])
  obtain rq where rq: "(if GetDataSize ?rq \<noteq> 0 then ShiftDataToFront ?rq else Inr (ClearPacket ?rq)) = Inr rq"
    "packet_wf rq" "BufferSize rq = 4096" "packet_data rq = packet_data ?rq"
    "Front rq \<le> (if packet_data ?rq = [] then kHeaderDefault else 0)"
  proof (cases "GetDataSize ?rq = 0")
    case True
    then have "packet_data ?rq = []" using len by simp
    with True assms(4,5) packet_wf_Clear [OF assms(4)] show thesis
      by (intro that [of "ClearPacket ?rq"]) (auto simp: kHeaderDefault_def, simp_all add: ClearPacket_def kHeaderDefault_def)
  next
    case False
    moreover from ShiftDataToFront_ok [OF assms(4)] obtain q where "ShiftDataToFront ?rq = Inr q" "packet_wf q"
      "packet_data q = packet_data ?rq" "Front q = 0" "BufferSize q = BufferSize ?rq" by blast
    ultimately show thesis using assms(5) len by (intro that [of q]) auto
  qed
  let ?s1 = "set_session i (?x\<lparr>RecvQ := rq\<rparr>) s"
  have x1: "SessionArr ?s1 ! i = ?x\<lparr>RecvQ := rq\<rparr>" using assms(3) by (simp add: set_session_def)
  have "\<exists>s' b. RecvPost i None ?s1 = Inr (s', b) \<and> Encoder s' = E \<and> PacketPool s' = PacketPool s \<and> App s' = App s \<and>
     length (SessionArr s') = length (SessionArr s) \<and> RecvQ (SessionArr s' ! i) = rq \<and>
     SessionID (SessionArr s' ! i) = SessionID ?x"
    using assms(1,3) by (simp add: RecvPost_def with_session_def x1 cancel_if_unused_def log_io_def Let_def)
      (auto simp: set_session_def add_ref_def)
  then show ?thesis using rq assms by (auto simp: recv_end_def with_session_def rx_inv_def)
qed

context message_server
begin

lemma recv_chunk_ok:
  assumes hdr: "0 < GetHeaderSize E" and inv: "rx_inv E i d s" and len: "length c \<le> recv_room (length d)"
    and dc: "d @ c = concat (map2 frame rs pls) @ rest" "length rs = length pls"
      "\<forall>pl \<in> set pls. fits max_len pl \<and> pl \<noteq> [] \<and> accepts pl" "incomplete frame (GetHeaderSize E) max_len rest"
  shows "\<exists>s'. recv_chunk env tid i c s = Some (Inr s') \<and> rx_inv E i rest s' \<and>
     App s' = fold (h (SessionID (SessionArr s ! i))) pls (App s) \<and>
     SessionID (SessionArr s' ! i) = SessionID (SessionArr s ! i)"
proof -
  from recv_begin_ok [OF inv len, of tid] obtain s1 s2 where b: "kernel_write i c s = Inr s1"
    "recv_begin tid (of_nat (length c)) i s1 = Inr s2" "Encoder s2 = E" "PacketPool s2 = PacketPool s"
    "App s2 = App s" "length (SessionArr s2) = length (SessionArr s)" "packet_wf (RecvQ (SessionArr s2 ! i))"
    "packet_data (RecvQ (SessionArr s2 ! i)) = d @ c" "BufferSize (RecvQ (SessionArr s2 ! i)) = 4096"
    "SessionID (SessionArr s2 ! i) = SessionID (SessionArr s ! i)" by blast
  obtain P where P: "pool_pkts (PacketPool s2) P" and i: "i < length (SessionArr s2)"
    using inv b(4,6) by (auto simp: rx_inv_def)
  have l: "pls \<noteq> [] \<longrightarrow> last pls \<noteq> [] \<or> rest \<noteq> []" using dc(3) by auto
  have f: "\<forall>pl \<in> set pls. fits max_len pl \<and> accepts pl" using dc(3) by simp
  from recv_loop_all [OF hdr b(3) P i b(7) b(8) [unfolded dc(1)] dc(2) f l dc(4), of tid]
  obtain s3 P3 where r: "recv_loop env tid i s2 = Some (Inr s3)" "Encoder s3 = E" "pool_pkts (PacketPool s3) P3"
    "length (SessionArr s3) = length (SessionArr s2)" "packet_wf (RecvQ (SessionArr s3 ! i))"
    "packet_data (RecvQ (SessionArr s3 ! i)) = rest"
    "BufferSize (RecvQ (SessionArr s3 ! i)) = BufferSize (RecvQ (SessionArr s2 ! i))"
    "SessionID (SessionArr s3 ! i) = SessionID (SessionArr s2 ! i)"
    "App s3 = fold (h (SessionID (SessionArr s2 ! i))) pls (App s2)" by blast
  have "i < length (SessionArr s3)" "BufferSize (RecvQ (SessionArr s3 ! i)) = 4096" using i r b by simp_all
  from recv_end_ok [OF r(2,3) this(1) r(5) this(2)] obtain s4 where "recv_end i None s3 = Inr s4"
    "rx_inv E i rest s4" "App s4 = App s3" "SessionID (SessionArr s4 ! i) = SessionID (SessionArr s3 ! i)"
    using r(6) by auto
  with b r show ?thesis by (auto simp: recv_chunk_def on_recv_complete_def)
qed

lemma length_frames:
  "length rs = length pls \<Longrightarrow> length (concat (map2 frame rs pls)) = sum_list (frame_sizes E pls)"
  by (induction rs pls rule: list_induct2) (simp_all add: frame_sizes_def frame_length)

lemma in_windows_next:
  assumes "in_windows (frame_sizes E pls) (length d) (c # cs)" "d @ c = concat (map2 frame (take m rs) (take m pls)) @ rest"
    and "length (take m rs) = length (take m pls)"
    and "drop m pls \<noteq> [] \<longrightarrow> length rest < GetHeaderSize E + length (hd (drop m pls))"
  shows "in_windows (frame_sizes E (drop m pls)) (length rest) cs"
proof -
  have "length d + length c = sum_list (take m (frame_sizes E pls)) + length rest"
    using arg_cong [OF assms(2), of length] length_frames [OF assms(3)] by (simp add: frame_sizes_def take_map)
  then have "settle (frame_sizes E pls) (length d + length c) = settle (frame_sizes E (drop m pls)) (length rest)"
    by (simp add: settle_take) (simp add: frame_sizes_def drop_map)
  also have "\<dots> = (frame_sizes E (drop m pls), length rest)"
    using assms(4) by (intro settle_stays) (auto simp: frame_sizes_def hd_map)
  finally show ?thesis using assms(1) by simp
qed

lemma recv_chunks_ok:
  assumes hdr: "0 < GetHeaderSize E" and "rx_inv E i d s" and "in_windows (frame_sizes E pls) (length d) cs"
    and "d @ concat cs = concat (map2 frame rs pls)" "length rs = length pls"
    and "\<forall>pl \<in> set pls. fits max_len pl \<and> pl \<noteq> [] \<and> accepts pl" "incomplete frame (GetHeaderSize E) max_len d"
  shows "\<exists>s'. recv_chunks env tid i cs s = Some (Inr s') \<and> rx_inv E i [] s' \<and>
     App s' = fold (h (SessionID (SessionArr s ! i))) pls (App s)"
  using assms(2-)
proof (induction cs arbitrary: d s rs pls)
  case Nil
  show ?case
  proof (cases pls)
    case Nil
    with Nil.prems show ?thesis by simp
  next
    case more: (Cons pl pls')
    with Nil.prems(4) obtain r rs' where "rs = r # rs'" by (cases rs) auto
    with more Nil.prems(3) have "packet_data (RecvQ (SessionArr s ! i)) = frame r pl @ concat (map2 frame rs' pls')"
      using Nil.prems(1) by (simp add: rx_inv_def)
    from incomplete_no_frame [OF _ this] Nil.prems(1,5,6) more show ?thesis by (auto simp: rx_inv_def fits_def)
  qed
next
  case (Cons c cs)
  have "(d @ c) @ concat cs = concat (map2 frame rs pls)" "\<forall>pl \<in> set pls. fits max_len pl"
    using Cons.prems(3,5) by auto
  from prefix_split [OF this(1) Cons.prems(4) this(2)] obtain m rest where
    m: "d @ c = concat (map2 frame (take m rs) (take m pls)) @ rest"
      "rest @ concat cs = concat (map2 frame (drop m rs) (drop m pls))"
      "incomplete frame (GetHeaderSize E) max_len rest"
      "drop m pls \<noteq> [] \<longrightarrow> length rest < GetHeaderSize E + length (hd (drop m pls))" by blast
  have hs: "length c \<le> recv_room (length d)" using Cons.prems(2) by simp
  have sub: "\<forall>pl \<in> set (take m pls). fits max_len pl \<and> pl \<noteq> [] \<and> accepts pl"
    "\<forall>pl \<in> set (drop m pls). fits max_len pl \<and> pl \<noteq> [] \<and> accepts pl"
    using Cons.prems(5) by (auto dest: in_set_takeD in_set_dropD)
  have lm: "length (take m rs) = length (take m pls)" "length (drop m rs) = length (drop m pls)"
    using Cons.prems(4) by simp_all
  from recv_chunk_ok [OF hdr Cons.prems(1) hs m(1) lm(1) sub(1) m(3), of tid] obtain s1 where
    s1: "recv_chunk env tid i c s = Some (Inr s1)" "rx_inv E i rest s1"
      "App s1 = fold (h (SessionID (SessionArr s ! i))) (take m pls) (App s)"
      "SessionID (SessionArr s1 ! i) = SessionID (SessionArr s ! i)" by blast
  from in_windows_next [OF Cons.prems(2) m(1) lm(1) m(4)]
  have "in_windows (frame_sizes E (drop m pls)) (length rest) cs" .
  from Cons.IH [OF s1(2) this m(2) lm(2) sub(2) m(3)] obtain s2 where
    s2: "recv_chunks env tid i cs s1 = Some (Inr s2)" "rx_inv E i [] s2"
      "App s2 = fold (h (SessionID (SessionArr s1 ! i))) (drop m pls) (App s1)" by blast
  have "fold (h (SessionID (SessionArr s ! i))) pls (App s) =
    fold (h (SessionID (SessionArr s ! i))) (drop m pls) (fold (h (SessionID (SessionArr s ! i))) (take m pls) (App s))"
    by (metis append_take_drop_id comp_apply fold_append)
  with s1 s2 show ?case by simp
qed

end

subsection \<open>An application that records\<close>

text \<open>The instance the contract is checked on: every message is appended to a log.\<close>

definition recording_app :: "(u64 \<times> byte list) list env" where
  "recording_app =
     \<lparr>NewPacket = Packet_ctor kBufferDefault (\<lambda>_. 0),
      OnConnectionRequest = (\<lambda>s. (s, True)),
      OnClientJoin = (\<lambda>sid s. Inr s), OnClientLeave = (\<lambda>sid s. Inr s),
      OnRecv = (\<lambda>sid p s. ebind (get_packet p s) (\<lambda>pk. Inr (s\<lparr>App := App s @ [(sid, packet_data pk)]\<rparr>)))\<rparr>"

interpretation recording: message_app recording_app "\<lambda>sid m log. log @ [(sid, m)]" "\<lambda>m. True"
proof
  show "fresh_packet (NewPacket recording_app)" by (simp add: recording_app_def fresh_packet_ctor)
qed (auto simp: recording_app_def get_packet_def keeps_recv_def)

interpretation xor_server: message_server recording_app "\<lambda>sid m log. log @ [(sid, m)]" "\<lambda>m. True"
  "xor_vtable e" "xor_frame_rnd e" "xor_max_len e" for e
  by unfold_locales

subsection \<open>The property\<close>

text \<open>A piece that arrives in an empty packet behind its reserved bytes, and that the posted window of 4096 bytes
  (see \<open>recv_window\<close>) admits although the room is 4076, is written past the buffer.\<close>

lemma long_piece_overruns:
  assumes "rx_inv E i [] s" "Front (RecvQ (SessionArr s ! i)) = kHeaderDefault" "recv_room 0 < length c"
  shows "recv_chunk env tid i c s = Some (Inl OutOfBounds)"
proof -
  let ?q = "RecvQ (SessionArr s ! i)"
  have q: "i < length (SessionArr s)" "packet_wf ?q" "BufferSize ?q = 4096" "packet_data ?q = []"
    using assms(1) by (simp_all add: rx_inv_def)
  have "Rear ?q = 20" using length_packet_data [OF q(2)] q(4) assms(2) by (simp add: GetDataSize_def kHeaderDefault_def)
  then have "wr_mem (Buffer ?q) (Rear ?q) c = Inl OutOfBounds"
    using q(2,3) assms(3) by (simp add: wr_mem_def packet_wf_def recv_room_def)
  then show ?thesis using q(1) by (simp add: recv_chunk_def kernel_write_def with_session_def)
qed

text \<open>C4. Message framing is independent of how TCP cuts the stream: when the frames of a list of non-empty messages of
  at most 1004 bytes arrive in pieces that fit the room they are received into (4076 bytes when nothing is
  pending, else 4096 less the bytes of the incomplete frame that wait), the receive handler never faults, always ends
  its loop, and hands every message to \<open>OnRecv\<close> exactly once, in order and unchanged, leaving the receive buffer empty.
  This holds for every encoder and application that keep the two contracts, and for messages that the application
  accepts. The excluded cases are real limits of the code: a longer message overruns (\<open>oversized_message_overruns\<close>), and
  so does a piece of 4077 to 4096 bytes on an empty packet (\<open>long_piece_overruns\<close>); an empty message at the end of what
  has arrived is not delivered before more bytes come. Pieces of up to 3072 bytes always fit (\<open>small_pieces_fit\<close>).\<close>

theorem recv_delivers_stream:
  assumes "message_app env h accepts" "frame_encoder E frame max_len" "0 < GetHeaderSize E"
    and "rx_inv E i [] s"
    and "concat chunks = concat (map2 frame rs msgs)" "length rs = length msgs"
    and "in_windows (frame_sizes E msgs) 0 chunks"
    and "\<forall>m \<in> set msgs. fits max_len m \<and> m \<noteq> [] \<and> accepts m"
  shows "\<exists>s'. recv_chunks env tid i chunks s = Some (Inr s') \<and> rx_inv E i [] s' \<and>
     App s' = fold (h (SessionID (SessionArr s ! i))) msgs (App s)"
proof -
  have "message_server env h accepts E frame max_len" using assms(1,2) by (rule message_server.intro)
  from message_server.recv_chunks_ok [OF this assms(3,4) _ _ assms(6,8), of chunks tid] show ?thesis
    using assms(5,7) by (simp add: incomplete_def)
qed

text \<open>A server with one connected session, as \<open>Start\<close> and \<open>GetFreeSession\<close> leave it.\<close>

definition one_session_server :: "iencoder \<Rightarrow> (u64 \<times> byte list) list server" where
  "one_session_server E =
     \<lparr>Shutdown = False, ListenSocket = Some 1, SessionIDCnt = 1,
      SessionArr = [init_session 1 (start_session (\<lambda>_. 0) 0)], TotalSessionCnt = 1, ThreadCnt = 1,
      FreeSessionStack = [], PacketPool = init_pool 4096 64, LogTransmit_Map = [], AcceptTotal = 1,
      AcceptTPS = 1, Encoder = E, Posted = [], Io = [], App = []\<rparr>"

lemma pool_pkts_init: "0 < sz \<Longrightarrow> pool_pkts (init_pool base sz) {}"
  using run_inv_reach [OF pool_run.start] by (auto simp: pool_pkts_def init_pool_def read_data_def)

lemma one_session_rx: "rx_inv E 0 [] (one_session_server E)"
proof -
  have "packet_wf (ClearPacket (Packet_ctor 4096 (\<lambda>_. 0)))"
    by (intro packet_wf_Clear packet_wf_ctor) (simp_all add: kHeaderDefault_def Packet_ctor_def)
  then show ?thesis
    using pool_pkts_init [of 64 4096]
    by (auto simp: rx_inv_def one_session_server_def init_session_def start_session_def blank_session_def)
       (simp_all add: ClearPacket_def Packet_ctor_def)
qed

theorem recv_delivers_stream_witness:
  "\<exists>s'. recv_chunks recording_app 0 0
      [take 2 (xor_frame_rnd (XorPacketEncoder 119 50 4096) 7 [1, 2]),
       drop 2 (xor_frame_rnd (XorPacketEncoder 119 50 4096) 7 [1, 2])]
      (one_session_server (xor_vtable (XorPacketEncoder 119 50 4096))) = Some (Inr s') \<and>
    App s' = [(1, [1, 2])]"
proof -
  let ?e = "XorPacketEncoder 119 50 4096"
  have f: "fits (xor_max_len ?e) [1, 2]" by (simp add: fits_def xor_max_len_def XorPacketEncoder_def max_message_def)
  have l: "length (xor_frame_rnd ?e 7 [1, 2]) = 7" by (simp add: xor_frame_rnd_def sizeof_NetHeader_def)
  have h: "0 < GetHeaderSize (xor_vtable ?e)" by (simp add: xor_vtable_def sizeof_NetHeader_def)
  have w: "in_windows (frame_sizes (xor_vtable ?e) [[1, 2]]) 0 [take 2 (xor_frame_rnd ?e 7 [1, 2]), drop 2 (xor_frame_rnd ?e 7 [1, 2])]"
    by (rule small_pieces_fit) (simp_all add: l frame_sizes_def xor_vtable_def sizeof_NetHeader_def)
  from recv_delivers_stream [OF recording.message_app_axioms xor.frame_encoder_axioms h one_session_rx _ _ w, of "[7]" 0] f l
  show ?thesis by (auto simp: one_session_server_def init_session_def start_session_def blank_session_def)
qed

subsection \<open>Messages that do not fit a packet\<close>

text \<open>C40. The size limits of the two buffers disagree: a message that the encoder accepts but that
  is longer than 1004 bytes (the room of a pooled packet) passes every check, and copying its payload
  writes past the end of the packet. With the default encoder this holds for every payload of 1005
  to 4091 bytes a client chooses to send.\<close>

theorem oversized_message_overruns:
  assumes "message_app env h accepts" "frame_encoder E frame max_len"
    and "Encoder s = E" "pool_pkts (PacketPool s) P" "i < length (SessionArr s)"
    and "packet_wf (RecvQ (SessionArr s ! i))" "packet_data (RecvQ (SessionArr s ! i)) = frame r m @ rest"
    and "length m \<le> max_len" "max_message < length m"
  shows "recv_loop env tid i s = Some (Inl OutOfBounds)"
proof -
  let ?x = "SessionArr s ! i"
  have ne: "m \<noteq> [] \<or> rest \<noteq> []" using assms(9) by auto
  have complete: "CheckPacketMessageComplete env tid (SessionID ?x) i s = Inr (s, True)"
    using frame_encoder.check_frame_complete [OF assms(2,6,7,8) ne] assms(3,5)
    by (simp add: CheckPacketMessageComplete_frame with_session_def)
  from AllocPacket_spec [OF assms(4) message_app.new_packet [OF assms(1)], of tid] obtain pool p pk where
    a: "AllocPacket env tid s = Inr (s\<lparr>PacketPool := pool\<rparr>, p)"
    and pk: "read_data pool p = Some pk" "cleared pk" by blast
  have wf: "packet_wf pk" "packet_room pk < int (length m)"
    using pk(2) assms(9) by (auto simp: cleared_def good_packet_def packet_room_def kBufferDefault_def
        kHeaderDefault_def max_message_def)
  from frame_encoder.take_frame_overflow [OF assms(2,6,7,8) wf] obtain rq1 rq2 where
    "PeekPayloadLength E (GetReadBufferPtr (RecvQ ?x)) = Inr (Some (length m))"
    "Decode E (RecvQ ?x) = Inr (rq1, True)" "GetData rq1 (int (length m)) = Inr (rq2, m)"
    "wr_mem (Buffer pk) (Rear pk) m = Inl OutOfBounds" by blast
  then have "GetPacketMessage p i (s\<lparr>PacketPool := pool\<rparr>) = Inl OutOfBounds"
    using assms(3,5) pk(1) by (simp add: GetPacketMessage_def with_session_def get_packet_def)
  then show ?thesis
    using assms(5) by (subst recv_loop.simps) (simp add: with_session_def complete a)
qed

theorem oversized_message_overruns_witness:
  "\<exists>s :: (u64 \<times> byte list) list server. Encoder s = xor_vtable (XorPacketEncoder 119 50 4096) \<and>
     recv_loop recording_app 0 0 s = Some (Inl OutOfBounds)"
proof -
  let ?e = "XorPacketEncoder 119 50 4096" and ?m = "replicate 1005 (0 :: byte)"
  let ?s0 = "one_session_server (xor_vtable ?e)"
  let ?x = "SessionArr ?s0 ! 0"
  let ?f = "xor_frame_rnd ?e 7 ?m"
  have lf: "length ?f = 1010" by (simp add: xor_frame_rnd_def sizeof_NetHeader_def)
  have rx: "rx_inv (xor_vtable ?e) 0 [] ?s0" by (rule one_session_rx)
  then have wf: "packet_wf (RecvQ ?x)" and room: "int (length ?f) \<le> packet_room (RecvQ ?x)"
    and emp: "packet_data (RecvQ ?x) = []"
    using lf by (auto simp: rx_inv_def packet_room_def packet_data_def window_def one_session_server_def
        init_session_def ClearPacket_def kHeaderDefault_def start_session_def blank_session_def Packet_ctor_def)
  from put_raw_ok [OF wf room] obtain rq where rq: "packet_wf rq" "packet_data rq = ?f" using emp by auto
  let ?s = "set_session 0 (?x\<lparr>RecvQ := rq\<rparr>) ?s0"
  have l: "length ?m \<le> xor_max_len ?e" "max_message < length ?m"
    by (simp_all add: xor_max_len_def XorPacketEncoder_def max_message_def)
  obtain P where P: "pool_pkts (PacketPool ?s) P" and E: "Encoder ?s = xor_vtable ?e"
    and i: "0 < length (SessionArr ?s)" and q: "RecvQ (SessionArr ?s ! 0) = rq"
    using rx by (auto simp: rx_inv_def set_session_def)
  have "packet_data (RecvQ (SessionArr ?s ! 0)) = ?f @ []" "packet_wf (RecvQ (SessionArr ?s ! 0))"
    using rq q by simp_all
  with oversized_message_overruns [OF recording.message_app_axioms xor.frame_encoder_axioms E P i _ _ l] E
  show ?thesis by blast
qed

subsection \<open>Where the next receive may write\<close>

text \<open>The end of the receive handler posts the next \<open>WSARecv\<close> at the write position with the free
  size of the packet. When bytes are left they were moved to the front and the window ends exactly at
  the end of the 4096-byte buffer; when the buffer was emptied, \<open>Clear\<close> put the positions behind the
  20 reserved bytes while the free size still counts them, so the window ends 20 bytes past the
  buffer.\<close>

theorem recv_window:
  assumes "i < length (SessionArr s)" "SessionUseFlag (SessionArr s ! i)"
    and "packet_wf (RecvQ (SessionArr s ! i))" "BufferSize (RecvQ (SessionArr s ! i)) = 4096"
  shows "\<exists>s' off len. recv_end i None s = Inr s' \<and> Io s' = Io s @ [IoRecv i off len] \<and>
     off + len = (if packet_data (RecvQ (SessionArr s ! i)) = [] then 4096 + 20 else 4096)"
proof -
  let ?x = "SessionArr s ! i" and ?rq = "RecvQ (SessionArr s ! i)"
  have len: "int (length (packet_data ?rq)) = GetDataSize ?rq" by (rule length_packet_data [OF assms(3)])
  obtain rq where rq: "(if GetDataSize ?rq \<noteq> 0 then ShiftDataToFront ?rq else Inr (ClearPacket ?rq)) = Inr rq"
    "BufferSize rq = 4096" "Front rq = (if packet_data ?rq = [] then 20 else 0)"
  proof (cases "GetDataSize ?rq = 0")
    case True
    then have "packet_data ?rq = []" using len by simp
    with True assms(4) show thesis by (intro that [of "ClearPacket ?rq"]) (simp_all add: ClearPacket_def kHeaderDefault_def)
  next
    case False
    moreover from ShiftDataToFront_ok [OF assms(3)] obtain q where "ShiftDataToFront ?rq = Inr q"
      "Front q = 0" "BufferSize q = BufferSize ?rq" by blast
    ultimately show thesis using assms(4) len by (intro that [of q]) auto
  qed
  let ?s1 = "set_session i (?x\<lparr>RecvQ := rq\<rparr>) s"
  have x1: "SessionArr ?s1 ! i = ?x\<lparr>RecvQ := rq\<rparr>" using assms(1) by (simp add: set_session_def)
  have "\<exists>s'. RecvPost i None ?s1 = Inr (s', True) \<and> Io s' = Io s @ [IoRecv i (Rear rq) (GetFreeSize rq)]"
    using assms(1,2) by (simp add: RecvPost_def with_session_def x1 cancel_if_unused_def log_io_def Let_def)
      (auto simp: set_session_def add_ref_def)
  moreover have "Rear rq + GetFreeSize rq = 4096 + Front rq"
    using rq(2) by (simp add: GetFreeSize_def GetBufferSize_def GetDataSize_def)
  ultimately show ?thesis using rq assms(1) by (auto simp: recv_end_def with_session_def)
qed

theorem recv_window_witness:
  "\<exists>s' off len. recv_end 0 None (one_session_server (xor_vtable (XorPacketEncoder 119 50 4096))) = Inr s' \<and>
     Io s' = [IoRecv 0 off len] \<and> off + len = 4116"
proof -
  let ?s = "one_session_server (xor_vtable (XorPacketEncoder 119 50 4096))"
  have rx: "rx_inv (xor_vtable (XorPacketEncoder 119 50 4096)) 0 [] ?s" by (rule one_session_rx)
  have "SessionUseFlag (SessionArr ?s ! 0)" "Io ?s = []" by (simp_all add: one_session_server_def init_session_def)
  with recv_window [of 0 ?s] rx show ?thesis by (auto simp: rx_inv_def)
qed

end
