(* ===== verification/ServerSend.thy ===== *)
theory ServerSend
  imports ServerFraming
begin

text \<open>
  The send path of \<open>NetServer\<close>: stale session identifiers, gathering the send queue into one
  \<open>WSASend\<close>, and the ownership of packets, where every packet's reference count is the number of
  its holders: the application, the send queues and the sends in flight.
\<close>

subsection \<open>Identifiers that name no live session\<close>

lemma add_sub_ref [simp]: "sub_ref (add_ref x) = x"
  by (simp add: add_ref_def sub_ref_def)

lemma add_ref_fields [simp]:
  "ReleaseFlag (add_ref x) = ReleaseFlag x" "SessionID (add_ref x) = SessionID x"
  "SendQ (add_ref x) = SendQ x" "SendBuffer (add_ref x) = SendBuffer x"
  "SendPacketCnt (add_ref x) = SendPacketCnt x" "SessionUseFlag (add_ref x) = SessionUseFlag x"
  "SendFlag (add_ref x) = SendFlag x"
  by (simp_all add: add_ref_def)

lemma set_session_nth [simp]: "i < length (SessionArr s) \<Longrightarrow> SessionArr (set_session i x s) ! i = x"
  by (simp add: set_session_def)

lemma set_session_same: "i < length (SessionArr s) \<Longrightarrow> set_session i (SessionArr s ! i) s = s"
  by (simp add: set_session_def)

text \<open>Sending to or killing a session through an identifier that is not the current one of its
  slot, or whose session has been released, changes nothing at all: the reference taken for the
  check is given back and no packet is touched.\<close>

theorem stale_session_id_ignored:
  assumes "FindSession sid < length (SessionArr s)"
    and "ReleaseFlag (SessionArr s ! FindSession sid) \<or> SessionID (SessionArr s ! FindSession sid) \<noteq> sid"
  shows "SendPacket sid rnd p s = Inr s \<and> KillSession env tid sid s = Inr s"
  using assms
  by (auto simp: SendPacket_def KillSession_def IncrementSessionRef_def DecrementSessionRef_def
      with_session_def Let_def set_session_same)

theorem stale_session_id_ignored_witness:
  "SendPacket 5 0 0 (one_session_server (xor_vtable (XorPacketEncoder 119 50 4096))) =
   Inr (one_session_server (xor_vtable (XorPacketEncoder 119 50 4096)))"
  by (rule stale_session_id_ignored [of 5 _ 0 0 recording_app 0, THEN conjunct1])
     (simp_all add: FindSession_def one_session_server_def init_session_def start_session_def blank_session_def)

subsection \<open>References to packets\<close>

text \<open>\<open>R p\<close> is the number of holders of \<open>p\<close>; a packet with none is in the pool.\<close>

definition packet_refs :: "packet pool \<Rightarrow> (addr \<Rightarrow> nat) \<Rightarrow> bool" where
  "packet_refs pl R \<longleftrightarrow> pool_pkts pl {p. 0 < R p} \<and>
     (\<forall>p. R p < 2 ^ 32) \<and> (\<forall>p pk. read_data pl p = Some pk \<longrightarrow> RefCnt pk = of_nat (R p))"

lemma packet_refs_init: "0 < sz \<Longrightarrow> packet_refs (init_pool base sz) (\<lambda>p. 0)"
  using pool_pkts_init [of sz base] by (simp add: packet_refs_def init_pool_def read_data_def)

lemma packet_refs_read:
  assumes "packet_refs pl R" "0 < R p"
  obtains pk where "read_data pl p = Some pk" "good_packet pk" "RefCnt pk = of_nat (R p)"
  using assms pool_pkts_read [of pl "{p. 0 < R p}" p] unfolding packet_refs_def by (metis mem_Collect_eq)

lemma unat_of_nat32: "n < 2 ^ 32 \<Longrightarrow> unat (of_nat n :: u32) = n"
  by (simp add: unat_of_nat take_bit_nat_eq_self)

lemma of_nat_u32_eq: "n < 2 ^ 32 \<Longrightarrow> m < 2 ^ 32 \<Longrightarrow> (of_nat n :: u32) = of_nat m \<longleftrightarrow> n = m"
  by (metis unat_of_nat32)

lemma of_nat_u32_eq_1: "n < 2 ^ 32 \<Longrightarrow> (of_nat n :: u32) = 1 \<longleftrightarrow> n = 1"
  using of_nat_u32_eq [of n 1] by simp

lemma of_nat_u32_eq_0: "n < 2 ^ 32 \<Longrightarrow> (of_nat n :: u32) = 0 \<longleftrightarrow> n = 0"
  using of_nat_u32_eq [of n 0] by simp

lemma write_refs:
  assumes R: "packet_refs pl R" and p: "0 < R p" and pk: "good_packet pk" "RefCnt pk = of_nat n"
    and n: "0 < n" "n < 2 ^ 32"
  shows "packet_refs (write_data p pk pl) (R(p := n))"
proof -
  have pp: "pool_pkts pl {q. 0 < R q}" using R by (simp add: packet_refs_def)
  have nz: "RefCnt pk \<noteq> 0" using pk n of_nat_u32_eq_0 by simp
  have "{q. 0 < (R(p := n)) q} = {q. 0 < R q}" using p n by auto
  moreover have "pool_pkts (write_data p pk pl) {q. 0 < R q}"
    using pool_pkts_write [OF pp _ pk(1) nz] p by simp
  moreover have "sizeof_PadType \<le> p" using run_inv_addr [of pl "{q. 0 < R q}" p] pp p by (simp add: pool_pkts_def)
  ultimately show ?thesis
    using R pk(2) n by (auto simp: packet_refs_def read_write_data split: if_splits)
qed

lemma FreePacket_refs:
  assumes R: "packet_refs (PacketPool s) R" and p: "0 < R p"
  shows "\<exists>pl. FreePacket tid p s = Inr (s\<lparr>PacketPool := pl\<rparr>) \<and> packet_refs pl (R(p := R p - 1))"
proof -
  from packet_refs_read [OF R p] obtain pk where pk: "read_data (PacketPool s) p = Some pk"
    "RefCnt pk = of_nat (R p)" .
  have b: "R p < 2 ^ 32" and pp: "pool_pkts (PacketPool s) {q. 0 < R q}" using R by (auto simp: packet_refs_def)
  from FreePacket_spec [OF pp _ pk(1), of tid] p obtain pl where
    f: "FreePacket tid p s = Inr (s\<lparr>PacketPool := pl\<rparr>)"
      "pool_pkts pl (if RefCnt pk = 1 then {q. 0 < R q} - {p} else {q. 0 < R q})"
      "\<forall>q. read_data pl q = (if q = p then Some (pk\<lparr>RefCnt := RefCnt pk - 1\<rparr>) else read_data (PacketPool s) q)"
    by auto
  have "{q. 0 < (R(p := R p - 1)) q} = (if RefCnt pk = 1 then {q. 0 < R q} - {p} else {q. 0 < R q})"
    using pk(2) p of_nat_u32_eq_1 [OF b] by auto
  moreover have "RefCnt pk - 1 = of_nat (R p - 1)" using pk(2) p by (simp add: of_nat_diff)
  ultimately have "packet_refs pl (R(p := R p - 1))"
    using R f(2,3) b unfolding packet_refs_def by (auto split: if_splits simp: less_imp_diff_less)
  with f(1) show ?thesis by blast
qed

lemma FreePackets_refs:
  assumes "packet_refs (PacketPool s) R" "\<forall>p. count_list ps p \<le> R p"
  shows "\<exists>pl. FreePackets tid ps s = Inr (s\<lparr>PacketPool := pl\<rparr>) \<and> packet_refs pl (\<lambda>p. R p - count_list ps p)"
  using assms
proof (induction ps arbitrary: s R)
  case Nil
  then show ?case by (intro exI [of _ "PacketPool s"]) simp
next
  case (Cons p ps)
  have "0 < R p" using Cons.prems(2) [rule_format, of p] by simp
  define R' where "R' = R(p := R p - 1)"
  from FreePacket_refs [OF Cons.prems(1) \<open>0 < R p\<close>, of tid] obtain pl where
    f: "FreePacket tid p s = Inr (s\<lparr>PacketPool := pl\<rparr>)" "packet_refs pl R'" unfolding R'_def by blast
  have le: "\<forall>q. count_list ps q \<le> R' q"
    using Cons.prems(2) by (auto simp: R'_def split: if_splits)
  have "packet_refs (PacketPool (s\<lparr>PacketPool := pl\<rparr>)) R'" using f(2) by simp
  from Cons.IH [OF this le] obtain pl' where
    g: "FreePackets tid ps (s\<lparr>PacketPool := pl\<rparr>) = Inr (s\<lparr>PacketPool := pl'\<rparr>)"
      "packet_refs pl' (\<lambda>q. R' q - count_list ps q)" by auto
  have "(\<lambda>q. R' q - count_list ps q) = (\<lambda>q. R q - count_list (p # ps) q)"
    by (auto simp: fun_eq_iff R'_def)
  with f g show ?case by (intro exI [of _ pl']) simp
qed

lemma AllocPacket_refs:
  assumes R: "packet_refs (PacketPool s) R" and new: "fresh_packet (NewPacket env)"
  shows "\<exists>pl p pk. AllocPacket env tid s = Inr (s\<lparr>PacketPool := pl\<rparr>, p) \<and> R p = 0 \<and>
     packet_refs pl (R(p := 1)) \<and> read_data pl p = Some pk \<and> cleared pk \<and>
     (\<forall>q. 0 < R q \<longrightarrow> read_data pl q = read_data (PacketPool s) q)"
proof -
  have pp: "pool_pkts (PacketPool s) {q. 0 < R q}" using R by (simp add: packet_refs_def)
  from AllocPacket_spec [OF pp new, of tid] obtain pl p pk where
    a: "AllocPacket env tid s = Inr (s\<lparr>PacketPool := pl\<rparr>, p)" "R p = 0"
      "pool_pkts pl (insert p {q. 0 < R q})" "read_data pl p = Some pk" "cleared pk"
      "\<forall>q \<in> {q. 0 < R q}. read_data pl q = read_data (PacketPool s) q" by auto
  have "{q. 0 < (R(p := 1)) q} = insert p {q. 0 < R q}" by auto
  moreover have "RefCnt k = of_nat ((R(p := 1)) q)" if "read_data pl q = Some k" for q k
  proof (cases "q = p \<or> R q = 0")
    case True
    then show ?thesis using that a(3-5) by (auto simp: cleared_def pool_pkts_def)
  next
    case False
    then have "read_data (PacketPool s) q = Some k" using that a(6) by simp
    then show ?thesis using R False by (simp add: packet_refs_def)
  qed
  ultimately have "packet_refs pl (R(p := 1))"
    using a(3) R unfolding packet_refs_def by simp
  with a show ?thesis by blast
qed

subsection \<open>Who holds packets\<close>

definition held_by :: "session \<Rightarrow> addr list" where
  "held_by x = SendQ x @ take (unat (SendPacketCnt x)) (SendBuffer x)"

definition session_refs :: "'u server \<Rightarrow> addr \<Rightarrow> nat" where
  "session_refs s p = (\<Sum>x \<leftarrow> SessionArr s. count_list (held_by x) p)"

definition session_ok :: "session \<Rightarrow> bool" where
  "session_ok x \<longleftrightarrow> length (SendBuffer x) = kSendBuffer \<and> unat (SendPacketCnt x) \<le> kSendBuffer \<and>
     (SendFlag x \<noteq> 1 \<longrightarrow> SendPacketCnt x = 0)"

definition free_stack_ok :: "'u server \<Rightarrow> bool" where
  "free_stack_ok s \<longleftrightarrow> distinct (FreeSessionStack s) \<and>
     (\<forall>i \<in> set (FreeSessionStack s). i < length (SessionArr s) \<and> ReleaseFlag (SessionArr s ! i) \<and>
        held_by (SessionArr s ! i) = [])"

text \<open>\<open>U p\<close> is the number of references the application holds.\<close>

definition refs_inv :: "'u server \<Rightarrow> (addr \<Rightarrow> nat) \<Rightarrow> bool" where
  "refs_inv s U \<longleftrightarrow> packet_refs (PacketPool s) (\<lambda>p. U p + session_refs s p) \<and>
     (\<forall>x \<in> set (SessionArr s). session_ok x) \<and> free_stack_ok s"

lemma session_refs_set:
  assumes "i < length (SessionArr s)"
  shows "session_refs (set_session i x s) p + count_list (held_by (SessionArr s ! i)) p =
     session_refs s p + count_list (held_by x) p"
proof -
  let ?f = "\<lambda>x. count_list (held_by x) p"
  have "sum_list ((map ?f (SessionArr s))[i := ?f x]) = sum_list (map ?f (SessionArr s)) + ?f x - map ?f (SessionArr s) ! i"
    using assms by (intro sum_list_update) simp
  moreover have "?f (SessionArr s ! i) \<le> sum_list (map ?f (SessionArr s))"
    using assms by (intro member_le_sum_list) auto
  ultimately show ?thesis using assms by (simp add: session_refs_def set_session_def map_update)
qed

lemma session_refs_ge: "x \<in> set (SessionArr s) \<Longrightarrow> count_list (held_by x) p \<le> session_refs s p"
  unfolding session_refs_def by (intro member_le_sum_list) auto

lemma refs_inv_nth: "refs_inv s U \<Longrightarrow> i < length (SessionArr s) \<Longrightarrow> session_ok (SessionArr s ! i)"
  by (simp add: refs_inv_def)

text \<open>Replacing a session, together with the pool, keeps the invariant when the counts agree.\<close>

lemma refs_inv_set:
  assumes inv: "refs_inv s U" and i: "i < length (SessionArr s)" and x: "session_ok x"
    and fr: "i \<in> set (FreeSessionStack s) \<Longrightarrow> ReleaseFlag x \<and> held_by x = []"
    and R: "packet_refs pl (\<lambda>p. U' p + session_refs (set_session i x s) p)"
    and s': "SessionArr s' = (SessionArr s)[i := x]" "PacketPool s' = pl" "FreeSessionStack s' = FreeSessionStack s"
  shows "refs_inv s' U'"
proof -
  have "\<forall>y \<in> set (SessionArr s'). session_ok y"
    using inv x s'(1) by (auto simp: refs_inv_def dest!: subsetD [OF set_update_subset_insert])
  moreover have "free_stack_ok s'"
    using inv fr s'(1,3) by (auto simp: refs_inv_def free_stack_ok_def nth_list_update [OF i])
  moreover have "session_refs s' = session_refs (set_session i x s)"
    using s'(1) by (simp add: session_refs_def set_session_def fun_eq_iff)
  ultimately show ?thesis using R s'(2) by (simp add: refs_inv_def)
qed

text \<open>A change of a session that moves no packet.\<close>

lemma refs_inv_quiet:
  assumes inv: "refs_inv s U" and i: "i < length (SessionArr s)" and x: "session_ok x"
    and same: "\<And>p. count_list (held_by x) p = count_list (held_by (SessionArr s ! i)) p"
    and fr: "i \<in> set (FreeSessionStack s) \<Longrightarrow> ReleaseFlag x"
    and s': "SessionArr s' = (SessionArr s)[i := x]" "PacketPool s' = PacketPool s" "FreeSessionStack s' = FreeSessionStack s"
  shows "refs_inv s' U"
proof (rule refs_inv_set [OF inv i x _ _ s'])
  have "session_refs (set_session i x s) p = session_refs s p" for p
    using session_refs_set [OF i, of x p] same [of p] by simp
  then show "packet_refs (PacketPool s) (\<lambda>p. U p + session_refs (set_session i x s) p)"
    using inv by (simp add: refs_inv_def)
  assume f: "i \<in> set (FreeSessionStack s)"
  then have "held_by (SessionArr s ! i) = []" using inv by (simp add: refs_inv_def free_stack_ok_def)
  then have "count_list (held_by x) p = 0" for p using same by simp
  then have "held_by x = []" by (metis count_list_0_iff list.set_intros(1) neq_Nil_conv)
  then show "ReleaseFlag x \<and> held_by x = []" using fr [OF f] by simp
qed

lemma refs_inv_same:
  "refs_inv s U \<Longrightarrow> SessionArr s' = SessionArr s \<Longrightarrow> PacketPool s' = PacketPool s \<Longrightarrow>
   FreeSessionStack s' = FreeSessionStack s \<Longrightarrow> refs_inv s' U"
  by (simp add: refs_inv_def session_refs_def free_stack_ok_def)

lemma session_ok_ref [simp]:
  "session_ok (add_ref x) = session_ok x" "session_ok (sub_ref x) = session_ok x"
  "held_by (add_ref x) = held_by x" "held_by (sub_ref x) = held_by x" "ReleaseFlag (sub_ref x) = ReleaseFlag x"
  by (simp_all add: session_ok_def add_ref_def sub_ref_def held_by_def)

lemma refs_inv_IncrementSessionRef [wf_intros]:
  "refs_inv s U \<Longrightarrow> IncrementSessionRef i s = Inr s' \<Longrightarrow> refs_inv s' U"
  using refs_inv_quiet [of s U i "add_ref (SessionArr s ! i)" s']
  by (auto simp: IncrementSessionRef_def with_session_def set_session_def refs_inv_nth refs_inv_def free_stack_ok_def
      split: if_splits)

lemma refs_inv_DecrementSessionRef [wf_intros]:
  "refs_inv s U \<Longrightarrow> DecrementSessionRef i s = Inr (s', r) \<Longrightarrow> refs_inv s' U"
  using refs_inv_quiet [of s U i "sub_ref (SessionArr s ! i)" s']
  by (auto simp: DecrementSessionRef_def with_session_def set_session_def refs_inv_nth refs_inv_def free_stack_ok_def
      split: if_splits)

subsection \<open>Every operation keeps the invariant\<close>

lemma refs_inv_Alloc:
  assumes inv: "refs_inv s U" and new: "fresh_packet (NewPacket env)"
  shows "\<exists>s' p. AllocPacket env tid s = Inr (s', p) \<and> U p = 0 \<and> session_refs s p = 0 \<and>
     refs_inv s' (U(p := 1)) \<and> (\<exists>pk. get_packet p s' = Inr pk \<and> cleared pk) \<and>
     SessionArr s' = SessionArr s"
proof -
  define R where "R = (\<lambda>p. U p + session_refs s p)"
  have "packet_refs (PacketPool s) R" using inv by (simp add: refs_inv_def R_def)
  from AllocPacket_refs [OF this new, of tid] obtain pl p pk where
    a: "AllocPacket env tid s = Inr (s\<lparr>PacketPool := pl\<rparr>, p)" "R p = 0" "packet_refs pl (R(p := 1))"
      "read_data pl p = Some pk" "cleared pk" by blast
  have "(\<lambda>q. (U(p := 1)) q + session_refs s q) = R(p := 1)" using a(2) by (auto simp: fun_eq_iff R_def)
  then have "refs_inv (s\<lparr>PacketPool := pl\<rparr>) (U(p := 1))"
    using inv a(3) by (simp add: refs_inv_def session_refs_def free_stack_ok_def)
  with a show ?thesis
    by (intro exI [of _ "s\<lparr>PacketPool := pl\<rparr>"] exI [of _ p]) (auto simp: get_packet_def R_def)
qed

text \<open>Giving up a reference the application holds.\<close>

lemma refs_inv_Free:
  assumes inv: "refs_inv s U" and p: "0 < U p"
  shows "\<exists>s'. FreePacket tid p s = Inr s' \<and> refs_inv s' (U(p := U p - 1)) \<and> SessionArr s' = SessionArr s"
proof -
  define R where "R = (\<lambda>p. U p + session_refs s p)"
  have "packet_refs (PacketPool s) R" "0 < R p" using inv p by (auto simp: refs_inv_def R_def)
  from FreePacket_refs [OF this, of tid] obtain pl where
    a: "FreePacket tid p s = Inr (s\<lparr>PacketPool := pl\<rparr>)" "packet_refs pl (R(p := R p - 1))" by blast
  have "(\<lambda>q. (U(p := U p - 1)) q + session_refs s q) = R(p := R p - 1)" using p by (auto simp: fun_eq_iff R_def)
  then have "refs_inv (s\<lparr>PacketPool := pl\<rparr>) (U(p := U p - 1))"
    using inv a(2) by (simp add: refs_inv_def session_refs_def free_stack_ok_def)
  with a(1) show ?thesis by (intro exI [of _ "s\<lparr>PacketPool := pl\<rparr>"]) simp
qed

text \<open>Several references of the holders at once.\<close>

lemma FreePackets_inv:
  assumes "packet_refs (PacketPool s) (\<lambda>p. U p + session_refs s p)"
    and i: "i < length (SessionArr s)"
    and x: "\<And>p. count_list (held_by (SessionArr s ! i)) p = count_list (held_by x) p + count_list ps p"
  shows "\<exists>pl. FreePackets tid ps s = Inr (s\<lparr>PacketPool := pl\<rparr>) \<and>
     packet_refs pl (\<lambda>p. U p + session_refs (set_session i x s) p)"
proof -
  have le: "\<forall>p. count_list ps p \<le> U p + session_refs s p"
    using session_refs_ge [of "SessionArr s ! i" s] i x by (metis add_leD2 nth_mem trans_le_add2)
  from FreePackets_refs [OF assms(1) le, of tid] obtain pl where
    f: "FreePackets tid ps s = Inr (s\<lparr>PacketPool := pl\<rparr>)"
      "packet_refs pl (\<lambda>p. U p + session_refs s p - count_list ps p)" by blast
  have "U p + session_refs s p - count_list ps p = U p + session_refs (set_session i x s) p" for p
    using session_refs_set [OF i, of x p] x [of p] by simp
  with f show ?thesis by auto
qed

text \<open>The end of a send: the packets in flight are given up, the flag is reset.\<close>

lemma held_by_split:
  "session_ok x \<Longrightarrow> sent_packets x (unat (SendPacketCnt x)) = Inr (take (unat (SendPacketCnt x)) (SendBuffer x))"
  by (simp add: sent_packets_def session_ok_def)

lemma refs_inv_send_done:
  assumes inv: "refs_inv s U" and i: "i < length (SessionArr s)"
  shows "\<exists>s'. FreePackets tid (take (unat (SendPacketCnt (SessionArr s ! i))) (SendBuffer (SessionArr s ! i))) s = Inr s' \<and>
     SessionArr s' = SessionArr s \<and>
     refs_inv (set_session i ((SessionArr s ! i)\<lparr>SendPacketCnt := 0, SendFlag := 0\<rparr>) s') U \<and>
     refs_inv (set_session i ((SessionArr s ! i)\<lparr>SendPacketCnt := 0\<rparr>) s') U"
proof -
  let ?x = "SessionArr s ! i"
  let ?y = "?x\<lparr>SendPacketCnt := 0, SendFlag := 0\<rparr>" and ?z = "?x\<lparr>SendPacketCnt := 0\<rparr>"
  have R: "packet_refs (PacketPool s) (\<lambda>p. U p + session_refs s p)" using inv by (simp add: refs_inv_def)
  from FreePackets_inv [OF R i, of ?y _ tid] obtain pl where
    f: "FreePackets tid (take (unat (SendPacketCnt ?x)) (SendBuffer ?x)) s = Inr (s\<lparr>PacketPool := pl\<rparr>)"
      "packet_refs pl (\<lambda>p. U p + session_refs (set_session i ?y s) p)" by (auto simp: held_by_def)
  have z: "session_refs (set_session i ?z s) = session_refs (set_session i ?y s)"
    using i by (simp add: session_refs_def set_session_def held_by_def map_update fun_eq_iff)
  have fr: "i \<in> set (FreeSessionStack s) \<Longrightarrow> ReleaseFlag ?x \<and> SendQ ?x = []"
    using inv by (auto simp: refs_inv_def free_stack_ok_def held_by_def)
  have ok: "session_ok ?y" "session_ok ?z" using refs_inv_nth [OF inv i] by (auto simp: session_ok_def)
  have "refs_inv (set_session i ?y (s\<lparr>PacketPool := pl\<rparr>)) U"
    by (rule refs_inv_set [OF inv i ok(1) _ f(2)]) (use fr in \<open>auto simp: set_session_def held_by_def\<close>)
  moreover have "refs_inv (set_session i ?z (s\<lparr>PacketPool := pl\<rparr>)) U"
    by (rule refs_inv_set [OF inv i ok(2) _ f(2) [folded z]]) (use fr in \<open>auto simp: set_session_def held_by_def\<close>)
  ultimately show ?thesis using f(1) by (intro exI [of _ "s\<lparr>PacketPool := pl\<rparr>"]) simp
qed

text \<open>\<open>SendPacket\<close>: the queue takes a reference of its own to the encoded packet.\<close>

definition sendable :: "nat \<Rightarrow> packet \<Rightarrow> bool" where
  "sendable max_len pk \<longleftrightarrow>
     EncodeFlag pk \<or> (kHeaderDefault \<le> Front pk \<and> length (packet_data pk) \<le> max_len)"

definition wire_data :: "(int \<Rightarrow> byte list \<Rightarrow> byte list) \<Rightarrow> int \<Rightarrow> packet \<Rightarrow> byte list" where
  "wire_data frame rnd pk = (if EncodeFlag pk then packet_data pk else frame rnd (packet_data pk))"

definition live_id :: "'u server \<Rightarrow> u64 \<Rightarrow> bool" where
  "live_id s sid \<longleftrightarrow> FindSession sid < length (SessionArr s) \<and>
     \<not> ReleaseFlag (SessionArr s ! FindSession sid) \<and> SessionID (SessionArr s ! FindSession sid) = sid"

lemma encode_for_send:
  assumes enc: "frame_encoder E frame max_len" and g: "good_packet pk" and snd: "sendable max_len pk"
  shows "\<exists>q. Encode E rnd (fst (IncrementRef pk)) = Inr q \<and> good_packet q \<and> RefCnt q = RefCnt pk + 1 \<and>
     EncodeFlag q \<and> packet_data q = wire_data frame rnd pk"
proof (cases "EncodeFlag pk")
  case True
  then have "Encode E rnd (fst (IncrementRef pk)) = Inr (pk\<lparr>RefCnt := RefCnt pk + 1\<rparr>)"
    using frame_encoder.encode_again [OF enc, of "fst (IncrementRef pk)" rnd] by (simp add: IncrementRef_def)
  with True g show ?thesis by (simp add: wire_data_def packet_data_def)
next
  case False
  let ?p = "pk\<lparr>RefCnt := RefCnt pk + 1\<rparr>"
  have "packet_wf ?p" "\<not> EncodeFlag ?p" "\<not> SRWEncode ?p" "kHeaderDefault \<le> Front ?p"
    "length (packet_data ?p) \<le> max_len"
    using g snd False by (auto simp: good_packet_def packet_wf_def sendable_def packet_data_def)
  from frame_encoder.encode_frame [OF enc this, of rnd] g False show ?thesis
    by (auto simp: IncrementRef_def good_packet_def wire_data_def packet_data_def)
qed

lemma refs_inv_SendPacket:
  assumes inv: "refs_inv s U" and live: "live_id s sid" and p: "0 < U p"
    and bound: "U p + session_refs s p + 1 < 2 ^ 32"
    and enc: "frame_encoder (Encoder s) frame max_len" and pk: "get_packet p s = Inr pk" "sendable max_len pk"
  shows "\<exists>s' q. SendPacket sid rnd p s = Inr s' \<and> refs_inv s' U \<and> get_packet p s' = Inr q \<and>
     packet_data q = wire_data frame rnd pk \<and> EncodeFlag q \<and> good_packet q \<and>
     SessionArr s' = (SessionArr s)[FindSession sid :=
       (add_ref (SessionArr s ! FindSession sid))\<lparr>SendQ := SendQ (SessionArr s ! FindSession sid) @ [p]\<rparr>] \<and>
     Posted s' = Posted s @ [PostSend (FindSession sid)] \<and> Encoder s' = Encoder s \<and>
     FreeSessionStack s' = FreeSessionStack s \<and>
     (\<forall>r. r \<noteq> p \<longrightarrow> get_packet r s' = get_packet r s)"
proof -
  let ?i = "FindSession sid"
  let ?x = "SessionArr s ! ?i"
  define R where "R = (\<lambda>p. U p + session_refs s p)"
  have R: "packet_refs (PacketPool s) R" using inv by (simp add: refs_inv_def R_def)
  have i: "?i < length (SessionArr s)" and l: "\<not> ReleaseFlag ?x" "SessionID ?x = sid"
    using live by (auto simp: live_id_def)
  have rd: "read_data (PacketPool s) p = Some pk" using pk by (auto simp: get_packet_def split: option.splits)
  have p0: "0 < R p" using p by (simp add: R_def)
  have g: "good_packet pk" "RefCnt pk = of_nat (R p)"
    using packet_refs_read [OF R p0] rd by auto
  from encode_for_send [OF enc g(1) pk(2), of rnd] obtain q where
    q: "Encode (Encoder s) rnd (fst (IncrementRef pk)) = Inr q" "good_packet q" "RefCnt q = RefCnt pk + 1"
      "EncodeFlag q" "packet_data q = wire_data frame rnd pk" by blast
  let ?y = "(add_ref ?x)\<lparr>SendQ := SendQ ?x @ [p]\<rparr>"
  let ?pl = "write_data p q (PacketPool s)"
  have "RefCnt q = of_nat (R p + 1)" using q(3) g(2) by simp
  from write_refs [OF R p0 q(2) this] bound have W: "packet_refs ?pl (R(p := R p + 1))" by (simp add: R_def)
  have cy: "count_list (held_by ?y) r = count_list (held_by ?x) r + (if r = p then 1 else 0)" for r
    by (simp add: held_by_def add_ref_def)
  have "(\<lambda>r. U r + session_refs (set_session ?i ?y s) r) = R(p := R p + 1)"
  proof
    fix r
    show "U r + session_refs (set_session ?i ?y s) r = (R(p := R p + 1)) r"
      using session_refs_set [OF i, of ?y r] cy [of r] by (simp add: R_def)
  qed
  with W have W': "packet_refs ?pl (\<lambda>r. U r + session_refs (set_session ?i ?y s) r)" by simp
  let ?s' = "(set_session ?i ?y (set_packet p q (set_session ?i (add_ref ?x) s)))\<lparr>Posted := Posted s @ [PostSend ?i]\<rparr>"
  have "?i \<notin> set (FreeSessionStack s)" using inv l(1) by (auto simp: refs_inv_def free_stack_ok_def)
  moreover have "session_ok ?y" using refs_inv_nth [OF inv i] by (simp add: session_ok_def add_ref_def)
  ultimately have "refs_inv ?s' U"
    using refs_inv_set [OF inv i _ _ W', of ?s'] by (simp add: set_session_def set_packet_def)
  moreover have "SendPacket sid rnd p s = Inr ?s'"
    using i l q(1) rd by (simp add: SendPacket_def IncrementSessionRef_def with_session_def get_packet_def
        set_session_def set_packet_def Let_def)
  moreover have "sizeof_PadType \<le> p"
    using R p0 run_inv_addr by (auto simp: packet_refs_def pool_pkts_def)
  ultimately show ?thesis
    using q rd by (intro exI [of _ ?s'] exI [of _ q])
      (auto simp: get_packet_def read_write_data set_session_def set_packet_def)
qed

subsection \<open>Gathering the queue\<close>

definition packet_bytes :: "'u server \<Rightarrow> addr \<Rightarrow> byte list" where
  "packet_bytes s p = (case get_packet p s of Inl e \<Rightarrow> [] | Inr pk \<Rightarrow> packet_data pk)"

lemma rd_packet_data: "packet_wf pk \<Longrightarrow> rd_mem (Buffer pk) (Front pk) (GetDataSize pk) = Inr (packet_data pk)"
  by (auto simp: rd_mem_def packet_defs window_def GetDataSize_def)

text \<open>The loop moves the queue into the send buffer and collects the bytes, in order.\<close>

lemma send_gather_ok:
  assumes "i < length (SessionArr s)" "SendQ (SessionArr s ! i) = q"
    "length (SendBuffer (SessionArr s ! i)) = kSendBuffer" "k + length q \<le> kSendBuffer"
    "\<forall>p \<in> set q. \<exists>pk. get_packet p s = Inr pk \<and> packet_wf pk"
  shows "send_gather i (length q) k bufs s =
     Inr (set_session i ((SessionArr s ! i)\<lparr>SendQ := [],
            SendBuffer := take k (SendBuffer (SessionArr s ! i)) @ q @
              drop (k + length q) (SendBuffer (SessionArr s ! i))\<rparr>) s,
          bufs @ map (packet_bytes s) q)"
  using assms
proof (induction q arbitrary: k bufs s)
  case Nil
  have "(SessionArr s ! i)\<lparr>SendQ := [], SendBuffer := SendBuffer (SessionArr s ! i)\<rparr> = SessionArr s ! i"
    using Nil.prems(2) by (cases "SessionArr s ! i") simp
  then show ?case using set_session_same [OF Nil.prems(1)] by (simp del: session.update_defs)
next
  case (Cons p q)
  let ?x = "SessionArr s ! i"
  let ?x1 = "?x\<lparr>SendQ := q, SendBuffer := (SendBuffer ?x)[k := p]\<rparr>"
  let ?s1 = "set_session i ?x1 s"
  have k: "k < length (SendBuffer ?x)" using Cons.prems by simp
  obtain pk where pk: "get_packet p s = Inr pk" "packet_wf pk" using Cons.prems(5) by auto
  have gp: "get_packet r ?s1 = get_packet r s" for r by (simp add: get_packet_def)
  then have pb: "packet_bytes ?s1 = packet_bytes s" by (simp add: packet_bytes_def fun_eq_iff)
  have "send_gather i (Suc (length q)) k bufs s = send_gather i (length q) (Suc k) (bufs @ [packet_data pk]) ?s1"
    using Cons.prems(1-4) pk by (simp add: with_session_def rd_packet_data)
  also have "\<dots> = Inr (set_session i (?x1\<lparr>SendQ := [],
            SendBuffer := take (Suc k) (SendBuffer ?x1) @ q @ drop (Suc k + length q) (SendBuffer ?x1)\<rparr>) ?s1,
          bufs @ [packet_data pk] @ map (packet_bytes s) q)"
    using Cons.IH [of ?s1 "Suc k" "bufs @ [packet_data pk]"] Cons.prems gp pb by simp
  also have "take (Suc k) (SendBuffer ?x1) = take k (SendBuffer ?x) @ [p]"
    using k by (simp add: take_Suc_conv_app_nth)
  also have "drop (Suc k + length q) (SendBuffer ?x1) = drop (k + length (p # q)) (SendBuffer ?x)" by simp
  finally show ?case using pk by (simp add: packet_bytes_def)
qed

lemma send_gather_overrun:
  assumes "i < length (SessionArr s)" "SendQ (SessionArr s ! i) = q"
    "k \<le> kSendBuffer" "kSendBuffer < k + length q"
    "\<forall>p \<in> set q. \<exists>pk. get_packet p s = Inr pk \<and> packet_wf pk"
  shows "send_gather i (length q) k bufs s = Inl OutOfBounds"
  using assms
proof (induction q arbitrary: k bufs s)
  case Nil
  then show ?case by simp
next
  case (Cons p q)
  let ?x = "SessionArr s ! i"
  let ?s1 = "set_session i (?x\<lparr>SendQ := q, SendBuffer := (SendBuffer ?x)[k := p]\<rparr>) s"
  obtain pk where pk: "get_packet p s = Inr pk" "packet_wf pk" using Cons.prems(5) by auto
  have gp: "get_packet r ?s1 = get_packet r s" for r by (simp add: get_packet_def)
  show ?case
  proof (cases "k < kSendBuffer")
    case True
    then have "send_gather i (length q) (Suc k) (bufs @ [packet_data pk]) ?s1 = Inl OutOfBounds"
      using Cons.prems gp by (intro Cons.IH) auto
    with True Cons.prems(1,2) pk show ?thesis by (simp add: with_session_def rd_packet_data)
  next
    case False
    then show ?thesis using Cons.prems(1,2) pk by (simp add: with_session_def rd_packet_data)
  qed
qed

lemma SendPost_all:
  assumes "i < length (SessionArr s)" "x = SessionArr s ! i" "session_ok x"
    and "SessionUseFlag x" "SendFlag x \<noteq> 1" "SendQ x \<noteq> []"
    and "\<forall>p \<in> set (SendQ x). \<exists>pk. get_packet p s = Inr pk \<and> packet_wf pk"
  shows "(if length (SendQ x) \<le> 1000 then
       \<exists>s'. SendPost i None s = Inr (s', True) \<and> Io s' = Io s @ [IoSend i (map (packet_bytes s) (SendQ x))] \<and>
         SessionArr s' = (SessionArr s)[i := x\<lparr>SendFlag := 1, SendQ := [],
            SendBuffer := SendQ x @ drop (length (SendQ x)) (SendBuffer x), SendPacketCnt := of_nat (length (SendQ x))\<rparr>]
     else SendPost i None s = Inl OutOfBounds)"
proof -
  let ?s1 = "set_session i (x\<lparr>SendFlag := 1\<rparr>) s"
  have i1: "i < length (SessionArr ?s1)" using assms(1) by simp
  have x1: "SessionArr ?s1 ! i = x\<lparr>SendFlag := 1\<rparr>" using assms(1) by simp
  have gp: "\<forall>p \<in> set (SendQ x). \<exists>pk. get_packet p ?s1 = Inr pk \<and> packet_wf pk"
    and pb: "packet_bytes ?s1 = packet_bytes s"
    using assms(7) by (auto simp: get_packet_def packet_bytes_def fun_eq_iff)
  show ?thesis
  proof (cases "length (SendQ x) \<le> 1000")
    case True
    have "send_gather i (length (SendQ x)) 0 [] ?s1 =
        Inr (set_session i (x\<lparr>SendFlag := 1, SendQ := [], SendBuffer := SendQ x @ drop (length (SendQ x)) (SendBuffer x)\<rparr>) s,
          map (packet_bytes s) (SendQ x))"
      using send_gather_ok [OF i1, of "SendQ x" 0 "[]"] x1 assms(3) True gp pb
      by (simp add: kSendBuffer_def session_ok_def)
    then show ?thesis using True assms(1,2,4-6)
      by (simp add: SendPost_def with_session_def Let_def cancel_if_unused_def log_io_def) (simp add: set_session_def)
  next
    case False
    have "send_gather i (length (SendQ x)) 0 [] ?s1 = Inl OutOfBounds"
      using send_gather_overrun [OF i1, of "SendQ x" 0 "[]"] x1 False gp by (simp add: kSendBuffer_def)
    then show ?thesis using False assms(1,2,4-6)
      by (simp add: SendPost_def with_session_def Let_def)
  qed
qed

text \<open>\<open>SendPost\<close> gathers exactly the queue: with at most 1000 packets queued on a session that is in
  use and not sending, one \<open>WSASend\<close> is issued whose buffers are the contents of the queued packets in
  their order, the packets move to the send buffer, the queue is empty and the send flag is set; with
  more than 1000 it writes past the two arrays of 1000 entries.\<close>

theorem SendPost_gathers:
  assumes "i < length (SessionArr s)" "x = SessionArr s ! i" "session_ok x"
    and "SessionUseFlag x" "SendFlag x \<noteq> 1" "SendQ x \<noteq> []"
    and "\<forall>p \<in> set (SendQ x). \<exists>pk. get_packet p s = Inr pk \<and> packet_wf pk"
  shows "(if length (SendQ x) \<le> 1000 then
       \<exists>s'. SendPost i None s = Inr (s', True) \<and> Io s' = Io s @ [IoSend i (map (packet_bytes s) (SendQ x))] \<and>
         SessionArr s' = (SessionArr s)[i := x\<lparr>SendFlag := 1, SendQ := [],
            SendBuffer := SendQ x @ drop (length (SendQ x)) (SendBuffer x), SendPacketCnt := of_nat (length (SendQ x))\<rparr>]
     else SendPost i None s = Inl OutOfBounds)"
  using assms by (rule SendPost_all)

lemma packet_bytes_get: "get_packet p s = Inr pk \<Longrightarrow> packet_bytes s p = packet_data pk"
  by (simp add: packet_bytes_def)

theorem SendPost_gathers_witness:
  "\<exists>(s :: (u64 \<times> byte list) list server) p s'.
     SendPost 0 None s = Inr (s', True) \<and> Io s' = Io s @ [IoSend 0 [packet_bytes s p]]"
proof -
  let ?s = "one_session_server (xor_vtable (XorPacketEncoder 119 50 4096))"
  from AllocPacket_spec [OF _ recording.new_packet, of ?s "{}" 0] pool_pkts_init [of 64 4096]
  obtain pl p pk where a: "read_data pl p = Some pk" "cleared pk" by (auto simp: one_session_server_def)
  let ?x = "(SessionArr ?s ! 0)\<lparr>SendQ := [p]\<rparr>"
  let ?t = "(set_session 0 ?x ?s)\<lparr>PacketPool := pl\<rparr>"
  have t: "0 < length (SessionArr ?t)" "?x = SessionArr ?t ! 0" "session_ok ?x"
    "SessionUseFlag ?x" "SendFlag ?x \<noteq> 1" "SendQ ?x \<noteq> []" "length (SendQ ?x) \<le> 1000"
    by (simp_all add: one_session_server_def init_session_def start_session_def blank_session_def session_ok_def
        kSendBuffer_def set_session_def)
  have g: "\<forall>q \<in> set (SendQ ?x). \<exists>pk. get_packet q ?t = Inr pk \<and> packet_wf pk"
    using a by (simp add: get_packet_def cleared_def good_packet_def)
  have "\<exists>s'. SendPost 0 None ?t = Inr (s', True) \<and> Io s' = Io ?t @ [IoSend 0 (map (packet_bytes ?t) (SendQ ?x))]"
    using SendPost_gathers [OF t(1-6) g] unfolding if_P [OF t(7)] by blast
  then obtain s' where "SendPost 0 None ?t = Inr (s', True)" "Io s' = Io ?t @ [IoSend 0 (map (packet_bytes ?t) (SendQ ?x))]"
    by blast
  then show ?thesis by (intro exI [of _ ?t] exI [of _ p] exI [of _ s']) simp
qed

subsection \<open>The handlers keep the invariant\<close>

lemma refs_inv_live:
  assumes "refs_inv s U" "x \<in> set (SessionArr s)" "p \<in> set (held_by x)"
  shows "\<exists>pk. get_packet p s = Inr pk \<and> good_packet pk \<and> RefCnt pk \<noteq> 0"
proof -
  have "0 < count_list (held_by x) p" using assms(3) by (metis count_list_0_iff gr0I)
  then have pos: "0 < U p + session_refs s p" using session_refs_ge [OF assms(2), of p] by simp
  have "pool_pkts (PacketPool s) {p. 0 < U p + session_refs s p}"
    using assms(1) by (simp add: refs_inv_def packet_refs_def)
  with pos obtain pk where "read_data (PacketPool s) p = Some pk" "good_packet pk" "RefCnt pk \<noteq> 0"
    using pool_pkts_read by (metis mem_Collect_eq)
  then show ?thesis by (simp add: get_packet_def)
qed

lemma refs_inv_flag:
  "refs_inv s U \<Longrightarrow> i \<in> set (FreeSessionStack s) \<Longrightarrow> ReleaseFlag (SessionArr s ! i) \<and> held_by (SessionArr s ! i) = []"
  by (simp add: refs_inv_def free_stack_ok_def)

lemma refs_inv_cancel: "refs_inv s U \<Longrightarrow> cancel_if_unused i s = Inr s' \<Longrightarrow> refs_inv s' U"
  by (auto simp: cancel_if_unused_def with_session_def log_io_def intro: refs_inv_same split: if_splits)

lemma refs_inv_SendPost:
  assumes inv: "refs_inv s U" and i: "i < length (SessionArr s)" and sp: "SendPost i rv s = Inr (s', b)"
  shows "refs_inv s' U"
proof -
  let ?x = "SessionArr s ! i"
  have ok: "session_ok ?x" using refs_inv_nth [OF inv i] .
  have fr: "i \<in> set (FreeSessionStack s) \<Longrightarrow> ReleaseFlag ?x" using refs_inv_flag [OF inv] by simp
  consider "\<not> SessionUseFlag ?x" | "SessionUseFlag ?x" "SendFlag ?x = 1" | "SessionUseFlag ?x" "SendFlag ?x \<noteq> 1" "SendQ ?x = []"
    | "SessionUseFlag ?x" "SendFlag ?x \<noteq> 1" "SendQ ?x \<noteq> []" by blast
  then show ?thesis
  proof cases
    case 1
    with sp i inv show ?thesis by (simp add: SendPost_def with_session_def)
  next
    case 2
    then have "?x\<lparr>SendFlag := 1\<rparr> = ?x" by (cases ?x) simp
    with 2 sp i inv set_session_same [OF i] show ?thesis by (simp add: SendPost_def with_session_def)
  next
    case 3
    then have "s' = set_session i (?x\<lparr>SendFlag := 0\<rparr>) s" using sp i by (simp add: SendPost_def with_session_def Let_def)
    then show ?thesis using ok 3 fr
      by (intro refs_inv_quiet [OF inv i, of "?x\<lparr>SendFlag := 0\<rparr>"]) (auto simp: session_ok_def held_by_def set_session_def)
  next
    case 4
    let ?q = "SendQ ?x" and ?s1 = "set_session i (?x\<lparr>SendFlag := 1\<rparr>) s"
    have i1: "i < length (SessionArr ?s1)" and x1: "SessionArr ?s1 ! i = ?x\<lparr>SendFlag := 1\<rparr>" using i by simp_all
    have cnt0: "SendPacketCnt ?x = 0" using ok 4 by (simp add: session_ok_def)
    have gp: "\<forall>p \<in> set ?q. \<exists>pk. get_packet p ?s1 = Inr pk \<and> packet_wf pk"
      using refs_inv_live [OF inv, of ?x] i by (force simp: get_packet_def held_by_def good_packet_def)
    have le: "length ?q \<le> kSendBuffer"
    proof (rule ccontr)
      assume "\<not> length ?q \<le> kSendBuffer"
      then have "send_gather i (length ?q) 0 [] ?s1 = Inl OutOfBounds"
        using send_gather_overrun [OF i1, of ?q 0 "[]"] x1 gp by simp
      with sp 4 i show False by (simp add: SendPost_def with_session_def Let_def)
    qed
    let ?y = "?x\<lparr>SendFlag := 1, SendQ := [], SendBuffer := ?q @ drop (length ?q) (SendBuffer ?x),
        SendPacketCnt := of_nat (length ?q)\<rparr>"
    obtain bufs where bufs: "send_gather i (length ?q) 0 [] ?s1 =
        Inr (set_session i (?x\<lparr>SendFlag := 1, SendQ := [], SendBuffer := ?q @ drop (length ?q) (SendBuffer ?x)\<rparr>) s, bufs)"
      "length bufs = length ?q"
      using send_gather_ok [OF i1, of ?q 0 "[]"] x1 le gp ok by (simp add: session_ok_def)
    let ?s3 = "log_io (IoSend i bufs) (set_session i ?y s)"
    have n: "unat (of_nat (length ?q) :: u32) = length ?q"
      using le by (intro unat_of_nat32) (simp add: kSendBuffer_def)
    have "refs_inv ?s3 U"
    proof (rule refs_inv_quiet [OF inv i, of ?y])
      show "session_ok ?y" using ok le n by (simp add: session_ok_def)
      show "count_list (held_by ?y) p = count_list (held_by ?x) p" for p using n cnt0 by (simp add: held_by_def)
    qed (use fr in \<open>auto simp: set_session_def log_io_def\<close>)
    moreover have "s' = ?s3 \<or> cancel_if_unused i ?s3 = Inr s'"
      using sp 4 i bufs by (auto simp: SendPost_def with_session_def Let_def ebind_eq_Inr split: option.splits if_splits)
    ultimately show ?thesis using refs_inv_cancel by blast
  qed
qed

lemma refs_inv_try_SendPost:
  assumes "refs_inv s U" "i < length (SessionArr s)" "try_SendPost i rv s = Inr s'"
  shows "refs_inv s' U"
proof -
  from assms(3) obtain s1 s2 b where t: "IncrementSessionRef i s = Inr s1" "SendPost i rv s1 = Inr (s2, b)"
    "s' = s2 \<or> (\<exists>r. DecrementSessionRef i s2 = Inr (s', r))"
    by (auto simp: try_SendPost_def ebind_eq_Inr split: if_splits)
  have s1: "refs_inv s1 U" using refs_inv_IncrementSessionRef [OF assms(1) t(1)] .
  moreover have "i < length (SessionArr s1)"
    using t(1) assms(2) by (auto simp: IncrementSessionRef_def with_session_def)
  ultimately have "refs_inv s2 U" using t(2) by (rule refs_inv_SendPost)
  with t(3) show ?thesis by (auto dest: refs_inv_DecrementSessionRef)
qed

lemma AddSend_fields [simp]:
  "PacketPool (AddSend tid n m s) = PacketPool s" "SessionArr (AddSend tid n m s) = SessionArr s"
  "FreeSessionStack (AddSend tid n m s) = FreeSessionStack s" "Encoder (AddSend tid n m s) = Encoder s"
  by (simp_all add: AddSend_def GetThreadTransmitArr_def set_arr_def split: option.splits)

lemma refs_inv_on_send_complete:
  assumes inv: "refs_inv s U" and i: "i < length (SessionArr s)" and oc: "on_send_complete tid n i rv s = Inr s'"
  shows "refs_inv s' U"
proof -
  let ?x = "SessionArr s ! i" and ?s1 = "AddSend tid (SendPacketCnt (SessionArr s ! i)) n s"
  have inv1: "refs_inv ?s1 U" using inv by (rule refs_inv_same) simp_all
  from refs_inv_send_done [OF inv1, of i tid] i obtain s2 where
    s2: "FreePackets tid (take (unat (SendPacketCnt ?x)) (SendBuffer ?x)) ?s1 = Inr s2" "SessionArr s2 = SessionArr s"
      "refs_inv (set_session i (?x\<lparr>SendPacketCnt := 0, SendFlag := 0\<rparr>) s2) U" by auto
  have "try_SendPost i rv (set_session i (?x\<lparr>SendPacketCnt := 0, SendFlag := 0\<rparr>) s2) = Inr s'"
    using oc i s2(1,2) held_by_split [OF refs_inv_nth [OF inv i]] by (simp add: on_send_complete_def with_session_def Let_def)
  with s2(2,3) i show ?thesis by (auto intro: refs_inv_try_SendPost)
qed

subsection \<open>Releasing a session\<close>

lemma drain_SendQ_ok:
  assumes "refs_inv s U" "i < length (SessionArr s)" "i \<notin> set (FreeSessionStack s)" "SendQ (SessionArr s ! i) = q"
  shows "\<exists>s'. drain_SendQ tid i q s = Inr s' \<and> refs_inv s' U \<and>
     SessionArr s' = (SessionArr s)[i := (SessionArr s ! i)\<lparr>SendQ := []\<rparr>] \<and> FreeSessionStack s' = FreeSessionStack s"
  using assms
proof (induction q arbitrary: s)
  case Nil
  have e: "(SessionArr s ! i)\<lparr>SendQ := []\<rparr> = SessionArr s ! i" using Nil.prems(4) by (cases "SessionArr s ! i") simp
  show ?case by (intro exI [of _ s]) (simp only: drain_SendQ.simps e list_update_id Nil.prems simp_thms)
next
  case (Cons p q)
  let ?x = "SessionArr s ! i"
  let ?y = "?x\<lparr>SendQ := q\<rparr>"
  let ?s1 = "set_session i ?y s"
  define R where "R = (\<lambda>p. U p + session_refs s p)"
  have R: "packet_refs (PacketPool ?s1) R" using Cons.prems(1) by (simp add: refs_inv_def R_def)
  have cy: "count_list (held_by ?x) r = count_list (held_by ?y) r + (if r = p then 1 else 0)" for r
    using Cons.prems(4) by (simp add: held_by_def)
  have step: "session_refs s r = session_refs ?s1 r + (if r = p then 1 else 0)" for r
    using session_refs_set [OF Cons.prems(2), of ?y r] cy [of r] by simp
  have "0 < R p" using step [of p] by (simp add: R_def)
  from FreePacket_refs [OF R this, of tid] obtain pl where
    f: "FreePacket tid p ?s1 = Inr (?s1\<lparr>PacketPool := pl\<rparr>)" "packet_refs pl (R(p := R p - 1))" by blast
  have "R(p := R p - 1) = (\<lambda>r. U r + session_refs ?s1 r)" using step by (auto simp: R_def fun_eq_iff)
  with f(2) have W: "packet_refs pl (\<lambda>r. U r + session_refs ?s1 r)" by simp
  have "refs_inv (?s1\<lparr>PacketPool := pl\<rparr>) U"
    using refs_inv_nth [OF Cons.prems(1,2)] Cons.prems(3)
    by (intro refs_inv_set [OF Cons.prems(1,2) _ _ W]) (auto simp: session_ok_def set_session_def)
  from Cons.IH [OF this] Cons.prems(2,3) obtain s' where
    "drain_SendQ tid i q (?s1\<lparr>PacketPool := pl\<rparr>) = Inr s'" "refs_inv s' U"
    "SessionArr s' = (SessionArr s)[i := ?x\<lparr>SendQ := []\<rparr>]" "FreeSessionStack s' = FreeSessionStack s"
    by (auto simp: set_session_def)
  with f(1) Cons.prems(2) show ?case by (intro exI [of _ s']) (simp add: with_session_def)
qed

lemma FreePacket_stack: "FreePacket tid p s = Inr s' \<Longrightarrow> FreeSessionStack s' = FreeSessionStack s"
  by (auto simp: FreePacket_def ebind_eq_Inr set_packet_def Let_def case_prod_beta split: if_splits)

lemma FreePackets_stack: "FreePackets tid ps s = Inr s' \<Longrightarrow> FreeSessionStack s' = FreeSessionStack s"
  by (induction ps arbitrary: s) (auto simp: ebind_eq_Inr FreePacket_stack)

lemma refs_inv_ReleaseSession:
  assumes inv: "refs_inv s U" and i: "i < length (SessionArr s)" "i \<notin> set (FreeSessionStack s)"
    and rel: "ReleaseFlag (SessionArr s ! i)"
  shows "\<exists>s'. ReleaseSession tid i s = Inr s' \<and> refs_inv s' U \<and> FreeSessionStack s' = i # FreeSessionStack s \<and>
     SessionArr s' = (SessionArr s)[i := (SessionArr s ! i)\<lparr>SessionID := SessionID (SessionArr s ! i) AND 0xffff000000000000,
        SendQ := [], SendPacketCnt := 0\<rparr>]"
proof -
  let ?x = "SessionArr s ! i"
  let ?y = "?x\<lparr>SessionID := SessionID ?x AND 0xffff000000000000\<rparr>"
  let ?s1 = "log_io (IoClose (Socket ?x)) (set_session i ?y s)"
  have inv1: "refs_inv ?s1 U"
    using refs_inv_nth [OF inv i(1)] i(2)
    by (intro refs_inv_quiet [OF inv i(1), of ?y]) (auto simp: session_ok_def held_by_def set_session_def log_io_def)
  have x1: "SessionArr ?s1 = (SessionArr s)[i := ?y]" "FreeSessionStack ?s1 = FreeSessionStack s"
    by (simp_all add: log_io_def set_session_def)
  from drain_SendQ_ok [OF inv1, of i "SendQ ?x" tid] i x1 obtain s2 where
    s2: "drain_SendQ tid i (SendQ ?x) ?s1 = Inr s2" "refs_inv s2 U" "SessionArr s2 = (SessionArr s)[i := ?y\<lparr>SendQ := []\<rparr>]"
      "FreeSessionStack s2 = FreeSessionStack s" by auto
  let ?z = "?y\<lparr>SendQ := []\<rparr>"
  have i2: "i < length (SessionArr s2)" and z2: "SessionArr s2 ! i = ?z" using i(1) s2(3) by simp_all
  from refs_inv_send_done [OF s2(2) i2, of tid] obtain s3 where
    s3: "FreePackets tid (take (unat (SendPacketCnt ?x)) (SendBuffer ?x)) s2 = Inr s3" "SessionArr s3 = SessionArr s2"
      "refs_inv (set_session i (?z\<lparr>SendPacketCnt := 0\<rparr>) s3) U" using z2 by auto
  let ?s4 = "set_session i (?z\<lparr>SendPacketCnt := 0\<rparr>) s3"
  have st: "FreeSessionStack s3 = FreeSessionStack s2"
    using s3(1) by (rule FreePackets_stack)
  have arr: "SessionArr ?s4 = (SessionArr s)[i := ?z\<lparr>SendPacketCnt := 0\<rparr>]"
    using s2(3) s3(2) by (simp add: set_session_def)
  have "free_stack_ok s" using inv by (simp add: refs_inv_def)
  then have "free_stack_ok (?s4\<lparr>FreeSessionStack := i # FreeSessionStack ?s4\<rparr>)"
    using i rel arr st s2(4) by (auto simp: free_stack_ok_def held_by_def nth_list_update set_session_def)
  then have "refs_inv (?s4\<lparr>FreeSessionStack := i # FreeSessionStack ?s4\<rparr>) U"
    using s3(3) by (simp add: refs_inv_def session_refs_def)
  moreover have "ReleaseSession tid i s = Inr (?s4\<lparr>FreeSessionStack := i # FreeSessionStack ?s4\<rparr>)"
    using i(1) s2(1) i2 z2 s3(1,2) held_by_split [OF refs_inv_nth [OF s2(2) i2]]
    by (simp add: ReleaseSession_def with_session_def Let_def)
  ultimately show ?thesis using arr st s2(4)
    by (intro exI [of _ "?s4\<lparr>FreeSessionStack := i # FreeSessionStack ?s4\<rparr>"]) (simp add: set_session_def)
qed

text \<open>A leave callback that only changes the state of the application.\<close>

definition quiet_leave :: "'u env \<Rightarrow> bool" where
  "quiet_leave env \<longleftrightarrow> (\<forall>sid s. \<exists>a. OnClientLeave env sid s = Inr (s\<lparr>App := a\<rparr>))"

lemma refs_inv_DisconnectSession:
  assumes inv: "refs_inv s U" and i: "i < length (SessionArr s)" and q: "quiet_leave env"
  shows "\<exists>s'. DisconnectSession env tid i s = Inr s' \<and> refs_inv s' U"
proof -
  let ?x = "SessionArr s ! i"
  show ?thesis
  proof (cases "ReleaseFlag ?x = False \<and> SessionRef ?x = 0")
    case True
    let ?y = "?x\<lparr>ReleaseFlag := True, SessionRef := 0\<rparr>"
    obtain a where a: "OnClientLeave env (SessionID ?x) (set_session i ?y s) = Inr ((set_session i ?y s)\<lparr>App := a\<rparr>)"
      using q by (auto simp: quiet_leave_def)
    let ?s1 = "(set_session i ?y s)\<lparr>App := a\<rparr>"
    have ni: "i \<notin> set (FreeSessionStack s)" using refs_inv_flag [OF inv] True by auto
    have "refs_inv ?s1 U"
      using refs_inv_nth [OF inv i] ni
      by (intro refs_inv_quiet [OF inv i, of ?y]) (auto simp: session_ok_def held_by_def set_session_def)
    from refs_inv_ReleaseSession [OF this, of i tid] ni i obtain s' where
      "ReleaseSession tid i ?s1 = Inr s'" "refs_inv s' U" by (auto simp: set_session_def)
    with True i a show ?thesis by (simp add: DisconnectSession_def with_session_def)
  next
    case False
    with i inv show ?thesis by (auto simp: DisconnectSession_def with_session_def)
  qed
qed

lemma refs_inv_release_ref:
  assumes inv: "refs_inv s U" and i: "i < length (SessionArr s)" and q: "quiet_leave env"
  shows "\<exists>s'. release_ref env tid i s = Inr s' \<and> refs_inv s' U"
proof -
  obtain s1 r where d: "DecrementSessionRef i s = Inr (s1, r)" "length (SessionArr s1) = length (SessionArr s)"
    using i by (auto simp: DecrementSessionRef_def with_session_def)
  have inv1: "refs_inv s1 U" using refs_inv_DecrementSessionRef [OF inv d(1)] .
  show ?thesis
    using refs_inv_DisconnectSession [OF inv1 _ q, of i tid] inv1 d i by (auto simp: release_ref_def)
qed

lemma refs_inv_KillSession:
  assumes inv: "refs_inv s U" and i: "FindSession sid < length (SessionArr s)" and q: "quiet_leave env"
  shows "\<exists>s'. KillSession env tid sid s = Inr s' \<and> refs_inv s' U"
proof -
  let ?i = "FindSession sid"
  let ?x = "SessionArr s ! ?i"
  let ?s1 = "set_session ?i (add_ref ?x) s"
  have inc: "IncrementSessionRef ?i s = Inr ?s1" using i by (simp add: IncrementSessionRef_def with_session_def)
  have inv1: "refs_inv ?s1 U" using refs_inv_IncrementSessionRef [OF inv inc] .
  have i1: "?i < length (SessionArr ?s1)" using i by simp
  show ?thesis
  proof (cases "ReleaseFlag ?x = False \<and> SessionID ?x = sid")
    case True
    let ?s2 = "log_io (IoCancel (Socket (add_ref ?x))) (set_session ?i ((add_ref ?x)\<lparr>SessionUseFlag := False\<rparr>) ?s1)"
    have "refs_inv ?s2 U"
      using refs_inv_nth [OF inv i] refs_inv_flag [OF inv, of ?i] i True
      by (intro refs_inv_quiet [OF inv1 i1, of "(add_ref ?x)\<lparr>SessionUseFlag := False\<rparr>"])
         (auto simp: session_ok_def held_by_def set_session_def log_io_def add_ref_def)
    moreover have "?i < length (SessionArr ?s2)" using i by (simp add: log_io_def)
    ultimately obtain s' where "release_ref env tid ?i ?s2 = Inr s'" "refs_inv s' U"
      using refs_inv_release_ref [OF _ _ q] by blast
    with True i inc show ?thesis by (simp add: KillSession_def with_session_def Let_def)
  next
    case False
    then have "KillSession env tid sid s = Inr s"
      using i by (auto simp: KillSession_def IncrementSessionRef_def DecrementSessionRef_def
        with_session_def Let_def set_session_same)
    with inv show ?thesis by simp
  qed
qed

lemma refs_inv_GetFreeSession:
  assumes inv: "refs_inv s U"
  shows "\<exists>s' r. GetFreeSession s = Inr (s', r) \<and> refs_inv s' U"
proof (cases "FreeSessionStack s")
  case Nil
  with inv show ?thesis by (simp add: GetFreeSession_def)
next
  case (Cons i rest)
  let ?x = "SessionArr s ! i" and ?id = "SessionIDCnt s + 1"
  let ?s0 = "s\<lparr>FreeSessionStack := rest, SessionIDCnt := ?id\<rparr>"
  have fs: "free_stack_ok s" using inv by (simp add: refs_inv_def)
  then have i: "i < length (SessionArr s)" "i \<notin> set rest" "held_by ?x = []"
    using Cons by (auto simp: free_stack_ok_def)
  have inv0: "refs_inv ?s0 U" using inv fs Cons by (simp add: refs_inv_def free_stack_ok_def session_refs_def)
  have "refs_inv (set_session i (init_session ?id ?x) ?s0) U"
    using i refs_inv_nth [OF inv i(1)]
    by (intro refs_inv_quiet [OF inv0, of i "init_session ?id ?x"])
       (auto simp: session_ok_def held_by_def set_session_def init_session_def)
  with Cons i(1) show ?thesis
    by (simp add: GetFreeSession_def InitSession_def GenerateSessionID_def with_session_def Let_def)
qed

subsection \<open>Runs of the server\<close>

text \<open>
  Any sequence of the operations that touch packets, by any thread: the application allocates,
  fills, sends (any number of times, to any session) and frees packets it holds; workers start
  sends and complete them; sessions are accepted, killed and disconnected. Runs accept fewer than
  \<open>2 ^ 48\<close> sessions, after which the counter would run into the slot number of the identifiers.
\<close>

inductive server_run :: "'u env \<Rightarrow> (int \<Rightarrow> byte list \<Rightarrow> byte list) \<Rightarrow> nat \<Rightarrow> 'u server \<Rightarrow> (addr \<Rightarrow> nat) \<Rightarrow> bool"
  for env frame max_len where
  start: "SessionArr s = map (start_session fill) [0..<n] \<Longrightarrow> FreeSessionStack s = rev [0..<n] \<Longrightarrow>
    PacketPool s = init_pool base sz \<Longrightarrow> 0 < sz \<Longrightarrow> n < 65536 \<Longrightarrow> SessionIDCnt s = 0 \<Longrightarrow>
    server_run env frame max_len s (\<lambda>p. 0)"
| alloc: "server_run env frame max_len s U \<Longrightarrow> AllocPacket env tid s = Inr (s', p) \<Longrightarrow>
    server_run env frame max_len s' (U(p := 1))"
| fill: "server_run env frame max_len s U \<Longrightarrow> 0 < U p \<Longrightarrow> get_packet p s = Inr pk \<Longrightarrow> good_packet pk' \<Longrightarrow>
    RefCnt pk' = RefCnt pk \<Longrightarrow> server_run env frame max_len (set_packet p pk' s) U"
| free: "server_run env frame max_len s U \<Longrightarrow> 0 < U p \<Longrightarrow> FreePacket tid p s = Inr s' \<Longrightarrow>
    server_run env frame max_len s' (U(p := U p - 1))"
| send: "server_run env frame max_len s U \<Longrightarrow> 0 < U p \<Longrightarrow> U p + session_refs s p + 1 < 2 ^ 32 \<Longrightarrow>
    FindSession sid < length (SessionArr s) \<Longrightarrow> get_packet p s = Inr pk \<Longrightarrow> sendable max_len pk \<Longrightarrow>
    frame_encoder (Encoder s) frame max_len \<Longrightarrow> SendPacket sid rnd p s = Inr s' \<Longrightarrow> server_run env frame max_len s' U"
| post: "server_run env frame max_len s U \<Longrightarrow> i < length (SessionArr s) \<Longrightarrow> try_SendPost i rv s = Inr s' \<Longrightarrow>
    server_run env frame max_len s' U"
| sent: "server_run env frame max_len s U \<Longrightarrow> i < length (SessionArr s) \<Longrightarrow> on_send_complete tid n i rv s = Inr s' \<Longrightarrow>
    server_run env frame max_len s' U"
| kill: "server_run env frame max_len s U \<Longrightarrow> FindSession sid < length (SessionArr s) \<Longrightarrow>
    KillSession env tid sid s = Inr s' \<Longrightarrow> server_run env frame max_len s' U"
| release: "server_run env frame max_len s U \<Longrightarrow> i < length (SessionArr s) \<Longrightarrow> release_ref env tid i s = Inr s' \<Longrightarrow>
    server_run env frame max_len s' U"
| accept: "server_run env frame max_len s U \<Longrightarrow> SessionIDCnt s < 2 ^ 48 - 1 \<Longrightarrow> GetFreeSession s = Inr (s', r) \<Longrightarrow> server_run env frame max_len s' U"

lemma blank_session_ok: "session_ok (start_session fill i) \<and> held_by (start_session fill i) = [] \<and> ReleaseFlag (start_session fill i)"
  by (simp add: start_session_def blank_session_def session_ok_def held_by_def kSendBuffer_def)

lemma refs_inv_start:
  assumes "SessionArr s = map (start_session fill) [0..<n]" "FreeSessionStack s = rev [0..<n]"
    "PacketPool s = init_pool base sz" "0 < sz"
  shows "refs_inv s (\<lambda>p. 0)"
proof -
  have "session_refs s p = 0" for p
    by (simp add: session_refs_def assms(1) blank_session_ok o_def)
  then show ?thesis
    using packet_refs_init [OF assms(4), of base] assms(1-3) blank_session_ok [of fill]
    by (auto simp: refs_inv_def free_stack_ok_def)
qed

lemma refs_inv_fill:
  assumes inv: "refs_inv s U" and p: "0 < U p" and pk: "get_packet p s = Inr pk"
    and n: "good_packet pk'" "RefCnt pk' = RefCnt pk"
  shows "refs_inv (set_packet p pk' s) U"
proof -
  define R where "R = (\<lambda>p. U p + session_refs s p)"
  have R: "packet_refs (PacketPool s) R" using inv by (simp add: refs_inv_def R_def)
  have p0: "0 < R p" "R p < 2 ^ 32" using p R by (simp_all add: R_def packet_refs_def)
  have "RefCnt pk' = of_nat (R p)"
    using R pk n(2) by (auto simp: packet_refs_def get_packet_def split: option.splits)
  from write_refs [OF R p0(1) n(1) this p0] have "packet_refs (write_data p pk' (PacketPool s)) R" by simp
  then show ?thesis using inv by (simp add: refs_inv_def R_def session_refs_def free_stack_ok_def) (simp add: set_packet_def)
qed

lemma server_run_inv:
  assumes "server_run env frame max_len s U" "quiet_leave env" "fresh_packet (NewPacket env)"
  shows "refs_inv s U"
  using assms
proof (induction rule: server_run.induct)
  case (start s fill n base sz)
  then show ?case by (simp add: refs_inv_start)
next
  case (alloc s U tid s' p)
  then have "refs_inv s U" "fresh_packet (NewPacket env)" by simp_all
  from refs_inv_Alloc [OF this, of tid] obtain s1 p1 where
    "AllocPacket env tid s = Inr (s1, p1)" "refs_inv s1 (U(p1 := 1))" by blast
  with alloc.hyps(2) show ?case by (metis Inr_inject Pair_inject)
next
  case (fill s U p pk pk')
  then show ?case by (simp add: refs_inv_fill)
next
  case (free s U p tid s')
  then have "refs_inv s U" by simp
  from refs_inv_Free [OF this free.hyps(2), of tid] free.hyps(3) show ?case
    by (metis Inr_inject)
next
  case (send s U p sid pk rnd s')
  show ?case
  proof (cases "live_id s sid")
    case True
    have "refs_inv s U" using send by simp
    from refs_inv_SendPacket [OF this True send.hyps(2,3,7,5,6), of rnd] send.hyps(8) show ?thesis by auto
  next
    case False
    then have "SendPacket sid rnd p s = Inr s"
      using send.hyps(4) by (auto simp: live_id_def SendPacket_def IncrementSessionRef_def DecrementSessionRef_def
        with_session_def Let_def set_session_same)
    with send show ?thesis by simp
  qed
next
  case (post s U i rv s')
  then show ?case using refs_inv_try_SendPost by blast
next
  case (sent s U i tid n rv s')
  then show ?case using refs_inv_on_send_complete by blast
next
  case (kill s U sid tid s')
  then show ?case using refs_inv_KillSession [of s U sid env tid] by auto
next
  case (release s U i tid s')
  then show ?case using refs_inv_release_ref [of s U i env tid] by auto
next
  case (accept s U s' r)
  then show ?case using refs_inv_GetFreeSession [of s U] by auto
qed

text \<open>C2. Packet ownership: in every run of the server, the reference count of a packet is exactly the
  number of its holders, which are the application, the send queues and the sends in flight; a packet
  in use is never in the pool and a packet without a holder always is. Hence a holder can always give
  its packet back, and a session can always be released, without a fault and without a leak.\<close>

theorem packet_ownership:
  assumes "server_run env frame max_len s U" "quiet_leave env" "fresh_packet (NewPacket env)"
  shows "(\<forall>p. U p + session_refs s p < 2 ^ 32 \<and>
            (case get_packet p s of
               Inl e \<Rightarrow> U p + session_refs s p = 0
             | Inr pk \<Rightarrow> RefCnt pk = of_nat (U p + session_refs s p) \<and> good_packet pk)) \<and>
         (\<exists>P. run_inv (PacketPool s) P \<and> P = {p. 0 < U p + session_refs s p}) \<and>
         (\<forall>p. 0 < U p \<longrightarrow> (\<exists>s'. FreePacket tid p s = Inr s')) \<and>
         (\<forall>i < length (SessionArr s). \<exists>s'. release_ref env tid i s = Inr s')"
proof -
  have inv: "refs_inv s U" using server_run_inv [OF assms] .
  define R where "R = (\<lambda>p. U p + session_refs s p)"
  have R: "packet_refs (PacketPool s) R" using inv by (simp add: refs_inv_def R_def)
  have "R p < 2 ^ 32 \<and> (case get_packet p s of Inl e \<Rightarrow> R p = 0
             | Inr pk \<Rightarrow> RefCnt pk = of_nat (R p) \<and> good_packet pk)" for p
  proof (cases "R p = 0")
    case True
    then show ?thesis using R by (auto simp: packet_refs_def get_packet_def pool_pkts_def split: option.splits)
  next
    case False
    then obtain pk where "read_data (PacketPool s) p = Some pk" "good_packet pk" "RefCnt pk = of_nat (R p)"
      using packet_refs_read [OF R, of p] by blast
    then show ?thesis using R by (simp add: packet_refs_def get_packet_def)
  qed
  moreover have "run_inv (PacketPool s) {p. 0 < R p}" using R by (simp add: packet_refs_def pool_pkts_def)
  ultimately show ?thesis
    using refs_inv_Free [OF inv] refs_inv_release_ref [OF inv _ assms(2)] unfolding R_def by (intro conjI allI impI) blast+
qed

lemma quiet_recording: "quiet_leave recording_app"
proof -
  have "\<exists>a. OnClientLeave recording_app sid s = Inr (s\<lparr>App := a\<rparr>)" for sid s
    by (intro exI [of _ "App s"]) (simp add: recording_app_def)
  then show ?thesis by (simp add: quiet_leave_def)
qed

theorem packet_ownership_witness:
  "\<exists>s p s'. server_run recording_app (xor_frame_rnd (XorPacketEncoder 119 50 4096)) 4096 s ((\<lambda>q. 0)(p := 1)) \<and>
     FreePacket 3 p s = Inr s'"
proof -
  let ?s = "(one_session_server (xor_vtable (XorPacketEncoder 119 50 4096)))
    \<lparr>SessionArr := map (start_session (\<lambda>_. 0)) [0..<2], FreeSessionStack := rev [0..<2], SessionIDCnt := 0\<rparr>"
  let ?run = "server_run recording_app (xor_frame_rnd (XorPacketEncoder 119 50 4096)) 4096"
  have r0: "?run ?s (\<lambda>p. 0)"
    by (rule server_run.start [of _ "\<lambda>_. 0" 2 4096 64]) (simp_all add: one_session_server_def)
  from refs_inv_Alloc [OF server_run_inv [OF r0 quiet_recording recording.new_packet] recording.new_packet, of 0]
  obtain s p where "AllocPacket recording_app 0 ?s = Inr (s, p)" by blast
  from server_run.alloc [OF r0 this] have r1: "?run s ((\<lambda>q. 0)(p := 1))" .
  have "0 < ((\<lambda>q. 0)(p := 1 :: nat)) p" by simp
  with packet_ownership [OF r1 quiet_recording recording.new_packet, of 3] r1 show ?thesis by blast
qed

end
