(* ===== verification/SessionId.thy ===== *)
theory SessionId
  imports Prelude
begin

text \<open>
  Session identifiers, the same for server and client: the slot in the upper 16 bits, the running
  number of the session in the lower 48.
\<close>

definition slot_mask :: u64 where
  "slot_mask = 0xffff000000000000"

definition serial :: "u64 \<Rightarrow> u64" where
  "serial d = take_bit 48 d"

definition slot_of :: "u64 \<Rightarrow> nat" where
  "slot_of d = unat (drop_bit 48 d)"

lemma slot_mask_bits: "slot_mask = push_bit 48 (mask 16)"
  by (simp add: slot_mask_def mask_eq_exp_minus_1 push_bit_eq_mult)

lemma slot_of_mask [simp]: "slot_of (d AND slot_mask) = slot_of d"
proof -
  have "drop_bit 48 (d AND slot_mask) = drop_bit 48 d"
    by (rule bit_eqI) (auto simp: slot_mask_bits bit_simps dest: bit_imp_le_length)
  then show ?thesis by (simp add: slot_of_def)
qed

lemma serial_mask [simp]: "serial (d AND slot_mask) = 0"
  unfolding serial_def by (rule bit_eqI) (auto simp: slot_mask_bits bit_simps)

lemma small_bits: "n < 2 ^ 48 \<Longrightarrow> take_bit 48 n = (n :: u64)"
proof -
  assume "n < 2 ^ 48"
  then have "unat n < 2 ^ 48" by (simp add: word_less_nat_alt)
  then have "unat (take_bit 48 n) = unat n" by (simp add: unsigned_take_bit_eq take_bit_nat_eq_self)
  then show ?thesis by (simp only: word_unat_eq_iff)
qed

lemma slot_or: "n < 2 ^ 48 \<Longrightarrow> slot_of (d OR n) = slot_of d"
proof -
  assume "n < 2 ^ 48"
  then have "drop_bit 48 n = drop_bit 48 (take_bit 48 n)" by (simp add: small_bits)
  then have "drop_bit 48 n = 0" by (simp add: drop_bit_take_bit)
  then show ?thesis by (simp add: slot_of_def drop_bit_or)
qed

lemma serial_or: "n < 2 ^ 48 \<Longrightarrow> serial d = 0 \<Longrightarrow> serial (d OR n) = n"
  by (simp add: serial_def take_bit_or small_bits)

lemma slot_start:
  assumes "i < 65536"
  shows "slot_of (push_bit 48 (of_nat i)) = i \<and> serial (push_bit 48 (of_nat i)) = 0"
proof -
  let ?w = "of_nat i :: u64"
  have "drop_bit 48 (push_bit 48 ?w) = take_bit 16 ?w" by (rule bit_eqI) (auto simp: bit_simps dest: bit_imp_le_length)
  also have "\<dots> = ?w" using assms by (simp add: take_bit_of_nat take_bit_nat_eq_self)
  finally have "slot_of (push_bit 48 ?w) = unat ?w" by (simp add: slot_of_def)
  moreover have "unat ?w = i" using assms by (simp add: unat_of_nat take_bit_nat_eq_self)
  moreover have "serial (push_bit 48 ?w) = 0" unfolding serial_def by (rule bit_eqI) (auto simp: bit_simps)
  ultimately show ?thesis by simp
qed

lemma slot_serial_split: "slot_of a = slot_of b \<Longrightarrow> serial a = serial b \<Longrightarrow> a = b"
  unfolding slot_of_def serial_def
  by (metis (no_types) word_unat_eq_iff bits_ident)

end
