(* ===== verification/ServerSessions.thy ===== *)
theory ServerSessions
  imports ServerSend SessionId
begin

text \<open>
  Session identifiers of \<open>NetServer\<close>: the slot in the upper 16 bits, the accept counter in the lower
  48. An identifier finds its slot, and none is ever given out twice.
\<close>

text \<open>
  What identifiers depend on: the counter, and the identifiers of the slots with their release flags.
\<close>

definition core :: "session \<Rightarrow> u64 \<times> bool" where
  "core x = (SessionID x, ReleaseFlag x)"

definition ids :: "'u server \<Rightarrow> u64 \<times> (u64 \<times> bool) list" where
  "ids s = (SessionIDCnt s, map core (SessionArr s))"

lemma ids_set_session:
  "i < length (SessionArr s) \<Longrightarrow> ids (set_session i x s) =
     (SessionIDCnt s, (map core (SessionArr s))[i := core x])"
  by (simp add: ids_def set_session_def map_update)

lemma ids_keep: "i < length (SessionArr s) \<Longrightarrow> core x = core (SessionArr s ! i) \<Longrightarrow> ids (set_session i x s) = ids s"
  by (simp add: ids_def set_session_def map_update list_update_same_conv)

lemma core_simps [simp]:
  "core (x\<lparr>SendFlag := f\<rparr>) = core x" "core (x\<lparr>SendPacketCnt := n\<rparr>) = core x" "core (x\<lparr>SendQ := q\<rparr>) = core x"
  "core (x\<lparr>SendBuffer := b\<rparr>) = core x" "core (x\<lparr>SessionUseFlag := u\<rparr>) = core x" "core (x\<lparr>SessionRef := r\<rparr>) = core x"
  "core (x\<lparr>Socket := so\<rparr>) = core x" "core (add_ref x) = core x" "core (sub_ref x) = core x"
  by (simp_all add: core_def add_ref_def sub_ref_def)

text \<open>An operation keeps the identifiers, or releases one slot.\<close>

definition keeps_ids :: "'u server \<Rightarrow> 'u server \<Rightarrow> bool" where
  "keeps_ids s s' \<longleftrightarrow> ids s' = ids s \<and> FreeSessionStack s' = FreeSessionStack s"

definition frees_id :: "nat \<Rightarrow> 'u server \<Rightarrow> 'u server \<Rightarrow> bool" where
  "frees_id i s s' \<longleftrightarrow> i < length (SessionArr s) \<and> FreeSessionStack s' = i # FreeSessionStack s \<and>
     ids s' = (SessionIDCnt s, (map core (SessionArr s))[i := (SessionID (SessionArr s ! i) AND slot_mask, True)])"

lemma keeps_ids_refl [simp]: "keeps_ids s s"
  by (simp add: keeps_ids_def)

lemma keeps_ids_trans: "keeps_ids s t \<Longrightarrow> keeps_ids t u \<Longrightarrow> keeps_ids s u"
  by (simp add: keeps_ids_def)

lemma keeps_ids_length: "keeps_ids s t \<Longrightarrow> length (SessionArr t) = length (SessionArr s)"
  by (auto simp: keeps_ids_def ids_def dest: map_eq_imp_length_eq)

lemma keeps_ids_frees: "keeps_ids s t \<Longrightarrow> frees_id i t u \<Longrightarrow> frees_id i s u"
proof -
  assume k: "keeps_ids s t" and f: "frees_id i t u"
  have m: "map core (SessionArr t) = map core (SessionArr s)" using k by (simp add: keeps_ids_def ids_def)
  have "SessionID (SessionArr t ! i) = SessionID (SessionArr s ! i)"
    using arg_cong [OF m, of "\<lambda>l. fst (l ! i)"] f keeps_ids_length [OF k] by (simp add: frees_id_def core_def)
  then show ?thesis using k f m keeps_ids_length [OF k] by (simp add: frees_id_def keeps_ids_def ids_def)
qed

lemma frees_keeps_ids: "frees_id i s t \<Longrightarrow> keeps_ids t u \<Longrightarrow> frees_id i s u"
  by (simp add: frees_id_def keeps_ids_def)

lemma keeps_ids_simps [simp]:
  "keeps_ids s (log_io e t) = keeps_ids s t" "keeps_ids s (set_packet p pk t) = keeps_ids s t"
  "keeps_ids s (t\<lparr>PacketPool := pl\<rparr>) = keeps_ids s t" "keeps_ids s (t\<lparr>Posted := ps\<rparr>) = keeps_ids s t"
  "keeps_ids s (t\<lparr>App := a\<rparr>) = keeps_ids s t" "keeps_ids s (t\<lparr>LogTransmit_Map := m\<rparr>) = keeps_ids s t"
  by (simp_all add: keeps_ids_def ids_def log_io_def set_packet_def)

lemma keeps_ids_set:
  "keeps_ids s t \<Longrightarrow> i < length (SessionArr t) \<Longrightarrow> core x = core (SessionArr t ! i) \<Longrightarrow> keeps_ids s (set_session i x t)"
  by (simp only: keeps_ids_def ids_keep) (simp add: set_session_def)

lemma FreePacket_ids: "FreePacket tid p s = Inr s' \<Longrightarrow> keeps_ids s s'"
  by (auto simp: FreePacket_def ebind_eq_Inr Let_def case_prod_beta split: if_splits)

lemma FreePackets_ids: "FreePackets tid ps s = Inr s' \<Longrightarrow> keeps_ids s s'"
  by (induction ps arbitrary: s) (auto simp: ebind_eq_Inr dest!: FreePacket_ids intro: keeps_ids_trans)

lemma AllocPacket_ids: "AllocPacket env tid s = Inr (s', p) \<Longrightarrow> keeps_ids s s'"
  by (auto simp: AllocPacket_def ebind_eq_Inr Let_def)

lemma Increment_ids: "IncrementSessionRef i s = Inr s' \<Longrightarrow> keeps_ids s s'"
  by (auto simp: IncrementSessionRef_def with_session_def intro!: keeps_ids_set split: if_splits)

lemma Decrement_ids: "DecrementSessionRef i s = Inr (s', r) \<Longrightarrow> keeps_ids s s'"
  by (auto simp: DecrementSessionRef_def with_session_def intro!: keeps_ids_set split: if_splits)

lemma SendPacket_ids: "SendPacket sid rnd p s = Inr s' \<Longrightarrow> keeps_ids s s'"
  by (auto simp: SendPacket_def Let_def ebind_eq_Inr with_session_def intro!: keeps_ids_set
      dest!: Increment_ids Decrement_ids intro: keeps_ids_trans split: if_splits)

lemma send_gather_ids: "send_gather i n k bufs s = Inr (s', bufs') \<Longrightarrow> keeps_ids s s'"
proof (induction n arbitrary: k bufs s)
  case (Suc n)
  then obtain p q where q: "i < length (SessionArr s)" "SendQ (SessionArr s ! i) = p # q"
    and g: "\<exists>bs. send_gather i n (Suc k) bs (set_session i ((SessionArr s ! i)\<lparr>SendQ := q,
          SendBuffer := (SendBuffer (SessionArr s ! i))[k := p]\<rparr>) s) = Inr (s', bufs')"
    by (auto simp: with_session_def ebind_eq_Inr split: if_splits list.splits)
  from g Suc.IH have "keeps_ids (set_session i ((SessionArr s ! i)\<lparr>SendQ := q,
          SendBuffer := (SendBuffer (SessionArr s ! i))[k := p]\<rparr>) s) s'" by blast
  then show ?case by (rule keeps_ids_trans [rotated]) (simp add: keeps_ids_set q)
qed simp

lemma cancel_ids: "cancel_if_unused i s = Inr s' \<Longrightarrow> keeps_ids s s'"
  by (auto simp: cancel_if_unused_def with_session_def split: if_splits)

lemma SendPost_ids:
  assumes "SendPost i rv s = Inr (s', b)"
  shows "keeps_ids s s'"
proof -
  have i: "i < length (SessionArr s)" using assms by (auto simp: SendPost_def with_session_def split: if_splits)
  let ?x = "SessionArr s ! i"
  let ?s1 = "set_session i (?x\<lparr>SendFlag := 1\<rparr>) s"
  have k1: "keeps_ids s ?s1" "keeps_ids s (set_session i (?x\<lparr>SendFlag := 0\<rparr>) s)" using i by (simp_all add: keeps_ids_set)
  consider "s' = s" | "s' = ?s1" | "s' = set_session i (?x\<lparr>SendFlag := 0\<rparr>) s"
    | s2 bufs s3 where "send_gather i (length (SendQ ?x)) 0 [] ?s1 = Inr (s2, bufs)" "i < length (SessionArr s2)"
      "s3 = log_io (IoSend i bufs) (set_session i ((SessionArr s2 ! i)\<lparr>SendPacketCnt := of_nat (length bufs)\<rparr>) s2)"
      "s' = s3 \<or> cancel_if_unused i s3 = Inr s'"
    using assms by (auto simp: SendPost_def with_session_def Let_def ebind_eq_Inr split: if_splits option.splits)
  then show ?thesis
  proof cases
    case 4
    have "keeps_ids s2 s3" using 4(2,3) by (simp add: keeps_ids_set)
    then show ?thesis using k1 4(4) send_gather_ids [OF 4(1)] cancel_ids keeps_ids_trans by blast
  qed (use k1 in simp_all)
qed

lemma try_SendPost_ids: "try_SendPost i rv s = Inr s' \<Longrightarrow> keeps_ids s s'"
  by (auto simp: try_SendPost_def ebind_eq_Inr dest!: Increment_ids SendPost_ids Decrement_ids
      intro: keeps_ids_trans split: if_splits)

lemma on_send_complete_ids:
  assumes "on_send_complete tid n i rv s = Inr s'"
  shows "keeps_ids s s'"
proof -
  obtain ps s2 where f: "FreePackets tid ps (AddSend tid (SendPacketCnt (SessionArr s ! i)) n s) = Inr s2"
    and i: "i < length (SessionArr s2)"
    and t: "try_SendPost i rv (set_session i ((SessionArr s2 ! i)\<lparr>SendPacketCnt := 0, SendFlag := 0\<rparr>) s2) = Inr s'"
    using assms by (auto simp: on_send_complete_def with_session_def Let_def ebind_eq_Inr split: if_splits)
  have "keeps_ids s (AddSend tid m n s)" for m
    by (simp add: AddSend_def GetThreadTransmitArr_def set_arr_def split: option.splits)
  then have "keeps_ids s s2" using FreePackets_ids [OF f] keeps_ids_trans by blast
  then have "keeps_ids s (set_session i ((SessionArr s2 ! i)\<lparr>SendPacketCnt := 0, SendFlag := 0\<rparr>) s2)"
    using i by (simp add: keeps_ids_set)
  then show ?thesis using try_SendPost_ids [OF t] keeps_ids_trans by blast
qed

lemma drain_SendQ_ids: "drain_SendQ tid i q s = Inr s' \<Longrightarrow> keeps_ids s s'"
proof (induction q arbitrary: s)
  case (Cons p q)
  then obtain s1 where i: "i < length (SessionArr s)"
    and f: "FreePacket tid p (set_session i ((SessionArr s ! i)\<lparr>SendQ := q\<rparr>) s) = Inr s1" "drain_SendQ tid i q s1 = Inr s'"
    by (auto simp: with_session_def ebind_eq_Inr split: if_splits)
  have "keeps_ids s (set_session i ((SessionArr s ! i)\<lparr>SendQ := q\<rparr>) s)" using i by (simp add: keeps_ids_set)
  then show ?case using FreePacket_ids [OF f(1)] Cons.IH [OF f(2)] keeps_ids_trans by blast
qed simp

lemma ReleaseSession_ids:
  assumes "ReleaseSession tid i s = Inr s'"
  shows "i < length (SessionArr s) \<and> FreeSessionStack s' = i # FreeSessionStack s \<and>
     ids s' = (SessionIDCnt s, (map core (SessionArr s))
       [i := (SessionID (SessionArr s ! i) AND slot_mask, ReleaseFlag (SessionArr s ! i))])"
proof -
  let ?y = "(SessionArr s ! i)\<lparr>SessionID := SessionID (SessionArr s ! i) AND slot_mask\<rparr>"
  obtain s2 ps s3 q so where i: "i < length (SessionArr s)"
    and d: "drain_SendQ tid i q (log_io (IoClose so) (set_session i ?y s)) = Inr s2"
    and f: "FreePackets tid ps s2 = Inr s3" and i3: "i < length (SessionArr s3)"
    and s': "s' = (set_session i ((SessionArr s3 ! i)\<lparr>SendPacketCnt := 0\<rparr>) s3)
       \<lparr>FreeSessionStack := i # FreeSessionStack s3\<rparr>"
    using assms by (auto simp: ReleaseSession_def with_session_def Let_def ebind_eq_Inr slot_mask_def set_session_def
        split: if_splits)
  have k: "keeps_ids (set_session i ?y s) s3"
    using drain_SendQ_ids [OF d] FreePackets_ids [OF f] keeps_ids_trans by (force simp: keeps_ids_def ids_def log_io_def)
  have "ids s' = ids s3" unfolding s' using i3 by (simp add: ids_def set_session_def map_update list_update_same_conv)
  also have "\<dots> = ids (set_session i ?y s)" using k by (simp add: keeps_ids_def)
  also have "\<dots> = (SessionIDCnt s, (map core (SessionArr s))
      [i := (SessionID (SessionArr s ! i) AND slot_mask, ReleaseFlag (SessionArr s ! i))])"
    using ids_set_session [OF i, of ?y] by (simp add: core_def)
  finally have "ids s' = (SessionIDCnt s, (map core (SessionArr s))
      [i := (SessionID (SessionArr s ! i) AND slot_mask, ReleaseFlag (SessionArr s ! i))])" .
  moreover have "FreeSessionStack s' = i # FreeSessionStack s"
    using k by (simp add: s' keeps_ids_def set_session_def)
  ultimately show ?thesis using i by blast
qed

lemma DisconnectSession_ids:
  assumes "DisconnectSession env tid i s = Inr s'" "quiet_leave env"
  shows "keeps_ids s s' \<or> frees_id i s s'"
proof -
  have i: "i < length (SessionArr s)" using assms(1) by (auto simp: DisconnectSession_def with_session_def split: if_splits)
  let ?y = "(SessionArr s ! i)\<lparr>ReleaseFlag := True, SessionRef := 0\<rparr>"
  consider "s' = s" | s1 where "OnClientLeave env (SessionID (SessionArr s ! i)) (set_session i ?y s) = Inr s1"
     "ReleaseSession tid i s1 = Inr s'"
    using assms(1) i by (auto simp: DisconnectSession_def with_session_def ebind_eq_Inr split: if_splits)
  then show ?thesis
  proof cases
    case 2
    then obtain a where "s1 = (set_session i ?y s)\<lparr>App := a\<rparr>"
      using assms(2) unfolding quiet_leave_def by (metis Inr_inject)
    then have "SessionArr s1 = (SessionArr s)[i := ?y]" "SessionIDCnt s1 = SessionIDCnt s"
      "FreeSessionStack s1 = FreeSessionStack s" by (simp_all add: set_session_def)
    with ReleaseSession_ids [OF 2(2)] i have "frees_id i s s'" by (simp add: frees_id_def map_update)
    then show ?thesis ..
  qed simp
qed

lemma release_ref_ids:
  assumes "release_ref env tid i s = Inr s'" "quiet_leave env"
  shows "keeps_ids s s' \<or> frees_id i s s'"
proof -
  obtain s1 r where "DecrementSessionRef i s = Inr (s1, r)" "s' = s1 \<or> DisconnectSession env tid i s1 = Inr s'"
    using assms(1) by (auto simp: release_ref_def ebind_eq_Inr split: if_splits)
  then show ?thesis
    using Decrement_ids DisconnectSession_ids [OF _ assms(2)] keeps_ids_frees keeps_ids_trans by blast
qed

lemma KillSession_ids:
  assumes "KillSession env tid sid s = Inr s'" "quiet_leave env"
  shows "keeps_ids s s' \<or> frees_id (FindSession sid) s s'"
proof -
  let ?i = "FindSession sid"
  obtain s1 where inc: "IncrementSessionRef ?i s = Inr s1" and i: "?i < length (SessionArr s1)"
    and c: "(\<exists>so. release_ref env tid ?i (log_io (IoCancel so)
        (set_session ?i ((SessionArr s1 ! ?i)\<lparr>SessionUseFlag := False\<rparr>) s1)) = Inr s') \<or>
      (\<exists>r. DecrementSessionRef ?i s1 = Inr (s', r))"
    using assms(1) by (auto simp: KillSession_def Let_def ebind_eq_Inr with_session_def split: if_splits)
  have k: "keeps_ids s s1" using Increment_ids [OF inc] .
  from c show ?thesis
  proof
    assume "\<exists>so. release_ref env tid ?i (log_io (IoCancel so)
        (set_session ?i ((SessionArr s1 ! ?i)\<lparr>SessionUseFlag := False\<rparr>) s1)) = Inr s'"
    then obtain so where r: "release_ref env tid ?i (log_io (IoCancel so)
        (set_session ?i ((SessionArr s1 ! ?i)\<lparr>SessionUseFlag := False\<rparr>) s1)) = Inr s'" ..
    have "keeps_ids s (log_io (IoCancel so) (set_session ?i ((SessionArr s1 ! ?i)\<lparr>SessionUseFlag := False\<rparr>) s1))"
      using k i by (simp add: keeps_ids_set)
    then show ?thesis using release_ref_ids [OF r assms(2)] keeps_ids_frees keeps_ids_trans by blast
  next
    assume "\<exists>r. DecrementSessionRef ?i s1 = Inr (s', r)"
    then show ?thesis using k Decrement_ids keeps_ids_trans by blast
  qed
qed

subsection \<open>Bits of identifiers\<close>

lemma FindSession_slot: "FindSession = slot_of"
  by (simp add: fun_eq_iff FindSession_def slot_of_def)

lemma FindSession_mask [simp]: "FindSession (d AND slot_mask) = FindSession d"
  by (simp add: FindSession_slot)

lemma FindSession_or: "n < 2 ^ 48 \<Longrightarrow> FindSession (d OR n) = FindSession d"
  by (simp add: FindSession_slot slot_or)

lemma FindSession_start:
  assumes "i < 65536"
  shows "FindSession (push_bit 48 (of_nat i)) = i \<and> serial (push_bit 48 (of_nat i)) = 0"
  using slot_start [OF assms] by (simp add: FindSession_slot)

subsection \<open>The invariant\<close>

definition ids_ok :: "'u server \<Rightarrow> bool" where
  "ids_ok s \<longleftrightarrow> SessionIDCnt s < 2 ^ 48 \<and>
     (\<forall>i < length (SessionArr s). FindSession (SessionID (SessionArr s ! i)) = i \<and>
        serial (SessionID (SessionArr s ! i)) \<le> SessionIDCnt s \<and>
        (ReleaseFlag (SessionArr s ! i) \<longleftrightarrow> i \<in> set (FreeSessionStack s))) \<and>
     (\<forall>i \<in> set (FreeSessionStack s). i < length (SessionArr s) \<and> serial (SessionID (SessionArr s ! i)) = 0)"

lemma ids_nth:
  "ids s' = (c, xs) \<Longrightarrow> SessionIDCnt s' = c \<and> length (SessionArr s') = length xs \<and>
   (\<forall>i < length xs. SessionID (SessionArr s' ! i) = fst (xs ! i) \<and> ReleaseFlag (SessionArr s' ! i) = snd (xs ! i))"
  by (auto simp: ids_def core_def)

lemma ids_ok_keeps:
  assumes "ids_ok s" "keeps_ids s s'"
  shows "ids_ok s'"
proof -
  have "ids s' = (SessionIDCnt s, map core (SessionArr s))" using assms(2) by (simp add: keeps_ids_def ids_def)
  from ids_nth [OF this] assms show ?thesis by (simp add: ids_ok_def keeps_ids_def core_def)
qed

lemma ids_ok_frees:
  assumes "ids_ok s" "frees_id i s s'"
  shows "ids_ok s'"
proof -
  have "ids s' = (SessionIDCnt s, (map core (SessionArr s))[i := (SessionID (SessionArr s ! i) AND slot_mask, True)])"
    "i < length (SessionArr s)" "FreeSessionStack s' = i # FreeSessionStack s"
    using assms(2) by (simp_all add: frees_id_def)
  with ids_nth [OF this(1)] assms(1) show ?thesis by (auto simp: ids_ok_def nth_list_update core_def)
qed

text \<open>Accepting a session: its identifier is the slot with the next serial number.\<close>

lemma GetFreeSession_ids:
  assumes ok: "ids_ok s" and d: "distinct (FreeSessionStack s)" and c: "SessionIDCnt s < 2 ^ 48 - 1"
    and st: "FreeSessionStack s = i # rest"
  shows "\<exists>s'. GetFreeSession s = Inr (s', Some i) \<and> ids_ok s' \<and> SessionIDCnt s' = SessionIDCnt s + 1 \<and>
     FreeSessionStack s' = rest \<and> length (SessionArr s') = length (SessionArr s) \<and>
     FindSession (SessionID (SessionArr s' ! i)) = i \<and> serial (SessionID (SessionArr s' ! i)) = SessionIDCnt s + 1 \<and>
     (\<forall>j. j \<noteq> i \<longrightarrow> SessionArr s' ! j = SessionArr s ! j)"
proof -
  let ?x = "SessionArr s ! i" and ?id = "SessionIDCnt s + 1"
  let ?s0 = "s\<lparr>FreeSessionStack := rest, SessionIDCnt := ?id\<rparr>"
  let ?s' = "set_session i (init_session ?id ?x) ?s0"
  have i: "i < length (SessionArr s)" "i \<notin> set rest" "serial (SessionID ?x) = 0" "FindSession (SessionID ?x) = i"
    using ok d st by (auto simp: ids_ok_def)
  have lt: "?id < 2 ^ 48" "SessionIDCnt s \<le> ?id" using c by (auto simp: word_less_nat_alt word_le_nat_alt unat_word_ariths)
  have new: "SessionID (SessionArr ?s' ! i) = SessionID ?x OR ?id" using i(1) by (simp add: init_session_def)
  have f: "FindSession (SessionID ?x OR ?id) = i" "serial (SessionID ?x OR ?id) = ?id"
    using FindSession_or [OF lt(1)] serial_or [OF lt(1) i(3)] i(4) by simp_all
  have "GetFreeSession s = Inr (?s', Some i)"
    using st i(1) by (simp add: GetFreeSession_def InitSession_def GenerateSessionID_def with_session_def Let_def)
  moreover have "ids_ok ?s'"
    using ok st i lt f d by (auto simp: ids_ok_def set_session_def nth_list_update init_session_def intro: order_trans)
  moreover have "j \<noteq> i \<longrightarrow> SessionArr ?s' ! j = SessionArr s ! j" for j by (simp add: set_session_def)
  ultimately show ?thesis
    using new f by (intro exI [of _ ?s']) (simp add: set_session_def)
qed

lemma server_run_ids:
  assumes "server_run env frame max_len s U" "quiet_leave env" "fresh_packet (NewPacket env)"
  shows "ids_ok s"
  using assms
proof (induction rule: server_run.induct)
  case (start s fill n base sz)
  then show ?case using FindSession_start by (auto simp: ids_ok_def start_session_def)
next
  case (accept s U s' r)
  then have ok: "ids_ok s" by simp
  have "refs_inv s U" using server_run_inv [OF accept.hyps(1)] accept.prems by simp
  then have d: "distinct (FreeSessionStack s)" by (simp add: refs_inv_def free_stack_ok_def)
  show ?case
  proof (cases "FreeSessionStack s")
    case Nil
    then show ?thesis using ok accept.hyps(3) by (simp add: GetFreeSession_def)
  next
    case (Cons i rest)
    from GetFreeSession_ids [OF ok d accept.hyps(2) Cons] accept.hyps(3) show ?thesis by auto
  qed
next
  case (fill s U p pk pk')
  then show ?case by (auto intro: ids_ok_keeps)
next
  case (kill s U sid tid s')
  then show ?case using KillSession_ids ids_ok_keeps ids_ok_frees by blast
next
  case (release s U i tid s')
  then show ?case using release_ref_ids ids_ok_keeps ids_ok_frees by blast
qed (auto dest: AllocPacket_ids FreePacket_ids SendPacket_ids try_SendPost_ids on_send_complete_ids intro: ids_ok_keeps)

text \<open>C11. Session identifiers are never reused: in every run of fewer than \<open>2 ^ 48\<close> accepted sessions, an
  accepted session gets an identifier that leads back to its own slot and whose serial number is the
  new value of the accept counter, which is larger than the serial number of every identifier any
  slot carries; the other slots keep theirs.\<close>

theorem session_ids_unique:
  assumes "server_run env frame max_len s U" "quiet_leave env" "fresh_packet (NewPacket env)"
    and "SessionIDCnt s < 2 ^ 48 - 1" "FreeSessionStack s = i # rest"
  shows "\<exists>s'. GetFreeSession s = Inr (s', Some i) \<and>
     FindSession (SessionID (SessionArr s' ! i)) = i \<and>
     serial (SessionID (SessionArr s' ! i)) = SessionIDCnt s' \<and> SessionIDCnt s' = SessionIDCnt s + 1 \<and>
     (\<forall>j < length (SessionArr s). FindSession (SessionID (SessionArr s ! j)) = j \<and>
        serial (SessionID (SessionArr s ! j)) < SessionIDCnt s') \<and>
     (\<forall>j. j \<noteq> i \<longrightarrow> SessionArr s' ! j = SessionArr s ! j)"
proof -
  have ok: "ids_ok s" using server_run_ids [OF assms(1-3)] .
  have "refs_inv s U" using server_run_inv [OF assms(1-3)] .
  then have d: "distinct (FreeSessionStack s)" by (simp add: refs_inv_def free_stack_ok_def)
  have lt: "x < SessionIDCnt s + 1" if "x \<le> SessionIDCnt s" for x
    using that assms(4) by (auto simp: word_less_nat_alt word_le_nat_alt unat_word_ariths)
  from GetFreeSession_ids [OF ok d assms(4,5)] obtain s' where
    "GetFreeSession s = Inr (s', Some i)" "SessionIDCnt s' = SessionIDCnt s + 1"
    "FindSession (SessionID (SessionArr s' ! i)) = i" "serial (SessionID (SessionArr s' ! i)) = SessionIDCnt s + 1"
    "\<forall>j. j \<noteq> i \<longrightarrow> SessionArr s' ! j = SessionArr s ! j" by blast
  with ok lt show ?thesis by (intro exI [of _ s']) (auto simp: ids_ok_def)
qed

theorem session_ids_unique_witness:
  "\<exists>s s' :: (u64 \<times> byte list) list server. GetFreeSession s = Inr (s', Some 1) \<and> SessionIDCnt s' = 1"
proof -
  let ?s = "(one_session_server (xor_vtable (XorPacketEncoder 119 50 4096)))
    \<lparr>SessionArr := map (start_session (\<lambda>_. 0)) [0..<2], FreeSessionStack := rev [0..<2], SessionIDCnt := 0\<rparr>"
  have r0: "server_run recording_app (xor_frame_rnd (XorPacketEncoder 119 50 4096)) 4096 ?s (\<lambda>p. 0)"
    by (rule server_run.start [of _ "\<lambda>_. 0" 2 4096 64]) (simp_all add: one_session_server_def)
  have "FreeSessionStack ?s = 1 # [0]" "SessionIDCnt ?s < 2 ^ 48 - 1" by (simp_all add: upt_rec)
  with session_ids_unique [OF r0 quiet_recording recording.new_packet] obtain s' where
    "GetFreeSession ?s = Inr (s', Some 1)" "SessionIDCnt s' = SessionIDCnt ?s + 1" by blast
  then show ?thesis by (intro exI [of _ ?s] exI [of _ s']) simp
qed

end
