(* ===== verification/ServerStats.thy ===== *)
theory ServerStats
  imports NetServer
begin

text \<open>
  The traffic counters of \<open>NetServer\<close>: whatever threads count, \<open>GetTransmit\<close> returns the sums over
  all threads since the last call, modulo \<open>2 ^ 32\<close>.
\<close>

datatype traffic = RecvBytes nat u32 | RecvPacket nat | Sent nat u32 u32

fun count_traffic :: "traffic \<Rightarrow> 'u server \<Rightarrow> 'u server" where
  "count_traffic (RecvBytes tid n) s = AddRecvBytes tid n s"
| "count_traffic (RecvPacket tid) s = AddRecvPacket tid s"
| "count_traffic (Sent tid c n) s = AddSend tid c n s"

text \<open>What one event adds to the four totals.\<close>

fun traffic_row :: "traffic \<Rightarrow> u32 list" where
  "traffic_row (RecvBytes tid n) = [0, wire_bytes n, 0, 0]"
| "traffic_row (RecvPacket tid) = [1, 0, 0, 0]"
| "traffic_row (Sent tid c n) = [0, 0, c, wire_bytes n]"

definition stats_ok :: "'u server \<Rightarrow> bool" where
  "stats_ok s \<longleftrightarrow> distinct (map fst (LogTransmit_Map s)) \<and> (\<forall>(t, a) \<in> set (LogTransmit_Map s). length a = 4)"

definition sum_rows :: "u32 list list \<Rightarrow> u32 list" where
  "sum_rows rows = foldl (map2 (+)) [0, 0, 0, 0] rows"

lemma GetTransmit_rows: "snd (GetTransmit s) = sum_rows (map snd (LogTransmit_Map s))"
proof -
  have "foldl (\<lambda>buf (t, a). map2 (+) buf a) b m = foldl (map2 (+)) b (map snd m)" for b and m :: "(nat \<times> u32 list) list"
    by (induction m arbitrary: b) auto
  then show ?thesis by (simp add: GetTransmit_def sum_rows_def)
qed

lemma list4: "length a = 4 \<longleftrightarrow> (\<exists>w x y z. a = [w, x, y, z])"
  by (auto simp: numeral_eq_Suc length_Suc_conv)

definition row_add :: "u32 list \<Rightarrow> u32 list \<Rightarrow> u32 list" where
  "row_add a b = map2 (+) a b"

lemma length_row_add [simp]: "length (row_add a b) = min (length a) (length b)"
  by (simp add: row_add_def)

lemma row_add_assoc: "row_add (row_add a b) c = row_add a (row_add b c)"
  by (rule nth_equalityI) (auto simp: row_add_def add.assoc)

lemma row_add_commute: "row_add a b = row_add b a"
  by (rule nth_equalityI) (auto simp: row_add_def add.commute)

lemma row_add_zero: "length a = 4 \<Longrightarrow> row_add [0, 0, 0, 0] a = a"
  by (auto simp: row_add_def list4)

lemma row_add_zero2: "length a = 4 \<Longrightarrow> row_add a [0, 0, 0, 0] = a"
  by (auto simp: row_add_def list4)

lemma sum_rows_row_add: "sum_rows = foldl row_add [0, 0, 0, 0]"
  by (simp add: sum_rows_def fun_eq_iff row_add_def [abs_def])

lemma foldl_row_add_start:
  "length b = 4 \<Longrightarrow> \<forall>r \<in> set rows. length r = 4 \<Longrightarrow> foldl row_add b rows = row_add b (sum_rows rows)"
proof (induction rows arbitrary: b)
  case Nil
  then show ?case by (simp add: sum_rows_def row_add_zero2)
next
  case (Cons r rows)
  then have "foldl row_add (row_add b r) rows = row_add (row_add b r) (sum_rows rows)"
    "foldl row_add r rows = row_add r (sum_rows rows)" by simp_all
  moreover have "row_add [0, 0, 0, 0] r = r" using Cons.prems(2) by (simp add: row_add_zero)
  ultimately show ?case by (simp only: sum_rows_row_add foldl_Cons row_add_assoc)
qed

lemma length_sum_rows: "\<forall>r \<in> set rows. length r = 4 \<Longrightarrow> length (sum_rows rows) = 4"
proof (induction rows rule: rev_induct)
  case (snoc r rows)
  then show ?case by (simp add: sum_rows_row_add)
qed (simp add: sum_rows_def)

lemma sum_rows_Cons: "\<forall>x \<in> set (r # rows). length x = 4 \<Longrightarrow> sum_rows (r # rows) = row_add r (sum_rows rows)"
  using foldl_row_add_start [of r rows] by (simp add: sum_rows_row_add row_add_zero)

text \<open>Changing the row of one thread.\<close>

lemma sum_rows_update:
  assumes "distinct (map fst m)" "\<forall>(t, a) \<in> set m. length a = 4" "(tid, a) \<in> set m" "length d = 4"
  shows "sum_rows (map snd (map (\<lambda>(t, b). (t, if t = tid then row_add a d else b)) m)) = row_add (sum_rows (map snd m)) d"
  using assms
proof (induction m)
  case (Cons tb m)
  obtain t b where tb: "tb = (t, b)" by (cases tb)
  let ?f = "\<lambda>(t, b). (t, if t = tid then row_add a d else b)"
  have la: "length a = 4" using Cons.prems(2,3) by auto
  have lm: "\<forall>x \<in> set (map snd m). length x = 4" "\<forall>x \<in> set (map snd (map ?f m)). length x = 4"
    using Cons.prems(2,4) la by auto
  have lb: "length b = 4" using Cons.prems(2) tb by auto
  show ?case
  proof (cases "t = tid")
    case True
    then have ab: "b = a" using Cons.prems(1,3) tb by (force simp: image_iff)
    have "map ?f m = m"
    proof (rule map_idI)
      fix x assume "x \<in> set m"
      then have "fst x \<noteq> tid" using Cons.prems(1) tb True by (auto simp: image_iff)
      then show "?f x = x" by (cases x) simp
    qed
    moreover have "row_add (row_add a d) w = row_add (row_add a w) d" for w
      by (simp only: row_add_assoc row_add_commute [of d w])
    ultimately show ?thesis using True tb ab lm lb la Cons.prems(4)
      by (simp add: sum_rows_Cons)
  next
    case False
    then have "sum_rows (map snd (map ?f m)) = row_add (sum_rows (map snd m)) d"
      using Cons tb by (intro Cons.IH) auto
    then show ?thesis using False tb lm lb
      by (simp add: sum_rows_Cons row_add_assoc)
  qed
qed simp

subsection \<open>Events\<close>

lemma GetThreadTransmitArr_ok:
  assumes "stats_ok s"
  shows "\<exists>s1 a. GetThreadTransmitArr tid s = (s1, a) \<and> stats_ok s1 \<and> (tid, a) \<in> set (LogTransmit_Map s1) \<and> length a = 4 \<and>
     sum_rows (map snd (LogTransmit_Map s1)) = sum_rows (map snd (LogTransmit_Map s))"
proof (cases "map_of (LogTransmit_Map s) tid")
  case None
  then have "tid \<notin> fst ` set (LogTransmit_Map s)" by (simp add: map_of_eq_None_iff)
  moreover have "length (sum_rows (map snd (LogTransmit_Map s))) = 4"
    using assms by (intro length_sum_rows) (auto simp: stats_ok_def)
  then have "sum_rows (map snd (LogTransmit_Map s) @ [[0, 0, 0, 0]]) = sum_rows (map snd (LogTransmit_Map s))"
    by (simp add: sum_rows_row_add row_add_zero2)
  ultimately show ?thesis using None assms by (auto simp: GetThreadTransmitArr_def stats_ok_def)
next
  case (Some a)
  then show ?thesis using assms map_of_SomeD [OF Some] by (auto simp: GetThreadTransmitArr_def stats_ok_def)
qed

lemma set_arr_ok:
  assumes "stats_ok s" "(tid, a) \<in> set (LogTransmit_Map s)" "length d = 4"
  shows "stats_ok (set_arr tid (row_add a d) s) \<and>
     sum_rows (map snd (LogTransmit_Map (set_arr tid (row_add a d) s))) = row_add (sum_rows (map snd (LogTransmit_Map s))) d"
proof -
  have "length a = 4" using assms(1,2) by (auto simp: stats_ok_def)
  then have "stats_ok (set_arr tid (row_add a d) s)"
    using assms by (auto simp: stats_ok_def set_arr_def o_def case_prod_beta)
  then show ?thesis using sum_rows_update [OF _ _ assms(2,3)] assms(1) by (simp add: stats_ok_def set_arr_def)
qed

lemma count_traffic_ok:
  assumes "stats_ok s"
  shows "stats_ok (count_traffic e s) \<and>
     sum_rows (map snd (LogTransmit_Map (count_traffic e s))) =
       row_add (sum_rows (map snd (LogTransmit_Map s))) (traffic_row e)"
proof -
  obtain tid where tid: "(\<exists>n. e = RecvBytes tid n) \<or> e = RecvPacket tid \<or> (\<exists>c n. e = Sent tid c n)" by (cases e) auto
  from GetThreadTransmitArr_ok [OF assms, of tid] obtain s1 a where g: "GetThreadTransmitArr tid s = (s1, a)"
    "stats_ok s1" "(tid, a) \<in> set (LogTransmit_Map s1)" "length a = 4"
    "sum_rows (map snd (LogTransmit_Map s1)) = sum_rows (map snd (LogTransmit_Map s))" by blast
  have "count_traffic e s = set_arr tid (row_add a (traffic_row e)) s1"
    using tid g(1,4) by (auto simp: AddRecvBytes_def AddRecvPacket_def AddSend_def row_add_def list4)
  moreover have "length (traffic_row e) = 4" by (cases e) simp_all
  ultimately show ?thesis using set_arr_ok [OF g(2,3)] g(5) by simp
qed

text \<open>No traffic is lost or counted twice: after any sequence of counting events on any threads,
  \<open>GetTransmit\<close> returns what the counters held before plus the sum of the events (with 40 bytes of
  overhead per started 1460), modulo \<open>2 ^ 32\<close>, and leaves all counters at zero.\<close>

theorem GetTransmit_totals:
  assumes "stats_ok s"
  shows "snd (GetTransmit (fold count_traffic es s)) =
     foldl (map2 (+)) (snd (GetTransmit s)) (map traffic_row es) \<and>
     snd (GetTransmit (fst (GetTransmit (fold count_traffic es s)))) = [0, 0, 0, 0]"
proof -
  have "stats_ok (fold count_traffic es s) \<and> sum_rows (map snd (LogTransmit_Map (fold count_traffic es s))) =
      foldl row_add (sum_rows (map snd (LogTransmit_Map s))) (map traffic_row es)"
    using assms
  proof (induction es arbitrary: s)
    case (Cons e es)
    with count_traffic_ok [OF Cons.prems, of e] show ?case by simp
  qed simp
  moreover have "sum_rows (map snd (map (\<lambda>(t, a). (t, [0, 0, 0, 0])) m)) = [0, 0, 0, 0]"
    for m :: "(nat \<times> u32 list) list"
    by (induction m rule: rev_induct) (auto simp: sum_rows_def)
  then have "snd (GetTransmit (fst (GetTransmit t))) = [0, 0, 0, 0]" for t :: "'a server"
    by (subst GetTransmit_rows) (simp add: GetTransmit_def)
  ultimately show ?thesis by (simp add: GetTransmit_rows row_add_def [abs_def])
qed

theorem GetTransmit_totals_witness:
  "snd (GetTransmit (fold count_traffic [RecvPacket 1, RecvBytes 2 100, RecvPacket 2]
     (NetServer_ctor None (init_pool 4096 64) ()))) = [2, 140, 0, 0]"
proof -
  have "stats_ok (NetServer_ctor None (init_pool 4096 64) ())" by (simp add: stats_ok_def NetServer_ctor_def)
  from GetTransmit_totals [OF this, of "[RecvPacket 1, RecvBytes 2 100, RecvPacket 2]"] show ?thesis
    by (simp add: GetTransmit_def NetServer_ctor_def wire_bytes_def)
qed

end
