(* ===== verification/NetClient.thy ===== *)
theory NetClient
  imports XorEncoder TlsPool Winsock
begin

text \<open>
  \<open>NetClient\<close> (NetworkLibrary/include/NetClient.h, NetworkLibrary/src/NetClient.cpp): the library's
  client side. The engine is written out a second time in the source: sessions, packets, sending,
  receiving, framing, the worker rounds and the counters follow NetClient.cpp here, under the same
  names as the server's; \<open>Connect\<close> takes the place of the accept thread. The conventions are those
  of the server model: an operation runs to its end, a \<open>Session*\<close> is an index of \<open>SessionArr\<close>, the
  results of system calls are arguments, the calls made are recorded.
\<close>

subsection \<open>State\<close>

record session =
  SessionUseFlag :: bool
  ReleaseFlag :: bool
  SessionRef :: u64
  SessionID :: u64
  Socket :: nat
  ServerAddr :: sockaddr
  SendFlag :: u32
  SendPacketCnt :: u32
  SendQ :: "addr list"
  RecvQ :: packet
  SendBuffer :: "addr list"

record 'u client =
  Shutdown :: bool
  SessionIDCnt :: u64
  SessionArr :: "session list"
  TotalSessionCnt :: u16
  ThreadCnt :: u16
  FreeSessionStack :: "nat list"
  PacketPool :: "packet pool"
  LogTransmit_Map :: "(nat \<times> u32 list) list"
  Encoder :: iencoder
  Posted :: "posted list"
  Io :: "io list"
  App :: 'u

record 'u env =
  NewPacket :: packet
  OnConnect :: "u64 \<Rightarrow> 'u client \<Rightarrow> fault + 'u client"
  OnDisconnect :: "u64 \<Rightarrow> 'u client \<Rightarrow> fault + 'u client"
  OnRecv :: "u64 \<Rightarrow> addr \<Rightarrow> 'u client \<Rightarrow> fault + 'u client"

text \<open>Access to a session and to a packet through its pointer.\<close>

definition with_session :: "nat \<Rightarrow> 'u client \<Rightarrow> (session \<Rightarrow> fault + 'b) \<Rightarrow> fault + 'b" where
  "with_session i s k = (if i < length (SessionArr s) then k (SessionArr s ! i) else Inl OutOfBounds)"

definition set_session :: "nat \<Rightarrow> session \<Rightarrow> 'u client \<Rightarrow> 'u client" where
  "set_session i x s = s\<lparr>SessionArr := (SessionArr s)[i := x]\<rparr>"

definition add_ref :: "session \<Rightarrow> session" where
  "add_ref x = x\<lparr>SessionRef := SessionRef x + 1\<rparr>"

definition sub_ref :: "session \<Rightarrow> session" where
  "sub_ref x = x\<lparr>SessionRef := SessionRef x - 1\<rparr>"

definition IncrementSessionRef :: "nat \<Rightarrow> 'u client \<Rightarrow> fault + 'u client" where
  "IncrementSessionRef i s = with_session i s (\<lambda>x. Inr (set_session i (add_ref x) s))"

definition DecrementSessionRef :: "nat \<Rightarrow> 'u client \<Rightarrow> fault + 'u client \<times> u64" where
  "DecrementSessionRef i s =
     with_session i s (\<lambda>x. Inr (set_session i (sub_ref x) s, SessionRef x - 1))"

definition get_packet :: "addr \<Rightarrow> 'u client \<Rightarrow> fault + packet" where
  "get_packet p s = (case read_data (PacketPool s) p of None \<Rightarrow> Inl OutOfBounds | Some pk \<Rightarrow> Inr pk)"

definition set_packet :: "addr \<Rightarrow> packet \<Rightarrow> 'u client \<Rightarrow> 'u client" where
  "set_packet p pk s = s\<lparr>PacketPool := write_data p pk (PacketPool s)\<rparr>"

definition log_io :: "io \<Rightarrow> 'u client \<Rightarrow> 'u client" where
  "log_io e s = s\<lparr>Io := Io s @ [e]\<rparr>"

subsection \<open>Packets\<close>

definition AllocPacket :: "'u env \<Rightarrow> nat \<Rightarrow> 'u client \<Rightarrow> fault + 'u client \<times> addr" where
  "AllocPacket env tid s =
     ebind (tls_Alloc tid (NewPacket env) (PacketPool s)) (\<lambda>(pool, p).
       let s1 = s\<lparr>PacketPool := pool\<rparr>
       in ebind (get_packet p s1) (\<lambda>pk.
            Inr (set_packet p (fst (IncrementRef (ClearPacket pk))) s1, p)))"

definition FreePacket :: "nat \<Rightarrow> addr \<Rightarrow> 'u client \<Rightarrow> fault + 'u client" where
  "FreePacket tid p s =
     ebind (get_packet p s) (\<lambda>pk.
       let (pk', r) = DecrementRef pk; s1 = set_packet p pk' s
       in if r \<noteq> 0 then Inr s1
          else ebind (tls_Free tid p (PacketPool s1)) (\<lambda>pool. Inr (s1\<lparr>PacketPool := pool\<rparr>)))"

subsection \<open>Sessions\<close>

definition FindSession :: "u64 \<Rightarrow> nat" where
  "FindSession sessionID = unat (drop_bit 48 sessionID)"

definition GenerateSessionID :: "'u client \<Rightarrow> 'u client \<times> u64" where
  "GenerateSessionID s = (s\<lparr>SessionIDCnt := SessionIDCnt s + 1\<rparr>, SessionIDCnt s + 1)"

definition init_session :: "u64 \<Rightarrow> session \<Rightarrow> session" where
  "init_session newid x =
     x\<lparr>SessionUseFlag := True, SessionID := SessionID x OR newid, SendFlag := 0,
       SendPacketCnt := 0, RecvQ := ClearPacket (RecvQ x), SendQ := [],
       SessionRef := SessionRef x + 1, ReleaseFlag := False\<rparr>"

definition InitSession :: "nat \<Rightarrow> 'u client \<Rightarrow> fault + 'u client" where
  "InitSession i s =
     (let (s1, newid) = GenerateSessionID s
      in with_session i s1 (\<lambda>x. Inr (set_session i (init_session newid x) s1)))"

definition GetFreeSession :: "'u client \<Rightarrow> fault + 'u client \<times> nat option" where
  "GetFreeSession s =
     (case FreeSessionStack s of
        [] \<Rightarrow> Inr (s, None)
      | i # rest \<Rightarrow>
          ebind (InitSession i (s\<lparr>FreeSessionStack := rest\<rparr>)) (\<lambda>s1. Inr (s1, Some i)))"

fun FreePackets :: "nat \<Rightarrow> addr list \<Rightarrow> 'u client \<Rightarrow> fault + 'u client" where
  "FreePackets tid [] s = Inr s"
| "FreePackets tid (p # ps) s = ebind (FreePacket tid p s) (FreePackets tid ps)"

fun drain_SendQ :: "nat \<Rightarrow> nat \<Rightarrow> addr list \<Rightarrow> 'u client \<Rightarrow> fault + 'u client" where
  "drain_SendQ tid i [] s = Inr s"
| "drain_SendQ tid i (p # ps) s =
     with_session i s (\<lambda>x.
       ebind (FreePacket tid p (set_session i (x\<lparr>SendQ := ps\<rparr>) s)) (drain_SendQ tid i ps))"

text \<open>The first \<open>n\<close> entries of \<open>SendBuffer\<close>; reading past its 1000 entries is a fault.\<close>

definition sent_packets :: "session \<Rightarrow> nat \<Rightarrow> fault + addr list" where
  "sent_packets x n = (if n \<le> length (SendBuffer x) then Inr (take n (SendBuffer x)) else Inl OutOfBounds)"

definition ReleaseSession :: "nat \<Rightarrow> nat \<Rightarrow> 'u client \<Rightarrow> fault + 'u client" where
  "ReleaseSession tid i s =
     with_session i s (\<lambda>x.
       let s1 = log_io (IoClose (Socket x))
                  (set_session i (x\<lparr>SessionID := SessionID x AND 0xffff000000000000\<rparr>) s)
       in ebind (drain_SendQ tid i (SendQ x) s1) (\<lambda>s2.
          with_session i s2 (\<lambda>x2.
          ebind (sent_packets x2 (unat (SendPacketCnt x2))) (\<lambda>ps.
          ebind (FreePackets tid ps s2) (\<lambda>s3.
          with_session i s3 (\<lambda>x3.
            let s4 = set_session i (x3\<lparr>SendPacketCnt := 0\<rparr>) s3
            in Inr (s4\<lparr>FreeSessionStack := i # FreeSessionStack s4\<rparr>)))))))"

text \<open>\<open>InterlockedCompareExchange128\<close> on (ReleaseFlag, RefCnt) with (FALSE, 0).\<close>

definition DisconnectSession :: "'u env \<Rightarrow> nat \<Rightarrow> nat \<Rightarrow> 'u client \<Rightarrow> fault + 'u client" where
  "DisconnectSession env tid i s =
     with_session i s (\<lambda>x.
       if ReleaseFlag x = False \<and> SessionRef x = 0 then
         ebind (OnDisconnect env (SessionID x) (set_session i (x\<lparr>ReleaseFlag := True, SessionRef := 0\<rparr>) s))
           (ReleaseSession tid i)
       else Inr s)"

text \<open>The end of every handler: give the reference back, disconnect when it was the last.\<close>

definition release_ref :: "'u env \<Rightarrow> nat \<Rightarrow> nat \<Rightarrow> 'u client \<Rightarrow> fault + 'u client" where
  "release_ref env tid i s =
     ebind (DecrementSessionRef i s) (\<lambda>(s1, r).
       if r = 0 then DisconnectSession env tid i s1 else Inr s1)"

definition KillSession :: "'u env \<Rightarrow> nat \<Rightarrow> u64 \<Rightarrow> 'u client \<Rightarrow> fault + 'u client" where
  "KillSession env tid sessionID s =
     (let i = FindSession sessionID
      in ebind (IncrementSessionRef i s) (\<lambda>s1.
         with_session i s1 (\<lambda>x.
           if ReleaseFlag x = False \<and> SessionID x = sessionID then
             release_ref env tid i (log_io (IoCancel (Socket x))
               (set_session i (x\<lparr>SessionUseFlag := False\<rparr>) s1))
           else ebind (DecrementSessionRef i s1) (\<lambda>(s2, r). Inr s2))))"

subsection \<open>Sending\<close>

definition SendPacket :: "u64 \<Rightarrow> int \<Rightarrow> addr \<Rightarrow> 'u client \<Rightarrow> fault + 'u client" where
  "SendPacket sessionID rnd p s =
     (let i = FindSession sessionID
      in ebind (IncrementSessionRef i s) (\<lambda>s1.
         with_session i s1 (\<lambda>x.
           if ReleaseFlag x = False \<and> SessionID x = sessionID then
             ebind (get_packet p s1) (\<lambda>pk.
             ebind (Encode (Encoder s1) rnd (fst (IncrementRef pk))) (\<lambda>pk'.
               let s2 = set_session i (x\<lparr>SendQ := SendQ x @ [p]\<rparr>) (set_packet p pk' s1)
               in Inr (s2\<lparr>Posted := Posted s2 @ [PostSend i]\<rparr>)))
           else ebind (DecrementSessionRef i s1) (\<lambda>(s2, r). Inr s2))))"

text \<open>
  The gathering loop of \<open>SendPost\<close>: \<open>n\<close> packets are left, \<open>k\<close> is \<open>wsabufCnt\<close>. The arrays
  \<open>wsabuf\<close> and \<open>SendBuffer\<close> have 1000 entries each. An empty queue makes the source crash.
\<close>

definition kSendBuffer :: nat where
  "kSendBuffer = 1000"

fun send_gather :: "nat \<Rightarrow> nat \<Rightarrow> nat \<Rightarrow> byte list list \<Rightarrow> 'u client \<Rightarrow> fault + 'u client \<times> byte list list" where
  "send_gather i 0 k bufs s = Inr (s, bufs)"
| "send_gather i (Suc n) k bufs s =
     with_session i s (\<lambda>x.
       case SendQ x of
         [] \<Rightarrow> Inl Crashed
       | p # q \<Rightarrow>
           ebind (get_packet p s) (\<lambda>pk.
           ebind (rd_mem (Buffer pk) (Front pk) (GetDataSize pk)) (\<lambda>bs.
             if k < kSendBuffer then
               send_gather i n (Suc k) (bufs @ [bs])
                 (set_session i (x\<lparr>SendQ := q, SendBuffer := (SendBuffer x)[k := p]\<rparr>) s)
             else Inl OutOfBounds)))"

definition cancel_if_unused :: "nat \<Rightarrow> 'u client \<Rightarrow> fault + 'u client" where
  "cancel_if_unused i s =
     with_session i s (\<lambda>x. Inr (if SessionUseFlag x = False then log_io (IoCancel (Socket x)) s else s))"

definition SendPost :: "nat \<Rightarrow> int option \<Rightarrow> 'u client \<Rightarrow> fault + 'u client \<times> bool" where
  "SendPost i retval_WSASend s =
     with_session i s (\<lambda>x.
       if SessionUseFlag x = False then Inr (s, False)
       else if SendFlag x = 1 then Inr (set_session i (x\<lparr>SendFlag := 1\<rparr>) s, False)
       else
         let packetCnt = length (SendQ x);
             s1 = set_session i (x\<lparr>SendFlag := 1\<rparr>) s
         in if packetCnt = 0 then Inr (set_session i (x\<lparr>SendFlag := 0\<rparr>) s1, False)
            else
              ebind (send_gather i packetCnt 0 [] s1) (\<lambda>(s2, bufs).
              with_session i s2 (\<lambda>x2.
                let s3 = log_io (IoSend i bufs)
                           (set_session i (x2\<lparr>SendPacketCnt := of_nat (length bufs)\<rparr>) s2)
                in case retval_WSASend of
                     None \<Rightarrow> ebind (cancel_if_unused i s3) (\<lambda>s4. Inr (s4, True))
                   | Some e \<Rightarrow>
                       if e = WSA_IO_PENDING then ebind (cancel_if_unused i s3) (\<lambda>s4. Inr (s4, True))
                       else if peer_error e then Inr (s3, False)
                       else Inl Crashed)))"

subsection \<open>Receiving\<close>

definition RecvPost :: "nat \<Rightarrow> int option \<Rightarrow> 'u client \<Rightarrow> fault + 'u client \<times> bool" where
  "RecvPost i retval_WSARecv s =
     with_session i s (\<lambda>x.
       if SessionUseFlag x = False then Inr (s, False)
       else
         let s1 = log_io (IoRecv i (Rear (RecvQ x)) (GetFreeSize (RecvQ x))) (set_session i (add_ref x) s)
         in case retval_WSARecv of
              None \<Rightarrow> ebind (cancel_if_unused i s1) (\<lambda>s2. Inr (s2, True))
            | Some e \<Rightarrow>
                if e = WSA_IO_PENDING then ebind (cancel_if_unused i s1) (\<lambda>s2. Inr (s2, True))
                else if peer_error e then ebind (DecrementSessionRef i s1) (\<lambda>(s2, r). Inr (s2, False))
                else Inl Crashed)"

text \<open>\<open>DWORD packetUseSize = recvQ->GetDataSize()\<close> is compared with \<open>size_t\<close> values.\<close>

definition CheckPacketMessageComplete ::
  "'u env \<Rightarrow> nat \<Rightarrow> u64 \<Rightarrow> nat \<Rightarrow> 'u client \<Rightarrow> fault + 'u client \<times> bool" where
  "CheckPacketMessageComplete env tid sessionID i s =
     with_session i s (\<lambda>x.
       let headerSize = GetHeaderSize (Encoder s);
           packetUseSize = unat (word_of_int (GetDataSize (RecvQ x)) :: u32)
       in if packetUseSize \<le> headerSize then Inr (s, False)
          else
            let headerBytes = GetReadBufferPtr (RecvQ x)
            in ebind (VerifyHeaderMagic (Encoder s) headerBytes) (\<lambda>magic.
               if \<not> magic then ebind (KillSession env tid sessionID s) (\<lambda>s1. Inr (s1, False))
               else ebind (PeekPayloadLength (Encoder s) headerBytes) (\<lambda>peek.
                 case peek of
                   None \<Rightarrow> ebind (KillSession env tid sessionID s) (\<lambda>s1. Inr (s1, False))
                 | Some payloadLen \<Rightarrow> Inr (s, \<not> packetUseSize < headerSize + payloadLen))))"

text \<open>\<open>GetData\<close> copies straight to \<open>GetWriteBufferPtr()\<close> of the message packet.\<close>

definition GetPacketMessage :: "addr \<Rightarrow> nat \<Rightarrow> 'u client \<Rightarrow> fault + 'u client \<times> bool" where
  "GetPacketMessage p i s =
     with_session i s (\<lambda>x.
       ebind (PeekPayloadLength (Encoder s) (GetReadBufferPtr (RecvQ x))) (\<lambda>peek.
         case peek of
           None \<Rightarrow> Inr (s, False)
         | Some payloadLen \<Rightarrow>
             ebind (Decode (Encoder s) (RecvQ x)) (\<lambda>(rq, ok).
               let s1 = set_session i (x\<lparr>RecvQ := rq\<rparr>) s
               in if \<not> ok then Inr (s1, False)
                  else
                    ebind (GetData rq (int payloadLen)) (\<lambda>(rq2, bs).
                    ebind (get_packet p s1) (\<lambda>pk.
                    ebind (wr_mem (Buffer pk) (Rear pk) bs) (\<lambda>b.
                      let s2 = set_packet p (pk\<lparr>Buffer := b\<rparr>) (set_session i (x\<lparr>RecvQ := rq2\<rparr>) s1)
                      in if int (length bs) \<noteq> int payloadLen then Inl Crashed
                         else ebind (MoveWritePos (pk\<lparr>Buffer := b\<rparr>) (int payloadLen)) (\<lambda>(pk', n).
                                Inr (set_packet p pk' s2, True))))))))"


subsection \<open>Traffic counters\<close>

text \<open>
  Each thread has four counters (received packets, received bytes, sent packets, sent bytes),
  inserted into the map with the first use; byte counts include 40 bytes per started 1460.
\<close>

definition GetThreadTransmitArr :: "nat \<Rightarrow> 'u client \<Rightarrow> 'u client \<times> u32 list" where
  "GetThreadTransmitArr tid s =
     (case map_of (LogTransmit_Map s) tid of
        Some arr \<Rightarrow> (s, arr)
      | None \<Rightarrow> (s\<lparr>LogTransmit_Map := LogTransmit_Map s @ [(tid, [0, 0, 0, 0])]\<rparr>, [0, 0, 0, 0]))"

definition set_arr :: "nat \<Rightarrow> u32 list \<Rightarrow> 'u client \<Rightarrow> 'u client" where
  "set_arr tid arr s =
     s\<lparr>LogTransmit_Map := map (\<lambda>(t, a). (t, if t = tid then arr else a)) (LogTransmit_Map s)\<rparr>"

definition wire_bytes :: "u32 \<Rightarrow> u32" where
  "wire_bytes n = n + 40 * (n div 1460 + 1)"

definition AddRecvBytes :: "nat \<Rightarrow> u32 \<Rightarrow> 'u client \<Rightarrow> 'u client" where
  "AddRecvBytes tid recvBytes s =
     (let (s1, arr) = GetThreadTransmitArr tid s in set_arr tid (arr[1 := arr ! 1 + wire_bytes recvBytes]) s1)"

definition AddRecvPacket :: "nat \<Rightarrow> 'u client \<Rightarrow> 'u client" where
  "AddRecvPacket tid s =
     (let (s1, arr) = GetThreadTransmitArr tid s in set_arr tid (arr[0 := arr ! 0 + 1]) s1)"

definition AddSend :: "nat \<Rightarrow> u32 \<Rightarrow> u32 \<Rightarrow> 'u client \<Rightarrow> 'u client" where
  "AddSend tid sendPacketCnt sendBytes s =
     (let (s1, arr) = GetThreadTransmitArr tid s
      in set_arr tid (arr[2 := arr ! 2 + sendPacketCnt, 3 := arr ! 3 + wire_bytes sendBytes]) s1)"

definition GetTransmit :: "'u client \<Rightarrow> 'u client \<times> u32 list" where
  "GetTransmit s =
     (s\<lparr>LogTransmit_Map := map (\<lambda>(t, a). (t, [0, 0, 0, 0])) (LogTransmit_Map s)\<rparr>,
      foldl (\<lambda>buf (t, a). map2 (+) buf a) [0, 0, 0, 0] (LogTransmit_Map s))"

definition GetDisconnectedSessionCnt :: "'u client \<Rightarrow> u32" where
  "GetDisconnectedSessionCnt s = of_nat (length (FreeSessionStack s))"

definition GetConnectedSessionCnt :: "'u client \<Rightarrow> u32" where
  "GetConnectedSessionCnt s = ucast (TotalSessionCnt s) - of_nat (length (FreeSessionStack s))"

subsection \<open>The worker thread\<close>

text \<open>
  The message loop of a receive completion. It runs as long as complete messages are found, so it
  is partial: \<open>None\<close> is a loop that never ends.
\<close>

partial_function (option) recv_loop :: "'u env \<Rightarrow> nat \<Rightarrow> nat \<Rightarrow> 'u client \<Rightarrow> (fault + 'u client) option" where
  "recv_loop env tid i s =
     (case with_session i s (\<lambda>x. CheckPacketMessageComplete env tid (SessionID x) i s) of
        Inl e \<Rightarrow> Some (Inl e)
      | Inr (s1, complete) \<Rightarrow>
          if \<not> complete then Some (Inr s1) else
          (case AllocPacket env tid s1 of
             Inl e \<Rightarrow> Some (Inl e)
           | Inr (s2, p) \<Rightarrow>
               (case GetPacketMessage p i s2 of
                  Inl e \<Rightarrow> Some (Inl e)
                | Inr (s3, ok) \<Rightarrow>
                    if \<not> ok then
                      Some (ebind (FreePacket tid p s3) (\<lambda>s4.
                        with_session i s4 (\<lambda>x. KillSession env tid (SessionID x) s4)))
                    else
                      (case with_session i s3 (\<lambda>x.
                              ebind (OnRecv env (SessionID x) p (AddRecvPacket tid s3)) (FreePacket tid p)) of
                         Inl e \<Rightarrow> Some (Inl e)
                       | Inr s4 \<Rightarrow> recv_loop env tid i s4))))"

definition recv_begin :: "nat \<Rightarrow> u32 \<Rightarrow> nat \<Rightarrow> 'u client \<Rightarrow> fault + 'u client" where
  "recv_begin tid transferred i s =
     with_session i (AddRecvBytes tid transferred s) (\<lambda>x.
       ebind (MoveWritePos (RecvQ x) (sint transferred)) (\<lambda>(rq, n).
         Inr (set_session i (x\<lparr>RecvQ := rq\<rparr>) (AddRecvBytes tid transferred s))))"

definition recv_end :: "nat \<Rightarrow> int option \<Rightarrow> 'u client \<Rightarrow> fault + 'u client" where
  "recv_end i retval_WSARecv s =
     with_session i s (\<lambda>x.
       ebind (if GetDataSize (RecvQ x) \<noteq> 0 then ShiftDataToFront (RecvQ x) else Inr (ClearPacket (RecvQ x))) (\<lambda>rq.
       ebind (RecvPost i retval_WSARecv (set_session i (x\<lparr>RecvQ := rq\<rparr>) s)) (\<lambda>(s1, posted).
         Inr s1)))"

definition on_recv_complete ::
  "'u env \<Rightarrow> nat \<Rightarrow> u32 \<Rightarrow> nat \<Rightarrow> int option \<Rightarrow> 'u client \<Rightarrow> (fault + 'u client) option" where
  "on_recv_complete env tid transferred i retval_WSARecv s =
     (case recv_begin tid transferred i s of
        Inl e \<Rightarrow> Some (Inl e)
      | Inr s1 \<Rightarrow>
          (case recv_loop env tid i s1 of
             None \<Rightarrow> None
           | Some r \<Rightarrow> Some (ebind r (recv_end i retval_WSARecv))))"

text \<open>\<open>IncrementSessionRef\<close>, \<open>SendPost\<close>, and the reference back when nothing was posted.\<close>

definition try_SendPost :: "nat \<Rightarrow> int option \<Rightarrow> 'u client \<Rightarrow> fault + 'u client" where
  "try_SendPost i retval_WSASend s =
     ebind (IncrementSessionRef i s) (\<lambda>s1.
     ebind (SendPost i retval_WSASend s1) (\<lambda>(s2, posted).
       if posted then Inr s2 else ebind (DecrementSessionRef i s2) (\<lambda>(s3, r). Inr s3)))"

definition on_send_complete :: "nat \<Rightarrow> u32 \<Rightarrow> nat \<Rightarrow> int option \<Rightarrow> 'u client \<Rightarrow> fault + 'u client" where
  "on_send_complete tid transferred i retval_WSASend s =
     with_session i s (\<lambda>x.
       let s1 = AddSend tid (SendPacketCnt x) transferred s
       in ebind (sent_packets x (unat (SendPacketCnt x))) (\<lambda>ps.
          ebind (FreePackets tid ps s1) (\<lambda>s2.
          with_session i s2 (\<lambda>x2.
            try_SendPost i retval_WSASend (set_session i (x2\<lparr>SendPacketCnt := 0, SendFlag := 0\<rparr>) s2)))))"

text \<open>
  One round of the worker loop for the completion \<open>(transferred, target, ov)\<close>; true means that the
  thread ends. A null session is dereferenced as soon as it is used.
\<close>

definition WorkerThread_step ::
  "'u env \<Rightarrow> nat \<Rightarrow> u32 \<Rightarrow> nat option \<Rightarrow> overlapped \<Rightarrow> int option \<Rightarrow> 'u client
     \<Rightarrow> (fault + 'u client \<times> bool) option" where
  "WorkerThread_step env tid transferred target ov retval s =
     (if transferred = 0 \<and> target = None \<and> ov = OvNull then
        Some (if Shutdown s then Inr (s, True) else Inl Crashed)
      else
        (case target of
           None \<Rightarrow> Some (Inl NullDeref)
         | Some i \<Rightarrow>
             (case (if transferred \<noteq> 0 then
                      (case ov of
                         OvRecv \<Rightarrow> on_recv_complete env tid transferred i retval s
                       | OvSend \<Rightarrow> Some (on_send_complete tid transferred i retval s)
                       | OvSendRequest \<Rightarrow> Some (try_SendPost i retval s)
                       | _ \<Rightarrow> Some (Inl Crashed))
                    else Some (Inr s)) of
                None \<Rightarrow> None
              | Some r \<Rightarrow> Some (ebind r (\<lambda>s1. ebind (release_ref env tid i s1) (\<lambda>s2. Inr (s2, False)))))))"

subsection \<open>Connecting\<close>

text \<open>
  \<open>Connect\<close>: the results of \<open>socket\<close>, \<open>InetPton\<close> and \<open>connect\<close> in their order, then the session
  is set up the way an accepted one is. The returned identifier is read after the connecting
  reference has been given back.
\<close>

record connect_calls =
  socket_result :: "nat option"
  InetPton_result :: "u32 option"
  connect_ok :: bool

definition connect_session ::
  "'u env \<Rightarrow> nat \<Rightarrow> nat \<Rightarrow> nat \<Rightarrow> sockaddr \<Rightarrow> int option \<Rightarrow> 'u client \<Rightarrow> fault + 'u client" where
  "connect_session env tid i sock serverAddr retval_WSARecv s =
     with_session i s (\<lambda>x.
       let s1 = log_io (IoAssociate sock i)
                  (set_session i (x\<lparr>Socket := sock, ServerAddr := serverAddr\<rparr>) s)
       in ebind (OnConnect env (SessionID x) s1) (\<lambda>s2.
          ebind (RecvPost i retval_WSARecv s2) (\<lambda>(s3, posted).
            release_ref env tid i s3)))"

definition Connect ::
  "'u env \<Rightarrow> nat \<Rightarrow> connect_calls \<Rightarrow> u16 \<Rightarrow> int option \<Rightarrow> 'u client \<Rightarrow> fault + 'u client \<times> u64" where
  "Connect env tid os serverPort retval_WSARecv s =
     (case socket_result os of
        None \<Rightarrow> Inr (s, 0)
      | Some sock \<Rightarrow>
          (case InetPton_result os of
             None \<Rightarrow> Inr (log_io (IoClose sock) s, 0)
           | Some ip \<Rightarrow>
               if \<not> connect_ok os then Inr (log_io (IoClose sock) s, 0)
               else ebind (GetFreeSession s) (\<lambda>(s1, free).
                 case free of
                   None \<Rightarrow> Inr (log_io (IoClose sock) s1, 0)
                 | Some i \<Rightarrow>
                     ebind (connect_session env tid i sock (ip, htons serverPort) retval_WSARecv s1) (\<lambda>s2.
                     with_session i s2 (\<lambda>x. Inr (s2, SessionID x))))))"

text \<open>A disconnect on the user's request.\<close>

definition Disconnect :: "'u env \<Rightarrow> nat \<Rightarrow> u64 \<Rightarrow> 'u client \<Rightarrow> fault + 'u client" where
  "Disconnect env tid sessionID s = KillSession env tid sessionID s"

subsection \<open>Start and stop\<close>

definition blank_session :: "(nat \<Rightarrow> byte) \<Rightarrow> session" where
  "blank_session fill =
     \<lparr>SessionUseFlag = False, ReleaseFlag = True, SessionRef = 0, SessionID = 0,
      Socket = 0, ServerAddr = (0, 0), SendFlag = 0, SendPacketCnt = 0, SendQ = [], RecvQ = Packet_ctor 4096 fill,
      SendBuffer = replicate kSendBuffer 0\<rparr>"

definition start_session :: "(nat \<Rightarrow> byte) \<Rightarrow> nat \<Rightarrow> session" where
  "start_session fill i =
     (blank_session fill)\<lparr>ReleaseFlag := True, SessionRef := 0, SessionID := push_bit 48 (of_nat i)\<rparr>"

text \<open>
  \<open>Start\<close> after the socket set-up has succeeded: the session array is created and every session
  pushed to the free stack, so that the last one is on top.
\<close>

definition Start_sessions :: "(nat \<Rightarrow> byte) \<Rightarrow> u16 \<Rightarrow> u16 \<Rightarrow> 'u client \<Rightarrow> 'u client" where
  "Start_sessions fill workerThreadCntTotal maxSessionCnt s =
     s\<lparr>TotalSessionCnt := maxSessionCnt,
       SessionArr := map (start_session fill) [0..<unat maxSessionCnt],
       FreeSessionStack := rev [0..<unat maxSessionCnt] @ FreeSessionStack s,
       ThreadCnt := workerThreadCntTotal\<rparr>"

text \<open>\<open>Start\<close>: the first failing system call returns false.\<close>

record start_calls =
  WSAStartup_ok :: bool
  CreateIoCompletionPort_ok :: bool
  threads_ok :: bool

definition Start ::
  "start_calls \<Rightarrow> (nat \<Rightarrow> byte) \<Rightarrow> u16 \<Rightarrow> u16 \<Rightarrow> 'u client \<Rightarrow> 'u client \<times> bool" where
  "Start os fill workerThreadCntTotal maxSessionCnt s =
     (if \<not> WSAStartup_ok os then (s, False)
      else if \<not> CreateIoCompletionPort_ok os then (s, False)
      else (Start_sessions fill workerThreadCntTotal maxSessionCnt s, threads_ok os))"

text \<open>The constructor: without an encoder of the caller's, the default exclusive-or encoder.\<close>

definition default_encoder :: iencoder where
  "default_encoder = xor_vtable (XorPacketEncoder 0x77 0x32 4096)"

definition NetClient_ctor :: "iencoder option \<Rightarrow> packet pool \<Rightarrow> 'u \<Rightarrow> 'u client" where
  "NetClient_ctor encoder pool a =
     \<lparr>Shutdown = False, SessionIDCnt = 0, SessionArr = [], TotalSessionCnt = 0,
      ThreadCnt = 0, FreeSessionStack = [], PacketPool = pool, LogTransmit_Map = [], Encoder = (case encoder of None \<Rightarrow> default_encoder | Some e \<Rightarrow> e),
      Posted = [], Io = [], App = a\<rparr>"

text \<open>\<open>Stop\<close>: the flag, the round over the sessions, and what is posted to the worker threads.\<close>

fun kill_sessions :: "'u env \<Rightarrow> nat \<Rightarrow> nat list \<Rightarrow> 'u client \<Rightarrow> fault + 'u client" where
  "kill_sessions env tid [] s = Inr s"
| "kill_sessions env tid (i # is) s =
     with_session i s (\<lambda>x.
       ebind (if ReleaseFlag x = False then KillSession env tid (SessionID x) s else Inr s)
         (kill_sessions env tid is))"

definition Stop_begin :: "'u env \<Rightarrow> nat \<Rightarrow> 'u client \<Rightarrow> fault + 'u client \<times> bool" where
  "Stop_begin env tid s =
     (if Shutdown s then Inr (s, False)
      else ebind (kill_sessions env tid [0..<unat (TotalSessionCnt s)] (s\<lparr>Shutdown := True\<rparr>))
             (\<lambda>s1. Inr (s1, True)))"

definition Stop_end :: "'u client \<Rightarrow> 'u client" where
  "Stop_end s = s\<lparr>Posted := Posted s @ replicate (unat (ThreadCnt s)) PostQuit\<rparr>"

end
