(* ===== verification/ClientConnect.thy ===== *)
theory ClientConnect
  imports NetClient SessionId
begin

text \<open>
  What \<open>NetClient::Connect\<close> returns and what it leaves behind: the failures before a session is
  taken, the connected session, and the session that is lost again before its identifier is read.
\<close>

text \<open>A session as it lies on the free stack: released, no reference, only the slot in its identifier.\<close>

definition idle_session :: "nat \<Rightarrow> session \<Rightarrow> bool" where
  "idle_session i x \<longleftrightarrow> ReleaseFlag x \<and> SessionRef x = 0 \<and> SessionID x = push_bit 48 (of_nat i) \<and>
     packet_wf (RecvQ x)"

text \<open>Callbacks that only work on the application's own state.\<close>

definition quiet_client :: "'u env \<Rightarrow> bool" where
  "quiet_client env \<longleftrightarrow>
     (\<forall>sid s. \<exists>a. OnConnect env sid s = Inr (s\<lparr>App := a\<rparr>)) \<and>
     (\<forall>sid s. \<exists>a. OnDisconnect env sid s = Inr (s\<lparr>App := a\<rparr>))"

text \<open>The same with the functions they compute.\<close>

definition app_calls :: "'u env \<Rightarrow> (u64 \<Rightarrow> 'u client \<Rightarrow> 'u) \<Rightarrow> (u64 \<Rightarrow> 'u client \<Rightarrow> 'u) \<Rightarrow> bool" where
  "app_calls env fc fd \<longleftrightarrow> (\<forall>sid s. OnConnect env sid s = Inr (s\<lparr>App := fc sid s\<rparr>)) \<and>
     (\<forall>sid s. OnDisconnect env sid s = Inr (s\<lparr>App := fd sid s\<rparr>))"

lemma quiet_calls: "quiet_client env \<Longrightarrow> \<exists>fc fd. app_calls env fc fd"
  unfolding quiet_client_def app_calls_def by metis

text \<open>The session \<open>Connect\<close> works on, once it is associated with the completion port.\<close>

definition connecting :: "u64 \<Rightarrow> nat \<Rightarrow> sockaddr \<Rightarrow> session \<Rightarrow> session" where
  "connecting newid sock a x = (init_session newid x)\<lparr>Socket := sock, ServerAddr := a\<rparr>"

lemma connecting_fields [simp]:
  "SessionUseFlag (connecting newid sock a x) = True" "ReleaseFlag (connecting newid sock a x) = False"
  "SessionRef (connecting newid sock a x) = SessionRef x + 1"
  "SessionID (connecting newid sock a x) = SessionID x OR newid"
  "SendQ (connecting newid sock a x) = []" "SendPacketCnt (connecting newid sock a x) = 0"
  "Socket (connecting newid sock a x) = sock" "ServerAddr (connecting newid sock a x) = a"
  "RecvQ (connecting newid sock a x) = ClearPacket (RecvQ x)"
  by (simp_all add: connecting_def init_session_def)

lemma set_session_simps [simp]:
  "length (SessionArr (set_session i x s)) = length (SessionArr s)"
  "i < length (SessionArr s) \<Longrightarrow> SessionArr (set_session i x s) ! i = x"
  "i \<noteq> j \<Longrightarrow> SessionArr (set_session i x s) ! j = SessionArr s ! j"
  "set_session i x (set_session i y s) = set_session i x s"
  "FreeSessionStack (set_session i x s) = FreeSessionStack s"
  "SessionIDCnt (set_session i x s) = SessionIDCnt s"
  "Io (set_session i x s) = Io s" "PacketPool (set_session i x s) = PacketPool s"
  by (simp_all add: set_session_def)

lemma log_io_simps [simp]:
  "SessionArr (log_io e s) = SessionArr s" "FreeSessionStack (log_io e s) = FreeSessionStack s"
  "SessionIDCnt (log_io e s) = SessionIDCnt s" "Io (log_io e s) = Io s @ [e]"
  "PacketPool (log_io e s) = PacketPool s"
  by (simp_all add: log_io_def)

lemma GetFreeSession_some:
  assumes "FreeSessionStack c = i # rest" "i < length (SessionArr c)"
  shows "GetFreeSession c =
    Inr (set_session i (init_session (SessionIDCnt c + 1) (SessionArr c ! i))
      (c\<lparr>FreeSessionStack := rest, SessionIDCnt := SessionIDCnt c + 1\<rparr>), Some i)"
  using assms by (simp add: GetFreeSession_def InitSession_def GenerateSessionID_def with_session_def Let_def)

text \<open>The state in which \<open>RecvPost\<close> is called, up to the application's state.\<close>

definition connected_state :: "nat \<Rightarrow> nat list \<Rightarrow> nat \<Rightarrow> sockaddr \<Rightarrow> 'u \<Rightarrow> 'u client \<Rightarrow> 'u client" where
  "connected_state i rest sock a app c =
     (log_io (IoAssociate sock i)
       (set_session i (connecting (SessionIDCnt c + 1) sock a (SessionArr c ! i))
         (c\<lparr>FreeSessionStack := rest, SessionIDCnt := SessionIDCnt c + 1\<rparr>)))\<lparr>App := app\<rparr>"

lemma connected_state_simps [simp]:
  "length (SessionArr (connected_state i rest sock a app c)) = length (SessionArr c)"
  "i < length (SessionArr c) \<Longrightarrow> SessionArr (connected_state i rest sock a app c) ! i =
     connecting (SessionIDCnt c + 1) sock a (SessionArr c ! i)"
  "i \<noteq> j \<Longrightarrow> SessionArr (connected_state i rest sock a app c) ! j = SessionArr c ! j"
  "FreeSessionStack (connected_state i rest sock a app c) = rest"
  "SessionIDCnt (connected_state i rest sock a app c) = SessionIDCnt c + 1"
  by (simp_all add: connected_state_def set_session_def)

lemma Connect_to_RecvPost:
  assumes "FreeSessionStack c = i # rest" "i < length (SessionArr c)" "app_calls env fc fd"
  obtains app s0 where "app = fc (SessionID (SessionArr c ! i) OR (SessionIDCnt c + 1)) s0" "App s0 = App c"
    "Connect env tid \<lparr>socket_result = Some sock, InetPton_result = Some ip, connect_ok = True\<rparr> port rv c =
      ebind (RecvPost i rv (connected_state i rest sock (ip, htons port) app c)) (\<lambda>(s3, posted).
      ebind (release_ref env tid i s3) (\<lambda>s2. with_session i s2 (\<lambda>x. Inr (s2, SessionID x))))"
proof -
  let ?x = "init_session (SessionIDCnt c + 1) (SessionArr c ! i)"
  let ?s1 = "log_io (IoAssociate sock i) (set_session i (?x\<lparr>Socket := sock, ServerAddr := (ip, htons port)\<rparr>)
      (c\<lparr>FreeSessionStack := rest, SessionIDCnt := SessionIDCnt c + 1\<rparr>))"
  let ?app = "fc (SessionID ?x) ?s1"
  have app: "OnConnect env (SessionID ?x) ?s1 = Inr (?s1\<lparr>App := ?app\<rparr>)"
    using assms(3) unfolding app_calls_def by blast
  have "?app = fc (SessionID (SessionArr c ! i) OR (SessionIDCnt c + 1)) ?s1" by (simp add: init_session_def)
  moreover have "App ?s1 = App c" by (simp add: log_io_def set_session_def)
  moreover have "Connect env tid \<lparr>socket_result = Some sock, InetPton_result = Some ip, connect_ok = True\<rparr> port rv c =
      ebind (RecvPost i rv (connected_state i rest sock (ip, htons port) ?app c)) (\<lambda>(s3, posted).
      ebind (release_ref env tid i s3) (\<lambda>s2. with_session i s2 (\<lambda>x. Inr (s2, SessionID x))))"
    using assms(1,2) app by (simp add: Connect_def GetFreeSession_some connect_session_def with_session_def Let_def
        connected_state_def connecting_def ebind_assoc split_def)
  ultimately show thesis by (rule that)
qed

text \<open>A started client with two sessions, and an application that does nothing.\<close>

definition started_client :: "unit client" where
  "started_client = Start_sessions (\<lambda>_. 0) 1 2 (NetClient_ctor None (init_pool 4096 64) ())"

definition silent_app :: "unit env" where
  "silent_app = \<lparr>NewPacket = Packet_ctor kBufferDefault (\<lambda>_. 0), OnConnect = (\<lambda>sid s. Inr s),
     OnDisconnect = (\<lambda>sid s. Inr s), OnRecv = (\<lambda>sid p s. Inr s)\<rparr>"

lemma silent_quiet: "quiet_client silent_app"
  by (simp add: quiet_client_def silent_app_def)

lemma started_facts:
  "FreeSessionStack started_client = 1 # [0]" "length (SessionArr started_client) = 2"
  "idle_session 1 (SessionArr started_client ! 1)" "SessionIDCnt started_client = 0"
proof -
  have "packet_wf (Packet_ctor 4096 (\<lambda>_. 0))" by (rule packet_wf_ctor) (simp_all add: kHeaderDefault_def)
  then show "idle_session 1 (SessionArr started_client ! 1)"
    by (simp add: started_client_def Start_sessions_def idle_session_def start_session_def blank_session_def)
qed (simp_all add: started_client_def Start_sessions_def NetClient_ctor_def upt_rec)

text \<open>\<open>Connect\<close> reports failure as 0 and leaves the sessions alone when the socket cannot be made,
  the address cannot be read, the connection is refused or no session is free, and it closes the
  socket it had opened.\<close>

theorem Connect_failure:
  assumes "socket_result os = None \<or> InetPton_result os = None \<or> \<not> connect_ok os \<or> FreeSessionStack c = []"
  shows "\<exists>c'. Connect env tid os port rv c = Inr (c', 0) \<and> SessionArr c' = SessionArr c \<and>
     FreeSessionStack c' = FreeSessionStack c \<and> SessionIDCnt c' = SessionIDCnt c \<and>
     Io c' = Io c @ (case socket_result os of None \<Rightarrow> [] | Some sock \<Rightarrow> [IoClose sock])"
  using assms by (auto simp: Connect_def GetFreeSession_def split: option.split)

theorem Connect_failure_witness:
  "\<exists>c'. Connect silent_app 0 \<lparr>socket_result = Some 77, InetPton_result = None, connect_ok = True\<rparr> 9000 None started_client
     = Inr (c', 0) \<and> Io c' = Io started_client @ [IoClose 77]"
  using Connect_failure [of "\<lparr>socket_result = Some 77, InetPton_result = None, connect_ok = True\<rparr>" started_client
      silent_app 0 9000 None] by auto

text \<open>C29. A connection that is set up while the socket lives gives a fresh session: the result is its
  identifier, it leads back to the slot and carries the next number; the session is in use, refers to
  the socket and the server's address, and its one reference belongs to the posted receive.\<close>

theorem Connect_success:
  assumes "FreeSessionStack c = i # rest" "i < length (SessionArr c)" "idle_session i (SessionArr c ! i)"
    and "i < 65536" "SessionIDCnt c < 2 ^ 48 - 1" "quiet_client env" "rv = None \<or> rv = Some WSA_IO_PENDING"
  shows "\<exists>c' d. Connect env tid \<lparr>socket_result = Some sock, InetPton_result = Some ip, connect_ok = True\<rparr> port rv c =
       Inr (c', d) \<and> slot_of d = i \<and> serial d = SessionIDCnt c + 1 \<and>
     SessionID (SessionArr c' ! i) = d \<and> SessionUseFlag (SessionArr c' ! i) \<and> \<not> ReleaseFlag (SessionArr c' ! i) \<and>
     SessionRef (SessionArr c' ! i) = 1 \<and> Socket (SessionArr c' ! i) = sock \<and>
     ServerAddr (SessionArr c' ! i) = (ip, htons port) \<and> FreeSessionStack c' = rest \<and>
     (\<exists>r n. Io c' = Io c @ [IoAssociate sock i, IoRecv i r n]) \<and>
     (\<forall>j. j \<noteq> i \<longrightarrow> SessionArr c' ! j = SessionArr c ! j)"
proof -
  let ?x = "SessionArr c ! i" and ?n = "SessionIDCnt c + 1"
  have x: "SessionRef ?x = 0" "SessionID ?x = push_bit 48 (of_nat i)"
    using assms(3) by (simp_all add: idle_session_def)
  have n: "?n < 2 ^ 48" using assms(5) by (auto simp: word_less_nat_alt unat_word_ariths)
  have d: "slot_of (SessionID ?x OR ?n) = i" "serial (SessionID ?x OR ?n) = ?n"
    using slot_or [OF n] serial_or [OF n] slot_start [OF assms(4)] x(2) by simp_all
  from quiet_calls [OF assms(6)] obtain fc fd where "app_calls env fc fd" by blast
  from Connect_to_RecvPost [OF assms(1,2) this] obtain app where
    c: "Connect env tid \<lparr>socket_result = Some sock, InetPton_result = Some ip, connect_ok = True\<rparr> port rv c =
      ebind (RecvPost i rv (connected_state i rest sock (ip, htons port) app c)) (\<lambda>(s3, posted).
      ebind (release_ref env tid i s3) (\<lambda>s2. with_session i s2 (\<lambda>x. Inr (s2, SessionID x))))" .
  let ?c = "connected_state i rest sock (ip, htons port) app c"
  let ?y = "connecting ?n sock (ip, htons port) ?x"
  let ?c1 = "log_io (IoRecv i (Rear (RecvQ ?y)) (GetFreeSize (RecvQ ?y))) (set_session i (add_ref ?y) ?c)"
  have r: "RecvPost i rv ?c = Inr (?c1, True)"
    using assms(2,7) by (auto simp: RecvPost_def with_session_def cancel_if_unused_def add_ref_def Let_def)
  let ?c2 = "set_session i (sub_ref (add_ref ?y)) ?c1"
  have rel: "release_ref env tid i ?c1 = Inr ?c2"
    using assms(2) x(1) by (simp add: release_ref_def DecrementSessionRef_def with_session_def add_ref_def)
  have "Connect env tid \<lparr>socket_result = Some sock, InetPton_result = Some ip, connect_ok = True\<rparr> port rv c =
      Inr (?c2, SessionID ?x OR ?n)"
    using c r rel assms(2) by (simp add: with_session_def sub_ref_def add_ref_def)
  then show ?thesis
    using d assms(2) x(1) by (intro exI conjI) (auto simp: sub_ref_def add_ref_def connected_state_def)
qed

theorem Connect_success_witness:
  "\<exists>c' d. Connect silent_app 0 \<lparr>socket_result = Some 77, InetPton_result = Some 1, connect_ok = True\<rparr> 9000 None
     started_client = Inr (c', d) \<and> slot_of d = 1 \<and> serial d = 1"
proof -
  have l: "1 < length (SessionArr started_client)" "SessionIDCnt started_client < 2 ^ 48 - 1" "(1::nat) < 65536"
    by (simp_all add: started_facts)
  from Connect_success [OF started_facts(1) l(1) started_facts(3) l(3,2) silent_quiet, of None 0 77 1 9000]
  show ?thesis by (auto simp: started_facts(4))
qed

text \<open>The peer is gone before the first receive is posted.\<close>

lemma Connect_lost:
  assumes "FreeSessionStack c = i # rest" "i < length (SessionArr c)" "idle_session i (SessionArr c ! i)"
    and "i < 65536" "SessionIDCnt c < 2 ^ 48 - 1" "app_calls env fc fd" "peer_error e"
  shows "\<exists>c' s0 s1. Connect env tid \<lparr>socket_result = Some sock, InetPton_result = Some ip, connect_ok = True\<rparr> port (Some e) c =
       Inr (c', push_bit 48 (of_nat i)) \<and> FreeSessionStack c' = i # rest \<and> ReleaseFlag (SessionArr c' ! i) \<and>
     (push_bit 48 (of_nat i) = (0 :: u64)) = (i = 0) \<and> length (SessionArr c') = length (SessionArr c) \<and>
     PacketPool c' = PacketPool c \<and> App s0 = App c \<and> App s1 = fc (push_bit 48 (of_nat i) OR (SessionIDCnt c + 1)) s0 \<and>
     App c' = fd (push_bit 48 (of_nat i) OR (SessionIDCnt c + 1)) s1"
proof -
  let ?x = "SessionArr c ! i" and ?n = "SessionIDCnt c + 1"
  have x: "SessionRef ?x = 0" "SessionID ?x = push_bit 48 (of_nat i)"
    using assms(3) by (simp_all add: idle_session_def)
  have n: "?n < 2 ^ 48" using assms(5) by (auto simp: word_less_nat_alt unat_word_ariths)
  obtain app s0 where app: "app = fc (SessionID ?x OR ?n) s0" "App s0 = App c" and
    c: "Connect env tid \<lparr>socket_result = Some sock, InetPton_result = Some ip, connect_ok = True\<rparr> port (Some e) c =
      ebind (RecvPost i (Some e) (connected_state i rest sock (ip, htons port) app c)) (\<lambda>(s3, posted).
      ebind (release_ref env tid i s3) (\<lambda>s2. with_session i s2 (\<lambda>x. Inr (s2, SessionID x))))"
    using Connect_to_RecvPost [OF assms(1,2,6)] .
  let ?c = "connected_state i rest sock (ip, htons port) app c"
  let ?y = "connecting ?n sock (ip, htons port) ?x"
  let ?c1 = "log_io (IoRecv i (Rear (RecvQ ?y)) (GetFreeSize (RecvQ ?y))) (set_session i (add_ref ?y) ?c)"
  let ?c2 = "set_session i (sub_ref (add_ref ?y)) ?c1"
  have ne: "e \<noteq> WSA_IO_PENDING" using assms(7) by (auto simp: peer_error_def WSA_IO_PENDING_def)
  have r: "RecvPost i (Some e) ?c = Inr (?c2, False)"
    using assms(2,7) ne by (simp add: RecvPost_def with_session_def DecrementSessionRef_def Let_def)
  let ?z = "(sub_ref (sub_ref (add_ref ?y)))\<lparr>ReleaseFlag := True, SessionRef := 0\<rparr>"
  let ?c3 = "set_session i ?z ?c2"
  define app' where app': "app' = fd (SessionID ?y) ?c3"
  have dis: "OnDisconnect env (SessionID ?y) ?c3 = Inr (?c3\<lparr>App := app'\<rparr>)"
    using assms(6) unfolding app_calls_def app' by blast
  have app3: "App ?c3 = app" by (simp add: connected_state_def log_io_def set_session_def)
  have rel: "release_ref env tid i ?c2 = ReleaseSession tid i (?c3\<lparr>App := app'\<rparr>)"
    using assms(2) x(1) dis
    by (simp add: release_ref_def DecrementSessionRef_def with_session_def add_ref_def sub_ref_def DisconnectSession_def)
  have m: "(push_bit 48 (of_nat i) OR ?n) AND 0xffff000000000000 = (push_bit 48 (of_nat i) :: u64)"
  proof -
    have "slot_of ((SessionID ?x OR ?n) AND slot_mask) = slot_of (SessionID ?x)" using slot_or [OF n] by simp
    moreover have "serial ((SessionID ?x OR ?n) AND slot_mask) = serial (SessionID ?x)"
      using slot_start [OF assms(4)] x(2) by simp
    ultimately show ?thesis using slot_serial_split x(2) by (metis slot_mask_def)
  qed
  obtain c4 where c4: "ReleaseSession tid i (?c3\<lparr>App := app'\<rparr>) = Inr c4" "FreeSessionStack c4 = i # rest"
    "SessionArr c4 ! i = ?z\<lparr>SessionID := push_bit 48 (of_nat i), SendPacketCnt := 0\<rparr>" "length (SessionArr c4) = length (SessionArr c)"
    "PacketPool c4 = PacketPool c" "App c4 = app'"
    using assms(2) x(2) m
    by (simp add: ReleaseSession_def with_session_def sub_ref_def add_ref_def sent_packets_def Let_def set_session_def)
      (simp add: log_io_def connected_state_def set_session_def)
  have "Connect env tid \<lparr>socket_result = Some sock, InetPton_result = Some ip, connect_ok = True\<rparr> port (Some e) c =
      Inr (c4, push_bit 48 (of_nat i))"
    using c r rel c4 assms(2) by (simp add: with_session_def)
  moreover have "(push_bit 48 (of_nat i) = (0 :: u64)) = (i = 0)"
    using slot_start [OF assms(4)] by (auto simp: slot_of_def)
  ultimately show ?thesis using c4 app app3 app' x(2) by (intro exI [of _ c4] exI [of _ s0] exI [of _ ?c3]) simp
qed

text \<open>When the peer is gone before the first receive is posted (\<open>WSARecv\<close> fails with one of the
  reset codes), the session is disconnected and put back on the free stack before \<open>Connect\<close> reads its
  identifier: the caller gets the bare slot number shifted left by 48, which is 0, the documented
  failure value, only for slot 0.\<close>

theorem Connect_lost_session:
  assumes "FreeSessionStack c = i # rest" "i < length (SessionArr c)" "idle_session i (SessionArr c ! i)"
    and "i < 65536" "SessionIDCnt c < 2 ^ 48 - 1" "quiet_client env" "peer_error e"
  shows "\<exists>c'. Connect env tid \<lparr>socket_result = Some sock, InetPton_result = Some ip, connect_ok = True\<rparr> port (Some e) c =
       Inr (c', push_bit 48 (of_nat i)) \<and> FreeSessionStack c' = i # rest \<and> ReleaseFlag (SessionArr c' ! i) \<and>
     (push_bit 48 (of_nat i) = (0 :: u64)) = (i = 0)"
proof -
  from quiet_calls [OF assms(6)] obtain fc fd where "app_calls env fc fd" by blast
  from Connect_lost [OF assms(1-5) this assms(7), of tid sock ip port] show ?thesis by blast
qed

theorem Connect_lost_session_witness:
  "\<exists>c'. Connect silent_app 0 \<lparr>socket_result = Some 77, InetPton_result = Some 1, connect_ok = True\<rparr> 9000 (Some 10054)
     started_client = Inr (c', 2 ^ 48) \<and> FreeSessionStack c' = [1, 0] \<and> (2 ^ 48 :: u64) \<noteq> 0"
proof -
  have l: "1 < length (SessionArr started_client)" "SessionIDCnt started_client < 2 ^ 48 - 1" "(1::nat) < 65536"
    by (simp_all add: started_facts)
  have "peer_error 10054" by (simp add: peer_error_def)
  from Connect_lost_session [OF started_facts(1) l(1) started_facts(3) l(3,2) silent_quiet this, of 0 77 1 9000]
  show ?thesis by (auto simp: push_bit_eq_mult)
qed

end
