(* ===== verification/ClientServer.thy ===== *)
theory ClientServer
  imports NetServer NetClient
begin

text \<open>
  The client's engine is the server's, written out a second time. \<open>to_server\<close> reads a client state
  as the state of a server without listening socket, \<open>lift_env\<close> turns the client's callbacks into
  callbacks on such states; every operation of NetClient.cpp that NetServer.cpp has too then
  commutes with the translation, faults included, so that what is proved of the server engine holds
  of the client.
\<close>

subsection \<open>The translation\<close>

definition to_session :: "NetClient.session \<Rightarrow> NetServer.session" where
  "to_session x =
     \<lparr>NetServer.session.SessionUseFlag = NetClient.session.SessionUseFlag x,
      ReleaseFlag = NetClient.session.ReleaseFlag x, SessionRef = NetClient.session.SessionRef x,
      SessionID = NetClient.session.SessionID x, LastAction = 0,
      Socket = NetClient.session.Socket x, ClientAddr = NetClient.session.ServerAddr x,
      SendFlag = NetClient.session.SendFlag x, SendPacketCnt = NetClient.session.SendPacketCnt x,
      SendQ = NetClient.session.SendQ x, RecvQ = NetClient.session.RecvQ x,
      SendBuffer = NetClient.session.SendBuffer x\<rparr>"

definition of_session :: "NetServer.session \<Rightarrow> NetClient.session" where
  "of_session x =
     \<lparr>NetClient.session.SessionUseFlag = NetServer.session.SessionUseFlag x,
      ReleaseFlag = NetServer.session.ReleaseFlag x, SessionRef = NetServer.session.SessionRef x,
      SessionID = NetServer.session.SessionID x,
      Socket = NetServer.session.Socket x, ServerAddr = NetServer.session.ClientAddr x,
      SendFlag = NetServer.session.SendFlag x, SendPacketCnt = NetServer.session.SendPacketCnt x,
      SendQ = NetServer.session.SendQ x, RecvQ = NetServer.session.RecvQ x,
      SendBuffer = NetServer.session.SendBuffer x\<rparr>"

definition to_server :: "'u client \<Rightarrow> 'u server" where
  "to_server c =
     \<lparr>NetServer.server.Shutdown = NetClient.client.Shutdown c, ListenSocket = None,
      SessionIDCnt = NetClient.client.SessionIDCnt c,
      SessionArr = map to_session (NetClient.client.SessionArr c),
      TotalSessionCnt = NetClient.client.TotalSessionCnt c, ThreadCnt = NetClient.client.ThreadCnt c,
      FreeSessionStack = NetClient.client.FreeSessionStack c, PacketPool = NetClient.client.PacketPool c,
      LogTransmit_Map = NetClient.client.LogTransmit_Map c, AcceptTotal = 0, AcceptTPS = 0,
      Encoder = NetClient.client.Encoder c, Posted = NetClient.client.Posted c,
      Io = NetClient.client.Io c, App = NetClient.client.App c\<rparr>"

definition of_server :: "'u server \<Rightarrow> 'u client" where
  "of_server s =
     \<lparr>NetClient.client.Shutdown = NetServer.server.Shutdown s,
      SessionIDCnt = NetServer.server.SessionIDCnt s,
      SessionArr = map of_session (NetServer.server.SessionArr s),
      TotalSessionCnt = NetServer.server.TotalSessionCnt s, ThreadCnt = NetServer.server.ThreadCnt s,
      FreeSessionStack = NetServer.server.FreeSessionStack s, PacketPool = NetServer.server.PacketPool s,
      LogTransmit_Map = NetServer.server.LogTransmit_Map s,
      Encoder = NetServer.server.Encoder s, Posted = NetServer.server.Posted s,
      Io = NetServer.server.Io s, App = NetServer.server.App s\<rparr>"

abbreviation lift :: "'e + 'u client \<Rightarrow> 'e + 'u server" where
  "lift \<equiv> map_sum id to_server"

abbreviation lift2 :: "'e + 'u client \<times> 'b \<Rightarrow> 'e + 'u server \<times> 'b" where
  "lift2 \<equiv> map_sum id (map_prod to_server id)"

definition lift_env :: "'u NetClient.env \<Rightarrow> 'u NetServer.env" where
  "lift_env env =
     \<lparr>NetServer.env.NewPacket = NetClient.env.NewPacket env,
      OnConnectionRequest = (\<lambda>s. (s, True)),
      OnClientJoin = (\<lambda>sid s. lift (NetClient.env.OnConnect env sid (of_server s))),
      OnClientLeave = (\<lambda>sid s. lift (NetClient.env.OnDisconnect env sid (of_server s))),
      OnRecv = (\<lambda>sid p s. lift (NetClient.env.OnRecv env sid p (of_server s)))\<rparr>"

lemma of_to_session [simp]: "of_session (to_session x) = x"
  by (simp add: of_session_def to_session_def)

lemma of_to_server [simp]: "of_server (to_server c) = c"
  by (simp add: of_server_def to_server_def o_def)

named_theorems tr "the translation commutes with the accessors and operations"

lemma lift_env_simps [tr]:
  "NetServer.env.NewPacket (lift_env env) = NetClient.env.NewPacket env"
  "NetServer.env.OnClientJoin (lift_env env) sid (to_server c) = lift (NetClient.env.OnConnect env sid c)"
  "NetServer.env.OnClientLeave (lift_env env) sid (to_server c) = lift (NetClient.env.OnDisconnect env sid c)"
  "NetServer.env.OnRecv (lift_env env) sid p (to_server c) = lift (NetClient.env.OnRecv env sid p c)"
  by (simp_all add: lift_env_def)

lemma to_session_simps [tr]:
  "NetServer.session.SessionUseFlag (to_session x) = NetClient.session.SessionUseFlag x"
  "NetServer.session.ReleaseFlag (to_session x) = NetClient.session.ReleaseFlag x"
  "NetServer.session.SessionRef (to_session x) = NetClient.session.SessionRef x"
  "NetServer.session.SessionID (to_session x) = NetClient.session.SessionID x"
  "NetServer.session.Socket (to_session x) = NetClient.session.Socket x"
  "NetServer.session.SendFlag (to_session x) = NetClient.session.SendFlag x"
  "NetServer.session.SendPacketCnt (to_session x) = NetClient.session.SendPacketCnt x"
  "NetServer.session.SendQ (to_session x) = NetClient.session.SendQ x"
  "NetServer.session.RecvQ (to_session x) = NetClient.session.RecvQ x"
  "NetServer.session.SendBuffer (to_session x) = NetClient.session.SendBuffer x"
  by (simp_all add: to_session_def)

lemma to_session_update [tr]:
  "NetServer.session.SessionUseFlag_update f1 (to_session x) = to_session (NetClient.session.SessionUseFlag_update f1 x)"
  "NetServer.session.ReleaseFlag_update f1 (to_session x) = to_session (NetClient.session.ReleaseFlag_update f1 x)"
  "NetServer.session.SessionRef_update f2 (to_session x) = to_session (NetClient.session.SessionRef_update f2 x)"
  "NetServer.session.SessionID_update f2 (to_session x) = to_session (NetClient.session.SessionID_update f2 x)"
  "NetServer.session.LastAction_update (\<lambda>_. 0) (to_session x) = to_session x"
  "NetServer.session.Socket_update f3 (to_session x) = to_session (NetClient.session.Socket_update f3 x)"
  "NetServer.session.ClientAddr_update f4 (to_session x) = to_session (NetClient.session.ServerAddr_update f4 x)"
  "NetServer.session.SendFlag_update f5 (to_session x) = to_session (NetClient.session.SendFlag_update f5 x)"
  "NetServer.session.SendPacketCnt_update f5 (to_session x) = to_session (NetClient.session.SendPacketCnt_update f5 x)"
  "NetServer.session.SendQ_update f6 (to_session x) = to_session (NetClient.session.SendQ_update f6 x)"
  "NetServer.session.RecvQ_update f7 (to_session x) = to_session (NetClient.session.RecvQ_update f7 x)"
  "NetServer.session.SendBuffer_update f6 (to_session x) = to_session (NetClient.session.SendBuffer_update f6 x)"
  by (simp_all add: to_session_def)

lemma to_server_simps [tr]:
  "NetServer.server.Shutdown (to_server c) = NetClient.client.Shutdown c"
  "NetServer.server.ListenSocket (to_server c) = None"
  "NetServer.server.SessionIDCnt (to_server c) = NetClient.client.SessionIDCnt c"
  "NetServer.server.SessionArr (to_server c) = map to_session (NetClient.client.SessionArr c)"
  "NetServer.server.TotalSessionCnt (to_server c) = NetClient.client.TotalSessionCnt c"
  "NetServer.server.ThreadCnt (to_server c) = NetClient.client.ThreadCnt c"
  "NetServer.server.FreeSessionStack (to_server c) = NetClient.client.FreeSessionStack c"
  "NetServer.server.PacketPool (to_server c) = NetClient.client.PacketPool c"
  "NetServer.server.LogTransmit_Map (to_server c) = NetClient.client.LogTransmit_Map c"
  "NetServer.server.Encoder (to_server c) = NetClient.client.Encoder c"
  "NetServer.server.Posted (to_server c) = NetClient.client.Posted c"
  "NetServer.server.Io (to_server c) = NetClient.client.Io c"
  "NetServer.server.App (to_server c) = NetClient.client.App c"
  by (simp_all add: to_server_def)

lemma to_server_update [tr]:
  "NetServer.server.Shutdown_update g1 (to_server c) = to_server (NetClient.client.Shutdown_update g1 c)"
  "NetServer.server.SessionIDCnt_update g2 (to_server c) = to_server (NetClient.client.SessionIDCnt_update g2 c)"
  "NetServer.server.TotalSessionCnt_update g3 (to_server c) = to_server (NetClient.client.TotalSessionCnt_update g3 c)"
  "NetServer.server.ThreadCnt_update g3 (to_server c) = to_server (NetClient.client.ThreadCnt_update g3 c)"
  "NetServer.server.FreeSessionStack_update g4 (to_server c) = to_server (NetClient.client.FreeSessionStack_update g4 c)"
  "NetServer.server.PacketPool_update g5 (to_server c) = to_server (NetClient.client.PacketPool_update g5 c)"
  "NetServer.server.LogTransmit_Map_update g6 (to_server c) = to_server (NetClient.client.LogTransmit_Map_update g6 c)"
  "NetServer.server.Posted_update g7 (to_server c) = to_server (NetClient.client.Posted_update g7 c)"
  "NetServer.server.Io_update g8 (to_server c) = to_server (NetClient.client.Io_update g8 c)"
  by (simp_all add: to_server_def)

text \<open>Binding after a translated result, and translating after a bind.\<close>

lemma ebind_lift [tr]: "ebind (map_sum id f m) g = ebind m (\<lambda>a. g (f a))"
  by (cases m) auto

lemma lift_ebind: "map_sum id f (ebind m g) = ebind m (\<lambda>a. map_sum id f (g a))"
  by (cases m) auto

lemma case_map_prod [tr]: "(case map_prod f id q of (a, b) \<Rightarrow> g a b) = (case q of (a, b) \<Rightarrow> g (f a) b)"
  by (cases q) auto

lemma with_session_tr [tr]:
  "NetServer.with_session i (to_server c) k = NetClient.with_session i c (\<lambda>x. k (to_session x))"
  by (simp add: NetServer.with_session_def NetClient.with_session_def tr)

lemma lift_with_session:
  "map_sum id f (NetClient.with_session i c k) = NetClient.with_session i c (\<lambda>x. map_sum id f (k x))"
  by (simp add: NetClient.with_session_def)

lemma lift_if: "map_sum id f (if b then x else y) = (if b then map_sum id f x else map_sum id f y)"
  by simp

lemmas lift_push = lift_ebind lift_with_session lift_if

lemma set_session_tr [tr]:
  "NetServer.set_session i (to_session x) (to_server c) = to_server (NetClient.set_session i x c)"
  by (simp add: NetServer.set_session_def NetClient.set_session_def to_server_def map_update)

lemma add_ref_tr [tr]: "NetServer.add_ref (to_session x) = to_session (NetClient.add_ref x)"
  and sub_ref_tr [tr]: "NetServer.sub_ref (to_session x) = to_session (NetClient.sub_ref x)"
  by (simp_all add: NetServer.add_ref_def NetClient.add_ref_def NetServer.sub_ref_def NetClient.sub_ref_def tr)

lemma get_packet_tr [tr]: "NetServer.get_packet p (to_server c) = NetClient.get_packet p c"
  and set_packet_tr [tr]: "NetServer.set_packet p pk (to_server c) = to_server (NetClient.set_packet p pk c)"
  and log_io_tr [tr]: "NetServer.log_io e (to_server c) = to_server (NetClient.log_io e c)"
  by (simp_all add: NetServer.get_packet_def NetClient.get_packet_def NetServer.set_packet_def
      NetClient.set_packet_def NetServer.log_io_def NetClient.log_io_def tr)

lemma IncrementSessionRef_tr [tr]:
  "NetServer.IncrementSessionRef i (to_server c) = lift (NetClient.IncrementSessionRef i c)"
  by (simp add: NetServer.IncrementSessionRef_def NetClient.IncrementSessionRef_def tr lift_push)

lemma DecrementSessionRef_tr [tr]:
  "NetServer.DecrementSessionRef i (to_server c) = lift2 (NetClient.DecrementSessionRef i c)"
  by (simp add: NetServer.DecrementSessionRef_def NetClient.DecrementSessionRef_def tr lift_push)

lemma AllocPacket_tr [tr]:
  "NetServer.AllocPacket (lift_env env) tid (to_server c) = lift2 (NetClient.AllocPacket env tid c)"
  by (simp add: NetServer.AllocPacket_def NetClient.AllocPacket_def tr lift_push split_def Let_def)

lemma FreePacket_tr [tr]:
  "NetServer.FreePacket tid p (to_server c) = lift (NetClient.FreePacket tid p c)"
  by (simp add: NetServer.FreePacket_def NetClient.FreePacket_def tr lift_push split_def Let_def cong: if_cong)

subsection \<open>Sessions\<close>

lemma GenerateSessionID_tr [tr]:
  "NetServer.GenerateSessionID (to_server c) = map_prod to_server id (NetClient.GenerateSessionID c)"
  by (simp add: NetServer.GenerateSessionID_def NetClient.GenerateSessionID_def tr)

lemma init_session_tr [tr]:
  "NetServer.init_session newid (to_session x) = to_session (NetClient.init_session newid x)"
  by (simp add: NetServer.init_session_def NetClient.init_session_def to_session_def)

lemma InitSession_tr [tr]:
  "NetServer.InitSession i (to_server c) = lift (NetClient.InitSession i c)"
  by (simp add: NetServer.InitSession_def NetClient.InitSession_def tr lift_push split_def Let_def)

lemma GetFreeSession_tr [tr]:
  "NetServer.GetFreeSession (to_server c) = lift2 (NetClient.GetFreeSession c)"
  by (simp add: NetServer.GetFreeSession_def NetClient.GetFreeSession_def tr lift_push split: list.split)

lemma FreePackets_tr [tr]:
  "NetServer.FreePackets tid ps (to_server c) = lift (NetClient.FreePackets tid ps c)"
  by (induction ps arbitrary: c) (simp_all add: tr lift_push)

lemma drain_SendQ_tr [tr]:
  "NetServer.drain_SendQ tid i ps (to_server c) = lift (NetClient.drain_SendQ tid i ps c)"
  by (induction ps arbitrary: c) (simp_all add: tr lift_push)

lemma sent_packets_tr [tr]: "NetServer.sent_packets (to_session x) n = NetClient.sent_packets x n"
  by (simp add: NetServer.sent_packets_def NetClient.sent_packets_def tr)

lemma ReleaseSession_tr [tr]:
  "NetServer.ReleaseSession tid i (to_server c) = lift (NetClient.ReleaseSession tid i c)"
  by (simp add: NetServer.ReleaseSession_def NetClient.ReleaseSession_def tr lift_push Let_def)

lemma DisconnectSession_tr [tr]:
  "NetServer.DisconnectSession (lift_env env) tid i (to_server c) =
     lift (NetClient.DisconnectSession env tid i c)"
  by (simp add: NetServer.DisconnectSession_def NetClient.DisconnectSession_def tr lift_push cong: if_cong)

lemma release_ref_tr [tr]:
  "NetServer.release_ref (lift_env env) tid i (to_server c) = lift (NetClient.release_ref env tid i c)"
  by (simp add: NetServer.release_ref_def NetClient.release_ref_def tr lift_push split_def cong: if_cong)

lemma FindSession_tr [tr]: "NetServer.FindSession = NetClient.FindSession"
  by (simp add: fun_eq_iff NetServer.FindSession_def NetClient.FindSession_def)

lemma KillSession_tr [tr]:
  "NetServer.KillSession (lift_env env) tid sid (to_server c) = lift (NetClient.KillSession env tid sid c)"
  by (simp add: NetServer.KillSession_def NetClient.KillSession_def tr lift_push split_def Let_def cong: if_cong)

subsection \<open>Sending and receiving\<close>

lemma SendPacket_tr [tr]:
  "NetServer.SendPacket sid rnd p (to_server c) = lift (NetClient.SendPacket sid rnd p c)"
  by (simp add: NetServer.SendPacket_def NetClient.SendPacket_def tr lift_push split_def Let_def cong: if_cong)

lemma kSendBuffer_tr [tr]: "NetServer.kSendBuffer = NetClient.kSendBuffer"
  by (simp add: NetServer.kSendBuffer_def NetClient.kSendBuffer_def)

lemma lift_case_list: "map_sum id f (case xs of [] \<Rightarrow> a | y # ys \<Rightarrow> g y ys) =
    (case xs of [] \<Rightarrow> map_sum id f a | y # ys \<Rightarrow> map_sum id f (g y ys))"
  by (cases xs) auto

lemma lift_case_option: "map_sum id f (case xs of None \<Rightarrow> a | Some y \<Rightarrow> g y) =
    (case xs of None \<Rightarrow> map_sum id f a | Some y \<Rightarrow> map_sum id f (g y))"
  by (cases xs) auto

lemmas lift_cases = lift_case_list lift_case_option

lemma send_gather_tr [tr]:
  "NetServer.send_gather i n k bufs (to_server c) = lift2 (NetClient.send_gather i n k bufs c)"
  by (induction n arbitrary: k bufs c)
    (simp_all add: tr lift_push lift_cases cong: if_cong list.case_cong)

lemma cancel_if_unused_tr [tr]:
  "NetServer.cancel_if_unused i (to_server c) = lift (NetClient.cancel_if_unused i c)"
  by (simp add: NetServer.cancel_if_unused_def NetClient.cancel_if_unused_def tr lift_push
      if_distrib [of Inr] if_distrib [of to_server] cong: if_cong)

lemma SendPost_tr [tr]:
  "NetServer.SendPost i ret (to_server c) = lift2 (NetClient.SendPost i ret c)"
  by (simp add: NetServer.SendPost_def NetClient.SendPost_def tr lift_push lift_cases split_def Let_def
      cong: if_cong option.case_cong)

lemma RecvPost_tr [tr]:
  "NetServer.RecvPost i ret (to_server c) = lift2 (NetClient.RecvPost i ret c)"
  by (simp add: NetServer.RecvPost_def NetClient.RecvPost_def tr lift_push lift_cases split_def Let_def
      cong: if_cong option.case_cong)

lemma CheckPacketMessageComplete_tr [tr]:
  "NetServer.CheckPacketMessageComplete (lift_env env) tid sid i (to_server c) =
     lift2 (NetClient.CheckPacketMessageComplete env tid sid i c)"
  by (simp add: NetServer.CheckPacketMessageComplete_def NetClient.CheckPacketMessageComplete_def tr
      lift_push lift_cases split_def Let_def cong: if_cong option.case_cong)

lemma GetPacketMessage_tr [tr]:
  "NetServer.GetPacketMessage p i (to_server c) = lift2 (NetClient.GetPacketMessage p i c)"
  by (simp add: NetServer.GetPacketMessage_def NetClient.GetPacketMessage_def tr
      lift_push lift_cases split_def Let_def cong: if_cong option.case_cong)

subsection \<open>Counters\<close>

lemma GetThreadTransmitArr_tr [tr]:
  "NetServer.GetThreadTransmitArr tid (to_server c) =
     map_prod to_server id (NetClient.GetThreadTransmitArr tid c)"
  by (simp add: NetServer.GetThreadTransmitArr_def NetClient.GetThreadTransmitArr_def tr split: option.split)

lemma set_arr_tr [tr]: "NetServer.set_arr tid arr (to_server c) = to_server (NetClient.set_arr tid arr c)"
  by (simp add: NetServer.set_arr_def NetClient.set_arr_def tr)

lemma wire_bytes_tr [tr]: "NetServer.wire_bytes n = NetClient.wire_bytes n"
  by (simp add: NetServer.wire_bytes_def NetClient.wire_bytes_def)

lemma counters_tr [tr]:
  "NetServer.AddRecvBytes tid n (to_server c) = to_server (NetClient.AddRecvBytes tid n c)"
  "NetServer.AddRecvPacket tid (to_server c) = to_server (NetClient.AddRecvPacket tid c)"
  "NetServer.AddSend tid m n (to_server c) = to_server (NetClient.AddSend tid m n c)"
  "NetServer.GetTransmit (to_server c) = map_prod to_server id (NetClient.GetTransmit c)"
  by (simp_all add: NetServer.AddRecvBytes_def NetClient.AddRecvBytes_def NetServer.AddRecvPacket_def
      NetClient.AddRecvPacket_def NetServer.AddSend_def NetClient.AddSend_def NetServer.GetTransmit_def
      NetClient.GetTransmit_def tr split_def Let_def)

subsection \<open>The worker thread\<close>

lemma recv_begin_tr [tr]:
  "NetServer.recv_begin tid n i (to_server c) = lift (NetClient.recv_begin tid n i c)"
  by (simp add: NetServer.recv_begin_def NetClient.recv_begin_def tr lift_push split_def)

lemma recv_end_tr [tr]:
  "NetServer.recv_end i ret (to_server c) = lift (NetClient.recv_end i ret c)"
  by (simp add: NetServer.recv_end_def NetClient.recv_end_def tr lift_push split_def cong: if_cong)

lemma try_SendPost_tr [tr]:
  "NetServer.try_SendPost i ret (to_server c) = lift (NetClient.try_SendPost i ret c)"
  by (simp add: NetServer.try_SendPost_def NetClient.try_SendPost_def tr lift_push split_def cong: if_cong)

lemma on_send_complete_tr [tr]:
  "NetServer.on_send_complete tid n i ret (to_server c) = lift (NetClient.on_send_complete tid n i ret c)"
  by (simp add: NetServer.on_send_complete_def NetClient.on_send_complete_def tr lift_push split_def Let_def)

text \<open>
  One round of the message loop: it ends with a result, or goes on in a new state. Both loops
  repeat it, so one returns exactly when the other does.
\<close>

definition recv_round ::
  "'u NetClient.env \<Rightarrow> nat \<Rightarrow> nat \<Rightarrow> 'u client \<Rightarrow> (fault + 'u client) + 'u client" where
  "recv_round env tid i s =
     (case NetClient.with_session i s
            (\<lambda>x. NetClient.CheckPacketMessageComplete env tid (NetClient.session.SessionID x) i s) of
        Inl e \<Rightarrow> Inl (Inl e)
      | Inr (s1, complete) \<Rightarrow>
          if \<not> complete then Inl (Inr s1) else
          (case NetClient.AllocPacket env tid s1 of
             Inl e \<Rightarrow> Inl (Inl e)
           | Inr (s2, p) \<Rightarrow>
               (case NetClient.GetPacketMessage p i s2 of
                  Inl e \<Rightarrow> Inl (Inl e)
                | Inr (s3, ok) \<Rightarrow>
                    if \<not> ok then
                      Inl (ebind (NetClient.FreePacket tid p s3) (\<lambda>s4.
                        NetClient.with_session i s4 (\<lambda>x.
                          NetClient.KillSession env tid (NetClient.session.SessionID x) s4)))
                    else
                      (case NetClient.with_session i s3 (\<lambda>x.
                              ebind (NetClient.env.OnRecv env (NetClient.session.SessionID x) p
                                (NetClient.AddRecvPacket tid s3)) (NetClient.FreePacket tid p)) of
                         Inl e \<Rightarrow> Inl (Inl e)
                       | Inr s4 \<Rightarrow> Inr s4))))"

lemma case_if: "(case (if b then x else y) of Inl a \<Rightarrow> f a | Inr a \<Rightarrow> g a) =
    (if b then (case x of Inl a \<Rightarrow> f a | Inr a \<Rightarrow> g a) else (case y of Inl a \<Rightarrow> f a | Inr a \<Rightarrow> g a))"
  by simp

lemma case_map_sum_id: "(case map_sum id f x of Inl a \<Rightarrow> g a | Inr a \<Rightarrow> h a) =
    (case x of Inl a \<Rightarrow> g a | Inr a \<Rightarrow> h (f a))"
  by (cases x) auto

lemma case_case:
  "(case (case x of Inl a \<Rightarrow> f a | Inr b \<Rightarrow> g b) of Inl a \<Rightarrow> h a | Inr b \<Rightarrow> k b) =
   (case x of Inl a \<Rightarrow> (case f a of Inl a \<Rightarrow> h a | Inr b \<Rightarrow> k b) | Inr b \<Rightarrow> (case g b of Inl a \<Rightarrow> h a | Inr b \<Rightarrow> k b))"
  by (cases x) auto

lemma client_body:
  "(case NetClient.with_session i s
            (\<lambda>x. NetClient.CheckPacketMessageComplete env tid (NetClient.session.SessionID x) i s) of
        Inl e \<Rightarrow> Some (Inl e)
      | Inr (s1, complete) \<Rightarrow>
          if \<not> complete then Some (Inr s1) else
          (case NetClient.AllocPacket env tid s1 of
             Inl e \<Rightarrow> Some (Inl e)
           | Inr (s2, p) \<Rightarrow>
               (case NetClient.GetPacketMessage p i s2 of
                  Inl e \<Rightarrow> Some (Inl e)
                | Inr (s3, ok) \<Rightarrow>
                    if \<not> ok then
                      Some (ebind (NetClient.FreePacket tid p s3) (\<lambda>s4.
                        NetClient.with_session i s4 (\<lambda>x.
                          NetClient.KillSession env tid (NetClient.session.SessionID x) s4)))
                    else
                      (case NetClient.with_session i s3 (\<lambda>x.
                              ebind (NetClient.env.OnRecv env (NetClient.session.SessionID x) p
                                (NetClient.AddRecvPacket tid s3)) (NetClient.FreePacket tid p)) of
                         Inl e \<Rightarrow> Some (Inl e)
                       | Inr s4 \<Rightarrow> rl s4)))) =
   (case recv_round env tid i s of Inl r \<Rightarrow> Some r | Inr s' \<Rightarrow> rl s')"
  by (simp add: recv_round_def case_case split_def case_if cong: if_cong sum.case_cong)

lemma server_body:
  "(case NetServer.with_session i (to_server s)
            (\<lambda>x. NetServer.CheckPacketMessageComplete (lift_env env) tid (NetServer.session.SessionID x) i (to_server s)) of
        Inl e \<Rightarrow> Some (Inl e)
      | Inr (s1, complete) \<Rightarrow>
          if \<not> complete then Some (Inr s1) else
          (case NetServer.AllocPacket (lift_env env) tid s1 of
             Inl e \<Rightarrow> Some (Inl e)
           | Inr (s2, p) \<Rightarrow>
               (case NetServer.GetPacketMessage p i s2 of
                  Inl e \<Rightarrow> Some (Inl e)
                | Inr (s3, ok) \<Rightarrow>
                    if \<not> ok then
                      Some (ebind (NetServer.FreePacket tid p s3) (\<lambda>s4.
                        NetServer.with_session i s4 (\<lambda>x.
                          NetServer.KillSession (lift_env env) tid (NetServer.session.SessionID x) s4)))
                    else
                      (case NetServer.with_session i s3 (\<lambda>x.
                              ebind (NetServer.env.OnRecv (lift_env env) (NetServer.session.SessionID x) p
                                (NetServer.AddRecvPacket tid s3)) (NetServer.FreePacket tid p)) of
                         Inl e \<Rightarrow> Some (Inl e)
                       | Inr s4 \<Rightarrow> rl s4)))) =
   (case recv_round env tid i s of Inl r \<Rightarrow> Some (lift r) | Inr s' \<Rightarrow> rl (to_server s'))"
  by (simp add: recv_round_def tr case_map_sum_id case_case split_def case_if
      lift_ebind [symmetric] lift_with_session [symmetric] cong: if_cong sum.case_cong)

lemma recv_loop_tr:
  "NetServer.recv_loop (lift_env env) tid i (to_server c) = map_option lift (NetClient.recv_loop env tid i c)"
proof -
  have fwd: "NetServer.recv_loop (lift_env env) tid i (to_server c) = Some (lift r)"
    if "NetClient.recv_loop env tid i c = Some r" for r
    using that
  proof (induction env tid i c r rule: NetClient.recv_loop.raw_induct [rotated, consumes 1])
    case (1 rl env tid i c r)
    show ?case
      using 1(2) unfolding client_body
      by (subst NetServer.recv_loop.simps, subst server_body) (cases "recv_round env tid i c"; simp add: 1(1) id_def)
  qed
  have "\<exists>r'. NetClient.recv_loop env tid i c = Some r'"
    if "NetServer.recv_loop env' tid i s = Some r" "env' = lift_env env" "s = to_server c" for env' s r
    using that
  proof (induction env' tid i s r arbitrary: c rule: NetServer.recv_loop.raw_induct [rotated, consumes 1])
    case (1 rl env' tid i s r)
    show ?case
      using 1(2) unfolding 1(3,4) server_body
      by (subst NetClient.recv_loop.simps, subst client_body) (cases "recv_round env tid i c"; simp add: 1(1) id_def)
  qed
  with fwd show ?thesis by (cases "NetServer.recv_loop (lift_env env) tid i (to_server c)";
      cases "NetClient.recv_loop env tid i c") auto
qed

lemma lift_option_case:
  "map_option (map_sum id f) (case r of None \<Rightarrow> None | Some x \<Rightarrow> Some (g x)) =
   (case r of None \<Rightarrow> None | Some x \<Rightarrow> Some (map_sum id f (g x)))"
  by (cases r) auto

lemma on_recv_complete_tr [tr]:
  "NetServer.on_recv_complete (lift_env env) tid n i ret (to_server c) =
     map_option lift (NetClient.on_recv_complete env tid n i ret c)"
proof (cases "NetClient.recv_begin tid n i c")
  case (Inr c1)
  then show ?thesis
    by (cases "NetClient.recv_loop env tid i c1")
      (simp_all add: NetServer.on_recv_complete_def NetClient.on_recv_complete_def recv_begin_tr
        recv_loop_tr tr lift_push recv_end_tr)
qed (simp add: NetServer.on_recv_complete_def NetClient.on_recv_complete_def recv_begin_tr)

lemma WorkerThread_step_tr:
  "NetServer.WorkerThread_step (lift_env env) tid n target ov ret (to_server c) =
     map_option lift2 (NetClient.WorkerThread_step env tid n target ov ret c)"
proof (cases target)
  case None
  then show ?thesis by (simp add: NetServer.WorkerThread_step_def NetClient.WorkerThread_step_def tr)
next
  case (Some i)
  define d where "d = (if n \<noteq> 0 then
      (case ov of
         OvRecv \<Rightarrow> NetClient.on_recv_complete env tid n i ret c
       | OvSend \<Rightarrow> Some (NetClient.on_send_complete tid n i ret c)
       | OvSendRequest \<Rightarrow> Some (NetClient.try_SendPost i ret c)
       | _ \<Rightarrow> Some (Inl Crashed))
      else Some (Inr c))"
  have d': "(if n \<noteq> 0 then
      (case ov of
         OvRecv \<Rightarrow> NetServer.on_recv_complete (lift_env env) tid n i ret (to_server c)
       | OvSend \<Rightarrow> Some (NetServer.on_send_complete tid n i ret (to_server c))
       | OvSendRequest \<Rightarrow> Some (NetServer.try_SendPost i ret (to_server c))
       | _ \<Rightarrow> Some (Inl Crashed))
      else Some (Inr (to_server c))) = map_option lift d"
    by (cases ov) (simp_all add: d_def tr)
  have "(case map_option lift r of None \<Rightarrow> None
      | Some x \<Rightarrow> Some (ebind x (\<lambda>s1. ebind (NetServer.release_ref (lift_env env) tid i s1) (\<lambda>s2. Inr (s2, False))))) =
    map_option lift2 (case r of None \<Rightarrow> None
      | Some x \<Rightarrow> Some (ebind x (\<lambda>s1. ebind (NetClient.release_ref env tid i s1) (\<lambda>s2. Inr (s2, False)))))"
    for r by (cases r) (simp_all add: tr lift_push)
  with Some show ?thesis
    unfolding NetServer.WorkerThread_step_def NetClient.WorkerThread_step_def
    by (simp only: d_def [symmetric] d' option.case option.distinct simp_thms if_False)
qed

subsection \<open>Connecting, starting, stopping\<close>

lemma connect_session_tr:
  "lift (NetClient.connect_session env tid i sock a ret c) =
     NetServer.with_session i (to_server c) (\<lambda>x.
       let s1 = NetServer.log_io (IoAssociate sock i)
                  (NetServer.set_session i (x\<lparr>NetServer.session.Socket := sock, ClientAddr := a\<rparr>) (to_server c))
       in ebind (NetServer.env.OnClientJoin (lift_env env) (NetServer.session.SessionID x) s1) (\<lambda>s2.
          ebind (NetServer.RecvPost i ret s2) (\<lambda>(s3, posted).
            NetServer.release_ref (lift_env env) tid i s3)))"
  by (simp add: NetClient.connect_session_def tr lift_push split_def Let_def)

lemma if_lift: "(if b then map_sum id f r else Inr (f c)) = map_sum id f (if b then r else Inr c)"
  by simp

lemma kill_sessions_tr [tr]:
  "NetServer.kill_sessions (lift_env env) tid is (to_server c) = lift (NetClient.kill_sessions env tid is c)"
  by (induction "is" arbitrary: c) (simp_all add: tr if_lift lift_with_session lift_ebind cong: if_cong)

lemma Stop_begin_tr:
  "NetServer.Stop_begin (lift_env env) tid (to_server c) = lift2 (NetClient.Stop_begin env tid c)"
  by (simp add: NetServer.Stop_begin_def NetClient.Stop_begin_def tr lift_push cong: if_cong)

lemma Stop_end_tr: "NetServer.Stop_end (to_server c) = to_server (NetClient.Stop_end c)"
  by (simp add: NetServer.Stop_end_def NetClient.Stop_end_def tr)

lemma start_session_tr [tr]: "to_session (NetClient.start_session fill i) = NetServer.start_session fill i"
  by (simp add: NetServer.start_session_def NetClient.start_session_def NetServer.blank_session_def
      NetClient.blank_session_def to_session_def NetServer.kSendBuffer_def NetClient.kSendBuffer_def)

lemma Start_sessions_tr:
  "NetServer.Start_sessions fill m n (to_server c) = to_server (NetClient.Start_sessions fill m n c)"
  by (simp add: NetServer.Start_sessions_def NetClient.Start_sessions_def to_server_def tr o_def)

lemma ctor_tr: "NetServer.NetServer_ctor e pool a = to_server (NetClient.NetClient_ctor e pool a)"
  by (simp add: NetServer.NetServer_ctor_def NetClient.NetClient_ctor_def to_server_def
      NetServer.default_encoder_def NetClient.default_encoder_def split: option.split)

text \<open>C9. The client's engine is the server's: a round of the worker thread, sending, killing a
  session, taking a session from the free stack, stopping and reading the counters of NetClient.cpp
  do, on every state, exactly what the operations of NetServer.cpp do on the translated state,
  including every fault and every loop that does not end.\<close>

theorem client_is_server_engine:
  "NetServer.WorkerThread_step (lift_env env) tid n target ov ret (to_server c) =
     map_option lift2 (NetClient.WorkerThread_step env tid n target ov ret c) \<and>
   NetServer.SendPacket sid rnd p (to_server c) = lift (NetClient.SendPacket sid rnd p c) \<and>
   NetServer.KillSession (lift_env env) tid sid (to_server c) = lift (NetClient.KillSession env tid sid c) \<and>
   NetServer.GetFreeSession (to_server c) = lift2 (NetClient.GetFreeSession c) \<and>
   NetServer.Stop_begin (lift_env env) tid (to_server c) = lift2 (NetClient.Stop_begin env tid c) \<and>
   NetServer.Stop_end (to_server c) = to_server (NetClient.Stop_end c) \<and>
   NetServer.GetTransmit (to_server c) = map_prod to_server id (NetClient.GetTransmit c)"
  by (intro conjI WorkerThread_step_tr SendPacket_tr KillSession_tr GetFreeSession_tr Stop_begin_tr
      Stop_end_tr counters_tr)

end
