(* ===== verification/ClientFraming.thy ===== *)
theory ClientFraming
  imports ClientServer ServerFraming
begin

text \<open>
  The receiving side of the client: what \<open>ServerFraming\<close> shows of the server's receive handler,
  carried over by the translation of \<open>ClientServer\<close>, under a contract on the client's callbacks.
\<close>

subsection \<open>Pieces of a byte stream\<close>

text \<open>The kernel stores received bytes at the write position, then the completion is handled.\<close>

definition client_write :: "nat \<Rightarrow> byte list \<Rightarrow> 'u client \<Rightarrow> fault + 'u client" where
  "client_write i bs c =
     NetClient.with_session i c (\<lambda>x.
       ebind (wr_mem (Buffer (NetClient.session.RecvQ x)) (Rear (NetClient.session.RecvQ x)) bs) (\<lambda>b.
         Inr (NetClient.set_session i
           (NetClient.session.RecvQ_update (\<lambda>_. (NetClient.session.RecvQ x)\<lparr>Buffer := b\<rparr>) x) c)))"

definition client_recv_chunk ::
  "'u NetClient.env \<Rightarrow> nat \<Rightarrow> nat \<Rightarrow> byte list \<Rightarrow> 'u client \<Rightarrow> (fault + 'u client) option" where
  "client_recv_chunk env tid i bs c =
     (case client_write i bs c of
        Inl e \<Rightarrow> Some (Inl e)
      | Inr c1 \<Rightarrow> NetClient.on_recv_complete env tid (of_nat (length bs)) i None c1)"

fun client_recv_chunks ::
  "'u NetClient.env \<Rightarrow> nat \<Rightarrow> nat \<Rightarrow> byte list list \<Rightarrow> 'u client \<Rightarrow> (fault + 'u client) option" where
  "client_recv_chunks env tid i [] c = Some (Inr c)"
| "client_recv_chunks env tid i (b # bs) c =
     (case client_recv_chunk env tid i b c of
        None \<Rightarrow> None
      | Some (Inl e) \<Rightarrow> Some (Inl e)
      | Some (Inr c1) \<Rightarrow> client_recv_chunks env tid i bs c1)"

lemma client_write_tr: "kernel_write i bs (to_server c) = lift (client_write i bs c)"
  by (simp add: kernel_write_def client_write_def tr lift_push)

lemma client_recv_chunk_tr:
  "recv_chunk (lift_env env) tid i bs (to_server c) = map_option lift (client_recv_chunk env tid i bs c)"
  by (cases "client_write i bs c")
    (simp_all add: recv_chunk_def client_recv_chunk_def client_write_tr on_recv_complete_tr)

lemma client_recv_chunks_tr:
  "recv_chunks (lift_env env) tid i bs (to_server c) = map_option lift (client_recv_chunks env tid i bs c)"
proof (induction bs arbitrary: c)
  case (Cons b bs)
  show ?case
  proof (cases "client_recv_chunk env tid i b c")
    case (Some r)
    then show ?thesis using Cons.IH by (cases r) (simp_all add: client_recv_chunk_tr)
  qed (simp add: client_recv_chunk_tr)
qed simp

subsection \<open>The contract of a client application\<close>

definition client_keeps_recv :: "'u client \<Rightarrow> 'u client \<Rightarrow> bool" where
  "client_keeps_recv c c' \<longleftrightarrow> keeps_recv (to_server c) (to_server c')"

lemma keeps_recv_back: "keeps_recv (to_server (of_server s)) t \<longleftrightarrow> keeps_recv s t"
  by (simp add: keeps_recv_def to_server_def of_server_def to_session_def of_session_def)

locale client_app =
  fixes env :: "'u NetClient.env" and h :: "u64 \<Rightarrow> byte list \<Rightarrow> 'u \<Rightarrow> 'u" and accepts :: "byte list \<Rightarrow> bool"
  assumes new_packet: "fresh_packet (NetClient.env.NewPacket env)"
    and on_recv: "pool_pkts (NetClient.client.PacketPool c) P \<Longrightarrow> p \<in> P \<Longrightarrow>
      read_data (NetClient.client.PacketPool c) p = Some pk \<Longrightarrow> accepts (packet_data pk) \<Longrightarrow>
      \<exists>c' P'. NetClient.env.OnRecv env sid p c = Inr c' \<and> client_keeps_recv c c' \<and>
        NetClient.client.App c' = h sid (packet_data pk) (NetClient.client.App c) \<and>
        pool_pkts (NetClient.client.PacketPool c') P' \<and> p \<in> P'"
begin

lemma lifted_app: "message_app (lift_env env) h accepts"
proof
  show "fresh_packet (NetServer.env.NewPacket (lift_env env))" using new_packet by (simp add: tr)
next
  fix s :: "'u server" and P p pk sid
  assume a: "pool_pkts (NetServer.server.PacketPool s) P" "p \<in> P"
    "read_data (NetServer.server.PacketPool s) p = Some pk" "accepts (packet_data pk)"
  let ?c = "of_server s"
  have pp: "NetClient.client.PacketPool ?c = NetServer.server.PacketPool s" by (simp add: of_server_def)
  from on_recv [of ?c P p pk sid] a obtain c' P' where
    c': "NetClient.env.OnRecv env sid p ?c = Inr c'" "client_keeps_recv ?c c'"
      "NetClient.client.App c' = h sid (packet_data pk) (NetClient.client.App ?c)"
      "pool_pkts (NetClient.client.PacketPool c') P'" "p \<in> P'" unfolding pp by blast
  have "keeps_recv s (to_server c')"
    using c'(2) by (simp add: client_keeps_recv_def keeps_recv_back)
  moreover have "NetServer.env.OnRecv (lift_env env) sid p s = Inr (to_server c')"
    using c'(1) by (simp add: lift_env_def)
  moreover have "NetServer.server.App (to_server c') = h sid (packet_data pk) (NetServer.server.App s)"
    using c'(3) by (simp add: to_server_def of_server_def)
  moreover have "pool_pkts (NetServer.server.PacketPool (to_server c')) P'" using c'(4) by (simp add: tr)
  ultimately show "\<exists>s' P'. NetServer.env.OnRecv (lift_env env) sid p s = Inr s' \<and> keeps_recv s s' \<and>
      NetServer.server.App s' = h sid (packet_data pk) (NetServer.server.App s) \<and>
      pool_pkts (NetServer.server.PacketPool s') P' \<and> p \<in> P'"
    using c'(5) by blast
qed

lemma client_stream:
  assumes "frame_encoder E frame max_len" "0 < GetHeaderSize E" "rx_inv E i [] (to_server c)"
    "concat chunks = concat (map2 frame rs msgs)" "length rs = length msgs"
    "in_windows (frame_sizes E msgs) 0 chunks" "\<forall>m \<in> set msgs. fits max_len m \<and> m \<noteq> [] \<and> accepts m"
  shows "\<exists>c'. client_recv_chunks env tid i chunks c = Some (Inr c') \<and> rx_inv E i [] (to_server c') \<and>
     NetClient.client.App c' =
       fold (h (NetClient.session.SessionID (NetClient.client.SessionArr c ! i))) msgs (NetClient.client.App c)"
proof -
  have "message_server (lift_env env) h accepts E frame max_len" using lifted_app assms(1) by (rule message_server.intro)
  from message_server.recv_chunks_ok [OF this assms(2,3) _ _ assms(5,7), of chunks tid]
  obtain s' where s': "recv_chunks (lift_env env) tid i chunks (to_server c) = Some (Inr s')" "rx_inv E i [] s'"
    "NetServer.server.App s' = fold (h (NetServer.session.SessionID (NetServer.server.SessionArr (to_server c) ! i)))
       msgs (NetServer.server.App (to_server c))"
    using assms(4,6) by (auto simp: incomplete_def)
  from s'(1) obtain r where r: "client_recv_chunks env tid i chunks c = Some r" "lift r = Inr s'"
    by (auto simp: client_recv_chunks_tr)
  then obtain c' where c': "client_recv_chunks env tid i chunks c = Some (Inr c')" "s' = to_server c'"
    by (cases r) auto
  have "i < length (NetClient.client.SessionArr c)" using assms(3) by (simp add: rx_inv_def tr)
  with s'(2,3) c' show ?thesis by (intro exI [of _ c']) (simp add: tr)
qed

end

subsection \<open>A client that records\<close>

definition recording_client :: "(u64 \<times> byte list) list NetClient.env" where
  "recording_client =
     \<lparr>NetClient.env.NewPacket = Packet_ctor kBufferDefault (\<lambda>_. 0),
      OnConnect = (\<lambda>sid c. Inr c), OnDisconnect = (\<lambda>sid c. Inr c),
      OnRecv = (\<lambda>sid p c. ebind (NetClient.get_packet p c)
        (\<lambda>pk. Inr (NetClient.client.App_update (\<lambda>log. log @ [(sid, packet_data pk)]) c)))\<rparr>"

interpretation recording_client: client_app recording_client "\<lambda>sid m log. log @ [(sid, m)]" "\<lambda>m. True"
proof
  show "fresh_packet (NetClient.env.NewPacket recording_client)"
    by (simp add: recording_client_def fresh_packet_ctor)
qed (auto simp: recording_client_def NetClient.get_packet_def client_keeps_recv_def keeps_recv_def to_server_def)

text \<open>The client delivers the stream too: in whatever pieces that fit the room they are received into the frames of a
  list of non-empty messages of at most 1004 bytes arrive, the receive handler of the client never
  faults, always ends its loop, and hands every message to \<open>OnRecv\<close> once, in order and unchanged.\<close>

theorem client_recv_delivers_stream:
  assumes "client_app env h accepts" "frame_encoder E frame max_len" "0 < GetHeaderSize E"
    and "rx_inv E i [] (to_server c)"
    and "concat chunks = concat (map2 frame rs msgs)" "length rs = length msgs"
    and "in_windows (frame_sizes E msgs) 0 chunks"
    and "\<forall>m \<in> set msgs. fits max_len m \<and> m \<noteq> [] \<and> accepts m"
  shows "\<exists>c'. client_recv_chunks env tid i chunks c = Some (Inr c') \<and> rx_inv E i [] (to_server c') \<and>
     NetClient.client.App c' =
       fold (h (NetClient.session.SessionID (NetClient.client.SessionArr c ! i))) msgs (NetClient.client.App c)"
  using client_app.client_stream [OF assms] .

definition one_session_client :: "iencoder \<Rightarrow> (u64 \<times> byte list) list client" where
  "one_session_client E = of_server (one_session_server E)"

lemma one_session_client_rx: "rx_inv E 0 [] (to_server (one_session_client E))"
  using one_session_rx [of E]
  by (simp add: one_session_client_def rx_inv_def to_server_def of_server_def to_session_def of_session_def)

theorem client_recv_delivers_stream_witness:
  "\<exists>c'. client_recv_chunks recording_client 0 0
      [take 3 (xor_frame_rnd (XorPacketEncoder 119 50 4096) 7 [1, 2]),
       drop 3 (xor_frame_rnd (XorPacketEncoder 119 50 4096) 7 [1, 2])]
      (one_session_client (xor_vtable (XorPacketEncoder 119 50 4096))) = Some (Inr c') \<and>
    NetClient.client.App c' = [(1, [1, 2])]"
proof -
  let ?e = "XorPacketEncoder 119 50 4096"
  have f: "fits (xor_max_len ?e) [1, 2]" by (simp add: fits_def xor_max_len_def XorPacketEncoder_def max_message_def)
  have l: "length (xor_frame_rnd ?e 7 [1, 2]) = 7" by (simp add: xor_frame_rnd_def sizeof_NetHeader_def)
  have h: "0 < GetHeaderSize (xor_vtable ?e)" by (simp add: xor_vtable_def sizeof_NetHeader_def)
  have w: "in_windows (frame_sizes (xor_vtable ?e) [[1, 2]]) 0 [take 3 (xor_frame_rnd ?e 7 [1, 2]), drop 3 (xor_frame_rnd ?e 7 [1, 2])]"
    by (rule small_pieces_fit) (simp_all add: l frame_sizes_def xor_vtable_def sizeof_NetHeader_def)
  from client_recv_delivers_stream [OF recording_client.client_app_axioms xor.frame_encoder_axioms h one_session_client_rx
      _ _ w, of "[7]" 0] f l
  show ?thesis by (auto simp: one_session_client_def of_server_def of_session_def one_session_server_def
      NetServer.init_session_def NetServer.start_session_def NetServer.blank_session_def)
qed

end
