(* ===== verification/EndToEnd.thy ===== *)
theory EndToEnd
  imports ServerSend ClientFraming
begin

text \<open>
  The library end to end: what an application hands to \<open>NetServer::SendPacket\<close> is what the
  application of \<open>NetClient\<close> at the other end of the connection gets in \<open>OnRecv\<close>.
\<close>

subsection \<open>Sending a list of packets\<close>

text \<open>One call of \<open>SendPacket\<close> per packet; the number is the random byte drawn by the encoder.\<close>

fun send_all :: "u64 \<Rightarrow> (int \<times> addr) list \<Rightarrow> 'u server \<Rightarrow> fault + 'u server" where
  "send_all sid [] s = Inr s"
| "send_all sid ((rnd, p) # ps) s = ebind (NetServer.SendPacket sid rnd p s) (send_all sid ps)"

text \<open>A packet the application holds, not encoded yet and of a sendable size.\<close>

definition outgoing :: "nat \<Rightarrow> (addr \<Rightarrow> nat) \<Rightarrow> 'u server \<Rightarrow> addr \<Rightarrow> bool" where
  "outgoing max_len U s p \<longleftrightarrow> 0 < U p \<and> U p + session_refs s p + 1 < 2 ^ 32 \<and>
     (\<exists>pk. NetServer.get_packet p s = Inr pk \<and> \<not> EncodeFlag pk \<and> sendable max_len pk)"

lemma send_one:
  assumes "refs_inv s U" "live_id s sid" "outgoing max_len U s p"
    "frame_encoder (NetServer.server.Encoder s) frame max_len"
  shows "\<exists>s'. NetServer.SendPacket sid rnd p s = Inr s' \<and> refs_inv s' U \<and> live_id s' sid \<and>
     NetServer.server.Encoder s' = NetServer.server.Encoder s \<and>
     length (NetServer.server.SessionArr s') = length (NetServer.server.SessionArr s) \<and>
     NetServer.session.SendQ (NetServer.server.SessionArr s' ! NetServer.FindSession sid) =
       NetServer.session.SendQ (NetServer.server.SessionArr s ! NetServer.FindSession sid) @ [p] \<and>
     NetServer.session.SendFlag (NetServer.server.SessionArr s' ! NetServer.FindSession sid) =
       NetServer.session.SendFlag (NetServer.server.SessionArr s ! NetServer.FindSession sid) \<and>
     NetServer.session.SessionUseFlag (NetServer.server.SessionArr s' ! NetServer.FindSession sid) =
       NetServer.session.SessionUseFlag (NetServer.server.SessionArr s ! NetServer.FindSession sid) \<and>
     packet_bytes s' p = frame rnd (packet_bytes s p) \<and>
     (\<exists>q. NetServer.get_packet p s' = Inr q \<and> packet_wf q) \<and>
     (\<forall>r. r \<noteq> p \<longrightarrow> NetServer.get_packet r s' = NetServer.get_packet r s \<and> session_refs s' r = session_refs s r)"
proof -
  let ?i = "NetServer.FindSession sid"
  let ?x = "NetServer.server.SessionArr s ! ?i"
  from assms(3) obtain pk where p: "0 < U p" "U p + session_refs s p + 1 < 2 ^ 32"
    "NetServer.get_packet p s = Inr pk" "\<not> EncodeFlag pk" "sendable max_len pk" by (auto simp: outgoing_def)
  from refs_inv_SendPacket [OF assms(1,2) p(1,2) assms(4) p(3,5), of rnd] obtain s' q where
    s': "NetServer.SendPacket sid rnd p s = Inr s'" "refs_inv s' U" "NetServer.get_packet p s' = Inr q"
      "packet_data q = wire_data frame rnd pk" "good_packet q"
      "NetServer.server.SessionArr s' = (NetServer.server.SessionArr s)[?i :=
         NetServer.session.SendQ_update (\<lambda>_. NetServer.session.SendQ ?x @ [p]) (NetServer.add_ref ?x)]"
      "NetServer.server.Encoder s' = NetServer.server.Encoder s"
      "\<forall>r. r \<noteq> p \<longrightarrow> NetServer.get_packet r s' = NetServer.get_packet r s" by auto
  have i: "?i < length (NetServer.server.SessionArr s)" using assms(2) by (simp add: live_id_def)
  let ?y = "NetServer.session.SendQ_update (\<lambda>_. NetServer.session.SendQ ?x @ [p]) (NetServer.add_ref ?x)"
  have "session_refs s' r = session_refs s r" if "r \<noteq> p" for r
  proof -
    have "session_refs s' r = session_refs (NetServer.set_session ?i ?y s) r"
      using s'(6) by (simp add: session_refs_def NetServer.set_session_def)
    then show ?thesis using session_refs_set [OF i, of ?y r] that by (simp add: held_by_def)
  qed
  moreover have "live_id s' sid" using assms(2) s'(6) i by (simp add: live_id_def)
  moreover have "packet_bytes s' p = frame rnd (packet_bytes s p)"
    using s'(3,4) p(3,4) by (simp add: packet_bytes_def wire_data_def)
  moreover have "packet_wf q" using s'(5) by (simp add: good_packet_def)
  ultimately show ?thesis using s' i by (intro exI [of _ s']) simp
qed

lemma send_all_ok:
  assumes "refs_inv s U" "live_id s sid" "frame_encoder (NetServer.server.Encoder s) frame max_len"
    "\<forall>p \<in> set (map snd rps). outgoing max_len U s p" "distinct (map snd rps)"
  shows "\<exists>s'. send_all sid rps s = Inr s' \<and> refs_inv s' U \<and> live_id s' sid \<and>
     length (NetServer.server.SessionArr s') = length (NetServer.server.SessionArr s) \<and>
     NetServer.session.SendQ (NetServer.server.SessionArr s' ! NetServer.FindSession sid) =
       NetServer.session.SendQ (NetServer.server.SessionArr s ! NetServer.FindSession sid) @ map snd rps \<and>
     NetServer.session.SendFlag (NetServer.server.SessionArr s' ! NetServer.FindSession sid) =
       NetServer.session.SendFlag (NetServer.server.SessionArr s ! NetServer.FindSession sid) \<and>
     NetServer.session.SessionUseFlag (NetServer.server.SessionArr s' ! NetServer.FindSession sid) =
       NetServer.session.SessionUseFlag (NetServer.server.SessionArr s ! NetServer.FindSession sid) \<and>
     map (packet_bytes s') (map snd rps) = map2 frame (map fst rps) (map (packet_bytes s) (map snd rps)) \<and>
     (\<forall>p \<in> set (map snd rps). \<exists>q. NetServer.get_packet p s' = Inr q \<and> packet_wf q) \<and>
     (\<forall>r. r \<notin> set (map snd rps) \<longrightarrow> NetServer.get_packet r s' = NetServer.get_packet r s)"
  using assms
proof (induction rps arbitrary: s)
  case Nil
  then show ?case by simp
next
  case (Cons rp rps)
  obtain rnd p where rp: "rp = (rnd, p)" by (cases rp)
  from Cons.prems have og: "outgoing max_len U s p" by (simp add: rp)
  from send_one [OF Cons.prems(1,2) og Cons.prems(3), of rnd] obtain s1 where
    s1: "NetServer.SendPacket sid rnd p s = Inr s1" "refs_inv s1 U" "live_id s1 sid"
     "NetServer.server.Encoder s1 = NetServer.server.Encoder s"
     "length (NetServer.server.SessionArr s1) = length (NetServer.server.SessionArr s)"
     "NetServer.session.SendQ (NetServer.server.SessionArr s1 ! NetServer.FindSession sid) =
       NetServer.session.SendQ (NetServer.server.SessionArr s ! NetServer.FindSession sid) @ [p]"
     "NetServer.session.SendFlag (NetServer.server.SessionArr s1 ! NetServer.FindSession sid) =
       NetServer.session.SendFlag (NetServer.server.SessionArr s ! NetServer.FindSession sid)"
     "NetServer.session.SessionUseFlag (NetServer.server.SessionArr s1 ! NetServer.FindSession sid) =
       NetServer.session.SessionUseFlag (NetServer.server.SessionArr s ! NetServer.FindSession sid)"
     "packet_bytes s1 p = frame rnd (packet_bytes s p)"
     "\<exists>q. NetServer.get_packet p s1 = Inr q \<and> packet_wf q"
     "\<forall>r. r \<noteq> p \<longrightarrow> NetServer.get_packet r s1 = NetServer.get_packet r s \<and> session_refs s1 r = session_refs s r"
    by blast
  have d: "p \<notin> set (map snd rps)" "distinct (map snd rps)" using Cons.prems(5) by (simp_all add: rp)
  have og1: "\<forall>q \<in> set (map snd rps). outgoing max_len U s1 q"
  proof
    fix q assume q: "q \<in> set (map snd rps)"
    with d have "q \<noteq> p" by metis
    moreover have "outgoing max_len U s q" using Cons.prems(4) q by auto
    ultimately show "outgoing max_len U s1 q" using s1(11) by (simp add: outgoing_def)
  qed
  from Cons.IH [OF s1(2,3) _ og1 d(2)] Cons.prems(3) s1(4) obtain s2 where
    s2: "send_all sid rps s1 = Inr s2" "refs_inv s2 U" "live_id s2 sid"
     "length (NetServer.server.SessionArr s2) = length (NetServer.server.SessionArr s1)"
     "NetServer.session.SendQ (NetServer.server.SessionArr s2 ! NetServer.FindSession sid) =
       NetServer.session.SendQ (NetServer.server.SessionArr s1 ! NetServer.FindSession sid) @ map snd rps"
     "NetServer.session.SendFlag (NetServer.server.SessionArr s2 ! NetServer.FindSession sid) =
       NetServer.session.SendFlag (NetServer.server.SessionArr s1 ! NetServer.FindSession sid)"
     "NetServer.session.SessionUseFlag (NetServer.server.SessionArr s2 ! NetServer.FindSession sid) =
       NetServer.session.SessionUseFlag (NetServer.server.SessionArr s1 ! NetServer.FindSession sid)"
     "map (packet_bytes s2) (map snd rps) = map2 frame (map fst rps) (map (packet_bytes s1) (map snd rps))"
     "\<forall>p \<in> set (map snd rps). \<exists>q. NetServer.get_packet p s2 = Inr q \<and> packet_wf q"
     "\<forall>r. r \<notin> set (map snd rps) \<longrightarrow> NetServer.get_packet r s2 = NetServer.get_packet r s1" by auto
  have g2: "NetServer.get_packet p s2 = NetServer.get_packet p s1" using s2(10) d(1) by blast
  have b1: "map (packet_bytes s1) (map snd rps) = map (packet_bytes s) (map snd rps)"
    using s1(11) d(1) by (auto simp: packet_bytes_def intro!: arg_cong [of _ _ "case_sum _ _"])
  have "send_all sid (rp # rps) s = Inr s2" using s1(1) s2(1) by (simp add: rp)
  moreover have "map (packet_bytes s2) (map snd (rp # rps)) =
      map2 frame (map fst (rp # rps)) (map (packet_bytes s) (map snd (rp # rps)))"
    using s2(8) [unfolded b1] g2 s1(9) by (simp add: rp packet_bytes_def del: map_map)
  moreover have "NetServer.get_packet r s2 = NetServer.get_packet r s" if "r \<notin> set (map snd (rp # rps))" for r
    using that s2(10) s1(11) by (simp add: rp)
  ultimately show ?case using s1(5-8,10) s2 g2 by (intro exI [of _ s2]) (simp add: rp)
qed

lemma outgoing_length:
  "outgoing max_len U s p \<Longrightarrow> length (packet_bytes s p) \<le> max_len"
  by (auto simp: outgoing_def sendable_def packet_bytes_def)

text \<open>C1. What is sent is what is received: in any reachable server state, on a live, idle session with
  an empty queue, sending between 1 and 1000 distinct packets whose payloads have between 1 and 1004 bytes and are
  acceptable to the client's callbacks, and posting the send issues one \<open>WSASend\<close> with the frames of the payloads; and in
  whatever pieces that fit the receive windows of the client these bytes arrive (4076 bytes when nothing is pending
  there, else 4096 less the pending bytes), the client hands to its \<open>OnRecv\<close> exactly the payloads, each once and in the
  order of the \<open>SendPacket\<close> calls. Longer pieces overrun the client's buffer, as in \<open>long_piece_overruns\<close>.\<close>

theorem server_to_client_delivery:
  assumes "server_run senv frame max_len s U" "quiet_leave senv" "fresh_packet (NetServer.env.NewPacket senv)"
    and "NetServer.server.Encoder s = E" "frame_encoder E frame max_len" "0 < GetHeaderSize E"
    and "live_id s sid" "x = NetServer.server.SessionArr s ! NetServer.FindSession sid"
    and "NetServer.session.SessionUseFlag x" "NetServer.session.SendFlag x \<noteq> 1" "NetServer.session.SendQ x = []"
    and "distinct (map snd rps)" "rps \<noteq> []" "length rps \<le> 1000"
    and "\<forall>p \<in> set (map snd rps). outgoing max_len U s p \<and>
       packet_bytes s p \<noteq> [] \<and> length (packet_bytes s p) \<le> max_message \<and> accepts (packet_bytes s p)"
    and "client_app cenv h accepts" "rx_inv E j [] (to_server c)"
  shows "\<exists>s1 s2 bufs. send_all sid rps s = Inr s1 \<and>
     NetServer.SendPost (NetServer.FindSession sid) None s1 = Inr (s2, True) \<and>
     NetServer.server.Io s2 = NetServer.server.Io s1 @ [IoSend (NetServer.FindSession sid) bufs] \<and>
     bufs = map2 frame (map fst rps) (map (packet_bytes s) (map snd rps)) \<and>
     (\<forall>chunks. concat chunks = concat bufs \<and> in_windows (frame_sizes E (map (packet_bytes s) (map snd rps))) 0 chunks \<longrightarrow>
       (\<exists>c'. client_recv_chunks cenv tid j chunks c = Some (Inr c') \<and>
          NetClient.client.App c' =
            fold (h (NetClient.session.SessionID (NetClient.client.SessionArr c ! j)))
              (map (packet_bytes s) (map snd rps)) (NetClient.client.App c)))"
proof -
  let ?i = "NetServer.FindSession sid"
  let ?ps = "map snd rps"
  have inv: "refs_inv s U" using server_run_inv [OF assms(1-3)] .
  have enc: "frame_encoder (NetServer.server.Encoder s) frame max_len" using assms(4,5) by simp
  have og: "\<forall>p \<in> set ?ps. outgoing max_len U s p" using assms(15) by blast
  from send_all_ok [OF inv assms(7) enc og assms(12)] obtain s1 where
    s1: "send_all sid rps s = Inr s1" "refs_inv s1 U"
     "length (NetServer.server.SessionArr s1) = length (NetServer.server.SessionArr s)"
     "NetServer.session.SendQ (NetServer.server.SessionArr s1 ! ?i) = ?ps"
     "NetServer.session.SendFlag (NetServer.server.SessionArr s1 ! ?i) \<noteq> 1"
     "NetServer.session.SessionUseFlag (NetServer.server.SessionArr s1 ! ?i)"
     "map (packet_bytes s1) ?ps = map2 frame (map fst rps) (map (packet_bytes s) ?ps)"
     "\<forall>p \<in> set ?ps. \<exists>q. NetServer.get_packet p s1 = Inr q \<and> packet_wf q"
    using assms(8-11) by auto
  have i: "?i < length (NetServer.server.SessionArr s1)" using assms(7) s1(3) by (simp add: live_id_def)
  have post: "\<exists>s2. NetServer.SendPost ?i None s1 = Inr (s2, True) \<and>
      NetServer.server.Io s2 = NetServer.server.Io s1 @ [IoSend ?i (map (packet_bytes s1) ?ps)]"
    using SendPost_all [OF i refl refs_inv_nth [OF s1(2) i] s1(6,5)] s1(4,8) assms(13,14) by auto
  have f: "\<forall>m \<in> set (map (packet_bytes s) ?ps). fits max_len m \<and> m \<noteq> [] \<and> accepts m"
    using assms(15) outgoing_length by (fastforce simp: fits_def)
  have l: "length (map fst rps) = length (map (packet_bytes s) ?ps)" by simp
  have "\<exists>c'. client_recv_chunks cenv tid j chunks c = Some (Inr c') \<and> rx_inv E j [] (to_server c') \<and>
          NetClient.client.App c' =
            fold (h (NetClient.session.SessionID (NetClient.client.SessionArr c ! j)))
              (map (packet_bytes s) ?ps) (NetClient.client.App c)"
    if "concat chunks = concat (map (packet_bytes s1) ?ps)" "in_windows (frame_sizes E (map (packet_bytes s) ?ps)) 0 chunks" for chunks
    using client_app.client_stream [OF assms(16,5,6,17) _ l that(2) f] that(1) s1(7) by simp
  with s1(1) post show ?thesis unfolding s1(7) by blast
qed

text \<open>A run that accepts one session and fills one packet.\<close>

abbreviation demo_encoder :: xor_encoder where
  "demo_encoder \<equiv> XorPacketEncoder 119 50 4096"

lemma one_session_run:
  "server_run recording_app (xor_frame_rnd demo_encoder) 4096 (one_session_server (xor_vtable demo_encoder)) (\<lambda>p. 0)"
proof -
  let ?t = "one_session_server (xor_vtable demo_encoder)"
  let ?s = "?t\<lparr>NetServer.server.SessionArr := map (NetServer.start_session (\<lambda>_. 0)) [0..<1],
     NetServer.server.FreeSessionStack := rev [0..<1], NetServer.server.SessionIDCnt := 0\<rparr>"
  have r0: "server_run recording_app (xor_frame_rnd demo_encoder) 4096 ?s (\<lambda>p. 0)"
    by (rule server_run.start [of _ "\<lambda>_. 0" 1 4096 64]) (simp_all add: one_session_server_def)
  have "NetServer.GetFreeSession ?s = Inr (?t, Some 0)"
    by (simp add: NetServer.GetFreeSession_def NetServer.InitSession_def NetServer.GenerateSessionID_def
        NetServer.with_session_def NetServer.set_session_def one_session_server_def)
  from server_run.accept [OF r0 _ this] show ?thesis by simp
qed

theorem server_to_client_delivery_witness:
  "\<exists>(s :: (u64 \<times> byte list) list server) p s1 s2 bufs c'. send_all 1 [(7, p)] s = Inr s1 \<and>
     NetServer.SendPost 0 None s1 = Inr (s2, True) \<and>
     client_recv_chunks recording_client 0 0 (map (\<lambda>b. [b]) (concat bufs)) (one_session_client (xor_vtable demo_encoder)) = Some (Inr c') \<and>
     NetServer.server.Io s2 = NetServer.server.Io s1 @ [IoSend 0 bufs] \<and> NetClient.client.App c' = [(1, [8, 9])]"
proof -
  let ?t = "one_session_server (xor_vtable demo_encoder)"
  have t: "packet_refs (NetServer.server.PacketPool ?t) (\<lambda>p. 0)"
    using packet_refs_init [of 64 4096] by (simp add: one_session_server_def)
  from AllocPacket_refs [OF t recording.new_packet, of 0] obtain pl p pk where
    a: "NetServer.AllocPacket recording_app 0 ?t = Inr (?t\<lparr>NetServer.server.PacketPool := pl\<rparr>, p)"
      "read_data pl p = Some pk" "cleared pk" "packet_refs pl ((\<lambda>p. 0)(p := 1))" by auto
  have pk: "packet_wf pk" "packet_data pk = []" "int (length [8, 9 :: byte]) \<le> packet_room pk"
    using a(3) by (auto simp: cleared_def good_packet_def packet_data_def packet_room_def kBufferDefault_def kHeaderDefault_def)
  from put_raw_ok [OF pk(1,3)] obtain pk' where q: "packet_wf pk'" "packet_data pk' = [8, 9]"
    "Front pk' = Front pk" "BufferSize pk' = BufferSize pk" "RefCnt pk' = RefCnt pk" "EncodeFlag pk' = EncodeFlag pk"
    "SRWEncode pk' = SRWEncode pk" using pk(2) by auto
  let ?s1 = "?t\<lparr>NetServer.server.PacketPool := pl\<rparr>"
  let ?s = "NetServer.set_packet p pk' ?s1"
  let ?U = "(\<lambda>p. 0)(p := 1 :: nat)"
  have g: "NetServer.get_packet p ?s1 = Inr pk" using a(2) by (simp add: NetServer.get_packet_def)
  have good: "good_packet pk'" using q a(3) by (simp add: cleared_def good_packet_def)
  from server_run.alloc [OF one_session_run a(1)]
  have r1: "server_run recording_app (xor_frame_rnd demo_encoder) 4096 ?s1 ?U" .
  from server_run.fill [OF r1 _ g good q(5)]
  have r2: "server_run recording_app (xor_frame_rnd demo_encoder) 4096 ?s ?U" by simp
  have "run_inv pl {q. 0 < ?U q}" using a(4) by (simp only: packet_refs_def pool_pkts_def)
  then have "sizeof_PadType \<le> p" using run_inv_addr [of pl _ p] by simp
  then have gs: "NetServer.get_packet p ?s = Inr pk'"
    using a(2) by (simp add: NetServer.get_packet_def NetServer.set_packet_def read_write_data)
  have sr: "session_refs ?s p = 0"
    by (simp add: session_refs_def held_by_def one_session_server_def NetServer.init_session_def)
  have og: "outgoing 4096 ?U ?s p" "packet_bytes ?s p = [8, 9]"
    using gs sr q a(3) by (auto simp: outgoing_def sendable_def cleared_def packet_bytes_def)
  have f: "frame_encoder (xor_vtable demo_encoder) (xor_frame_rnd demo_encoder) 4096"
    using xor.frame_encoder_axioms [of demo_encoder] by (simp add: xor_max_len_def XorPacketEncoder_def)
  have h: "0 < GetHeaderSize (xor_vtable demo_encoder)" by (simp add: xor_vtable_def sizeof_NetHeader_def)
  have l: "live_id ?s 1" "NetServer.FindSession 1 = 0" "NetServer.server.Encoder ?s = xor_vtable demo_encoder"
    by (simp_all add: live_id_def one_session_server_def NetServer.init_session_def NetServer.FindSession_def
        NetServer.start_session_def NetServer.blank_session_def)
  let ?x = "NetServer.server.SessionArr ?s ! 0"
  have x: "NetServer.session.SessionUseFlag ?x" "NetServer.session.SendFlag ?x \<noteq> 1" "NetServer.session.SendQ ?x = []"
    by (simp_all add: one_session_server_def NetServer.init_session_def)
  from server_to_client_delivery [OF r2 quiet_recording recording.new_packet l(3) f h l(1) refl,
      of "[(7, p)]" "\<lambda>m. True" recording_client "\<lambda>sid m log. log @ [(sid, m)]" 0 "one_session_client (xor_vtable demo_encoder)" 0]
  obtain s1 s2 bufs where r: "send_all 1 [(7, p)] ?s = Inr s1" "NetServer.SendPost 0 None s1 = Inr (s2, True)"
    "NetServer.server.Io s2 = NetServer.server.Io s1 @ [IoSend 0 bufs]" "bufs = [xor_frame_rnd demo_encoder 7 [8, 9]]"
    "\<forall>chunks. concat chunks = concat bufs \<and> in_windows (frame_sizes (xor_vtable demo_encoder) [[8, 9]]) 0 chunks \<longrightarrow>
       (\<exists>c'. client_recv_chunks recording_client 0 0 chunks (one_session_client (xor_vtable demo_encoder)) = Some (Inr c') \<and>
          NetClient.client.App c' = [(1, [8, 9])])"
    using x og recording_client.client_app_axioms one_session_client_rx l(2)
    by (auto simp: max_message_def one_session_client_def of_server_def of_session_def one_session_server_def
        NetServer.init_session_def NetServer.start_session_def NetServer.blank_session_def)
  have "concat (map (\<lambda>b. [b]) (concat bufs)) = concat bufs" by auto
  moreover have "in_windows (frame_sizes (xor_vtable demo_encoder) [[8, 9]]) 0 (map (\<lambda>b. [b]) (concat bufs))"
    using r(4) by (intro small_pieces_fit) (auto simp: frame_sizes_def xor_vtable_def sizeof_NetHeader_def xor_frame_rnd_def)
  ultimately show ?thesis using r by blast
qed

end
