(* ===== verification/TaggedPtr.thy ===== *)
theory TaggedPtr
  imports Prelude
begin

text \<open>
  The tagged pointer that \<open>LockFreeStack\<close>, \<open>LockFreeMemoryPool\<close> and \<open>LockFreeQueue\<close> declare
  (\<open>stNode_TAGED\<close> over \<open>BitField\<close>): 47 bits of pointer, one flag bit, a 16-bit tag, read and written
  as bit-fields of one 64-bit word, and exchanged as a whole by \<open>InterlockedCompareExchangePointer\<close>.
\<close>

type_synonym tagged = u64

definition SetTag :: "u16 \<Rightarrow> tagged \<Rightarrow> tagged" where
  "SetTag t d = take_bit 48 d OR push_bit 48 (ucast t)"

definition GetTag :: "tagged \<Rightarrow> u16" where
  "GetTag d = ucast (drop_bit 48 d)"

definition GetPtr :: "tagged \<Rightarrow> u64" where
  "GetPtr d = take_bit 47 d"

text \<open>Assigning a node pointer writes the 47 index bits only; flag and tag stay.\<close>

definition SetPtr :: "u64 \<Rightarrow> tagged \<Rightarrow> tagged" where
  "SetPtr p d = take_bit 47 p OR (d AND NOT (mask 47))"

text \<open>User-space addresses have 47 bits.\<close>

definition is_addr :: "u64 \<Rightarrow> bool" where
  "is_addr p \<longleftrightarrow> take_bit 47 p = p"

lemma GetTag_SetTag [simp]: "GetTag (SetTag t d) = t"
  unfolding GetTag_def SetTag_def by (rule bit_eqI) (auto simp: bit_simps dest: bit_imp_le_length)

lemma GetPtr_SetTag [simp]: "GetPtr (SetTag t d) = GetPtr d"
  unfolding GetPtr_def SetTag_def by (rule bit_eqI) (auto simp: bit_simps dest: bit_imp_le_length)

lemma GetPtr_SetPtr [simp]: "GetPtr (SetPtr p d) = take_bit 47 p"
  unfolding GetPtr_def SetPtr_def by (rule bit_eqI) (auto simp: bit_simps dest: bit_imp_le_length)

lemma GetTag_SetPtr [simp]: "GetTag (SetPtr p d) = GetTag d"
  unfolding GetTag_def SetPtr_def by (rule bit_eqI) (auto simp: bit_simps dest: bit_imp_le_length)

lemma is_addr_GetPtr [simp]: "is_addr (GetPtr d)"
  by (simp add: is_addr_def GetPtr_def)

lemma GetPtr_SetPtr_addr: "is_addr p \<Longrightarrow> GetPtr (SetPtr p d) = p"
  by (simp add: is_addr_def)

lemma is_addr_0 [simp]: "is_addr 0"
  by (simp add: is_addr_def)

lemma GetPtr_0 [simp]: "GetPtr 0 = 0" and GetTag_0 [simp]: "GetTag 0 = 0"
  by (simp_all add: GetPtr_def GetTag_def)

text \<open>Pointer and tag do not disturb each other: setting the tag keeps the pointer, assigning a
  user-space pointer keeps the tag, both are read back as written, and two tagged pointers that agree
  in pointer, tag and flag are the same word, so that one compare-exchange compares all of it.\<close>

theorem tagged_pointer_fields:
  assumes "is_addr p"
  shows "GetPtr (SetTag t (SetPtr p d)) = p \<and> GetTag (SetTag t (SetPtr p d)) = t \<and>
     GetPtr (SetPtr p (SetTag t d)) = p \<and> GetTag (SetPtr p (SetTag t d)) = t \<and>
     SetTag t (SetPtr p d) = SetPtr p (SetTag t d) \<and>
     (d = e) = (GetPtr d = GetPtr e \<and> GetTag d = GetTag e \<and> bit d 47 = bit e 47)"
proof -
  have "SetTag t (SetPtr p d) = SetPtr p (SetTag t d)"
    unfolding SetTag_def SetPtr_def by (rule bit_eqI) (auto simp: bit_simps dest: bit_imp_le_length)
  moreover have "d = e" if a: "GetPtr d = GetPtr e" "GetTag d = GetTag e" "bit d 47 = bit e 47"
  proof (rule bit_eqI)
    fix n
    have "bit d n = bit e n" if "n < 47"
      using arg_cong [OF a(1), of "\<lambda>w. bit w n"] that by (simp add: GetPtr_def bit_simps)
    moreover have "bit d n = bit e n" if "48 \<le> n" "n < 64"
    proof -
      have "n - 48 < 16" using that by simp
      then show ?thesis
        using arg_cong [OF a(2), of "\<lambda>w. bit w (n - 48)"] that by (simp add: GetTag_def bit_simps)
    qed
    moreover have "bit d n = bit e n" if "64 \<le> n" using that by (auto dest: bit_imp_le_length)
    moreover have "n < 47 \<or> n = 47 \<or> 48 \<le> n" by arith
    ultimately show "bit d n = bit e n" using a(3) by (metis not_le_imp_less)
  qed
  ultimately show ?thesis using assms by (auto simp: is_addr_def)
qed

theorem tagged_pointer_fields_witness:
  "GetPtr (SetTag 7 (SetPtr 4096 (2 ^ 47))) = 4096 \<and> GetTag (SetTag 7 (SetPtr 4096 (2 ^ 47))) = 7"
  using tagged_pointer_fields [of 4096 7 "2 ^ 47" 0] by (simp add: is_addr_def)

end
