(* ===== verification/LockFreeCore.thy ===== *)
theory LockFreeCore
  imports TaggedPtr
begin

text \<open>
  The push and pop protocol of \<open>LockFreeMemoryPool\<close> (\<open>PushtoFreeNode\<close>, \<open>PopFromFreeNode\<close>;
  \<open>LockFreeStack\<close> repeats it on its own node type), under every interleaving of any number of threads.
  One step of a thread is one access to shared memory: an interlocked operation, the read of the tagged
  top, the read or write of a node's \<open>Next\<close>. The thread's position and its local variables \<open>OldTop\<close> and
  \<open>NewTop\<close> are its \<open>pc\<close>.

  Ghost state, which no step reads, records what the proof speaks of: how many tags were issued, which
  issue made the current top, which one each thread carries and remembers, and which nodes the callers
  hold.
\<close>

subsection \<open>Threads and shared state\<close>

datatype pc =
    Idle
  | PushTag u64 tagged
  | PushRead tagged
  | PushLink tagged tagged
  | PushCas tagged tagged
  | PushInc
  | PopTag
  | PopReserve tagged
  | PopUndo
  | PopRead tagged
  | PopNext tagged tagged
  | PopCas tagged tagged
  | PopDone u64

record lf =
  Top :: tagged
  Cnt :: u32
  TagCnt :: u16
  Next :: "u64 \<Rightarrow> u64 option"
  Pcs :: "nat \<Rightarrow> pc"

definition goto :: "nat \<Rightarrow> pc \<Rightarrow> 'a lf_scheme \<Rightarrow> 'a lf_scheme" where
  "goto t c s = s\<lparr>Pcs := (Pcs s)(t := c)\<rparr>"

definition load_next :: "'a lf_scheme \<Rightarrow> u64 \<Rightarrow> fault + u64" where
  "load_next s p = (if p = 0 then Inl NullDeref
     else case Next s p of None \<Rightarrow> Inl OutOfBounds | Some n \<Rightarrow> Inr n)"

definition store_next :: "u64 \<Rightarrow> u64 \<Rightarrow> 'a lf_scheme \<Rightarrow> fault + 'a lf_scheme" where
  "store_next p n s = (if p = 0 then Inl NullDeref
     else case Next s p of None \<Rightarrow> Inl OutOfBounds | Some _ \<Rightarrow> Inr (s\<lparr>Next := (Next s)(p \<mapsto> n)\<rparr>))"

text \<open>\<open>InterlockedIncrement16\<close> on the tag counter; it returns the new value.\<close>

definition GetTagCnt :: "'a lf_scheme \<Rightarrow> 'a lf_scheme \<times> u16" where
  "GetTagCnt s = (s\<lparr>TagCnt := TagCnt s + 1\<rparr>, TagCnt s + 1)"

text \<open>The compare-exchange on the top: it compares the whole word.\<close>

definition CAS_top :: "tagged \<Rightarrow> tagged \<Rightarrow> 'a lf_scheme \<Rightarrow> 'a lf_scheme \<times> bool" where
  "CAS_top swap cmp s = (if Top s = cmp then (s\<lparr>Top := swap\<rparr>, True) else (s, False))"

text \<open>
  \<open>PushtoFreeNode\<close>. The constructor from a pointer writes the index bits only: the second argument of
  \<open>PushTag\<close> is what the uninitialised word held before.
\<close>

fun push_step :: "nat \<Rightarrow> pc \<Rightarrow> 'a lf_scheme \<Rightarrow> fault + 'a lf_scheme" where
  "push_step t (PushTag node junk) s =
     (let (s1, tag) = GetTagCnt s in Inr (goto t (PushRead (SetTag tag (SetPtr node junk))) s1))"
| "push_step t (PushRead NewTop) s = Inr (goto t (PushLink NewTop (Top s)) s)"
| "push_step t (PushLink NewTop OldTop) s =
     ebind (store_next (GetPtr NewTop) (GetPtr OldTop) s) (\<lambda>s1. Inr (goto t (PushCas NewTop OldTop) s1))"
| "push_step t (PushCas NewTop OldTop) s =
     (let (s1, ok) = CAS_top NewTop OldTop s
      in Inr (goto t (if ok then PushInc else PushRead NewTop) s1))"
| "push_step t PushInc s = Inr (goto t Idle (s\<lparr>Cnt := Cnt s + 1\<rparr>))"
| "push_step t _ s = Inr s"

text \<open>\<open>PopFromFreeNode\<close>. \<open>long\<close> is signed: the counter is compared as such.\<close>

fun pop_step :: "nat \<Rightarrow> pc \<Rightarrow> 'a lf_scheme \<Rightarrow> fault + 'a lf_scheme" where
  "pop_step t PopTag s =
     (let (s1, tag) = GetTagCnt s in Inr (goto t (PopReserve (SetTag tag 0)) s1))"
| "pop_step t (PopReserve NewTop) s =
     Inr (goto t (if sint (Cnt s) \<le> 0 then PopUndo else PopRead NewTop) (s\<lparr>Cnt := Cnt s - 1\<rparr>))"
| "pop_step t PopUndo s = Inr (goto t (PopDone 0) (s\<lparr>Cnt := Cnt s + 1\<rparr>))"
| "pop_step t (PopRead NewTop) s = Inr (goto t (PopNext NewTop (Top s)) s)"
| "pop_step t (PopNext NewTop OldTop) s =
     ebind (load_next s (GetPtr OldTop)) (\<lambda>n. Inr (goto t (PopCas (SetPtr n NewTop) OldTop) s))"
| "pop_step t (PopCas NewTop OldTop) s =
     (let (s1, ok) = CAS_top NewTop OldTop s
      in Inr (goto t (if ok then PopDone (GetPtr OldTop) else PopRead NewTop) s1))"
| "pop_step t _ s = Inr s"

fun is_push :: "pc \<Rightarrow> bool" where
  "is_push (PushTag _ _) = True" | "is_push (PushRead _) = True" | "is_push (PushLink _ _) = True"
| "is_push (PushCas _ _) = True" | "is_push PushInc = True" | "is_push _ = False"

definition lf_step :: "nat \<Rightarrow> 'a lf_scheme \<Rightarrow> fault + 'a lf_scheme" where
  "lf_step t s = (if is_push (Pcs s t) then push_step t (Pcs s t) s else pop_step t (Pcs s t) s)"

subsection \<open>The ghost state and the runs\<close>

record lfg = lf +
  Issued :: nat
  TopK :: nat
  OpK :: "nat \<Rightarrow> nat"
  OldK :: "nat \<Rightarrow> nat"
  Held :: "u64 set"

text \<open>What a step of thread \<open>t\<close> from \<open>s\<close> to \<open>s'\<close> does to the ghost state.\<close>

fun ghost :: "nat \<Rightarrow> pc \<Rightarrow> lfg \<Rightarrow> lfg \<Rightarrow> lfg" where
  "ghost t (PushTag _ _) s s' = s'\<lparr>Issued := Issued s + 1, OpK := (OpK s)(t := Issued s + 1)\<rparr>"
| "ghost t PopTag s s' = s'\<lparr>Issued := Issued s + 1, OpK := (OpK s)(t := Issued s + 1)\<rparr>"
| "ghost t (PopRead _) s s' = s'\<lparr>OldK := (OldK s)(t := TopK s)\<rparr>"
| "ghost t (PushCas _ OldTop) s s' = (if Top s = OldTop then s'\<lparr>TopK := OpK s t\<rparr> else s')"
| "ghost t (PopCas _ OldTop) s s' = (if Top s = OldTop then s'\<lparr>TopK := OpK s t\<rparr> else s')"
| "ghost t _ s s' = s'"

definition g_step :: "nat \<Rightarrow> lfg \<Rightarrow> fault + lfg" where
  "g_step t s = ebind (lf_step t s) (\<lambda>s'. Inr (ghost t (Pcs s t) s s'))"

text \<open>A caller pushes a node it holds, starts a pop, and takes the node a pop returned.\<close>

definition call_push :: "nat \<Rightarrow> u64 \<Rightarrow> tagged \<Rightarrow> lfg \<Rightarrow> lfg" where
  "call_push t node junk s = goto t (PushTag node junk) (s\<lparr>Held := Held s - {node}\<rparr>)"

definition call_pop :: "nat \<Rightarrow> lfg \<Rightarrow> lfg" where
  "call_pop t s = goto t PopTag s"

definition take_popped :: "nat \<Rightarrow> u64 \<Rightarrow> lfg \<Rightarrow> lfg" where
  "take_popped t p s = goto t Idle (s\<lparr>Held := Held s \<union> (if p = 0 then {} else {p})\<rparr>)"

text \<open>
  The window of the 16-bit tag: when a pop compares, the top is still the one it read, or fewer than
  65536 tags were issued since the one of the current top and since the one of the top it remembers.
\<close>

definition in_window :: "nat \<Rightarrow> lfg \<Rightarrow> bool" where
  "in_window t s \<longleftrightarrow> (\<forall>n old. Pcs s t = PopCas n old \<longrightarrow> TopK s = OldK s t \<or>
     (Issued s < TopK s + 65536 \<and> Issued s < OldK s t + 65536))"

text \<open>
  The runs of the threads \<open>T\<close> over the nodes \<open>M\<close>, from an empty list, all nodes with the callers.
\<close>

inductive lf_run :: "nat set \<Rightarrow> u64 set \<Rightarrow> lfg \<Rightarrow> bool" for T M where
  start: "Top s = 0 \<Longrightarrow> Cnt s = 0 \<Longrightarrow> TagCnt s = 0 \<Longrightarrow> dom (Next s) = M \<Longrightarrow>
    (\<forall>p n. Next s p = Some n \<longrightarrow> is_addr n) \<Longrightarrow> Pcs s = (\<lambda>t. Idle) \<Longrightarrow> Issued s = 0 \<Longrightarrow> TopK s = 0 \<Longrightarrow>
    Held s = M \<Longrightarrow> lf_run T M s"
| push: "lf_run T M s \<Longrightarrow> t \<in> T \<Longrightarrow> Pcs s t = Idle \<Longrightarrow> node \<in> Held s \<Longrightarrow> lf_run T M (call_push t node junk s)"
| pop: "lf_run T M s \<Longrightarrow> t \<in> T \<Longrightarrow> Pcs s t = Idle \<Longrightarrow> lf_run T M (call_pop t s)"
| taken: "lf_run T M s \<Longrightarrow> t \<in> T \<Longrightarrow> Pcs s t = PopDone p \<Longrightarrow> lf_run T M (take_popped t p s)"
| step: "lf_run T M s \<Longrightarrow> t \<in> T \<Longrightarrow> in_window t s \<Longrightarrow> g_step t s = Inr s' \<Longrightarrow> lf_run T M s'"

text \<open>The pool is used with finitely many threads and nodes, at user-space addresses.\<close>

definition lf_universe :: "nat set \<Rightarrow> u64 set \<Rightarrow> bool" where
  "lf_universe T M \<longleftrightarrow> finite T \<and> finite M \<and> card T < 2 ^ 30 \<and> card M < 2 ^ 30 \<and> 0 \<notin> M \<and> (\<forall>p \<in> M. is_addr p)"

subsection \<open>The invariant\<close>

fun lchain :: "(u64 \<Rightarrow> u64 option) \<Rightarrow> u64 \<Rightarrow> u64 list \<Rightarrow> bool" where
  "lchain nx p [] \<longleftrightarrow> p = 0"
| "lchain nx p (q # qs) \<longleftrightarrow> p = q \<and> p \<noteq> 0 \<and> (case nx q of None \<Rightarrow> False | Some n \<Rightarrow> lchain nx n qs)"

lemma lchain_cong: "lchain nx p qs \<Longrightarrow> (\<forall>q \<in> set qs. nx' q = nx q) \<Longrightarrow> lchain nx' p qs"
  by (induction qs arbitrary: p) (auto split: option.splits)

lemma lchain_update: "q \<notin> set qs \<Longrightarrow> lchain nx p qs \<Longrightarrow> lchain (nx(q \<mapsto> n)) p qs"
  by (erule lchain_cong) auto

lemma lchain_nonempty: "lchain nx p qs \<Longrightarrow> qs \<noteq> [] \<longleftrightarrow> p \<noteq> 0"
  by (cases qs) auto

text \<open>The nodes a thread owns between a call and the list, and back.\<close>

fun owned :: "pc \<Rightarrow> u64 set" where
  "owned (PushTag p _) = {p}"
| "owned (PushRead n) = {GetPtr n}"
| "owned (PushLink n _) = {GetPtr n}"
| "owned (PushCas n _) = {GetPtr n}"
| "owned (PopDone p) = (if p = 0 then {} else {p})"
| "owned _ = {}"

text \<open>The tagged word of an operation that has its tag and has not installed it.\<close>

fun carried :: "pc \<Rightarrow> tagged option" where
  "carried (PushRead n) = Some n" | "carried (PushLink n _) = Some n" | "carried (PushCas n _) = Some n"
| "carried (PopReserve n) = Some n" | "carried (PopRead n) = Some n" | "carried (PopNext n _) = Some n"
| "carried (PopCas n _) = Some n" | "carried _ = None"

text \<open>The top a pop remembers.\<close>

fun remembered :: "pc \<Rightarrow> tagged option" where
  "remembered (PopNext _ old) = Some old" | "remembered (PopCas _ old) = Some old" | "remembered _ = None"

text \<open>How far the counter is behind the length of the list on account of a thread.\<close>

fun pending :: "pc \<Rightarrow> int" where
  "pending PushInc = 1" | "pending PopUndo = 1" | "pending (PopRead _) = 1" | "pending (PopNext _ _) = 1"
| "pending (PopCas _ _) = 1" | "pending _ = 0"

fun failing :: "pc \<Rightarrow> int" where
  "failing PopUndo = 1" | "failing _ = 0"

definition total :: "(pc \<Rightarrow> int) \<Rightarrow> nat set \<Rightarrow> lfg \<Rightarrow> int" where
  "total w T s = (\<Sum>t \<in> T. w (Pcs s t))"

definition inv_heap :: "nat set \<Rightarrow> u64 set \<Rightarrow> lfg \<Rightarrow> bool" where
  "inv_heap T M s \<longleftrightarrow> dom (Next s) = M \<and> (\<forall>p n. Next s p = Some n \<longrightarrow> is_addr n) \<and> (\<forall>t. t \<notin> T \<longrightarrow> Pcs s t = Idle)"

definition inv_own :: "u64 set \<Rightarrow> u64 list \<Rightarrow> lfg \<Rightarrow> bool" where
  "inv_own M L s \<longleftrightarrow> distinct L \<and> set L \<subseteq> M \<and> Held s \<subseteq> M \<and> set L \<inter> Held s = {} \<and>
     (\<forall>t. owned (Pcs s t) \<subseteq> M \<and> owned (Pcs s t) \<inter> set L = {} \<and> owned (Pcs s t) \<inter> Held s = {}) \<and>
     (\<forall>t u. t \<noteq> u \<longrightarrow> owned (Pcs s t) \<inter> owned (Pcs s u) = {})"

definition inv_cnt :: "nat set \<Rightarrow> u64 list \<Rightarrow> lfg \<Rightarrow> bool" where
  "inv_cnt T L s \<longleftrightarrow> sint (Cnt s) = int (length L) - total pending T s \<and> 0 \<le> sint (Cnt s) + total failing T s"

definition inv_tag :: "lfg \<Rightarrow> bool" where
  "inv_tag s \<longleftrightarrow> TagCnt s = of_nat (Issued s) \<and> GetTag (Top s) = of_nat (TopK s) \<and> TopK s \<le> Issued s \<and>
     (\<forall>t n. carried (Pcs s t) = Some n \<longrightarrow> GetTag n = of_nat (OpK s t) \<and> OpK s t \<le> Issued s \<and> OpK s t \<noteq> TopK s) \<and>
     (\<forall>t u. t \<noteq> u \<longrightarrow> carried (Pcs s t) \<noteq> None \<longrightarrow> carried (Pcs s u) \<noteq> None \<longrightarrow> OpK s t \<noteq> OpK s u) \<and>
     (\<forall>t u. carried (Pcs s t) \<noteq> None \<longrightarrow> remembered (Pcs s u) \<noteq> None \<longrightarrow> OldK s u \<noteq> OpK s t) \<and>
     (\<forall>t old. remembered (Pcs s t) = Some old \<longrightarrow> GetTag old = of_nat (OldK s t) \<and> OldK s t \<le> Issued s)"

definition inv_pc :: "u64 set \<Rightarrow> lfg \<Rightarrow> bool" where
  "inv_pc M s \<longleftrightarrow>
     (\<forall>t old. remembered (Pcs s t) = Some old \<longrightarrow> GetPtr old \<in> M \<and> (TopK s = OldK s t \<longrightarrow> Top s = old)) \<and>
     (\<forall>t n old. Pcs s t = PopCas n old \<longrightarrow> TopK s = OldK s t \<longrightarrow> Next s (GetPtr old) = Some (GetPtr n)) \<and>
     (\<forall>t n old. Pcs s t = PushCas n old \<longrightarrow> Next s (GetPtr n) = Some (GetPtr old))"

definition lf_inv :: "nat set \<Rightarrow> u64 set \<Rightarrow> u64 list \<Rightarrow> lfg \<Rightarrow> bool" where
  "lf_inv T M L s \<longleftrightarrow> inv_heap T M s \<and> lchain (Next s) (GetPtr (Top s)) L \<and> inv_own M L s \<and> inv_cnt T L s \<and>
     inv_tag s \<and> inv_pc M s"

subsection \<open>Counting threads\<close>

lemma total_goto:
  assumes "finite T" "t \<in> T"
  shows "total w T (goto t c s) = total w T s - w (Pcs s t) + w c"
proof -
  have "(\<Sum>u \<in> T - {t}. w (((Pcs s)(t := c)) u)) = (\<Sum>u \<in> T - {t}. w (Pcs s u))"
    by (rule sum.cong) auto
  then show ?thesis
    using sum.remove [OF assms, of "\<lambda>u. w (Pcs s u)"] sum.remove [OF assms, of "\<lambda>u. w (((Pcs s)(t := c)) u)"]
    by (simp add: total_def goto_def)
qed

lemma total_same: "Pcs s' = Pcs s \<Longrightarrow> total w T s' = total w T s"
  by (simp add: total_def)

lemma pending_bounds: "0 \<le> failing c" "failing c \<le> pending c" "pending c \<le> 1"
  by (cases c; simp)+

lemma total_bounds:
  assumes "finite T"
  shows "0 \<le> total failing T s \<and> total failing T s \<le> total pending T s \<and> total pending T s \<le> int (card T)"
proof -
  have "total pending T s \<le> (\<Sum>t \<in> T. 1)"
    unfolding total_def by (rule sum_mono) (simp add: pending_bounds)
  then show ?thesis
    using pending_bounds by (auto simp: total_def intro!: sum_nonneg sum_mono)
qed

lemma total_reserved:
  assumes "finite T" "t \<in> T" "failing (Pcs s t) = 0" "pending (Pcs s t) = 1"
  shows "total failing T s + 1 \<le> total pending T s"
proof -
  have "(\<Sum>u \<in> T - {t}. failing (Pcs s u)) \<le> (\<Sum>u \<in> T - {t}. pending (Pcs s u))"
    by (rule sum_mono) (simp add: pending_bounds)
  then show ?thesis
    using sum.remove [OF assms(1,2), of "\<lambda>u. failing (Pcs s u)"] sum.remove [OF assms(1,2), of "\<lambda>u. pending (Pcs s u)"]
      assms(3,4) by (simp add: total_def)
qed

lemma sint_inc:
  fixes w :: u32
  shows "sint w < 2 ^ 31 - 1 \<Longrightarrow> sint (w + 1) = sint w + 1" and "- (2 ^ 31) < sint w \<Longrightarrow> sint (w - 1) = sint w - 1"
  using sint_greater_eq [of w] sint_lt [of w]
  by (simp_all add: sint_word_ariths signed_take_bit_int_eq_self)

lemma list_bound:
  assumes "lf_universe T M" "distinct L" "set L \<subseteq> M"
  shows "length L < 2 ^ 30"
proof -
  have "card (set L) \<le> card M" using assms by (intro card_mono) (auto simp: lf_universe_def)
  then show ?thesis using assms by (simp add: lf_universe_def distinct_card)
qed

text \<open>The counter stays within \<open>long\<close>.\<close>

lemma cnt_range:
  assumes "lf_universe T M" "lf_inv T M L s"
  shows "- (2 ^ 30) < sint (Cnt s) \<and> sint (Cnt s) < 2 ^ 30"
proof -
  have "length L < 2 ^ 30" using assms list_bound by (auto simp: lf_inv_def inv_own_def)
  moreover have "finite T" "card T < 2 ^ 30" using assms(1) by (auto simp: lf_universe_def)
  ultimately show ?thesis using total_bounds [of T s] assms(2) by (simp add: lf_inv_def inv_cnt_def)
qed

text \<open>A reserved pop finds the list non-empty.\<close>

lemma reserved_nonempty:
  assumes "lf_universe T M" "lf_inv T M L s" "t \<in> T" "failing (Pcs s t) = 0" "pending (Pcs s t) = 1"
  shows "L \<noteq> [] \<and> GetPtr (Top s) \<noteq> 0 \<and> GetPtr (Top s) \<in> M"
proof -
  have "finite T" using assms(1) by (simp add: lf_universe_def)
  from total_reserved [OF this assms(3-5)] have "L \<noteq> []" using assms(2) by (auto simp: lf_inv_def inv_cnt_def)
  then obtain q qs where "L = q # qs" by (cases L) auto
  then show ?thesis using assms(2) by (auto simp: lf_inv_def inv_own_def)
qed

subsection \<open>Every step keeps the invariant\<close>

lemmas inv_defs = lf_inv_def inv_heap_def inv_own_def inv_cnt_def inv_tag_def inv_pc_def

lemma goto_simps [simp]:
  "Top (goto t c s) = Top s" "Cnt (goto t c s) = Cnt s" "TagCnt (goto t c s) = TagCnt s"
  "Next (goto t c s) = Next s" "Pcs (goto t c s) = (Pcs s)(t := c)"
  by (simp_all add: goto_def)

lemma goto_ghost [simp]:
  "Issued (goto t c s) = Issued s" "TopK (goto t c s) = TopK s" "OpK (goto t c s) = OpK s"
  "OldK (goto t c s) = OldK s" "Held (goto t c s) = Held s"
  by (simp_all add: goto_def)

lemma inv_own_same:
  assumes "inv_own M L s" "owned c = owned (Pcs s t)" "Pcs s' = (Pcs s)(t := c)" "Held s' = Held s"
  shows "inv_own M L s'"
proof -
  have "owned (Pcs s' u) = owned (Pcs s u)" for u using assms(2,3) by simp
  then show ?thesis using assms(1,4) unfolding inv_own_def by simp
qed

lemma call_push_inv:
  assumes "lf_universe T M" "lf_inv T M L s" "t \<in> T" "Pcs s t = Idle" "node \<in> Held s"
  shows "lf_inv T M L (call_push t node junk s)"
proof -
  have f: "finite T" using assms(1) by (simp add: lf_universe_def)
  have o: "inv_own M L (call_push t node junk s)"
    using assms(2,4,5) by (auto simp: lf_inv_def inv_own_def call_push_def)
  show ?thesis using assms(2-4) o total_goto [OF f assms(3)] total_same [of "s\<lparr>Held := Held s - {node}\<rparr>" s]
    by (auto simp: lf_inv_def inv_heap_def inv_cnt_def inv_tag_def inv_pc_def call_push_def)
qed

lemma call_pop_inv:
  assumes "lf_universe T M" "lf_inv T M L s" "t \<in> T" "Pcs s t = Idle"
  shows "lf_inv T M L (call_pop t s)"
proof -
  have f: "finite T" using assms(1) by (simp add: lf_universe_def)
  have o: "inv_own M L (call_pop t s)"
    using assms(2,4) by (auto simp: lf_inv_def inv_own_def call_pop_def)
  show ?thesis using assms(2-4) o total_goto [OF f assms(3)]
    by (auto simp: lf_inv_def inv_heap_def inv_cnt_def inv_tag_def inv_pc_def call_pop_def)
qed

lemma take_popped_inv:
  assumes "lf_universe T M" "lf_inv T M L s" "t \<in> T" "Pcs s t = PopDone p"
  shows "lf_inv T M L (take_popped t p s)"
proof -
  have f: "finite T" using assms(1) by (simp add: lf_universe_def)
  let ?h = "Held s \<union> (if p = 0 then {} else {p})"
  have own: "owned (Pcs s t) = (if p = 0 then {} else {p})" using assms(4) by simp
  have ow: "owned (((Pcs s)(t := Idle)) u) = (if u = t then {} else owned (Pcs s u))" for u by simp
  have i: "inv_own M L s" using assms(2) by (simp add: lf_inv_def)
  then have "owned (Pcs s t) \<subseteq> M" "owned (Pcs s t) \<inter> set L = {}"
    "\<And>u. u \<noteq> t \<Longrightarrow> owned (Pcs s u) \<inter> owned (Pcs s t) = {}" by (auto simp: inv_own_def)
  with i have o: "inv_own M L (take_popped t p s)"
    unfolding inv_own_def own [symmetric] take_popped_def
    by (simp add: ow Int_Un_distrib own [symmetric] del: fun_upd_apply) blast?
  show ?thesis using assms(2-4) o total_goto [OF f assms(3)] total_same [of "s\<lparr>Held := ?h\<rparr>" s]
    by (auto simp: lf_inv_def inv_heap_def inv_cnt_def inv_tag_def inv_pc_def take_popped_def)
qed

text \<open>Issuing a tag: the new number is larger than all others.\<close>

lemma tag_step_inv:
  assumes "lf_universe T M" "lf_inv T M L s" "t \<in> T"
    and "carried (Pcs s t) = None" "remembered (Pcs s t) = None" "carried c = Some n" "remembered c = None"
    and "GetTag n = TagCnt s + 1" "owned c = owned (Pcs s t)" "pending c = pending (Pcs s t)" "failing c = failing (Pcs s t)"
    and "\<forall>n old. c \<noteq> PushCas n old \<and> c \<noteq> PopCas n old"
  shows "lf_inv T M L ((goto t c (s\<lparr>TagCnt := TagCnt s + 1\<rparr>))\<lparr>Issued := Issued s + 1, OpK := (OpK s)(t := Issued s + 1)\<rparr>)"
    (is "lf_inv T M L ?s")
proof -
  have f: "finite T" using assms(1) by (simp add: lf_universe_def)
  have tot: "total pending T ?s = total pending T s" "total failing T ?s = total failing T s"
    using total_goto [OF f assms(3), of pending c "s\<lparr>TagCnt := TagCnt s + 1\<rparr>"]
      total_goto [OF f assms(3), of failing c "s\<lparr>TagCnt := TagCnt s + 1\<rparr>"] assms(10,11)
    by (simp_all add: total_def)
  have o: "inv_own M L ?s"
    using assms(2,9) by (auto simp: lf_inv_def inv_own_def)
  have g: "inv_tag ?s"
  proof -
    have tg: "inv_tag s" using assms(2) by (simp add: lf_inv_def)
    then have le: "TopK s \<le> Issued s" "\<And>u m. carried (Pcs s u) = Some m \<Longrightarrow> OpK s u \<le> Issued s"
      "\<And>u m. remembered (Pcs s u) = Some m \<Longrightarrow> OldK s u \<le> Issued s" by (auto simp: inv_tag_def)
    have ne: "\<And>u m. carried (Pcs s u) = Some m \<Longrightarrow> OpK s u \<noteq> Suc (Issued s) \<and> Suc (Issued s) \<noteq> OpK s u"
      "\<And>u m. remembered (Pcs s u) = Some m \<Longrightarrow> OldK s u \<noteq> Suc (Issued s)" "TopK s \<noteq> Suc (Issued s)"
      using le by fastforce+
    show ?thesis
      using tg ne assms(4-8) unfolding inv_tag_def by (auto split: if_splits intro: le_SucI)
  qed
  have "inv_heap T M ?s" "inv_pc M ?s" "inv_cnt T L ?s"
    using assms tot by (auto simp: lf_inv_def inv_heap_def inv_pc_def inv_cnt_def)
  then show ?thesis using o g assms(2) by (simp add: lf_inv_def)
qed

text \<open>A step that only moves the thread on.\<close>

lemma move_inv:
  assumes "lf_universe T M" "lf_inv T M L s" "t \<in> T" "Pcs s t \<noteq> Idle"
    and "carried c = carried (Pcs s t) \<or> carried c = None" "remembered c = None"
    and "owned c = owned (Pcs s t)" "pending c = pending (Pcs s t)" "failing c = failing (Pcs s t)"
    and "\<forall>n old. (c = PushCas n old \<longrightarrow> Next s (GetPtr n) = Some (GetPtr old)) \<and> c \<noteq> PopCas n old"
  shows "lf_inv T M L (goto t c s)"
proof -
  have f: "finite T" using assms(1) by (simp add: lf_universe_def)
  have o: "inv_own M L (goto t c s)"
    using assms(2,7) by (auto simp: lf_inv_def inv_own_def)
  have g: "inv_tag (goto t c s)"
    using assms(2,5,6) unfolding lf_inv_def inv_tag_def
    by (cases "carried (Pcs s t)"; elim disjE; auto split: if_splits)
  have "inv_heap T M (goto t c s)" "inv_pc M (goto t c s)" "inv_cnt T L (goto t c s)"
    using assms total_goto [OF f assms(3)] by (auto simp: lf_inv_def inv_heap_def inv_pc_def inv_cnt_def)
  then show ?thesis using o g assms(2) by (simp add: lf_inv_def)
qed

text \<open>Interlocked steps of the counter.\<close>

lemma count_inv:
  assumes "lf_universe T M" "lf_inv T M L s" "t \<in> T"
    and "carried c = carried (Pcs s t) \<or> carried c = None" "remembered (Pcs s t) = None" "remembered c = None"
    and "owned c = owned (Pcs s t)" "\<forall>n old. c \<noteq> PushCas n old \<and> c \<noteq> PopCas n old" "Pcs s t \<noteq> Idle"
    and "sint n = sint (Cnt s) + pending (Pcs s t) - pending c"
    and "0 \<le> sint n + total failing T s - failing (Pcs s t) + failing c"
  shows "lf_inv T M L (goto t c (s\<lparr>Cnt := n\<rparr>))"
proof -
  have f: "finite T" using assms(1) by (simp add: lf_universe_def)
  let ?s = "goto t c (s\<lparr>Cnt := n\<rparr>)"
  have "inv_own M L s" using assms(2) by (simp add: lf_inv_def)
  then have o: "inv_own M L ?s" by (rule inv_own_same [OF _ assms(7)]) simp_all
  have g: "inv_tag ?s"
    using assms(2,4,6) unfolding lf_inv_def inv_tag_def
    by (cases "carried (Pcs s t)"; elim disjE; auto split: if_splits)
  have "total w T (s\<lparr>Cnt := n\<rparr>) = total w T s" for w by (simp add: total_def)
  then have "inv_cnt T L ?s"
    using assms(2,10,11) total_goto [OF f assms(3), of _ c "s\<lparr>Cnt := n\<rparr>"]
    by (simp add: lf_inv_def inv_cnt_def)
  moreover have "inv_heap T M ?s" "inv_pc M ?s"
    using assms(2,3,6,8) by (auto simp: lf_inv_def inv_heap_def inv_pc_def)
  ultimately show ?thesis using o g assms(2) by (simp add: lf_inv_def)
qed

text \<open>A pop reads the top: it remembers the number of the current one.\<close>

lemma pop_read_inv:
  assumes "lf_universe T M" "lf_inv T M L s" "t \<in> T" "Pcs s t = PopRead n"
  shows "lf_inv T M L ((goto t (PopNext n (Top s)) s)\<lparr>OldK := (OldK s)(t := TopK s)\<rparr>)" (is "lf_inv T M L ?s")
proof -
  have f: "finite T" using assms(1) by (simp add: lf_universe_def)
  have m: "GetPtr (Top s) \<in> M" using reserved_nonempty [OF assms(1-3)] assms(4) by simp
  have "inv_own M L s" using assms(2) by (simp add: lf_inv_def)
  then have o: "inv_own M L ?s" by (rule inv_own_same [of _ _ _ _ t]) (simp_all add: assms(4))
  have tg: "inv_tag s" using assms(2) by (simp add: lf_inv_def)
  have "OpK s u \<noteq> TopK s \<and> TopK s \<noteq> OpK s u" if "carried (Pcs s u) = Some m" for u m
    using tg that unfolding inv_tag_def by metis
  moreover have "carried (Pcs s t) = Some n" "OpK s t \<noteq> TopK s \<and> TopK s \<noteq> OpK s t"
    using assms(4) calculation [of t n] by simp_all
  ultimately have g: "inv_tag ?s"
    using tg assms(4) unfolding inv_tag_def by (auto split: if_splits)
  have "total w T ?s = total w T s" if "w (PopNext n (Top s)) = w (Pcs s t)" for w
    using total_goto [OF f assms(3), of w "PopNext n (Top s)" s] that by (simp add: total_def)
  then have "inv_cnt T L ?s" using assms(2,4) by (simp add: lf_inv_def inv_cnt_def)
  moreover have "inv_heap T M ?s" "inv_pc M ?s"
    using assms(2,3) m by (auto simp: lf_inv_def inv_heap_def inv_pc_def)
  ultimately show ?thesis using o g assms(2) by (simp add: lf_inv_def)
qed

text \<open>A pop reads the next pointer of the node it remembers.\<close>

lemma pop_next_inv:
  assumes "lf_universe T M" "lf_inv T M L s" "t \<in> T" "Pcs s t = PopNext n old" "Next s (GetPtr old) = Some x"
  shows "lf_inv T M L (goto t (PopCas (SetPtr x n) old) s)" (is "lf_inv T M L ?s")
proof -
  have f: "finite T" using assms(1) by (simp add: lf_universe_def)
  have "inv_own M L s" using assms(2) by (simp add: lf_inv_def)
  then have o: "inv_own M L ?s" by (rule inv_own_same [of _ _ _ _ t]) (simp_all add: assms(4))
  have g: "inv_tag ?s"
    using assms(2,4) unfolding lf_inv_def inv_tag_def by (auto split: if_splits)
  have "total w T ?s = total w T s" if "w (PopCas (SetPtr x n) old) = w (Pcs s t)" for w
    using total_goto [OF f assms(3), of w _ s] that by simp
  then have cn: "inv_cnt T L ?s" using assms(2,4) by (simp add: lf_inv_def inv_cnt_def)
  have "is_addr x" using assms(2,5) by (auto simp: lf_inv_def inv_heap_def)
  then have "GetPtr (SetPtr x n) = x" by (rule GetPtr_SetPtr_addr)
  have "remembered (Pcs s t) = Some old" using assms(4) by simp
  then have "GetPtr old \<in> M \<and> (TopK s = OldK s t \<longrightarrow> Top s = old)"
    using assms(2) unfolding lf_inv_def inv_pc_def by blast
  then have "inv_heap T M ?s" "inv_pc M ?s"
    using assms(2-5) \<open>GetPtr (SetPtr x n) = x\<close> by (auto simp: lf_inv_def inv_heap_def inv_pc_def)
  then show ?thesis using o g cn assms(2) by (simp add: lf_inv_def)
qed

text \<open>A push writes the next pointer of the node it owns, which is in no list.\<close>

lemma push_link_inv:
  assumes "lf_universe T M" "lf_inv T M L s" "t \<in> T" "Pcs s t = PushLink n old"
  shows "lf_inv T M L (goto t (PushCas n old) (s\<lparr>Next := (Next s)(GetPtr n \<mapsto> GetPtr old)\<rparr>))" (is "lf_inv T M L ?s")
proof -
  have f: "finite T" using assms(1) by (simp add: lf_universe_def)
  have own: "owned (Pcs s t) = {GetPtr n}" using assms(4) by simp
  have i: "inv_own M L s" using assms(2) by (simp add: lf_inv_def)
  then have "owned (Pcs s t) \<subseteq> M \<and> owned (Pcs s t) \<inter> set L = {}" unfolding inv_own_def by blast
  then have nM: "GetPtr n \<in> M" "GetPtr n \<notin> set L" using own by auto
  have "inv_own M L s" using assms(2) by (simp add: lf_inv_def)
  then have o: "inv_own M L ?s" by (rule inv_own_same [of _ _ _ _ t]) (simp_all add: assms(4))
  have g: "inv_tag ?s"
    using assms(2,4) unfolding lf_inv_def inv_tag_def by (auto split: if_splits)
  have "total w T (s\<lparr>Next := (Next s)(GetPtr n \<mapsto> GetPtr old)\<rparr>) = total w T s" for w by (simp add: total_def)
  then have "total w T ?s = total w T s" if "w (PushCas n old) = w (Pcs s t)" for w
    using total_goto [OF f assms(3), of w "PushCas n old" "s\<lparr>Next := (Next s)(GetPtr n \<mapsto> GetPtr old)\<rparr>"] that by simp
  then have "inv_cnt T L ?s" using assms(2,4) by (simp add: lf_inv_def inv_cnt_def)
  moreover have "inv_heap T M ?s" using assms(2,3) nM by (auto simp: lf_inv_def inv_heap_def)
  moreover have "lchain (Next ?s) (GetPtr (Top ?s)) L"
    using assms(2) nM lchain_update by (auto simp: lf_inv_def)
  moreover have "inv_pc M ?s"
  proof -
    have pc: "inv_pc M s" using assms(2) by (simp add: lf_inv_def)
    have ptr: "GetPtr old' \<noteq> GetPtr n" if "Pcs s u = PopCas n' old'" "TopK s = OldK s u" for u n' old'
    proof -
      have "remembered (Pcs s u) = Some old'" using that(1) by simp
      then have "Top s = old'" "GetPtr old' \<in> M" using pc that(2) unfolding inv_pc_def by blast+
      then have "GetPtr old' \<in> set L"
        using assms(1,2) lchain_nonempty [of "Next s" "GetPtr (Top s)" L] by (cases L) (auto simp: lf_inv_def lf_universe_def)
      then show ?thesis using nM by metis
    qed
    have "GetPtr n' \<noteq> GetPtr n" if "Pcs s u = PushCas n' old'" "u \<noteq> t" for u n' old'
    proof -
      have "owned (Pcs s u) \<inter> owned (Pcs s t) = {}" using i that(2) by (simp add: inv_own_def)
      then show ?thesis using own that(1) by simp
    qed
    with ptr pc assms(4) show ?thesis unfolding inv_pc_def by auto
  qed
  ultimately show ?thesis using o g by (simp add: lf_inv_def)
qed

text \<open>Installing a new top: the number it carries was never installed before.\<close>

lemma install_tag:
  assumes "inv_tag s" "carried (Pcs s t) = Some n" "carried c = None" "remembered c = None"
  shows "inv_tag ((goto t c (s\<lparr>Top := n\<rparr>))\<lparr>TopK := OpK s t\<rparr>)"
  using assms unfolding inv_tag_def by (auto split: if_splits)

lemma install_pc:
  assumes "inv_tag s" "inv_pc M s" "carried (Pcs s t) = Some n" "remembered c = None"
    "\<forall>n old. c \<noteq> PushCas n old \<and> c \<noteq> PopCas n old"
  shows "inv_pc M ((goto t c (s\<lparr>Top := n\<rparr>))\<lparr>TopK := OpK s t\<rparr>)"
proof -
  have ne: "OldK s u \<noteq> OpK s t \<and> OpK s t \<noteq> OldK s u" if "remembered (Pcs s u) = Some old" for u old
    using assms(1,3) that unfolding inv_tag_def by (metis option.distinct(1))
  have ne': "OpK s t \<noteq> OldK s u" if "Pcs s u = PopCas n' old" for u n' old
    using ne [of u old] that by simp
  show ?thesis
    unfolding inv_pc_def
  proof (intro conjI allI impI)
    let ?s = "(goto t c (s\<lparr>Top := n\<rparr>))\<lparr>TopK := OpK s t\<rparr>"
    fix u old
    assume r: "remembered (Pcs ?s u) = Some old"
    then have u: "u \<noteq> t" using assms(4) by auto
    with r have r': "remembered (Pcs s u) = Some old" by simp
    show "GetPtr old \<in> M" using r' assms(2) by (auto simp: inv_pc_def)
    show "Top ?s = old" if "TopK ?s = OldK ?s u" using that ne [OF r'] by simp
  next
    let ?s = "(goto t c (s\<lparr>Top := n\<rparr>))\<lparr>TopK := OpK s t\<rparr>"
    fix u n' old
    assume a: "Pcs ?s u = PopCas n' old" "TopK ?s = OldK ?s u"
    then have "Pcs s u = PopCas n' old" using assms(5) by (auto split: if_splits)
    then show "Next ?s (GetPtr old) = Some (GetPtr n')" using a(2) ne' by simp
  next
    let ?s = "(goto t c (s\<lparr>Top := n\<rparr>))\<lparr>TopK := OpK s t\<rparr>"
    fix u n' old
    assume "Pcs ?s u = PushCas n' old"
    then have "Pcs s u = PushCas n' old" using assms(5) by (auto split: if_splits)
    then show "Next ?s (GetPtr n') = Some (GetPtr old)" using assms(2) by (auto simp: inv_pc_def)
  qed
qed

lemma push_cas_inv:
  assumes "lf_universe T M" "lf_inv T M L s" "t \<in> T" "Pcs s t = PushCas n old" "Top s = old"
  shows "lf_inv T M (GetPtr n # L) ((goto t PushInc (s\<lparr>Top := n\<rparr>))\<lparr>TopK := OpK s t\<rparr>)" (is "lf_inv T M ?L ?s")
proof -
  have f: "finite T" and z: "0 \<notin> M" using assms(1) by (simp_all add: lf_universe_def)
  have i: "inv_own M L s" "inv_tag s" "inv_pc M s" using assms(2) by (simp_all add: lf_inv_def)
  have own: "owned (Pcs s t) = {GetPtr n}" using assms(4) by simp
  have "owned (Pcs s t) \<subseteq> M \<and> owned (Pcs s t) \<inter> set L = {} \<and> owned (Pcs s t) \<inter> Held s = {}"
    using i(1) unfolding inv_own_def by blast
  then have n: "GetPtr n \<in> M" "GetPtr n \<notin> set L" "GetPtr n \<notin> Held s" using own by auto
  have po: "GetPtr n \<notin> owned (Pcs s u)" if "u \<noteq> t" for u
  proof -
    have "owned (Pcs s u) \<inter> owned (Pcs s t) = {}" using i(1) that by (simp add: inv_own_def)
    then show ?thesis using own by auto
  qed
  have ow: "owned (Pcs ?s u) = (if u = t then {} else owned (Pcs s u))" for u by simp
  have o: "inv_own M ?L ?s"
    unfolding inv_own_def
  proof (intro conjI allI impI)
    show "distinct ?L" "set ?L \<subseteq> M" "Held ?s \<subseteq> M" "set ?L \<inter> Held ?s = {}"
      using i(1) n by (auto simp: inv_own_def)
    fix u
    show "owned (Pcs ?s u) \<subseteq> M" using i(1) by (simp add: ow inv_own_def)
    show "owned (Pcs ?s u) \<inter> set ?L = {}" using i(1) po [of u] by (simp add: ow inv_own_def)
    show "owned (Pcs ?s u) \<inter> Held ?s = {}" using i(1) by (simp add: ow inv_own_def)
    show "owned (Pcs ?s u) \<inter> owned (Pcs ?s v) = {}" if "u \<noteq> v" for v using i(1) that by (simp add: ow inv_own_def)
  qed
  have nx: "Next s (GetPtr n) = Some (GetPtr (Top s))" using i(3) assms(4,5) by (auto simp: inv_pc_def)
  have ch: "lchain (Next ?s) (GetPtr (Top ?s)) ?L"
    using nx n(1) z assms(2) by (auto simp: lf_inv_def)
  have "inv_tag ?s" "inv_pc M ?s"
    using install_tag [OF i(2), of t n PushInc] install_pc [OF i(2,3), of t n PushInc] assms(4) by simp_all
  moreover have "inv_heap T M ?s" using assms(2,3) by (auto simp: lf_inv_def inv_heap_def)
  moreover have "total w T ?s = total w T s - w (Pcs s t) + w PushInc" for w
    using total_goto [OF f assms(3), of w PushInc "s\<lparr>Top := n\<rparr>"] by (simp add: total_def)
  then have "inv_cnt T ?L ?s" using assms(2,4) by (simp add: lf_inv_def inv_cnt_def)
  ultimately show ?thesis using o ch by (simp add: lf_inv_def)
qed

text \<open>Inside the window equal tags are equal issues, so the remembered top is the current one.\<close>

lemma mod_close:
  fixes a b m :: nat
  assumes "a mod m = b mod m" "a < b + m" "b < a + m"
  shows "a = b"
proof -
  have *: "x = y" if "x mod m = y mod m" "y < x + m" "x \<le> y" for x y
  proof -
    have "m dvd y - x" using that(1,3) mod_eq_dvd_iff_nat [of x y m] by simp
    moreover have "y - x < m" using that(2,3) by simp
    ultimately have "y - x = 0" by (metis dvd_imp_le gr0I not_less)
    then show ?thesis using that(3) by simp
  qed
  show ?thesis using *[of a b] *[of b a] assms by (cases "a \<le> b") auto
qed

lemma window_same:
  assumes "inv_tag s" "Pcs s t = PopCas n old" "Top s = old" "in_window t s"
  shows "TopK s = OldK s t"
proof (rule ccontr)
  assume neq: "TopK s \<noteq> OldK s t"
  have r: "remembered (Pcs s t) = Some old" using assms(2) by simp
  then have "(of_nat (TopK s) :: u16) = of_nat (OldK s t)" "TopK s \<le> Issued s" "OldK s t \<le> Issued s"
    using assms(1,3) unfolding inv_tag_def by metis+
  moreover have "Issued s < TopK s + 65536" "Issued s < OldK s t + 65536" using assms(2,4) neq by (simp_all add: in_window_def)
  moreover have "unat (of_nat (TopK s) :: u16) = unat (of_nat (OldK s t) :: u16)" using calculation(1) by simp
  then have "TopK s mod 65536 = OldK s t mod 65536" by (simp add: unat_of_nat take_bit_eq_mod)
  ultimately show False using mod_close [of "TopK s" 65536 "OldK s t"] neq by simp
qed

lemma pop_cas_inv:
  assumes "lf_universe T M" "lf_inv T M L s" "t \<in> T" "Pcs s t = PopCas n old" "Top s = old" "in_window t s"
  obtains L' where "L = GetPtr old # L'"
    "lf_inv T M L' ((goto t (PopDone (GetPtr old)) (s\<lparr>Top := n\<rparr>))\<lparr>TopK := OpK s t\<rparr>)"
proof -
  let ?s = "(goto t (PopDone (GetPtr old)) (s\<lparr>Top := n\<rparr>))\<lparr>TopK := OpK s t\<rparr>"
  have f: "finite T" using assms(1) by (simp_all add: lf_universe_def)
  have i: "inv_own M L s" "inv_tag s" "inv_pc M s" using assms(2) by (simp_all add: lf_inv_def)
  have nx: "Next s (GetPtr old) = Some (GetPtr n)"
    using i(3) assms(4) window_same [OF i(2) assms(4-6)] by (auto simp: inv_pc_def)
  have ne: "L \<noteq> []" using reserved_nonempty [OF assms(1-3)] assms(4) by simp
  then obtain L' where L: "L = GetPtr old # L'" using assms(2,5) by (cases L) (auto simp: lf_inv_def)
  have p: "GetPtr old \<noteq> 0" "GetPtr old \<in> M" "GetPtr old \<notin> set L'" "GetPtr old \<notin> Held s"
    using L i(1) assms(2) assms(5) by (auto simp: inv_own_def lf_inv_def)
  have po: "GetPtr old \<notin> owned (Pcs s u)" for u using i(1) L unfolding inv_own_def by auto
  have ow: "owned (Pcs ?s u) = (if u = t then {GetPtr old} else owned (Pcs s u))" for u using p(1) by simp
  have o: "inv_own M L' ?s"
    unfolding inv_own_def
  proof (intro conjI allI impI)
    show "distinct L'" "set L' \<subseteq> M" "Held ?s \<subseteq> M" "set L' \<inter> Held ?s = {}"
      using i(1) L by (auto simp: inv_own_def)
    fix u
    show "owned (Pcs ?s u) \<subseteq> M" using i(1) p by (simp add: ow inv_own_def)
    show "owned (Pcs ?s u) \<inter> set L' = {}" using i(1) p L by (simp add: ow inv_own_def)
    show "owned (Pcs ?s u) \<inter> Held ?s = {}" using i(1) p by (simp add: ow inv_own_def)
    show "owned (Pcs ?s u) \<inter> owned (Pcs ?s v) = {}" if "u \<noteq> v" for v
      using i(1) that po by (simp add: ow inv_own_def)
  qed
  have ch: "lchain (Next ?s) (GetPtr (Top ?s)) L'" using nx assms(2,5) L by (auto simp: lf_inv_def)
  have "inv_tag ?s" "inv_pc M ?s"
    using install_tag [OF i(2), of t n "PopDone (GetPtr old)"] install_pc [OF i(2,3), of t n "PopDone (GetPtr old)"]
      assms(4) by simp_all
  moreover have "inv_heap T M ?s" using assms(2,3) by (auto simp: lf_inv_def inv_heap_def)
  moreover have "total w T ?s = total w T s - w (Pcs s t) + w (PopDone (GetPtr old))" for w
    using total_goto [OF f assms(3), of w "PopDone (GetPtr old)" "s\<lparr>Top := n\<rparr>"] by (simp add: total_def)
  then have "inv_cnt T L' ?s" using assms(2,4) L by (simp add: lf_inv_def inv_cnt_def)
  ultimately have "lf_inv T M L' ?s" using o ch by (simp add: lf_inv_def)
  with L show thesis by (rule that)
qed

text \<open>What a step does to the list: only the two successful compare-exchanges change it.\<close>

definition list_effect :: "nat \<Rightarrow> lfg \<Rightarrow> lfg \<Rightarrow> u64 list \<Rightarrow> u64 list \<Rightarrow> bool" where
  "list_effect t s s' L L' \<longleftrightarrow>
     (case Pcs s t of
        PushCas n old \<Rightarrow> (if Top s = old then L' = GetPtr n # L \<and> Pcs s' t = PushInc else L' = L \<and> Pcs s' t = PushRead n)
      | PopCas n old \<Rightarrow> (if Top s = old then L = GetPtr old # L' \<and> Pcs s' t = PopDone (GetPtr old)
          else L' = L \<and> Pcs s' t = PopRead n)
      | _ \<Rightarrow> L' = L)"

lemma push_step_inv:
  assumes "lf_universe T M" "lf_inv T M L s" "t \<in> T" "is_push (Pcs s t)"
  shows "\<exists>s' L'. g_step t s = Inr s' \<and> lf_inv T M L' s' \<and> list_effect t s s' L L'"
proof (cases "Pcs s t")
  case (PushTag node junk)
  have "owned (Pcs s t) \<subseteq> M" using assms(2) by (simp add: lf_inv_def inv_own_def)
  then have "is_addr node" using PushTag assms(1) by (simp add: lf_universe_def)
  then have "GetPtr (SetTag (TagCnt s + 1) (SetPtr node junk)) = node" by (simp add: is_addr_def)
  with tag_step_inv [OF assms(1-3), of "PushRead (SetTag (TagCnt s + 1) (SetPtr node junk))"] PushTag show ?thesis
    by (simp add: g_step_def lf_step_def GetTagCnt_def list_effect_def)
next
  case (PushRead n)
  with move_inv [OF assms(1-3), of "PushLink n (Top s)"] show ?thesis
    by (simp add: g_step_def lf_step_def list_effect_def)
next
  case (PushLink n old)
  have "owned (Pcs s t) \<subseteq> M" using assms(2) by (simp add: lf_inv_def inv_own_def)
  then have n: "GetPtr n \<in> M" using PushLink by simp
  then have "GetPtr n \<noteq> 0" "Next s (GetPtr n) \<noteq> None"
    using assms(1,2) by (auto simp: lf_universe_def lf_inv_def inv_heap_def)
  with push_link_inv [OF assms(1-3) PushLink] PushLink show ?thesis
    by (auto simp: g_step_def lf_step_def store_next_def list_effect_def)
next
  case (PushCas n old)
  show ?thesis
  proof (cases "Top s = old")
    case True
    with push_cas_inv [OF assms(1-3) PushCas] PushCas show ?thesis
      by (auto simp: g_step_def lf_step_def CAS_top_def list_effect_def)
  next
    case False
    with move_inv [OF assms(1-3), of "PushRead n"] PushCas show ?thesis
      by (auto simp: g_step_def lf_step_def CAS_top_def list_effect_def)
  qed
next
  case PushInc
  have r: "sint (Cnt s) < 2 ^ 31 - 1" "- (2 ^ 31) < sint (Cnt s)" using cnt_range [OF assms(1,2)] by simp_all
  have "0 \<le> sint (Cnt s) + total failing T s" using assms(2) by (simp add: lf_inv_def inv_cnt_def)
  with count_inv [OF assms(1-3), of Idle "Cnt s + 1"] PushInc sint_inc(1) [OF r(1)] show ?thesis
    by (auto simp: g_step_def lf_step_def list_effect_def)
qed (use assms(4) in simp_all)

lemma pop_step_inv:
  assumes "lf_universe T M" "lf_inv T M L s" "t \<in> T" "\<not> is_push (Pcs s t)" "in_window t s"
  shows "\<exists>s' L'. g_step t s = Inr s' \<and> lf_inv T M L' s' \<and> list_effect t s s' L L'"
proof (cases "Pcs s t")
  case PopTag
  with tag_step_inv [OF assms(1-3), of "PopReserve (SetTag (TagCnt s + 1) 0)"] show ?thesis
    by (simp add: g_step_def lf_step_def GetTagCnt_def list_effect_def)
next
  case (PopReserve n)
  have r: "- (2 ^ 31) < sint (Cnt s)" using cnt_range [OF assms(1,2)] by simp
  have "0 \<le> sint (Cnt s) + total failing T s" "finite T"
    using assms(1,2) by (simp_all add: lf_inv_def inv_cnt_def lf_universe_def)
  with count_inv [OF assms(1-3), of "if sint (Cnt s) \<le> 0 then PopUndo else PopRead n" "Cnt s - 1"]
    PopReserve sint_inc(2) [OF r] total_bounds [of T s] show ?thesis
    by (auto simp: g_step_def lf_step_def list_effect_def)
next
  case PopUndo
  have r: "sint (Cnt s) < 2 ^ 31 - 1" using cnt_range [OF assms(1,2)] by simp
  have "0 \<le> sint (Cnt s) + total failing T s" using assms(2) by (simp add: lf_inv_def inv_cnt_def)
  with count_inv [OF assms(1-3), of "PopDone 0" "Cnt s + 1"] PopUndo sint_inc(1) [OF r] show ?thesis
    by (auto simp: g_step_def lf_step_def list_effect_def)
next
  case (PopRead n)
  with pop_read_inv [OF assms(1-3) PopRead] show ?thesis
    by (simp add: g_step_def lf_step_def list_effect_def)
next
  case (PopNext n old)
  have "remembered (Pcs s t) = Some old" using PopNext by simp
  then have m: "GetPtr old \<in> M" using assms(2) unfolding lf_inv_def inv_pc_def by blast
  moreover have "dom (Next s) = M" using assms(2) by (simp add: lf_inv_def inv_heap_def)
  ultimately obtain x where "Next s (GetPtr old) = Some x" by auto
  moreover have "GetPtr old \<noteq> 0" using m assms(1) unfolding lf_universe_def by metis
  ultimately have x: "Next s (GetPtr old) = Some x" "GetPtr old \<noteq> 0" by simp_all
  with pop_next_inv [OF assms(1-3) PopNext x(1)] PopNext show ?thesis
    by (simp add: g_step_def lf_step_def load_next_def list_effect_def)
next
  case (PopCas n old)
  show ?thesis
  proof (cases "Top s = old")
    case True
    from pop_cas_inv [OF assms(1-3) PopCas True assms(5)] obtain L' where "L = GetPtr old # L'"
      "lf_inv T M L' ((goto t (PopDone (GetPtr old)) (s\<lparr>Top := n\<rparr>))\<lparr>TopK := OpK s t\<rparr>)" .
    with True PopCas show ?thesis
      by (auto simp: g_step_def lf_step_def CAS_top_def list_effect_def)
  next
    case False
    with move_inv [OF assms(1-3), of "PopRead n"] PopCas show ?thesis
      by (auto simp: g_step_def lf_step_def CAS_top_def list_effect_def)
  qed
qed (use assms in \<open>auto simp: g_step_def lf_step_def list_effect_def\<close>)

lemma step_inv:
  assumes "lf_universe T M" "lf_inv T M L s" "t \<in> T" "in_window t s"
  shows "\<exists>s' L'. g_step t s = Inr s' \<and> lf_inv T M L' s' \<and> list_effect t s s' L L'"
  using push_step_inv [OF assms(1-3)] pop_step_inv [OF assms(1-3) _ assms(4)] by blast

lemma start_inv:
  assumes "lf_universe T M" "Top s = 0" "Cnt s = 0" "TagCnt s = 0" "dom (Next s) = M"
    "\<forall>p n. Next s p = Some n \<longrightarrow> is_addr n" "Pcs s = (\<lambda>t. Idle)" "Issued s = 0" "TopK s = 0" "Held s = M"
  shows "lf_inv T M [] s"
  using assms by (simp add: inv_defs total_def)

lemma run_lf_inv:
  assumes "lf_run T M s" "lf_universe T M"
  shows "\<exists>L. lf_inv T M L s"
  using assms
proof (induction rule: lf_run.induct)
  case (start s)
  then show ?case using start_inv by blast
next
  case (step s t s')
  then obtain L where "lf_inv T M L s" by blast
  from step_inv [OF step.prems this step.hyps(2,3)] step.hyps(4) show ?case by auto
qed (blast intro: call_push_inv call_pop_inv take_popped_inv)+

text \<open>The list is determined by the memory.\<close>

lemma lchain_unique: "lchain nx p qs \<Longrightarrow> lchain nx p rs \<Longrightarrow> qs = rs"
proof (induction qs arbitrary: p rs)
  case Nil
  then show ?case by (cases rs) auto
next
  case (Cons q qs)
  then show ?case by (cases rs) (auto split: option.splits)
qed

end
