(* ===== verification/LockFreeRuns.thy ===== *)
theory LockFreeRuns
  imports LockFreeCore
begin

text \<open>
  What the invariant of \<open>LockFreeCore\<close> gives for the runs: no node is lost or handed out twice, the
  list is a stack whose operations take effect at their compare-exchange, a thread left alone finishes,
  and what happens outside the window of the tag.
\<close>

subsection \<open>No node is lost\<close>

definition covered :: "u64 set \<Rightarrow> u64 list \<Rightarrow> lfg \<Rightarrow> bool" where
  "covered M L s \<longleftrightarrow> M = set L \<union> Held s \<union> (\<Union>t. owned (Pcs s t))"

lemma UN_owned_upd: "(\<Union>u. owned (((Pcs s)(t := c)) u)) = (\<Union>u \<in> - {t}. owned (Pcs s u)) \<union> owned c"
  by (auto split: if_splits)

lemma UN_owned_split: "(\<Union>u. owned (Pcs s u)) = (\<Union>u \<in> - {t}. owned (Pcs s u)) \<union> owned (Pcs s t)"
  by auto

lemma covered_change:
  assumes "covered M L s" "Pcs s' = (Pcs s)(t := c)"
    "set L' \<union> Held s' \<union> owned c = set L \<union> Held s \<union> owned (Pcs s t)"
  shows "covered M L' s'"
proof -
  have "set L' \<union> Held s' \<union> (\<Union>u. owned (Pcs s' u)) = (\<Union>u \<in> - {t}. owned (Pcs s u)) \<union> (set L' \<union> Held s' \<union> owned c)"
    using UN_owned_upd [of s t c] by (auto simp: assms(2))
  also have "\<dots> = M"
    using assms(1) UN_owned_split [of s t] unfolding assms(3) covered_def by auto
  finally show ?thesis by (simp add: covered_def)
qed

text \<open>What a step does to the nodes of its thread.\<close>

lemma step_owned:
  assumes "g_step t s = Inr s'" "lf_universe T M" "lf_inv T M L s" "list_effect t s s' L L'"
  shows "\<exists>c. Pcs s' = (Pcs s)(t := c) \<and> Held s' = Held s \<and> set L' \<union> owned c = set L \<union> owned (Pcs s t)"
proof -
  have m: "owned (Pcs s t) \<subseteq> M" using assms(3) by (simp add: lf_inv_def inv_own_def)
  have z: "p \<noteq> 0" if "p \<in> set L" for p
    using that assms(2,3) by (auto simp: lf_universe_def lf_inv_def inv_own_def)
  show ?thesis
  proof (cases "Pcs s t")
    case (PushTag node junk)
    then have "GetPtr (SetTag (TagCnt s + 1) (SetPtr node junk)) = node"
      using m assms(2) by (simp add: lf_universe_def is_addr_def)
    then show ?thesis
      using assms(1,4) PushTag
      by (auto simp: g_step_def lf_step_def GetTagCnt_def list_effect_def intro!: exI [of _ "PushRead (SetTag (TagCnt s + 1) (SetPtr node junk))"])
  next
    case (PushLink n old)
    then show ?thesis
      using assms(1,4) by (auto simp: g_step_def lf_step_def store_next_def list_effect_def split: if_splits option.splits intro!: exI [of _ "PushCas n old"])
  next
    case (PushCas n old)
    then show ?thesis
      using assms(1,4) by (auto simp: g_step_def lf_step_def CAS_top_def list_effect_def split: if_splits intro!: exI)
  next
    case (PopNext n old)
    then show ?thesis
      using assms(1,4) by (auto simp: g_step_def lf_step_def load_next_def list_effect_def split: if_splits option.splits intro!: exI)
  next
    case (PopCas n old)
    then show ?thesis
      using assms(1,4) z by (auto simp: g_step_def lf_step_def CAS_top_def list_effect_def split: if_splits intro!: exI)
  qed (use assms(1,4) in \<open>auto simp: g_step_def lf_step_def GetTagCnt_def list_effect_def split: if_splits intro!: exI\<close>)
qed

lemma run_covered:
  assumes "lf_run T M s" "lf_universe T M"
  shows "\<exists>L. lf_inv T M L s \<and> covered M L s"
  using assms
proof (induction rule: lf_run.induct)
  case (start s)
  then show ?case using start_inv [of T M s] by (intro exI [of _ "[]"]) (simp add: covered_def)
next
  case (push s t node junk)
  then obtain L where L: "lf_inv T M L s" "covered M L s" by blast
  have "covered M L (call_push t node junk s)"
    by (rule covered_change [OF L(2), of _ t "PushTag node junk"])
      (use push in \<open>auto simp: call_push_def\<close>)
  then show ?case using call_push_inv [OF push.prems L(1) push.hyps(2-4)] by blast
next
  case (pop s t)
  then obtain L where L: "lf_inv T M L s" "covered M L s" by blast
  have "covered M L (call_pop t s)"
    by (rule covered_change [OF L(2), of _ t PopTag]) (use pop in \<open>auto simp: call_pop_def\<close>)
  then show ?case using call_pop_inv [OF pop.prems L(1) pop.hyps(2-3)] by blast
next
  case (taken s t p)
  then obtain L where L: "lf_inv T M L s" "covered M L s" by blast
  have "covered M L (take_popped t p s)"
    by (rule covered_change [OF L(2), of _ t Idle]) (use taken in \<open>auto simp: take_popped_def\<close>)
  then show ?case using take_popped_inv [OF taken.prems L(1) taken.hyps(2-3)] by blast
next
  case (step s t s')
  then obtain L where L: "lf_inv T M L s" "covered M L s" by blast
  from step_inv [OF step.prems L(1) step.hyps(2,3)] step.hyps(4) obtain L' where
    L': "lf_inv T M L' s'" "list_effect t s s' L L'" by auto
  from step_owned [OF step.hyps(4) step.prems L(1) L'(2)] obtain c where
    "Pcs s' = (Pcs s)(t := c)" "Held s' = Held s" "set L' \<union> owned c = set L \<union> owned (Pcs s t)" by blast
  then have "covered M L' s'" by (intro covered_change [OF L(2)]) auto
  with L'(1) show ?case by blast
qed

text \<open>The start state over the nodes \<open>M\<close>, and the smallest universe for the instances.\<close>

definition lf_start :: "u64 set \<Rightarrow> lfg" where
  "lf_start M = \<lparr>Top = 0, Cnt = 0, TagCnt = 0, Next = (\<lambda>p. if p \<in> M then Some 0 else None), Pcs = (\<lambda>t. Idle),
     Issued = 0, TopK = 0, OpK = (\<lambda>t. 0), OldK = (\<lambda>t. 0), Held = M\<rparr>"

lemma lf_start_run: "lf_run T M (lf_start M)"
  by (rule lf_run.start) (auto simp: lf_start_def split: if_splits)

lemma small_universe: "lf_universe {0, 1} {4096, 8192}"
  by (auto simp: lf_universe_def is_addr_def)

text \<open>C3. The free list is safe under every interleaving: in every run of any number of threads inside
  the tag window, the list reached from the top is a finite list without repetition, and every node is
  in exactly one place, the list, the hands of a caller, or one running operation. So no two pops return
  the same node and none is lost. When no operation runs the counter is the length of the list.\<close>

theorem lockfree_nodes_safe:
  assumes "lf_universe T M" "lf_run T M s"
  shows "\<exists>L. lchain (Next s) (GetPtr (Top s)) L \<and> distinct L \<and> set L \<inter> Held s = {} \<and>
     (\<forall>t. owned (Pcs s t) \<inter> (set L \<union> Held s) = {}) \<and>
     (\<forall>t u. t \<noteq> u \<longrightarrow> owned (Pcs s t) \<inter> owned (Pcs s u) = {}) \<and>
     M = set L \<union> Held s \<union> (\<Union>t. owned (Pcs s t)) \<and>
     ((\<forall>t. Pcs s t = Idle) \<longrightarrow> sint (Cnt s) = int (length L))"
proof -
  from run_covered [OF assms(2,1)] obtain L where L: "lf_inv T M L s" "covered M L s" by blast
  have q: "sint (Cnt s) = int (length L)" if "\<forall>t. Pcs s t = Idle"
    using L(1) that by (simp add: lf_inv_def inv_cnt_def total_def)
  have "lchain (Next s) (GetPtr (Top s)) L" "inv_own M L s" using L(1) by (simp_all add: lf_inv_def)
  with L(2) q show ?thesis
    unfolding inv_own_def covered_def by (intro exI [of _ L] conjI) blast+
qed

theorem lockfree_nodes_safe_witness:
  "\<exists>L. lchain (Next (call_push 0 4096 0 (lf_start {4096, 8192}))) 0 L \<and>
     {4096, 8192} = set L \<union> {8192} \<union> (\<Union>t. owned (Pcs (call_push 0 4096 0 (lf_start {4096, 8192})) t))"
proof -
  let ?s = "call_push 0 4096 0 (lf_start {4096, 8192})"
  have "lf_run {0, 1} {4096, 8192} ?s"
    by (rule lf_run.push [OF lf_start_run]) (simp_all add: lf_start_def)
  from lockfree_nodes_safe [OF small_universe this] obtain L where
    "lchain (Next ?s) (GetPtr (Top ?s)) L" "{4096, 8192} = set L \<union> Held ?s \<union> (\<Union>t. owned (Pcs ?s t))" by blast
  moreover have "Top ?s = 0" "Held ?s = {8192}" by (auto simp: call_push_def lf_start_def)
  ultimately show ?thesis by (intro exI [of _ L]) simp
qed

text \<open>C8. The protocol refines a stack: in every run, a step of any thread ends without a fault, and the
  list of the memory changes only where a compare-exchange succeeds: a push then puts its node on top, a
  pop takes the top node off and returns exactly it. A compare-exchange that fails starts the loop again
  and changes nothing.\<close>

theorem lockfree_stack_refinement:
  assumes "lf_universe T M" "lf_run T M s" "t \<in> T" "in_window t s"
  shows "\<exists>s' L L'. g_step t s = Inr s' \<and> lchain (Next s) (GetPtr (Top s)) L \<and>
     lchain (Next s') (GetPtr (Top s')) L' \<and> list_effect t s s' L L'"
proof -
  from run_lf_inv [OF assms(2,1)] obtain L where L: "lf_inv T M L s" by blast
  from step_inv [OF assms(1) L assms(3,4)] obtain s' L' where
    "g_step t s = Inr s'" "lf_inv T M L' s'" "list_effect t s s' L L'" by blast
  with L show ?thesis unfolding lf_inv_def by blast
qed

theorem lockfree_stack_refinement_witness:
  "\<exists>s'. g_step 0 (call_push 0 4096 0 (lf_start {4096, 8192})) = Inr s' \<and> lchain (Next s') (GetPtr (Top s')) []"
proof -
  let ?s = "call_push 0 4096 0 (lf_start {4096, 8192})"
  have r: "lf_run {0, 1} {4096, 8192} ?s"
    by (rule lf_run.push [OF lf_start_run]) (simp_all add: lf_start_def)
  have p: "Pcs ?s 0 = PushTag 4096 0" "Top ?s = 0" by (simp_all add: call_push_def lf_start_def)
  then have "in_window 0 ?s" by (simp add: in_window_def)
  from lockfree_stack_refinement [OF small_universe r _ this] obtain s' L L' where
    a: "g_step 0 ?s = Inr s'" "lchain (Next ?s) (GetPtr (Top ?s)) L" "lchain (Next s') (GetPtr (Top s')) L'"
      "list_effect 0 ?s s' L L'" by auto
  have "lchain (Next ?s) (GetPtr (Top ?s)) []" using p by simp
  then have "L = []" using a(2) lchain_unique by blast
  with a p show ?thesis by (auto simp: list_effect_def)
qed

subsection \<open>A thread left alone finishes\<close>

fun alone :: "nat \<Rightarrow> nat \<Rightarrow> lfg \<Rightarrow> fault + lfg" where
  "alone 0 t s = Inr s"
| "alone (Suc n) t s = ebind (g_step t s) (alone n t)"

text \<open>The steps a thread has left when no other runs; a stale top costs one more round.\<close>

fun steps_left :: "tagged \<Rightarrow> pc \<Rightarrow> nat" where
  "steps_left tp (PushTag _ _) = 5"
| "steps_left tp (PushRead _) = 4"
| "steps_left tp (PushLink _ old) = (if old = tp then 3 else 6)"
| "steps_left tp (PushCas _ old) = (if old = tp then 2 else 5)"
| "steps_left tp PushInc = 1"
| "steps_left tp PopTag = 5"
| "steps_left tp (PopReserve _) = 4"
| "steps_left tp PopUndo = 1"
| "steps_left tp (PopRead _) = 3"
| "steps_left tp (PopNext _ old) = (if old = tp then 2 else 5)"
| "steps_left tp (PopCas _ old) = (if old = tp then 1 else 4)"
| "steps_left tp _ = 0"

definition finished :: "pc \<Rightarrow> bool" where
  "finished c \<longleftrightarrow> c = Idle \<or> (\<exists>p. c = PopDone p)"

lemma steps_left_0: "steps_left tp c = 0 \<longleftrightarrow> finished c"
  by (cases c) (auto simp: finished_def)

lemma steps_left_6: "steps_left tp c \<le> 6"
  by (cases c) auto

definition fresh :: "nat \<Rightarrow> lfg \<Rightarrow> bool" where
  "fresh t s \<longleftrightarrow> (\<forall>old. remembered (Pcs s t) = Some old \<longrightarrow> TopK s = OldK s t \<or>
     (Issued s < TopK s + 65536 \<and> Issued s < OldK s t + 65536))"

lemma fresh_window: "fresh t s \<Longrightarrow> in_window t s"
  by (auto simp: fresh_def in_window_def)

lemma step_progress:
  assumes "g_step t s = Inr s'" "\<not> finished (Pcs s t)" "fresh t s"
  shows "steps_left (Top s') (Pcs s' t) < steps_left (Top s) (Pcs s t) \<and> fresh t s'"
  using assms
  by (cases "Pcs s t") (auto simp: g_step_def lf_step_def GetTagCnt_def CAS_top_def store_next_def load_next_def
      finished_def fresh_def split: if_splits option.splits)

lemma alone_finishes:
  assumes "lf_run T M s" "lf_universe T M" "t \<in> T" "fresh t s" "steps_left (Top s) (Pcs s t) \<le> k"
  shows "\<exists>n \<le> k. \<exists>s'. alone n t s = Inr s' \<and> lf_run T M s' \<and> finished (Pcs s' t)"
  using assms
proof (induction k arbitrary: s)
  case 0
  then show ?case using steps_left_0 by (intro exI [of _ 0]) auto
next
  case (Suc k)
  show ?case
  proof (cases "finished (Pcs s t)")
    case True
    with Suc.prems show ?thesis by (intro exI [of _ 0]) auto
  next
    case False
    from run_lf_inv [OF Suc.prems(1,2)] obtain L where L: "lf_inv T M L s" by blast
    have w: "in_window t s" using Suc.prems(4) by (rule fresh_window)
    from step_inv [OF Suc.prems(2) L Suc.prems(3) w] obtain s1 where s1: "g_step t s = Inr s1" by blast
    have r: "lf_run T M s1" using lf_run.step [OF Suc.prems(1,3) w s1] .
    from step_progress [OF s1 False Suc.prems(4)] Suc.prems(5)
    have "steps_left (Top s1) (Pcs s1 t) \<le> k" "fresh t s1" by auto
    from Suc.IH [OF r Suc.prems(2,3) this(2,1)] obtain n s2 where
      "n \<le> k" "alone n t s1 = Inr s2" "lf_run T M s2" "finished (Pcs s2 t)" by blast
    then show ?thesis using s1 by (intro exI [of _ "Suc n"]) auto
  qed
qed

text \<open>Without the window too a thread left alone finishes: only the compare-exchange of a pop depends on it, and a
  pop whose compare-exchange succeeds is done.\<close>

lemma step_any:
  assumes "lf_universe T M" "lf_inv T M L s" "t \<in> T"
  shows "\<exists>s'. g_step t s = Inr s' \<and> (finished (Pcs s' t) \<or> (\<exists>L'. lf_inv T M L' s'))"
proof (cases "\<exists>n old. Pcs s t = PopCas n old")
  case False
  then have "in_window t s" by (simp add: in_window_def)
  with step_inv [OF assms] show ?thesis by blast
next
  case True
  then obtain n old where c: "Pcs s t = PopCas n old" by blast
  with move_inv [OF assms, of "PopRead n"] show ?thesis
    by (cases "Top s = old") (auto simp: g_step_def lf_step_def CAS_top_def finished_def)
qed

lemma step_counts:
  assumes "g_step t s = Inr s'" "\<not> finished (Pcs s t)"
  shows "steps_left (Top s') (Pcs s' t) < steps_left (Top s) (Pcs s t)"
  using assms
  by (cases "Pcs s t") (auto simp: g_step_def lf_step_def GetTagCnt_def CAS_top_def store_next_def load_next_def
      finished_def split: if_splits option.splits)

lemma lone_ends:
  assumes "lf_universe T M" "lf_inv T M L s" "t \<in> T" "steps_left (Top s) (Pcs s t) \<le> k"
  shows "\<exists>n \<le> k. \<exists>s'. alone n t s = Inr s' \<and> finished (Pcs s' t)"
  using assms(2,4)
proof (induction k arbitrary: s L)
  case 0
  then show ?case using steps_left_0 by (intro exI [of _ 0]) auto
next
  case (Suc k)
  show ?case
  proof (cases "finished (Pcs s t)")
    case True
    then show ?thesis by (intro exI [of _ 0]) auto
  next
    case False
    from step_any [OF assms(1) Suc.prems(1) assms(3)] obtain s1 where
      s1: "g_step t s = Inr s1" "finished (Pcs s1 t) \<or> (\<exists>L'. lf_inv T M L' s1)" by blast
    from step_counts [OF s1(1) False] Suc.prems(2) have k: "steps_left (Top s1) (Pcs s1 t) \<le> k" by simp
    from s1(2) show ?thesis
    proof
      assume "finished (Pcs s1 t)"
      then show ?thesis using s1(1) by (intro exI [of _ 1]) auto
    next
      assume "\<exists>L'. lf_inv T M L' s1"
      with Suc.IH k obtain n s2 where "n \<le> k" "alone n t s1 = Inr s2" "finished (Pcs s2 t)" by blast
      then show ?thesis using s1(1) by (intro exI [of _ "Suc n"]) auto
    qed
  qed
qed

text \<open>C30. No thread waits for another: in any state of a run, a thread that runs alone finishes its push or
  pop within six steps and without a fault, wherever the others stopped in the middle of theirs. When fewer than 65536
  tags were drawn since it read the top (\<open>fresh\<close>), the state it ends in is again one of a run; otherwise it still ends,
  but what a pop then does to the list may be wrong (see \<open>tag_wrap_breaks\<close>).\<close>

theorem lone_thread_finishes:
  assumes "lf_universe T M" "lf_run T M s" "t \<in> T"
  shows "\<exists>n \<le> 6. \<exists>s'. alone n t s = Inr s' \<and> finished (Pcs s' t) \<and> (fresh t s \<longrightarrow> lf_run T M s')"
proof (cases "fresh t s")
  case True
  with alone_finishes [OF assms(2,1,3) _ steps_left_6] show ?thesis by blast
next
  case False
  from run_lf_inv [OF assms(2,1)] obtain L where "lf_inv T M L s" ..
  from lone_ends [OF assms(1) this assms(3) steps_left_6] False show ?thesis by blast
qed

theorem lone_thread_finishes_witness:
  "\<exists>n \<le> 6. \<exists>s'. alone n 0 (call_push 0 4096 0 (lf_start {4096, 8192})) = Inr s' \<and> finished (Pcs s' 0)"
proof -
  let ?s = "call_push 0 4096 0 (lf_start {4096, 8192})"
  have r: "lf_run {0, 1} {4096, 8192} ?s"
    by (rule lf_run.push [OF lf_start_run]) (simp_all add: lf_start_def)
  from lone_thread_finishes [OF small_universe r, of 0] show ?thesis by auto
qed

end
