(* ===== verification/LockFreeAba.thy ===== *)
theory LockFreeAba
  imports LockFreeRuns
begin

text \<open>
  The window is needed: the 16-bit tag wraps. A run in which one pop is delayed while 65536 tags are
  issued, and what its compare-exchange then does.
\<close>

subsection \<open>Whole operations of a thread that runs alone\<close>

definition pushed :: "nat \<Rightarrow> u64 \<Rightarrow> lfg \<Rightarrow> lfg" where
  "pushed t node s = s\<lparr>Top := SetTag (TagCnt s + 1) (SetPtr node 0), Cnt := Cnt s + 1, TagCnt := TagCnt s + 1,
     Next := (Next s)(node \<mapsto> GetPtr (Top s)), Pcs := (Pcs s)(t := Idle), Issued := Issued s + 1,
     TopK := Issued s + 1, OpK := (OpK s)(t := Issued s + 1), Held := Held s - {node}\<rparr>"

definition popped :: "nat \<Rightarrow> u64 \<Rightarrow> lfg \<Rightarrow> lfg" where
  "popped t x s = s\<lparr>Top := SetPtr x (SetTag (TagCnt s + 1) 0), Cnt := Cnt s - 1, TagCnt := TagCnt s + 1,
     Pcs := (Pcs s)(t := Idle), Issued := Issued s + 1, TopK := Issued s + 1, OpK := (OpK s)(t := Issued s + 1),
     OldK := (OldK s)(t := TopK s), Held := Held s \<union> {GetPtr (Top s)}\<rparr>"

lemma alone_run:
  assumes "lf_run T M s" "t \<in> T" "fresh t s" "alone n t s = Inr s'"
  shows "lf_run T M s'"
  using assms
proof (induction n arbitrary: s)
  case 0
  then show ?case by simp
next
  case (Suc n)
  then obtain s1 where s1: "g_step t s = Inr s1" "alone n t s1 = Inr s'" by (auto simp: ebind_eq_Inr)
  have r: "lf_run T M s1" using lf_run.step [OF Suc.prems(1,2) fresh_window [OF Suc.prems(3)] s1(1)] .
  have "fresh t s1"
  proof (cases "finished (Pcs s t)")
    case True
    then show ?thesis using s1(1) Suc.prems(3) by (auto simp: finished_def g_step_def lf_step_def fresh_def)
  next
    case False
    then show ?thesis using step_progress [OF s1(1) False Suc.prems(3)] by simp
  qed
  from Suc.IH [OF r Suc.prems(2) this s1(2)] show ?case .
qed

lemmas run_simps = g_step_def lf_step_def GetTagCnt_def CAS_top_def store_next_def load_next_def goto_def
  call_push_def call_pop_def take_popped_def numeral_eq_Suc

lemma push_run:
  assumes "lf_run T M s" "t \<in> T" "Pcs s t = Idle" "node \<in> Held s" "node \<noteq> 0" "is_addr node" "Next s node \<noteq> None"
  shows "lf_run T M (pushed t node s)"
proof -
  let ?s = "call_push t node 0 s"
  have r: "lf_run T M ?s" using lf_run.push [OF assms(1-4)] .
  have f: "fresh t ?s" by (simp add: fresh_def call_push_def)
  have p: "GetPtr (SetPtr node 0) = node" using assms(6) by (rule GetPtr_SetPtr_addr)
  have "alone 5 t ?s = Inr (pushed t node s)"
    using assms(5,7) p by (cases s) (auto simp: run_simps pushed_def)
  from alone_run [OF r assms(2) f this] show ?thesis .
qed

lemma pop_run:
  assumes "lf_run T M s" "t \<in> T" "Pcs s t = Idle" "0 < sint (Cnt s)" "GetPtr (Top s) \<noteq> 0"
    "Next s (GetPtr (Top s)) = Some x"
  shows "lf_run T M (popped t x s)"
proof -
  let ?s = "call_pop t s"
  have r: "lf_run T M ?s" using lf_run.pop [OF assms(1-3)] .
  have f: "fresh t ?s" by (simp add: fresh_def call_pop_def)
  let ?t = "s\<lparr>Top := SetPtr x (SetTag (TagCnt s + 1) 0), Cnt := Cnt s - 1, TagCnt := TagCnt s + 1,
     Pcs := (Pcs s)(t := PopDone (GetPtr (Top s))), Issued := Issued s + 1, TopK := Issued s + 1,
     OpK := (OpK s)(t := Issued s + 1), OldK := (OldK s)(t := TopK s)\<rparr>"
  have "alone 5 t ?s = Inr ?t"
    using assms(4-6) by (cases s) (auto simp: run_simps)
  from alone_run [OF r assms(2) f this] have "lf_run T M ?t" .
  from lf_run.taken [OF this assms(2)] have "lf_run T M (take_popped t (GetPtr (Top s)) ?t)" by simp
  moreover have "take_popped t (GetPtr (Top s)) ?t = popped t x s"
    using assms(5) by (cases s) (simp add: take_popped_def goto_def popped_def)
  ultimately show ?thesis by simp
qed

text \<open>A pop up to its compare-exchange.\<close>

lemma pop_to_cas:
  assumes "0 < sint (Cnt s)" "GetPtr (Top s) \<noteq> 0" "Next s (GetPtr (Top s)) = Some x"
  shows "alone 4 t (call_pop t s) = Inr (s\<lparr>Cnt := Cnt s - 1, TagCnt := TagCnt s + 1,
     Pcs := (Pcs s)(t := PopCas (SetPtr x (SetTag (TagCnt s + 1) 0)) (Top s)), Issued := Issued s + 1,
     OpK := (OpK s)(t := Issued s + 1), OldK := (OldK s)(t := TopK s)\<rparr>)"
  using assms by (cases s) (auto simp: run_simps)

subsection \<open>A delayed pop and 65536 tags\<close>

abbreviation nodeA :: u64 where "nodeA \<equiv> 4096"
abbreviation nodeB :: u64 where "nodeB \<equiv> 8192"
abbreviation nodeC :: u64 where "nodeC \<equiv> 12288"

text \<open>Thread 0 is about to compare; it remembers node A with tag 3 on top and B behind it.\<close>

definition waiting :: "nat \<Rightarrow> lfg \<Rightarrow> bool" where
  "waiting i s \<longleftrightarrow> lf_run {0, 1} {nodeA, nodeB, nodeC} s \<and> (\<exists>tg. Top s = SetTag tg (SetPtr nodeA 0)) \<and>
     Cnt s = 2 \<and> TagCnt s = of_nat i \<and> Issued s = i \<and> Held s = {} \<and>
     Next s nodeA = Some nodeB \<and> Next s nodeB = Some nodeC \<and> Next s nodeC = Some 0 \<and>
     Pcs s 0 = PopCas (SetPtr nodeB (SetTag 4 0)) (SetTag 3 (SetPtr nodeA 0)) \<and> Pcs s 1 = Idle \<and> OldK s 0 = 3"

lemma waiting_start: "\<exists>s. waiting 4 s"
proof -
  let ?M = "{nodeA, nodeB, nodeC}"
  define s1 where "s1 = pushed 1 nodeC (lf_start ?M)"
  have r1: "lf_run {0, 1} ?M s1" unfolding s1_def
    by (rule push_run [OF lf_start_run]) (simp_all add: lf_start_def is_addr_def)
  define s2 where "s2 = pushed 1 nodeB s1"
  have r2: "lf_run {0, 1} ?M s2" unfolding s2_def
    by (rule push_run [OF r1]) (simp_all add: s1_def pushed_def lf_start_def is_addr_def)
  define s3 where "s3 = pushed 1 nodeA s2"
  have r3: "lf_run {0, 1} ?M s3" unfolding s3_def
    by (rule push_run [OF r2]) (simp_all add: s1_def s2_def pushed_def lf_start_def is_addr_def)
  have f3: "Top s3 = SetTag 3 (SetPtr nodeA 0)" "Cnt s3 = 3" "TagCnt s3 = 3" "Issued s3 = 3" "TopK s3 = 3"
    "Held s3 = {}" "Next s3 nodeA = Some nodeB" "Next s3 nodeB = Some nodeC" "Next s3 nodeC = Some 0"
    "Pcs s3 = (\<lambda>t. Idle)"
    by (auto simp: s1_def s2_def s3_def pushed_def lf_start_def fun_eq_iff)
  let ?s = "call_pop 0 s3"
  have r: "lf_run {0, 1} ?M ?s" by (rule lf_run.pop [OF r3]) (simp_all add: f3)
  let ?s4 = "s3\<lparr>Cnt := Cnt s3 - 1, TagCnt := TagCnt s3 + 1,
     Pcs := (Pcs s3)(0 := PopCas (SetPtr nodeB (SetTag (TagCnt s3 + 1) 0)) (Top s3)), Issued := Issued s3 + 1,
     OpK := (OpK s3)(0 := Issued s3 + 1), OldK := (OldK s3)(0 := TopK s3)\<rparr>"
  have s4: "alone 4 0 ?s = Inr ?s4" by (rule pop_to_cas) (simp_all add: f3)
  have "fresh 0 ?s" by (simp add: fresh_def call_pop_def)
  from alone_run [OF r _ this s4] have "lf_run {0, 1} ?M ?s4" by simp
  with f3 show ?thesis by (intro exI [of _ ?s4]) (auto simp: waiting_def)
qed

text \<open>Thread 1 pops A and pushes it again: the same list, two tags later.\<close>

lemma waiting_round:
  assumes "waiting i s"
  shows "waiting (i + 2) (pushed 1 nodeA (popped 1 nodeB s))"
proof -
  let ?s = "popped 1 nodeB s"
  obtain tg where w: "lf_run {0, 1} {nodeA, nodeB, nodeC} s" "Top s = SetTag tg (SetPtr nodeA 0)" "Cnt s = 2"
    "TagCnt s = of_nat i" "Issued s = i" "Held s = {}" "Next s nodeA = Some nodeB" "Next s nodeB = Some nodeC"
    "Next s nodeC = Some 0" "Pcs s 0 = PopCas (SetPtr nodeB (SetTag 4 0)) (SetTag 3 (SetPtr nodeA 0))"
    "Pcs s 1 = Idle" "OldK s 0 = 3" using assms by (auto simp: waiting_def)
  have r: "lf_run {0, 1} {nodeA, nodeB, nodeC} ?s"
    by (rule pop_run [OF w(1)]) (use w in \<open>simp_all\<close>)
  have "lf_run {0, 1} {nodeA, nodeB, nodeC} (pushed 1 nodeA ?s)"
    by (rule push_run [OF r]) (use w in \<open>simp_all add: popped_def is_addr_def\<close>)
  then show ?thesis using w by (auto simp: waiting_def pushed_def popped_def)
qed

lemma waiting_rounds: "\<exists>s. waiting (4 + 2 * m) s"
proof (induction m)
  case (Suc m)
  then obtain s where "waiting (4 + 2 * m) s" by blast
  from waiting_round [OF this] show ?case by (auto simp: algebra_simps)
qed (use waiting_start in simp)

text \<open>C31. Outside the window the list breaks: there is a run in which a delayed pop finds its old top word
  again after 65536 further tags, and its compare-exchange then succeeds although the node behind it has
  been popped in the meantime: the node is on the list and in the hands of a caller at once.\<close>

theorem tag_wrap_breaks:
  "\<exists>s s'. lf_run {0, 1} {nodeA, nodeB, nodeC} s \<and> \<not> in_window 0 s \<and> Issued s = OldK s 0 + 65536 \<and>
     g_step 0 s = Inr s' \<and> nodeB \<in> Held s' \<and> lchain (Next s') (GetPtr (Top s')) [nodeB, nodeC]"
proof -
  obtain s where "waiting (4 + 2 * 32766) s" using waiting_rounds by blast
  then obtain tg where w: "lf_run {0, 1} {nodeA, nodeB, nodeC} s" "Top s = SetTag tg (SetPtr nodeA 0)" "Cnt s = 2"
    "TagCnt s = 0" "Issued s = 65536" "Held s = {}" "Next s nodeA = Some nodeB" "Next s nodeB = Some nodeC"
    "Next s nodeC = Some 0" "Pcs s 0 = PopCas (SetPtr nodeB (SetTag 4 0)) (SetTag 3 (SetPtr nodeA 0))"
    "Pcs s 1 = Idle" "OldK s 0 = 3" by (auto simp: waiting_def)
  define s1 where "s1 = popped 1 nodeB s"
  have r1: "lf_run {0, 1} {nodeA, nodeB, nodeC} s1" unfolding s1_def
    by (rule pop_run [OF w(1)]) (use w in \<open>simp_all\<close>)
  define s2 where "s2 = popped 1 nodeC s1"
  have r2: "lf_run {0, 1} {nodeA, nodeB, nodeC} s2" unfolding s2_def
    by (rule pop_run [OF r1]) (use w in \<open>simp_all add: s1_def popped_def\<close>)
  define s3 where "s3 = pushed 1 nodeA s2"
  have r3: "lf_run {0, 1} {nodeA, nodeB, nodeC} s3" unfolding s3_def
    by (rule push_run [OF r2]) (use w in \<open>simp_all add: s1_def s2_def popped_def is_addr_def\<close>)
  have f: "Top s3 = SetTag 3 (SetPtr nodeA 0)" "Issued s3 = 65539" "TopK s3 = 65539" "OldK s3 0 = 3"
    "Pcs s3 0 = PopCas (SetPtr nodeB (SetTag 4 0)) (SetTag 3 (SetPtr nodeA 0))" "Held s3 = {nodeB}"
    "Next s3 nodeB = Some nodeC" "Next s3 nodeC = Some 0"
    using w by (auto simp: s1_def s2_def s3_def popped_def pushed_def)
  have "\<not> in_window 0 s3" using f by (simp add: in_window_def)
  moreover have "\<exists>s'. g_step 0 s3 = Inr s' \<and> nodeB \<in> Held s' \<and> lchain (Next s') (GetPtr (Top s')) [nodeB, nodeC]"
    using f by (simp add: g_step_def lf_step_def CAS_top_def)
  then obtain s' where "g_step 0 s3 = Inr s'" "nodeB \<in> Held s'" "lchain (Next s') (GetPtr (Top s')) [nodeB, nodeC]"
    by blast
  moreover have "Issued s3 = OldK s3 0 + 65536" using f by simp
  ultimately show ?thesis using r3 by blast
qed

end
