(* ===== verification/LockFreePool.thy ===== *)
theory LockFreePool
  imports LockFreeCore
begin

text \<open>
  \<open>LockFreeMemoryPool\<close> (BaseLibrary/include/LockFreeMemoryPool.h) as its caller sees it: whole
  operations on nodes with their pads and data. \<open>PushtoFreeNode\<close> and \<open>PopFromFreeNode\<close> are written
  here as one thread runs them when no other interferes; that they are runs of the step protocol of
  \<open>LockFreeCore\<close>, whose theorems cover the interleavings, is shown below.

  \<open>new\<close> hands out addresses from \<open>Brk\<close> upwards. \<open>Junk\<close> is what the storage of an uninitialised
  tagged pointer holds.
\<close>

subsection \<open>State\<close>

definition kDefaultPool :: int where "kDefaultPool = 300"
definition kMaxMemoryRange :: u64 where "kMaxMemoryRange = 0x00007ffffffeffff"
definition kPadUnderflow :: u64 where "kPadUnderflow = 0xdfdfdfdfdfdfdfdf"
definition kPadOverflow :: u64 where "kPadOverflow = 0xefefefefefefefef"
definition sizeof_PadType :: u64 where "sizeof_PadType = 8"

record 'd lf_node =
  PadUnderflow :: u64
  NData :: 'd
  NNext :: u64
  PadOverflow :: u64

record 'd lf_pool =
  HeadFreeNode :: tagged
  FreeNodeCnt :: u32
  UseNodeCnt :: u32
  TotalNodeCnt :: u32
  MemoryAllocSize :: int
  PTagCnt :: u16
  Nodes :: "u64 \<Rightarrow> 'd lf_node option"
  Brk :: u64
  NodeSize :: u64
  Junk :: tagged

definition new_lf_node :: "'d \<Rightarrow> 'd lf_node" where
  "new_lf_node d = \<lparr>PadUnderflow = kPadUnderflow, NData = d, NNext = 0, PadOverflow = kPadOverflow\<rparr>"

subsection \<open>The free list\<close>

definition pool_tag :: "'d lf_pool \<Rightarrow> 'd lf_pool \<times> u16" where
  "pool_tag P = (P\<lparr>PTagCnt := PTagCnt P + 1\<rparr>, PTagCnt P + 1)"

definition get_node :: "u64 \<Rightarrow> 'd lf_pool \<Rightarrow> fault + 'd lf_node" where
  "get_node p P = (if p = 0 then Inl NullDeref
     else case Nodes P p of None \<Rightarrow> Inl OutOfBounds | Some n \<Rightarrow> Inr n)"

text \<open>The loop of both runs once: the compare-exchange finds the top it has just read.\<close>

definition PushtoFreeNode :: "u64 \<Rightarrow> 'd lf_pool \<Rightarrow> fault + 'd lf_pool" where
  "PushtoFreeNode node P =
     (let (P1, tag) = pool_tag P;
          NewTop = SetTag tag (SetPtr node (Junk P));
          OldTop = HeadFreeNode P1
      in ebind (get_node (GetPtr NewTop) P1) (\<lambda>n.
         Inr (P1\<lparr>Nodes := (Nodes P1)(GetPtr NewTop \<mapsto> n\<lparr>NNext := GetPtr OldTop\<rparr>), HeadFreeNode := NewTop,
                FreeNodeCnt := FreeNodeCnt P1 + 1\<rparr>)))"

definition PopFromFreeNode :: "'d lf_pool \<Rightarrow> fault + 'd lf_pool \<times> u64 option" where
  "PopFromFreeNode P =
     (let (P1, tag) = pool_tag P;
          NewTop = SetTag tag 0
      in if sint (FreeNodeCnt P1) \<le> 0 then Inr (P1, None)
         else
           let P2 = P1\<lparr>FreeNodeCnt := FreeNodeCnt P1 - 1\<rparr>; OldTop = HeadFreeNode P2
           in ebind (get_node (GetPtr OldTop) P2) (\<lambda>n.
              Inr (P2\<lparr>HeadFreeNode := SetPtr (NNext n) NewTop\<rparr>, Some (GetPtr OldTop))))"

subsection \<open>The operations\<close>

definition NewNode :: "'d \<Rightarrow> 'd lf_pool \<Rightarrow> fault + 'd lf_pool" where
  "NewNode d P =
     (let node = Brk P; P1 = P\<lparr>Nodes := (Nodes P)(node \<mapsto> new_lf_node d), Brk := Brk P + NodeSize P\<rparr>
      in ebind (PushtoFreeNode node P1) (\<lambda>P2. Inr (P2\<lparr>TotalNodeCnt := TotalNodeCnt P2 + 1\<rparr>)))"

fun NewNodes :: "nat \<Rightarrow> 'd \<Rightarrow> 'd lf_pool \<Rightarrow> fault + 'd lf_pool" where
  "NewNodes 0 d P = Inr P"
| "NewNodes (Suc k) d P = ebind (NewNode d P) (NewNodes k d)"

text \<open>The loop of \<open>Alloc\<close> adds nodes until a pop succeeds; with \<open>MemoryAllocSize\<close> 0 it never does.\<close>

partial_function (option) alloc_loop :: "'d \<Rightarrow> 'd lf_pool \<Rightarrow> (fault + 'd lf_pool \<times> u64) option" where
  "alloc_loop d P =
     (case PopFromFreeNode P of
        Inl e \<Rightarrow> Some (Inl e)
      | Inr (P1, Some node) \<Rightarrow> Some (Inr (P1, node))
      | Inr (P1, None) \<Rightarrow>
          (case NewNodes (nat (MemoryAllocSize P1)) d P1 of
             Inl e \<Rightarrow> Some (Inl e)
           | Inr P2 \<Rightarrow> alloc_loop d P2))"

definition lf_Alloc :: "'d \<Rightarrow> 'd lf_pool \<Rightarrow> (fault + 'd lf_pool \<times> u64) option" where
  "lf_Alloc d P =
     (case alloc_loop d P of
        None \<Rightarrow> None
      | Some r \<Rightarrow> Some (ebind r (\<lambda>(P1, node). Inr (P1\<lparr>UseNodeCnt := UseNodeCnt P1 + 1\<rparr>, node + sizeof_PadType))))"

text \<open>Damaged pads end in a write through a null pointer.\<close>

definition lf_Free :: "u64 \<Rightarrow> 'd lf_pool \<Rightarrow> fault + 'd lf_pool" where
  "lf_Free target P =
     (let node = target - sizeof_PadType
      in ebind (get_node node P) (\<lambda>n.
         if PadUnderflow n \<noteq> kPadUnderflow \<or> PadOverflow n \<noteq> kPadOverflow then Inl NullDeref
         else ebind (PushtoFreeNode node P) (\<lambda>P1. Inr (P1\<lparr>UseNodeCnt := UseNodeCnt P1 - 1\<rparr>))))"

text \<open>
  \<open>ClearMemoryPool\<close> deletes nodes until none is free; the first argument bounds the loop. The fields
  of the constructor: with another address range than the expected one nothing is initialised.
\<close>

fun clear_loop :: "nat \<Rightarrow> 'd lf_pool \<Rightarrow> fault + 'd lf_pool" where
  "clear_loop 0 P = Inr P"
| "clear_loop (Suc k) P =
     ebind (PopFromFreeNode P) (\<lambda>(P1, node).
       case node of
         None \<Rightarrow> Inr P1
       | Some p \<Rightarrow> clear_loop k (P1\<lparr>Nodes := (Nodes P1)(p := None)\<rparr>))"

definition ClearMemoryPool :: "nat \<Rightarrow> 'd lf_pool \<Rightarrow> fault + 'd lf_pool" where
  "ClearMemoryPool k P =
     ebind (clear_loop k P) (\<lambda>P1. Inr (P1\<lparr>FreeNodeCnt := 0, UseNodeCnt := 0, TotalNodeCnt := 0\<rparr>))"

definition LockFreeMemoryPool :: "u64 \<Rightarrow> int \<Rightarrow> 'd \<Rightarrow> 'd lf_pool \<Rightarrow> fault + 'd lf_pool" where
  "LockFreeMemoryPool maxAddress initSize d raw =
     (let P = raw\<lparr>HeadFreeNode := 0\<rparr>
      in if maxAddress \<noteq> kMaxMemoryRange then Inr P
         else NewNodes (nat initSize) d
                (P\<lparr>MemoryAllocSize := initSize, PTagCnt := 0, FreeNodeCnt := 0, UseNodeCnt := 0, TotalNodeCnt := 0\<rparr>))"

definition delete_pool :: "nat \<Rightarrow> 'd lf_pool \<Rightarrow> fault + 'd lf_pool" where
  "delete_pool k P = (if TotalNodeCnt P = FreeNodeCnt P + UseNodeCnt P then ClearMemoryPool k P else Inr P)"

text \<open>A node's data through the pointer \<open>Alloc\<close> returned.\<close>

definition lf_read :: "'d lf_pool \<Rightarrow> u64 \<Rightarrow> 'd option" where
  "lf_read P target = map_option NData (Nodes P (target - sizeof_PadType))"

definition lf_write :: "u64 \<Rightarrow> 'd \<Rightarrow> 'd lf_pool \<Rightarrow> 'd lf_pool" where
  "lf_write target v P =
     P\<lparr>Nodes := (Nodes P)(target - sizeof_PadType := map_option (\<lambda>n. n\<lparr>NData := v\<rparr>) (Nodes P (target - sizeof_PadType)))\<rparr>"

text \<open>Access to a node through a pointer, and its fields' update.\<close>

definition load_node :: "u64 \<Rightarrow> 'd lf_pool \<Rightarrow> fault + 'd" where
  "load_node p P = (if p = 0 then Inl NullDeref
     else case lf_read P p of None \<Rightarrow> Inl OutOfBounds | Some d \<Rightarrow> Inr d)"

definition store_node :: "u64 \<Rightarrow> ('d \<Rightarrow> 'd) \<Rightarrow> 'd lf_pool \<Rightarrow> fault + 'd lf_pool" where
  "store_node p f P = ebind (load_node p P) (\<lambda>d. Inr (lf_write p (f d) P))"

subsection \<open>The operations are runs of the protocol\<close>

definition lf_view :: "'d lf_pool \<Rightarrow> lf" where
  "lf_view P = \<lparr>Top = HeadFreeNode P, Cnt = FreeNodeCnt P, TagCnt = PTagCnt P,
     Next = (\<lambda>p. map_option NNext (Nodes P p)), Pcs = (\<lambda>t. Idle)\<rparr>"

fun lf_steps :: "nat \<Rightarrow> nat \<Rightarrow> lf \<Rightarrow> fault + lf" where
  "lf_steps 0 t s = Inr s"
| "lf_steps (Suc n) t s = ebind (lf_step t s) (lf_steps n t)"

lemmas protocol_simps = lf_step_def LockFreeCore.GetTagCnt_def CAS_top_def store_next_def load_next_def goto_def numeral_eq_Suc

lemma push_protocol:
  "lf_steps 5 t (goto t (PushTag node (Junk P)) (lf_view P)) = map_sum id lf_view (PushtoFreeNode node P)"
  by (auto simp: protocol_simps lf_view_def PushtoFreeNode_def pool_tag_def get_node_def Let_def fun_eq_iff
      split: option.splits)

lemma pop_protocol:
  "lf_steps (if sint (FreeNodeCnt P) \<le> 0 then 3 else 5) t (goto t PopTag (lf_view P)) =
     map_sum id (\<lambda>(P', r). goto t (PopDone (case r of None \<Rightarrow> 0 | Some p \<Rightarrow> p)) (lf_view P')) (PopFromFreeNode P)"
  by (auto simp: protocol_simps lf_view_def PopFromFreeNode_def pool_tag_def get_node_def Let_def fun_eq_iff
      split: option.splits)

text \<open>A whole push or pop of the pool is a run of the step protocol: when no other thread interferes, five
  steps of \<open>PushtoFreeNode\<close>, and five or (on an empty pool) three of \<open>PopFromFreeNode\<close>, do exactly what the
  operation does, with the same result and the same faults.\<close>

theorem pool_runs_protocol:
  "lf_steps 5 t (goto t (PushTag node (Junk P)) (lf_view P)) = map_sum id lf_view (PushtoFreeNode node P) \<and>
   lf_steps (if sint (FreeNodeCnt P) \<le> 0 then 3 else 5) t (goto t PopTag (lf_view P)) =
     map_sum id (\<lambda>(P', r). goto t (PopDone (case r of None \<Rightarrow> 0 | Some p \<Rightarrow> p)) (lf_view P')) (PopFromFreeNode P)"
  by (intro conjI push_protocol pop_protocol)

subsection \<open>The invariant of the pool\<close>

text \<open>\<open>L\<close> is the free list, \<open>U\<close> the nodes in use.\<close>

definition node_at :: "'d lf_pool \<Rightarrow> u64 \<Rightarrow> bool" where
  "node_at P p \<longleftrightarrow> p \<noteq> 0 \<and> unat p + 16 \<le> 2 ^ 47 \<and> unat p < unat (Brk P) \<and>
     (\<exists>n. Nodes P p = Some n \<and> PadUnderflow n = kPadUnderflow \<and> PadOverflow n = kPadOverflow)"

definition fp_list :: "'d lf_pool \<Rightarrow> u64 list \<Rightarrow> u64 set \<Rightarrow> bool" where
  "fp_list P L U \<longleftrightarrow> lchain (\<lambda>p. map_option NNext (Nodes P p)) (GetPtr (HeadFreeNode P)) L \<and> distinct L \<and>
     finite U \<and> set L \<inter> U = {} \<and> (\<forall>p \<in> set L \<union> U. node_at P p) \<and> 0 < Brk P \<and>
     (\<forall>p n. Nodes P p = Some n \<longrightarrow> unat p < unat (Brk P) \<and> is_addr (NNext n))"

definition fp_cnt :: "'d lf_pool \<Rightarrow> nat \<Rightarrow> nat \<Rightarrow> bool" where
  "fp_cnt P l u \<longleftrightarrow> FreeNodeCnt P = of_nat l \<and> UseNodeCnt P = of_nat u \<and> TotalNodeCnt P = of_nat (l + u)"

definition fp_inv :: "'d lf_pool \<Rightarrow> u64 list \<Rightarrow> u64 set \<Rightarrow> bool" where
  "fp_inv P L U \<longleftrightarrow> fp_list P L U \<and> fp_cnt P (length L) (card U)"

text \<open>What all operations leave alone.\<close>

definition same_shape :: "'d lf_pool \<Rightarrow> 'd lf_pool \<Rightarrow> bool" where
  "same_shape P P' \<longleftrightarrow> NodeSize P' = NodeSize P \<and> MemoryAllocSize P' = MemoryAllocSize P"

definition same_data :: "'d lf_pool \<Rightarrow> 'd lf_pool \<Rightarrow> bool" where
  "same_data P P' \<longleftrightarrow> (\<forall>q. Nodes P q \<noteq> None \<longrightarrow> map_option NData (Nodes P' q) = map_option NData (Nodes P q))"

text \<open>Room for \<open>k\<close> more nodes, beside \<open>n\<close>, below the end of the address space and within the counters.\<close>

definition has_room :: "'d lf_pool \<Rightarrow> nat \<Rightarrow> nat \<Rightarrow> bool" where
  "has_room P k n \<longleftrightarrow> 16 \<le> unat (NodeSize P) \<and> unat (Brk P) + k * unat (NodeSize P) \<le> 2 ^ 47 \<and> n + k < 2 ^ 31"

lemma has_room_less: "has_room P (j + k) n \<Longrightarrow> has_room P k n"
  by (simp add: has_room_def distrib_right)

lemma is_addr_unat: "is_addr p \<longleftrightarrow> unat p < 2 ^ 47"
proof -
  have "is_addr p \<longleftrightarrow> unat (take_bit 47 p) = unat p" by (simp add: is_addr_def word_unat_eq_iff)
  also have "\<dots> \<longleftrightarrow> unat p < 2 ^ 47"
    by (simp add: unsigned_take_bit_eq take_bit_nat_eq_self_iff)
  finally show ?thesis .
qed

lemma node_at_addr: "node_at P p \<Longrightarrow> is_addr p"
  by (simp add: node_at_def is_addr_unat)

lemma get_node_at: "node_at P p \<Longrightarrow> \<exists>n. get_node p P = Inr n \<and> Nodes P p = Some n \<and>
    PadUnderflow n = kPadUnderflow \<and> PadOverflow n = kPadOverflow"
  by (auto simp: node_at_def get_node_def)

lemma fp_list_counters [simp]:
  "fp_list (P\<lparr>UseNodeCnt := u\<rparr>) L U = fp_list P L U" "fp_list (P\<lparr>TotalNodeCnt := v\<rparr>) L U = fp_list P L U"
  "fp_list (P\<lparr>FreeNodeCnt := w\<rparr>) L U = fp_list P L U" "fp_list (P\<lparr>PTagCnt := t\<rparr>) L U = fp_list P L U"
  by (simp_all add: fp_list_def node_at_def)

lemma fp_listD:
  assumes "fp_list P L U"
  shows "p \<in> U \<Longrightarrow> node_at P p" "p \<in> set L \<Longrightarrow> node_at P p" "p \<in> U \<Longrightarrow> p \<notin> set L" "finite U" "distinct L"
    "Nodes P p = Some n \<Longrightarrow> unat p < unat (Brk P)" "Nodes P p = Some n \<Longrightarrow> is_addr (NNext n)" "0 < Brk P"
  using assms by (auto simp only: fp_list_def)

text \<open>The pool after a push, and after a pop that found the node \<open>n\<close> on top.\<close>

definition after_push :: "u64 \<Rightarrow> 'd lf_node \<Rightarrow> 'd lf_pool \<Rightarrow> 'd lf_pool" where
  "after_push p n P = P\<lparr>PTagCnt := PTagCnt P + 1, Nodes := (Nodes P)(p \<mapsto> n\<lparr>NNext := GetPtr (HeadFreeNode P)\<rparr>),
     HeadFreeNode := SetTag (PTagCnt P + 1) (SetPtr p (Junk P)), FreeNodeCnt := FreeNodeCnt P + 1\<rparr>"

definition after_pop :: "'d lf_node \<Rightarrow> 'd lf_pool \<Rightarrow> 'd lf_pool" where
  "after_pop n P = P\<lparr>PTagCnt := PTagCnt P + 1, FreeNodeCnt := FreeNodeCnt P - 1,
     HeadFreeNode := SetPtr (NNext n) (SetTag (PTagCnt P + 1) 0)\<rparr>"

lemma after_fields [simp]:
  "NodeSize (after_push p n P) = NodeSize P" "MemoryAllocSize (after_push p n P) = MemoryAllocSize P"
  "Brk (after_push p n P) = Brk P" "UseNodeCnt (after_push p n P) = UseNodeCnt P"
  "TotalNodeCnt (after_push p n P) = TotalNodeCnt P" "FreeNodeCnt (after_push p n P) = FreeNodeCnt P + 1"
  "NodeSize (after_pop n P) = NodeSize P" "MemoryAllocSize (after_pop n P) = MemoryAllocSize P"
  "Brk (after_pop n P) = Brk P" "UseNodeCnt (after_pop n P) = UseNodeCnt P"
  "TotalNodeCnt (after_pop n P) = TotalNodeCnt P" "FreeNodeCnt (after_pop n P) = FreeNodeCnt P - 1"
  "Nodes (after_pop n P) = Nodes P"
  by (simp_all add: after_push_def after_pop_def)

lemma PushtoFreeNode_eq:
  assumes "node_at P p" "Nodes P p = Some n"
  shows "PushtoFreeNode p P = Inr (after_push p n P)"
  using assms node_at_addr [OF assms(1)]
  by (simp add: PushtoFreeNode_def pool_tag_def get_node_def after_push_def node_at_def is_addr_def)

lemma after_push_list:
  assumes "fp_list P L U" "node_at P p" "Nodes P p = Some n" "p \<notin> set L" "p \<notin> U"
  shows "fp_list (after_push p n P) (p # L) U"
proof -
  let ?P = "after_push p n P"
  have a: "GetPtr (HeadFreeNode ?P) = p"
    using node_at_addr [OF assms(2)] by (simp add: after_push_def is_addr_def)
  have "lchain (\<lambda>q. map_option NNext (Nodes P q)) (GetPtr (HeadFreeNode P)) L" using assms(1) by (simp add: fp_list_def)
  then have "lchain (\<lambda>q. map_option NNext (Nodes ?P q)) (GetPtr (HeadFreeNode P)) L"
    by (rule lchain_cong) (use assms(4) in \<open>auto simp: after_push_def\<close>)
  moreover have "Nodes ?P p = Some (n\<lparr>NNext := GetPtr (HeadFreeNode P)\<rparr>)" by (simp add: after_push_def)
  ultimately have "lchain (\<lambda>q. map_option NNext (Nodes ?P q)) (GetPtr (HeadFreeNode ?P)) (p # L)"
    using a assms(2) by (simp add: node_at_def)
  moreover have "node_at ?P q" if "node_at P q" for q
    using that assms(2,3) by (auto simp: node_at_def after_push_def)
  moreover have "unat q < unat (Brk ?P) \<and> is_addr (NNext m)" if "Nodes ?P q = Some m" for q m
    using that assms(1,3) by (auto simp: fp_list_def after_push_def split: if_splits)
  ultimately show ?thesis using assms(1,2,4,5) unfolding fp_list_def by auto
qed

lemma after_push_data: "Nodes P p = Some n \<Longrightarrow> same_data P (after_push p n P)"
  by (simp add: same_data_def after_push_def)

lemma PopFromFreeNode_eq:
  assumes "fp_list P (p # L) U" "FreeNodeCnt P = of_nat (Suc (length L))" "length L + 1 < 2 ^ 31"
  shows "\<exists>n. Nodes P p = Some n \<and> PopFromFreeNode P = Inr (after_pop n P, Some p) \<and> fp_list (after_pop n P) L (insert p U)"
proof -
  have h: "GetPtr (HeadFreeNode P) = p" "p \<noteq> 0" "p \<notin> set L" "p \<notin> U" "node_at P p"
    using assms(1) by (auto simp: fp_list_def)
  obtain n where n: "Nodes P p = Some n" using h(5) by (auto simp: node_at_def)
  have "is_addr (NNext n)" using assms(1) n unfolding fp_list_def by blast
  then have ad: "take_bit 47 (NNext n) = NNext n" by (simp add: is_addr_def)
  have "sint (of_nat (Suc (length L)) :: u32) = int (Suc (length L))"
    using assms(3) by (intro sint_of_nat_less) simp
  then have "\<not> sint (FreeNodeCnt P) \<le> 0" using assms(2) by simp
  then have "PopFromFreeNode P = Inr (after_pop n P, Some p)"
    using h n by (simp add: PopFromFreeNode_def pool_tag_def get_node_def after_pop_def)
  moreover have "fp_list (after_pop n P) L (insert p U)"
    using assms(1) n ad h by (auto simp: fp_list_def after_pop_def node_at_def)
  ultimately show ?thesis using n by blast
qed

lemma PopFromFreeNode_empty:
  "FreeNodeCnt P = 0 \<Longrightarrow> PopFromFreeNode P = Inr (P\<lparr>PTagCnt := PTagCnt P + 1\<rparr>, None)"
  by (simp add: PopFromFreeNode_def pool_tag_def)

subsection \<open>Free\<close>

lemma lf_Free_inv:
  assumes "fp_inv P L U" "p \<in> U"
  shows "\<exists>P'. lf_Free (p + sizeof_PadType) P = Inr P' \<and> fp_inv P' (p # L) (U - {p}) \<and> same_shape P P' \<and>
     Brk P' = Brk P \<and> same_data P P'"
proof -
  have l0: "fp_list P L U" using assms(1) by (simp add: fp_inv_def)
  then have at: "node_at P p" "p \<notin> set L" "finite U" using assms(2) by (simp_all add: fp_listD)
  from at(1) obtain n where n: "Nodes P p = Some n" "PadUnderflow n = kPadUnderflow" "PadOverflow n = kPadOverflow" "p \<noteq> 0"
    by (auto simp: node_at_def)
  have "set L \<inter> U = {}" "\<forall>q \<in> set L \<union> U. node_at P q" using l0 unfolding fp_list_def by simp_all
  then have "set L \<inter> (U - {p}) = {}" "\<forall>q \<in> set L \<union> (U - {p}). node_at P q" by auto
  then have "fp_list P L (U - {p})" using l0 by (simp add: fp_list_def)
  then have l: "fp_list (after_push p n P) (p # L) (U - {p})"
    using after_push_list [OF _ at(1) n(1) at(2)] by simp
  have c: "card U = Suc (card (U - {p}))" using assms(2) at(3) by (intro card.remove)
  let ?P = "(after_push p n P)\<lparr>UseNodeCnt := UseNodeCnt P - 1\<rparr>"
  have "lf_Free (p + sizeof_PadType) P = Inr ?P"
    using n PushtoFreeNode_eq [OF at(1) n(1)] by (simp add: lf_Free_def get_node_def)
  moreover have "fp_inv ?P (p # L) (U - {p})"
    using l assms(1) c by (simp add: fp_inv_def fp_cnt_def)
  ultimately show ?thesis
    using after_push_data [OF n(1)] by (intro exI [of _ ?P]) (simp add: same_shape_def same_data_def)
qed

subsection \<open>Alloc\<close>

lemma same_data_refl [simp]: "same_data P P" by (simp add: same_data_def)

lemma same_data_trans: "same_data P Q \<Longrightarrow> same_data Q R \<Longrightarrow> same_data P R"
  unfolding same_data_def by (metis option.map_disc_iff)

lemma same_shape_trans: "same_shape P Q \<Longrightarrow> same_shape Q R \<Longrightarrow> same_shape P R"
  by (simp add: same_shape_def)

lemma unat_Brk_plus:
  "has_room P (Suc k) n \<Longrightarrow> unat (Brk P + NodeSize P) = unat (Brk P) + unat (NodeSize P)"
  by (rule unat_add_lem [THEN iffD1]) (simp add: has_room_def)

lemma fresh_node_list:
  fixes d :: 'd
  assumes "fp_list P L U" "has_room P (Suc k) m"
  defines "Q \<equiv> P\<lparr>Nodes := (Nodes P)(Brk P \<mapsto> new_lf_node d), Brk := Brk P + NodeSize P\<rparr>"
  shows "fp_list Q L U" "node_at Q (Brk P)" "Nodes Q (Brk P) = Some (new_lf_node d)" "Brk P \<notin> set L" "Brk P \<notin> U"
    "same_data P Q"
proof -
  have b: "unat (Brk P + NodeSize P) = unat (Brk P) + unat (NodeSize P)" "16 \<le> unat (NodeSize P)"
      "unat (Brk P) + unat (NodeSize P) \<le> 2 ^ 47"
    using assms(2) unat_Brk_plus [OF assms(2)] by (simp_all add: has_room_def)
  have nb: "q \<noteq> Brk P" if "node_at P q" for q using that by (auto simp: node_at_def)
  show nL: "Brk P \<notin> set L" and "Brk P \<notin> U" using nb fp_listD(1,2) [OF assms(1)] by blast+
  have at: "node_at Q q" if "node_at P q" for q
    using nb [OF that] that b by (auto simp: node_at_def Q_def)
  have 1: "\<forall>q \<in> set L \<union> U. node_at Q q" using at fp_listD(1,2) [OF assms(1)] by blast
  have "lchain (\<lambda>p. map_option NNext (Nodes P p)) (GetPtr (HeadFreeNode P)) L" using assms(1) by (simp add: fp_list_def)
  then have 2: "lchain (\<lambda>p. map_option NNext (Nodes Q p)) (GetPtr (HeadFreeNode Q)) L"
    by (simp add: Q_def) (rule lchain_cong, assumption, use nL in auto)
  have 3: "unat q < unat (Brk Q) \<and> is_addr (NNext m)" if "Nodes Q q = Some m" for q m
  proof (cases "q = Brk P")
    case True
    then have "m = new_lf_node d" using that by (simp add: Q_def)
    then show ?thesis using True b by (simp add: Q_def new_lf_node_def is_addr_def)
  next
    case False
    then have "Nodes P q = Some m" using that by (simp add: Q_def)
    then show ?thesis using fp_listD(6,7) [OF assms(1)] b by (fastforce simp: Q_def)
  qed
  have 4: "0 < Brk Q" using b fp_listD(8) [OF assms(1)] by (simp add: Q_def word_less_nat_alt)
  have 5: "distinct L" "finite U" "set L \<inter> U = {}" using assms(1) by (simp_all add: fp_list_def)
  show "fp_list Q L U" unfolding fp_list_def by (intro conjI allI impI 1 2 4 5) (use 3 in auto)
  show "node_at Q (Brk P)" using b fp_listD(8) [OF assms(1)]
    by (auto simp: node_at_def Q_def new_lf_node_def word_less_nat_alt)
  show "Nodes Q (Brk P) = Some (new_lf_node d)" by (simp add: Q_def)
  show "same_data P Q" using fp_listD(6) [OF assms(1)] by (fastforce simp: same_data_def Q_def)
qed

lemma NewNode_inv:
  assumes "fp_inv P L U" "has_room P (Suc k) m"
  shows "\<exists>P' p. NewNode d P = Inr P' \<and> fp_inv P' (p # L) U \<and> has_room P' k (Suc m) \<and> same_shape P P' \<and> same_data P P'"
proof -
  have l0: "fp_list P L U" and c0: "fp_cnt P (length L) (card U)" using assms(1) by (simp_all add: fp_inv_def)
  define Q where "Q = P\<lparr>Nodes := (Nodes P)(Brk P \<mapsto> new_lf_node d), Brk := Brk P + NodeSize P\<rparr>"
  note f = fresh_node_list(1-3) [OF l0 assms(2), where d = d, folded Q_def] fresh_node_list(4,5) [OF l0 assms(2)]
    fresh_node_list(6) [OF l0 assms(2), where d = d, folded Q_def]
  let ?P = "(after_push (Brk P) (new_lf_node d) Q)\<lparr>TotalNodeCnt := TotalNodeCnt P + 1\<rparr>"
  have "NewNode d P = Inr ?P"
    using PushtoFreeNode_eq [OF f(2,3)] by (simp add: NewNode_def Let_def flip: Q_def) (simp add: Q_def)
  moreover have "fp_inv ?P (Brk P # L) U"
    using after_push_list [OF f(1,2,3,4,5)] c0 by (simp add: fp_inv_def fp_cnt_def Q_def)
  moreover have "has_room ?P k (Suc m)"
    using assms(2) unat_Brk_plus [OF assms(2)] by (simp add: has_room_def Q_def)
  moreover have "same_shape P ?P" by (simp add: same_shape_def Q_def)
  moreover have "same_data P ?P"
    using same_data_trans [OF f(6) after_push_data [OF f(3)]] by (simp add: same_data_def)
  ultimately show ?thesis by blast
qed

lemma NewNodes_inv:
  "fp_inv P L U \<Longrightarrow> has_room P (k + r) m \<Longrightarrow>
     \<exists>P' L'. NewNodes k d P = Inr P' \<and> fp_inv P' (L' @ L) U \<and> length L' = k \<and> has_room P' r (m + k) \<and>
       same_shape P P' \<and> same_data P P'"
proof (induction k arbitrary: P L m)
  case 0
  then show ?case by (intro exI [of _ P] exI [of _ "[]"]) (simp add: same_shape_def)
next
  case (Suc k)
  obtain P1 p where 1: "NewNode d P = Inr P1" "fp_inv P1 (p # L) U" "has_room P1 (k + r) (Suc m)" "same_shape P P1" "same_data P P1"
    using NewNode_inv [of P L U "k + r" m d] Suc.prems by auto
  obtain P2 L' where "NewNodes k d P1 = Inr P2" "fp_inv P2 (L' @ p # L) U" "length L' = k" "has_room P2 r (Suc m + k)"
      "same_shape P1 P2" "same_data P1 P2"
    using Suc.IH [OF 1(2,3)] by blast
  then show ?case using 1 same_data_trans same_shape_trans
    by (intro exI [of _ P2] exI [of _ "L' @ [p]"]) auto
qed

text \<open>A pop of a non-empty pool moves its top node into use.\<close>

lemma pop_inv:
  assumes "fp_inv P (p # L) U" "length L + 1 < 2 ^ 31"
  shows "\<exists>P'. PopFromFreeNode P = Inr (P', Some p) \<and> fp_inv (P'\<lparr>UseNodeCnt := UseNodeCnt P' + 1\<rparr>) L (insert p U) \<and>
    same_shape P P' \<and> Nodes P' = Nodes P \<and> Brk P' = Brk P"
proof -
  have l: "fp_list P (p # L) U" and c: "fp_cnt P (length (p # L)) (card U)" using assms(1) by (simp_all add: fp_inv_def)
  have "FreeNodeCnt P = of_nat (Suc (length L))" using c by (simp add: fp_cnt_def)
  from PopFromFreeNode_eq [OF l this assms(2)] obtain n where
    "PopFromFreeNode P = Inr (after_pop n P, Some p)" "fp_list (after_pop n P) L (insert p U)" by blast
  moreover have "card (insert p U) = Suc (card U)" using fp_listD(3) [OF l] fp_listD(4) [OF l] by (intro card_insert_disjoint) auto
  ultimately show ?thesis
    using c by (intro exI [of _ "after_pop n P"]) (simp add: fp_inv_def fp_cnt_def same_shape_def)
qed

lemma lf_Alloc_inv:
  assumes "fp_inv P L U" "0 < MemoryAllocSize P" "has_room P (nat (MemoryAllocSize P) + r) (length L + c)"
  shows "\<exists>P' p L'. lf_Alloc d P = Some (Inr (P', p + sizeof_PadType)) \<and> p \<notin> U \<and> fp_inv P' L' (insert p U) \<and>
    same_shape P P' \<and> same_data P P' \<and> has_room P' r (length L' + 1 + c)"
proof (cases L)
  case (Cons p L')
  have "length L < 2 ^ 31" using assms(3) by (simp add: has_room_def)
  with pop_inv [of P p L' U] assms Cons obtain P1 where 1: "PopFromFreeNode P = Inr (P1, Some p)"
      "fp_inv (P1\<lparr>UseNodeCnt := UseNodeCnt P1 + 1\<rparr>) L' (insert p U)" "same_shape P P1" "Nodes P1 = Nodes P" "Brk P1 = Brk P"
    by auto
  have "p \<notin> U" using assms(1) Cons by (auto simp: fp_inv_def fp_list_def)
  moreover have "has_room P1 r (length L' + 1 + c)"
    using has_room_less [OF assms(3)] 1(3,5) Cons by (simp add: has_room_def same_shape_def)
  ultimately show ?thesis using 1 Cons
    by (intro exI [of _ "P1\<lparr>UseNodeCnt := UseNodeCnt P1 + 1\<rparr>"] exI [of _ p] exI [of _ L'])
       (simp add: lf_Alloc_def alloc_loop.simps same_shape_def same_data_def has_room_def)
next
  case Nil
  let ?k = "nat (MemoryAllocSize P)" and ?Q = "P\<lparr>PTagCnt := PTagCnt P + 1\<rparr>"
  have "FreeNodeCnt P = 0" using assms(1) Nil by (simp add: fp_inv_def fp_cnt_def)
  then have 0: "PopFromFreeNode P = Inr (?Q, None)" by (rule PopFromFreeNode_empty)
  have "fp_inv ?Q [] U" using assms(1) Nil by (simp add: fp_inv_def fp_cnt_def)
  moreover have "has_room ?Q (?k + r) c" using assms(3) Nil by (simp add: has_room_def)
  ultimately obtain P1 N where 1: "NewNodes ?k d ?Q = Inr P1" "fp_inv P1 N U" "length N = ?k" "same_shape ?Q P1" "same_data ?Q P1"
      "has_room P1 r (c + ?k)"
    using NewNodes_inv [of ?Q "[]" U ?k r c d] by auto
  have k: "0 < ?k" "?k < 2 ^ 31" using assms(2,3) by (simp_all add: has_room_def)
  then obtain p L' where N: "N = p # L'" using 1(3) by (cases N) auto
  with pop_inv [of P1 p L' U] 1 k obtain P2 where 2: "PopFromFreeNode P1 = Inr (P2, Some p)"
      "fp_inv (P2\<lparr>UseNodeCnt := UseNodeCnt P2 + 1\<rparr>) L' (insert p U)" "same_shape P1 P2" "Nodes P2 = Nodes P1" "Brk P2 = Brk P1"
    by auto
  have "p \<notin> U" using 1(2) N by (auto simp: fp_inv_def fp_list_def)
  moreover have "alloc_loop d P = Some (Inr (P2, p))"
    using 0 1(1) 2(1) by (simp add: alloc_loop.simps [of d P] alloc_loop.simps [of d P1])
  moreover have "has_room P2 r (length L' + 1 + c)"
    using 1(3,6) 2(3,5) N by (simp add: has_room_def same_shape_def add.commute)
  ultimately show ?thesis using 1 2 N Nil
    by (intro exI [of _ "P2\<lparr>UseNodeCnt := UseNodeCnt P2 + 1\<rparr>"] exI [of _ p] exI [of _ L'])
       (auto simp: lf_Alloc_def same_shape_def same_data_def has_room_def)
qed

subsection \<open>The data of the nodes in use\<close>

lemma lf_read_same: "same_data P P' \<Longrightarrow> lf_read P q \<noteq> None \<Longrightarrow> lf_read P' q = lf_read P q"
  by (auto simp: same_data_def lf_read_def)

lemma lf_read_used: "fp_inv P L U \<Longrightarrow> p \<in> U \<Longrightarrow> lf_read P (p + sizeof_PadType) \<noteq> None"
  using fp_listD(1) [of P L U p] by (auto simp: fp_inv_def lf_read_def node_at_def)

lemma lf_read_write:
  "lf_read (lf_write q v P) q' = (if q' = q then map_option (\<lambda>_. v) (lf_read P q) else lf_read P q')"
  by (auto simp: lf_read_def lf_write_def option.map_comp comp_def)

lemma lf_write_fields [simp]:
  "MemoryAllocSize (lf_write q v P) = MemoryAllocSize P" "NodeSize (lf_write q v P) = NodeSize P"
  "Brk (lf_write q v P) = Brk P" "Junk (lf_write q v P) = Junk P" "has_room (lf_write q v P) k n = has_room P k n"
  by (simp_all add: lf_write_def has_room_def)

lemma lf_write_inv:
  assumes "fp_inv P L U" shows "fp_inv (lf_write q v P) L U"
proof -
  let ?P = "lf_write q v P"
  have nx: "(\<lambda>p. map_option NNext (Nodes ?P p)) = (\<lambda>p. map_option NNext (Nodes P p))"
    by (auto simp: lf_write_def fun_eq_iff option.map_comp comp_def)
  have at: "node_at ?P p = node_at P p" for p
    by (cases "Nodes P (q - sizeof_PadType)") (auto simp: node_at_def lf_write_def)
  have "unat p < unat (Brk ?P) \<and> is_addr (NNext n)" if n: "Nodes ?P p = Some n" for p n
  proof -
    from n obtain m where "Nodes P p = Some m" "NNext m = NNext n"
      by (cases "Nodes P (q - sizeof_PadType)") (auto simp: lf_write_def split: if_splits)
    then show ?thesis using fp_listD(6,7) [of P L U p m] assms by (simp add: fp_inv_def)
  qed
  moreover have "HeadFreeNode ?P = HeadFreeNode P" "FreeNodeCnt ?P = FreeNodeCnt P" "UseNodeCnt ?P = UseNodeCnt P"
    "TotalNodeCnt ?P = TotalNodeCnt P" by (simp_all add: lf_write_def)
  ultimately show ?thesis using assms by (simp add: fp_inv_def fp_list_def fp_cnt_def nx at)
qed

lemma used_addr: "fp_inv P L U \<Longrightarrow> p \<in> U \<Longrightarrow> is_addr (p + sizeof_PadType) \<and> p + sizeof_PadType \<noteq> 0"
proof -
  assume "fp_inv P L U" "p \<in> U"
  then have "node_at P p" using fp_listD(1) by (auto simp: fp_inv_def)
  then have b: "unat p + 16 \<le> 2 ^ 47" by (simp add: node_at_def)
  then have "unat (p + sizeof_PadType) = unat p + 8"
    by (subst unat_add_lem [THEN iffD1]) (simp_all add: sizeof_PadType_def)
  then show ?thesis using b by (auto simp: is_addr_unat)
qed

subsection \<open>The constructor, and whether Alloc returns\<close>

lemma LockFreeMemoryPool_inv:
  assumes "Nodes raw = Map.empty" "0 < Brk raw" "has_room raw (nat n + r) 0"
  shows "\<exists>P L. LockFreeMemoryPool kMaxMemoryRange n d raw = Inr P \<and> fp_inv P L {} \<and> length L = nat n \<and>
    MemoryAllocSize P = n \<and> has_room P r (nat n)"
proof -
  let ?P = "raw\<lparr>HeadFreeNode := 0, MemoryAllocSize := n, PTagCnt := 0, FreeNodeCnt := 0, UseNodeCnt := 0, TotalNodeCnt := 0\<rparr>"
  have "fp_inv ?P [] {}" using assms(1,2) by (simp add: fp_inv_def fp_list_def fp_cnt_def GetPtr_def)
  moreover have "has_room ?P (nat n + r) 0" using assms(3) by (simp add: has_room_def)
  ultimately obtain P L where "NewNodes (nat n) d ?P = Inr P" "fp_inv P L {}" "length L = nat n" "has_room P r (nat n)"
      "same_shape ?P P"
    using NewNodes_inv [of ?P "[]" "{}" "nat n" r 0 d] by auto
  then show ?thesis by (auto simp: LockFreeMemoryPool_def Let_def same_shape_def)
qed

lemma alloc_loop_empty:
  assumes "alloc_loop d P = Some r"
  shows "\<not> (FreeNodeCnt P = 0 \<and> MemoryAllocSize P \<le> 0)"
proof -
  have "(\<lambda>(d, P) r. \<not> (FreeNodeCnt P = 0 \<and> MemoryAllocSize P \<le> 0)) (d, P) r"
  proof (rule alloc_loop.raw_induct [OF _ assms])
    fix loop :: "'a \<Rightarrow> 'a lf_pool \<Rightarrow> (fault + 'a lf_pool \<times> u64) option" and d Q r
    assume ih: "\<And>d P r. loop d P = Some r \<Longrightarrow> (\<lambda>(d, P) r. \<not> (FreeNodeCnt P = 0 \<and> MemoryAllocSize P \<le> 0)) (d, P) r"
      and s: "(case PopFromFreeNode Q of
        Inl e \<Rightarrow> Some (Inl e)
      | Inr (P1, Some node) \<Rightarrow> Some (Inr (P1, node))
      | Inr (P1, None) \<Rightarrow>
          (case NewNodes (nat (MemoryAllocSize P1)) d P1 of
             Inl e \<Rightarrow> Some (Inl e)
           | Inr P2 \<Rightarrow> loop d P2)) = Some r"
    have "\<not> (FreeNodeCnt Q = 0 \<and> MemoryAllocSize Q \<le> 0)"
    proof
      assume q: "FreeNodeCnt Q = 0 \<and> MemoryAllocSize Q \<le> 0"
      then have "loop d (Q\<lparr>PTagCnt := PTagCnt Q + 1\<rparr>) = Some r" using s by (simp add: PopFromFreeNode_empty)
      from ih [OF this] q show False by simp
    qed
    then show "(\<lambda>(d, P) r. \<not> (FreeNodeCnt P = 0 \<and> MemoryAllocSize P \<le> 0)) (d, Q) r" by simp
  qed
  then show ?thesis by simp
qed

text \<open>When \<open>Alloc\<close> returns: on a well-formed pool with room for one more block it returns if and only if a
  node is free or the pool was built with a positive size. On an empty pool of size 0 the loop, which adds
  \<open>MemoryAllocSize\<close> nodes per turn, runs forever.\<close>

theorem lf_Alloc_returns:
  assumes "fp_inv P L U" "has_room P (nat (MemoryAllocSize P)) (length L)"
  shows "(\<exists>r. lf_Alloc d P = Some r) \<longleftrightarrow> L \<noteq> [] \<or> 0 < MemoryAllocSize P"
proof (cases "0 < MemoryAllocSize P")
  case True
  then show ?thesis using lf_Alloc_inv [of P L U 0 0 d] assms by auto
next
  case F: False
  show ?thesis
  proof (cases L)
    case Nil
    then have "FreeNodeCnt P = 0" using assms(1) by (simp add: fp_inv_def fp_cnt_def)
    then show ?thesis using alloc_loop_empty [of d P] F Nil by (cases "alloc_loop d P") (auto simp: lf_Alloc_def)
  next
    case (Cons p L')
    then show ?thesis using pop_inv [of P p L' U] assms
      by (auto simp: lf_Alloc_def alloc_loop.simps [of d P] has_room_def)
  qed
qed

definition raw_pool :: "'d lf_pool" where
  "raw_pool = \<lparr>HeadFreeNode = 0, FreeNodeCnt = 0, UseNodeCnt = 0, TotalNodeCnt = 0, MemoryAllocSize = 0, PTagCnt = 0,
     Nodes = Map.empty, Brk = 0x10000, NodeSize = 64, Junk = 0x00008000000000ff\<rparr>"

lemma raw_pool_room: "n \<le> 2 ^ 20 \<Longrightarrow> has_room raw_pool n m \<longleftrightarrow> m + n < 2 ^ 31"
  by (auto simp: has_room_def raw_pool_def)

lemma lf_Alloc_returns_witness:
  "\<exists>P L. LockFreeMemoryPool kMaxMemoryRange 300 (0::nat) raw_pool = Inr P \<and> fp_inv P L {} \<and> (\<exists>r. lf_Alloc 0 P = Some r)"
proof -
  obtain P L where P: "LockFreeMemoryPool kMaxMemoryRange 300 (0::nat) raw_pool = Inr P" "fp_inv P L {}"
      "length L = 300" "MemoryAllocSize P = 300" "has_room P 300 300"
    using LockFreeMemoryPool_inv [of raw_pool 300 300 "0::nat"] raw_pool_room [of 600 0] by (auto simp: raw_pool_def)
  then show ?thesis using lf_Alloc_returns [OF P(2), of 0] by auto
qed

text \<open>The contract of the pool: \<open>Alloc\<close> returns a pointer to a node nobody uses, from the free list or from
  \<open>MemoryAllocSize\<close> nodes it adds, without touching the data of the nodes in use, and the counters stay exact;
  \<open>Free\<close> of that pointer makes the node the first of the free list. A pointer whose node has a damaged pad is
  refused with a fault.\<close>

theorem lf_pool_contract:
  assumes "fp_inv P L U" "0 < MemoryAllocSize P" "has_room P (nat (MemoryAllocSize P)) (length L)"
  shows "\<exists>P' p L'. lf_Alloc d P = Some (Inr (P', p + sizeof_PadType)) \<and> p \<notin> U \<and> fp_inv P' L' (insert p U) \<and>
    (\<forall>q \<in> U. lf_read P' (q + sizeof_PadType) = lf_read P (q + sizeof_PadType)) \<and>
    (\<exists>P''. lf_Free (p + sizeof_PadType) P' = Inr P'' \<and> fp_inv P'' (p # L') U) \<and>
    (\<forall>v n. v \<noteq> kPadUnderflow \<longrightarrow> Nodes P' p = Some n \<longrightarrow>
       lf_Free (p + sizeof_PadType) (P'\<lparr>Nodes := (Nodes P')(p \<mapsto> n\<lparr>PadUnderflow := v\<rparr>)\<rparr>) = Inl NullDeref)"
proof -
  obtain P' p L' where 1: "lf_Alloc d P = Some (Inr (P', p + sizeof_PadType))" "p \<notin> U" "fp_inv P' L' (insert p U)"
      "same_data P P'"
    using lf_Alloc_inv [of P L U 0 0 d] assms by auto
  have "lf_read P' (q + sizeof_PadType) = lf_read P (q + sizeof_PadType)" if "q \<in> U" for q
    using lf_read_same [OF 1(4) lf_read_used [OF assms(1) that]] .
  moreover have "\<exists>P''. lf_Free (p + sizeof_PadType) P' = Inr P'' \<and> fp_inv P'' (p # L') U"
    using lf_Free_inv [OF 1(3), of p] 1(2) by auto
  moreover have "p \<noteq> 0" using 1(3) fp_listD(1) [of P' L' "insert p U" p] by (auto simp: fp_inv_def node_at_def)
  then have "lf_Free (p + sizeof_PadType) (P'\<lparr>Nodes := (Nodes P')(p \<mapsto> n\<lparr>PadUnderflow := v\<rparr>)\<rparr>) = Inl NullDeref"
    if "v \<noteq> kPadUnderflow" for v n using that by (simp add: lf_Free_def get_node_def)
  ultimately show ?thesis using 1(1-3) by blast
qed

lemma lf_pool_contract_witness:
  "\<exists>P L P' p. LockFreeMemoryPool kMaxMemoryRange 300 (0::nat) raw_pool = Inr P \<and> fp_inv P L {} \<and>
     lf_Alloc 0 P = Some (Inr (P', p + sizeof_PadType))"
proof -
  obtain P L where P: "LockFreeMemoryPool kMaxMemoryRange 300 (0::nat) raw_pool = Inr P" "fp_inv P L {}"
      "length L = 300" "MemoryAllocSize P = 300" "has_room P 300 300"
    using LockFreeMemoryPool_inv [of raw_pool 300 300 "0::nat"] raw_pool_room [of 600 0] by (auto simp: raw_pool_def)
  then show ?thesis using lf_pool_contract [OF P(2), of 0] by auto
qed

end
