(* ===== verification/Container.thy ===== *)
theory Container
  imports Prelude
begin

text \<open>
  The interface that the library's lock-free stack and queue offer to their clients, as one thread
  after another uses them: \<open>put\<close> and \<open>get\<close>, with the failing \<open>get\<close> of an empty container setting the
  caller's variable to null. The contract refers to the list of the stored values; \<open>add\<close> says where \<open>put\<close> puts
  a value, and what is got is always the first. From the contract follows what any sequence of
  operations by any threads returns.
\<close>

datatype 'a cop = Put nat 'a | Get nat

fun puts :: "'a cop list \<Rightarrow> nat" where
  "puts [] = 0"
| "puts (Put t x # ops) = Suc (puts ops)"
| "puts (Get t # ops) = puts ops"

text \<open>The abstract container, and a run of the implementation: no result when an operation does not return.\<close>

fun spec_ops :: "('a \<Rightarrow> 'a list \<Rightarrow> 'a list) \<Rightarrow> 'a::zero cop list \<Rightarrow> 'a list \<Rightarrow> 'a list \<times> (bool \<times> 'a) list" where
  "spec_ops add [] xs = (xs, [])"
| "spec_ops add (Put t x # ops) xs = spec_ops add ops (add x xs)"
| "spec_ops add (Get t # ops) xs =
     (case xs of
        [] \<Rightarrow> apsnd (Cons (False, 0)) (spec_ops add ops [])
      | x # rest \<Rightarrow> apsnd (Cons (True, x)) (spec_ops add ops rest))"

fun run_ops :: "(nat \<Rightarrow> 'a \<Rightarrow> 's \<Rightarrow> (fault + 's) option) \<Rightarrow> (nat \<Rightarrow> 's \<Rightarrow> (fault + 's \<times> bool \<times> 'a) option) \<Rightarrow> 'a cop list \<Rightarrow> 's \<Rightarrow>
    (fault + 's \<times> (bool \<times> 'a) list) option" where
  "run_ops put get [] s = Some (Inr (s, []))"
| "run_ops put get (Put t x # ops) s =
     (case put t x s of
        None \<Rightarrow> None
      | Some (Inl e) \<Rightarrow> Some (Inl e)
      | Some (Inr s1) \<Rightarrow> run_ops put get ops s1)"
| "run_ops put get (Get t # ops) s =
     (case get t s of
        None \<Rightarrow> None
      | Some (Inl e) \<Rightarrow> Some (Inl e)
      | Some (Inr (s1, r)) \<Rightarrow> map_option (map_sum id (apsnd (Cons r))) (run_ops put get ops s1))"

text \<open>\<open>rep k s xs\<close>: \<open>s\<close> stores \<open>xs\<close> and has room for \<open>k\<close> more values.\<close>

locale bounded_container =
  fixes rep :: "nat \<Rightarrow> 's \<Rightarrow> 'a::zero list \<Rightarrow> bool"
    and put :: "nat \<Rightarrow> 'a \<Rightarrow> 's \<Rightarrow> (fault + 's) option"
    and get :: "nat \<Rightarrow> 's \<Rightarrow> (fault + 's \<times> bool \<times> 'a) option"
    and add :: "'a \<Rightarrow> 'a list \<Rightarrow> 'a list"
  assumes put_ok: "rep (Suc k) s xs \<Longrightarrow> \<exists>s'. put t x s = Some (Inr s') \<and> rep k s' (add x xs)"
    and get_empty: "rep k s [] \<Longrightarrow> \<exists>s'. get t s = Some (Inr (s', False, 0)) \<and> rep k s' []"
    and get_first: "rep k s (x # xs) \<Longrightarrow> \<exists>s'. get t s = Some (Inr (s', True, x)) \<and> rep k s' xs"
begin

lemma run_refines:
  "rep (puts ops + k) s xs \<Longrightarrow>
     \<exists>s'. run_ops put get ops s = Some (Inr (s', snd (spec_ops add ops xs))) \<and> rep k s' (fst (spec_ops add ops xs))"
proof (induction ops arbitrary: s xs)
  case (Cons a ops)
  show ?case
  proof (cases a)
    case (Put t x)
    then obtain s1 where "put t x s = Some (Inr s1)" "rep (puts ops + k) s1 (add x xs)"
      using put_ok [of "puts ops + k" s xs t x] Cons.prems by auto
    with Cons.IH [OF this(2)] Put show ?thesis by auto
  next
    case (Get t)
    obtain s1 r xs' where 1: "get t s = Some (Inr (s1, r))" "rep (puts ops + k) s1 xs'"
        "spec_ops add (a # ops) xs = apsnd (Cons r) (spec_ops add ops xs')"
    proof (cases xs)
      case Nil
      then show ?thesis using get_empty [of "puts ops + k" s t] Cons.prems Get that by fastforce
    next
      case (Cons y ys)
      then show ?thesis using get_first [of "puts ops + k" s y ys t] \<open>rep (puts (a # ops) + k) s xs\<close> Get that by fastforce
    qed
    from Cons.IH [OF 1(2)] 1(1,3) Get show ?thesis by auto
  qed
qed simp

end

text \<open>What the lists of the abstract containers do with a whole sequence: a stack reverses, a queue does not.\<close>

abbreviation lifo :: "'a \<Rightarrow> 'a list \<Rightarrow> 'a list" where "lifo \<equiv> (\<lambda>x xs. x # xs)"
abbreviation fifo :: "'a \<Rightarrow> 'a list \<Rightarrow> 'a list" where "fifo \<equiv> (\<lambda>x xs. xs @ [x])"

lemma spec_gets: "length xs = n \<Longrightarrow> spec_ops add (replicate n (Get t)) xs = ([], map (Pair True) xs)"
  by (induction n arbitrary: xs) (auto simp: length_Suc_conv)

lemma spec_append:
  "spec_ops add (ops @ ops') xs =
     (let (ys, r) = spec_ops add ops xs in apsnd (append r) (spec_ops add ops' ys))"
  by (induction add ops xs rule: spec_ops.induct) (auto simp: Let_def apsnd_def map_prod_def split: list.splits prod.splits)

lemma spec_puts_lifo: "spec_ops lifo (map (Put t) ys) xs = (rev ys @ xs, [])"
  by (induction ys arbitrary: xs) auto

lemma spec_puts_fifo: "spec_ops fifo (map (Put t) ys) xs = (xs @ ys, [])"
  by (induction ys arbitrary: xs) auto

end
