(* ===== verification/LockFreeStack.thy ===== *)
theory LockFreeStack
  imports LockFreePool Container
begin

text \<open>
  \<open>LockFreeStack\<close> (BaseLibrary/include/LockFreeStack.h): a Treiber stack whose nodes come from a
  \<open>LockFreeMemoryPool\<close>. Its push and pop loops are those of the pool's free list, whose interleavings are
  the subject of \<open>LockFreeCore\<close>; here a whole operation runs without interference, as in a client that
  calls it from one thread at a time, with all accesses to the nodes as the code makes them. Shown: the
  stack, pool included, implements the list of its values.
\<close>

subsection \<open>State\<close>

record 'a snode =
  SData :: 'a
  SNext :: u64

record 'a lf_stack =
  STop :: tagged
  NodePool :: "'a snode lf_pool"
  SSize :: u32
  STagCnt :: u16

definition new_snode :: "'a::zero snode" where "new_snode = \<lparr>SData = 0, SNext = 0\<rparr>"

subsection \<open>Operations\<close>

definition LockFreeStack_ctor :: "u64 \<Rightarrow> 'a::zero snode lf_pool \<Rightarrow> fault + 'a lf_stack" where
  "LockFreeStack_ctor maxAddress raw =
     ebind (LockFreeMemoryPool maxAddress kDefaultPool new_snode raw) (\<lambda>P.
       Inr \<lparr>STop = 0, NodePool = P, SSize = 0, STagCnt = 0\<rparr>)"

definition stack_tag :: "'a lf_stack \<Rightarrow> 'a lf_stack \<times> u16" where
  "stack_tag S = (S\<lparr>STagCnt := STagCnt S + 1\<rparr>, STagCnt S + 1)"

definition stack_Push :: "'a::zero \<Rightarrow> 'a lf_stack \<Rightarrow> (fault + 'a lf_stack) option" where
  "stack_Push tData S =
     (case lf_Alloc new_snode (NodePool S) of
        None \<Rightarrow> None
      | Some r \<Rightarrow> Some (ebind r (\<lambda>(P1, p).
          let (S1, tag) = stack_tag (S\<lparr>NodePool := P1\<rparr>);
              NewTop = SetTag tag (SetPtr p (Junk P1))
          in ebind (store_node (GetPtr NewTop) (SData_update (\<lambda>_. tData)) (NodePool S1)) (\<lambda>P2.
             let OldTop = STop S1
             in ebind (store_node (GetPtr NewTop) (SNext_update (\<lambda>_. GetPtr OldTop)) P2) (\<lambda>P3.
                Inr (S1\<lparr>NodePool := P3, STop := NewTop, SSize := SSize S1 + 1\<rparr>))))))"

text \<open>\<open>bool Pop(T&)\<close> and \<open>T Pop()\<close>; an empty stack gives null.\<close>

definition stack_Pop :: "'a::zero lf_stack \<Rightarrow> fault + 'a lf_stack \<times> bool \<times> 'a" where
  "stack_Pop S =
     (let (S1, tag) = stack_tag S;
          NewTop = SetTag tag 0
      in if sint (SSize S1) \<le> 0 then Inr (S1, False, 0)
         else
           let S2 = S1\<lparr>SSize := SSize S1 - 1\<rparr>; OldTop = STop S2
           in ebind (load_node (GetPtr OldTop) (NodePool S2)) (\<lambda>n.
                let S3 = S2\<lparr>STop := SetPtr (SNext n) NewTop\<rparr>
                in ebind (load_node (GetPtr OldTop) (NodePool S3)) (\<lambda>n'.
                   ebind (lf_Free (GetPtr OldTop) (NodePool S3)) (\<lambda>P1. Inr (S3\<lparr>NodePool := P1\<rparr>, True, SData n')))))"

definition stack_Pop_value :: "'a::zero lf_stack \<Rightarrow> fault + 'a lf_stack \<times> 'a" where
  "stack_Pop_value S = ebind (stack_Pop S) (\<lambda>(S1, ok, v). Inr (S1, v))"

definition stack_GetUseSize :: "'a lf_stack \<Rightarrow> u32" where
  "stack_GetUseSize S = SSize S"

subsection \<open>What a stack stores\<close>

fun schain :: "'a snode lf_pool \<Rightarrow> u64 \<Rightarrow> 'a list \<Rightarrow> u64 list \<Rightarrow> bool" where
  "schain P p [] [] \<longleftrightarrow> p = 0"
| "schain P p (x # xs) (u # us) \<longleftrightarrow> p = u + sizeof_PadType \<and>
     (\<exists>n. lf_read P p = Some n \<and> SData n = x \<and> is_addr (SNext n) \<and> schain P (SNext n) xs us)"
| "schain P p _ _ \<longleftrightarrow> False"

definition stack_rep :: "nat \<Rightarrow> 'a lf_stack \<Rightarrow> 'a list \<Rightarrow> bool" where
  "stack_rep k S xs \<longleftrightarrow>
     (\<exists>us L. schain (NodePool S) (GetPtr (STop S)) xs us \<and> distinct us \<and> fp_inv (NodePool S) L (set us) \<and>
        SSize S = of_nat (length xs) \<and> length xs + k < 2 ^ 31 \<and> 0 < MemoryAllocSize (NodePool S) \<and>
        has_room (NodePool S) (k * nat (MemoryAllocSize (NodePool S))) (length L + length xs))"

lemma schain_length: "schain P p xs us \<Longrightarrow> length us = length xs"
  by (induction P p xs us rule: schain.induct) auto

lemma schain_cong:
  "schain P p xs us \<Longrightarrow> \<forall>u \<in> set us. lf_read P' (u + sizeof_PadType) = lf_read P (u + sizeof_PadType) \<Longrightarrow> schain P' p xs us"
  by (induction P p xs us rule: schain.induct) auto

lemma schain_cons:
  assumes "schain P p xs us" "u \<notin> set us" "lf_read P (u + sizeof_PadType) \<noteq> None" "is_addr p"
  shows "schain (lf_write (u + sizeof_PadType) \<lparr>SData = x, SNext = p\<rparr> P) (u + sizeof_PadType) (x # xs) (u # us)"
proof -
  have "schain (lf_write (u + sizeof_PadType) \<lparr>SData = x, SNext = p\<rparr> P) p xs us"
    by (rule schain_cong [OF assms(1)]) (use assms(2) in \<open>auto simp: lf_read_write\<close>)
  then show ?thesis using assms(3,4) by (auto simp: lf_read_write)
qed

lemma lf_write_write: "lf_write q v (lf_write q w P) = lf_write q v P"
  by (cases "Nodes P (q - sizeof_PadType)") (auto simp: lf_write_def)

subsection \<open>The operations keep it\<close>

lemma stack_Push_ok:
  assumes "stack_rep (Suc k) S xs"
  shows "\<exists>S'. stack_Push x S = Some (Inr S') \<and> stack_rep k S' (x # xs)"
proof -
  let ?P = "NodePool S" and ?m = "nat (MemoryAllocSize (NodePool S))"
  obtain us L where 1: "schain ?P (GetPtr (STop S)) xs us" "distinct us" "fp_inv ?P L (set us)"
      "SSize S = of_nat (length xs)" "length xs + Suc k < 2 ^ 31" "0 < MemoryAllocSize ?P"
      "has_room ?P (?m + k * ?m) (length L + length xs)"
    using assms by (auto simp: stack_rep_def)
  obtain P1 u L' where 2: "lf_Alloc new_snode ?P = Some (Inr (P1, u + sizeof_PadType))" "u \<notin> set us"
      "fp_inv P1 L' (insert u (set us))" "same_shape ?P P1" "same_data ?P P1" "has_room P1 (k * ?m) (length L' + 1 + length xs)"
    using lf_Alloc_inv [OF 1(3,6,7)] by blast
  have ad: "is_addr (u + sizeof_PadType)" "u + sizeof_PadType \<noteq> 0" using used_addr [OF 2(3)] by auto
  obtain n where n: "lf_read P1 (u + sizeof_PadType) = Some n" using lf_read_used [OF 2(3)] by auto
  let ?n = "\<lparr>SData = x, SNext = GetPtr (STop S)\<rparr>"
  let ?P3 = "lf_write (u + sizeof_PadType) ?n P1"
  let ?S = "S\<lparr>NodePool := P1, STagCnt := STagCnt S + 1, NodePool := ?P3,
      STop := SetTag (STagCnt S + 1) (SetPtr (u + sizeof_PadType) (Junk P1)), SSize := SSize S + 1\<rparr>"
  have p: "GetPtr (SetTag t (SetPtr (u + sizeof_PadType) j)) = u + sizeof_PadType" for t j
    using ad(1) by (simp add: is_addr_def)
  have upd: "n\<lparr>SData := x, SNext := q\<rparr> = \<lparr>SData = x, SNext = q\<rparr>" for q by (cases n) simp
  have "stack_Push x S = Some (Inr ?S)"
    using ad(2) n ad(1) [unfolded is_addr_def]
    by (simp add: stack_Push_def 2(1) stack_tag_def store_node_def load_node_def lf_read_write lf_write_write upd Let_def)
  moreover have "stack_rep k ?S (x # xs)"
  proof -
    have "schain P1 (GetPtr (STop S)) xs us"
      by (rule schain_cong [OF 1(1)]) (use lf_read_same [OF 2(5) lf_read_used [OF 1(3)]] in auto)
    then have "schain ?P3 (u + sizeof_PadType) (x # xs) (u # us)"
      by (rule schain_cons) (use 2(2) n in \<open>simp_all add: is_addr_def GetPtr_def\<close>)
    moreover have "fp_inv ?P3 L' (set (u # us))" using lf_write_inv [OF 2(3)] by simp
    moreover have "MemoryAllocSize P1 = MemoryAllocSize ?P" using 2(4) by (simp add: same_shape_def)
    ultimately show ?thesis
      unfolding stack_rep_def using 1(2,4-6) 2(2,6) p by (intro exI [of _ "u # us"] exI [of _ L']) simp
  qed
  ultimately show ?thesis by blast
qed

lemma stack_Pop_empty:
  assumes "stack_rep k S []"
  shows "\<exists>S'. stack_Pop S = Inr (S', False, 0) \<and> stack_rep k S' []"
  using assms by (intro exI [of _ "S\<lparr>STagCnt := STagCnt S + 1\<rparr>"]) (auto simp: stack_Pop_def stack_tag_def stack_rep_def)

lemma stack_Pop_first:
  assumes "stack_rep k S (x # xs)"
  shows "\<exists>S'. stack_Pop S = Inr (S', True, x) \<and> stack_rep k S' xs"
proof -
  let ?P = "NodePool S" and ?m = "nat (MemoryAllocSize (NodePool S))"
  obtain vs L where 0: "schain ?P (GetPtr (STop S)) (x # xs) vs" "distinct vs" "fp_inv ?P L (set vs)"
      "SSize S = of_nat (Suc (length xs))" "Suc (length xs) + k < 2 ^ 31" "0 < MemoryAllocSize ?P"
      "has_room ?P (k * ?m) (length L + Suc (length xs))"
    using assms by (auto simp: stack_rep_def)
  then obtain u us where vs: "vs = u # us" by (cases vs) auto
  from 0(1) vs obtain n where n: "lf_read ?P (u + sizeof_PadType) = Some n" "SData n = x" "is_addr (SNext n)"
      "schain ?P (SNext n) xs us" "GetPtr (STop S) = u + sizeof_PadType" by auto
  have ad: "u + sizeof_PadType \<noteq> 0" using used_addr [OF 0(3)] vs by auto
  obtain P' where P': "lf_Free (u + sizeof_PadType) ?P = Inr P'" "fp_inv P' (u # L) (set vs - {u})" "same_shape ?P P'"
      "Brk P' = Brk ?P" "same_data ?P P'"
    using lf_Free_inv [OF 0(3), of u] vs by auto
  have s: "\<not> sint (SSize S) \<le> 0" using sint_of_nat_less [of "Suc (length xs)"] 0(4,5) by simp
  let ?S = "S\<lparr>STagCnt := STagCnt S + 1, SSize := SSize S - 1, STop := SetPtr (SNext n) (SetTag (STagCnt S + 1) 0), NodePool := P'\<rparr>"
  have "stack_Pop S = Inr (?S, True, x)"
    using s n ad P'(1) by (simp add: stack_Pop_def stack_tag_def load_node_def)
  moreover have "stack_rep k ?S xs"
  proof -
    have "lf_read P' (q + sizeof_PadType) = lf_read ?P (q + sizeof_PadType)" if "q \<in> set us" for q
      using lf_read_same [OF P'(5) lf_read_used [OF 0(3), of q]] that vs by simp
    then have "schain P' (SNext n) xs us" by (intro schain_cong [OF n(4)]) auto
    moreover have "set vs - {u} = set us" using 0(2) vs by auto
    moreover have "MemoryAllocSize P' = MemoryAllocSize ?P" "has_room P' (k * ?m) (Suc (length L) + length xs)"
      using P'(3,4) 0(7) by (simp_all add: same_shape_def has_room_def)
    ultimately show ?thesis
      unfolding stack_rep_def using 0 P'(2) n(3) [unfolded is_addr_def] vs
      by (rule_tac exI [of _ us], rule_tac exI [of _ "u # L"]) simp
  qed
  ultimately show ?thesis by blast
qed

interpretation lf_stack: bounded_container stack_rep "\<lambda>t. stack_Push" "\<lambda>t S. Some (stack_Pop S)" lifo
  by unfold_locales (use stack_Push_ok stack_Pop_empty stack_Pop_first in fastforce)+

subsection \<open>The stack as its clients see it\<close>

lemma LockFreeStack_ctor_rep:
  assumes "Nodes raw = Map.empty" "0 < Brk raw" "has_room raw (300 + k * 300) 0" "k < 2 ^ 31"
  shows "\<exists>S. LockFreeStack_ctor kMaxMemoryRange raw = Inr S \<and> stack_rep k S ([] :: 'a::zero list)"
proof -
  have room: "has_room raw (nat 300 + k * 300) 0" using assms(3) by simp
  obtain P L where P: "LockFreeMemoryPool kMaxMemoryRange 300 (new_snode :: 'a snode) raw = Inr P" "fp_inv P L {}" "length L = nat 300"
      "MemoryAllocSize P = 300" "has_room P (k * 300) (nat 300)"
    using LockFreeMemoryPool_inv [OF assms(1,2) room] by blast
  let ?S = "\<lparr>STop = 0, NodePool = P, SSize = 0, STagCnt = 0\<rparr> :: 'a lf_stack"
  have "LockFreeStack_ctor kMaxMemoryRange raw = Inr ?S" using P(1) by (simp add: LockFreeStack_ctor_def kDefaultPool_def)
  moreover have "stack_rep k ?S []"
    unfolding stack_rep_def using P assms(4) by (intro exI [of _ "[]"] exI [of _ L]) (simp add: GetPtr_def)
  ultimately show ?thesis by blast
qed

text \<open>A lock-free stack built by its constructor behaves, pool and all, as a stack of values: any sequence of
  pushes and pops with at most \<open>k\<close> pushes returns, faults nowhere, and its pops give what the list of the
  stored values gives, a failed pop null; \<open>k\<close> pushes fit when \<open>k + 1\<close> blocks of 300 nodes do.\<close>

theorem lf_stack_refines_list:
  fixes raw :: "'a::zero snode lf_pool"
  assumes "Nodes raw = Map.empty" "0 < Brk raw" "has_room raw (300 + k * 300) 0" "k < 2 ^ 31" "puts ops \<le> k"
  shows "\<exists>S S'. LockFreeStack_ctor kMaxMemoryRange raw = Inr S \<and>
    run_ops (\<lambda>t. stack_Push) (\<lambda>t S. Some (stack_Pop S)) ops S = Some (Inr (S', snd (spec_ops lifo ops [])))"
proof -
  obtain S where S: "LockFreeStack_ctor kMaxMemoryRange raw = Inr S" "stack_rep k S []"
    using LockFreeStack_ctor_rep [OF assms(1-4)] by blast
  with lf_stack.run_refines [of ops "k - puts ops" S "[]"] assms(5) show ?thesis by auto
qed

lemma lf_stack_refines_list_witness:
  "\<exists>S S'. LockFreeStack_ctor kMaxMemoryRange (raw_pool :: int snode lf_pool) = Inr S \<and>
    run_ops (\<lambda>t. stack_Push) (\<lambda>t S. Some (stack_Pop S)) [Put 0 5, Put 1 7, Get 0, Get 0, Get 1] S =
      Some (Inr (S', [(True, 7), (True, 5), (False, 0)]))"
  using lf_stack_refines_list [of "raw_pool :: int snode lf_pool" 2 "[Put 0 5, Put 1 7, Get 0, Get 0, Get 1]"]
    raw_pool_room [of 900 0] by (simp add: raw_pool_def)

end
