(* ===== verification/LockFreeQueue.thy ===== *)
theory LockFreeQueue
  imports TaggedPtr TlsPool Container
begin

text \<open>
  \<open>LockFreeQueue\<close> (BaseLibrary/include/LockFreeQueue.h): a Michael-Scott queue with a dummy head node, a
  reference count in every node, and nodes from the thread-local pool of \<open>TlsPool\<close>, shared with the other
  queues of the type. A whole operation runs here without interference, with every access to the
  nodes as the code makes it, and its loop as a loop that could run forever. Shown: the queue, pool and
  counts included, implements the list of its values.
\<close>

subsection \<open>State\<close>

record 'a qnode =
  QData :: 'a
  QNext :: u64
  RefCnt :: u16
  DeleteFlag :: u16

record 'a lf_queue =
  QHead :: tagged
  QTail :: tagged
  QSize :: u32
  QTagCnt :: u16
  QPool :: "'a qnode pool"
  QJunk :: tagged

definition new_qnode :: "'a::zero qnode" where
  "new_qnode = \<lparr>QData = 0, QNext = 0, RefCnt = 0, DeleteFlag = 0\<rparr>"

text \<open>A node through a pointer. \<open>release\<close> is the code that drops a reference and, when it was the last one
  to a deleted node, frees it.\<close>

definition load_q :: "u64 \<Rightarrow> 'd pool \<Rightarrow> fault + 'd" where
  "load_q p P = (if p = 0 then Inl NullDeref
     else case read_data P (unat p) of None \<Rightarrow> Inl OutOfBounds | Some d \<Rightarrow> Inr d)"

definition store_q :: "u64 \<Rightarrow> ('d \<Rightarrow> 'd) \<Rightarrow> 'd pool \<Rightarrow> fault + 'd pool" where
  "store_q p f P = ebind (load_q p P) (\<lambda>d. Inr (write_data (unat p) (f d) P))"

definition AllocNode :: "nat \<Rightarrow> 'a::zero lf_queue \<Rightarrow> fault + 'a lf_queue \<times> u64" where
  "AllocNode tid Q = ebind (tls_Alloc tid new_qnode (QPool Q)) (\<lambda>(P, a). Inr (Q\<lparr>QPool := P\<rparr>, of_nat a))"

definition FreeNode :: "nat \<Rightarrow> u64 \<Rightarrow> 'd pool \<Rightarrow> fault + 'd pool" where
  "FreeNode tid p P = tls_Free tid (unat p) P"

definition release :: "nat \<Rightarrow> u64 \<Rightarrow> 'a qnode pool \<Rightarrow> fault + 'a qnode pool" where
  "release tid p P =
     ebind (load_q p P) (\<lambda>d.
     ebind (store_q p (\<lambda>n. n\<lparr>RefCnt := RefCnt n - 1\<rparr>) P) (\<lambda>P1.
       if RefCnt d - 1 \<noteq> 0 then Inr P1
       else ebind (store_q p (\<lambda>n. n\<lparr>DeleteFlag := 0\<rparr>) P1) (\<lambda>P2.
            if DeleteFlag d = 1 then FreeNode tid p P2 else Inr P2)))"

subsection \<open>Operations\<close>

text \<open>With an unexpected address range the constructor leaves its members alone, of which only the
  two tagged pointers have been set, to null.\<close>

definition LockFreeQueue_ctor :: "nat \<Rightarrow> u64 \<Rightarrow> 'a::zero lf_queue \<Rightarrow> fault + 'a lf_queue" where
  "LockFreeQueue_ctor tid maxAddress raw =
     (let Q = raw\<lparr>QHead := 0, QTail := 0\<rparr>
      in if maxAddress \<noteq> 0x00007ffffffeffff then Inr Q
         else ebind (AllocNode tid (Q\<lparr>QSize := 0, QTagCnt := 0\<rparr>)) (\<lambda>(Q1, p).
              let Q2 = Q1\<lparr>QHead := SetPtr p (QHead Q1)\<rparr>
              in ebind (store_q (GetPtr (QHead Q2)) (\<lambda>n. n\<lparr>QNext := 0\<rparr>) (QPool Q2)) (\<lambda>P3.
                 ebind (store_q (GetPtr (QHead Q2)) (\<lambda>n. n\<lparr>RefCnt := RefCnt n + 1\<rparr>) P3) (\<lambda>P4.
                   Inr (Q2\<lparr>QPool := P4, QTail := QHead Q2\<rparr>)))))"

text \<open>One round of the loop of \<open>Enqueue\<close>, and whether it was the last: nobody moves the tail in between.\<close>

definition enqueue_round :: "nat \<Rightarrow> tagged \<Rightarrow> 'a lf_queue \<Rightarrow> fault + 'a lf_queue \<times> bool" where
  "enqueue_round tid NewNode Q =
     (let OldTail = QTail Q
      in ebind (store_q (GetPtr OldTail) (\<lambda>n. n\<lparr>RefCnt := RefCnt n + 1\<rparr>) (QPool Q)) (\<lambda>P1.
         ebind (load_q (GetPtr (QTail Q)) P1) (\<lambda>d.
           let Next = SetPtr (QNext d) 0
           in if Next = 0 then
                if QNext d = Next then
                  ebind (store_q (GetPtr OldTail) (\<lambda>n. n\<lparr>QNext := NewNode\<rparr>) P1) (\<lambda>P2.
                  ebind (release tid (GetPtr OldTail) P2) (\<lambda>P3. Inr (Q\<lparr>QPool := P3, QTail := NewNode\<rparr>, True)))
                else ebind (release tid (GetPtr OldTail) P1) (\<lambda>P2. Inr (Q\<lparr>QPool := P2\<rparr>, False))
              else ebind (release tid (GetPtr OldTail) P1) (\<lambda>P2. Inr (Q\<lparr>QPool := P2, QTail := Next\<rparr>, False)))))"

partial_function (option) enqueue_loop :: "nat \<Rightarrow> tagged \<Rightarrow> 'a lf_queue \<Rightarrow> (fault + 'a lf_queue) option" where
  "enqueue_loop tid NewNode Q =
     (case enqueue_round tid NewNode Q of
        Inl e \<Rightarrow> Some (Inl e)
      | Inr (Q1, fin) \<Rightarrow> if fin then Some (Inr Q1) else enqueue_loop tid NewNode Q1)"

definition Enqueue :: "nat \<Rightarrow> 'a::zero \<Rightarrow> 'a lf_queue \<Rightarrow> (fault + 'a lf_queue) option" where
  "Enqueue tid data Q =
     (case ebind (AllocNode tid Q) (\<lambda>(Q1, p).
        let NewNode = SetPtr p (QJunk Q1)
        in ebind (store_q (GetPtr NewNode) (\<lambda>n. n\<lparr>QData := data\<rparr>) (QPool Q1)) (\<lambda>P2.
           ebind (store_q (GetPtr NewNode) (\<lambda>n. n\<lparr>QNext := 0\<rparr>) P2) (\<lambda>P3.
           ebind (store_q (GetPtr NewNode) (\<lambda>n. n\<lparr>RefCnt := RefCnt n + 1\<rparr>) P3) (\<lambda>P4.
             Inr (Q1\<lparr>QPool := P4, QTagCnt := QTagCnt Q1 + 1\<rparr>, SetTag (QTagCnt Q1 + 1) NewNode))))) of
        Inl e \<Rightarrow> Some (Inl e)
      | Inr (Q2, NewNode) \<Rightarrow> map_option (map_sum id (\<lambda>Q3. Q3\<lparr>QSize := QSize Q3 + 1\<rparr>)) (enqueue_loop tid NewNode Q2))"

text \<open>One round of the loop of \<open>Dequeue\<close>; the result is the value of the last round. \<open>Next\<close> keeps the
  tag it was given before the loop.\<close>

definition dequeue_round :: "nat \<Rightarrow> tagged \<Rightarrow> 'a lf_queue \<Rightarrow> fault + 'a lf_queue \<times> 'a option" where
  "dequeue_round tid tagged_null Q =
     (let CurHead = QHead Q; CurTail = QTail Q
      in ebind (load_q (GetPtr CurHead) (QPool Q)) (\<lambda>d.
         let Next = SetPtr (QNext d) tagged_null
         in if GetPtr CurHead = GetPtr CurTail then Inr (Q\<lparr>QTail := Next\<rparr>, None)
            else ebind (load_q (GetPtr Next) (QPool Q)) (\<lambda>n.
                 ebind (store_q (GetPtr CurHead) (\<lambda>n. n\<lparr>DeleteFlag := 1\<rparr>) (QPool Q)) (\<lambda>P1.
                 ebind (release tid (GetPtr CurHead) P1) (\<lambda>P2.
                   Inr (Q\<lparr>QHead := Next, QPool := P2\<rparr>, Some (QData n)))))))"

partial_function (option) dequeue_loop :: "nat \<Rightarrow> tagged \<Rightarrow> 'a lf_queue \<Rightarrow> (fault + 'a lf_queue \<times> 'a) option" where
  "dequeue_loop tid tagged_null Q =
     (case dequeue_round tid tagged_null Q of
        Inl e \<Rightarrow> Some (Inl e)
      | Inr (Q1, Some v) \<Rightarrow> Some (Inr (Q1, v))
      | Inr (Q1, None) \<Rightarrow> dequeue_loop tid tagged_null Q1)"

definition Dequeue :: "nat \<Rightarrow> 'a::zero lf_queue \<Rightarrow> (fault + 'a lf_queue \<times> bool \<times> 'a) option" where
  "Dequeue tid Q =
     (if sint (QSize Q) \<le> 0 then Some (Inr (Q, False, 0))
      else map_option (map_sum id (\<lambda>(Q1, v). (Q1, True, v)))
             (dequeue_loop tid (SetTag (QTagCnt Q + 1) 0) (Q\<lparr>QSize := QSize Q - 1, QTagCnt := QTagCnt Q + 1\<rparr>)))"

text \<open>One round of \<open>Clear\<close>, and whether the loop goes on.\<close>

definition clear_round :: "nat \<Rightarrow> 'a lf_queue \<Rightarrow> fault + 'a lf_queue \<times> bool" where
  "clear_round tid Q =
     (if QSize Q = 0 then Inr (Q, False)
      else ebind (load_q (GetPtr (QHead Q)) (QPool Q)) (\<lambda>d.
           let Next = SetPtr (QNext d) 0
           in if Next = 0 then Inr (Q, False)
              else ebind (store_q (GetPtr (QHead Q)) (\<lambda>n. n\<lparr>RefCnt := 0\<rparr>) (QPool Q)) (\<lambda>P1.
                   ebind (FreeNode tid (GetPtr (QHead Q)) P1) (\<lambda>P2.
                     Inr (Q\<lparr>QHead := Next, QPool := P2, QSize := QSize Q - 1\<rparr>, True)))))"

partial_function (option) queue_Clear :: "nat \<Rightarrow> 'a lf_queue \<Rightarrow> (fault + 'a lf_queue) option" where
  "queue_Clear tid Q =
     (case clear_round tid Q of
        Inl e \<Rightarrow> Some (Inl e)
      | Inr (Q1, again) \<Rightarrow> if again then queue_Clear tid Q1 else Some (Inr Q1))"

definition queue_GetUseSize :: "'a lf_queue \<Rightarrow> u32" where
  "queue_GetUseSize Q = QSize Q"

subsection \<open>What a queue stores\<close>

definition live_node :: "'a qnode \<Rightarrow> bool" where
  "live_node n \<longleftrightarrow> RefCnt n = 1 \<and> DeleteFlag n = 0"

fun qchain :: "'a qnode pool \<Rightarrow> nat list \<Rightarrow> 'a list \<Rightarrow> bool" where
  "qchain P [a] [] \<longleftrightarrow> (\<exists>n. read_data P a = Some n \<and> QNext n = 0 \<and> live_node n)"
| "qchain P (a # b # as) (x # xs) \<longleftrightarrow>
     (\<exists>n m. read_data P a = Some n \<and> GetPtr (QNext n) = of_nat b \<and> live_node n \<and>
        read_data P b = Some m \<and> QData m = x) \<and> qchain P (b # as) xs"
| "qchain P _ _ \<longleftrightarrow> False"

text \<open>Nodes nobody holds have no references. \<open>q_fits\<close>: the addresses of the pool's memory, with room for
  \<open>k\<close> more blocks of 100 nodes, have 47 bits.\<close>

definition q_clean :: "'a qnode pool \<Rightarrow> nat set \<Rightarrow> bool" where
  "q_clean P H \<longleftrightarrow> (\<forall>q d. read_data P q = Some d \<longrightarrow> q \<notin> H \<longrightarrow> RefCnt d = 0 \<and> DeleteFlag d = 0)"

definition q_fits :: "nat \<Rightarrow> 'd pool \<Rightarrow> bool" where
  "q_fits k P \<longleftrightarrow> Brk P + k * (kChunkDefault * NodeSize P) + 8 \<le> 2 ^ 47"

definition q_mem :: "nat \<Rightarrow> 'a qnode pool \<Rightarrow> nat list \<Rightarrow> 'a list \<Rightarrow> nat set \<Rightarrow> bool" where
  "q_mem k P ns xs H \<longleftrightarrow> run_inv P H \<and> set ns \<subseteq> H \<and> distinct ns \<and> qchain P ns xs \<and> q_clean P H \<and> q_fits k P"

definition queue_rep :: "nat \<Rightarrow> 'a lf_queue \<Rightarrow> 'a list \<Rightarrow> bool" where
  "queue_rep k Q xs \<longleftrightarrow>
     (\<exists>ns H. q_mem k (QPool Q) ns xs H \<and> ns \<noteq> [] \<and> GetPtr (QHead Q) = of_nat (hd ns) \<and> GetPtr (QTail Q) = of_nat (last ns) \<and>
        QSize Q = of_nat (length xs) \<and> length xs + k < 2 ^ 31)"

subsection \<open>Nodes and addresses\<close>

lemma node_read_write:
  "8 \<le> p \<Longrightarrow> read_data (write_data p v s) q = (if q = p then map_option (\<lambda>_. v) (read_data s p) else read_data s q)"
  by (auto simp: read_data_def write_data_def option.map_comp comp_def sizeof_PadType_def)

lemma write_write_data: "write_data p v (write_data p w s) = write_data p v s"
  by (cases "Mem s (p - sizeof_PadType)") (auto simp: write_data_def)

lemma write_data_fields [simp]:
  "Brk (write_data p v s) = Brk s" "NodeSize (write_data p v s) = NodeSize s" "q_fits k (write_data p v s) = q_fits k s"
  by (simp_all add: write_data_def q_fits_def)

lemma q_fits_less: "q_fits (j + k) P \<Longrightarrow> q_fits k P"
  by (simp add: q_fits_def distrib_right)

text \<open>Addresses of held nodes survive the trip through a 47-bit pointer.\<close>

definition addr_ok :: "nat \<Rightarrow> bool" where
  "addr_ok a \<longleftrightarrow> 8 \<le> a \<and> a < 2 ^ 47"

lemma held_addr: "run_inv P H \<Longrightarrow> q_fits k P \<Longrightarrow> a \<in> H \<Longrightarrow> addr_ok a"
  by (fastforce simp: run_inv_def q_fits_def addr_ok_def taken_def pool_inv_def heap_ok_def sizeof_PadType_def dom_def)

lemma unat_addr: "addr_ok a \<Longrightarrow> unat (of_nat a :: u64) = a"
  by (simp add: addr_ok_def unsigned_of_nat take_bit_nat_eq_self)

lemma addr_word: "addr_ok a \<Longrightarrow> (of_nat a :: u64) \<noteq> 0 \<and> take_bit 47 (of_nat a :: u64) = of_nat a"
proof -
  assume a: "addr_ok a"
  then have "unat (take_bit 47 (of_nat a :: u64)) = unat (of_nat a :: u64)"
    by (simp add: unat_addr unsigned_take_bit_eq take_bit_nat_eq_self addr_ok_def)
  moreover have "(of_nat a :: u64) \<noteq> 0" using unat_addr [OF a] a by (auto simp: addr_ok_def)
  ultimately show ?thesis by (simp add: word_unat_eq_iff)
qed

lemma addr_inj: "addr_ok a \<Longrightarrow> addr_ok b \<Longrightarrow> (of_nat a :: u64) = of_nat b \<longleftrightarrow> a = b"
  using unat_addr by metis

lemma load_node_at: "addr_ok a \<Longrightarrow> read_data P a = Some d \<Longrightarrow> load_q (of_nat a) P = Inr d"
  by (simp add: load_q_def addr_word unat_addr)

lemma store_node_at: "addr_ok a \<Longrightarrow> read_data P a = Some d \<Longrightarrow> store_q (of_nat a) f P = Inr (write_data a (f d) P)"
  by (simp add: store_q_def load_node_at unat_addr)

lemma read_after_write: "addr_ok a \<Longrightarrow> read_data P a = Some d \<Longrightarrow> read_data (write_data a v P) a = Some v"
  by (simp add: node_read_write addr_ok_def)

text \<open>Dropping a reference: one of two, and the last one to a deleted node.\<close>

lemma release_shared:
  assumes "addr_ok a" "read_data P a = Some d" "RefCnt d = 2"
  shows "release t (of_nat a) P = Inr (write_data a (d\<lparr>RefCnt := 1\<rparr>) P)"
  using assms by (simp add: release_def load_node_at store_node_at)

lemma release_last:
  assumes "addr_ok a" "read_data P a = Some d" "RefCnt d = 1" "DeleteFlag d = 1"
  shows "release t (of_nat a) P = tls_Free t a (write_data a (d\<lparr>RefCnt := 0, DeleteFlag := 0\<rparr>) P)"
  using assms
  by (simp add: release_def load_node_at store_node_at read_after_write write_write_data FreeNode_def unat_addr)

text \<open>The memory grows by at most one block.\<close>

lemma new_nodes_Brk:
  "Brk (fst (new_nodes k d h s)) = Brk s + k * NodeSize s \<and> NodeSize (fst (new_nodes k d h s)) = NodeSize s"
  by (induction k d h s rule: new_nodes.induct) auto

lemma tls_Alloc_Brk:
  assumes "tls_Alloc t d s = Inr (s', p)"
  shows "Brk s' \<le> Brk s + kChunkDefault * NodeSize s \<and> NodeSize s' = NodeSize s"
proof -
  have n: "Brk (fst (new_nodes kChunkDefault d h u)) = Brk u + kChunkDefault * NodeSize u \<and>
      NodeSize (fst (new_nodes kChunkDefault d h u)) = NodeSize u" for h u by (rule new_nodes_Brk)
  have "Brk (refill t d s) \<le> Brk s + kChunkDefault * NodeSize s \<and> NodeSize (refill t d s) = NodeSize s"
  proof (cases "FreeNodeCnt (Local s t) = 0")
    case True
    obtain u c where u: "AllocChunck s = (u, c)" "Brk u = Brk s" "NodeSize u = NodeSize s"
      by (cases "ChunckStack s") (auto simp: AllocChunck_def)
    then show ?thesis using True n [of None "set_local t c 0 u"]
      by (cases c) (auto simp: refill_def Let_def NewNodeList_def split: prod.splits)
  qed (simp add: refill_def)
  then show ?thesis using assms by (auto simp: tls_Alloc_def Let_def ebind_eq_Inr)
qed

lemma tls_Free_Brk: "tls_Free t p s = Inr s' \<Longrightarrow> Brk s' = Brk s \<and> NodeSize s' = NodeSize s"
  by (auto simp: tls_Free_def Let_def FreeChunck_def ebind_eq_Inr split: if_splits option.splits)

subsection \<open>The chain under the operations\<close>

lemma qchain_length: "qchain P ns xs \<Longrightarrow> length ns = Suc (length xs)"
  by (induction P ns xs rule: qchain.induct) auto

lemma qchain_cong:
  "qchain P ns xs \<Longrightarrow> \<forall>a \<in> set ns. read_data P' a = read_data P a \<Longrightarrow> qchain P' ns xs"
  by (induction P ns xs rule: qchain.induct) auto

lemma qchain_last:
  "qchain P ns xs \<Longrightarrow> ns \<noteq> [] \<and> (\<exists>n. read_data P (last ns) = Some n \<and> QNext n = 0 \<and> live_node n)"
  by (induction P ns xs rule: qchain.induct) auto

text \<open>A new node \<open>a\<close> becomes the successor of the last one.\<close>

lemma qchain_snoc:
  "qchain P ns xs \<Longrightarrow> distinct ns \<Longrightarrow> a \<notin> set ns \<Longrightarrow> read_data P (last ns) = Some n \<Longrightarrow>
   \<forall>b \<in> set ns - {last ns}. read_data P' b = read_data P b \<Longrightarrow>
   read_data P' (last ns) = Some (n\<lparr>QNext := w\<rparr>) \<Longrightarrow> GetPtr w = of_nat a \<Longrightarrow>
   read_data P' a = Some \<lparr>QData = x, QNext = 0, RefCnt = 1, DeleteFlag = 0\<rparr> \<Longrightarrow> qchain P' (ns @ [a]) (xs @ [x])"
proof (induction P ns xs rule: qchain.induct)
  case (1 P b)
  then show ?case by (auto simp: live_node_def)
next
  case (2 P b c as y ys)
  have ne: "b \<noteq> last (c # as)" using 2(3) by (metis distinct.simps(2) last_in_set list.distinct(1))
  have b: "read_data P' b = read_data P b" using 2(6) ne by simp
  have c: "\<exists>m'. read_data P' c = Some m' \<and> QData m' = QData m" if "read_data P c = Some m" for m
  proof (cases "c = last (c # as)")
    case True
    then show ?thesis using that 2(5,7) by auto
  next
    case False
    then show ?thesis using that 2(6) by auto
  qed
  have "qchain P' ((c # as) @ [a]) (ys @ [x])"
    using 2(2-9) by (intro 2(1)) auto
  then show ?case using 2(2) b c by auto
qed auto

lemma q_mem_addr: "q_mem k P ns xs H \<Longrightarrow> a \<in> set ns \<Longrightarrow> addr_ok a"
  unfolding q_mem_def using held_addr by blast

lemma q_mem_less: "q_mem (j + k) P ns xs H \<Longrightarrow> q_mem k P ns xs H"
  using q_fits_less by (auto simp: q_mem_def)

text \<open>Freeing the head node.\<close>

lemma q_mem_drop:
  assumes "q_mem k P (a # b # as) (x # xs) H" "RefCnt v = 0" "DeleteFlag v = 0"
  shows "\<exists>P'. tls_Free t a (write_data a v P) = Inr P' \<and> q_mem k P' (b # as) xs (H - {a})"
proof -
  let ?P = "write_data a v P"
  have m: "run_inv P H" "set (a # b # as) \<subseteq> H" "distinct (a # b # as)" "qchain P (a # b # as) (x # xs)" "q_clean P H" "q_fits k P"
    using assms(1) by (simp_all add: q_mem_def)
  have a: "addr_ok a" using q_mem_addr [OF assms(1)] by simp
  obtain P' where P': "tls_Free t a ?P = Inr P'" "run_inv P' (H - {a})"
    using free_run [OF write_run [OF m(1)], of a t a v] m(2) by auto
  have rd: "read_data P' q = (if q = a then map_option (\<lambda>_. v) (read_data P a) else read_data P q)" for q
    using tls_Free_data [OF P'(1), of q] a by (simp add: node_read_write addr_ok_def)
  have "qchain P' (b # as) xs" by (rule qchain_cong [of P]) (use m(3,4) rd in auto)
  moreover have "q_clean P' (H - {a})" using m(5) assms(2,3) unfolding q_clean_def rd by auto
  moreover have "q_fits k P'" using m(6) tls_Free_Brk [OF P'(1)] by (simp add: q_fits_def)
  ultimately have "q_mem k P' (b # as) xs (H - {a})" using P'(2) m(2,3) unfolding q_mem_def by auto
  with P'(1) show ?thesis by blast
qed

text \<open>Allocating and linking a node.\<close>

lemma q_mem_alloc:
  assumes "q_mem (Suc k) P ns xs H"
  obtains P1 a d where "tls_Alloc t new_qnode P = Inr (P1, a)" "a \<notin> H" "q_mem k P1 ns xs (insert a H)"
    "read_data P1 a = Some d" "RefCnt d = 0" "DeleteFlag d = 0"
proof -
  have m: "run_inv P H" "set ns \<subseteq> H" "distinct ns" "qchain P ns xs" "q_clean P H" "q_fits (Suc k) P"
    using assms by (simp_all add: q_mem_def)
  obtain P1 a where 1: "tls_Alloc t new_qnode P = Inr (P1, a)" "a \<notin> H" "run_inv P1 (insert a H)"
      "\<forall>q. read_data P q \<noteq> None \<longrightarrow> read_data P1 q = read_data P q"
      "\<forall>q. read_data P q = None \<longrightarrow> read_data P1 q \<in> {None, Some new_qnode}"
    using alloc_run [OF m(1)] by metis
  have cl: "RefCnt d = 0 \<and> DeleteFlag d = 0" if "read_data P1 q = Some d" "q \<notin> H" for q d
  proof (cases "read_data P q")
    case None
    then have "read_data P1 q \<in> {None, Some new_qnode}" using 1(5) by blast
    then have "d = new_qnode" using that(1) by auto
    then show ?thesis by (simp add: new_qnode_def)
  next
    case (Some d')
    then have "d' = d" using 1(4) that(1) by simp
    with Some m(5) that(2) show ?thesis unfolding q_clean_def by blast
  qed
  have "read_data P q \<noteq> None" if "q \<in> set ns" for q using run_inv_read [OF m(1)] m(2) that by blast
  then have "qchain P1 ns xs" using 1(4) by (intro qchain_cong [OF m(4)]) auto
  moreover have "q_clean P1 (insert a H)" using cl unfolding q_clean_def by blast
  moreover have "q_fits k P1"
    using m(6) tls_Alloc_Brk [OF 1(1)] by (simp add: q_fits_def)
  ultimately have "q_mem k P1 ns xs (insert a H)" using 1(3) m(2,3) unfolding q_mem_def by auto
  moreover obtain d where "read_data P1 a = Some d" using run_inv_read [OF 1(3), of a] by auto
  ultimately show ?thesis using that 1(1,2) cl by blast
qed

lemma q_mem_link:
  assumes "q_mem k P ns xs H" "a \<in> H" "a \<notin> set ns" "read_data P (last ns) = Some n" "GetPtr w = of_nat a"
  shows "q_mem k (write_data (last ns) (n\<lparr>QNext := w\<rparr>)
      (write_data a \<lparr>QData = x, QNext = 0, RefCnt = 1, DeleteFlag = 0\<rparr> P)) (ns @ [a]) (xs @ [x]) H"
proof -
  let ?v = "\<lparr>QData = x, QNext = 0, RefCnt = 1, DeleteFlag = 0\<rparr>"
  let ?P = "write_data (last ns) (n\<lparr>QNext := w\<rparr>) (write_data a ?v P)"
  have m: "run_inv P H" "set ns \<subseteq> H" "distinct ns" "qchain P ns xs" "q_clean P H" "q_fits k P"
    using assms(1) by (simp_all add: q_mem_def)
  have l: "last ns \<in> set ns" using qchain_last [OF m(4)] by simp
  have ok: "addr_ok (last ns)" "addr_ok a" using q_mem_addr [OF assms(1) l] held_addr [OF m(1,6) assms(2)] by simp_all
  obtain d where d: "read_data P a = Some d" using run_inv_read [OF m(1) assms(2)] by auto
  have rd: "read_data ?P q = (if q = last ns then Some (n\<lparr>QNext := w\<rparr>) else if q = a then Some ?v else read_data P q)" for q
    using ok l d assms(3,4) by (auto simp: node_read_write addr_ok_def)
  have "qchain ?P (ns @ [a]) (xs @ [x])"
    by (rule qchain_snoc [OF m(4,3) assms(3,4) _ _ assms(5)]) (use assms(3) l in \<open>auto simp: rd\<close>)
  moreover have "q_clean ?P H" using m(5) l m(2) assms(2) unfolding q_clean_def rd by auto
  ultimately show ?thesis using m(1-3,6) assms(2,3) unfolding q_mem_def by (simp add: write_run)
qed

subsection \<open>The operations keep it\<close>

lemma Enqueue_ok:
  assumes "queue_rep (Suc k) Q xs"
  shows "\<exists>Q'. Enqueue t x Q = Some (Inr Q') \<and> queue_rep k Q' (xs @ [x])"
proof -
  obtain ns H where q: "q_mem (Suc k) (QPool Q) ns xs H" "ns \<noteq> []" "GetPtr (QHead Q) = of_nat (hd ns)"
      "GetPtr (QTail Q) = of_nat (last ns)" "QSize Q = of_nat (length xs)" "length xs + Suc k < 2 ^ 31"
    using assms unfolding queue_rep_def by blast
  from q_mem_alloc [OF q(1), of t] obtain P1 a d where 1: "tls_Alloc t new_qnode (QPool Q) = Inr (P1, a)" "a \<notin> H"
      "q_mem k P1 ns xs (insert a H)" "read_data P1 a = Some d" "RefCnt d = 0" "DeleteFlag d = 0" .
  have na: "a \<notin> set ns" using 1(2) q(1) by (auto simp: q_mem_def)
  have ok: "addr_ok a" "addr_ok (last ns)"
    using 1(3) held_addr [of P1 "insert a H" k a] q_mem_addr [OF 1(3), of "last ns"] q(2) by (auto simp: q_mem_def)
  obtain n where n: "read_data P1 (last ns) = Some n" "QNext n = 0" "live_node n"
    using 1(3) qchain_last by (fastforce simp: q_mem_def)
  let ?w = "SetTag (QTagCnt Q + 1) (SetPtr (of_nat a) (QJunk Q))"
  let ?v = "\<lparr>QData = x, QNext = 0, RefCnt = 1, DeleteFlag = 0\<rparr>"
  let ?P2 = "write_data a ?v P1" and ?t = "QTagCnt Q + 1"
  let ?P3 = "write_data (last ns) (n\<lparr>QNext := ?w\<rparr>) ?P2"
  have w: "GetPtr ?w = of_nat a" "GetPtr (SetPtr (of_nat a) (QJunk Q)) = of_nat a" using addr_word [OF ok(1)] by simp_all
  have dv: "d\<lparr>QData := x, QNext := 0, RefCnt := 1\<rparr> = ?v" using 1(6) by (cases d) simp
  let ?Q2 = "Q\<lparr>QPool := ?P2, QTagCnt := ?t\<rparr>"
  have lt: "read_data ?P2 (last ns) = Some n" using n(1) na q(2) ok(1) by (auto simp: node_read_write addr_ok_def)
  have nv: "RefCnt n = 1" "DeleteFlag n = 0" using n(3) by (simp_all add: live_node_def)
  obtain v where nn: "n = \<lparr>QData = v, QNext = 0, RefCnt = 1, DeleteFlag = 0\<rparr>" using nv n(2) by (cases n) simp
  have r: "enqueue_round t ?w ?Q2 = Inr (?Q2\<lparr>QPool := ?P3, QTail := ?w\<rparr>, True)"
  proof -
    have "SetPtr 0 0 = (0 :: tagged)" by (simp add: SetPtr_def)
    then show ?thesis
      using q(4) lt ok(2) release_shared [OF ok(2), of _ "n\<lparr>RefCnt := 2, QNext := ?w\<rparr>" t] unfolding nn
      by (simp add: enqueue_round_def Let_def store_node_at load_node_at read_after_write write_write_data)
  qed
  have "Enqueue t x Q = Some (Inr (?Q2\<lparr>QPool := ?P3, QTail := ?w, QSize := QSize Q + 1\<rparr>))"
    using r 1(1,4,5) ok(1) dv w(2)
    by (simp add: Enqueue_def AllocNode_def Let_def store_node_at read_after_write write_write_data enqueue_loop.simps [of t ?w ?Q2])
  moreover have "queue_rep k (?Q2\<lparr>QPool := ?P3, QTail := ?w, QSize := QSize Q + 1\<rparr>) (xs @ [x])"
  proof -
    have "q_mem k ?P3 (ns @ [a]) (xs @ [x]) (insert a H)"
      using q_mem_link [OF 1(3) _ na n(1) w(1)] by simp
    then show ?thesis
      unfolding queue_rep_def using q(2-6) w(1) by (intro exI [of _ "ns @ [a]"] exI [of _ "insert a H"]) simp
  qed
  ultimately show ?thesis by blast
qed

text \<open>The first two nodes of a non-empty queue.\<close>

lemma queue_rep_first:
  assumes "queue_rep k Q (x # xs)"
  obtains a b as H n m where "q_mem k (QPool Q) (a # b # as) (x # xs) H" "GetPtr (QHead Q) = of_nat a"
    "GetPtr (QTail Q) = of_nat (last (b # as))" "(of_nat a :: u64) \<noteq> of_nat (last (b # as))" "addr_ok a" "addr_ok b"
    "QSize Q = of_nat (Suc (length xs))" "Suc (length xs) + k < 2 ^ 31" "read_data (QPool Q) a = Some n" "live_node n"
    "GetPtr (QNext n) = of_nat b" "read_data (QPool Q) b = Some m" "QData m = x"
proof -
  obtain ns H where q: "q_mem k (QPool Q) ns (x # xs) H" "ns \<noteq> []" "GetPtr (QHead Q) = of_nat (hd ns)"
      "GetPtr (QTail Q) = of_nat (last ns)" "QSize Q = of_nat (Suc (length xs))" "Suc (length xs) + k < 2 ^ 31"
    using assms unfolding queue_rep_def by auto
  have ch: "qchain (QPool Q) ns (x # xs)" using q(1) by (simp add: q_mem_def)
  then obtain a b as where ns: "ns = a # b # as" by (metis length_Suc_conv length_Cons qchain_length)
  have "addr_ok (last (b # as))" "addr_ok a" "addr_ok b" using q_mem_addr [OF q(1)] ns by auto
  moreover have "a \<noteq> last (b # as)" using q(1) ns last_in_set [of "b # as"] by (auto simp: q_mem_def)
  ultimately show ?thesis
    using q ch that [of a b as H] ns addr_inj [of a "last (b # as)"] by auto
qed

text \<open>What remains when the head has gone, in \<open>Dequeue\<close> and in \<open>Clear\<close>.\<close>

lemma queue_rep_drop:
  assumes "queue_rep k Q (x # xs)" "q_mem k (QPool Q) (a # b # as) (x # xs) H" "GetPtr (QTail Q) = of_nat (last (b # as))"
    and "q_mem k P' (b # as) xs H'" "GetPtr w = of_nat b"
  shows "queue_rep k (Q\<lparr>QSize := QSize Q - 1, QTagCnt := c, QHead := w, QPool := P'\<rparr>) xs"
proof -
  have "QSize Q = of_nat (Suc (length xs))" "Suc (length xs) + k < 2 ^ 31" using assms(1) unfolding queue_rep_def by auto
  then show ?thesis
    unfolding queue_rep_def using assms(3-5) by (intro exI [of _ "b # as"] exI [of _ H']) simp
qed

lemma Dequeue_empty: "queue_rep k Q [] \<Longrightarrow> Dequeue t Q = Some (Inr (Q, False, 0))"
  by (auto simp: Dequeue_def queue_rep_def)

lemma Dequeue_first:
  assumes "queue_rep k Q (x # xs)"
  shows "\<exists>Q'. Dequeue t Q = Some (Inr (Q', True, x)) \<and> queue_rep k Q' xs"
proof -
  from queue_rep_first [OF assms] obtain a b as H n m where
    q: "q_mem k (QPool Q) (a # b # as) (x # xs) H" "GetPtr (QHead Q) = of_nat a"
    "GetPtr (QTail Q) = of_nat (last (b # as))" "(of_nat a :: u64) \<noteq> of_nat (last (b # as))" "addr_ok a" "addr_ok b"
    "QSize Q = of_nat (Suc (length xs))" "Suc (length xs) + k < 2 ^ 31" "read_data (QPool Q) a = Some n" "live_node n"
    "GetPtr (QNext n) = of_nat b" "read_data (QPool Q) b = Some m" "QData m = x" .
  have sz: "\<not> sint (QSize Q) \<le> 0" using sint_of_nat_less [of "Suc (length xs)"] q(7,8) by simp
  let ?nul = "SetTag (QTagCnt Q + 1) 0"
  let ?Q1 = "Q\<lparr>QSize := QSize Q - 1, QTagCnt := QTagCnt Q + 1\<rparr>" and ?w = "SetPtr (QNext n) ?nul"
  let ?v = "n\<lparr>RefCnt := 0, DeleteFlag := 0\<rparr>"
  have w: "GetPtr ?w = of_nat b" using q(11) by (simp add: GetPtr_def [of "QNext n"])
  obtain P' where P': "tls_Free t a (write_data a ?v (QPool Q)) = Inr P'" "q_mem k P' (b # as) xs (H - {a})"
    using q_mem_drop [OF q(1), of ?v t] by auto
  have "release t (of_nat a) (write_data a (n\<lparr>DeleteFlag := 1\<rparr>) (QPool Q)) = Inr P'"
    using release_last [OF q(5) read_after_write [OF q(5,9)], of "n\<lparr>DeleteFlag := 1\<rparr>" t] q(10) P'(1)
    by (cases n) (simp add: live_node_def write_write_data)
  then have "dequeue_round t ?nul ?Q1 = Inr (?Q1\<lparr>QHead := ?w, QPool := P'\<rparr>, Some x)"
    using q(2-6,9,12,13) w by (simp add: dequeue_round_def Let_def load_node_at store_node_at)
  then have "Dequeue t Q = Some (Inr (?Q1\<lparr>QHead := ?w, QPool := P'\<rparr>, True, x))"
    using sz by (simp add: Dequeue_def dequeue_loop.simps [of t ?nul ?Q1])
  then show ?thesis using queue_rep_drop [OF assms q(1,3) P'(2) w] by auto
qed

lemma queue_Clear_ok:
  "queue_rep k Q xs \<Longrightarrow> \<exists>Q'. queue_Clear t Q = Some (Inr Q') \<and> queue_rep k Q' []"
proof (induction xs arbitrary: Q)
  case Nil
  then have "QSize Q = 0" by (auto simp: queue_rep_def)
  then have "clear_round t Q = Inr (Q, False)" by (simp add: clear_round_def)
  then show ?case using Nil by (subst queue_Clear.simps) simp
next
  case (Cons x xs)
  from queue_rep_first [OF Cons.prems] obtain a b as H n m where
    q: "q_mem k (QPool Q) (a # b # as) (x # xs) H" "GetPtr (QHead Q) = of_nat a"
    "GetPtr (QTail Q) = of_nat (last (b # as))" "(of_nat a :: u64) \<noteq> of_nat (last (b # as))" "addr_ok a" "addr_ok b"
    "QSize Q = of_nat (Suc (length xs))" "Suc (length xs) + k < 2 ^ 31" "read_data (QPool Q) a = Some n" "live_node n"
    "GetPtr (QNext n) = of_nat b" "read_data (QPool Q) b = Some m" "QData m = x" .
  let ?w = "SetPtr (QNext n) 0" and ?v = "n\<lparr>RefCnt := 0\<rparr>"
  have w: "GetPtr ?w = of_nat b" using q(11) by (simp add: GetPtr_def [of "QNext n"])
  then have "?w \<noteq> 0" using addr_word [OF q(6)] by (metis GetPtr_0)
  moreover have "QSize Q \<noteq> 0" using sint_of_nat_less [of "Suc (length xs)"] q(7,8) by auto
  moreover obtain P' where P': "tls_Free t a (write_data a ?v (QPool Q)) = Inr P'" "q_mem k P' (b # as) xs (H - {a})"
    using q_mem_drop [OF q(1), of ?v t] q(10) by (auto simp: live_node_def)
  ultimately have "clear_round t Q = Inr (Q\<lparr>QHead := ?w, QPool := P', QSize := QSize Q - 1\<rparr>, True)"
    using q(2,5,9) by (simp add: clear_round_def Let_def load_node_at store_node_at FreeNode_def unat_addr)
  moreover have "queue_rep k (Q\<lparr>QHead := ?w, QPool := P', QSize := QSize Q - 1\<rparr>) xs"
    using queue_rep_drop [OF Cons.prems q(1,3) P'(2) w, of "QTagCnt Q"] by (cases Q) simp
  ultimately show ?case using Cons.IH by (subst queue_Clear.simps) simp
qed

interpretation lf_queue: bounded_container queue_rep Enqueue Dequeue fifo
  by unfold_locales (use Enqueue_ok Dequeue_empty Dequeue_first in fastforce)+

subsection \<open>The queue as its clients see it\<close>

lemma LockFreeQueue_ctor_rep:
  fixes raw :: "'a::zero lf_queue"
  assumes "run_inv (QPool raw) H" "q_clean (QPool raw) H" "q_fits (Suc k) (QPool raw)" "k < 2 ^ 31"
  shows "\<exists>Q. LockFreeQueue_ctor t 0x00007ffffffeffff raw = Inr Q \<and> queue_rep k Q []"
proof -
  obtain P1 a where 1: "tls_Alloc t new_qnode (QPool raw) = Inr (P1, a)" "a \<notin> H" "run_inv P1 (insert a H)"
      "\<forall>q. read_data (QPool raw) q \<noteq> None \<longrightarrow> read_data P1 q = read_data (QPool raw) q"
      "\<forall>q. read_data (QPool raw) q = None \<longrightarrow> read_data P1 q \<in> {None, Some new_qnode}"
    using alloc_run [OF assms(1)] by metis
  have cl: "RefCnt d = 0 \<and> DeleteFlag d = 0" if "read_data P1 q = Some d" "q \<notin> H" for q d
  proof (cases "read_data (QPool raw) q")
    case None
    then have "read_data P1 q \<in> {None, Some new_qnode}" using 1(5) by blast
    then have "d = new_qnode" using that(1) by auto
    then show ?thesis by (simp add: new_qnode_def)
  next
    case (Some d')
    then have "d' = d" using 1(4) that(1) by simp
    with Some assms(2) that(2) show ?thesis unfolding q_clean_def by blast
  qed
  have f: "q_fits k P1" using assms(3) tls_Alloc_Brk [OF 1(1)] by (simp add: q_fits_def)
  have ok: "addr_ok a" using held_addr [OF 1(3) f] by simp
  obtain d where d: "read_data P1 a = Some d" using run_inv_read [OF 1(3), of a] by auto
  have dz: "RefCnt d = 0" "DeleteFlag d = 0" using cl [OF d 1(2)] by simp_all
  let ?v = "d\<lparr>QNext := 0, RefCnt := 1\<rparr>" and ?w = "SetPtr (of_nat a) 0 :: tagged"
  let ?P = "write_data a ?v P1"
  let ?Q = "raw\<lparr>QHead := ?w, QTail := ?w, QSize := 0, QTagCnt := 0, QPool := ?P\<rparr>"
  have w: "GetPtr ?w = of_nat a" using addr_word [OF ok] by simp
  have "LockFreeQueue_ctor t 0x00007ffffffeffff raw = Inr ?Q"
    using 1(1) ok d dz w by (simp add: LockFreeQueue_ctor_def AllocNode_def Let_def store_node_at read_after_write write_write_data)
  moreover have "q_mem k ?P [a] [] (insert a H)"
  proof -
    have rd: "read_data ?P q = (if q = a then Some ?v else read_data P1 q)" for q
      using ok d by (simp add: node_read_write addr_ok_def)
    have "q_clean ?P (insert a H)" using cl unfolding q_clean_def rd by auto
    then show ?thesis using write_run [OF 1(3)] f dz by (simp add: q_mem_def rd live_node_def)
  qed
  ultimately show ?thesis using w assms(4)
    by (intro exI [of _ ?Q]) (simp add: queue_rep_def, rule exI [of _ "[a]"], auto)
qed

text \<open>C16. A lock-free queue built by its constructor over a pool that other queues may share behaves, reference
  counts, deletion flags and pool included, as a first-in first-out list: any sequence of \<open>Enqueue\<close> and
  \<open>Dequeue\<close> by any threads, one after another, with at most \<open>k\<close> enqueues returns (no loop of it runs forever), faults
  nowhere, and dequeues what the list of the stored values gives, null from an empty queue; a final \<open>Clear\<close>
  returns and leaves the queue empty.\<close>

theorem lf_queue_refines_list:
  fixes raw :: "'a::zero lf_queue"
  assumes "run_inv (QPool raw) H" "q_clean (QPool raw) H" "q_fits (Suc k) (QPool raw)" "k < 2 ^ 31" "puts ops \<le> k"
  shows "\<exists>Q Q' Q''. LockFreeQueue_ctor t 0x00007ffffffeffff raw = Inr Q \<and>
    run_ops Enqueue Dequeue ops Q = Some (Inr (Q', snd (spec_ops fifo ops []))) \<and>
    QSize Q' = of_nat (length (fst (spec_ops fifo ops []))) \<and>
    queue_Clear t Q' = Some (Inr Q'') \<and> Dequeue t Q'' = Some (Inr (Q'', False, 0))"
proof -
  obtain Q where Q: "LockFreeQueue_ctor t 0x00007ffffffeffff raw = Inr Q" "queue_rep k Q []"
    using LockFreeQueue_ctor_rep [OF assms(1-4)] by blast
  with lf_queue.run_refines [of ops "k - puts ops" Q "[]"] assms(5) obtain Q' where
    1: "run_ops Enqueue Dequeue ops Q = Some (Inr (Q', snd (spec_ops fifo ops [])))"
      "queue_rep (k - puts ops) Q' (fst (spec_ops fifo ops []))" by auto
  moreover have "QSize Q' = of_nat (length (fst (spec_ops fifo ops [])))" using 1(2) by (auto simp: queue_rep_def)
  moreover obtain Q'' where "queue_Clear t Q' = Some (Inr Q'')" "queue_rep (k - puts ops) Q'' []"
    using queue_Clear_ok [OF 1(2)] by blast
  ultimately show ?thesis using Q(1) Dequeue_empty by blast
qed

definition raw_queue :: "int lf_queue" where
  "raw_queue = \<lparr>QHead = 5, QTail = 6, QSize = 7, QTagCnt = 8, QPool = init_pool 4096 64, QJunk = 2 ^ 47\<rparr>"

lemma lf_queue_refines_list_witness:
  "\<exists>Q Q'. LockFreeQueue_ctor 0 0x00007ffffffeffff raw_queue = Inr Q \<and>
    run_ops Enqueue Dequeue [Put 0 5, Put 1 7, Get 0, Get 2, Get 1] Q = Some (Inr (Q', [(True, 5), (True, 7), (False, 0)]))"
proof -
  have "run_inv (QPool raw_queue) {}" using run_inv_reach [OF pool_run.start [of 64 new_qnode 4096]] by (simp add: raw_queue_def)
  moreover have "q_clean (QPool raw_queue) {}" by (simp add: raw_queue_def q_clean_def read_data_def init_pool_def)
  moreover have "q_fits (Suc 2) (QPool raw_queue)" by (simp add: raw_queue_def q_fits_def init_pool_def kChunkDefault_def)
  ultimately show ?thesis
    using lf_queue_refines_list [of raw_queue "{}" 2 "[Put 0 5, Put 1 7, Get 0, Get 2, Get 1]" 0]
    by (simp del: run_ops.simps) blast
qed

end
