(* ===== verification/LockFreeQueueSteps.thy ===== *)
theory LockFreeQueueSteps
  imports LockFreeQueue
begin

text \<open>
  \<open>Enqueue\<close> and \<open>Dequeue\<close> of \<open>LockFreeQueue\<close> (BaseLibrary/include/LockFreeQueue.h) under every interleaving
  of any number of threads. One step of a thread is one access to shared memory: the read of a tagged pointer, the
  read or write of a field of a node, an interlocked operation. Its position and its local variables \<open>NewNode\<close>,
  \<open>OldTail\<close>, \<open>Next\<close>, \<open>CurHead\<close>, \<open>CurTail\<close> are its \<open>pc\<close>. The node pool is the set of its free nodes: a call of
  \<open>AllocNode\<close> takes any of them, as the theory of the pool shows it does.
\<close>

subsection \<open>Threads and shared state\<close>

datatype 'a qpc =
    QIdle
  | EnqData tagged
  | EnqNext tagged
  | EnqRef tagged
  | EnqTag tagged
  | EnqRead tagged
  | EnqInc tagged tagged
  | EnqTail tagged tagged
  | EnqLoad tagged tagged tagged
  | EnqCheck tagged tagged tagged
  | EnqLink tagged tagged tagged
  | EnqHelp tagged tagged tagged
  | EnqSwing tagged tagged
  | EnqDec bool tagged tagged
  | EnqFlag bool tagged tagged
  | EnqFree bool tagged tagged
  | EnqSize
  | DeqSize
  | DeqUndo
  | DeqTag
  | DeqHead tagged
  | DeqTail tagged tagged
  | DeqNext tagged tagged tagged
  | DeqCheck tagged tagged tagged tagged
  | DeqHelp tagged tagged tagged tagged
  | DeqData tagged tagged tagged
  | DeqCas tagged tagged tagged 'a
  | DeqMark tagged 'a
  | DeqDec tagged 'a
  | DeqFlag tagged 'a
  | DeqFree tagged 'a
  | QDone "'a option"

record 'a cqueue =
  HeadW :: tagged
  TailW :: tagged
  SizeW :: u32
  TagW :: u16
  Nodes :: "u64 \<Rightarrow> 'a qnode option"
  FreeSet :: "u64 set"
  Arg :: "nat \<Rightarrow> 'a"
  Pc :: "nat \<Rightarrow> 'a qpc"

definition at :: "nat \<Rightarrow> 'a qpc \<Rightarrow> 'a cqueue \<Rightarrow> 'a cqueue" where
  "at t c s = s\<lparr>Pc := (Pc s)(t := c)\<rparr>"

definition load_n :: "u64 \<Rightarrow> 'a cqueue \<Rightarrow> fault + 'a qnode" where
  "load_n p s = (if p = 0 then Inl NullDeref
     else case Nodes s p of None \<Rightarrow> Inl OutOfBounds | Some n \<Rightarrow> Inr n)"

definition store_n :: "u64 \<Rightarrow> ('a qnode \<Rightarrow> 'a qnode) \<Rightarrow> 'a cqueue \<Rightarrow> fault + 'a cqueue" where
  "store_n p f s = ebind (load_n p s) (\<lambda>n. Inr (s\<lparr>Nodes := (Nodes s)(p \<mapsto> f n)\<rparr>))"

text \<open>\<open>InterlockedIncrement16\<close> on the tag counter, and the compare-exchange on the two ends.\<close>

definition next_tag :: "'a cqueue \<Rightarrow> 'a cqueue \<times> u16" where
  "next_tag s = (s\<lparr>TagW := TagW s + 1\<rparr>, TagW s + 1)"

definition CAS_tail :: "tagged \<Rightarrow> tagged \<Rightarrow> 'a cqueue \<Rightarrow> 'a cqueue" where
  "CAS_tail swap cmp s = (if TailW s = cmp then s\<lparr>TailW := swap\<rparr> else s)"

definition CAS_head :: "tagged \<Rightarrow> tagged \<Rightarrow> 'a cqueue \<Rightarrow> 'a cqueue \<times> bool" where
  "CAS_head swap cmp s = (if HeadW s = cmp then (s\<lparr>HeadW := swap\<rparr>, True) else (s, False))"

text \<open>\<open>CAS_Next\<close>: the compare-exchange on the whole word in the \<open>Next\<close> field of a node.\<close>

definition CAS_Next :: "u64 \<Rightarrow> tagged \<Rightarrow> tagged \<Rightarrow> 'a cqueue \<Rightarrow> fault + 'a cqueue \<times> bool" where
  "CAS_Next p swap cmp s = ebind (load_n p s) (\<lambda>n.
     if QNext n = cmp then ebind (store_n p (\<lambda>n. n\<lparr>QNext := swap\<rparr>) s) (\<lambda>s1. Inr (s1, True)) else Inr (s, False))"

text \<open>After the reference to the old tail is dropped: the end of the loop, or its next round.\<close>

definition enq_go :: "bool \<Rightarrow> tagged \<Rightarrow> 'a qpc" where
  "enq_go linked NewNode = (if linked then EnqSize else EnqRead NewNode)"

text \<open>\<open>Enqueue\<close>. \<open>Next\<close> starts as the word 0, and assigning a pointer to it keeps its tag.\<close>

fun enq_step :: "nat \<Rightarrow> 'a qpc \<Rightarrow> 'a cqueue \<Rightarrow> fault + 'a cqueue" where
  "enq_step t (EnqData N) s = ebind (store_n (GetPtr N) (\<lambda>n. n\<lparr>QData := Arg s t\<rparr>) s) (\<lambda>s1. Inr (at t (EnqNext N) s1))"
| "enq_step t (EnqNext N) s = ebind (store_n (GetPtr N) (\<lambda>n. n\<lparr>QNext := 0\<rparr>) s) (\<lambda>s1. Inr (at t (EnqRef N) s1))"
| "enq_step t (EnqRef N) s =
     ebind (store_n (GetPtr N) (\<lambda>n. n\<lparr>RefCnt := RefCnt n + 1\<rparr>) s) (\<lambda>s1. Inr (at t (EnqTag N) s1))"
| "enq_step t (EnqTag N) s = (let (s1, tag) = next_tag s in Inr (at t (EnqRead (SetTag tag N)) s1))"
| "enq_step t (EnqRead N) s = Inr (at t (EnqInc N (TailW s)) s)"
| "enq_step t (EnqInc N Old) s =
     ebind (store_n (GetPtr Old) (\<lambda>n. n\<lparr>RefCnt := RefCnt n + 1\<rparr>) s) (\<lambda>s1. Inr (at t (EnqTail N Old) s1))"
| "enq_step t (EnqTail N Old) s = Inr (at t (EnqLoad N Old (TailW s)) s)"
| "enq_step t (EnqLoad N Old Tl) s =
     ebind (load_n (GetPtr Tl) s) (\<lambda>n. Inr (at t (EnqCheck N Old (SetPtr (QNext n) 0)) s))"
| "enq_step t (EnqCheck N Old X) s =
     Inr (at t (if Old = TailW s then (if X = 0 then EnqLink N Old X else EnqHelp N Old X) else EnqDec False N Old) s)"
| "enq_step t (EnqLink N Old X) s =
     ebind (CAS_Next (GetPtr Old) N X s) (\<lambda>(s1, ok). Inr (at t (if ok then EnqSwing N Old else EnqDec False N Old) s1))"
| "enq_step t (EnqHelp N Old X) s = Inr (at t (EnqDec False N Old) (CAS_tail X Old s))"
| "enq_step t (EnqSwing N Old) s = Inr (at t (EnqDec True N Old) (CAS_tail N Old s))"
| "enq_step t (EnqDec l N Old) s =
     ebind (load_n (GetPtr Old) s) (\<lambda>n.
     ebind (store_n (GetPtr Old) (\<lambda>n. n\<lparr>RefCnt := RefCnt n - 1\<rparr>) s) (\<lambda>s1.
       Inr (at t (if RefCnt n - 1 = 0 then EnqFlag l N Old else enq_go l N) s1)))"
| "enq_step t (EnqFlag l N Old) s =
     ebind (load_n (GetPtr Old) s) (\<lambda>n.
     ebind (store_n (GetPtr Old) (\<lambda>n. n\<lparr>DeleteFlag := 0\<rparr>) s) (\<lambda>s1.
       Inr (at t (if DeleteFlag n = 1 then EnqFree l N Old else enq_go l N) s1)))"
| "enq_step t (EnqFree l N Old) s = Inr (at t (enq_go l N) (s\<lparr>FreeSet := insert (GetPtr Old) (FreeSet s)\<rparr>))"
| "enq_step t EnqSize s = Inr (at t QIdle (s\<lparr>SizeW := SizeW s + 1\<rparr>))"
| "enq_step t _ s = Inr s"

text \<open>\<open>Dequeue\<close>. \<open>Next\<close> is given a fresh tag before the loop and keeps it. \<open>long\<close> is signed.\<close>

fun deq_step :: "nat \<Rightarrow> 'a qpc \<Rightarrow> 'a cqueue \<Rightarrow> fault + 'a cqueue" where
  "deq_step t DeqSize s = Inr (at t (if sint (SizeW s) \<le> 0 then DeqUndo else DeqTag) (s\<lparr>SizeW := SizeW s - 1\<rparr>))"
| "deq_step t DeqUndo s = Inr (at t (QDone None) (s\<lparr>SizeW := SizeW s + 1\<rparr>))"
| "deq_step t DeqTag s = (let (s1, tag) = next_tag s in Inr (at t (DeqHead (SetTag tag 0)) s1))"
| "deq_step t (DeqHead Y) s = Inr (at t (DeqTail Y (HeadW s)) s)"
| "deq_step t (DeqTail Y H) s = Inr (at t (DeqNext Y H (TailW s)) s)"
| "deq_step t (DeqNext Y H Tl) s =
     ebind (load_n (GetPtr H) s) (\<lambda>n. Inr (at t (DeqCheck Y H Tl (SetPtr (QNext n) Y)) s))"
| "deq_step t (DeqCheck Y H Tl X) s =
     Inr (at t (if H = HeadW s then (if GetPtr H = GetPtr Tl then DeqHelp Y H Tl X else DeqData Y H X) else DeqHead Y) s)"
| "deq_step t (DeqHelp Y H Tl X) s = Inr (at t (DeqHead Y) (CAS_tail X Tl s))"
| "deq_step t (DeqData Y H X) s = ebind (load_n (GetPtr X) s) (\<lambda>n. Inr (at t (DeqCas Y H X (QData n)) s))"
| "deq_step t (DeqCas Y H X v) s = (let (s1, ok) = CAS_head X H s in Inr (at t (if ok then DeqMark H v else DeqHead Y) s1))"
| "deq_step t (DeqMark H v) s =
     ebind (store_n (GetPtr H) (\<lambda>n. n\<lparr>DeleteFlag := 1\<rparr>) s) (\<lambda>s1. Inr (at t (DeqDec H v) s1))"
| "deq_step t (DeqDec H v) s =
     ebind (load_n (GetPtr H) s) (\<lambda>n.
     ebind (store_n (GetPtr H) (\<lambda>n. n\<lparr>RefCnt := RefCnt n - 1\<rparr>) s) (\<lambda>s1.
       Inr (at t (if RefCnt n - 1 = 0 then DeqFlag H v else QDone (Some v)) s1)))"
| "deq_step t (DeqFlag H v) s =
     ebind (load_n (GetPtr H) s) (\<lambda>n.
     ebind (store_n (GetPtr H) (\<lambda>n. n\<lparr>DeleteFlag := 0\<rparr>) s) (\<lambda>s1.
       Inr (at t (if DeleteFlag n = 1 then DeqFree H v else QDone (Some v)) s1)))"
| "deq_step t (DeqFree H v) s = Inr (at t (QDone (Some v)) (s\<lparr>FreeSet := insert (GetPtr H) (FreeSet s)\<rparr>))"
| "deq_step t _ s = Inr s"

fun is_enq :: "'a qpc \<Rightarrow> bool" where
  "is_enq (EnqData _) = True" | "is_enq (EnqNext _) = True" | "is_enq (EnqRef _) = True" | "is_enq (EnqTag _) = True"
| "is_enq (EnqRead _) = True" | "is_enq (EnqInc _ _) = True" | "is_enq (EnqTail _ _) = True" | "is_enq (EnqLoad _ _ _) = True"
| "is_enq (EnqCheck _ _ _) = True" | "is_enq (EnqLink _ _ _) = True" | "is_enq (EnqHelp _ _ _) = True"
| "is_enq (EnqSwing _ _) = True" | "is_enq (EnqDec _ _ _) = True" | "is_enq (EnqFlag _ _ _) = True"
| "is_enq (EnqFree _ _ _) = True" | "is_enq EnqSize = True" | "is_enq _ = False"

definition cq_step :: "nat \<Rightarrow> 'a cqueue \<Rightarrow> fault + 'a cqueue" where
  "cq_step t s = (if is_enq (Pc s t) then enq_step t (Pc s t) s else deq_step t (Pc s t) s)"

subsection \<open>Runs\<close>

text \<open>A call of \<open>Enqueue\<close> with the node the pool gives it (\<open>junk\<close> is what the uninitialised word held before),
  a call of \<open>Dequeue\<close>, and its return.\<close>

definition call_enq :: "nat \<Rightarrow> 'a \<Rightarrow> u64 \<Rightarrow> tagged \<Rightarrow> 'a cqueue \<Rightarrow> 'a cqueue" where
  "call_enq t v p junk s = at t (EnqData (SetPtr p junk)) (s\<lparr>FreeSet := FreeSet s - {p}, Arg := (Arg s)(t := v)\<rparr>)"

definition call_deq :: "nat \<Rightarrow> 'a cqueue \<Rightarrow> 'a cqueue" where
  "call_deq t s = at t DeqSize s"

definition take_result :: "nat \<Rightarrow> 'a cqueue \<Rightarrow> 'a cqueue" where
  "take_result t s = at t QIdle s"

text \<open>The old tail or head a thread has read and still looks at.\<close>

fun looks_at :: "'a qpc \<Rightarrow> u64 option" where
  "looks_at (EnqInc _ Old) = Some (GetPtr Old)" | "looks_at (EnqTail _ Old) = Some (GetPtr Old)"
| "looks_at (EnqLoad _ Old _) = Some (GetPtr Old)" | "looks_at (EnqCheck _ Old _) = Some (GetPtr Old)"
| "looks_at (EnqLink _ Old _) = Some (GetPtr Old)" | "looks_at (EnqHelp _ Old _) = Some (GetPtr Old)"
| "looks_at (EnqSwing _ Old) = Some (GetPtr Old)" | "looks_at (EnqDec _ _ Old) = Some (GetPtr Old)"
| "looks_at (EnqFlag _ _ Old) = Some (GetPtr Old)" | "looks_at (EnqFree _ _ Old) = Some (GetPtr Old)"
| "looks_at (DeqTail _ H) = Some (GetPtr H)" | "looks_at (DeqNext _ H _) = Some (GetPtr H)"
| "looks_at (DeqCheck _ H _ _) = Some (GetPtr H)" | "looks_at (DeqHelp _ H _ _) = Some (GetPtr H)"
| "looks_at (DeqData _ H _) = Some (GetPtr H)" | "looks_at (DeqCas _ H _ _) = Some (GetPtr H)"
| "looks_at (DeqMark H _) = Some (GetPtr H)" | "looks_at (DeqDec H _) = Some (GetPtr H)"
| "looks_at (DeqFlag H _) = Some (GetPtr H)" | "looks_at (DeqFree H _) = Some (GetPtr H)"
| "looks_at _ = None"

definition unseen :: "u64 \<Rightarrow> 'a cqueue \<Rightarrow> bool" where
  "unseen p s \<longleftrightarrow> (\<forall>t. looks_at (Pc s t) \<noteq> Some p)"

text \<open>
  The runs of the threads \<open>T\<close> over the nodes \<open>M\<close>, from the state after the constructor. With \<open>safe\<close>, the
  pool never hands out a node that a running operation still looks at.
\<close>

definition ctor_state :: "u64 set \<Rightarrow> u64 \<Rightarrow> 'a cqueue \<Rightarrow> bool" where
  "ctor_state M p s \<longleftrightarrow> p \<in> M \<and> dom (Nodes s) = M \<and> HeadW s = SetPtr p 0 \<and> TailW s = HeadW s \<and> SizeW s = 0 \<and>
     TagW s = 0 \<and> FreeSet s = M - {p} \<and> Pc s = (\<lambda>t. QIdle) \<and>
     (\<forall>q n. Nodes s q = Some n \<longrightarrow> QNext n = 0 \<and> DeleteFlag n = 0 \<and> RefCnt n = (if q = p then 1 else 0))"

inductive cq_run :: "bool \<Rightarrow> nat set \<Rightarrow> u64 set \<Rightarrow> 'a cqueue \<Rightarrow> bool" for safe T M where
  start: "ctor_state M p s \<Longrightarrow> cq_run safe T M s"
| enq: "cq_run safe T M s \<Longrightarrow> t \<in> T \<Longrightarrow> Pc s t = QIdle \<Longrightarrow> p \<in> FreeSet s \<Longrightarrow> safe \<longrightarrow> unseen p s \<Longrightarrow>
    cq_run safe T M (call_enq t v p junk s)"
| deq: "cq_run safe T M s \<Longrightarrow> t \<in> T \<Longrightarrow> Pc s t = QIdle \<Longrightarrow> cq_run safe T M (call_deq t s)"
| result: "cq_run safe T M s \<Longrightarrow> t \<in> T \<Longrightarrow> Pc s t = QDone r \<Longrightarrow> cq_run safe T M (take_result t s)"
| step: "cq_run safe T M s \<Longrightarrow> t \<in> T \<Longrightarrow> cq_step t s = Inr s' \<Longrightarrow> cq_run safe T M s'"

definition cq_universe :: "nat set \<Rightarrow> u64 set \<Rightarrow> bool" where
  "cq_universe T M \<longleftrightarrow> finite T \<and> finite M \<and> card T < 2 ^ 15 \<and> card M < 2 ^ 30 \<and> 0 \<notin> M \<and> (\<forall>p \<in> M. is_addr p)"

end
