(* ===== verification/LockFreeQueueInv.thy ===== *)
theory LockFreeQueueInv
  imports LockFreeQueueSteps
begin

text \<open>
  The invariant of the interleaved \<open>Enqueue\<close> and \<open>Dequeue\<close>: where every node is, what the reference counts
  count, what the counter of the queue counts, and what each thread may still believe about the old tail or head
  it has read.
\<close>

subsection \<open>What a thread has\<close>

definition node :: "'a cqueue \<Rightarrow> u64 \<Rightarrow> 'a qnode" where
  "node s p = the (Nodes s p)"

definition nx :: "'a cqueue \<Rightarrow> u64 \<Rightarrow> u64" where
  "nx s p = GetPtr (QNext (node s p))"

abbreviation head_p :: "'a cqueue \<Rightarrow> u64" where "head_p s \<equiv> GetPtr (HeadW s)"
abbreviation tail_p :: "'a cqueue \<Rightarrow> u64" where "tail_p s \<equiv> GetPtr (TailW s)"

fun qpath :: "(u64 \<Rightarrow> u64) \<Rightarrow> u64 list \<Rightarrow> bool" where
  "qpath f [] = False"
| "qpath f [a] = (f a = 0)"
| "qpath f (a # b # as) = (f a = b \<and> qpath f (b # as))"

text \<open>The new node before it is linked.\<close>

fun pown :: "'a qpc \<Rightarrow> u64 option" where
  "pown (EnqData N) = Some (GetPtr N)" | "pown (EnqNext N) = Some (GetPtr N)" | "pown (EnqRef N) = Some (GetPtr N)"
| "pown (EnqTag N) = Some (GetPtr N)" | "pown (EnqRead N) = Some (GetPtr N)" | "pown (EnqInc N _) = Some (GetPtr N)"
| "pown (EnqTail N _) = Some (GetPtr N)" | "pown (EnqLoad N _ _) = Some (GetPtr N)"
| "pown (EnqCheck N _ _) = Some (GetPtr N)" | "pown (EnqLink N _ _) = Some (GetPtr N)"
| "pown (EnqHelp N _ _) = Some (GetPtr N)" | "pown (EnqDec l N _) = (if l then None else Some (GetPtr N))"
| "pown (EnqFlag l N _) = (if l then None else Some (GetPtr N))"
| "pown (EnqFree l N _) = (if l then None else Some (GetPtr N))" | "pown _ = None"

text \<open>The node a thread took out and has not marked yet, the one it is about to free, and the one whose count it
  brought to 0.\<close>

fun takes :: "'a qpc \<Rightarrow> u64 option" where
  "takes (DeqMark H _) = Some (GetPtr H)" | "takes (DeqFree H _) = Some (GetPtr H)"
| "takes (EnqFree _ _ Old) = Some (GetPtr Old)" | "takes _ = None"

fun freeing :: "'a qpc \<Rightarrow> u64 option" where
  "freeing (DeqFree H _) = Some (GetPtr H)" | "freeing (EnqFree _ _ Old) = Some (GetPtr Old)" | "freeing _ = None"

fun flagging :: "'a qpc \<Rightarrow> u64 option" where
  "flagging (DeqFlag H _) = Some (GetPtr H)" | "flagging (EnqFlag _ _ Old) = Some (GetPtr Old)" | "flagging _ = None"

definition mine :: "'a qpc \<Rightarrow> u64 set" where
  "mine c = set_option (pown c) \<union> set_option (takes c)"

text \<open>The references a thread counts for: to the old tail, and the one every node has from its enqueuing to the
  end of its dequeuing.\<close>

fun holds :: "'a qpc \<Rightarrow> u64 option" where
  "holds (EnqTail _ Old) = Some (GetPtr Old)" | "holds (EnqLoad _ Old _) = Some (GetPtr Old)"
| "holds (EnqCheck _ Old _) = Some (GetPtr Old)" | "holds (EnqLink _ Old _) = Some (GetPtr Old)"
| "holds (EnqHelp _ Old _) = Some (GetPtr Old)" | "holds (EnqSwing _ Old) = Some (GetPtr Old)"
| "holds (EnqDec _ _ Old) = Some (GetPtr Old)" | "holds _ = None"

fun based :: "'a qpc \<Rightarrow> u64 option" where
  "based (EnqData _) = None" | "based (EnqNext _) = None" | "based (EnqRef _) = None"
| "based (DeqMark H _) = Some (GetPtr H)" | "based (DeqDec H _) = Some (GetPtr H)" | "based c = pown c"

definition w_ref :: "u64 \<Rightarrow> 'a qpc \<Rightarrow> nat" where
  "w_ref p c = of_bool (holds c = Some p) + of_bool (based c = Some p)"

text \<open>What a thread's operation has done to the length of the queue or to its counter and not yet to the other.\<close>

fun linked :: "'a qpc \<Rightarrow> nat" where
  "linked (EnqSwing _ _) = 1" | "linked (EnqDec l _ _) = of_bool l" | "linked (EnqFlag l _ _) = of_bool l"
| "linked (EnqFree l _ _) = of_bool l" | "linked EnqSize = 1" | "linked _ = 0"

fun reserved :: "'a qpc \<Rightarrow> nat" where
  "reserved DeqTag = 1" | "reserved (DeqHead _) = 1" | "reserved (DeqTail _ _) = 1" | "reserved (DeqNext _ _ _) = 1"
| "reserved (DeqCheck _ _ _ _) = 1" | "reserved (DeqHelp _ _ _ _) = 1" | "reserved (DeqData _ _ _) = 1"
| "reserved (DeqCas _ _ _ _) = 1" | "reserved _ = 0"

fun failing :: "'a qpc \<Rightarrow> nat" where
  "failing DeqUndo = 1" | "failing _ = 0"

definition tot :: "('a qpc \<Rightarrow> nat) \<Rightarrow> nat set \<Rightarrow> 'a cqueue \<Rightarrow> nat" where
  "tot w T s = (\<Sum>t \<in> T. w (Pc s t))"

definition priv :: "'a cqueue \<Rightarrow> u64 set" where
  "priv s = {p. \<exists>t. pown (Pc s t) = Some p}"

subsection \<open>The invariant\<close>

definition inv_mem :: "nat set \<Rightarrow> u64 set \<Rightarrow> 'a cqueue \<Rightarrow> bool" where
  "inv_mem T M s \<longleftrightarrow> dom (Nodes s) = M \<and> FreeSet s \<subseteq> M \<and> (\<forall>t. t \<notin> T \<longrightarrow> Pc s t = QIdle) \<and> (\<forall>t. mine (Pc s t) \<subseteq> M) \<and>
     (\<forall>p \<in> M. QNext (node s p) = 0 \<or> nx s p \<in> M)"

definition inv_list :: "u64 set \<Rightarrow> u64 list \<Rightarrow> 'a cqueue \<Rightarrow> bool" where
  "inv_list M L s \<longleftrightarrow> L \<noteq> [] \<and> distinct L \<and> set L \<subseteq> M \<and> head_p s = hd L \<and> qpath (nx s) L \<and> tail_p s \<in> set L \<and>
     (tail_p s = last L \<or> nx s (tail_p s) = last L) \<and>
     (\<forall>p \<in> M. nx s p = 0 \<longrightarrow> p = last L \<or> p \<in> priv s \<or> p \<in> FreeSet s)"

text \<open>Every node is in exactly one place: the queue, the pool, a thread's hands, or waiting with its flag set.\<close>

definition place :: "u64 list \<Rightarrow> 'a cqueue \<Rightarrow> u64 \<Rightarrow> nat" where
  "place L s p = of_bool (p \<in> set L) + of_bool (p \<in> FreeSet s) + of_bool (DeleteFlag (node s p) = 1)"

definition inv_place :: "nat set \<Rightarrow> u64 set \<Rightarrow> u64 list \<Rightarrow> 'a cqueue \<Rightarrow> bool" where
  "inv_place T M L s \<longleftrightarrow> (\<forall>p \<in> M. place L s p + tot (\<lambda>c. of_bool (p \<in> mine c)) T s = 1 \<and>
     (DeleteFlag (node s p) = 0 \<or> DeleteFlag (node s p) = 1))"

definition inv_ref :: "nat set \<Rightarrow> u64 set \<Rightarrow> u64 list \<Rightarrow> 'a cqueue \<Rightarrow> bool" where
  "inv_ref T M L s \<longleftrightarrow> (\<forall>p \<in> M. RefCnt (node s p) = of_nat (of_bool (p \<in> set L) + tot (w_ref p) T s))"

text \<open>A node waits only while someone holds it or is about to look at its flag.\<close>

definition inv_live :: "nat set \<Rightarrow> u64 set \<Rightarrow> 'a cqueue \<Rightarrow> bool" where
  "inv_live T M s \<longleftrightarrow> (\<forall>p \<in> M. DeleteFlag (node s p) = 1 \<longrightarrow> 0 < tot (w_ref p) T s \<or> (\<exists>t. flagging (Pc s t) = Some p))"

definition inv_link :: "'a cqueue \<Rightarrow> bool" where
  "inv_link s \<longleftrightarrow> (\<forall>t N Old X. Pc s t = EnqLink N Old X \<longrightarrow> GetPtr Old \<notin> FreeSet s \<and>
     (\<forall>u. flagging (Pc s u) \<noteq> Some (GetPtr Old) \<and> freeing (Pc s u) \<noteq> Some (GetPtr Old)))"

definition inv_size :: "nat set \<Rightarrow> u64 list \<Rightarrow> 'a cqueue \<Rightarrow> bool" where
  "inv_size T L s \<longleftrightarrow> sint (SizeW s) + 1 + int (tot linked T s) + int (tot reserved T s) + int (tot failing T s) = int (length L) \<and>
     0 \<le> sint (SizeW s) + int (tot failing T s)"

definition fresh_ok :: "'a cqueue \<Rightarrow> nat \<Rightarrow> u64 \<Rightarrow> bool" where
  "fresh_ok s t N \<longleftrightarrow> QData (node s (GetPtr N)) = Arg s t \<and> QNext (node s (GetPtr N)) = 0"

definition old_tail :: "'a cqueue \<Rightarrow> u64 set \<Rightarrow> u64 list \<Rightarrow> u64 \<Rightarrow> bool" where
  "old_tail s M L p \<longleftrightarrow> p \<in> M \<and> p \<notin> priv s \<and> (p = last L \<longrightarrow> tail_p s = p)"

definition old_head :: "'a cqueue \<Rightarrow> u64 set \<Rightarrow> u64 list \<Rightarrow> u64 \<Rightarrow> bool" where
  "old_head s M L p \<longleftrightarrow> p \<in> M \<and> p \<notin> priv s \<and> p \<notin> set (tl L)"

fun pc_ok :: "'a cqueue \<Rightarrow> u64 set \<Rightarrow> u64 list \<Rightarrow> nat \<Rightarrow> 'a qpc \<Rightarrow> bool" where
  "pc_ok s M L t (EnqNext N) = (QData (node s (GetPtr N)) = Arg s t)"
| "pc_ok s M L t (EnqRef N) = fresh_ok s t N"
| "pc_ok s M L t (EnqTag N) = fresh_ok s t N"
| "pc_ok s M L t (EnqRead N) = fresh_ok s t N"
| "pc_ok s M L t (EnqInc N Old) = (fresh_ok s t N \<and> old_tail s M L (GetPtr Old))"
| "pc_ok s M L t (EnqTail N Old) = (fresh_ok s t N \<and> old_tail s M L (GetPtr Old))"
| "pc_ok s M L t (EnqLoad N Old Tl) = (fresh_ok s t N \<and> old_tail s M L (GetPtr Old) \<and> GetPtr Tl \<in> M \<and>
     (tail_p s = GetPtr Old \<longrightarrow> GetPtr Tl = GetPtr Old))"
| "pc_ok s M L t (EnqCheck N Old X) = (fresh_ok s t N \<and> old_tail s M L (GetPtr Old) \<and>
     (tail_p s = GetPtr Old \<longrightarrow> X \<noteq> 0 \<longrightarrow> nx s (GetPtr Old) = X))"
| "pc_ok s M L t (EnqLink N Old X) = (fresh_ok s t N \<and> old_tail s M L (GetPtr Old) \<and> X = 0)"
| "pc_ok s M L t (EnqHelp N Old X) = (fresh_ok s t N \<and> old_tail s M L (GetPtr Old) \<and> X \<noteq> 0 \<and> nx s (GetPtr Old) = X)"
| "pc_ok s M L t (EnqSwing N Old) = (old_tail s M L (GetPtr Old) \<and> GetPtr N \<noteq> 0 \<and> nx s (GetPtr Old) = GetPtr N)"
| "pc_ok s M L t (EnqDec l N Old) = (old_tail s M L (GetPtr Old) \<and> (\<not> l \<longrightarrow> fresh_ok s t N))"
| "pc_ok s M L t (EnqFlag l N Old) = (old_tail s M L (GetPtr Old) \<and> GetPtr Old \<notin> set L \<and> (\<not> l \<longrightarrow> fresh_ok s t N))"
| "pc_ok s M L t (EnqFree l N Old) = (old_tail s M L (GetPtr Old) \<and> (\<not> l \<longrightarrow> fresh_ok s t N))"
| "pc_ok s M L t (DeqTail Y H) = old_head s M L (GetPtr H)"
| "pc_ok s M L t (DeqNext Y H Tl) = (old_head s M L (GetPtr H) \<and>
     (head_p s = GetPtr H \<longrightarrow> GetPtr Tl \<noteq> GetPtr H \<longrightarrow> tail_p s \<noteq> GetPtr H))"
| "pc_ok s M L t (DeqCheck Y H Tl X) = (old_head s M L (GetPtr H) \<and>
     (head_p s = GetPtr H \<longrightarrow> GetPtr Tl \<noteq> GetPtr H \<longrightarrow> tail_p s \<noteq> GetPtr H) \<and>
     (GetPtr X \<noteq> 0 \<longrightarrow> nx s (GetPtr H) = GetPtr X) \<and> (head_p s = GetPtr H \<longrightarrow> GetPtr X \<noteq> 0))"
| "pc_ok s M L t (DeqHelp Y H Tl X) = (old_head s M L (GetPtr H) \<and> GetPtr Tl = GetPtr H \<and> GetPtr X \<noteq> 0 \<and>
     nx s (GetPtr H) = GetPtr X)"
| "pc_ok s M L t (DeqData Y H X) = (old_head s M L (GetPtr H) \<and> (head_p s = GetPtr H \<longrightarrow> tail_p s \<noteq> GetPtr H) \<and>
     GetPtr X \<noteq> 0 \<and> nx s (GetPtr H) = GetPtr X)"
| "pc_ok s M L t (DeqCas Y H X v) = (old_head s M L (GetPtr H) \<and> (head_p s = GetPtr H \<longrightarrow> tail_p s \<noteq> GetPtr H) \<and>
     GetPtr X \<noteq> 0 \<and> nx s (GetPtr H) = GetPtr X \<and> (head_p s = GetPtr H \<longrightarrow> v = QData (node s (GetPtr X))))"
| "pc_ok s M L t (DeqMark H v) = old_head s M L (GetPtr H)"
| "pc_ok s M L t (DeqDec H v) = (old_head s M L (GetPtr H) \<and> GetPtr H \<notin> set L)"
| "pc_ok s M L t (DeqFlag H v) = (old_head s M L (GetPtr H) \<and> GetPtr H \<notin> set L)"
| "pc_ok s M L t (DeqFree H v) = old_head s M L (GetPtr H)"
| "pc_ok s M L t _ = True"

definition inv_pc :: "u64 set \<Rightarrow> u64 list \<Rightarrow> 'a cqueue \<Rightarrow> bool" where
  "inv_pc M L s \<longleftrightarrow> (\<forall>t. pc_ok s M L t (Pc s t))"

definition cq_inv :: "nat set \<Rightarrow> u64 set \<Rightarrow> u64 list \<Rightarrow> 'a cqueue \<Rightarrow> bool" where
  "cq_inv T M L s \<longleftrightarrow> inv_mem T M s \<and> inv_list M L s \<and> inv_place T M L s \<and> inv_ref T M L s \<and> inv_live T M s \<and>
     inv_link s \<and> inv_size T L s \<and> inv_pc M L s"

subsection \<open>Counting over the threads\<close>

lemma tot_upd:
  assumes "finite T" "t \<in> T" "Pc s' = (Pc s)(t := c)"
  shows "tot w T s' + w (Pc s t) = tot w T s + w c"
proof -
  have "(\<Sum>u \<in> T - {t}. w (Pc s' u)) = (\<Sum>u \<in> T - {t}. w (Pc s u))" using assms(3) by (intro sum.cong) auto
  then show ?thesis
    using sum.remove [OF assms(1,2), of "\<lambda>u. w (Pc s u)"] sum.remove [OF assms(1,2), of "\<lambda>u. w (Pc s' u)"] assms(3)
    by (simp add: tot_def)
qed

lemma tot_ge: "finite T \<Longrightarrow> t \<in> T \<Longrightarrow> w (Pc s t) \<le> tot w T s"
  unfolding tot_def by (rule member_le_sum) simp_all

lemma tot_ge2:
  assumes "finite T" "t \<in> T" "u \<in> T" "t \<noteq> u"
  shows "w (Pc s t) + w (Pc s u) \<le> tot w T s"
proof -
  have "(\<Sum>x \<in> {t, u}. w (Pc s x)) \<le> tot w T s" unfolding tot_def using assms by (intro sum_mono2) auto
  with assms(4) show ?thesis by simp
qed

lemma tot_le: "finite T \<Longrightarrow> (\<And>c. w c \<le> k) \<Longrightarrow> tot w T s \<le> k * card T"
  unfolding tot_def using sum_bounded_above [of T "\<lambda>t. w (Pc s t)" k] by (simp add: mult.commute)

lemma tot_pos: "finite T \<Longrightarrow> 0 < tot w T s \<longleftrightarrow> (\<exists>t \<in> T. 0 < w (Pc s t))"
  unfolding tot_def by (metis (no_types, lifting) bot_nat_0.not_eq_extremum sum_eq_0_iff)

lemma weight_bounds: "w_ref p c \<le> 2" "linked c \<le> 1" "reserved c \<le> 1" "failing c \<le> 1"
  by (simp add: w_ref_def, (cases c; simp)+)

text \<open>The pool lets go of a node exactly when nobody has it.\<close>

lemma idle_out: "inv_mem T M s \<Longrightarrow> t \<notin> T \<Longrightarrow> Pc s t = QIdle"
  by (simp add: inv_mem_def)

lemma mine_place:
  assumes "cq_universe T M" "inv_mem T M s" "inv_place T M L s" "p \<in> mine (Pc s t)"
  shows "p \<in> M \<and> p \<notin> set L \<and> p \<notin> FreeSet s \<and> DeleteFlag (node s p) = 0 \<and> (\<forall>u. u \<noteq> t \<longrightarrow> p \<notin> mine (Pc s u))"
proof -
  have f: "finite T" using assms(1) by (simp add: cq_universe_def)
  have t: "t \<in> T" using assms(4) idle_out [OF assms(2)] by (fastforce simp: mine_def)
  have m: "p \<in> M" using assms(2,4) by (auto simp: inv_mem_def)
  let ?w = "\<lambda>c. of_bool (p \<in> mine c) :: nat"
  have c: "place L s p + tot ?w T s = 1" "DeleteFlag (node s p) = 0 \<or> DeleteFlag (node s p) = 1"
    using assms(3) m by (auto simp: inv_place_def)
  have 1: "1 \<le> tot ?w T s" using tot_ge [OF f t, of ?w s] assms(4) by simp
  then have 0: "place L s p = 0" using c(1) by linarith
  have "p \<notin> mine (Pc s u)" if "u \<noteq> t" for u
  proof
    assume u: "p \<in> mine (Pc s u)"
    then have "u \<in> T" using idle_out [OF assms(2)] by (fastforce simp: mine_def)
    then show False using tot_ge2 [OF f t _ that [symmetric], of ?w s] u assms(4) c(1) by simp
  qed
  with 0 m c(2) show ?thesis by (auto simp: place_def split: if_splits)
qed

lemma priv_mine: "p \<in> priv s \<Longrightarrow> \<exists>t. p \<in> mine (Pc s t)"
  by (auto simp: priv_def mine_def)

lemma priv_place:
  assumes "cq_universe T M" "inv_mem T M s" "inv_place T M L s" "p \<in> priv s"
  shows "p \<in> M \<and> p \<notin> set L \<and> p \<notin> FreeSet s"
  using priv_mine [OF assms(4)] mine_place [OF assms(1-3)] by blast

lemma tails_last: "L \<noteq> [] \<Longrightarrow> distinct L \<Longrightarrow> last L \<in> set (tl L) \<or> L = [last L]"
  by (cases L) auto

text \<open>The facts a thread relies on survive what the others do. \<open>evolves\<close>: the ends move forward, links and
  values of nodes that were ever in the queue stay, and a new node belongs to its thread.\<close>

definition evolves :: "nat \<Rightarrow> u64 set \<Rightarrow> 'a cqueue \<Rightarrow> u64 list \<Rightarrow> 'a cqueue \<Rightarrow> u64 list \<Rightarrow> bool" where
  "evolves t M s L s' L' \<longleftrightarrow>
     (tail_p s' = tail_p s \<or> tail_p s \<noteq> last L \<and> tail_p s' = last L) \<and>
     (last L' = last L \<or> last L' \<in> priv s) \<and>
     (head_p s' = head_p s \<or> head_p s' \<in> set (tl L)) \<and>
     set (tl L') \<subseteq> set (tl L) \<union> priv s \<and> set L' \<subseteq> set L \<union> priv s \<and>
     (\<forall>p \<in> M. p \<notin> priv s \<longrightarrow> QData (node s' p) = QData (node s p) \<and> (nx s p \<noteq> 0 \<longrightarrow> nx s' p = nx s p)) \<and>
     (\<forall>u p. u \<noteq> t \<longrightarrow> pown (Pc s u) = Some p \<longrightarrow>
        QData (node s' p) = QData (node s p) \<and> QNext (node s' p) = QNext (node s p)) \<and>
     priv s' \<subseteq> priv s \<and> Arg s' = Arg s"

lemma old_tail_stable:
  assumes "evolves t M s L s' L'" "old_tail s M L p"
  shows "old_tail s' M L' p"
proof -
  have "p \<notin> priv s'" using assms by (auto simp: evolves_def old_tail_def)
  moreover have "tail_p s' = p" if "p = last L'"
  proof -
    have "p = last L" using assms that unfolding evolves_def old_tail_def by metis
    with assms show ?thesis unfolding evolves_def old_tail_def by metis
  qed
  ultimately show ?thesis using assms(2) by (auto simp: old_tail_def)
qed

lemma old_head_stable: "evolves t M s L s' L' \<Longrightarrow> old_head s M L p \<Longrightarrow> old_head s' M L' p"
  by (auto simp: evolves_def old_head_def)

lemma fresh_ok_stable:
  "evolves t M s L s' L' \<Longrightarrow> u \<noteq> t \<Longrightarrow> pown (Pc s u) = Some (GetPtr N) \<Longrightarrow> fresh_ok s u N \<Longrightarrow> fresh_ok s' u N"
  by (auto simp: evolves_def fresh_ok_def)

lemma head_stable:
  assumes "evolves t M s L s' L'" "old_head s M L p" "head_p s' = p"
  shows "head_p s = p"
  using assms unfolding evolves_def old_head_def by metis

lemma tail_behind:
  assumes "evolves t M s L s' L'" "inv_list M L s" "head_p s = p" "tail_p s \<noteq> p"
  shows "tail_p s' \<noteq> p"
proof -
  have "last L \<noteq> p" if "tail_p s \<noteq> last L"
  proof
    assume "last L = p"
    then have "hd L = last L" "distinct L" "L \<noteq> []" using assms(2,3) by (auto simp: inv_list_def)
    then have "L = [p]" using \<open>last L = p\<close> by (cases L) (auto split: if_splits)
    with assms(2,4) show False by (auto simp: inv_list_def)
  qed
  with assms(1,4) show ?thesis unfolding evolves_def by metis
qed

lemma nx_stable: "evolves t M s L s' L' \<Longrightarrow> p \<in> M \<Longrightarrow> p \<notin> priv s \<Longrightarrow> nx s p = q \<Longrightarrow> q \<noteq> 0 \<Longrightarrow> nx s' p = q"
  by (auto simp: evolves_def)

lemma tail_back:
  assumes "evolves t M s L s' L'" "old_tail s M L p" "tail_p s' = p"
  shows "tail_p s = p"
  using assms unfolding evolves_def old_tail_def by metis

text \<open>The second node of the queue.\<close>

lemma second_node:
  assumes "inv_list M L s" "nx s (head_p s) = q" "q \<noteq> 0"
  shows "\<exists>as. L = head_p s # q # as"
proof -
  obtain a as where "L = a # as" "a = head_p s" using assms(1) by (cases L) (auto simp: inv_list_def)
  then show ?thesis using assms by (cases as) (auto simp: inv_list_def)
qed

lemma data_stable:
  assumes "evolves t M s L s' L'" "inv_list M L s" "nx s (head_p s) = q" "q \<noteq> 0" "set L \<inter> priv s = {}"
  shows "QData (node s' q) = QData (node s q)"
proof -
  from second_node [OF assms(2-4)] obtain as where "L = head_p s # q # as" by blast
  then have "q \<in> M" "q \<notin> priv s" using assms(2,5) by (auto simp: inv_list_def)
  with assms(1) show ?thesis by (simp add: evolves_def)
qed

lemma pc_ok_stable:
  assumes ev: "evolves t M s L s' L'" and l: "inv_list M L s" and d: "set L \<inter> priv s = {}"
    and "u \<noteq> t" "Pc s u = c" "pc_ok s M L u c"
  shows "pc_ok s' M L' u c"
proof -
  note st = old_tail_stable [OF ev] old_head_stable [OF ev] fresh_ok_stable [OF ev assms(4)]
  have m: "GetPtr Old \<in> M \<and> GetPtr Old \<notin> priv s" if "old_tail s M L (GetPtr Old)" for Old
    using that by (simp add: old_tail_def)
  have h: "GetPtr Old \<in> M \<and> GetPtr Old \<notin> priv s" if "old_head s M L (GetPtr Old)" for Old
    using that by (simp add: old_head_def)
  have sub: "p \<notin> set L \<Longrightarrow> p \<notin> priv s \<Longrightarrow> p \<notin> set L'" for p using ev unfolding evolves_def by blast
  show ?thesis
  proof (cases c)
    case (EnqNext N)
    with assms(4-6) ev show ?thesis by (auto simp: evolves_def)
  next
    case (EnqLoad N Old Tl)
    with assms(5,6) show ?thesis using st m tail_back [OF ev] by auto
  next
    case (EnqCheck N Old X)
    with assms(5,6) show ?thesis using st m tail_back [OF ev] nx_stable [OF ev] by auto
  next
    case (EnqHelp N Old X)
    with assms(5,6) show ?thesis using st m nx_stable [OF ev] by auto
  next
    case (EnqSwing N Old)
    with assms(5,6) show ?thesis using st m nx_stable [OF ev] by auto
  next
    case (EnqDec l N Old)
    with assms(5,6) show ?thesis using st by (cases l) auto
  next
    case (EnqFlag l N Old)
    with assms(5,6) show ?thesis using st m sub by (cases l) auto
  next
    case (EnqFree l N Old)
    with assms(5,6) show ?thesis using st by (cases l) auto
  next
    case (DeqNext Y H Tl)
    with assms(5,6) show ?thesis using st head_stable [OF ev] tail_behind [OF ev l] by auto
  next
    case (DeqCheck Y H Tl X)
    with assms(5,6) show ?thesis using st h head_stable [OF ev] tail_behind [OF ev l] nx_stable [OF ev] by auto
  next
    case (DeqHelp Y H Tl X)
    with assms(5,6) show ?thesis using st h nx_stable [OF ev] by auto
  next
    case (DeqData Y H X)
    with assms(5,6) show ?thesis using st h head_stable [OF ev] tail_behind [OF ev l] nx_stable [OF ev] by auto
  next
    case (DeqCas Y H X v)
    with assms(5,6) have o: "old_head s M L (GetPtr H)" "head_p s = GetPtr H \<longrightarrow> tail_p s \<noteq> GetPtr H" "GetPtr X \<noteq> 0"
      "nx s (GetPtr H) = GetPtr X" "head_p s = GetPtr H \<longrightarrow> v = QData (node s (GetPtr X))" by simp_all
    have "v = QData (node s' (GetPtr X))" if "head_p s' = GetPtr H"
      using head_stable [OF ev o(1) that] o(5) data_stable [OF ev l _ o(3) d] o(4) by simp
    with o DeqCas show ?thesis
      using st h [OF o(1)] head_stable [OF ev o(1)] tail_behind [OF ev l] nx_stable [OF ev] by auto
  next
    case (DeqDec H v)
    with assms(5,6) show ?thesis using st h sub by auto
  next
    case (DeqFlag H v)
    with assms(5,6) show ?thesis using st h sub by auto
  qed (use assms(5,6) st in auto)
qed

subsection \<open>One step\<close>

definition node_place :: "u64 list \<Rightarrow> 'a cqueue \<Rightarrow> 'a qpc \<Rightarrow> u64 \<Rightarrow> nat" where
  "node_place L s c p = place L s p + of_bool (p \<in> mine c)"

definition size_place :: "u64 list \<Rightarrow> 'a cqueue \<Rightarrow> 'a qpc \<Rightarrow> int" where
  "size_place L s c = sint (SizeW s) + int (linked c) + int (reserved c) + int (failing c) - int (length L)"

text \<open>What the change of one thread's position and of the shared state has to satisfy.\<close>

definition frame :: "nat \<Rightarrow> u64 set \<Rightarrow> 'a cqueue \<Rightarrow> u64 list \<Rightarrow> 'a cqueue \<Rightarrow> u64 list \<Rightarrow> 'a qpc \<Rightarrow> bool" where
  "frame t M s L s' L' c \<longleftrightarrow> Pc s' = (Pc s)(t := c) \<and> dom (Nodes s') = M \<and> mine c \<subseteq> M \<and> FreeSet s' \<subseteq> M \<and>
     (\<forall>p \<in> M. QNext (node s' p) = 0 \<or> nx s' p \<in> M) \<and>
     (\<forall>p \<in> M. node_place L' s' c p = node_place L s (Pc s t) p \<and> (DeleteFlag (node s' p) = 0 \<or> DeleteFlag (node s' p) = 1)) \<and>
     (\<forall>p \<in> M. RefCnt (node s' p) + of_nat (of_bool (p \<in> set L) + w_ref p (Pc s t)) =
        RefCnt (node s p) + of_nat (of_bool (p \<in> set L') + w_ref p c)) \<and>
     (\<forall>p \<in> M. DeleteFlag (node s' p) = 1 \<longrightarrow> 0 < w_ref p c \<or> flagging c = Some p \<or> RefCnt (node s' p) \<noteq> 0 \<or>
        DeleteFlag (node s p) = 1 \<and> w_ref p (Pc s t) = 0 \<and> flagging (Pc s t) \<noteq> Some p) \<and>
     FreeSet s' \<subseteq> FreeSet s \<union> set_option (freeing (Pc s t)) \<and>
     (\<forall>p. flagging c = Some p \<longrightarrow> flagging (Pc s t) = Some p \<or> RefCnt (node s' p) = 0) \<and>
     (\<forall>p. freeing c = Some p \<longrightarrow> freeing (Pc s t) = Some p \<or> flagging (Pc s t) = Some p) \<and>
     (\<forall>N Old X. c = EnqLink N Old X \<longrightarrow> GetPtr Old \<in> set L \<and> FreeSet s' = FreeSet s \<and> Pc s t = EnqCheck N Old X) \<and>
     size_place L' s' c = size_place L s (Pc s t) \<and>
     (0 \<le> sint (SizeW s') \<or> sint (SizeW s) + int (failing (Pc s t)) \<le> sint (SizeW s') + int (failing c))"

lemma ref_zero:
  assumes "cq_universe T M" "inv_ref T M L s" "p \<in> M" "RefCnt (node s p) = 0"
  shows "p \<notin> set L \<and> tot (w_ref p) T s = 0"
proof -
  have "tot (w_ref p) T s \<le> 2 * card T"
    using assms(1) by (intro tot_le) (auto simp: cq_universe_def weight_bounds)
  then have b: "of_bool (p \<in> set L) + tot (w_ref p) T s < 2 ^ LENGTH(16)"
    using assms(1) by (simp add: cq_universe_def)
  have "(of_nat (of_bool (p \<in> set L) + tot (w_ref p) T s) :: u16) = 0"
    using assms(2-4) by (simp add: inv_ref_def)
  from of_nat_inverse [OF this b] show ?thesis by simp
qed

lemma frame_ref:
  assumes "cq_universe T M" "inv_ref T M L s" "t \<in> T" "frame t M s L s' L' c"
  shows "inv_ref T M L' s'"
  unfolding inv_ref_def
proof
  fix p assume p: "p \<in> M"
  have "tot (w_ref p) T s' + w_ref p (Pc s t) = tot (w_ref p) T s + w_ref p c"
    using assms(1,3,4) by (intro tot_upd) (auto simp: cq_universe_def frame_def)
  then have a: "(of_nat (tot (w_ref p) T s') + of_nat (w_ref p (Pc s t)) :: u16) = of_nat (tot (w_ref p) T s) + of_nat (w_ref p c)"
    by (metis of_nat_add)
  have b: "RefCnt (node s' p) + of_nat (of_bool (p \<in> set L) + w_ref p (Pc s t)) =
      RefCnt (node s p) + of_nat (of_bool (p \<in> set L') + w_ref p c)"
    using assms(4) p by (simp add: frame_def)
  have "RefCnt (node s p) = of_nat (of_bool (p \<in> set L) + tot (w_ref p) T s)"
    using assms(2) p by (simp add: inv_ref_def)
  with b have "RefCnt (node s' p) + (of_nat (of_bool (p \<in> set L)) + of_nat (w_ref p (Pc s t))) =
      of_nat (of_bool (p \<in> set L')) + (of_nat (tot (w_ref p) T s) + of_nat (w_ref p c)) + of_nat (of_bool (p \<in> set L))"
    by (simp only: of_nat_add ac_simps)
  also have "\<dots> = (of_nat (of_bool (p \<in> set L')) + of_nat (tot (w_ref p) T s')) + (of_nat (of_bool (p \<in> set L)) + of_nat (w_ref p (Pc s t)))"
    unfolding a [symmetric] by (simp only: ac_simps)
  finally show "RefCnt (node s' p) = of_nat (of_bool (p \<in> set L') + tot (w_ref p) T s')"
    by (simp only: add_right_cancel of_nat_add)
qed

lemma frame_place:
  assumes "cq_universe T M" "inv_place T M L s" "t \<in> T" "frame t M s L s' L' c"
  shows "inv_place T M L' s'"
  unfolding inv_place_def
proof
  fix p assume p: "p \<in> M"
  let ?w = "\<lambda>c. of_bool (p \<in> mine c) :: nat"
  have "tot ?w T s' + ?w (Pc s t) = tot ?w T s + ?w c"
    using assms(1,3,4) by (intro tot_upd) (auto simp: cq_universe_def frame_def)
  moreover have "place L' s' p + ?w c = place L s p + ?w (Pc s t)"
    using assms(4) p by (simp add: frame_def node_place_def)
  moreover have "place L s p + tot ?w T s = 1" using assms(2) p by (simp add: inv_place_def)
  ultimately have "place L' s' p + tot ?w T s' = 1" by linarith
  then show "place L' s' p + tot ?w T s' = 1 \<and> (DeleteFlag (node s' p) = 0 \<or> DeleteFlag (node s' p) = 1)"
    using assms(4) p by (simp add: frame_def)
qed

lemma frame_live:
  assumes "cq_universe T M" "inv_live T M s" "inv_place T M L' s'" "inv_ref T M L' s'" "inv_mem T M s" "t \<in> T" "frame t M s L s' L' c"
  shows "inv_live T M s'"
  unfolding inv_live_def
proof (intro ballI impI)
  fix p assume p: "p \<in> M" "DeleteFlag (node s' p) = 1"
  have f: "finite T" using assms(1) by (simp add: cq_universe_def)
  have c: "Pc s' = (Pc s)(t := c)" using assms(7) by (simp add: frame_def)
  have L: "p \<notin> set L'" using assms(3) p by (auto simp: inv_place_def place_def)
  have eq: "tot (w_ref p) T s' + w_ref p (Pc s t) = tot (w_ref p) T s + w_ref p c" using tot_upd [OF f assms(6) c] .
  from assms(7) p consider "0 < w_ref p c" | "flagging c = Some p" | "RefCnt (node s' p) \<noteq> 0"
    | "DeleteFlag (node s p) = 1" "w_ref p (Pc s t) = 0" "flagging (Pc s t) \<noteq> Some p"
    unfolding frame_def by (elim conjE) metis
  then show "0 < tot (w_ref p) T s' \<or> (\<exists>t. flagging (Pc s' t) = Some p)"
  proof cases
    case 1
    have "w_ref p c \<le> tot (w_ref p) T s'" using tot_ge [OF f assms(6), of "w_ref p" s'] c by simp
    with 1 show ?thesis by simp
  next
    case 2
    then have "flagging (Pc s' t) = Some p" using c by simp
    then show ?thesis by blast
  next
    case 3
    then have "0 < tot (w_ref p) T s'" using assms(4) p L by (auto simp: inv_ref_def intro: gr0I)
    then show ?thesis ..
  next
    case 4
    from assms(2) p(1) 4(1) consider "0 < tot (w_ref p) T s" | u where "flagging (Pc s u) = Some p"
      by (auto simp: inv_live_def)
    then show ?thesis
    proof cases
      case 1
      then show ?thesis using eq 4(2) by simp
    next
      case 2
      then have "u \<noteq> t" using 4(3) by auto
      with 2 c show ?thesis by (metis fun_upd_other)
    qed
  qed
qed

lemma frame_link:
  assumes "cq_universe T M" "inv_link s" "inv_ref T M L' s'" "inv_pc M L s" "inv_mem T M s" "inv_place T M L s" "t \<in> T" "frame t M s L s' L' c"
  shows "inv_link s'"
  unfolding inv_link_def
proof (intro allI impI)
  fix u N Old X assume u: "Pc s' u = EnqLink N Old X"
  let ?p = "GetPtr Old"
  have f: "finite T" using assms(1) by (simp add: cq_universe_def)
  have c: "Pc s' = (Pc s)(t := c)" using assms(8) by (simp add: frame_def)
  have flag_out: "?p \<notin> set L" if "flagging (Pc s v) = Some ?p" for v
    using assms(4) that unfolding inv_pc_def by (cases "Pc s v") (force dest: spec [of _ v])+
  have free_out: "?p \<notin> set L" if "freeing (Pc s v) = Some ?p" for v
  proof -
    have "?p \<in> mine (Pc s v)" using that by (cases "Pc s v") (auto simp: mine_def)
    then show ?thesis using mine_place [OF assms(1,5,6)] by blast
  qed
  have uT: "u \<in> T" using u c assms(7) idle_out [OF assms(5), of u] by (cases "u = t") auto
  have before: "?p \<notin> FreeSet s \<and> (\<forall>v. (u = t \<longrightarrow> v \<noteq> t) \<longrightarrow> flagging (Pc s v) \<noteq> Some ?p \<and> freeing (Pc s v) \<noteq> Some ?p)"
  proof (cases "u = t")
    case True
    then have "c = EnqLink N Old X" using u c by simp
    then have L: "?p \<in> set L" "Pc s t = EnqCheck N Old X" using assms(8) by (auto simp: frame_def)
    then have "?p \<in> M" using assms(4) by (auto simp: inv_pc_def old_tail_def dest!: spec [of _ t])
    then have "?p \<notin> FreeSet s" using assms(6) L(1) by (auto simp: inv_place_def place_def split: if_splits)
    with L flag_out free_out show ?thesis by blast
  next
    case False
    then have "Pc s u = EnqLink N Old X" using u c by simp
    with assms(2) show ?thesis unfolding inv_link_def by blast
  qed
  have p: "?p \<in> M"
  proof (cases "u = t")
    case True
    then have "Pc s t = EnqCheck N Old X" using u c assms(8) by (auto simp: frame_def)
    then show ?thesis using assms(4) by (auto simp: inv_pc_def old_tail_def dest!: spec [of _ t])
  next
    case False
    then have "Pc s u = EnqLink N Old X" using u c by simp
    then show ?thesis using assms(4) by (auto simp: inv_pc_def old_tail_def dest!: spec [of _ u])
  qed
  have "0 < w_ref ?p (Pc s' u)" using u by (simp add: w_ref_def)
  then have pos: "0 < tot (w_ref ?p) T s'" using tot_ge [OF f uT, of "w_ref ?p" s'] by simp
  then have nz: "RefCnt (node s' ?p) \<noteq> 0" using ref_zero [OF assms(1,3) p] by auto
  have same: "FreeSet s' = FreeSet s \<and> Pc s t = EnqCheck N Old X" if "u = t"
    using that u c assms(8) by (auto simp: frame_def)
  have old: "?p \<notin> FreeSet s" "\<And>v. flagging (Pc s v) \<noteq> Some ?p" "\<And>v. freeing (Pc s v) \<noteq> Some ?p"
    using before same by (metis flagging.simps freeing.simps option.distinct(1))+
  then have "?p \<notin> FreeSet s'" using assms(8) by (auto simp: frame_def)
  moreover have "flagging (Pc s' v) \<noteq> Some ?p \<and> freeing (Pc s' v) \<noteq> Some ?p" for v
  proof (cases "v = t")
    case True
    then show ?thesis using old nz c assms(8) unfolding frame_def by (metis fun_upd_same)
  next
    case False
    then show ?thesis using old c by simp
  qed
  ultimately show "?p \<notin> FreeSet s' \<and> (\<forall>u. flagging (Pc s' u) \<noteq> Some ?p \<and> freeing (Pc s' u) \<noteq> Some ?p)" by blast
qed

lemma frame_size:
  assumes "cq_universe T M" "inv_size T L s" "t \<in> T" "frame t M s L s' L' c"
  shows "inv_size T L' s'"
proof -
  have f: "finite T" and c: "Pc s' = (Pc s)(t := c)" using assms(1,4) by (auto simp: cq_universe_def frame_def)
  note tot_upd [OF f assms(3) c, of linked] tot_upd [OF f assms(3) c, of reserved] tot_upd [OF f assms(3) c, of failing]
  moreover have "size_place L' s' c = size_place L s (Pc s t)"
    "0 \<le> sint (SizeW s') \<or> sint (SizeW s) + int (failing (Pc s t)) \<le> sint (SizeW s') + int (failing c)"
    using assms(4) by (simp_all add: frame_def)
  ultimately show ?thesis using assms(2) unfolding inv_size_def size_place_def by linarith
qed

lemma frame_inv:
  assumes u: "cq_universe T M" and i: "cq_inv T M L s" and t: "t \<in> T" and fr: "frame t M s L s' L' c"
    and ev: "evolves t M s L s' L'" and l: "inv_list M L' s'" and pc: "pc_ok s' M L' t c"
  shows "cq_inv T M L' s'"
proof -
  have i': "inv_mem T M s" "inv_list M L s" "inv_place T M L s" "inv_ref T M L s" "inv_live T M s" "inv_link s"
    "inv_size T L s" "inv_pc M L s" using i by (simp_all add: cq_inv_def)
  have m: "inv_mem T M s'" using i'(1) t fr by (auto simp: inv_mem_def frame_def)
  have r: "inv_ref T M L' s'" using frame_ref [OF u i'(4) t fr] .
  have p: "inv_place T M L' s'" using frame_place [OF u i'(3) t fr] .
  have d: "set L \<inter> priv s = {}" using priv_place [OF u i'(1,3)] by blast
  have "inv_pc M L' s'"
    unfolding inv_pc_def
  proof
    fix v
    show "pc_ok s' M L' v (Pc s' v)"
    proof (cases "v = t")
      case True
      then show ?thesis using pc fr by (simp add: frame_def)
    next
      case False
      then have "Pc s' v = Pc s v" using fr by (simp add: frame_def)
      then show ?thesis using pc_ok_stable [OF ev i'(2) d False refl] i'(8) by (simp add: inv_pc_def)
    qed
  qed
  with m l p r show ?thesis
    using frame_live [OF u i'(5) p r i'(1) t fr] frame_link [OF u i'(6) r i'(8,1,3) t fr] frame_size [OF u i'(7) t fr]
    by (simp add: cq_inv_def)
qed

end
