(* ===== verification/LockFreeQueueSafe.thy ===== *)
theory LockFreeQueueSafe
  imports LockFreeQueueInv
begin

text \<open>
  Every step of a thread keeps the invariant of \<open>LockFreeQueueInv\<close> and, as an operation on the list of values, is
  \<open>Enqueue\<close> at its successful \<open>CAS_Next\<close>, \<open>Dequeue\<close> at its successful exchange of the head, and nothing anywhere
  else.
\<close>

subsection \<open>Reading and writing nodes\<close>

lemma at_simps [simp]:
  "HeadW (at t c s) = HeadW s" "TailW (at t c s) = TailW s" "SizeW (at t c s) = SizeW s" "TagW (at t c s) = TagW s"
  "Nodes (at t c s) = Nodes s" "FreeSet (at t c s) = FreeSet s" "Arg (at t c s) = Arg s" "Pc (at t c s) = (Pc s)(t := c)"
  by (simp_all add: at_def)

lemma node_at [simp]: "node (at t c s) p = node s p"
  by (simp add: node_def)

lemma nx_at [simp]: "nx (at t c s) p = nx s p"
  by (simp add: nx_def)

lemma node_upd: "node (s\<lparr>Nodes := (Nodes s)(p \<mapsto> x)\<rparr>) q = (if q = p then x else node s q)"
  by (simp add: node_def)

lemma node_other [simp]:
  "node (s\<lparr>TagW := x1\<rparr>) q = node s q" "node (s\<lparr>SizeW := x2\<rparr>) q = node s q" "node (s\<lparr>FreeSet := x3\<rparr>) q = node s q"
  "node (s\<lparr>TailW := x4\<rparr>) q = node s q" "node (s\<lparr>HeadW := x5\<rparr>) q = node s q" "node (s\<lparr>Arg := x6\<rparr>) q = node s q"
  by (simp_all add: node_def)

lemma load_ok: "cq_universe T M \<Longrightarrow> inv_mem T M s \<Longrightarrow> p \<in> M \<Longrightarrow> load_n p s = Inr (node s p)"
  by (auto simp: load_n_def node_def inv_mem_def cq_universe_def split: option.splits)

lemma store_ok:
  "cq_universe T M \<Longrightarrow> inv_mem T M s \<Longrightarrow> p \<in> M \<Longrightarrow>
     store_n p f s = Inr (s\<lparr>Nodes := (Nodes s)(p \<mapsto> f (node s p))\<rparr>)"
  by (simp add: store_n_def load_ok)

lemma SetPtr_null [simp]: "SetPtr p 0 = GetPtr p"
  by (simp add: SetPtr_def GetPtr_def)

lemma GetPtr_GetPtr [simp]: "GetPtr (GetPtr p) = GetPtr p"
  by (simp add: GetPtr_def)

lemma GetPtr_SetPtr_nx [simp]: "GetPtr (SetPtr (QNext (node s p)) y) = nx s p"
  by (simp add: nx_def) (simp add: GetPtr_def)

lemma inv_parts:
  assumes "cq_inv T M L s"
  shows "inv_mem T M s" "inv_list M L s" "inv_place T M L s" "inv_ref T M L s" "inv_live T M s" "inv_link s"
    "inv_size T L s" "inv_pc M L s" "pc_ok s M L t (Pc s t)"
  using assms by (simp_all add: cq_inv_def inv_pc_def)

lemma mine_M: "cq_inv T M L s \<Longrightarrow> p \<in> mine (Pc s t) \<Longrightarrow> p \<in> M"
  using inv_parts(1) by (fastforce simp: inv_mem_def)

text \<open>No thread is idle outside \<open>T\<close>.\<close>

lemma in_T: "cq_inv T M L s \<Longrightarrow> Pc s t \<noteq> QIdle \<Longrightarrow> t \<in> T"
  using inv_parts(1) idle_out by blast

subsection \<open>Steps that leave the list alone\<close>

definition quiet :: "nat \<Rightarrow> 'a cqueue \<Rightarrow> 'a cqueue \<Rightarrow> 'a qpc \<Rightarrow> bool" where
  "quiet t s s' c \<longleftrightarrow> Pc s' = (Pc s)(t := c) \<and> pown c = pown (Pc s t) \<and> HeadW s' = HeadW s \<and> TailW s' = TailW s \<and>
     Arg s' = Arg s \<and> dom (Nodes s') = dom (Nodes s) \<and> FreeSet s \<subseteq> FreeSet s' \<and>
     (\<forall>p. QData (node s' p) = QData (node s p) \<and> QNext (node s' p) = QNext (node s p))"

lemma quiet_priv: "quiet t s s' c \<Longrightarrow> priv s' = priv s"
  unfolding quiet_def priv_def by (metis fun_upd_apply)

lemma quiet_nx: "quiet t s s' c \<Longrightarrow> nx s' = nx s"
  by (auto simp: quiet_def nx_def fun_eq_iff)

lemma quiet_pc_ok:
  assumes "quiet t s s' c"
  shows "pc_ok s' M L u d = pc_ok s M L u d"
proof -
  have v: "HeadW s' = HeadW s" "TailW s' = TailW s" "Arg s' = Arg s" "\<And>p. QData (node s' p) = QData (node s p)"
    "\<And>p. QNext (node s' p) = QNext (node s p)" using assms by (auto simp: quiet_def)
  have o: "old_tail s' M L p = old_tail s M L p" "old_head s' M L p = old_head s M L p" "fresh_ok s' u p = fresh_ok s u p" for p
    using v quiet_priv [OF assms] by (auto simp: old_tail_def old_head_def fresh_ok_def)
  show ?thesis by (cases d) (simp_all add: o v quiet_nx [OF assms])
qed

lemma quiet_evolves: "quiet t s s' c \<Longrightarrow> evolves t M s L s' L"
  using quiet_priv [of t s s' c] quiet_nx [of t s s' c] by (auto simp: evolves_def quiet_def dest: list.set_sel(2) [rotated])

lemma quiet_list: "quiet t s s' c \<Longrightarrow> inv_list M L s \<Longrightarrow> inv_list M L s'"
  using quiet_priv [of t s s' c] quiet_nx [of t s s' c] by (auto simp: inv_list_def quiet_def)

lemma quiet_inv:
  assumes "cq_universe T M" "cq_inv T M L s" "t \<in> T" "quiet t s s' c" "frame t M s L s' L c" "pc_ok s M L t c"
  shows "cq_inv T M L s'"
  using frame_inv [OF assms(1-3,5) quiet_evolves [OF assms(4)] quiet_list [OF assms(4) inv_parts(2) [OF assms(2)]]]
    quiet_pc_ok [OF assms(4)] assms(6) by blast

text \<open>Nothing but the position (and the tag counter) changes.\<close>

definition calm :: "'a qpc \<Rightarrow> 'a qpc \<Rightarrow> bool" where
  "calm c d \<longleftrightarrow> pown d = pown c \<and> takes d = takes c \<and> holds d = holds c \<and> based d = based c \<and> flagging d = flagging c \<and>
     freeing d = freeing c \<and> linked d = linked c \<and> reserved d = reserved c \<and> failing d = failing c"

lemma calm_inv:
  assumes "cq_universe T M" "cq_inv T M L s" "t \<in> T" "calm (Pc s t) c" "pc_ok s M L t c"
    and "s' = at t c s \<or> s' = at t c (s\<lparr>TagW := k\<rparr>)"
    and "\<And>N Old X. c = EnqLink N Old X \<Longrightarrow> GetPtr Old \<in> set L \<and> Pc s t = EnqCheck N Old X"
  shows "cq_inv T M L s'"
proof (rule quiet_inv [OF assms(1-3) _ _ assms(5)])
  show "quiet t s s' c" using assms(4,6) by (auto simp: quiet_def calm_def)
  have n: "Pc s' = (Pc s)(t := c)" "Nodes s' = Nodes s" "node s' = node s" "nx s' = nx s" "FreeSet s' = FreeSet s" "SizeW s' = SizeW s"
    using assms(6) by (auto simp: fun_eq_iff nx_def)
  have m: "mine c = mine (Pc s t)" "\<And>p. w_ref p c = w_ref p (Pc s t)" using assms(4) by (simp_all add: calm_def mine_def w_ref_def)
  have i: "dom (Nodes s) = M" "FreeSet s \<subseteq> M" "mine (Pc s t) \<subseteq> M" "\<forall>p \<in> M. QNext (node s p) = 0 \<or> nx s p \<in> M"
    "\<forall>p \<in> M. DeleteFlag (node s p) = 0 \<or> DeleteFlag (node s p) = 1"
    using inv_parts(1,3) [OF assms(2)] by (simp_all add: inv_mem_def inv_place_def)
  show "frame t M s L s' L c"
    unfolding frame_def node_place_def place_def size_place_def n m
    using i assms(4,7) by (auto simp: calm_def)
qed

text \<open>A field of a node that is not the link or the value changes.\<close>

definition cold_frame :: "u64 set \<Rightarrow> u64 list \<Rightarrow> 'a cqueue \<Rightarrow> 'a cqueue \<Rightarrow> 'a qpc \<Rightarrow> 'a qpc \<Rightarrow> bool" where
  "cold_frame M L s s' c d \<longleftrightarrow>
     (\<forall>p \<in> M. node_place L s' d p = node_place L s c p \<and> (DeleteFlag (node s' p) = 0 \<or> DeleteFlag (node s' p) = 1) \<and>
        RefCnt (node s' p) + of_nat (w_ref p c) = RefCnt (node s p) + of_nat (w_ref p d) \<and>
        (DeleteFlag (node s' p) = 1 \<longrightarrow> 0 < w_ref p d \<or> flagging d = Some p \<or> RefCnt (node s' p) \<noteq> 0 \<or>
           DeleteFlag (node s p) = 1 \<and> w_ref p c = 0 \<and> flagging c \<noteq> Some p)) \<and>
     FreeSet s' \<subseteq> FreeSet s \<union> set_option (freeing c) \<and>
     (\<forall>p. flagging d = Some p \<longrightarrow> flagging c = Some p \<or> RefCnt (node s' p) = 0) \<and>
     (\<forall>p. freeing d = Some p \<longrightarrow> freeing c = Some p \<or> flagging c = Some p) \<and>
     size_place L s' d = size_place L s c \<and>
     (0 \<le> sint (SizeW s') \<or> sint (SizeW s) + int (failing c) \<le> sint (SizeW s') + int (failing d))"

lemma cold_inv:
  assumes "cq_universe T M" "cq_inv T M L s" "t \<in> T" "quiet t s s' d" "cold_frame M L s s' (Pc s t) d" "mine d \<subseteq> M"
    and "\<And>N Old X. d \<noteq> EnqLink N Old X" "pc_ok s M L t d" "dom (Nodes s') = M" "FreeSet s' \<subseteq> M"
  shows "cq_inv T M L s'"
proof (rule quiet_inv [OF assms(1-4) _ assms(8)])
  have q: "Pc s' = (Pc s)(t := d)" "\<forall>p. QNext (node s' p) = QNext (node s p)" using assms(4) by (auto simp: quiet_def)
  have n: "nx s' = nx s" using quiet_nx [OF assms(4)] .
  have "\<forall>p \<in> M. QNext (node s p) = 0 \<or> nx s p \<in> M" using inv_parts(1) [OF assms(2)] by (simp add: inv_mem_def)
  with assms(5-7,9,10) q show "frame t M s L s' L d"
    unfolding frame_def cold_frame_def n by (simp add: of_nat_add add.assoc add.commute add.left_commute)
qed

subsection \<open>The list of values\<close>

definition vals :: "u64 list \<Rightarrow> 'a cqueue \<Rightarrow> 'a list" where
  "vals L s = map (\<lambda>p. QData (node s p)) (tl L)"

definition q_effect :: "nat \<Rightarrow> 'a cqueue \<Rightarrow> 'a cqueue \<Rightarrow> 'a list \<Rightarrow> 'a list \<Rightarrow> bool" where
  "q_effect t s s' xs xs' \<longleftrightarrow>
     (case Pc s' t of EnqSwing _ _ \<Rightarrow> xs' = xs @ [Arg s t] | DeqMark _ v \<Rightarrow> xs = v # xs' | _ \<Rightarrow> xs' = xs)"

lemma q_effect_none: "xs' = xs \<Longrightarrow> (\<And>N Old. Pc s' t \<noteq> EnqSwing N Old) \<Longrightarrow> (\<And>H v. Pc s' t \<noteq> DeqMark H v) \<Longrightarrow> q_effect t s s' xs xs'"
  by (simp add: q_effect_def split: qpc.split)

definition good_step :: "nat set \<Rightarrow> u64 set \<Rightarrow> u64 list \<Rightarrow> nat \<Rightarrow> 'a cqueue \<Rightarrow> bool" where
  "good_step T M L t s \<longleftrightarrow> (\<exists>s' L'. cq_step t s = Inr s' \<and> cq_inv T M L' s' \<and> q_effect t s s' (vals L s) (vals L' s'))"

lemma good_quiet:
  assumes "cq_step t s = Inr s'" "cq_inv T M L s'" "quiet t s s' c" "\<And>N Old. c \<noteq> EnqSwing N Old" "\<And>H v. c \<noteq> DeqMark H v"
  shows "good_step T M L t s"
proof -
  have "vals L s' = vals L s" using assms(3) by (simp add: vals_def quiet_def)
  moreover have "Pc s' t = c" using assms(3) by (simp add: quiet_def)
  ultimately have "q_effect t s s' (vals L s) (vals L s')" using assms(4,5) by (intro q_effect_none) simp_all
  with assms(1,2) show ?thesis unfolding good_step_def by blast
qed

lemma good_calm:
  assumes "cq_universe T M" "cq_inv T M L s" "Pc s t = c0" "c0 \<noteq> QIdle" "cq_step t s = Inr s'" "calm c0 c" "pc_ok s M L t c"
    and "s' = at t c s \<or> s' = at t c (s\<lparr>TagW := k\<rparr>)"
    and "\<And>N Old X. c = EnqLink N Old X \<Longrightarrow> GetPtr Old \<in> set L \<and> Pc s t = EnqCheck N Old X"
    and "\<And>N Old. c \<noteq> EnqSwing N Old" "\<And>H v. c \<noteq> DeqMark H v"
  shows "good_step T M L t s"
proof (rule good_quiet [OF assms(5)])
  show "cq_inv T M L s'" using calm_inv [OF assms(1,2) in_T [OF assms(2)] _ assms(7,8,9)] assms(3,4,6) by blast
  show "quiet t s s' c" using assms(3,6,8) by (auto simp: quiet_def calm_def)
qed (use assms(10,11) in auto)

lemma tail_facts:
  assumes "cq_universe T M" "cq_inv T M L s"
  shows "tail_p s \<in> M" "tail_p s \<in> set L" "tail_p s \<notin> priv s" "old_tail s M L (tail_p s)" "head_p s \<in> M" "old_head s M L (head_p s)"
proof -
  note i = inv_parts [OF assms(2)]
  have d: "p \<notin> priv s" if "p \<in> set L" for p using priv_place [OF assms(1) i(1,3)] that by blast
  have l: "head_p s \<in> set L" "head_p s \<notin> set (tl L)"
    using i(2) by (cases L; auto simp: inv_list_def)+
  with i(2) show "tail_p s \<in> M" "tail_p s \<in> set L" "tail_p s \<notin> priv s" "old_tail s M L (tail_p s)" "head_p s \<in> M" "old_head s M L (head_p s)"
    using d by (auto simp: inv_list_def old_tail_def old_head_def)
qed

text \<open>A reserved dequeue finds a second node.\<close>

lemma reserved_second:
  assumes "cq_universe T M" "cq_inv T M L s" "reserved (Pc s t) = 1"
  shows "\<exists>q as. L = head_p s # q # as \<and> nx s (head_p s) = q \<and> q \<noteq> 0"
proof -
  note i = inv_parts [OF assms(2)]
  have f: "finite T" using assms(1) by (simp add: cq_universe_def)
  have t: "t \<in> T" using assms(3) by (intro in_T [OF assms(2)]) auto
  have "1 \<le> tot reserved T s" using tot_ge [OF f t, of reserved s] assms(3) by simp
  then have "2 \<le> length L" using i(7) by (auto simp: inv_size_def)
  then obtain a b as where L: "L = a # b # as" by (metis One_nat_def Suc_le_length_iff numeral_2_eq_2)
  moreover have "a = head_p s" "nx s a = b" "b \<in> M" using i(2) L by (auto simp: inv_list_def)
  ultimately show ?thesis using assms(1) by (auto simp: cq_universe_def)
qed

subsection \<open>Steps of Enqueue\<close>

lemma step_EnqTag:
  assumes "cq_universe T M" "cq_inv T M L s" "Pc s t = EnqTag N"
  shows "good_step T M L t s"
proof (rule good_calm [OF assms])
  show "cq_step t s = Inr (at t (EnqRead (SetTag (TagW s + 1) N)) (s\<lparr>TagW := TagW s + 1\<rparr>))"
    using assms(3) by (simp add: cq_step_def next_tag_def)
  show "pc_ok s M L t (EnqRead (SetTag (TagW s + 1) N))" using inv_parts(9) [OF assms(2), of t] assms(3) by (simp add: fresh_ok_def)
qed (auto simp: calm_def)

lemma step_EnqRead:
  assumes "cq_universe T M" "cq_inv T M L s" "Pc s t = EnqRead N"
  shows "good_step T M L t s"
proof (rule good_calm [OF assms])
  show "cq_step t s = Inr (at t (EnqInc N (TailW s)) s)" using assms(3) by (simp add: cq_step_def)
  show "pc_ok s M L t (EnqInc N (TailW s))"
    using inv_parts(9) [OF assms(2), of t] assms(3) tail_facts(4) [OF assms(1,2)] by simp
qed (auto simp: calm_def)

lemma step_EnqTail:
  assumes "cq_universe T M" "cq_inv T M L s" "Pc s t = EnqTail N Old"
  shows "good_step T M L t s"
proof (rule good_calm [OF assms])
  show "cq_step t s = Inr (at t (EnqLoad N Old (TailW s)) s)" using assms(3) by (simp add: cq_step_def)
  show "pc_ok s M L t (EnqLoad N Old (TailW s))"
    using inv_parts(9) [OF assms(2), of t] assms(3) tail_facts(1) [OF assms(1,2)] by simp
qed (auto simp: calm_def)

lemma step_EnqLoad:
  assumes "cq_universe T M" "cq_inv T M L s" "Pc s t = EnqLoad N Old Tl"
  shows "good_step T M L t s"
proof (rule good_calm [OF assms])
  have o: "fresh_ok s t N" "old_tail s M L (GetPtr Old)" "GetPtr Tl \<in> M" "tail_p s = GetPtr Old \<longrightarrow> GetPtr Tl = GetPtr Old"
    using inv_parts(9) [OF assms(2), of t] assms(3) by simp_all
  show "cq_step t s = Inr (at t (EnqCheck N Old (nx s (GetPtr Tl))) s)"
    using assms(3) load_ok [OF assms(1) inv_parts(1) [OF assms(2)] o(3)] by (simp add: cq_step_def nx_def)
  show "pc_ok s M L t (EnqCheck N Old (nx s (GetPtr Tl)))" using o by auto
qed (auto simp: calm_def)

lemma step_EnqCheck:
  assumes "cq_universe T M" "cq_inv T M L s" "Pc s t = EnqCheck N Old X"
  shows "good_step T M L t s"
proof -
  let ?c = "if Old = TailW s then (if X = 0 then EnqLink N Old X else EnqHelp N Old X) else EnqDec False N Old"
  have o: "fresh_ok s t N" "old_tail s M L (GetPtr Old)" "tail_p s = GetPtr Old \<longrightarrow> X \<noteq> 0 \<longrightarrow> nx s (GetPtr Old) = X"
    using inv_parts(9) [OF assms(2), of t] assms(3) by simp_all
  show ?thesis
  proof (rule good_calm [OF assms])
    show "cq_step t s = Inr (at t ?c s)" using assms(3) by (simp add: cq_step_def)
    show "pc_ok s M L t ?c" using o by auto
    show "GetPtr Old' \<in> set L \<and> Pc s t = EnqCheck N' Old' X'" if "?c = EnqLink N' Old' X'" for N' Old' X'
      using that assms(3) tail_facts(2) [OF assms(1,2)] by (auto split: if_splits)
  qed (auto simp: calm_def)
qed

text \<open>A reference count or a flag is written.\<close>

lemmas frame_defs = cold_frame_def node_place_def place_def size_place_def mine_def w_ref_def

lemma step_field:
  assumes "cq_universe T M" "cq_inv T M L s" "Pc s t = c" "c \<noteq> QIdle" "p \<in> M" "pown d = pown c"
    and "\<And>n. QData (f n) = QData n \<and> QNext (f n) = QNext n"
    and "s' = at t d (s\<lparr>Nodes := (Nodes s)(p \<mapsto> f (node s p))\<rparr>)" "cq_step t s = Inr s'"
    and "cold_frame M L s s' c d" "pc_ok s M L t d" "set_option (takes d) \<subseteq> M"
    and "\<And>N Old X. d \<noteq> EnqLink N Old X" "\<And>N Old. d \<noteq> EnqSwing N Old" "\<And>H v. d \<noteq> DeqMark H v"
  shows "good_step T M L t s"
proof -
  note i = inv_parts [OF assms(2)]
  have d: "dom (Nodes s) = M" "FreeSet s \<subseteq> M" "mine c \<subseteq> M" using i(1) assms(3) by (auto simp: inv_mem_def)
  have q: "quiet t s s' d" using assms(3,5-8) d by (auto simp: quiet_def node_upd)
  have "cq_inv T M L s'"
    by (rule cold_inv [OF assms(1,2) in_T [OF assms(2)] q])
      (use assms d in \<open>auto simp: mine_def\<close>)
  then show ?thesis using good_quiet [OF assms(9) _ q] assms(14,15) by blast
qed

lemma store_upd: "cq_universe T M \<Longrightarrow> cq_inv T M L s \<Longrightarrow> p \<in> M \<Longrightarrow>
    store_n p f s = Inr (s\<lparr>Nodes := (Nodes s)(p \<mapsto> f (node s p))\<rparr>) \<and> load_n p s = Inr (node s p)"
  using store_ok load_ok inv_parts(1) by blast

lemma flag_01: "cq_inv T M L s \<Longrightarrow> \<forall>p \<in> M. DeleteFlag (node s p) = 0 \<or> DeleteFlag (node s p) = 1"
  using inv_parts(3) [of T M L s] by (auto simp: inv_place_def)

lemma step_EnqRef:
  assumes "cq_universe T M" "cq_inv T M L s" "Pc s t = EnqRef N"
  shows "good_step T M L t s"
proof -
  have m: "GetPtr N \<in> M" using mine_M [OF assms(2), of _ t] assms(3) by (simp add: mine_def)
  show ?thesis
    by (rule step_field [OF assms _ m, where d = "EnqTag N" and f = "\<lambda>n. n\<lparr>RefCnt := RefCnt n + 1\<rparr>", OF _ _ _ refl])
      (use assms(3) store_upd [OF assms(1,2) m] inv_parts(9) [OF assms(2), of t] flag_01 [OF assms(2)] in
        \<open>auto simp: cq_step_def frame_defs node_upd\<close>)
qed

lemma step_EnqInc:
  assumes "cq_universe T M" "cq_inv T M L s" "Pc s t = EnqInc N Old"
  shows "good_step T M L t s"
proof -
  have m: "GetPtr Old \<in> M" using inv_parts(9) [OF assms(2), of t] assms(3) by (simp add: old_tail_def)
  show ?thesis
    by (rule step_field [OF assms _ m, where d = "EnqTail N Old" and f = "\<lambda>n. n\<lparr>RefCnt := RefCnt n + 1\<rparr>", OF _ _ _ refl])
      (use assms(3) store_upd [OF assms(1,2) m] inv_parts(9) [OF assms(2), of t] flag_01 [OF assms(2)] in
        \<open>auto simp: cq_step_def frame_defs node_upd\<close>)
qed

text \<open>The last reference goes: the node is no longer in the queue.\<close>

lemma ref_last:
  assumes "cq_universe T M" "cq_inv T M L s" "p \<in> M" "RefCnt (node s p) - 1 = 0" "0 < w_ref p (Pc s t)"
  shows "p \<notin> set L"
proof
  assume "p \<in> set L"
  have f: "finite T" using assms(1) by (simp add: cq_universe_def)
  have t: "t \<in> T" using assms(5) by (intro in_T [OF assms(2)]) (auto simp: w_ref_def)
  have "tot (w_ref p) T s \<le> 2 * card T"
    using assms(1) by (intro tot_le) (auto simp: cq_universe_def weight_bounds)
  then have b: "1 + tot (w_ref p) T s < 2 ^ LENGTH(16)"
    using assms(1) by (simp add: cq_universe_def)
  have "(of_nat (1 + tot (w_ref p) T s) :: u16) = 1"
    using inv_parts(4) [OF assms(2)] assms(3,4) \<open>p \<in> set L\<close> by (simp add: inv_ref_def)
  from of_nat_inverse [OF this b] have "tot (w_ref p) T s = 0" by simp
  then show False using tot_ge [OF f t, of "w_ref p" s] assms(5) by simp
qed

lemma pown_other: "old_tail s M L p \<Longrightarrow> pown (Pc s t) \<noteq> Some p"
  by (auto simp: old_tail_def priv_def)

lemma step_EnqDec:
  assumes "cq_universe T M" "cq_inv T M L s" "Pc s t = EnqDec l N Old"
  shows "good_step T M L t s"
proof -
  let ?p = "GetPtr Old"
  let ?d = "if RefCnt (node s ?p) - 1 = 0 then EnqFlag l N Old else enq_go l N"
  have o: "old_tail s M L ?p" "\<not> l \<longrightarrow> fresh_ok s t N" using inv_parts(9) [OF assms(2), of t] assms(3) by simp_all
  have m: "?p \<in> M" using o by (simp add: old_tail_def)
  have L: "?p \<notin> set L" if "RefCnt (node s ?p) - 1 = 0"
    using ref_last [OF assms(1,2) m that, of t] assms(3) by (simp add: w_ref_def)
  show ?thesis
  proof (rule step_field [OF assms _ m, where d = ?d and f = "\<lambda>n. n\<lparr>RefCnt := RefCnt n - 1\<rparr>", OF _ _ _ refl])
    show "cq_step t s = Inr (at t ?d (s\<lparr>Nodes := (Nodes s)(?p \<mapsto> (node s ?p)\<lparr>RefCnt := RefCnt (node s ?p) - 1\<rparr>)\<rparr>))"
      using assms(3) store_upd [OF assms(1,2) m] by (simp add: cq_step_def)
    show "pc_ok s M L t ?d" using o L by (auto simp: enq_go_def)
    show "cold_frame M L s (at t ?d (s\<lparr>Nodes := (Nodes s)(?p \<mapsto> (node s ?p)\<lparr>RefCnt := RefCnt (node s ?p) - 1\<rparr>)\<rparr>)) (EnqDec l N Old) ?d"
      using flag_01 [OF assms(2)] by (cases l) (auto simp: frame_defs node_upd enq_go_def)
  qed (auto simp: enq_go_def)
qed

lemma step_EnqFlag:
  assumes "cq_universe T M" "cq_inv T M L s" "Pc s t = EnqFlag l N Old"
  shows "good_step T M L t s"
proof -
  let ?p = "GetPtr Old"
  let ?d = "if DeleteFlag (node s ?p) = 1 then EnqFree l N Old else enq_go l N"
  have o: "old_tail s M L ?p" "?p \<notin> set L" "\<not> l \<longrightarrow> fresh_ok s t N" using inv_parts(9) [OF assms(2), of t] assms(3) by simp_all
  have m: "?p \<in> M" using o by (simp add: old_tail_def)
  have n: "\<not> l \<longrightarrow> GetPtr N \<noteq> ?p" using pown_other [OF o(1), of t] assms(3) by auto
  show ?thesis
  proof (rule step_field [OF assms _ m, where d = ?d and f = "\<lambda>n. n\<lparr>DeleteFlag := 0\<rparr>", OF _ _ _ refl])
    show "cq_step t s = Inr (at t ?d (s\<lparr>Nodes := (Nodes s)(?p \<mapsto> (node s ?p)\<lparr>DeleteFlag := 0\<rparr>)\<rparr>))"
      using assms(3) store_upd [OF assms(1,2) m] by (simp add: cq_step_def)
    show "pc_ok s M L t ?d" using o by (auto simp: enq_go_def)
    show "cold_frame M L s (at t ?d (s\<lparr>Nodes := (Nodes s)(?p \<mapsto> (node s ?p)\<lparr>DeleteFlag := 0\<rparr>)\<rparr>)) (EnqFlag l N Old) ?d"
      using flag_01 [OF assms(2)] n by (cases l) (auto simp: frame_defs node_upd enq_go_def)
  qed (use m in \<open>auto simp: enq_go_def\<close>)
qed


text \<open>The pool takes a node back.\<close>

lemma step_free:
  assumes "cq_universe T M" "cq_inv T M L s" "Pc s t = c" "freeing c = Some p" "takes c = Some p" "holds c = None" "holds d = None"
    and "based c = pown c" "based d = pown d" "pown d = pown c" "pown c \<noteq> Some p" "takes d = None" "flagging c = None" "flagging d = None"
    and "freeing d = None" "linked d = linked c" "reserved d = reserved c" "failing d = failing c"
    and "cq_step t s = Inr (at t d (s\<lparr>FreeSet := insert p (FreeSet s)\<rparr>))" "pc_ok s M L t d"
    and "\<And>N Old X. d \<noteq> EnqLink N Old X" "\<And>N Old. d \<noteq> EnqSwing N Old" "\<And>H v. d \<noteq> DeqMark H v"
  shows "good_step T M L t s"
proof -
  let ?s = "at t d (s\<lparr>FreeSet := insert p (FreeSet s)\<rparr>)"
  note i = inv_parts [OF assms(2)]
  have t: "t \<in> T" using assms(3,5) by (intro in_T [OF assms(2)]) auto
  have pl: "p \<in> M" "p \<notin> set L" "p \<notin> FreeSet s" "DeleteFlag (node s p) = 0"
    using mine_place [OF assms(1) i(1,3), of p t] assms(3,5) by (auto simp: mine_def)
  have d: "dom (Nodes s) = M" "FreeSet s \<subseteq> M" "mine c \<subseteq> M" using i(1) assms(3) by (auto simp: inv_mem_def)
  have q: "quiet t s ?s d" using assms(3,10) by (auto simp: quiet_def)
  have "cq_inv T M L ?s"
  proof (rule cold_inv [OF assms(1,2) t q])
    show "cold_frame M L s ?s (Pc s t) d"
      using flag_01 [OF assms(2)] assms(3-18) pl by (auto simp: frame_defs)
  qed (use assms d pl in \<open>auto simp: mine_def\<close>)
  then show ?thesis using good_quiet [OF assms(19) _ q] assms(22,23) by blast
qed

lemma step_EnqFree:
  assumes "cq_universe T M" "cq_inv T M L s" "Pc s t = EnqFree l N Old"
  shows "good_step T M L t s"
proof -
  have o: "old_tail s M L (GetPtr Old)" "\<not> l \<longrightarrow> fresh_ok s t N" using inv_parts(9) [OF assms(2), of t] assms(3) by simp_all
  have n: "pown (EnqFree l N Old :: 'a qpc) \<noteq> Some (GetPtr Old)" using pown_other [OF o(1), of t] assms(3) by simp
  show ?thesis
    by (rule step_free [OF assms, where d = "enq_go l N" and p = "GetPtr Old"])
      (use n o assms(3) in \<open>auto simp: enq_go_def cq_step_def\<close>)
qed

lemma size_range:
  assumes "cq_universe T M" "cq_inv T M L s"
  shows "- (2 ^ 30) < sint (SizeW s) \<and> sint (SizeW s) < 2 ^ 30"
proof -
  note i = inv_parts [OF assms(2)]
  have "distinct L" "set L \<subseteq> M" using i(2) by (auto simp: inv_list_def)
  then have "length L \<le> card M" using assms(1) by (metis card_mono cq_universe_def distinct_card)
  moreover have "tot failing T s \<le> 1 * card T"
    using assms(1) by (intro tot_le weight_bounds(4)) (simp add: cq_universe_def)
  ultimately show ?thesis using i(7) assms(1) by (auto simp: inv_size_def cq_universe_def)
qed

lemma sint_step:
  fixes w :: u32
  shows "sint w < 2 ^ 30 \<Longrightarrow> sint (w + 1) = sint w + 1" "- (2 ^ 30) < sint w \<Longrightarrow> sint (w - 1) = sint w - 1"
  using sint_greater_eq [of w] sint_lt [of w]
  by (simp_all add: sint_word_ariths signed_take_bit_int_eq_self)

text \<open>The counter changes.\<close>

lemma step_count:
  assumes "cq_universe T M" "cq_inv T M L s" "Pc s t = c" "c \<noteq> QIdle" "pown c = None" "pown d = None" "takes c = None" "takes d = None"
    and "holds c = None" "holds d = None" "based c = None" "based d = None" "flagging c = None" "flagging d = None" "freeing c = None"
    and "freeing d = None" "cq_step t s = Inr (at t d (s\<lparr>SizeW := k\<rparr>))" "pc_ok s M L t d"
    and "sint k + int (linked d) + int (reserved d) + int (failing d) = sint (SizeW s) + int (linked c) + int (reserved c) + int (failing c)"
    and "0 \<le> sint k \<or> sint (SizeW s) + int (failing c) \<le> sint k + int (failing d)"
    and "\<And>N Old X. d \<noteq> EnqLink N Old X" "\<And>N Old. d \<noteq> EnqSwing N Old" "\<And>H v. d \<noteq> DeqMark H v"
  shows "good_step T M L t s"
proof -
  let ?s = "at t d (s\<lparr>SizeW := k\<rparr>)"
  note i = inv_parts [OF assms(2)]
  have d: "dom (Nodes s) = M" "FreeSet s \<subseteq> M" using i(1) assms(3) by (auto simp: inv_mem_def)
  have q: "quiet t s ?s d" using assms(3,5,6) by (auto simp: quiet_def)
  have "cq_inv T M L ?s"
  proof (rule cold_inv [OF assms(1,2) in_T [OF assms(2)] q])
    show "cold_frame M L s ?s (Pc s t) d"
      using flag_01 [OF assms(2)] assms(3-16,19,20) by (auto simp: frame_defs)
  qed (use assms d in \<open>auto simp: mine_def\<close>)
  then show ?thesis using good_quiet [OF assms(17) _ q] assms(22,23) by blast
qed

lemma step_EnqSize:
  assumes "cq_universe T M" "cq_inv T M L s" "Pc s t = EnqSize"
  shows "good_step T M L t s"
  by (rule step_count [OF assms, where d = QIdle and k = "SizeW s + 1"])
    (use assms(3) size_range [OF assms(1,2)] sint_step [of "SizeW s"] in \<open>auto simp: cq_step_def\<close>)

lemma step_DeqSize:
  assumes "cq_universe T M" "cq_inv T M L s" "Pc s t = DeqSize"
  shows "good_step T M L t s"
  by (rule step_count [OF assms, where d = "if sint (SizeW s) \<le> 0 then DeqUndo else DeqTag" and k = "SizeW s - 1"])
    (use assms(3) size_range [OF assms(1,2)] sint_step [of "SizeW s"] in \<open>auto simp: cq_step_def\<close>)

lemma step_DeqUndo:
  assumes "cq_universe T M" "cq_inv T M L s" "Pc s t = DeqUndo"
  shows "good_step T M L t s"
  by (rule step_count [OF assms, where d = "QDone None" and k = "SizeW s + 1"])
    (use assms(3) size_range [OF assms(1,2)] sint_step [of "SizeW s"] in \<open>auto simp: cq_step_def\<close>)

subsection \<open>Steps of Dequeue\<close>

lemma step_DeqTag:
  assumes "cq_universe T M" "cq_inv T M L s" "Pc s t = DeqTag"
  shows "good_step T M L t s"
proof (rule good_calm [OF assms])
  show "cq_step t s = Inr (at t (DeqHead (SetTag (TagW s + 1) 0)) (s\<lparr>TagW := TagW s + 1\<rparr>))"
    using assms(3) by (simp add: cq_step_def next_tag_def)
qed (auto simp: calm_def)

lemma step_DeqHead:
  assumes "cq_universe T M" "cq_inv T M L s" "Pc s t = DeqHead Y"
  shows "good_step T M L t s"
proof (rule good_calm [OF assms])
  show "cq_step t s = Inr (at t (DeqTail Y (HeadW s)) s)" using assms(3) by (simp add: cq_step_def)
qed (use tail_facts(6) [OF assms(1,2)] in \<open>auto simp: calm_def\<close>)

lemma step_DeqTail:
  assumes "cq_universe T M" "cq_inv T M L s" "Pc s t = DeqTail Y H"
  shows "good_step T M L t s"
proof (rule good_calm [OF assms])
  show "cq_step t s = Inr (at t (DeqNext Y H (TailW s)) s)" using assms(3) by (simp add: cq_step_def)
qed (use inv_parts(9) [OF assms(2), of t] assms(3) in \<open>auto simp: calm_def\<close>)

lemma step_DeqNext:
  assumes "cq_universe T M" "cq_inv T M L s" "Pc s t = DeqNext Y H Tl"
  shows "good_step T M L t s"
proof -
  have o: "old_head s M L (GetPtr H)" "head_p s = GetPtr H \<longrightarrow> GetPtr Tl \<noteq> GetPtr H \<longrightarrow> tail_p s \<noteq> GetPtr H"
    using inv_parts(9) [OF assms(2), of t] assms(3) by simp_all
  have m: "GetPtr H \<in> M" using o by (simp add: old_head_def)
  have r: "reserved (Pc s t) = 1" using assms(3) by simp
  show ?thesis
  proof (rule good_calm [OF assms])
    show "cq_step t s = Inr (at t (DeqCheck Y H Tl (SetPtr (QNext (node s (GetPtr H))) Y)) s)"
      using assms(3) store_upd [OF assms(1,2) m] by (simp add: cq_step_def)
    show "pc_ok s M L t (DeqCheck Y H Tl (SetPtr (QNext (node s (GetPtr H))) Y))"
      using o reserved_second [OF assms(1,2) r] by (auto simp del: GetPtr_SetPtr)
  qed (auto simp: calm_def)
qed

lemma step_DeqCheck:
  assumes "cq_universe T M" "cq_inv T M L s" "Pc s t = DeqCheck Y H Tl X"
  shows "good_step T M L t s"
proof -
  let ?d = "if H = HeadW s then (if GetPtr H = GetPtr Tl then DeqHelp Y H Tl X else DeqData Y H X) else DeqHead Y"
  have o: "pc_ok s M L t (DeqCheck Y H Tl X)" using inv_parts(9) [OF assms(2), of t] assms(3) by simp
  show ?thesis
  proof (rule good_calm [OF assms])
    show "cq_step t s = Inr (at t ?d s)" using assms(3) by (simp add: cq_step_def)
    show "pc_ok s M L t ?d" using o by (cases "H = HeadW s"; cases "GetPtr H = GetPtr Tl") simp_all
    show "calm (DeqCheck Y H Tl X) ?d" by (simp add: calm_def)
  qed (simp_all split: if_splits)
qed

lemma step_DeqData:
  assumes "cq_universe T M" "cq_inv T M L s" "Pc s t = DeqData Y H X"
  shows "good_step T M L t s"
proof -
  have o: "pc_ok s M L t (DeqData Y H X)" using inv_parts(9) [OF assms(2), of t] assms(3) by simp
  have "nx s (GetPtr H) = GetPtr X" "GetPtr X \<noteq> 0" "GetPtr H \<in> M" using o by (auto simp: old_head_def)
  then have m: "GetPtr X \<in> M" using inv_parts(1) [OF assms(2)] by (auto simp: inv_mem_def nx_def dest!: bspec [of _ _ "GetPtr H"])
  show ?thesis
  proof (rule good_calm [OF assms])
    show "cq_step t s = Inr (at t (DeqCas Y H X (QData (node s (GetPtr X)))) s)"
      using assms(3) store_upd [OF assms(1,2) m] by (simp add: cq_step_def)
  qed (use o in \<open>auto simp: calm_def\<close>)
qed

lemma step_DeqMark:
  assumes "cq_universe T M" "cq_inv T M L s" "Pc s t = DeqMark H v"
  shows "good_step T M L t s"
proof -
  let ?p = "GetPtr H"
  note i = inv_parts [OF assms(2)]
  have m: "?p \<in> M" "?p \<notin> set L" "DeleteFlag (node s ?p) = 0"
    using mine_place [OF assms(1) i(1,3), of ?p t] assms(3) by (auto simp: mine_def)
  show ?thesis
    by (rule step_field [OF assms _ m(1), where d = "DeqDec H v" and f = "\<lambda>n. n\<lparr>DeleteFlag := 1\<rparr>", OF _ _ _ refl])
      (use assms(3) store_upd [OF assms(1,2) m(1)] i(9) [of t] flag_01 [OF assms(2)] m in
        \<open>auto simp: cq_step_def frame_defs node_upd\<close>)
qed

lemma step_DeqDec:
  assumes "cq_universe T M" "cq_inv T M L s" "Pc s t = DeqDec H v"
  shows "good_step T M L t s"
proof -
  let ?p = "GetPtr H"
  let ?d = "if RefCnt (node s ?p) - 1 = 0 then DeqFlag H v else QDone (Some v)"
  have o: "old_head s M L ?p" "?p \<notin> set L" using inv_parts(9) [OF assms(2), of t] assms(3) by simp_all
  have m: "?p \<in> M" using o by (simp add: old_head_def)
  show ?thesis
  proof (rule step_field [OF assms _ m, where d = ?d and f = "\<lambda>n. n\<lparr>RefCnt := RefCnt n - 1\<rparr>", OF _ _ _ refl])
    show "cq_step t s = Inr (at t ?d (s\<lparr>Nodes := (Nodes s)(?p \<mapsto> (node s ?p)\<lparr>RefCnt := RefCnt (node s ?p) - 1\<rparr>)\<rparr>))"
      using assms(3) store_upd [OF assms(1,2) m] by (simp add: cq_step_def)
    show "cold_frame M L s (at t ?d (s\<lparr>Nodes := (Nodes s)(?p \<mapsto> (node s ?p)\<lparr>RefCnt := RefCnt (node s ?p) - 1\<rparr>)\<rparr>)) (DeqDec H v) ?d"
      using flag_01 [OF assms(2)] by (auto simp: frame_defs node_upd)
  qed (use o in auto)
qed

lemma step_DeqFlag:
  assumes "cq_universe T M" "cq_inv T M L s" "Pc s t = DeqFlag H v"
  shows "good_step T M L t s"
proof -
  let ?p = "GetPtr H"
  let ?d = "if DeleteFlag (node s ?p) = 1 then DeqFree H v else QDone (Some v)"
  have o: "old_head s M L ?p" "?p \<notin> set L" using inv_parts(9) [OF assms(2), of t] assms(3) by simp_all
  have m: "?p \<in> M" using o by (simp add: old_head_def)
  show ?thesis
  proof (rule step_field [OF assms _ m, where d = ?d and f = "\<lambda>n. n\<lparr>DeleteFlag := 0\<rparr>", OF _ _ _ refl])
    show "cq_step t s = Inr (at t ?d (s\<lparr>Nodes := (Nodes s)(?p \<mapsto> (node s ?p)\<lparr>DeleteFlag := 0\<rparr>)\<rparr>))"
      using assms(3) store_upd [OF assms(1,2) m] by (simp add: cq_step_def)
    show "cold_frame M L s (at t ?d (s\<lparr>Nodes := (Nodes s)(?p \<mapsto> (node s ?p)\<lparr>DeleteFlag := 0\<rparr>)\<rparr>)) (DeqFlag H v) ?d"
      using flag_01 [OF assms(2)] by (auto simp: frame_defs node_upd)
  qed (use o m in auto)
qed

lemma step_DeqFree:
  assumes "cq_universe T M" "cq_inv T M L s" "Pc s t = DeqFree H v"
  shows "good_step T M L t s"
  by (rule step_free [OF assms, where d = "QDone (Some v)" and p = "GetPtr H"]) (use assms(3) in \<open>auto simp: cq_step_def\<close>)


subsection \<open>The tail moves\<close>

lemma priv_upd: "Pc s' = (Pc s)(t := c) \<Longrightarrow> pown c = pown (Pc s t) \<Longrightarrow> priv s' = priv s"
  unfolding priv_def by (metis fun_upd_apply)

lemma priv_drop:
  assumes "Pc s' = (Pc s)(t := c)" "pown c = None" "pown (Pc s t) = Some p" "\<And>u. u \<noteq> t \<Longrightarrow> pown (Pc s u) \<noteq> Some p"
  shows "priv s' = priv s - {p}"
proof -
  have "pown (Pc s' u) = Some q \<longleftrightarrow> pown (Pc s u) = Some q \<and> q \<noteq> p" for u q using assms by (cases "u = t") auto
  then show ?thesis by (auto simp: priv_def)
qed

lemma privI: "pown (Pc s t) = Some p \<Longrightarrow> p \<in> priv s"
  by (auto simp: priv_def)

lemma qpath_last: "qpath f L \<Longrightarrow> f (last L) = 0"
  by (induction f L rule: qpath.induct) auto

lemma qpath_cong: "(\<And>p. p \<in> set L \<Longrightarrow> g p = f p) \<Longrightarrow> qpath g L = qpath f L"
  by (induction f L rule: qpath.induct) auto

lemma calm_frame:
  assumes "cq_inv T M L s" "calm (Pc s t) d" "Pc s' = (Pc s)(t := d)" "Nodes s' = Nodes s" "FreeSet s' = FreeSet s" "SizeW s' = SizeW s"
    and "\<And>N Old X. d \<noteq> EnqLink N Old X"
  shows "frame t M s L s' L d"
proof -
  have n: "node s' = node s" "nx s' = nx s" using assms(4) by (auto simp: fun_eq_iff nx_def node_def)
  have m: "mine d = mine (Pc s t)" "\<And>p. w_ref p d = w_ref p (Pc s t)" using assms(2) by (simp_all add: calm_def mine_def w_ref_def)
  have i: "dom (Nodes s) = M" "FreeSet s \<subseteq> M" "mine (Pc s t) \<subseteq> M" "\<forall>p \<in> M. QNext (node s p) = 0 \<or> nx s p \<in> M"
    "\<forall>p \<in> M. DeleteFlag (node s p) = 0 \<or> DeleteFlag (node s p) = 1"
    using inv_parts(1,3) [OF assms(1)] by (simp_all add: inv_mem_def inv_place_def)
  show ?thesis
    unfolding frame_def node_place_def place_def size_place_def n m assms(3-6)
    using i assms(2,7) by (auto simp: calm_def)
qed

lemma step_tail:
  assumes "cq_universe T M" "cq_inv T M L s" "Pc s t = c" "c \<noteq> QIdle" "calm c d" "cq_step t s = Inr (at t d (CAS_tail X Old s))"
    and "GetPtr X \<noteq> 0" "nx s (GetPtr Old) = GetPtr X"
    and "d = DeqHead Y \<or> d = EnqDec l N Old \<and> pc_ok s M L t d"
  shows "good_step T M L t s"
proof (cases "TailW s = Old")
  case False
  then have "cq_step t s = Inr (at t d s)" using assms(6) by (simp add: CAS_tail_def)
  then show ?thesis
    by (rule good_calm [OF assms(1-4) _ assms(5)]) (use assms(9) in auto)
next
  case True
  let ?s = "at t d (s\<lparr>TailW := X\<rparr>)"
  note i = inv_parts [OF assms(2)]
  have step: "cq_step t s = Inr ?s" using assms(6) True by (simp add: CAS_tail_def)
  have nl: "d \<noteq> EnqLink N' Old' X'" for N' Old' X' using assms(9) by auto
  have fr: "frame t M s L ?s L d" by (rule calm_frame [OF assms(2)]) (use assms(3,5) nl in auto)
  have pv: "priv ?s = priv s" using assms(3,5) by (auto simp: priv_def calm_def)
  have n: "nx ?s = nx s" "node ?s = node s" by (auto simp: nx_def fun_eq_iff)
  have "nx s (last L) = 0" using i(2) qpath_last by (auto simp: inv_list_def)
  then have tl: "tail_p s \<noteq> last L" "GetPtr X = last L" using i(2) assms(7,8) True by (auto simp: inv_list_def)
  have L: "L \<noteq> []" using i(2) by (simp add: inv_list_def)
  have ev: "evolves t M s L ?s L" unfolding evolves_def n pv using tl by auto
  have l: "inv_list M L ?s" using i(2) tl L pv n by (simp add: inv_list_def)
  have "pc_ok ?s M L t d"
    using assms(9) old_tail_stable [OF ev] by (auto simp: fresh_ok_def)
  from frame_inv [OF assms(1,2) in_T [OF assms(2)] fr ev l this] assms(3,4) have "cq_inv T M L ?s" by simp
  moreover have "q_effect t s ?s (vals L s) (vals L ?s)" using assms(9) by (auto simp: q_effect_def vals_def)
  ultimately show ?thesis using step unfolding good_step_def by blast
qed

lemma step_EnqHelp:
  assumes "cq_universe T M" "cq_inv T M L s" "Pc s t = EnqHelp N Old X"
  shows "good_step T M L t s"
proof -
  have o: "pc_ok s M L t (EnqHelp N Old X)" using inv_parts(9) [OF assms(2), of t] assms(3) by simp
  then have "GetPtr X = X" by (auto simp: nx_def)
  show ?thesis
    by (rule step_tail [OF assms, where d = "EnqDec False N Old" and Old = Old and X = X and N = N and l = False])
      (use o assms(3) \<open>GetPtr X = X\<close> in \<open>auto simp: calm_def cq_step_def\<close>)
qed

lemma step_EnqSwing:
  assumes "cq_universe T M" "cq_inv T M L s" "Pc s t = EnqSwing N Old"
  shows "good_step T M L t s"
  by (rule step_tail [OF assms, where d = "EnqDec True N Old" and Old = Old and X = N and N = N and l = True])
    (use inv_parts(9) [OF assms(2), of t] assms(3) in \<open>auto simp: calm_def cq_step_def\<close>)

lemma step_DeqHelp:
  assumes "cq_universe T M" "cq_inv T M L s" "Pc s t = DeqHelp Y H Tl X"
  shows "good_step T M L t s"
  by (rule step_tail [OF assms, where d = "DeqHead Y" and Old = Tl and X = X])
    (use inv_parts(9) [OF assms(2), of t] assms(3) in \<open>auto simp: calm_def cq_step_def\<close>)

subsection \<open>The new node\<close>

lemma step_private:
  assumes "cq_universe T M" "cq_inv T M L s" "Pc s t = c" "calm c d" "pown c = Some p"
    and "\<And>n. RefCnt (f n) = RefCnt n \<and> DeleteFlag (f n) = DeleteFlag n \<and> (QNext (f n) = QNext n \<or> QNext (f n) = 0)"
    and "s' = at t d (s\<lparr>Nodes := (Nodes s)(p \<mapsto> f (node s p))\<rparr>)" "cq_step t s = Inr s'" "pc_ok s' M L t d"
    and "\<And>N Old X. d \<noteq> EnqLink N Old X" "\<And>N Old. d \<noteq> EnqSwing N Old" "\<And>H v. d \<noteq> DeqMark H v"
  shows "good_step T M L t s"
proof -
  note i = inv_parts [OF assms(2)]
  have t: "t \<in> T" using assms(3,5) by (intro in_T [OF assms(2)]) auto
  have pm: "p \<in> mine (Pc s t)" using assms(3,5) by (simp add: mine_def)
  have p: "p \<in> M" "p \<notin> set L" "\<And>u. u \<noteq> t \<Longrightarrow> p \<notin> mine (Pc s u)" using mine_place [OF assms(1) i(1,3) pm] by auto
  have pp: "p \<in> priv s" using assms(3,5) by (auto simp: priv_def)
  have n: "node s' q = (if q = p then f (node s p) else node s q)" for q using assms(7) by (simp add: node_upd)
  have x: "q \<noteq> p \<Longrightarrow> nx s' q = nx s q" for q by (simp add: nx_def n)
  have pv: "priv s' = priv s" using assms(3,4,7) by (auto simp: priv_def calm_def)
  have ev: "evolves t M s L s' L"
    using p pp pv n x assms(7) by (auto simp: evolves_def mine_def)
  have l: "inv_list M L s'"
    using i(2) p(2) pp pv x n qpath_cong [of L "nx s'" "nx s"] assms(7) by (auto simp: inv_list_def) (metis x)+
  have m: "mine d = mine c" "\<And>p. w_ref p d = w_ref p c" using assms(4) by (simp_all add: calm_def mine_def w_ref_def)
  have j: "dom (Nodes s) = M" "FreeSet s \<subseteq> M" "mine c \<subseteq> M" "\<forall>p \<in> M. QNext (node s p) = 0 \<or> nx s p \<in> M"
    using i(1) assms(3) by (auto simp: inv_mem_def)
  have v: "\<forall>q. RefCnt (node s' q) = RefCnt (node s q) \<and> DeleteFlag (node s' q) = DeleteFlag (node s q)" using assms(6) n by simp
  have "QNext (node s' p) = 0 \<or> nx s' p \<in> M"
    using assms(6) [of "node s p"] j(4) p(1) n by (cases "QNext (f (node s p)) = 0") (auto simp: nx_def)
  then have w: "\<forall>q \<in> M. QNext (node s' q) = 0 \<or> nx s' q \<in> M" using j(4) n x by metis
  have fr: "frame t M s L s' L d"
    unfolding frame_def node_place_def place_def size_place_def m
    using assms(3,4,7,10) j v w p(1) flag_01 [OF assms(2)] m by (auto simp: calm_def)
  have "cq_inv T M L s'" using frame_inv [OF assms(1,2) t fr ev l assms(9)] .
  moreover have "p \<notin> set (tl L)" using p(2) by (cases L) auto
  then have "vals L s' = vals L s" using n by (auto simp: vals_def)
  moreover have "Pc s' t = d" using assms(7) by simp
  ultimately show ?thesis using assms(8,11,12) q_effect_none unfolding good_step_def by metis
qed

lemma step_EnqData:
  assumes "cq_universe T M" "cq_inv T M L s" "Pc s t = EnqData N"
  shows "good_step T M L t s"
proof -
  have m: "GetPtr N \<in> M" using mine_M [OF assms(2), of _ t] assms(3) by (simp add: mine_def)
  show ?thesis
    by (rule step_private [OF assms, where d = "EnqNext N" and p = "GetPtr N" and f = "\<lambda>n. n\<lparr>QData := Arg s t\<rparr>", OF _ _ _ refl])
      (use assms(3) store_upd [OF assms(1,2) m] in \<open>auto simp: cq_step_def calm_def node_upd\<close>)
qed

lemma step_EnqNext:
  assumes "cq_universe T M" "cq_inv T M L s" "Pc s t = EnqNext N"
  shows "good_step T M L t s"
proof -
  have m: "GetPtr N \<in> M" using mine_M [OF assms(2), of _ t] assms(3) by (simp add: mine_def)
  show ?thesis
    by (rule step_private [OF assms, where d = "EnqRef N" and p = "GetPtr N" and f = "\<lambda>n. n\<lparr>QNext := 0\<rparr>", OF _ _ _ refl])
      (use assms(3) store_upd [OF assms(1,2) m] inv_parts(9) [OF assms(2), of t] in \<open>auto simp: cq_step_def calm_def node_upd fresh_ok_def\<close>)
qed


subsection \<open>A node enters and a node leaves\<close>

lemma qpath_snoc: "qpath f L \<Longrightarrow> L \<noteq> [] \<Longrightarrow> distinct L \<Longrightarrow> p \<notin> set L \<Longrightarrow> p \<noteq> 0 \<Longrightarrow> g (last L) = p \<Longrightarrow> g p = 0 \<Longrightarrow>
    (\<And>q. q \<noteq> last L \<Longrightarrow> g q = f q) \<Longrightarrow> qpath g (L @ [p])"
proof (induction f L rule: qpath.induct)
  case (3 f a b as)
  then have "a \<noteq> last (b # as)" by auto
  with 3 show ?case by auto
qed auto

lemma step_EnqLink:
  assumes "cq_universe T M" "cq_inv T M L s" "Pc s t = EnqLink N Old X"
  shows "good_step T M L t s"
proof -
  let ?o = "GetPtr Old" and ?n = "GetPtr N"
  note i = inv_parts [OF assms(2)]
  have o: "fresh_ok s t N" "old_tail s M L ?o" "X = 0" using i(9) [of t] assms(3) by simp_all
  have om: "?o \<in> M" "?o \<notin> priv s" using o(2) by (simp_all add: old_tail_def)
  have nm: "?n \<in> mine (Pc s t)" "?n \<in> priv s" using assms(3) privI [of s t] by (auto simp: mine_def)
  have n: "?n \<in> M" "?n \<notin> set L" "?n \<notin> FreeSet s" "DeleteFlag (node s ?n) = 0" "\<And>u. u \<noteq> t \<Longrightarrow> ?n \<notin> mine (Pc s u)"
    using mine_place [OF assms(1) i(1,3) nm(1)] by auto
  have no: "?n \<noteq> ?o" "?n \<noteq> 0" using nm om n(1) assms(1) by (auto simp: cq_universe_def)
  have t: "t \<in> T" using assms(3) by (intro in_T [OF assms(2)]) auto
  show ?thesis
  proof (cases "QNext (node s ?o) = 0")
    case False
    show ?thesis
      by (rule good_calm [OF assms, where c = "EnqDec False N Old" and s' = "at t (EnqDec False N Old) s"])
        (use False o assms(3) load_ok [OF assms(1) i(1) om(1)] in \<open>auto simp: cq_step_def CAS_Next_def calm_def\<close>)
  next
    case True
    let ?d = "EnqSwing N Old"
    let ?s = "at t ?d (s\<lparr>Nodes := (Nodes s)(?o \<mapsto> (node s ?o)\<lparr>QNext := N\<rparr>)\<rparr>)"
    let ?L = "L @ [?n]"
    have step: "cq_step t s = Inr ?s"
      using True o(3) assms(3) store_upd [OF assms(1,2) om(1)] by (simp add: cq_step_def CAS_Next_def)
    have "?o \<notin> FreeSet s" using i(6) assms(3) unfolding inv_link_def by blast
    then have ol: "?o = last L" "tail_p s = ?o"
      using i(2) o(2) om True by (auto simp: inv_list_def old_tail_def nx_def)
    have nd: "node ?s q = (if q = ?o then (node s ?o)\<lparr>QNext := N\<rparr> else node s q)" for q by (simp add: node_upd)
    have x: "nx ?s q = (if q = ?o then ?n else nx s q)" for q unfolding nx_def nd by simp
    have xn: "nx s ?n = 0" using o(1) by (simp add: fresh_ok_def nx_def)
    have pv: "priv ?s = priv s - {?n}"
      by (rule priv_drop [where t = t and c = ?d]) (use assms(3) n(5) in \<open>auto simp: mine_def\<close>)
    have L: "L \<noteq> []" "distinct L" "set L \<subseteq> M" "qpath (nx s) L" "head_p s = hd L" using i(2) by (simp_all add: inv_list_def)
    have "qpath (nx ?s) ?L" by (rule qpath_snoc [OF L(4,1,2) n(2) no(2)]) (use x xn no ol in auto)
    moreover have "\<forall>p \<in> M. nx ?s p = 0 \<longrightarrow> p = last ?L \<or> p \<in> priv ?s \<or> p \<in> FreeSet ?s"
      using i(2) x pv no ol by (auto simp: inv_list_def)
    ultimately have l: "inv_list M ?L ?s"
      using L n(1,2) ol x unfolding inv_list_def by (auto simp: hd_append)
    have ev: "evolves t M s L ?s ?L"
      using nm(2) L(1) True om no pv nd x ol n(5) by (auto simp: evolves_def nx_def priv_def mine_def)
    have j: "dom (Nodes s) = M" "FreeSet s \<subseteq> M" "\<forall>p \<in> M. QNext (node s p) = 0 \<or> nx s p \<in> M"
      using i(1) by (auto simp: inv_mem_def)
    have w: "\<forall>q \<in> M. QNext (node ?s q) = 0 \<or> nx ?s q \<in> M" using j(3) x nd n(1) by auto
    have fr: "frame t M s L ?s ?L ?d"
      unfolding frame_def
    proof (intro conjI ballI)
      fix p assume "p \<in> M"
      show "node_place ?L ?s ?d p = node_place L s (Pc s t) p"
        using n(2) assms(3) by (auto simp: node_place_def place_def mine_def node_upd)
      show "DeleteFlag (node ?s p) = 0 \<or> DeleteFlag (node ?s p) = 1" using flag_01 [OF assms(2)] \<open>p \<in> M\<close> by (auto simp: node_upd)
      show "RefCnt (node ?s p) + of_nat (of_bool (p \<in> set L) + w_ref p (Pc s t)) = RefCnt (node s p) + of_nat (of_bool (p \<in> set ?L) + w_ref p ?d)"
        using n(2) assms(3) by (auto simp: w_ref_def node_upd)
      show "DeleteFlag (node ?s p) = 1 \<longrightarrow> 0 < w_ref p ?d \<or> flagging ?d = Some p \<or> RefCnt (node ?s p) \<noteq> 0 \<or>
          DeleteFlag (node s p) = 1 \<and> w_ref p (Pc s t) = 0 \<and> flagging (Pc s t) \<noteq> Some p"
        using n(4) assms(3) by (auto simp: w_ref_def node_upd)
    qed (use j w om assms(3) in \<open>auto simp: mine_def size_place_def\<close>)
    have "pc_ok ?s M ?L t ?d" using om no x pv by (simp add: old_tail_def)
    from frame_inv [OF assms(1,2) t fr ev l this] have "cq_inv T M ?L ?s" .
    moreover have "q_effect t s ?s (vals L s) (vals ?L ?s)"
      using assms(3) L(1) no o(1) by (auto simp: q_effect_def vals_def fresh_ok_def node_upd)
    ultimately show ?thesis using step unfolding good_step_def by blast
  qed
qed

lemma step_DeqCas:
  assumes "cq_universe T M" "cq_inv T M L s" "Pc s t = DeqCas Y H X v"
  shows "good_step T M L t s"
proof (cases "HeadW s = H")
  case False
  show ?thesis
    by (rule good_calm [OF assms, where c = "DeqHead Y" and s' = "at t (DeqHead Y) s"])
      (use False assms(3) in \<open>auto simp: cq_step_def CAS_head_def calm_def\<close>)
next
  case True
  let ?h = "GetPtr H" and ?x = "GetPtr X" and ?d = "DeqMark H v"
  let ?s = "at t ?d (s\<lparr>HeadW := X\<rparr>)"
  note i = inv_parts [OF assms(2)]
  have o: "old_head s M L ?h" "tail_p s \<noteq> ?h" "?x \<noteq> 0" "nx s ?h = ?x" "v = QData (node s ?x)"
    using i(9) [of t] assms(3) True by auto
  have step: "cq_step t s = Inr ?s" using True assms(3) by (simp add: cq_step_def CAS_head_def)
  have t: "t \<in> T" using assms(3) by (intro in_T [OF assms(2)]) auto
  have "nx s (head_p s) = ?x" using o(4) True by simp
  from second_node [OF i(2) this o(3)] True obtain as where L: "L = ?h # ?x # as" by auto
  have hm: "?h \<in> M" "?h \<notin> priv s" using o(1) by (simp_all add: old_head_def)
  have hp: "?h \<notin> FreeSet s" "DeleteFlag (node s ?h) = 0"
    using i(3) hm(1) L by (auto simp: inv_place_def place_def dest!: bspec [of _ _ ?h] split: if_splits)
  have pv: "priv ?s = priv s" by (rule priv_upd [where t = t and c = ?d]) (use assms(3) in auto)
  have n: "nx ?s = nx s" "node ?s = node s" by (auto simp: nx_def fun_eq_iff)
  have ev: "evolves t M s L ?s (?x # as)" unfolding evolves_def n pv using L by auto
  have l: "inv_list M (?x # as) ?s" using i(2) o(2) L pv n by (auto simp: inv_list_def)
  have j: "dom (Nodes s) = M" "FreeSet s \<subseteq> M" "\<forall>p \<in> M. QNext (node s p) = 0 \<or> nx s p \<in> M"
    using i(1) by (auto simp: inv_mem_def)
  have dl: "distinct L" using i(2) by (simp add: inv_list_def)
  have fr: "frame t M s L ?s (?x # as) ?d"
    unfolding frame_def n
  proof (intro conjI ballI)
    fix p assume "p \<in> M"
    show "node_place (?x # as) ?s ?d p = node_place L s (Pc s t) p"
      using dl L assms(3) by (auto simp: node_place_def place_def mine_def)
    show "DeleteFlag (node s p) = 0 \<or> DeleteFlag (node s p) = 1" using flag_01 [OF assms(2)] \<open>p \<in> M\<close> by auto
    show "RefCnt (node s p) + of_nat (of_bool (p \<in> set L) + w_ref p (Pc s t)) = RefCnt (node s p) + of_nat (of_bool (p \<in> set (?x # as)) + w_ref p ?d)"
      using dl L assms(3) by (auto simp: w_ref_def)
    show "DeleteFlag (node s p) = 1 \<longrightarrow> 0 < w_ref p ?d \<or> flagging ?d = Some p \<or> RefCnt (node s p) \<noteq> 0 \<or>
        DeleteFlag (node s p) = 1 \<and> w_ref p (Pc s t) = 0 \<and> flagging (Pc s t) \<noteq> Some p"
      using hp assms(3) by (auto simp: w_ref_def)
  qed (use j hm assms(3) L in \<open>auto simp: mine_def size_place_def\<close>)
  have "pc_ok ?s M (?x # as) t ?d" using hm pv dl L by (simp add: old_head_def)
  from frame_inv [OF assms(1,2) t fr ev l this] have "cq_inv T M (?x # as) ?s" .
  moreover have "q_effect t s ?s (vals L s) (vals (?x # as) ?s)"
    using assms(3) L o(5) by (auto simp: q_effect_def vals_def)
  ultimately show ?thesis using step unfolding good_step_def by blast
qed

lemma step_good:
  assumes "cq_universe T M" "cq_inv T M L s"
  shows "good_step T M L t s"
proof -
  have idle: "good_step T M L t s" if "cq_step t s = Inr s" "\<And>N Old. Pc s t \<noteq> EnqSwing N Old" "\<And>H v. Pc s t \<noteq> DeqMark H v"
    using that assms(2) q_effect_none [OF refl] unfolding good_step_def by blast
  show ?thesis
  proof (cases "Pc s t")
    case QIdle
    then show ?thesis by (intro idle) (simp_all add: cq_step_def)
  next
    case (EnqData N)
    then show ?thesis by (rule step_EnqData [OF assms])
  next
    case (EnqNext N)
    then show ?thesis by (rule step_EnqNext [OF assms])
  next
    case (EnqRef N)
    then show ?thesis by (rule step_EnqRef [OF assms])
  next
    case (EnqTag N)
    then show ?thesis by (rule step_EnqTag [OF assms])
  next
    case (EnqRead N)
    then show ?thesis by (rule step_EnqRead [OF assms])
  next
    case (EnqInc N Old)
    then show ?thesis by (rule step_EnqInc [OF assms])
  next
    case (EnqTail N Old)
    then show ?thesis by (rule step_EnqTail [OF assms])
  next
    case (EnqLoad N Old Tl)
    then show ?thesis by (rule step_EnqLoad [OF assms])
  next
    case (EnqCheck N Old X)
    then show ?thesis by (rule step_EnqCheck [OF assms])
  next
    case (EnqLink N Old X)
    then show ?thesis by (rule step_EnqLink [OF assms])
  next
    case (EnqHelp N Old X)
    then show ?thesis by (rule step_EnqHelp [OF assms])
  next
    case (EnqSwing N Old)
    then show ?thesis by (rule step_EnqSwing [OF assms])
  next
    case (EnqDec l N Old)
    then show ?thesis by (rule step_EnqDec [OF assms])
  next
    case (EnqFlag l N Old)
    then show ?thesis by (rule step_EnqFlag [OF assms])
  next
    case (EnqFree l N Old)
    then show ?thesis by (rule step_EnqFree [OF assms])
  next
    case EnqSize
    then show ?thesis by (rule step_EnqSize [OF assms])
  next
    case DeqSize
    then show ?thesis by (rule step_DeqSize [OF assms])
  next
    case DeqUndo
    then show ?thesis by (rule step_DeqUndo [OF assms])
  next
    case DeqTag
    then show ?thesis by (rule step_DeqTag [OF assms])
  next
    case (DeqHead Y)
    then show ?thesis by (rule step_DeqHead [OF assms])
  next
    case (DeqTail Y H)
    then show ?thesis by (rule step_DeqTail [OF assms])
  next
    case (DeqNext Y H Tl)
    then show ?thesis by (rule step_DeqNext [OF assms])
  next
    case (DeqCheck Y H Tl X)
    then show ?thesis by (rule step_DeqCheck [OF assms])
  next
    case (DeqHelp Y H Tl X)
    then show ?thesis by (rule step_DeqHelp [OF assms])
  next
    case (DeqData Y H X)
    then show ?thesis by (rule step_DeqData [OF assms])
  next
    case (DeqCas Y H X v)
    then show ?thesis by (rule step_DeqCas [OF assms])
  next
    case (DeqMark H v)
    then show ?thesis by (rule step_DeqMark [OF assms])
  next
    case (DeqDec H v)
    then show ?thesis by (rule step_DeqDec [OF assms])
  next
    case (DeqFlag H v)
    then show ?thesis by (rule step_DeqFlag [OF assms])
  next
    case (DeqFree H v)
    then show ?thesis by (rule step_DeqFree [OF assms])
  next
    case (QDone r)
    then show ?thesis by (intro idle) (simp_all add: cq_step_def)
  qed
qed


subsection \<open>Calls\<close>

lemma addr_id: "cq_universe T M \<Longrightarrow> p \<in> M \<Longrightarrow> GetPtr p = p" "cq_universe T M \<Longrightarrow> p \<in> M \<Longrightarrow> GetPtr (SetPtr p d) = p"
  by (simp_all add: cq_universe_def is_addr_def GetPtr_def [of p])

lemma call_calm:
  assumes "cq_universe T M" "cq_inv T M L s" "t \<in> T" "calm (Pc s t) c" "c = DeqSize \<or> c = QIdle"
  shows "cq_inv T M L (at t c s)"
  by (rule calm_inv [OF assms(1-4)]) (use assms(5) in auto)

lemma call_deq_inv: "cq_universe T M \<Longrightarrow> cq_inv T M L s \<Longrightarrow> t \<in> T \<Longrightarrow> Pc s t = QIdle \<Longrightarrow> cq_inv T M L (call_deq t s)"
  unfolding call_deq_def by (rule call_calm) (auto simp: calm_def)

lemma take_result_inv: "cq_universe T M \<Longrightarrow> cq_inv T M L s \<Longrightarrow> t \<in> T \<Longrightarrow> Pc s t = QDone r \<Longrightarrow> cq_inv T M L (take_result t s)"
  unfolding take_result_def by (rule call_calm) (auto simp: calm_def)

text \<open>A node of the pool becomes the new node of a thread; nobody looks at it.\<close>

lemma pc_ok_call:
  assumes "priv s' = insert p (priv s)" "looks_at c \<noteq> Some p" "HeadW s' = HeadW s" "TailW s' = TailW s" "Nodes s' = Nodes s" "Arg s' u = Arg s u"
    and "pc_ok s M L u c"
  shows "pc_ok s' M L u c"
proof -
  have n: "node s' = node s" "nx s' = nx s" using assms(5) by (auto simp: fun_eq_iff nx_def node_def)
  have o: "q \<noteq> p \<Longrightarrow> old_tail s M L q \<Longrightarrow> old_tail s' M L q" "q \<noteq> p \<Longrightarrow> old_head s M L q \<Longrightarrow> old_head s' M L q"
    "fresh_ok s u q \<Longrightarrow> fresh_ok s' u q" for q
    using assms(1,4,6) n by (auto simp: old_tail_def old_head_def fresh_ok_def)
  show ?thesis using assms(2,7) by (cases c) (auto simp: o n assms(3,4,6))
qed

lemma call_enq_inv:
  fixes s :: "'a cqueue"
  assumes "cq_universe T M" "cq_inv T M L s" "t \<in> T" "Pc s t = QIdle" "p \<in> FreeSet s" "unseen p s"
  shows "cq_inv T M L (call_enq t v p junk s)"
proof -
  let ?c = "EnqData (SetPtr p junk) :: 'a qpc" and ?s = "call_enq t v p junk s"
  note i = inv_parts [OF assms(2)]
  have f: "finite T" using assms(1) by (simp add: cq_universe_def)
  have pm: "p \<in> M" using assms(5) i(1) by (auto simp: inv_mem_def)
  note pm = pm addr_id(2) [OF assms(1) pm, of junk]
  have c: "Pc ?s = (Pc s)(t := ?c)" by (simp add: call_enq_def)
  have n: "node ?s = node s" "nx ?s = nx s" by (auto simp: call_enq_def fun_eq_iff nx_def node_def)
  have "pown (Pc ?s u) = Some q \<longleftrightarrow> pown (Pc s u) = Some q \<or> u = t \<and> q = p" for u q
    unfolding c using assms(4) pm(2) by (auto simp del: GetPtr_SetPtr)
  then have pv: "priv ?s = insert p (priv s)" by (auto simp: priv_def)
  have w: "w_ref q ?c = w_ref q (Pc s t)" for q using assms(4) by (simp add: w_ref_def)
  have tr: "tot (w_ref q) T ?s = tot (w_ref q) T s" for q using tot_upd [OF f assms(3) c, of "w_ref q"] w [of q] by linarith
  have m: "tot (\<lambda>c. of_bool (q \<in> mine c)) T ?s = tot (\<lambda>c. of_bool (q \<in> mine c)) T s + of_bool (q = p)" for q
    using tot_upd [OF f assms(3) c, of "\<lambda>c. of_bool (q \<in> mine c)"] assms(4) pm by (auto simp: mine_def)
  have "inv_mem T M ?s"
    using i(1) assms(3) pm n by (auto simp: inv_mem_def call_enq_def mine_def)
  moreover have "inv_list M L ?s"
    using i(2) pv n by (auto simp: inv_list_def call_enq_def)
  moreover have "inv_place T M L ?s"
    using i(3) assms(5) unfolding inv_place_def m n by (auto simp: place_def n call_enq_def split: if_splits)
  moreover have "inv_ref T M L ?s" using i(4) by (simp add: inv_ref_def n tr)
  moreover have "flagging (Pc ?s u) = Some q" if "flagging (Pc s u) = Some q" for u q
    using that assms(4) c by (cases "u = t") simp_all
  then have "inv_live T M ?s" using i(5) unfolding inv_live_def tr n by blast
  moreover have "inv_link ?s"
    using i(6) assms(4) by (auto simp: inv_link_def call_enq_def)
  moreover have "inv_size T L ?s"
    using i(7) tot_upd [OF f assms(3) c, of linked] tot_upd [OF f assms(3) c, of reserved] tot_upd [OF f assms(3) c, of failing] assms(4)
    by (simp add: inv_size_def call_enq_def)
  moreover have "inv_pc M L ?s"
    unfolding inv_pc_def
  proof
    fix u
    show "pc_ok ?s M L u (Pc ?s u)"
    proof (cases "u = t")
      case True
      then show ?thesis using c by simp
    next
      case False
      then have "Pc ?s u = Pc s u" using c by simp
      moreover have "pc_ok ?s M L u (Pc s u)"
        by (rule pc_ok_call [OF pv]) (use assms(6) i(9) [of u] False in \<open>auto simp: unseen_def call_enq_def\<close>)
      ultimately show ?thesis by simp
    qed
  qed
  ultimately show ?thesis by (simp add: cq_inv_def)
qed

lemma ctor_inv:
  assumes "cq_universe T M" "ctor_state M p s"
  shows "cq_inv T M [p] s"
proof -
  have c: "p \<in> M" "dom (Nodes s) = M" "HeadW s = SetPtr p 0" "TailW s = HeadW s" "SizeW s = 0" "FreeSet s = M - {p}" "Pc s = (\<lambda>t. QIdle)"
    using assms(2) by (simp_all add: ctor_state_def)
  have n: "QNext (node s q) = 0 \<and> DeleteFlag (node s q) = 0 \<and> RefCnt (node s q) = (if q = p then 1 else 0)" if "q \<in> M" for q
    using assms(2) that by (auto simp: ctor_state_def node_def dom_def)
  have "GetPtr p = p" using addr_id(1) [OF assms(1) c(1)] .
  moreover have "tot w T s = w QIdle * card T" for w using c(7) by (simp add: tot_def)
  ultimately show ?thesis
    using c n by (auto simp: cq_inv_def inv_mem_def inv_list_def inv_place_def inv_ref_def inv_live_def inv_link_def inv_size_def inv_pc_def
        nx_def place_def mine_def w_ref_def priv_def)
qed

lemma run_inv:
  assumes "cq_run safe T M s" "safe" "cq_universe T M"
  shows "\<exists>L. cq_inv T M L s"
  using assms
proof (induction rule: cq_run.induct)
  case (start p s)
  then show ?case using ctor_inv [OF start.prems(2) start.hyps] by blast
next
  case (enq s t p v junk)
  then obtain L where "cq_inv T M L s" by blast
  from call_enq_inv [OF enq.prems(2) this enq.hyps(2-4)] enq.hyps(5) enq.prems(1) show ?case by blast
next
  case (deq s t)
  then obtain L where "cq_inv T M L s" by blast
  from call_deq_inv [OF deq.prems(2) this deq.hyps(2,3)] show ?case by blast
next
  case (result s t r)
  then obtain L where "cq_inv T M L s" by blast
  from take_result_inv [OF result.prems(2) this result.hyps(2,3)] show ?case by blast
next
  case (step s t s')
  then obtain L where "cq_inv T M L s" by blast
  from step_good [OF step.prems(2) this, of t] step.hyps show ?case by (auto simp: good_step_def)
qed

end
