(* ===== verification/LockFreeQueueRuns.thy ===== *)
theory LockFreeQueueRuns
  imports LockFreeQueueSafe
begin

text \<open>
  What the invariant gives for the runs of the lock-free queue: its operations are those of a list, no node is lost
  or in two places, and nothing is left behind, in the runs in which the pool never hands out a node that a running
  operation still looks at. \<open>LockFreeQueueAba\<close> shows that the condition is needed.
\<close>

subsection \<open>Runs in which the pool is careful\<close>

text \<open>The nodes of the queue, from the dummy on.\<close>

definition queue_nodes :: "'a cqueue \<Rightarrow> u64 list \<Rightarrow> bool" where
  "queue_nodes s L \<longleftrightarrow> L \<noteq> [] \<and> distinct L \<and> head_p s = hd L \<and> qpath (nx s) L"

lemma inv_nodes: "cq_inv T M L s \<Longrightarrow> queue_nodes s L"
  using inv_parts(2) [of T M L s] by (auto simp: inv_list_def queue_nodes_def)

definition small_queue :: "u64 \<Rightarrow> u64 set \<Rightarrow> nat cqueue" where
  "small_queue p M = \<lparr>HeadW = SetPtr p 0, TailW = SetPtr p 0, SizeW = 0, TagW = 0,
     Nodes = (\<lambda>q. if q \<in> M then Some \<lparr>QData = 0, QNext = 0, RefCnt = (if q = p then 1 else 0), DeleteFlag = 0\<rparr> else None),
     FreeSet = M - {p}, Arg = (\<lambda>t. 0), Pc = (\<lambda>t. QIdle)\<rparr>"

lemma small_queue_run: "p \<in> M \<Longrightarrow> cq_run safe T M (small_queue p M)"
  by (rule cq_run.start [of M p]) (auto simp: ctor_state_def small_queue_def split: if_splits)

lemma two_universe: "cq_universe {0, 1} {16, 32}"
  by (auto simp: cq_universe_def is_addr_def)

text \<open>C6. The lock-free queue is linearizable: in every run of any number of threads in which the pool hands out
  no node that a running operation still looks at, every step of every thread ends without a fault, and the
  list of the values in the memory, from the dummy node on, changes only at two points: where \<open>CAS_Next\<close> links a
  node, which appends the argument of that \<open>Enqueue\<close>, and where the exchange of the head succeeds, which takes
  off the first value, the one that \<open>Dequeue\<close> will return. Reading, helping and retrying change nothing.\<close>

theorem concurrent_queue_refines_list:
  assumes "cq_universe T M" "cq_run True T M s"
  shows "\<exists>L s' L'. queue_nodes s L \<and> cq_step t s = Inr s' \<and> queue_nodes s' L' \<and> q_effect t s s' (vals L s) (vals L' s')"
proof -
  from run_inv [OF assms(2) TrueI assms(1)] obtain L where L: "cq_inv T M L s" ..
  from step_good [OF assms(1) L, of t] show ?thesis using inv_nodes L unfolding good_step_def by blast
qed

lemma concurrent_queue_refines_list_witness:
  "\<exists>L s' L'. queue_nodes (small_queue 16 {16, 32}) L \<and> cq_step 0 (call_enq 0 7 32 0 (small_queue 16 {16, 32})) = Inr s' \<and> queue_nodes s' L'"
proof -
  let ?s = "call_enq 0 7 32 0 (small_queue 16 {16, 32})"
  have r: "cq_run True {0, 1} {16, 32} ?s"
    by (rule cq_run.enq [OF small_queue_run]) (auto simp: small_queue_def unseen_def)
  from concurrent_queue_refines_list [OF two_universe r, of 0]
  have "\<exists>L s' L'. queue_nodes ?s L \<and> cq_step 0 ?s = Inr s' \<and> queue_nodes s' L'" by blast
  moreover have "queue_nodes ?s L \<Longrightarrow> queue_nodes (small_queue 16 {16, 32}) L" for L
    by (simp add: queue_nodes_def call_enq_def nx_def [abs_def] node_def)
  ultimately show ?thesis by blast
qed

definition holders :: "nat set \<Rightarrow> 'a cqueue \<Rightarrow> u64 \<Rightarrow> nat set" where
  "holders T s p = {t \<in> T. p \<in> mine (Pc s t)}"

lemma tot_holders: "finite T \<Longrightarrow> tot (\<lambda>c. of_bool (p \<in> mine c)) T s = card (holders T s p)"
  by (simp add: tot_def holders_def Int_def)

text \<open>C14. Memory of the queue: in every run in which the pool never hands out a node that a running operation still
  looks at (\<open>cq_run True\<close>; the per-thread pools of the repository do not guarantee this, see \<open>reuse_breaks_queue\<close>),
  each node is in exactly one of four places: the queue, the pool,
  the hands of exactly one running operation, or marked as deleted and waiting while some operation still counts a
  reference to it or is about to look at its mark. So no node is freed twice, freed while in the queue, or lost;
  and when no operation runs every node is in the queue, with one reference, or back in the pool, with none, and
  the counter is the number of values.\<close>

theorem concurrent_queue_nodes:
  assumes "cq_universe T M" "cq_run True T M s"
  shows "\<exists>L. queue_nodes s L \<and> set L \<subseteq> M \<and>
     (\<forall>p \<in> M. of_bool (p \<in> set L) + of_bool (p \<in> FreeSet s) + of_bool (DeleteFlag (node s p) = 1) + card (holders T s p) = 1) \<and>
     (\<forall>p \<in> M. DeleteFlag (node s p) = 1 \<longrightarrow> (\<exists>t \<in> T. 0 < w_ref p (Pc s t)) \<or> (\<exists>t. flagging (Pc s t) = Some p)) \<and>
     ((\<forall>t. Pc s t = QIdle) \<longrightarrow> M = set L \<union> FreeSet s \<and> sint (SizeW s) = int (length (vals L s)) \<and>
        (\<forall>p \<in> M. RefCnt (node s p) = of_bool (p \<in> set L)))"
proof -
  from run_inv [OF assms(2) TrueI assms(1)] obtain L where L: "cq_inv T M L s" ..
  note i = inv_parts [OF L]
  have f: "finite T" using assms(1) by (simp add: cq_universe_def)
  have p: "of_bool (p \<in> set L) + of_bool (p \<in> FreeSet s) + of_bool (DeleteFlag (node s p) = 1) + card (holders T s p) = 1"
    if "p \<in> M" for p
    using i(3) that unfolding inv_place_def place_def tot_holders [OF f] by blast
  have w: "(\<exists>t \<in> T. 0 < w_ref p (Pc s t)) \<or> (\<exists>t. flagging (Pc s t) = Some p)" if "p \<in> M" "DeleteFlag (node s p) = 1" for p
    using i(5) that tot_pos [OF f, of "w_ref p" s] by (auto simp: inv_live_def)
  have q: "M = set L \<union> FreeSet s \<and> sint (SizeW s) = int (length (vals L s)) \<and> (\<forall>p \<in> M. RefCnt (node s p) = of_bool (p \<in> set L))"
    if idle: "\<forall>t. Pc s t = QIdle"
  proof -
    have z: "tot w T s = w QIdle * card T" for w using idle by (simp add: tot_def)
    have "p \<in> set L \<union> FreeSet s" if "p \<in> M" for p
      using p [OF that] w [OF that] idle
      by (cases "DeleteFlag (node s p) = 1"; cases "p \<in> set L"; cases "p \<in> FreeSet s") (auto simp: holders_def mine_def w_ref_def split: if_splits)
    moreover have "set L \<union> FreeSet s \<subseteq> M" using i(1,2) by (simp add: inv_mem_def inv_list_def)
    moreover have "L \<noteq> []" using i(2) by (simp add: inv_list_def)
    then have "int (length (vals L s)) = int (length L) - 1" by (cases L) (simp_all add: vals_def)
    ultimately show ?thesis using i(4,7) by (auto simp: inv_size_def inv_ref_def z w_ref_def)
  qed
  have "queue_nodes s L" "set L \<subseteq> M" using inv_nodes [OF L] i(2) by (simp_all add: inv_list_def)
  with p w q show ?thesis by blast
qed

lemma concurrent_queue_nodes_witness:
  "\<exists>L. queue_nodes (small_queue 16 {16, 32}) L \<and> {16, 32} = set L \<union> {32} \<and> sint (0 :: u32) = int (length (vals L (small_queue 16 {16, 32})))"
proof -
  let ?s = "small_queue 16 {16, 32}"
  have "cq_run True {0, 1} {16, 32} ?s" by (rule small_queue_run) simp
  from concurrent_queue_nodes [OF two_universe this] obtain L where
    L: "queue_nodes ?s L" "(\<forall>t. Pc ?s t = QIdle) \<longrightarrow> {16, 32} = set L \<union> FreeSet ?s \<and> sint (SizeW ?s) = int (length (vals L ?s))" by blast
  have s: "\<forall>t. Pc ?s t = QIdle" "FreeSet ?s = {32}" "SizeW ?s = 0" by (auto simp: small_queue_def)
  from L(2) s(1) have "{16, 32} = set L \<union> {32} \<and> sint (0 :: u32) = int (length (vals L ?s))" unfolding s(2,3) by blast
  with L(1) show ?thesis by blast
qed

end
