(* ===== verification/LockFreeQueueAba.thy ===== *)
theory LockFreeQueueAba
  imports LockFreeQueueRuns
begin

text \<open>
  Two schedules of the lock-free queue. The first shows that the condition on reuse is needed, and long before the
  16-bit tag wraps: a helping \<open>Enqueue\<close> stores its \<open>Next\<close>, to which the assignment from \<open>Tail->Next\<close> has given the
  pointer and not the tag, so the tail of every helped node has the same tag 0. The second shows an answer "empty"
  while a value is in the queue and nobody is taking it.
\<close>

subsection \<open>Schedules\<close>

datatype call = BeginEnq nat nat u64 | BeginDeq nat | EndCall nat | Steps nat nat

fun steps_of :: "nat \<Rightarrow> nat \<Rightarrow> nat cqueue \<Rightarrow> fault + nat cqueue" where
  "steps_of 0 t s = Inr s"
| "steps_of (Suc n) t s = ebind (cq_step t s) (steps_of n t)"

fun idle :: "nat qpc \<Rightarrow> bool" where
  "idle QIdle = True" | "idle _ = False"

fun is_done :: "nat qpc \<Rightarrow> bool" where
  "is_done (QDone r) = True" | "is_done _ = False"

fun perform :: "call \<Rightarrow> nat cqueue \<Rightarrow> nat cqueue option" where
  "perform (BeginEnq t v p) s = (if idle (Pc s t) \<and> p \<in> FreeSet s then Some (call_enq t v p 0 s) else None)"
| "perform (BeginDeq t) s = (if idle (Pc s t) then Some (call_deq t s) else None)"
| "perform (EndCall t) s = (if is_done (Pc s t) then Some (take_result t s) else None)"
| "perform (Steps n t) s = (case steps_of n t s of Inl e \<Rightarrow> None | Inr s1 \<Rightarrow> Some s1)"

fun schedule :: "call list \<Rightarrow> nat cqueue \<Rightarrow> nat cqueue option" where
  "schedule [] s = Some s"
| "schedule (c # cs) s = (case perform c s of None \<Rightarrow> None | Some s1 \<Rightarrow> schedule cs s1)"

fun call_thread :: "call \<Rightarrow> nat" where
  "call_thread (BeginEnq t v p) = t" | "call_thread (BeginDeq t) = t" | "call_thread (EndCall t) = t" | "call_thread (Steps n t) = t"

lemma steps_of_run: "cq_run False T M s \<Longrightarrow> t \<in> T \<Longrightarrow> steps_of n t s = Inr s' \<Longrightarrow> cq_run False T M s'"
  by (induction n arbitrary: s) (auto simp: ebind_eq_Inr intro: cq_run.step)

lemma perform_run: "cq_run False T M s \<Longrightarrow> call_thread c \<in> T \<Longrightarrow> perform c s = Some s' \<Longrightarrow> cq_run False T M s'"
proof (cases c)
  case (BeginEnq t v p)
  assume a: "cq_run False T M s" "call_thread c \<in> T" "perform c s = Some s'"
  then have "Pc s t = QIdle" using BeginEnq by (cases "Pc s t") (auto split: if_splits)
  with a BeginEnq show ?thesis using cq_run.enq [OF a(1)] by (auto split: if_splits)
next
  case (BeginDeq t)
  assume a: "cq_run False T M s" "call_thread c \<in> T" "perform c s = Some s'"
  then have "Pc s t = QIdle" using BeginDeq by (cases "Pc s t") (auto split: if_splits)
  with a BeginDeq show ?thesis using cq_run.deq [OF a(1)] by (auto split: if_splits)
next
  case (EndCall t)
  assume a: "cq_run False T M s" "call_thread c \<in> T" "perform c s = Some s'"
  then obtain r where "Pc s t = QDone r" using EndCall by (cases "Pc s t") (auto split: if_splits)
  with a EndCall show ?thesis using cq_run.result [OF a(1)] by (auto split: if_splits)
next
  case (Steps n t)
  assume a: "cq_run False T M s" "call_thread c \<in> T" "perform c s = Some s'"
  with Steps show ?thesis using steps_of_run [OF a(1)] by (auto split: sum.splits)
qed

lemma schedule_run:
  "cq_run False T M s \<Longrightarrow> \<forall>c \<in> set cs. call_thread c \<in> T \<Longrightarrow> schedule cs s = Some s' \<Longrightarrow> cq_run False T M s'"
  by (induction cs arbitrary: s) (auto split: option.splits intro: perform_run)

abbreviation nA :: u64 where "nA \<equiv> 16"
abbreviation nB :: u64 where "nB \<equiv> 48"
abbreviation nC :: u64 where "nC \<equiv> 64"
abbreviation nD :: u64 where "nD \<equiv> 80"
abbreviation nE :: u64 where "nE \<equiv> 32"

definition five :: "u64 set" where "five = {nA, nB, nC, nD, nE}"

definition begin_state :: "nat cqueue" where
  "begin_state = \<lparr>HeadW = SetPtr nA 0, TailW = SetPtr nA 0, SizeW = 0, TagW = 0,
     Nodes = [nA \<mapsto> \<lparr>QData = 0, QNext = 0, RefCnt = 1, DeleteFlag = 0\<rparr>, nB \<mapsto> new_qnode, nC \<mapsto> new_qnode, nD \<mapsto> new_qnode, nE \<mapsto> new_qnode],
     FreeSet = {nB, nC, nD, nE}, Arg = (\<lambda>t. 0), Pc = (\<lambda>t. QIdle)\<rparr>"

lemma begin_run: "cq_run safe T five begin_state"
  by (rule cq_run.start [of _ nA]) (auto simp: ctor_state_def begin_state_def five_def new_qnode_def split: if_splits)

subsection \<open>A tail that goes back\<close>

text \<open>
  Thread 0 reads the tail (node A, tag 0) and is delayed. Thread 1 enqueues B and dequeues, which frees A; thread 0
  counts its reference on the free node and reads the tail, now B; thread 3 enqueues C, and thread 0 reads B's next
  node, C. Thread 1 gets A again from its pool, links it behind C and is delayed, and thread 3, enqueuing D, helps:
  the tail is node A with tag 0, the word thread 0 has read. Its check succeeds.
\<close>

definition recycled :: "call list" where
  "recycled = [BeginEnq 0 100 nE, Steps 5 0, BeginEnq 1 1 nB, Steps 13 1, BeginDeq 1, Steps 12 1, EndCall 1, Steps 2 0,
     BeginEnq 3 2 nC, Steps 13 3, Steps 1 0, BeginEnq 1 3 nA, Steps 10 1, BeginEnq 3 4 nD, Steps 10 3, Steps 1 0, Steps 3 1, Steps 1 3]"

text \<open>Thread 2 dequeues twice, which frees B and C, before thread 0 sets the tail back to C. Thread 2 gets C
  again from its pool; thread 3 links D behind it before it is enqueued. A \<open>Dequeue\<close> finds nothing behind the dummy.\<close>

definition broken :: "call list" where
  "broken = [BeginDeq 2, Steps 12 2, EndCall 2, BeginDeq 2, Steps 12 2, EndCall 2, Steps 2 0,
     BeginEnq 2 5 nC, Steps 4 2, Steps 9 3, Steps 9 2, BeginDeq 1, Steps 6 1]"

lemma broken_state: "(case schedule (recycled @ broken) begin_state of None \<Rightarrow> False | Some s \<Rightarrow>
    (case cq_step 1 s of Inl e \<Rightarrow> e = NullDeref | Inr _ \<Rightarrow> False) \<and> reserved (Pc s 1) = 1 \<and> unat (TagW s) = 10)"
  by code_simp

text \<open>C15. With reuse of nodes the queue is not safe, and tags do not help: there is a run of four threads over five
  nodes, in which every node a thread gets is the one its own pool freed last or a new one, only ten
  tags are drawn, and a \<open>Dequeue\<close> that has reserved a value dereferences a null pointer.\<close>

theorem reuse_breaks_queue:
  "\<exists>s. cq_run False {0, 1, 2, 3} five (s :: nat cqueue) \<and> unat (TagW s) = 10 \<and> reserved (Pc s 1) = 1 \<and> cq_step 1 s = Inl NullDeref"
proof -
  from broken_state obtain s where s: "schedule (recycled @ broken) begin_state = Some s" "cq_step 1 s = Inl NullDeref" "reserved (Pc s 1) = 1" "unat (TagW s) = 10"
    by (auto split: option.splits sum.splits)
  have "cq_run False {0, 1, 2, 3} five s"
    by (rule schedule_run [OF begin_run _ s(1)]) (auto simp: recycled_def broken_def)
  with s(2-4) show ?thesis by blast
qed


subsection \<open>An empty answer\<close>

text \<open>Two consumers: while the first, which found the queue empty, has not undone its decrement, an \<open>Enqueue\<close>
  begins and ends, and the second consumer is told that the queue is empty.\<close>

definition overlooked :: "call list" where
  "overlooked = [BeginDeq 0, Steps 1 0, BeginEnq 1 7 nB, Steps 13 1, BeginDeq 2, Steps 2 2]"

lemma overlooked_state: "(case schedule overlooked begin_state of None \<Rightarrow> False | Some s \<Rightarrow>
    idle (Pc s 1) \<and> (case Pc s 2 of QDone r \<Rightarrow> r = None | _ \<Rightarrow> False) \<and> HeadW s = nA \<and> nx s nA = nB \<and> nx s nB = 0 \<and> QData (node s nB) = 7)"
  by code_simp

lemma empty_answer_overlooks:
  "\<exists>s. cq_run False {0, 1, 2, 3} five s \<and> Pc s 1 = QIdle \<and> Pc s 2 = QDone None \<and> queue_nodes s [nA, nB] \<and> vals [nA, nB] s = [7 :: nat]"
proof -
  from overlooked_state obtain s r where s: "schedule overlooked begin_state = Some s" "idle (Pc s 1)" "Pc s 2 = QDone None"
    "HeadW s = nA" "nx s nA = nB" "nx s nB = 0" "QData (node s nB) = 7"
    by (auto split: option.splits qpc.splits)
  have "cq_run False {0, 1, 2, 3} five s" by (rule schedule_run [OF begin_run _ s(1)]) (auto simp: overlooked_def)
  moreover have "Pc s 1 = QIdle" using s(2) by (cases "Pc s 1") auto
  moreover have "queue_nodes s [nA, nB]" "vals [nA, nB] s = [7]" using s(4-7) by (simp_all add: queue_nodes_def vals_def GetPtr_def)
  ultimately show ?thesis using s(3) by blast
qed

end
