(* ===== verification/LockFreeQueueLive.thy ===== *)
theory LockFreeQueueLive
  imports LockFreeQueueRuns
begin

text \<open>
  Progress of the lock-free queue: wherever the other threads were stopped, a thread that runs alone finishes its
  \<open>Enqueue\<close> or \<open>Dequeue\<close> within 27 steps; and what the answer "empty" says when there is one consumer.
\<close>

subsection \<open>A bound\<close>

text \<open>The rest of an \<open>Enqueue\<close> and of a \<open>Dequeue\<close> from the start of their loops: one more round when the tail
  lags behind.\<close>

definition enq_left :: "'a cqueue \<Rightarrow> nat" where
  "enq_left s = (if nx s (tail_p s) = 0 then 11 else 20)"

definition deq_left :: "'a cqueue \<Rightarrow> nat" where
  "deq_left s = (if tail_p s = head_p s then 15 else 10)"

fun left :: "'a cqueue \<Rightarrow> 'a qpc \<Rightarrow> nat" where
  "left s (EnqData N) = 4 + enq_left s"
| "left s (EnqNext N) = 3 + enq_left s"
| "left s (EnqRef N) = 2 + enq_left s"
| "left s (EnqTag N) = 1 + enq_left s"
| "left s (EnqRead N) = enq_left s"
| "left s (EnqInc N Old) = (if Old \<noteq> TailW s then 7 + enq_left s else if nx s (tail_p s) = 0 then 10 else 19)"
| "left s (EnqTail N Old) = (if Old \<noteq> TailW s then 6 + enq_left s else if nx s (tail_p s) = 0 then 9 else 18)"
| "left s (EnqLoad N Old Tl) = (if Old \<noteq> TailW s then 5 + enq_left s else if nx s (tail_p s) = 0 then 8 else 17)"
| "left s (EnqCheck N Old X) = (if Old \<noteq> TailW s then 4 + enq_left s else if X \<noteq> 0 then 16
     else if nx s (tail_p s) = 0 then 7 else 5 + enq_left s)"
| "left s (EnqLink N Old X) = (if QNext (node s (GetPtr Old)) = 0 then 6 else 4 + enq_left s)"
| "left s (EnqHelp N Old X) = (if Old = TailW s then 15 else 4 + enq_left s)"
| "left s (EnqSwing N Old) = 5"
| "left s (EnqDec l N Old) = 3 + (if l then 1 else enq_left s)"
| "left s (EnqFlag l N Old) = 2 + (if l then 1 else enq_left s)"
| "left s (EnqFree l N Old) = 1 + (if l then 1 else enq_left s)"
| "left s EnqSize = 1"
| "left s DeqSize = 17"
| "left s DeqUndo = 1"
| "left s DeqTag = 16"
| "left s (DeqHead Y) = deq_left s"
| "left s (DeqTail Y H) = (if H \<noteq> HeadW s then 3 + deq_left s else if tail_p s = head_p s then 14 else 9)"
| "left s (DeqNext Y H Tl) = (if H \<noteq> HeadW s then 2 + deq_left s else if GetPtr H \<noteq> GetPtr Tl then 8
     else if Tl = TailW s then 13 else 3 + deq_left s)"
| "left s (DeqCheck Y H Tl X) = (if H \<noteq> HeadW s then 1 + deq_left s else if GetPtr H \<noteq> GetPtr Tl then 7
     else if Tl = TailW s then 12 else 2 + deq_left s)"
| "left s (DeqHelp Y H Tl X) = (if Tl = TailW s then 11 else 1 + deq_left s)"
| "left s (DeqData Y H X) = (if H = HeadW s then 6 else 2 + deq_left s)"
| "left s (DeqCas Y H X v) = (if H = HeadW s then 5 else 1 + deq_left s)"
| "left s (DeqMark H v) = 4"
| "left s (DeqDec H v) = 3"
| "left s (DeqFlag H v) = 2"
| "left s (DeqFree H v) = 1"
| "left s _ = 0"

lemma left_27: "left s c \<le> 27"
  by (cases c) (auto simp: enq_left_def deq_left_def)

lemma left_0: "left s c = 0 \<longleftrightarrow> c = QIdle \<or> (\<exists>r. c = QDone r)"
  by (cases c) (auto simp: enq_left_def deq_left_def)

lemma left_store:
  assumes "QNext x = QNext (node s p)"
  shows "enq_left (s\<lparr>Nodes := (Nodes s)(p \<mapsto> x)\<rparr>) = enq_left s" "deq_left (s\<lparr>Nodes := (Nodes s)(p \<mapsto> x)\<rparr>) = deq_left s"
    "nx (s\<lparr>Nodes := (Nodes s)(p \<mapsto> x)\<rparr>) q = nx s q"
  using assms by (auto simp: enq_left_def deq_left_def nx_def node_upd)

lemma left_other [simp]:
  "enq_left (at t d s) = enq_left s" "deq_left (at t d s) = deq_left s"
  "enq_left (s\<lparr>TagW := k\<rparr>) = enq_left s" "deq_left (s\<lparr>TagW := k\<rparr>) = deq_left s"
  "enq_left (s\<lparr>SizeW := z\<rparr>) = enq_left s" "deq_left (s\<lparr>SizeW := z\<rparr>) = deq_left s"
  "enq_left (s\<lparr>FreeSet := F\<rparr>) = enq_left s" "deq_left (s\<lparr>FreeSet := F\<rparr>) = deq_left s"
  by (auto simp: enq_left_def deq_left_def nx_def node_def)

lemma left_bounds: "11 \<le> enq_left s" "10 \<le> deq_left s" "deq_left s \<le> 15"
  by (auto simp: enq_left_def deq_left_def)

lemma step_left_enq:
  assumes "cq_universe T M" "cq_inv T M L s" "cq_step t s = Inr s'" "Pc s t = c" "is_enq c"
  shows "left s' (Pc s' t) < left s c"
proof -
  note i = inv_parts [OF assms(2)]
  have ok: "pc_ok s M L t c" using i(9) [of t] assms(4) by simp
  have tl: "tail_p s \<in> M" "tail_p s \<notin> priv s" using tail_facts [OF assms(1,2)] by auto
  have lst: "nx s (last L) = 0" using i(2) qpath_last by (auto simp: inv_list_def)
  show ?thesis
  proof (cases c)
    case (EnqData N)
    have "GetPtr N \<in> M" using mine_M [OF assms(2), of _ t] assms(4) EnqData by (simp add: mine_def)
    with EnqData assms(3,4) show ?thesis by (auto simp: cq_step_def store_upd [OF assms(1,2)] left_store)
  next
    case (EnqNext N)
    have m: "GetPtr N \<in> M" using mine_M [OF assms(2), of _ t] assms(4) EnqNext by (simp add: mine_def)
    have "tail_p s \<noteq> GetPtr N" using tl(2) privI [of s t] assms(4) EnqNext by auto
    with m EnqNext assms(3,4) show ?thesis
      by (auto simp: cq_step_def store_upd [OF assms(1,2)] enq_left_def nx_def node_upd split: if_splits)
  next
    case (EnqRef N)
    have "GetPtr N \<in> M" using mine_M [OF assms(2), of _ t] assms(4) EnqRef by (simp add: mine_def)
    with EnqRef assms(3,4) show ?thesis by (auto simp: cq_step_def store_upd [OF assms(1,2)] left_store)
  next
    case (EnqTag N)
    with assms(3,4) show ?thesis by (auto simp: cq_step_def next_tag_def)
  next
    case (EnqRead N)
    with assms(3,4) show ?thesis by (auto simp: cq_step_def enq_left_def)
  next
    case (EnqInc N Old)
    with ok have "GetPtr Old \<in> M" by (simp add: old_tail_def)
    with EnqInc assms(3,4) show ?thesis by (auto simp: cq_step_def store_upd [OF assms(1,2)] left_store)
  next
    case (EnqTail N Old)
    with assms(3,4) show ?thesis by (auto simp: cq_step_def)
  next
    case (EnqLoad N Old Tl)
    with ok have o: "GetPtr Tl \<in> M" "tail_p s = GetPtr Old \<longrightarrow> GetPtr Tl = GetPtr Old" by auto
    with EnqLoad assms(3,4) show ?thesis
      using store_upd [OF assms(1,2) o(1)] by (auto simp: cq_step_def nx_def enq_left_def)
  next
    case (EnqCheck N Old X)
    with ok have o: "old_tail s M L (GetPtr Old)" "tail_p s = GetPtr Old \<longrightarrow> X \<noteq> 0 \<longrightarrow> nx s (GetPtr Old) = X" by auto
    have w: "QNext (node s (tail_p s)) = 0 \<longleftrightarrow> nx s (tail_p s) = 0"
      using i(1) tl(1) assms(1) by (auto simp: inv_mem_def nx_def cq_universe_def)
    show ?thesis using o EnqCheck assms(3,4) w left_bounds(1) [of s] by (auto simp: cq_step_def enq_left_def)
  next
    case (EnqLink N Old X)
    with ok have o: "GetPtr Old \<in> M" "X = 0" by (auto simp: old_tail_def)
    with EnqLink assms(3,4) show ?thesis
      using store_upd [OF assms(1,2) o(1)] by (auto simp: cq_step_def CAS_Next_def split: if_splits)
  next
    case (EnqHelp N Old X)
    with ok have o: "X \<noteq> 0" "nx s (GetPtr Old) = X" by auto
    have x: "GetPtr X = X" using o(2) by (auto simp: nx_def)
    have "nx s (GetPtr X) = 0" if "Old = TailW s"
    proof -
      have "tail_p s \<noteq> last L" using o that lst by auto
      then have "X = last L" using i(2) o(2) that by (auto simp: inv_list_def)
      then show ?thesis using lst unfolding x by simp
    qed
    with EnqHelp assms(3,4) show ?thesis
      by (auto simp: cq_step_def CAS_tail_def enq_left_def nx_def)
  next
    case (EnqSwing N Old)
    with assms(3,4) show ?thesis by (auto simp: cq_step_def)
  next
    case (EnqDec l N Old)
    with ok have "GetPtr Old \<in> M" by (auto simp: old_tail_def)
    with EnqDec assms(3,4) show ?thesis
      by (auto simp: cq_step_def store_upd [OF assms(1,2)] left_store enq_go_def split: if_splits)
  next
    case (EnqFlag l N Old)
    with ok have "GetPtr Old \<in> M" by (auto simp: old_tail_def)
    with EnqFlag assms(3,4) show ?thesis
      by (auto simp: cq_step_def store_upd [OF assms(1,2)] left_store enq_go_def split: if_splits)
  next
    case (EnqFree l N Old)
    with assms(3,4) show ?thesis by (auto simp: cq_step_def enq_go_def)
  next
    case EnqSize
    with assms(3,4) show ?thesis by (auto simp: cq_step_def)
  qed (use assms(5) in auto)
qed

lemma step_left_deq:
  assumes "cq_universe T M" "cq_inv T M L s" "cq_step t s = Inr s'" "Pc s t = c" "\<not> is_enq c" "left s c \<noteq> 0"
  shows "left s' (Pc s' t) < left s c"
proof -
  note i = inv_parts [OF assms(2)]
  have ok: "pc_ok s M L t c" using i(9) [of t] assms(4) by simp
  show ?thesis
  proof (cases c)
    case DeqSize
    with assms(3,4) show ?thesis by (auto simp: cq_step_def)
  next
    case DeqUndo
    with assms(3,4) show ?thesis by (auto simp: cq_step_def)
  next
    case DeqTag
    with assms(3,4) left_bounds(3) [of s] show ?thesis by (auto simp: cq_step_def next_tag_def)
  next
    case (DeqHead Y)
    with assms(3,4) show ?thesis by (auto simp: cq_step_def deq_left_def)
  next
    case (DeqTail Y H)
    with assms(3,4) show ?thesis by (auto simp: cq_step_def)
  next
    case (DeqNext Y H Tl)
    with ok have o: "GetPtr H \<in> M" by (auto simp: old_head_def)
    with DeqNext assms(3,4) show ?thesis using store_upd [OF assms(1,2) o] by (auto simp: cq_step_def)
  next
    case (DeqCheck Y H Tl X)
    with assms(3,4) show ?thesis by (auto simp: cq_step_def)
  next
    case (DeqHelp Y H Tl X)
    with ok have o: "old_head s M L (GetPtr H)" "GetPtr Tl = GetPtr H" "GetPtr X \<noteq> 0" "nx s (GetPtr H) = GetPtr X" by auto
    have "GetPtr X \<noteq> head_p s" if "Tl = TailW s"
    proof -
      have h: "head_p s = GetPtr H" using i(2) o(1,2) that by (cases L) (auto simp: inv_list_def old_head_def)
      then obtain as where "L = head_p s # GetPtr X # as" using second_node [OF i(2) _ o(3)] o(4) by auto
      then show ?thesis using i(2) by (auto simp: inv_list_def)
    qed
    with DeqHelp assms(3,4) show ?thesis by (auto simp: cq_step_def CAS_tail_def deq_left_def)
  next
    case (DeqData Y H X)
    with ok have "nx s (GetPtr H) = GetPtr X" "GetPtr X \<noteq> 0" "GetPtr H \<in> M" by (auto simp: old_head_def)
    then have m: "GetPtr X \<in> M" using i(1) by (auto simp: inv_mem_def nx_def dest!: bspec [of _ _ "GetPtr H"])
    with DeqData assms(3,4) show ?thesis using store_upd [OF assms(1,2) m] by (auto simp: cq_step_def)
  next
    case (DeqCas Y H X v)
    with assms(3,4) show ?thesis by (auto simp: cq_step_def CAS_head_def)
  next
    case (DeqMark H v)
    then have m: "GetPtr H \<in> M" using ok by (auto simp: old_head_def)
    with DeqMark assms(3,4) show ?thesis using store_upd [OF assms(1,2) m] by (auto simp: cq_step_def)
  next
    case (DeqDec H v)
    then have m: "GetPtr H \<in> M" using ok by (auto simp: old_head_def)
    with DeqDec assms(3,4) show ?thesis using store_upd [OF assms(1,2) m] by (auto simp: cq_step_def)
  next
    case (DeqFlag H v)
    then have m: "GetPtr H \<in> M" using ok by (auto simp: old_head_def)
    with DeqFlag assms(3,4) show ?thesis using store_upd [OF assms(1,2) m] by (auto simp: cq_step_def)
  next
    case (DeqFree H v)
    with assms(3,4) show ?thesis by (auto simp: cq_step_def)
  qed (use assms(5,6) in auto)
qed


lemma step_left:
  assumes "cq_universe T M" "cq_inv T M L s" "cq_step t s = Inr s'" "left s (Pc s t) \<noteq> 0"
  shows "left s' (Pc s' t) < left s (Pc s t)"
  using step_left_enq [OF assms(1-3) refl] step_left_deq [OF assms(1-3) refl _ assms(4)] by blast

fun alone_steps :: "nat \<Rightarrow> nat \<Rightarrow> 'a cqueue \<Rightarrow> fault + 'a cqueue" where
  "alone_steps 0 t s = Inr s"
| "alone_steps (Suc n) t s = ebind (cq_step t s) (alone_steps n t)"

lemma alone_ends:
  assumes "cq_universe T M" "cq_inv T M L s" "left s (Pc s t) \<le> k"
  shows "\<exists>n \<le> k. \<exists>s'. alone_steps n t s = Inr s' \<and> left s' (Pc s' t) = 0"
  using assms(2,3)
proof (induction k arbitrary: s L)
  case 0
  then show ?case by (intro exI [of _ 0]) simp
next
  case (Suc k)
  show ?case
  proof (cases "left s (Pc s t) = 0")
    case True
    then show ?thesis by (intro exI [of _ 0]) simp
  next
    case False
    from step_good [OF assms(1) Suc.prems(1), of t] obtain s1 L1 where s1: "cq_step t s = Inr s1" "cq_inv T M L1 s1"
      unfolding good_step_def by blast
    have "left s1 (Pc s1 t) \<le> k" using step_left [OF assms(1) Suc.prems(1) s1(1) False] Suc.prems(2) by simp
    from Suc.IH [OF s1(2) this] obtain n s2 where "n \<le> k" "alone_steps n t s1 = Inr s2" "left s2 (Pc s2 t) = 0" by blast
    then show ?thesis using s1(1) by (intro exI [of _ "Suc n"]) auto
  qed
qed

text \<open>No operation on the queue waits for another thread: in any state of a run in which the pool is careful,
  wherever the other threads stopped, a thread that runs alone ends its \<open>Enqueue\<close> or \<open>Dequeue\<close> within 27 steps.\<close>

theorem queue_thread_finishes:
  assumes "cq_universe T M" "cq_run True T M s"
  shows "\<exists>n \<le> 27. \<exists>s'. alone_steps n t s = Inr s' \<and> (Pc s' t = QIdle \<or> (\<exists>r. Pc s' t = QDone r))"
proof -
  from run_inv [OF assms(2) TrueI assms(1)] obtain L where L: "cq_inv T M L s" ..
  from alone_ends [OF assms(1) L left_27] show ?thesis by (simp add: left_0)
qed

lemma queue_thread_finishes_witness:
  "\<exists>n \<le> 27. \<exists>s'. alone_steps n 0 (call_enq 0 7 32 0 (small_queue 16 {16, 32})) = Inr s' \<and> (Pc s' 0 = QIdle \<or> (\<exists>r. Pc s' 0 = QDone r))"
proof -
  let ?s = "call_enq 0 7 32 0 (small_queue 16 {16, 32})"
  have r: "cq_run True {0, 1} {16, 32} ?s"
    by (rule cq_run.enq [OF small_queue_run]) (auto simp: small_queue_def unseen_def)
  from queue_thread_finishes [OF two_universe r, of 0] show ?thesis .
qed

subsection \<open>Empty\<close>

text \<open>What \<open>Dequeue\<close> means by "empty" when no other \<open>Dequeue\<close> runs, as in the update thread of the chat server
  and in the sending of a session: if its first step finds the counter not positive, every value in the queue was linked
  by an \<open>Enqueue\<close> that has not returned yet, so none that was put in before the call is overlooked.\<close>

theorem empty_with_one_consumer:
  assumes "cq_universe T M" "cq_run True T M s" "t \<in> T" "Pc s t = DeqSize" "cq_step t s = Inr s'" "Pc s' t = DeqUndo"
    and "\<forall>u \<in> T. u \<noteq> t \<longrightarrow> reserved (Pc s u) = 0 \<and> failing (Pc s u) = 0"
  shows "\<exists>L. queue_nodes s L \<and> length (vals L s) \<le> card {u \<in> T. linked (Pc s u) = 1}"
proof -
  from run_inv [OF assms(2) TrueI assms(1)] obtain L where L: "cq_inv T M L s" ..
  note i = inv_parts [OF L]
  have f: "finite T" using assms(1) by (simp add: cq_universe_def)
  have "reserved (Pc s u) = 0 \<and> failing (Pc s u) = 0" if "u \<in> T" for u using assms(4,7) that by (cases "u = t") auto
  then have z: "tot reserved T s = 0" "tot failing T s = 0" by (simp_all add: tot_def)
  have "sint (SizeW s) \<le> 0" using assms(4-6) by (auto simp: cq_step_def split: if_splits)
  moreover have "L \<noteq> []" using i(2) by (simp add: inv_list_def)
  then have "int (length (vals L s)) = int (length L) - 1" by (cases L) (simp_all add: vals_def)
  ultimately have "length (vals L s) \<le> tot linked T s" using i(7) z by (simp add: inv_size_def)
  also have "tot linked T s = (\<Sum>u \<in> T. of_bool (linked (Pc s u) = 1))"
    unfolding tot_def by (rule sum.cong) (use weight_bounds(2) [of "Pc s _"] in \<open>auto simp: le_Suc_eq\<close>)
  also have "\<dots> = card {u \<in> T. linked (Pc s u) = 1}" using f by (simp add: Int_def)
  finally show ?thesis using inv_nodes [OF L] by blast
qed

lemma empty_with_one_consumer_witness:
  "\<exists>L. queue_nodes (call_deq 0 (small_queue 16 {16, 32})) L \<and>
     length (vals L (call_deq 0 (small_queue 16 {16, 32}))) \<le> card {u \<in> {0, 1}. linked (Pc (call_deq 0 (small_queue 16 {16, 32})) u) = 1}"
proof -
  let ?s = "call_deq 0 (small_queue 16 {16, 32})"
  have r: "cq_run True {0, 1} {16, 32} ?s"
    by (rule cq_run.deq [OF small_queue_run]) (auto simp: small_queue_def)
  have p: "Pc ?s 0 = DeqSize" "Pc ?s 1 = QIdle" "SizeW ?s = 0" by (simp_all add: call_deq_def small_queue_def)
  then have "cq_step 0 ?s = Inr (at 0 DeqUndo (?s\<lparr>SizeW := SizeW ?s - 1\<rparr>))" by (simp add: cq_step_def)
  from empty_with_one_consumer [OF two_universe r _ p(1) this] p(2) show ?thesis by auto
qed

end
