(* ===== verification/ChatMessages.thy ===== *)
theory ChatMessages
  imports PacketBuffer
begin

text \<open>
  The messages of the chat example (Examples/ChatServer/ChatProtocol.h) and what the content code of
  ChatServer/Content.cpp reads from and writes to a packet for each of them, field by field with the
  stream operators and block transfers it uses. The types are the enumeration's values; each field has the
  width of the variable it is read into.
\<close>

definition kCsChatServer :: u16 where "kCsChatServer = 0"
definition kCsChatReqLogin :: u16 where "kCsChatReqLogin = 1"
definition kCsChatResLogin :: u16 where "kCsChatResLogin = 2"
definition kCsChatReqSectorMove :: u16 where "kCsChatReqSectorMove = 3"
definition kCsChatResSectorMove :: u16 where "kCsChatResSectorMove = 4"
definition kCsChatReqMessage :: u16 where "kCsChatReqMessage = 5"
definition kCsChatResMessage :: u16 where "kCsChatResMessage = 6"
definition kCsChatReqHeartbeat :: u16 where "kCsChatReqHeartbeat = 7"

lemmas chat_types = kCsChatServer_def kCsChatReqLogin_def kCsChatResLogin_def kCsChatReqSectorMove_def
  kCsChatResSectorMove_def kCsChatReqMessage_def kCsChatResMessage_def kCsChatReqHeartbeat_def

text \<open>\<open>ID\<close> and \<open>Nickname\<close> are the 40 bytes of a \<open>WCHAR[20]\<close>.\<close>

record character =
  CSession :: u64
  AccountNo :: u64
  SectorX :: u16
  SectorY :: u16
  LastRecvTime :: u32
  ID :: "byte list"
  Nickname :: "byte list"

definition kMessageBufsize :: nat where "kMessageBufsize = 1000"

subsection \<open>Requests\<close>

text \<open>A login fills the character. \<open>GetData\<close> of 20 \<open>WCHAR\<close>s may find fewer bytes, and then leaves the rest
  of the array as it was.\<close>

definition read_login :: "packet \<Rightarrow> character \<Rightarrow> fault + packet \<times> character" where
  "read_login pk ch =
     ebind (get_int64 pk) (\<lambda>(pk1, accountNo).
     ebind (GetData_wchar pk1 20) (\<lambda>(pk2, bs).
     ebind (wr_mem (ID ch) 0 bs) (\<lambda>nid.
     ebind (GetData_wchar pk2 20) (\<lambda>(pk3, bs').
     ebind (wr_mem (Nickname ch) 0 bs') (\<lambda>nick.
       Inr (pk3, ch\<lparr>AccountNo := accountNo, ID := nid, Nickname := nick\<rparr>))))))"

definition read_sector_move :: "packet \<Rightarrow> fault + packet \<times> u64 \<times> u16 \<times> u16" where
  "read_sector_move pk =
     ebind (get_int64 pk) (\<lambda>(pk1, accountNo).
     ebind (get_ushort pk1) (\<lambda>(pk2, sectorX).
     ebind (get_ushort pk2) (\<lambda>(pk3, sectorY). Inr (pk3, accountNo, sectorX, sectorY))))"

definition read_message_head :: "packet \<Rightarrow> fault + packet \<times> u64 \<times> u16" where
  "read_message_head pk =
     ebind (get_int64 pk) (\<lambda>(pk1, accountNo).
     ebind (get_ushort pk1) (\<lambda>(pk2, messageLen). Inr (pk2, accountNo, messageLen)))"

text \<open>The text goes to the global \<open>MessageBuf\<close> and gets a terminator.\<close>

definition read_message_text :: "packet \<Rightarrow> u16 \<Rightarrow> byte list \<Rightarrow> fault + packet \<times> byte list" where
  "read_message_text pk messageLen buf =
     ebind (GetData pk (uint messageLen)) (\<lambda>(pk1, bs).
     ebind (wr_mem buf 0 bs) (\<lambda>b1.
     ebind (wr_mem b1 (2 * (uint messageLen div 2)) [0, 0]) (\<lambda>b2. Inr (pk1, b2))))"

subsection \<open>Answers\<close>

text \<open>Each answer is written over the request, in the same packet.\<close>

definition login_reply :: "packet \<Rightarrow> character \<Rightarrow> fault + packet" where
  "login_reply pk ch =
     ebind (put_ushort (ClearPacket pk) kCsChatResLogin) (\<lambda>p1.
     ebind (put_uchar p1 1) (\<lambda>p2. put_int64 p2 (AccountNo ch)))"

definition sector_reply :: "packet \<Rightarrow> character \<Rightarrow> fault + packet" where
  "sector_reply pk ch =
     ebind (put_ushort (ClearPacket pk) kCsChatResSectorMove) (\<lambda>p1.
     ebind (put_int64 p1 (AccountNo ch)) (\<lambda>p2.
     ebind (put_short p2 (SectorX ch)) (\<lambda>p3. put_short p3 (SectorY ch))))"

definition message_reply :: "packet \<Rightarrow> character \<Rightarrow> u16 \<Rightarrow> byte list \<Rightarrow> fault + packet" where
  "message_reply pk ch messageLen buf =
     ebind (put_ushort (ClearPacket pk) kCsChatResMessage) (\<lambda>p1.
     ebind (put_int64 p1 (AccountNo ch)) (\<lambda>p2.
     ebind (PutData_wchar p2 (ID ch) 20) (\<lambda>(p3, n3).
     ebind (PutData_wchar p3 (Nickname ch) 20) (\<lambda>(p4, n4).
     ebind (put_ushort p4 messageLen) (\<lambda>p5.
     ebind (PutData p5 buf (uint messageLen)) (\<lambda>(p6, n6). Inr p6))))))"

end
