(* ===== verification/ChatServer.thy ===== *)
theory ChatServer
  imports NetServer LockFreePool ChatMessages
begin

text \<open>
  The chat example (Examples/ChatServer/Content.h, Content.cpp), a derived class of \<open>NetServer\<close>: the
  callbacks of the network threads post jobs to a queue, the update thread takes them out and
  keeps the characters, the map from session to character and the 50 by 50 grid of sector lists. The
  derived class is the \<open>App\<close> of the server model. A \<open>Character*\<close> is a pointer into the
  lock-free pool, a \<open>Job*\<close> one into the thread-local job pool; the job queue is the list of its entries, which
  \<open>LockFreeQueue\<close> shows to be what its class implements. \<open>timeGetTime()\<close> and \<open>rand()\<close> are arguments.
\<close>

subsection \<open>State\<close>

definition kSectorXMax :: int where "kSectorXMax = 50"
definition kSectorYMax :: int where "kSectorYMax = 50"

datatype job_type = KMessage | KJoin | KLeave | KHeartbeat

record job =
  JType :: job_type
  JSession :: u64
  JPacket :: ptr

datatype chat_log =
    LogAccount u64 u64
  | LogUndefined u16 u64 "byte list" "byte list"
  | LogTimeout u64 "byte list" "byte list"

record chat =
  MaxUser :: u32
  JobEvent :: bool
  JobQueue :: "addr list"
  JobPool :: "job pool"
  CharacterPool :: "character lf_pool"
  CharacterMap :: "(u64 \<times> u64) list"
  SectorList :: "u64 list list list"
  MessageBuf :: "byte list"
  ChatLog :: "chat_log list"
  JobTPS :: u32
  UpdateThreadRunningTPS :: u32
  UpdateThreadSleepTime :: u32
  RawJob :: job
  RawCharacter :: character

type_synonym chat_server = "chat server"

definition upd_app :: "(chat \<Rightarrow> chat) \<Rightarrow> chat_server \<Rightarrow> chat_server" where
  "upd_app f s = s\<lparr>App := f (App s)\<rparr>"

text \<open>The constructor; the pools and the raw storage are what the members' constructors and \<open>new\<close> give.\<close>

definition ChatServer_ctor :: "u32 \<Rightarrow> job pool \<Rightarrow> character lf_pool \<Rightarrow> job \<Rightarrow> character \<Rightarrow> chat" where
  "ChatServer_ctor maxUser jobs chars rawJob rawChar =
     \<lparr>MaxUser = maxUser, JobEvent = False, JobQueue = [], JobPool = jobs, CharacterPool = chars, CharacterMap = [],
      SectorList = replicate 50 (replicate 50 []), MessageBuf = replicate 2000 0, ChatLog = [], JobTPS = 0,
      UpdateThreadRunningTPS = 0, UpdateThreadSleepTime = 0, RawJob = rawJob, RawCharacter = rawChar\<rparr>"

subsection \<open>Jobs\<close>

definition AllocJob :: "nat \<Rightarrow> job_type \<Rightarrow> u64 \<Rightarrow> ptr \<Rightarrow> chat \<Rightarrow> fault + chat \<times> addr" where
  "AllocJob tid type sessionID packet c =
     ebind (tls_Alloc tid (RawJob c) (JobPool c)) (\<lambda>(jp, job).
       Inr (c\<lparr>JobPool := write_data job \<lparr>JType = type, JSession = sessionID, JPacket = packet\<rparr> jp\<rparr>, job))"

definition FreeJob :: "nat \<Rightarrow> addr \<Rightarrow> chat \<Rightarrow> fault + chat" where
  "FreeJob tid job c = ebind (tls_Free tid job (JobPool c)) (\<lambda>jp. Inr (c\<lparr>JobPool := jp\<rparr>))"

text \<open>Every producer allocates a job, enqueues it and sets the event.\<close>

definition post_job :: "nat \<Rightarrow> job_type \<Rightarrow> u64 \<Rightarrow> ptr \<Rightarrow> chat_server \<Rightarrow> fault + chat_server" where
  "post_job tid type sessionID packet s =
     ebind (AllocJob tid type sessionID packet (App s)) (\<lambda>(c, job).
       Inr (s\<lparr>App := c\<lparr>JobQueue := JobQueue c @ [job], JobEvent := True\<rparr>\<rparr>))"

definition GetCharacterSize :: "chat \<Rightarrow> u32" where
  "GetCharacterSize c = of_nat (length (CharacterMap c))"

definition chat_OnConnectionRequest :: "chat_server \<Rightarrow> chat_server \<times> bool" where
  "chat_OnConnectionRequest s = (s, sint (GetCharacterSize (App s)) < sint (MaxUser (App s)))"

definition chat_OnClientJoin :: "nat \<Rightarrow> u64 \<Rightarrow> chat_server \<Rightarrow> fault + chat_server" where
  "chat_OnClientJoin tid sessionID s = post_job tid KJoin sessionID None s"

definition chat_OnClientLeave :: "nat \<Rightarrow> u64 \<Rightarrow> chat_server \<Rightarrow> fault + chat_server" where
  "chat_OnClientLeave tid sessionID s = post_job tid KLeave sessionID None s"

definition chat_OnRecv :: "nat \<Rightarrow> u64 \<Rightarrow> addr \<Rightarrow> chat_server \<Rightarrow> fault + chat_server" where
  "chat_OnRecv tid sessionID p s =
     ebind (get_packet p s) (\<lambda>pk. post_job tid KMessage sessionID (Some p) (set_packet p (fst (IncrementRef pk)) s))"

text \<open>One turn of the timer thread, before its \<open>Sleep\<close>.\<close>

definition HeartbeatTimerThread_step :: "nat \<Rightarrow> chat_server \<Rightarrow> fault + chat_server" where
  "HeartbeatTimerThread_step tid s = post_job tid KHeartbeat 0 None s"

text \<open>The callbacks a network thread \<open>tid\<close> sees.\<close>

definition chat_env :: "packet \<Rightarrow> nat \<Rightarrow> chat env" where
  "chat_env raw tid = \<lparr>NewPacket = raw, OnConnectionRequest = chat_OnConnectionRequest, OnClientJoin = chat_OnClientJoin tid,
     OnClientLeave = chat_OnClientLeave tid, OnRecv = chat_OnRecv tid\<rparr>"

subsection \<open>Characters\<close>

definition FindCharacter :: "u64 \<Rightarrow> chat \<Rightarrow> u64 option" where
  "FindCharacter sessionID c = map_of (CharacterMap c) sessionID"

definition load_char :: "u64 \<Rightarrow> chat \<Rightarrow> fault + character" where
  "load_char p c = load_node p (CharacterPool c)"

definition set_char :: "u64 \<Rightarrow> character \<Rightarrow> chat \<Rightarrow> chat" where
  "set_char p ch c = c\<lparr>CharacterPool := lf_write p ch (CharacterPool c)\<rparr>"

text \<open>\<open>std::map\<close> keeps its entries in the order of the keys.\<close>

fun map_insert :: "u64 \<Rightarrow> u64 \<Rightarrow> (u64 \<times> u64) list \<Rightarrow> (u64 \<times> u64) list" where
  "map_insert k v [] = [(k, v)]"
| "map_insert k v ((k', v') # m) = (if k < k' then (k, v) # (k', v') # m else (k', v') # map_insert k v m)"

definition map_erase :: "u64 \<Rightarrow> (u64 \<times> u64) list \<Rightarrow> (u64 \<times> u64) list" where
  "map_erase k m = filter (\<lambda>e. fst e \<noteq> k) m"

definition CreateCharacter :: "u32 \<Rightarrow> u64 \<Rightarrow> chat \<Rightarrow> (fault + chat \<times> u64 option) option" where
  "CreateCharacter now sessionID c =
     (if FindCharacter sessionID c \<noteq> None then Some (Inr (c, None))
      else case lf_Alloc (RawCharacter c) (CharacterPool c) of
             None \<Rightarrow> None
           | Some r \<Rightarrow> Some (ebind r (\<lambda>(pool, p).
               let c1 = c\<lparr>CharacterPool := pool\<rparr>
               in ebind (load_char p c1) (\<lambda>ch.
                    Inr ((set_char p (ch\<lparr>CSession := sessionID, AccountNo := 0, SectorX := - 1, LastRecvTime := now\<rparr>) c1)
                           \<lparr>CharacterMap := map_insert sessionID p (CharacterMap c)\<rparr>, Some p)))))"

subsection \<open>Sectors\<close>

text \<open>\<open>SectorList[y][x]\<close> with the promoted values of two shorts.\<close>

definition in_grid :: "int \<Rightarrow> int \<Rightarrow> bool" where
  "in_grid x y \<longleftrightarrow> 0 \<le> x \<and> x < kSectorXMax \<and> 0 \<le> y \<and> y < kSectorYMax"

definition sector :: "int \<Rightarrow> int \<Rightarrow> chat \<Rightarrow> u64 list" where
  "sector x y c = SectorList c ! nat y ! nat x"

definition set_sector :: "int \<Rightarrow> int \<Rightarrow> u64 list \<Rightarrow> chat \<Rightarrow> chat" where
  "set_sector x y l c = c\<lparr>SectorList := (SectorList c)[nat y := (SectorList c ! nat y)[nat x := l]]\<rparr>"

text \<open>The search loop erases the first occurrence.\<close>

definition sector_erase :: "u64 \<Rightarrow> character \<Rightarrow> chat \<Rightarrow> fault + chat" where
  "sector_erase p ch c =
     (let x = sint (SectorX ch); y = sint (SectorY ch)
      in if in_grid x y then Inr (set_sector x y (remove1 p (sector x y c)) c) else Inl OutOfBounds)"

definition sector_push :: "u64 \<Rightarrow> int \<Rightarrow> int \<Rightarrow> chat \<Rightarrow> chat" where
  "sector_push p x y c = set_sector x y (sector x y c @ [p]) c"

text \<open>The two names in a log line: \<open>%s\<close> reads a \<open>WCHAR[20]\<close> up to its null, and without one past the end of it.\<close>

fun wide_text :: "byte list \<Rightarrow> fault + byte list" where
  "wide_text (a # b # bs) = (if a = 0 \<and> b = 0 then Inr [] else ebind (wide_text bs) (\<lambda>t. Inr (a # b # t)))"
| "wide_text bs = Inl OutOfBounds"

definition log_names :: "character \<Rightarrow> fault + byte list \<times> byte list" where
  "log_names ch = ebind (wide_text (ID ch)) (\<lambda>i. ebind (wide_text (Nickname ch)) (\<lambda>n. Inr (i, n)))"

definition LeaveCharacter :: "u64 \<Rightarrow> chat \<Rightarrow> fault + chat" where
  "LeaveCharacter sessionID c =
     (case FindCharacter sessionID c of
        None \<Rightarrow> Inl Crashed
      | Some p \<Rightarrow>
          let c1 = c\<lparr>CharacterMap := map_erase sessionID (CharacterMap c)\<rparr>
          in ebind (load_char p c1) (\<lambda>ch.
             ebind (if 0 \<le> sint (SectorX ch) \<and> 0 \<le> sint (SectorY ch) then sector_erase p ch c1 else Inr c1) (\<lambda>c2.
             ebind (lf_Free p (CharacterPool c2)) (\<lambda>pool. Inr (c2\<lparr>CharacterPool := pool\<rparr>)))))"

subsection \<open>Sending\<close>

text \<open>The sends of one message; the \<open>n\<close>-th may draw \<open>rnd n\<close>, but only the first finds the packet unencoded.\<close>

fun send_all_to :: "u64 list \<Rightarrow> (nat \<Rightarrow> int) \<Rightarrow> nat \<Rightarrow> addr \<Rightarrow> chat_server \<Rightarrow> fault + chat_server \<times> nat" where
  "send_all_to [] rnd n pk s = Inr (s, n)"
| "send_all_to (p # ps) rnd n pk s =
     ebind (load_char p (App s)) (\<lambda>ch.
     ebind (SendPacket (CSession ch) (rnd n) pk s) (\<lambda>s1. send_all_to ps rnd (Suc n) pk s1))"

text \<open>The nested loops over the three rows and columns around a sector, those outside the grid skipped.\<close>

definition around :: "int \<Rightarrow> int \<Rightarrow> (int \<times> int) list" where
  "around sectorX sectorY =
     map (\<lambda>(y, x). (x, y))
       (List.product (filter (\<lambda>y. 0 \<le> y \<and> y < kSectorYMax) [sectorY - 1, sectorY, sectorY + 1])
                     (filter (\<lambda>x. 0 \<le> x \<and> x < kSectorXMax) [sectorX - 1, sectorX, sectorX + 1]))"

fun send_sectors :: "(int \<times> int) list \<Rightarrow> (nat \<Rightarrow> int) \<Rightarrow> nat \<Rightarrow> addr \<Rightarrow> chat_server \<Rightarrow> fault + chat_server" where
  "send_sectors [] rnd n pk s = Inr s"
| "send_sectors ((x, y) # xys) rnd n pk s =
     ebind (send_all_to (sector x y (App s)) rnd n pk s) (\<lambda>(s1, n1). send_sectors xys rnd n1 pk s1)"

definition SendPacketAround :: "int \<Rightarrow> int \<Rightarrow> (nat \<Rightarrow> int) \<Rightarrow> addr \<Rightarrow> chat_server \<Rightarrow> fault + chat_server" where
  "SendPacketAround sectorX sectorY rnd pk s = send_sectors (around sectorX sectorY) rnd 0 pk s"

subsection \<open>Messages\<close>

text \<open>Work on the packet and on the character behind a pointer.\<close>

definition on_packet :: "addr \<Rightarrow> (packet \<Rightarrow> fault + packet \<times> 'a) \<Rightarrow> chat_server \<Rightarrow> ('a \<Rightarrow> chat_server \<Rightarrow> fault + 'b) \<Rightarrow> fault + 'b" where
  "on_packet p f s k = ebind (get_packet p s) (\<lambda>pk. ebind (f pk) (\<lambda>(pk', a). k a (set_packet p pk' s)))"

definition write_packet :: "addr \<Rightarrow> (packet \<Rightarrow> fault + packet) \<Rightarrow> chat_server \<Rightarrow> fault + chat_server" where
  "write_packet p f s = ebind (get_packet p s) (\<lambda>pk. ebind (f pk) (\<lambda>pk'. Inr (set_packet p pk' s)))"

definition chat_login :: "u64 \<Rightarrow> u64 \<Rightarrow> int \<Rightarrow> addr \<Rightarrow> chat_server \<Rightarrow> fault + chat_server" where
  "chat_login sessionID cp rnd p s =
     ebind (load_char cp (App s)) (\<lambda>ch.
       if SectorX ch \<noteq> - 1 then Inl Crashed
       else on_packet p (\<lambda>pk. read_login pk ch) s (\<lambda>ch1 s1.
            ebind (write_packet p (\<lambda>pk. login_reply pk ch1) (upd_app (set_char cp ch1) s1)) (SendPacket sessionID rnd p)))"

text \<open>Leaving the old sector, if there is one, and entering the new one, if it exists.\<close>

definition move_character :: "u64 \<Rightarrow> character \<Rightarrow> u16 \<Rightarrow> u16 \<Rightarrow> chat \<Rightarrow> fault + chat" where
  "move_character cp ch sectorX sectorY c =
     (if in_grid (uint sectorX) (uint sectorY) then
        ebind (if SectorX ch \<noteq> - 1 then sector_erase cp ch c else Inr c) (\<lambda>c1.
          Inr (sector_push cp (uint sectorX) (uint sectorY)
                 (set_char cp (ch\<lparr>SectorX := sectorX, SectorY := sectorY\<rparr>) c1)))
      else Inr c)"

definition chat_move :: "chat env \<Rightarrow> nat \<Rightarrow> u64 \<Rightarrow> u64 \<Rightarrow> int \<Rightarrow> addr \<Rightarrow> chat_server \<Rightarrow> fault + chat_server" where
  "chat_move env tid sessionID cp rnd p s =
     on_packet p read_sector_move s (\<lambda>(accountNo, sectorX, sectorY) s1.
     ebind (load_char cp (App s1)) (\<lambda>ch.
       if AccountNo ch \<noteq> accountNo then
         KillSession env tid (CSession ch) (upd_app (\<lambda>c. c\<lparr>ChatLog := ChatLog c @ [LogAccount accountNo (AccountNo ch)]\<rparr>) s1)
       else
         ebind (ebind (move_character cp ch sectorX sectorY (App s1)) (\<lambda>c. Inr (s1\<lparr>App := c\<rparr>))) (\<lambda>s2.
         ebind (load_char cp (App s2)) (\<lambda>ch2.
         ebind (write_packet p (\<lambda>pk. sector_reply pk ch2) s2) (SendPacket sessionID rnd p)))))"

definition chat_message :: "chat env \<Rightarrow> nat \<Rightarrow> u64 \<Rightarrow> (nat \<Rightarrow> int) \<Rightarrow> addr \<Rightarrow> chat_server \<Rightarrow> fault + chat_server" where
  "chat_message env tid cp rnd p s =
     on_packet p read_message_head s (\<lambda>(accountNo, messageLen) s1.
     ebind (load_char cp (App s1)) (\<lambda>ch.
       if AccountNo ch \<noteq> accountNo then
         KillSession env tid (CSession ch) (upd_app (\<lambda>c. c\<lparr>ChatLog := ChatLog c @ [LogAccount accountNo (AccountNo ch)]\<rparr>) s1)
       else if kMessageBufsize \<le> unat messageLen then Inl Crashed
       else
         on_packet p (\<lambda>pk. read_message_text pk messageLen (MessageBuf (App s1))) s1 (\<lambda>buf s2.
         let s3 = upd_app (\<lambda>c. c\<lparr>MessageBuf := buf\<rparr>) s2
         in ebind (write_packet p (\<lambda>pk. message_reply pk ch messageLen buf) s3) (\<lambda>s4.
            SendPacketAround (sint (SectorX ch)) (sint (SectorY ch)) rnd p s4))))"

definition MessageControl ::
  "chat env \<Rightarrow> nat \<Rightarrow> u32 \<Rightarrow> (nat \<Rightarrow> int) \<Rightarrow> u64 \<Rightarrow> addr \<Rightarrow> chat_server \<Rightarrow> fault + chat_server" where
  "MessageControl env tid now rnd sessionID p s =
     (case FindCharacter sessionID (App s) of
        None \<Rightarrow> Inl Crashed
      | Some cp \<Rightarrow>
          ebind (load_char cp (App s)) (\<lambda>ch0.
          let s1 = upd_app (set_char cp (ch0\<lparr>LastRecvTime := now\<rparr>)) s
          in on_packet p get_ushort s1 (\<lambda>messageType s2.
             ebind (if messageType = kCsChatServer then Inr s2
                    else if messageType = kCsChatReqLogin then chat_login sessionID cp (rnd 0) p s2
                    else if messageType = kCsChatReqSectorMove then chat_move env tid sessionID cp (rnd 0) p s2
                    else if messageType = kCsChatReqMessage then chat_message env tid cp rnd p s2
                    else if messageType = kCsChatReqHeartbeat then Inr s2
                    else ebind (KillSession env tid sessionID s2) (\<lambda>s3.
                         ebind (load_char cp (App s3)) (\<lambda>ch.
                         ebind (log_names ch) (\<lambda>(i, n).
                           Inr (upd_app (\<lambda>c. c\<lparr>ChatLog := ChatLog c @ [LogUndefined messageType (AccountNo ch) i n]\<rparr>) s3)))))
               (FreePacket tid p))))"

subsection \<open>Heartbeats\<close>

text \<open>The loop over the map, which \<open>KillSession\<close> does not change.\<close>

fun check_hearts :: "chat env \<Rightarrow> nat \<Rightarrow> u32 \<Rightarrow> (u64 \<times> u64) list \<Rightarrow> chat_server \<Rightarrow> fault + chat_server" where
  "check_hearts env tid curTime [] s = Inr s"
| "check_hearts env tid curTime ((k, p) # es) s =
     ebind (load_char p (App s)) (\<lambda>ch.
     ebind (if 40000 < curTime - LastRecvTime ch then
              ebind (log_names ch) (\<lambda>(i, n).
                KillSession env tid (CSession ch) (upd_app (\<lambda>c. c\<lparr>ChatLog := ChatLog c @ [LogTimeout (AccountNo ch) i n]\<rparr>) s))
            else Inr s) (check_hearts env tid curTime es))"

definition CheckHeartBeat :: "chat env \<Rightarrow> nat \<Rightarrow> u32 \<Rightarrow> chat_server \<Rightarrow> fault + chat_server" where
  "CheckHeartBeat env tid curTime s = check_hearts env tid curTime (CharacterMap (App s)) s"

subsection \<open>The update thread\<close>

definition run_job ::
  "chat env \<Rightarrow> nat \<Rightarrow> u32 \<Rightarrow> (nat \<Rightarrow> int) \<Rightarrow> job \<Rightarrow> chat_server \<Rightarrow> (fault + chat_server) option" where
  "run_job env tid now rnd j s =
     (case JType j of
        KMessage \<Rightarrow> Some (case JPacket j of None \<Rightarrow> Inl NullDeref | Some p \<Rightarrow> MessageControl env tid now rnd (JSession j) p s)
      | KJoin \<Rightarrow> map_option (map_sum id (\<lambda>(c, p). s\<lparr>App := c\<rparr>)) (CreateCharacter now (JSession j) (App s))
      | KLeave \<Rightarrow> Some (ebind (LeaveCharacter (JSession j) (App s)) (\<lambda>c. Inr (s\<lparr>App := c\<rparr>)))
      | KHeartbeat \<Rightarrow> Some (CheckHeartBeat env tid now s))"

text \<open>A turn of its loop that finds a job (with an empty queue it is the wait below).\<close>

definition UpdateThread_step ::
  "chat env \<Rightarrow> nat \<Rightarrow> u32 \<Rightarrow> (nat \<Rightarrow> int) \<Rightarrow> chat_server \<Rightarrow> (fault + chat_server) option" where
  "UpdateThread_step env tid now rnd s =
     (case JobQueue (App s) of
        [] \<Rightarrow> Some (Inr s)
      | job # rest \<Rightarrow>
          let s1 = upd_app (\<lambda>c. c\<lparr>JobQueue := rest, JobTPS := JobTPS c + 1\<rparr>) s
          in case read_data (JobPool (App s1)) job of
               None \<Rightarrow> Some (Inl OutOfBounds)
             | Some j \<Rightarrow>
                 map_option (\<lambda>r. ebind r (\<lambda>s2. ebind (FreeJob tid job (App s2)) (\<lambda>c. Inr (s2\<lparr>App := c\<rparr>))))
                   (run_job env tid now rnd j s1))"

text \<open>The wait: it ends when the event is set, which it resets; \<open>None\<close> is a thread that stays blocked.\<close>

definition UpdateThread_wait :: "u32 \<Rightarrow> u32 \<Rightarrow> chat \<Rightarrow> chat option" where
  "UpdateThread_wait t0 t1 c =
     (if JobEvent c then Some (c\<lparr>JobEvent := False, UpdateThreadSleepTime := UpdateThreadSleepTime c + (t1 - t0),
        UpdateThreadRunningTPS := UpdateThreadRunningTPS c + 1\<rparr>) else None)"

text \<open>The counters \<open>main\<close> reads once a second, and resets.\<close>

definition GetJobTPS :: "chat \<Rightarrow> chat \<times> u32" where
  "GetJobTPS c = (c\<lparr>JobTPS := 0\<rparr>, JobTPS c)"

definition GetThreadRunningTPS :: "chat \<Rightarrow> chat \<times> u32" where
  "GetThreadRunningTPS c = (c\<lparr>UpdateThreadRunningTPS := 0\<rparr>, UpdateThreadRunningTPS c)"

definition GetThreadRunningTime :: "chat \<Rightarrow> chat \<times> u32" where
  "GetThreadRunningTime c = (c\<lparr>UpdateThreadSleepTime := 0\<rparr>, UpdateThreadSleepTime c)"

definition RemainJob :: "chat \<Rightarrow> u32" where
  "RemainJob c = of_nat (length (JobQueue c))"

end
