(* ===== verification/ChatRoster.thy ===== *)
theory ChatRoster
  imports ChatServer
begin

text \<open>
  The characters of the chat example as an abstract roster: which sessions have one, and in which
  sector it stands. The concrete state keeps this in three places, the pool of characters, the map and the
  sector lists; the invariant says that they agree, and the operations on characters are shown to
  preserve it and to do on the roster what they should.
\<close>

subsection \<open>The roster\<close>

definition place :: "character \<Rightarrow> (int \<times> int) option" where
  "place ch = (if SectorX ch = - 1 then None else Some (sint (SectorX ch), sint (SectorY ch)))"

definition player :: "chat \<Rightarrow> u64 \<Rightarrow> character option" where
  "player c p = lf_read (CharacterPool c) p"

definition roster :: "chat \<Rightarrow> u64 \<Rightarrow> (int \<times> int) option option" where
  "roster c sessionID =
     (case FindCharacter sessionID c of None \<Rightarrow> None | Some p \<Rightarrow> map_option place (player c p))"

subsection \<open>The invariant\<close>

definition ptrs :: "chat \<Rightarrow> u64 set" where
  "ptrs c = snd ` set (CharacterMap c)"

definition map_ok :: "chat \<Rightarrow> bool" where
  "map_ok c \<longleftrightarrow> sorted_wrt (<) (map fst (CharacterMap c)) \<and> distinct (map snd (CharacterMap c))"

definition chars_pool_ok :: "chat \<Rightarrow> bool" where
  "chars_pool_ok c \<longleftrightarrow> 0 < MemoryAllocSize (CharacterPool c) \<and>
     (\<exists>L. fp_inv (CharacterPool c) L ((\<lambda>p. p - sizeof_PadType) ` ptrs c) \<and> length L + card (ptrs c) < 2 ^ 31)"

definition entries_ok :: "chat \<Rightarrow> bool" where
  "entries_ok c \<longleftrightarrow> (\<forall>k p. (k, p) \<in> set (CharacterMap c) \<longrightarrow>
     (\<exists>ch. player c p = Some ch \<and> CSession ch = k \<and> (\<forall>x y. place ch = Some (x, y) \<longrightarrow> in_grid x y)))"

definition grid_dims :: "chat \<Rightarrow> bool" where
  "grid_dims c \<longleftrightarrow> length (SectorList c) = 50 \<and> (\<forall>row \<in> set (SectorList c). length row = 50)"

definition grid_ok :: "chat \<Rightarrow> bool" where
  "grid_ok c \<longleftrightarrow> grid_dims c \<and>
     (\<forall>x y. in_grid x y \<longrightarrow> distinct (sector x y c) \<and>
        (\<forall>p. p \<in> set (sector x y c) \<longleftrightarrow> p \<in> ptrs c \<and> map_option place (player c p) = Some (Some (x, y))))"

definition chars_ok :: "chat \<Rightarrow> bool" where
  "chars_ok c \<longleftrightarrow> map_ok c \<and> chars_pool_ok c \<and> entries_ok c \<and> grid_ok c"

text \<open>Room for one more block of characters.\<close>

definition chat_room :: "chat \<Rightarrow> bool" where
  "chat_room c \<longleftrightarrow> has_room (CharacterPool c) (nat (MemoryAllocSize (CharacterPool c))) (unat (TotalNodeCnt (CharacterPool c)))"

lemmas chat_inv_defs = chars_ok_def map_ok_def chars_pool_ok_def entries_ok_def grid_ok_def

subsection \<open>The map\<close>

lemma set_map_insert: "set (map_insert k v m) = insert (k, v) (set m)"
  by (induction k v m rule: map_insert.induct) auto

lemma sorted_map_insert:
  "sorted_wrt (<) (map fst m) \<Longrightarrow> k \<notin> fst ` set m \<Longrightarrow> sorted_wrt (<) (map fst (map_insert k v m))"
proof (induction k v m rule: map_insert.induct)
  case (2 k v k' v' m)
  have "k' < j" if "j \<in> fst ` set (map_insert k v m)" "\<not> k < k'" for j
    using that 2(2,3) by (auto simp: set_map_insert image_iff)
  with 2 show ?case by (auto simp: image_iff)
qed simp

lemma distinct_map_insert:
  "distinct (map snd m) \<Longrightarrow> v \<notin> snd ` set m \<Longrightarrow> distinct (map snd (map_insert k v m))"
proof (induction k v m rule: map_insert.induct)
  case (2 k v k' v' m)
  then show ?case using set_map_insert [of k v m] by (auto simp: image_iff)
qed simp

lemma map_of_map_insert:
  "k \<notin> fst ` set m \<Longrightarrow> map_of (map_insert k v m) = (map_of m)(k \<mapsto> v)"
  by (induction k v m rule: map_insert.induct) (auto simp: fun_eq_iff)

lemma set_map_erase: "set (map_erase k m) = {e \<in> set m. fst e \<noteq> k}"
  by (auto simp: map_erase_def)

lemma map_of_map_erase: "map_of (map_erase k m) = (map_of m)(k := None)"
  by (induction m) (auto simp: map_erase_def fun_eq_iff)

lemma map_ok_distinct: "map_ok c \<Longrightarrow> distinct (map fst (CharacterMap c))"
  by (auto simp: map_ok_def strict_sorted_iff)

lemma map_erase_ok:
  assumes "map_ok c"
  shows "map_ok (c\<lparr>CharacterMap := map_erase k (CharacterMap c)\<rparr>)"
  using assms by (auto simp: map_ok_def map_erase_def sorted_wrt_map sorted_wrt_filter distinct_map_filter)

lemma FindCharacter_iff:
  "map_ok c \<Longrightarrow> FindCharacter k c = Some p \<longleftrightarrow> (k, p) \<in> set (CharacterMap c)"
  using map_ok_distinct by (simp add: FindCharacter_def)

lemma FindCharacter_None: "FindCharacter k c = None \<longleftrightarrow> k \<notin> fst ` set (CharacterMap c)"
  by (simp add: FindCharacter_def map_of_eq_None_iff)

subsection \<open>Access to characters\<close>

lemma ptr_used:
  assumes "chars_ok c" "p \<in> ptrs c"
  shows "p \<noteq> 0" "\<exists>ch. player c p = Some ch" "\<exists>ch. load_char p c = Inr ch \<and> player c p = Some ch"
proof -
  obtain L where "fp_inv (CharacterPool c) L ((\<lambda>p. p - sizeof_PadType) ` ptrs c)"
    using assms(1) by (auto simp: chars_ok_def chars_pool_ok_def)
  from used_addr [OF this, of "p - sizeof_PadType"] lf_read_used [OF this, of "p - sizeof_PadType"] assms(2)
  show nz: "p \<noteq> 0" and ch: "\<exists>ch. player c p = Some ch" by (auto simp: player_def)
  then show "\<exists>ch. load_char p c = Inr ch \<and> player c p = Some ch"
    by (auto simp: load_char_def load_node_def player_def)
qed

lemma load_char_player: "load_char p c = Inr ch \<longleftrightarrow> p \<noteq> 0 \<and> player c p = Some ch"
  by (auto simp: load_char_def load_node_def player_def split: option.splits)

lemma in_ptrs: "(k, p) \<in> set (CharacterMap c) \<Longrightarrow> p \<in> ptrs c"
  by (force simp: ptrs_def)

lemma ptrs_iff: "p \<in> ptrs c \<longleftrightarrow> (\<exists>k. (k, p) \<in> set (CharacterMap c))"
  by (force simp: ptrs_def)

lemma find_ptr: "FindCharacter k c = Some p \<Longrightarrow> p \<in> ptrs c"
  unfolding FindCharacter_def ptrs_def using map_of_SomeD by force

lemma roster_None: "chars_ok c \<Longrightarrow> roster c k = None \<longleftrightarrow> FindCharacter k c = None"
  using ptr_used(2) [OF _ find_ptr] by (fastforce simp: roster_def split: option.splits)

text \<open>Writing a character changes what is behind its pointer and nothing else.\<close>

lemma player_set: "player (set_char p ch c) q = (if q = p then map_option (\<lambda>_. ch) (player c p) else player c q)"
  by (simp add: player_def set_char_def lf_read_write)

lemma set_char_fields [simp]:
  "CharacterMap (set_char p ch c) = CharacterMap c" "SectorList (set_char p ch c) = SectorList c"
  "ptrs (set_char p ch c) = ptrs c" "sector x y (set_char p ch c) = sector x y c"
  "map_ok (set_char p ch c) = map_ok c" "grid_dims (set_char p ch c) = grid_dims c"
  "FindCharacter k (set_char p ch c) = FindCharacter k c"
  by (simp_all add: set_char_def ptrs_def sector_def map_ok_def grid_dims_def FindCharacter_def)

lemma set_char_pool: "chars_pool_ok c \<Longrightarrow> chars_pool_ok (set_char p ch c)"
  unfolding chars_pool_ok_def by (auto simp: ptrs_def) (auto simp: set_char_def intro: lf_write_inv)

text \<open>An update that moves nobody keeps the invariant and the roster.\<close>

lemma set_char_same:
  assumes "chars_ok c" "player c p = Some ch" "place ch' = place ch" "CSession ch' = CSession ch"
  shows "chars_ok (set_char p ch' c) \<and> roster (set_char p ch' c) = roster c"
proof -
  have pl: "map_option place (player (set_char p ch' c) q) = map_option place (player c q)" for q
    using assms(2,3) by (simp add: player_set)
  have "entries_ok (set_char p ch' c)"
    unfolding entries_ok_def
  proof (intro allI impI)
    fix k q assume "(k, q) \<in> set (CharacterMap (set_char p ch' c))"
    then obtain d where d: "player c q = Some d" "CSession d = k" "\<forall>x y. place d = Some (x, y) \<longrightarrow> in_grid x y"
      using assms(1) unfolding chars_ok_def entries_ok_def by auto
    then show "\<exists>d. player (set_char p ch' c) q = Some d \<and> CSession d = k \<and> (\<forall>x y. place d = Some (x, y) \<longrightarrow> in_grid x y)"
      using assms(2-4) by (auto simp: player_set)
  qed
  moreover have "grid_ok (set_char p ch' c)" using assms(1) pl by (simp add: chars_ok_def grid_ok_def)
  ultimately have "chars_ok (set_char p ch' c)" using assms(1) by (simp add: chars_ok_def set_char_pool)
  then show ?thesis by (simp add: roster_def pl fun_eq_iff cong: option.case_cong)
qed

subsection \<open>The grid\<close>

lemma grid_nat: "in_grid x y \<Longrightarrow> nat x < 50 \<and> nat y < 50"
  by (auto simp: in_grid_def kSectorXMax_def kSectorYMax_def)

lemma in_grid_nat_eq: "in_grid x y \<Longrightarrow> in_grid x' y' \<Longrightarrow> nat x = nat x' \<and> nat y = nat y' \<longleftrightarrow> x = x' \<and> y = y'"
  by (auto simp: in_grid_def)

lemma sector_set:
  assumes "grid_dims c" "in_grid x y" "in_grid x' y'"
  shows "sector x' y' (set_sector x y l c) = (if x' = x \<and> y' = y then l else sector x' y' c)"
proof -
  have "length (SectorList c ! nat y) = 50" using assms(1) grid_nat [OF assms(2)] by (simp add: grid_dims_def)
  then show ?thesis
    using assms(1) grid_nat [OF assms(2)] grid_nat [OF assms(3)] in_grid_nat_eq [OF assms(2,3)]
    by (auto simp: sector_def set_sector_def nth_list_update grid_dims_def)
qed

lemma set_sector_dims: "grid_dims c \<Longrightarrow> in_grid x y \<Longrightarrow> grid_dims (set_sector x y l c)"
  using grid_nat [of x y] nth_mem [of "nat y" "SectorList c"]
  by (auto simp: grid_dims_def set_sector_def dest!: set_update_subset_insert [THEN subsetD])

lemma set_sector_fields [simp]:
  "CharacterMap (set_sector x y l c) = CharacterMap c" "CharacterPool (set_sector x y l c) = CharacterPool c"
  by (simp_all add: set_sector_def)

text \<open>What depends on the pool and the map only.\<close>

lemma chars_cong:
  assumes "CharacterPool c' = CharacterPool c" "CharacterMap c' = CharacterMap c"
  shows "ptrs c' = ptrs c" "player c' = player c" "roster c' = roster c" "map_ok c' = map_ok c"
    "chars_pool_ok c' = chars_pool_ok c" "entries_ok c' = entries_ok c" "FindCharacter k c' = FindCharacter k c"
    "load_char p c' = load_char p c"
proof -
  show 1: "player c' = player c" by (simp add: player_def fun_eq_iff assms)
  show 2: "FindCharacter k c' = FindCharacter k c" for k by (simp add: FindCharacter_def assms)
  show "roster c' = roster c" unfolding roster_def 1 2 ..
  show "ptrs c' = ptrs c" "map_ok c' = map_ok c" "entries_ok c' = entries_ok c" "load_char p c' = load_char p c"
    by (simp_all add: ptrs_def map_ok_def entries_ok_def 1 assms load_char_def)
  show "chars_pool_ok c' = chars_pool_ok c" by (simp add: chars_pool_ok_def ptrs_def assms)
qed

lemmas set_sector_chars [simp] = chars_cong [OF set_sector_fields(2) set_sector_fields(1)]

text \<open>The grid without one character: its sector, if it has one, loses it.\<close>

definition leave_grid :: "u64 \<Rightarrow> character \<Rightarrow> chat \<Rightarrow> chat" where
  "leave_grid p ch c = (case place ch of None \<Rightarrow> c | Some (x, y) \<Rightarrow> set_sector x y (remove1 p (sector x y c)) c)"

definition grid_without :: "u64 \<Rightarrow> chat \<Rightarrow> bool" where
  "grid_without p c \<longleftrightarrow> grid_dims c \<and>
     (\<forall>x y. in_grid x y \<longrightarrow> distinct (sector x y c) \<and>
        (\<forall>q. q \<in> set (sector x y c) \<longleftrightarrow> q \<noteq> p \<and> q \<in> ptrs c \<and> map_option place (player c q) = Some (Some (x, y))))"

lemma leave_grid_without:
  assumes "grid_ok c" "player c p = Some ch" "\<forall>x y. place ch = Some (x, y) \<longrightarrow> in_grid x y"
  shows "grid_without p (leave_grid p ch c)"
proof (cases "place ch")
  case None
  then show ?thesis using assms(1,2) by (auto simp: leave_grid_def grid_ok_def grid_without_def)
next
  case (Some xy)
  obtain x y where xy: "xy = (x, y)" by fastforce
  with Some assms(3) have g: "in_grid x y" by simp
  have d: "grid_dims c" using assms(1) by (simp add: grid_ok_def)
  have "distinct (sector x' y' (leave_grid p ch c)) \<and>
      (\<forall>q. q \<in> set (sector x' y' (leave_grid p ch c)) \<longleftrightarrow>
         q \<noteq> p \<and> q \<in> ptrs c \<and> map_option place (player c q) = Some (Some (x', y')))" if g': "in_grid x' y'" for x' y'
  proof -
    have 1: "distinct (sector x' y' c)"
      "\<And>q. q \<in> set (sector x' y' c) \<longleftrightarrow> q \<in> ptrs c \<and> map_option place (player c q) = Some (Some (x', y'))"
      using assms(1) g' unfolding grid_ok_def by blast+
    show ?thesis
    proof (cases "x' = x \<and> y' = y")
      case True
      then have "sector x' y' (leave_grid p ch c) = remove1 p (sector x' y' c)"
        using Some xy d g by (simp add: leave_grid_def sector_set)
      then show ?thesis using 1 by auto
    next
      case False
      then have "sector x' y' (leave_grid p ch c) = sector x' y' c"
        using Some xy d g g' by (auto simp: leave_grid_def sector_set)
      moreover have "map_option place (player c p) \<noteq> Some (Some (x', y'))" using False assms(2) Some xy by auto
      ultimately show ?thesis using 1 by auto
    qed
  qed
  then show ?thesis using Some xy d g by (auto simp: grid_without_def leave_grid_def set_sector_dims)
qed

lemma sector_erase_leave:
  assumes "\<forall>x y. place ch = Some (x, y) \<longrightarrow> in_grid x y" "SectorX ch \<noteq> - 1"
  shows "sector_erase p ch c = Inr (leave_grid p ch c)"
  using assms by (auto simp: sector_erase_def leave_grid_def place_def Let_def)

subsection \<open>Characters come, move and go\<close>

lemma ptrs_card: "map_ok c \<Longrightarrow> card (ptrs c) = length (CharacterMap c) \<and> card ((\<lambda>p. p - sizeof_PadType) ` ptrs c) = card (ptrs c)"
proof -
  assume "map_ok c"
  then have "card (ptrs c) = length (CharacterMap c)"
    using distinct_card [of "map snd (CharacterMap c)"] by (simp add: map_ok_def ptrs_def)
  then show ?thesis by (simp add: card_image inj_on_def)
qed

lemma unique_key: "map_ok c \<Longrightarrow> (k, p) \<in> set (CharacterMap c) \<Longrightarrow> (k', p) \<in> set (CharacterMap c) \<Longrightarrow> k' = k"
  unfolding map_ok_def by (metis distinct_map fst_conv inj_onD snd_conv)

lemma roster_player: "FindCharacter k c = Some p \<Longrightarrow> roster c k = map_option place (player c p)"
  by (simp add: roster_def)

text \<open>A new character, in no sector.\<close>

lemma CreateCharacter_ok:
  assumes ok: "chars_ok c" and room: "chat_room c" and new: "FindCharacter k c = None"
  shows "\<exists>c' p. CreateCharacter now k c = Some (Inr (c', Some p)) \<and> chars_ok c' \<and> roster c' = (roster c)(k \<mapsto> None) \<and>
    MessageBuf c' = MessageBuf c \<and> JobQueue c' = JobQueue c \<and> JobPool c' = JobPool c"
proof -
  let ?P = "CharacterPool c" and ?U = "(\<lambda>p. p - sizeof_PadType) ` ptrs c"
  obtain L where L: "fp_inv ?P L ?U" "0 < MemoryAllocSize ?P" "length L + card (ptrs c) < 2 ^ 31"
    using ok by (auto simp: chars_ok_def chars_pool_ok_def)
  have cu: "card ?U = card (ptrs c)" using ok ptrs_card by (simp add: chars_ok_def)
  have "TotalNodeCnt ?P = of_nat (length L + card (ptrs c))" using L(1) cu by (simp add: fp_inv_def fp_cnt_def)
  then have "unat (TotalNodeCnt ?P) = length L + card (ptrs c)" using L(3)
    by (simp del: of_nat_add add: unsigned_of_nat take_bit_nat_eq_self)
  then have "has_room ?P (nat (MemoryAllocSize ?P) + 0) (length L + card (ptrs c))" using room by (simp add: chat_room_def)
  from lf_Alloc_inv [OF L(1,2) this, of "RawCharacter c"] obtain P' u L' where
    a: "lf_Alloc (RawCharacter c) ?P = Some (Inr (P', u + sizeof_PadType))" "u \<notin> ?U" "fp_inv P' L' (insert u ?U)"
      "same_shape ?P P'" "same_data ?P P'" "has_room P' 0 (length L' + 1 + card (ptrs c))" by blast
  let ?p = "u + sizeof_PadType" and ?c1 = "c\<lparr>CharacterPool := P'\<rparr>"
  have np: "?p \<notin> ptrs c" using a(2) by (auto simp: image_iff)
  have nz: "?p \<noteq> 0" using used_addr [OF a(3)] by simp
  obtain ch where ch: "lf_read P' ?p = Some ch" using lf_read_used [OF a(3)] by auto
  let ?ch = "ch\<lparr>CSession := k, AccountNo := 0, SectorX := - 1, LastRecvTime := now\<rparr>"
  let ?c' = "(set_char ?p ?ch ?c1)\<lparr>CharacterMap := map_insert k ?p (CharacterMap c)\<rparr>"
  have create: "CreateCharacter now k c = Some (Inr (?c', Some ?p))"
    using a(1) nz ch new by (simp add: CreateCharacter_def load_char_def load_node_def)
  have old: "player ?c' q = player c q" if "q \<in> ptrs c" for q
  proof -
    have "player c q \<noteq> None" using ptr_used [OF ok that] by auto
    then have "lf_read P' q = lf_read ?P q" using lf_read_same [OF a(5)] by (simp add: player_def)
    moreover have "q \<noteq> ?p" using np that by auto
    ultimately show ?thesis by (simp add: player_def set_char_def lf_read_write)
  qed
  have newp: "player ?c' ?p = Some ?ch" using ch by (simp add: player_def set_char_def lf_read_write)
  have pt: "ptrs ?c' = insert ?p (ptrs c)" by (auto simp: ptrs_def set_map_insert)
  have nk: "k \<notin> fst ` set (CharacterMap c)" using new by (simp add: FindCharacter_None)
  have "map_ok ?c'" using ok nk np sorted_map_insert [OF _ nk] distinct_map_insert [of "CharacterMap c" ?p k]
    by (simp add: chars_ok_def map_ok_def ptrs_def)
  moreover have "chars_pool_ok ?c'"
  proof -
    have "(\<lambda>p. p - sizeof_PadType) ` ptrs ?c' = insert u ?U" by (simp add: pt)
    moreover have "card (ptrs ?c') = Suc (card (ptrs c))" using np by (simp add: pt card_insert_disjoint)
    ultimately show ?thesis
      unfolding chars_pool_ok_def using a(3,4,6) L(2) lf_write_inv
      by (auto simp: set_char_def same_shape_def has_room_def intro!: exI [of _ L'])
  qed
  moreover have "entries_ok ?c'"
    unfolding entries_ok_def
  proof (intro allI impI)
    fix k' q assume "(k', q) \<in> set (CharacterMap ?c')"
    then consider "k' = k" "q = ?p" | "(k', q) \<in> set (CharacterMap c)" "q \<in> ptrs c"
      using in_ptrs by (auto simp: set_map_insert)
    then show "\<exists>d. player ?c' q = Some d \<and> CSession d = k' \<and> (\<forall>x y. place d = Some (x, y) \<longrightarrow> in_grid x y)"
    proof cases
      case 1
      then show ?thesis using newp by (simp add: place_def)
    next
      case 2
      then show ?thesis using ok old by (simp add: chars_ok_def entries_ok_def)
    qed
  qed
  moreover have "grid_ok ?c'"
  proof -
    have sec: "sector x y ?c' = sector x y c" for x y by (simp add: sector_def set_char_def)
    have g: "grid_ok c" using ok by (simp add: chars_ok_def)
    have "(q \<in> set (sector x y c)) = (q \<in> insert ?p (ptrs c) \<and> map_option place (player ?c' q) = Some (Some (x, y)))"
      if "in_grid x y" for q x y
    proof -
      have gq: "q \<in> set (sector x y c) \<longleftrightarrow> q \<in> ptrs c \<and> map_option place (player c q) = Some (Some (x, y))"
        using g that unfolding grid_ok_def by blast
      show ?thesis
      proof (cases "q = ?p")
        case True
        then show ?thesis using gq np newp by (simp add: place_def)
      next
        case False
        then show ?thesis using gq old [of q] by (cases "q \<in> ptrs c") simp_all
      qed
    qed
    then show ?thesis using g unfolding grid_ok_def sec pt by (simp add: grid_dims_def set_char_def)
  qed
  moreover have "roster ?c' = (roster c)(k \<mapsto> None)"
  proof
    fix j
    have "FindCharacter j ?c' = (if j = k then Some ?p else FindCharacter j c)"
      using nk by (simp add: FindCharacter_def map_of_map_insert)
    then show "roster ?c' j = ((roster c)(k \<mapsto> None)) j"
      using newp old find_ptr by (auto simp: roster_def place_def split: option.splits)
  qed
  ultimately have "chars_ok ?c'" "roster ?c' = (roster c)(k \<mapsto> None)" by (simp_all add: chars_ok_def)
  then show ?thesis using create by (intro exI [of _ ?c'] exI [of _ ?p]) (simp add: set_char_def)
qed

text \<open>A session's character: its pointer, its data, and how the invariant reads there.\<close>

lemma chars_ok_entry:
  assumes "chars_ok c" "FindCharacter k c = Some p"
  obtains ch where "(k, p) \<in> set (CharacterMap c)" "p \<in> ptrs c" "p \<noteq> 0" "player c p = Some ch" "load_char p c = Inr ch"
    "CSession ch = k" "\<forall>x y. place ch = Some (x, y) \<longrightarrow> in_grid x y"
proof -
  have m: "(k, p) \<in> set (CharacterMap c)" using assms by (simp add: chars_ok_def FindCharacter_iff)
  with assms(1) obtain ch where "player c p = Some ch" "CSession ch = k" "\<forall>x y. place ch = Some (x, y) \<longrightarrow> in_grid x y"
    unfolding chars_ok_def entries_ok_def by blast
  with m find_ptr [OF assms(2)] ptr_used(1) [OF assms(1)] that show ?thesis by (auto simp: load_char_player)
qed

lemma leave_grid_fields [simp]:
  "CharacterMap (leave_grid p ch c) = CharacterMap c" "CharacterPool (leave_grid p ch c) = CharacterPool c"
  "MessageBuf (leave_grid p ch c) = MessageBuf c" "JobQueue (leave_grid p ch c) = JobQueue c"
  "JobPool (leave_grid p ch c) = JobPool c"
  by (simp_all add: leave_grid_def set_sector_def split: option.splits)

lemma leave_grid_map: "leave_grid p ch (c\<lparr>CharacterMap := m\<rparr>) = (leave_grid p ch c)\<lparr>CharacterMap := m\<rparr>"
  by (simp add: leave_grid_def set_sector_def sector_def split: option.splits)

lemma LeaveCharacter_ok:
  assumes ok: "chars_ok c" and fnd: "FindCharacter k c = Some p"
  shows "\<exists>c'. LeaveCharacter k c = Inr c' \<and> chars_ok c' \<and> roster c' = (roster c)(k := None) \<and>
    MessageBuf c' = MessageBuf c \<and> JobQueue c' = JobQueue c \<and> JobPool c' = JobPool c"
proof -
  from chars_ok_entry [OF ok fnd] obtain ch where e: "(k, p) \<in> set (CharacterMap c)" "p \<in> ptrs c" "p \<noteq> 0" "player c p = Some ch" "load_char p c = Inr ch"
    "CSession ch = k" "\<forall>x y. place ch = Some (x, y) \<longrightarrow> in_grid x y" .
  let ?P = "CharacterPool c" and ?f = "\<lambda>p. p - sizeof_PadType"
  obtain L where L: "fp_inv ?P L (?f ` ptrs c)" "0 < MemoryAllocSize ?P" "length L + card (ptrs c) < 2 ^ 31"
    using ok by (auto simp: chars_ok_def chars_pool_ok_def)
  obtain P' where P': "lf_Free p ?P = Inr P'" "fp_inv P' (?f p # L) (?f ` ptrs c - {?f p})" "same_shape ?P P'" "same_data ?P P'"
    using lf_Free_inv [OF L(1), of "?f p"] e(2) by auto
  let ?m = "map_erase k (CharacterMap c)"
  let ?c2 = "(leave_grid p ch c)\<lparr>CharacterMap := ?m\<rparr>"
  let ?c' = "?c2\<lparr>CharacterPool := P'\<rparr>"
  have erase: "(if 0 \<le> sint (SectorX ch) \<and> 0 \<le> sint (SectorY ch) then sector_erase p ch (c\<lparr>CharacterMap := ?m\<rparr>)
      else Inr (c\<lparr>CharacterMap := ?m\<rparr>)) = Inr ?c2"
  proof (cases "place ch")
    case None
    then show ?thesis by (auto simp: place_def leave_grid_def split: if_splits)
  next
    case (Some xy)
    obtain x y where xy: "xy = (x, y)" by fastforce
    then have "0 \<le> sint (SectorX ch) \<and> 0 \<le> sint (SectorY ch)" "SectorX ch \<noteq> - 1"
      using Some e(7) by (auto simp: place_def in_grid_def split: if_splits)
    then show ?thesis using sector_erase_leave [OF e(7), of p] by (simp add: leave_grid_map)
  qed
  have "load_char p (c\<lparr>CharacterMap := ?m\<rparr>) = Inr ch" using e(5) by (simp add: load_char_def)
  then have leave: "LeaveCharacter k c = Inr ?c'"
    using fnd erase P'(1) by (simp add: LeaveCharacter_def)
  have ins: "ptrs c = insert p (ptrs ?c')" "p \<notin> ptrs ?c'"
  proof -
    have mo: "map_ok c" using ok by (simp add: chars_ok_def)
    have "j \<noteq> k \<longleftrightarrow> q \<noteq> p" if "(j, q) \<in> set (CharacterMap c)" for j q
      using that unique_key [OF mo e(1), of j] FindCharacter_iff [OF mo, of k q] fnd by auto
    then have "q \<in> ptrs ?c' \<longleftrightarrow> q \<in> ptrs c \<and> q \<noteq> p" for q
      by (auto simp: ptrs_iff set_map_erase)
    then show "ptrs c = insert p (ptrs ?c')" "p \<notin> ptrs ?c'" using e(2) by auto
  qed
  have fin: "finite (ptrs ?c')" by (simp add: ptrs_def)
  have old: "player ?c' q = player c q" if "q \<in> ptrs c" for q
  proof -
    have "player c q \<noteq> None" using ptr_used [OF ok that] by auto
    then show ?thesis using lf_read_same [OF P'(4)] by (simp add: player_def)
  qed
  have "map_ok ?c'" using map_erase_ok [of c k] ok by (simp add: chars_ok_def map_ok_def)
  moreover have "chars_pool_ok ?c'"
  proof -
    have "?f ` ptrs c - {?f p} = ?f ` ptrs ?c'" using ins by auto
    moreover have "card (ptrs c) = Suc (card (ptrs ?c'))" using ins fin by simp
    moreover have "MemoryAllocSize P' = MemoryAllocSize ?P" using P'(3) by (simp add: same_shape_def)
    ultimately show ?thesis unfolding chars_pool_ok_def using P'(2) L(2,3)
      by (simp, intro exI [of _ "?f p # L"]) simp
  qed
  moreover have "entries_ok ?c'"
  proof -
    have "q \<in> ptrs c" if "(j, q) \<in> set ?m" for j q using that in_ptrs by (auto simp: set_map_erase)
    then show ?thesis using ok old by (auto simp: chars_ok_def entries_ok_def set_map_erase)
  qed
  moreover have "grid_ok ?c'"
  proof -
    have w: "grid_without p (leave_grid p ch c)"
      using ok e(4,7) by (intro leave_grid_without) (auto simp: chars_ok_def)
    have sec: "sector x y ?c' = sector x y (leave_grid p ch c)" for x y by (simp add: sector_def)
    have pl: "player (leave_grid p ch c) = player c" "ptrs (leave_grid p ch c) = ptrs c"
      by (simp_all add: player_def ptrs_def fun_eq_iff)
    have "(q \<noteq> p \<and> q \<in> ptrs c \<and> map_option place (player c q) = Some (Some (x, y))) =
       (q \<in> ptrs ?c' \<and> map_option place (player ?c' q) = Some (Some (x, y)))" for q x y
      using ins old by auto
    then show ?thesis using w unfolding grid_ok_def grid_without_def sec pl by (simp add: grid_dims_def)
  qed
  moreover have "roster ?c' = (roster c)(k := None)"
  proof
    fix j
    have "FindCharacter j ?c' = (if j = k then None else FindCharacter j c)"
      by (simp add: FindCharacter_def map_of_map_erase)
    then show "roster ?c' j = ((roster c)(k := None)) j"
      using old find_ptr by (auto simp: roster_def split: option.splits)
  qed
  ultimately have "chars_ok ?c'" "roster ?c' = (roster c)(k := None)" by (simp_all add: chars_ok_def)
  then show ?thesis using leave by (intro exI [of _ ?c']) simp
qed

text \<open>Moving a character to a sector; a target outside the grid changes nothing.\<close>

lemma sint_uint_16: "uint (w :: u16) < 50 \<Longrightarrow> sint w = uint w \<and> w \<noteq> - 1"
proof -
  assume w: "uint w < 50"
  then have "sint w = uint w" using signed_take_bit_int_eq_self [of 15 "uint w"] uint_ge_0 [of w] by (simp add: sint_uint)
  moreover have "w \<noteq> - 1"
  proof
    assume "w = - 1"
    then have "uint w = 65535" by (simp add: unsigned_minus_1_eq_mask mask_eq_exp_minus_1)
    with w show False by simp
  qed
  ultimately show ?thesis by simp
qed

lemma move_character_ok:
  assumes ok: "chars_ok c" and fnd: "FindCharacter k c = Some p" and ch: "load_char p c = Inr ch"
  shows "\<exists>c'. move_character p ch X Y c = Inr c' \<and> chars_ok c' \<and>
    roster c' = (if in_grid (uint X) (uint Y) then (roster c)(k \<mapsto> Some (uint X, uint Y)) else roster c) \<and>
    CharacterMap c' = CharacterMap c \<and> MessageBuf c' = MessageBuf c \<and> JobQueue c' = JobQueue c \<and> JobPool c' = JobPool c"
proof (cases "in_grid (uint X) (uint Y)")
  case False
  then show ?thesis using ok by (simp add: move_character_def)
next
  case True
  from chars_ok_entry [OF ok fnd] obtain ch' where e: "(k, p) \<in> set (CharacterMap c)" "p \<in> ptrs c" "p \<noteq> 0" "player c p = Some ch'" "load_char p c = Inr ch'"
    "CSession ch' = k" "\<forall>x y. place ch' = Some (x, y) \<longrightarrow> in_grid x y" .
  have [simp]: "ch' = ch" using e(5) ch by simp
  have mo: "map_ok c" using ok by (simp add: chars_ok_def)
  let ?c1 = "leave_grid p ch c" and ?ch = "ch\<lparr>SectorX := X, SectorY := Y\<rparr>" and ?x = "uint X" and ?y = "uint Y"
  let ?c2 = "set_char p ?ch ?c1"
  let ?c' = "sector_push p ?x ?y ?c2"
  have "(if SectorX ch \<noteq> - 1 then sector_erase p ch c else Inr c) = Inr ?c1"
    using sector_erase_leave [of ch p c] e(7) by (auto simp: leave_grid_def place_def)
  then have mv: "move_character p ch X Y c = Inr ?c'" using True by (simp add: move_character_def)
  have w: "grid_without p ?c1" using ok e(4,7) by (intro leave_grid_without) (auto simp: chars_ok_def)
  have s: "sint X = ?x" "sint Y = ?y" "X \<noteq> - 1"
    using True sint_uint_16 [of X] sint_uint_16 [of Y] by (auto simp: in_grid_def kSectorXMax_def kSectorYMax_def)
  have f: "CharacterMap ?c' = CharacterMap c" "player ?c' q = (if q = p then Some ?ch else player c q)" "ptrs ?c' = ptrs c" for q
    using e(4) by (simp_all add: sector_push_def player_set chars_cong(2) [of ?c1 c] chars_cong(1) [of ?c1 c])
  have "map_ok ?c'" "chars_pool_ok ?c'"
    using ok set_char_pool [of ?c1 p ?ch] chars_cong(4,5) [of ?c1 c] by (simp_all add: sector_push_def chars_ok_def)
  moreover have "entries_ok ?c'"
    unfolding entries_ok_def f
  proof (intro allI impI)
    fix j q assume jq: "(j, q) \<in> set (CharacterMap c)"
    then obtain d where d: "player c q = Some d" "CSession d = j" "\<forall>x y. place d = Some (x, y) \<longrightarrow> in_grid x y"
      using ok unfolding chars_ok_def entries_ok_def by blast
    then show "\<exists>d. (if q = p then Some ?ch else player c q) = Some d \<and> CSession d = j \<and> (\<forall>x y. place d = Some (x, y) \<longrightarrow> in_grid x y)"
      using True s e(4) by (auto simp: place_def)
  qed
  moreover have "grid_ok ?c'"
  proof -
    have pl: "map_option place (player ?c' q) = (if q = p then Some (Some (?x, ?y)) else map_option place (player c q))" for q
      unfolding f using s by (simp add: place_def)
    have pc: "player ?c1 = player c" "ptrs ?c1 = ptrs c" by (rule chars_cong, simp, simp)+
    have d: "grid_dims ?c2" using w by (simp add: grid_without_def)
    have "distinct (sector x y ?c') \<and>
        (\<forall>q. q \<in> set (sector x y ?c') \<longleftrightarrow> q \<in> ptrs c \<and> map_option place (player ?c' q) = Some (Some (x, y)))"
      if g: "in_grid x y" for x y
    proof -
      have 1: "distinct (sector x y ?c1)"
        "\<And>q. q \<in> set (sector x y ?c1) \<longleftrightarrow> q \<noteq> p \<and> q \<in> ptrs c \<and> map_option place (player c q) = Some (Some (x, y))"
        using w g unfolding grid_without_def pc by simp_all
      have 2: "sector x y ?c' = (if x = ?x \<and> y = ?y then sector x y ?c1 @ [p] else sector x y ?c1)"
        using sector_set [OF d True g] by (simp add: sector_push_def)
      have "distinct (sector x y ?c')" using 1(1) 1(2) [of p] by (auto simp: 2)
      moreover have "q \<in> set (sector x y ?c') \<longleftrightarrow> q \<in> ptrs c \<and> map_option place (player ?c' q) = Some (Some (x, y))" for q
      proof -
        have "q \<in> set (sector x y ?c') \<longleftrightarrow> q \<in> set (sector x y ?c1) \<or> (q = p \<and> x = ?x \<and> y = ?y)" unfolding 2 by auto
        then show ?thesis unfolding pl using 1(2) [of q] e(2) by (cases "q = p") auto
      qed
      ultimately show ?thesis by blast
    qed
    moreover have "grid_dims ?c'" using d True unfolding sector_push_def by (rule set_sector_dims)
    ultimately show ?thesis unfolding grid_ok_def f(3) by blast
  qed
  moreover have "roster ?c' = (roster c)(k \<mapsto> Some (?x, ?y))"
  proof
    fix j
    have fj: "FindCharacter j ?c' = FindCharacter j c" by (simp add: FindCharacter_def f)
    have "FindCharacter j c = Some p \<longleftrightarrow> j = k"
      using mo unique_key [OF mo e(1), of j] e(1) FindCharacter_iff [OF mo, of j p] by blast
    then show "roster ?c' j = ((roster c)(k \<mapsto> Some (?x, ?y))) j"
      using s by (auto simp: roster_def fj f place_def split: option.splits)
  qed
  ultimately have "chars_ok ?c'" "roster ?c' = (roster c)(k \<mapsto> Some (?x, ?y))" by (simp_all add: chars_ok_def)
  then show ?thesis using mv True
    by (intro exI [of _ ?c']) (simp add: sector_push_def set_sector_def set_char_def)
qed

end
