(* ===== verification/ChatUpdates.thy ===== *)
theory ChatUpdates
  imports ChatRoster ServerFraming
begin

text \<open>
  The update thread of the chat example over the server: what the operations of \<open>NetServer\<close> leave alone in the
  derived class, and from it that every job keeps the characters consistent, whom a message
  reaches, and whom the heartbeat disconnects.
\<close>

subsection \<open>The server under the content code\<close>

text \<open>Everything of the chat state but the jobs and the log.\<close>

definition same_chars :: "chat \<Rightarrow> chat \<Rightarrow> bool" where
  "same_chars c c' \<longleftrightarrow> CharacterPool c' = CharacterPool c \<and> CharacterMap c' = CharacterMap c \<and>
     SectorList c' = SectorList c \<and> MessageBuf c' = MessageBuf c"

lemma same_chars_refl [simp]: "same_chars c c" by (simp add: same_chars_def)

lemma same_chars_trans: "same_chars a b \<Longrightarrow> same_chars b c \<Longrightarrow> same_chars a c" by (simp add: same_chars_def)

lemma same_chars_log [simp]:
  "same_chars a (c\<lparr>ChatLog := l\<rparr>) = same_chars a c" "same_chars (c\<lparr>ChatLog := l\<rparr>) a = same_chars c a"
  by (simp_all add: same_chars_def)

lemma same_chars_ok:
  assumes "same_chars c c'"
  shows "chars_ok c' = chars_ok c" "roster c' = roster c" "load_char p c' = load_char p c" "sector x y c' = sector x y c"
    "FindCharacter k c' = FindCharacter k c" "player c' = player c"
proof -
  have e: "CharacterPool c' = CharacterPool c" "CharacterMap c' = CharacterMap c" "SectorList c' = SectorList c"
    using assms by (simp_all add: same_chars_def)
  note c = chars_cong [OF e(1,2)]
  show "roster c' = roster c" "load_char p c' = load_char p c" "FindCharacter k c' = FindCharacter k c" "player c' = player c"
    by (fact c)+
  show s: "sector x y c' = sector x y c" for x y by (simp add: sector_def e)
  have "grid_ok c' = grid_ok c" unfolding grid_ok_def s c by (simp add: grid_dims_def e)
  then show "chars_ok c' = chars_ok c" by (simp add: chars_ok_def c)
qed

lemma log_io_App [simp]: "App (log_io e s) = App s"
  by (simp add: log_io_def)

lemma FreePacket_App: "FreePacket tid p s = Inr s' \<Longrightarrow> App s' = App s"
  by (auto simp: FreePacket_def ebind_eq_Inr Let_def case_prod_beta split: if_splits)

lemma FreePackets_App: "FreePackets tid ps s = Inr s' \<Longrightarrow> App s' = App s"
  by (induction ps arbitrary: s) (auto simp: ebind_eq_Inr dest!: FreePacket_App)

lemma Increment_App: "IncrementSessionRef i s = Inr s' \<Longrightarrow> App s' = App s"
  by (auto simp: IncrementSessionRef_def with_session_def split: if_splits)

lemma Decrement_App: "DecrementSessionRef i s = Inr (s', r) \<Longrightarrow> App s' = App s"
  by (auto simp: DecrementSessionRef_def with_session_def split: if_splits)

lemma SendPacket_App: "SendPacket sid rnd p s = Inr s' \<Longrightarrow> App s' = App s"
  by (auto simp: SendPacket_def Let_def ebind_eq_Inr with_session_def dest!: Increment_App Decrement_App split: if_splits)

lemma drain_SendQ_App: "drain_SendQ tid i q s = Inr s' \<Longrightarrow> App s' = App s"
  by (induction q arbitrary: s) (auto simp: with_session_def ebind_eq_Inr dest!: FreePacket_App split: if_splits)

lemma ReleaseSession_App: "ReleaseSession tid i s = Inr s' \<Longrightarrow> App s' = App s"
  by (auto simp: ReleaseSession_def with_session_def Let_def ebind_eq_Inr
      dest!: drain_SendQ_App FreePackets_App split: if_splits)

lemma post_job_chars: "post_job tid ty sid p s = Inr s' \<Longrightarrow> same_chars (App s) (App s')"
  by (auto simp: post_job_def AllocJob_def ebind_eq_Inr same_chars_def)

lemma DisconnectSession_chars:
  "DisconnectSession (chat_env raw t) tid i s = Inr s' \<Longrightarrow> same_chars (App s) (App s')"
  by (auto simp: DisconnectSession_def with_session_def ebind_eq_Inr chat_env_def chat_OnClientLeave_def
      dest!: post_job_chars ReleaseSession_App split: if_splits)

lemma release_ref_chars: "release_ref (chat_env raw t) tid i s = Inr s' \<Longrightarrow> same_chars (App s) (App s')"
  by (auto simp: release_ref_def ebind_eq_Inr dest!: Decrement_App DisconnectSession_chars split: if_splits)

lemma KillSession_chars: "KillSession (chat_env raw t) tid sid s = Inr s' \<Longrightarrow> same_chars (App s) (App s')"
  by (auto simp: KillSession_def Let_def ebind_eq_Inr with_session_def
      dest!: Increment_App Decrement_App release_ref_chars split: if_splits)

lemma on_packet_App:
  "on_packet p f s k = Inr r \<Longrightarrow> \<exists>pk pk' a. get_packet p s = Inr pk \<and> f pk = Inr (pk', a) \<and> k a (set_packet p pk' s) = Inr r"
  by (auto simp: on_packet_def ebind_eq_Inr)

lemma write_packet_App: "write_packet p f s = Inr s' \<Longrightarrow> App s' = App s"
  by (auto simp: write_packet_def ebind_eq_Inr)

lemma upd_app_simp [simp]: "App (upd_app f s) = f (App s)"
  by (simp add: upd_app_def)

subsection \<open>Whom a message reaches\<close>

fun send_sessions :: "u64 list \<Rightarrow> (nat \<Rightarrow> int) \<Rightarrow> nat \<Rightarrow> addr \<Rightarrow> chat_server \<Rightarrow> fault + chat_server" where
  "send_sessions [] rnd n pk s = Inr s"
| "send_sessions (k # ks) rnd n pk s = ebind (SendPacket k (rnd n) pk s) (send_sessions ks rnd (Suc n) pk)"

definition session_at :: "chat \<Rightarrow> u64 \<Rightarrow> u64" where
  "session_at c p = (case player c p of None \<Rightarrow> 0 | Some ch \<Rightarrow> CSession ch)"

text \<open>The sessions in the given sectors, in the order of the loops.\<close>

definition sessions_in :: "chat \<Rightarrow> (int \<times> int) list \<Rightarrow> u64 list" where
  "sessions_in c xys = concat (map (\<lambda>(x, y). map (session_at c) (sector x y c)) xys)"

lemma send_sessions_append:
  "send_sessions (ks @ ks') rnd n pk s =
     ebind (send_sessions ks rnd n pk s) (send_sessions ks' rnd (n + length ks) pk)"
proof (induction ks arbitrary: n s)
  case (Cons a ks)
  then show ?case by (cases "SendPacket a (rnd n) pk s") simp_all
qed simp

lemma send_sessions_App: "send_sessions ks rnd n pk s = Inr s' \<Longrightarrow> App s' = App s"
  by (induction ks arbitrary: n s) (auto simp: ebind_eq_Inr dest!: SendPacket_App)

lemma send_all_to_sessions:
  assumes "chars_ok (App s)" "set ps \<subseteq> ptrs (App s)"
  shows "send_all_to ps rnd n pk s =
     ebind (send_sessions (map (session_at (App s)) ps) rnd n pk s) (\<lambda>s'. Inr (s', n + length ps))"
  using assms
proof (induction ps arbitrary: n s)
  case (Cons p ps)
  obtain ch where ch: "load_char p (App s) = Inr ch" "player (App s) p = Some ch"
    using ptr_used [OF Cons.prems(1), of p] Cons.prems(2) by auto
  then have at: "session_at (App s) p = CSession ch" by (simp add: session_at_def)
  show ?case
  proof (cases "SendPacket (CSession ch) (rnd n) pk s")
    case (Inr s1)
    then have "App s1 = App s" by (rule SendPacket_App)
    then show ?thesis using Cons.IH [of s1 "Suc n"] Cons.prems Inr ch at by simp
  qed (simp add: ch at)
qed simp

lemma send_sectors_sessions:
  assumes "chars_ok (App s)" "\<forall>(x, y) \<in> set xys. in_grid x y"
  shows "send_sectors xys rnd n pk s = send_sessions (sessions_in (App s) xys) rnd n pk s"
  using assms
proof (induction xys arbitrary: n s)
  case (Cons xy xys)
  obtain x y where xy: "xy = (x, y)" by fastforce
  let ?l = "sector x y (App s)"
  have "set ?l \<subseteq> ptrs (App s)" using Cons.prems xy by (auto simp: chars_ok_def grid_ok_def)
  note to = send_all_to_sessions [OF Cons.prems(1) this, of rnd n pk]
  have tail: "send_sectors xys rnd m pk s1 = send_sessions (sessions_in (App s) xys) rnd m pk s1"
    if "send_sessions (map (session_at (App s)) ?l) rnd n pk s = Inr s1" for s1 m
    using Cons.IH [of s1 m] Cons.prems send_sessions_App [OF that] by simp
  show ?case
    using tail by (cases "send_sessions (map (session_at (App s)) ?l) rnd n pk s")
      (simp_all add: xy to sessions_in_def send_sessions_append)
qed (simp add: sessions_in_def)

lemma near_iff: "x \<in> set [z - 1, z, z + 1] \<longleftrightarrow> \<bar>x - z\<bar> \<le> (1 :: int)"
  by auto

lemma set_around: "(x, y) \<in> set (around X Y) \<longleftrightarrow> in_grid x y \<and> \<bar>x - X\<bar> \<le> 1 \<and> \<bar>y - Y\<bar> \<le> 1"
proof -
  have "(x, y) \<in> set (around X Y) \<longleftrightarrow>
     (x \<in> set [X - 1, X, X + 1] \<and> 0 \<le> x \<and> x < kSectorXMax) \<and> (y \<in> set [Y - 1, Y, Y + 1] \<and> 0 \<le> y \<and> y < kSectorYMax)"
    unfolding around_def set_map set_product set_filter by (simp only: image_iff) force
  then show ?thesis unfolding near_iff in_grid_def by blast
qed

lemma distinct_around: "distinct (around X Y)"
  unfolding around_def by (simp only: distinct_map, intro conjI distinct_product distinct_filter) (auto simp: inj_on_def)

lemma sector_sessions:
  assumes ok: "chars_ok c" and g: "in_grid x y"
  shows "distinct (map (session_at c) (sector x y c))"
    "k \<in> set (map (session_at c) (sector x y c)) \<longleftrightarrow> roster c k = Some (Some (x, y))"
proof -
  have mo: "map_ok c" using ok by (simp add: chars_ok_def)
  have d: "distinct (sector x y c)"
    and m: "p \<in> set (sector x y c) \<longleftrightarrow> p \<in> ptrs c \<and> map_option place (player c p) = Some (Some (x, y))" for p
    using ok g unfolding chars_ok_def grid_ok_def by blast+
  have at: "session_at c p = j" if "(j, p) \<in> set (CharacterMap c)" for j p
    using ok that unfolding chars_ok_def entries_ok_def by (fastforce simp: session_at_def)
  have key: "(session_at c p, p) \<in> set (CharacterMap c)" if "p \<in> ptrs c" for p
    using that at by (auto simp: ptrs_iff)
  have "inj_on (session_at c) (set (sector x y c))"
  proof (rule inj_onI)
    fix p q assume pq: "p \<in> set (sector x y c)" "q \<in> set (sector x y c)" "session_at c p = session_at c q"
    then have "FindCharacter (session_at c p) c = Some p" "FindCharacter (session_at c p) c = Some q"
      using key [of p] key [of q] m FindCharacter_iff [OF mo] by simp_all
    then show "p = q" by simp
  qed
  then show "distinct (map (session_at c) (sector x y c))" using d by (simp add: distinct_map)
  show "k \<in> set (map (session_at c) (sector x y c)) \<longleftrightarrow> roster c k = Some (Some (x, y))"
  proof
    assume "k \<in> set (map (session_at c) (sector x y c))"
    then obtain p where p: "p \<in> set (sector x y c)" "k = session_at c p" by auto
    then have "FindCharacter k c = Some p" using key [of p] m FindCharacter_iff [OF mo] by simp
    then show "roster c k = Some (Some (x, y))" using p m roster_player by simp
  next
    assume r: "roster c k = Some (Some (x, y))"
    then obtain p where p: "FindCharacter k c = Some p" by (auto simp: roster_def split: option.splits)
    then have "p \<in> set (sector x y c)" using r m find_ptr roster_player by simp
    moreover have "session_at c p = k" using at p FindCharacter_iff [OF mo] by blast
    ultimately show "k \<in> set (map (session_at c) (sector x y c))" by force
  qed
qed

lemma sessions_in_sectors:
  assumes ok: "chars_ok c" and "distinct xys" "\<forall>(x, y) \<in> set xys. in_grid x y"
  shows "distinct (sessions_in c xys) \<and> set (sessions_in c xys) = {k. \<exists>xy \<in> set xys. roster c k = Some (Some xy)}"
  using assms(2,3)
proof (induction xys)
  case (Cons xy xys)
  obtain x y where xy: "xy = (x, y)" by fastforce
  then have g: "in_grid x y" using Cons.prems by simp
  have eq: "sessions_in c (xy # xys) = map (session_at c) (sector x y c) @ sessions_in c xys" by (simp add: sessions_in_def xy)
  have hd: "set (map (session_at c) (sector x y c)) = {k. roster c k = Some (Some (x, y))}"
    using sector_sessions(2) [OF ok g] by blast
  have ih: "distinct (sessions_in c xys)" "set (sessions_in c xys) = {k. \<exists>xy \<in> set xys. roster c k = Some (Some xy)}"
    using Cons by simp_all
  have "set (map (session_at c) (sector x y c)) \<inter> set (sessions_in c xys) = {}"
    unfolding hd ih(2) using Cons.prems(1) xy by auto
  then have "distinct (sessions_in c (xy # xys))"
    unfolding eq distinct_append using ih(1) sector_sessions(1) [OF ok g] by blast
  moreover have "set (sessions_in c (xy # xys)) = {k. \<exists>xy \<in> set (xy # xys). roster c k = Some (Some xy)}"
    unfolding eq set_append hd ih(2) by (auto simp: xy)
  ultimately show ?case by blast
qed (simp add: sessions_in_def)

text \<open>C25. A chat message reaches exactly the characters in the 3 by 3 sectors around the sender's: in a consistent
  state \<open>SendPacketAround\<close> is a sequence of \<open>SendPacket\<close> calls to distinct sessions, those whose character
  stands at most one sector away in each direction, and to no other; at the border the sectors outside the
  grid are skipped.\<close>

theorem message_reaches_neighbours:
  assumes "chars_ok (App s)"
  shows "\<exists>ks. SendPacketAround X Y rnd pk s = send_sessions ks rnd 0 pk s \<and> distinct ks \<and>
    set ks = {k. \<exists>x y. roster (App s) k = Some (Some (x, y)) \<and> in_grid x y \<and> \<bar>x - X\<bar> \<le> 1 \<and> \<bar>y - Y\<bar> \<le> 1}"
proof -
  have g: "\<forall>(x, y) \<in> set (around X Y). in_grid x y" by (auto simp: set_around)
  have "SendPacketAround X Y rnd pk s = send_sessions (sessions_in (App s) (around X Y)) rnd 0 pk s"
    unfolding SendPacketAround_def by (rule send_sectors_sessions [OF assms g])
  moreover have "set (sessions_in (App s) (around X Y)) =
      {k. \<exists>x y. roster (App s) k = Some (Some (x, y)) \<and> in_grid x y \<and> \<bar>x - X\<bar> \<le> 1 \<and> \<bar>y - Y\<bar> \<le> 1}"
    using sessions_in_sectors [OF assms distinct_around g] by (auto simp: set_around)
  ultimately show ?thesis using sessions_in_sectors [OF assms distinct_around g] by blast
qed

text \<open>A consistent start, and a state with one character in a sector, for the examples below.\<close>

lemma chars_ok_start:
  assumes "fp_inv P L {}" "0 < MemoryAllocSize P" "length L < 2 ^ 31"
  shows "chars_ok (ChatServer_ctor mu jobs P rj rc) \<and> roster (ChatServer_ctor mu jobs P rj rc) = (\<lambda>k. None)"
proof -
  let ?c = "ChatServer_ctor mu jobs P rj rc"
  have f: "CharacterMap ?c = []" "CharacterPool ?c = P" "SectorList ?c = replicate 50 (replicate 50 [])" "ptrs ?c = {}"
    by (simp_all add: ChatServer_ctor_def ptrs_def)
  have "sector x y ?c = []" if "in_grid x y" for x y
    using grid_nat [OF that] by (simp add: sector_def f)
  then have "grid_ok ?c" by (simp add: grid_ok_def grid_dims_def f)
  moreover have "map_ok ?c" "entries_ok ?c" by (simp_all add: map_ok_def entries_ok_def f)
  moreover have "chars_pool_ok ?c" unfolding chars_pool_ok_def f using assms by auto
  ultimately show ?thesis by (simp add: chars_ok_def roster_def FindCharacter_def f fun_eq_iff)
qed

definition raw_character :: character where
  "raw_character = \<lparr>CSession = 0, AccountNo = 0, SectorX = 0, SectorY = 0, LastRecvTime = 0, ID = replicate 40 0,
     Nickname = replicate 40 0\<rparr>"

definition chat_demo :: "character lf_pool \<Rightarrow> chat" where
  "chat_demo P = ChatServer_ctor 5000 (init_pool 4096 64) P \<lparr>JType = KHeartbeat, JSession = 0, JPacket = None\<rparr> raw_character"

definition demo_server :: "chat \<Rightarrow> chat_server" where
  "demo_server c = (NetServer_ctor None (init_pool 4096 64) c)
     \<lparr>SessionArr := map (start_session (\<lambda>_. 0)) [0..<2], FreeSessionStack := rev [0..<2]\<rparr>"

lemma demo_server_App [simp]: "App (demo_server c) = c"
  by (simp add: demo_server_def NetServer_ctor_def)

lemma chat_demo_start:
  "\<exists>P. LockFreeMemoryPool kMaxMemoryRange 300 raw_character raw_pool = Inr P \<and> chars_ok (chat_demo P) \<and>
     roster (chat_demo P) = (\<lambda>k. None) \<and> chat_room (chat_demo P) \<and> JobQueue (chat_demo P) = [] \<and>
     JobPool (chat_demo P) = init_pool 4096 64"
proof -
  obtain P L where P: "LockFreeMemoryPool kMaxMemoryRange 300 raw_character raw_pool = Inr P" "fp_inv P L {}"
      "length L = 300" "MemoryAllocSize P = 300" "has_room P 300 300"
    using LockFreeMemoryPool_inv [of raw_pool 300 300 raw_character] raw_pool_room [of 600 0] by (auto simp: raw_pool_def)
  have "TotalNodeCnt P = 300" using P(2,3) by (simp add: fp_inv_def fp_cnt_def)
  then have "chat_room (chat_demo P)" using P(4,5) by (simp add: chat_room_def chat_demo_def ChatServer_ctor_def)
  then show ?thesis using P chars_ok_start [of P L] by (auto simp: chat_demo_def) (auto simp: ChatServer_ctor_def)
qed

lemma chat_demo_one:
  "\<exists>c p. chars_ok c \<and> roster c = (\<lambda>k. None)(7 \<mapsto> Some (3, 4)) \<and> FindCharacter 7 c = Some p"
proof -
  obtain P where "chars_ok (chat_demo P)" "roster (chat_demo P) = (\<lambda>k. None)" "chat_room (chat_demo P)"
    using chat_demo_start by blast
  moreover from this(2) have "FindCharacter 7 (chat_demo P) = None"
    using roster_None [OF calculation(1)] by simp
  ultimately obtain c p where c: "CreateCharacter 0 7 (chat_demo P) = Some (Inr (c, Some p))" "chars_ok c" "roster c = (\<lambda>k. None)(7 \<mapsto> None)"
    using CreateCharacter_ok [of "chat_demo P" 7 0] by auto
  then obtain q where q: "FindCharacter 7 c = Some q" by (auto simp: roster_def fun_eq_iff split: option.splits dest: spec [of _ 7])
  obtain ch where ch: "load_char q c = Inr ch" using ptr_used(3) [OF c(2) find_ptr [OF q]] by blast
  from move_character_ok [OF c(2) q ch, of 3 4] obtain c' where c': "chars_ok c'" "roster c' = (roster c)(7 \<mapsto> Some (3, 4))"
      "CharacterMap c' = CharacterMap c"
    by (auto simp: in_grid_def kSectorXMax_def kSectorYMax_def)
  then have "FindCharacter 7 c' = Some q" using q by (simp add: FindCharacter_def)
  then show ?thesis using c' c(3) by auto
qed

lemma message_reaches_neighbours_witness:
  "\<forall>rnd. \<exists>c ks. roster c = (\<lambda>k. None)(7 \<mapsto> Some (3, 4)) \<and> SendPacketAround 2 5 rnd 4104 (demo_server c) = send_sessions ks rnd 0 4104 (demo_server c) \<and>
     ks = [7]"
proof
  fix rnd
  obtain c where c: "chars_ok c" "roster c = (\<lambda>k. None)(7 \<mapsto> Some (3, 4))" using chat_demo_one by blast
  then obtain ks where ks: "SendPacketAround 2 5 rnd 4104 (demo_server c) = send_sessions ks rnd 0 4104 (demo_server c)" "distinct ks"
      "set ks = {k. \<exists>x y. roster c k = Some (Some (x, y)) \<and> in_grid x y \<and> \<bar>x - 2\<bar> \<le> 1 \<and> \<bar>y - 5\<bar> \<le> 1}"
    using message_reaches_neighbours [of "demo_server c" 2 5 rnd 4104] by auto
  have "set ks = {7}" unfolding ks(3) c(2) by (auto simp: in_grid_def kSectorXMax_def kSectorYMax_def split: if_splits)
  then have "ks = [7]" using ks(2) by (cases ks) (auto simp: subset_singleton_iff)
  then show "\<exists>c ks. roster c = (\<lambda>k. None)(7 \<mapsto> Some (3, 4)) \<and> SendPacketAround 2 5 rnd 4104 (demo_server c) =
      send_sessions ks rnd 0 4104 (demo_server c) \<and> ks = [7]" using c(2) ks(1) by blast
qed

subsection \<open>Whom the heartbeat disconnects\<close>

definition idle :: "u32 \<Rightarrow> chat \<Rightarrow> (u64 \<times> character) list" where
  "idle now c = concat (map (\<lambda>(k, p). case player c p of None \<Rightarrow> []
     | Some ch \<Rightarrow> if 40000 < now - LastRecvTime ch then [(k, ch)] else []) (CharacterMap c))"

text \<open>Each of them is logged, with both names, and cut.\<close>

fun kill_idle :: "chat env \<Rightarrow> nat \<Rightarrow> (u64 \<times> character) list \<Rightarrow> chat_server \<Rightarrow> fault + chat_server" where
  "kill_idle env tid [] s = Inr s"
| "kill_idle env tid ((k, ch) # es) s =
     ebind (log_names ch) (\<lambda>(i, n).
     ebind (KillSession env tid k (upd_app (\<lambda>c. c\<lparr>ChatLog := ChatLog c @ [LogTimeout (AccountNo ch) i n]\<rparr>) s)) (kill_idle env tid es))"

lemma kill_idle_chars: "kill_idle (chat_env raw t) tid es s = Inr s' \<Longrightarrow> same_chars (App s) (App s')"
proof (induction es arbitrary: s)
  case (Cons e es)
  obtain k ch where "e = (k, ch)" by fastforce
  with Cons.prems obtain i n s1 where
    "KillSession (chat_env raw t) tid k (upd_app (\<lambda>c. c\<lparr>ChatLog := ChatLog c @ [LogTimeout (AccountNo ch) i n]\<rparr>) s) = Inr s1"
    "kill_idle (chat_env raw t) tid es s1 = Inr s'" by (auto simp: ebind_eq_Inr)
  then show ?case using KillSession_chars Cons.IH same_chars_trans by (fastforce simp: same_chars_def)
qed simp

lemma check_hearts_idle:
  assumes "chars_ok c" "same_chars c (App s)" "set es \<subseteq> set (CharacterMap c)"
  shows "check_hearts (chat_env raw t) tid now es s =
    kill_idle (chat_env raw t) tid (concat (map (\<lambda>(k, p). case player c p of None \<Rightarrow> []
     | Some ch \<Rightarrow> if 40000 < now - LastRecvTime ch then [(k, ch)] else []) es)) s"
  using assms(2,3)
proof (induction es arbitrary: s)
  case (Cons e es)
  obtain k p where e: "e = (k, p)" by fastforce
  then have kp: "(k, p) \<in> set (CharacterMap c)" using Cons.prems(2) by simp
  obtain ch where ch: "player c p = Some ch" "CSession ch = k"
    using assms(1) kp unfolding chars_ok_def entries_ok_def by blast
  then have ld: "load_char p (App s) = Inr ch"
    using same_chars_ok(3) [OF Cons.prems(1)] load_char_player ptr_used(1) [OF assms(1) in_ptrs [OF kp]] by simp
  show ?case
  proof (cases "40000 < now - LastRecvTime ch")
    case True
    show ?thesis
    proof (cases "log_names ch")
      case (Inl f)
      then show ?thesis using True ch ld by (simp add: e)
    next
      case (Inr names)
      obtain i n where names: "names = (i, n)" by fastforce
      let ?s = "upd_app (\<lambda>c. c\<lparr>ChatLog := ChatLog c @ [LogTimeout (AccountNo ch) i n]\<rparr>) s"
      show ?thesis
      proof (cases "KillSession (chat_env raw t) tid k ?s")
        case killed: (Inr s1)
        have "same_chars c (App s1)" using KillSession_chars [OF killed] Cons.prems(1) same_chars_trans by simp
        then show ?thesis using Cons.IH [of s1] Cons.prems(2) Inr names killed True ch ld by (simp add: e)
      qed (simp add: e ch ld True Inr names)
    qed
  next
    case False
    then show ?thesis using Cons.IH [OF Cons.prems(1)] Cons.prems(2) ch ld by (simp add: e)
  qed
qed simp

text \<open>C33. The heartbeat disconnects exactly the clients silent for more than 40000 milliseconds: in a consistent state
  \<open>CheckHeartBeat\<close> is one log line and one \<open>KillSession\<close> for each character whose last message is older than that, in
  the order of the session identifiers and each once (ages are differences of the 32-bit millisecond clock, so its
  wrap-around does not matter). A client silent for exactly 40000 milliseconds stays, although the protocol asks
  for a cut from 40 seconds on. The disconnections post their leave jobs but remove no character themselves, and
  a name without its null, which a client may send, is read past its array.\<close>

theorem heartbeat_kills_idle:
  assumes "chars_ok (App s)"
  shows "CheckHeartBeat (chat_env raw t) tid now s = kill_idle (chat_env raw t) tid (idle now (App s)) s \<and>
    sorted_wrt (<) (map fst (idle now (App s))) \<and>
    (\<forall>k ch. (k, ch) \<in> set (idle now (App s)) \<longleftrightarrow>
       (\<exists>p. FindCharacter k (App s) = Some p \<and> player (App s) p = Some ch \<and> 40000 < now - LastRecvTime ch)) \<and>
    (\<forall>k p ch. FindCharacter k (App s) = Some p \<and> player (App s) p = Some ch \<and> now - LastRecvTime ch = 40000 \<longrightarrow>
       k \<notin> fst ` set (idle now (App s))) \<and>
    (\<forall>s'. kill_idle (chat_env raw t) tid (idle now (App s)) s = Inr s' \<longrightarrow> roster (App s') = roster (App s)) \<and>
    (\<forall>k ch es. idle now (App s) = (k, ch) # es \<and> wide_text (ID ch) = Inl OutOfBounds \<longrightarrow>
       CheckHeartBeat (chat_env raw t) tid now s = Inl OutOfBounds)"
proof -
  have mo: "map_ok (App s)" using assms by (simp add: chars_ok_def)
  let ?g = "\<lambda>(k, p). case player (App s) p of None \<Rightarrow> []
     | Some ch \<Rightarrow> if 40000 < now - LastRecvTime ch then [(k, ch)] else []"
  have "sorted_wrt (<) (map fst (concat (map ?g es)))" if "sorted_wrt (<) (map fst es)" for es
    using that
  proof (induction es)
    case (Cons e es)
    have "fst y \<in> fst ` set es" if "y \<in> set (concat (map ?g es))" for y
      using that by (force split: option.splits if_splits)
    then show ?case using Cons by (cases e) (fastforce simp: sorted_wrt_append split: option.splits)
  qed simp
  from this [of "CharacterMap (App s)"] have sorted: "sorted_wrt (<) (map fst (idle now (App s)))"
    using mo unfolding idle_def map_ok_def by blast
  have mem: "(k, ch) \<in> set (idle now (App s)) \<longleftrightarrow>
       (\<exists>p. FindCharacter k (App s) = Some p \<and> player (App s) p = Some ch \<and> 40000 < now - LastRecvTime ch)" for k ch
    unfolding idle_def FindCharacter_iff [OF mo] by (force split: option.splits if_splits)
  have edge: "k \<notin> fst ` set (idle now (App s))"
    if "FindCharacter k (App s) = Some p" "player (App s) p = Some ch" "now - LastRecvTime ch = 40000" for k p ch
    using mem [of k] that by force
  have keep: "roster (App s') = roster (App s)" if "kill_idle (chat_env raw t) tid (idle now (App s)) s = Inr s'" for s'
    using kill_idle_chars [OF that] by (rule same_chars_ok)
  have chk: "CheckHeartBeat (chat_env raw t) tid now s = kill_idle (chat_env raw t) tid (idle now (App s)) s"
    using check_hearts_idle [OF assms same_chars_refl, of "CharacterMap (App s)"] by (simp add: CheckHeartBeat_def idle_def)
  have "CheckHeartBeat (chat_env raw t) tid now s = Inl OutOfBounds"
    if "idle now (App s) = (k, ch) # es" "wide_text (ID ch) = Inl OutOfBounds" for k ch es
    unfolding chk that(1) by (simp add: log_names_def that(2))
  then show ?thesis using chk sorted mem edge keep by blast
qed

lemma heartbeat_kills_idle_witness:
  "\<forall>raw now. \<exists>c. roster c = (\<lambda>k. None)(7 \<mapsto> Some (3, 4)) \<and>
     CheckHeartBeat (chat_env raw 0) 1 now (demo_server c) = kill_idle (chat_env raw 0) 1 (idle now c) (demo_server c)"
proof (intro allI)
  fix raw now
  obtain c where "chars_ok c" "roster c = (\<lambda>k. None)(7 \<mapsto> Some (3, 4))" using chat_demo_one by blast
  then show "\<exists>c. roster c = (\<lambda>k. None)(7 \<mapsto> Some (3, 4)) \<and>
      CheckHeartBeat (chat_env raw 0) 1 now (demo_server c) = kill_idle (chat_env raw 0) 1 (idle now c) (demo_server c)"
    using heartbeat_kills_idle [of "demo_server c"] by auto
qed

end
