(* ===== verification/ChatJobs.thy ===== *)
theory ChatJobs
  imports ChatUpdates
begin

text \<open>
  The jobs of the chat example's update thread against its abstract specification, the roster: a join
  adds the session, a leave removes it, a message changes nobody else's place, a heartbeat changes
  none; and the runs of the whole example, network threads and update thread in any order.
\<close>

subsection \<open>Messages\<close>

lemma read_login_same: "read_login pk ch = Inr (pk', ch') \<Longrightarrow> place ch' = place ch \<and> CSession ch' = CSession ch"
  by (auto simp: read_login_def ebind_eq_Inr place_def)

text \<open>What a handler that moves nobody leaves.\<close>

definition stays :: "chat \<Rightarrow> chat \<Rightarrow> bool" where
  "stays c c' \<longleftrightarrow> chars_ok c' \<and> CharacterMap c' = CharacterMap c \<and> roster c' = roster c"

lemma stays_same: "chars_ok c \<Longrightarrow> same_chars c c' \<Longrightarrow> stays c c'"
  using same_chars_ok [of c c'] by (simp add: stays_def same_chars_def)

lemma stays_trans: "stays a b \<Longrightarrow> stays b c \<Longrightarrow> stays a c"
  by (simp add: stays_def)

lemma stays_ok: "stays c c' \<Longrightarrow> chars_ok c' \<and> FindCharacter j c' = FindCharacter j c"
  by (simp add: stays_def FindCharacter_def)

text \<open>Updates of the parts no invariant speaks about.\<close>

lemma stays_buf: "chars_ok c \<Longrightarrow> stays c (c\<lparr>MessageBuf := b\<rparr>)"
proof -
  assume ok: "chars_ok c"
  let ?c = "c\<lparr>MessageBuf := b\<rparr>"
  have e: "CharacterPool ?c = CharacterPool c" "CharacterMap ?c = CharacterMap c" by simp_all
  note f = chars_cong [OF e]
  have s: "sector x y ?c = sector x y c" for x y by (simp add: sector_def)
  have "grid_ok ?c = grid_ok c" unfolding grid_ok_def s f by (simp add: grid_dims_def)
  then show ?thesis using ok unfolding stays_def chars_ok_def f by simp
qed

lemma chat_login_stays:
  assumes ok: "chars_ok (App s)" and r: "chat_login sid cp rnd p s = Inr s'"
  shows "stays (App s) (App s')"
proof -
  from r obtain ch where ch: "load_char cp (App s) = Inr ch"
    and o: "on_packet p (\<lambda>pk. read_login pk ch) s (\<lambda>ch1 s1.
            ebind (write_packet p (\<lambda>pk. login_reply pk ch1) (upd_app (set_char cp ch1) s1)) (SendPacket sid rnd p)) = Inr s'"
    by (auto simp: chat_login_def ebind_eq_Inr split: if_splits)
  from on_packet_App [OF o] obtain pk pk' ch1 s2 where 1: "read_login pk ch = Inr (pk', ch1)"
      "write_packet p (\<lambda>pk. login_reply pk ch1) (upd_app (set_char cp ch1) (set_packet p pk' s)) = Inr s2" "SendPacket sid rnd p s2 = Inr s'"
    by (auto simp: ebind_eq_Inr)
  have pl: "player (App s) cp = Some ch" using ch by (simp add: load_char_player)
  have "App s' = set_char cp ch1 (App s)" using write_packet_App [OF 1(2)] SendPacket_App [OF 1(3)] by simp
  then show ?thesis
    using set_char_same [OF ok pl, of ch1] read_login_same [OF 1(1)] by (simp add: stays_def)
qed

lemma kill_stays:
  "chars_ok (App s) \<Longrightarrow> KillSession (chat_env raw t) tid sid s = Inr s' \<Longrightarrow> stays (App s) (App s')"
  using KillSession_chars stays_same by blast

lemma log_kill_stays:
  assumes "chars_ok (App s)" "KillSession (chat_env raw t) tid sid (upd_app (\<lambda>c. c\<lparr>ChatLog := f c\<rparr>) s) = Inr s'"
  shows "stays (App s) (App s')"
proof -
  have "same_chars (App s) (App s')" using KillSession_chars [OF assms(2)] by simp
  then show ?thesis by (rule stays_same [OF assms(1)])
qed

text \<open>A request to move, as it is read from the packet.\<close>

lemma chat_move_effect:
  assumes ok: "chars_ok (App s)" and fnd: "FindCharacter k (App s) = Some cp" and pl: "player (App s) cp = Some ch"
    and r: "chat_move (chat_env raw t) tid k cp rnd p s = Inr s'"
  shows "\<exists>pk pk' acc X Y. get_packet p s = Inr pk \<and> read_sector_move pk = Inr (pk', acc, X, Y) \<and>
     chars_ok (App s') \<and> CharacterMap (App s') = CharacterMap (App s) \<and>
     roster (App s') = (if AccountNo ch = acc \<and> in_grid (uint X) (uint Y)
       then (roster (App s))(k \<mapsto> Some (uint X, uint Y)) else roster (App s))"
proof -
  from on_packet_App [OF r [unfolded chat_move_def]] obtain pk pk' acc X Y s1 ch' where
    0: "get_packet p s = Inr pk" "read_sector_move pk = Inr (pk', acc, X, Y)" and
    1: "s1 = set_packet p pk' s" "load_char cp (App s1) = Inr ch'"
    and c: "(if AccountNo ch' \<noteq> acc then
         KillSession (chat_env raw t) tid (CSession ch') (upd_app (\<lambda>c. c\<lparr>ChatLog := ChatLog c @ [LogAccount acc (AccountNo ch')]\<rparr>) s1)
       else
         ebind (ebind (move_character cp ch' X Y (App s1)) (\<lambda>c. Inr (s1\<lparr>App := c\<rparr>))) (\<lambda>s2.
         ebind (load_char cp (App s2)) (\<lambda>ch2.
         ebind (write_packet p (\<lambda>pk. sector_reply pk ch2) s2) (SendPacket k rnd p)))) = Inr s'"
    by (auto simp: ebind_eq_Inr)
  have ld: "load_char cp (App s) = Inr ch" using 1 pl by (simp add: load_char_player)
  then have same: "ch' = ch" using 1 by simp
  show ?thesis
  proof (cases "AccountNo ch \<noteq> acc")
    case True
    have "App s1 = App s" using 1(1) by simp
    then have "stays (App s) (App s')" using log_kill_stays [of s1 raw t tid "CSession ch" _ s'] ok c True same by simp
    then show ?thesis using 0 True by (auto simp: stays_def)
  next
    case False
    from move_character_ok [OF ok fnd ld, of X Y] obtain c' where c': "move_character cp ch X Y (App s) = Inr c'" "chars_ok c'"
        "roster c' = (if in_grid (uint X) (uint Y) then (roster (App s))(k \<mapsto> Some (uint X, uint Y)) else roster (App s))"
        "CharacterMap c' = CharacterMap (App s)" by blast
    from c False 1(1) c'(1) same obtain ch2 s3 where "write_packet p (\<lambda>pk. sector_reply pk ch2) (s1\<lparr>App := c'\<rparr>) = Inr s3" "SendPacket k rnd p s3 = Inr s'"
      by (auto simp: ebind_eq_Inr)
    then have "App s' = c'" using write_packet_App SendPacket_App by fastforce
    then show ?thesis using 0 False c'(2-4) by auto
  qed
qed

lemma send_around_App:
  "chars_ok (App s) \<Longrightarrow> SendPacketAround X Y rnd pk s = Inr s' \<Longrightarrow> App s' = App s"
proof -
  assume ok: "chars_ok (App s)" and r: "SendPacketAround X Y rnd pk s = Inr s'"
  have g: "\<forall>(x, y) \<in> set (around X Y). in_grid x y" by (auto simp: set_around)
  show ?thesis using send_sessions_App r send_sectors_sessions [OF ok g] by (simp add: SendPacketAround_def)
qed

lemma chat_message_stays:
  assumes ok: "chars_ok (App s)" and r: "chat_message (chat_env raw t) tid cp rnd p s = Inr s'"
  shows "stays (App s) (App s')"
proof -
  from on_packet_App [OF r [unfolded chat_message_def]] obtain pk' acc len s1 ch where
    1: "s1 = set_packet p pk' s" "load_char cp (App s1) = Inr ch"
    and c: "(if AccountNo ch \<noteq> acc then
         KillSession (chat_env raw t) tid (CSession ch) (upd_app (\<lambda>c. c\<lparr>ChatLog := ChatLog c @ [LogAccount acc (AccountNo ch)]\<rparr>) s1)
       else if kMessageBufsize \<le> unat len then Inl Crashed
       else
         on_packet p (\<lambda>pk. read_message_text pk len (MessageBuf (App s1))) s1 (\<lambda>buf s2.
         let s3 = upd_app (\<lambda>c. c\<lparr>MessageBuf := buf\<rparr>) s2
         in ebind (write_packet p (\<lambda>pk. message_reply pk ch len buf) s3) (\<lambda>s4.
            SendPacketAround (sint (SectorX ch)) (sint (SectorY ch)) rnd p s4))) = Inr s'"
    by (auto simp: ebind_eq_Inr)
  show ?thesis
  proof (cases "AccountNo ch \<noteq> acc")
    case True
    have "App s1 = App s" using 1(1) by simp
    then show ?thesis using log_kill_stays [of s1 raw t tid "CSession ch" _ s'] ok c True by simp
  next
    case False
    with c have "on_packet p (\<lambda>pk. read_message_text pk len (MessageBuf (App s1))) s1 (\<lambda>buf s2.
         let s3 = upd_app (\<lambda>c. c\<lparr>MessageBuf := buf\<rparr>) s2
         in ebind (write_packet p (\<lambda>pk. message_reply pk ch len buf) s3) (\<lambda>s4.
            SendPacketAround (sint (SectorX ch)) (sint (SectorY ch)) rnd p s4)) = Inr s'" by (simp split: if_splits)
    from on_packet_App [OF this] obtain pk2 buf s4 where
      w: "write_packet p (\<lambda>pk. message_reply pk ch len buf) (upd_app (\<lambda>c. c\<lparr>MessageBuf := buf\<rparr>) (set_packet p pk2 s1)) = Inr s4"
      and a: "SendPacketAround (sint (SectorX ch)) (sint (SectorY ch)) rnd p s4 = Inr s'"
      by (auto simp: Let_def ebind_eq_Inr)
    have 4: "App s4 = (App s)\<lparr>MessageBuf := buf\<rparr>" using write_packet_App [OF w] 1(1) by simp
    have m: "stays (App s) (App s4)" unfolding 4 by (rule stays_buf [OF ok])
    then have "App s' = App s4" using send_around_App [OF _ a] stays_ok by blast
    then show ?thesis using m by simp
  qed
qed

text \<open>The first half of \<open>MessageControl\<close>, and its switch.\<close>

definition heard :: "u32 \<Rightarrow> u64 \<Rightarrow> character \<Rightarrow> chat_server \<Rightarrow> chat_server" where
  "heard now cp ch s = upd_app (set_char cp (ch\<lparr>LastRecvTime := now\<rparr>)) s"

definition on_message ::
  "chat env \<Rightarrow> nat \<Rightarrow> (nat \<Rightarrow> int) \<Rightarrow> u64 \<Rightarrow> addr \<Rightarrow> u64 \<Rightarrow> u16 \<Rightarrow> chat_server \<Rightarrow> fault + chat_server" where
  "on_message env tid rnd sid p cp ty s2 =
     (if ty = kCsChatServer then Inr s2
      else if ty = kCsChatReqLogin then chat_login sid cp (rnd 0) p s2
      else if ty = kCsChatReqSectorMove then chat_move env tid sid cp (rnd 0) p s2
      else if ty = kCsChatReqMessage then chat_message env tid cp rnd p s2
      else if ty = kCsChatReqHeartbeat then Inr s2
      else ebind (KillSession env tid sid s2) (\<lambda>s3.
           ebind (load_char cp (App s3)) (\<lambda>ch.
           ebind (log_names ch) (\<lambda>(i, n).
             Inr (upd_app (\<lambda>c. c\<lparr>ChatLog := ChatLog c @ [LogUndefined ty (AccountNo ch) i n]\<rparr>) s3)))))"

lemma MessageControl_parts:
  assumes "FindCharacter sid (App s) = Some cp" "load_char cp (App s) = Inr ch"
  shows "MessageControl env tid now rnd sid p s =
    on_packet p get_ushort (heard now cp ch s) (\<lambda>ty s2. ebind (on_message env tid rnd sid p cp ty s2) (FreePacket tid p))"
  using assms by (simp add: MessageControl_def Let_def heard_def on_message_def)

lemma get_packet_heard [simp]: "get_packet p (heard now cp ch s) = get_packet p s"
  by (simp add: heard_def upd_app_def get_packet_def)

lemma get_packet_set_heard [simp]: "get_packet q (set_packet p pk (heard now cp ch s)) = get_packet q (set_packet p pk s)"
  by (simp add: heard_def upd_app_def get_packet_def set_packet_def)

lemma heard_stays:
  assumes "chars_ok (App s)" "player (App s) cp = Some ch"
  shows "stays (App s) (App (heard now cp ch s))" "player (App (heard now cp ch s)) cp = Some (ch\<lparr>LastRecvTime := now\<rparr>)"
  using set_char_same [OF assms, of "ch\<lparr>LastRecvTime := now\<rparr>"] assms(2)
  by (simp_all add: heard_def stays_def place_def player_set)

lemma on_message_other:
  assumes ok: "chars_ok (App s)" and r: "on_message (chat_env raw t) tid rnd k p cp ty s = Inr s'" and ty: "ty \<noteq> kCsChatReqSectorMove"
  shows "stays (App s) (App s')"
proof -
  consider "ty = kCsChatServer \<or> ty = kCsChatReqHeartbeat" | "ty = kCsChatReqLogin" | "ty = kCsChatReqMessage"
    | (undef) "ty \<notin> {kCsChatServer, kCsChatReqHeartbeat, kCsChatReqLogin, kCsChatReqMessage}" by blast
  then show ?thesis
  proof cases
    case 1
    then have "s' = s" using r by (auto simp: on_message_def chat_types)
    then show ?thesis using stays_same [OF ok same_chars_refl] by simp
  next
    case 2
    then show ?thesis using r chat_login_stays [OF ok] by (simp add: on_message_def chat_types)
  next
    case 3
    then show ?thesis using r chat_message_stays [OF ok] by (simp add: on_message_def chat_types)
  next
    case undef
    then obtain s3 where 3: "KillSession (chat_env raw t) tid k s = Inr s3" "same_chars (App s3) (App s')"
      using r ty by (auto simp: on_message_def ebind_eq_Inr)
    have "stays (App s) (App s3)" using kill_stays [OF ok 3(1)] .
    then show ?thesis using stays_trans stays_same [OF _ 3(2)] stays_ok by blast
  qed
qed

lemma MessageControl_effect:
  assumes ok: "chars_ok (App s)" and r: "MessageControl (chat_env raw t) tid now rnd k p s = Inr s'"
  obtains cp ch pk pk' ty where "FindCharacter k (App s) = Some cp" "player (App s) cp = Some ch"
    "get_packet p s = Inr pk" "get_ushort pk = Inr (pk', ty)" "chars_ok (App s')" "CharacterMap (App s') = CharacterMap (App s)"
    "ty \<noteq> kCsChatReqSectorMove \<longrightarrow> roster (App s') = roster (App s)"
    "ty = kCsChatReqSectorMove \<longrightarrow> (\<exists>pkm pk2 acc X Y. get_packet p (set_packet p pk' s) = Inr pkm \<and>
       read_sector_move pkm = Inr (pk2, acc, X, Y) \<and>
       roster (App s') = (if AccountNo ch = acc \<and> in_grid (uint X) (uint Y)
         then (roster (App s))(k \<mapsto> Some (uint X, uint Y)) else roster (App s)))"
proof -
  from r obtain cp ch where fnd: "FindCharacter k (App s) = Some cp" and ch: "load_char cp (App s) = Inr ch"
    by (auto simp: MessageControl_def ebind_eq_Inr split: option.splits)
  have pl: "player (App s) cp = Some ch" using ch by (simp add: load_char_player)
  note h = heard_stays [OF ok pl, of now]
  from on_packet_App [OF r [unfolded MessageControl_parts [OF fnd ch]]] obtain pk pk' ty s3 where
    1: "get_packet p s = Inr pk" "get_ushort pk = Inr (pk', ty)"
    and b: "on_message (chat_env raw t) tid rnd k p cp ty (set_packet p pk' (heard now cp ch s)) = Inr s3"
    and f: "FreePacket tid p s3 = Inr s'" by (auto simp: ebind_eq_Inr)
  let ?s2 = "set_packet p pk' (heard now cp ch s)"
  have a: "App ?s2 = App (heard now cp ch s)" by simp
  have ok2: "chars_ok (App ?s2)" "FindCharacter k (App ?s2) = Some cp" using stays_ok [OF h(1)] fnd unfolding a by simp_all
  have e: "App s' = App s3" using FreePacket_App [OF f] .
  show thesis
  proof (cases "ty = kCsChatReqSectorMove")
    case False
    have "stays (App s) (App s3)" using stays_trans [OF h(1)] on_message_other [OF ok2(1) b False] unfolding a .
    then show thesis using that [OF fnd pl 1] False unfolding e stays_def by simp
  next
    case True
    then have m: "chat_move (chat_env raw t) tid k cp (rnd 0) p ?s2 = Inr s3" using b by (simp add: on_message_def chat_types)
    have pl2: "player (App ?s2) cp = Some (ch\<lparr>LastRecvTime := now\<rparr>)" using h(2) unfolding a .
    from chat_move_effect [OF ok2 pl2 m] h(1) obtain pkm pk2 acc X Y where
      "get_packet p (set_packet p pk' s) = Inr pkm" "read_sector_move pkm = Inr (pk2, acc, X, Y)" "chars_ok (App s3)"
      "CharacterMap (App s3) = CharacterMap (App s)"
      "roster (App s3) = (if AccountNo ch = acc \<and> in_grid (uint X) (uint Y)
         then (roster (App s))(k \<mapsto> Some (uint X, uint Y)) else roster (App s))"
      unfolding a stays_def by auto
    then show thesis using that [OF fnd pl 1] True unfolding e by simp
  qed
qed

subsection \<open>The jobs against the roster\<close>

text \<open>What a job should do, as a relation on rosters.\<close>

fun job_spec :: "job_type \<Rightarrow> u64 \<Rightarrow> (u64 \<Rightarrow> (int \<times> int) option option) \<Rightarrow> (u64 \<Rightarrow> (int \<times> int) option option) \<Rightarrow> bool" where
  "job_spec KJoin k R R' \<longleftrightarrow> R' = (if R k = None then R(k \<mapsto> None) else R)"
| "job_spec KLeave k R R' \<longleftrightarrow> R k \<noteq> None \<and> R' = R(k := None)"
| "job_spec KMessage k R R' \<longleftrightarrow> R k \<noteq> None \<and> R' k \<noteq> None \<and> (\<forall>j. j \<noteq> k \<longrightarrow> R' j = R j)"
| "job_spec KHeartbeat k R R' \<longleftrightarrow> R' = R"

lemma run_job_spec:
  assumes ok: "chars_ok (App s)" and room: "chat_room (App s)" and r: "run_job (chat_env raw t) tid now rnd j s = Some (Inr s')"
  shows "chars_ok (App s') \<and> job_spec (JType j) (JSession j) (roster (App s)) (roster (App s'))"
proof (cases "JType j")
  case KMessage
  with r obtain p where m: "MessageControl (chat_env raw t) tid now rnd (JSession j) p s = Inr s'"
    by (auto simp: run_job_def split: option.splits)
  from MessageControl_effect [OF ok m] obtain cp ch pk pk' ty where
    fnd: "FindCharacter (JSession j) (App s) = Some cp" and "player (App s) cp = Some ch" "get_packet p s = Inr pk"
      "get_ushort pk = Inr (pk', ty)" and ok': "chars_ok (App s')" "CharacterMap (App s') = CharacterMap (App s)"
    and moved: "ty \<noteq> kCsChatReqSectorMove \<longrightarrow> roster (App s') = roster (App s)"
      "ty = kCsChatReqSectorMove \<longrightarrow> (\<exists>pkm pk2 acc X Y. get_packet p (set_packet p pk' s) = Inr pkm \<and>
       read_sector_move pkm = Inr (pk2, acc, X, Y) \<and>
       roster (App s') = (if AccountNo ch = acc \<and> in_grid (uint X) (uint Y)
         then (roster (App s))(JSession j \<mapsto> Some (uint X, uint Y)) else roster (App s)))" .
  have "roster (App s') i = roster (App s) i" if "i \<noteq> JSession j" for i
    using moved that by (cases "ty = kCsChatReqSectorMove") auto
  moreover have "FindCharacter (JSession j) (App s') = Some cp" using fnd ok'(2) by (simp add: FindCharacter_def)
  then have "roster (App s') (JSession j) \<noteq> None" "roster (App s) (JSession j) \<noteq> None"
    using roster_None [OF ok, of "JSession j"] roster_None [OF ok'(1), of "JSession j"] fnd by simp_all
  ultimately show ?thesis using ok'(1) KMessage by simp
next
  case KJoin
  show ?thesis
  proof (cases "FindCharacter (JSession j) (App s)")
    case None
    then obtain c' p where c': "CreateCharacter now (JSession j) (App s) = Some (Inr (c', Some p))" "chars_ok c'"
        "roster c' = (roster (App s))(JSession j \<mapsto> None)"
      using CreateCharacter_ok [OF ok room] by blast
    then show ?thesis using r KJoin roster_None [OF ok] None by (auto simp: run_job_def)
  next
    case (Some p)
    then show ?thesis using r KJoin roster_None [OF ok, of "JSession j"] ok by (auto simp: run_job_def CreateCharacter_def)
  qed
next
  case KLeave
  with r obtain p where fnd: "FindCharacter (JSession j) (App s) = Some p"
    by (auto simp: run_job_def LeaveCharacter_def split: option.splits)
  from LeaveCharacter_ok [OF ok this] obtain c' where "LeaveCharacter (JSession j) (App s) = Inr c'" "chars_ok c'"
      "roster c' = (roster (App s))(JSession j := None)" by blast
  then show ?thesis using r KLeave fnd roster_None [OF ok, of "JSession j"] by (auto simp: run_job_def)
next
  case KHeartbeat
  then have "CheckHeartBeat (chat_env raw t) tid now s = Inr s'" using r by (simp add: run_job_def)
  then have "kill_idle (chat_env raw t) tid (idle now (App s)) s = Inr s'"
    using check_hearts_idle [OF ok same_chars_refl, of "CharacterMap (App s)"] by (simp add: CheckHeartBeat_def idle_def)
  from same_chars_ok [OF kill_idle_chars [OF this]] show ?thesis using ok KHeartbeat by simp
qed

lemma step_job:
  assumes "JobQueue (App s) = job # rest" "read_data (JobPool (App s)) job = Some j"
    and "UpdateThread_step env tid now rnd s = Some (Inr s')"
  obtains s1 s2 where "s1 = upd_app (\<lambda>c. c\<lparr>JobQueue := rest, JobTPS := JobTPS c + 1\<rparr>) s" "same_chars (App s) (App s1)"
    "run_job env tid now rnd j s1 = Some (Inr s2)" "same_chars (App s2) (App s')"
  using assms by (auto simp: UpdateThread_step_def Let_def ebind_eq_Inr FreeJob_def same_chars_def)

lemma chat_room_cong: "CharacterPool c' = CharacterPool c \<Longrightarrow> chat_room c' = chat_room c"
  by (simp add: chat_room_def)

subsection \<open>What a message asks for\<close>

definition account :: "chat \<Rightarrow> u64 \<Rightarrow> u64 option" where
  "account c k = (case FindCharacter k c of None \<Rightarrow> None | Some p \<Rightarrow> map_option AccountNo (player c p))"

lemma account_cong: "same_chars c c' \<Longrightarrow> account c' = account c"
  by (rule ext) (simp only: account_def same_chars_ok(5,6))

text \<open>The packet of a message job, while its reference is held.\<close>

definition held_message :: "chat_server \<Rightarrow> job \<Rightarrow> packet \<Rightarrow> bool" where
  "held_message s j pk \<longleftrightarrow> JType j = KMessage \<and>
     (\<exists>p P. JPacket j = Some p \<and> p \<in> P \<and> pool_pkts (PacketPool s) P \<and> read_data (PacketPool s) p = Some pk)"

text \<open>Where the bytes of a request put a character of account \<open>acc\<close>: a complete request to move, with its account,
  into the sector it names, column first, when the grid has it; everything else leaves it where it is.\<close>

definition moved_to :: "byte list \<Rightarrow> u64 \<Rightarrow> (int \<times> int) option \<Rightarrow> (int \<times> int) option \<Rightarrow> bool" where
  "moved_to d acc old new \<longleftrightarrow>
     (\<forall>ty rest. d = le_bytes 2 (ty :: u16) @ rest \<and> ty \<noteq> kCsChatReqSectorMove \<longrightarrow> new = old) \<and>
     (\<forall>a X Y rest. d = le_bytes 2 kCsChatReqSectorMove @ le_bytes 8 (a :: u64) @ le_bytes 2 (X :: u16) @ le_bytes 2 (Y :: u16) @ rest \<longrightarrow>
        new = (if a = acc \<and> in_grid (uint X) (uint Y) then Some (uint X, uint Y) else old))"

lemma held_message_packet:
  assumes "held_message s j pk"
  obtains p where "JPacket j = Some p" "JType j = KMessage" "get_packet p s = Inr pk" "packet_wf pk"
    "\<And>pk'. get_packet p (set_packet p pk' s) = Inr pk'"
proof -
  from assms obtain p P where p: "JPacket j = Some p" "JType j = KMessage" "p \<in> P" "pool_pkts (PacketPool s) P"
    "read_data (PacketPool s) p = Some pk" by (auto simp: held_message_def)
  have "packet_wf pk" using pool_pkts_read [OF p(4,3)] p(5) by (auto simp: good_packet_def)
  moreover have "TlsPool.sizeof_PadType \<le> p" using run_inv_addr [of "PacketPool s" P p] p(3,4) by (simp add: pool_pkts_def)
  then have "get_packet p (set_packet p pk' s) = Inr pk'" for pk'
    using p(5) by (simp add: get_packet_def set_packet_def read_write_data)
  ultimately show thesis using that p by (simp add: get_packet_def)
qed

lemma request_type:
  assumes "packet_wf pk" "packet_data pk = le_bytes 2 (ty :: u16) @ rest"
  obtains pk1 where "get_ushort pk = Inr (pk1, ty)" "packet_wf pk1" "packet_data pk1 = rest"
  using get_word_ok [OF assms] by (auto simp: get_ushort_def)

lemma request_move:
  assumes "packet_wf pk" "packet_data pk = le_bytes 8 (a :: u64) @ le_bytes 2 (X :: u16) @ le_bytes 2 (Y :: u16) @ rest"
  shows "\<exists>pk1. read_sector_move pk = Inr (pk1, a, X, Y)"
proof -
  from get_word_ok [OF assms] obtain q where q: "get_int64 pk = Inr (q, a)" "packet_wf q"
    "packet_data q = le_bytes 2 X @ le_bytes 2 Y @ rest" by (auto simp: get_int64_def)
  from request_type [OF q(2,3)] obtain q1 where q1: "get_ushort q = Inr (q1, X)" "packet_wf q1" "packet_data q1 = le_bytes 2 Y @ rest" .
  from request_type [OF q1(2,3)] obtain q2 where "get_ushort q1 = Inr (q2, Y)" .
  then show ?thesis using q(1) q1(1) by (simp add: read_sector_move_def)
qed

lemma request_head:
  assumes "packet_wf pk" "packet_data pk = le_bytes 8 (a :: u64) @ le_bytes 2 (n :: u16) @ rest"
  shows "\<exists>pk1. read_message_head pk = Inr (pk1, a, n)"
proof -
  from get_word_ok [OF assms] obtain q where q: "get_int64 pk = Inr (q, a)" "packet_wf q"
    "packet_data q = le_bytes 2 n @ rest" by (auto simp: get_int64_def)
  from request_type [OF q(2,3)] obtain q1 where "get_ushort q = Inr (q1, n)" .
  then show ?thesis using q(1) by (simp add: read_message_head_def)
qed

lemma run_job_moves:
  assumes ok: "chars_ok (App s)" and h: "held_message s j pk" and r: "run_job (chat_env raw t) tid now rnd j s = Some (Inr s')"
    and at: "roster (App s) (JSession j) = Some old" "account (App s) (JSession j) = Some acc"
  shows "\<exists>new. roster (App s') (JSession j) = Some new \<and> moved_to (packet_data pk) acc old new"
proof -
  from held_message_packet [OF h] obtain p where p: "JPacket j = Some p" "JType j = KMessage" "get_packet p s = Inr pk"
    "packet_wf pk" "\<And>pk'. get_packet p (set_packet p pk' s) = Inr pk'" by blast
  have m: "MessageControl (chat_env raw t) tid now rnd (JSession j) p s = Inr s'" using r p(1,2) by (simp add: run_job_def)
  from MessageControl_effect [OF ok m] obtain cp ch pk0 pk' ty where
    e: "FindCharacter (JSession j) (App s) = Some cp" "player (App s) cp = Some ch" "get_packet p s = Inr pk0" "get_ushort pk0 = Inr (pk', ty)"
    and "chars_ok (App s')" "CharacterMap (App s') = CharacterMap (App s)" and moved: "ty \<noteq> kCsChatReqSectorMove \<longrightarrow> roster (App s') = roster (App s)"
      "ty = kCsChatReqSectorMove \<longrightarrow> (\<exists>pkm pk2 acc X Y. get_packet p (set_packet p pk' s) = Inr pkm \<and>
       read_sector_move pkm = Inr (pk2, acc, X, Y) \<and>
       roster (App s') = (if AccountNo ch = acc \<and> in_grid (uint X) (uint Y)
         then (roster (App s))(JSession j \<mapsto> Some (uint X, uint Y)) else roster (App s)))" .
  have ac: "AccountNo ch = acc" using at(2) e(1,2) by (simp add: account_def)
  have pk0: "get_ushort pk = Inr (pk', ty)" using e(3,4) p(3) by simp
  obtain new where new: "roster (App s') (JSession j) = Some new" "ty \<noteq> kCsChatReqSectorMove \<Longrightarrow> new = old"
    "ty = kCsChatReqSectorMove \<Longrightarrow> \<exists>pk2 a X Y. read_sector_move pk' = Inr (pk2, a, X, Y) \<and>
       new = (if acc = a \<and> in_grid (uint X) (uint Y) then Some (uint X, uint Y) else old)"
  proof (cases "ty = kCsChatReqSectorMove")
    case True
    from moved(2) [rule_format, OF True] obtain pk2 a X Y where "read_sector_move pk' = Inr (pk2, a, X, Y)"
      "roster (App s') = (if AccountNo ch = a \<and> in_grid (uint X) (uint Y)
         then (roster (App s))(JSession j \<mapsto> Some (uint X, uint Y)) else roster (App s))" unfolding p(5) by auto
    then show thesis using that [of "if acc = a \<and> in_grid (uint X) (uint Y) then Some (uint X, uint Y) else old"] True ac at(1) by auto
  qed (use moved(1) at(1) that in auto)
  have "new = old" if "packet_data pk = le_bytes 2 ty' @ rest" "ty' \<noteq> kCsChatReqSectorMove" for ty' rest
    using request_type [OF p(4) that(1)] pk0 that(2) new(2) by fastforce
  moreover have "new = (if a = acc \<and> in_grid (uint X) (uint Y) then Some (uint X, uint Y) else old)"
    if d: "packet_data pk = le_bytes 2 kCsChatReqSectorMove @ le_bytes 8 (a :: u64) @ le_bytes 2 (X :: u16) @ le_bytes 2 (Y :: u16) @ rest" for a X Y rest
  proof -
    from request_type [OF p(4) d] pk0 have 1: "ty = kCsChatReqSectorMove" "packet_wf pk'"
      "packet_data pk' = le_bytes 8 a @ le_bytes 2 X @ le_bytes 2 Y @ rest" by auto
    from request_move [OF 1(2,3)] new(3) [OF 1(1)] show ?thesis by auto
  qed
  ultimately show ?thesis using new(1) unfolding moved_to_def by blast
qed

text \<open>Two requests that end the server.\<close>

lemma run_job_crash:
  assumes ok: "chars_ok (App s)" and h: "held_message s j pk" and "FindCharacter (JSession j) (App s) = Some cp" "player (App s) cp = Some ch"
    and d: "packet_data pk = le_bytes 2 ty @ rest"
    and crash: "\<And>s2 pk1. App s2 = App (heard now cp ch s) \<Longrightarrow> get_packet (the (JPacket j)) s2 = Inr pk1 \<Longrightarrow> packet_wf pk1 \<Longrightarrow>
      packet_data pk1 = rest \<Longrightarrow> on_message (chat_env raw t) tid rnd (JSession j) (the (JPacket j)) cp ty s2 = Inl Crashed"
  shows "run_job (chat_env raw t) tid now rnd j s = Some (Inl Crashed)"
proof -
  from held_message_packet [OF h] obtain p where p: "JPacket j = Some p" "JType j = KMessage" "get_packet p s = Inr pk"
    "packet_wf pk" "\<And>pk'. get_packet p (set_packet p pk' s) = Inr pk'" by blast
  have ld: "load_char cp (App s) = Inr ch" using ptr_used(1) [OF ok find_ptr [OF assms(3)]] assms(4) by (simp add: load_char_player)
  from request_type [OF p(4) d] obtain pk1 where pk1: "get_ushort pk = Inr (pk1, ty)" "packet_wf pk1" "packet_data pk1 = rest" .
  have "on_message (chat_env raw t) tid rnd (JSession j) p cp ty (set_packet p pk1 (heard now cp ch s)) = Inl Crashed"
    using crash [of "set_packet p pk1 (heard now cp ch s)" pk1] p(1,5) pk1(2,3) by simp
  then have "MessageControl (chat_env raw t) tid now rnd (JSession j) p s = Inl Crashed"
    unfolding MessageControl_parts [OF assms(3) ld] by (simp add: on_packet_def p(3) pk1(1))
  then show ?thesis using p(1,2) by (simp add: run_job_def)
qed

lemma second_login_crashes:
  assumes ok: "chars_ok (App s)" and h: "held_message s j pk" and d: "packet_data pk = le_bytes 2 kCsChatReqLogin @ rest"
    and at: "roster (App s) (JSession j) = Some (Some xy)"
  shows "run_job (chat_env raw t) tid now rnd j s = Some (Inl Crashed)"
proof -
  from at obtain cp ch where c: "FindCharacter (JSession j) (App s) = Some cp" "player (App s) cp = Some ch" "place ch = Some xy"
    by (auto simp: roster_def split: option.splits)
  have "on_message (chat_env raw t) tid rnd (JSession j) (the (JPacket j)) cp kCsChatReqLogin s2 = Inl Crashed"
    if "App s2 = App (heard now cp ch s)" for s2
  proof -
    have "load_char cp (App s2) = Inr (ch\<lparr>LastRecvTime := now\<rparr>)"
      using heard_stays(2) [OF ok c(2), of now] ptr_used(1) [OF ok find_ptr [OF c(1)]] that by (simp add: load_char_player)
    moreover have "SectorX ch \<noteq> - 1" using c(3) by (auto simp: place_def)
    ultimately show ?thesis by (simp add: on_message_def chat_types chat_login_def)
  qed
  from run_job_crash [OF ok h c(1,2) d this] show ?thesis by blast
qed

lemma long_message_crashes:
  assumes ok: "chars_ok (App s)" and h: "held_message s j pk" and ac: "account (App s) (JSession j) = Some acc"
    and d: "packet_data pk = le_bytes 2 kCsChatReqMessage @ le_bytes 8 acc @ le_bytes 2 (len :: u16) @ rest" and len: "1000 \<le> unat len"
  shows "run_job (chat_env raw t) tid now rnd j s = Some (Inl Crashed)"
proof -
  from ac obtain cp ch where c: "FindCharacter (JSession j) (App s) = Some cp" "player (App s) cp = Some ch" "AccountNo ch = acc"
    by (auto simp: account_def split: option.splits)
  have "on_message (chat_env raw t) tid rnd (JSession j) (the (JPacket j)) cp kCsChatReqMessage s2 = Inl Crashed"
    if a: "App s2 = App (heard now cp ch s)" "get_packet (the (JPacket j)) s2 = Inr pk1" "packet_wf pk1"
      "packet_data pk1 = le_bytes 8 acc @ le_bytes 2 len @ rest" for s2 pk1
  proof -
    from request_head [OF a(3,4)] obtain pk2 where h: "read_message_head pk1 = Inr (pk2, acc, len)" ..
    have "load_char cp (App s2) = Inr (ch\<lparr>LastRecvTime := now\<rparr>)"
      using heard_stays(2) [OF ok c(2), of now] ptr_used(1) [OF ok find_ptr [OF c(1)]] a(1) by (simp add: load_char_player)
    then show ?thesis using len c(3)
      by (simp add: on_message_def chat_types chat_message_def on_packet_def a(2) h kMessageBufsize_def)
  qed
  then show ?thesis by (rule run_job_crash [OF ok h c(1,2) d])
qed

text \<open>C5. The update thread refines the roster: a turn of its loop that takes a job out of the queue, started in a
  consistent state, and that ends without a fault leaves a consistent state and does to the roster what the job stands
  for. A join adds the session without a sector, unless it has a character; a leave removes it; a heartbeat changes
  nothing; a message never adds, removes or moves another session's character, leaves its own one in place unless its
  type is the request to move, and a complete request to move puts it into the sector its bytes name when the account in
  it is the character's and the grid has the sector, and leaves it in place otherwise. Four kinds of jobs do crash the
  server: a leave or a message of a session without a character, a login of a character that stands in a sector, and a
  chat message with the right account that announces 1000 bytes or more. (These are not the only ways a turn can fault:
  nothing is claimed of a request cut short, or of a name without its terminator.)\<close>

theorem update_thread_refines_roster:
  assumes "chars_ok (App s)" "chat_room (App s)" "JobQueue (App s) = job # rest" "read_data (JobPool (App s)) job = Some j"
  shows "(\<forall>s'. UpdateThread_step (chat_env raw t) tid now rnd s = Some (Inr s') \<longrightarrow>
      chars_ok (App s') \<and> job_spec (JType j) (JSession j) (roster (App s)) (roster (App s')) \<and>
      (\<forall>pk acc old. held_message s j pk \<and> roster (App s) (JSession j) = Some old \<and> account (App s) (JSession j) = Some acc \<longrightarrow>
         (\<exists>new. roster (App s') (JSession j) = Some new \<and> moved_to (packet_data pk) acc old new))) \<and>
    (roster (App s) (JSession j) = None \<and> (JType j = KLeave \<or> JType j = KMessage \<and> JPacket j \<noteq> None) \<longrightarrow>
      UpdateThread_step (chat_env raw t) tid now rnd s = Some (Inl Crashed)) \<and>
    (\<forall>pk. held_message s j pk \<and>
      ((\<exists>bs xy. packet_data pk = le_bytes 2 kCsChatReqLogin @ bs \<and> roster (App s) (JSession j) = Some (Some xy)) \<or>
       (\<exists>bs acc len. packet_data pk = le_bytes 2 kCsChatReqMessage @ le_bytes 8 acc @ le_bytes 2 (len :: u16) @ bs \<and>
          account (App s) (JSession j) = Some acc \<and> 1000 \<le> unat len)) \<longrightarrow>
      UpdateThread_step (chat_env raw t) tid now rnd s = Some (Inl Crashed))"
proof (intro conjI allI impI)
  let ?s1 = "upd_app (\<lambda>c. c\<lparr>JobQueue := rest, JobTPS := JobTPS c + 1\<rparr>) s"
  have s1: "chars_ok (App ?s1)" "chat_room (App ?s1)" "roster (App ?s1) = roster (App s)"
    using assms(1,2) same_chars_ok [of "App s" "App ?s1"] chat_room_cong [of "App ?s1" "App s"] by (simp_all add: same_chars_def)
  have "same_chars (App s) (App ?s1)" by (simp add: same_chars_def)
  from account_cong [OF this] have s1a: "account (App ?s1) = account (App s)" .
  have pool: "held_message ?s1 j pk \<longleftrightarrow> held_message s j pk" for pk by (simp add: held_message_def upd_app_def)
  have crash: "UpdateThread_step (chat_env raw t) tid now rnd s = Some (Inl Crashed)"
    if "run_job (chat_env raw t) tid now rnd j ?s1 = Some (Inl Crashed)"
    using that assms(3,4) by (simp add: UpdateThread_step_def Let_def)
  {
    fix s' assume r: "UpdateThread_step (chat_env raw t) tid now rnd s = Some (Inr s')"
    from step_job [OF assms(3,4) r] obtain s1 s2 where "s1 = ?s1"
      "run_job (chat_env raw t) tid now rnd j s1 = Some (Inr s2)" "same_chars (App s2) (App s')" .
    then have 1: "run_job (chat_env raw t) tid now rnd j ?s1 = Some (Inr s2)" "same_chars (App s2) (App s')" by (simp_all only:)
    from run_job_spec [OF s1(1,2) 1(1)] same_chars_ok(1,2) [OF 1(2)] s1(3)
    show "chars_ok (App s')" "job_spec (JType j) (JSession j) (roster (App s)) (roster (App s'))" by simp_all
    fix pk acc old
    assume h: "held_message s j pk \<and> roster (App s) (JSession j) = Some old \<and> account (App s) (JSession j) = Some acc"
    then have "held_message ?s1 j pk" "roster (App ?s1) (JSession j) = Some old" "account (App ?s1) (JSession j) = Some acc"
      by (simp_all only: pool s1(3) s1a)
    from run_job_moves [OF s1(1) this(1) 1(1) this(2,3)]
    show "\<exists>new. roster (App s') (JSession j) = Some new \<and> moved_to (packet_data pk) acc old new"
      unfolding same_chars_ok(2) [OF 1(2)] .
  }
  {
    assume a: "roster (App s) (JSession j) = None \<and> (JType j = KLeave \<or> JType j = KMessage \<and> JPacket j \<noteq> None)"
    then have "FindCharacter (JSession j) (App ?s1) = None" using roster_None [OF assms(1)] by (simp add: FindCharacter_def)
    then have "run_job (chat_env raw t) tid now rnd j ?s1 = Some (Inl Crashed)"
      using a by (auto simp: run_job_def LeaveCharacter_def MessageControl_def)
    then show "UpdateThread_step (chat_env raw t) tid now rnd s = Some (Inl Crashed)" by (rule crash)
  }
  fix pk
  assume "held_message s j pk \<and>
      ((\<exists>bs xy. packet_data pk = le_bytes 2 kCsChatReqLogin @ bs \<and> roster (App s) (JSession j) = Some (Some xy)) \<or>
       (\<exists>bs acc len. packet_data pk = le_bytes 2 kCsChatReqMessage @ le_bytes 8 acc @ le_bytes 2 (len :: u16) @ bs \<and>
          account (App s) (JSession j) = Some acc \<and> 1000 \<le> unat len))"
  then have h: "held_message ?s1 j pk" and
    "(\<exists>bs xy. packet_data pk = le_bytes 2 kCsChatReqLogin @ bs \<and> roster (App ?s1) (JSession j) = Some (Some xy)) \<or>
     (\<exists>bs acc len. packet_data pk = le_bytes 2 kCsChatReqMessage @ le_bytes 8 acc @ le_bytes 2 (len :: u16) @ bs \<and>
        account (App ?s1) (JSession j) = Some acc \<and> 1000 \<le> unat len)"
    by (simp_all only: pool s1(3) s1a)
  then have "run_job (chat_env raw t) tid now rnd j ?s1 = Some (Inl Crashed)"
    using second_login_crashes [OF s1(1) h] long_message_crashes [OF s1(1) h] by blast
  then show "UpdateThread_step (chat_env raw t) tid now rnd s = Some (Inl Crashed)" by (rule crash)
qed

lemma post_job_read:
  assumes "run_inv (JobPool (App s)) H"
  shows "\<exists>s' job. post_job tid ty sid p s = Inr s' \<and> JobQueue (App s') = JobQueue (App s) @ [job] \<and>
    read_data (JobPool (App s')) job = Some \<lparr>JType = ty, JSession = sid, JPacket = p\<rparr> \<and>
    run_inv (JobPool (App s')) (insert job H) \<and> same_chars (App s) (App s')"
proof -
  obtain jp job where a: "tls_Alloc tid (RawJob (App s)) (JobPool (App s)) = Inr (jp, job)" "run_inv jp (insert job H)"
    using alloc_run [OF assms] by blast
  let ?v = "\<lparr>JType = ty, JSession = sid, JPacket = p\<rparr>"
  obtain d where d: "read_data jp job = Some d" using run_inv_read [OF a(2), of job] by auto
  then have "read_data (write_data job ?v jp) job = Some ?v"
    by (auto simp: read_data_def write_data_def split: if_splits)
  moreover have "run_inv (write_data job ?v jp) (insert job H)" using a(2) by (rule write_run)
  ultimately show ?thesis using a(1) by (auto simp: post_job_def AllocJob_def same_chars_def)
qed

lemma update_thread_refines_roster_witness:
  "\<forall>raw now rnd. \<exists>P s. LockFreeMemoryPool kMaxMemoryRange 300 raw_character raw_pool = Inr P \<and>
     chat_OnClientLeave 3 9 (demo_server (chat_demo P)) = Inr s \<and>
     UpdateThread_step (chat_env raw 0) 1 now rnd s = Some (Inl Crashed)"
proof (intro allI)
  fix raw now rnd
  obtain P where P: "LockFreeMemoryPool kMaxMemoryRange 300 raw_character raw_pool = Inr P" "chars_ok (chat_demo P)"
      "roster (chat_demo P) = (\<lambda>k. None)" "chat_room (chat_demo P)" "JobQueue (chat_demo P) = []"
      "JobPool (chat_demo P) = init_pool 4096 64"
    using chat_demo_start by blast
  have "run_inv (JobPool (App (demo_server (chat_demo P)))) {}"
    using run_inv_reach [OF pool_run.start [of 64 _ 4096]] P(6) by simp
  from post_job_read [OF this, of 3 KLeave 9 None] P(5) obtain s job where
    s: "post_job 3 KLeave 9 None (demo_server (chat_demo P)) = Inr s" "JobQueue (App s) = [job]"
      "read_data (JobPool (App s)) job = Some \<lparr>JType = KLeave, JSession = 9, JPacket = None\<rparr>" "same_chars (chat_demo P) (App s)"
    by auto
  have "chars_ok (App s)" "roster (App s) = (\<lambda>k. None)" "chat_room (App s)"
    using P(2-4) same_chars_ok(1,2) [OF s(4)] chat_room_cong [of "App s" "chat_demo P"] s(4) by (simp_all add: same_chars_def)
  then have "UpdateThread_step (chat_env raw 0) 1 now rnd s = Some (Inl Crashed)"
    using update_thread_refines_roster [of s job "[]" _ raw 0 1 now rnd, OF _ _ s(2,3)] by simp
  then show "\<exists>P s. LockFreeMemoryPool kMaxMemoryRange 300 raw_character raw_pool = Inr P \<and>
     chat_OnClientLeave 3 9 (demo_server (chat_demo P)) = Inr s \<and>
     UpdateThread_step (chat_env raw 0) 1 now rnd s = Some (Inl Crashed)"
    using P(1) s(1) by (auto simp: chat_OnClientLeave_def)
qed

subsection \<open>Runs of the example\<close>

text \<open>The network threads post jobs through the callbacks and the timer, and otherwise do not touch the chat
  state; the update thread takes jobs out, with room for one block of characters.\<close>

inductive chat_run :: "packet \<Rightarrow> chat_server \<Rightarrow> bool" for raw where
  start: "LockFreeMemoryPool kMaxMemoryRange 300 raw_ch raw_pl = Inr P \<Longrightarrow> Nodes raw_pl = Map.empty \<Longrightarrow> 0 < Brk raw_pl \<Longrightarrow>
     has_room raw_pl 300 0 \<Longrightarrow> App s = ChatServer_ctor maxUser (init_pool base sz) P rj raw_ch \<Longrightarrow> chat_run raw s"
| join: "chat_run raw s \<Longrightarrow> chat_OnClientJoin t sid s = Inr s' \<Longrightarrow> chat_run raw s'"
| leave: "chat_run raw s \<Longrightarrow> chat_OnClientLeave t sid s = Inr s' \<Longrightarrow> chat_run raw s'"
| recv: "chat_run raw s \<Longrightarrow> chat_OnRecv t sid p s = Inr s' \<Longrightarrow> chat_run raw s'"
| timer: "chat_run raw s \<Longrightarrow> HeartbeatTimerThread_step t s = Inr s' \<Longrightarrow> chat_run raw s'"
| network: "chat_run raw s \<Longrightarrow> App s' = App s \<Longrightarrow> chat_run raw s'"
| update: "chat_run raw s \<Longrightarrow> chat_room (App s) \<Longrightarrow> UpdateThread_step (chat_env raw t) t now rnd s = Some (Inr s') \<Longrightarrow> chat_run raw s'"
| wait: "chat_run raw s \<Longrightarrow> UpdateThread_wait t0 t1 (App s) = Some c \<Longrightarrow> chat_run raw (s\<lparr>App := c\<rparr>)"

lemma post_job_ok: "post_job tid ty sid p s = Inr s' \<Longrightarrow> chars_ok (App s) \<Longrightarrow> chars_ok (App s')"
  using same_chars_ok(1) [OF post_job_chars] by blast

text \<open>C10. In every run of the chat server the three records of who is where agree: the map has one entry per
  session in key order, every entry leads to the character of that session in the pool, characters are
  in use in the pool exactly when the map has them, every sector list holds each character standing there once
  and no other, and no character stands outside the grid. No list ever holds a pointer to a freed
  character.\<close>

theorem chat_state_consistent:
  assumes "chat_run raw s"
  shows "chars_ok (App s)"
  using assms
proof (induction rule: chat_run.induct)
  case (start raw_ch raw_pl P s maxUser base sz rj)
  obtain P' L where "LockFreeMemoryPool kMaxMemoryRange 300 raw_ch raw_pl = Inr P'" "fp_inv P' L {}" "length L = nat 300"
      "MemoryAllocSize P' = 300"
    using LockFreeMemoryPool_inv [of raw_pl 300 0 raw_ch] start by auto
  then show ?case using chars_ok_start [of P L] start(1,5) by auto
next
  case (join s t sid s')
  then show ?case using post_job_ok by (auto simp: chat_OnClientJoin_def)
next
  case (leave s t sid s')
  then show ?case using post_job_ok by (auto simp: chat_OnClientLeave_def)
next
  case (recv s t sid p s')
  then obtain pk where "post_job t KMessage sid (Some p) (set_packet p pk s) = Inr s'" by (auto simp: chat_OnRecv_def ebind_eq_Inr)
  from same_chars_ok(1) [OF post_job_chars [OF this]] recv show ?case by simp
next
  case (timer s t s')
  then show ?case using post_job_ok by (auto simp: HeartbeatTimerThread_step_def)
next
  case (update s t now rnd s')
  show ?case
  proof (cases "JobQueue (App s)")
    case Nil
    then show ?thesis using update by (simp add: UpdateThread_step_def)
  next
    case (Cons job rest)
    then obtain j where j: "read_data (JobPool (App s)) job = Some j"
      using update(3) by (auto simp: UpdateThread_step_def Let_def split: option.splits)
    from step_job [OF Cons j update(3)] obtain s1 s2 where
      1: "s1 = upd_app (\<lambda>c. c\<lparr>JobQueue := rest, JobTPS := JobTPS c + 1\<rparr>) s" "same_chars (App s) (App s1)"
        "run_job (chat_env raw t) t now rnd j s1 = Some (Inr s2)" "same_chars (App s2) (App s')" .
    have "chars_ok (App s1)" "chat_room (App s1)"
      using update(2,4) same_chars_ok(1) [OF 1(2)] chat_room_cong [of "App s1" "App s"] 1(1) by simp_all
    from run_job_spec [OF this 1(3)] show ?thesis using same_chars_ok(1) [OF 1(4)] by simp
  qed
next
  case (wait s t0 t1 c)
  then have "same_chars (App s) c" by (auto simp: UpdateThread_wait_def same_chars_def split: if_splits)
  then show ?case using wait same_chars_ok(1) by simp
qed simp

lemma chat_state_consistent_witness:
  "\<exists>P s. LockFreeMemoryPool kMaxMemoryRange 300 raw_character raw_pool = Inr P \<and>
     chat_OnClientJoin 3 9 (demo_server (chat_demo P)) = Inr s \<and> chars_ok (App s)"
proof -
  obtain P where P: "LockFreeMemoryPool kMaxMemoryRange 300 raw_character raw_pool = Inr P" "JobPool (chat_demo P) = init_pool 4096 64"
    using chat_demo_start by blast
  have r: "chat_run raw (demo_server (chat_demo P))" for raw
    by (rule chat_run.start [OF P(1), of _ 5000 4096 64]) (simp_all add: raw_pool_def has_room_def chat_demo_def)
  have "run_inv (JobPool (App (demo_server (chat_demo P)))) {}"
    using run_inv_reach [OF pool_run.start [of 64 _ 4096]] P(2) by simp
  from post_job_read [OF this, of 3 KJoin 9 None] obtain s where
    s: "chat_OnClientJoin 3 9 (demo_server (chat_demo P)) = Inr s" by (auto simp: chat_OnClientJoin_def)
  from chat_state_consistent [OF chat_run.join [OF r s]] show ?thesis using P(1) s by blast
qed

end
