(* ===== verification/ChatPayload.thy ===== *)
theory ChatPayload
  imports ChatMessages
begin

text \<open>
  What the chat example writes to the packets it sends back: the layout of its answers, and the exact
  bytes of a relayed chat message, those of odd, short and long messages included.
\<close>

lemma put_le_ok:
  assumes "packet_wf p" "int n \<le> packet_room p"
  shows "\<exists>p'. put_raw p (le_bytes n w) = Inr p' \<and> packet_wf p' \<and> packet_data p' = packet_data p @ le_bytes n w \<and>
    packet_room p' = packet_room p - int n \<and> BufferSize p' = BufferSize p \<and> Rear p' = Rear p + int n"
proof -
  from put_raw_ok [OF assms(1), of "le_bytes n w"] assms(2) obtain p' where "put_raw p (le_bytes n w) = Inr p'" "packet_wf p'"
    "packet_data p' = packet_data p @ le_bytes n w" "packet_room p' = packet_room p - int n" "BufferSize p' = BufferSize p" by auto
  then show ?thesis by (auto simp: packet_room_def)
qed

lemma PutData_wchar_ok:
  assumes "packet_wf p" "BufferSize p = kBufferDefault" "40 \<le> packet_room p" "length src = 40"
  shows "\<exists>p'. PutData_wchar p src 20 = Inr (p', 40) \<and> packet_wf p' \<and> packet_data p' = packet_data p @ src \<and>
    packet_room p' = packet_room p - 40 \<and> BufferSize p' = kBufferDefault"
proof -
  have r: "Rear p + 40 < 2 ^ 31" using assms(1,2) by (simp add: packet_wf_def kBufferDefault_def)
  from PutData_ok [OF assms(1), of 40 src] r assms(3,4) obtain p' where p': "PutData p src 40 = Inr (p', 40)" "packet_wf p'"
      "packet_data p' = packet_data p @ src" "Front p' = Front p" "BufferSize p' = BufferSize p" by auto
  have "packet_room p' = packet_room p - 40"
    using length_packet_data [OF p'(2)] length_packet_data [OF assms(1)] p'(3,4,5) assms(4)
    by (simp add: packet_room_def GetDataSize_def)
  then show ?thesis using p' assms(2) by (simp add: PutData_wchar_def)
qed

text \<open>The layout of the answers.\<close>

definition reply_head :: "character \<Rightarrow> u16 \<Rightarrow> byte list" where
  "reply_head ch messageLen =
     le_bytes 2 kCsChatResMessage @ le_bytes 8 (AccountNo ch) @ ID ch @ Nickname ch @ le_bytes 2 messageLen"

text \<open>The relayed text: what the request brought over what the shared buffer held, with the terminator, which
  falls on the last byte of an odd length.\<close>

definition relay_body :: "nat \<Rightarrow> byte list \<Rightarrow> byte list \<Rightarrow> byte list" where
  "relay_body n received buf =
     (let b = take n received @ drop (length (take n received)) buf in take n (b[2 * (n div 2) := 0]))"

lemma relay_body_full: "even n \<Longrightarrow> n \<le> length received \<Longrightarrow> relay_body n received buf = take n received"
  by (simp add: relay_body_def Let_def)

lemma relay_body_stale:
  "even n \<Longrightarrow> length received < n \<Longrightarrow> n \<le> length buf \<Longrightarrow>
   relay_body n received buf = received @ take (n - length received) (drop (length received) buf)"
  by (simp add: relay_body_def Let_def)

lemma relay_body_odd:
  "odd n \<Longrightarrow> n \<le> length received \<Longrightarrow> relay_body n received buf = take (n - 1) received @ [0]"
proof -
  assume n: "odd n" "n \<le> length received"
  then have k: "2 * (n div 2) = n - 1" "0 < n" by (auto elim: oddE)
  then have "take n ((take n received @ drop n buf)[n - 1 := 0]) = (take n received)[n - 1 := 0]"
    using n(2) by (simp add: list_update_append)
  also have "\<dots> = take (n - 1) received @ [0]"
    using k(2) n(2) by (intro nth_equalityI) (auto simp: nth_append nth_list_update)
  finally show ?thesis using n(2) by (simp add: relay_body_def Let_def k min_absorb2)
qed

lemma wr_mem_take: "length bs \<le> length b \<Longrightarrow> wr_mem b 0 bs = Inr (bs @ drop (length bs) b)"
  by (simp add: wr_mem_def)

lemma small_uint: "unat (w :: u16) < 1000 \<Longrightarrow> uint w < 1000"
proof -
  assume "unat w < 1000"
  moreover have "uint w = int (unat w)" by simp
  ultimately show ?thesis by linarith
qed

text \<open>The terminator.\<close>

lemma wr_mem_terminator: "k + 2 \<le> length c \<Longrightarrow> wr_mem c (int k) [0, 0] = Inr (take k c @ [0, 0] @ drop (k + 2) c)"
  by (simp add: wr_mem_def)

lemma take_terminated:
  assumes "n \<le> k + 1" "k + 2 \<le> length c"
  shows "take n (take k c @ [0, 0] @ drop (k + 2) c) = take n (c[k := 0])"
proof (rule nth_equalityI)
  show "length (take n (take k c @ [0, 0] @ drop (k + 2) c)) = length (take n (c[k := 0]))" using assms by simp
  fix i assume "i < length (take n (take k c @ [0, 0] @ drop (k + 2) c))"
  then have "i < n" by simp
  then show "take n (take k c @ [0, 0] @ drop (k + 2) c) ! i = take n (c[k := 0]) ! i"
    using assms by (cases "i < k") (simp_all add: nth_append nth_list_update)
qed

lemma read_message_text_ok:
  assumes "packet_wf pk" "BufferSize pk = kBufferDefault" "length buf = 2000" "unat messageLen < 1000"
  shows "\<exists>pk' buf'. read_message_text pk messageLen buf = Inr (pk', buf') \<and> packet_wf pk' \<and> BufferSize pk' = kBufferDefault \<and>
    length buf' = 2000 \<and> take (unat messageLen) buf' = relay_body (unat messageLen) (packet_data pk) buf"
proof -
  let ?n = "unat messageLen" and ?t = "take (unat messageLen) (packet_data pk)"
  have f: "Front pk + uint messageLen < 2 ^ 31" "0 \<le> uint messageLen"
    using assms(1,2) small_uint [OF assms(4)] by (simp_all add: packet_wf_def kBufferDefault_def)
  have u: "nat (uint messageLen) = ?n" "uint messageLen = int ?n" by simp_all
  from GetData_ok [OF assms(1) f(2,1)] obtain pk' where g: "GetData pk (uint messageLen) = Inr (pk', ?t)" "packet_wf pk'"
      "BufferSize pk' = BufferSize pk" by auto
  let ?b = "?t @ drop (length ?t) buf" and ?k = "2 * (?n div 2)"
  have lb: "length ?b = 2000" using assms(3,4) by simp
  have k: "?k + 2 \<le> 2000" using assms(4) by linarith
  have k2: "2 * (uint messageLen div 2) = int ?k" by (simp add: zdiv_int)
  have w: "wr_mem ?b (2 * (uint messageLen div 2)) [0, 0] = Inr (take ?k ?b @ [0, 0] @ drop (?k + 2) ?b)"
    unfolding k2 by (rule wr_mem_terminator) (use k lb in simp)
  have "?n \<le> ?k + 1" by linarith
  then have up: "take ?n (take ?k ?b @ [0, 0] @ drop (?k + 2) ?b) = take ?n (?b[?k := 0])"
    by (rule take_terminated) (use k lb in simp)
  have "read_message_text pk messageLen buf = Inr (pk', take ?k ?b @ [0, 0] @ drop (?k + 2) ?b)"
    using g(1) w wr_mem_take [of ?t buf] assms(3,4) by (simp add: read_message_text_def)
  moreover have "take ?n (take ?k ?b @ [0, 0] @ drop (?k + 2) ?b) = relay_body ?n (packet_data pk) buf"
    unfolding up relay_body_def Let_def ..
  moreover have "length (take ?k ?b @ [0, 0] @ drop (?k + 2) ?b) = 2000"
    using length_wr_mem [OF wr_mem_terminator [of ?k ?b]] k lb by metis
  ultimately show ?thesis using g(2,3) assms(2) by metis
qed

lemma message_reply_ok:
  assumes "packet_wf pk" "BufferSize pk = kBufferDefault" "length (ID ch) = 40" "length (Nickname ch) = 40"
    and "length buf = 2000" "unat messageLen < 1000"
  shows "\<exists>pk'. message_reply pk ch messageLen buf = Inr pk' \<and> packet_wf pk' \<and>
    packet_data pk' = reply_head ch messageLen @ take (min (unat messageLen) 912) buf"
proof -
  have wf: "packet_wf (ClearPacket pk)" using packet_wf_Clear [OF assms(1)] assms(2) by (simp add: kBufferDefault_def kHeaderDefault_def)
  have room: "packet_room (ClearPacket pk) = 1004" "BufferSize (ClearPacket pk) = kBufferDefault"
    using assms(2) by (simp_all add: packet_room_def ClearPacket_def kBufferDefault_def kHeaderDefault_def)
  from put_le_ok [OF wf, of 2 kCsChatResMessage] room obtain p1 where p1: "put_ushort (ClearPacket pk) kCsChatResMessage = Inr p1" "packet_wf p1"
      "packet_data p1 = le_bytes 2 kCsChatResMessage" "packet_room p1 = 1002" "BufferSize p1 = kBufferDefault"
    by (auto simp: put_ushort_def)
  from put_le_ok [OF p1(2), of 8 "AccountNo ch"] p1(4,5) obtain p2 where p2: "put_int64 p1 (AccountNo ch) = Inr p2" "packet_wf p2"
      "packet_data p2 = packet_data p1 @ le_bytes 8 (AccountNo ch)" "packet_room p2 = 994" "BufferSize p2 = kBufferDefault"
    by (auto simp: put_int64_def)
  from PutData_wchar_ok [OF p2(2,5) _ assms(3)] p2(4) obtain p3 where p3: "PutData_wchar p2 (ID ch) 20 = Inr (p3, 40)" "packet_wf p3"
      "packet_data p3 = packet_data p2 @ ID ch" "packet_room p3 = 954" "BufferSize p3 = kBufferDefault" by auto
  from PutData_wchar_ok [OF p3(2,5) _ assms(4)] p3(4) obtain p4 where p4: "PutData_wchar p3 (Nickname ch) 20 = Inr (p4, 40)" "packet_wf p4"
      "packet_data p4 = packet_data p3 @ Nickname ch" "packet_room p4 = 914" "BufferSize p4 = kBufferDefault" by auto
  from put_le_ok [OF p4(2), of 2 messageLen] p4(4,5) obtain p5 where p5: "put_ushort p4 messageLen = Inr p5" "packet_wf p5"
      "packet_data p5 = packet_data p4 @ le_bytes 2 messageLen" "packet_room p5 = 912" "BufferSize p5 = kBufferDefault"
    by (auto simp: put_ushort_def)
  have u: "uint messageLen = int (unat messageLen)" by simp
  have b: "0 \<le> uint messageLen" "Rear p5 + uint messageLen < 2 ^ 31" "uint messageLen \<le> int (length buf)"
    using p5(2,5) assms(5) small_uint [OF assms(6)] by (simp_all add: packet_wf_def kBufferDefault_def)
  from PutData_ok [OF p5(2) b] obtain p6 n where p6: "PutData p5 buf (uint messageLen) = Inr (p6, n)" "packet_wf p6"
      "packet_data p6 = packet_data p5 @ take (nat (min (uint messageLen) 912)) buf" using p5(4) by auto
  have "nat (min (uint messageLen) 912) = min (unat messageLen) 912" using u by linarith
  then have "message_reply pk ch messageLen buf = Inr p6 \<and>
      packet_data p6 = reply_head ch messageLen @ take (min (unat messageLen) 912) buf"
    using p1 p2 p3 p4 p5 p6 by (simp add: message_reply_def reply_head_def)
  then show ?thesis using p6(2) by blast
qed

text \<open>C32. The bytes of a relayed chat message: from a request with account, length and text (fewer than 1000 bytes
  announced) the server writes the answer's type, the character's account, name and nickname, the announced
  length, and of the text at most 912 bytes, whatever the length says. A complete text of even length up
  to 912 arrives unchanged; when fewer bytes came than announced, the rest is filled with what an earlier
  message left in the shared buffer; and an odd length loses its last byte to the terminator.\<close>

theorem chat_message_relay:
  assumes "packet_wf pk" "BufferSize pk = kBufferDefault" "packet_data pk = le_bytes 8 accountNo @ le_bytes 2 messageLen @ received"
    and "length (ID ch) = 40" "length (Nickname ch) = 40" "length buf = 2000" "unat messageLen < 1000"
  shows "\<exists>pk1 pk2 buf' pk3. read_message_head pk = Inr (pk1, accountNo, messageLen) \<and>
    read_message_text pk1 messageLen buf = Inr (pk2, buf') \<and> message_reply pk2 ch messageLen buf' = Inr pk3 \<and>
    packet_data pk3 = reply_head ch messageLen @ take 912 (relay_body (unat messageLen) received buf) \<and>
    (even (unat messageLen) \<and> unat messageLen \<le> 912 \<and> unat messageLen \<le> length received \<longrightarrow>
       packet_data pk3 = reply_head ch messageLen @ take (unat messageLen) received) \<and>
    (even (unat messageLen) \<and> unat messageLen \<le> 912 \<and> length received < unat messageLen \<longrightarrow>
       packet_data pk3 = reply_head ch messageLen @ received @ take (unat messageLen - length received) (drop (length received) buf)) \<and>
    (odd (unat messageLen) \<and> unat messageLen \<le> 912 \<and> unat messageLen \<le> length received \<longrightarrow>
       packet_data pk3 = reply_head ch messageLen @ take (unat messageLen - 1) received @ [0])"
proof -
  let ?n = "unat messageLen"
  from get_word_ok [OF assms(1,3)] obtain q1 where q1: "get_int64 pk = Inr (q1, accountNo)" "packet_wf q1"
      "packet_data q1 = le_bytes 2 messageLen @ received" "BufferSize q1 = kBufferDefault"
    using assms(2) by (auto simp: get_int64_def)
  from get_word_ok [OF q1(2,3)] obtain pk1 where q2: "get_ushort q1 = Inr (pk1, messageLen)" "packet_wf pk1"
      "packet_data pk1 = received" "BufferSize pk1 = kBufferDefault"
    using q1(4) by (auto simp: get_ushort_def)
  from read_message_text_ok [OF q2(2,4) assms(6,7)] obtain pk2 buf' where t: "read_message_text pk1 messageLen buf = Inr (pk2, buf')"
      "packet_wf pk2" "BufferSize pk2 = kBufferDefault" "length buf' = 2000" "take ?n buf' = relay_body ?n received buf"
    using q2(3) by auto
  from message_reply_ok [OF t(2,3) assms(4,5) t(4) assms(7)] obtain pk3 where m: "message_reply pk2 ch messageLen buf' = Inr pk3"
      "packet_data pk3 = reply_head ch messageLen @ take (min ?n 912) buf'" by auto
  have "take (min ?n 912) buf' = take 912 (relay_body ?n received buf)" by (simp add: t(5) [symmetric] min.commute)
  then have d: "packet_data pk3 = reply_head ch messageLen @ take 912 (relay_body ?n received buf)" using m(2) by simp
  have "read_message_head pk = Inr (pk1, accountNo, messageLen)" using q1(1) q2(1) by (simp add: read_message_head_def)
  then show ?thesis
    using t(1) m(1) d relay_body_full [of ?n received buf] relay_body_stale [of ?n received buf] relay_body_odd [of ?n received buf] assms(6,7)
    by (rule_tac exI [of _ pk1], rule_tac exI [of _ pk2], rule_tac exI [of _ buf'], rule_tac exI [of _ pk3]) (auto simp: min_def take_Cons')
qed

lemma chat_message_relay_witness:
  "\<exists>pk pk1 pk2 buf' pk3. put_raw (ClearPacket (Packet_ctor kBufferDefault (\<lambda>_. 0))) (le_bytes 8 (77 :: u64) @ le_bytes 2 (4 :: u16) @ [65, 66]) = Inr pk \<and>
     read_message_head pk = Inr (pk1, 77, 4) \<and> read_message_text pk1 4 (replicate 2000 9) = Inr (pk2, buf') \<and>
     message_reply pk2 \<lparr>CSession = 1, AccountNo = 77, SectorX = 3, SectorY = 4, LastRecvTime = 0, ID = replicate 40 1,
       Nickname = replicate 40 2\<rparr> 4 buf' = Inr pk3 \<and> drop 92 (packet_data pk3) = [65, 66, 9, 9]"
proof -
  let ?p = "ClearPacket (Packet_ctor kBufferDefault (\<lambda>_. 0))" and ?bs = "le_bytes 8 (77 :: u64) @ le_bytes 2 (4 :: u16) @ [65, 66]"
  let ?ch = "\<lparr>CSession = 1, AccountNo = 77, SectorX = 3, SectorY = 4, LastRecvTime = 0, ID = replicate 40 1, Nickname = replicate 40 2\<rparr>"
  have wf: "packet_wf ?p" "packet_room ?p = 1004" "BufferSize ?p = kBufferDefault"
    by (simp_all add: packet_wf_def packet_room_def ClearPacket_def Packet_ctor_def kBufferDefault_def kHeaderDefault_def new_block_def)
  from put_raw_ok [OF wf(1), of ?bs] obtain pk where pk: "put_raw ?p ?bs = Inr pk" "packet_wf pk" "packet_data pk = ?bs"
      "BufferSize pk = kBufferDefault" using wf(2,3) by auto
  from chat_message_relay [OF pk(2,4,3), of ?ch "replicate 2000 9"] obtain pk1 pk2 buf' pk3 where
    r: "read_message_head pk = Inr (pk1, 77, 4)" "read_message_text pk1 4 (replicate 2000 9) = Inr (pk2, buf')"
      "message_reply pk2 ?ch 4 buf' = Inr pk3" "packet_data pk3 = reply_head ?ch 4 @ [65, 66] @ replicate 2 9"
    by auto
  have two: "replicate 2 9 = [9, 9 :: byte]" by (simp add: numeral_eq_Suc)
  have "drop 92 (packet_data pk3) = [65, 66, 9, 9]" unfolding r(4) two by (simp add: reply_head_def)
  then show ?thesis using pk(1) r(1-3) by blast
qed

end
