(* ===== verification/DummyClient.thy ===== *)
theory DummyClient
  imports ChatMessages XorEncoder IniConfig Winsock
begin

text \<open>
  The load generator of the chat server (Examples/ChatDummyClient/ClientSession.h, WorkerThread.h,
  WorkerThread.cpp): many client sessions driven by one thread with \<open>select\<close>. A function of the source
  is a function on the session it gets and on the worker's context; the results of the socket calls, of
  \<open>GetTickCount\<close> and of \<open>rand\<close> are arguments. The constants of the context and the counters it points
  to are the fields of one record; \<open>SockLog\<close> records the sockets made and closed.
\<close>

subsection \<open>State\<close>

datatype session_state = KIdle | KConnecting | KConnected | KLoginSent | KActive | KDisconnected

definition kSessionBuf :: nat where "kSessionBuf = 8192"

record client_session =
  sock :: nat
  sstate :: session_state
  accountNo :: u64
  sectorX :: u16
  sectorY :: u16
  sendBuf :: "byte list"
  sendBytes :: int
  recvBuf :: "byte list"
  recvBytes :: int
  lastHeartbeat :: u32
  lastMessage :: u32
  disconnectAt :: u32
  reconnectAt :: u32
  messagesSent :: u32
  messagesRecv :: u32

datatype sock_event = SockOpened nat | SockClosed nat

record worker_ctx =
  sessionStartIdx :: int
  messageInterval :: u32
  minLifetimeMs :: u32
  maxLifetimeMs :: u32
  encoder :: iencoder
  RawPacket :: packet
  Connected :: u32
  Active :: u32
  Failed :: u32
  Disconnected :: u32
  TPS_Sent :: u32
  TPS_Recv :: u32
  TotalSent :: u64
  TotalRecv :: u64
  SockLog :: "sock_event list"

text \<open>What the outside answers to one session in one phase of a round: \<open>recv_res\<close> is an error code or the bytes
  that wait at the socket (none: the peer has closed), \<open>send_res\<close> an error code or the number of bytes the
  socket takes, \<open>connect_res\<close> is \<open>None\<close> for success, and the \<open>k\<close>-th use of the clock or of \<open>rand\<close> reads its
  entry of the streams. \<open>recv\<close> and \<open>send\<close> transfer at most the length they are called with.\<close>

record session_io =
  ready_read :: bool
  ready_write :: bool
  ready_except :: bool
  so_error :: int
  recv_res :: "int + byte list"
  send_res :: "int + nat"
  new_socket :: nat
  connect_res :: "int option"
  ticks :: "nat \<Rightarrow> u32"
  rands :: "nat \<Rightarrow> nat \<Rightarrow> u32"

text \<open>\<open>main\<close> allocates the array with zeros and then sets the socket and the state.\<close>

definition new_client_session :: client_session where
  "new_client_session =
     \<lparr>sock = INVALID_SOCKET, sstate = KIdle, accountNo = 0, sectorX = 0, sectorY = 0,
      sendBuf = replicate kSessionBuf 0, sendBytes = 0, recvBuf = replicate kSessionBuf 0, recvBytes = 0,
      lastHeartbeat = 0, lastMessage = 0, disconnectAt = 0, reconnectAt = 0, messagesSent = 0, messagesRecv = 0\<rparr>"

type_synonym worker = "client_session \<times> worker_ctx"

definition kHeartbeatIntervalMs :: u32 where "kHeartbeatIntervalMs = 30000"
definition kMinReconnectDelayMs :: u32 where "kMinReconnectDelayMs = 500"
definition kMaxReconnectDelayMs :: u32 where "kMaxReconnectDelayMs = 2000"
definition WSAEWOULDBLOCK :: int where "WSAEWOULDBLOCK = 10035"

definition log_sock :: "sock_event \<Rightarrow> worker_ctx \<Rightarrow> worker_ctx" where
  "log_sock e c = c\<lparr>SockLog := SockLog c @ [e]\<rparr>"

subsection \<open>Connecting and disconnecting\<close>

definition ComputeDisconnectAt :: "worker_ctx \<Rightarrow> u32 \<Rightarrow> u32 \<Rightarrow> fault + u32" where
  "ComputeDisconnectAt c tick r =
     (if minLifetimeMs c = 0 then Inr 0
      else if maxLifetimeMs c - minLifetimeMs c = 0 then Inl DivideByZero
      else Inr (tick + minLifetimeMs c + r mod (maxLifetimeMs c - minLifetimeMs c)))"

definition ComputeReconnectAt :: "u32 \<Rightarrow> u32 \<Rightarrow> u32" where
  "ComputeReconnectAt tick r = tick + kMinReconnectDelayMs + r mod (kMaxReconnectDelayMs - kMinReconnectDelayMs)"

definition ResetSessionForReconnect :: "client_session \<Rightarrow> client_session" where
  "ResetSessionForReconnect s = s\<lparr>sendBytes := 0, recvBytes := 0, lastHeartbeat := 0, lastMessage := 0, disconnectAt := 0\<rparr>"

text \<open>The two ends the three connecting functions share: the session is up, or its socket is closed.\<close>

definition session_up :: "u32 \<Rightarrow> u32 \<Rightarrow> client_session \<Rightarrow> worker_ctx \<Rightarrow> worker" where
  "session_up t0 t1 s c =
     (s\<lparr>sstate := KConnected, lastHeartbeat := t0, lastMessage := t1\<rparr>, c\<lparr>Connected := Connected c + 1\<rparr>)"

definition session_closed :: "u32 \<Rightarrow> client_session \<Rightarrow> worker_ctx \<Rightarrow> worker" where
  "session_closed t s c =
     (s\<lparr>sock := INVALID_SOCKET, sstate := KDisconnected, reconnectAt := t\<rparr>, log_sock (SockClosed (sock s)) c)"

definition InitiateConnect :: "session_io \<Rightarrow> client_session \<Rightarrow> worker_ctx \<Rightarrow> worker" where
  "InitiateConnect io s c =
     (if new_socket io = INVALID_SOCKET then
        (s\<lparr>sock := INVALID_SOCKET, reconnectAt := ComputeReconnectAt (ticks io 0) (rands io 0 0), sstate := KDisconnected\<rparr>, c)
      else
        let s1 = s\<lparr>sock := new_socket io\<rparr>; c1 = log_sock (SockOpened (new_socket io)) c
        in case connect_res io of
             None \<Rightarrow> session_up (ticks io 0) (ticks io 1) (ResetSessionForReconnect s1) c1
           | Some err \<Rightarrow>
               if err = WSAEWOULDBLOCK then (s1\<lparr>sstate := KConnecting\<rparr>, c1)
               else session_closed (ComputeReconnectAt (ticks io 0) (rands io 0 0)) s1 c1)"

definition MarkDisconnected :: "client_session \<Rightarrow> worker_ctx \<Rightarrow> worker" where
  "MarkDisconnected s c =
     (s\<lparr>sstate := KDisconnected\<rparr>, if sstate s = KActive then c\<lparr>Active := Active c - 1\<rparr> else c)"

definition HandleConnectComplete :: "session_io \<Rightarrow> bool \<Rightarrow> bool \<Rightarrow> client_session \<Rightarrow> worker_ctx \<Rightarrow> worker" where
  "HandleConnectComplete io writable error s c =
     (if error then session_closed (ComputeReconnectAt (ticks io 0) (rands io 0 0)) s c
      else if writable then
        if so_error io = 0 then session_up (ticks io 0) (ticks io 1) (ResetSessionForReconnect s) c
        else session_closed (ComputeReconnectAt (ticks io 0) (rands io 0 0)) s c
      else (s, c))"

subsection \<open>Sending requests\<close>

text \<open>\<open>swprintf_s\<close> into an array of \<open>n\<close> wide characters: the text, its terminator, the rest as it was;
  a text that does not fit ends the program.\<close>

definition wide :: "string \<Rightarrow> u16 list" where
  "wide cs = map of_char cs"

definition swprintf_s :: "u16 list \<Rightarrow> string \<Rightarrow> fault + u16 list" where
  "swprintf_s buf cs =
     (if length cs < length buf then Inr (wide cs @ [0] @ drop (length cs + 1) buf) else Inl Crashed)"

definition decimal :: "int \<Rightarrow> string" where
  "decimal k = (if k < 0 then CHR ''-'' # to_string (nat (- k)) else to_string (nat k))"

text \<open>\<open>s.sendBytes + copyLen > sizeof(s.sendBuf)\<close> compares a signed sum with a \<open>size_t\<close>; \<open>f\<close> is what the
  sender does to the session once the packet is in.\<close>

definition append_packet :: "packet \<Rightarrow> (client_session \<Rightarrow> client_session) \<Rightarrow> client_session \<Rightarrow> fault + client_session" where
  "append_packet pk f s =
     (let copyLen = GetDataSize pk
      in if kSessionBuf < unat (word_of_int (sendBytes s + copyLen) :: u64) then Inr s
         else
           ebind (rd_mem (Buffer pk) (Front pk) copyLen) (\<lambda>bs.
           ebind (wr_mem (sendBuf s) (sendBytes s) bs) (\<lambda>b.
             Inr (f (s\<lparr>sendBuf := b, sendBytes := sendBytes s + copyLen\<rparr>)))))"

definition SendLoginPacket :: "int \<Rightarrow> int \<Rightarrow> client_session \<Rightarrow> worker_ctx \<Rightarrow> fault + client_session" where
  "SendLoginPacket globalIdx rnd s c =
     (let account = word_of_int (globalIdx + 1) :: u64
      in ebind (swprintf_s (replicate 20 0) (''DC'' @ decimal (sint account))) (\<lambda>ident.
         ebind (put_ushort (ClearPacket (RawPacket c)) kCsChatReqLogin) (\<lambda>p1.
         ebind (put_int64 p1 account) (\<lambda>p2.
         ebind (PutData_wchar p2 (wstr_bytes ident) 20) (\<lambda>(p3, n3).
         ebind (PutData_wchar p3 (wstr_bytes ident) 20) (\<lambda>(p4, n4).
         ebind (PutData p4 (replicate 64 0) 64) (\<lambda>(p5, n5).
         ebind (Encode (encoder c) rnd p5) (\<lambda>pk.
           append_packet pk (\<lambda>s. s\<lparr>accountNo := account, sstate := KLoginSent\<rparr>) s))))))))"

definition SendSectorMovePacket :: "u32 \<Rightarrow> u32 \<Rightarrow> int \<Rightarrow> client_session \<Rightarrow> worker_ctx \<Rightarrow> fault + client_session" where
  "SendSectorMovePacket r1 r2 rnd s c =
     (let x = ucast (r1 mod 50) :: u16; y = ucast (r2 mod 50) :: u16
      in ebind (put_ushort (ClearPacket (RawPacket c)) kCsChatReqSectorMove) (\<lambda>p1.
         ebind (put_int64 p1 (accountNo s)) (\<lambda>p2.
         ebind (put_ushort p2 x) (\<lambda>p3.
         ebind (put_ushort p3 y) (\<lambda>p4.
         ebind (Encode (encoder c) rnd p4) (\<lambda>pk.
           append_packet pk (\<lambda>s. s\<lparr>sectorX := x, sectorY := y\<rparr>) s))))))"

definition SendChatPacket :: "int \<Rightarrow> client_session \<Rightarrow> worker_ctx \<Rightarrow> fault + client_session" where
  "SendChatPacket rnd s c =
     (let chat_text = ''Test from DC'' @ decimal (sint (accountNo s));
          len = length chat_text
      in ebind (swprintf_s (replicate 64 0) chat_text) (\<lambda>message.
         ebind (put_ushort (ClearPacket (RawPacket c)) kCsChatReqMessage) (\<lambda>p1.
         ebind (put_int64 p1 (accountNo s)) (\<lambda>p2.
         ebind (put_ushort p2 (of_nat (len * 2))) (\<lambda>p3.
         ebind (PutData_wchar p3 (wstr_bytes message) (int len)) (\<lambda>(p4, n4).
         ebind (Encode (encoder c) rnd p4) (\<lambda>pk.
           append_packet pk (\<lambda>s. s\<lparr>messagesSent := messagesSent s + 1\<rparr>) s)))))))"

definition SendHeartbeatPacket :: "int \<Rightarrow> client_session \<Rightarrow> worker_ctx \<Rightarrow> fault + client_session" where
  "SendHeartbeatPacket rnd s c =
     ebind (put_ushort (ClearPacket (RawPacket c)) kCsChatReqHeartbeat) (\<lambda>p1.
     ebind (Encode (encoder c) rnd p1) (\<lambda>pk. append_packet pk id s))"

subsection \<open>Receiving answers\<close>

definition on_login_reply :: "session_io \<Rightarrow> nat \<Rightarrow> packet \<Rightarrow> client_session \<Rightarrow> worker_ctx \<Rightarrow> fault + worker" where
  "on_login_reply io k p s c =
     ebind (get_uchar p) (\<lambda>(p1, status).
     ebind (get_int64 p1) (\<lambda>(p2, account).
       if status = 1 then
         ebind (ComputeDisconnectAt c (ticks io k) (rands io k 0)) (\<lambda>t.
         let c1 = c\<lparr>Active := Active c + 1\<rparr>
         in ebind (SendSectorMovePacket (rands io k 1) (rands io k 2) (uint (rands io k 3))
                     (s\<lparr>sstate := KActive, disconnectAt := t\<rparr>) c1) (\<lambda>s1. Inr (s1, c1)))
       else
         let (s1, c1) = MarkDisconnected s c
         in Inr (s1\<lparr>reconnectAt := ComputeReconnectAt (ticks io k) (rands io k 0)\<rparr>, c1\<lparr>Failed := Failed c1 + 1\<rparr>)))"

definition on_answer :: "session_io \<Rightarrow> nat \<Rightarrow> u16 \<Rightarrow> packet \<Rightarrow> client_session \<Rightarrow> worker_ctx \<Rightarrow> fault + worker" where
  "on_answer io k type p s c =
     (if type = kCsChatResLogin then on_login_reply io k p s c
      else if type = kCsChatResMessage then
        Inr (s\<lparr>messagesRecv := messagesRecv s + 1\<rparr>, c\<lparr>TPS_Recv := TPS_Recv c + 1, TotalRecv := TotalRecv c + 1\<rparr>)
      else Inr (s, c))"

text \<open>The body of the loop of \<open>ProcessRecvBuffer\<close>; true means that it goes on. The temporary packet starts
  at position 0, it is not cleared.\<close>

definition process_round :: "session_io \<Rightarrow> nat \<Rightarrow> int \<Rightarrow> client_session \<Rightarrow> worker_ctx \<Rightarrow> fault + worker \<times> int \<times> bool" where
  "process_round io k processed s c =
     (let E = encoder c; headerSize = GetHeaderSize E; hdr = drop (nat processed) (recvBuf s);
          stop = Inr (MarkDisconnected s c, processed, False)
      in ebind (VerifyHeaderMagic E hdr) (\<lambda>magic.
         if \<not> magic then stop
         else ebind (PeekPayloadLength E hdr) (\<lambda>peek.
           case peek of
             None \<Rightarrow> stop
           | Some payloadLen \<Rightarrow>
               if unat (of_nat kSessionBuf - of_nat headerSize :: u64) < payloadLen then stop
               else
                 let packetSize = int (headerSize + payloadLen)
                 in if recvBytes s - processed < packetSize then Inr ((s, c), processed, False)
                    else
                      ebind (rd_mem (recvBuf s) processed packetSize) (\<lambda>bs.
                      ebind (wr_mem (Buffer (RawPacket c)) (Rear (RawPacket c)) bs) (\<lambda>b.
                      ebind (MoveWritePos (RawPacket c\<lparr>Buffer := b\<rparr>) packetSize) (\<lambda>(p1, n).
                      ebind (Decode E p1) (\<lambda>(p2, ok).
                        if \<not> ok then stop
                        else ebind (get_ushort p2) (\<lambda>(p3, type).
                             ebind (on_answer io k type p3 s c) (\<lambda>w. Inr (w, processed + packetSize, True))))))))))"

partial_function (option) ProcessRecvBuffer ::
  "session_io \<Rightarrow> nat \<Rightarrow> int \<Rightarrow> client_session \<Rightarrow> worker_ctx \<Rightarrow> (fault + worker \<times> int) option" where
  "ProcessRecvBuffer io k processed s c =
     (if recvBytes s - processed < int (GetHeaderSize (encoder c)) then Some (Inr ((s, c), processed))
      else
        case process_round io k processed s c of
          Inl f \<Rightarrow> Some (Inl f)
        | Inr ((s1, c1), processed1, go) \<Rightarrow>
            if go then ProcessRecvBuffer io (Suc k) processed1 s1 c1 else Some (Inr ((s1, c1), processed1)))"

definition recv_compact :: "int \<Rightarrow> client_session \<Rightarrow> fault + client_session" where
  "recv_compact processed s =
     (if 0 < processed then
        ebind (if processed < recvBytes s then
                 ebind (rd_mem (recvBuf s) processed (recvBytes s - processed)) (wr_mem (recvBuf s) 0)
               else Inr (recvBuf s)) (\<lambda>b.
          Inr (s\<lparr>recvBuf := b, recvBytes := recvBytes s - processed\<rparr>))
      else Inr s)"

definition HandleRecv :: "session_io \<Rightarrow> client_session \<Rightarrow> worker_ctx \<Rightarrow> (fault + worker) option" where
  "HandleRecv io s c =
     (if int kSessionBuf - recvBytes s \<le> 0 then Some (Inr (MarkDisconnected s c))
      else case recv_res io of
             Inl err \<Rightarrow> Some (Inr (if err \<noteq> WSAEWOULDBLOCK then MarkDisconnected s c else (s, c)))
           | Inr waiting \<Rightarrow>
               let bs = take (nat (int kSessionBuf - recvBytes s)) waiting
               in if bs = [] then Some (Inr (MarkDisconnected s c))
               else
                 (case wr_mem (recvBuf s) (recvBytes s) bs of
                    Inl f \<Rightarrow> Some (Inl f)
                  | Inr b \<Rightarrow>
                      map_option (\<lambda>r. ebind r (\<lambda>((s1, c1), processed). ebind (recv_compact processed s1) (\<lambda>s2. Inr (s2, c1))))
                        (ProcessRecvBuffer io 0 0 (s\<lparr>recvBuf := b, recvBytes := recvBytes s + int (length bs)\<rparr>) c)))"

definition HandleSend :: "session_io \<Rightarrow> client_session \<Rightarrow> worker_ctx \<Rightarrow> fault + worker" where
  "HandleSend io s c =
     (if sendBytes s = 0 then Inr (s, c)
      else case send_res io of
             Inl err \<Rightarrow> Inr (if err = WSAEWOULDBLOCK then (s, c) else MarkDisconnected s c)
           | Inr takes \<Rightarrow>
               let n = min (int takes) (sendBytes s)
               in ebind (if n < sendBytes s then
                        ebind (rd_mem (sendBuf s) n (sendBytes s - n)) (wr_mem (sendBuf s) 0)
                      else Inr (sendBuf s)) (\<lambda>b.
                 Inr (s\<lparr>sendBuf := b, sendBytes := sendBytes s - n\<rparr>,
                      c\<lparr>TPS_Sent := TPS_Sent c + word_of_int n, TotalSent := TotalSent c + word_of_int n\<rparr>)))"

subsection \<open>The worker thread\<close>

definition obind :: "('e + 'a) option \<Rightarrow> ('a \<Rightarrow> ('e + 'b) option) \<Rightarrow> ('e + 'b) option" where
  "obind m f = (case m of None \<Rightarrow> None | Some (Inl e) \<Rightarrow> Some (Inl e) | Some (Inr a) \<Rightarrow> f a)"

text \<open>A loop over the session array.\<close>

fun each_session ::
  "(nat \<Rightarrow> client_session \<Rightarrow> worker_ctx \<Rightarrow> (fault + worker) option) \<Rightarrow> nat \<Rightarrow> client_session list \<Rightarrow> worker_ctx
     \<Rightarrow> (fault + client_session list \<times> worker_ctx) option" where
  "each_session f i [] c = Some (Inr ([], c))"
| "each_session f i (s # ss) c =
     obind (f i s c) (\<lambda>(s1, c1). obind (each_session f (Suc i) ss c1) (\<lambda>(ss1, c2). Some (Inr (s1 # ss1, c2))))"

text \<open>Phase 1: blocking connects. A fresh session has all its fields zero.\<close>

definition connect_first :: "session_io \<Rightarrow> client_session \<Rightarrow> worker_ctx \<Rightarrow> worker" where
  "connect_first io s c =
     (let t = ComputeReconnectAt (ticks io 0) (rands io 0 0)
      in if new_socket io = INVALID_SOCKET then
           (s\<lparr>sock := INVALID_SOCKET, sstate := KDisconnected, reconnectAt := t\<rparr>, c\<lparr>Failed := Failed c + 1\<rparr>)
         else
           let s1 = s\<lparr>sock := new_socket io\<rparr>; c1 = log_sock (SockOpened (new_socket io)) c
           in case connect_res io of
                Some err \<Rightarrow> (let (s2, c2) = session_closed t s1 c1 in (s2, c2\<lparr>Failed := Failed c2 + 1\<rparr>))
              | None \<Rightarrow> session_up (ticks io 0) (ticks io 1) s1 c1)"

text \<open>The sets of \<open>select\<close>: \<open>FD_SET\<close> drops a socket that does not fit the \<open>FD_SETSIZE\<close> entries. The states
  before \<open>kDisconnected\<close> are all the others.\<close>

definition kFdSetSize :: nat where "kFdSetSize = 1024"

definition FD_SET :: "nat \<Rightarrow> nat list \<Rightarrow> nat list" where
  "FD_SET x fds = (if x \<in> set fds then fds else if length fds < kFdSetSize then fds @ [x] else fds)"

fun collect_sets :: "client_session list \<Rightarrow> nat list \<times> nat list \<times> nat list \<times> nat \<Rightarrow> nat list \<times> nat list \<times> nat list \<times> nat" where
  "collect_sets [] acc = acc"
| "collect_sets (s # ss) (rs, ws, xs, n) =
     collect_sets ss
       (if sock s = INVALID_SOCKET \<or> sstate s = KDisconnected then (rs, ws, xs, n)
        else if sstate s = KConnecting then (rs, FD_SET (sock s) ws, FD_SET (sock s) xs, n + 1)
        else (FD_SET (sock s) rs, if 0 < sendBytes s then FD_SET (sock s) ws else ws, xs, n + 1))"

text \<open>\<open>select\<close> leaves in each set the sockets that are ready.\<close>

definition dispatch :: "nat list \<times> nat list \<times> nat list \<Rightarrow> session_io \<Rightarrow> client_session \<Rightarrow> worker_ctx \<Rightarrow> (fault + worker) option" where
  "dispatch fds io s c =
     (let (rs, ws, xs) = fds;
          readable = sock s \<in> set rs \<and> ready_read io;
          writable = sock s \<in> set ws \<and> ready_write io;
          errored = sock s \<in> set xs \<and> ready_except io
      in if sock s = INVALID_SOCKET then Some (Inr (s, c))
         else if sstate s = KConnecting then
           Some (Inr (if writable \<or> errored then HandleConnectComplete io writable errored s c else (s, c)))
         else
           obind (if readable then HandleRecv io s c else Some (Inr (s, c))) (\<lambda>(s1, c1).
             Some (if sstate s1 \<noteq> KDisconnected \<and> writable then HandleSend io s1 c1 else Inr (s1, c1))))"

definition periodic :: "session_io \<Rightarrow> u32 \<Rightarrow> nat \<Rightarrow> client_session \<Rightarrow> worker_ctx \<Rightarrow> fault + worker" where
  "periodic io now i s c =
     (if sstate s = KConnected then
        ebind (SendLoginPacket (sessionStartIdx c + int i) (uint (rands io 0 3)) s c) (\<lambda>s1. Inr (s1, c))
      else if sstate s = KActive then
        if disconnectAt s \<noteq> 0 \<and> disconnectAt s \<le> now then Inr (MarkDisconnected s c)
        else
          ebind (if messageInterval c \<le> now - lastMessage s then
                   ebind (SendChatPacket (uint (rands io 0 3)) s c) (\<lambda>s1. Inr (s1\<lparr>lastMessage := now\<rparr>))
                 else Inr s) (\<lambda>s1.
          ebind (if kHeartbeatIntervalMs \<le> now - lastHeartbeat s1 then
                   ebind (SendHeartbeatPacket (uint (rands io 1 3)) s1 c) (\<lambda>s2. Inr (s2\<lparr>lastHeartbeat := now\<rparr>))
                 else Inr s1) (\<lambda>s2. Inr (s2, c)))
      else if sstate s = KDisconnected then
        if sock s \<noteq> INVALID_SOCKET then
          let (s1, c1) = session_closed (ComputeReconnectAt (ticks io 0) (rands io 0 0)) s c
          in Inr (s1, c1\<lparr>Disconnected := Disconnected c1 + 1\<rparr>)
        else if reconnectAt s \<le> now then Inr (InitiateConnect io s c)
        else Inr (s, c)
      else Inr (s, c))"

text \<open>One turn of the \<open>select\<close> loop: what \<open>select\<close> returns, the answers in the dispatch loop, the time and the
  answers in the periodic loop.\<close>

record round_io =
  selectResult :: int
  io_dispatch :: "nat \<Rightarrow> session_io"
  now_tick :: u32
  io_periodic :: "nat \<Rightarrow> session_io"

definition worker_round :: "round_io \<Rightarrow> client_session list \<times> worker_ctx \<Rightarrow> (fault + client_session list \<times> worker_ctx) option" where
  "worker_round r w =
     (let (ss, c) = w; (rs, ws, xs, activeSocketCnt) = collect_sets ss ([], [], [], 0)
      in obind (if activeSocketCnt \<noteq> 0 \<and> 0 < selectResult r
                then each_session (\<lambda>i. dispatch (rs, ws, xs) (io_dispatch r i)) 0 ss c
                else Some (Inr (ss, c))) (\<lambda>(ss1, c1).
           each_session (\<lambda>i s c. Some (periodic (io_periodic r i) (now_tick r) i s c)) 0 ss1 c1))"

fun worker_rounds :: "round_io list \<Rightarrow> client_session list \<times> worker_ctx \<Rightarrow> (fault + client_session list \<times> worker_ctx) option" where
  "worker_rounds [] w = Some (Inr w)"
| "worker_rounds (r # rs) w = obind (worker_round r w) (worker_rounds rs)"

definition close_last :: "client_session \<Rightarrow> worker_ctx \<Rightarrow> worker" where
  "close_last s c =
     (if sock s \<noteq> INVALID_SOCKET then (s\<lparr>sock := INVALID_SOCKET\<rparr>, log_sock (SockClosed (sock s)) c) else (s, c))"

text \<open>The whole thread: the first connects, a turn of the loop for each time the shutdown event was found
  not set, and the cleanup.\<close>

definition WorkerThreadFunc ::
  "(nat \<Rightarrow> session_io) \<Rightarrow> round_io list \<Rightarrow> client_session list \<Rightarrow> worker_ctx \<Rightarrow> (fault + client_session list \<times> worker_ctx) option" where
  "WorkerThreadFunc io0 rounds ss c =
     obind (each_session (\<lambda>i s c. Some (Inr (connect_first (io0 i) s c))) 0 ss c) (\<lambda>w1.
     obind (worker_rounds rounds w1) (\<lambda>(ss2, c2).
       each_session (\<lambda>i s c. Some (Inr (close_last s c))) 0 ss2 c2))"

end
