(* ===== verification/DummyRequests.thy ===== *)
theory DummyRequests
  imports DummyClient ChatPayload
begin

text \<open>
  What the chat load generator sends, against what the chat server reads: the bytes of each of its four
  requests, and that the reading functions of the server take the fields back out.
\<close>

subsection \<open>Requests under construction\<close>

text \<open>A packet fresh from the constructor, as the load generator makes one for every request.\<close>

definition raw_ok :: "packet \<Rightarrow> bool" where
  "raw_ok p \<longleftrightarrow> packet_wf p \<and> BufferSize p = kBufferDefault \<and> Front p = 0 \<and> Rear p = 0 \<and> \<not> EncodeFlag p \<and> \<not> SRWEncode p"

definition building :: "packet \<Rightarrow> byte list \<Rightarrow> bool" where
  "building p d \<longleftrightarrow> packet_wf p \<and> BufferSize p = kBufferDefault \<and> Front p = kHeaderDefault \<and> \<not> EncodeFlag p \<and>
     \<not> SRWEncode p \<and> packet_data p = d"

lemma building_room: "building p d \<Longrightarrow> packet_room p = 1004 - int (length d)"
  using length_packet_data [of p]
  by (simp add: building_def packet_room_def GetDataSize_def kBufferDefault_def kHeaderDefault_def)

lemma building_Clear: "raw_ok p \<Longrightarrow> building (ClearPacket p) []"
  using packet_wf_Clear [of p]
  by (simp add: raw_ok_def building_def kBufferDefault_def kHeaderDefault_def) (simp add: ClearPacket_def kHeaderDefault_def)

lemma building_put:
  assumes "building p d" "length d + length bs \<le> 1004"
  shows "\<exists>p'. put_raw p bs = Inr p' \<and> building p' (d @ bs)"
  using put_raw_ok [of p bs] assms building_room [OF assms(1)] by (auto simp: building_def)

lemma building_PutData:
  assumes "building p d" "length d + n \<le> 1004" "n \<le> length src"
  shows "\<exists>p' k. PutData p src (int n) = Inr (p', k) \<and> building p' (d @ take n src)"
proof -
  have wf: "packet_wf p" using assms(1) by (simp add: building_def)
  have r: "Rear p + int n < 2 ^ 31" "int n \<le> packet_room p"
    using building_room [OF assms(1)] assms(1,2) by (simp_all add: building_def packet_room_def kBufferDefault_def)
  have "min (int n) (packet_room p) = int n" using r(2) by simp
  with PutData_ok [OF wf _ r(1), of src] assms show ?thesis by (auto simp: building_def)
qed

lemma building_PutData_wchar:
  assumes "building p d" "length d + 2 * n \<le> 1004" "2 * n \<le> length src"
  shows "\<exists>p' k. PutData_wchar p src (int n) = Inr (p', k) \<and> building p' (d @ take (2 * n) src)"
  using building_PutData [OF assms] assms(2) by (simp add: PutData_wchar_def mult.commute)

context frame_encoder
begin

lemma building_Encode:
  assumes "building p d" "length d \<le> max_len"
  shows "\<exists>q. Encode E r p = Inr q \<and> packet_wf q \<and> packet_data q = frame r d"
  using encode_frame [of p r] assms by (auto simp: building_def)

end

subsection \<open>The send buffer\<close>

text \<open>The bytes of a session that wait to be sent.\<close>

definition outgoing :: "client_session \<Rightarrow> byte list" where
  "outgoing s = take (nat (sendBytes s)) (sendBuf s)"

definition send_ok :: "client_session \<Rightarrow> bool" where
  "send_ok s \<longleftrightarrow> length (sendBuf s) = kSessionBuf \<and> 0 \<le> sendBytes s \<and> sendBytes s \<le> int kSessionBuf"

definition queued :: "byte list \<Rightarrow> client_session \<Rightarrow> client_session" where
  "queued bs s = s\<lparr>sendBuf := take (nat (sendBytes s)) (sendBuf s) @ bs @ drop (nat (sendBytes s) + length bs) (sendBuf s),
     sendBytes := sendBytes s + int (length bs)\<rparr>"

lemma queued_send_ok: "send_ok s \<Longrightarrow> length (outgoing s) + length bs \<le> kSessionBuf \<Longrightarrow>
    send_ok (queued bs s) \<and> outgoing (queued bs s) = outgoing s @ bs"
  by (auto simp: send_ok_def queued_def outgoing_def nat_add_distrib min_absorb2)

lemma length_outgoing: "send_ok s \<Longrightarrow> int (length (outgoing s)) = sendBytes s"
  by (auto simp: send_ok_def outgoing_def min_def)

lemma unat_of_nat64: "m < 2 ^ 64 \<Longrightarrow> unat (of_nat m :: u64) = m"
  by (simp add: unat_of_nat take_bit_nat_eq_self)

lemma append_packet_ok:
  assumes "send_ok s" "packet_wf q"
  shows "append_packet q f s =
    Inr (if kSessionBuf < length (outgoing s) + length (packet_data q) then s else f (queued (packet_data q) s))"
proof -
  let ?n = "length (packet_data q)"
  have n: "GetDataSize q = int ?n" using length_packet_data [OF assms(2)] by simp
  have bytes: "sendBytes s = int (length (outgoing s))" using length_outgoing [OF assms(1)] by simp
  have "int ?n < 2 ^ 31" using n assms(2) by (auto simp: packet_wf_def GetDataSize_def)
  then have small: "length (outgoing s) + ?n < 2 ^ 64" using assms(1) bytes by (simp add: send_ok_def kSessionBuf_def)
  have "unat (word_of_int (sendBytes s + GetDataSize q) :: u64) = length (outgoing s) + ?n"
  proof -
    have "sendBytes s + GetDataSize q = int (length (outgoing s) + ?n)" using n bytes by simp
    then have "(word_of_int (sendBytes s + GetDataSize q) :: u64) = of_nat (length (outgoing s) + ?n)" by (metis of_int_of_nat_eq)
    moreover have "unat (of_nat (length (outgoing s) + ?n) :: u64) = length (outgoing s) + ?n"
      by (rule unat_of_nat64) (use small in simp)
    ultimately show ?thesis by presburger
  qed
  moreover have "rd_mem (Buffer q) (Front q) (GetDataSize q) = Inr (packet_data q)"
    using rd_mem_packet_data [OF assms(2), of "[]" "packet_data q" "[]"] n by simp
  moreover have "wr_mem (sendBuf s) (sendBytes s) (packet_data q) =
      Inr (take (nat (sendBytes s)) (sendBuf s) @ packet_data q @ drop (nat (sendBytes s) + ?n) (sendBuf s))"
    if "length (outgoing s) + ?n \<le> kSessionBuf"
    using assms(1) that bytes by (intro wr_mem_ok) (auto simp: send_ok_def)
  ultimately show ?thesis by (auto simp: append_packet_def Let_def queued_def n not_less)
qed

subsection \<open>Texts\<close>

lemma length_to_string: "n < 10 ^ k \<Longrightarrow> 0 < k \<Longrightarrow> length (to_string n) \<le> k"
proof (induction n arbitrary: k rule: to_string.induct)
  case (1 n)
  show ?case
  proof (cases "n < 10")
    case True
    then show ?thesis using "1.prems"(2) by (subst to_string.simps) simp
  next
    case False
    then obtain j where k: "k = Suc j" "0 < j" using "1.prems"
      by (metis Suc_pred gr0I less_nat_zero_code not_less_zero power_0 power_one_right One_nat_def Suc_lessI old.nat.exhaust power_Suc0_right)
    have "n div 10 < 10 ^ j" using "1.prems"(1) k(1) by auto
    from "1.IH" [OF False this k(2)] show ?thesis using False k(1) by (subst to_string.simps) simp
  qed
qed

lemma length_decimal: "\<bar>i\<bar> < 10 ^ k \<Longrightarrow> 0 < k \<Longrightarrow> length (decimal i) \<le> Suc k"
  using length_to_string [of "nat \<bar>i\<bar>" k] by (auto simp: decimal_def nat_less_iff le_SucI)

lemma length_decimal64: "length (decimal (sint (w :: u64))) \<le> 20"
proof -
  have "- (2 ^ 63) \<le> sint w" "sint w < 2 ^ 63" using sint_greater_eq [of w] sint_less [of w] by simp_all
  then have "\<bar>sint w\<bar> < 10 ^ 19" by simp
  from length_decimal [OF this] show ?thesis by simp
qed

lemma length_wide [simp]: "length (wide cs) = length cs"
  by (simp add: wide_def)

lemma wstr_bytes_append: "wstr_bytes (a @ b) = wstr_bytes a @ wstr_bytes b"
  by (simp add: wstr_bytes_def)

lemma swprintf_s_zeros:
  "length cs < n \<Longrightarrow> swprintf_s (replicate n 0) cs = Inr (wide cs @ replicate (n - length cs) 0)"
  by (cases "n - length cs") (auto simp: swprintf_s_def Suc_diff_Suc simp flip: replicate_Suc)

subsection \<open>The requests\<close>

definition ident_bytes :: "u64 \<Rightarrow> byte list" where
  "ident_bytes a = wstr_bytes (wide (''DC'' @ decimal (sint a)) @ replicate (20 - length (''DC'' @ decimal (sint a))) 0)"

definition chat_text :: "u64 \<Rightarrow> string" where
  "chat_text a = ''Test from DC'' @ decimal (sint a)"

definition login_payload :: "u64 \<Rightarrow> byte list" where
  "login_payload a = le_bytes 2 kCsChatReqLogin @ le_bytes 8 a @ ident_bytes a @ ident_bytes a @ replicate 64 0"

definition move_payload :: "u64 \<Rightarrow> u16 \<Rightarrow> u16 \<Rightarrow> byte list" where
  "move_payload a x y = le_bytes 2 kCsChatReqSectorMove @ le_bytes 8 a @ le_bytes 2 x @ le_bytes 2 y"

definition chat_payload :: "u64 \<Rightarrow> byte list" where
  "chat_payload a = le_bytes 2 kCsChatReqMessage @ le_bytes 8 a @
     le_bytes 2 (of_nat (length (chat_text a) * 2) :: u16) @ wstr_bytes (wide (chat_text a))"

definition heartbeat_payload :: "byte list" where
  "heartbeat_payload = le_bytes 2 kCsChatReqHeartbeat"

lemma length_chat_text: "length (chat_text a) \<le> 32"
  using length_decimal64 [of a] by (simp add: chat_text_def)

text \<open>An account number below \<open>10 ^ 17\<close> leaves room for the terminator after the name.\<close>

definition account_ok :: "u64 \<Rightarrow> bool" where
  "account_ok a \<longleftrightarrow> \<bar>sint a\<bar> < 10 ^ 16"

lemma length_ident: "account_ok a \<Longrightarrow> length (''DC'' @ decimal (sint a)) < 20"
  using length_decimal [of "sint a" 16] by (simp add: account_ok_def)

lemma length_ident_bytes: "account_ok a \<Longrightarrow> length (ident_bytes a) = 40"
  using length_ident [of a] by (simp add: ident_bytes_def)

lemma length_payloads:
  "account_ok a \<Longrightarrow> length (login_payload a) = 154"
  "length (move_payload a x y) = 14"
  "length (chat_payload a) \<le> 76"
  "length heartbeat_payload = 2"
  using length_chat_text [of a] length_ident_bytes [of a]
  by (simp_all add: login_payload_def move_payload_def chat_payload_def heartbeat_payload_def)

text \<open>Each sender is the same: the request is built, framed, and put behind what is waiting, if it fits.\<close>

definition queue_frame :: "byte list \<Rightarrow> (client_session \<Rightarrow> client_session) \<Rightarrow> client_session \<Rightarrow> client_session" where
  "queue_frame bs f s = (if kSessionBuf < length (outgoing s) + length bs then s else f (queued bs s))"

context frame_encoder
begin

lemma finish_request:
  assumes "building p d" "length d \<le> max_len" "send_ok s"
  shows "ebind (Encode E r p) (\<lambda>pk. append_packet pk f s) = Inr (queue_frame (frame r d) f s)"
proof -
  obtain q where "Encode E r p = Inr q" "packet_wf q" "packet_data q = frame r d"
    using building_Encode [OF assms(1,2)] by blast
  then show ?thesis using append_packet_ok [OF assms(3)] by (simp add: queue_frame_def)
qed

lemma SendLoginPacket_ok:
  assumes "encoder c = E" "raw_ok (RawPacket c)" "send_ok s" "account_ok (word_of_int (i + 1))" "154 \<le> max_len"
  shows "SendLoginPacket i r s c = Inr (queue_frame (frame r (login_payload (word_of_int (i + 1))))
    (\<lambda>s. s\<lparr>accountNo := word_of_int (i + 1), sstate := KLoginSent\<rparr>) s)"
proof -
  let ?a = "word_of_int (i + 1) :: u64"
  have id: "ident_bytes ?a = take (2 * 20) (ident_bytes ?a)" "2 * 20 \<le> length (ident_bytes ?a)"
    using length_ident_bytes [OF assms(4)] by simp_all
  from building_put [OF building_Clear [OF assms(2)], of "le_bytes 2 kCsChatReqLogin"] obtain p1 where
    p1: "put_ushort (ClearPacket (RawPacket c)) kCsChatReqLogin = Inr p1" "building p1 (le_bytes 2 kCsChatReqLogin)"
    by (auto simp: put_ushort_def)
  from building_put [OF p1(2), of "le_bytes 8 ?a"] obtain p2 where
    p2: "put_int64 p1 ?a = Inr p2" "building p2 (le_bytes 2 kCsChatReqLogin @ le_bytes 8 ?a)" by (auto simp: put_int64_def)
  from building_PutData_wchar [OF p2(2) _ id(2)] id(1) obtain p3 n3 where
    p3: "PutData_wchar p2 (ident_bytes ?a) 20 = Inr (p3, n3)" "building p3 (le_bytes 2 kCsChatReqLogin @ le_bytes 8 ?a @ ident_bytes ?a)"
    by auto
  from building_PutData_wchar [OF p3(2) _ id(2)] id(1) length_ident_bytes [OF assms(4)] obtain p4 n4 where
    p4: "PutData_wchar p3 (ident_bytes ?a) 20 = Inr (p4, n4)"
      "building p4 (le_bytes 2 kCsChatReqLogin @ le_bytes 8 ?a @ ident_bytes ?a @ ident_bytes ?a)" by auto
  from building_PutData [OF p4(2), of 64 "replicate 64 0"] length_ident_bytes [OF assms(4)] obtain p5 n5 where
    p5: "PutData p4 (replicate 64 0) 64 = Inr (p5, n5)" "building p5 (login_payload ?a)" by (auto simp: login_payload_def)
  have "length (login_payload ?a) \<le> max_len" using length_payloads(1) [OF assms(4)] assms(5) by simp
  from finish_request [OF p5(2) this assms(3)] show ?thesis
    using p1(1) p2(1) p3(1) p4(1) p5(1) swprintf_s_zeros [OF length_ident [OF assms(4)]] assms(1)
    by (simp add: SendLoginPacket_def Let_def ident_bytes_def)
qed

lemma SendSectorMovePacket_ok:
  assumes "encoder c = E" "raw_ok (RawPacket c)" "send_ok s" "14 \<le> max_len"
  shows "SendSectorMovePacket r1 r2 r s c = Inr (queue_frame (frame r (move_payload (accountNo s) (ucast (r1 mod 50)) (ucast (r2 mod 50))))
    (\<lambda>s. s\<lparr>sectorX := ucast (r1 mod 50), sectorY := ucast (r2 mod 50)\<rparr>) s)"
proof -
  let ?a = "accountNo s" and ?x = "ucast (r1 mod 50) :: u16" and ?y = "ucast (r2 mod 50) :: u16"
  from building_put [OF building_Clear [OF assms(2)], of "le_bytes 2 kCsChatReqSectorMove"] obtain p1 where
    p1: "put_ushort (ClearPacket (RawPacket c)) kCsChatReqSectorMove = Inr p1" "building p1 (le_bytes 2 kCsChatReqSectorMove)"
    by (auto simp: put_ushort_def)
  from building_put [OF p1(2), of "le_bytes 8 ?a"] obtain p2 where
    p2: "put_int64 p1 ?a = Inr p2" "building p2 (le_bytes 2 kCsChatReqSectorMove @ le_bytes 8 ?a)" by (auto simp: put_int64_def)
  from building_put [OF p2(2), of "le_bytes 2 ?x"] obtain p3 where
    p3: "put_ushort p2 ?x = Inr p3" "building p3 (le_bytes 2 kCsChatReqSectorMove @ le_bytes 8 ?a @ le_bytes 2 ?x)" by (auto simp: put_ushort_def)
  from building_put [OF p3(2), of "le_bytes 2 ?y"] obtain p4 where
    p4: "put_ushort p3 ?y = Inr p4" "building p4 (move_payload ?a ?x ?y)" by (auto simp: put_ushort_def move_payload_def)
  have "length (move_payload ?a ?x ?y) \<le> max_len" using length_payloads(2) assms(4) by simp
  from finish_request [OF p4(2) this assms(3)] show ?thesis
    using p1(1) p2(1) p3(1) p4(1) assms(1) by (simp add: SendSectorMovePacket_def Let_def)
qed

lemma SendChatPacket_ok:
  assumes "encoder c = E" "raw_ok (RawPacket c)" "send_ok s" "76 \<le> max_len"
  shows "SendChatPacket r s c = Inr (queue_frame (frame r (chat_payload (accountNo s))) (\<lambda>s. s\<lparr>messagesSent := messagesSent s + 1\<rparr>) s)"
proof -
  let ?a = "accountNo s" and ?t = "chat_text (accountNo s)" and ?n = "length (chat_text (accountNo s))"
  let ?m = "wide (chat_text (accountNo s)) @ replicate (64 - length (chat_text (accountNo s))) 0"
  define len where "len = (of_nat (?n * 2) :: u16)"
  have t: "swprintf_s (replicate 64 0) ?t = Inr ?m" using length_chat_text [of ?a] by (intro swprintf_s_zeros) simp
  from building_put [OF building_Clear [OF assms(2)], of "le_bytes 2 kCsChatReqMessage"] obtain p1 where
    p1: "put_ushort (ClearPacket (RawPacket c)) kCsChatReqMessage = Inr p1" "building p1 (le_bytes 2 kCsChatReqMessage)"
    by (auto simp: put_ushort_def)
  from building_put [OF p1(2), of "le_bytes 8 ?a"] obtain p2 where
    p2: "put_int64 p1 ?a = Inr p2" "building p2 (le_bytes 2 kCsChatReqMessage @ le_bytes 8 ?a)" by (auto simp: put_int64_def)
  from building_put [OF p2(2), of "le_bytes 2 len"] obtain p3 where
    p3: "put_ushort p2 len = Inr p3" "building p3 (le_bytes 2 kCsChatReqMessage @ le_bytes 8 ?a @ le_bytes 2 len)" by (auto simp: put_ushort_def)
  have m: "2 * ?n \<le> length (wstr_bytes ?m)" "take (2 * ?n) (wstr_bytes ?m) = wstr_bytes (wide ?t)"
    by (simp_all add: wstr_bytes_append)
  from building_PutData_wchar [OF p3(2) _ m(1)] m(2) length_chat_text [of ?a] obtain p4 n4 where
    p4: "PutData_wchar p3 (wstr_bytes ?m) (int ?n) = Inr (p4, n4)" "building p4 (chat_payload ?a)" by (auto simp: chat_payload_def len_def)
  have "length (chat_payload ?a) \<le> max_len" using length_payloads(3) [of ?a] assms(4) by simp
  from finish_request [OF p4(2) this assms(3)] show ?thesis
    using p1(1) p2(1) p3(1) p4(1) t assms(1) unfolding SendChatPacket_def Let_def chat_text_def [symmetric] len_def [symmetric]
    by simp
qed

lemma SendHeartbeatPacket_ok:
  assumes "encoder c = E" "raw_ok (RawPacket c)" "send_ok s" "2 \<le> max_len"
  shows "SendHeartbeatPacket r s c = Inr (queue_frame (frame r heartbeat_payload) id s)"
proof -
  from building_put [OF building_Clear [OF assms(2)], of heartbeat_payload] obtain p1 where
    p1: "put_ushort (ClearPacket (RawPacket c)) kCsChatReqHeartbeat = Inr p1" "building p1 heartbeat_payload"
    by (auto simp: put_ushort_def heartbeat_payload_def)
  have "length heartbeat_payload \<le> max_len" using length_payloads(4) assms(4) by simp
  from finish_request [OF p1(2) this assms(3)] show ?thesis using p1(1) assms(1) by (simp add: SendHeartbeatPacket_def)
qed

end

subsection \<open>What the server reads\<close>

text \<open>A delivered message is a packet whose data is the payload.\<close>

definition delivered :: "byte list \<Rightarrow> packet \<Rightarrow> bool" where
  "delivered pl pk \<longleftrightarrow> packet_wf pk \<and> BufferSize pk = kBufferDefault \<and> packet_data pk = pl"

lemma delivered_word:
  assumes "delivered (le_bytes n (w :: 'a::len word) @ rest) pk" "LENGTH('a) = 8 * n"
  shows "\<exists>pk'. get_word pk (int n) = Inr (pk', w) \<and> delivered rest pk'"
  using get_word_ok [of pk n w rest] assms by (auto simp: delivered_def)

lemma delivered_ushort: "delivered (le_bytes 2 (w :: u16) @ rest) pk \<Longrightarrow> \<exists>pk'. get_ushort pk = Inr (pk', w) \<and> delivered rest pk'"
  using delivered_word [of 2 w rest pk] by (simp add: get_ushort_def)

lemma delivered_int64: "delivered (le_bytes 8 (w :: u64) @ rest) pk \<Longrightarrow> \<exists>pk'. get_int64 pk = Inr (pk', w) \<and> delivered rest pk'"
  using delivered_word [of 8 w rest pk] by (simp add: get_int64_def)

lemma delivered_wchar:
  assumes "delivered (bs @ rest) pk" "length bs = 40"
  shows "\<exists>pk'. GetData_wchar pk 20 = Inr (pk', bs) \<and> delivered rest pk'"
proof -
  have "packet_wf pk" "Front pk + 40 < 2 ^ 31" using assms(1) by (auto simp: delivered_def packet_wf_def kBufferDefault_def)
  from GetData_ok [OF this(1) _ this(2)] show ?thesis using assms by (auto simp: delivered_def GetData_wchar_def)
qed

lemma wr_mem_whole: "length bs = length b \<Longrightarrow> wr_mem b 0 bs = Inr bs"
  by (simp add: wr_mem_def)

lemma server_reads_login:
  assumes "delivered (login_payload a) pk" "account_ok a" "length (ID ch) = 40" "length (Nickname ch) = 40"
  shows "\<exists>pk1 pk2. get_ushort pk = Inr (pk1, kCsChatReqLogin) \<and>
    read_login pk1 ch = Inr (pk2, ch\<lparr>AccountNo := a, ID := ident_bytes a, Nickname := ident_bytes a\<rparr>)"
proof -
  note len = length_ident_bytes [OF assms(2)]
  from delivered_ushort [OF assms(1) [unfolded login_payload_def]] obtain p1 where
    p1: "get_ushort pk = Inr (p1, kCsChatReqLogin)" "delivered (le_bytes 8 a @ ident_bytes a @ ident_bytes a @ replicate 64 0) p1" by blast
  from delivered_int64 [OF p1(2)] obtain p2 where p2: "get_int64 p1 = Inr (p2, a)" "delivered (ident_bytes a @ ident_bytes a @ replicate 64 0) p2" by blast
  from delivered_wchar [OF p2(2) len] obtain p3 where p3: "GetData_wchar p2 20 = Inr (p3, ident_bytes a)" "delivered (ident_bytes a @ replicate 64 0) p3" by blast
  from delivered_wchar [OF p3(2) len] obtain p4 where "GetData_wchar p3 20 = Inr (p4, ident_bytes a)" by blast
  then have "read_login p1 ch = Inr (p4, ch\<lparr>AccountNo := a, ID := ident_bytes a, Nickname := ident_bytes a\<rparr>)"
    using p2(1) p3(1) assms(3,4) len by (simp add: read_login_def wr_mem_whole)
  then show ?thesis using p1(1) by blast
qed

lemma server_reads_move:
  assumes "delivered (move_payload a x y) pk"
  shows "\<exists>pk1 pk2. get_ushort pk = Inr (pk1, kCsChatReqSectorMove) \<and> read_sector_move pk1 = Inr (pk2, a, x, y)"
proof -
  from delivered_ushort [OF assms [unfolded move_payload_def]] obtain p1 where
    p1: "get_ushort pk = Inr (p1, kCsChatReqSectorMove)" "delivered (le_bytes 8 a @ le_bytes 2 x @ le_bytes 2 y) p1" by blast
  from delivered_int64 [OF p1(2)] obtain p2 where p2: "get_int64 p1 = Inr (p2, a)" "delivered (le_bytes 2 x @ le_bytes 2 y) p2" by blast
  from delivered_ushort [OF p2(2)] obtain p3 where p3: "get_ushort p2 = Inr (p3, x)" "delivered (le_bytes 2 y @ []) p3" by auto
  from delivered_ushort [OF p3(2)] obtain p4 where "get_ushort p3 = Inr (p4, y)" by blast
  then show ?thesis using p1(1) p2(1) p3(1) by (auto simp: read_sector_move_def)
qed

lemma server_reads_chat:
  assumes "delivered (chat_payload a) pk" "length buf = 2000"
  shows "\<exists>pk1 pk2 pk3 n buf'. get_ushort pk = Inr (pk1, kCsChatReqMessage) \<and> read_message_head pk1 = Inr (pk2, a, n) \<and>
    unat n = 2 * length (chat_text a) \<and> read_message_text pk2 n buf = Inr (pk3, buf') \<and> take (unat n) buf' = wstr_bytes (wide (chat_text a))"
proof -
  define n where "n = (of_nat (length (chat_text a) * 2) :: u16)"
  have n: "unat n = 2 * length (chat_text a)" using length_chat_text [of a]
    by (simp add: n_def unat_of_nat take_bit_nat_eq_self mult.commute del: of_nat_mult)
  from delivered_ushort [OF assms(1) [unfolded chat_payload_def n_def [symmetric]]] obtain p1 where
    p1: "get_ushort pk = Inr (p1, kCsChatReqMessage)" "delivered (le_bytes 8 a @ le_bytes 2 n @ wstr_bytes (wide (chat_text a))) p1" by blast
  from delivered_int64 [OF p1(2)] obtain p2 where p2: "get_int64 p1 = Inr (p2, a)" "delivered (le_bytes 2 n @ wstr_bytes (wide (chat_text a))) p2" by blast
  from delivered_ushort [OF p2(2)] obtain p3 where p3: "get_ushort p2 = Inr (p3, n)" "delivered (wstr_bytes (wide (chat_text a))) p3" by blast
  have "unat n < 1000" using n length_chat_text [of a] by simp
  with read_message_text_ok [of p3 buf n] p3(2) assms(2) obtain p4 buf' where
    p4: "read_message_text p3 n buf = Inr (p4, buf')" "take (unat n) buf' = relay_body (unat n) (wstr_bytes (wide (chat_text a))) buf"
    by (auto simp: delivered_def)
  have "relay_body (unat n) (wstr_bytes (wide (chat_text a))) buf = wstr_bytes (wide (chat_text a))"
    using relay_body_full [of "unat n" "wstr_bytes (wide (chat_text a))" buf] n by simp
  then show ?thesis using p1(1) p2(1) p3(1) p4 n by (auto simp: read_message_head_def)
qed

text \<open>An account number the load generator makes from the index of a session.\<close>

lemma index_account: "0 \<le> i \<Longrightarrow> i + 1 < 2 ^ 31 \<Longrightarrow> account_ok (word_of_int (i + 1)) \<and> sint (word_of_int (i + 1) :: u64) = i + 1"
  by (simp add: account_ok_def signed_of_int signed_take_bit_int_eq_self del: of_int_add)

lemma queue_frame_fits:
  assumes "send_ok s" "length (outgoing s) + length bs \<le> kSessionBuf" "\<And>s. sendBuf (f s) = sendBuf s \<and> sendBytes (f s) = sendBytes s"
  shows "\<exists>s1. queue_frame bs f s = f s1 \<and> s1 = queued bs s \<and> outgoing (f s1) = outgoing s @ bs \<and> send_ok (f s1)"
  using queued_send_ok [OF assms(1,2)] assms(2,3) by (auto simp: queue_frame_def send_ok_def outgoing_def)

text \<open>C19. The chat server understands the load generator: with the shared XOR encoder, the login, sector move,
  message and heartbeat functions put exactly one frame behind the bytes waiting to be sent, and from a packet
  that carries the payload of that frame the server's reading functions take back the account number and the two
  names, the sector (inside the grid), the length and the text, and the type of the heartbeat.\<close>

theorem dummy_requests_understood:
  assumes "encoder c = xor_vtable e" "154 \<le> xor_max_len e" "raw_ok (RawPacket c)" "send_ok s"
    and "length (outgoing s) + 159 \<le> kSessionBuf" "0 \<le> i" "i + 1 < 2 ^ 31" "length buf = 2000"
    and "length (ID ch) = 40" "length (Nickname ch) = 40"
  shows
    "(\<exists>s1 a. SendLoginPacket i r s c = Inr s1 \<and> sint a = i + 1 \<and> sstate s1 = KLoginSent \<and> accountNo s1 = a \<and>
        outgoing s1 = outgoing s @ xor_frame_rnd e r (login_payload a) \<and>
        (\<forall>pk. delivered (login_payload a) pk \<longrightarrow> (\<exists>pk1 pk2. get_ushort pk = Inr (pk1, kCsChatReqLogin) \<and>
           read_login pk1 ch = Inr (pk2, ch\<lparr>AccountNo := a, ID := ident_bytes a, Nickname := ident_bytes a\<rparr>)))) \<and>
     (\<exists>s1 x y. SendSectorMovePacket r1 r2 r s c = Inr s1 \<and> x < 50 \<and> y < 50 \<and> sectorX s1 = x \<and> sectorY s1 = y \<and>
        outgoing s1 = outgoing s @ xor_frame_rnd e r (move_payload (accountNo s) x y) \<and>
        (\<forall>pk. delivered (move_payload (accountNo s) x y) pk \<longrightarrow> (\<exists>pk1 pk2. get_ushort pk = Inr (pk1, kCsChatReqSectorMove) \<and>
           read_sector_move pk1 = Inr (pk2, accountNo s, x, y)))) \<and>
     (\<exists>s1. SendChatPacket r s c = Inr s1 \<and> messagesSent s1 = messagesSent s + 1 \<and>
        outgoing s1 = outgoing s @ xor_frame_rnd e r (chat_payload (accountNo s)) \<and>
        (\<forall>pk. delivered (chat_payload (accountNo s)) pk \<longrightarrow> (\<exists>pk1 pk2 pk3 n buf'. get_ushort pk = Inr (pk1, kCsChatReqMessage) \<and>
           read_message_head pk1 = Inr (pk2, accountNo s, n) \<and> unat n = 2 * length (chat_text (accountNo s)) \<and>
           read_message_text pk2 n buf = Inr (pk3, buf') \<and> take (unat n) buf' = wstr_bytes (wide (chat_text (accountNo s)))))) \<and>
     (\<exists>s1. SendHeartbeatPacket r s c = Inr s1 \<and> outgoing s1 = outgoing s @ xor_frame_rnd e r heartbeat_payload \<and>
        (\<forall>pk. delivered heartbeat_payload pk \<longrightarrow> (\<exists>pk1. get_ushort pk = Inr (pk1, kCsChatReqHeartbeat))))"
    (is "?login \<and> ?move \<and> ?chat \<and> ?beat")
proof -
  have fl: "length (xor_frame_rnd e r pl) = 5 + length pl" for pl
    using xor.frame_length [of e r pl] by (simp add: xor_vtable_def sizeof_NetHeader_def)
  let ?a = "word_of_int (i + 1) :: u64"
  have a: "account_ok ?a" "sint ?a = i + 1" using index_account [OF assms(6,7)] by auto
  have ?login
    using xor.SendLoginPacket_ok [OF assms(1,3,4) a(1) assms(2)] server_reads_login [OF _ a(1) assms(9,10)] a(2)
      queue_frame_fits [OF assms(4), of "xor_frame_rnd e r (login_payload ?a)" "\<lambda>s. s\<lparr>accountNo := ?a, sstate := KLoginSent\<rparr>"]
      length_payloads(1) [OF a(1)] assms(5) fl [of "login_payload ?a"] by (intro exI [of _ "word_of_int (i + 1)"] exI) auto
  moreover have ?move
  proof -
    let ?x = "ucast (r1 mod 50) :: u16" and ?y = "ucast (r2 mod 50) :: u16"
    have lt: "(ucast (w mod 50 :: u32) :: u16) < 50" for w
    proof -
      have "unat (w mod 50) < 50" by (simp add: unat_mod)
      then show ?thesis by (simp add: word_less_nat_alt unsigned_ucast_eq take_bit_nat_eq_self)
    qed
    show ?thesis
      using xor.SendSectorMovePacket_ok [OF assms(1,3,4), of r1 r2 r] server_reads_move [of "accountNo s" ?x ?y] lt assms(2,5)
        queue_frame_fits [OF assms(4), of "xor_frame_rnd e r (move_payload (accountNo s) ?x ?y)" "\<lambda>s. s\<lparr>sectorX := ?x, sectorY := ?y\<rparr>"]
        length_payloads(2) [of "accountNo s" ?x ?y] fl by (intro exI [of _ ?x] exI) auto
  qed
  moreover have ?chat
    using xor.SendChatPacket_ok [OF assms(1,3,4), of r] server_reads_chat [of "accountNo s" _ buf] assms(2,5,8)
      queue_frame_fits [OF assms(4), of "xor_frame_rnd e r (chat_payload (accountNo s))" "\<lambda>s. s\<lparr>messagesSent := messagesSent s + 1\<rparr>"]
      length_payloads(3) [of "accountNo s"] fl by (auto simp: queued_def)
  moreover have ?beat
    using xor.SendHeartbeatPacket_ok [OF assms(1,3,4), of r] assms(2,5) delivered_ushort [of kCsChatReqHeartbeat "[]"]
      queue_frame_fits [OF assms(4), of "xor_frame_rnd e r heartbeat_payload" id] length_payloads(4) fl
    by (auto simp: heartbeat_payload_def)
  ultimately show ?thesis by blast
qed

text \<open>A context as \<open>main\<close> makes it, for sessions from index 0 on.\<close>

definition demo_ctx :: "xor_encoder \<Rightarrow> worker_ctx" where
  "demo_ctx e =
     \<lparr>sessionStartIdx = 0, messageInterval = 1000, minLifetimeMs = 5000, maxLifetimeMs = 30000, encoder = xor_vtable e,
      RawPacket = Packet_ctor kBufferDefault (\<lambda>i. 0), Connected = 0, Active = 0, Failed = 0, Disconnected = 0, TPS_Sent = 0,
      TPS_Recv = 0, TotalSent = 0, TotalRecv = 0, SockLog = []\<rparr>"

lemma demo_ctx_facts:
  "encoder (demo_ctx e) = xor_vtable e" "raw_ok (RawPacket (demo_ctx e))"
  by (simp_all add: demo_ctx_def raw_ok_def Packet_ctor_def packet_wf_def new_block_def kBufferDefault_def)

lemma new_session_send_ok: "send_ok new_client_session" "outgoing new_client_session = []"
  by (simp_all add: send_ok_def outgoing_def new_client_session_def)

lemma dummy_requests_understood_witness:
  "\<exists>s1 a. SendLoginPacket 41 7 new_client_session (demo_ctx (XorPacketEncoder 0x77 0x32 1000)) = Inr s1 \<and> sint a = 42 \<and>
     outgoing s1 = xor_frame_rnd (XorPacketEncoder 0x77 0x32 1000) 7 (login_payload a)"
proof -
  let ?e = "XorPacketEncoder 0x77 0x32 1000" and ?ch = "\<lparr>CSession = 0, AccountNo = 0, SectorX = 0, SectorY = 0, LastRecvTime = 0,
      ID = replicate 40 0, Nickname = replicate 40 0\<rparr>"
  have m: "154 \<le> xor_max_len ?e" by (simp add: xor_max_len_def XorPacketEncoder_def)
  have "length (outgoing new_client_session) + 159 \<le> kSessionBuf" by (simp add: new_session_send_ok(2) kSessionBuf_def)
  from dummy_requests_understood [OF demo_ctx_facts(1) m demo_ctx_facts(2) new_session_send_ok(1) this, of 41 "replicate 2000 0" ?ch 7 0 0]
  show ?thesis by (auto simp: new_session_send_ok(2))
qed

end
