(* ===== verification/DummyWorker.thy ===== *)
theory DummyWorker
  imports DummyRequests "HOL-Library.Multiset"
begin

text \<open>
  The worker thread of the chat load generator: whatever the socket calls answer, and whatever the server sends
  short of a frame with more than 1019 bytes of payload, no operation faults and every loop ends, buffer positions
  stay inside their buffers, a session without a socket is idle or disconnected, and every socket made is either held
  by one session or closed exactly once. A longer frame is copied past the end of a packet, unless the encoder's
  length limit (4096 by default) is 1019 or less.
\<close>

subsection \<open>The invariant\<close>


definition ctx_ok :: "xor_encoder \<Rightarrow> nat \<Rightarrow> worker_ctx \<Rightarrow> bool" where
  "ctx_ok e n c \<longleftrightarrow> encoder c = xor_vtable e \<and> raw_ok (RawPacket c) \<and>
     (minLifetimeMs c = 0 \<or> maxLifetimeMs c \<noteq> minLifetimeMs c) \<and> 0 \<le> sessionStartIdx c \<and> sessionStartIdx c + int n < 2 ^ 31"


fun opened_by :: "sock_event \<Rightarrow> nat multiset" where
  "opened_by (SockOpened x) = {#x#}"
| "opened_by (SockClosed x) = {#}"

fun closed_by :: "sock_event \<Rightarrow> nat multiset" where
  "closed_by (SockOpened x) = {#}"
| "closed_by (SockClosed x) = {#x#}"

definition opened :: "worker_ctx \<Rightarrow> nat multiset" where
  "opened c = sum_list (map opened_by (SockLog c))"

definition closed :: "worker_ctx \<Rightarrow> nat multiset" where
  "closed c = sum_list (map closed_by (SockLog c))"



lemma opened_log [simp]:
  "opened (log_sock (SockOpened x) c) = add_mset x (opened c)" "closed (log_sock (SockOpened x) c) = closed c"
  "opened (log_sock (SockClosed x) c) = opened c" "closed (log_sock (SockClosed x) c) = add_mset x (closed c)"
  by (simp_all add: opened_def closed_def log_sock_def)

lemma ctx_ok_log [simp]: "ctx_ok e n (log_sock ev c) = ctx_ok e n c"
  by (simp add: ctx_ok_def log_sock_def)

lemma ctx_counters [simp]:
  "ctx_ok e n (c\<lparr>Connected := a\<rparr>) = ctx_ok e n c" "opened (c\<lparr>Connected := a\<rparr>) = opened c" "closed (c\<lparr>Connected := a\<rparr>) = closed c"
  "ctx_ok e n (c\<lparr>Active := a\<rparr>) = ctx_ok e n c" "opened (c\<lparr>Active := a\<rparr>) = opened c" "closed (c\<lparr>Active := a\<rparr>) = closed c"
  "ctx_ok e n (c\<lparr>Failed := a\<rparr>) = ctx_ok e n c" "opened (c\<lparr>Failed := a\<rparr>) = opened c" "closed (c\<lparr>Failed := a\<rparr>) = closed c"
  "ctx_ok e n (c\<lparr>Disconnected := a\<rparr>) = ctx_ok e n c" "opened (c\<lparr>Disconnected := a\<rparr>) = opened c" "closed (c\<lparr>Disconnected := a\<rparr>) = closed c"
  "ctx_ok e n (c\<lparr>TPS_Recv := a, TotalRecv := b\<rparr>) = ctx_ok e n c" "opened (c\<lparr>TPS_Recv := a, TotalRecv := b\<rparr>) = opened c"
  "closed (c\<lparr>TPS_Recv := a, TotalRecv := b\<rparr>) = closed c"
  "ctx_ok e n (c\<lparr>TPS_Sent := a, TotalSent := b\<rparr>) = ctx_ok e n c" "opened (c\<lparr>TPS_Sent := a, TotalSent := b\<rparr>) = opened c"
  "closed (c\<lparr>TPS_Sent := a, TotalSent := b\<rparr>) = closed c"
  by (simp_all add: ctx_ok_def opened_def closed_def)

lemma send_ok_simps [simp]:
  "send_ok (s\<lparr>sstate := x\<rparr>) = send_ok s" "send_ok (s\<lparr>sock := y\<rparr>) = send_ok s" "send_ok (s\<lparr>reconnectAt := z\<rparr>) = send_ok s"
  "send_ok (s\<lparr>disconnectAt := z\<rparr>) = send_ok s" "send_ok (s\<lparr>lastMessage := z\<rparr>) = send_ok s" "send_ok (s\<lparr>lastHeartbeat := z\<rparr>) = send_ok s"
  "send_ok (s\<lparr>messagesRecv := z\<rparr>) = send_ok s" "send_ok (s\<lparr>recvBuf := b\<rparr>) = send_ok s" "send_ok (s\<lparr>recvBytes := i\<rparr>) = send_ok s"
  by (simp_all add: send_ok_def)

subsection \<open>Connecting and disconnecting\<close>












subsection \<open>Sending\<close>







subsection \<open>Receiving\<close>



















subsection \<open>The loops of the thread\<close>














subsection \<open>The thread\<close>



text \<open>Without the small limit (the program uses the default one) an answer of more than 1019 bytes is copied past the
  end of the temporary packet.\<close>

lemma long_answer_overruns:
  assumes "encoder c = xor_vtable e" "raw_ok (RawPacket c)" "length (recvBuf s) = kSessionBuf" "0 \<le> p" "recvBytes s \<le> int kSessionBuf"
    and "hdr_Code (take 1 (drop (nat p) (recvBuf s))) = HeaderCode e" "unat (hdr_Len (take 3 (drop (nat p) (recvBuf s)))) = N"
    and "N \<le> xor_max_len e" "1019 < N" "p + 5 + int N \<le> recvBytes s"
  shows "process_round io k p s c = Inl OutOfBounds"
proof -
  define hdr where "hdr = drop (nat p) (recvBuf s)"
  have hl: "5 \<le> length hdr" using assms(3-5,10) by (simp add: hdr_def)
  have N: "unat (hdr_Len (take 3 hdr)) = N" using assms(7) by (simp add: hdr_def)
  have magic: "VerifyHeaderMagic (xor_vtable e) hdr = Inr True"
    using hl assms(6) by (simp add: xor_vtable_def xor_VerifyHeaderMagic_def rd_mem_def flip: hdr_def)
  have "\<not> (MaxPayloadLen e \<noteq> 0 \<and> hdr_Len (take 3 hdr) > MaxPayloadLen e)"
    using assms(8) N by (auto simp: xor_max_len_def word_le_nat_alt not_less split: if_splits)
  then have peek: "PeekPayloadLength (xor_vtable e) hdr = Inr (Some N)"
    using hl N by (simp add: xor_vtable_def xor_PeekPayloadLength_def rd_mem_def)
  have hs: "GetHeaderSize (xor_vtable e) = 5" by (simp add: xor_vtable_def sizeof_NetHeader_def)
  define bs where "bs = take (5 + N) hdr"
  have lbs: "length bs = 5 + N" using assms(3-5,10) by (simp add: bs_def hdr_def)
  have r: "rd_mem (recvBuf s) p (int (5 + N)) = Inr bs"
    using assms(3-5,10) by (subst rd_mem_ok) (auto simp: bs_def hdr_def nat_add_distrib)
  have "length (Buffer (RawPacket c)) = 1024" "Rear (RawPacket c) = 0"
    using assms(2) by (auto simp: raw_ok_def packet_wf_def kBufferDefault_def)
  then have w: "wr_mem (Buffer (RawPacket c)) (Rear (RawPacket c)) bs = Inl OutOfBounds"
    using lbs assms(9) by (simp add: wr_mem_def)
  have "\<not> unat (of_nat kSessionBuf - of_nat 5 :: u64) < N" using assms(4,5,10) by (simp add: kSessionBuf_def)
  then show ?thesis using r [simplified] w assms(10)
    unfolding process_round_def Let_def assms(1) hdr_def [symmetric] magic peek hs ebind_Inr by simp
qed

end
