(* ===== verification/IniValues.thy ===== *)
theory IniValues
  imports IniConfig
begin

text \<open>
  What a program gets from a configuration with a run of getters and one check at the end: the values as functions
  of the stored texts, their range, and when the check succeeds. The example programs all read their files this way.
\<close>

subsection \<open>Values\<close>

definition int_value :: "string option \<Rightarrow> int" where
  "int_value v = (case v of None \<Rightarrow> 0 | Some t \<Rightarrow> (case ParseInt t of None \<Rightarrow> 0 | Some n \<Rightarrow> n))"

definition bool_value :: "string option \<Rightarrow> bool" where
  "bool_value v = (case v of None \<Rightarrow> False | Some t \<Rightarrow> (case ParseBool t of None \<Rightarrow> False | Some b \<Rightarrow> b))"

definition text_value :: "string option \<Rightarrow> string" where
  "text_value v = (case v of None \<Rightarrow> [] | Some t \<Rightarrow> t)"

definition int_or :: "int \<Rightarrow> string option \<Rightarrow> int" where
  "int_or d v = (case v of None \<Rightarrow> d | Some t \<Rightarrow> (case ParseInt t of None \<Rightarrow> d | Some n \<Rightarrow> n))"

definition text_or :: "string \<Rightarrow> string option \<Rightarrow> string" where
  "text_or d v = (case v of None \<Rightarrow> d | Some t \<Rightarrow> t)"

lemma getters:
  "GetIntRequired s k c = (run_query (QIntRequired s k) c, int_value (value_at c (s, k)))"
  "GetBoolRequired s k c = (run_query (QBoolRequired s k) c, bool_value (value_at c (s, k)))"
  "GetStringRequired s k c = (run_query (QStringRequired s k) c, text_value (value_at c (s, k)))"
  "GetInt s k d c = (run_query (QInt s k d) c, int_or d (value_at c (s, k)))"
  "GetString s k t c = (run_query (QString s k t) c, text_or t (value_at c (s, k)))"
  by (cases "entry_at c s k"; simp add: getter_defs Find_None Find_Some value_at_def int_value_def bool_value_def text_value_def
        int_or_def text_or_def        split: option.splits)+

lemma ParseInt_range: "ParseInt t = Some n \<Longrightarrow> - (2 ^ 31) \<le> n \<and> n < 2 ^ 31"
  by (auto simp: ParseInt_def strtol10_def Let_def saturate32_def split: if_splits option.splits)

lemma int_value_range: "int_value v < 2 ^ 31"
  using ParseInt_range by (fastforce simp: int_value_def split: option.splits)

lemma int_value_low: "- (2 ^ 31) \<le> int_value v"
  using ParseInt_range by (fastforce simp: int_value_def split: option.splits)

lemma int_or_range: "- (2 ^ 31) \<le> d \<Longrightarrow> d < 2 ^ 31 \<Longrightarrow> - (2 ^ 31) \<le> int_or d v \<and> int_or d v < 2 ^ 31"
  using ParseInt_range by (fastforce simp: int_or_def split: option.splits)

subsection \<open>The check\<close>

text \<open>Every query finds a text of the right form and no other key is there.\<close>

definition file_ok :: "cfg_query list \<Rightarrow> config \<Rightarrow> bool" where
  "file_ok qs c \<longleftrightarrow> (\<forall>q \<in> set qs. query_ok q (value_at c (query_key q))) \<and>
     (\<forall>sk. value_at c sk \<noteq> None \<longrightarrow> sk \<in> query_key ` set qs)"

lemma loaded_check:
  assumes "Load open_file (Some path) c0 = (c, True)"
  shows "\<not> HasError (fold run_query qs c) \<and> GetUnusedKeys (fold run_query qs c) = [] \<longleftrightarrow> file_ok qs c"
proof -
  from assms obtain contents c1 where "LoadFromString (Some contents) c1 = (c, True)"
    by (auto simp: Load_def Let_def split: option.splits)
  from config_check [OF this, of qs] show ?thesis by (simp only: file_ok_def)
qed

text \<open>A rendered file on disk.\<close>

lemma load_file:
  assumes "clean_ini f" "distinct (map fst (ini_entries f))" "open_file path = Some (render_ini f)"
  shows "\<exists>c. Load open_file (Some path) c0 = (c, True) \<and> value_at c = map_of (ini_entries f)"
  using load_rendered [OF assms(1), of "ResetConfig c0"] assms(2,3)
  by (cases "LoadFromString (Some (render_ini f)) (ResetConfig c0)") (auto simp: Load_def loads_to_def value_at_Reset)

end
