(* ===== verification/ChatLauncher.thy ===== *)
theory ChatLauncher
  imports DummyWorker ChatServer IniValues
begin

text \<open>
  The two programs of the chat example up to the start of their threads (Examples/ChatServer/main.cpp,
  Examples/ChatDummyClient/main.cpp): both read one ini file, check it, and set their parts up. An exit with
  code 1 is an error value. What is printed is left out.
\<close>

subsection \<open>The shared configuration\<close>

record chat_ini =
  iniListenIP :: string
  iniPort :: int
  iniMaxUser :: int
  iniWorkerThreadCnt :: int
  iniNagleEnabled :: bool
  iniServerIP :: string
  iniServerPort :: int
  iniClientCount :: int
  iniMessageInterval :: int
  iniLifetimeMin :: int
  iniLifetimeMax :: int
  iniSessionPerThread :: int

datatype launch_error =
    LoadFailed string
  | ConfigError string
  | UnknownKeys string
  | BadPort
  | PortsDiffer int int
  | BadMaxUser int
  | NotPositive
  | TooManyClients int int
  | NegativeValue
  | BadLifetime
  | NoWinsock
  | BadAddress string
  | NoMemory

text \<open>The getters, in the order of the source, each on the configuration the one before left.\<close>

definition server_read_ini :: "config \<Rightarrow> config \<times> chat_ini" where
  "server_read_ini config =
     (let (c1, listenIP) = GetStringRequired ''Server'' ''ListenIP'' config;
          (c2, port) = GetIntRequired ''Server'' ''Port'' c1;
          (c3, maxUser) = GetIntRequired ''Server'' ''MaxUser'' c2;
          (c4, workerThreadCnt) = GetIntRequired ''Server'' ''WorkerThreadCnt'' c3;
          (c5, nagleEnabled) = GetBoolRequired ''Server'' ''NagleEnabled'' c4;
          (c6, clientServerIP) = GetStringRequired ''Client'' ''ServerIP'' c5;
          (c7, clientServerPort) = GetIntRequired ''Client'' ''ServerPort'' c6;
          (c8, clientCount) = GetIntRequired ''Client'' ''ClientCount'' c7;
          (c9, messageInterval) = GetIntRequired ''Client'' ''MessageInterval'' c8;
          (c10, lifetimeMin) = GetIntRequired ''Client'' ''LifetimeMin'' c9;
          (c11, lifetimeMax) = GetIntRequired ''Client'' ''LifetimeMax'' c10;
          (c12, sessionPerThread) = GetIntRequired ''Client'' ''SessionPerThread'' c11
      in (c12, \<lparr>iniListenIP = listenIP, iniPort = port, iniMaxUser = maxUser, iniWorkerThreadCnt = workerThreadCnt,
            iniNagleEnabled = nagleEnabled, iniServerIP = clientServerIP, iniServerPort = clientServerPort,
            iniClientCount = clientCount, iniMessageInterval = messageInterval, iniLifetimeMin = lifetimeMin,
            iniLifetimeMax = lifetimeMax, iniSessionPerThread = sessionPerThread\<rparr>))"

definition dummy_read_ini :: "config \<Rightarrow> config \<times> chat_ini" where
  "dummy_read_ini config =
     (let (c1, listenIP) = GetStringRequired ''Server'' ''ListenIP'' config;
          (c2, serverListenPort) = GetIntRequired ''Server'' ''Port'' c1;
          (c3, maxUser) = GetIntRequired ''Server'' ''MaxUser'' c2;
          (c4, serverWorkerThreadCnt) = GetIntRequired ''Server'' ''WorkerThreadCnt'' c3;
          (c5, nagleEnabled) = GetBoolRequired ''Server'' ''NagleEnabled'' c4;
          (c6, serverIP) = GetStringRequired ''Client'' ''ServerIP'' c5;
          (c7, serverPort) = GetIntRequired ''Client'' ''ServerPort'' c6;
          (c8, N) = GetIntRequired ''Client'' ''ClientCount'' c7;
          (c9, messageInterval) = GetIntRequired ''Client'' ''MessageInterval'' c8;
          (c10, lifetimeMin) = GetIntRequired ''Client'' ''LifetimeMin'' c9;
          (c11, lifetimeMax) = GetIntRequired ''Client'' ''LifetimeMax'' c10;
          (c12, sessionPerThread) = GetIntRequired ''Client'' ''SessionPerThread'' c11
      in (c12, \<lparr>iniListenIP = listenIP, iniPort = serverListenPort, iniMaxUser = maxUser,
            iniWorkerThreadCnt = serverWorkerThreadCnt, iniNagleEnabled = nagleEnabled, iniServerIP = serverIP,
            iniServerPort = serverPort, iniClientCount = N, iniMessageInterval = messageInterval,
            iniLifetimeMin = lifetimeMin, iniLifetimeMax = lifetimeMax, iniSessionPerThread = sessionPerThread\<rparr>))"

definition server_check :: "chat_ini \<Rightarrow> launch_error option" where
  "server_check i =
     (if iniPort i \<le> 0 \<or> 65535 < iniPort i \<or> iniServerPort i \<le> 0 \<or> 65535 < iniServerPort i then Some BadPort
      else if iniPort i \<noteq> iniServerPort i then Some (PortsDiffer (iniPort i) (iniServerPort i))
      else if iniMaxUser i < 1 \<or> 32767 < iniMaxUser i then Some (BadMaxUser (iniMaxUser i))
      else if iniClientCount i < 1 \<or> iniMessageInterval i < 1 \<or> iniSessionPerThread i < 1 then Some NotPositive
      else if iniMaxUser i < iniClientCount i then Some (TooManyClients (iniMaxUser i) (iniClientCount i))
      else if iniWorkerThreadCnt i < 0 \<or> iniLifetimeMin i < 0 \<or> iniLifetimeMax i < 0 then Some NegativeValue
      else if 0 < iniLifetimeMin i \<and> iniLifetimeMax i \<le> iniLifetimeMin i then Some BadLifetime
      else None)"

definition dummy_check :: "chat_ini \<Rightarrow> launch_error option" where
  "dummy_check i =
     (if iniPort i \<le> 0 \<or> 65535 < iniPort i \<or> iniServerPort i \<le> 0 \<or> 65535 < iniServerPort i then Some BadPort
      else if iniPort i \<noteq> iniServerPort i then Some (PortsDiffer (iniPort i) (iniServerPort i))
      else if iniMaxUser i < 1 \<or> 32767 < iniMaxUser i then Some (BadMaxUser (iniMaxUser i))
      else if iniClientCount i < 1 \<or> iniMessageInterval i < 1 \<or> iniSessionPerThread i < 1 then Some NotPositive
      else if iniMaxUser i < iniClientCount i then Some (TooManyClients (iniMaxUser i) (iniClientCount i))
      else if iniWorkerThreadCnt i < 0 \<or> iniLifetimeMin i < 0 \<or> iniLifetimeMax i < 0 then Some NegativeValue
      else if 0 < iniLifetimeMin i \<and> iniLifetimeMax i \<le> iniLifetimeMin i then Some BadLifetime
      else None)"

text \<open>From the path to a checked configuration.\<close>

definition server_configure :: "(string \<Rightarrow> string option) \<Rightarrow> string \<Rightarrow> config \<Rightarrow> launch_error + chat_ini" where
  "server_configure open_file path c0 =
     (let (c, loaded) = Load open_file (Some path) c0
      in if \<not> loaded then Inl (LoadFailed (LastError c))
         else
           let (c1, ini) = server_read_ini c
           in if HasError c1 then Inl (ConfigError (LastError c1))
              else if GetUnusedKeys c1 \<noteq> [] then Inl (UnknownKeys (GetUnusedKeys c1))
              else case server_check ini of Some e \<Rightarrow> Inl e | None \<Rightarrow> Inr ini)"

definition dummy_configure :: "(string \<Rightarrow> string option) \<Rightarrow> string \<Rightarrow> config \<Rightarrow> launch_error + chat_ini" where
  "dummy_configure open_file path c0 =
     (let (c, loaded) = Load open_file (Some path) c0
      in if \<not> loaded then Inl (LoadFailed (LastError c))
         else
           let (c1, ini) = dummy_read_ini c
           in if HasError c1 then Inl (ConfigError (LastError c1))
              else if GetUnusedKeys c1 \<noteq> [] then Inl (UnknownKeys (GetUnusedKeys c1))
              else case dummy_check ini of Some e \<Rightarrow> Inl e | None \<Rightarrow> Inr ini)"

subsection \<open>The chat server\<close>

text \<open>The number of worker threads, the listen address (\<open>0.0.0.0\<close> is every interface, a null pointer) and
  \<open>noDelay\<close>; the unsigned short arguments of \<open>Start\<close> are truncated.\<close>

definition server_processorCnt :: "int \<Rightarrow> int \<Rightarrow> int" where
  "server_processorCnt workerThreadCnt cores =
     (let n = (if 0 < workerThreadCnt then workerThreadCnt else cores - 1) in if n < 1 then 1 else n)"

definition server_listenIP :: "string \<Rightarrow> string option" where
  "server_listenIP listenIP = (if listenIP \<noteq> ''0.0.0.0'' then Some listenIP else None)"

definition server_main ::
  "chat_ini \<Rightarrow> int \<Rightarrow> start_calls \<Rightarrow> (nat \<Rightarrow> byte) \<Rightarrow> packet pool \<Rightarrow> job pool \<Rightarrow> character lf_pool \<Rightarrow> job \<Rightarrow> character
     \<Rightarrow> fault + chat_server \<times> bool" where
  "server_main i cores os fill packets jobs chars rawJob rawChar =
     ebind (chk32 (iniMaxUser i * 2)) (\<lambda>pool.
       Inr (Start os fill (word_of_int (server_processorCnt (iniWorkerThreadCnt i) cores)) (\<not> iniNagleEnabled i)
         (word_of_int pool)
         (NetServer_ctor None packets (ChatServer_ctor (word_of_int (iniMaxUser i)) jobs chars rawJob rawChar))))"

subsection \<open>The load generator\<close>

text \<open>\<open>(N + sessionPerThread - 1) / sessionPerThread\<close> in ints, then the limits; all operands are positive.\<close>

definition dummy_threadCount :: "int \<Rightarrow> int \<Rightarrow> int \<Rightarrow> fault + int" where
  "dummy_threadCount N sessionPerThread processorCount =
     ebind (chk32 (N + sessionPerThread)) (\<lambda>a.
     ebind (chk32 (a - 1)) (\<lambda>b.
       let t1 = b div sessionPerThread;
           t2 = (if processorCount < t1 then processorCount else t1)
       in Inr (if t2 < 1 then 1 else t2)))"

text \<open>The slices of the session array: start index and number of sessions of each thread.\<close>

fun dummy_slices :: "nat \<Rightarrow> int \<Rightarrow> int \<Rightarrow> int \<Rightarrow> int \<Rightarrow> (int \<times> int) list" where
  "dummy_slices 0 basePerThread remainder t sessionIdx = []"
| "dummy_slices (Suc n) basePerThread remainder t sessionIdx =
     (let thisCount = basePerThread + (if t < remainder then 1 else 0)
      in (sessionIdx, thisCount) # dummy_slices n basePerThread remainder (t + 1) (sessionIdx + thisCount))"

definition dummy_context :: "chat_ini \<Rightarrow> packet \<Rightarrow> int \<Rightarrow> worker_ctx" where
  "dummy_context i raw sessionIdx =
     \<lparr>sessionStartIdx = sessionIdx, messageInterval = word_of_int (iniMessageInterval i),
      minLifetimeMs = word_of_int (iniLifetimeMin i), maxLifetimeMs = word_of_int (iniLifetimeMax i),
      encoder = xor_vtable (XorPacketEncoder 0x77 0x32 4096), RawPacket = raw, Connected = 0, Active = 0, Failed = 0,
      Disconnected = 0, TPS_Sent = 0, TPS_Recv = 0, TotalSent = 0, TotalRecv = 0, SockLog = []\<rparr>"

text \<open>Each thread gets its context and its part of the array of new sessions.\<close>

definition dummy_main ::
  "chat_ini \<Rightarrow> int \<Rightarrow> bool \<Rightarrow> (string \<Rightarrow> u32 option) \<Rightarrow> bool \<Rightarrow> packet \<Rightarrow> fault + launch_error + (worker_ctx \<times> client_session list) list" where
  "dummy_main i processorCount wsa_ok inet_pton calloc_ok raw =
     ebind (dummy_threadCount (iniClientCount i) (iniSessionPerThread i) processorCount) (\<lambda>threadCount.
       let basePerThread = iniClientCount i div threadCount;
           remainder = iniClientCount i mod threadCount
       in if \<not> wsa_ok then Inr (Inl NoWinsock)
          else if inet_pton (iniServerIP i) = None then Inr (Inl (BadAddress (iniServerIP i)))
          else if \<not> calloc_ok then Inr (Inl NoMemory)
          else
            let sessions = replicate (nat (iniClientCount i)) new_client_session
            in Inr (Inr (map (\<lambda>(idx, cnt). (dummy_context i raw idx, take (nat cnt) (drop (nat idx) sessions)))
                 (dummy_slices (nat threadCount) basePerThread remainder 0 0))))"

subsection \<open>Which files are accepted\<close>

definition chat_queries :: "cfg_query list" where
  "chat_queries =
     [QStringRequired ''Server'' ''ListenIP'', QIntRequired ''Server'' ''Port'', QIntRequired ''Server'' ''MaxUser'',
      QIntRequired ''Server'' ''WorkerThreadCnt'', QBoolRequired ''Server'' ''NagleEnabled'',
      QStringRequired ''Client'' ''ServerIP'', QIntRequired ''Client'' ''ServerPort'', QIntRequired ''Client'' ''ClientCount'',
      QIntRequired ''Client'' ''MessageInterval'', QIntRequired ''Client'' ''LifetimeMin'',
      QIntRequired ''Client'' ''LifetimeMax'', QIntRequired ''Client'' ''SessionPerThread'']"

definition ini_of :: "(string \<times> string \<Rightarrow> string option) \<Rightarrow> chat_ini" where
  "ini_of v =
     \<lparr>iniListenIP = text_value (v (''Server'', ''ListenIP'')), iniPort = int_value (v (''Server'', ''Port'')),
      iniMaxUser = int_value (v (''Server'', ''MaxUser'')), iniWorkerThreadCnt = int_value (v (''Server'', ''WorkerThreadCnt'')),
      iniNagleEnabled = bool_value (v (''Server'', ''NagleEnabled'')), iniServerIP = text_value (v (''Client'', ''ServerIP'')),
      iniServerPort = int_value (v (''Client'', ''ServerPort'')), iniClientCount = int_value (v (''Client'', ''ClientCount'')),
      iniMessageInterval = int_value (v (''Client'', ''MessageInterval'')), iniLifetimeMin = int_value (v (''Client'', ''LifetimeMin'')),
      iniLifetimeMax = int_value (v (''Client'', ''LifetimeMax'')), iniSessionPerThread = int_value (v (''Client'', ''SessionPerThread''))\<rparr>"

lemma server_read: "server_read_ini c = (fold run_query chat_queries c, ini_of (value_at c))"
  by (simp add: server_read_ini_def getters run_query_value chat_queries_def ini_of_def del: run_query.simps)

lemma dummy_read: "dummy_read_ini c = (fold run_query chat_queries c, ini_of (value_at c))"
  by (simp add: dummy_read_ini_def getters run_query_value chat_queries_def ini_of_def del: run_query.simps)

definition ini_valid :: "chat_ini \<Rightarrow> bool" where
  "ini_valid i \<longleftrightarrow> 1 \<le> iniPort i \<and> iniPort i \<le> 65535 \<and> iniServerPort i = iniPort i \<and>
     1 \<le> iniClientCount i \<and> iniClientCount i \<le> iniMaxUser i \<and> iniMaxUser i \<le> 32767 \<and>
     1 \<le> iniMessageInterval i \<and> 1 \<le> iniSessionPerThread i \<and> 0 \<le> iniWorkerThreadCnt i \<and>
     0 \<le> iniLifetimeMin i \<and> 0 \<le> iniLifetimeMax i \<and> (iniLifetimeMin i = 0 \<or> iniLifetimeMin i < iniLifetimeMax i)"

text \<open>The keys of the file are the twelve keys and their values are of the right form.\<close>

definition chat_file_ok :: "config \<Rightarrow> bool" where
  "chat_file_ok c \<longleftrightarrow> file_ok chat_queries c"

lemma server_check_valid: "server_check i = None \<longleftrightarrow> ini_valid i"
  by (auto simp: server_check_def ini_valid_def)

lemma checks_same: "server_check = dummy_check"
  by (simp add: fun_eq_iff server_check_def dummy_check_def)

lemma server_dummy_same: "server_configure open_file path c0 = dummy_configure open_file path c0"
  by (cases "Load open_file (Some path) c0") (simp add: server_configure_def dummy_configure_def server_read dummy_read checks_same)

lemma server_configure_iff:
  "server_configure open_file path c0 = Inr ini \<longleftrightarrow>
   (\<exists>c. Load open_file (Some path) c0 = (c, True) \<and> chat_file_ok c \<and> ini = ini_of (value_at c) \<and> ini_valid ini)"
proof -
  obtain c loaded where l: "Load open_file (Some path) c0 = (c, loaded)" by fastforce
  show ?thesis
  proof (cases loaded)
    case True
    have "\<not> HasError (fold run_query chat_queries c) \<and> GetUnusedKeys (fold run_query chat_queries c) = [] \<longleftrightarrow> chat_file_ok c"
      using loaded_check [of open_file path c0 c] l True by (simp add: chat_file_ok_def)
    then show ?thesis using l True
      by (auto simp: server_configure_def server_read server_check_valid [symmetric] split: option.splits)
  qed (use l in \<open>auto simp: server_configure_def\<close>)
qed

text \<open>C21. The server and the load generator agree on their shared file: on every file system, path and previous
  state both end with the same result, the same error or the same values; and they accept exactly the files that
  load, contain the twelve keys and no other, hold numbers and a boolean where these are expected, and whose values
  are in range (ports 1 to 65535 and equal, at least one client and no more than MaxUser, at most 32767 users,
  positive interval and sessions per thread, nothing negative, lifetimes increasing unless disabled).\<close>

theorem chat_ini_accepted:
  "server_configure open_file path c0 = dummy_configure open_file path c0 \<and>
   (server_configure open_file path c0 = Inr ini \<longleftrightarrow>
      (\<exists>c. Load open_file (Some path) c0 = (c, True) \<and> chat_file_ok c \<and> ini = ini_of (value_at c) \<and> ini_valid ini))"
proof
  show "server_configure open_file path c0 = dummy_configure open_file path c0"
    by (rule server_dummy_same)
  show "server_configure open_file path c0 = Inr ini \<longleftrightarrow>
      (\<exists>c. Load open_file (Some path) c0 = (c, True) \<and> chat_file_ok c \<and> ini = ini_of (value_at c) \<and> ini_valid ini)"
    by (rule server_configure_iff)
qed

subsection \<open>How the sessions are shared out\<close>

lemma upt_split: "map f [0..<a + b] = map f [0..<a] @ map (\<lambda>k. f (a + k)) [0..<b]"
proof -
  have "[a..<a + b] = map (\<lambda>k. a + k) [0..<b]" by (induction b) simp_all
  then show ?thesis using upt_add_eq_append [of 0 a b] by simp
qed

definition slice_indices :: "int \<times> int \<Rightarrow> int list" where
  "slice_indices s = map (\<lambda>k. fst s + int k) [0..<nat (snd s)]"

lemma slices_concat:
  "0 \<le> b \<Longrightarrow> concat (map slice_indices (dummy_slices n b r t idx)) =
     map (\<lambda>k. idx + int k) [0..<nat (int n * b + max 0 (min (r - t) (int n)))]"
proof (induction n arbitrary: t idx)
  case 0
  have "max 0 (min (r - t) 0) = 0" by simp
  then show ?case by simp
next
  case (Suc n)
  define c where "c = b + (if t < r then 1 else 0)"
  define d where "d = int n * b + max 0 (min (r - (t + 1)) (int n))"
  have nn: "0 \<le> c" "0 \<le> d" using Suc.prems by (simp_all add: c_def d_def)
  have "int (Suc n) * b + max 0 (min (r - t) (int (Suc n))) = c + d"
    by (auto simp: c_def d_def algebra_simps)
  then have "nat (int (Suc n) * b + max 0 (min (r - t) (int (Suc n)))) = nat c + nat d" using nn by (simp add: nat_add_distrib)
  then show ?case using Suc.IH [OF Suc.prems, of "t + 1" "idx + c"] nn
    by (simp add: upt_split [of _ "nat c"] slice_indices_def add.assoc flip: c_def d_def)
qed

lemma length_slices [simp]: "length (dummy_slices n b r t idx) = n"
  by (induction n arbitrary: t idx) (simp_all add: Let_def)

lemma slices_members:
  "0 \<le> b \<Longrightarrow> s \<in> set (dummy_slices n b r t idx) \<Longrightarrow>
     idx \<le> fst s \<and> b \<le> snd s \<and> snd s \<le> b + 1 \<and> fst s + snd s \<le> idx + int n * b + max 0 (min (r - t) (int n))"
proof (induction n arbitrary: t idx)
  case (Suc n)
  define c where "c = b + (if t < r then 1 else 0)"
  have total: "int (Suc n) * b + max 0 (min (r - t) (int (Suc n))) = c + (int n * b + max 0 (min (r - (t + 1)) (int n)))"
    by (auto simp: c_def algebra_simps)
  have nn: "0 \<le> int n * b" using Suc.prems(1) by simp
  from Suc.prems(2) have "s = (idx, c) \<or> s \<in> set (dummy_slices n b r (t + 1) (idx + c))" by (simp add: Let_def c_def)
  then show ?case
  proof
    assume "s = (idx, c)" then show ?thesis using total nn Suc.prems(1) by (simp add: c_def)
  next
    assume "s \<in> set (dummy_slices n b r (t + 1) (idx + c))"
    from Suc.IH [OF Suc.prems(1) this] show ?thesis using total Suc.prems(1) by (auto simp: c_def split: if_splits)
  qed
qed simp

lemma dummy_threadCount_ok:
  assumes "1 \<le> N" "1 \<le> s" "N + s < 2 ^ 31" "1 \<le> procs"
  shows "\<exists>T. dummy_threadCount N s procs = Inr T \<and> 1 \<le> T \<and> T \<le> procs \<and> T \<le> N"
proof -
  have "0 \<le> (N - 1) * (s - 1)" using assms by simp
  then have "N + s - 1 \<le> N * s" by (simp add: algebra_simps)
  then have le: "(N + s - 1) div s \<le> N" using assms zdiv_mono1 [of "N + s - 1" "N * s" s] by simp
  have "s div s \<le> (N + s - 1) div s" using assms by (intro zdiv_mono1) auto
  then have "1 \<le> (N + s - 1) div s" using assms by simp
  then show ?thesis using assms le by (auto simp: dummy_threadCount_def Let_def)
qed

lemma dummy_threadCount_overflow:
  assumes "1 \<le> N" "1 \<le> s" "2 ^ 31 \<le> N + s"
  shows "dummy_threadCount N s procs = Inl SignedOverflow"
  using assms by (simp add: dummy_threadCount_def chk32_def)

lemma lifetimes_differ:
  assumes "0 \<le> a" "a < 2 ^ 31" "0 \<le> b" "b < 2 ^ 31" "a = 0 \<or> a < b"
  shows "(word_of_int a :: u32) = 0 \<or> (word_of_int b :: u32) \<noteq> word_of_int a"
proof -
  have "uint (word_of_int a :: u32) = a" "uint (word_of_int b :: u32) = b" using assms by (simp_all add: unsigned_of_int take_bit_int_eq_self)
  then show ?thesis using assms(5) by force
qed

lemma slice_of_replicate:
  assumes "0 \<le> idx" "0 \<le> cnt" "idx + cnt \<le> int n"
  shows "take (nat cnt) (drop (nat idx) (replicate n x)) = replicate (nat cnt) x"
  using assms by (simp add: take_replicate drop_replicate min_def) (simp add: nat_le_iff nat_diff_distrib)

definition account_indices :: "worker_ctx \<times> client_session list \<Rightarrow> int list" where
  "account_indices w = map (\<lambda>k. sessionStartIdx (fst w) + int k) [0..<length (snd w)]"

text \<open>What a thread starts with: new sessions, at least one, and a context as \<open>DummyWorker\<close> asks for, with the default
  encoder.\<close>

definition starts_well :: "chat_ini \<Rightarrow> int \<Rightarrow> worker_ctx \<times> client_session list \<Rightarrow> bool" where
  "starts_well i T w \<longleftrightarrow> snd w = replicate (length (snd w)) new_client_session \<and> snd w \<noteq> [] \<and>
     (int (length (snd w)) = iniClientCount i div T \<or> int (length (snd w)) = iniClientCount i div T + 1) \<and>
     ctx_ok (XorPacketEncoder 0x77 0x32 4096) (length (snd w)) (fst w) \<and> SockLog (fst w) = []"

lemma dummy_workers:
  assumes "ini_valid i" "1 \<le> T" "T \<le> iniClientCount i" "raw_ok raw"
  defines "ws \<equiv> map (\<lambda>(idx, cnt). (dummy_context i raw idx, take (nat cnt) (drop (nat idx) (replicate (nat (iniClientCount i)) new_client_session))))
      (dummy_slices (nat T) (iniClientCount i div T) (iniClientCount i mod T) 0 0)"
  assumes "iniLifetimeMin i < 2 ^ 31" "iniLifetimeMax i < 2 ^ 31"
  shows "length ws = nat T" "concat (map account_indices ws) = map int [0..<nat (iniClientCount i)]" "\<forall>w \<in> set ws. starts_well i T w"
proof -
  define N where "N = iniClientCount i"
  have N: "1 \<le> N" "N \<le> 32767" using assms(1) by (simp_all add: ini_valid_def N_def)
  have mod: "0 \<le> N mod T" "N mod T < T" using assms(2) by simp_all
  have "T div T \<le> N div T" using assms(2,3) N by (intro zdiv_mono1) (auto simp: N_def)
  then have b: "1 \<le> N div T" using assms(2) by simp
  have "max 0 (min (N mod T) T) = N mod T" using mod by simp
  then have total: "int (nat T) * (N div T) + max 0 (min (N mod T - 0) (int (nat T))) = N"
    using assms(2) mult_div_mod_eq [of T N] by simp
  have mem: "0 \<le> fst s \<and> N div T \<le> snd s \<and> snd s \<le> N div T + 1 \<and> fst s + snd s \<le> N"
    if "s \<in> set (dummy_slices (nat T) (N div T) (N mod T) 0 0)" for s
    using slices_members [OF _ that] total b by simp
  have sl: "take (nat cnt) (drop (nat idx) (replicate (nat N) new_client_session)) = replicate (nat cnt) new_client_session"
    if "(idx, cnt) \<in> set (dummy_slices (nat T) (N div T) (N mod T) 0 0)" for idx cnt
    using mem [OF that] b N by (intro slice_of_replicate) auto
  show "length ws = nat T" by (simp add: ws_def)
  have "map account_indices ws = map slice_indices (dummy_slices (nat T) (N div T) (N mod T) 0 0)"
    by (auto simp: ws_def account_indices_def slice_indices_def dummy_context_def sl simp flip: N_def
      simp del: take_replicate drop_replicate)
  then show "concat (map account_indices ws) = map int [0..<nat (iniClientCount i)]"
    using slices_concat [of "N div T" "nat T" "N mod T" 0 0] b total by (simp add: N_def)
  show "\<forall>w \<in> set ws. starts_well i T w"
  proof
    fix w assume "w \<in> set ws"
    then obtain idx cnt where s: "(idx, cnt) \<in> set (dummy_slices (nat T) (N div T) (N mod T) 0 0)"
      and w: "w = (dummy_context i raw idx, replicate (nat cnt) new_client_session)"
      by (auto simp: ws_def sl simp flip: N_def simp del: take_replicate drop_replicate)
    have lt: "(word_of_int (iniLifetimeMin i) :: u32) = 0 \<or> (word_of_int (iniLifetimeMax i) :: u32) \<noteq> word_of_int (iniLifetimeMin i)"
      using assms(1,6,7) by (intro lifetimes_differ) (auto simp: ini_valid_def)
    show "starts_well i T w"
      using mem [OF s] b N lt assms(4) by (auto simp: starts_well_def w ctx_ok_def dummy_context_def simp flip: N_def)
  qed
qed

subsection \<open>From the file to the threads\<close>

text \<open>C20. The load generator from its ini file to its threads: for an accepted file the only undefined behaviour is
  the overflow of \<open>N + sessionPerThread\<close>, exactly when that sum does not fit an int. Otherwise, when the sockets,
  the address and the memory are there, it starts at least one thread and at most one per processor; the account
  numbers of the threads, one thread after the other, are those of all clients, each once and in order; every
  thread gets at least one session, the numbers of sessions differ by at most one, all sessions are new, and the
  lifetimes given to a thread never make its random lifetime divide by zero.\<close>

theorem dummy_threads_cover:
  assumes "dummy_configure open_file path c0 = Inr i" "1 \<le> procs" "raw_ok raw"
  shows "if 2 ^ 31 \<le> iniClientCount i + iniSessionPerThread i
     then dummy_main i procs wsa_ok pton calloc_ok raw = Inl SignedOverflow
     else if \<not> wsa_ok then dummy_main i procs wsa_ok pton calloc_ok raw = Inr (Inl NoWinsock)
     else if pton (iniServerIP i) = None then dummy_main i procs wsa_ok pton calloc_ok raw = Inr (Inl (BadAddress (iniServerIP i)))
     else if \<not> calloc_ok then dummy_main i procs wsa_ok pton calloc_ok raw = Inr (Inl NoMemory)
     else \<exists>ws. dummy_main i procs wsa_ok pton calloc_ok raw = Inr (Inr ws) \<and> ws \<noteq> [] \<and> int (length ws) \<le> procs \<and>
       concat (map account_indices ws) = map int [0..<nat (iniClientCount i)] \<and> (\<forall>w \<in> set ws. starts_well i (int (length ws)) w)"
proof -
  from assms(1) obtain v where i: "ini_valid i" "i = ini_of v"
    by (auto simp: server_dummy_same [symmetric] server_configure_iff)
  then have pos: "1 \<le> iniClientCount i" "1 \<le> iniSessionPerThread i" by (simp_all add: ini_valid_def)
  have lt: "iniLifetimeMin i < 2 ^ 31" "iniLifetimeMax i < 2 ^ 31" using int_value_range by (simp_all add: i(2) ini_of_def)
  show ?thesis
  proof (cases "2 ^ 31 \<le> iniClientCount i + iniSessionPerThread i")
    case True
    with pos show ?thesis by (simp add: dummy_main_def dummy_threadCount_overflow)
  next
    case False
    then obtain T where T: "dummy_threadCount (iniClientCount i) (iniSessionPerThread i) procs = Inr T" "1 \<le> T" "T \<le> procs" "T \<le> iniClientCount i"
      using dummy_threadCount_ok [OF pos _ assms(2)] by auto
    from dummy_workers [OF i(1) T(2,4) assms(3) lt] T False show ?thesis
      by (auto simp: dummy_main_def)
  qed
qed

text \<open>A file to evaluate on: five clients, two sessions per thread wanted, four processors.\<close>

definition demo_ini :: "(string \<times> (string \<times> string) list) list" where
  "demo_ini =
     [(''Server'', [(''ListenIP'', ''0.0.0.0''), (''Port'', ''6000''), (''MaxUser'', ''10''), (''WorkerThreadCnt'', ''0''),
        (''NagleEnabled'', ''true'')]),
      (''Client'', [(''ServerIP'', ''127.0.0.1''), (''ServerPort'', ''6000''), (''ClientCount'', ''5''),
        (''MessageInterval'', ''100''), (''LifetimeMin'', ''0''), (''LifetimeMax'', ''0''), (''SessionPerThread'', ''2'')])]"

definition demo_values :: chat_ini where
  "demo_values = \<lparr>iniListenIP = ''0.0.0.0'', iniPort = 6000, iniMaxUser = 10, iniWorkerThreadCnt = 0, iniNagleEnabled = True,
     iniServerIP = ''127.0.0.1'', iniServerPort = 6000, iniClientCount = 5, iniMessageInterval = 100, iniLifetimeMin = 0,
     iniLifetimeMax = 0, iniSessionPerThread = 2\<rparr>"

lemma demo_numbers:
  "ParseInt ''6000'' = Some 6000" "ParseInt ''10'' = Some 10" "ParseInt ''0'' = Some 0" "ParseInt ''5'' = Some 5"
  "ParseInt ''100'' = Some 100" "ParseInt ''2'' = Some 2" "ParseBool ''true'' = Some True"
  by code_simp+

lemma demo_accepted: "dummy_configure (\<lambda>p. Some (render_ini demo_ini)) ''x.ini'' no_config = Inr demo_values"
proof -
  have cl: "clean_ini demo_ini"
    by (simp add: demo_ini_def clean_ini_def clean_section_def clean_key_def clean_value_def clean_def is_blank_def)
  have d: "distinct (map fst (ini_entries demo_ini))" by (simp add: demo_ini_def ini_entries_def)
  from load_file [OF cl d, of "\<lambda>p. Some (render_ini demo_ini)" "''x.ini''" no_config] obtain c where
    c: "Load (\<lambda>p. Some (render_ini demo_ini)) (Some ''x.ini'') no_config = (c, True)" and v: "value_at c = map_of (ini_entries demo_ini)"
    by auto
  have e: "value_at c = map_of [((''Server'', ''ListenIP''), ''0.0.0.0''), ((''Server'', ''Port''), ''6000''),
     ((''Server'', ''MaxUser''), ''10''), ((''Server'', ''WorkerThreadCnt''), ''0''), ((''Server'', ''NagleEnabled''), ''true''),
     ((''Client'', ''ServerIP''), ''127.0.0.1''), ((''Client'', ''ServerPort''), ''6000''), ((''Client'', ''ClientCount''), ''5''),
     ((''Client'', ''MessageInterval''), ''100''), ((''Client'', ''LifetimeMin''), ''0''), ((''Client'', ''LifetimeMax''), ''0''),
     ((''Client'', ''SessionPerThread''), ''2'')]"
    unfolding v by (simp add: demo_ini_def ini_entries_def)
  have vals: "ini_of (value_at c) = demo_values"
    by (simp add: e ini_of_def demo_values_def text_value_def int_value_def bool_value_def demo_numbers)
  have "chat_file_ok c"
    by (auto simp: e chat_file_ok_def file_ok_def chat_queries_def demo_numbers split: if_splits)
  moreover have "ini_valid demo_values" by (simp add: ini_valid_def demo_values_def)
  ultimately show ?thesis using c vals
    by (auto simp: server_dummy_same [symmetric] server_configure_iff)
qed

lemma dummy_threads_cover_witness:
  "\<exists>ws. dummy_main demo_values 4 True (\<lambda>ip. Some 0) True (RawPacket (demo_ctx (XorPacketEncoder 0x77 0x32 4096))) = Inr (Inr ws) \<and>
     concat (map account_indices ws) = [0, 1, 2, 3, 4]"
proof -
  have u: "[0..<5] = [0, 1, 2, 3, 4]" by (simp add: upt_rec)
  show ?thesis
    using dummy_threads_cover [OF demo_accepted, of 4 "RawPacket (demo_ctx (XorPacketEncoder 0x77 0x32 4096))" True "\<lambda>ip. Some 0" True]
      demo_ctx_facts(2)
    by (auto simp: demo_values_def u)
qed

end
