(* ===== verification/EchoServer.thy ===== *)
theory EchoServer
  imports ServerSend
begin

text \<open>
  The echo server of the benchmark (Examples/TestServer/main.cpp): the callbacks on top of \<open>NetServer\<close>, and
  that every message that arrives is queued for sending, unchanged and in order. \<open>App\<close> is the sequence of the
  random numbers to come, one for each send.
\<close>

subsection \<open>The echo server\<close>

type_synonym echo_server = "(nat \<Rightarrow> int) server"

definition echo_base :: "packet \<Rightarrow> (nat \<Rightarrow> int) env" where
  "echo_base new =
     \<lparr>NewPacket = new, OnConnectionRequest = (\<lambda>s. (s, True)), OnClientJoin = (\<lambda>sid s. Inr s),
      OnClientLeave = (\<lambda>sid s. Inr s), OnRecv = (\<lambda>sid p s. Inr s)\<rparr>"

definition echo_OnRecv :: "packet \<Rightarrow> nat \<Rightarrow> u64 \<Rightarrow> addr \<Rightarrow> echo_server \<Rightarrow> fault + echo_server" where
  "echo_OnRecv new tid sessionID p s =
     ebind (AllocPacket (echo_base new) tid s) (\<lambda>(s1, echo).
     ebind (get_packet p s1) (\<lambda>pk.
     ebind (get_packet echo s1) (\<lambda>ek.
     ebind (PutData ek (GetReadBufferPtr pk) (GetDataSize pk)) (\<lambda>(ek', n).
       let s2 = set_packet echo ek' s1;
           rnd = App s2 0;
           s3 = s2\<lparr>App := \<lambda>n. App s2 (Suc n)\<rparr>
       in ebind (SendPacket sessionID rnd echo s3) (FreePacket tid echo)))))"

definition echo_env :: "packet \<Rightarrow> nat \<Rightarrow> (nat \<Rightarrow> int) env" where
  "echo_env new tid = (echo_base new)\<lparr>OnRecv := echo_OnRecv new tid\<rparr>"

subsection \<open>Packets that someone holds\<close>

text \<open>The operations on packets change the bytes of no other packet in use.\<close>

definition keeps_bytes :: "(addr \<Rightarrow> nat) \<Rightarrow> 'u server \<Rightarrow> 'u server \<Rightarrow> bool" where
  "keeps_bytes U s s' \<longleftrightarrow> (\<forall>q. 0 < U q + session_refs s q \<longrightarrow> packet_bytes s' q = packet_bytes s q)"

lemma packet_bytes_cong: "read_data (PacketPool s) q = read_data (PacketPool t) q \<Longrightarrow> packet_bytes s q = packet_bytes t q"
  by (simp add: packet_bytes_def get_packet_def)

lemma packet_bytes_pool: "map_option packet_data (read_data pl q) = map_option packet_data (read_data (PacketPool t) q) \<Longrightarrow>
    PacketPool s = pl \<Longrightarrow> packet_bytes s q = packet_bytes t q"
  by (auto simp: packet_bytes_def get_packet_def split: option.splits)

lemma held_alloc:
  assumes inv: "refs_inv s U" and new: "fresh_packet (NewPacket env)"
  shows "\<exists>pl p pk. AllocPacket env tid s = Inr (s\<lparr>PacketPool := pl\<rparr>, p) \<and> U p = 0 \<and> session_refs s p = 0 \<and>
     refs_inv (s\<lparr>PacketPool := pl\<rparr>) (U(p := 1)) \<and> get_packet p (s\<lparr>PacketPool := pl\<rparr>) = Inr pk \<and> cleared pk \<and>
     (\<forall>q. 0 < U q + session_refs s q \<longrightarrow> get_packet q (s\<lparr>PacketPool := pl\<rparr>) = get_packet q s)"
proof -
  define R where "R = (\<lambda>p. U p + session_refs s p)"
  have "packet_refs (PacketPool s) R" using inv by (simp add: refs_inv_def R_def)
  from AllocPacket_refs [OF this new, of tid] obtain pl p pk where
    a: "AllocPacket env tid s = Inr (s\<lparr>PacketPool := pl\<rparr>, p)" "R p = 0" "packet_refs pl (R(p := 1))"
      "read_data pl p = Some pk" "cleared pk" "\<forall>q. 0 < R q \<longrightarrow> read_data pl q = read_data (PacketPool s) q" by blast
  have "(\<lambda>q. (U(p := 1)) q + session_refs s q) = R(p := 1)" using a(2) by (auto simp: fun_eq_iff R_def)
  then have "refs_inv (s\<lparr>PacketPool := pl\<rparr>) (U(p := 1))"
    using inv a(3) by (simp add: refs_inv_def session_refs_def free_stack_ok_def)
  with a show ?thesis
    by (intro exI [of _ pl] exI [of _ p] exI [of _ pk]) (auto simp: get_packet_def R_def)
qed

lemma held_free:
  assumes inv: "refs_inv s U" and p: "0 < U p"
  shows "\<exists>pl. FreePacket tid p s = Inr (s\<lparr>PacketPool := pl\<rparr>) \<and> refs_inv (s\<lparr>PacketPool := pl\<rparr>) (U(p := U p - 1)) \<and>
     (\<forall>q. packet_bytes (s\<lparr>PacketPool := pl\<rparr>) q = packet_bytes s q)"
proof -
  define R where "R = (\<lambda>p. U p + session_refs s p)"
  have R: "packet_refs (PacketPool s) R" "0 < R p" using inv p by (auto simp: refs_inv_def R_def)
  from packet_refs_read [OF R] obtain pk where pk: "read_data (PacketPool s) p = Some pk" .
  have pp: "pool_pkts (PacketPool s) {q. 0 < R q}" "p \<in> {q. 0 < R q}" using R by (auto simp: packet_refs_def)
  from FreePacket_spec [OF pp pk, of tid] obtain pl where f: "FreePacket tid p s = Inr (s\<lparr>PacketPool := pl\<rparr>)"
    "\<forall>q. read_data pl q = (if q = p then Some (pk\<lparr>RefCnt := RefCnt pk - 1\<rparr>) else read_data (PacketPool s) q)" by blast
  have b: "packet_bytes (s\<lparr>PacketPool := pl\<rparr>) q = packet_bytes s q" for q
    using f(2) pk by (simp add: packet_bytes_def get_packet_def packet_data_def)
  from refs_inv_Free [OF inv p, of tid] f(1) have "refs_inv (s\<lparr>PacketPool := pl\<rparr>) (U(p := U p - 1))" by auto
  with f(1) b show ?thesis by blast
qed

lemma held_get:
  assumes "refs_inv s U" "0 < U p + session_refs s p"
  obtains pk where "get_packet p s = Inr pk" "good_packet pk"
proof -
  have "packet_refs (PacketPool s) (\<lambda>p. U p + session_refs s p)" using assms(1) by (simp add: refs_inv_def)
  from packet_refs_read [OF this assms(2)] obtain pk where "read_data (PacketPool s) p = Some pk" "good_packet pk" .
  then show thesis by (intro that [of pk]) (simp_all add: get_packet_def)
qed

lemma get_set_packet:
  assumes "refs_inv s U" "0 < U p"
  shows "get_packet q (set_packet p pk s) = (if q = p then Inr pk else get_packet q s)"
proof -
  from held_get [OF assms(1), of p] assms(2) obtain k where k: "get_packet p s = Inr k" by (metis trans_less_add1)
  have "pool_pkts (PacketPool s) {q. 0 < U q + session_refs s q}" using assms(1) by (simp add: refs_inv_def packet_refs_def)
  then have "sizeof_PadType \<le> p" using run_inv_addr [of "PacketPool s" "{q. 0 < U q + session_refs s q}" p] assms(2) by (simp add: pool_pkts_def)
  then show ?thesis using k by (auto simp: get_packet_def read_write_data split: option.splits)
qed

lemma session_refs_packet [simp]: "session_refs (set_packet p pk s) = session_refs s" "session_refs (s\<lparr>PacketPool := pl\<rparr>) = session_refs s"
  by (simp_all add: session_refs_def fun_eq_iff)

lemma set_packet_Posted [simp]: "Posted (set_packet p pk s) = Posted s"
  by (simp add: set_packet_def)

lemma refs_inv_app: "refs_inv (s\<lparr>App := a\<rparr>) U \<longleftrightarrow> refs_inv s U"
  by (simp add: refs_inv_def session_refs_def free_stack_ok_def)

text \<open>The callback: one more packet in the send queue, which nobody else holds.\<close>

lemma echo_OnRecv_ok:
  assumes inv: "refs_inv s U" and live: "live_id s sid" and enc: "frame_encoder (Encoder s) frame max_len"
    and new: "fresh_packet new" and p: "0 < U p" and pk: "get_packet p s = Inr pk"
    and len: "length (packet_data pk) \<le> max_len" "length (packet_data pk) \<le> max_message"
  shows "\<exists>s' q. echo_OnRecv new tid sid p s = Inr s' \<and> refs_inv s' U \<and> U q = 0 \<and> session_refs s q = 0 \<and>
     packet_bytes s' q = frame (App s 0) (packet_data pk) \<and> keeps_bytes U s s' \<and>
     SessionArr s' = (SessionArr s)[FindSession sid :=
       (add_ref (SessionArr s ! FindSession sid))\<lparr>SendQ := SendQ (SessionArr s ! FindSession sid) @ [q]\<rparr>] \<and>
     Encoder s' = Encoder s \<and> App s' = (\<lambda>n. App s (Suc n)) \<and> Posted s' = Posted s @ [PostSend (FindSession sid)]"
proof -
  have "fresh_packet (NewPacket (echo_base new))" using new by (simp add: echo_base_def)
  from held_alloc [OF inv this, of tid] obtain pl e ek where
    a: "AllocPacket (echo_base new) tid s = Inr (s\<lparr>PacketPool := pl\<rparr>, e)" "U e = 0" "session_refs s e = 0"
      "refs_inv (s\<lparr>PacketPool := pl\<rparr>) (U(e := 1))" "get_packet e (s\<lparr>PacketPool := pl\<rparr>) = Inr ek" "cleared ek"
      "\<forall>q. 0 < U q + session_refs s q \<longrightarrow> get_packet q (s\<lparr>PacketPool := pl\<rparr>) = get_packet q s" by blast
  let ?s1 = "s\<lparr>PacketPool := pl\<rparr>" and ?U = "U(e := 1)"
  have ep: "e \<noteq> p" using a(2) p by auto
  have pk1: "get_packet p ?s1 = Inr pk" using a(7) p pk by simp
  obtain k where "get_packet p s = Inr k" "good_packet k" using held_get [OF inv, of p] p by auto
  then have wf: "packet_wf pk" using pk by (simp add: good_packet_def)
  from GetReadBufferPtr_data [OF wf] obtain B where B: "GetReadBufferPtr pk = packet_data pk @ B" by blast
  have size: "GetDataSize pk = int (length (packet_data pk))" using length_packet_data [OF wf] by simp
  have ek: "packet_wf ek" "packet_data ek = []" "packet_room ek = 1004" "Rear ek = 20" "Front ek = 20" "good_packet ek" "\<not> EncodeFlag ek"
    using a(6) by (auto simp: cleared_def good_packet_def packet_data_def window_def packet_room_def kBufferDefault_def kHeaderDefault_def)
  have pre: "0 \<le> GetDataSize pk" "Rear ek + GetDataSize pk < 2 ^ 31" "GetDataSize pk \<le> int (length (GetReadBufferPtr pk))"
    using len(2) by (simp_all add: size B ek(4) max_message_def)
  from PutData_ok [OF ek(1) pre] obtain ek' where
    put: "PutData ek (GetReadBufferPtr pk) (GetDataSize pk) = Inr (ek', GetDataSize pk)" "packet_wf ek'"
      "packet_data ek' = packet_data pk" "Front ek' = Front ek" "BufferSize ek' = BufferSize ek" "RefCnt ek' = RefCnt ek"
      "EncodeFlag ek' = EncodeFlag ek" "SRWEncode ek' = SRWEncode ek"
    using len(2) by (auto simp: ek(2,3) size B max_message_def min_def)
  have good: "good_packet ek'" using put ek(6) by (simp add: good_packet_def)
  let ?s2 = "set_packet e ek' ?s1" let ?s3 = "?s2\<lparr>App := \<lambda>n. App s (Suc n)\<rparr>"
  have inv3: "refs_inv ?s3 ?U"
    using refs_inv_fill [OF a(4) _ a(5) good put(6)] by (simp add: refs_inv_app)
  have get3: "get_packet q ?s3 = (if q = e then Inr ek' else get_packet q ?s1)" for q
    using get_set_packet [OF a(4), of e q ek'] by (simp add: get_packet_def)
  have live3: "live_id ?s3 sid" and E3: "frame_encoder (Encoder ?s3) frame max_len" using live enc by (simp_all add: live_id_def)
  have ge: "get_packet e ?s3 = Inr ek'" using get3 by simp
  have "session_refs ?s3 e = session_refs s e" by (simp add: session_refs_def)
  then have rf: "?U e + session_refs ?s3 e + 1 < 2 ^ 32" using a(3) by simp
  have sd: "sendable max_len ek'" using put ek len(1) by (simp add: sendable_def kHeaderDefault_def)
  have "0 < ?U e" by simp
  from refs_inv_SendPacket [OF inv3 live3 this rf E3 ge sd, of "App s 0"] obtain s4 q where
    s4: "SendPacket sid (App s 0) e ?s3 = Inr s4" "refs_inv s4 ?U" "get_packet e s4 = Inr q"
      "packet_data q = wire_data frame (App s 0) ek'"
      "SessionArr s4 = (SessionArr ?s3)[FindSession sid :=
         (add_ref (SessionArr ?s3 ! FindSession sid))\<lparr>SendQ := SendQ (SessionArr ?s3 ! FindSession sid) @ [e]\<rparr>]"
      "Posted s4 = Posted ?s3 @ [PostSend (FindSession sid)]" "Encoder s4 = Encoder ?s3"
      "\<forall>r. r \<noteq> e \<longrightarrow> get_packet r s4 = get_packet r ?s3" by blast
  have app4: "App s4 = App ?s3"
    using s4(1) by (auto simp: SendPacket_def IncrementSessionRef_def DecrementSessionRef_def with_session_def Let_def
      ebind_eq_Inr split: if_splits)
  from held_free [OF s4(2), of e tid] obtain pl5 where
    f: "FreePacket tid e s4 = Inr (s4\<lparr>PacketPool := pl5\<rparr>)" "refs_inv (s4\<lparr>PacketPool := pl5\<rparr>) (?U(e := ?U e - 1))"
      "\<forall>q. packet_bytes (s4\<lparr>PacketPool := pl5\<rparr>) q = packet_bytes s4 q" by auto
  let ?s5 = "s4\<lparr>PacketPool := pl5\<rparr>"
  have U: "?U(e := ?U e - 1) = U" using a(2) by auto
  have "echo_OnRecv new tid sid p s = Inr ?s5"
    using s4(1) f(1) by (simp add: echo_OnRecv_def a(1) pk1 a(5) put(1) Let_def)
  moreover have "packet_bytes ?s5 e = frame (App s 0) (packet_data pk)"
    using f(3) s4(3,4) put(3,7) ek(7) by (simp add: packet_bytes_def wire_data_def)
  moreover have "keeps_bytes U s ?s5"
    unfolding keeps_bytes_def
  proof (intro allI impI)
    fix r assume r: "0 < U r + session_refs s r"
    then have "r \<noteq> e" using a(2,3) by auto
    then have "get_packet r s4 = get_packet r s" using s4(8) get3 a(7) [rule_format, OF r] by simp
    then show "packet_bytes ?s5 r = packet_bytes s r" using f(3) by (simp add: packet_bytes_def)
  qed
  ultimately show ?thesis
    using s4(5-7) f(2) a(2,3) app4 unfolding U by (intro exI [of _ ?s5] exI [of _ e]) simp
qed

text \<open>What one message does to the session: its receive packet shrinks, its send queue grows.\<close>

definition echoed :: "packet \<Rightarrow> addr list \<Rightarrow> session \<Rightarrow> session \<Rightarrow> bool" where
  "echoed rq qs x y \<longleftrightarrow> RecvQ y = rq \<and> SendQ y = SendQ x @ qs \<and> SessionID y = SessionID x \<and> SendFlag y = SendFlag x \<and>
     SessionUseFlag y = SessionUseFlag x \<and> ReleaseFlag y = ReleaseFlag x"

lemma refs_inv_RecvQ:
  assumes "refs_inv s U" "i < length (SessionArr s)"
  shows "refs_inv (set_session i ((SessionArr s ! i)\<lparr>RecvQ := rq\<rparr>) s) U"
  using assms refs_inv_nth [OF assms]
  by (intro refs_inv_quiet [OF assms(1,2), of "(SessionArr s ! i)\<lparr>RecvQ := rq\<rparr>"])
    (auto simp: session_ok_def held_by_def set_session_def refs_inv_def free_stack_ok_def)

lemma AddRecvPacket_more [simp]:
  "FreeSessionStack (AddRecvPacket tid s) = FreeSessionStack s" "Posted (AddRecvPacket tid s) = Posted s"
  by (simp_all add: AddRecvPacket_def GetThreadTransmitArr_def set_arr_def split: option.splits)

lemma OnRecv_echo [simp]: "OnRecv (echo_env new tid) = echo_OnRecv new tid"
  by (simp add: echo_env_def)

lemma echo_round:
  assumes inv: "refs_inv s U" and live: "live_id s sid" and E: "Encoder s = E" and enc: "frame_encoder E frame max_len"
    and new: "fresh_packet new" and i: "i = FindSession sid" and x: "x = SessionArr s ! i" and rq: "packet_wf (RecvQ x)"
    and dat: "packet_data (RecvQ x) = frame r pl @ tail" and pl: "fits max_len pl" "pl \<noteq> [] \<or> tail \<noteq> []"
  shows "\<exists>s' q rq'. recv_loop (echo_env new tid) tid i s = recv_loop (echo_env new tid) tid i s' \<and> refs_inv s' U \<and> live_id s' sid \<and>
     Encoder s' = E \<and> length (SessionArr s') = length (SessionArr s) \<and> echoed rq' [q] x (SessionArr s' ! i) \<and>
     packet_wf rq' \<and> packet_data rq' = tail \<and> BufferSize rq' = BufferSize (RecvQ x) \<and>
     packet_bytes s' q = frame (App s 0) pl \<and> keeps_bytes U s s' \<and> App s' = (\<lambda>n. App s (Suc n)) \<and>
     (\<forall>r. session_refs s r \<le> session_refs s' r)"
proof -
  have li: "i < length (SessionArr s)" "SessionID x = sid" "\<not> ReleaseFlag x" using live i x by (auto simp: live_id_def)
  have len: "length pl \<le> max_len" using pl by (simp add: fits_def)
  have complete: "CheckPacketMessageComplete (echo_env new tid) tid sid i s = Inr (s, True)"
    using frame_encoder.check_frame_complete [OF enc rq dat len pl(2)] li x
    by (simp add: CheckPacketMessageComplete_frame with_session_def E)
  have "fresh_packet (NewPacket (echo_env new tid))" using new by (simp add: echo_env_def echo_base_def)
  from held_alloc [OF inv this, of tid] obtain pool p pk where
    a: "AllocPacket (echo_env new tid) tid s = Inr (s\<lparr>PacketPool := pool\<rparr>, p)" "U p = 0" "session_refs s p = 0"
      "refs_inv (s\<lparr>PacketPool := pool\<rparr>) (U(p := 1))" "get_packet p (s\<lparr>PacketPool := pool\<rparr>) = Inr pk" "cleared pk"
      "\<forall>q. 0 < U q + session_refs s q \<longrightarrow> get_packet q (s\<lparr>PacketPool := pool\<rparr>) = get_packet q s" by blast
  let ?s2 = "s\<lparr>PacketPool := pool\<rparr>" and ?U = "U(p := 1)"
  have pw: "packet_wf pk" "packet_data pk = []" "int (length pl) \<le> packet_room pk"
    using a(6) pl by (auto simp: cleared_def good_packet_def packet_data_def window_def packet_room_def
        kBufferDefault_def kHeaderDefault_def fits_def max_message_def)
  from frame_encoder.take_frame_ok [OF enc rq dat len pw(1,3)] obtain rq' pk' where
    t: "take_frame E (RecvQ x) pk = Inr (rq', pk', True)" "packet_wf rq'" "packet_data rq' = tail"
      "BufferSize rq' = BufferSize (RecvQ x)" "packet_wf pk'" "packet_data pk' = pl"
      "BufferSize pk' = BufferSize pk" "RefCnt pk' = RefCnt pk" "SRWEncode pk' = SRWEncode pk"
    using pw(2) by auto
  let ?s2' = "set_session i (x\<lparr>RecvQ := rq'\<rparr>) ?s2" let ?s3 = "set_packet p pk' ?s2'"
  have rd: "read_data pool p = Some pk" using a(5) by (auto simp: get_packet_def split: option.splits)
  have g: "GetPacketMessage p i ?s2 = Inr (?s3, True)"
    using GetPacketMessage_ok [of i ?s2 p pk rq' pk'] li(1) rd t(1) E x by simp
  have good: "good_packet pk'" using a(6) t by (auto simp: cleared_def good_packet_def)
  have inv2: "refs_inv ?s2' ?U" using refs_inv_RecvQ [OF a(4), of i rq'] li(1) x by simp
  have gp2: "get_packet q ?s2' = get_packet q ?s2" for q by (simp add: get_packet_def)
  have gpp: "get_packet p ?s2' = Inr pk" using gp2 a(5) by simp
  have inv3: "refs_inv ?s3 ?U" using refs_inv_fill [OF inv2 _ gpp good t(8)] by simp
  have get3: "get_packet q ?s3 = (if q = p then Inr pk' else get_packet q ?s2)" for q
    using get_set_packet [OF inv2, of p q pk'] gp2 by simp
  let ?s3' = "AddRecvPacket tid ?s3"
  have inv3': "refs_inv ?s3' ?U" by (rule refs_inv_same [OF inv3]) simp_all
  have get3': "get_packet q ?s3' = get_packet q ?s3" for q by (simp add: get_packet_def)
  have arr3: "SessionArr ?s3' = (SessionArr s)[i := x\<lparr>RecvQ := rq'\<rparr>]" by (simp add: set_session_def)
  have live3: "live_id ?s3' sid" using live arr3 i li by (simp add: live_id_def)
  have enc3: "frame_encoder (Encoder ?s3') frame max_len" using enc E by simp
  have gp3: "get_packet p ?s3' = Inr pk'" using get3 get3' by simp
  have len3: "length (packet_data pk') \<le> max_len" "length (packet_data pk') \<le> max_message" using pl t(6) by (simp_all add: fits_def)
  from echo_OnRecv_ok [OF inv3' live3 enc3 new _ gp3 len3, of tid] obtain s4 q where
    s4: "echo_OnRecv new tid sid p ?s3' = Inr s4" "refs_inv s4 ?U" "?U q = 0" "session_refs ?s3' q = 0"
      "packet_bytes s4 q = frame (App ?s3' 0) (packet_data pk')" "keeps_bytes ?U ?s3' s4"
      "SessionArr s4 = (SessionArr ?s3')[FindSession sid :=
         (add_ref (SessionArr ?s3' ! FindSession sid))\<lparr>SendQ := SendQ (SessionArr ?s3' ! FindSession sid) @ [q]\<rparr>]"
      "Encoder s4 = Encoder ?s3'" "App s4 = (\<lambda>n. App ?s3' (Suc n))" by auto
  from held_free [OF s4(2), of p tid] obtain pl5 where
    f: "FreePacket tid p s4 = Inr (s4\<lparr>PacketPool := pl5\<rparr>)" "refs_inv (s4\<lparr>PacketPool := pl5\<rparr>) (?U(p := ?U p - 1))"
      "\<forall>r. packet_bytes (s4\<lparr>PacketPool := pl5\<rparr>) r = packet_bytes s4 r" by auto
  let ?s5 = "s4\<lparr>PacketPool := pl5\<rparr>"
  have U: "?U(p := ?U p - 1) = U" using a(2) by auto
  have x3: "SessionArr ?s3' ! i = x\<lparr>RecvQ := rq'\<rparr>" using li(1) arr3 by simp
  have "recv_loop (echo_env new tid) tid i s = recv_loop (echo_env new tid) tid i ?s5"
    using li x x3 s4(1) f(1) by (subst recv_loop.simps) (simp add: with_session_def complete a(1) g arr3)
  moreover have sr3: "session_refs ?s3' r = session_refs s r" for r
    using session_refs_set [OF li(1), of "x\<lparr>RecvQ := rq'\<rparr>" r] x arr3
    by (simp add: session_refs_def held_by_def set_session_def)
  moreover have "keeps_bytes U s ?s5"
    unfolding keeps_bytes_def
  proof (intro allI impI)
    fix r assume r: "0 < U r + session_refs s r"
    then have rp: "r \<noteq> p" using a(2,3) by auto
    have "packet_bytes s4 r = packet_bytes ?s3' r" using s4(6) [unfolded keeps_bytes_def, rule_format, of r] r rp sr3 [of r] by simp
    also have "\<dots> = packet_bytes s r" using get3 get3' rp a(7) [rule_format, OF r] by (simp add: packet_bytes_def)
    finally show "packet_bytes ?s5 r = packet_bytes s r" using f(3) by simp
  qed
  moreover have arr5: "SessionArr ?s5 ! i = (add_ref (x\<lparr>RecvQ := rq'\<rparr>))\<lparr>SendQ := SendQ x @ [q]\<rparr>"
    using s4(7) x3 li(1) arr3 i by simp
  moreover have "session_refs s r \<le> session_refs ?s5 r" for r
  proof -
    let ?y = "(add_ref (x\<lparr>RecvQ := rq'\<rparr>))\<lparr>SendQ := SendQ x @ [q]\<rparr>"
    have "session_refs ?s5 r = session_refs (set_session i ?y ?s3') r"
      using s4(7) x3 i by (simp add: session_refs_def set_session_def)
    moreover have "count_list (held_by x) r \<le> count_list (held_by ?y) r" by (simp add: held_by_def add_ref_def)
    ultimately show ?thesis using session_refs_set [of i ?s3' ?y r] sr3 [of r] x3 li(1) arr3
      by (simp add: held_by_def)
  qed
  moreover have "live_id ?s5 sid" using live3 s4(7) arr5 li i by (simp add: live_id_def arr3 add_ref_def)
  ultimately show ?thesis
    using s4(5,7-9) f(2,3) t(2-4,6) E arr3 unfolding U
    by (intro exI [of _ ?s5] exI [of _ q] exI [of _ rq']) (simp add: echoed_def add_ref_def)
qed

lemma held_in_queue:
  assumes "i < length (SessionArr s)" "q \<in> set (SendQ (SessionArr s ! i))"
  shows "0 < session_refs s q"
proof -
  have "0 < count_list (held_by (SessionArr s ! i)) q" using assms(2) by (auto simp: held_by_def count_list_0_iff intro!: gr0I)
  also have "\<dots> \<le> session_refs s q" using session_refs_ge [of "SessionArr s ! i" s q] assms(1) by simp
  finally show ?thesis .
qed

text \<open>From one state of the loop to the next: \<open>ms\<close> was echoed by the packets \<open>qs\<close>.\<close>

definition echo_step :: "(addr \<Rightarrow> nat) \<Rightarrow> nat \<Rightarrow> (int \<Rightarrow> byte list \<Rightarrow> byte list) \<Rightarrow> byte list list \<Rightarrow> echo_server \<Rightarrow> echo_server \<Rightarrow> bool" where
  "echo_step U i frame ms s s' \<longleftrightarrow> keeps_bytes U s s' \<and> (\<forall>r. session_refs s r \<le> session_refs s' r) \<and>
     length (SessionArr s') = length (SessionArr s) \<and> App s' = (\<lambda>n. App s (n + length ms)) \<and>
     (\<exists>qs rq. echoed rq qs (SessionArr s ! i) (SessionArr s' ! i) \<and> length qs = length ms \<and>
        map (packet_bytes s') qs = map2 frame (map (App s) [0..<length ms]) ms)"

lemma map_upt_shift: "map f [m..<m + n] = map (\<lambda>k. f (k + m)) [0..<n]"
  by (induction n) (simp_all add: add.commute)

lemma echo_step_refl: "echo_step U i frame [] s s"
  by (auto simp: echo_step_def keeps_bytes_def echoed_def)

lemma echo_step_trans:
  assumes "echo_step U i frame ms s s1" "echo_step U i frame ns s1 s2" "i < length (SessionArr s)"
  shows "echo_step U i frame (ms @ ns) s s2"
proof -
  from assms(1) obtain qs rq where 1: "echoed rq qs (SessionArr s ! i) (SessionArr s1 ! i)" "length qs = length ms"
    "map (packet_bytes s1) qs = map2 frame (map (App s) [0..<length ms]) ms" by (auto simp: echo_step_def)
  from assms(2) obtain qs' rq' where 2: "echoed rq' qs' (SessionArr s1 ! i) (SessionArr s2 ! i)" "length qs' = length ns"
    "map (packet_bytes s2) qs' = map2 frame (map (App s1) [0..<length ns]) ns" by (auto simp: echo_step_def)
  have i1: "i < length (SessionArr s1)" using assms(1,3) by (simp add: echo_step_def)
  have "packet_bytes s2 q = packet_bytes s1 q" if "q \<in> set qs" for q
  proof -
    have "q \<in> set (SendQ (SessionArr s1 ! i))" using 1(1) that by (simp add: echoed_def)
    from held_in_queue [OF i1 this] assms(2) show ?thesis by (simp add: echo_step_def keeps_bytes_def)
  qed
  then have first: "map (packet_bytes s2) qs = map2 frame (map (App s) [0..<length ms]) ms" using 1(3) by (simp cong: map_cong)
  have rands: "map (App s1) [0..<length ns] = map (App s) [length ms..<length ms + length ns]"
  proof -
    have "App s1 = (\<lambda>n. App s (n + length ms))" using assms(1) by (simp add: echo_step_def)
    then show ?thesis by (simp add: map_upt_shift)
  qed
  have split: "[0..<length (ms @ ns)] = [0..<length ms] @ [length ms..<length ms + length ns]"
    using upt_add_eq_append [of 0 "length ms" "length ns"] by simp
  have "map (packet_bytes s2) (qs @ qs') = map2 frame (map (App s) [0..<length (ms @ ns)]) (ms @ ns)"
    unfolding split map_append first 2(3) rands by simp
  moreover have "keeps_bytes U s s2"
    unfolding keeps_bytes_def
  proof (intro allI impI)
    fix q assume q: "0 < U q + session_refs s q"
    moreover have "session_refs s q \<le> session_refs s1 q" using assms(1) by (simp add: echo_step_def)
    ultimately have "0 < U q + session_refs s1 q" by linarith
    with q assms(1,2) show "packet_bytes s2 q = packet_bytes s q" unfolding echo_step_def keeps_bytes_def by metis
  qed
  moreover have "session_refs s r \<le> session_refs s2 r" for r
    using assms(1,2) unfolding echo_step_def by (meson order_trans)
  moreover have "echoed rq' (qs @ qs') (SessionArr s ! i) (SessionArr s2 ! i)" using 1(1) 2(1) by (simp add: echoed_def)
  ultimately show ?thesis using assms(1,2) 1(2) 2(2) unfolding echo_step_def
    by (intro conjI exI [of _ "qs @ qs'"] exI [of _ rq']) (auto simp: ac_simps)
qed

lemma echo_loop:
  assumes "0 < GetHeaderSize E" "frame_encoder E frame max_len" "fresh_packet new" "i = FindSession sid"
    and "refs_inv s U" "live_id s sid" "Encoder s = E" "packet_wf (RecvQ (SessionArr s ! i))"
    and "packet_data (RecvQ (SessionArr s ! i)) = concat (map2 frame rs ms) @ rest"
    and "length rs = length ms" "\<forall>m \<in> set ms. fits max_len m \<and> m \<noteq> []" "incomplete frame (GetHeaderSize E) max_len rest"
  shows "\<exists>s'. recv_loop (echo_env new tid) tid i s = Some (Inr s') \<and> refs_inv s' U \<and> live_id s' sid \<and> Encoder s' = E \<and>
     packet_wf (RecvQ (SessionArr s' ! i)) \<and> packet_data (RecvQ (SessionArr s' ! i)) = rest \<and>
     BufferSize (RecvQ (SessionArr s' ! i)) = BufferSize (RecvQ (SessionArr s ! i)) \<and> echo_step U i frame ms s s'"
  using assms(5-)
proof (induction ms arbitrary: s rs)
  case Nil
  then have "CheckPacketMessageComplete (echo_env new tid) tid (SessionID (SessionArr s ! i)) i s = Inr (s, False)"
    using frame_encoder.check_frame_incomplete [OF assms(2), of "RecvQ (SessionArr s ! i)"] assms(4)
    by (simp add: CheckPacketMessageComplete_frame with_session_def live_id_def)
  then have "recv_loop (echo_env new tid) tid i s = Some (Inr s)"
    using Nil.prems(2) assms(4) by (subst recv_loop.simps) (simp add: with_session_def live_id_def)
  then show ?case using Nil.prems echo_step_refl by auto
next
  case (Cons m ms)
  obtain r rs' where rs: "rs = r # rs'" using Cons.prems(6) by (cases rs) auto
  let ?tail = "concat (map2 frame rs' ms) @ rest"
  have dat: "packet_data (RecvQ (SessionArr s ! i)) = frame r m @ ?tail" using Cons.prems(5) rs by simp
  have m: "fits max_len m" "m \<noteq> [] \<or> ?tail \<noteq> []" using Cons.prems(7) by simp_all
  from echo_round [OF Cons.prems(1-3) assms(2,3,4) refl Cons.prems(4) dat m, of tid] obtain s1 q rq where
    s1: "recv_loop (echo_env new tid) tid i s = recv_loop (echo_env new tid) tid i s1" "refs_inv s1 U" "live_id s1 sid"
      "Encoder s1 = E" "length (SessionArr s1) = length (SessionArr s)" "echoed rq [q] (SessionArr s ! i) (SessionArr s1 ! i)"
      "packet_wf rq" "packet_data rq = ?tail" "BufferSize rq = BufferSize (RecvQ (SessionArr s ! i))"
      "packet_bytes s1 q = frame (App s 0) m" "keeps_bytes U s s1" "App s1 = (\<lambda>n. App s (Suc n))"
      "\<forall>r. session_refs s r \<le> session_refs s1 r" by blast
  have q1: "RecvQ (SessionArr s1 ! i) = rq" using s1(6) by (simp add: echoed_def)
  have one: "echo_step U i frame [m] s s1"
    unfolding echo_step_def using s1(5,6,10-13) by (intro conjI exI [of _ "[q]"] exI [of _ rq]) simp_all
  from Cons.IH [OF s1(2-4)] Cons.prems(6-8) s1(7,8) rs q1 obtain s2 where
    s2: "recv_loop (echo_env new tid) tid i s1 = Some (Inr s2)" "refs_inv s2 U" "live_id s2 sid" "Encoder s2 = E"
     "packet_wf (RecvQ (SessionArr s2 ! i))" "packet_data (RecvQ (SessionArr s2 ! i)) = rest"
     "BufferSize (RecvQ (SessionArr s2 ! i)) = BufferSize (RecvQ (SessionArr s1 ! i))" "echo_step U i frame ms s1 s2" by auto
  have "i < length (SessionArr s)" using Cons.prems(2) assms(4) by (simp add: live_id_def)
  from echo_step_trans [OF one s2(8) this] s1(1,9) s2 q1 show ?case by auto
qed

subsection \<open>Pieces of the stream\<close>

text \<open>Before and after the loop only the receive packet and the reference count of the session change.\<close>

definition rx_only :: "nat \<Rightarrow> 'u server \<Rightarrow> 'u server \<Rightarrow> bool" where
  "rx_only i s s' \<longleftrightarrow> PacketPool s' = PacketPool s \<and> FreeSessionStack s' = FreeSessionStack s \<and> App s' = App s \<and>
     Encoder s' = Encoder s \<and> i < length (SessionArr s) \<and>
     (\<exists>rq n. SessionArr s' = (SessionArr s)[i := (SessionArr s ! i)\<lparr>RecvQ := rq, SessionRef := n\<rparr>])"

lemma rx_only_held:
  assumes "rx_only i s s'" "refs_inv s U" "live_id s sid"
  shows "refs_inv s' U" "live_id s' sid" "echo_step U i frame [] s s'" "PacketPool s' = PacketPool s"
proof -
  let ?x = "SessionArr s ! i"
  from assms(1) obtain rq n where arr: "SessionArr s' = (SessionArr s)[i := ?x\<lparr>RecvQ := rq, SessionRef := n\<rparr>]"
    and i: "i < length (SessionArr s)" and same: "PacketPool s' = PacketPool s" "FreeSessionStack s' = FreeSessionStack s"
      "App s' = App s" by (auto simp: rx_only_def)
  show "refs_inv s' U"
    using assms(2) refs_inv_nth [OF assms(2) i] i same
    by (intro refs_inv_quiet [OF assms(2) i _ _ _ arr]) (auto simp: session_ok_def held_by_def refs_inv_def free_stack_ok_def)
  show "live_id s' sid" using assms(3) i by (cases "i = FindSession sid") (simp_all add: live_id_def arr)
  have "session_refs s' r = session_refs s r" for r
    using session_refs_set [OF i, of "?x\<lparr>RecvQ := rq, SessionRef := n\<rparr>" r] arr
    by (simp add: session_refs_def held_by_def set_session_def)
  moreover have "packet_bytes s' = packet_bytes s" using same(1) by (simp add: packet_bytes_def get_packet_def fun_eq_iff)
  ultimately show "echo_step U i frame [] s s'"
    using i same(3) by (auto simp: echo_step_def keeps_bytes_def echoed_def arr)
  show "PacketPool s' = PacketPool s" by (rule same(1))
qed

lemma AddRecvBytes_more [simp]: "FreeSessionStack (AddRecvBytes tid n s) = FreeSessionStack s"
  by (simp add: AddRecvBytes_def GetThreadTransmitArr_def set_arr_def split: option.splits)

lemma recv_begin_rx:
  assumes "kernel_write i c s = Inr s1" "recv_begin tid n i s1 = Inr s2"
  shows "rx_only i s s2"
proof -
  let ?x = "SessionArr s ! i"
  from assms(1) obtain b where i: "i < length (SessionArr s)" and s1: "s1 = set_session i (?x\<lparr>RecvQ := (RecvQ ?x)\<lparr>Buffer := b\<rparr>\<rparr>) s"
    by (auto simp: kernel_write_def with_session_def ebind_eq_Inr split: if_splits)
  from assms(2) i s1 obtain rq where "s2 = set_session i (?x\<lparr>RecvQ := rq\<rparr>) (AddRecvBytes tid n s1)"
    by (auto simp: recv_begin_def with_session_def ebind_eq_Inr split: if_splits)
  then show ?thesis using i s1
    by (auto simp: rx_only_def set_session_def intro!: exI [of _ rq] exI [of _ "SessionRef ?x"])
qed

lemma recv_end_rx:
  assumes "recv_end i rv s = Inr s'"
  shows "rx_only i s s'"
proof -
  let ?x = "SessionArr s ! i"
  from assms obtain rq b where i: "i < length (SessionArr s)" and r: "RecvPost i rv (set_session i (?x\<lparr>RecvQ := rq\<rparr>) s) = Inr (s', b)"
    by (auto simp: recv_end_def with_session_def ebind_eq_Inr split: if_splits)
  have "\<exists>n. SessionArr s' = (SessionArr s)[i := ?x\<lparr>RecvQ := rq, SessionRef := n\<rparr>]" "PacketPool s' = PacketPool s"
    "FreeSessionStack s' = FreeSessionStack s" "App s' = App s" "Encoder s' = Encoder s"
    using r i by (auto simp: RecvPost_def with_session_def Let_def cancel_if_unused_def log_io_def set_session_def add_ref_def
      sub_ref_def DecrementSessionRef_def ebind_eq_Inr split: if_splits option.splits intro: exI [of _ "SessionRef ?x"])
  with i show ?thesis unfolding rx_only_def by blast
qed

lemma echo_chunk:
  assumes hdr: "0 < GetHeaderSize E" and enc: "frame_encoder E frame max_len" and new: "fresh_packet new" and i: "i = FindSession sid"
    and rx: "rx_inv E i d s" and inv: "refs_inv s U" and live: "live_id s sid" and len: "length c \<le> recv_room (length d)"
    and dc: "d @ c = concat (map2 frame rs ms) @ rest" "length rs = length ms" "\<forall>m \<in> set ms. fits max_len m \<and> m \<noteq> []"
      "incomplete frame (GetHeaderSize E) max_len rest"
  shows "\<exists>s'. recv_chunk (echo_env new tid) tid i c s = Some (Inr s') \<and> rx_inv E i rest s' \<and> refs_inv s' U \<and> live_id s' sid \<and>
     echo_step U i frame ms s s'"
proof -
  from recv_begin_ok [OF rx len, of tid] obtain s1 s2 where b: "kernel_write i c s = Inr s1"
    "recv_begin tid (of_nat (length c)) i s1 = Inr s2" "Encoder s2 = E" "packet_wf (RecvQ (SessionArr s2 ! i))"
    "packet_data (RecvQ (SessionArr s2 ! i)) = d @ c" "BufferSize (RecvQ (SessionArr s2 ! i)) = 4096" by blast
  note h2 = rx_only_held [OF recv_begin_rx [OF b(1,2)] inv live]
  from echo_loop [OF hdr enc new i h2(1,2) b(3,4) b(5) [unfolded dc(1)] dc(2-4), of tid] obtain s3 where
    s3: "recv_loop (echo_env new tid) tid i s2 = Some (Inr s3)" "refs_inv s3 U" "live_id s3 sid" "Encoder s3 = E"
     "packet_wf (RecvQ (SessionArr s3 ! i))" "packet_data (RecvQ (SessionArr s3 ! i)) = rest"
     "BufferSize (RecvQ (SessionArr s3 ! i)) = 4096" "echo_step U i frame ms s2 s3" using b(6) by auto
  have i0: "i < length (SessionArr s)" using rx by (simp add: rx_inv_def)
  have i3: "i < length (SessionArr s3)" using s3(3) i by (simp add: live_id_def)
  have "pool_pkts (PacketPool s3) {p. 0 < U p + session_refs s3 p}" using s3(2) by (simp add: refs_inv_def packet_refs_def)
  from recv_end_ok [OF s3(4) this i3 s3(5,7)] obtain s4 where s4: "recv_end i None s3 = Inr s4" "rx_inv E i rest s4"
    using s3(6) by auto
  note h4 = rx_only_held [OF recv_end_rx [OF s4(1)] s3(2,3)]
  from echo_step_trans [OF echo_step_trans [OF h2(3) s3(8) i0] h4(3) i0] have "echo_step U i frame ms s s4" by simp
  with b(1,2) s3(1) s4 h4(1,2) show ?thesis by (auto simp: recv_chunk_def on_recv_complete_def)
qed

lemma echo_chunks:
  assumes "0 < GetHeaderSize E" "frame_encoder E frame max_len" "fresh_packet new" "i = FindSession sid"
    and "rx_inv E i d s" "refs_inv s U" "live_id s sid" "in_windows (frame_sizes E ms) (length d) cs"
    and "d @ concat cs = concat (map2 frame rs ms)" "length rs = length ms"
    and "\<forall>m \<in> set ms. fits max_len m \<and> m \<noteq> []" "incomplete frame (GetHeaderSize E) max_len d"
  shows "\<exists>s'. recv_chunks (echo_env new tid) tid i cs s = Some (Inr s') \<and> rx_inv E i [] s' \<and> refs_inv s' U \<and> live_id s' sid \<and>
     echo_step U i frame ms s s'"
  using assms(5-)
proof (induction cs arbitrary: d s rs ms)
  case Nil
  have ms: "message_server recording_app (\<lambda>sid m log. log @ [(sid, m)]) (\<lambda>m. True) E frame max_len"
    using recording.message_app_axioms assms(2) by (rule message_server.intro)
  show ?case
  proof (cases ms)
    case Nil
    with Nil.prems show ?thesis using echo_step_refl by auto
  next
    case more: (Cons m ms')
    with Nil.prems(6) obtain r rs' where "rs = r # rs'" by (cases rs) auto
    with more Nil.prems(5) have "packet_data (RecvQ (SessionArr s ! i)) = frame r m @ concat (map2 frame rs' ms')"
      using Nil.prems(1) by (simp add: rx_inv_def)
    from message_server.incomplete_no_frame [OF ms _ this] Nil.prems(1,7,8) more show ?thesis by (auto simp: rx_inv_def fits_def)
  qed
next
  case (Cons c cs)
  have srv: "message_server recording_app (\<lambda>sid m log. log @ [(sid, m)]) (\<lambda>m. True) E frame max_len"
    using recording.message_app_axioms assms(2) by (rule message_server.intro)
  have "(d @ c) @ concat cs = concat (map2 frame rs ms)" "\<forall>m \<in> set ms. fits max_len m"
    using Cons.prems(5,7) by auto
  from message_server.prefix_split [OF srv this(1) Cons.prems(6) this(2)] obtain k rest where
    k: "d @ c = concat (map2 frame (take k rs) (take k ms)) @ rest"
      "rest @ concat cs = concat (map2 frame (drop k rs) (drop k ms))"
      "incomplete frame (GetHeaderSize E) max_len rest"
      "drop k ms \<noteq> [] \<longrightarrow> length rest < GetHeaderSize E + length (hd (drop k ms))" by blast
  have hs: "length c \<le> recv_room (length d)" using Cons.prems(4) by simp
  have sub: "\<forall>m \<in> set (take k ms). fits max_len m \<and> m \<noteq> []" "\<forall>m \<in> set (drop k ms). fits max_len m \<and> m \<noteq> []"
    using Cons.prems(7) by (auto dest: in_set_takeD in_set_dropD)
  have lm: "length (take k rs) = length (take k ms)" "length (drop k rs) = length (drop k ms)" using Cons.prems(6) by simp_all
  from echo_chunk [OF assms(1-4) Cons.prems(1-3) hs k(1) lm(1) sub(1) k(3), of tid] obtain s1 where
    s1: "recv_chunk (echo_env new tid) tid i c s = Some (Inr s1)" "rx_inv E i rest s1" "refs_inv s1 U" "live_id s1 sid"
      "echo_step U i frame (take k ms) s s1" by blast
  from message_server.in_windows_next [OF srv Cons.prems(4) k(1) lm(1) k(4)]
  have "in_windows (frame_sizes E (drop k ms)) (length rest) cs" .
  from Cons.IH [OF s1(2-4) this k(2) lm(2) sub(2) k(3)] obtain s2 where
    s2: "recv_chunks (echo_env new tid) tid i cs s1 = Some (Inr s2)" "rx_inv E i [] s2" "refs_inv s2 U" "live_id s2 sid"
      "echo_step U i frame (drop k ms) s1 s2" by blast
  have "i < length (SessionArr s)" using Cons.prems(1) by (simp add: rx_inv_def)
  from echo_step_trans [OF s1(5) s2(5) this] s1(1) s2 show ?case by auto
qed

end
