(* ===== verification/LoadClient.thy ===== *)
theory LoadClient
  imports ClientFraming ClientConnect
begin

text \<open>
  The load client of the benchmark (Examples/TestClient/main.cpp): the callbacks on top of \<open>NetClient\<close>, the
  sender thread and the initial connections. Results of \<open>rand\<close>, of the clock and of the socket calls are arguments.
\<close>

subsection \<open>The load client\<close>

record client_slot =
  currentSessionID :: u64
  disconnected :: bool
  nextSendTime :: u32
  lifetimeEnd :: u32
  reconnectAt :: u32

text \<open>\<open>N\<close> is the length of \<open>States\<close>: both are set together before the first connection.\<close>

record test_client =
  States :: "client_slot list"
  ConnectCnt :: u64
  DisconnectCnt :: u64
  RecvCnt :: u64
  VerifiedCnt :: u64

definition kTestEcho :: u16 where "kTestEcho = 1"

definition new_slot :: client_slot where
  "new_slot = \<lparr>currentSessionID = 0, disconnected = False, nextSendTime = 0, lifetimeEnd = 0, reconnectAt = 0\<rparr>"

definition upd_client :: "(test_client \<Rightarrow> test_client) \<Rightarrow> test_client client \<Rightarrow> test_client client" where
  "upd_client f c = NetClient.client.App_update (\<lambda>_. f (NetClient.client.App c)) c"

fun mark_slot :: "u64 \<Rightarrow> client_slot list \<Rightarrow> client_slot list" where
  "mark_slot sessionID [] = []"
| "mark_slot sessionID (s # ss) =
     (if currentSessionID s = sessionID then s\<lparr>disconnected := True\<rparr> # ss else s # mark_slot sessionID ss)"

definition test_OnConnect :: "u64 \<Rightarrow> test_client client \<Rightarrow> fault + test_client client" where
  "test_OnConnect sessionID c = Inr (upd_client (\<lambda>a. a\<lparr>ConnectCnt := ConnectCnt a + 1\<rparr>) c)"

definition test_OnDisconnect :: "u64 \<Rightarrow> test_client client \<Rightarrow> fault + test_client client" where
  "test_OnDisconnect sessionID c =
     Inr (upd_client (\<lambda>a. a\<lparr>DisconnectCnt := DisconnectCnt a + 1, States := mark_slot sessionID (States a)\<rparr>) c)"

definition test_OnRecv :: "u64 \<Rightarrow> addr \<Rightarrow> test_client client \<Rightarrow> fault + test_client client" where
  "test_OnRecv sessionID p c =
     (let c1 = upd_client (\<lambda>a. a\<lparr>RecvCnt := RecvCnt a + 1\<rparr>) c
      in ebind (NetClient.get_packet p c1) (\<lambda>pk.
         ebind (get_ushort pk) (\<lambda>(pk', type).
           let c2 = NetClient.set_packet p pk' c1
           in if type = kTestEcho then Inr (upd_client (\<lambda>a. a\<lparr>VerifiedCnt := VerifiedCnt a + 1\<rparr>) c2)
              else Inl Crashed)))"

definition test_env :: "packet \<Rightarrow> test_client NetClient.env" where
  "test_env new =
     \<lparr>NetClient.env.NewPacket = new, OnConnect = test_OnConnect, OnDisconnect = test_OnDisconnect, OnRecv = test_OnRecv\<rparr>"

text \<open>\<open>min + (rand() % (max - min + 1))\<close> in DWORDs.\<close>

definition RandomBetween :: "int \<Rightarrow> u32 \<Rightarrow> u32 \<Rightarrow> fault + u32" where
  "RandomBetween r lo hi =
     (if hi \<le> lo then Inr lo
      else if hi - lo + 1 = 0 then Inl DivideByZero
      else Inr (lo + word_of_int r mod (hi - lo + 1)))"

subsection \<open>The sender thread\<close>

record sender_ctx =
  serverPort :: int
  mode :: int
  intervalMin :: u32
  intervalMax :: u32
  lifetimeMin :: u32
  lifetimeMax :: u32
  reconnectMin :: u32
  reconnectMax :: u32

text \<open>What the system answers while one slot is served.\<close>

record slot_io =
  connect_io :: connect_calls
  recv_io :: "int option"
  rand_a :: int
  rand_b :: int
  rand_payload :: int
  rand_encode :: int

definition with_slot :: "nat \<Rightarrow> test_client client \<Rightarrow> (client_slot \<Rightarrow> fault + 'b) \<Rightarrow> fault + 'b" where
  "with_slot i c k = (if i < length (States (NetClient.client.App c)) then k (States (NetClient.client.App c) ! i) else Inl OutOfBounds)"

definition upd_slot :: "nat \<Rightarrow> (client_slot \<Rightarrow> client_slot) \<Rightarrow> test_client client \<Rightarrow> test_client client" where
  "upd_slot i f c = upd_client (\<lambda>a. a\<lparr>States := (States a)[i := f (States a ! i)]\<rparr>) c"

definition slot_reconnect ::
  "packet \<Rightarrow> nat \<Rightarrow> sender_ctx \<Rightarrow> u32 \<Rightarrow> slot_io \<Rightarrow> nat \<Rightarrow> test_client client \<Rightarrow> fault + test_client client" where
  "slot_reconnect new tid ctx curTick io i c =
     ebind (Connect (test_env new) tid (connect_io io) (word_of_int (serverPort ctx)) (recv_io io) c) (\<lambda>(c1, newSid).
       if newSid \<noteq> 0 then
         ebind (RandomBetween (rand_a io) (intervalMin ctx) (intervalMax ctx)) (\<lambda>a.
         ebind (RandomBetween (rand_b io) (lifetimeMin ctx) (lifetimeMax ctx)) (\<lambda>b.
           Inr (upd_slot i (\<lambda>s. s\<lparr>currentSessionID := newSid, disconnected := False, nextSendTime := curTick + a,
             lifetimeEnd := curTick + b\<rparr>) c1)))
       else Inr c1)"

definition slot_send ::
  "packet \<Rightarrow> nat \<Rightarrow> sender_ctx \<Rightarrow> u32 \<Rightarrow> slot_io \<Rightarrow> nat \<Rightarrow> u64 \<Rightarrow> test_client client \<Rightarrow> fault + test_client client" where
  "slot_send new tid ctx curTick io i sid c =
     ebind (NetClient.AllocPacket (test_env new) tid c) (\<lambda>(c1, p).
     ebind (NetClient.get_packet p c1) (\<lambda>pk.
     ebind (put_ushort pk kTestEcho) (\<lambda>pk1.
     ebind (put_int pk1 (word_of_int (rand_payload io))) (\<lambda>pk2.
     ebind (NetClient.SendPacket sid (rand_encode io) p (NetClient.set_packet p pk2 c1)) (\<lambda>c2.
     ebind (NetClient.FreePacket tid p c2) (\<lambda>c3.
     ebind (RandomBetween (rand_a io) (intervalMin ctx) (intervalMax ctx)) (\<lambda>a.
       Inr (upd_slot i (\<lambda>s. s\<lparr>nextSendTime := curTick + a\<rparr>) c3))))))))"

definition sender_slot ::
  "packet \<Rightarrow> nat \<Rightarrow> sender_ctx \<Rightarrow> u32 \<Rightarrow> slot_io \<Rightarrow> nat \<Rightarrow> test_client client \<Rightarrow> fault + test_client client" where
  "sender_slot new tid ctx curTick io i c =
     with_slot i c (\<lambda>s.
       if currentSessionID s = 0 \<or> disconnected s then
         (if mode ctx = 2 \<and> reconnectAt s \<le> curTick then slot_reconnect new tid ctx curTick io i c else Inr c)
       else if mode ctx = 2 \<and> lifetimeEnd s \<le> curTick then
         ebind (Disconnect (test_env new) tid (currentSessionID s) c) (\<lambda>c1.
         ebind (RandomBetween (rand_a io) (reconnectMin ctx) (reconnectMax ctx)) (\<lambda>a.
           Inr (upd_slot i (\<lambda>s. s\<lparr>reconnectAt := curTick + a\<rparr>) c1)))
       else if nextSendTime s \<le> curTick then slot_send new tid ctx curTick io i (currentSessionID s) c
       else Inr c)"

text \<open>One turn of the thread over all slots, and the turns until the shutdown event; between two turns the
  other threads work on the client (\<open>others\<close>).\<close>

fun sender_slots ::
  "packet \<Rightarrow> nat \<Rightarrow> sender_ctx \<Rightarrow> u32 \<Rightarrow> (nat \<Rightarrow> slot_io) \<Rightarrow> nat list \<Rightarrow> test_client client \<Rightarrow> fault + test_client client" where
  "sender_slots new tid ctx curTick ios [] c = Inr c"
| "sender_slots new tid ctx curTick ios (i # is) c =
     ebind (sender_slot new tid ctx curTick (ios i) i c) (sender_slots new tid ctx curTick ios is)"

definition sender_turn ::
  "packet \<Rightarrow> nat \<Rightarrow> sender_ctx \<Rightarrow> u32 \<Rightarrow> (nat \<Rightarrow> slot_io) \<Rightarrow> test_client client \<Rightarrow> fault + test_client client" where
  "sender_turn new tid ctx curTick ios c =
     sender_slots new tid ctx curTick ios [0..<length (States (NetClient.client.App c))] c"

text \<open>The connections made by the main thread before; true is \<open>validity\<close> still \<open>OK\<close>.\<close>

fun connect_slots ::
  "packet \<Rightarrow> nat \<Rightarrow> int \<Rightarrow> int \<Rightarrow> u32 \<Rightarrow> u32 \<Rightarrow> u32 \<Rightarrow> (nat \<Rightarrow> slot_io) \<Rightarrow> nat \<Rightarrow> nat \<Rightarrow> test_client client
     \<Rightarrow> fault + test_client client \<times> bool" where
  "connect_slots new tid port md startTick lmin lmax ios 0 i c = Inr (c, True)"
| "connect_slots new tid port md startTick lmin lmax ios (Suc n) i c =
     ebind (Connect (test_env new) tid (connect_io (ios i)) (word_of_int port) (recv_io (ios i)) c) (\<lambda>(c1, sid).
       if sid = 0 then Inr (c1, i \<noteq> 0)
       else
         ebind (if md = 2 then ebind (RandomBetween (rand_a (ios i)) lmin lmax) (\<lambda>a. Inr (startTick + a)) else Inr 0) (\<lambda>l.
         with_slot i c1 (\<lambda>_.
           connect_slots new tid port md startTick lmin lmax ios n (Suc i)
             (upd_slot i (\<lambda>s. s\<lparr>currentSessionID := sid, nextSendTime := startTick, lifetimeEnd := l, reconnectAt := startTick\<rparr>) c1))))"

subsection \<open>The callbacks keep the contract of the client\<close>

text \<open>Messages that begin with \<open>kTestEcho\<close> are counted and verified.\<close>

definition echo_message :: "byte list \<Rightarrow> bool" where
  "echo_message m \<longleftrightarrow> take 2 m = le_bytes 2 kTestEcho"

definition count_echo :: "u64 \<Rightarrow> byte list \<Rightarrow> test_client \<Rightarrow> test_client" where
  "count_echo sid m a = a\<lparr>RecvCnt := RecvCnt a + 1, VerifiedCnt := VerifiedCnt a + 1\<rparr>"

lemma upd_client_fields [simp]:
  "NetClient.client.App (upd_client f c) = f (NetClient.client.App c)"
  "NetClient.client.PacketPool (upd_client f c) = NetClient.client.PacketPool c"
  "NetClient.client.SessionArr (upd_client f c) = NetClient.client.SessionArr c"
  "NetClient.client.Encoder (upd_client f c) = NetClient.client.Encoder c"
  "NetClient.client.Io (upd_client f c) = NetClient.client.Io c"
  "NetClient.client.Posted (upd_client f c) = NetClient.client.Posted c"
  by (simp_all add: upd_client_def)

lemma echo_type:
  assumes "packet_wf pk" "echo_message (packet_data pk)"
  shows "\<exists>pk'. get_ushort pk = Inr (pk', kTestEcho) \<and> packet_wf pk' \<and> BufferSize pk' = BufferSize pk \<and>
     RefCnt pk' = RefCnt pk \<and> SRWEncode pk' = SRWEncode pk"
proof -
  have "packet_data pk = le_bytes 2 kTestEcho @ drop 2 (packet_data pk)"
    using assms(2) append_take_drop_id [of 2 "packet_data pk"] by (simp add: echo_message_def)
  from get_word_ok [OF assms(1) this] show ?thesis by (auto simp: get_ushort_def)
qed

interpretation load_client: client_app "test_env (Packet_ctor kBufferDefault fill)" count_echo echo_message for fill
proof
  show "fresh_packet (NetClient.env.NewPacket (test_env (Packet_ctor kBufferDefault fill)))"
    by (simp add: test_env_def fresh_packet_ctor)
next
  fix c :: "test_client client" and P p pk sid
  assume a: "pool_pkts (NetClient.client.PacketPool c) P" "p \<in> P" "read_data (NetClient.client.PacketPool c) p = Some pk"
    "echo_message (packet_data pk)"
  have g: "good_packet pk" "RefCnt pk \<noteq> 0" using pool_pkts_read [OF a(1,2)] a(3) by auto
  then obtain pk' where t: "get_ushort pk = Inr (pk', kTestEcho)" "packet_wf pk'" "BufferSize pk' = BufferSize pk"
     "RefCnt pk' = RefCnt pk" "SRWEncode pk' = SRWEncode pk" using echo_type [OF _ a(4)] by (auto simp: good_packet_def)
  have "pool_pkts (write_data p pk' (NetClient.client.PacketPool c)) P"
    using pool_pkts_write [OF a(1,2), of pk'] t g by (simp add: good_packet_def)
  then show "\<exists>c' P'. NetClient.env.OnRecv (test_env (Packet_ctor kBufferDefault fill)) sid p c = Inr c' \<and> client_keeps_recv c c' \<and>
      NetClient.client.App c' = count_echo sid (packet_data pk) (NetClient.client.App c) \<and>
      pool_pkts (NetClient.client.PacketPool c') P' \<and> p \<in> P'"
    using a(2,3) t(1)
    by (auto simp: test_env_def test_OnRecv_def NetClient.get_packet_def NetClient.set_packet_def client_keeps_recv_def
      keeps_recv_def to_server_def count_echo_def)
qed

lemma test_calls: "app_calls (test_env new) (\<lambda>sid c. (NetClient.client.App c)\<lparr>ConnectCnt := ConnectCnt (NetClient.client.App c) + 1\<rparr>)
   (\<lambda>sid c. (NetClient.client.App c)\<lparr>DisconnectCnt := DisconnectCnt (NetClient.client.App c) + 1,
      States := mark_slot sid (States (NetClient.client.App c))\<rparr>)"
  by (simp add: app_calls_def test_env_def test_OnConnect_def test_OnDisconnect_def upd_client_def)

subsection \<open>A slot whose session is gone\<close>

lemma client_alloc:
  assumes "pool_pkts (NetClient.client.PacketPool c) P" "fresh_packet (NetClient.env.NewPacket env)"
  shows "\<exists>pl p pk. NetClient.AllocPacket env tid c = Inr (NetClient.client.PacketPool_update (\<lambda>_. pl) c, p) \<and>
     pool_pkts pl (insert p P) \<and> read_data pl p = Some pk \<and> cleared pk"
proof -
  have "pool_pkts (NetServer.server.PacketPool (to_server c)) P" "fresh_packet (NetServer.env.NewPacket (lift_env env))"
    using assms by (simp_all add: tr)
  from AllocPacket_spec [OF this, of tid] obtain pl p pk where
    a: "NetServer.AllocPacket (lift_env env) tid (to_server c) = Inr (NetServer.server.PacketPool_update (\<lambda>_. pl) (to_server c), p)"
      "pool_pkts pl (insert p P)" "read_data pl p = Some pk" "cleared pk" by auto
  have "NetServer.server.PacketPool_update (\<lambda>_. pl) (to_server c) = to_server (NetClient.client.PacketPool_update (\<lambda>_. pl) c)"
    by (simp add: to_server_def)
  with a(1) have "lift2 (NetClient.AllocPacket env tid c) = Inr (to_server (NetClient.client.PacketPool_update (\<lambda>_. pl) c), p)"
    by (simp add: AllocPacket_tr)
  then have "NetClient.AllocPacket env tid c = Inr (NetClient.client.PacketPool_update (\<lambda>_. pl) c, p)"
    by (cases "NetClient.AllocPacket env tid c") (auto, metis of_to_server)
  with a(2-4) show ?thesis by blast
qed

lemma client_free:
  assumes "pool_pkts (NetClient.client.PacketPool c) P" "p \<in> P" "read_data (NetClient.client.PacketPool c) p = Some pk"
  shows "\<exists>pl P'. NetClient.FreePacket tid p c = Inr (NetClient.client.PacketPool_update (\<lambda>_. pl) c) \<and> pool_pkts pl P'"
proof -
  have "pool_pkts (NetServer.server.PacketPool (to_server c)) P" "read_data (NetServer.server.PacketPool (to_server c)) p = Some pk"
    using assms by (simp_all add: tr)
  from FreePacket_spec [OF this(1) assms(2) this(2), of tid] obtain pl P' where
    a: "NetServer.FreePacket tid p (to_server c) = Inr (NetServer.server.PacketPool_update (\<lambda>_. pl) (to_server c))" "pool_pkts pl P'" by auto
  have "NetServer.server.PacketPool_update (\<lambda>_. pl) (to_server c) = to_server (NetClient.client.PacketPool_update (\<lambda>_. pl) c)"
    by (simp add: to_server_def)
  with a(1) have "lift (NetClient.FreePacket tid p c) = Inr (to_server (NetClient.client.PacketPool_update (\<lambda>_. pl) c))"
    by (simp add: FreePacket_tr)
  then have "NetClient.FreePacket tid p c = Inr (NetClient.client.PacketPool_update (\<lambda>_. pl) c)"
    by (cases "NetClient.FreePacket tid p c") (auto, metis of_to_server)
  with a(2) show ?thesis by blast
qed

text \<open>No session has the identifier any more: the operations on it do nothing.\<close>

definition dead_id :: "'u client \<Rightarrow> u64 \<Rightarrow> bool" where
  "dead_id c sid \<longleftrightarrow> NetClient.FindSession sid < length (NetClient.client.SessionArr c) \<and>
     (let x = NetClient.client.SessionArr c ! NetClient.FindSession sid
      in NetClient.session.ReleaseFlag x \<or> NetClient.session.SessionID x \<noteq> sid)"

lemma dead_id_ignored:
  assumes "dead_id c sid"
  shows "NetClient.SendPacket sid rnd p c = Inr c" "NetClient.Disconnect env tid sid c = Inr c"
proof -
  have same: "NetClient.set_session i (NetClient.client.SessionArr c ! i) c = c" for i
    by (simp add: NetClient.set_session_def)
  show "NetClient.SendPacket sid rnd p c = Inr c" "NetClient.Disconnect env tid sid c = Inr c"
    using assms same
    by (auto simp: dead_id_def Let_def NetClient.SendPacket_def NetClient.Disconnect_def NetClient.KillSession_def
      NetClient.IncrementSessionRef_def NetClient.DecrementSessionRef_def NetClient.with_session_def NetClient.set_session_def
      NetClient.add_ref_def NetClient.sub_ref_def)
qed

text \<open>A slot that takes its connection for a live one while the session is gone.\<close>

definition stuck_slot :: "nat \<Rightarrow> u64 \<Rightarrow> test_client client \<Rightarrow> bool" where
  "stuck_slot i sid c \<longleftrightarrow> i < length (States (NetClient.client.App c)) \<and>
     currentSessionID (States (NetClient.client.App c) ! i) = sid \<and> sid \<noteq> 0 \<and>
     \<not> disconnected (States (NetClient.client.App c) ! i) \<and> dead_id c sid \<and> (\<exists>P. pool_pkts (NetClient.client.PacketPool c) P)"

definition ctx_sane :: "sender_ctx \<Rightarrow> bool" where
  "ctx_sane ctx \<longleftrightarrow> intervalMax ctx < 2 ^ 31 \<and> lifetimeMax ctx < 2 ^ 31 \<and> reconnectMax ctx < 2 ^ 31"

lemma RandomBetween_ok: "hi < 2 ^ 31 \<Longrightarrow> \<exists>a. RandomBetween r lo hi = Inr a"
proof -
  assume hi: "hi < 2 ^ 31"
  have "hi - lo + 1 \<noteq> 0" if "lo < hi"
  proof
    assume "hi - lo + 1 = 0"
    then have "hi + 1 = lo" by (simp add: algebra_simps)
    moreover have "hi < hi + 1" using hi by (auto simp: word_less_nat_alt unat_word_ariths)
    ultimately show False using that by simp
  qed
  then show ?thesis by (auto simp: RandomBetween_def)
qed

text \<open>The request of the sender fits the packet.\<close>

lemma request_written:
  assumes "cleared pk"
  shows "\<exists>pk1 pk2. put_ushort pk kTestEcho = Inr pk1 \<and> put_int pk1 v = Inr pk2 \<and> good_packet pk2 \<and> RefCnt pk2 \<noteq> 0 \<and>
     packet_data pk2 = le_bytes 2 kTestEcho @ le_bytes 4 v \<and> echo_message (packet_data pk2) \<and>
     RefCnt pk2 = RefCnt pk \<and> \<not> EncodeFlag pk2 \<and> kHeaderDefault \<le> Front pk2"
proof -
  have w: "packet_wf pk" "packet_data pk = []" "packet_room pk = 1004" "good_packet pk" "RefCnt pk = 1"
    "\<not> EncodeFlag pk" "Front pk = kHeaderDefault"
    using assms by (auto simp: cleared_def good_packet_def packet_data_def window_def packet_room_def kBufferDefault_def kHeaderDefault_def)
  have "int (length (le_bytes 2 kTestEcho)) \<le> packet_room pk" by (simp add: w(3))
  from put_raw_ok [OF w(1) this] obtain pk1 where 1: "put_raw pk (le_bytes 2 kTestEcho) = Inr pk1" "packet_wf pk1"
    "packet_data pk1 = le_bytes 2 kTestEcho" "packet_room pk1 = 1002" "BufferSize pk1 = BufferSize pk" "RefCnt pk1 = RefCnt pk"
    "SRWEncode pk1 = SRWEncode pk" "EncodeFlag pk1 = EncodeFlag pk" "Front pk1 = Front pk" by (auto simp: w(2,3))
  have "int (length (le_bytes 4 v)) \<le> packet_room pk1" by (simp add: 1(4))
  from put_raw_ok [OF 1(2) this] obtain pk2 where 2: "put_raw pk1 (le_bytes 4 v) = Inr pk2" "packet_wf pk2"
    "packet_data pk2 = le_bytes 2 kTestEcho @ le_bytes 4 v" "BufferSize pk2 = BufferSize pk1" "RefCnt pk2 = RefCnt pk1"
    "SRWEncode pk2 = SRWEncode pk1" "EncodeFlag pk2 = EncodeFlag pk1" "Front pk2 = Front pk1" by (auto simp: 1(3))
  have "good_packet pk2" "RefCnt pk2 \<noteq> 0" using w 1 2 by (simp_all add: good_packet_def)
  with 1 2 w(5-7) show ?thesis by (simp add: put_scalar_defs echo_message_def)
qed

lemma stuck_upd:
  "stuck_slot i sid c \<Longrightarrow> (\<And>s. currentSessionID (f s) = currentSessionID s \<and> disconnected (f s) = disconnected s) \<Longrightarrow>
   stuck_slot i sid (upd_slot i f c)"
  by (auto simp: stuck_slot_def upd_slot_def dead_id_def)

lemma stuck_pool:
  "stuck_slot i sid c \<Longrightarrow> pool_pkts pl P \<Longrightarrow> stuck_slot i sid (NetClient.client.PacketPool_update (\<lambda>_. pl) c)"
  by (auto simp: stuck_slot_def dead_id_def)

text \<open>Nothing on the network changes and the slot stays as it is.\<close>

definition idle_turn :: "test_client client \<Rightarrow> test_client client \<Rightarrow> bool" where
  "idle_turn c c' \<longleftrightarrow> NetClient.client.SessionArr c' = NetClient.client.SessionArr c \<and>
     NetClient.client.Io c' = NetClient.client.Io c \<and> NetClient.client.Posted c' = NetClient.client.Posted c"

lemma slot_send_stuck:
  assumes "stuck_slot i sid c" "ctx_sane ctx" "fresh_packet new"
  shows "\<exists>c'. slot_send new tid ctx tick io i sid c = Inr c' \<and> stuck_slot i sid c' \<and> idle_turn c c'"
proof -
  obtain P where P: "pool_pkts (NetClient.client.PacketPool c) P" and dead: "dead_id c sid" using assms(1) by (auto simp: stuck_slot_def)
  have "fresh_packet (NetClient.env.NewPacket (test_env new))" using assms(3) by (simp add: test_env_def)
  from client_alloc [OF P this, of tid] obtain pl p pk where
    a: "NetClient.AllocPacket (test_env new) tid c = Inr (NetClient.client.PacketPool_update (\<lambda>_. pl) c, p)"
      "pool_pkts pl (insert p P)" "read_data pl p = Some pk" "cleared pk" by blast
  let ?c1 = "NetClient.client.PacketPool_update (\<lambda>_. pl) c"
  from request_written [OF a(4), of "word_of_int (rand_payload io)"] obtain pk1 pk2 where
    w: "put_ushort pk kTestEcho = Inr pk1" "put_int pk1 (word_of_int (rand_payload io)) = Inr pk2" "good_packet pk2" "RefCnt pk2 \<noteq> 0" by blast
  have g: "NetClient.get_packet p ?c1 = Inr pk" using a(3) by (simp add: NetClient.get_packet_def)
  let ?pl = "write_data p pk2 pl" let ?c2 = "NetClient.client.PacketPool_update (\<lambda>_. ?pl) c"
  have set: "NetClient.set_packet p pk2 ?c1 = ?c2" by (simp add: NetClient.set_packet_def)
  have P2: "pool_pkts ?pl (insert p P)" using pool_pkts_write [OF a(2) _ w(3,4)] by simp
  have dead2: "dead_id ?c2 sid" using dead by (simp add: dead_id_def)
  from pool_pkts_read [OF P2, of p] obtain pk3 where "read_data ?pl p = Some pk3" by auto
  then have "pool_pkts (NetClient.client.PacketPool ?c2) (insert p P)" "p \<in> insert p P"
    "read_data (NetClient.client.PacketPool ?c2) p = Some pk3" using P2 by simp_all
  from client_free [OF this, of tid] obtain pl' P' where
    f: "NetClient.FreePacket tid p ?c2 = Inr (NetClient.client.PacketPool_update (\<lambda>_. pl') c)" "pool_pkts pl' P'" by auto
  obtain r where r: "RandomBetween (rand_a io) (intervalMin ctx) (intervalMax ctx) = Inr r"
    using RandomBetween_ok [of "intervalMax ctx"] assms(2) unfolding ctx_sane_def by blast
  let ?c3 = "NetClient.client.PacketPool_update (\<lambda>_. pl') c"
  have "slot_send new tid ctx tick io i sid c = Inr (upd_slot i (\<lambda>s. s\<lparr>nextSendTime := tick + r\<rparr>) ?c3)"
    by (simp add: slot_send_def a(1) g w(1,2) set dead_id_ignored(1) [OF dead2] f(1) r)
  moreover have "stuck_slot i sid (upd_slot i (\<lambda>s. s\<lparr>nextSendTime := tick + r\<rparr>) ?c3)"
    by (rule stuck_upd [OF stuck_pool [OF assms(1) f(2)]]) simp
  ultimately show ?thesis by (auto simp: idle_turn_def upd_slot_def)
qed

lemma sender_slot_stuck:
  assumes "stuck_slot i sid c" "ctx_sane ctx" "fresh_packet new"
  shows "\<exists>c'. sender_slot new tid ctx tick io i c = Inr c' \<and> stuck_slot i sid c' \<and> idle_turn c c'"
proof -
  let ?s = "States (NetClient.client.App c) ! i"
  have s: "i < length (States (NetClient.client.App c))" "currentSessionID ?s = sid" "sid \<noteq> 0" "\<not> disconnected ?s"
    and dead: "dead_id c sid" using assms(1) by (auto simp: stuck_slot_def)
  obtain r where r: "RandomBetween (rand_a io) (reconnectMin ctx) (reconnectMax ctx) = Inr r"
    using RandomBetween_ok [of "reconnectMax ctx"] assms(2) unfolding ctx_sane_def by blast
  consider "mode ctx = 2 \<and> lifetimeEnd ?s \<le> tick" | "\<not> (mode ctx = 2 \<and> lifetimeEnd ?s \<le> tick)" "nextSendTime ?s \<le> tick"
    | "\<not> (mode ctx = 2 \<and> lifetimeEnd ?s \<le> tick)" "\<not> nextSendTime ?s \<le> tick" by blast
  then show ?thesis
  proof cases
    case 1
    then have "sender_slot new tid ctx tick io i c = Inr (upd_slot i (\<lambda>s. s\<lparr>reconnectAt := tick + r\<rparr>) c)"
      using s r dead_id_ignored(2) [OF dead] by (simp add: sender_slot_def with_slot_def)
    moreover have "stuck_slot i sid (upd_slot i (\<lambda>s. s\<lparr>reconnectAt := tick + r\<rparr>) c)" by (rule stuck_upd [OF assms(1)]) simp
    ultimately show ?thesis by (auto simp: idle_turn_def upd_slot_def)
  next
    case 2
    then have "sender_slot new tid ctx tick io i c = slot_send new tid ctx tick io i sid c"
      using s by (auto simp: sender_slot_def with_slot_def)
    with slot_send_stuck [OF assms] show ?thesis by simp
  next
    case 3
    then have "sender_slot new tid ctx tick io i c = Inr c" using s by (auto simp: sender_slot_def with_slot_def)
    then show ?thesis using assms(1) by (auto simp: idle_turn_def)
  qed
qed

lemma mark_slot_none: "\<forall>s \<in> set ss. currentSessionID s \<noteq> sid \<Longrightarrow> mark_slot sid ss = ss"
  by (induction ss) auto

text \<open>C27. A reconnection that the server resets at once is lost for good: when a slot reconnects (mode 2) and
  posting the first receive fails with a reset code, the session is already back on the free stack when
  \<open>Connect\<close> returns, the callback for its end found no slot, and the slot keeps a non-zero identifier that
  belongs to no session (unless it is the session of slot 0). From then on, whatever the time, the random
  numbers and the answers of the system, no turn of the sender thread connects, sends or closes anything for
  this slot, and it stays as it is.\<close>

theorem lost_reconnection_sticks:
  assumes "NetClient.client.FreeSessionStack c = k # rest" "k < length (NetClient.client.SessionArr c)"
    "idle_session k (NetClient.client.SessionArr c ! k)" "k < 65536" "k \<noteq> 0" "NetClient.client.SessionIDCnt c < 2 ^ 48 - 1"
    and "pool_pkts (NetClient.client.PacketPool c) P" "fresh_packet new" "ctx_sane ctx"
    and "i < length (States (NetClient.client.App c))" "s = States (NetClient.client.App c) ! i"
    "currentSessionID s = 0 \<or> disconnected s" "mode ctx = 2" "reconnectAt s \<le> tick"
    and "connect_io io = \<lparr>socket_result = Some sock, InetPton_result = Some ip, connect_ok = True\<rparr>"
    "recv_io io = Some e" "peer_error e"
    and "\<forall>t \<in> set (States (NetClient.client.App c)). currentSessionID t \<noteq> push_bit 48 (of_nat k) OR (NetClient.client.SessionIDCnt c + 1)"
  shows "(\<exists>c'. sender_slot new tid ctx tick io i c = Inr c' \<and> stuck_slot i (push_bit 48 (of_nat k)) c' \<and>
       NetClient.client.FreeSessionStack c' = k # rest) \<and>
     (\<forall>d ctx' tick' io'. stuck_slot i (push_bit 48 (of_nat k)) d \<and> ctx_sane ctx' \<longrightarrow>
       (\<exists>d'. sender_slot new tid ctx' tick' io' i d = Inr d' \<and> stuck_slot i (push_bit 48 (of_nat k)) d' \<and> idle_turn d d'))"
proof
  let ?sid = "push_bit 48 (of_nat k) :: u64" and ?new = "push_bit 48 (of_nat k) OR (NetClient.client.SessionIDCnt c + 1)"
  from Connect_lost [OF assms(1-4,6) test_calls [of new] assms(17), of tid sock ip "word_of_int (serverPort ctx)", folded assms(15,16)]
  obtain c1 and s0 s1 :: "test_client client" where c1: "Connect (test_env new) tid (connect_io io) (word_of_int (serverPort ctx)) (recv_io io) c = Inr (c1, ?sid)"
    "NetClient.client.FreeSessionStack c1 = k # rest" "NetClient.session.ReleaseFlag (NetClient.client.SessionArr c1 ! k)"
    "(?sid = 0) = (k = 0)" "length (NetClient.client.SessionArr c1) = length (NetClient.client.SessionArr c)"
    "NetClient.client.PacketPool c1 = NetClient.client.PacketPool c" "NetClient.client.App s0 = NetClient.client.App c"
    "NetClient.client.App s1 = (NetClient.client.App s0)\<lparr>ConnectCnt := ConnectCnt (NetClient.client.App s0) + 1\<rparr>"
    "NetClient.client.App c1 = (NetClient.client.App s1)\<lparr>DisconnectCnt := DisconnectCnt (NetClient.client.App s1) + 1,
      States := mark_slot ?new (States (NetClient.client.App s1))\<rparr>"
    by blast
  have st: "States (NetClient.client.App c1) = States (NetClient.client.App c)"
    using c1(7-9) mark_slot_none [OF assms(18)] by simp
  obtain a b where r: "RandomBetween (rand_a io) (intervalMin ctx) (intervalMax ctx) = Inr a"
    "RandomBetween (rand_b io) (lifetimeMin ctx) (lifetimeMax ctx) = Inr b"
    using RandomBetween_ok [of "intervalMax ctx"] RandomBetween_ok [of "lifetimeMax ctx"] assms(9) unfolding ctx_sane_def by metis
  let ?c' = "upd_slot i (\<lambda>s. s\<lparr>currentSessionID := ?sid, disconnected := False, nextSendTime := tick + a, lifetimeEnd := tick + b\<rparr>) c1"
  have nz: "?sid \<noteq> 0" using c1(4) assms(5) by simp
  have "sender_slot new tid ctx tick io i c = slot_reconnect new tid ctx tick io i c"
    using assms(10-14) by (simp add: sender_slot_def with_slot_def)
  also have "\<dots> = Inr ?c'" using c1(1) r nz by (simp add: slot_reconnect_def)
  finally have "sender_slot new tid ctx tick io i c = Inr ?c'" .
  moreover have "NetClient.FindSession ?sid = k" using slot_start [OF assms(4)] by (simp add: NetClient.FindSession_def slot_of_def)
  then have "dead_id c1 ?sid" using c1(3,5) assms(2) by (simp add: dead_id_def)
  then have "stuck_slot i ?sid ?c'"
    using assms(7,10) st nz c1(6) by (auto simp: stuck_slot_def upd_slot_def dead_id_def)
  moreover have "NetClient.client.FreeSessionStack ?c' = k # rest" using c1(2) by (simp add: upd_slot_def upd_client_def)
  ultimately show "\<exists>c'. sender_slot new tid ctx tick io i c = Inr c' \<and> stuck_slot i ?sid c' \<and> NetClient.client.FreeSessionStack c' = k # rest"
    by blast
  show "\<forall>d ctx' tick' io'. stuck_slot i ?sid d \<and> ctx_sane ctx' \<longrightarrow>
       (\<exists>d'. sender_slot new tid ctx' tick' io' i d = Inr d' \<and> stuck_slot i ?sid d' \<and> idle_turn d d')"
    using sender_slot_stuck assms(8) by blast
qed

text \<open>A client with two sessions and one slot to reconnect.\<close>

definition demo_client :: "test_client client" where
  "demo_client = NetClient.Start_sessions (\<lambda>_. 0) 1 2 (NetClient_ctor None (init_pool 4096 64)
     \<lparr>States = [new_slot], ConnectCnt = 0, DisconnectCnt = 0, RecvCnt = 0, VerifiedCnt = 0\<rparr>)"

lemma demo_client_facts:
  "NetClient.client.FreeSessionStack demo_client = 1 # [0]" "length (NetClient.client.SessionArr demo_client) = 2"
  "idle_session 1 (NetClient.client.SessionArr demo_client ! 1)" "NetClient.client.SessionIDCnt demo_client = 0"
  "States (NetClient.client.App demo_client) = [new_slot]" "pool_pkts (NetClient.client.PacketPool demo_client) {}"
proof -
  have "packet_wf (Packet_ctor 4096 (\<lambda>_. 0))" by (rule packet_wf_ctor) (simp_all add: kHeaderDefault_def)
  then show "idle_session 1 (NetClient.client.SessionArr demo_client ! 1)"
    by (simp add: demo_client_def NetClient.Start_sessions_def idle_session_def NetClient.start_session_def NetClient.blank_session_def)
  show "pool_pkts (NetClient.client.PacketPool demo_client) {}"
    using pool_pkts_init [of 64 4096] by (simp add: demo_client_def NetClient.Start_sessions_def NetClient_ctor_def)
qed (simp_all add: demo_client_def NetClient.Start_sessions_def NetClient_ctor_def upt_rec)

definition demo_sender :: sender_ctx where
  "demo_sender = \<lparr>serverPort = 12001, mode = 2, intervalMin = 1, intervalMax = 5, lifetimeMin = 10, lifetimeMax = 20,
     reconnectMin = 1, reconnectMax = 2\<rparr>"

lemma lost_reconnection_sticks_witness:
  "\<exists>c'. sender_slot (Packet_ctor kBufferDefault (\<lambda>_. 0)) 0 demo_sender 100
     \<lparr>connect_io = \<lparr>socket_result = Some 77, InetPton_result = Some 1, connect_ok = True\<rparr>, recv_io = Some 10054, rand_a = 1,
       rand_b = 2, rand_payload = 3, rand_encode = 4\<rparr> 0 demo_client = Inr c' \<and> stuck_slot 0 (2 ^ 48) c'"
proof -
  have l: "1 < length (NetClient.client.SessionArr demo_client)" "NetClient.client.SessionIDCnt demo_client < 2 ^ 48 - 1"
    "(1::nat) < 65536" "(1::nat) \<noteq> 0" "0 < length (States (NetClient.client.App demo_client))" "ctx_sane demo_sender" "mode demo_sender = 2"
    by (simp_all add: demo_client_facts ctx_sane_def demo_sender_def)
  have "peer_error 10054" by (simp add: peer_error_def)
  from lost_reconnection_sticks [OF demo_client_facts(1) l(1) demo_client_facts(3) l(3,4,2) demo_client_facts(6)
      fresh_packet_ctor l(6,5) refl _ l(7) _ _ _ this, of 100 "\<lparr>connect_io = \<lparr>socket_result = Some 77, InetPton_result = Some 1, connect_ok = True\<rparr>,
        recv_io = Some 10054, rand_a = 1, rand_b = 2, rand_payload = 3, rand_encode = 4\<rparr>" 77 1 "\<lambda>_. 0" 0]
  show ?thesis by (auto simp: demo_client_facts new_slot_def push_bit_eq_mult)
qed

end
