(* ===== verification/EchoRoundTrip.thy ===== *)
theory EchoRoundTrip
  imports EchoServer LoadClient EndToEnd
begin

text \<open>
  The benchmark as a whole: what the load client sends to the echo server comes back, and the client counts and
  verifies every message.
\<close>

subsection \<open>The load client sends\<close>

text \<open>The sender thread serves a slot turn by turn, at the times and with the answers of the system in the list. In the
  modes without reconnections it sends when the time of the slot has come, and draws the next time.\<close>

fun slot_turns :: "packet \<Rightarrow> nat \<Rightarrow> sender_ctx \<Rightarrow> nat \<Rightarrow> (u32 \<times> slot_io) list \<Rightarrow> test_client client \<Rightarrow> fault + test_client client" where
  "slot_turns new tid ctx k [] c = Inr c"
| "slot_turns new tid ctx k ((tick, io) # turns) c =
     ebind (sender_slot new tid ctx tick io k c) (slot_turns new tid ctx k turns)"

definition pause :: "sender_ctx \<Rightarrow> slot_io \<Rightarrow> u32" where
  "pause ctx io = (case RandomBetween (rand_a io) (intervalMin ctx) (intervalMax ctx) of Inr a \<Rightarrow> a | Inl e \<Rightarrow> 0)"

fun due :: "sender_ctx \<Rightarrow> u32 \<Rightarrow> (u32 \<times> slot_io) list \<Rightarrow> slot_io list" where
  "due ctx next [] = []"
| "due ctx next ((tick, io) # turns) = (if next \<le> tick then io # due ctx (tick + pause ctx io) turns else due ctx next turns)"

definition request :: "slot_io \<Rightarrow> byte list" where
  "request io = le_bytes 2 kTestEcho @ le_bytes 4 (word_of_int (rand_payload io) :: u32)"

lemma request_props: "length (request io) = 6" "echo_message (request io)" "request io \<noteq> []"
proof -
  show l: "length (request io) = 6" by (simp add: request_def)
  then show "request io \<noteq> []" by auto
qed (simp add: request_def echo_message_def)

text \<open>Packets with the bytes \<open>bs\<close> have joined the send queue of session \<open>i\<close>; nothing else that is in use changed.\<close>

definition queued :: "(addr \<Rightarrow> nat) \<Rightarrow> nat \<Rightarrow> byte list list \<Rightarrow> 'u server \<Rightarrow> 'u server \<Rightarrow> bool" where
  "queued V i bs s s' \<longleftrightarrow> keeps_bytes V s s' \<and> (\<forall>r. session_refs s r \<le> session_refs s' r) \<and>
     length (NetServer.server.SessionArr s') = length (NetServer.server.SessionArr s) \<and>
     NetServer.server.Encoder s' = NetServer.server.Encoder s \<and>
     (\<exists>qs. echoed (NetServer.session.RecvQ (NetServer.server.SessionArr s ! i)) qs
         (NetServer.server.SessionArr s ! i) (NetServer.server.SessionArr s' ! i) \<and> map (packet_bytes s') qs = bs)"

lemma queued_refl: "queued V i [] s s"
  by (auto simp: queued_def keeps_bytes_def echoed_def)

lemma queued_trans:
  assumes "queued V i bs s s1" "queued V i bs' s1 s2" "i < length (NetServer.server.SessionArr s)"
  shows "queued V i (bs @ bs') s s2"
proof -
  let ?x = "\<lambda>s. NetServer.server.SessionArr s ! i"
  from assms(1) obtain qs where 1: "echoed (NetServer.session.RecvQ (?x s)) qs (?x s) (?x s1)" "map (packet_bytes s1) qs = bs"
    by (auto simp: queued_def)
  from assms(2) obtain qs' where 2: "echoed (NetServer.session.RecvQ (?x s1)) qs' (?x s1) (?x s2)" "map (packet_bytes s2) qs' = bs'"
    by (auto simp: queued_def)
  have i1: "i < length (NetServer.server.SessionArr s1)" using assms(1,3) by (simp add: queued_def)
  have "packet_bytes s2 q = packet_bytes s1 q" if "q \<in> set qs" for q
  proof -
    have "q \<in> set (NetServer.session.SendQ (?x s1))" using 1(1) that by (simp add: echoed_def)
    from held_in_queue [OF i1 this] assms(2) show ?thesis by (simp add: queued_def keeps_bytes_def)
  qed
  then have "map (packet_bytes s2) (qs @ qs') = bs @ bs'" using 1(2) 2(2) by (simp cong: map_cong)
  moreover have "echoed (NetServer.session.RecvQ (?x s)) (qs @ qs') (?x s) (?x s2)" using 1(1) 2(1) by (simp add: echoed_def)
  moreover have mono: "session_refs s r \<le> session_refs s1 r" "session_refs s1 r \<le> session_refs s2 r" for r
    using assms(1,2) by (simp_all add: queued_def)
  moreover have "keeps_bytes V s s2"
    unfolding keeps_bytes_def
  proof (intro allI impI)
    fix q assume q: "0 < V q + session_refs s q"
    with mono(1) [of q] have "0 < V q + session_refs s1 q" by linarith
    with q assms(1,2) show "packet_bytes s2 q = packet_bytes s q" unfolding queued_def keeps_bytes_def by metis
  qed
  ultimately show ?thesis using assms(1,2) unfolding queued_def by (auto intro: order_trans)
qed

lemma lift_eq_Inr: "lift r = Inr s \<Longrightarrow> \<exists>c. r = Inr c \<and> to_server c = s"
  by (cases r) auto

lemma lift2_eq_Inr: "lift2 r = Inr (s, b) \<Longrightarrow> \<exists>c. r = Inr (c, b) \<and> to_server c = s"
  by (cases r) auto

lemma live_queued:
  assumes "live_id s sid" "queued V (NetServer.FindSession sid) bs s s'"
  shows "live_id s' sid"
  using assms by (auto simp: live_id_def queued_def echoed_def)

lemma to_server_inj: "to_server c = to_server c' \<Longrightarrow> c = c'"
  by (metis of_to_server)

lemma slot_send_live:
  assumes inv: "refs_inv (to_server c) V" and live: "live_id (to_server c) sid"
    and enc: "frame_encoder (NetClient.client.Encoder c) frame max_len" and len: "6 \<le> max_len"
    and new: "fresh_packet new" and sane: "ctx_sane ctx"
  shows "\<exists>c'. slot_send new tid ctx tick io k sid c = Inr c' \<and> refs_inv (to_server c') V \<and>
     queued V (NetServer.FindSession sid) [frame (rand_encode io) (request io)] (to_server c) (to_server c') \<and>
     NetClient.client.App c' = (NetClient.client.App c)\<lparr>States := (States (NetClient.client.App c))[k :=
       (States (NetClient.client.App c) ! k)\<lparr>nextSendTime := tick + pause ctx io\<rparr>]\<rparr>"
proof -
  let ?s = "to_server c" and ?i = "NetServer.FindSession sid"
  have "fresh_packet (NetServer.env.NewPacket (lift_env (test_env new)))" using new by (simp add: test_env_def tr)
  from held_alloc [OF inv this, of tid] obtain pl p pk where
    a: "NetServer.AllocPacket (lift_env (test_env new)) tid ?s = Inr (NetServer.server.PacketPool_update (\<lambda>_. pl) ?s, p)"
      "V p = 0" "session_refs ?s p = 0" "refs_inv (NetServer.server.PacketPool_update (\<lambda>_. pl) ?s) (V(p := 1))"
      "NetServer.get_packet p (NetServer.server.PacketPool_update (\<lambda>_. pl) ?s) = Inr pk" "cleared pk"
      "\<forall>q. 0 < V q + session_refs ?s q \<longrightarrow>
         NetServer.get_packet q (NetServer.server.PacketPool_update (\<lambda>_. pl) ?s) = NetServer.get_packet q ?s" by blast
  let ?c1 = "NetClient.client.PacketPool_update (\<lambda>_. pl) c" and ?V = "V(p := 1)"
  have c1: "NetServer.server.PacketPool_update (\<lambda>_. pl) ?s = to_server ?c1" by (simp add: to_server_def)
  note a' = a(1,4,5,7) [unfolded c1]
  from lift2_eq_Inr [of "NetClient.AllocPacket (test_env new) tid c"] a'(1) have
    al: "NetClient.AllocPacket (test_env new) tid c = Inr (?c1, p)" by (auto simp: AllocPacket_tr dest: to_server_inj)
  have g: "NetClient.get_packet p ?c1 = Inr pk" using a'(3) by (simp add: tr)
  from request_written [OF a(6), of "word_of_int (rand_payload io)"] obtain pk1 pk2 where
    w: "put_ushort pk kTestEcho = Inr pk1" "put_int pk1 (word_of_int (rand_payload io)) = Inr pk2" "good_packet pk2"
      "packet_data pk2 = request io" "RefCnt pk2 = RefCnt pk" "\<not> EncodeFlag pk2" "kHeaderDefault \<le> Front pk2"
    by (auto simp: request_def)
  let ?s2 = "to_server (NetClient.set_packet p pk2 ?c1)"
  have s2: "?s2 = NetServer.set_packet p pk2 (to_server ?c1)" by (simp add: tr)
  have inv2: "refs_inv ?s2 ?V" unfolding s2 by (rule refs_inv_fill [OF a'(2) _ a'(3) w(3,5)]) simp
  have get2: "NetServer.get_packet q ?s2 = (if q = p then Inr pk2 else NetServer.get_packet q (to_server ?c1))" for q
    unfolding s2 by (rule get_set_packet [OF a'(2)]) simp
  have arr2: "NetServer.server.SessionArr ?s2 = NetServer.server.SessionArr ?s"
    "NetServer.server.Encoder ?s2 = NetClient.client.Encoder c" by (simp_all add: s2 flip: c1) (simp add: tr)
  have sr2: "session_refs ?s2 = session_refs ?s" using arr2(1) by (simp add: session_refs_def fun_eq_iff)
  have live2: "live_id ?s2 sid" using live arr2(1) by (simp add: live_id_def)
  have rf: "?V p + session_refs ?s2 p + 1 < 2 ^ 32" using a(3) by (simp add: sr2)
  have E2: "frame_encoder (NetServer.server.Encoder ?s2) frame max_len" using enc arr2(2) by simp
  have gp2: "NetServer.get_packet p ?s2 = Inr pk2" using get2 by simp
  have sd: "sendable max_len pk2" using w(4,7) len by (simp add: sendable_def request_props)
  have "0 < ?V p" by simp
  from refs_inv_SendPacket [OF inv2 live2 this rf E2 gp2 sd, of "rand_encode io"] obtain s3 q where
    s3: "NetServer.SendPacket sid (rand_encode io) p ?s2 = Inr s3" "refs_inv s3 ?V" "NetServer.get_packet p s3 = Inr q"
      "packet_data q = wire_data frame (rand_encode io) pk2"
      "NetServer.server.SessionArr s3 = (NetServer.server.SessionArr ?s2)[?i :=
         NetServer.session.SendQ_update (\<lambda>_. NetServer.session.SendQ (NetServer.server.SessionArr ?s2 ! ?i) @ [p])
           (NetServer.add_ref (NetServer.server.SessionArr ?s2 ! ?i))]"
      "NetServer.server.Encoder s3 = NetServer.server.Encoder ?s2"
      "\<forall>r. r \<noteq> p \<longrightarrow> NetServer.get_packet r s3 = NetServer.get_packet r ?s2" by blast
  from lift_eq_Inr [of "NetClient.SendPacket sid (rand_encode io) p (NetClient.set_packet p pk2 ?c1)" s3] s3(1) obtain c3 where
    c3: "NetClient.SendPacket sid (rand_encode io) p (NetClient.set_packet p pk2 ?c1) = Inr c3" "to_server c3 = s3"
    by (auto simp: SendPacket_tr)
  from held_free [OF s3(2), of p tid] obtain pl4 where
    f: "NetServer.FreePacket tid p s3 = Inr (NetServer.server.PacketPool_update (\<lambda>_. pl4) s3)"
      "refs_inv (NetServer.server.PacketPool_update (\<lambda>_. pl4) s3) (?V(p := ?V p - 1))"
      "\<forall>q. packet_bytes (NetServer.server.PacketPool_update (\<lambda>_. pl4) s3) q = packet_bytes s3 q" by auto
  let ?s4 = "NetServer.server.PacketPool_update (\<lambda>_. pl4) s3"
  have V: "?V(p := ?V p - 1) = V" using a(2) by auto
  from lift_eq_Inr [of "NetClient.FreePacket tid p c3" ?s4] f(1) obtain c4 where
    c4: "NetClient.FreePacket tid p c3 = Inr c4" "to_server c4 = ?s4" by (auto simp: FreePacket_tr simp flip: c3(2))
  obtain r where r: "RandomBetween (rand_a io) (intervalMin ctx) (intervalMax ctx) = Inr r"
    using RandomBetween_ok [of "intervalMax ctx"] sane unfolding ctx_sane_def by blast
  let ?c5 = "upd_slot k (\<lambda>s. s\<lparr>nextSendTime := tick + r\<rparr>) c4" let ?s5 = "to_server ?c5"
  have run: "slot_send new tid ctx tick io k sid c = Inr ?c5"
    by (simp add: slot_send_def al g w(1,2) c3(1) c4(1) r)
  have s5: "?s5 = NetServer.server.App_update (\<lambda>_. NetServer.server.App ?s5) ?s4"
    unfolding c4(2) [symmetric] by (simp add: upd_slot_def upd_client_def to_server_def)
  have inv5: "refs_inv ?s5 V" using f(2) unfolding V by (subst s5) (simp add: refs_inv_app)
  have arr5: "NetServer.server.SessionArr ?s5 = NetServer.server.SessionArr s3" "NetServer.server.Encoder ?s5 = NetServer.server.Encoder s3"
    by (subst s5, simp)+
  have pb: "packet_bytes ?s5 q = packet_bytes s3 q" for q
    using f(3) by (subst s5) (simp add: packet_bytes_def NetServer.get_packet_def)
  have i: "?i < length (NetServer.server.SessionArr ?s)" using live by (simp add: live_id_def)
  have x5: "NetServer.server.SessionArr ?s5 ! ?i = NetServer.session.SendQ_update (\<lambda>_. NetServer.session.SendQ (NetServer.server.SessionArr ?s ! ?i) @ [p])
     (NetServer.add_ref (NetServer.server.SessionArr ?s ! ?i))" using i by (simp add: arr5(1) s3(5) arr2(1))
  have "session_refs ?s r \<le> session_refs ?s5 r" for r
  proof -
    let ?y = "NetServer.server.SessionArr ?s5 ! ?i"
    have "session_refs ?s5 r = session_refs (NetServer.set_session ?i ?y ?s) r"
      unfolding x5 by (simp add: session_refs_def arr5(1) s3(5) arr2(1) NetServer.set_session_def)
    moreover have "count_list (held_by (NetServer.server.SessionArr ?s ! ?i)) r \<le> count_list (held_by ?y) r"
      unfolding x5 by (simp add: held_by_def NetServer.add_ref_def)
    ultimately show ?thesis using session_refs_set [OF i, of ?y r] by linarith
  qed
  moreover have "keeps_bytes V ?s ?s5"
    unfolding keeps_bytes_def
  proof (intro allI impI)
    fix u assume u: "0 < V u + session_refs ?s u"
    then have "u \<noteq> p" using a(2,3) by auto
    then have "NetServer.get_packet u s3 = NetServer.get_packet u ?s" using s3(7) get2 a'(4) [rule_format, OF u] by simp
    then show "packet_bytes ?s5 u = packet_bytes ?s u" using pb by (simp add: packet_bytes_def)
  qed
  moreover have "packet_bytes ?s5 p = frame (rand_encode io) (request io)"
    using pb s3(3,4) w(4,6) by (simp add: packet_bytes_def wire_data_def)
  moreover have "echoed (NetServer.session.RecvQ (NetServer.server.SessionArr ?s ! ?i)) [p]
     (NetServer.server.SessionArr ?s ! ?i) (NetServer.server.SessionArr ?s5 ! ?i)"
    unfolding x5 by (simp add: echoed_def NetServer.add_ref_def)
  ultimately have "queued V ?i [frame (rand_encode io) (request io)] ?s ?s5"
    unfolding queued_def using arr5 s3(5,6) arr2 by (auto simp: tr)
  moreover have "NetClient.client.App c4 = NetClient.client.App c"
  proof -
    have "NetServer.server.App s3 = NetServer.server.App ?s2"
      using s3(1) by (auto simp: NetServer.SendPacket_def NetServer.IncrementSessionRef_def NetServer.DecrementSessionRef_def
        NetServer.with_session_def Let_def ebind_eq_Inr split: if_splits)
    then have "NetServer.server.App (to_server c4) = NetServer.server.App ?s" unfolding c4(2) s2 by (simp flip: c1)
    then show ?thesis by (simp add: to_server_def)
  qed
  ultimately show ?thesis using run inv5 r by (intro exI [of _ ?c5]) (simp add: upd_slot_def pause_def)
qed

lemma slot_turns_live:
  assumes "refs_inv (to_server c) V" "live_id (to_server c) sid" "NetClient.client.Encoder c = E"
    and enc: "frame_encoder E frame max_len" and len: "6 \<le> max_len"
    and new: "fresh_packet new" and sane: "ctx_sane ctx" "mode ctx \<noteq> 2"
    and "k < length (States (NetClient.client.App c))" "s = States (NetClient.client.App c) ! k"
    and "currentSessionID s = sid" "sid \<noteq> 0" "\<not> disconnected s"
  shows "\<exists>c' ss. slot_turns new tid ctx k turns c = Inr c' \<and> refs_inv (to_server c') V \<and>
     queued V (NetServer.FindSession sid) (map (\<lambda>io. frame (rand_encode io) (request io)) (due ctx (nextSendTime s) turns))
       (to_server c) (to_server c') \<and> NetClient.client.App c' = (NetClient.client.App c)\<lparr>States := ss\<rparr>"
  using assms(1-3,9-)
proof (induction turns arbitrary: c s)
  case Nil
  then show ?case using queued_refl by (auto intro!: exI [of _ c] exI [of _ "States (NetClient.client.App c)"])
next
  case (Cons turn turns)
  obtain tick io where turn: "turn = (tick, io)" by (cases turn)
  have i: "NetServer.FindSession sid < length (NetServer.server.SessionArr (to_server c))" using Cons.prems(2) by (simp add: live_id_def)
  show ?case
  proof (cases "nextSendTime s \<le> tick")
    case False
    then have "sender_slot new tid ctx tick io k c = Inr c"
      using Cons.prems sane(2) by (simp add: sender_slot_def with_slot_def)
    with Cons.IH [OF Cons.prems] False turn show ?thesis by simp
  next
    case True
    have ec: "frame_encoder (NetClient.client.Encoder c) frame max_len" using enc Cons.prems(3) by simp
    from slot_send_live [OF Cons.prems(1,2) ec len new sane(1), of tid tick io k] obtain c1 where
      c1: "slot_send new tid ctx tick io k sid c = Inr c1" "refs_inv (to_server c1) V"
        "queued V (NetServer.FindSession sid) [frame (rand_encode io) (request io)] (to_server c) (to_server c1)"
        "NetClient.client.App c1 = (NetClient.client.App c)\<lparr>States := (States (NetClient.client.App c))[k :=
           (States (NetClient.client.App c) ! k)\<lparr>nextSendTime := tick + pause ctx io\<rparr>]\<rparr>" by blast
    have one: "sender_slot new tid ctx tick io k c = Inr c1"
      using True Cons.prems sane(2) c1(1) by (simp add: sender_slot_def with_slot_def)
    let ?s1 = "s\<lparr>nextSendTime := tick + pause ctx io\<rparr>"
    have s1: "k < length (States (NetClient.client.App c1))" "?s1 = States (NetClient.client.App c1) ! k"
      "currentSessionID ?s1 = sid" "\<not> disconnected ?s1" using c1(4) Cons.prems(4-8) by simp_all
    have E1: "NetClient.client.Encoder c1 = E" using c1(3) Cons.prems(3) by (simp add: queued_def tr)
    from Cons.IH [OF c1(2) live_queued [OF Cons.prems(2) c1(3)] E1 s1(1-3) Cons.prems(7) s1(4)] obtain c2 ss where
      c2: "slot_turns new tid ctx k turns c1 = Inr c2" "refs_inv (to_server c2) V"
        "queued V (NetServer.FindSession sid) (map (\<lambda>io. frame (rand_encode io) (request io)) (due ctx (nextSendTime ?s1) turns))
           (to_server c1) (to_server c2)" "NetClient.client.App c2 = (NetClient.client.App c1)\<lparr>States := ss\<rparr>" by blast
    from queued_trans [OF c1(3) c2(3) i] one c2(1,2,4) c1(4) True turn show ?thesis
      by (intro exI [of _ c2] exI [of _ ss]) simp
  qed
qed

text \<open>Then a worker posts the send.\<close>

lemma send_gather_keeps:
  "NetServer.send_gather i n k bufs s = Inr (s', b) \<Longrightarrow>
   NetServer.server.App s' = NetServer.server.App s \<and> NetServer.server.Encoder s' = NetServer.server.Encoder s"
  by (induction i n k bufs s arbitrary: s' b rule: NetServer.send_gather.induct)
    (fastforce simp: NetServer.with_session_def NetServer.set_session_def ebind_eq_Inr split: if_splits list.splits)+

lemma SendPost_keeps:
  assumes "NetServer.SendPost i None s = Inr (s', b)"
  shows "NetServer.server.App s' = NetServer.server.App s" "NetServer.server.Encoder s' = NetServer.server.Encoder s"
proof -
  let ?s1 = "NetServer.set_session i (NetServer.session.SendFlag_update (\<lambda>_. 1) (NetServer.server.SessionArr s ! i)) s"
  have "NetServer.server.App s' = NetServer.server.App s \<and> NetServer.server.Encoder s' = NetServer.server.Encoder s"
    using assms send_gather_keeps [of i _ 0 "[]" ?s1]
    by (auto simp: NetServer.SendPost_def NetServer.with_session_def NetServer.cancel_if_unused_def NetServer.log_io_def
      NetServer.set_session_def Let_def ebind_eq_Inr split: if_splits)
  then show "NetServer.server.App s' = NetServer.server.App s" "NetServer.server.Encoder s' = NetServer.server.Encoder s" by simp_all
qed

lemma requests_posted:
  assumes inv: "refs_inv (to_server c) V" and live: "live_id (to_server c) sid" and E: "NetClient.client.Encoder c = E"
    and enc: "frame_encoder E frame max_len" "6 \<le> max_len" "fresh_packet new" "ctx_sane ctx" "mode ctx \<noteq> 2"
    and slot: "k < length (States (NetClient.client.App c))" "s = States (NetClient.client.App c) ! k"
      "currentSessionID s = sid" "sid \<noteq> 0" "\<not> disconnected s"
    and x: "j = NetClient.FindSession sid" "x = NetClient.client.SessionArr c ! j"
      "NetClient.session.SessionUseFlag x" "NetClient.session.SendFlag x \<noteq> 1" "NetClient.session.SendQ x = []"
    and ds: "ds = due ctx (nextSendTime s) turns" "ds \<noteq> []" "length ds \<le> 1000"
    and rx: "rx_inv E j [] (to_server c)"
  shows "\<exists>c1 c2 bufs. slot_turns new tid ctx k turns c = Inr c1 \<and> NetClient.SendPost j None c1 = Inr (c2, True) \<and>
     NetClient.client.Io c2 = NetClient.client.Io c1 @ [IoSend j bufs] \<and>
     bufs = map2 frame (map rand_encode ds) (map request ds) \<and> rx_inv E j [] (to_server c2) \<and>
     RecvCnt (NetClient.client.App c2) = RecvCnt (NetClient.client.App c) \<and>
     VerifiedCnt (NetClient.client.App c2) = VerifiedCnt (NetClient.client.App c)"
proof -
  have js: "NetServer.FindSession sid = j" using x(1) by (simp add: tr)
  let ?bs = "map (\<lambda>io. frame (rand_encode io) (request io)) ds"
  from slot_turns_live [OF inv live E enc slot, of tid turns] obtain c1 ss where
    c1: "slot_turns new tid ctx k turns c = Inr c1" "refs_inv (to_server c1) V" "queued V j ?bs (to_server c) (to_server c1)"
      "NetClient.client.App c1 = (NetClient.client.App c)\<lparr>States := ss\<rparr>" unfolding js ds(1) [symmetric] by blast
  let ?s1 = "to_server c1" let ?x1 = "NetServer.server.SessionArr ?s1 ! j" and ?x = "NetServer.server.SessionArr (to_server c) ! j"
  have i: "j < length (NetServer.server.SessionArr (to_server c))" using live js by (simp add: live_id_def)
  then have i1: "j < length (NetServer.server.SessionArr ?s1)" using c1(3) by (simp add: queued_def)
  have "j < length (NetClient.client.SessionArr c)" using i by (simp add: tr)
  then have xq: "NetServer.session.SendQ ?x = []" "NetServer.session.SessionUseFlag ?x" "NetServer.session.SendFlag ?x \<noteq> 1"
    using x(2-5) by (simp_all add: tr)
  from c1(3) obtain qs where qs: "echoed (NetServer.session.RecvQ ?x) qs ?x ?x1" "map (packet_bytes ?s1) qs = ?bs"
    by (auto simp: queued_def)
  have q: "NetServer.session.SendQ ?x1 = qs" "NetServer.session.SessionUseFlag ?x1" "NetServer.session.SendFlag ?x1 \<noteq> 1"
    "NetServer.session.RecvQ ?x1 = NetServer.session.RecvQ ?x"
    using qs(1) xq by (simp_all add: echoed_def)
  have ql: "length qs = length ds" using arg_cong [OF qs(2), of length] by simp
  then have q1: "length qs \<le> 1000" "qs \<noteq> []" using ds(2,3) by auto
  have "\<exists>pk. NetServer.get_packet p ?s1 = Inr pk \<and> packet_wf pk" if "p \<in> set qs" for p
  proof -
    have "0 < session_refs ?s1 p" using held_in_queue [OF i1] that q(1) by simp
    with held_get [OF c1(2), of p] show ?thesis by (auto simp: good_packet_def)
  qed
  with SendPost_all [OF i1 refl refs_inv_nth [OF c1(2) i1] q(2,3)] obtain s2 where
    s2: "NetServer.SendPost j None ?s1 = Inr (s2, True)"
      "NetServer.server.Io s2 = NetServer.server.Io ?s1 @ [IoSend j (map (packet_bytes ?s1) qs)]"
      "NetServer.session.RecvQ (NetServer.server.SessionArr s2 ! j) = NetServer.session.RecvQ ?x1"
      "length (NetServer.server.SessionArr s2) = length (NetServer.server.SessionArr ?s1)"
    using q1 q(1) i1 by force
  from lift2_eq_Inr [of "NetClient.SendPost j None c1" s2 True] s2(1) obtain c2 where
    c2: "NetClient.SendPost j None c1 = Inr (c2, True)" "to_server c2 = s2" by (auto simp: SendPost_tr)
  have "refs_inv s2 V" by (rule refs_inv_SendPost [OF c1(2) i1 s2(1)])
  then have "\<exists>P. pool_pkts (NetServer.server.PacketPool s2) P" by (auto simp: refs_inv_def packet_refs_def)
  moreover have "NetServer.server.Encoder s2 = E" using SendPost_keeps(2) [OF s2(1)] c1(3) E by (simp add: queued_def tr)
  ultimately have rx2: "rx_inv E j [] (to_server c2)"
    using rx i1 s2(3,4) q(4) unfolding c2(2) by (simp add: rx_inv_def)
  have app2: "NetClient.client.App c2 = NetClient.client.App c1"
    using SendPost_keeps(1) [OF s2(1)] by (simp add: to_server_def flip: c2(2))
  have "NetClient.client.Io c2 = NetClient.client.Io c1 @ [IoSend j ?bs]"
    using s2(2) qs(2) by (simp add: to_server_def flip: c2(2))
  moreover have "?bs = map2 frame (map rand_encode ds) (map request ds)" by (simp add: zip_map_map map_zip_map2 zip_same_conv_map)
  ultimately show ?thesis using c1(1,4) c2(1) rx2 app2 by (intro exI [of _ c1] exI [of _ c2] exI [of _ ?bs]) simp
qed

subsection \<open>There and back\<close>

lemma quiet_echo: "quiet_leave (echo_env new tid)"
  unfolding quiet_leave_def
proof (intro allI)
  fix sid and s :: echo_server
  show "\<exists>a. NetServer.env.OnClientLeave (echo_env new tid) sid s = Inr (NetServer.server.App_update (\<lambda>_. a) s)"
    by (rule exI [of _ "NetServer.server.App s"]) (simp add: echo_env_def echo_base_def)
qed

lemma count_all: "fold (count_echo sid) ms a =
   a\<lparr>RecvCnt := RecvCnt a + of_nat (length ms), VerifiedCnt := VerifiedCnt a + of_nat (length ms)\<rparr>"
  by (induction ms arbitrary: a) (simp_all add: count_echo_def algebra_simps)

text \<open>One exchange from the frames on: what arrives at the echo server goes back to the client, which counts it.\<close>

lemma echo_there_and_back:
  assumes "server_run (echo_env new tid) frame max_len s U" "fresh_packet new"
    and "frame_encoder E frame max_len" "0 < GetHeaderSize E" "rx_inv E i [] s"
    and "live_id s sid" "i = NetServer.FindSession sid" "x = NetServer.server.SessionArr s ! i"
    and "NetServer.session.SessionUseFlag x" "NetServer.session.SendFlag x \<noteq> 1" "NetServer.session.SendQ x = []"
    and "ms \<noteq> []" "length ms \<le> 1000" "\<forall>m \<in> set ms. fits max_len m \<and> echo_message m"
    and "length rs = length ms" "concat pieces = concat (map2 frame rs ms)" "in_windows (frame_sizes E ms) 0 pieces"
    and "rx_inv E j [] (to_server c)"
  shows "\<exists>s1 s2 bufs. recv_chunks (echo_env new tid) tid i pieces s = Some (Inr s1) \<and>
     NetServer.SendPost i None s1 = Inr (s2, True) \<and> NetServer.server.Io s2 = NetServer.server.Io s1 @ [IoSend i bufs] \<and>
     bufs = map2 frame (map (NetServer.server.App s) [0..<length ms]) ms \<and>
     (\<forall>replies. concat replies = concat bufs \<and> in_windows (frame_sizes E ms) 0 replies \<longrightarrow>
       (\<exists>c'. client_recv_chunks (test_env (Packet_ctor kBufferDefault fill)) tid' j replies c = Some (Inr c') \<and>
          NetClient.client.App c' = (NetClient.client.App c)\<lparr>RecvCnt := RecvCnt (NetClient.client.App c) + of_nat (length ms),
            VerifiedCnt := VerifiedCnt (NetClient.client.App c) + of_nat (length ms)\<rparr>))"
proof -
  have new: "fresh_packet (NetServer.env.NewPacket (echo_env new tid))" using assms(2) by (simp add: echo_env_def echo_base_def)
  have inv: "refs_inv s U" using server_run_inv [OF assms(1) quiet_echo new] .
  have ne: "\<forall>m \<in> set ms. fits max_len m \<and> m \<noteq> [] \<and> echo_message m"
    using assms(14) by (auto simp: echo_message_def le_bytes_def kTestEcho_def)
  then have ne': "\<forall>m \<in> set ms. fits max_len m \<and> m \<noteq> []" by blast
  have ca: "[] @ concat pieces = concat (map2 frame rs ms)" "incomplete frame (GetHeaderSize E) max_len []"
    using assms(16) by (simp_all add: incomplete_def)
  from echo_chunks [OF assms(4,3,2,7,5) inv assms(6) _ ca(1) assms(15) ne' ca(2), of tid] obtain s1 where
    s1: "recv_chunks (echo_env new tid) tid i pieces s = Some (Inr s1)" "refs_inv s1 U" "live_id s1 sid" "echo_step U i frame ms s s1"
    using assms(17) by auto
  from s1(4) obtain qs rq where qs: "echoed rq qs x (NetServer.server.SessionArr s1 ! i)" "length qs = length ms"
    "map (packet_bytes s1) qs = map2 frame (map (NetServer.server.App s) [0..<length ms]) ms" using assms(8) by (auto simp: echo_step_def)
  have i1: "i < length (NetServer.server.SessionArr s1)" using s1(3) assms(7) by (simp add: live_id_def)
  have q: "NetServer.session.SendQ (NetServer.server.SessionArr s1 ! i) = qs" "NetServer.session.SessionUseFlag (NetServer.server.SessionArr s1 ! i)"
    "NetServer.session.SendFlag (NetServer.server.SessionArr s1 ! i) \<noteq> 1" using qs(1) assms(9-11) by (simp_all add: echoed_def)
  have "\<exists>pk. NetServer.get_packet p s1 = Inr pk \<and> packet_wf pk" if "p \<in> set qs" for p
  proof -
    have "0 < session_refs s1 p" using held_in_queue [OF i1] that q(1) by simp
    with held_get [OF s1(2), of p] show ?thesis by (auto simp: good_packet_def)
  qed
  with SendPost_all [OF i1 refl refs_inv_nth [OF s1(2) i1] q(2,3)] obtain s2 where
    s2: "NetServer.SendPost i None s1 = Inr (s2, True)" "NetServer.server.Io s2 = NetServer.server.Io s1 @ [IoSend i (map (packet_bytes s1) qs)]"
    using q(1) qs(2) assms(12,13) by force
  have l: "length (map (NetServer.server.App s) [0..<length ms]) = length ms" by simp
  have "\<exists>c'. client_recv_chunks (test_env (Packet_ctor kBufferDefault fill)) tid' j replies c = Some (Inr c') \<and>
      rx_inv E j [] (to_server c') \<and> NetClient.client.App c' =
       fold (count_echo (NetClient.session.SessionID (NetClient.client.SessionArr c ! j))) ms (NetClient.client.App c)"
    if "concat replies = concat (map2 frame (map (NetServer.server.App s) [0..<length ms]) ms)" "in_windows (frame_sizes E ms) 0 replies" for replies
    using load_client.client_stream [OF assms(3,4,18) that(1) l that(2) ne] .
  with s1(1) s2 qs(3) show ?thesis by (auto simp: count_all)
qed

text \<open>C17. The echo benchmark loses and invents nothing. Take a load client (not in reconnect mode) whose slot has a live,
  idle connection, and an echo server in a reachable state whose end of it is idle too. Over any turns of the sender
  thread in which between 1 and 1000 sends come due, each due turn queues one test message with its random payload; the
  next \<open>SendPost\<close> puts all of them, framed, into one \<open>WSASend\<close>. In whatever pieces that fit the receive windows they
  reach the server, its receive handler ends without a fault, and its next \<open>SendPost\<close> issues one \<open>WSASend\<close> with the
  same messages in the same order, framed with the server's next random numbers. In whatever pieces that fit the receive
  windows these reach the client, its handler ends without a crash, and exactly as many messages are counted and verified.
  (One direction at a time: sends and echoes of one connection that overlap are not followed here.)\<close>

theorem echo_round_trip:
  assumes srv: "server_run (echo_env new tid) frame max_len s U" "fresh_packet new" "rx_inv E i [] s" "live_id s sid"
      "i = NetServer.FindSession sid" "x = NetServer.server.SessionArr s ! i" "NetServer.session.SessionUseFlag x"
      "NetServer.session.SendFlag x \<noteq> 1" "NetServer.session.SendQ x = []"
    and enc: "frame_encoder E frame max_len" "0 < GetHeaderSize E" "6 \<le> max_len"
    and cl: "refs_inv (to_server c) V" "live_id (to_server c) csid" "rx_inv E j [] (to_server c)" "j = NetClient.FindSession csid"
      "y = NetClient.client.SessionArr c ! j" "NetClient.session.SessionUseFlag y" "NetClient.session.SendFlag y \<noteq> 1"
      "NetClient.session.SendQ y = []"
    and slot: "k < length (States (NetClient.client.App c))" "w = States (NetClient.client.App c) ! k" "currentSessionID w = csid"
      "csid \<noteq> 0" "\<not> disconnected w" "mode ctx \<noteq> 2" "ctx_sane ctx"
    and ds: "ds = due ctx (nextSendTime w) turns" "ds \<noteq> []" "length ds \<le> 1000" "ms = map request ds"
  shows "\<exists>c1 c2 bufs. slot_turns (Packet_ctor kBufferDefault fill) tid1 ctx k turns c = Inr c1 \<and>
     NetClient.SendPost j None c1 = Inr (c2, True) \<and> NetClient.client.Io c2 = NetClient.client.Io c1 @ [IoSend j bufs] \<and>
     bufs = map2 frame (map rand_encode ds) ms \<and>
     (\<forall>pieces. concat pieces = concat bufs \<and> in_windows (frame_sizes E ms) 0 pieces \<longrightarrow>
       (\<exists>s1 s2 echoes. recv_chunks (echo_env new tid) tid i pieces s = Some (Inr s1) \<and>
          NetServer.SendPost i None s1 = Inr (s2, True) \<and> NetServer.server.Io s2 = NetServer.server.Io s1 @ [IoSend i echoes] \<and>
          echoes = map2 frame (map (NetServer.server.App s) [0..<length ms]) ms \<and>
          (\<forall>replies. concat replies = concat echoes \<and> in_windows (frame_sizes E ms) 0 replies \<longrightarrow>
            (\<exists>c3. client_recv_chunks (test_env (Packet_ctor kBufferDefault fill)) tid2 j replies c2 = Some (Inr c3) \<and>
               RecvCnt (NetClient.client.App c3) = RecvCnt (NetClient.client.App c) + of_nat (length ms) \<and>
               VerifiedCnt (NetClient.client.App c3) = VerifiedCnt (NetClient.client.App c) + of_nat (length ms)))))"
proof -
  have E: "NetClient.client.Encoder c = E" using cl(3) by (simp add: rx_inv_def tr)
  from requests_posted [OF cl(1,2) E enc(1,3) fresh_packet_ctor slot(7,6,1-5) cl(4-8) ds(1-3) cl(3), of fill tid1]
  obtain c1 c2 bufs where c: "slot_turns (Packet_ctor kBufferDefault fill) tid1 ctx k turns c = Inr c1"
     "NetClient.SendPost j None c1 = Inr (c2, True)" "NetClient.client.Io c2 = NetClient.client.Io c1 @ [IoSend j bufs]"
     "bufs = map2 frame (map rand_encode ds) ms" "rx_inv E j [] (to_server c2)"
     "RecvCnt (NetClient.client.App c2) = RecvCnt (NetClient.client.App c)"
     "VerifiedCnt (NetClient.client.App c2) = VerifiedCnt (NetClient.client.App c)" unfolding ds(4) [symmetric] by blast
  have ms: "ms \<noteq> []" "length ms \<le> 1000" "\<forall>m \<in> set ms. fits max_len m \<and> echo_message m" "length (map rand_encode ds) = length ms"
    using ds(2-4) enc(3) by (auto simp: fits_def max_message_def request_props)
  note goes_back = echo_there_and_back [OF srv(1,2) enc(1,2) srv(3-9) ms _ _ c(5), where fill = fill and tid' = tid2]
  have "\<exists>s1 s2 echoes. recv_chunks (echo_env new tid) tid i pieces s = Some (Inr s1) \<and>
          NetServer.SendPost i None s1 = Inr (s2, True) \<and> NetServer.server.Io s2 = NetServer.server.Io s1 @ [IoSend i echoes] \<and>
          echoes = map2 frame (map (NetServer.server.App s) [0..<length ms]) ms \<and>
          (\<forall>replies. concat replies = concat echoes \<and> in_windows (frame_sizes E ms) 0 replies \<longrightarrow>
            (\<exists>c3. client_recv_chunks (test_env (Packet_ctor kBufferDefault fill)) tid2 j replies c2 = Some (Inr c3) \<and>
               RecvCnt (NetClient.client.App c3) = RecvCnt (NetClient.client.App c) + of_nat (length ms) \<and>
               VerifiedCnt (NetClient.client.App c3) = VerifiedCnt (NetClient.client.App c) + of_nat (length ms)))"
    if p: "concat pieces = concat bufs" "in_windows (frame_sizes E ms) 0 pieces" for pieces
  proof -
    from goes_back [OF p(1) [unfolded c(4)] p(2)] obtain s1 s2 echoes where e: "recv_chunks (echo_env new tid) tid i pieces s = Some (Inr s1)"
      "NetServer.SendPost i None s1 = Inr (s2, True)" "NetServer.server.Io s2 = NetServer.server.Io s1 @ [IoSend i echoes]"
      "echoes = map2 frame (map (NetServer.server.App s) [0..<length ms]) ms"
      "\<forall>replies. concat replies = concat echoes \<and> in_windows (frame_sizes E ms) 0 replies \<longrightarrow>
         (\<exists>c'. client_recv_chunks (test_env (Packet_ctor kBufferDefault fill)) tid2 j replies c2 = Some (Inr c') \<and>
          NetClient.client.App c' = (NetClient.client.App c2)\<lparr>RecvCnt := RecvCnt (NetClient.client.App c2) + of_nat (length ms),
            VerifiedCnt := VerifiedCnt (NetClient.client.App c2) + of_nat (length ms)\<rparr>)" by blast
    have "\<exists>c3. client_recv_chunks (test_env (Packet_ctor kBufferDefault fill)) tid2 j replies c2 = Some (Inr c3) \<and>
               RecvCnt (NetClient.client.App c3) = RecvCnt (NetClient.client.App c) + of_nat (length ms) \<and>
               VerifiedCnt (NetClient.client.App c3) = VerifiedCnt (NetClient.client.App c) + of_nat (length ms)"
      if r: "concat replies = concat echoes \<and> in_windows (frame_sizes E ms) 0 replies" for replies
      using e(5) [rule_format, OF r] c(6,7) by auto
    with e(1-4) show ?thesis by blast
  qed
  with c(1-4) show ?thesis by blast
qed

text \<open>An echo server with one accepted session, and a client, both as their constructors and \<open>Start\<close> make them.\<close>

abbreviation bench_packet :: packet where
  "bench_packet \<equiv> Packet_ctor kBufferDefault (\<lambda>_. 0)"

definition echo_started :: echo_server where
  "echo_started = NetServer.Start_sessions (\<lambda>_. 0) 1 1 (NetServer_ctor None (init_pool 4096 64) (\<lambda>n. int n))"

definition echo_accepted :: echo_server where
  "echo_accepted = NetServer.set_session 0 (NetServer.init_session 1 (NetServer.start_session (\<lambda>_. 0) 0))
     (NetServer.server.FreeSessionStack_update (\<lambda>_. []) (NetServer.server.SessionIDCnt_update (\<lambda>_. 1) echo_started))"

lemma echo_accepted_run:
  "server_run (echo_env bench_packet 0) (xor_frame_rnd demo_encoder) 4096 echo_accepted (\<lambda>p. 0)"
proof -
  have r0: "server_run (echo_env bench_packet 0) (xor_frame_rnd demo_encoder) 4096 echo_started (\<lambda>p. 0)"
    by (rule server_run.start [of _ "\<lambda>_. 0" 1 4096 64])
      (simp_all add: echo_started_def NetServer.Start_sessions_def NetServer_ctor_def)
  have "NetServer.GetFreeSession echo_started = Inr (echo_accepted, Some 0)"
    by (simp add: NetServer.GetFreeSession_def NetServer.InitSession_def NetServer.GenerateSessionID_def
        NetServer.with_session_def echo_accepted_def echo_started_def NetServer.Start_sessions_def NetServer_ctor_def)
  from server_run.accept [OF r0 _ this] show ?thesis
    by (simp add: echo_started_def NetServer.Start_sessions_def NetServer_ctor_def)
qed

lemma echo_accepted_facts:
  "rx_inv (xor_vtable demo_encoder) 0 [] echo_accepted" "live_id echo_accepted 1" "NetServer.FindSession 1 = 0"
  "NetServer.session.SessionUseFlag (NetServer.server.SessionArr echo_accepted ! 0)"
  "NetServer.session.SendFlag (NetServer.server.SessionArr echo_accepted ! 0) \<noteq> 1"
  "NetServer.session.SendQ (NetServer.server.SessionArr echo_accepted ! 0) = []"
  "NetServer.server.App echo_accepted = (\<lambda>n. int n)"
proof -
  have "packet_wf (ClearPacket (Packet_ctor 4096 (\<lambda>_. 0)))"
    by (intro packet_wf_Clear packet_wf_ctor) (simp_all add: kHeaderDefault_def Packet_ctor_def)
  then show "rx_inv (xor_vtable demo_encoder) 0 [] echo_accepted"
    using pool_pkts_init [of 64 4096]
    by (auto simp: rx_inv_def echo_accepted_def echo_started_def NetServer.Start_sessions_def NetServer_ctor_def
        NetServer.default_encoder_def NetServer.init_session_def NetServer.start_session_def NetServer.blank_session_def
        NetServer.set_session_def)
       (simp_all add: ClearPacket_def Packet_ctor_def)
qed (simp_all add: live_id_def NetServer.FindSession_def echo_accepted_def echo_started_def NetServer.Start_sessions_def
    NetServer_ctor_def NetServer.init_session_def NetServer.start_session_def NetServer.blank_session_def NetServer.set_session_def)

definition echo_client :: "test_client client" where
  "echo_client = NetClient.set_session 0 (NetClient.init_session 1 (NetClient.start_session (\<lambda>_. 0) 0))
     (NetClient.client.FreeSessionStack_update (\<lambda>_. []) (NetClient.client.SessionIDCnt_update (\<lambda>_. 1)
       (NetClient.Start_sessions (\<lambda>_. 0) 1 1 (NetClient_ctor None (init_pool 4096 64)
         \<lparr>States = [new_slot\<lparr>currentSessionID := 1\<rparr>], ConnectCnt = 1, DisconnectCnt = 0, RecvCnt = 0, VerifiedCnt = 0\<rparr>))))"

lemma echo_client_accepted:
  "NetServer.server.SessionArr (to_server echo_client) = NetServer.server.SessionArr echo_accepted"
  "NetServer.server.FreeSessionStack (to_server echo_client) = NetServer.server.FreeSessionStack echo_accepted"
  "NetServer.server.PacketPool (to_server echo_client) = NetServer.server.PacketPool echo_accepted"
  "NetServer.server.Encoder (to_server echo_client) = NetServer.server.Encoder echo_accepted"
  by (simp_all add: echo_client_def echo_accepted_def echo_started_def to_server_def to_session_def
    NetClient.Start_sessions_def NetClient_ctor_def NetServer.Start_sessions_def NetServer_ctor_def
    NetClient.init_session_def NetClient.start_session_def NetClient.blank_session_def NetClient.set_session_def
    NetServer.init_session_def NetServer.start_session_def NetServer.blank_session_def NetServer.set_session_def
    NetClient.default_encoder_def NetServer.default_encoder_def NetClient.kSendBuffer_def NetServer.kSendBuffer_def)

lemma echo_client_facts:
  "refs_inv (to_server echo_client) (\<lambda>p. 0)" "live_id (to_server echo_client) 1" "rx_inv (xor_vtable demo_encoder) 0 [] (to_server echo_client)"
proof -
  have "refs_inv echo_accepted (\<lambda>p. 0)"
    using server_run_inv [OF echo_accepted_run quiet_echo] by (simp add: echo_env_def echo_base_def fresh_packet_ctor)
  then show "refs_inv (to_server echo_client) (\<lambda>p. 0)"
    unfolding refs_inv_def session_refs_def free_stack_ok_def echo_client_accepted .
  show "live_id (to_server echo_client) 1" using echo_accepted_facts(2) unfolding live_id_def echo_client_accepted .
  show "rx_inv (xor_vtable demo_encoder) 0 [] (to_server echo_client)"
    using echo_accepted_facts(1) unfolding rx_inv_def echo_client_accepted .
qed

definition echo_ctx :: sender_ctx where
  "echo_ctx = \<lparr>serverPort = 6000, mode = 1, intervalMin = 5, intervalMax = 5, lifetimeMin = 0, lifetimeMax = 0,
     reconnectMin = 0, reconnectMax = 0\<rparr>"

definition echo_io :: "int \<Rightarrow> slot_io" where
  "echo_io v = \<lparr>connect_io = \<lparr>socket_result = None, InetPton_result = None, connect_ok = False\<rparr>, recv_io = None,
     rand_a = 0, rand_b = 0, rand_payload = v, rand_encode = 4\<rparr>"

text \<open>Of three turns of the slot two are due.\<close>

theorem echo_round_trip_witness:
  "\<exists>c1 c2 c3 bufs s1 s2 echoes.
     slot_turns bench_packet 0 echo_ctx 0 [(0, echo_io 7), (3, echo_io 8), (5, echo_io 9)] echo_client = Inr c1 \<and>
     NetClient.SendPost 0 None c1 = Inr (c2, True) \<and> NetClient.client.Io c2 = NetClient.client.Io c1 @ [IoSend 0 bufs] \<and>
     recv_chunks (echo_env bench_packet 0) 0 0 (map (\<lambda>b. [b]) (concat bufs)) echo_accepted = Some (Inr s1) \<and>
     NetServer.SendPost 0 None s1 = Inr (s2, True) \<and> NetServer.server.Io s2 = NetServer.server.Io s1 @ [IoSend 0 echoes] \<and>
     client_recv_chunks (test_env bench_packet) 0 0 (map (\<lambda>b. [b]) (concat echoes)) c2 = Some (Inr c3) \<and>
     VerifiedCnt (NetClient.client.App c3) = 2"
proof -
  let ?f = "xor_frame_rnd demo_encoder" and ?E = "xor_vtable demo_encoder"
  let ?turns = "[(0, echo_io 7), (3, echo_io 8), (5, echo_io 9)]" and ?ds = "[echo_io 7, echo_io 9]"
  have f: "frame_encoder ?E ?f 4096"
    using xor.frame_encoder_axioms [of demo_encoder] by (simp add: xor_max_len_def XorPacketEncoder_def)
  have h: "0 < GetHeaderSize ?E" by (simp add: xor_vtable_def sizeof_NetHeader_def)
  have i0: "0 = NetClient.FindSession 1" using echo_accepted_facts(3) by (simp add: tr)
  have y: "NetClient.session.SessionUseFlag (NetClient.client.SessionArr echo_client ! 0)"
    "NetClient.session.SendFlag (NetClient.client.SessionArr echo_client ! 0) \<noteq> 1"
    "NetClient.session.SendQ (NetClient.client.SessionArr echo_client ! 0) = []"
    by (simp_all add: echo_client_def NetClient.Start_sessions_def NetClient_ctor_def NetClient.init_session_def
      NetClient.start_session_def NetClient.blank_session_def NetClient.set_session_def)
  have a: "NetClient.client.App echo_client = \<lparr>States = [new_slot\<lparr>currentSessionID := 1\<rparr>], ConnectCnt = 1, DisconnectCnt = 0,
     RecvCnt = 0, VerifiedCnt = 0\<rparr>"
    by (simp add: echo_client_def NetClient.Start_sessions_def NetClient_ctor_def NetClient.set_session_def)
  have w: "0 < length (States (NetClient.client.App echo_client))" "currentSessionID (States (NetClient.client.App echo_client) ! 0) = 1"
    "\<not> disconnected (States (NetClient.client.App echo_client) ! 0)" "nextSendTime (States (NetClient.client.App echo_client) ! 0) = 0"
    by (simp_all add: a new_slot_def)
  have x: "mode echo_ctx \<noteq> 2" "ctx_sane echo_ctx" by (simp_all add: echo_ctx_def ctx_sane_def)
  have ds: "?ds = due echo_ctx (nextSendTime (States (NetClient.client.App echo_client) ! 0)) ?turns"
    by (simp add: w(4) echo_ctx_def echo_io_def pause_def RandomBetween_def)
  note F = echo_accepted_facts
  note T = echo_round_trip [OF echo_accepted_run fresh_packet_ctor F(1,2) F(3) [symmetric] refl F(4-6) f h _ echo_client_facts(1-3) i0
    refl y w(1) refl w(2) _ w(3) x ds _ _ refl, of "\<lambda>_. 0" 0 0]
  have win: "in_windows (frame_sizes ?E (map request ?ds)) 0 (map (\<lambda>b. [b]) bs)" if "length bs = 22" for bs
    using that by (intro small_pieces_fit) (auto simp: frame_sizes_def request_props xor_vtable_def sizeof_NetHeader_def o_def)
  have fl: "length (?f r m) = 5 + length m" for r m by (simp add: xor_frame_rnd_def sizeof_NetHeader_def)
  have one: "concat (map (\<lambda>b. [b]) bs) = bs" for bs :: "byte list" by simp
  from T obtain c1 c2 bufs where r: "slot_turns bench_packet 0 echo_ctx 0 ?turns echo_client = Inr c1"
     "NetClient.SendPost 0 None c1 = Inr (c2, True)" "NetClient.client.Io c2 = NetClient.client.Io c1 @ [IoSend 0 bufs]"
     "bufs = map2 ?f (map rand_encode ?ds) (map request ?ds)"
     "\<forall>pieces. concat pieces = concat bufs \<and> in_windows (frame_sizes ?E (map request ?ds)) 0 pieces \<longrightarrow>
       (\<exists>s1 s2 echoes. recv_chunks (echo_env bench_packet 0) 0 0 pieces echo_accepted = Some (Inr s1) \<and>
          NetServer.SendPost 0 None s1 = Inr (s2, True) \<and> NetServer.server.Io s2 = NetServer.server.Io s1 @ [IoSend 0 echoes] \<and>
          echoes = map2 ?f (map (NetServer.server.App echo_accepted) [0..<length (map request ?ds)]) (map request ?ds) \<and>
          (\<forall>replies. concat replies = concat echoes \<and> in_windows (frame_sizes ?E (map request ?ds)) 0 replies \<longrightarrow>
            (\<exists>c3. client_recv_chunks (test_env bench_packet) 0 0 replies c2 = Some (Inr c3) \<and>
               RecvCnt (NetClient.client.App c3) = RecvCnt (NetClient.client.App echo_client) + of_nat (length (map request ?ds)) \<and>
               VerifiedCnt (NetClient.client.App c3) = VerifiedCnt (NetClient.client.App echo_client) + of_nat (length (map request ?ds)))))"
    by auto
  have "length (concat bufs) = 22" using r(4) by (simp add: fl request_props)
  from r(5) [rule_format, OF conjI, OF one win [OF this]] obtain s1 s2 echoes where
    s: "recv_chunks (echo_env bench_packet 0) 0 0 (map (\<lambda>b. [b]) (concat bufs)) echo_accepted = Some (Inr s1)"
      "NetServer.SendPost 0 None s1 = Inr (s2, True)" "NetServer.server.Io s2 = NetServer.server.Io s1 @ [IoSend 0 echoes]"
      "echoes = map2 ?f (map (NetServer.server.App echo_accepted) [0..<length (map request ?ds)]) (map request ?ds)"
      "\<forall>replies. concat replies = concat echoes \<and> in_windows (frame_sizes ?E (map request ?ds)) 0 replies \<longrightarrow>
        (\<exists>c3. client_recv_chunks (test_env bench_packet) 0 0 replies c2 = Some (Inr c3) \<and>
           RecvCnt (NetClient.client.App c3) = RecvCnt (NetClient.client.App echo_client) + of_nat (length (map request ?ds)) \<and>
           VerifiedCnt (NetClient.client.App c3) = VerifiedCnt (NetClient.client.App echo_client) + of_nat (length (map request ?ds)))"
    by blast
  have "length (concat echoes) = 22" using s(4) by (simp add: fl request_props upt_rec)
  from s(5) [rule_format, OF conjI, OF one win [OF this]] obtain c3 where
    "client_recv_chunks (test_env bench_packet) 0 0 (map (\<lambda>b. [b]) (concat echoes)) c2 = Some (Inr c3)"
    "VerifiedCnt (NetClient.client.App c3) = 2" by (auto simp: a)
  with r(1-3) s(1-3) show ?thesis by blast
qed

end
