(* ===== verification/BenchSettings.thy ===== *)
theory BenchSettings
  imports IniValues
begin

text \<open>
  The settings of the two benchmark programs (Examples/TestServer/main.cpp, Examples/TestClient/main.cpp): both read
  one ini file, check it, each in its own way, and compute how long they run. An exit with code 1 is an error
  value; the two products that decide about warnings are there for their overflow only.
\<close>

subsection \<open>Reading\<close>

record bench_ini =
  bLabel :: string
  bOutputDir :: string
  bMinutes :: int
  bTrim :: int
  bPort :: int
  bMaxUser :: int
  bServerWorkers :: int
  bNagle :: bool
  bIdleTimeout :: int
  bServerIP :: string
  bServerPort :: int
  bClientCount :: int
  bClientWorkers :: int
  bSendMin :: int
  bSendMax :: int
  bMode :: int
  bLifeMin :: int
  bLifeMax :: int
  bReconMin :: int
  bReconMax :: int

text \<open>The getters of the two programs, in their order.\<close>

definition server_read :: "config \<Rightarrow> config \<times> bench_ini" where
  "server_read config =
     (let (c1, label) = GetString ''Run'' ''Label'' ''run'' config;
          (c2, outputDir) = GetString ''Run'' ''OutputDir'' ''Benchmark'' c1;
          (c3, analysisMinutes) = GetIntRequired ''Analysis'' ''Minutes'' c2;
          (c4, trimMinutes) = GetIntRequired ''Analysis'' ''Trim'' c3;
          (c5, port) = GetIntRequired ''Server'' ''Port'' c4;
          (c6, maxUser) = GetIntRequired ''Server'' ''MaxUser'' c5;
          (c7, workerThreadCnt) = GetInt ''Server'' ''WorkerThreadCnt'' 0 c6;
          (c8, nagleEnabled) = GetBoolRequired ''Server'' ''NagleEnabled'' c7;
          (c9, idleTimeoutMin) = GetIntRequired ''Server'' ''IdleTimeout'' c8;
          (c10, clientServerIP) = GetStringRequired ''Client'' ''ServerIP'' c9;
          (c11, clientServerPort) = GetIntRequired ''Client'' ''ServerPort'' c10;
          (c12, clientCount) = GetIntRequired ''Client'' ''ClientCount'' c11;
          (c13, clientWorkerCnt) = GetInt ''Client'' ''WorkerThreadCnt'' 0 c12;
          (c14, sendIntervalMin) = GetIntRequired ''Client'' ''SendIntervalMin'' c13;
          (c15, sendIntervalMax) = GetIntRequired ''Client'' ''SendIntervalMax'' c14;
          (c16, md) = GetIntRequired ''Client'' ''Mode'' c15;
          (c17, lifetimeMin) = GetIntRequired ''Client'' ''LifetimeMin'' c16;
          (c18, lifetimeMax) = GetIntRequired ''Client'' ''LifetimeMax'' c17;
          (c19, reconnectMin) = GetIntRequired ''Client'' ''ReconnectMin'' c18;
          (c20, reconnectMax) = GetIntRequired ''Client'' ''ReconnectMax'' c19
      in (c20, \<lparr>bLabel = label, bOutputDir = outputDir, bMinutes = analysisMinutes, bTrim = trimMinutes, bPort =
            port, bMaxUser = maxUser, bServerWorkers = workerThreadCnt, bNagle = nagleEnabled, bIdleTimeout =
            idleTimeoutMin, bServerIP = clientServerIP, bServerPort = clientServerPort, bClientCount =
            clientCount, bClientWorkers = clientWorkerCnt, bSendMin = sendIntervalMin, bSendMax =
            sendIntervalMax, bMode = md, bLifeMin = lifetimeMin, bLifeMax = lifetimeMax, bReconMin =
            reconnectMin, bReconMax = reconnectMax\<rparr>))"

definition client_read :: "config \<Rightarrow> config \<times> bench_ini" where
  "client_read config =
     (let (c1, label) = GetString ''Run'' ''Label'' ''run'' config;
          (c2, outputDir) = GetString ''Run'' ''OutputDir'' ''Benchmark'' c1;
          (c3, analysisMinutes) = GetIntRequired ''Analysis'' ''Minutes'' c2;
          (c4, trimMinutes) = GetIntRequired ''Analysis'' ''Trim'' c3;
          (c5, serverPortCfg) = GetIntRequired ''Server'' ''Port'' c4;
          (c6, maxUser) = GetIntRequired ''Server'' ''MaxUser'' c5;
          (c7, serverWorkerCnt) = GetInt ''Server'' ''WorkerThreadCnt'' 0 c6;
          (c8, nagleEnabled) = GetBoolRequired ''Server'' ''NagleEnabled'' c7;
          (c9, idleTimeoutMin) = GetIntRequired ''Server'' ''IdleTimeout'' c8;
          (c10, serverIP) = GetStringRequired ''Client'' ''ServerIP'' c9;
          (c11, serverPort) = GetIntRequired ''Client'' ''ServerPort'' c10;
          (c12, clientCount) = GetIntRequired ''Client'' ''ClientCount'' c11;
          (c13, workerThreadCnt) = GetInt ''Client'' ''WorkerThreadCnt'' 0 c12;
          (c14, sendIntervalMin) = GetIntRequired ''Client'' ''SendIntervalMin'' c13;
          (c15, sendIntervalMax) = GetIntRequired ''Client'' ''SendIntervalMax'' c14;
          (c16, md) = GetIntRequired ''Client'' ''Mode'' c15;
          (c17, lifetimeMin) = GetIntRequired ''Client'' ''LifetimeMin'' c16;
          (c18, lifetimeMax) = GetIntRequired ''Client'' ''LifetimeMax'' c17;
          (c19, reconnectMin) = GetIntRequired ''Client'' ''ReconnectMin'' c18;
          (c20, reconnectMax) = GetIntRequired ''Client'' ''ReconnectMax'' c19
      in (c20, \<lparr>bLabel = label, bOutputDir = outputDir, bMinutes = analysisMinutes, bTrim = trimMinutes, bPort =
            serverPortCfg, bMaxUser = maxUser, bServerWorkers = serverWorkerCnt, bNagle = nagleEnabled,
            bIdleTimeout = idleTimeoutMin, bServerIP = serverIP, bServerPort = serverPort, bClientCount =
            clientCount, bClientWorkers = workerThreadCnt, bSendMin = sendIntervalMin, bSendMax =
            sendIntervalMax, bMode = md, bLifeMin = lifetimeMin, bLifeMax = lifetimeMax, bReconMin =
            reconnectMin, bReconMax = reconnectMax\<rparr>))"

subsection \<open>Checking\<close>

datatype bench_error =
    BLoadFailed string
  | BConfigError string
  | BUnknownKeys string
  | BNegative
  | BTrimTooLong
  | BTooManyClients int int
  | BPortsDiffer int int
  | BBadRange
  | BBadMode2

text \<open>\<open>analysisMinutes > 0 && trimMinutes * 2 >= analysisMinutes\<close>\<close>

definition trim_too_long :: "bench_ini \<Rightarrow> fault + bool" where
  "trim_too_long i =
     (if 0 < bMinutes i then ebind (chk32 (bTrim i * 2)) (\<lambda>t. Inr (bMinutes i \<le> t)) else Inr False)"

text \<open>\<open>mode == 2 && idleTimeoutMin * 60000 <= reconnectMax\<close>, the condition of a warning\<close>

definition idle_warning :: "bench_ini \<Rightarrow> fault + bool" where
  "idle_warning i =
     (if bMode i = 2 then ebind (chk32 (bIdleTimeout i * 60000)) (\<lambda>t. Inr (t \<le> bReconMax i)) else Inr False)"

definition bench_server_check :: "bench_ini \<Rightarrow> fault + bench_error option" where
  "bench_server_check i =
     (if bMinutes i < 0 \<or> bTrim i < 0 then Inr (Some BNegative)
      else ebind (trim_too_long i) (\<lambda>long.
        if long then Inr (Some BTrimTooLong)
        else if bMaxUser i < bClientCount i then Inr (Some (BTooManyClients (bMaxUser i) (bClientCount i)))
        else if bPort i \<noteq> bServerPort i then Inr (Some (BPortsDiffer (bPort i) (bServerPort i)))
        else ebind (idle_warning i) (\<lambda>warned. Inr None)))"

definition bench_client_check :: "bench_ini \<Rightarrow> fault + bench_error option" where
  "bench_client_check i =
     (if bMinutes i < 0 \<or> bTrim i < 0 then Inr (Some BNegative)
      else ebind (trim_too_long i) (\<lambda>long.
        if long then Inr (Some BTrimTooLong)
        else if bServerPort i \<noteq> bPort i then Inr (Some (BPortsDiffer (bServerPort i) (bPort i)))
        else if bMaxUser i < bClientCount i then Inr (Some (BTooManyClients (bMaxUser i) (bClientCount i)))
        else if bClientCount i \<le> 0 \<or> bSendMin i \<le> 0 \<or> bSendMax i < bSendMin i then Inr (Some BBadRange)
        else if bMode i = 2 \<and> (bLifeMin i \<le> 0 \<or> bLifeMax i < bLifeMin i \<or> bReconMax i < bReconMin i) then Inr (Some BBadMode2)
        else ebind (idle_warning i) (\<lambda>warned. Inr None)))"

definition bench_server_configure :: "(string \<Rightarrow> string option) \<Rightarrow> string \<Rightarrow> config \<Rightarrow> fault + bench_error + bench_ini" where
  "bench_server_configure open_file path c0 =
     (let (c, loaded) = Load open_file (Some path) c0
      in if \<not> loaded then Inr (Inl (BLoadFailed (LastError c)))
         else
           let (c1, ini) = server_read c
           in if HasError c1 then Inr (Inl (BConfigError (LastError c1)))
              else if GetUnusedKeys c1 \<noteq> [] then Inr (Inl (BUnknownKeys (GetUnusedKeys c1)))
              else ebind (bench_server_check ini) (\<lambda>r. Inr (case r of Some e \<Rightarrow> Inl e | None \<Rightarrow> Inr ini)))"

definition bench_client_configure :: "(string \<Rightarrow> string option) \<Rightarrow> string \<Rightarrow> config \<Rightarrow> fault + bench_error + bench_ini" where
  "bench_client_configure open_file path c0 =
     (let (c, loaded) = Load open_file (Some path) c0
      in if \<not> loaded then Inr (Inl (BLoadFailed (LastError c)))
         else
           let (c1, ini) = client_read c
           in if HasError c1 then Inr (Inl (BConfigError (LastError c1)))
              else if GetUnusedKeys c1 \<noteq> [] then Inr (Inl (BUnknownKeys (GetUnusedKeys c1)))
              else ebind (bench_client_check ini) (\<lambda>r. Inr (case r of Some e \<Rightarrow> Inl e | None \<Rightarrow> Inr ini)))"

subsection \<open>How long a run lasts\<close>

definition kUnlimitedRunCapSec :: int where "kUnlimitedRunCapSec = 604800"
definition kSampleReserveMargin :: int where "kSampleReserveMargin = 600"

definition server_workers :: "int \<Rightarrow> int \<Rightarrow> int" where
  "server_workers workerThreadCnt cores =
     (let n = (if workerThreadCnt \<le> 0 then cores - 1 else workerThreadCnt) in if n < 1 then 1 else n)"

definition client_workers :: "int \<Rightarrow> int \<Rightarrow> int" where
  "client_workers workerThreadCnt cores =
     (let n = (if 0 < workerThreadCnt then workerThreadCnt else cores - 1) in if n < 1 then 1 else n)"

text \<open>\<open>(analysisMinutes > 0) ? ((analysisMinutes + trimMinutes * 2) * 60) : kUnlimitedRunCapSec\<close>\<close>

definition run_seconds :: "bench_ini \<Rightarrow> fault + int" where
  "run_seconds i =
     (if 0 < bMinutes i then
        ebind (chk32 (bTrim i * 2)) (\<lambda>t. ebind (chk32 (bMinutes i + t)) (\<lambda>m. chk32 (m * 60)))
      else Inr kUnlimitedRunCapSec)"

text \<open>\<open>idleTimeoutSec\<close> and \<open>maxDurationSec\<close> of the server.\<close>

definition server_limits :: "bench_ini \<Rightarrow> fault + int \<times> int" where
  "server_limits i =
     ebind (chk32 (bIdleTimeout i * 60)) (\<lambda>idle.
     ebind (run_seconds i) (\<lambda>r.
     ebind (chk32 (r + idle)) (\<lambda>a.
     ebind (chk32 (a + 300)) (\<lambda>d. Inr (idle, d)))))"

text \<open>\<open>trimSec\<close> and \<open>runDurationSec\<close> of the client.\<close>

definition client_limits :: "bench_ini \<Rightarrow> fault + int \<times> int" where
  "client_limits i =
     ebind (chk32 (bTrim i * 60)) (\<lambda>trim.
     ebind (run_seconds i) (\<lambda>r. Inr (trim, r)))"

text \<open>The capacity asked for with \<open>samples.reserve\<close>; a \<open>size_t\<close>, so a negative duration wraps.\<close>

definition sample_reserve :: "int \<Rightarrow> u64" where
  "sample_reserve durationSec = word_of_int durationSec + 1 + word_of_int kSampleReserveMargin"

subsection \<open>Which files are accepted\<close>

definition bench_queries :: "cfg_query list" where
  "bench_queries =
     [QString ''Run'' ''Label'' ''run'',
      QString ''Run'' ''OutputDir'' ''Benchmark'',
      QIntRequired ''Analysis'' ''Minutes'',
      QIntRequired ''Analysis'' ''Trim'',
      QIntRequired ''Server'' ''Port'',
      QIntRequired ''Server'' ''MaxUser'',
      QInt ''Server'' ''WorkerThreadCnt'' 0,
      QBoolRequired ''Server'' ''NagleEnabled'',
      QIntRequired ''Server'' ''IdleTimeout'',
      QStringRequired ''Client'' ''ServerIP'',
      QIntRequired ''Client'' ''ServerPort'',
      QIntRequired ''Client'' ''ClientCount'',
      QInt ''Client'' ''WorkerThreadCnt'' 0,
      QIntRequired ''Client'' ''SendIntervalMin'',
      QIntRequired ''Client'' ''SendIntervalMax'',
      QIntRequired ''Client'' ''Mode'',
      QIntRequired ''Client'' ''LifetimeMin'',
      QIntRequired ''Client'' ''LifetimeMax'',
      QIntRequired ''Client'' ''ReconnectMin'',
      QIntRequired ''Client'' ''ReconnectMax'']"

definition bench_of :: "(string \<times> string \<Rightarrow> string option) \<Rightarrow> bench_ini" where
  "bench_of v =
     \<lparr>bLabel = text_or ''run'' (v (''Run'', ''Label'')),
      bOutputDir = text_or ''Benchmark'' (v (''Run'', ''OutputDir'')),
      bMinutes = int_value (v (''Analysis'', ''Minutes'')),
      bTrim = int_value (v (''Analysis'', ''Trim'')),
      bPort = int_value (v (''Server'', ''Port'')),
      bMaxUser = int_value (v (''Server'', ''MaxUser'')),
      bServerWorkers = int_or 0 (v (''Server'', ''WorkerThreadCnt'')),
      bNagle = bool_value (v (''Server'', ''NagleEnabled'')),
      bIdleTimeout = int_value (v (''Server'', ''IdleTimeout'')),
      bServerIP = text_value (v (''Client'', ''ServerIP'')),
      bServerPort = int_value (v (''Client'', ''ServerPort'')),
      bClientCount = int_value (v (''Client'', ''ClientCount'')),
      bClientWorkers = int_or 0 (v (''Client'', ''WorkerThreadCnt'')),
      bSendMin = int_value (v (''Client'', ''SendIntervalMin'')),
      bSendMax = int_value (v (''Client'', ''SendIntervalMax'')),
      bMode = int_value (v (''Client'', ''Mode'')),
      bLifeMin = int_value (v (''Client'', ''LifetimeMin'')),
      bLifeMax = int_value (v (''Client'', ''LifetimeMax'')),
      bReconMin = int_value (v (''Client'', ''ReconnectMin'')),
      bReconMax = int_value (v (''Client'', ''ReconnectMax''))\<rparr>"

lemma reads:
  "server_read c = (fold run_query bench_queries c, bench_of (value_at c))"
  "client_read c = (fold run_query bench_queries c, bench_of (value_at c))"
  by (simp_all add: server_read_def client_read_def getters run_query_value bench_queries_def bench_of_def del: run_query.simps)

definition server_valid :: "bench_ini \<Rightarrow> bool" where
  "server_valid i \<longleftrightarrow> 0 \<le> bMinutes i \<and> 0 \<le> bTrim i \<and> (0 < bMinutes i \<longrightarrow> 2 * bTrim i < bMinutes i) \<and>
     bClientCount i \<le> bMaxUser i \<and> bServerPort i = bPort i \<and>
     (bMode i = 2 \<longrightarrow> - (2 ^ 31) \<le> bIdleTimeout i * 60000 \<and> bIdleTimeout i * 60000 < 2 ^ 31)"

text \<open>What only the client asks for.\<close>

definition load_valid :: "bench_ini \<Rightarrow> bool" where
  "load_valid i \<longleftrightarrow> 1 \<le> bClientCount i \<and> 1 \<le> bSendMin i \<and> bSendMin i \<le> bSendMax i \<and>
     (bMode i = 2 \<longrightarrow> 1 \<le> bLifeMin i \<and> bLifeMin i \<le> bLifeMax i \<and> bReconMin i \<le> bReconMax i)"

lemma trim_too_long_False: "bMinutes i < 2 ^ 31 \<Longrightarrow> 0 \<le> bTrim i \<Longrightarrow>
    trim_too_long i = Inr False \<longleftrightarrow> (0 < bMinutes i \<longrightarrow> 2 * bTrim i < bMinutes i)"
  by (auto simp: trim_too_long_def chk32_def not_le)

lemma idle_warning_Inr: "(\<exists>b. idle_warning i = Inr b) \<longleftrightarrow>
    (bMode i = 2 \<longrightarrow> - (2 ^ 31) \<le> bIdleTimeout i * 60000 \<and> bIdleTimeout i * 60000 < 2 ^ 31)"
  by (auto simp: idle_warning_def chk32_def not_le not_less)

lemma bench_server_valid: "bMinutes i < 2 ^ 31 \<Longrightarrow> bench_server_check i = Inr None \<longleftrightarrow> server_valid i"
  using trim_too_long_False [of i] idle_warning_Inr [of i]
  by (auto simp: bench_server_check_def server_valid_def ebind_eq_Inr split: if_splits)

lemma client_check_valid: "bMinutes i < 2 ^ 31 \<Longrightarrow> bench_client_check i = Inr None \<longleftrightarrow> server_valid i \<and> load_valid i"
  using trim_too_long_False [of i] idle_warning_Inr [of i]
  by (auto simp: bench_client_check_def server_valid_def load_valid_def ebind_eq_Inr split: if_splits)

lemma bench_of_range: "bMinutes (bench_of v) < 2 ^ 31" "bTrim (bench_of v) < 2 ^ 31"
  by (simp_all add: bench_of_def int_value_range [simplified])

lemma configure_case: "(case r of None \<Rightarrow> Inr i | Some e \<Rightarrow> Inl e) = Inr j \<longleftrightarrow> r = None \<and> j = i"
  by (auto split: option.splits)

lemma bench_server_iff: "bench_server_configure open_file path c0 = Inr (Inr i) \<longleftrightarrow>
    (\<exists>c. Load open_file (Some path) c0 = (c, True) \<and> file_ok bench_queries c \<and> i = bench_of (value_at c) \<and> server_valid i)"
proof -
  obtain c loaded where l: "Load open_file (Some path) c0 = (c, loaded)" by fastforce
  show ?thesis
  proof (cases loaded)
    case True
    have ok: "\<not> HasError (fold run_query bench_queries c) \<and> GetUnusedKeys (fold run_query bench_queries c) = [] \<longleftrightarrow> file_ok bench_queries c"
      using loaded_check l True by simp
    show ?thesis
      using l True ok bench_server_valid [OF bench_of_range(1), of "value_at c"]
      by (auto simp: bench_server_configure_def reads ebind_eq_Inr configure_case)
  qed (use l in \<open>auto simp: bench_server_configure_def\<close>)
qed

lemma client_configure_iff: "bench_client_configure open_file path c0 = Inr (Inr i) \<longleftrightarrow>
    (\<exists>c. Load open_file (Some path) c0 = (c, True) \<and> file_ok bench_queries c \<and> i = bench_of (value_at c) \<and> server_valid i \<and> load_valid i)"
proof -
  obtain c loaded where l: "Load open_file (Some path) c0 = (c, loaded)" by fastforce
  show ?thesis
  proof (cases loaded)
    case True
    have ok: "\<not> HasError (fold run_query bench_queries c) \<and> GetUnusedKeys (fold run_query bench_queries c) = [] \<longleftrightarrow> file_ok bench_queries c"
      using loaded_check l True by simp
    show ?thesis
      using l True ok client_check_valid [OF bench_of_range(1), of "value_at c"]
      by (auto simp: bench_client_configure_def reads ebind_eq_Inr configure_case)
  qed (use l in \<open>auto simp: bench_client_configure_def\<close>)
qed

lemma run_seconds_ok:
  assumes "server_valid i"
  defines "r \<equiv> (if 0 < bMinutes i then (bMinutes i + 2 * bTrim i) * 60 else kUnlimitedRunCapSec)"
  shows "run_seconds i = (if r < 2 ^ 31 then Inr r else Inl SignedOverflow)"
  using assms by (auto simp: run_seconds_def server_valid_def chk32_def kUnlimitedRunCapSec_def algebra_simps)

text \<open>The shared file of the benchmark: the server accepts exactly the files that load, hold the twenty keys and
  no other (labels and thread counts may be missing), with numbers and booleans where they are expected, a trim that
  leaves something of the analysed time, equal ports, not more clients than sessions and, in mode 2, an idle time
  whose milliseconds fit an int; the load client accepts those of them whose client settings are in range too, and
  then both programs run with the same values. Nothing else is asked of \<open>MaxUser\<close> and the ports.\<close>

theorem bench_files_agree:
  "(bench_server_configure open_file path c0 = Inr (Inr i) \<longleftrightarrow>
      (\<exists>c. Load open_file (Some path) c0 = (c, True) \<and> file_ok bench_queries c \<and> i = bench_of (value_at c) \<and> server_valid i)) \<and>
   (bench_client_configure open_file path c0 = Inr (Inr i) \<longleftrightarrow> bench_server_configure open_file path c0 = Inr (Inr i) \<and> load_valid i)"
  unfolding bench_server_iff client_configure_iff by auto

text \<open>The server's limit is the client's running time and five minutes more than the idle time; it overflows
  exactly when a product or sum does not fit an int.\<close>

lemma limits_ok:
  assumes "server_valid i" "run_seconds i = Inr r"
  shows "0 \<le> r" "server_limits i = Inr (idle, d) \<Longrightarrow> idle = bIdleTimeout i * 60 \<and> d = r + idle + 300"
    "client_limits i = Inr (trim, r') \<Longrightarrow> trim = bTrim i * 60 \<and> 0 \<le> trim \<and> r' = r"
proof -
  show "0 \<le> r" using run_seconds_ok [OF assms(1)] assms by (auto simp: server_valid_def kUnlimitedRunCapSec_def split: if_splits)
qed (use assms in \<open>auto simp: server_limits_def client_limits_def chk32_eq_Inr ebind_eq_Inr server_valid_def\<close>)

text \<open>A file to evaluate on: one minute, nothing trimmed, one minute of idle time.\<close>

definition demo_bench :: ini_file where
  "demo_bench =
     [(''Analysis'', [(''Minutes'', ''1''), (''Trim'', ''0'')]),
      (''Server'', [(''Port'', ''12001''), (''MaxUser'', ''2''), (''NagleEnabled'', ''false''), (''IdleTimeout'', ''1'')]),
      (''Client'', [(''ServerIP'', ''127.0.0.1''), (''ServerPort'', ''12001''), (''ClientCount'', ''2''), (''SendIntervalMin'', ''1''),
        (''SendIntervalMax'', ''2''), (''Mode'', ''1''), (''LifetimeMin'', ''0''), (''LifetimeMax'', ''0''), (''ReconnectMin'', ''0''),
        (''ReconnectMax'', ''0'')])]"

definition demo_settings :: bench_ini where
  "demo_settings = \<lparr>bLabel = ''run'', bOutputDir = ''Benchmark'', bMinutes = 1, bTrim = 0, bPort = 12001, bMaxUser = 2,
     bServerWorkers = 0, bNagle = False, bIdleTimeout = 1, bServerIP = ''127.0.0.1'', bServerPort = 12001, bClientCount = 2,
     bClientWorkers = 0, bSendMin = 1, bSendMax = 2, bMode = 1, bLifeMin = 0, bLifeMax = 0, bReconMin = 0, bReconMax = 0\<rparr>"

lemma bench_numbers:
  "ParseInt ''12001'' = Some 12001" "ParseInt ''1'' = Some 1" "ParseInt ''0'' = Some 0" "ParseInt ''2'' = Some 2"
  "ParseBool ''false'' = Some False"
  by code_simp+

lemma bench_accepted: "bench_client_configure (\<lambda>p. Some (render_ini demo_bench)) ''b.ini'' no_config = Inr (Inr demo_settings)"
proof -
  have cl: "clean_ini demo_bench"
    by (simp add: demo_bench_def clean_ini_def clean_section_def clean_key_def clean_value_def clean_def is_blank_def)
  have d: "distinct (map fst (ini_entries demo_bench))" by (simp add: demo_bench_def ini_entries_def)
  from load_file [OF cl d, of "\<lambda>p. Some (render_ini demo_bench)" "''b.ini''" no_config] obtain c where
    c: "Load (\<lambda>p. Some (render_ini demo_bench)) (Some ''b.ini'') no_config = (c, True)" and v: "value_at c = map_of (ini_entries demo_bench)"
    by auto
  have e: "value_at c = map_of [((''Analysis'', ''Minutes''), ''1''), ((''Analysis'', ''Trim''), ''0''),
     ((''Server'', ''Port''), ''12001''), ((''Server'', ''MaxUser''), ''2''), ((''Server'', ''NagleEnabled''), ''false''),
     ((''Server'', ''IdleTimeout''), ''1''), ((''Client'', ''ServerIP''), ''127.0.0.1''), ((''Client'', ''ServerPort''), ''12001''),
     ((''Client'', ''ClientCount''), ''2''), ((''Client'', ''SendIntervalMin''), ''1''), ((''Client'', ''SendIntervalMax''), ''2''),
     ((''Client'', ''Mode''), ''1''), ((''Client'', ''LifetimeMin''), ''0''), ((''Client'', ''LifetimeMax''), ''0''),
     ((''Client'', ''ReconnectMin''), ''0''), ((''Client'', ''ReconnectMax''), ''0'')]"
    unfolding v by (simp add: demo_bench_def ini_entries_def)
  have vals: "bench_of (value_at c) = demo_settings"
    by (simp add: e bench_of_def demo_settings_def text_value_def text_or_def int_value_def int_or_def bool_value_def bench_numbers)
  have "file_ok bench_queries c"
    by (auto simp: e file_ok_def bench_queries_def bench_numbers split: if_splits)
  moreover have "server_valid demo_settings" "load_valid demo_settings" by (simp_all add: server_valid_def load_valid_def demo_settings_def)
  ultimately show ?thesis using c vals by (auto simp: client_configure_iff)
qed

end
