(* ===== verification/BenchRun.thy ===== *)
theory BenchRun
  imports BenchSettings
begin

text \<open>
  The measuring loops of the two benchmark programs and the choice of the window that is analysed
  (Examples/TestServer/main.cpp, Examples/TestClient/main.cpp). One turn takes one sample; the figures of a sample
  other than the time and the connections are of a type of their own (\<open>'m\<close>), the control flow does not depend on
  them. The key, the tick count and the figures of a turn are its input; the second of \<open>Sleep\<close> between two turns is
  a condition on the ticks.
\<close>

subsection \<open>State\<close>

record 'm sample =
  ElapsedSec :: int
  Connected :: int
  Metrics :: 'm

record 'm measuring =
  samples :: "'m sample list"
  trafficStartSec :: int
  lastTrafficSec :: int
  validity :: string

record 'm turn_input =
  quitKey :: bool
  tickCount :: u32
  connectedCnt :: u32
  metrics :: 'm

definition new_run :: "'m measuring" where
  "new_run = \<lparr>samples = [], trafficStartSec = - 1, lastTrafficSec = - 1, validity = ''OK''\<rparr>"

subsection \<open>The loops\<close>

definition elapsed :: "u32 \<Rightarrow> u32 \<Rightarrow> int" where
  "elapsed startTick tick = uint ((tick - startTick) div 1000)"

definition take_sample :: "u32 \<Rightarrow> 'm turn_input \<Rightarrow> 'm measuring \<Rightarrow> 'm measuring" where
  "take_sample startTick x m =
     (let e = elapsed startTick (tickCount x); c = sint (connectedCnt x)
      in m\<lparr>samples := samples m @ [\<lparr>ElapsedSec = e, Connected = c, Metrics = metrics x\<rparr>],
           trafficStartSec := (if 0 < c \<and> trafficStartSec m < 0 then e else trafficStartSec m),
           lastTrafficSec := (if 0 < c then e else lastTrafficSec m)\<rparr>)"

text \<open>One turn of the server; true is the end of the loop.\<close>

definition server_turn :: "int \<Rightarrow> int \<Rightarrow> int \<Rightarrow> u32 \<Rightarrow> 'm turn_input \<Rightarrow> 'm measuring \<Rightarrow> 'm measuring \<times> bool" where
  "server_turn idleTimeoutSec maxDurationSec analysisMinutes startTick x m =
     (if quitKey x then (m, True)
      else
        let m1 = take_sample startTick x m; e = elapsed startTick (tickCount x); c = sint (connectedCnt x)
        in if trafficStartSec m1 < 0 \<and> idleTimeoutSec \<le> e then (m1\<lparr>validity := ''INVALID(no connection)''\<rparr>, True)
           else if \<not> trafficStartSec m1 < 0 \<and> c = 0 \<and> idleTimeoutSec \<le> e - lastTrafficSec m1 then (m1, True)
           else if maxDurationSec \<le> e then
             (if 0 < analysisMinutes then m1\<lparr>validity := ''INVALID(max duration)''\<rparr> else m1, True)
           else (m1, False))"

definition client_turn :: "int \<Rightarrow> u32 \<Rightarrow> 'm turn_input \<Rightarrow> 'm measuring \<Rightarrow> 'm measuring \<times> bool" where
  "client_turn runDurationSec startTick x m =
     (if quitKey x then (m, True)
      else (take_sample startTick x m, runDurationSec \<le> elapsed startTick (tickCount x)))"

fun measure_run :: "('m turn_input \<Rightarrow> 'm measuring \<Rightarrow> 'm measuring \<times> bool) \<Rightarrow> 'm turn_input list \<Rightarrow> 'm measuring \<Rightarrow> 'm measuring \<times> bool" where
  "measure_run turn [] m = (m, False)"
| "measure_run turn (x # xs) m = (let (m1, ended) = turn x m in if ended then (m1, True) else measure_run turn xs m1)"

subsection \<open>The window\<close>

definition server_window :: "int \<Rightarrow> 'm measuring \<Rightarrow> fault + int \<times> int \<times> 'm sample list \<times> string" where
  "server_window trimMinutes m =
     ebind (chk32 (trimMinutes * 60)) (\<lambda>trimSec.
     ebind (if 0 \<le> trafficStartSec m \<and> trafficStartSec m < lastTrafficSec m then
              ebind (chk32 (trafficStartSec m + trimSec)) (\<lambda>ws.
              ebind (chk32 (lastTrafficSec m - trimSec)) (\<lambda>we.
                Inr (ws, we, filter (\<lambda>s. ws \<le> ElapsedSec s \<and> ElapsedSec s \<le> we) (samples m))))
            else Inr (0, 0, [])) (\<lambda>(ws, we, window).
       Inr (ws, we, window, if window = [] \<and> validity m = ''OK'' then ''INVALID(window too short)'' else validity m)))"

text \<open>The client has computed \<open>trimSec\<close> before its run.\<close>

definition client_window :: "int \<Rightarrow> 'm measuring \<Rightarrow> fault + int \<times> int \<times> 'm sample list \<times> string" where
  "client_window trimSec m =
     ebind (if 0 \<le> trafficStartSec m \<and> trafficStartSec m < lastTrafficSec m then
              ebind (chk32 (trafficStartSec m + trimSec)) (\<lambda>ws.
              ebind (chk32 (lastTrafficSec m - trimSec)) (\<lambda>we.
                Inr (ws, we, filter (\<lambda>s. ws \<le> ElapsedSec s \<and> ElapsedSec s \<le> we) (samples m))))
            else Inr (0, 0, [])) (\<lambda>(ws, we, window).
       Inr (ws, we, window, if window = [] \<and> validity m = ''OK'' then ''INVALID(window too short)'' else validity m))"

subsection \<open>The end of a run\<close>

lemma turn_samples:
  "length (samples (fst (server_turn i d a st x m))) \<le> Suc (length (samples m))"
  "length (samples (fst (client_turn r st x m))) \<le> Suc (length (samples m))"
  by (simp_all add: server_turn_def client_turn_def take_sample_def Let_def)

lemma turn_ends:
  "d \<le> elapsed st (tickCount x) \<Longrightarrow> snd (server_turn i d a st x m)"
  "r \<le> elapsed st (tickCount x) \<Longrightarrow> snd (client_turn r st x m)"
  by (simp_all add: server_turn_def client_turn_def Let_def)

lemma measure_ends:
  assumes "k < length xs" "\<And>m. snd (turn (xs ! k) m)" "\<And>x m. length (samples (fst (turn x m))) \<le> Suc (length (samples m))"
  shows "snd (measure_run turn xs m) \<and> length (samples (fst (measure_run turn xs m))) \<le> length (samples m) + Suc k"
  using assms(1,2)
proof (induction xs arbitrary: k m)
  case (Cons x xs)
  obtain m1 b where t: "turn x m = (m1, b)" by fastforce
  have l: "length (samples m1) \<le> Suc (length (samples m))" using assms(3) [of x m] t by simp
  show ?case
  proof (cases b)
    case True
    then show ?thesis using t l by simp
  next
    case False
    obtain k' where k: "k = Suc k'"
    proof (cases k)
      case 0
      then show thesis using Cons.prems(2) [of m] t False by simp
    qed (use that in blast)
    have "k' < length xs" "\<And>m. snd (turn (xs ! k') m)" using Cons.prems k by simp_all
    from Cons.IH [OF this, of m1] t False l k show ?thesis by simp
  qed
qed simp

lemma measure_goes_on: "\<forall>x \<in> set xs. \<forall>m. \<not> snd (turn x m) \<Longrightarrow> \<not> snd (measure_run turn xs m)"
  by (induction xs arbitrary: m) (auto simp: Let_def split: prod.split, metis snd_conv)

lemma elapsed_time: "t < 2 ^ 32 \<Longrightarrow> elapsed st (st + of_nat t) = int (t div 1000)"
  by (simp add: elapsed_def uint_div unsigned_of_nat take_bit_nat_eq_self zdiv_int)

lemma elapsed_bound: "elapsed st t \<le> 4294967"
proof -
  have "uint (t - st) < 2 ^ 32" using uint_lt2p [of "t - st"] by simp
  then show ?thesis by (simp add: elapsed_def uint_div)
qed

lemma clock_low: "\<forall>k < n. t k + 1000 \<le> t (Suc k) \<Longrightarrow> k \<le> n \<Longrightarrow> 1000 * k \<le> (t k :: nat)"
proof (induction k)
  case (Suc k)
  then have "t k + 1000 \<le> t (Suc k)" "1000 * k \<le> t k" by simp_all
  then show ?case by simp
qed simp

text \<open>A benchmark run ends by itself: for settings both programs accept and whose limits do not overflow, when the
  turns are at least a second apart and the 32-bit tick count does not run past its end before the limit, the
  measuring loop of the server ends after at most as many turns and one more as its limit has seconds, and that of
  the client likewise, whatever the connections, the keys and the figures are; no more samples are taken than
  \<open>reserve\<close> made room for, so the vector never grows during a run; and the client's limit is the smaller one when
  the idle time is not negative.\<close>

theorem bench_run_ends:
  assumes "bench_client_configure open_file path c0 = Inr (Inr i)" "server_limits i = Inr (idle, d)" "client_limits i = Inr (trim, r)"
    and "0 \<le> d" "nat d < length xs" "nat r < length ys"
    and "\<forall>k \<le> nat d. tickCount (xs ! k) = st + of_nat (t k) \<and> t k < 2 ^ 32" "\<forall>k < nat d. t k + 1000 \<le> t (Suc k)"
    and "\<forall>k \<le> nat r. tickCount (ys ! k) = st' + of_nat (t' k) \<and> t' k < 2 ^ 32" "\<forall>k < nat r. t' k + 1000 \<le> t' (Suc k)"
  shows "snd (measure_run (server_turn idle d (bMinutes i) st) xs new_run) \<and> snd (measure_run (client_turn r st') ys new_run) \<and>
     length (samples (fst (measure_run (server_turn idle d (bMinutes i) st) xs new_run))) \<le> nat d + 1 \<and>
     length (samples (fst (measure_run (client_turn r st') ys new_run))) \<le> nat r + 1 \<and>
     nat d + 1 \<le> unat (sample_reserve d) \<and> nat r + 1 \<le> unat (sample_reserve r) \<and> d = r + 60 * bIdleTimeout i + 300"
proof -
  from assms(1) have v: "server_valid i" by (auto simp: client_configure_iff)
  obtain r0 where r0: "run_seconds i = Inr r0" using assms(3) by (auto simp: client_limits_def ebind_eq_Inr)
  have r: "r0 = r" "0 \<le> r" "d = r + 60 * bIdleTimeout i + 300"
    using limits_ok(1) [OF v r0] limits_ok(2) [OF v r0 assms(2)] limits_ok(3) [OF v r0 assms(3)] by simp_all
  have hi: "d < 2 ^ 31" "r < 2 ^ 31"
    using assms(2,3) by (auto simp: server_limits_def client_limits_def run_seconds_def chk32_eq_Inr ebind_eq_Inr kUnlimitedRunCapSec_def
      split: if_splits)
  have late: "x \<le> elapsed s (s + of_nat (f (nat x)))"
    if "0 \<le> x" "f (nat x) < 2 ^ 32" "\<forall>k < nat x. f k + 1000 \<le> f (Suc k)" for x s f
  proof -
    have "1000 * nat x \<le> f (nat x)" using clock_low [OF that(3)] by simp
    then have "nat x \<le> f (nat x) div 1000" using div_le_mono [of "1000 * nat x" "f (nat x)" 1000] by simp
    then show ?thesis using that(1) elapsed_time [OF that(2), of s] by linarith
  qed
  have cap: "nat x + 1 \<le> unat (sample_reserve x)" if "0 \<le> x" "x < 2 ^ 31" for x
  proof -
    define y where "y = x + 601"
    have "sample_reserve x = word_of_int y" by (simp add: sample_reserve_def kSampleReserveMargin_def y_def)
    moreover have "0 \<le> y" "y < 2 ^ 40" using that by (simp_all add: y_def)
    then have "uint (word_of_int y :: u64) = y" by (simp add: unsigned_of_int take_bit_int_eq_self)
    ultimately show ?thesis using that by (simp add: unat_eq_nat_uint y_def)
  qed
  have 1: "snd (server_turn idle d (bMinutes i) st (xs ! nat d) m)" for m :: "'a measuring"
    by (intro turn_ends(1)) (use late [OF assms(4) _ assms(8), of st] assms(7) in simp)
  have 2: "snd (client_turn r st' (ys ! nat r) m)" for m :: "'b measuring"
    by (intro turn_ends(2)) (use late [OF r(2) _ assms(10), of st'] assms(9) in simp)
  from measure_ends [where turn = "server_turn idle d (bMinutes i) st", OF assms(5) 1 turn_samples(1), of new_run]
    measure_ends [where turn = "client_turn r st'", OF assms(6) 2 turn_samples(2), of new_run]
  show ?thesis using cap [OF assms(4) hi(1)] cap [OF r(2) hi(2)] r(3) by (simp add: new_run_def)
qed

definition demo_input :: "nat \<Rightarrow> unit turn_input" where
  "demo_input k = \<lparr>quitKey = False, tickCount = of_nat (1000 * k), connectedCnt = 1, metrics = ()\<rparr>"

lemma bench_run_ends_witness:
  "snd (measure_run (server_turn 60 420 1 0) (map demo_input [0..<421]) new_run) \<and>
   snd (measure_run (client_turn 60 0) (map demo_input [0..<61]) new_run)"
proof -
  have l: "server_limits demo_settings = Inr (60, 420)" "client_limits demo_settings = Inr (0, 60)"
    by (simp_all add: server_limits_def client_limits_def run_seconds_def demo_settings_def)
  have x: "\<forall>k \<le> nat 420. tickCount (map demo_input [0..<421] ! k) = 0 + of_nat (1000 * k) \<and> 1000 * k < 2 ^ 32"
    "\<forall>k \<le> nat 60. tickCount (map demo_input [0..<61] ! k) = 0 + of_nat (1000 * k) \<and> 1000 * k < 2 ^ 32"
    by (auto simp: demo_input_def)
  from bench_run_ends [OF bench_accepted l _ _ _ x(1) _ x(2)] show ?thesis by (simp add: demo_settings_def)
qed

text \<open>A limit beyond the range of the tick count is never reached: with a client connected all the time the loop of
  the server goes on for ever, and so does that of the client.\<close>

lemma endless_run:
  assumes "4294967 < d" "\<forall>x \<in> set xs. \<not> quitKey x \<and> 0 < sint (connectedCnt x)"
  shows "\<not> snd (measure_run (server_turn idle d minutes st) xs m)" "\<not> snd (measure_run (client_turn d st) xs m)"
proof -
  have e: "0 \<le> elapsed st tk" "\<not> d \<le> elapsed st tk" for tk
    using elapsed_bound [of st tk] assms(1) by (simp_all add: elapsed_def)
  have "\<not> snd (server_turn idle d minutes st x m) \<and> \<not> snd (client_turn d st x m)" if "\<not> quitKey x" "0 < sint (connectedCnt x)"
    for x and m :: "'a measuring"
  proof -
    have "\<not> trafficStartSec (take_sample st x m) < 0" using that e(1) by (simp add: take_sample_def Let_def not_less)
    then show ?thesis using that e(2) by (simp add: server_turn_def client_turn_def Let_def)
  qed
  then show "\<not> snd (measure_run (server_turn idle d minutes st) xs m)" "\<not> snd (measure_run (client_turn d st) xs m)"
    using assms(2) by (auto intro!: measure_goes_on)
qed

subsection \<open>What the window holds\<close>

definition with_traffic :: "'m measuring \<Rightarrow> 'm sample list" where
  "with_traffic m = filter (\<lambda>s. 0 < Connected s) (samples m)"

text \<open>The two times kept during the run are those of the first and the last sample with a connection.\<close>

definition times_ok :: "'m measuring \<Rightarrow> bool" where
  "times_ok m \<longleftrightarrow> (\<forall>s \<in> set (samples m). 0 \<le> ElapsedSec s \<and> ElapsedSec s \<le> 4294967) \<and>
     trafficStartSec m = (if with_traffic m = [] then - 1 else ElapsedSec (hd (with_traffic m))) \<and>
     lastTrafficSec m = (if with_traffic m = [] then - 1 else ElapsedSec (last (with_traffic m)))"

lemma times_ok_sample:
  assumes "times_ok m"
  shows "times_ok (take_sample st x m)"
proof -
  have e: "0 \<le> elapsed st (tickCount x)" "elapsed st (tickCount x) \<le> 4294967"
    using elapsed_bound by (simp_all add: elapsed_def)
  show ?thesis
  proof (cases "with_traffic m = []")
    case True
    with assms e show ?thesis by (auto simp: times_ok_def take_sample_def with_traffic_def Let_def)
  next
    case False
    then have "hd (with_traffic m) \<in> set (samples m)" using hd_in_set [OF False] by (auto simp: with_traffic_def)
    with assms have "0 \<le> ElapsedSec (hd (with_traffic m))" by (simp add: times_ok_def)
    with assms e False show ?thesis by (auto simp: times_ok_def take_sample_def with_traffic_def Let_def)
  qed
qed

lemma times_ok_turn:
  "times_ok m \<Longrightarrow> times_ok (fst (server_turn i d a st x m))" "times_ok m \<Longrightarrow> times_ok (fst (client_turn r st x m))"
  using times_ok_sample [of m st x]
  by (auto simp: server_turn_def client_turn_def Let_def times_ok_def with_traffic_def)

lemma measure_keeps:
  assumes "\<And>x m. P m \<Longrightarrow> P (fst (turn x m))" "P m"
  shows "P (fst (measure_run turn xs m))"
  using assms(2)
proof (induction xs arbitrary: m)
  case (Cons x xs)
  obtain m1 b where t: "turn x m = (m1, b)" by fastforce
  with assms(1) [OF Cons.prems, of x] have "P m1" by simp
  with Cons.IH t show ?case by simp
qed simp

lemma hd_first: "sorted (map ElapsedSec l) \<Longrightarrow> a \<in> set l \<Longrightarrow> ElapsedSec (hd l) \<le> ElapsedSec a"
  by (cases l) auto

lemma last_latest: "sorted (map ElapsedSec l) \<Longrightarrow> a \<in> set l \<Longrightarrow> ElapsedSec a \<le> ElapsedSec (last l)"
  by (induction l) (auto split: if_splits)

text \<open>The reference: a sample belongs to the window when there was a connection at least \<open>trim\<close> seconds before it
  and one at least \<open>trim\<close> seconds after it, and the connections were not all in one second.\<close>

definition inside :: "int \<Rightarrow> 'm sample list \<Rightarrow> 'm sample \<Rightarrow> bool" where
  "inside trim l s \<longleftrightarrow> (\<exists>a \<in> set l. 0 < Connected a \<and> ElapsedSec a + trim \<le> ElapsedSec s) \<and>
     (\<exists>b \<in> set l. 0 < Connected b \<and> ElapsedSec s + trim \<le> ElapsedSec b) \<and>
     (\<exists>a \<in> set l. \<exists>b \<in> set l. 0 < Connected a \<and> 0 < Connected b \<and> ElapsedSec a < ElapsedSec b)"

lemma inside_window:
  assumes "times_ok m" "sorted (map ElapsedSec (samples m))"
  shows "inside trim (samples m) s \<longleftrightarrow> 0 \<le> trafficStartSec m \<and> trafficStartSec m < lastTrafficSec m \<and>
     trafficStartSec m + trim \<le> ElapsedSec s \<and> ElapsedSec s \<le> lastTrafficSec m - trim"
proof (cases "with_traffic m = []")
  case True
  then have "\<not> 0 < Connected a" if "a \<in> set (samples m)" for a using that by (auto simp: with_traffic_def filter_empty_conv)
  then have "\<not> inside trim (samples m) s" unfolding inside_def by blast
  with True assms(1) show ?thesis by (simp add: times_ok_def)
next
  case False
  let ?w = "with_traffic m"
  have w: "set ?w = {a \<in> set (samples m). 0 < Connected a}" by (auto simp: with_traffic_def)
  have "sorted (map ElapsedSec ?w)"
    using assms(2) unfolding with_traffic_def by (rule sorted_filter)
  note first = hd_first [OF this] and final = last_latest [OF this]
  have hl: "hd ?w \<in> set ?w" "last ?w \<in> set ?w" using False by simp_all
  have t: "trafficStartSec m = ElapsedSec (hd ?w)" "lastTrafficSec m = ElapsedSec (last ?w)" "0 \<le> ElapsedSec (hd ?w)"
    using assms(1) False hl w by (auto simp: times_ok_def)
  have in_w: "inside trim (samples m) s \<longleftrightarrow> (\<exists>a \<in> set ?w. ElapsedSec a + trim \<le> ElapsedSec s) \<and>
      (\<exists>b \<in> set ?w. ElapsedSec s + trim \<le> ElapsedSec b) \<and> (\<exists>a \<in> set ?w. \<exists>b \<in> set ?w. ElapsedSec a < ElapsedSec b)"
    unfolding inside_def w by blast
  have "(\<exists>a \<in> set ?w. ElapsedSec a + trim \<le> ElapsedSec s) \<longleftrightarrow> ElapsedSec (hd ?w) + trim \<le> ElapsedSec s"
    using first hl(1) by (meson add_right_mono order_trans)
  moreover have "(\<exists>b \<in> set ?w. ElapsedSec s + trim \<le> ElapsedSec b) \<longleftrightarrow> ElapsedSec s + trim \<le> ElapsedSec (last ?w)"
    using final hl(2) by (meson order_trans)
  moreover have "(\<exists>a \<in> set ?w. \<exists>b \<in> set ?w. ElapsedSec a < ElapsedSec b) \<longleftrightarrow> ElapsedSec (hd ?w) < ElapsedSec (last ?w)"
    using first final hl by (meson le_less_trans less_le_trans)
  ultimately show ?thesis unfolding in_w t using t(3) by auto
qed

lemma window_spec:
  assumes "times_ok m" "sorted (map ElapsedSec (samples m))" "0 \<le> trim" "trim + 4294967 < 2 ^ 31"
  shows "\<exists>ws we. client_window trim m = Inr (ws, we, filter (inside trim (samples m)) (samples m),
     if filter (inside trim (samples m)) (samples m) = [] \<and> validity m = ''OK'' then ''INVALID(window too short)'' else validity m)"
proof (cases "0 \<le> trafficStartSec m \<and> trafficStartSec m < lastTrafficSec m")
  case True
  then have ne: "with_traffic m \<noteq> []" using assms(1) by (auto simp: times_ok_def split: if_splits)
  then have "hd (with_traffic m) \<in> set (samples m)" "last (with_traffic m) \<in> set (samples m)"
    using hd_in_set [OF ne] last_in_set [OF ne] by (auto simp: with_traffic_def)
  then have "trafficStartSec m \<le> 4294967" "lastTrafficSec m \<le> 4294967" "0 \<le> lastTrafficSec m"
    using assms(1) ne by (auto simp: times_ok_def)
  then have c: "chk32 (trafficStartSec m + trim) = Inr (trafficStartSec m + trim)"
    "chk32 (lastTrafficSec m - trim) = Inr (lastTrafficSec m - trim)" using True assms(3,4) by simp_all
  have "inside trim (samples m) = (\<lambda>s. trafficStartSec m + trim \<le> ElapsedSec s \<and> ElapsedSec s \<le> lastTrafficSec m - trim)"
    using inside_window [OF assms(1,2)] True by (simp add: fun_eq_iff)
  then show ?thesis using True c by (simp add: client_window_def)
next
  case False
  then have "filter (inside trim (samples m)) (samples m) = []" using inside_window [OF assms(1,2)] by (auto simp: filter_empty_conv)
  then show ?thesis using False by (auto simp: client_window_def)
qed

lemma windows_same: "0 \<le> trimMinutes \<Longrightarrow> trimMinutes * 60 < 2 ^ 31 \<Longrightarrow> server_window trimMinutes m = client_window (trimMinutes * 60) m"
  by (simp add: server_window_def client_window_def)

text \<open>C26. The analysed window: whatever happened in the turns of a run of the server or of the client, as long as
  the elapsed times do not go back, the two times kept while sampling select exactly the samples that had a
  connection at least \<open>Trim\<close> minutes before and at least \<open>Trim\<close> minutes after them, in their order, provided the
  connections spread over more than one second; so the idle end, the start-up and the shutdown never enter the
  averages. An empty window makes a run invalid and a run that was invalid stays so; both programs agree.\<close>

theorem bench_window:
  assumes "m = fst (measure_run (server_turn idle d minutes st) xs new_run) \<or>
       m = fst (measure_run (client_turn r st) xs (new_run\<lparr>validity := v0\<rparr>))"
    and "sorted (map ElapsedSec (samples m))" "0 \<le> trimMinutes" "trimMinutes * 60 + 4294967 < 2 ^ 31"
  defines "w \<equiv> filter (inside (trimMinutes * 60) (samples m)) (samples m)"
  shows "\<exists>ws we. server_window trimMinutes m = Inr (ws, we, w, if w = [] \<and> validity m = ''OK'' then ''INVALID(window too short)'' else validity m) \<and>
     client_window (trimMinutes * 60) m = server_window trimMinutes m"
proof -
  have n: "times_ok new_run" "times_ok (new_run\<lparr>validity := v0\<rparr>)" by (simp_all add: times_ok_def new_run_def with_traffic_def)
  have "times_ok m"
    using assms(1) measure_keeps [of times_ok "server_turn idle d minutes st", OF times_ok_turn(1) n(1)]
      measure_keeps [of times_ok "client_turn r st", OF times_ok_turn(2) n(2)] by auto
  from window_spec [OF this assms(2) _ assms(4)] assms(3,4) windows_same [of trimMinutes m] show ?thesis
    unfolding w_def by auto
qed

lemma bench_window_witness:
  "\<exists>ws we. server_window 0 (fst (measure_run (server_turn 60 420 1 0) (map demo_input [0, 1, 2]) new_run)) =
     Inr (ws, we, [\<lparr>ElapsedSec = 0, Connected = 1, Metrics = ()\<rparr>, \<lparr>ElapsedSec = 1, Connected = 1, Metrics = ()\<rparr>,
       \<lparr>ElapsedSec = 2, Connected = 1, Metrics = ()\<rparr>], ''OK'')"
proof -
  let ?m = "fst (measure_run (server_turn 60 420 1 0) (map demo_input [0, 1, 2]) new_run)"
  have s: "samples ?m = [\<lparr>ElapsedSec = 0, Connected = 1, Metrics = ()\<rparr>, \<lparr>ElapsedSec = 1, Connected = 1, Metrics = ()\<rparr>,
       \<lparr>ElapsedSec = 2, Connected = 1, Metrics = ()\<rparr>]" "validity ?m = ''OK''" by code_simp+
  have "sorted (map ElapsedSec (samples ?m))" unfolding s(1) by simp
  from bench_window [where m = ?m, OF disjI1 [OF refl] this, of 0, unfolded s] show ?thesis by (simp add: inside_def)
qed

end
