(* ===== verification/TlsThreads.thy ===== *)
theory TlsThreads
  imports TlsPool
begin

text \<open>
  Threads that end: the destructor of \<open>TLSNodeMemoryPool\<close> (BaseLibrary/include/TLSMemoryPool.h) deletes the
  nodes its thread caches, and the getters of \<open>TLSChunkMemoryPool\<close> read the counters, which the destructor does
  not correct. Accept and worker threads keep their pool in a local variable, so the destructor runs when they
  return; the operating system may then give the thread's identifier to a new thread, whose pool starts empty.
  A deleted node is no longer in the memory map, so that a later access to it is a fault.
\<close>

subsection \<open>The destructor\<close>

text \<open>\<open>while (Head != nullptr) { Next = Head->Next; delete Head; Head = Next; }\<close>\<close>

partial_function (option) delete_list :: "ptr \<Rightarrow> 'a tls_mem \<Rightarrow> (fault + 'a tls_mem) option" where
  "delete_list head m =
     (case head of
        None \<Rightarrow> Some (Inr m)
      | Some a \<Rightarrow>
          (case load_next m (Some a) of
             Inl e \<Rightarrow> Some (Inl e)
           | Inr Next \<Rightarrow> delete_list Next (m(a := None))))"

definition tls_dtor :: "nat \<Rightarrow> 'a pool \<Rightarrow> (fault + 'a pool) option" where
  "tls_dtor t s =
     (case delete_list (Head (Local s t)) (Mem s) of
        None \<Rightarrow> None
      | Some r \<Rightarrow> Some (ebind r (\<lambda>m. Inr (set_local t None 0 (s\<lparr>Mem := m\<rparr>)))))"

definition GetChunkSize :: int where
  "GetChunkSize = int kChunkDefault"

definition GetTotalMemCnt :: "'a pool \<Rightarrow> int" where
  "GetTotalMemCnt s = sint (TotalSize s)"

definition GetUseMemCnt :: "'a pool \<Rightarrow> int" where
  "GetUseMemCnt s = sint (UseSize s)"

definition GetFreeMemCnt :: "'a pool \<Rightarrow> int" where
  "GetFreeMemCnt s = sint (FreeSize s)"

text \<open>On a chain of distinct nodes the loop ends and deletes exactly these.\<close>

lemma delete_list_chain:
  "chain m p as \<Longrightarrow> distinct as \<Longrightarrow> delete_list p m = Some (Inr (m |` (- set as)))"
proof (induction as arbitrary: p m)
  case Nil
  then show ?case by (simp add: delete_list.simps restrict_map_def)
next
  case (Cons a as)
  then obtain n where n: "p = Some a" "m a = Some n" "chain m (NNext n) as" by (auto split: option.splits)
  have "chain (m(a := None)) (NNext n) as"
    using n(3) by (rule chain_cong) (use Cons.prems(2) in auto)
  from Cons.IH [OF this] Cons.prems(2) have "delete_list (NNext n) (m(a := None)) = Some (Inr (m(a := None) |` (- set as)))"
    unfolding distinct.simps by blast
  moreover have "m(a := None) |` (- set as) = m |` (- set (a # as))"
    by (auto simp: restrict_map_def)
  ultimately show ?case by (simp add: n delete_list.simps [of "Some a"] load_next_def)
qed

subsection \<open>Counters are only moved\<close>

text \<open>
  \<open>miscount k s\<close> has \<open>TotalSize\<close> and \<open>UseSize\<close> larger by \<open>k\<close>; no operation looks at a counter.
\<close>

definition miscount :: "u32 \<Rightarrow> 'a pool \<Rightarrow> 'a pool" where
  "miscount k s = s\<lparr>TotalSize := TotalSize s + k, UseSize := UseSize s + k\<rparr>"

lemma miscount_fields [simp]:
  "Mem (miscount k s) = Mem s" "Brk (miscount k s) = Brk s" "NodeSize (miscount k s) = NodeSize s"
  "ChunckStack (miscount k s) = ChunckStack s" "Local (miscount k s) = Local s"
  "TotalSize (miscount k s) = TotalSize s + k" "UseSize (miscount k s) = UseSize s + k"
  "FreeSize (miscount k s) = FreeSize s"
  by (simp_all add: miscount_def)

lemma miscount_0 [simp]: "miscount 0 s = s"
  by (simp add: miscount_def)

lemma set_local_miscount: "set_local t h n (miscount k s) = miscount k (set_local t h n s)"
  by (simp add: set_local_def miscount_def)

lemma mem_miscount: "(miscount k s)\<lparr>Mem := m\<rparr> = miscount k (s\<lparr>Mem := m\<rparr>)"
  by (simp add: miscount_def)

lemma AllocChunck_miscount:
  "AllocChunck (miscount k s) = (miscount k (fst (AllocChunck s)), snd (AllocChunck s))"
  by (cases "ChunckStack s") (simp_all add: AllocChunck_def miscount_def algebra_simps)

lemma FreeChunck_miscount: "FreeChunck c (miscount k s) = miscount k (FreeChunck c s)"
  by (simp add: FreeChunck_def miscount_def algebra_simps)

lemma new_nodes_miscount:
  "new_nodes n d h (miscount k s) = (miscount k (fst (new_nodes n d h s)), snd (new_nodes n d h s))"
proof (induction n arbitrary: h s)
  case (Suc n)
  have "(miscount k s)\<lparr>Mem := m, Brk := b\<rparr> = miscount k (s\<lparr>Mem := m, Brk := b\<rparr>)" for s :: "'a pool" and m b
    by (simp add: miscount_def)
  note upd = this
  show ?case by (simp add: upd Suc.IH)
qed simp

lemma refill_miscount: "refill t d (miscount k s) = miscount k (refill t d s)"
  by (simp add: refill_def AllocChunck_miscount set_local_miscount NewNodeList_def new_nodes_miscount Let_def
      split: prod.split)

lemma tls_Alloc_miscount:
  "tls_Alloc t d (miscount k s) = ebind (tls_Alloc t d s) (\<lambda>(s', p). Inr (miscount k s', p))"
  by (simp add: tls_Alloc_def refill_miscount set_local_miscount Let_def ebind_assoc)

lemma tls_Free_miscount: "tls_Free t p (miscount k s) = ebind (tls_Free t p s) (\<lambda>s'. Inr (miscount k s'))"
  by (simp add: tls_Free_def Let_def set_local_miscount mem_miscount FreeChunck_miscount ebind_assoc
      split: option.split)

lemma read_data_miscount [simp]: "read_data (miscount k s) = read_data s"
  by (simp add: read_data_def fun_eq_iff)

lemma write_data_miscount: "write_data p v (miscount k s) = miscount k (write_data p v s)"
  by (simp add: write_data_def mem_miscount)

subsection \<open>A thread ends\<close>

lemma counters_use: "counters_ok s \<Longrightarrow> UseSize s = TotalSize s - FreeSize s"
  unfolding counters_ok_def by (metis add_diff_cancel_right')

lemma counters_okI:
  "TotalSize s = of_nat (card (dom (Mem s))) \<Longrightarrow> FreeSize s = of_nat (kChunkDefault * length (ChunckStack s)) \<Longrightarrow>
   UseSize s = TotalSize s - FreeSize s \<Longrightarrow> counters_ok s"
  by (simp add: counters_ok_def)

lemma dtor_spec:
  fixes t :: nat
  assumes inv: "pool_inv full_bound own s"
  defines "k \<equiv> nat (FreeNodeCnt (Local s t))"
    and "own' \<equiv> own |` {a. own a \<noteq> Some (InThread t)}"
  shows "\<exists>s'. tls_dtor t s = Some (Inr (miscount (of_nat k) s')) \<and> pool_inv full_bound own' s' \<and>
     taken own' = taken own \<and> Mem s' = Mem s |` {a. own a \<noteq> Some (InThread t)} \<and>
     card (dom (Mem s)) = card (dom (Mem s')) + k \<and>
     Local s' = (Local s)(t := init_local) \<and> ChunckStack s' = ChunckStack s"
proof -
  have h: "held (Mem s) own (InThread t) (Head (Local s t)) k"
    using inv unfolding pool_inv_def locals_ok_def k_def by (metis nat_int)
  then obtain as where as: "distinct as" "set as = {a. own a = Some (InThread t)}"
    "chain (Mem s) (Head (Local s t)) as" "length as = k" by (auto simp: held_def)
  let ?m = "Mem s |` {a. own a \<noteq> Some (InThread t)}"
  have Cas: "- set as = {a. own a \<noteq> Some (InThread t)}" using as(2) by blast
  define s' where "s' = set_local t None 0
    (s\<lparr>Mem := ?m, TotalSize := TotalSize s - of_nat k, UseSize := UseSize s - of_nat k\<rparr>)"
  have d: "tls_dtor t s = Some (Inr (miscount (of_nat k) s'))"
    using delete_list_chain [OF as(3,1)]
    by (simp add: tls_dtor_def Cas s'_def set_local_def miscount_def)
  have f: "Mem s' = ?m" "ChunckStack s' = ChunckStack s" "Brk s' = Brk s" "NodeSize s' = NodeSize s"
    "Local s' = (Local s)(t := init_local)" "FreeSize s' = FreeSize s"
    "TotalSize s' = TotalSize s - of_nat k" "UseSize s' = UseSize s - of_nat k"
    by (simp_all add: s'_def fun_eq_iff init_local_def)
  have D: "dom own = dom (Mem s)" and fin: "finite (dom (Mem s))" using inv by (simp_all add: pool_inv_def heap_ok_def)
  have o: "own' a = Some pl \<longleftrightarrow> own a = Some pl \<and> pl \<noteq> InThread t" for a pl
    by (auto simp: own'_def restrict_map_def)
  have keep: "held ?m own' pl p n" if "held (Mem s) own pl p n" "pl \<noteq> InThread t" for pl p n
    using that(1) by (rule held_mono) (use that(2) o in \<open>auto simp: restrict_map_def\<close>)
  have "dom (Mem s) = dom ?m \<union> set as" "dom ?m \<inter> set as = {}"
    using D as(2) by (auto simp: restrict_map_def split: if_splits)
  then have c: "card (dom (Mem s)) = card (dom ?m) + k"
    using fin distinct_card [OF as(1)] as(4) by (metis card_Un_disjoint finite_Un)
  have "dom own' = dom ?m" "finite (dom ?m)" using D fin by (simp_all add: own'_def)
  then have "heap_ok own' s'"
    using inv by (auto simp: pool_inv_def heap_ok_def f restrict_map_def split: if_splits)
  moreover have "locals_ok full_bound own' s'"
  proof (rule locals_ok_change [where s = s and t = t and n = 0])
    show "held (Mem s') own' (InThread t) (Head (Local s' t)) 0"
      by (simp add: held_empty o f init_local_def)
    show "held (Mem s') own' (InThread t') p n" if "t' \<noteq> t" "held (Mem s) own (InThread t') p n" for t' p n
      using keep [OF that(2)] that(1) by (simp add: f)
  qed (use inv in \<open>auto simp: pool_inv_def f init_local_def\<close>)
  moreover have "chunks_ok own' s'"
    using inv keep unfolding pool_inv_def chunks_ok_def by (auto simp: f o)
  moreover have "counters_ok s'"
  proof (rule counters_okI)
    have cs: "counters_ok s" using inv by (simp add: pool_inv_def)
    show "UseSize s' = TotalSize s' - FreeSize s'" using counters_use [OF cs] by (simp add: f)
    show "TotalSize s' = of_nat (card (dom (Mem s')))" using cs c by (simp add: counters_ok_def f)
    show "FreeSize s' = of_nat (kChunkDefault * length (ChunckStack s'))" using cs by (simp add: counters_ok_def f)
  qed
  ultimately show ?thesis using d c f by (auto simp: pool_inv_def taken_def o)
qed

text \<open>
  A pool with threads that end. The last argument counts the nodes that destructors have deleted.
\<close>

inductive pool_life :: "'a \<Rightarrow> 'a pool \<Rightarrow> addr set \<Rightarrow> nat \<Rightarrow> bool" for d where
  start: "0 < sz \<Longrightarrow> pool_life d (init_pool base sz) {} 0"
| alloc: "pool_life d s P n \<Longrightarrow> tls_Alloc t d s = Inr (s', p) \<Longrightarrow> pool_life d s' (insert p P) n"
| free: "pool_life d s P n \<Longrightarrow> p \<in> P \<Longrightarrow> tls_Free t p s = Inr s' \<Longrightarrow> pool_life d s' (P - {p}) n"
| store: "pool_life d s P n \<Longrightarrow> p \<in> P \<Longrightarrow> pool_life d (write_data p v s) P n"
| exit: "pool_life d s P n \<Longrightarrow> tls_dtor t s = Some (Inr s') \<Longrightarrow>
    pool_life d s' P (n + nat (FreeNodeCnt (Local s t)))"

definition life_inv :: "'a pool \<Rightarrow> addr set \<Rightarrow> nat \<Rightarrow> bool" where
  "life_inv s P n \<longleftrightarrow> (\<exists>s0. run_inv s0 P \<and> s = miscount (of_nat n) s0)"

lemma life_invE:
  assumes "life_inv s P n"
  obtains s0 where "run_inv s0 P" "s = miscount (of_nat n) s0"
  using assms by (auto simp: life_inv_def)

lemma miscount_miscount: "miscount j (miscount k s) = miscount (k + j) s"
  by (simp add: miscount_def add.assoc)

lemma life_alloc:
  assumes "life_inv s P n"
  shows "\<exists>s' p. tls_Alloc t d s = Inr (s', p) \<and> p \<notin> P \<and> life_inv s' (insert p P) n \<and>
     (\<forall>q \<in> P. read_data s' q = read_data s q)"
proof -
  from assms obtain s0 where 0: "run_inv s0 P" "s = miscount (of_nat n) s0" by (rule life_invE)
  from alloc_run [OF 0(1), of t d] obtain s1 p where "tls_Alloc t d s0 = Inr (s1, p)" "p \<notin> P"
    "run_inv s1 (insert p P)" "\<forall>q. read_data s0 q \<noteq> None \<longrightarrow> read_data s1 q = read_data s0 q" by blast
  then show ?thesis using run_inv_read [OF 0(1)] by (auto simp: 0(2) tls_Alloc_miscount life_inv_def)
qed

lemma life_free:
  assumes "life_inv s P n" "p \<in> P"
  shows "\<exists>s'. tls_Free t p s = Inr s' \<and> life_inv s' (P - {p}) n \<and> (\<forall>q \<in> P - {p}. read_data s' q = read_data s q)"
proof -
  from assms obtain s0 where 0: "run_inv s0 P" "s = miscount (of_nat n) s0" by (auto elim: life_invE)
  from free_run [OF 0(1) assms(2), of t] show ?thesis
    by (auto simp: 0(2) tls_Free_miscount life_inv_def)
qed

lemma tls_dtor_miscount:
  "tls_dtor t (miscount k s) =
   (case tls_dtor t s of None \<Rightarrow> None | Some r \<Rightarrow> Some (ebind r (\<lambda>s'. Inr (miscount k s'))))"
  by (simp add: tls_dtor_def mem_miscount set_local_miscount ebind_assoc split: option.split)

lemma life_exit:
  assumes "life_inv s P n"
  shows "\<exists>s'. tls_dtor t s = Some (Inr s') \<and> life_inv s' P (n + nat (FreeNodeCnt (Local s t))) \<and>
     (\<forall>q \<in> P. read_data s' q = read_data s q) \<and> ChunckStack s' = ChunckStack s \<and>
     Local s' = (Local s)(t := init_local) \<and> Mem s' \<subseteq>\<^sub>m Mem s \<and>
     int (card (dom (Mem s))) = int (card (dom (Mem s'))) + FreeNodeCnt (Local s t)"
proof -
  from assms obtain s0 where 0: "run_inv s0 P" "s = miscount (of_nat n) s0" by (rule life_invE)
  let ?k = "nat (FreeNodeCnt (Local s0 t))"
  from 0(1) obtain own where inv: "pool_inv full_bound own s0" and P: "P = (\<lambda>a. a + sizeof_PadType) ` taken own"
    by (auto simp: run_inv_def)
  have pos: "0 \<le> FreeNodeCnt (Local s0 t)" using inv unfolding pool_inv_def locals_ok_def by (metis of_nat_0_le_iff)
  from dtor_spec [OF inv, of t] obtain s1 where s1: "tls_dtor t s0 = Some (Inr (miscount (of_nat ?k) s1))"
    and r: "run_inv s1 P" and m: "Mem s1 = Mem s0 |` {a. own a \<noteq> Some (InThread t)}"
    "card (dom (Mem s0)) = card (dom (Mem s1)) + ?k"
    "Local s1 = (Local s0)(t := init_local)" "ChunckStack s1 = ChunckStack s0"
    unfolding run_inv_def P by metis
  have "tls_dtor t s = Some (Inr (miscount (of_nat (n + ?k)) s1))"
    by (simp add: 0(2) tls_dtor_miscount s1 miscount_miscount add.commute)
  moreover have "read_data s1 q = read_data s0 q" if "q \<in> P" for q
    using that m(1) by (auto simp: read_data_def P taken_def)
  ultimately show ?thesis using r m pos
    by (auto simp: 0(2) life_inv_def map_le_def restrict_map_def intro!: exI [of _ s1] split: if_splits)
qed

lemma life_inv_reach: "pool_life d s P n \<Longrightarrow> life_inv s P n"
proof (induction rule: pool_life.induct)
  case (start sz base)
  have "run_inv (init_pool base sz) {}" by (rule run_inv_reach [OF pool_run.start [OF start]])
  then show ?case unfolding life_inv_def by (intro exI [of _ "init_pool base sz"]) simp
next
  case (alloc s P n t s' p)
  then show ?case using life_alloc [OF alloc.IH, of t d] by auto
next
  case (free s P n p t s')
  then show ?case using life_free [OF free.IH, of p t] by auto
next
  case (store s P n p v)
  from store.IH show ?case unfolding life_inv_def using write_run write_data_miscount by metis
next
  case (exit s P n t s')
  then show ?case using life_exit [OF exit.IH, of t] by auto
qed

subsection \<open>The properties\<close>

text \<open>C7. The pool is safe under every sequence of allocations, frees, writes and thread ends, by any number of
  threads: an allocation always succeeds and returns a pointer nobody holds, a held pointer can always be freed
  by any thread, also after the thread that allocated it has ended, and the destructor of a thread's pool
  returns, having deleted exactly the nodes that thread cached. None of them touches the data behind the other
  held pointers.\<close>

theorem tls_threads_safe:
  assumes "pool_life d s P n"
  shows "(\<forall>t. \<exists>s' p. tls_Alloc t d s = Inr (s', p) \<and> p \<notin> P \<and> (\<forall>q \<in> P. read_data s' q = read_data s q)) \<and>
         (\<forall>t. \<forall>p \<in> P. \<exists>s'. tls_Free t p s = Inr s' \<and> (\<forall>q \<in> P - {p}. read_data s' q = read_data s q)) \<and>
         (\<forall>t. \<exists>s'. tls_dtor t s = Some (Inr s') \<and> (\<forall>q \<in> P. read_data s' q = read_data s q) \<and>
            Mem s' \<subseteq>\<^sub>m Mem s \<and> Local s' = (Local s)(t := init_local) \<and>
            int (card (dom (Mem s))) = int (card (dom (Mem s'))) + FreeNodeCnt (Local s t))"
proof -
  note r = life_inv_reach [OF assms]
  show ?thesis
    by (intro conjI allI ballI) (use life_alloc [OF r] life_free [OF r] life_exit [OF r] in blast)+
qed

lemma tls_threads_safe_witness:
  "\<exists>s p. pool_life (7::nat) s {p} 99 \<and> (\<exists>s'. tls_Free 1 p s = Inr s')"
proof -
  have r0: "pool_life (7::nat) (init_pool 4096 32) {} 0" by (rule pool_life.start) simp
  from tls_threads_safe [OF r0] obtain s p where a: "tls_Alloc 0 (7::nat) (init_pool 4096 32) = Inr (s, p)" by blast
  with r0 have r1: "pool_life 7 s {p} 0" by (rule pool_life.alloc)
  have "FreeNodeCnt (Local s 0) = int kChunkDefault - 1"
    using a by (auto simp: tls_Alloc_def ebind_eq_Inr Let_def refill_def init_pool_def init_local_def AllocChunck_def
        split: prod.splits)
  then have "FreeNodeCnt (Local s 0) = 99" by (simp add: kChunkDefault_def)
  moreover from tls_threads_safe [OF r1] obtain s1 where "tls_dtor 0 s = Some (Inr s1)" by blast
  then have "pool_life 7 s1 {p} (0 + nat (FreeNodeCnt (Local s 0)))" using r1 by (rule pool_life.exit [rotated])
  ultimately have "pool_life 7 s1 {p} 99" by simp
  with tls_threads_safe [OF this] show ?thesis by blast
qed

text \<open>C39. No node is ever lost: every node in memory is held by a caller, cached by a thread, which keeps fewer
  than 100, or in the chunk stack, which \<open>FreeSize\<close> counts. \<open>TotalSize\<close> counts all nodes in memory and also those
  that ended threads have deleted, because the destructor does not correct it; \<open>UseSize\<close> is the difference of the
  two.\<close>

theorem tls_threads_accounting:
  assumes "pool_life d s P n" "finite T" "\<forall>t. FreeNodeCnt (Local s t) \<noteq> 0 \<longrightarrow> t \<in> T"
  shows "TotalSize s = of_nat (card (dom (Mem s)) + n) \<and>
         FreeSize s = of_nat (kChunkDefault * length (ChunckStack s)) \<and>
         TotalSize s = UseSize s + FreeSize s \<and>
         (\<forall>t. 0 \<le> FreeNodeCnt (Local s t) \<and> FreeNodeCnt (Local s t) < 100) \<and>
         int (card (dom (Mem s))) =
           int (card P) + (\<Sum>t \<in> T. FreeNodeCnt (Local s t)) + int (kChunkDefault * length (ChunckStack s))"
proof -
  obtain s0 where 0: "run_inv s0 P" "s = miscount (of_nat n) s0"
    using life_inv_reach [OF assms(1)] by (rule life_invE)
  then obtain own where inv: "pool_inv full_bound own s0" by (auto simp: run_inv_def)
  have "0 \<le> FreeNodeCnt (Local s0 t) \<and> FreeNodeCnt (Local s0 t) < 100" for t
    using inv by (auto simp: pool_inv_def locals_ok_def kChunkDefault_def dest!: spec [of _ t])
  moreover have "TotalSize s0 = of_nat (card (dom (Mem s0)))" "UseSize s0 = TotalSize s0 - FreeSize s0"
    "FreeSize s0 = of_nat (kChunkDefault * length (ChunckStack s0))"
    using inv counters_use unfolding pool_inv_def counters_ok_def by blast+
  ultimately show ?thesis using run_inv_card [OF 0(1) assms(2)] assms(3) by (simp add: 0(2))
qed

lemma tls_threads_accounting_witness:
  "TotalSize (init_pool 4096 32 :: nat pool) = UseSize (init_pool 4096 32 :: nat pool) + FreeSize (init_pool 4096 32 :: nat pool)"
  using tls_threads_accounting [OF pool_life.start [of 32 7 4096], of "{}"]
  by (simp add: init_pool_def init_local_def)

text \<open>The counter a program prints after a thread with a filled cache has ended.\<close>

lemma exit_keeps_counters:
  assumes "tls_dtor t s = Some (Inr s')"
  shows "GetTotalMemCnt s' = GetTotalMemCnt s \<and> GetUseMemCnt s' = GetUseMemCnt s \<and> GetFreeMemCnt s' = GetFreeMemCnt s"
  using assms by (auto simp: tls_dtor_def ebind_eq_Inr GetTotalMemCnt_def GetUseMemCnt_def GetFreeMemCnt_def
      split: option.splits)

end
