(* ===== verification/Singleton.thy ===== *)
theory Singleton
  imports Prelude
begin

text \<open>
  The double-checked creation of the process-wide objects: \<open>GetInstance\<close> of \<open>TLSChunkMemoryPool\<close>
  (BaseLibrary/include/TLSMemoryPool.h) and of \<open>Logger\<close> (BaseLibrary/include/Logger.h), which are the same code:
  a first look at the pointer without the lock, a spin lock taken with \<open>InterlockedExchange\<close>, a second look, the
  construction, the assignment, and the registration of \<open>Destroy\<close> for the end of the process. Each access to a
  shared variable is one step of one thread, in any interleaving; accesses take effect in the order of the
  program, which the compiler and processor the library is built for (MSVC on x86-64) keep for these stores, while
  the C++ standard does not promise it for a plain pointer.
\<close>

subsection \<open>The protocol\<close>

text \<open>
  Where a thread is: at the next shared access of its call. \<open>Returned p\<close> is a finished call with its result.
  \<open>Made\<close> lists the objects constructed, \<open>AtExit\<close> counts the registrations of \<open>Destroy\<close>.
\<close>

datatype gi_pc = Outside | FirstLook | Acquire | SecondLook | Construct | Publish nat | Register | Release
  | ReturnLook | Returned "nat option"

record gi_state =
  Instance :: "nat option"
  KeySingleton :: u32
  Made :: "nat list"
  AtExit :: nat
  GiPc :: "nat \<Rightarrow> gi_pc"

definition gi_init :: gi_state where
  "gi_init = \<lparr>Instance = None, KeySingleton = 0, Made = [], AtExit = 0, GiPc = (\<lambda>t. Outside)\<rparr>"

definition gi_goto :: "nat \<Rightarrow> gi_pc \<Rightarrow> gi_state \<Rightarrow> gi_state" where
  "gi_goto t p s = s\<lparr>GiPc := (GiPc s)(t := p)\<rparr>"

text \<open>\<open>Lock\<close>: one round of the spin loop.\<close>

definition Lock_round :: "nat \<Rightarrow> gi_state \<Rightarrow> gi_state" where
  "Lock_round t s =
     (let old = KeySingleton s; s1 = s\<lparr>KeySingleton := 1\<rparr>
      in gi_goto t (if old \<noteq> 0 then Acquire else SecondLook) s1)"

definition Unlock :: "gi_state \<Rightarrow> gi_state" where
  "Unlock s = s\<lparr>KeySingleton := 0\<rparr>"

text \<open>One step of \<open>GetInstance\<close>; \<open>p\<close> is the address \<open>new\<close> would return.\<close>

definition GetInstance_step :: "nat \<Rightarrow> nat \<Rightarrow> gi_state \<Rightarrow> gi_state" where
  "GetInstance_step p t s =
     (case GiPc s t of
        Outside \<Rightarrow> s
      | FirstLook \<Rightarrow> gi_goto t (if Instance s = None then Acquire else ReturnLook) s
      | Acquire \<Rightarrow> Lock_round t s
      | SecondLook \<Rightarrow> gi_goto t (if Instance s = None then Construct else Release) s
      | Construct \<Rightarrow> gi_goto t (Publish p) (s\<lparr>Made := Made s @ [p]\<rparr>)
      | Publish q \<Rightarrow> gi_goto t Register (s\<lparr>Instance := Some q\<rparr>)
      | Register \<Rightarrow> gi_goto t Release (s\<lparr>AtExit := AtExit s + 1\<rparr>)
      | Release \<Rightarrow> gi_goto t ReturnLook (Unlock s)
      | ReturnLook \<Rightarrow> gi_goto t (Returned (Instance s)) s
      | Returned r \<Rightarrow> s)"

text \<open>A call may begin when the thread is not inside one.\<close>

definition gi_call :: "nat \<Rightarrow> gi_state \<Rightarrow> gi_state" where
  "gi_call t s = gi_goto t FirstLook s"

definition gi_outside :: "gi_pc \<Rightarrow> bool" where
  "gi_outside pc = (case pc of Outside \<Rightarrow> True | Returned r \<Rightarrow> True | _ \<Rightarrow> False)"

text \<open>\<open>Destroy\<close>, run once per registration at the end of the process: the objects deleted and the state after.\<close>

definition Destroy :: "gi_state \<Rightarrow> gi_state \<times> nat option" where
  "Destroy s = (s\<lparr>Instance := None\<rparr>, Instance s)"

inductive gi_run :: "gi_state \<Rightarrow> bool" where
  start: "gi_run gi_init"
| call: "gi_run s \<Longrightarrow> gi_outside (GiPc s t) \<Longrightarrow> gi_run (gi_call t s)"
| step: "gi_run s \<Longrightarrow> gi_run (GetInstance_step p t s)"

fun gi_steps :: "nat \<Rightarrow> nat \<Rightarrow> nat \<Rightarrow> gi_state \<Rightarrow> gi_state" where
  "gi_steps 0 p t s = s"
| "gi_steps (Suc k) p t s = gi_steps k p t (GetInstance_step p t s)"

subsection \<open>The invariant\<close>

text \<open>The section the lock protects.\<close>

definition in_section :: "gi_pc \<Rightarrow> bool" where
  "in_section pc = (case pc of SecondLook \<Rightarrow> True | Construct \<Rightarrow> True | Publish q \<Rightarrow> True | Register \<Rightarrow> True
      | Release \<Rightarrow> True | _ \<Rightarrow> False)"

text \<open>What a thread may rely on at each place.\<close>

definition place_ok :: "gi_state \<Rightarrow> gi_pc \<Rightarrow> bool" where
  "place_ok s pc =
     (case pc of
        Construct \<Rightarrow> Instance s = None \<and> Made s = []
      | Publish q \<Rightarrow> Instance s = None \<and> Made s = [q]
      | Register \<Rightarrow> Instance s \<noteq> None \<and> AtExit s = 0
      | Release \<Rightarrow> Instance s \<noteq> None
      | ReturnLook \<Rightarrow> Instance s \<noteq> None
      | Returned r \<Rightarrow> Instance s \<noteq> None \<and> r = Instance s
      | _ \<Rightarrow> True)"

definition objects_ok :: "gi_state \<Rightarrow> bool" where
  "objects_ok s \<longleftrightarrow>
     (case Instance s of
        None \<Rightarrow> AtExit s = 0 \<and> (Made s = [] \<or> (\<exists>t q. GiPc s t = Publish q))
      | Some q \<Rightarrow> Made s = [q] \<and> (AtExit s = 1 \<or> AtExit s = 0 \<and> (\<exists>t. GiPc s t = Register)))"

definition gi_inv :: "gi_state \<Rightarrow> bool" where
  "gi_inv s \<longleftrightarrow>
     (\<forall>t u. in_section (GiPc s t) \<longrightarrow> in_section (GiPc s u) \<longrightarrow> t = u) \<and>
     KeySingleton s = (if \<exists>t. in_section (GiPc s t) then 1 else 0) \<and>
     (\<forall>t. place_ok s (GiPc s t)) \<and> objects_ok s"

lemma gi_goto_fields [simp]:
  "Instance (gi_goto t p s) = Instance s" "KeySingleton (gi_goto t p s) = KeySingleton s"
  "Made (gi_goto t p s) = Made s" "AtExit (gi_goto t p s) = AtExit s"
  "GiPc (gi_goto t p s) = (GiPc s)(t := p)"
  by (simp_all add: gi_goto_def)

lemma section_simps [simp]:
  "\<not> in_section Outside" "\<not> in_section FirstLook" "\<not> in_section Acquire" "in_section SecondLook"
  "in_section Construct" "in_section (Publish q)" "in_section Register" "in_section Release"
  "\<not> in_section ReturnLook" "\<not> in_section (Returned r)"
  by (simp_all add: in_section_def)

lemma outside_not_in_section: "gi_outside pc \<Longrightarrow> \<not> in_section pc"
  by (cases pc) (simp_all add: gi_outside_def)

lemma gi_invE:
  assumes "gi_inv s"
  obtains "\<And>t u. in_section (GiPc s t) \<Longrightarrow> in_section (GiPc s u) \<Longrightarrow> t = u"
    "KeySingleton s = (if \<exists>t. in_section (GiPc s t) then 1 else 0)" "\<And>t. place_ok s (GiPc s t)" "objects_ok s"
  using assms by (auto simp: gi_inv_def)

text \<open>A step that keeps the shared variables and whether the thread is in the section.\<close>

lemma inv_local:
  assumes inv: "gi_inv s" and sec: "in_section p \<longleftrightarrow> in_section (GiPc s t)" and ok: "place_ok s p"
    and pub: "\<And>q. GiPc s t \<noteq> Publish q" and reg: "GiPc s t \<noteq> Register"
  shows "gi_inv (gi_goto t p s)"
proof -
  have place: "place_ok (gi_goto t p s) pc = place_ok s pc" for pc
    by (simp add: place_ok_def split: gi_pc.split)
  have sec': "in_section (((GiPc s)(t := p)) u) = in_section (GiPc s u)" for u using sec by simp
  have obj: "objects_ok (gi_goto t p s)"
    using inv pub reg unfolding gi_inv_def objects_ok_def by (simp split: option.splits) (metis fun_upd_other)+
  show ?thesis using inv ok obj unfolding gi_inv_def by (simp only: gi_goto_fields sec' place) simp
qed

text \<open>A step of the thread in the section: the others are outside it, and rely on the instance alone.\<close>

lemma others_outside:
  "gi_inv s \<Longrightarrow> in_section (GiPc s t) \<Longrightarrow> u \<noteq> t \<Longrightarrow> \<not> in_section (GiPc s u)"
  unfolding gi_inv_def by blast

lemma place_ok_outside:
  "\<not> in_section pc \<Longrightarrow> place_ok s pc \<longleftrightarrow> (case pc of ReturnLook \<Rightarrow> Instance s \<noteq> None
      | Returned r \<Rightarrow> Instance s \<noteq> None \<and> r = Instance s | _ \<Rightarrow> True)"
  by (cases pc) (simp_all add: place_ok_def)

lemma place_ok_keep:
  "\<not> in_section pc \<Longrightarrow> place_ok s pc \<Longrightarrow> Instance s = None \<or> Instance s' = Instance s \<Longrightarrow> place_ok s' pc"
  by (cases pc) (auto simp: place_ok_def)

lemma inv_section:
  assumes inv: "gi_inv s" and t: "in_section (GiPc s t)" and p: "in_section p"
    and s': "GiPc s' = (GiPc s)(t := p)" "KeySingleton s' = KeySingleton s"
    and i: "Instance s = None \<or> Instance s' = Instance s" and ok: "place_ok s' p" and obj: "objects_ok s'"
  shows "gi_inv s'"
proof -
  have sec: "in_section (((GiPc s)(t := p)) u) = in_section (GiPc s u)" for u using t p by simp
  have "place_ok s' (GiPc s' u)" for u
    using ok inv others_outside [OF inv t, of u] i by (cases "u = t") (auto simp: s'(1) gi_inv_def intro: place_ok_keep)
  then show ?thesis using inv obj unfolding gi_inv_def s' sec by blast
qed

text \<open>When no thread is between constructing and registering, the objects tell what happened.\<close>

definition settled :: "gi_state \<Rightarrow> bool" where
  "settled s \<longleftrightarrow> (case Instance s of None \<Rightarrow> AtExit s = 0 \<and> Made s = [] | Some q \<Rightarrow> Made s = [q] \<and> AtExit s = 1)"

lemma objects_settled:
  assumes "objects_ok s" "\<And>u. GiPc s u = Register \<or> (\<exists>q. GiPc s u = Publish q) \<Longrightarrow> False"
  shows "settled s"
  using assms unfolding objects_ok_def settled_def by (cases "Instance s") auto

lemma settled_objects:
  "settled s \<Longrightarrow> Instance s' = Instance s \<Longrightarrow> Made s' = Made s \<Longrightarrow> AtExit s' = AtExit s \<Longrightarrow> objects_ok s'"
  by (simp add: objects_ok_def settled_def split: option.splits)

lemma maker_in_section: "pc = Register \<or> (\<exists>q. pc = Publish q) \<Longrightarrow> in_section pc"
  by auto

lemma inv_Acquire:
  assumes inv: "gi_inv s" and t: "GiPc s t = Acquire"
  shows "gi_inv (Lock_round t s)"
proof (cases "\<exists>u. in_section (GiPc s u)")
  case True
  then have "Lock_round t s = s"
    using inv t by (simp add: Lock_round_def gi_inv_def gi_goto_def fun_upd_idem)
  then show ?thesis using inv by simp
next
  case free: False
  then have k: "KeySingleton s = 0" using inv by (simp add: gi_inv_def)
  let ?s = "Lock_round t s"
  have f: "Instance ?s = Instance s" "Made ?s = Made s" "AtExit ?s = AtExit s" "KeySingleton ?s = 1"
    "GiPc ?s = (GiPc s)(t := SecondLook)" by (simp_all add: Lock_round_def k)
  have "place_ok ?s (GiPc ?s u)" for u
  proof (cases "u = t")
    case False
    have "place_ok ?s (GiPc s u)"
      by (rule place_ok_keep [of _ s]) (use inv free in \<open>simp_all add: f gi_inv_def\<close>)
    then show ?thesis using False by (simp add: f)
  qed (simp add: f place_ok_def)
  moreover have "settled s"
    using inv free maker_in_section by (intro objects_settled) (auto simp: gi_inv_def)
  then have "objects_ok ?s" using f(1-3) by (rule settled_objects)
  ultimately show ?thesis using free by (auto simp: gi_inv_def f)
qed

lemma inv_Release:
  assumes inv: "gi_inv s" and t: "GiPc s t = Release"
  shows "gi_inv (gi_goto t ReturnLook (Unlock s))"
proof -
  let ?s = "gi_goto t ReturnLook (Unlock s)"
  have out: "\<not> in_section (GiPc ?s u)" for u
    using others_outside [OF inv, of t u] t by (simp add: Unlock_def)
  have i: "Instance s \<noteq> None" using inv t by (auto simp: gi_inv_def place_ok_def dest!: spec [of _ t])
  have "place_ok ?s (GiPc ?s u)" for u
  proof (cases "u = t")
    case False
    have "place_ok s (GiPc s u)" using inv by (simp add: gi_inv_def)
    then have "place_ok ?s (GiPc s u)" using others_outside [OF inv, of t u] t False
      by (elim place_ok_keep [rotated]) (simp_all add: Unlock_def)
    then show ?thesis using False by (simp add: Unlock_def)
  qed (use i in \<open>simp add: place_ok_def Unlock_def\<close>)
  moreover have "settled s"
  proof (rule objects_settled)
    show "objects_ok s" using inv by (simp add: gi_inv_def)
    show False if "GiPc s u = Register \<or> (\<exists>q. GiPc s u = Publish q)" for u
      using others_outside [OF inv, of t u] maker_in_section [OF that] that t by (cases "u = t") auto
  qed
  then have "objects_ok ?s" by (rule settled_objects) (simp_all add: Unlock_def)
  moreover have "KeySingleton ?s = 0" by (simp add: Unlock_def)
  ultimately show ?thesis using out unfolding gi_inv_def by auto
qed

lemma inv_step:
  assumes inv: "gi_inv s"
  shows "gi_inv (GetInstance_step p t s)"
proof -
  have ok: "place_ok s (GiPc s t)" and obj: "objects_ok s" using inv by (simp_all add: gi_inv_def)
  show ?thesis
  proof (cases "GiPc s t")
    case FirstLook
    then show ?thesis using inv by (auto simp: GetInstance_step_def place_ok_def intro!: inv_local)
  next
    case Acquire
    then show ?thesis using inv_Acquire [OF inv] by (simp add: GetInstance_step_def)
  next
    case SecondLook
    have "settled s"
    proof (rule objects_settled [OF obj])
      show False if "GiPc s u = Register \<or> (\<exists>q. GiPc s u = Publish q)" for u
        using others_outside [OF inv, of t u] maker_in_section [OF that] that SecondLook by (cases "u = t") auto
    qed
    then have "Made s = []" if "Instance s = None" using that by (simp add: settled_def)
    then show ?thesis using inv SecondLook by (auto simp: GetInstance_step_def place_ok_def intro!: inv_local)
  next
    case Construct
    then have n: "Instance s = None" "Made s = []" using ok by (simp_all add: place_ok_def)
    then have "AtExit s = 0" using obj by (simp add: objects_ok_def)
    then show ?thesis
      unfolding GetInstance_step_def Construct gi_pc.case using n Construct
      by (intro inv_section [OF inv, of t "Publish p"]) (auto simp: place_ok_def objects_ok_def)
  next
    case (Publish q)
    then have n: "Instance s = None" "Made s = [q]" using ok by (simp_all add: place_ok_def)
    then have "AtExit s = 0" using obj by (simp add: objects_ok_def)
    then show ?thesis
      unfolding GetInstance_step_def Publish gi_pc.case using n Publish
      by (intro inv_section [OF inv, of t Register]) (auto simp: place_ok_def objects_ok_def)
  next
    case Register
    then obtain q where n: "Instance s = Some q" "AtExit s = 0" using ok by (auto simp: place_ok_def)
    then have "Made s = [q]" using obj by (simp add: objects_ok_def)
    then show ?thesis
      unfolding GetInstance_step_def Register gi_pc.case using n Register
      by (intro inv_section [OF inv, of t Release]) (auto simp: place_ok_def objects_ok_def)
  next
    case Release
    then show ?thesis using inv_Release [OF inv] by (simp add: GetInstance_step_def)
  next
    case ReturnLook
    then show ?thesis using inv ok by (auto simp: GetInstance_step_def place_ok_def intro!: inv_local)
  qed (use inv in \<open>simp_all add: GetInstance_step_def\<close>)
qed

lemma inv_call:
  assumes "gi_inv s" "gi_outside (GiPc s t)"
  shows "gi_inv (gi_call t s)"
  unfolding gi_call_def using assms(2) outside_not_in_section [OF assms(2)]
  by (intro inv_local [OF assms(1)]) (auto simp: place_ok_def gi_outside_def)

lemma run_gi_inv: "gi_run s \<Longrightarrow> gi_inv s"
proof (induction rule: gi_run.induct)
  case start
  show ?case by (simp add: gi_init_def gi_inv_def place_ok_def objects_ok_def)
qed (simp_all add: inv_call inv_step)

subsection \<open>Calls end\<close>

lemma gi_unfold:
  "gi_steps (Suc k) p t s =
   (case GiPc s t of
      Outside \<Rightarrow> gi_steps k p t s
    | FirstLook \<Rightarrow> gi_steps k p t (gi_goto t (if Instance s = None then Acquire else ReturnLook) s)
    | Acquire \<Rightarrow> gi_steps k p t (Lock_round t s)
    | SecondLook \<Rightarrow> gi_steps k p t (gi_goto t (if Instance s = None then Construct else Release) s)
    | Construct \<Rightarrow> gi_steps k p t (gi_goto t (Publish p) (s\<lparr>Made := Made s @ [p]\<rparr>))
    | Publish q \<Rightarrow> gi_steps k p t (gi_goto t Register (s\<lparr>Instance := Some q\<rparr>))
    | Register \<Rightarrow> gi_steps k p t (gi_goto t Release (s\<lparr>AtExit := AtExit s + 1\<rparr>))
    | Release \<Rightarrow> gi_steps k p t (gi_goto t ReturnLook (Unlock s))
    | ReturnLook \<Rightarrow> gi_steps k p t (gi_goto t (Returned (Instance s)) s)
    | Returned r \<Rightarrow> gi_steps k p t s)"
  by (simp add: GetInstance_step_def split: gi_pc.split)

lemma free_thread_returns:
  assumes inv: "gi_inv s" and free: "KeySingleton s = 0 \<or> in_section (GiPc s t)" and call: "GiPc s t \<noteq> Outside"
  shows "\<exists>q. GiPc (gi_steps 8 p t s) t = Returned (Some q)"
proof -
  have ok: "place_ok s (GiPc s t)" using inv by (simp add: gi_inv_def)
  show ?thesis
    using ok free call
    by (cases "GiPc s t"; cases "Instance s")
       (simp_all add: eval_nat_numeral gi_unfold Lock_round_def Unlock_def place_ok_def del: gi_steps.simps(2))
qed

lemma holder_releases:
  assumes t: "in_section (GiPc s t)"
  shows "KeySingleton (gi_steps 5 p t s) = 0"
  using t
  by (cases "GiPc s t"; cases "Instance s")
     (simp_all add: eval_nat_numeral gi_unfold Unlock_def del: gi_steps.simps(2))

lemma run_steps: "gi_run s \<Longrightarrow> gi_run (gi_steps k p t s)"
  by (induction k arbitrary: s) (simp_all add: gi_run.step)

lemma steps_other_pc: "u \<noteq> t \<Longrightarrow> GiPc (gi_steps k p t s) u = GiPc s u"
proof (induction k arbitrary: s)
  case (Suc k)
  then show ?case by (simp add: GetInstance_step_def Lock_round_def Unlock_def Let_def split: gi_pc.split)
qed simp

lemma instance_fixed:
  assumes inv: "gi_inv s" and i: "Instance s = Some q"
  shows "Instance (GetInstance_step p t s) = Some q"
proof -
  have "place_ok s (GiPc s t)" using inv by (simp add: gi_inv_def)
  then show ?thesis using i
    by (cases "GiPc s t") (simp_all add: GetInstance_step_def Lock_round_def Unlock_def place_ok_def Let_def)
qed

text \<open>After \<open>Destroy\<close> a call constructs a second object.\<close>

lemma recreated_after_Destroy:
  assumes "gi_inv s" "\<forall>u. \<not> in_section (GiPc s u)"
  shows "Made (gi_steps 8 p t (gi_call t (fst (Destroy s)))) = Made s @ [p]"
proof -
  have "KeySingleton s = 0" using assms by (simp add: gi_inv_def)
  then show ?thesis
    by (simp add: eval_nat_numeral gi_unfold Lock_round_def Unlock_def gi_call_def Destroy_def del: gi_steps.simps(2))
qed

subsection \<open>The properties\<close>

text \<open>C28. However the calls of any number of threads interleave, at most one object is constructed and \<open>Destroy\<close> is
  registered at most once, at most one thread is in the section the lock protects, every finished call has returned
  the one object, which is the one in the pointer, and no step replaces it.\<close>

theorem singleton_one_object:
  assumes "gi_run s"
  shows "length (Made s) \<le> 1 \<and> AtExit s \<le> length (Made s) \<and>
         (\<forall>t u. in_section (GiPc s t) \<longrightarrow> in_section (GiPc s u) \<longrightarrow> t = u) \<and>
         (\<forall>t r. GiPc s t = Returned r \<longrightarrow> (\<exists>q. r = Some q \<and> Instance s = Some q \<and> Made s = [q])) \<and>
         (\<forall>q p t. Instance s = Some q \<longrightarrow> Instance (GetInstance_step p t s) = Some q)"
proof -
  note inv = run_gi_inv [OF assms]
  have place: "place_ok s (GiPc s t)" for t using inv by (simp add: gi_inv_def)
  have obj: "objects_ok s" using inv by (simp add: gi_inv_def)
  have "length (Made s) \<le> 1 \<and> AtExit s \<le> length (Made s)"
  proof (cases "Instance s")
    case None
    with obj have "AtExit s = 0" "Made s = [] \<or> (\<exists>t q. GiPc s t = Publish q)" by (simp_all add: objects_ok_def)
    moreover have "Made s = [q]" if "GiPc s t = Publish q" for t q using place [of t] that by (simp add: place_ok_def)
    ultimately show ?thesis by auto
  qed (use obj in \<open>auto simp: objects_ok_def\<close>)
  moreover have "\<exists>q. r = Some q \<and> Instance s = Some q \<and> Made s = [q]" if "GiPc s t = Returned r" for t r
    using place [of t] obj that by (auto simp: place_ok_def objects_ok_def)
  ultimately show ?thesis using inv instance_fixed [OF inv] unfolding gi_inv_def by blast
qed

lemma singleton_one_object_witness:
  "Made (gi_steps 3 11 0 (gi_call 1 (gi_steps 5 10 1 (gi_call 0 (gi_call 1 gi_init))))) = [10] \<and>
   length (Made (gi_steps 3 11 0 (gi_call 0 gi_init))) \<le> 1"
proof (intro conjI)
  show "Made (gi_steps 3 11 0 (gi_call 1 (gi_steps 5 10 1 (gi_call 0 (gi_call 1 gi_init))))) = [10]"
    by code_simp
  have "gi_run (gi_call 0 gi_init)"
    by (intro gi_run.call gi_run.start) (simp add: gi_outside_def gi_init_def)
  then show "length (Made (gi_steps 3 11 0 (gi_call 0 gi_init))) \<le> 1"
    using singleton_one_object [OF run_steps] by blast
qed

text \<open>The lock is never lost: in every reachable state, a thread inside a call returns the object within 8 of its
  own steps when the lock is free, a thread that holds the lock has released it after 5 of its own steps, and only
  in between do the others wait.\<close>

theorem singleton_call_returns:
  assumes "gi_run s" "GiPc s t \<noteq> Outside"
  shows "((\<forall>u. \<not> in_section (GiPc s u)) \<longrightarrow> (\<exists>q. GiPc (gi_steps 8 p t s) t = Returned (Some q))) \<and>
         (\<forall>u. in_section (GiPc s u) \<longrightarrow> (\<exists>q. GiPc (gi_steps 8 p t (gi_steps 5 p' u s)) t = Returned (Some q)))"
proof (intro conjI impI allI)
  note inv = run_gi_inv [OF assms(1)]
  assume "\<forall>u. \<not> in_section (GiPc s u)"
  then have "KeySingleton s = 0" using inv by (simp add: gi_inv_def)
  then show "\<exists>q. GiPc (gi_steps 8 p t s) t = Returned (Some q)" using free_thread_returns [OF inv] assms(2) by blast
next
  fix u assume u: "in_section (GiPc s u)"
  let ?s = "gi_steps 5 p' u s"
  have "GiPc ?s t \<noteq> Outside"
  proof (cases "u = t")
    case True
    with u show ?thesis
      by (cases "GiPc s t"; cases "Instance s") (simp_all add: eval_nat_numeral gi_unfold del: gi_steps.simps(2))
  next
    case False
    then show ?thesis using assms(2) steps_other_pc [of t u 5 p' s] by simp
  qed
  then show "\<exists>q. GiPc (gi_steps 8 p t ?s) t = Returned (Some q)"
    using free_thread_returns [OF run_gi_inv [OF run_steps [OF assms(1)]], of 5 p' u t p] holder_releases [OF u] by blast
qed

lemma singleton_call_returns_witness:
  "\<exists>q. GiPc (gi_steps 8 7 1 (gi_steps 5 9 0 (gi_steps 2 9 0 (gi_call 1 (gi_call 0 gi_init))))) 1 = Returned (Some q)"
proof -
  let ?s = "gi_steps 2 9 0 (gi_call 1 (gi_call 0 gi_init))"
  have r: "gi_run ?s"
    by (intro run_steps gi_run.call gi_run.start) (simp_all add: gi_outside_def gi_init_def gi_call_def)
  have "GiPc ?s 1 \<noteq> Outside" "in_section (GiPc ?s 0)" by code_simp+
  then show ?thesis using singleton_call_returns [OF r] by blast
qed

end
