(* ===== verification/ServerStop.thy ===== *)
theory ServerStop
  imports ServerSessions
begin

text \<open>
  Stopping a server: \<open>NetServer::Stop\<close> and the destructor (NetServer.cpp). \<open>Stop\<close> sets the flag, kills every
  session in use, waits up to five seconds until the other threads have released them, closes the listening
  socket, which wakes the accept thread, and posts one empty completion per worker thread, which ends it. The wait
  looks at the server while other threads work on it: \<open>world k\<close> is the server and the clock at its round \<open>k\<close>.
\<close>

subsection \<open>The wait\<close>

datatype wait_end = Drained | TimedOut

definition timeoutMs :: u32 where
  "timeoutMs = 5000"

definition wait_round :: "u32 \<Rightarrow> 'u server \<times> u32 \<Rightarrow> wait_end option" where
  "wait_round startTick w =
     (let (s, now) = w
      in if 0 < GetConnectedSessionCnt s then
           if timeoutMs < now - startTick then Some TimedOut else None
         else Some Drained)"

partial_function (option) stop_wait :: "u32 \<Rightarrow> (nat \<Rightarrow> 'u server \<times> u32) \<Rightarrow> nat \<Rightarrow> (wait_end \<times> nat) option" where
  "stop_wait startTick world k =
     (case wait_round startTick (world k) of
        Some r \<Rightarrow> Some (r, k)
      | None \<Rightarrow> stop_wait startTick world (Suc k))"

text \<open>\<open>world s1\<close> is how the server goes on from \<open>s1\<close> while \<open>Stop\<close> waits.\<close>

definition Stop ::
  "'u env \<Rightarrow> nat \<Rightarrow> u32 \<Rightarrow> ('u server \<Rightarrow> nat \<Rightarrow> 'u server \<times> u32) \<Rightarrow> 'u server \<Rightarrow> (fault + 'u server) option" where
  "Stop env tid startTick world s =
     (case Stop_begin env tid s of
        Inl e \<Rightarrow> Some (Inl e)
      | Inr (s1, first) \<Rightarrow>
          if \<not> first then Some (Inr s1)
          else (case stop_wait startTick (world s1) 0 of
                  None \<Rightarrow> None
                | Some (r, k) \<Rightarrow> Some (Inr (Stop_end (fst (world s1 k))))))"

text \<open>The destructor: \<open>Stop\<close>, then the sessions go.\<close>

definition NetServer_dtor_end :: "'u server \<Rightarrow> 'u server" where
  "NetServer_dtor_end s = (if TotalSessionCnt s \<noteq> 0 then s\<lparr>SessionArr := [], TotalSessionCnt := 0\<rparr> else s)"

definition NetServer_dtor ::
  "'u env \<Rightarrow> nat \<Rightarrow> u32 \<Rightarrow> ('u server \<Rightarrow> nat \<Rightarrow> 'u server \<times> u32) \<Rightarrow> 'u server \<Rightarrow> (fault + 'u server) option" where
  "NetServer_dtor env tid startTick world s =
     map_option (\<lambda>r. ebind r (\<lambda>s1. Inr (NetServer_dtor_end s1))) (Stop env tid startTick world s)"

lemma stop_wait_at:
  "i \<le> k \<Longrightarrow> \<forall>j. i \<le> j \<longrightarrow> j < k \<longrightarrow> wait_round startTick (world j) = None \<Longrightarrow>
   wait_round startTick (world k) = Some r \<Longrightarrow> stop_wait startTick world i = Some (r, k)"
proof (induction "k - i" arbitrary: i)
  case 0
  then show ?case by (simp add: stop_wait.simps)
next
  case (Suc n)
  then have "wait_round startTick (world i) = None" "stop_wait startTick world (Suc i) = Some (r, k)" by simp_all
  then show ?case by (simp add: stop_wait.simps [of _ _ i])
qed

text \<open>The tick counter is the clock modulo \<open>2 ^ 32\<close>; differences of less than that are exact.\<close>

lemma tick_diff:
  assumes "a \<le> b" "b - a < 2 ^ 32"
  shows "unat ((of_nat b :: u32) - of_nat a) = b - a"
proof -
  have "(of_nat b :: u32) - of_nat a = of_nat (b - a)" using assms(1) by (simp add: of_nat_diff)
  then show ?thesis using assms(2) by (simp add: unat_of_nat32)
qed

lemma wait_round_cases:
  assumes "begun \<le> m" "m - begun < 2 ^ 32"
  shows "wait_round (of_nat begun) (s, of_nat m) =
     (if GetConnectedSessionCnt s = 0 then Some Drained else if begun + 5000 < m then Some TimedOut else None)"
proof -
  have "timeoutMs < (of_nat m :: u32) - of_nat begun \<longleftrightarrow> begun + 5000 < m"
    using tick_diff [OF assms] assms(1) by (auto simp: timeoutMs_def word_less_nat_alt)
  then show ?thesis by (simp add: wait_round_def word_greater_zero_iff)
qed

lemma stop_rounds_end:
  fixes ms :: "nat \<Rightarrow> nat"
  assumes start: "begun \<le> ms 0" "ms 0 \<le> begun + 2 ^ 31"
    and clock: "\<And>k. snd (world k) = of_nat (ms k)" "\<And>k. ms k \<le> ms (Suc k)" "\<And>k. ms (Suc k) \<le> ms k + 2 ^ 31"
    and goes: "\<exists>k. begun + 5000 < ms k"
  shows "\<exists>r k. (\<forall>j < k. wait_round (of_nat begun) (world j) = None) \<and> wait_round (of_nat begun) (world k) = Some r \<and>
     (\<forall>j < k. GetConnectedSessionCnt (fst (world j)) \<noteq> 0 \<and> ms j \<le> begun + 5000) \<and>
     (case r of Drained \<Rightarrow> GetConnectedSessionCnt (fst (world k)) = 0
      | TimedOut \<Rightarrow> GetConnectedSessionCnt (fst (world k)) \<noteq> 0 \<and> begun + 5000 < ms k)"
proof -
  define K where "K = (LEAST k. begun + 5000 < ms k)"
  have K: "begun + 5000 < ms K" and before: "j < K \<Longrightarrow> ms j \<le> begun + 5000" for j
    using goes LeastI_ex [of "\<lambda>k. begun + 5000 < ms k"] not_less_Least [of j "\<lambda>k. begun + 5000 < ms k"]
    unfolding K_def by (simp_all add: not_less)
  have mono: "begun \<le> ms j" for j by (induction j) (use start clock(2) le_trans in blast)+
  have small: "ms j - begun < 2 ^ 32" if "j \<le> K" for j
  proof (cases j)
    case 0
    then show ?thesis using start by simp
  next
    case (Suc i)
    then have "ms i \<le> begun + 5000" using before that by simp
    then show ?thesis using clock(3) [of i] Suc by simp
  qed
  have round: "wait_round (of_nat begun) (world j) =
      (if GetConnectedSessionCnt (fst (world j)) = 0 then Some Drained else if begun + 5000 < ms j then Some TimedOut else None)"
    if "j \<le> K" for j
    using wait_round_cases [OF mono small [OF that], of "fst (world j)"] clock(1) [of j]
    by (metis prod.collapse)
  define k where "k = (LEAST k. wait_round (of_nat begun) (world k) \<noteq> None)"
  have ex: "wait_round (of_nat begun) (world K) \<noteq> None" using round [of K] K by simp
  have kK: "k \<le> K" unfolding k_def using ex by (rule Least_le)
  have none: "wait_round (of_nat begun) (world j) = None" if "j < k" for j
    using that not_less_Least unfolding k_def by blast
  obtain r where r: "wait_round (of_nat begun) (world k) = Some r" using LeastI [of "\<lambda>k. wait_round (of_nat begun) (world k) \<noteq> None", OF ex] unfolding k_def by blast
  have "GetConnectedSessionCnt (fst (world j)) \<noteq> 0 \<and> ms j \<le> begun + 5000" if "j < k" for j
    using none [OF that] round [of j] that kK by (auto split: if_splits)
  moreover have "case r of Drained \<Rightarrow> GetConnectedSessionCnt (fst (world k)) = 0
      | TimedOut \<Rightarrow> GetConnectedSessionCnt (fst (world k)) \<noteq> 0 \<and> begun + 5000 < ms k"
    using r round [OF kK] by (auto split: if_splits)
  ultimately show ?thesis using none r by blast
qed

lemma stop_wait_from_rounds:
  "\<forall>j < k. wait_round startTick (world j) = None \<Longrightarrow> wait_round startTick (world k) = Some r \<Longrightarrow>
   stop_wait startTick world 0 = Some (r, k)"
  by (intro stop_wait_at) auto

subsection \<open>The connected sessions\<close>

text \<open>What no operation on sessions changes; the calls made to the system are only added to.\<close>

definition grown :: "'u server \<Rightarrow> 'u server \<Rightarrow> bool" where
  "grown s s' \<longleftrightarrow> (\<exists>es. Io s' = Io s @ es) \<and> Shutdown s' = Shutdown s \<and> TotalSessionCnt s' = TotalSessionCnt s \<and>
     ThreadCnt s' = ThreadCnt s \<and> ListenSocket s' = ListenSocket s \<and> Posted s' = Posted s"

lemma grown_refl [simp]: "grown s s"
  by (simp add: grown_def)

lemma grown_trans: "grown s t \<Longrightarrow> grown t u \<Longrightarrow> grown s u"
  unfolding grown_def by (elim conjE exE) (intro conjI; simp)

lemma grown_log: "grown s t \<Longrightarrow> grown s (log_io e t)"
  unfolding grown_def log_io_def by auto

lemma grown_same:
  "grown s t \<Longrightarrow> Io u = Io t \<Longrightarrow> Shutdown u = Shutdown t \<Longrightarrow> TotalSessionCnt u = TotalSessionCnt t \<Longrightarrow>
   ThreadCnt u = ThreadCnt t \<Longrightarrow> ListenSocket u = ListenSocket t \<Longrightarrow> Posted u = Posted t \<Longrightarrow> grown s u"
  by (simp add: grown_def)

lemma FreePacket_grown: "FreePacket tid p s = Inr s' \<Longrightarrow> grown s s'"
  by (auto simp: FreePacket_def ebind_eq_Inr set_packet_def Let_def case_prod_beta grown_def split: if_splits)

lemma FreePackets_grown: "FreePackets tid ps s = Inr s' \<Longrightarrow> grown s s'"
  by (induction ps arbitrary: s) (auto simp: ebind_eq_Inr dest!: FreePacket_grown intro: grown_trans)

lemma set_session_grown: "grown s (set_session i x s)"
  by (simp add: grown_def set_session_def)

lemma drain_SendQ_grown: "drain_SendQ tid i q s = Inr s' \<Longrightarrow> grown s s'"
proof (induction q arbitrary: s)
  case (Cons p q)
  then obtain s1 where
    "FreePacket tid p (set_session i ((SessionArr s ! i)\<lparr>SendQ := q\<rparr>) s) = Inr s1" "drain_SendQ tid i q s1 = Inr s'"
    by (auto simp: with_session_def ebind_eq_Inr split: if_splits)
  then show ?case using FreePacket_grown Cons.IH set_session_grown grown_trans by metis
qed simp

lemma ReleaseSession_grown:
  assumes "ReleaseSession tid i s = Inr s'"
  shows "grown s s'"
proof -
  let ?y = "(SessionArr s ! i)\<lparr>SessionID := SessionID (SessionArr s ! i) AND 0xffff000000000000\<rparr>"
  obtain s2 ps s3 q so where d: "drain_SendQ tid i q (log_io (IoClose so) (set_session i ?y s)) = Inr s2"
    and f: "FreePackets tid ps s2 = Inr s3"
    and s': "s' = (set_session i ((SessionArr s3 ! i)\<lparr>SendPacketCnt := 0\<rparr>) s3)
       \<lparr>FreeSessionStack := i # FreeSessionStack s3\<rparr>"
    using assms by (auto simp: ReleaseSession_def with_session_def Let_def ebind_eq_Inr set_session_def split: if_splits)
  have "grown s (log_io (IoClose so) (set_session i ?y s))" by (rule grown_log [OF set_session_grown])
  then have "grown s s3" using drain_SendQ_grown [OF d] FreePackets_grown [OF f] grown_trans by blast
  then show ?thesis by (rule grown_same) (simp_all add: s' set_session_def)
qed

text \<open>Giving up a reference changes the slot of its session only.\<close>

lemma release_ref_slot:
  assumes inv: "refs_inv s U" and i: "i < length (SessionArr s)" and q: "quiet_leave env"
    and use: "\<not> SessionUseFlag (SessionArr s ! i)"
  shows "\<exists>s' y. release_ref env tid i s = Inr s' \<and> refs_inv s' U \<and> grown s s' \<and>
     SessionArr s' = (SessionArr s)[i := y] \<and> \<not> SessionUseFlag y \<and> Socket y = Socket (SessionArr s ! i)"
proof -
  let ?x = "sub_ref (SessionArr s ! i)" and ?s1 = "set_session i (sub_ref (SessionArr s ! i)) s"
  have d: "DecrementSessionRef i s = Inr (?s1, SessionRef ?x)"
    using i by (simp add: DecrementSessionRef_def with_session_def sub_ref_def)
  have inv1: "refs_inv ?s1 U" using refs_inv_DecrementSessionRef [OF inv d] .
  have x: "\<not> SessionUseFlag ?x" "Socket ?x = Socket (SessionArr s ! i)" using use by (simp_all add: sub_ref_def)
  have keep: "release_ref env tid i s = Inr ?s1 \<Longrightarrow> ?thesis"
    using inv1 x set_session_grown [of s i ?x] by (intro exI [of _ ?s1] exI [of _ ?x]) (simp add: set_session_def)
  show ?thesis
  proof (cases "SessionRef ?x = 0 \<and> \<not> ReleaseFlag ?x")
    case False
    then have "release_ref env tid i s = Inr ?s1"
      using i d by (auto simp: release_ref_def DisconnectSession_def with_session_def)
    then show ?thesis by (rule keep)
  next
    case True
    let ?y = "?x\<lparr>ReleaseFlag := True, SessionRef := 0\<rparr>"
    let ?s2 = "set_session i ?y ?s1"
    obtain a where a: "OnClientLeave env (SessionID ?x) ?s2 = Inr (?s2\<lparr>App := a\<rparr>)"
      using q by (auto simp: quiet_leave_def)
    have arr: "SessionArr ?s2 = (SessionArr s)[i := ?y]" by (simp add: set_session_def)
    have ni: "i \<notin> set (FreeSessionStack ?s1)" using refs_inv_flag [OF inv1, of i] True i by auto
    have "refs_inv (?s2\<lparr>App := a\<rparr>) U"
      using refs_inv_nth [OF inv1, of i] ni i
      by (intro refs_inv_quiet [OF inv1, of i ?y]) (auto simp: session_ok_def held_by_def set_session_def)
    from refs_inv_ReleaseSession [OF this, of i tid] ni i arr obtain s' where
      s': "ReleaseSession tid i (?s2\<lparr>App := a\<rparr>) = Inr s'" "refs_inv s' U"
        "SessionArr s' = (SessionArr s)[i := ?y\<lparr>SessionID := SessionID ?y AND 0xffff000000000000, SendQ := [], SendPacketCnt := 0\<rparr>]"
      by (auto simp: set_session_def)
    have "grown s (?s2\<lparr>App := a\<rparr>)" by (simp add: grown_def set_session_def)
    then have "grown s s'" using ReleaseSession_grown [OF s'(1)] grown_trans by blast
    moreover have "release_ref env tid i s = Inr s'"
      using True i a s'(1) by (simp add: release_ref_def d DisconnectSession_def with_session_def)
    ultimately show ?thesis using s'(2,3) x
      by (intro exI [of _ s'] exI [of _ "?y\<lparr>SessionID := SessionID ?y AND 0xffff000000000000, SendQ := [], SendPacketCnt := 0\<rparr>"]) simp
  qed
qed

text \<open>Killing a session in use cuts it off, and touches no other.\<close>

lemma kill_slot:
  assumes inv: "refs_inv s U" and i: "i < length (SessionArr s)" and q: "quiet_leave env"
    and live: "\<not> ReleaseFlag (SessionArr s ! i)" and id: "FindSession (SessionID (SessionArr s ! i)) = i"
  shows "\<exists>s' y. KillSession env tid (SessionID (SessionArr s ! i)) s = Inr s' \<and> refs_inv s' U \<and> grown s s' \<and>
     SessionArr s' = (SessionArr s)[i := y] \<and> \<not> SessionUseFlag y \<and> IoCancel (Socket (SessionArr s ! i)) \<in> set (Io s')"
proof -
  let ?x = "SessionArr s ! i" and ?s1 = "set_session i (add_ref (SessionArr s ! i)) s"
  let ?s2 = "log_io (IoCancel (Socket ?x)) (set_session i ((add_ref ?x)\<lparr>SessionUseFlag := False\<rparr>) ?s1)"
  have inc: "IncrementSessionRef i s = Inr ?s1" using i by (simp add: IncrementSessionRef_def with_session_def)
  have inv1: "refs_inv ?s1 U" using refs_inv_IncrementSessionRef [OF inv inc] .
  have sk: "Socket (add_ref ?x) = Socket ?x" by (simp add: add_ref_def)
  have arr: "SessionArr ?s2 = (SessionArr s)[i := (add_ref ?x)\<lparr>SessionUseFlag := False\<rparr>]"
    by (simp add: log_io_def set_session_def)
  have "refs_inv ?s2 U"
    using refs_inv_nth [OF inv i] refs_inv_flag [OF inv, of i] i live
    by (intro refs_inv_quiet [OF inv1, of i "(add_ref ?x)\<lparr>SessionUseFlag := False\<rparr>"])
       (auto simp: session_ok_def held_by_def set_session_def log_io_def add_ref_def)
  from release_ref_slot [OF this _ q, of i tid] i arr obtain s' y where
    s': "release_ref env tid i ?s2 = Inr s'" "refs_inv s' U" "grown ?s2 s'" "SessionArr s' = (SessionArr s)[i := y]"
      "\<not> SessionUseFlag y" by auto
  have "KillSession env tid (SessionID ?x) s = Inr s'"
    using s'(1) inc i live sk by (simp add: KillSession_def id with_session_def Let_def)
  moreover have "grown s s'"
  proof (rule grown_trans)
    show "grown s ?s2" by (intro grown_log grown_same [OF grown_refl [of s]]) (simp_all add: set_session_def)
  qed (rule s'(3))
  moreover have "IoCancel (Socket ?x) \<in> set (Io s')" using s'(3) by (auto simp: grown_def log_io_def)
  ultimately show ?thesis using s' by blast
qed

lemma kill_sessions_cut:
  assumes "refs_inv s U" "quiet_leave env" "distinct is"
    "\<forall>i \<in> set is. i < length (SessionArr s) \<and> FindSession (SessionID (SessionArr s ! i)) = i"
  shows "\<exists>s'. kill_sessions env tid is s = Inr s' \<and> refs_inv s' U \<and> grown s s' \<and>
     length (SessionArr s') = length (SessionArr s) \<and>
     (\<forall>i < length (SessionArr s). i \<notin> set is \<or> ReleaseFlag (SessionArr s ! i) \<longrightarrow> SessionArr s' ! i = SessionArr s ! i) \<and>
     (\<forall>i \<in> set is. \<not> ReleaseFlag (SessionArr s ! i) \<longrightarrow>
        \<not> SessionUseFlag (SessionArr s' ! i) \<and> IoCancel (Socket (SessionArr s ! i)) \<in> set (Io s'))"
  using assms
proof (induction "is" arbitrary: s)
  case (Cons i "is")
  have i: "i < length (SessionArr s)" "FindSession (SessionID (SessionArr s ! i)) = i" "i \<notin> set is" using Cons.prems by auto
  show ?case
  proof (cases "ReleaseFlag (SessionArr s ! i)")
    case True
    have "\<exists>s'. kill_sessions env tid is s = Inr s' \<and> refs_inv s' U \<and> grown s s' \<and>
     length (SessionArr s') = length (SessionArr s) \<and>
     (\<forall>i < length (SessionArr s). i \<notin> set is \<or> ReleaseFlag (SessionArr s ! i) \<longrightarrow> SessionArr s' ! i = SessionArr s ! i) \<and>
     (\<forall>i \<in> set is. \<not> ReleaseFlag (SessionArr s ! i) \<longrightarrow>
        \<not> SessionUseFlag (SessionArr s' ! i) \<and> IoCancel (Socket (SessionArr s ! i)) \<in> set (Io s'))"
      using Cons.prems by (intro Cons.IH) auto
    with True i show ?thesis by (auto simp: with_session_def)
  next
    case False
    from kill_slot [OF Cons.prems(1) i(1) Cons.prems(2) False i(2), of tid] obtain s1 y where
      k: "KillSession env tid (SessionID (SessionArr s ! i)) s = Inr s1" "refs_inv s1 U" "grown s s1"
        "SessionArr s1 = (SessionArr s)[i := y]" "\<not> SessionUseFlag y" "IoCancel (Socket (SessionArr s ! i)) \<in> set (Io s1)"
      by blast
    have nth: "j \<noteq> i \<Longrightarrow> SessionArr s1 ! j = SessionArr s ! j" for j by (simp add: k(4))
    have "\<forall>j \<in> set is. j < length (SessionArr s1) \<and> FindSession (SessionID (SessionArr s1 ! j)) = j"
      using Cons.prems(4) i(3) nth by (metis k(4) length_list_update list.set_intros(2))
    with Cons.IH [OF k(2) Cons.prems(2)] Cons.prems(3) obtain s2 where
      s2: "kill_sessions env tid is s1 = Inr s2" "refs_inv s2 U" "grown s1 s2" "length (SessionArr s2) = length (SessionArr s1)"
        "\<forall>j < length (SessionArr s1). j \<notin> set is \<or> ReleaseFlag (SessionArr s1 ! j) \<longrightarrow> SessionArr s2 ! j = SessionArr s1 ! j"
        "\<forall>j \<in> set is. \<not> ReleaseFlag (SessionArr s1 ! j) \<longrightarrow>
          \<not> SessionUseFlag (SessionArr s2 ! j) \<and> IoCancel (Socket (SessionArr s1 ! j)) \<in> set (Io s2)" by auto
    have "SessionArr s2 ! i = y" using s2(5) i by (simp add: k(4))
    moreover have "IoCancel (Socket (SessionArr s ! i)) \<in> set (Io s2)" using k(6) s2(3) by (auto simp: grown_def)
    moreover have "SessionArr s2 ! j = SessionArr s ! j" if "j < length (SessionArr s)" "j \<noteq> i"
        "j \<notin> set is \<or> ReleaseFlag (SessionArr s ! j)" for j
      using s2(5) that nth [OF that(2)] by (simp add: k(4))
    moreover have "\<not> SessionUseFlag (SessionArr s2 ! j) \<and> IoCancel (Socket (SessionArr s ! j)) \<in> set (Io s2)"
      if "j \<in> set is" "\<not> ReleaseFlag (SessionArr s ! j)" for j
      using s2(6) that i(3) nth [of j] by metis
    ultimately show ?thesis
      using k(1,5) s2(1-4) grown_trans [OF k(3) s2(3)] i(1) False
      by (intro exI [of _ s2]) (auto simp: with_session_def k(4))
  qed
qed simp

text \<open>The count that \<open>Stop\<close> waits for is the number of sessions in use.\<close>

lemma connected_count:
  assumes "ids_ok s" "free_stack_ok s" "unat (TotalSessionCnt s) = length (SessionArr s)"
  shows "unat (GetConnectedSessionCnt s) = card {i. i < length (SessionArr s) \<and> \<not> ReleaseFlag (SessionArr s ! i)}"
proof -
  let ?n = "length (SessionArr s)" and ?F = "set (FreeSessionStack s)"
  have F: "card ?F = length (FreeSessionStack s)" "?F \<subseteq> {..<?n}"
    using assms(2) by (auto simp: free_stack_ok_def distinct_card)
  have "{i. i < ?n \<and> \<not> ReleaseFlag (SessionArr s ! i)} = {..<?n} - ?F" using assms(1) by (auto simp: ids_ok_def)
  then have c: "card {i. i < ?n \<and> \<not> ReleaseFlag (SessionArr s ! i)} = ?n - length (FreeSessionStack s)"
    using F by (simp add: card_Diff_subset)
  have le: "length (FreeSessionStack s) \<le> ?n" using card_mono [OF _ F(2)] F(1) by simp
  have "unat (TotalSessionCnt s) < 2 ^ LENGTH(16)" by (rule unsigned_less)
  then have n: "?n < 65536" using assms(3) by simp
  have "(ucast (TotalSessionCnt s) :: u32) = of_nat ?n" using assms(3) by (metis of_nat_unat)
  then have "GetConnectedSessionCnt s = of_nat (?n - length (FreeSessionStack s))"
    using le by (simp add: GetConnectedSessionCnt_def of_nat_diff)
  then show ?thesis using c n by (simp add: unat_of_nat32)
qed

lemma Stop_begin_cuts:
  assumes run: "server_run env frame max_len s U" "quiet_leave env" "fresh_packet (NewPacket env)"
    and total: "unat (TotalSessionCnt s) = length (SessionArr s)" and up: "\<not> Shutdown s"
  shows "\<exists>s1. Stop_begin env tid s = Inr (s1, True) \<and> Shutdown s1 \<and> refs_inv s1 U \<and>
     length (SessionArr s1) = length (SessionArr s) \<and>
     (\<forall>i < length (SessionArr s). \<not> ReleaseFlag (SessionArr s ! i) \<longrightarrow>
        \<not> SessionUseFlag (SessionArr s1 ! i) \<and> IoCancel (Socket (SessionArr s ! i)) \<in> set (Io s1))"
proof -
  let ?s = "s\<lparr>Shutdown := True\<rparr>"
  have inv: "refs_inv ?s U" by (rule refs_inv_same [OF server_run_inv [OF run]]) simp_all
  have "\<forall>i \<in> set [0..<unat (TotalSessionCnt s)]. i < length (SessionArr ?s) \<and> FindSession (SessionID (SessionArr ?s ! i)) = i"
    using server_run_ids [OF run] total by (auto simp: ids_ok_def)
  from kill_sessions_cut [OF inv run(2) distinct_upt this, of tid] obtain s1 where
    "kill_sessions env tid [0..<unat (TotalSessionCnt s)] ?s = Inr s1" "refs_inv s1 U" "grown ?s s1"
    "length (SessionArr s1) = length (SessionArr s)"
    "\<forall>i \<in> set [0..<unat (TotalSessionCnt s)]. \<not> ReleaseFlag (SessionArr ?s ! i) \<longrightarrow>
        \<not> SessionUseFlag (SessionArr s1 ! i) \<and> IoCancel (Socket (SessionArr ?s ! i)) \<in> set (Io s1)" by auto
  then show ?thesis using up total by (intro exI [of _ s1]) (auto simp: Stop_begin_def grown_def)
qed

subsection \<open>The properties\<close>

text \<open>C12. \<open>Stop\<close> returns: in every run of the server it first cuts off every session in use (its input and output
  is cancelled and it takes no more), then waits until no session is connected or, by the wrapping tick counter,
  more than five seconds have passed, whatever the other threads do meanwhile, and then lets the threads end. The
  count it waits for is the number of sessions in use. A second call returns at once and changes nothing.\<close>

theorem stop_returns:
  fixes ms :: "nat \<Rightarrow> nat"
  assumes run: "server_run env frame max_len s U" "quiet_leave env" "fresh_packet (NewPacket env)"
    and total: "unat (TotalSessionCnt s) = length (SessionArr s)" and up: "\<not> Shutdown s"
    and start: "begun \<le> ms 0" "ms 0 \<le> begun + 2 ^ 31"
    and clock: "\<forall>s1 k. snd (world s1 k) = of_nat (ms k)" "\<forall>k. ms k \<le> ms (Suc k) \<and> ms (Suc k) \<le> ms k + 2 ^ 31"
    and goes: "\<exists>k. begun + 5000 < ms k"
  shows "\<exists>s1 r k. Stop_begin env tid s = Inr (s1, True) \<and>
     (\<forall>i < length (SessionArr s). \<not> ReleaseFlag (SessionArr s ! i) \<longrightarrow>
        \<not> SessionUseFlag (SessionArr s1 ! i) \<and> IoCancel (Socket (SessionArr s ! i)) \<in> set (Io s1)) \<and>
     Stop env tid (of_nat begun) world s = Some (Inr (Stop_end (fst (world s1 k)))) \<and>
     (\<forall>j < k. GetConnectedSessionCnt (fst (world s1 j)) \<noteq> 0 \<and> ms j \<le> begun + 5000) \<and>
     (case r of Drained \<Rightarrow> GetConnectedSessionCnt (fst (world s1 k)) = 0
      | TimedOut \<Rightarrow> GetConnectedSessionCnt (fst (world s1 k)) \<noteq> 0 \<and> begun + 5000 < ms k) \<and>
     unat (GetConnectedSessionCnt s) = card {i. i < length (SessionArr s) \<and> \<not> ReleaseFlag (SessionArr s ! i)} \<and>
     Stop env tid (of_nat begun) world s1 = Some (Inr s1)"
proof -
  obtain s1 where b: "Stop_begin env tid s = Inr (s1, True)" "Shutdown s1"
    "\<forall>i < length (SessionArr s). \<not> ReleaseFlag (SessionArr s ! i) \<longrightarrow>
        \<not> SessionUseFlag (SessionArr s1 ! i) \<and> IoCancel (Socket (SessionArr s ! i)) \<in> set (Io s1)"
    using Stop_begin_cuts [OF run total up, of tid] by blast
  obtain r k where w: "stop_wait (of_nat begun) (world s1) 0 = Some (r, k)"
    "\<forall>j < k. GetConnectedSessionCnt (fst (world s1 j)) \<noteq> 0 \<and> ms j \<le> begun + 5000"
    "case r of Drained \<Rightarrow> GetConnectedSessionCnt (fst (world s1 k)) = 0
      | TimedOut \<Rightarrow> GetConnectedSessionCnt (fst (world s1 k)) \<noteq> 0 \<and> begun + 5000 < ms k"
    using stop_rounds_end [of begun ms "world s1"] start clock goes stop_wait_from_rounds by metis
  have "free_stack_ok s" using server_run_inv [OF run] by (simp add: refs_inv_def)
  then have "unat (GetConnectedSessionCnt s) = card {i. i < length (SessionArr s) \<and> \<not> ReleaseFlag (SessionArr s ! i)}"
    by (rule connected_count [OF server_run_ids [OF run] _ total])
  moreover have "Stop env tid (of_nat begun) world s = Some (Inr (Stop_end (fst (world s1 k))))"
    using b(1) w(1) by (simp add: Stop_def)
  moreover have "Stop env tid (of_nat begun) world s1 = Some (Inr s1)"
    using b(2) by (simp add: Stop_def Stop_begin_def)
  ultimately show ?thesis using b w by blast
qed

lemma stop_returns_witness:
  "\<exists>s s1 k. Stop_begin recording_app 0 s = Inr (s1, True) \<and>
     Stop recording_app 0 (of_nat (5 :: nat)) (\<lambda>s k. (s, of_nat (5 + 10 * k))) s = Some (Inr (Stop_end s1)) \<and> k \<le> (501 :: nat)"
proof -
  let ?s = "(one_session_server (xor_vtable (XorPacketEncoder 119 50 4096)))
    \<lparr>SessionArr := map (start_session (\<lambda>_. 0)) [0..<2], FreeSessionStack := rev [0..<2], SessionIDCnt := 0, TotalSessionCnt := 2\<rparr>"
  let ?world = "\<lambda>(s :: (u64 \<times> byte list) list server) k. (s, of_nat (5 + 10 * k) :: u32)"
  have r0: "server_run recording_app (xor_frame_rnd (XorPacketEncoder 119 50 4096)) 4096 ?s (\<lambda>p. 0)"
    by (rule server_run.start [of _ "\<lambda>_. 0" 2 4096 64]) (simp_all add: one_session_server_def)
  have up: "unat (TotalSessionCnt ?s) = length (SessionArr ?s)" "\<not> Shutdown ?s" by (simp_all add: one_session_server_def)
  have clock: "(5 :: nat) \<le> 5 + 10 * 0" "5 + 10 * 0 \<le> (5 :: nat) + 2 ^ 31" "\<forall>s k. snd (?world s k) = of_nat (5 + 10 * k)"
    "\<forall>k. 5 + 10 * k \<le> (5 :: nat) + 10 * Suc k \<and> 5 + 10 * Suc k \<le> 5 + 10 * k + 2 ^ 31"
    "\<exists>k. 5 + 5000 < (5 :: nat) + 10 * k" by (auto intro: exI [of _ 501])
  note ret = stop_returns [where ms = "\<lambda>k. 5 + 10 * k" and begun = 5 and world = ?world and tid = 0,
      OF r0 quiet_recording recording.new_packet up clock]
  obtain s1 r k where w: "Stop_begin recording_app 0 ?s = Inr (s1, True)"
    "Stop recording_app 0 (of_nat (5 :: nat)) ?world ?s = Some (Inr (Stop_end s1))" "\<forall>j < k. 5 + 10 * j \<le> 5 + (5000 :: nat)"
    using ret by fastforce
  have "k \<le> 501"
  proof (rule ccontr)
    assume "\<not> k \<le> 501"
    with w(3) have "5 + 10 * 501 \<le> 5 + (5000 :: nat)" by (simp only: not_le)
    then show False by simp
  qed
  with w show ?thesis by blast
qed

subsection \<open>A client that connects during the wait\<close>

text \<open>An application that takes every client and only changes its own state when one joins.\<close>

definition welcoming :: "'u env \<Rightarrow> bool" where
  "welcoming env \<longleftrightarrow> (\<forall>s. \<exists>a. OnConnectionRequest env s = (s\<lparr>App := a\<rparr>, True)) \<and>
     (\<forall>sid s. \<exists>a. OnClientJoin env sid s = Inr (s\<lparr>App := a\<rparr>))"

lemma accept_late:
  assumes env: "welcoming env" and st: "FreeSessionStack s = i # rest" and i: "i < length (SessionArr s)"
    and ref: "SessionRef (SessionArr s ! i) = 0" and rv: "rv = None \<or> rv = Some WSA_IO_PENDING"
  shows "\<exists>s' n. accept_client env tid sock ca rv s = Inr s' \<and> FreeSessionStack s' = rest \<and>
     SessionUseFlag (SessionArr s' ! i) \<and> \<not> ReleaseFlag (SessionArr s' ! i) \<and> SessionRef (SessionArr s' ! i) = 1 \<and>
     Socket (SessionArr s' ! i) = sock \<and> Io s' = Io s @ [IoAssociate sock i, IoRecv i (fst n) (snd n)] \<and>
     Shutdown s' = Shutdown s \<and> TotalSessionCnt s' = TotalSessionCnt s \<and>
     (\<forall>j. j \<noteq> i \<longrightarrow> SessionArr s' ! j = SessionArr s ! j)"
proof -
  obtain a where a: "OnConnectionRequest env (AddAcceptCnt s) = ((AddAcceptCnt s)\<lparr>App := a\<rparr>, True)"
    using env unfolding welcoming_def by blast
  let ?s1 = "(AddAcceptCnt s)\<lparr>App := a\<rparr>" and ?x = "init_session (SessionIDCnt s + 1) (SessionArr s ! i)"
  let ?s2 = "set_session i ?x (?s1\<lparr>FreeSessionStack := rest, SessionIDCnt := SessionIDCnt s + 1\<rparr>)"
  have g: "GetFreeSession ?s1 = Inr (?s2, Some i)"
    using st i by (simp add: GetFreeSession_def InitSession_def GenerateSessionID_def with_session_def AddAcceptCnt_def Let_def)
  let ?y = "?x\<lparr>Socket := sock, ClientAddr := ca\<rparr>"
  let ?s3 = "log_io (IoAssociate sock i) (set_session i ?y ?s2)"
  obtain b where b: "OnClientJoin env (SessionID ?x) ?s3 = Inr (?s3\<lparr>App := b\<rparr>)"
    using env unfolding welcoming_def by blast
  have x: "SessionArr ?s2 ! i = ?x" "i < length (SessionArr ?s2)"
    using i by (simp_all add: set_session_def AddAcceptCnt_def)
  let ?s4 = "?s3\<lparr>App := b\<rparr>"
  have y: "SessionArr ?s4 ! i = ?y" "i < length (SessionArr ?s4)" "SessionUseFlag ?y" "SessionRef ?y = 1" "\<not> ReleaseFlag ?y"
    using i ref by (simp_all add: set_session_def AddAcceptCnt_def log_io_def init_session_def)
  let ?s5 = "log_io (IoRecv i (Rear (RecvQ ?y)) (GetFreeSize (RecvQ ?y))) (set_session i (add_ref ?y) ?s4)"
  have x5: "SessionArr ?s5 ! i = add_ref ?y" "i < length (SessionArr ?s5)" using y by (simp_all add: log_io_def set_session_def)
  have use5: "SessionUseFlag (add_ref ?y)" "SessionRef (add_ref ?y) = 2" using y by (simp_all add: add_ref_def)
  have p: "RecvPost i rv ?s4 = Inr (?s5, True)"
    unfolding RecvPost_def with_session_def cancel_if_unused_def
    using y x5 use5 rv by (auto simp: Let_def cancel_if_unused_def with_session_def)
  let ?s6 = "set_session i (sub_ref (add_ref ?y)) ?s5"
  have d: "DecrementSessionRef i ?s5 = Inr (?s6, 1)"
    using x5 use5 by (simp add: DecrementSessionRef_def with_session_def sub_ref_def)
  have "accept_client env tid sock ca rv s = Inr ?s6"
    using x by (simp only: accept_client_def a g Let_def prod.case ebind_Inr option.case with_session_def if_True b p
        release_ref_def d not_True_eq_False if_False one_neq_zero)
  moreover have "sub_ref (add_ref ?y) = ?y" by simp
  ultimately show ?thesis
    using y i by (intro exI [of _ ?s6] exI [of _ "(Rear (RecvQ ?y), GetFreeSize (RecvQ ?y))"])
      (simp add: log_io_def set_session_def AddAcceptCnt_def)
qed

text \<open>The slot is in use, in a state with the invariants of every run (\<open>server_run_ids\<close>, \<open>server_run_inv\<close>).\<close>

definition connected_slot :: "nat \<Rightarrow> 'u server \<Rightarrow> bool" where
  "connected_slot i s \<longleftrightarrow> ids_ok s \<and> free_stack_ok s \<and> unat (TotalSessionCnt s) = length (SessionArr s) \<and>
     i < length (SessionArr s) \<and> \<not> ReleaseFlag (SessionArr s ! i)"

lemma connected_slot_counts: "connected_slot i s \<Longrightarrow> GetConnectedSessionCnt s \<noteq> 0"
proof -
  assume c: "connected_slot i s"
  then have "i \<in> {i. i < length (SessionArr s) \<and> \<not> ReleaseFlag (SessionArr s ! i)}" by (simp add: connected_slot_def)
  then have "0 < card {i. i < length (SessionArr s) \<and> \<not> ReleaseFlag (SessionArr s ! i)}" by (auto intro: card_gt_0_iff [THEN iffD2])
  then show ?thesis using connected_count [of s] c by (auto simp: connected_slot_def)
qed

lemma connected_wait:
  fixes ms :: "nat \<Rightarrow> nat"
  assumes "begun \<le> ms 0 \<and> ms 0 \<le> begun + 2 ^ 31 \<and> (\<exists>k. begun + 5000 < ms k) \<and>
       (\<forall>k. snd (world k) = of_nat (ms k) \<and> ms k \<le> ms (Suc k) \<and> ms (Suc k) \<le> ms k + 2 ^ 31 \<and> connected_slot i (fst (world k)))"
  shows "\<exists>k. stop_wait (of_nat begun) world 0 = Some (TimedOut, k) \<and> begun + 5000 < ms k \<and> (\<forall>j < k. ms j \<le> begun + 5000)"
proof -
  from stop_rounds_end [of begun ms world] assms obtain r k where r: "\<forall>j < k. wait_round (of_nat begun) (world j) = None"
    "wait_round (of_nat begun) (world k) = Some r" "\<forall>j < k. ms j \<le> begun + 5000"
    "case r of Drained \<Rightarrow> GetConnectedSessionCnt (fst (world k)) = 0
      | TimedOut \<Rightarrow> GetConnectedSessionCnt (fst (world k)) \<noteq> 0 \<and> begun + 5000 < ms k" by blast
  have "GetConnectedSessionCnt (fst (world k)) \<noteq> 0" using assms connected_slot_counts by blast
  with r show ?thesis using stop_wait_from_rounds [OF r(1,2)] by (cases r) auto
qed

text \<open>C13. A connection that the accept thread takes after \<open>Stop\<close> has passed its round over the sessions is not
  stopped: the accept thread, blocked in \<open>accept\<close> when the flag was set, still opens the session, posts a receive
  and only then ends; neither cancels it, and a second \<open>Stop\<close> returns without looking at it. For as long as its slot is
  in use (until its client or an error ends it) the wait of the first \<open>Stop\<close> goes on, so that when it lasts, whatever
  else happens to the server meanwhile, the wait ends by its timeout, after more than five seconds.\<close>

theorem late_connection_outlives_stop:
  fixes env :: "'u env"
  assumes "welcoming env" "Shutdown s" "FreeSessionStack s = i # rest" "i < length (SessionArr s)"
    "SessionRef (SessionArr s ! i) = 0" "unat (TotalSessionCnt s) = length (SessionArr s)"
    "length (FreeSessionStack s) \<le> length (SessionArr s)"
  shows "\<exists>s' off len. AcceptThread_step env tid (Inr sock) ca None s = Inr (s', True) \<and>
     SessionUseFlag (SessionArr s' ! i) \<and> \<not> ReleaseFlag (SessionArr s' ! i) \<and> SessionRef (SessionArr s' ! i) = 1 \<and>
     Io s' = Io s @ [IoAssociate sock i, IoRecv i off len] \<and>
     Stop_begin env tid s' = Inr (s', False) \<and> 0 < GetConnectedSessionCnt s' \<and>
     wait_round startTick (s', now) \<noteq> Some Drained \<and>
     (\<forall>(world :: nat \<Rightarrow> 'u server \<times> u32) ms begun. begun \<le> ms 0 \<and> ms 0 \<le> begun + 2 ^ 31 \<and> (\<exists>k. begun + 5000 < ms k) \<and>
       (\<forall>k. snd (world k) = of_nat (ms k) \<and> ms k \<le> ms (Suc k) \<and> ms (Suc k) \<le> ms k + 2 ^ 31 \<and> connected_slot i (fst (world k))) \<longrightarrow>
       (\<exists>k. stop_wait (of_nat begun) world 0 = Some (TimedOut, k) \<and> begun + 5000 < ms k \<and> (\<forall>j < k. ms j \<le> begun + 5000)))"
proof -
  obtain s' n where s': "accept_client env tid sock ca None s = Inr s'" "FreeSessionStack s' = rest"
     "SessionUseFlag (SessionArr s' ! i)" "\<not> ReleaseFlag (SessionArr s' ! i)" "SessionRef (SessionArr s' ! i) = 1"
     "Io s' = Io s @ [IoAssociate sock i, IoRecv i (fst n) (snd n)]"
     "Shutdown s' = Shutdown s" "TotalSessionCnt s' = TotalSessionCnt s"
    using accept_late [OF assms(1,3-5), of None tid sock ca] by blast
  have "unat (TotalSessionCnt s) < 2 ^ LENGTH(16)" by (rule unsigned_less)
  then have n: "length (SessionArr s) < 65536" using assms(6) by simp
  have "(ucast (TotalSessionCnt s) :: u32) = of_nat (length (SessionArr s))" using assms(6) by (metis of_nat_unat)
  then have "GetConnectedSessionCnt s' = of_nat (length (SessionArr s) - length rest)"
    using assms(3,7) s'(2,8) by (simp add: GetConnectedSessionCnt_def of_nat_diff)
  then have "unat (GetConnectedSessionCnt s') = length (SessionArr s) - length rest"
    using n by (simp add: unat_of_nat32 del: of_nat_diff)
  then have c: "0 < GetConnectedSessionCnt s'" using assms(3,7) by (simp add: word_less_nat_alt)
  then have "wait_round startTick (s', now) \<noteq> Some Drained" by (simp add: wait_round_def)
  moreover have "AcceptThread_step env tid (Inr sock) ca None s = Inr (s', True)" "Stop_begin env tid s' = Inr (s', False)"
    using s'(1,7) assms(2) by (simp_all add: AcceptThread_step_def Stop_begin_def)
  ultimately have first: "AcceptThread_step env tid (Inr sock) ca None s = Inr (s', True) \<and>
     SessionUseFlag (SessionArr s' ! i) \<and> \<not> ReleaseFlag (SessionArr s' ! i) \<and> SessionRef (SessionArr s' ! i) = 1 \<and>
     Io s' = Io s @ [IoAssociate sock i, IoRecv i (fst n) (snd n)] \<and>
     Stop_begin env tid s' = Inr (s', False) \<and> 0 < GetConnectedSessionCnt s' \<and> wait_round startTick (s', now) \<noteq> Some Drained"
    using s'(3-6) c by simp
  show ?thesis
  proof (rule exI [of _ s'], rule exI [of _ "fst n"], rule exI [of _ "snd n"], intro conjI allI impI)
    fix world :: "nat \<Rightarrow> 'u server \<times> u32" and ms :: "nat \<Rightarrow> nat" and begun
    assume "begun \<le> ms 0 \<and> ms 0 \<le> begun + 2 ^ 31 \<and> (\<exists>k. begun + 5000 < ms k) \<and>
       (\<forall>k. snd (world k) = of_nat (ms k) \<and> ms k \<le> ms (Suc k) \<and> ms (Suc k) \<le> ms k + 2 ^ 31 \<and> connected_slot i (fst (world k)))"
    then show "\<exists>k. stop_wait (of_nat begun) world 0 = Some (TimedOut, k) \<and> begun + 5000 < ms k \<and> (\<forall>j < k. ms j \<le> begun + 5000)"
      by (rule connected_wait)
  qed (use first in blast)+
qed

lemma late_connection_outlives_stop_witness:
  "\<exists>s s'. Stop_begin recording_app 0
      ((one_session_server (xor_vtable (XorPacketEncoder 119 50 4096)))
        \<lparr>SessionArr := [start_session (\<lambda>_. 0) 0], FreeSessionStack := [0]\<rparr>) = Inr (s, True) \<and>
     AcceptThread_step recording_app 1 (Inr 9) (0, 0) None s = Inr (s', True) \<and> 0 < GetConnectedSessionCnt s' \<and>
     (\<exists>k. stop_wait (of_nat 0) (\<lambda>k. (one_session_server (xor_vtable (XorPacketEncoder 119 50 4096)), of_nat (10 * k))) 0 = Some (TimedOut, k))"
proof -
  let ?idle = "(one_session_server (xor_vtable (XorPacketEncoder 119 50 4096)))
        \<lparr>SessionArr := [start_session (\<lambda>_. 0) 0], FreeSessionStack := [0]\<rparr>"
  let ?s = "?idle\<lparr>Shutdown := True\<rparr>"
  have b: "Stop_begin recording_app 0 ?idle = Inr (?s, True)"
  proof -
    have "kill_sessions recording_app 0 [0..<1] ?s = Inr ?s"
      by (simp add: with_session_def start_session_def blank_session_def)
    moreover have "\<not> Shutdown ?idle" by (simp add: one_session_server_def)
    moreover have "unat (TotalSessionCnt ?idle) = 1" by (simp add: one_session_server_def)
    ultimately show ?thesis by (simp only: Stop_begin_def if_False ebind_Inr)
  qed
  have "OnConnectionRequest recording_app s = (s\<lparr>App := App s\<rparr>, True)" "OnClientJoin recording_app sid s = Inr (s\<lparr>App := App s\<rparr>)"
    for sid s by (simp_all add: recording_app_def)
  then have w: "welcoming recording_app" unfolding welcoming_def by blast
  have s: "Shutdown ?s" "FreeSessionStack ?s = 0 # []" "0 < length (SessionArr ?s)" "SessionRef (SessionArr ?s ! 0) = 0"
    "unat (TotalSessionCnt ?s) = length (SessionArr ?s)" "length (FreeSessionStack ?s) \<le> length (SessionArr ?s)"
    by (simp_all only: one_session_server_def start_session_def blank_session_def server.simps session.simps) simp_all
  note late = late_connection_outlives_stop [OF w s, of 1 9 "(0, 0)" 0 0]
  let ?one = "one_session_server (xor_vtable (XorPacketEncoder 119 50 4096))"
  have "connected_slot 0 ?one"
    by (simp add: connected_slot_def ids_ok_def free_stack_ok_def one_session_server_def init_session_def FindSession_def
      start_session_def blank_session_def serial_def)
  moreover have "5000 < (10 :: nat) * 501" by simp
  ultimately have w: "(0 :: nat) \<le> 10 * 0 \<and> 10 * 0 \<le> 0 + (2 :: nat) ^ 31 \<and> (\<exists>k. 0 + 5000 < (10 :: nat) * k) \<and>
     (\<forall>k. snd (?one, of_nat (10 * k) :: u32) = of_nat (10 * k) \<and> 10 * k \<le> (10 :: nat) * Suc k \<and>
        10 * Suc k \<le> (10 :: nat) * k + 2 ^ 31 \<and> connected_slot 0 (fst (?one, of_nat (10 * k) :: u32)))"
    by auto
  from late obtain s' where "AcceptThread_step recording_app 1 (Inr 9) (0, 0) None ?s = Inr (s', True)" "0 < GetConnectedSessionCnt s'"
    by blast
  moreover from connected_wait [of 0 "\<lambda>k. 10 * k" "\<lambda>k. (?one, of_nat (10 * k))" 0, OF w]
  obtain k where "stop_wait (of_nat 0) (\<lambda>k. (?one, of_nat (10 * k))) 0 = Some (TimedOut, k)" by blast
  ultimately show ?thesis using b by blast
qed

end
