(* ===== verification/ClientStop.thy ===== *)
theory ClientStop
  imports ServerStop ClientServer
begin

text \<open>
  Stopping a client: \<open>NetClient::Stop\<close> and the destructor (NetClient.cpp), and that they are the server's, so that
  what \<open>ServerStop\<close> shows of the wait holds of the client: it ends, drained or by its timeout.
\<close>

definition client_wait_round :: "u32 \<Rightarrow> 'u client \<times> u32 \<Rightarrow> wait_end option" where
  "client_wait_round startTick w =
     (let (c, now) = w
      in if 0 < NetClient.GetConnectedSessionCnt c then
           if timeoutMs < now - startTick then Some TimedOut else None
         else Some Drained)"

partial_function (option) client_stop_wait :: "u32 \<Rightarrow> (nat \<Rightarrow> 'u client \<times> u32) \<Rightarrow> nat \<Rightarrow> (wait_end \<times> nat) option" where
  "client_stop_wait startTick world k =
     (case client_wait_round startTick (world k) of
        Some r \<Rightarrow> Some (r, k)
      | None \<Rightarrow> client_stop_wait startTick world (Suc k))"

definition client_Stop ::
  "'u NetClient.env \<Rightarrow> nat \<Rightarrow> u32 \<Rightarrow> ('u client \<Rightarrow> nat \<Rightarrow> 'u client \<times> u32) \<Rightarrow> 'u client \<Rightarrow> (fault + 'u client) option" where
  "client_Stop env tid startTick world c =
     (case NetClient.Stop_begin env tid c of
        Inl e \<Rightarrow> Some (Inl e)
      | Inr (c1, first) \<Rightarrow>
          if \<not> first then Some (Inr c1)
          else (case client_stop_wait startTick (world c1) 0 of
                  None \<Rightarrow> None
                | Some (r, k) \<Rightarrow> Some (Inr (NetClient.Stop_end (fst (world c1 k))))))"

definition NetClient_dtor_end :: "'u client \<Rightarrow> 'u client" where
  "NetClient_dtor_end c =
     (if NetClient.client.TotalSessionCnt c \<noteq> 0
      then c\<lparr>NetClient.client.SessionArr := [], NetClient.client.TotalSessionCnt := 0\<rparr> else c)"

definition NetClient_dtor ::
  "'u NetClient.env \<Rightarrow> nat \<Rightarrow> u32 \<Rightarrow> ('u client \<Rightarrow> nat \<Rightarrow> 'u client \<times> u32) \<Rightarrow> 'u client \<Rightarrow> (fault + 'u client) option" where
  "NetClient_dtor env tid startTick world c =
     map_option (\<lambda>r. ebind r (\<lambda>c1. Inr (NetClient_dtor_end c1))) (client_Stop env tid startTick world c)"

lemma connected_tr: "NetServer.GetConnectedSessionCnt (to_server c) = NetClient.GetConnectedSessionCnt c"
  by (simp add: NetServer.GetConnectedSessionCnt_def NetClient.GetConnectedSessionCnt_def to_server_def)

lemma wait_round_tr: "wait_round st (map_prod to_server id w) = client_wait_round st w"
  by (cases w) (simp add: wait_round_def client_wait_round_def connected_tr)

lemma client_stop_wait_at:
  "i \<le> k \<Longrightarrow> \<forall>j. i \<le> j \<longrightarrow> j < k \<longrightarrow> client_wait_round st (world j) = None \<Longrightarrow>
   client_wait_round st (world k) = Some r \<Longrightarrow> client_stop_wait st world i = Some (r, k)"
proof (induction "k - i" arbitrary: i)
  case 0
  then show ?case by (simp add: client_stop_wait.simps)
next
  case (Suc n)
  then have "client_wait_round st (world i) = None" "client_stop_wait st world (Suc i) = Some (r, k)" by simp_all
  then show ?case by (simp add: client_stop_wait.simps [of _ _ i])
qed

text \<open>The wait of a client returns, whatever the other threads do, when the clock goes on.\<close>

lemma client_stop_wait_ends:
  fixes ms :: "nat \<Rightarrow> nat"
  assumes start: "begun \<le> ms 0" "ms 0 \<le> begun + 2 ^ 31"
    and clock: "\<And>k. snd (world k) = of_nat (ms k)" "\<And>k. ms k \<le> ms (Suc k)" "\<And>k. ms (Suc k) \<le> ms k + 2 ^ 31"
    and goes: "\<exists>k. begun + 5000 < ms k"
  shows "\<exists>r k. client_stop_wait (of_nat begun) world 0 = Some (r, k) \<and>
     (r = Drained \<longleftrightarrow> NetClient.GetConnectedSessionCnt (fst (world k)) = 0)"
proof -
  let ?w = "\<lambda>k. map_prod to_server id (world k)"
  have "\<And>k. snd (?w k) = of_nat (ms k)" using clock(1) by simp
  from stop_rounds_end [of begun ms ?w, OF start this clock(2,3) goes] obtain r k where
    w: "\<forall>j < k. client_wait_round (of_nat begun) (world j) = None" "client_wait_round (of_nat begun) (world k) = Some r"
      "case r of Drained \<Rightarrow> NetServer.GetConnectedSessionCnt (fst (?w k)) = 0
       | TimedOut \<Rightarrow> NetServer.GetConnectedSessionCnt (fst (?w k)) \<noteq> 0 \<and> begun + 5000 < ms k"
    unfolding wait_round_tr by blast
  have "client_stop_wait (of_nat begun) world 0 = Some (r, k)" using w by (intro client_stop_wait_at) auto
  then show ?thesis using w(3) by (intro exI [of _ r] exI [of _ k]) (cases r; simp add: connected_tr)
qed

end
