(* ===== verification/Monitoring.thy ===== *)
theory Monitoring
  imports Complex_Main Prelude
begin

text \<open>
  \<open>MonitoringTool\<close> (BaseLibrary/include/MonitoringTool.h, BaseLibrary/src/MonitoringTool.cpp): the name of the
  process its counters are asked for, cut out of the path of the executable in place, and the processor usage
  computed from the times Windows counts. What Windows answers (the path, the times, the counters) is an argument;
  so is \<open>junk\<close>, what a member holds that the constructor does not set.
\<close>

subsection \<open>The name of the process\<close>

text \<open>
  The path stands in an array of 1024 \<open>WCHAR\<close>s. Reading behind the array is a fault. \<open>wcstok_s\<close> with the
  separator backslash skips separators, ends the token with a null and remembers where it goes on.
\<close>

type_synonym wstr = "u16 list"

definition backslash :: u16 where "backslash = 92"
definition dot :: u16 where "dot = 46"
definition dot_exe :: wstr where "dot_exe = [46, 101, 120, 101]"

function skip_sep :: "wstr \<Rightarrow> nat \<Rightarrow> fault + nat" where
  "skip_sep b i =
     (if i < length b then if b ! i = backslash then skip_sep b (Suc i) else Inr i else Inl OutOfBounds)"
  by pat_completeness auto
termination by (relation "measure (\<lambda>(b, i). length b - i)") auto

function find_end :: "wstr \<Rightarrow> nat \<Rightarrow> fault + nat" where
  "find_end b i =
     (if i < length b then if b ! i = backslash \<or> b ! i = 0 then Inr i else find_end b (Suc i) else Inl OutOfBounds)"
  by pat_completeness auto
termination by (relation "measure (\<lambda>(b, i). length b - i)") auto

declare skip_sep.simps [simp del] find_end.simps [simp del]

definition wcstok_s :: "wstr \<Rightarrow> nat \<Rightarrow> fault + wstr \<times> nat option \<times> nat" where
  "wcstok_s b ctx =
     ebind (skip_sep b ctx) (\<lambda>j.
       if b ! j = 0 then Inr (b, None, j)
       else ebind (find_end b j) (\<lambda>k.
         if b ! k = 0 then Inr (b, Some j, k) else Inr (b[k := 0], Some j, Suc k)))"

text \<open>\<open>do { befPtr = ptr; ptr = wcstok_s(nullptr, ...); } while (ptr != nullptr);\<close>\<close>

partial_function (option) last_token :: "wstr \<Rightarrow> nat option \<Rightarrow> nat \<Rightarrow> (fault + wstr \<times> nat option) option" where
  "last_token b ptr ctx =
     (case wcstok_s b ctx of
        Inl e \<Rightarrow> Some (Inl e)
      | Inr (b1, ptr1, ctx1) \<Rightarrow>
          if ptr1 = None then Some (Inr (b1, ptr)) else last_token b1 ptr1 ctx1)"

text \<open>\<open>wcscmp(p, L"...") == 0\<close> for a literal with its null, and the search for the extension.\<close>

fun wcs_equal :: "wstr \<Rightarrow> nat \<Rightarrow> wstr \<Rightarrow> fault + bool" where
  "wcs_equal b i [] = Inr True"
| "wcs_equal b i (c # cs) =
     (if i < length b then if b ! i = c then wcs_equal b (Suc i) cs else Inr False else Inl OutOfBounds)"

function find_exe :: "wstr \<Rightarrow> nat \<Rightarrow> fault + nat" where
  "find_exe b i =
     (if i < length b then
        if b ! i = dot then ebind (wcs_equal b i (dot_exe @ [0])) (\<lambda>eq. if eq then Inr i else find_exe b (Suc i))
        else find_exe b (Suc i)
      else Inl OutOfBounds)"
  by pat_completeness auto
termination by (relation "measure (\<lambda>(b, i). length b - i)") auto

declare find_exe.simps [simp del]

definition process_name :: "wstr \<Rightarrow> (fault + wstr) option" where
  "process_name b =
     (case wcstok_s b 0 of
        Inl e \<Rightarrow> Some (Inl e)
      | Inr (b1, ptr, ctx) \<Rightarrow>
          (case last_token b1 ptr ctx of
             None \<Rightarrow> None
           | Some r \<Rightarrow> Some (ebind r (\<lambda>(b2, p).
               case p of
                 None \<Rightarrow> Inl NullDeref
               | Some i \<Rightarrow> ebind (find_exe b2 i) (\<lambda>k. Inr (takeWhile (\<lambda>c. c \<noteq> 0) (drop i (b2[k := 0]))))))))"

text \<open>What the array holds after \<open>QueryFullProcessImageNameW\<close>: the path, a null, and what was there before.\<close>

definition image_name_buffer :: "wstr \<Rightarrow> wstr \<Rightarrow> wstr" where
  "image_name_buffer path junk = take 1024 (path @ [0] @ drop (length path + 1) junk)"

text \<open>The handle the class works with.\<close>

definition ctor_process :: "'h \<Rightarrow> 'h \<Rightarrow> 'h \<Rightarrow> 'h \<Rightarrow> 'h" where
  "ctor_process INVALID_HANDLE current junk process = (if process = INVALID_HANDLE then current else junk)"

text \<open>Tokens before the last one leave the rest of the path alone.\<close>

lemma skip_sep_stops:
  "i \<le> j \<Longrightarrow> j < length b \<Longrightarrow> \<forall>k. i \<le> k \<longrightarrow> k < j \<longrightarrow> b ! k = backslash \<Longrightarrow> b ! j \<noteq> backslash \<Longrightarrow> skip_sep b i = Inr j"
proof (induction "j - i" arbitrary: i)
  case 0
  then show ?case by (simp add: skip_sep.simps)
next
  case (Suc n)
  then have "skip_sep b (Suc i) = Inr j" "b ! i = backslash" by simp_all
  then show ?case using Suc.prems(1,2) by (simp add: skip_sep.simps [of b i])
qed

lemma find_end_stops:
  "i \<le> j \<Longrightarrow> j < length b \<Longrightarrow> \<forall>k. i \<le> k \<longrightarrow> k < j \<longrightarrow> b ! k \<noteq> backslash \<and> b ! k \<noteq> 0 \<Longrightarrow>
   b ! j = backslash \<or> b ! j = 0 \<Longrightarrow> find_end b i = Inr j"
proof (induction "j - i" arbitrary: i)
  case 0
  then show ?case by (simp add: find_end.simps)
next
  case (Suc n)
  then have "find_end b (Suc i) = Inr j" "b ! i \<noteq> backslash" "b ! i \<noteq> 0" by simp_all
  then show ?case using Suc.prems(1,2) by (simp add: find_end.simps [of b i])
qed

text \<open>The array from position \<open>n\<close> on: a last component, its null, and the rest.\<close>

definition component_at :: "wstr \<Rightarrow> nat \<Rightarrow> wstr \<Rightarrow> wstr \<Rightarrow> bool" where
  "component_at b n name rest \<longleftrightarrow> drop n b = name @ 0 # rest \<and> name \<noteq> [] \<and> 0 \<notin> set name \<and> backslash \<notin> set name"

lemma component_nth:
  assumes "component_at b n name rest"
  shows "k < length name \<Longrightarrow> b ! (n + k) = name ! k" "b ! (n + length name) = 0"
    "n + length name < length b" "k < length name \<Longrightarrow> b ! (n + k) \<noteq> 0 \<and> b ! (n + k) \<noteq> backslash"
proof -
  have d: "drop n b = name @ 0 # rest" using assms by (simp add: component_at_def)
  have "length (drop n b) = length name + 1 + length rest" unfolding d by simp
  then show l: "n + length name < length b" by simp
  have nth: "b ! (n + k) = (name @ 0 # rest) ! k" for k
  proof -
    have "drop n b ! k = b ! (n + k)" using l by (intro nth_drop) simp
    then show ?thesis by (simp only: d)
  qed
  show "k < length name \<Longrightarrow> b ! (n + k) = name ! k" by (simp add: nth nth_append)
  show "b ! (n + length name) = 0" by (simp add: nth)
  show "k < length name \<Longrightarrow> b ! (n + k) \<noteq> 0 \<and> b ! (n + k) \<noteq> backslash"
    using assms unfolding component_at_def nth by (metis nth_append nth_mem)
qed

text \<open>The next token is the last component, or ends before it.\<close>

lemma wcstok_before:
  assumes c: "component_at b n name rest" and ctx: "ctx \<le> n" "\<forall>k. ctx \<le> k \<longrightarrow> k < n \<longrightarrow> b ! k \<noteq> 0"
    "ctx = n \<or> b ! (n - 1) = backslash"
  shows "wcstok_s b ctx = Inr (b, Some n, n + length name) \<or>
    (\<exists>j k. wcstok_s b ctx = Inr (b[k := 0], Some j, Suc k) \<and> ctx \<le> k \<and> k < n)"
proof -
  have n0: "b ! n \<noteq> backslash" "b ! n \<noteq> 0" "n < length b"
    using component_nth(3) [OF c] component_nth(4) [OF c, of 0] c by (auto simp: component_at_def)
  define j where "j = (LEAST j. ctx \<le> j \<and> b ! j \<noteq> backslash)"
  have j: "ctx \<le> j \<and> b ! j \<noteq> backslash" unfolding j_def by (rule LeastI [of _ n]) (use ctx(1) n0 in simp)
  have jn: "j \<le> n" unfolding j_def by (rule Least_le) (use ctx(1) n0 in simp)
  have "\<forall>k. ctx \<le> k \<longrightarrow> k < j \<longrightarrow> b ! k = backslash" using not_less_Least unfolding j_def by blast
  then have s: "skip_sep b ctx = Inr j" using j jn n0 by (intro skip_sep_stops) auto
  show ?thesis
  proof (cases "j = n")
    case True
    have "find_end b n = Inr (n + length name)"
    proof (rule find_end_stops)
      show "\<forall>k. n \<le> k \<longrightarrow> k < n + length name \<longrightarrow> b ! k \<noteq> backslash \<and> b ! k \<noteq> 0"
        using component_nth(4) [OF c] by (metis le_Suc_ex nat_add_left_cancel_less)
    qed (use component_nth(2,3) [OF c] in auto)
    then show ?thesis using s True n0 component_nth(2) [OF c] by (simp add: wcstok_s_def)
  next
    case False
    with jn have lt: "j < n" by simp
    with ctx j have sep: "b ! (n - 1) = backslash" by auto
    define k where "k = (LEAST k. j \<le> k \<and> b ! k = backslash)"
    have k: "j \<le> k \<and> b ! k = backslash" unfolding k_def by (rule LeastI [of _ "n - 1"]) (use lt sep in simp)
    have kn: "k \<le> n - 1" unfolding k_def by (rule Least_le) (use lt sep in simp)
    have "\<forall>i. j \<le> i \<longrightarrow> i < k \<longrightarrow> b ! i \<noteq> backslash \<and> b ! i \<noteq> 0"
    proof (intro allI impI conjI)
      fix i assume i: "j \<le> i" "i < k"
      show "b ! i \<noteq> backslash" using not_less_Least [OF i(2) [unfolded k_def]] i(1) by blast
      show "b ! i \<noteq> 0" using ctx(2) i j kn lt by simp
    qed
    then have "find_end b j = Inr k" using k kn lt n0(3) by (intro find_end_stops) auto
    moreover have "b ! j \<noteq> 0" using ctx(2) j lt by simp
    moreover have "b ! k \<noteq> 0" using k by (simp add: backslash_def)
    ultimately show ?thesis using s j k kn lt by (intro disjI2 exI [of _ j] exI [of _ k]) (auto simp: wcstok_s_def)
  qed
qed

lemma last_token_component:
  "component_at b n name rest \<Longrightarrow> ctx \<le> n \<Longrightarrow> \<forall>k. ctx \<le> k \<longrightarrow> k < n \<longrightarrow> b ! k \<noteq> 0 \<Longrightarrow>
   ctx = n \<or> b ! (n - 1) = backslash \<Longrightarrow>
   \<exists>b'. last_token b ptr ctx = Some (Inr (b', Some n)) \<and> component_at b' n name rest"
proof (induction "n - ctx" arbitrary: b ptr ctx rule: less_induct)
  case less
  from wcstok_before [OF less.prems] show ?case
  proof
    assume w: "wcstok_s b ctx = Inr (b, Some n, n + length name)"
    have "skip_sep b (n + length name) = Inr (n + length name)"
      using component_nth(2,3) [OF less.prems(1)] by (intro skip_sep_stops) (simp_all add: backslash_def)
    then have "wcstok_s b (n + length name) = Inr (b, None, n + length name)"
      using component_nth(2) [OF less.prems(1)] by (simp add: wcstok_s_def)
    then have "last_token b (Some n) (n + length name) = Some (Inr (b, Some n))" by (simp add: last_token.simps)
    then show ?thesis using w less.prems(1) by (simp add: last_token.simps [of b ptr])
  next
    assume "\<exists>j k. wcstok_s b ctx = Inr (b[k := 0], Some j, Suc k) \<and> ctx \<le> k \<and> k < n"
    then obtain j k where w: "wcstok_s b ctx = Inr (b[k := 0], Some j, Suc k)" "ctx \<le> k" "k < n" by blast
    have "component_at (b[k := 0]) n name rest" using less.prems(1) w(3) by (simp add: component_at_def)
    moreover have "\<forall>i. Suc k \<le> i \<longrightarrow> i < n \<longrightarrow> b[k := 0] ! i \<noteq> 0" using less.prems(3) w(2) by auto
    moreover have "Suc k = n \<or> b[k := 0] ! (n - 1) = backslash" using less.prems(4) w(2,3) by (cases "k = n - 1") auto
    ultimately have "\<exists>b'. last_token (b[k := 0]) (Some j) (Suc k) = Some (Inr (b', Some n)) \<and> component_at b' n name rest"
      using w(2,3) by (intro less.hyps) auto
    then show ?thesis by (simp add: last_token.simps [of b ptr] w(1))
  qed
qed

lemma wcs_equal_True: "wcs_equal b i l = Inr True \<longleftrightarrow> take (length l) (drop i b) = l"
proof (induction l arbitrary: i)
  case (Cons c cs)
  show ?case
  proof (cases "i < length b")
    case True
    then have "drop i b = b ! i # drop (Suc i) b" by (rule Cons_nth_drop_Suc [symmetric])
    then show ?thesis using Cons.IH [of "Suc i"] True by auto
  qed simp
qed simp

lemma wcs_equal_fault: "wcs_equal b i l = Inl e \<Longrightarrow> e = OutOfBounds \<and> length b < i + length l"
proof (induction l arbitrary: i)
  case (Cons c cs)
  show ?case
  proof (cases "i < length b \<and> b ! i = c")
    case True
    then have "wcs_equal b (Suc i) cs = Inl e" using Cons.prems by simp
    from Cons.IH [OF this] show ?thesis by simp
  qed (use Cons.prems in \<open>auto split: if_splits\<close>)
qed simp

lemma length_ext: "length (dot_exe @ [0]) = 5"
  by (simp add: dot_exe_def)

lemma wcs_equal_ext: "wcs_equal b i (dot_exe @ [0]) = Inr True \<longleftrightarrow> take 5 (drop i b) = dot_exe @ [0]"
  using wcs_equal_True [of b i "dot_exe @ [0]"] unfolding length_ext .

lemma find_exe_found:
  "i \<le> k \<Longrightarrow> k + 5 \<le> length b \<Longrightarrow> take 5 (drop k b) = dot_exe @ [0] \<Longrightarrow>
   \<forall>j. i \<le> j \<longrightarrow> j < k \<longrightarrow> take 5 (drop j b) \<noteq> dot_exe @ [0] \<Longrightarrow> find_exe b i = Inr k"
proof (induction "k - i" arbitrary: i)
  case 0
  then have k: "i = k" by simp
  have "drop k b = b ! k # drop (Suc k) b" using 0(3) by (intro Cons_nth_drop_Suc [symmetric]) simp
  then have "b ! k = dot" using 0(4) by (auto simp: dot_exe_def dot_def)
  moreover have "wcs_equal b k (dot_exe @ [0]) = Inr True" using 0(4) unfolding wcs_equal_ext .
  ultimately show ?case using k 0(3) by (simp add: find_exe.simps [of b k])
next
  case (Suc n)
  then have IH: "find_exe b (Suc i) = Inr k" by simp
  have "wcs_equal b i (dot_exe @ [0]) \<noteq> Inr True" using Suc.prems(4) Suc.hyps(2) unfolding wcs_equal_ext by simp
  moreover have "wcs_equal b i (dot_exe @ [0]) \<noteq> Inl e" for e
    using wcs_equal_fault [of b i "dot_exe @ [0]" e] Suc.prems(1,2) Suc.hyps(2) unfolding length_ext by auto
  ultimately have "wcs_equal b i (dot_exe @ [0]) = Inr False" by (cases "wcs_equal b i (dot_exe @ [0])") auto
  then show ?case using IH Suc.prems(1,2) Suc.hyps(2) by (simp add: find_exe.simps [of b i])
qed

lemma find_exe_overrun:
  "\<forall>j. i \<le> j \<longrightarrow> take 5 (drop j b) \<noteq> dot_exe @ [0] \<Longrightarrow> find_exe b i = Inl OutOfBounds"
proof (induction "length b - i" arbitrary: i)
  case 0
  then show ?case by (simp add: find_exe.simps)
next
  case (Suc n)
  then have IH: "find_exe b (Suc i) = Inl OutOfBounds" by simp
  have "wcs_equal b i (dot_exe @ [0]) \<noteq> Inr True" using Suc.prems unfolding wcs_equal_ext by simp
  then have "wcs_equal b i (dot_exe @ [0]) = Inr False \<or> wcs_equal b i (dot_exe @ [0]) = Inl OutOfBounds"
    using wcs_equal_fault by (cases "wcs_equal b i (dot_exe @ [0])") auto
  then show ?case using IH by (auto simp: find_exe.simps [of b i])
qed

text \<open>Where the extension with its null can stand: at the end of the component, or in the rest.\<close>

lemma extension_place:
  assumes c: "component_at b n name rest" and t: "take 5 (drop j b) = dot_exe @ [0]" and j: "n \<le> j" "j \<le> n + length name"
  shows "\<exists>stem. name = stem @ dot_exe \<and> j = n + length stem"
proof -
  have d: "drop n b = name @ 0 # rest" using c by (simp add: component_at_def)
  define i where "i = j - n"
  have ji: "j = n + i" "i \<le> length name" using j by (simp_all add: i_def)
  have "drop j b = drop i (name @ 0 # rest)" unfolding ji(1) d [symmetric] by (simp add: add.commute)
  then have T: "take 5 (drop i name @ 0 # rest) = dot_exe @ [0]" using t ji(2) by simp
  have nz: "0 \<notin> set (drop i name)" using c by (auto simp: component_at_def dest: in_set_dropD)
  have "length (drop i name) = 4"
  proof (rule ccontr)
    assume "length (drop i name) \<noteq> 4"
    then consider "length (drop i name) < 4" | "5 \<le> length (drop i name)" by linarith
    then show False
    proof cases
      case 1
      then have "take 5 (drop i name @ 0 # rest) ! length (drop i name) = 0" by (simp add: nth_append)
      then have "(dot_exe @ [0]) ! length (drop i name) = 0" by (simp only: T)
      moreover have "length (drop i name) \<in> {0, 1, 2, 3}" using 1 by auto
      ultimately show False by (auto simp: dot_exe_def)
    next
      case 2
      then have "take 5 (drop i name) = dot_exe @ [0]" using T by simp
      then have "0 \<in> set (take 5 (drop i name))" by simp
      with nz show False by (meson in_set_takeD)
    qed
  qed
  then have "drop i name = dot_exe" using T by (simp add: dot_exe_def)
  then have "name = take i name @ dot_exe" by (metis append_take_drop_id)
  then show ?thesis using ji by (intro exI [of _ "take i name"]) simp
qed

subsection \<open>What the name is\<close>

text \<open>C38. The name \<open>MonitoringTool\<close> asks the counters of is the last component of the path without its \<open>.exe\<close>,
  and when that component does not end in exactly these four lower-case characters, the search for them runs on
  behind the path, through what the array held before, and past the end of the array.\<close>

theorem process_name_of_image:
  assumes "length junk = 1024" "length dir + length name < 1024" "dir = [] \<or> last dir = backslash" "0 \<notin> set dir"
    "name \<noteq> []" "0 \<notin> set name" "backslash \<notin> set name"
  shows "(\<forall>stem. name = stem @ dot_exe \<longrightarrow> process_name (image_name_buffer (dir @ name) junk) = Some (Inr stem)) \<and>
    ((\<nexists>stem. name = stem @ dot_exe) \<and> (\<forall>j. take 5 (drop j junk) \<noteq> dot_exe @ [0]) \<longrightarrow>
      process_name (image_name_buffer (dir @ name) junk) = Some (Inl OutOfBounds))"
proof -
  let ?b = "image_name_buffer (dir @ name) junk" and ?n = "length dir"
  let ?rest = "drop (?n + length name + 1) junk"
  have b: "?b = dir @ name @ 0 # ?rest" using assms(1,2) by (simp add: image_name_buffer_def)
  have c: "component_at ?b ?n name ?rest" using assms(5-7) by (simp add: component_at_def b)
  have pre: "\<forall>k. 0 \<le> k \<longrightarrow> k < ?n \<longrightarrow> ?b ! k \<noteq> 0" using assms(4) by (auto simp: b nth_append in_set_conv_nth)
  have sep: "0 = ?n \<or> ?b ! (?n - 1) = backslash"
    using assms(3) by (cases "dir = []") (simp_all add: b nth_append last_conv_nth)
  from last_token_component [OF c _ pre sep, of None] obtain b' where
    lt: "last_token ?b None 0 = Some (Inr (b', Some ?n))" and c': "component_at b' ?n name ?rest" by auto
  have pn: "process_name ?b = Some (ebind (find_exe b' ?n) (\<lambda>k. Inr (takeWhile (\<lambda>c. c \<noteq> 0) (drop ?n (b'[k := 0])))))"
    using lt by (auto simp: process_name_def last_token.simps [of ?b None] split: sum.splits prod.splits if_splits)
  have d': "drop ?n b' = name @ 0 # ?rest" using c' by (simp add: component_at_def)
  show ?thesis
  proof (intro conjI allI impI)
    fix stem assume s: "name = stem @ dot_exe"
    let ?k = "?n + length stem"
    have "drop ?k b' = drop (length stem) (drop ?n b')" by (simp add: add.commute)
    then have k: "drop ?k b' = dot_exe @ 0 # ?rest" by (simp add: d' s)
    have "find_exe b' ?n = Inr ?k"
    proof (rule find_exe_found)
      show "?k + 5 \<le> length b'" using component_nth(3) [OF c'] s by (simp add: dot_exe_def)
      show "take 5 (drop ?k b') = dot_exe @ [0]" by (simp add: k dot_exe_def)
      show "\<forall>j. ?n \<le> j \<longrightarrow> j < ?k \<longrightarrow> take 5 (drop j b') \<noteq> dot_exe @ [0]"
        using extension_place [OF c'] s by fastforce
    qed simp
    moreover have "drop ?n (b'[?k := 0]) = (drop ?n b')[length stem := 0]" by (simp add: drop_update_swap)
    then have "drop ?n (b'[?k := 0]) = stem @ 0 # tl dot_exe @ 0 # ?rest"
      by (simp add: d' s dot_exe_def list_update_append)
    moreover have "takeWhile (\<lambda>c. c \<noteq> 0) (stem @ 0 # xs) = stem" for xs
      using assms(6) s by (simp add: takeWhile_append)
    ultimately show "process_name ?b = Some (Inr stem)" by (simp add: pn)
  next
    assume no: "(\<nexists>stem. name = stem @ dot_exe) \<and> (\<forall>j. take 5 (drop j junk) \<noteq> dot_exe @ [0])"
    have "find_exe b' ?n = Inl OutOfBounds"
    proof (rule find_exe_overrun, intro allI impI)
      fix j assume j: "?n \<le> j"
      show "take 5 (drop j b') \<noteq> dot_exe @ [0]"
      proof (cases "j \<le> ?n + length name")
        case True
        then show ?thesis using extension_place [OF c' _ j] no by blast
      next
        case False
        have "drop j b' = drop (j - ?n) (drop ?n b')" using j by simp
        also have "\<dots> = drop (j - ?n - length name - 1) ?rest" using False unfolding d' by (simp add: drop_Cons')
        finally have "drop j b' = drop (j - ?n - length name - 1) ?rest" .
        then show ?thesis using no by (simp add: add.commute)
      qed
    qed
    then show "process_name ?b = Some (Inl OutOfBounds)" by (simp add: pn)
  qed
qed

lemma process_name_of_image_witness:
  "process_name (image_name_buffer [67, 58, 92, 97, 46, 101, 120, 101] (replicate 1024 204)) = Some (Inr [97]) \<and>
   process_name (image_name_buffer [67, 58, 92, 97, 46, 69, 88, 69] (replicate 1024 204)) = Some (Inl OutOfBounds)"
proof
  have no: "\<forall>j. take 5 (drop j (replicate 1024 (204 :: u16))) \<noteq> dot_exe @ [0]"
  proof
    fix j
    show "take 5 (drop j (replicate 1024 (204 :: u16))) \<noteq> dot_exe @ [0]"
    proof
      assume "take 5 (drop j (replicate 1024 (204 :: u16))) = dot_exe @ [0]"
      then have "0 \<in> set (take 5 (drop j (replicate 1024 (204 :: u16))))" by simp
      then have "0 \<in> set (replicate 1024 (204 :: u16))" by (meson in_set_takeD in_set_dropD)
      then show False by simp
    qed
  qed
  have "process_name (image_name_buffer ([67, 58, 92] @ [97, 46, 101, 120, 101]) (replicate 1024 204)) = Some (Inr [97])"
    using process_name_of_image [of "replicate 1024 204" "[67, 58, 92]" "[97, 46, 101, 120, 101]"]
    by (simp add: backslash_def dot_exe_def)
  then show "process_name (image_name_buffer [67, 58, 92, 97, 46, 101, 120, 101] (replicate 1024 204)) = Some (Inr [97])"
    by simp
  have "\<nexists>stem. [97, 46, 69, 88, 69] = stem @ dot_exe"
  proof
    assume "\<exists>stem. [97, 46, 69, 88, 69] = stem @ dot_exe"
    then obtain stem where "[97, 46, 69, 88, 69] = stem @ dot_exe" ..
    then have "last [97, 46, 69, 88, 69 :: u16] = last (stem @ dot_exe)" by simp
    then show False by (simp add: dot_exe_def)
  qed
  with no have "process_name (image_name_buffer ([67, 58, 92] @ [97, 46, 69, 88, 69]) (replicate 1024 204)) = Some (Inl OutOfBounds)"
    using process_name_of_image [of "replicate 1024 204" "[67, 58, 92]" "[97, 46, 69, 88, 69]"]
    by (simp add: backslash_def)
  then show "process_name (image_name_buffer [67, 58, 92, 97, 46, 69, 88, 69] (replicate 1024 204)) = Some (Inl OutOfBounds)"
    by simp
qed

subsection \<open>Processor usage\<close>

text \<open>
  Times are 64-bit counts of 100 ns. \<open>dbl\<close> and \<open>flt\<close> round a real number to a \<open>double\<close> and to a \<open>float\<close>; a
  division by zero gives an infinity or not a number, written \<open>None\<close>.
\<close>

record cpu_usage =
  ProcessorTotal :: "real option"
  ProcessorUser :: "real option"
  ProcessorKernel :: "real option"
  ProcessTotal :: "real option"
  ProcessUser :: "real option"
  ProcessKernel :: "real option"
  ProcessorLastKernel :: u64
  ProcessorLastUser :: u64
  ProcessorLastIdle :: u64
  ProcessLastKernel :: u64
  ProcessLastUser :: u64
  ProcessLastTime :: u64
  NumberOfProcessors :: nat

definition cpu_ctor :: "nat \<Rightarrow> cpu_usage" where
  "cpu_ctor n = \<lparr>ProcessorTotal = Some 0, ProcessorUser = Some 0, ProcessorKernel = Some 0, ProcessTotal = Some 0,
     ProcessUser = Some 0, ProcessKernel = Some 0, ProcessorLastKernel = 0, ProcessorLastUser = 0,
     ProcessorLastIdle = 0, ProcessLastKernel = 0, ProcessLastUser = 0, ProcessLastTime = 0, NumberOfProcessors = n\<rparr>"

text \<open>\<open>(float)((double)part / total * 100.0f)\<close> and \<open>(float)(time / (double)n / (double)elapsed * 100.0f)\<close>.\<close>

definition percent_of :: "(real \<Rightarrow> real) \<Rightarrow> (real \<Rightarrow> real) \<Rightarrow> u64 \<Rightarrow> u64 \<Rightarrow> real" where
  "percent_of dbl flt part whole = flt (dbl (dbl (dbl (real (unat part)) / dbl (real (unat whole))) * 100))"

definition process_percent :: "(real \<Rightarrow> real) \<Rightarrow> (real \<Rightarrow> real) \<Rightarrow> nat \<Rightarrow> u64 \<Rightarrow> u64 \<Rightarrow> real option" where
  "process_percent dbl flt n elapsed time =
     (if n = 0 \<or> elapsed = 0 then None
      else Some (flt (dbl (dbl (dbl (dbl (real (unat time)) / real n) / dbl (real (unat elapsed))) * 100))))"

text \<open>
  \<open>UpdateCPUTime\<close>. \<open>sys\<close> is what \<open>GetSystemTimes\<close> gives (idle, kernel with idle, user), \<open>now\<close> the time, \<open>proc\<close> what
  \<open>GetProcessTimes\<close> gives (kernel, user). When the latter fails, the variables keep the system times.
\<close>

definition UpdateCPUTime ::
  "(real \<Rightarrow> real) \<Rightarrow> (real \<Rightarrow> real) \<Rightarrow> (u64 \<times> u64 \<times> u64) option \<Rightarrow> u64 \<Rightarrow> (u64 \<times> u64) option \<Rightarrow> cpu_usage \<Rightarrow> cpu_usage" where
  "UpdateCPUTime dbl flt sys now proc s =
     (case sys of
        None \<Rightarrow> s
      | Some (idl, kern, user) \<Rightarrow>
          let kernelDiff = kern - ProcessorLastKernel s;
              userDiff = user - ProcessorLastUser s;
              idleDiff = idl - ProcessorLastIdle s;
              whole = kernelDiff + userDiff;
              s1 = (if whole = 0 then
                      s\<lparr>ProcessorUser := Some 0, ProcessorKernel := Some 0, ProcessorTotal := Some 0\<rparr>
                    else
                      s\<lparr>ProcessorTotal := Some (percent_of dbl flt (whole - idleDiff) whole),
                        ProcessorUser := Some (percent_of dbl flt userDiff whole),
                        ProcessorKernel := Some (percent_of dbl flt (kernelDiff - idleDiff) whole)\<rparr>);
              s2 = s1\<lparr>ProcessorLastKernel := kern, ProcessorLastUser := user, ProcessorLastIdle := idl\<rparr>;
              (pkernel, puser) = (case proc of None \<Rightarrow> (kern, user) | Some ku \<Rightarrow> ku);
              timeDiff = now - ProcessLastTime s;
              puserDiff = puser - ProcessLastUser s;
              pkernelDiff = pkernel - ProcessLastKernel s;
              ptotal = pkernelDiff + puserDiff;
              n = NumberOfProcessors s
          in s2\<lparr>ProcessTotal := process_percent dbl flt n timeDiff ptotal,
                ProcessKernel := process_percent dbl flt n timeDiff pkernelDiff,
                ProcessUser := process_percent dbl flt n timeDiff puserDiff,
                ProcessLastTime := now, ProcessLastKernel := pkernel, ProcessLastUser := puser\<rparr>)"

text \<open>
  What the arithmetic of IEEE 754 promises of rounding to a format with \<open>bits\<close> binary digits: it keeps the order,
  and a number that has so many digits is not changed.
\<close>

definition rounding :: "(real \<Rightarrow> real) \<Rightarrow> nat \<Rightarrow> bool" where
  "rounding r bits \<longleftrightarrow> mono r \<and> (\<forall>k \<le> 2 ^ bits. \<forall>j \<le> 64. r (real k / 2 ^ j) = real k / 2 ^ j)"

lemma rounding_exact: "rounding r bits \<Longrightarrow> k \<le> 2 ^ bits \<Longrightarrow> j \<le> 64 \<Longrightarrow> r (real k / 2 ^ j) = real k / 2 ^ j"
  by (simp add: rounding_def)

lemma rounding_nat: "rounding r bits \<Longrightarrow> k \<le> 2 ^ bits \<Longrightarrow> r (real k) = real k"
  using rounding_exact [of r bits k 0] by simp

lemma rounding_between:
  assumes "rounding r bits" "k \<le> 2 ^ bits" "0 \<le> x" "x \<le> real k"
  shows "0 \<le> r x \<and> r x \<le> real k"
proof -
  have m: "mono r" using assms(1) by (simp add: rounding_def)
  have e: "r (real 0) = real 0" "r (real k) = real k" using rounding_nat [OF assms(1)] assms(2) by blast+
  show ?thesis using monoD [OF m, of "real 0" x] monoD [OF m, of x "real k"] e assms(3,4) by simp
qed

lemma hundred:
  assumes d: "rounding dbl 53" and f: "rounding flt 24" and q: "0 \<le> q" "q \<le> 1"
  shows "0 \<le> flt (dbl (dbl q * 100)) \<and> flt (dbl (dbl q * 100)) \<le> 100"
proof -
  have "0 \<le> dbl q \<and> dbl q \<le> real 1" using q by (intro rounding_between [OF d]) simp_all
  then have "0 \<le> dbl (dbl q * 100) \<and> dbl (dbl q * 100) \<le> real 100" by (intro rounding_between [OF d]) simp_all
  then have "0 \<le> flt (dbl (dbl q * 100)) \<and> flt (dbl (dbl q * 100)) \<le> real 100"
    by (intro rounding_between [OF f]) simp_all
  then show ?thesis by simp
qed

lemma percent_of_bounds:
  assumes d: "rounding dbl 53" and f: "rounding flt 24" and p: "part \<le> whole" "whole \<noteq> 0"
  shows "0 \<le> percent_of dbl flt part whole \<and> percent_of dbl flt part whole \<le> 100"
proof -
  let ?p = "real (unat part)" and ?t = "real (unat whole)"
  have "1 \<le> unat whole" using p(2) by (simp add: Suc_le_eq unat_gt_0)
  then have t: "real 1 \<le> ?t" by (rule of_nat_mono)
  have le: "?p \<le> ?t" using p(1) unfolding word_le_nat_alt by (rule of_nat_mono)
  have m: "mono dbl" using d by (simp add: rounding_def)
  have "dbl (real 0) \<le> dbl ?p" by (intro monoD [OF m] of_nat_mono) simp
  moreover have "dbl ?p \<le> dbl ?t" "dbl (real 1) \<le> dbl ?t" using monoD [OF m le] monoD [OF m t] by simp_all
  moreover have "dbl (real 0) = 0" "dbl (real 1) = 1"
    using rounding_nat [OF d, of 0] rounding_nat [OF d, of 1] by simp_all
  ultimately show ?thesis unfolding percent_of_def by (intro hundred [OF d f]) (auto simp: divide_le_eq)
qed

lemma process_percent_bounds:
  assumes d: "rounding dbl 53" and f: "rounding flt 24" and n: "0 < n" "elapsed \<noteq> 0"
    and t: "unat time \<le> n * unat elapsed" "unat time \<le> 2 ^ 53" "unat elapsed \<le> 2 ^ 53"
  shows "\<exists>p. process_percent dbl flt n elapsed time = Some p \<and> 0 \<le> p \<and> p \<le> 100"
proof -
  have e: "0 < unat elapsed" using n(2) by (simp add: unat_gt_0)
  have x: "dbl (real (unat time)) = real (unat time)" "dbl (real (unat elapsed)) = real (unat elapsed)"
    using rounding_nat [OF d] t by blast+
  have "real (unat time) / real n \<le> real (unat elapsed)"
  proof -
    have "real (unat time) \<le> real (unat elapsed * n)" using t(1) by (intro of_nat_mono) (simp add: mult.commute)
    then show ?thesis using n(1) by (simp only: pos_divide_le_eq of_nat_0_less_iff of_nat_mult)
  qed
  then have "0 \<le> dbl (real (unat time) / real n) \<and> dbl (real (unat time) / real n) \<le> real (unat elapsed)"
    using t(3) by (intro rounding_between [OF d] divide_nonneg_nonneg of_nat_0_le_iff)
  moreover have "0 < real (unat elapsed)" using e by (simp only: of_nat_0_less_iff)
  ultimately have q: "0 \<le> dbl (real (unat time) / real n) / real (unat elapsed)"
    "dbl (real (unat time) / real n) / real (unat elapsed) \<le> 1" by (simp_all only: zero_le_divide_iff divide_le_eq_1_pos less_imp_le) auto
  have "process_percent dbl flt n elapsed time =
      Some (flt (dbl (dbl (dbl (real (unat time) / real n) / real (unat elapsed)) * 100)))"
    using n unfolding process_percent_def x by (simp only: if_False) simp
  then show ?thesis using hundred [OF d f q] by blast
qed

text \<open>The usage \<open>MonitoringTool\<close> reports is between 0 and 100 percent, rounding included, whenever Windows counted
  plausibly since the last call (idle time is part of kernel time, kernel and user time together fit a counter, and
  the process used at most the time of all processors): the differences are right also when a counter has wrapped
  in between. When no time at all has passed since the last call, the process values are not numbers.\<close>

theorem usage_percent:
  assumes "rounding dbl 53" "rounding flt 24" "0 < NumberOfProcessors s"
    and "idleDiff \<le> kernelDiff" "kernelDiff \<le> kernelDiff + userDiff"
    and "unat pk + unat pu \<le> NumberOfProcessors s * unat elapsed" "unat pk + unat pu \<le> 2 ^ 53" "unat elapsed \<le> 2 ^ 53"
  defines "s' \<equiv> UpdateCPUTime dbl flt
      (Some (ProcessorLastIdle s + idleDiff, ProcessorLastKernel s + kernelDiff, ProcessorLastUser s + userDiff))
      (ProcessLastTime s + elapsed) (Some (ProcessLastKernel s + pk, ProcessLastUser s + pu)) s"
  shows "(\<forall>v \<in> {ProcessorTotal s', ProcessorUser s', ProcessorKernel s'}. \<exists>p. v = Some p \<and> 0 \<le> p \<and> p \<le> 100) \<and>
    (elapsed \<noteq> 0 \<longrightarrow>
      (\<forall>v \<in> {ProcessTotal s', ProcessUser s', ProcessKernel s'}. \<exists>p. v = Some p \<and> 0 \<le> p \<and> p \<le> 100)) \<and>
    (elapsed = 0 \<longrightarrow> ProcessTotal s' = None \<and> ProcessUser s' = None \<and> ProcessKernel s' = None)"
proof -
  let ?w = "kernelDiff + userDiff" and ?n = "NumberOfProcessors s"
  have "unat userDiff < 2 ^ LENGTH(64)" by (rule unsigned_less)
  then have k: "kernelDiff - idleDiff \<le> ?w" "?w - idleDiff \<le> ?w" "userDiff \<le> ?w"
    using assms(4,5) by (auto simp: word_le_nat_alt unat_sub_if' unat_plus_if' split: if_splits)
  have c: "\<exists>p. ProcessorTotal s' = Some p \<and> 0 \<le> p \<and> p \<le> 100" "\<exists>p. ProcessorUser s' = Some p \<and> 0 \<le> p \<and> p \<le> 100"
    "\<exists>p. ProcessorKernel s' = Some p \<and> 0 \<le> p \<and> p \<le> 100"
    using percent_of_bounds [OF assms(1,2) k(1)] percent_of_bounds [OF assms(1,2) k(2)]
      percent_of_bounds [OF assms(1,2) k(3)]
    by (auto simp: s'_def UpdateCPUTime_def Let_def)
  have pt: "unat (pk + pu) = unat pk + unat pu"
    using assms(7) by (intro unat_add_lem [THEN iffD1]) simp
  have p: "ProcessTotal s' = process_percent dbl flt ?n elapsed (pk + pu)" "ProcessUser s' = process_percent dbl flt ?n elapsed pu"
    "ProcessKernel s' = process_percent dbl flt ?n elapsed pk"
    by (simp_all add: s'_def UpdateCPUTime_def Let_def)
  have "\<exists>q. v = Some q \<and> 0 \<le> q \<and> q \<le> 100" if "elapsed \<noteq> 0" "v \<in> {ProcessTotal s', ProcessUser s', ProcessKernel s'}" for v
    using that process_percent_bounds [OF assms(1-3) that(1), of "pk + pu"] process_percent_bounds [OF assms(1-3) that(1), of pk]
      process_percent_bounds [OF assms(1-3) that(1), of pu] assms(6-8) pt unfolding p by auto
  moreover have "elapsed = 0 \<longrightarrow> ProcessTotal s' = None \<and> ProcessUser s' = None \<and> ProcessKernel s' = None"
    by (simp add: p process_percent_def)
  ultimately show ?thesis using c by blast
qed

lemma usage_percent_witness:
  "\<exists>p. ProcessorTotal (UpdateCPUTime id id (Some (0 + 30, 0 + 40, 0 + 60)) (0 + 50) (Some (0 + 20, 0 + 10)) (cpu_ctor 2)) = Some p \<and> p \<le> 100"
proof -
  have r: "rounding id n" for n by (simp add: rounding_def mono_def)
  have v: "x \<in> {x, y, z}" for x y z :: "real option" by simp
  from usage_percent [OF r r, of "cpu_ctor 2" 30 40 60 20 10 50]
  show ?thesis by (auto simp: cpu_ctor_def)
qed

subsection \<open>Performance counters\<close>

text \<open>
  Eight adapters at most, the sums of their rates, and the four memory values. The members the constructor does not
  set (the flags of the other adapters, the sums) hold what was in memory before: \<open>s\<close> is that state. A name that
  does not fit its 128 characters ends the program.
\<close>

definition kPdhEthernetMax :: nat where
  "kPdhEthernetMax = 8"

record counters =
  EthernetUse :: "bool list"
  NetworkRecv :: real
  NetworkSend :: real
  ProcessUserAllocMemory :: int
  ProcessNonPagedMemory :: int
  AvailableMemory :: int
  NonPagedMemory :: int

definition list_adapters :: "wstr list \<Rightarrow> counters \<Rightarrow> fault + counters" where
  "list_adapters interfaces s =
     (let used = take kPdhEthernetMax (takeWhile (\<lambda>w. w \<noteq> []) interfaces)
      in if \<exists>w \<in> set used. 128 \<le> length w then Inl Crashed
         else Inr (s\<lparr>EthernetUse := map (\<lambda>w. True) used @ drop (length used) (EthernetUse s)\<rparr>))"

text \<open>One adapter in \<open>UpdateQuery\<close>: each of its two counters may fail.\<close>

definition add_adapter :: "(real \<Rightarrow> real) \<Rightarrow> bool \<times> real option \<times> real option \<Rightarrow> counters \<Rightarrow> counters" where
  "add_adapter dbl a s =
     (let (Use, recv, send) = a;
          s1 = (case recv of Some v \<Rightarrow> if Use then s\<lparr>NetworkRecv := dbl (NetworkRecv s + v)\<rparr> else s | None \<Rightarrow> s)
      in case send of Some v \<Rightarrow> if Use then s1\<lparr>NetworkSend := dbl (NetworkSend s1 + v)\<rparr> else s1 | None \<Rightarrow> s1)"

definition UpdateQuery ::
  "(real \<Rightarrow> real) \<Rightarrow> int \<times> int \<times> int \<times> int \<Rightarrow> (real option \<times> real option) list \<Rightarrow> counters \<Rightarrow> counters" where
  "UpdateQuery dbl memory rates s =
     (let (alloc, nonpaged, available, pool) = memory;
          s1 = s\<lparr>ProcessUserAllocMemory := alloc, ProcessNonPagedMemory := nonpaged, AvailableMemory := available,
                 NonPagedMemory := pool\<rparr>
      in fold (add_adapter dbl) (zip (EthernetUse s1) rates) s1)"

definition NetworkRecvBytes :: "counters \<Rightarrow> counters \<times> real" where
  "NetworkRecvBytes s = (s\<lparr>NetworkRecv := 0\<rparr>, NetworkRecv s)"

definition NetworkSendBytes :: "counters \<Rightarrow> counters \<times> real" where
  "NetworkSendBytes s = (s\<lparr>NetworkSend := 0\<rparr>, NetworkSend s)"

text \<open>
  The first value read is added onto what the member held before the constructor; from the second on it is the sum
  since the last read.
\<close>

lemma add_adapter_recv:
  "NetworkRecv (add_adapter id (u, r, w) s) = NetworkRecv s + (if u then case r of None \<Rightarrow> 0 | Some v \<Rightarrow> v else 0)"
  by (simp add: add_adapter_def Let_def split: option.split)

lemma recv_sum:
  "NetworkRecv (fold (add_adapter id) as s) =
   NetworkRecv s + (\<Sum>(u, r, w) \<leftarrow> as. if u then case r of None \<Rightarrow> 0 | Some v \<Rightarrow> v else 0)"
  by (induction as arbitrary: s) (auto simp: add_adapter_recv)

lemma first_rate_is_off:
  "snd (NetworkRecvBytes (UpdateQuery id m rates s)) =
     NetworkRecv s + (\<Sum>(u, r, w) \<leftarrow> zip (EthernetUse s) rates. if u then case r of None \<Rightarrow> 0 | Some v \<Rightarrow> v else 0)"
  by (cases m) (simp add: NetworkRecvBytes_def UpdateQuery_def recv_sum Let_def)

end
