(* ===== verification/LogFile.thy ===== *)
theory LogFile
  imports IniConfig
begin

text \<open>
  Logging and crash dumps: \<open>Logger::Log\<close> (BaseLibrary/include/Logger.h, BaseLibrary/src/Logger.cpp) and the name of
  the dump file (BaseLibrary/src/CrashDump.cpp). The local time, the message after its own formatting and whether
  opening the file succeeds at each try are arguments; the files are a map from names to contents.
\<close>

subsection \<open>Texts\<close>

definition signed_decimal :: "int \<Rightarrow> string" where
  "signed_decimal k = (if k < 0 then CHR ''-'' # to_string (nat (- k)) else to_string (nat k))"

text \<open>\<open>%0nd\<close>: the sign counts, zeros fill the width.\<close>

definition zero_padded :: "nat \<Rightarrow> int \<Rightarrow> string" where
  "zero_padded n k =
     (let ds = to_string (nat \<bar>k\<bar>); w = (if k < 0 then n - 1 else n)
      in (if k < 0 then ''-'' else '''') @ replicate (w - length ds) CHR ''0'' @ ds)"

text \<open>\<open>StringCchPrintf\<close> into an array of \<open>n\<close> characters: the text cut to fit with its null, and the result.\<close>

definition STRSAFE_E_INSUFFICIENT_BUFFER :: u32 where
  "STRSAFE_E_INSUFFICIENT_BUFFER = 0x8007007A"

definition StringCchPrintf :: "nat \<Rightarrow> string \<Rightarrow> string \<times> u32" where
  "StringCchPrintf n t = (take (n - 1) t, if length t < n then 0 else STRSAFE_E_INSUFFICIENT_BUFFER)"

text \<open>
  \<open>fwprintf_s(file, s)\<close>: the text itself is the format. A doubled percent sign prints one; any other conversion
  takes an argument that was not passed.
\<close>

fun fwprintf_s :: "string \<Rightarrow> fault + string" where
  "fwprintf_s [] = Inr []"
| "fwprintf_s (c # cs) =
     (if c \<noteq> CHR ''%'' then ebind (fwprintf_s cs) (\<lambda>out. Inr (c # out))
      else (case cs of
              [] \<Rightarrow> Inl OutOfBounds
            | d # ds \<Rightarrow> if d = CHR ''%'' then ebind (fwprintf_s ds) (\<lambda>out. Inr (CHR ''%'' # out)) else Inl OutOfBounds))"

definition hex_digit :: "nat \<Rightarrow> char" where
  "hex_digit d = ''0123456789abcdef'' ! d"

fun to_hex :: "nat \<Rightarrow> string" where
  "to_hex n = (if n < 16 then [hex_digit n] else to_hex (n div 16) @ [hex_digit (n mod 16)])"

declare to_hex.simps [simp del]

subsection \<open>The logger\<close>

definition kBufsizeFilename :: nat where "kBufsizeFilename = 64"
definition kBufsizeLogTag :: nat where "kBufsizeLogTag = 128"
definition kBufsizeLogMessage :: nat where "kBufsizeLogMessage = 256"

datatype LogLevel = kDebug | kError | kSystem

definition rank :: "LogLevel \<Rightarrow> nat" where
  "rank l = (case l of kDebug \<Rightarrow> 0 | kError \<Rightarrow> 1 | kSystem \<Rightarrow> 2)"

record logger =
  MinLevel :: LogLevel
  LogCnt :: u64

record local_time =
  wYear :: u16
  wMonth :: u16
  wDay :: u16
  wHour :: u16
  wMinute :: u16
  wSecond :: u16

definition Logger_ctor :: logger where
  "Logger_ctor = \<lparr>MinLevel = kDebug, LogCnt = 0\<rparr>"

definition SetLogLevel :: "LogLevel \<Rightarrow> logger \<Rightarrow> logger" where
  "SetLogLevel l s = s\<lparr>MinLevel := l\<rparr>"

definition level_name :: "LogLevel \<Rightarrow> string" where
  "level_name l = (case l of kDebug \<Rightarrow> ''DEBUG'' | kError \<Rightarrow> ''ERROR'' | kSystem \<Rightarrow> ''SYSTEM'')"

definition hd2 :: "u16 \<Rightarrow> string" where
  "hd2 w = zero_padded 2 (sint w)"

definition log_file_name :: "string \<Rightarrow> local_time \<Rightarrow> string" where
  "log_file_name type t = signed_decimal (sint (wYear t)) @ hd2 (wMonth t) @ ''_'' @ type @ ''.txt''"

definition log_tag :: "string \<Rightarrow> LogLevel \<Rightarrow> local_time \<Rightarrow> u64 \<Rightarrow> string" where
  "log_tag type level t logCnt =
     [CHR 0x0A] @ ''['' @ type @ ''] ['' @ signed_decimal (sint (wYear t)) @ ''-'' @ hd2 (wMonth t) @ ''-'' @ hd2 (wDay t) @
     '' '' @ hd2 (wHour t) @ '':'' @ hd2 (wMinute t) @ '':'' @ hd2 (wSecond t) @ '' / '' @ level_name level @ ''] ['' @
     zero_padded 8 (sint logCnt) @ ''] ''"

text \<open>\<open>do { _wfopen_s(&file, fileName, L"ab"); } while (file == nullptr);\<close>\<close>

partial_function (option) open_log :: "(nat \<Rightarrow> bool) \<Rightarrow> nat \<Rightarrow> nat option" where
  "open_log opens k = (if opens k then Some k else open_log opens (Suc k))"

definition error_note :: "string \<Rightarrow> u32 \<Rightarrow> string" where
  "error_note what err = (if err \<noteq> 0 then '' # '' @ what @ '' Err:0x'' @ to_hex (unat err) @ '' #'' else '''')"

definition write_log :: "string \<Rightarrow> string \<Rightarrow> string \<Rightarrow> string \<Rightarrow> (string \<rightharpoonup> string) \<Rightarrow> fault + (string \<rightharpoonup> string)" where
  "write_log fileName logTag logMessage notes files =
     ebind (fwprintf_s logTag) (\<lambda>t. ebind (fwprintf_s logMessage) (\<lambda>m.
       Inr (files(fileName \<mapsto> (case files fileName of None \<Rightarrow> [] | Some old \<Rightarrow> old) @ t @ m @ notes))))"

definition Log ::
  "string \<Rightarrow> LogLevel \<Rightarrow> string \<Rightarrow> local_time \<Rightarrow> (nat \<Rightarrow> bool) \<Rightarrow> logger \<Rightarrow> (string \<rightharpoonup> string)
     \<Rightarrow> (fault + logger \<times> (string \<rightharpoonup> string)) option" where
  "Log type level message now opens s files =
     (if rank (MinLevel s) \<le> rank level then
        let logCnt = LogCnt s + 1;
            (fileName, e1) = StringCchPrintf kBufsizeFilename (log_file_name type now);
            (logTag, e2) = StringCchPrintf kBufsizeLogTag (log_tag type level now logCnt);
            (logMessage, e3) = StringCchPrintf kBufsizeLogMessage message
        in case open_log opens 0 of
             None \<Rightarrow> None
           | Some k \<Rightarrow>
               Some (ebind (write_log fileName logTag logMessage
                   (error_note ''FileName'' e1 @ error_note ''LogTag'' e2 @ error_note ''LogMessage'' e3) files)
                 (\<lambda>files1. Inr (s\<lparr>LogCnt := logCnt\<rparr>, files1)))
      else Some (Inr (s, files)))"

subsection \<open>Lemmas\<close>

lemma fwprintf_plain: "CHR ''%'' \<notin> set t \<Longrightarrow> fwprintf_s t = Inr t"
  by (induction t) auto

lemma fwprintf_conversion: "CHR ''%'' \<notin> set t \<Longrightarrow> d \<noteq> CHR ''%'' \<Longrightarrow> fwprintf_s (t @ CHR ''%'' # d # ds) = Inl OutOfBounds"
  by (induction t) auto

lemma open_log_at: "k \<le> n \<Longrightarrow> opens n \<Longrightarrow> \<forall>j. k \<le> j \<longrightarrow> j < n \<longrightarrow> \<not> opens j \<Longrightarrow> open_log opens k = Some n"
proof (induction "n - k" arbitrary: k)
  case 0
  then show ?case by (simp add: open_log.simps)
next
  case (Suc m)
  then show ?case by (simp add: open_log.simps [of _ k])
qed

lemma open_log_returns:
  assumes "opens n"
  shows "\<exists>k. open_log opens 0 = Some k \<and> opens k"
proof -
  let ?k = "LEAST k. opens k"
  have "open_log opens 0 = Some ?k" using assms not_less_Least by (intro open_log_at) (auto intro: LeastI)
  then show ?thesis using assms by (auto intro: LeastI)
qed

lemma open_log_opens: "open_log opens j = Some k \<Longrightarrow> opens k"
  by (rule open_log.raw_induct [of "\<lambda>opens j k. opens k", rotated]) (auto split: if_splits)

lemma open_log_never: "\<forall>k. \<not> opens k \<Longrightarrow> open_log opens 0 = None"
  using open_log_opens [of opens 0] by (cases "open_log opens 0") auto

lemma digits_no_percent: "CHR ''%'' \<notin> set (to_string n)"
proof -
  have "\<forall>c \<in> set (to_string n). is_digit c" using to_string_digits by blast
  then show ?thesis by (auto simp: is_digit_def less_eq_char_def)
qed

lemma tag_no_percent: "CHR ''%'' \<notin> set type \<Longrightarrow> CHR ''%'' \<notin> set (log_tag type level t n)"
  by (auto simp: log_tag_def hd2_def zero_padded_def signed_decimal_def digits_no_percent level_name_def Let_def
      split: LogLevel.split)

subsection \<open>One line\<close>

definition logged :: "string \<Rightarrow> LogLevel \<Rightarrow> local_time \<Rightarrow> logger \<Rightarrow> bool" where
  "logged type level now s \<longleftrightarrow> rank (MinLevel s) \<le> rank level \<and> length (log_tag type level now (LogCnt s + 1)) < 128 \<and>
     length (log_file_name type now) < 64 \<and> CHR ''%'' \<notin> set type"

lemma logged_texts:
  assumes "logged type level now s"
  shows "StringCchPrintf kBufsizeFilename (log_file_name type now) = (log_file_name type now, 0)"
    "StringCchPrintf kBufsizeLogTag (log_tag type level now (LogCnt s + 1)) = (log_tag type level now (LogCnt s + 1), 0)"
    "fwprintf_s (log_tag type level now (LogCnt s + 1)) = Inr (log_tag type level now (LogCnt s + 1))"
  using assms fwprintf_plain [OF tag_no_percent, of type]
  by (simp_all add: logged_def StringCchPrintf_def kBufsizeFilename_def kBufsizeLogTag_def)

lemma cut_note: "error_note ''LogMessage'' STRSAFE_E_INSUFFICIENT_BUFFER = '' # LogMessage Err:0x8007007a #''"
proof -
  have "to_hex 0x8007007A = ''8007007a''"
    by (simp add: to_hex.simps [of "0x8007007A"] to_hex.simps [of "0x8007007"] to_hex.simps [of "0x800700"] to_hex.simps [of "0x80070"]
        to_hex.simps [of "0x8007"] to_hex.simps [of "0x800"] to_hex.simps [of "0x80"] to_hex.simps [of "8"] hex_digit_def)
  then show ?thesis by (simp add: error_note_def STRSAFE_E_INSUFFICIENT_BUFFER_def)
qed

lemma no_note: "error_note w 0 = []"
  by (simp add: error_note_def)

lemma cut_message:
  "StringCchPrintf kBufsizeLogMessage t = (take 255 t, if length t < 256 then 0 else STRSAFE_E_INSUFFICIENT_BUFFER)"
  by (simp add: StringCchPrintf_def kBufsizeLogMessage_def)

lemma log_plain:
  assumes l: "logged type level now s" and o: "opens k" and m: "CHR ''%'' \<notin> set message"
  shows "Log type level message now opens s files =
    Some (Inr (s\<lparr>LogCnt := LogCnt s + 1\<rparr>,
      files(log_file_name type now \<mapsto> (case files (log_file_name type now) of None \<Rightarrow> [] | Some old \<Rightarrow> old) @
        log_tag type level now (LogCnt s + 1) @
        (if length message < 256 then message else take 255 message @ '' # LogMessage Err:0x8007007a #''))))"
proof -
  obtain j where j: "open_log opens 0 = Some j" using open_log_returns [of opens k, OF o] by blast
  have "CHR ''%'' \<notin> set (take 255 message)" using m by (auto dest: in_set_takeD)
  then have f: "fwprintf_s (take 255 message) = Inr (take 255 message)" by (rule fwprintf_plain)
  have lv: "rank (MinLevel s) \<le> rank level" using l by (simp add: logged_def)
  show ?thesis
  proof (cases "length message < 256")
    case True
    then show ?thesis using f lv
      by (simp add: Log_def logged_texts [OF l] j write_log_def no_note cut_message Let_def)
  next
    case False
    then show ?thesis using f lv
      by (simp add: Log_def logged_texts [OF l] j write_log_def no_note cut_note cut_message Let_def)
  qed
qed

lemma log_percent:
  assumes l: "logged type level now s" and o: "opens k"
    and m: "d \<noteq> CHR ''%''" "CHR ''%'' \<notin> set a" "length a < 254"
  shows "Log type level (a @ CHR ''%'' # d # b) now opens s files = Some (Inl OutOfBounds)"
proof -
  obtain j where j: "open_log opens 0 = Some j" using open_log_returns [of opens k, OF o] by blast
  have "255 - length a = Suc (Suc (253 - length a))" using m(3) by simp
  then have "take 255 (a @ CHR ''%'' # d # b) = a @ CHR ''%'' # d # take (253 - length a) b" using m(3) by simp
  then have f: "fwprintf_s (take 255 (a @ CHR ''%'' # d # b)) = Inl OutOfBounds" using fwprintf_conversion [OF m(2,1)] by simp
  have lv: "rank (MinLevel s) \<le> rank level" using l by (simp add: logged_def)
  show ?thesis using lv
    by (simp only: Log_def if_True logged_texts [OF l] j write_log_def cut_message Let_def prod.case option.case ebind_Inr f
        ebind_Inl)
qed

lemma log_stuck:
  assumes "logged type level now s" "\<forall>k. \<not> opens k"
  shows "Log type level message now opens s files = None"
proof -
  have "open_log opens 0 = None" using assms(2) by (rule open_log_never)
  then show ?thesis using assms(1) by (simp add: Log_def logged_def Let_def case_prod_beta)
qed

subsection \<open>The property\<close>

text \<open>C37. A message at or above the level whose kind fits the name and tag is appended to the file of its kind and month with its tag, numbered by the
  counter, exactly as long as it fits 255 characters and contains no percent sign, as soon as the file can be opened;
  a longer message is cut and a note with the error code follows. A message below the level changes nothing. But the
  finished text is used as a format once more: a percent sign in it that is not doubled is undefined behaviour. And
  if the file can never be opened, the call never returns.\<close>

theorem log_line:
  "(rank level < rank (MinLevel s) \<longrightarrow> Log type level message now opens s files = Some (Inr (s, files))) \<and>
    (logged type level now s \<longrightarrow>
       ((\<exists>k. opens k) \<and> CHR ''%'' \<notin> set message \<longrightarrow>
          Log type level message now opens s files =
            Some (Inr (s\<lparr>LogCnt := LogCnt s + 1\<rparr>,
              files(log_file_name type now \<mapsto> (case files (log_file_name type now) of None \<Rightarrow> [] | Some old \<Rightarrow> old) @
                log_tag type level now (LogCnt s + 1) @
                (if length message < 256 then message else take 255 message @ '' # LogMessage Err:0x8007007a #''))))) \<and>
       ((\<exists>k. opens k) \<and> (\<exists>a d b. message = a @ CHR ''%'' # d # b \<and> d \<noteq> CHR ''%'' \<and> CHR ''%'' \<notin> set a \<and> length a < 254) \<longrightarrow>
          Log type level message now opens s files = Some (Inl OutOfBounds)) \<and>
       ((\<forall>k. \<not> opens k) \<longrightarrow> Log type level message now opens s files = None))"
proof (intro conjI impI)
  assume "rank level < rank (MinLevel s)"
  then show "Log type level message now opens s files = Some (Inr (s, files))" by (simp add: Log_def)
next
  assume "logged type level now s" "(\<exists>k. opens k) \<and> CHR ''%'' \<notin> set message"
  then show "Log type level message now opens s files =
      Some (Inr (s\<lparr>LogCnt := LogCnt s + 1\<rparr>,
        files(log_file_name type now \<mapsto> (case files (log_file_name type now) of None \<Rightarrow> [] | Some old \<Rightarrow> old) @
          log_tag type level now (LogCnt s + 1) @
          (if length message < 256 then message else take 255 message @ '' # LogMessage Err:0x8007007a #''))))"
    by (elim conjE exE) (rule log_plain)
next
  assume "logged type level now s"
    "(\<exists>k. opens k) \<and> (\<exists>a d b. message = a @ CHR ''%'' # d # b \<and> d \<noteq> CHR ''%'' \<and> CHR ''%'' \<notin> set a \<and> length a < 254)"
  then obtain k a d b where l: "logged type level now s" "opens k" and m: "message = a @ CHR ''%'' # d # b"
    "d \<noteq> CHR ''%''" "CHR ''%'' \<notin> set a" "length a < 254" by blast
  show "Log type level message now opens s files = Some (Inl OutOfBounds)"
    unfolding m(1) by (rule log_percent [where opens = opens and k = k, OF l m(2-4)])
qed (rule log_stuck)

lemma log_line_witness:
  "Log ''Net'' kError ''stop'' \<lparr>wYear = 2024, wMonth = 3, wDay = 9, wHour = 7, wMinute = 5, wSecond = 1\<rparr> (\<lambda>k. k = 2) Logger_ctor Map.empty =
     Some (Inr (\<lparr>MinLevel = kDebug, LogCnt = 1\<rparr>,
       [''202403_Net.txt'' \<mapsto> CHR 0x0A # ''[Net] [2024-03-09 07:05:01 / ERROR] [00000001] stop'']))"
proof -
  let ?now = "\<lparr>wYear = 2024, wMonth = 3, wDay = 9, wHour = 7, wMinute = 5, wSecond = 1\<rparr>"
  have n: "log_file_name ''Net'' ?now = ''202403_Net.txt''" by code_simp
  have t: "log_tag ''Net'' kError ?now (LogCnt Logger_ctor + 1) = CHR 0x0A # ''[Net] [2024-03-09 07:05:01 / ERROR] [00000001] ''"
    by code_simp
  have l: "logged ''Net'' kError ?now Logger_ctor"
    unfolding logged_def n t by (simp add: Logger_ctor_def rank_def)
  have "Log ''Net'' kError ''stop'' ?now (\<lambda>k. k = 2) Logger_ctor Map.empty =
      Some (Inr (Logger_ctor\<lparr>LogCnt := LogCnt Logger_ctor + 1\<rparr>,
        Map.empty(log_file_name ''Net'' ?now \<mapsto> [] @ log_tag ''Net'' kError ?now (LogCnt Logger_ctor + 1) @ ''stop'')))"
    using log_line [of kError Logger_ctor "''Net''" "''stop''" ?now "\<lambda>k. k = 2" Map.empty] l by simp
  then show ?thesis unfolding n t by (simp add: Logger_ctor_def)
qed

subsection \<open>Crash dumps\<close>

text \<open>
  \<open>CrashDump::MyExceptionFilter\<close>: the dump is written beside the program. \<open>path\<close> is what \<open>GetModuleFileNameW\<close> put
  into an array of 260 characters; \<open>DumpCount\<close> numbers the dumps of the process.
\<close>

definition exe_dir :: "string \<Rightarrow> string" where
  "exe_dir path =
     (if CHR 0x5C \<in> set path then rev (dropWhile (\<lambda>c. c \<noteq> CHR 0x5C) (rev path)) else [])"

definition plain_decimal :: "u16 \<Rightarrow> string" where
  "plain_decimal w = to_string (unat w)"

definition dump_file_name :: "string \<Rightarrow> local_time \<Rightarrow> u32 \<Rightarrow> string" where
  "dump_file_name path t dumpCount =
     exe_dir path @ ''Dump_'' @ plain_decimal (wYear t) @ zero_padded 2 (uint (wMonth t)) @ zero_padded 2 (uint (wDay t)) @ ''_'' @
     zero_padded 2 (uint (wHour t)) @ ''.'' @ zero_padded 2 (uint (wMinute t)) @ ''.'' @ zero_padded 2 (uint (wSecond t)) @ ''_'' @
     signed_decimal (sint dumpCount) @ ''.dmp''"

definition MyExceptionFilter :: "string \<Rightarrow> local_time \<Rightarrow> bool \<Rightarrow> u32 \<times> string list \<Rightarrow> u32 \<times> string list" where
  "MyExceptionFilter path t created s =
     (let (DumpCount, dumps) = s; dumpCount = DumpCount + 1; filename = dump_file_name path t dumpCount
      in (dumpCount, if created then dumps @ [filename] else dumps))"

text \<open>The dump stands in the directory of the program.\<close>

lemma dump_beside_program:
  assumes "CHR 0x5C \<notin> set file"
  shows "take (Suc (length dir)) (dump_file_name (dir @ CHR 0x5C # file) t n) = dir @ [CHR 0x5C]"
proof -
  have "dropWhile (\<lambda>c. c \<noteq> CHR 0x5C) (rev file @ CHR 0x5C # rev dir) = CHR 0x5C # rev dir"
    using assms by (subst dropWhile_append2) auto
  then show ?thesis by (simp add: dump_file_name_def exe_dir_def)
qed

end
