(* ===== verification/BenchStatistics.thy ===== *)
theory BenchStatistics
  imports Monitoring "HOL-Library.Multiset"
begin

text \<open>
  The statistics of the benchmark reports (BaseLibrary/include/Statistics.h): average, nearest-rank percentile,
  smallest and largest sample. A \<open>double\<close> is a real number, \<open>dbl\<close> the rounding after each operation; samples are
  finite numbers.
\<close>

definition Average :: "(real \<Rightarrow> real) \<Rightarrow> real list \<Rightarrow> real" where
  "Average dbl samples =
     (if samples = [] then 0
      else dbl (foldl (\<lambda>sum sample. dbl (sum + sample)) 0 samples / dbl (real (length samples))))"

definition Percentile :: "(real \<Rightarrow> real) \<Rightarrow> real list \<Rightarrow> real \<Rightarrow> real" where
  "Percentile dbl samples p =
     (if samples = [] then 0
      else
        let v = sort samples
        in if p \<le> 0 then hd v
           else if 1 \<le> p then last v
           else
             let rank0 = nat \<lceil>dbl (p * dbl (real (length v)))\<rceil>;
                 rank1 = (if rank0 < 1 then 1 else rank0);
                 rank = (if length v < rank1 then length v else rank1)
             in v ! (rank - 1))"

definition MinValue :: "real list \<Rightarrow> real" where
  "MinValue samples = (if samples = [] then 0 else foldl (\<lambda>m v. if v < m then v else m) (hd samples) (tl samples))"

definition MaxValue :: "real list \<Rightarrow> real" where
  "MaxValue samples = (if samples = [] then 0 else foldl (\<lambda>m v. if m < v then v else m) (hd samples) (tl samples))"

text \<open>The constants of the reports as the \<open>double\<close>s nearest to 0.05, 0.50 and 0.95.\<close>

definition p05 :: real where "p05 = 7205759403792794 / 2 ^ 57"
definition p50 :: real where "p50 = 1 / 2"
definition p95 :: real where "p95 = 8556839292003942 / 2 ^ 53"

subsection \<open>Smallest and largest\<close>

lemma fold_min: "foldl (\<lambda>m v. if v < m then v else m) a xs = Min (set (a # xs))" for a :: real
proof (induction xs arbitrary: a)
  case (Cons x xs)
  have step: "(if x < a then x else a) = min a x" by auto
  have "foldl (\<lambda>m v. if v < m then v else m) a (x # xs) = Min (set (min a x # xs))"
    using Cons.IH [of "min a x"] step by simp
  also have "\<dots> = Min (set (a # x # xs))" by (cases "xs = []") (simp_all add: min.assoc)
  finally show ?case .
qed simp

lemma fold_max: "foldl (\<lambda>m v. if m < v then v else m) a xs = Max (set (a # xs))" for a :: real
proof (induction xs arbitrary: a)
  case (Cons x xs)
  have step: "(if a < x then x else a) = max a x" by auto
  have "foldl (\<lambda>m v. if m < v then v else m) a (x # xs) = Max (set (max a x # xs))"
    using Cons.IH [of "max a x"] step by simp
  also have "\<dots> = Max (set (a # x # xs))" by (cases "xs = []") (simp_all add: max.assoc)
  finally show ?case .
qed simp

lemma MinValue_is: "samples \<noteq> [] \<Longrightarrow> MinValue samples = Min (set samples)"
  by (cases samples) (simp_all add: MinValue_def fold_min del: foldl_Cons)

lemma MaxValue_is: "samples \<noteq> [] \<Longrightarrow> MaxValue samples = Max (set samples)"
  by (cases samples) (simp_all add: MaxValue_def fold_max del: foldl_Cons)

subsection \<open>Ranks\<close>

lemma Percentile_element:
  assumes "samples \<noteq> []"
  shows "Percentile dbl samples p \<in> set samples"
proof -
  have s: "sort samples \<noteq> []" "set (sort samples) = set samples" using assms by (metis set_empty set_sort) simp
  then have "sort samples ! (k - 1) \<in> set samples" if "1 \<le> k" "k \<le> length samples" for k
    using that nth_mem [of "k - 1" "sort samples"] by simp
  moreover have "hd (sort samples) \<in> set samples" "last (sort samples) \<in> set samples" using s by (metis hd_in_set last_in_set)+
  ultimately show ?thesis using assms by (simp add: Percentile_def Let_def Suc_le_eq)
qed

text \<open>The rank that is read when the product rounds to a number with ceiling \<open>k\<close>.\<close>

lemma Percentile_rank:
  assumes "0 < p" "p < 1" "1 \<le> k" "k \<le> length samples" "dbl (real (length samples)) = real (length samples)"
    and c: "real k - 1 < dbl (p * real (length samples))" "dbl (p * real (length samples)) \<le> real k"
  shows "Percentile dbl samples p = sort samples ! (k - 1)"
proof -
  have "\<lceil>dbl (p * real (length samples))\<rceil> = int k" using c by (intro ceiling_unique) auto
  moreover have "samples \<noteq> []" using assms(3,4) by auto
  ultimately show ?thesis using assms by (simp add: Percentile_def Let_def)
qed

text \<open>Rounding to the nearest: just above a whole number it goes down to it.\<close>

definition to_nearest :: "(real \<Rightarrow> real) \<Rightarrow> bool" where
  "to_nearest dbl \<longleftrightarrow>
     (\<forall>e m x. 2 ^ e \<le> m \<and> m \<le> 2 ^ 53 \<and> real m \<le> x \<and> x < real m + 2 ^ e / 2 ^ 53 \<longrightarrow> dbl x = real m)"

lemma above_whole:
  assumes n: "to_nearest dbl" and q: "0 < q" "q \<le> 2 ^ 53"
  shows "dbl (real q + real q / 2 ^ 54) = real q"
proof -
  obtain e where e: "2 ^ e \<le> q" "q < 2 ^ (e + 1)"
    using ex_power_ivl1 [of 2 q] q(1) by auto
  have "real q < 2 ^ (e + 1)" using e(2) by (metis of_nat_less_iff of_nat_numeral of_nat_power)
  then have "real q / 2 ^ 54 < 2 ^ (e + 1) / 2 ^ 54" by (rule divide_strict_right_mono) simp
  also have "(2 :: real) ^ (e + 1) / 2 ^ 54 = 2 ^ e / 2 ^ 53" by simp
  finally have "real q + real q / 2 ^ 54 < real q + 2 ^ e / 2 ^ 53" by simp
  then show ?thesis using n e(1) q(2) unfolding to_nearest_def by (metis le_add_same_cancel1 of_nat_0_le_iff divide_nonneg_nonneg zero_le_power zero_le_numeral)
qed

text \<open>The three products, rounded, have the ceiling of the exact product.\<close>

lemma rank05:
  assumes d: "rounding dbl 53" and n: "to_nearest dbl" and N: "0 < N" "N < 2 ^ 32"
  shows "real ((N + 19) div 20) - 1 < dbl (p05 * real N) \<and> dbl (p05 * real N) \<le> real ((N + 19) div 20)"
proof -
  define q r where "q = N div 20" and "r = N mod 20"
  have Nqr: "N = 20 * q + r" "r < 20" by (simp_all add: q_def r_def)
  have q: "q < 2 ^ 28" using N(2) Nqr by simp
  have x: "p05 * real N = real N / 20 + real N / 20 / 2 ^ 54" by (simp add: p05_def field_simps)
  have m: "mono dbl" using d by (simp add: rounding_def)
  show ?thesis
  proof (cases "r = 0")
    case True
    then have k: "real N / 20 = real q" "(N + 19) div 20 = q" using Nqr by simp_all
    have "0 < q" "q \<le> 2 ^ 53" using N(1) Nqr True q by simp_all
    then have "dbl (real q + real q / 2 ^ 54) = real q" by (rule above_whole [OF n])
    then have "dbl (p05 * real N) = real q" unfolding x k(1) .
    then show ?thesis unfolding k(2) by simp
  next
    case False
    have k: "(N + 19) div 20 = q + 1" using Nqr False by simp
    have r: "1 \<le> real r" "real r \<le> 19" using False Nqr(2) by simp_all
    have "real N / 20 = real q + real r / 20" by (simp add: Nqr(1))
    moreover have "real N / 20 / 2 ^ 54 \<le> 1 / 20" using N(2) by simp
    moreover have "0 \<le> real N / 20 / 2 ^ 54" by simp
    ultimately have lo: "real q + 1 / 32 \<le> p05 * real N" and hi: "p05 * real N \<le> real (q + 1)"
      using r unfolding x by linarith+
    have "dbl (real (32 * q + 1) / 2 ^ 5) = real (32 * q + 1) / 2 ^ 5" using q by (intro rounding_exact [OF d]) simp_all
    then have e: "dbl (real q + 1 / 32) = real q + 1 / 32" by (simp add: add_divide_distrib add.commute)
    have "dbl (real (q + 1)) = real (q + 1)" using q by (intro rounding_nat [OF d]) simp
    then show ?thesis using monoD [OF m lo] monoD [OF m hi] unfolding e k by simp
  qed
qed

lemma rank50:
  assumes d: "rounding dbl 53" and N: "N < 2 ^ 32"
  shows "real ((N + 1) div 2) - 1 < dbl (p50 * real N) \<and> dbl (p50 * real N) \<le> real ((N + 1) div 2)"
proof -
  have "dbl (real N / 2 ^ 1) = real N / 2 ^ 1" using N by (intro rounding_exact [OF d]) simp_all
  then have "dbl (p50 * real N) = real N / 2" by (simp add: p50_def)
  moreover have "real N / 2 \<le> real ((N + 1) div 2)" "real ((N + 1) div 2) - 1 < real N / 2" by linarith+
  ultimately show ?thesis by simp
qed

lemma rank95:
  assumes d: "rounding dbl 53" and N: "0 < N" "N < 2 ^ 32"
  shows "real ((19 * N + 19) div 20) - 1 < dbl (p95 * real N) \<and> dbl (p95 * real N) \<le> real ((19 * N + 19) div 20)"
proof -
  define q r where "q = N div 20" and "r = N mod 20"
  have Nqr: "N = 20 * q + r" "r < 20" by (simp_all add: q_def r_def)
  have q: "q < 2 ^ 28" using N(2) Nqr by simp
  let ?k = "19 * q + r"
  have k: "(19 * N + 19) div 20 = ?k"
  proof -
    have "19 * N + 19 = 20 * (19 * q + r) + (19 - r)" using Nqr by simp
    then show ?thesis by simp
  qed
  have pos: "0 < ?k" using N(1) Nqr by auto
  have x: "p95 * real N = real ?k - real r / 20 - real N * 2 / 5 / 2 ^ 53" by (simp add: p95_def Nqr(1) field_simps)
  have "real N * 2 / 5 / 2 ^ 53 \<le> 1 / 64" "0 \<le> real N * 2 / 5 / 2 ^ 53" using N(2) by simp_all
  moreover have "0 \<le> real r" "real r \<le> 19" using Nqr(2) by simp_all
  ultimately have hi: "p95 * real N \<le> real ?k" and lo: "real ?k - 1 + 1 / 32 \<le> p95 * real N" unfolding x by linarith+
  have m: "mono dbl" using d by (simp add: rounding_def)
  define j where "j = ?k - 1"
  have kj: "?k = j + 1" using pos by (simp add: j_def)
  have "32 * j + 1 \<le> 2 ^ 53" using q Nqr(2) kj by simp
  then have "dbl (real (32 * j + 1) / 2 ^ 5) = real (32 * j + 1) / 2 ^ 5" by (rule rounding_exact [OF d]) simp
  moreover have "real (32 * j + 1) / 2 ^ 5 = real ?k - 1 + 1 / 32" unfolding kj by (simp add: field_simps)
  ultimately have e: "dbl (real ?k - 1 + 1 / 32) = real ?k - 1 + 1 / 32" by (simp only:)
  have "dbl (real ?k) = real ?k" using q Nqr(2) by (intro rounding_nat [OF d]) simp
  then show ?thesis using monoD [OF m lo] monoD [OF m hi] unfolding e k by simp
qed

subsection \<open>The ranks that are read\<close>

lemma nearest_ranks:
  assumes "rounding dbl 53" "to_nearest dbl" "samples \<noteq> []" "length samples < 2 ^ 32"
  defines "N \<equiv> length samples"
  shows "Percentile dbl samples p05 = sort samples ! ((N + 19) div 20 - 1)"
    "Percentile dbl samples p50 = sort samples ! ((N + 1) div 2 - 1)"
    "Percentile dbl samples p95 = sort samples ! ((19 * N + 19) div 20 - 1)"
proof -
  have N: "0 < N" "N < 2 ^ 32" using assms(3,4) by (simp_all add: N_def)
  have ex: "dbl (real N) = real N" using N by (intro rounding_nat [OF assms(1)]) simp
  have k: "1 \<le> (N + 19) div 20 \<and> (N + 19) div 20 \<le> N" "1 \<le> (N + 1) div 2 \<and> (N + 1) div 2 \<le> N"
    "1 \<le> (19 * N + 19) div 20 \<and> (19 * N + 19) div 20 \<le> N"
    using N(1) by (simp_all add: less_eq_div_iff_mult_less_eq div_less_iff_less_mult flip: less_Suc_eq_le)
  have p: "0 < p05" "p05 < 1" "0 < p50" "p50 < 1" "0 < p95" "p95 < 1" by (simp_all add: p05_def p50_def p95_def)
  show "Percentile dbl samples p05 = sort samples ! ((N + 19) div 20 - 1)"
    using rank05 [OF assms(1,2) N] k p ex unfolding N_def by (intro Percentile_rank) blast+
  show "Percentile dbl samples p50 = sort samples ! ((N + 1) div 2 - 1)"
    using rank50 [OF assms(1) N(2)] k p ex unfolding N_def by (intro Percentile_rank) blast+
  show "Percentile dbl samples p95 = sort samples ! ((19 * N + 19) div 20 - 1)"
    using rank95 [OF assms(1) N] k p ex unfolding N_def by (intro Percentile_rank) blast+
qed

lemma Percentile_between:
  "samples \<noteq> [] \<Longrightarrow> MinValue samples \<le> Percentile dbl samples p \<and> Percentile dbl samples p \<le> MaxValue samples"
  using Percentile_element [of samples dbl p] by (simp add: MinValue_is MaxValue_is)

lemma percentiles_ordered:
  assumes "rounding dbl 53" "to_nearest dbl" "samples \<noteq> []" "length samples < 2 ^ 32"
  shows "Percentile dbl samples p05 \<le> Percentile dbl samples p50 \<and> Percentile dbl samples p50 \<le> Percentile dbl samples p95"
proof -
  let ?N = "length samples"
  have "1 \<le> ?N" using assms(3) by (simp add: Suc_le_eq)
  then have "(?N + 19) div 20 - 1 \<le> (?N + 1) div 2 - 1" "(?N + 1) div 2 - 1 \<le> (19 * ?N + 19) div 20 - 1"
    "(19 * ?N + 19) div 20 - 1 < ?N" by linarith+
  then show ?thesis unfolding nearest_ranks [OF assms] by (intro conjI sorted_nth_mono) simp_all
qed

subsection \<open>A rounding\<close>

text \<open>Rounding down to a number with at most 53 binary digits, as an instance of the two assumptions.\<close>

definition numbers53 :: "real set" where
  "numbers53 = (\<lambda>(k, j). real k / 2 ^ j) ` ({0 .. 2 ^ 53} \<times> {0 .. 64})"

definition down53 :: "real \<Rightarrow> real" where
  "down53 x = (if x < 0 then x else Max {n \<in> numbers53. n \<le> x})"

lemma numbers53: "finite numbers53" "0 \<in> numbers53" "k \<le> 2 ^ 53 \<Longrightarrow> j \<le> 64 \<Longrightarrow> real k / 2 ^ j \<in> numbers53"
proof -
  show i: "k \<le> 2 ^ 53 \<Longrightarrow> j \<le> 64 \<Longrightarrow> real k / 2 ^ j \<in> numbers53" for k j
    unfolding numbers53_def by (intro image_eqI [of _ _ "(k, j)"]) simp_all
  show "0 \<in> numbers53" using i [of 0 0] by simp
  show "finite numbers53" unfolding numbers53_def by (intro finite_imageI finite_cartesian_product) simp_all
qed

lemma down53_eq:
  assumes "0 \<le> n" "n \<in> numbers53" "n \<le> x" and "\<And>n'. n' \<in> numbers53 \<Longrightarrow> n' \<le> x \<Longrightarrow> n' \<le> n"
  shows "down53 x = n"
proof -
  have "Max {n \<in> numbers53. n \<le> x} = n" using assms(2,3,4) numbers53(1) by (intro Max_eqI) auto
  then show ?thesis using assms(1,3) by (simp add: down53_def)
qed

lemma rounding_down53: "rounding down53 53"
  unfolding rounding_def
proof (intro conjI allI impI)
  have nonneg: "0 \<le> down53 x" if "0 \<le> x" for x
    using that numbers53(1,2) unfolding down53_def by (auto intro!: Max_ge)
  show "mono down53"
  proof (rule monoI)
    fix x y :: real
    assume xy: "x \<le> y"
    consider "y < 0" | "x < 0" "0 \<le> y" | "0 \<le> x" by linarith
    then show "down53 x \<le> down53 y"
    proof cases
      case 3
      have "{n \<in> numbers53. n \<le> x} \<subseteq> {n \<in> numbers53. n \<le> y}" using xy by auto
      moreover have "{n \<in> numbers53. n \<le> x} \<noteq> {}" using 3 numbers53(2) by auto
      ultimately have "Max {n \<in> numbers53. n \<le> x} \<le> Max {n \<in> numbers53. n \<le> y}"
        using numbers53(1) by (intro Max_mono) auto
      then show ?thesis using 3 xy by (simp add: down53_def)
    qed (use xy nonneg [of y] in \<open>simp_all add: down53_def [of x] down53_def [of y]\<close>)
  qed
next
  fix k j :: nat
  assume "k \<le> 2 ^ 53" "j \<le> 64"
  then show "down53 (real k / 2 ^ j) = real k / 2 ^ j" by (intro down53_eq numbers53(3)) simp_all
qed

lemma to_nearest_down53: "to_nearest down53"
  unfolding to_nearest_def
proof (intro allI impI, elim conjE)
  fix e m x
  assume e: "2 ^ e \<le> m" "m \<le> 2 ^ 53" and x: "real m \<le> x" "x < real m + 2 ^ e / 2 ^ 53"
  have "n' \<le> real m" if n': "n' \<in> numbers53" "n' \<le> x" for n'
  proof (rule ccontr)
    assume less: "\<not> n' \<le> real m"
    from n'(1) have "\<exists>k j. k \<le> 2 ^ 53 \<and> n' = real k / 2 ^ j" unfolding numbers53_def by (elim imageE SigmaE) force
    then obtain k j where k: "k \<le> 2 ^ 53" "n' = real k / 2 ^ j" by blast
    have "real m * 2 ^ j < real k" using less k(2) by (simp add: field_simps)
    then have "real (m * 2 ^ j) < real k" by simp
    then have mk: "m * 2 ^ j < k" by (simp only: of_nat_less_iff)
    have "2 ^ e * 2 ^ j \<le> m * 2 ^ j" using e(1) by simp
    also note mk
    also note k(1)
    finally have "(2 :: nat) ^ (e + j) < 2 ^ 53" by (simp only: power_add)
    then have "real (2 ^ (e + j)) < real (2 ^ 53)" by (rule of_nat_less_iff [THEN iffD2])
    then have "(2 :: real) ^ (e + j) < 2 ^ 53" by (simp only: of_nat_power of_nat_numeral)
    then have "(2 :: real) ^ e * 2 ^ j \<le> 2 ^ 53" by (simp only: power_add less_imp_le)
    then have ulp: "2 ^ e / 2 ^ 53 \<le> 1 / (2 :: real) ^ j" by (simp add: pos_le_divide_eq pos_divide_le_eq)
    have "real (m * 2 ^ j + 1) \<le> real k" using mk by (simp only: of_nat_le_iff)
    then have "real m + 1 / 2 ^ j \<le> n'" unfolding k(2) by (simp add: pos_le_divide_eq distrib_right add.commute)
    then show False using ulp n'(2) x(2) by linarith
  qed
  moreover have "real m \<in> numbers53" using numbers53(3) [of m 0] e(2) by simp
  ultimately show "down53 x = real m" using x(1) by (intro down53_eq) simp_all
qed

subsection \<open>The property\<close>

text \<open>C35. The percentiles of the benchmark reports are the nearest-rank ones they are documented to be, for every number
  of samples and in the rounded arithmetic of the program: the constants 0.05, 0.50 and 0.95 are not these numbers
  exactly, but the rank that is read is always the ceiling of the exact product. Every percentile is one of the
  samples, between the smallest and the largest.\<close>

theorem percentiles_nearest_rank:
  assumes "rounding dbl 53" "to_nearest dbl" "samples \<noteq> []" "length samples < 2 ^ 32"
  defines "N \<equiv> length samples"
  shows "Percentile dbl samples p05 = sort samples ! ((N + 19) div 20 - 1) \<and>
    Percentile dbl samples p50 = sort samples ! ((N + 1) div 2 - 1) \<and>
    Percentile dbl samples p95 = sort samples ! ((19 * N + 19) div 20 - 1) \<and>
    (\<forall>p. Percentile dbl samples p \<in> set samples \<and> MinValue samples \<le> Percentile dbl samples p \<and>
       Percentile dbl samples p \<le> MaxValue samples)"
  using nearest_ranks [OF assms(1-4)] Percentile_element [OF assms(3)] Percentile_between [OF assms(3)]
  unfolding N_def by blast

theorem percentiles_nearest_rank_witness:
  "Percentile down53 [30, 10, 20] p05 = 10 \<and> Percentile down53 [30, 10, 20] p50 = 20 \<and>
   Percentile down53 [30, 10, 20] p95 = 30"
  using percentiles_nearest_rank [OF rounding_down53 to_nearest_down53, of "[30, 10, 20]"] by simp

end
