(* ===== verification/BenchReport.thy ===== *)
theory BenchReport
  imports BenchRun BenchStatistics LogFile
begin

text \<open>
  The figures of a sample, the report on a run and the two files it goes to (Examples/TestServer/main.cpp,
  Examples/TestClient/main.cpp). A \<open>double\<close> is a real number as in \<open>BenchStatistics\<close>; the usages are finite. The
  columns that only repeat settings, and the widths of the printed numbers, are left out.
\<close>

subsection \<open>Times\<close>

definition time_text :: "local_time \<Rightarrow> string" where
  "time_text t = zero_padded 4 (uint (wYear t)) @ ''-'' @ zero_padded 2 (uint (wMonth t)) @ ''-'' @ zero_padded 2 (uint (wDay t)) @
     '' '' @ zero_padded 2 (uint (wHour t)) @ '':'' @ zero_padded 2 (uint (wMinute t)) @ '':'' @ zero_padded 2 (uint (wSecond t))"

text \<open>\<open>sprintf_s\<close> ends the program when the text and its null do not fit.\<close>

definition FormatTime :: "local_time \<Rightarrow> nat \<Rightarrow> fault + string" where
  "FormatTime t size' = (if length (time_text t) < size' then Inr (time_text t) else Inl Crashed)"

definition FormatFileStamp :: "local_time \<Rightarrow> fault + string" where
  "FormatFileStamp t =
     (let stamp = zero_padded 4 (uint (wYear t)) @ zero_padded 2 (uint (wMonth t)) @ zero_padded 2 (uint (wDay t)) @ ''_'' @
        zero_padded 2 (uint (wHour t)) @ zero_padded 2 (uint (wMinute t)) @ zero_padded 2 (uint (wSecond t))
      in if length stamp < 32 then Inr stamp else Inl Crashed)"

subsection \<open>Samples\<close>

record figures =
  Timestamp :: string
  RecvTPS :: real
  RecvBytes :: real
  SendTPS :: real
  SendBytes :: real
  PoolTotal :: int
  PoolUse :: int
  PoolFree :: int
  CpuProcess :: real
  CpuProcessor :: real
  MemProcessMB :: real

record server_figures = figures +
  FreeSession :: int
  AcceptTPS :: real

record client_figures = figures +
  ConnectTotal :: int
  DisconnectTotal :: int
  RecvTotal :: int
  VerifiedTotal :: int

text \<open>What one turn reads: the time, the transmit counters, the pool, the usages and the bytes of the process.\<close>

type_synonym readings = "local_time \<times> (u32 \<times> u32 \<times> u32 \<times> u32) \<times> (int \<times> int \<times> int) \<times> real \<times> real \<times> u32"

definition base_figures :: "(real \<Rightarrow> real) \<Rightarrow> readings \<Rightarrow> fault + figures" where
  "base_figures dbl rd =
     (let (now, (t0', t1', t2', t3'), (tot, used, free), cpu, cpus, mem) = rd
      in ebind (FormatTime now 20) (\<lambda>stamp.
        Inr \<lparr>Timestamp = stamp, RecvTPS = real (unat t0'), RecvBytes = real (unat t1'), SendTPS = real (unat t2'),
             SendBytes = real (unat t3'), PoolTotal = tot, PoolUse = used, PoolFree = free, CpuProcess = cpu,
             CpuProcessor = cpus, MemProcessMB = dbl (real (unat mem) / 1000000)\<rparr>))"

definition server_sample :: "(real \<Rightarrow> real) \<Rightarrow> readings \<Rightarrow> u32 \<Rightarrow> u32 \<Rightarrow> fault + server_figures" where
  "server_sample dbl rd disconnected accepted =
     ebind (base_figures dbl rd) (\<lambda>f.
       Inr (figures.extend f (server_figures.fields (sint disconnected) (real (unat accepted)))))"

definition client_sample :: "(real \<Rightarrow> real) \<Rightarrow> readings \<Rightarrow> int \<times> int \<times> int \<times> int \<Rightarrow> fault + client_figures" where
  "client_sample dbl rd totals =
     (let (connects, disconnects, received, verified) = totals
      in ebind (base_figures dbl rd) (\<lambda>f.
        Inr (figures.extend f (client_figures.fields connects disconnects received verified))))"

subsection \<open>The report\<close>

record report =
  Valid :: string
  WindowStartSec :: int
  WindowEndSec :: int
  WindowSamples :: nat
  RecvTPS_avg :: real
  RecvTPS_p5 :: real
  RecvTPS_p50 :: real
  RecvTPS_p95 :: real
  RecvTPS_min :: real
  RecvTPS_max :: real
  SendTPS_avg :: real
  Connected_min :: real
  Connected_avg :: real
  Pool_end :: real
  Pool_max :: real
  Mem_startMB :: real
  Mem_endMB :: real
  Mem_maxMB :: real
  Mem_slopeMBperHour :: real
  Cpu_avg :: real
  Cpu_max :: real
  CpuProcessor_avg :: real

text \<open>\<open>for (...) if (v > m) m = v;\<close> from zero.\<close>

definition largest :: "real list \<Rightarrow> real" where
  "largest vs = foldl (\<lambda>m v. if m < v then v else m) 0 vs"

definition mem_slope :: "(real \<Rightarrow> real) \<Rightarrow> real \<Rightarrow> real \<Rightarrow> real \<Rightarrow> real" where
  "mem_slope dbl windowHours memStart memEnd =
     (if 0 < windowHours then dbl (dbl (memEnd - memStart) / windowHours) else 0)"

definition server_report ::
  "(real \<Rightarrow> real) \<Rightarrow> int \<times> int \<times> 'a figures_scheme sample list \<times> string \<Rightarrow> fault + report" where
  "server_report dbl r =
     (let (windowStartSec, windowEndSec, window, verdict) = r;
          recvTPS = map (\<lambda>s. RecvTPS (Metrics s)) window;
          sendTPS = map (\<lambda>s. SendTPS (Metrics s)) window;
          connected = map (\<lambda>s. real_of_int (Connected s)) window;
          cpuProcess = map (\<lambda>s. CpuProcess (Metrics s)) window;
          cpuProcessor = map (\<lambda>s. CpuProcessor (Metrics s)) window;
          mem = map (\<lambda>s. MemProcessMB (Metrics s)) window;
          pool = map (\<lambda>s. real_of_int (PoolUse (Metrics s))) window;
          memStart = (if window = [] then 0 else hd mem);
          memEnd = (if window = [] then 0 else last mem)
      in ebind (if window = [] then Inr 0
                else ebind (chk32 (windowEndSec - windowStartSec)) (\<lambda>d. Inr (dbl (dbl (real_of_int d) / 3600)))) (\<lambda>windowHours.
        Inr \<lparr>Valid = verdict, WindowStartSec = windowStartSec, WindowEndSec = windowEndSec,
             WindowSamples = length window, RecvTPS_avg = Average dbl recvTPS,
             RecvTPS_p5 = Percentile dbl recvTPS p05, RecvTPS_p50 = Percentile dbl recvTPS p50,
             RecvTPS_p95 = Percentile dbl recvTPS p95, RecvTPS_min = MinValue recvTPS, RecvTPS_max = MaxValue recvTPS,
             SendTPS_avg = Average dbl sendTPS, Connected_min = MinValue connected,
             Connected_avg = Average dbl connected, Pool_end = (if window = [] then 0 else last pool),
             Pool_max = largest pool, Mem_startMB = memStart, Mem_endMB = memEnd, Mem_maxMB = largest mem,
             Mem_slopeMBperHour = mem_slope dbl windowHours memStart memEnd, Cpu_avg = Average dbl cpuProcess,
             Cpu_max = MaxValue cpuProcess, CpuProcessor_avg = Average dbl cpuProcessor\<rparr>))"

text \<open>The client computes the same figures and adds its totals.\<close>

record client_report = report +
  rConnectTotal :: int
  rDisconnectTotal :: int
  rRecvTotal :: int
  rVerifiedTotal :: int

definition client_figures_report ::
  "(real \<Rightarrow> real) \<Rightarrow> int \<times> int \<times> 'a figures_scheme sample list \<times> string \<Rightarrow> int \<times> int \<times> int \<times> int \<Rightarrow> fault + client_report" where
  "client_figures_report dbl r totals =
     (let (connects, disconnects, received, verified) = totals
      in ebind (server_report dbl r) (\<lambda>f.
        Inr (report.extend f (client_report.fields connects disconnects received verified))))"

subsection \<open>The files\<close>

text \<open>
  A file is a list of what is written to it: the byte order mark, the header line, a row. \<open>wb\<close> empties the file of the
  samples, \<open>ab\<close> appends to the summary, whose header is written when it could not be opened for reading before.
\<close>

datatype 'r csv_item = ByteOrderMark | Header | Row 'r

definition write_samples :: "bool \<Rightarrow> 'r list \<Rightarrow> 'r csv_item list option \<Rightarrow> 'r csv_item list option" where
  "write_samples opened rows file = (if opened then Some ([ByteOrderMark, Header] @ map Row rows) else file)"

definition append_summary :: "bool \<Rightarrow> bool \<Rightarrow> 'r \<Rightarrow> 'r csv_item list option \<Rightarrow> 'r csv_item list option" where
  "append_summary probed opened row file =
     (let summaryExists = (probed \<and> file \<noteq> None)
      in if opened then
           Some ((case file of None \<Rightarrow> [] | Some old \<Rightarrow> old) @
             (if summaryExists then [] else [ByteOrderMark, Header]) @ [Row row])
         else file)"

subsection \<open>Lemmas\<close>

text \<open>A date with a year of four digits fits the array of a sample exactly.\<close>

lemma to_string_length: "0 < d \<Longrightarrow> n < 10 ^ d \<Longrightarrow> length (to_string n) \<le> d"
proof (induction d arbitrary: n)
  case (Suc d)
  show ?case
  proof (cases "n < 10")
    case False
    have "n div 10 < 10 ^ d" using Suc.prems(2) by (simp add: div_less_iff_less_mult mult.commute)
    moreover have "0 < d" using False Suc.prems(2) by (cases d) simp_all
    ultimately have "length (to_string (n div 10)) \<le> d" using Suc.IH by blast
    then show ?thesis using False by (simp add: to_string.simps [of n])
  qed (simp add: to_string.simps [of n])
qed simp

lemma zero_padded_length: "0 < d \<Longrightarrow> n < 10 ^ d \<Longrightarrow> length (zero_padded d (int n)) = d"
  using to_string_length [of d n] by (simp add: zero_padded_def Let_def)

lemma FormatTime_fits:
  assumes "wYear t < 10000" "wMonth t < 100" "wDay t < 100" "wHour t < 100" "wMinute t < 100" "wSecond t < 100"
  shows "FormatTime t 20 = Inr (time_text t) \<and> length (time_text t) = 19"
proof -
  have u: "uint w = int (unat w)" for w :: u16 by simp
  have two: "length (zero_padded 2 (uint w)) = 2" if "w < 100" for w :: u16
    unfolding u using that by (intro zero_padded_length) (simp_all add: word_less_nat_alt)
  have "length (zero_padded 4 (uint (wYear t))) = 4"
    unfolding u using assms(1) by (intro zero_padded_length) (simp_all add: word_less_nat_alt)
  then have "length (time_text t) = 19" using assms two by (simp add: time_text_def)
  then show ?thesis by (simp add: FormatTime_def)
qed

lemma client_report_as_server:
  "client_figures_report dbl r (a, b, c, d) =
     ebind (server_report dbl r) (\<lambda>f. Inr (report.extend f (client_report.fields a b c d)))"
  by (simp add: client_figures_report_def)

text \<open>The summary of programs that could open it: one header, then a row for each run, in order.\<close>

lemma summary_rows:
  "rows \<noteq> [] \<Longrightarrow> fold (append_summary True True) rows None = Some ([ByteOrderMark, Header] @ map Row rows)"
proof (induction rows rule: rev_induct)
  case (snoc row rows)
  then show ?case by (cases "rows = []") (simp_all add: append_summary_def)
qed simp

lemma largest_is: "largest vs = Max (set (0 # vs))"
  by (simp add: largest_def fold_max)

text \<open>The window of a run is no longer than the run.\<close>

lemma window_length:
  assumes "client_window trim m = Inr (ws, we, w, v)" "w \<noteq> []" "0 \<le> trim" "times_ok m"
  shows "chk32 (we - ws) = Inr (we - ws)"
proof -
  have t: "0 \<le> trafficStartSec m" "trafficStartSec m < lastTrafficSec m"
    and we: "we = lastTrafficSec m - trim" and ws: "ws = trafficStartSec m + trim"
    and w: "w = filter (\<lambda>s. ws \<le> ElapsedSec s \<and> ElapsedSec s \<le> we) (samples m)"
    using assms(1,2) by (auto simp: client_window_def ebind_def split: if_splits sum.splits)
      (auto simp: chk32_def split: if_splits)
  from assms(2) w have "ws \<le> we" by (auto simp: filter_empty_conv)
  have "with_traffic m \<noteq> []" using assms(4) t by (auto simp: times_ok_def split: if_splits)
  then have "last (with_traffic m) \<in> set (samples m)" using last_in_set [of "with_traffic m"] by (auto simp: with_traffic_def)
  then have "lastTrafficSec m \<le> 4294967" using assms(4) t by (auto simp: times_ok_def split: if_splits)
  then have "we - ws \<le> 4294967" using t(1) assms(3) by (simp add: we ws)
  then show ?thesis using \<open>ws \<le> we\<close> by simp
qed

lemma report_empty:
  "\<exists>r. server_report dbl (ws, we, [], v) = Inr r \<and> Valid r = v \<and> WindowSamples r = 0 \<and> RecvTPS_avg r = 0 \<and>
     RecvTPS_p50 r = 0 \<and> Mem_slopeMBperHour r = 0"
  by (simp add: server_report_def Let_def Average_def Percentile_def mem_slope_def)

lemma report_figures:
  assumes "rounding dbl 53" "to_nearest dbl" "w \<noteq> []" "length w < 2 ^ 32" "chk32 (we - ws) = Inr (we - ws)"
  shows "\<exists>r. server_report dbl (ws, we, w, v) = Inr r \<and> Valid r = v \<and> WindowSamples r = length w \<and>
     RecvTPS_min r \<le> RecvTPS_p5 r \<and> RecvTPS_p5 r \<le> RecvTPS_p50 r \<and> RecvTPS_p50 r \<le> RecvTPS_p95 r \<and>
     RecvTPS_p95 r \<le> RecvTPS_max r \<and> (\<forall>s \<in> set w. Connected_min r \<le> real_of_int (Connected s) \<and>
     MemProcessMB (Metrics s) \<le> Mem_maxMB r \<and> real_of_int (PoolUse (Metrics s)) \<le> Pool_max r) \<and>
     Mem_startMB r = MemProcessMB (Metrics (hd w)) \<and> Mem_endMB r = MemProcessMB (Metrics (last w))"
proof -
  let ?recv = "map (\<lambda>s. RecvTPS (Metrics s)) w" and ?conn = "map (\<lambda>s. real_of_int (Connected s)) w"
  have n: "?recv \<noteq> []" "length ?recv < 2 ^ 32" using assms(3,4) by simp_all
  have "MinValue ?conn \<le> real_of_int (Connected s)" if "s \<in> set w" for s
    using that assms(3) by (subst MinValue_is) auto
  moreover have "a \<le> largest vs" if "a \<in> set vs" for a vs using that by (simp add: largest_is)
  ultimately show ?thesis
    using assms(3) percentiles_ordered [OF assms(1,2) n] Percentile_between [OF n(1)]
    by (simp add: server_report_def Let_def assms(5) hd_map last_map)
qed

subsection \<open>The property\<close>

text \<open>C36. A run is reported without a fault, whatever happened in it: the figures are those of the window, in which the
  received messages per second are ordered from the smallest over the 5, 50 and 95 percent marks to the largest, no
  sample had fewer connections, more memory or a fuller pool than the report says, and the verdict is the one of the
  run. A run without a window is never reported as valid, and its figures are zero.\<close>

theorem bench_report_of_run:
  assumes "rounding dbl 53" "to_nearest dbl"
    and "m = fst (measure_run (server_turn idle d minutes st) xs new_run) \<or>
       m = fst (measure_run (client_turn c st) xs (new_run\<lparr>validity := v0\<rparr>))"
    and "sorted (map ElapsedSec (samples m))" "length (samples m) < 2 ^ 32" "0 \<le> trimMinutes" "trimMinutes * 60 + 4294967 < 2 ^ 31"
  defines "w \<equiv> filter (inside (trimMinutes * 60) (samples m)) (samples m)"
  shows "\<exists>r. ebind (server_window trimMinutes m) (server_report dbl) = Inr r \<and> WindowSamples r = length w \<and>
    (w = [] \<longrightarrow> Valid r \<noteq> ''OK'' \<and> RecvTPS_avg r = 0 \<and> RecvTPS_p50 r = 0 \<and> Mem_slopeMBperHour r = 0) \<and>
    (w \<noteq> [] \<longrightarrow> Valid r = validity m \<and> RecvTPS_min r \<le> RecvTPS_p5 r \<and> RecvTPS_p5 r \<le> RecvTPS_p50 r \<and>
       RecvTPS_p50 r \<le> RecvTPS_p95 r \<and> RecvTPS_p95 r \<le> RecvTPS_max r \<and>
       (\<forall>s \<in> set w. Connected_min r \<le> real_of_int (Connected s) \<and> MemProcessMB (Metrics s) \<le> Mem_maxMB r \<and>
          real_of_int (PoolUse (Metrics s)) \<le> Pool_max r))"
proof -
  let ?v = "if w = [] \<and> validity m = ''OK'' then ''INVALID(window too short)'' else validity m"
  have n: "times_ok new_run" "times_ok (new_run\<lparr>validity := v0\<rparr>)" by (simp_all add: times_ok_def new_run_def with_traffic_def)
  have t: "times_ok m"
    using assms(3) measure_keeps [of times_ok "server_turn idle d minutes st", OF times_ok_turn(1) n(1)]
      measure_keeps [of times_ok "client_turn c st", OF times_ok_turn(2) n(2)] by auto
  have trim: "0 \<le> trimMinutes * 60" using assms(6) by simp
  obtain ws we where c: "client_window (trimMinutes * 60) m = Inr (ws, we, w, ?v)"
    using window_spec [OF t assms(4) trim assms(7)] unfolding w_def by blast
  then have s: "server_window trimMinutes m = Inr (ws, we, w, ?v)" using assms(6,7) windows_same [of trimMinutes m] by simp
  show ?thesis
  proof (cases "w = []")
    case True
    then show ?thesis using report_empty [of dbl ws we ?v] unfolding s by auto
  next
    case False
    have "length w < 2 ^ 32" using assms(5) le_less_trans [OF length_filter_le] unfolding w_def by blast
    from report_figures [OF assms(1,2) False this window_length [OF c False trim t], of ?v] False
    show ?thesis unfolding s by auto
  qed
qed

definition demo_turn :: "nat \<Rightarrow> figures turn_input" where
  "demo_turn k = \<lparr>quitKey = False, tickCount = of_nat (1000 * k), connectedCnt = 1,
     metrics = \<lparr>Timestamp = [], RecvTPS = real (10 * k), RecvBytes = 0, SendTPS = 0, SendBytes = 0, PoolTotal = 0, PoolUse = 0,
       PoolFree = 0, CpuProcess = 0, CpuProcessor = 0, MemProcessMB = 0\<rparr>\<rparr>"

lemma bench_report_of_run_witness:
  "\<exists>r. ebind (server_window 0 (fst (measure_run (server_turn 60 420 1 0) (map demo_turn [0, 1, 2]) new_run))) (server_report down53) = Inr r \<and>
     WindowSamples r = 3 \<and> Valid r = ''OK'' \<and> RecvTPS_p5 r \<le> RecvTPS_p95 r"
proof -
  let ?m = "fst (measure_run (server_turn 60 420 1 0) (map demo_turn [0, 1, 2]) new_run)"
  have m: "map ElapsedSec (samples ?m) = [0, 1, 2]" "map Connected (samples ?m) = [1, 1, 1]" "validity ?m = ''OK''"
    by (simp_all add: demo_turn_def server_turn_def take_sample_def elapsed_def new_run_def Let_def)
  obtain a b c where abc: "samples ?m = [a, b, c]" using m(1) by (auto simp: map_eq_Cons_conv)
  have e: "sorted (map ElapsedSec (samples ?m))" unfolding m(1) by simp
  have w: "filter (inside 0 (samples ?m)) (samples ?m) = samples ?m"
    using m(1,2) unfolding abc by (simp add: inside_def)
  have l: "length (samples ?m) = 3" unfolding abc by simp
  then have "length (samples ?m) < 2 ^ 32" by simp
  from bench_report_of_run [where m = ?m, OF rounding_down53 to_nearest_down53 disjI1 [OF refl] e this, of 0]
  have "\<exists>r. ebind (server_window 0 ?m) (server_report down53) = Inr r \<and> WindowSamples r = length (samples ?m) \<and>
      Valid r = validity ?m \<and> RecvTPS_p5 r \<le> RecvTPS_p50 r \<and> RecvTPS_p50 r \<le> RecvTPS_p95 r"
    using w l by fastforce
  then show ?thesis unfolding l m(3) by (auto intro: order_trans)
qed

end
