(* ===== verification/Spec2Isabelle.thy ===== *)
theory Spec2Isabelle
  imports IniConfig ServerSessions ServerStats ClientConnect ClientFraming ClientServer EndToEnd
    LockFreeAba LockFreeStack LockFreeQueueAba LockFreeQueueLive ChatJobs ChatPayload DummyRequests DummyWorker ChatLauncher EchoRoundTrip BenchRun
    TlsThreads Singleton ClientStop Monitoring LogFile BenchStatistics BenchReport
begin

text \<open>
  Verification of NetworkLibrary, a C++ library for message-oriented TCP servers and clients on Windows I/O
  completion ports, and of the chat server and the load generator that use it.

  \<^bold>\<open>The program and its model.\<close> A function of the source is a function on an explicit state. Undefined
  behaviour and deliberate crashes are values of \<open>Prelude.fault\<close>, returned as \<open>Inl\<close> of a sum; a loop that may run
  forever is a partial function whose \<open>None\<close> is not returning. Machine integers are words of their width, signed
  \<open>int\<close>s whose overflow is undefined are checked integers, memory blocks are lists of bytes with checked access,
  pointers are indices, addresses or keys of a heap of nodes. What Windows answers (results of socket calls, the
  clock, \<open>rand\<close>, addresses of new blocks) is an argument; the calls made are recorded in the state.

  \<^item> Memory: \<open>TaggedPtr\<close>, \<open>LockFreeCore\<close> (push and pop one shared access at a time), \<open>LockFreeRuns\<close>, \<open>LockFreeAba\<close>,
    \<open>LockFreePool\<close> (whole calls; BaseLibrary/include/LockFreeMemoryPool.h), \<open>LockFreeStack\<close> (LockFreeStack.h),
    \<open>LockFreeQueue\<close> (whole calls; LockFreeQueue.h), \<open>LockFreeQueueSteps\<close> (the queue one shared access at a time) with
    its invariant in \<open>LockFreeQueueInv\<close> and \<open>LockFreeQueueSafe\<close> and its properties in \<open>LockFreeQueueRuns\<close>,
    \<open>LockFreeQueueAba\<close>, \<open>LockFreeQueueLive\<close>; \<open>TlsPool\<close> and \<open>TlsThreads\<close> (threads that end; TLSMemoryPool.h),
    \<open>Singleton\<close> (\<open>GetInstance\<close> of the chunk pool and of the logger), with \<open>Container\<close> the contract of stack and queue.
  \<^item> Messages: \<open>PacketBuffer\<close> (Packet.h, Packet.cpp), \<open>XorEncoder\<close> (IPacketEncoder.h, XorPacketEncoder),
    \<open>Framing\<close> (cutting messages out of a receive buffer).
  \<^item> Server: \<open>Winsock\<close>, \<open>NetServer\<close> (NetServer.h, NetServer.cpp: sessions, packets, sending, receiving, the two kinds
    of threads, start), \<open>ServerStop\<close> (\<open>Stop\<close> with its wait, the destructor), and what the server guarantees in
    \<open>ServerPackets\<close>, \<open>ServerFraming\<close>, \<open>ServerSend\<close>, \<open>SessionId\<close>, \<open>ServerSessions\<close>, \<open>ServerStats\<close>.
  \<^item> Client: \<open>NetClient\<close> (NetClient.h, NetClient.cpp), \<open>ClientConnect\<close>, \<open>ClientServer\<close> (the client's engine is the
    server's), \<open>ClientFraming\<close>, \<open>ClientStop\<close>; \<open>EndToEnd\<close> composes a server with a client.
  \<^item> Base library: \<open>IniConfig\<close>, \<open>IniValues\<close> (Config.h, Config.cpp), \<open>Monitoring\<close> (MonitoringTool.h,
    MonitoringTool.cpp), \<open>LogFile\<close> (Logger.cpp, CrashDump), \<open>BenchStatistics\<close> (Statistics.h).
  \<^item> Chat server (Examples/ChatServer): \<open>ChatMessages\<close> (message layouts), \<open>ChatServer\<close> (Content.h, Content.cpp),
    \<open>ChatRoster\<close> (who is where), \<open>ChatUpdates\<close>, \<open>ChatJobs\<close>, \<open>ChatPayload\<close>.
  \<^item> Load generator (Examples/ChatDummyClient): \<open>DummyClient\<close>, \<open>DummyRequests\<close>, \<open>DummyWorker\<close>; the start of both
    chat programs: \<open>ChatLauncher\<close>.
  \<^item> Echo benchmark (Examples/TestServer, Examples/TestClient): \<open>EchoServer\<close>, \<open>LoadClient\<close>, \<open>EchoRoundTrip\<close> (both
    together), \<open>BenchSettings\<close>, \<open>BenchRun\<close> (the measuring loops), \<open>BenchReport\<close> (figures and files).

  \<^bold>\<open>What the lemmas show.\<close> Packets: typed values come back out as they went in, positions stay inside the block, and
  exactly which writes overrun it. Encoder: \<open>Decode\<close> undoes \<open>Encode\<close>, the in-place loops are two cipher layers, a
  changed last byte is detected; the locale \<open>frame_encoder\<close> is the contract the servers rely on, interpreted by the
  XOR encoder. Framing: every non-empty message that fits a packet is delivered once and in order for every cut of the
  stream into pieces that fit their receive windows; the ways the code overruns a block (a message that does not fit a
  packet, a piece longer than the room of an empty receive packet) are stated beside it. Sessions: reference counts of
  packets equal their holders in every run, identifiers are fresh and lead to their slot, stale ones change nothing.
  Stopping: \<open>Stop\<close> cuts off every session and returns; a connection accepted in between is missed. Lock-free structures:
  in every interleaving of the pool's push and pop inside the tag window each node has exactly one place and the protocol
  refines an abstract stack; a thread alone finishes in any case; outside the window the list breaks. The interleaved
  queue refines a list, loses no node and lets a thread alone finish, as long as the pool hands out no node that is still
  looked at; otherwise it breaks. As whole calls stack and queue refine lists through the locale \<open>bounded_container\<close>.
  Thread-local pool: pointers are never handed out twice and the counters are exact, also across threads that end.
  Single instances: one object is made and everybody gets it. Configuration: the documented flow of getters and one
  check accepts exactly the right files. Chat server: the update thread refines an abstract roster and moves a character
  where the request says, messages reach exactly the neighbouring sectors, clients silent for more than 40000 ms are
  disconnected, relayed bytes are characterised for every request; which requests crash it is stated too. Load generator:
  understood by the server, and safe unless a whole frame of more than 1019 bytes of payload reaches it, which the
  default length limit admits. Benchmark: the client's test messages go there and back and are all counted; percentiles,
  reports and the analysed window are those of the samples. Logger and monitoring: the line written, the process name.

  \<^bold>\<open>Bounds.\<close> A tag has 16 bits: the interleaving invariants of the pool hold for runs in which fewer than 65536 tags are
  drawn while a pop is between its read and its compare-and-swap. Session serial numbers have 48 bits. A message payload
  of 1 to 1004 bytes fits a pooled packet and is delivered. A receive packet has 4096 bytes: behind \<open>n > 0\<close> pending
  bytes there is room for 4096 - n, in an empty one for 4076 (\<open>recv_room\<close>), which is less than the 4096 bytes the code
  posts then; the delivery theorems speak of pieces within the room (\<open>in_windows\<close>; 3072 bytes always are). One
  \<open>SendPost\<close> takes up to 1000 packets. The partial functions need no fuel; each has a theorem that says when it returns.

  \<^bold>\<open>Not modelled.\<close> Creating and joining threads, \<open>Sleep\<close> and the resolution of the timers; races between the handlers
  of one session (handlers run to their end; interleaved at each shared access are the pool's push and pop, the queue and
  \<open>GetInstance\<close>, and at each call the thread-local pools); console output, keyboard loops and the printed widths of
  the reports. \<open>memcpy\<close> on overlapping ranges (\<open>ShiftDataToFront\<close>), which is undefined, is modelled as a move. The unit
  tests call the modelled code and have no operations of their own; Catch2 is third-party code.
\<close>

end
